(* ===== verification/Prelude.thy ===== *)
theory Prelude
  imports Main "HOL-Library.Word" "HOL-Library.Multiset"
begin

section \<open>Shared vocabulary of the development\<close>

text \<open>
  What the components share: bytes, the faults a call can end in, results that carry them, the
  effect of \<^verbatim>\<open>std::copy\<close> on a block of storage, and the reading of a circular block of storage
  as a list, which \<^verbatim>\<open>infra::BoundedDeque\<close>, \<^verbatim>\<open>infra::CyclicBuffer\<close> and the interrupt queues use.
  The collection \<open>ring_simps\<close> carries the proofs about circular storage, \<open>result_simps\<close>
  those about calls that may fail.
\<close>

named_theorems ring_simps "circular storage read as a list"
named_theorems result_simps "sequencing of calls that may fail"

subsection \<open>Bytes and faults\<close>

type_synonym byte = "8 word"

lemma of_nat_byte_inject: "n < 256 \<Longrightarrow> k < 256 \<Longrightarrow> ((of_nat n :: byte) = of_nat k) = (n = k)"
proof
  assume n: "n < 256" "k < 256" and "(of_nat n :: byte) = of_nat k"
  then have "unat (of_nat n :: byte) = unat (of_nat k :: byte)" by simp
  with n show "n = k" by (simp only: unat_of_nat) simp
qed simp

lemma unat_byte_less: "unat (x :: byte) < 256"
  using unsigned_less [of x] by simp

lemma byte_ge_2: "(x :: byte) \<noteq> 0 \<Longrightarrow> x \<noteq> 1 \<Longrightarrow> 2 \<le> unat x"
  by (simp add: word_unat_eq_iff)

text \<open>
  A call ends in \<open>AssertFailed\<close> where the source has a failing \<^verbatim>\<open>assert\<close> or \<^verbatim>\<open>really_assert\<close>,
  in \<open>Aborted\<close> where it calls \<^verbatim>\<open>std::abort\<close>, and in \<open>UndefinedBehaviour\<close> where the C++ text
  gives it no meaning: reading or assigning an object that was never constructed. \<open>OutOfFuel\<close> is not an outcome of
  the code: a loop whose end depends on a reader outside the model is given fuel, and the theorems on it show that
  enough fuel is never used up.
\<close>

datatype fault = AssertFailed | Aborted | UndefinedBehaviour | OutOfFuel

type_synonym 'a result = "fault + 'a"

definition bindR :: "'a result \<Rightarrow> ('a \<Rightarrow> 'b result) \<Rightarrow> 'b result" where
  "bindR m f = (case m of Inl e \<Rightarrow> Inl e | Inr x \<Rightarrow> f x)"

definition checked :: "bool \<Rightarrow> 'a result \<Rightarrow> 'a result" where
  "checked b r = (if b then r else Inl AssertFailed)"

lemma bindR_simps [simp]:
  "bindR (Inl e) f = Inl e"
  "bindR (Inr x) f = f x"
  by (simp_all add: bindR_def)

lemma bindR_assoc: "bindR (bindR m f) g = bindR m (\<lambda>x. bindR (f x) g)"
  by (cases m) simp_all

lemma bindR_Inr_iff [result_simps]:
  "bindR m f = Inr y \<longleftrightarrow> (\<exists>x. m = Inr x \<and> f x = Inr y)"
  by (cases m) simp_all

lemma bindR_cong [fundef_cong]:
  "m = m' \<Longrightarrow> (\<And>x. m' = Inr x \<Longrightarrow> f x = g x) \<Longrightarrow> bindR m f = bindR m' g"
  by (cases m') auto

lemma checked_simps [simp]:
  "checked True r = r"
  "checked False r = Inl AssertFailed"
  by (simp_all add: checked_def)

lemma checked_Inr_iff [result_simps]: "checked b r = Inr y \<longleftrightarrow> b \<and> r = Inr y"
  by (simp add: checked_def)

lemma checked_Inl_iff [result_simps]:
  "checked b r = Inl e \<longleftrightarrow> (\<not> b \<and> e = AssertFailed) \<or> (b \<and> r = Inl e)"
  by (auto simp add: checked_def)

subsection \<open>Division of signed numbers\<close>

text \<open>The operators \<^verbatim>\<open>/\<close> and \<^verbatim>\<open>%\<close> of the language, which round towards zero, for a positive divisor.\<close>

definition int_div :: "int \<Rightarrow> int \<Rightarrow> int" where
  "int_div a b = (if 0 \<le> a then a div b else - ((- a) div b))"

definition int_mod :: "int \<Rightarrow> int \<Rightarrow> int" where
  "int_mod a b = a - int_div a b * b"

lemma int_div_pos [simp]: "0 \<le> a \<Longrightarrow> int_div a b = a div b"
  by (simp add: int_div_def)

lemma int_mod_pos [simp]: "0 \<le> a \<Longrightarrow> int_mod a b = a mod b"
  by (simp add: int_mod_def minus_div_mult_eq_mod)

text \<open>Rounding down, as it is written for negative numbers.\<close>

lemma int_div_floor: "a < 0 \<Longrightarrow> 0 < b \<Longrightarrow> int_div (a - (b - 1)) b = a div b"
proof -
  assume a: "a < 0" and b: "0 < b"
  have r: "0 \<le> b - 1 - a mod b" "b - 1 - a mod b < b" using pos_mod_bound [OF b, of a] pos_mod_sign [OF b, of a] by linarith+
  have "a = b * (a div b) + a mod b" by simp
  then have "- (a - (b - 1)) = (b - 1 - a mod b) + - (a div b) * b" by (simp add: algebra_simps)
  then have "- (a - (b - 1)) div b = - (a div b) + (b - 1 - a mod b) div b" using b by (simp only: div_mult_self1)
  also have "(b - 1 - a mod b) div b = 0" using r by (rule div_pos_pos_trivial)
  finally show ?thesis using a b by (simp add: int_div_def)
qed

subsection \<open>Copying into a block of storage\<close>

text \<open>\<^verbatim>\<open>std::copy(ys.begin(), ys.end(), &xs[i])\<close>, for a destination that lies in the block.\<close>

definition overwrite :: "'a list \<Rightarrow> nat \<Rightarrow> 'a list \<Rightarrow> 'a list" where
  "overwrite xs i ys = take i xs @ ys @ drop (i + length ys) xs"

lemma length_overwrite [simp]:
  "i + length ys \<le> length xs \<Longrightarrow> length (overwrite xs i ys) = length xs"
  by (simp add: overwrite_def)

lemma overwrite_Nil [simp]: "i \<le> length xs \<Longrightarrow> overwrite xs i [] = xs"
  by (simp add: overwrite_def)

lemma nth_overwrite:
  assumes "i + length ys \<le> length xs" and "j < length xs"
  shows "overwrite xs i ys ! j = (if i \<le> j \<and> j < i + length ys then ys ! (j - i) else xs ! j)"
  using assms by (auto simp: overwrite_def nth_append min_def nth_drop)

lemma overwrite_Cons:
  assumes "i < length s"
  shows "overwrite (s[i := x]) (Suc i) xs = overwrite s i (x # xs)"
  using assms by (simp add: overwrite_def take_Suc_conv_app_nth)

subsection \<open>Circular storage\<close>

text \<open>\<open>ring xs s n\<close> reads \<open>n\<close> elements of the circular block \<open>xs\<close> from position \<open>s\<close> on.\<close>

definition ring :: "'a list \<Rightarrow> nat \<Rightarrow> nat \<Rightarrow> 'a list" where
  "ring xs s n = map (\<lambda>i. xs ! ((s + i) mod length xs)) [0..<n]"

lemma length_ring [simp]: "length (ring xs s n) = n"
  by (simp add: ring_def)

lemma ring_0 [simp]: "ring xs s 0 = []"
  by (simp add: ring_def)

lemma ring_eq_Nil [simp]: "ring xs s n = [] \<longleftrightarrow> n = 0"
  by (simp add: ring_def)

lemma nth_ring [ring_simps]: "i < n \<Longrightarrow> ring xs s n ! i = xs ! ((s + i) mod length xs)"
  by (simp add: ring_def)

lemma ring_cong_nth:
  assumes "length xs = length ys"
    and "\<And>i. i < n \<Longrightarrow> xs ! ((s + i) mod length xs) = ys ! ((s + i) mod length xs)"
  shows "ring xs s n = ring ys s n"
  using assms by (simp add: ring_def)

lemma ring_mod: "ring xs (s mod length xs) n = ring xs s n"
  by (simp add: ring_def mod_add_left_eq)

lemma ring_append: "ring xs s (m + n) = ring xs s m @ ring xs (s + m) n"
  by (rule nth_equalityI) (auto simp: nth_append nth_ring add.assoc)

lemma take_ring [ring_simps]: "take k (ring xs s n) = ring xs s (min k n)"
  by (simp add: ring_def take_map min_def)

lemma drop_ring: "drop k (ring xs s n) = ring xs (s + k) (n - k)"
  by (rule nth_equalityI) (auto simp: nth_ring add.assoc)

lemma mod_add_inj:
  fixes s i j N :: nat
  assumes eq: "(s + i) mod N = (s + j) mod N" and "i < N" and "j < N"
  shows "i = j"
proof -
  have "int N dvd int (s + i) - int (s + j)"
    using eq by (metis mod_eq_dvd_iff zmod_int)
  then have "int N dvd int i - int j" by simp
  then show ?thesis
    using assms(2,3) zdvd_not_zless [of "int i - int j" "int N"] zdvd_not_zless [of "int j - int i" "int N"]
    by (metis (mono_tags, lifting) dvd_diff_commute linorder_neqE_nat of_nat_0_le_iff
        diff_gt_0_iff_gt of_nat_less_iff add.commute diff_less_eq less_le_trans
        le_add_same_cancel2)
qed

text \<open>Writing outside the elements that are read changes nothing.\<close>

lemma ring_update_outside [ring_simps]:
  assumes "n \<le> k" and "k < length xs"
  shows "ring (xs[(s + k) mod length xs := x]) s n = ring xs s n"
proof (rule ring_cong_nth)
  fix i assume "i < n"
  then have "(s + i) mod length xs \<noteq> (s + k) mod length xs"
    using assms mod_add_inj [of s i "length xs" k] by auto
  then show "xs[(s + k) mod length xs := x] ! ((s + i) mod length (xs[(s + k) mod length xs := x]))
    = xs ! ((s + i) mod length (xs[(s + k) mod length xs := x]))"
    by simp
qed simp

lemma ring_update_inside [ring_simps]:
  assumes "k < n" and "n \<le> length xs"
  shows "ring (xs[(s + k) mod length xs := x]) s n = (ring xs s n)[k := x]"
proof (rule nth_equalityI)
  fix i assume i: "i < length (ring (xs[(s + k) mod length xs := x]) s n)"
  have "(s + k) mod length xs < length xs"
    using assms by (intro mod_less_divisor) linarith
  moreover have "(s + i) mod length xs = (s + k) mod length xs \<longleftrightarrow> i = k"
    using assms i mod_add_inj [of s i "length xs" k] by auto
  ultimately show "ring (xs[(s + k) mod length xs := x]) s n ! i = (ring xs s n)[k := x] ! i"
    using i by (auto simp: nth_ring nth_list_update)
qed simp

lemma ring_snoc [ring_simps]:
  assumes "n < length xs"
  shows "ring (xs[(s + n) mod length xs := x]) s (Suc n) = ring xs s n @ [x]"
proof -
  have "ring (xs[(s + n) mod length xs := x]) s (Suc n) = (ring xs s (Suc n))[n := x]"
    using assms by (intro ring_update_inside) auto
  also have "ring xs s (Suc n) = ring xs s n @ ring xs (s + n) 1"
    using ring_append [of xs s n 1] by simp
  finally show ?thesis by (simp add: list_update_append ring_def)
qed

lemma ring_cons:
  assumes "n < length xs" and "(t + 1) mod length xs = s mod length xs" and "t < length xs"
  shows "ring (xs[t := x]) t (Suc n) = x # ring xs s n"
proof (rule nth_equalityI)
  fix i assume i: "i < length (ring (xs[t := x]) t (Suc n))"
  show "ring (xs[t := x]) t (Suc n) ! i = (x # ring xs s n) ! i"
  proof (cases i)
    case 0
    then show ?thesis using assms by (simp add: nth_ring)
  next
    case (Suc j)
    have "(t + i) mod length xs = (s + j) mod length xs"
      using Suc assms(2) by (metis Suc_eq_plus1_left add.assoc mod_add_left_eq)
    moreover have "(t + i) mod length xs \<noteq> (t + 0) mod length xs"
    proof
      assume "(t + i) mod length xs = (t + 0) mod length xs"
      moreover have "i < length xs" and "0 < length xs" using assms(1) i by auto
      ultimately have "i = 0" by (rule mod_add_inj)
      with Suc show False by simp
    qed
    ultimately show ?thesis using Suc i assms(3) by (simp add: nth_ring)
  qed
qed simp

lemma ring_contiguous: "s + n \<le> length xs \<Longrightarrow> ring xs s n = take n (drop s xs)"
  by (rule nth_equalityI) (auto simp: nth_ring)

text \<open>A block written circularly behind the elements that are read is appended to them.\<close>

lemma ring_append_block:
  assumes "length zs = length xs"
    and "\<And>i. i < n \<Longrightarrow> zs ! ((s + i) mod length xs) = xs ! ((s + i) mod length xs)"
    and "\<And>k. k < length ys \<Longrightarrow> zs ! ((s + n + k) mod length xs) = ys ! k"
  shows "ring zs s (n + length ys) = ring xs s n @ ys"
proof (rule nth_equalityI)
  fix i assume "i < length (ring zs s (n + length ys))"
  with assms(1,2) assms(3) [of "i - n"]
  show "ring zs s (n + length ys) ! i = (ring xs s n @ ys) ! i"
    by (auto simp: nth_append nth_ring)
qed simp

lemma mod_add_once: "a < N \<Longrightarrow> b \<le> N \<Longrightarrow> (a + b) mod N = (if a + b < N then a + b else a + b - N)"
  for a b N :: nat
  by (simp add: mod_if)

end
