(* ===== verification/Memory_Range.thy ===== *)
theory Memory_Range
  imports Prelude
begin

section \<open>Ranges of memory: infra/util/MemoryRange.hpp\<close>

text \<open>
  A \<^verbatim>\<open>MemoryRange\<close> is a pair of pointers into a block of elements. The block is a list and a
  pointer is an index into it; a default constructed range holds two equal null pointers, which
  the model writes as the empty range at 0. \<open>mr_slice mem r\<close> is the sequence of elements a range
  denotes. The theorems say how the operations that cut a range up act on that sequence.
\<close>

record mrange =
  beginElement :: nat
  endElement :: nat

definition mr_null :: mrange where
  "mr_null = \<lparr>beginElement = 0, endElement = 0\<rparr>"

definition mr_make :: "nat \<Rightarrow> nat \<Rightarrow> mrange" where
  "mr_make b e = \<lparr>beginElement = b, endElement = e\<rparr>"

definition mr_empty :: "mrange \<Rightarrow> bool" where
  "mr_empty r \<longleftrightarrow> beginElement r = endElement r"

definition mr_size :: "mrange \<Rightarrow> nat" where
  "mr_size r = endElement r - beginElement r"

definition mr_index :: "'a list \<Rightarrow> mrange \<Rightarrow> nat \<Rightarrow> 'a result" where
  "mr_index mem r i = checked (i < mr_size r) (Inr (mem ! (beginElement r + i)))"

definition mr_eq :: "mrange \<Rightarrow> mrange \<Rightarrow> bool" where
  "mr_eq r s \<longleftrightarrow> (mr_empty r \<and> mr_empty s)
     \<or> (beginElement r = beginElement s \<and> endElement r = endElement s)"

definition mr_contains :: "mrange \<Rightarrow> nat \<Rightarrow> bool" where
  "mr_contains r p \<longleftrightarrow> beginElement r \<le> p \<and> p < endElement r"

definition mr_contains_or_end :: "mrange \<Rightarrow> nat \<Rightarrow> bool" where
  "mr_contains_or_end r p \<longleftrightarrow> beginElement r \<le> p \<and> p \<le> endElement r"

definition mr_pop_front :: "mrange \<Rightarrow> nat \<Rightarrow> mrange result" where
  "mr_pop_front r num = checked (num \<le> mr_size r) (Inr (r\<lparr>beginElement := beginElement r + num\<rparr>))"

definition mr_pop_back :: "mrange \<Rightarrow> nat \<Rightarrow> mrange result" where
  "mr_pop_back r num = checked (num \<le> mr_size r) (Inr (r\<lparr>endElement := endElement r - num\<rparr>))"

definition mr_shrink_from_front_to :: "mrange \<Rightarrow> nat \<Rightarrow> mrange" where
  "mr_shrink_from_front_to r newSize =
     (if newSize < mr_size r then r\<lparr>beginElement := endElement r - newSize\<rparr> else r)"

definition mr_shrink_from_back_to :: "mrange \<Rightarrow> nat \<Rightarrow> mrange" where
  "mr_shrink_from_back_to r newSize =
     (if newSize < mr_size r then r\<lparr>endElement := beginElement r + newSize\<rparr> else r)"

definition Head :: "mrange \<Rightarrow> nat \<Rightarrow> mrange" where
  "Head r n = mr_shrink_from_back_to r n"

definition Tail :: "mrange \<Rightarrow> nat \<Rightarrow> mrange" where
  "Tail r n = mr_shrink_from_front_to r n"

text \<open>
  In \<^verbatim>\<open>DiscardHead\<close> and \<^verbatim>\<open>DiscardTail\<close> the test before the pop makes the assertion of
  \<^verbatim>\<open>pop_front\<close> and \<^verbatim>\<open>pop_back\<close> hold, so the record update is written out.
\<close>

definition DiscardHead :: "mrange \<Rightarrow> nat \<Rightarrow> mrange" where
  "DiscardHead r n =
     (if mr_size r \<le> n then mr_null else r\<lparr>beginElement := beginElement r + n\<rparr>)"

definition DiscardTail :: "mrange \<Rightarrow> nat \<Rightarrow> mrange" where
  "DiscardTail r n =
     (if mr_size r \<le> n then mr_null else r\<lparr>endElement := endElement r - n\<rparr>)"

definition IntersectingRange :: "mrange \<Rightarrow> mrange \<Rightarrow> mrange" where
  "IntersectingRange x y =
     (if beginElement x > endElement y \<or> endElement x < beginElement y then mr_null
      else mr_make (max (beginElement x) (beginElement y)) (min (endElement x) (endElement y)))"

text \<open>\<^verbatim>\<open>std::find\<close> over the elements from index \<open>i\<close> up to \<open>e\<close>: the first match, or \<open>e\<close>.\<close>

function std_find :: "'a list \<Rightarrow> nat \<Rightarrow> nat \<Rightarrow> 'a \<Rightarrow> nat" where
  "std_find mem i e x = (if i < e \<and> mem ! i \<noteq> x then std_find mem (Suc i) e x else i)"
  by pat_completeness auto
termination
  by (relation "measure (\<lambda>(mem, i, e, x). e - i)") auto

declare std_find.simps [simp del]

definition FindAndSplit :: "'a list \<Rightarrow> mrange \<Rightarrow> 'a \<Rightarrow> mrange \<times> mrange" where
  "FindAndSplit mem r search =
     (let position = std_find mem (beginElement r) (endElement r) search
      in (mr_make (beginElement r) position, mr_make position (endElement r)))"

definition mr_slice :: "'a list \<Rightarrow> mrange \<Rightarrow> 'a list" where
  "mr_slice mem r = take (mr_size r) (drop (beginElement r) mem)"

text \<open>\<^verbatim>\<open>Copy\<close> writes the elements of one range over another of the same size, possibly in another block.\<close>

definition Copy :: "'a list \<Rightarrow> mrange \<Rightarrow> 'a list \<Rightarrow> mrange \<Rightarrow> 'a list result" where
  "Copy src from dst to =
     checked (mr_size from = mr_size to) (Inr (overwrite dst (beginElement to) (mr_slice src from)))"

definition ContentsEqual :: "'a list \<Rightarrow> mrange \<Rightarrow> 'a list \<Rightarrow> mrange \<Rightarrow> bool" where
  "ContentsEqual mem1 x mem2 y \<longleftrightarrow> mr_size x = mr_size y \<and>
     (\<forall>i\<in>{0..<mr_size x}. mem1 ! (beginElement x + i) = mem2 ! (beginElement y + i))"

subsection \<open>Ranges that lie in their block\<close>

definition mr_wf :: "'a list \<Rightarrow> mrange \<Rightarrow> bool" where
  "mr_wf mem r \<longleftrightarrow> beginElement r \<le> endElement r \<and> endElement r \<le> length mem"

lemmas mr_defs = mr_null_def mr_make_def mr_empty_def mr_size_def mr_wf_def
  mr_shrink_from_back_to_def mr_shrink_from_front_to_def

lemma length_mr_slice [simp]: "mr_wf mem r \<Longrightarrow> length (mr_slice mem r) = mr_size r"
  by (auto simp: mr_slice_def mr_defs)

lemma mr_wf_cut:
  assumes "mr_wf mem r"
  shows "mr_wf mem (Head r n)" "mr_wf mem (Tail r n)"
    "mr_wf mem (DiscardHead r n)" "mr_wf mem (DiscardTail r n)"
  using assms by (auto simp: Head_def Tail_def DiscardHead_def DiscardTail_def mr_defs)

lemma mr_slice_Head: "mr_wf mem r \<Longrightarrow> mr_slice mem (Head r n) = take n (mr_slice mem r)"
  by (auto simp: mr_slice_def Head_def mr_defs)

lemma mr_slice_DiscardHead: "mr_wf mem r \<Longrightarrow> mr_slice mem (DiscardHead r n) = drop n (mr_slice mem r)"
  by (auto simp: mr_slice_def DiscardHead_def mr_defs drop_take add.commute)

lemma mr_slice_Tail: "mr_wf mem r \<Longrightarrow> mr_slice mem (Tail r n) = drop (mr_size r - n) (mr_slice mem r)"
  by (auto simp: mr_slice_def Tail_def mr_defs drop_take)

lemma mr_slice_DiscardTail:
  "mr_wf mem r \<Longrightarrow> mr_slice mem (DiscardTail r n) = take (mr_size r - n) (mr_slice mem r)"
  by (auto simp: mr_slice_def DiscardTail_def mr_defs add.commute)

lemmas mr_slice_cut = mr_slice_Head mr_slice_Tail mr_slice_DiscardHead mr_slice_DiscardTail

text \<open>
  Cutting a range up loses nothing: \<^verbatim>\<open>Head\<close> and \<^verbatim>\<open>DiscardHead\<close> of one size are the first
  elements and the rest, \<^verbatim>\<open>DiscardTail\<close> and \<^verbatim>\<open>Tail\<close> the elements before and the last ones, for every
  size, also one past the end of the range, and the results stay in the block.
\<close>

theorem cut_range_partition:
  assumes "mr_wf mem r"
  shows "mr_slice mem (Head r n) = take n (mr_slice mem r)
    \<and> mr_slice mem (Head r n) @ mr_slice mem (DiscardHead r n) = mr_slice mem r
    \<and> mr_slice mem (DiscardTail r n) @ mr_slice mem (Tail r n) = mr_slice mem r
    \<and> length (mr_slice mem (Tail r n)) = min n (mr_size r)
    \<and> mr_wf mem (Head r n) \<and> mr_wf mem (Tail r n)
    \<and> mr_wf mem (DiscardHead r n) \<and> mr_wf mem (DiscardTail r n)"
  using assms by (simp add: mr_slice_cut mr_wf_cut)

theorem cut_range_partition_witness:
  "mr_slice [1, 2, 3, 4, 5::nat] (Head (mr_make 1 4) 2) = [2, 3]
   \<and> mr_slice [1, 2, 3, 4, 5::nat] (Head (mr_make 1 4) 2)
       @ mr_slice [1, 2, 3, 4, 5::nat] (DiscardHead (mr_make 1 4) 2) = [2, 3, 4]"
proof -
  have wf: "mr_wf [1, 2, 3, 4, 5::nat] (mr_make 1 4)" by (simp add: mr_defs)
  have whole: "mr_slice [1, 2, 3, 4, 5::nat] (mr_make 1 4) = [2, 3, 4]"
    by (simp add: mr_slice_def mr_defs)
  show ?thesis using cut_range_partition [OF wf, of 2] unfolding whole by auto
qed

subsection \<open>Searching\<close>

lemma std_find_props:
  assumes "i \<le> e"
  shows "i \<le> std_find mem i e x \<and> std_find mem i e x \<le> e
    \<and> (\<forall>j. i \<le> j \<and> j < std_find mem i e x \<longrightarrow> mem ! j \<noteq> x)
    \<and> (std_find mem i e x < e \<longrightarrow> mem ! std_find mem i e x = x)"
  using assms
proof (induction mem i e x rule: std_find.induct)
  case (1 mem i e x)
  show ?case
  proof (cases "i < e \<and> mem ! i \<noteq> x")
    case True
    with "1.IH" have ih: "Suc i \<le> std_find mem (Suc i) e x \<and> std_find mem (Suc i) e x \<le> e
      \<and> (\<forall>j. Suc i \<le> j \<and> j < std_find mem (Suc i) e x \<longrightarrow> mem ! j \<noteq> x)
      \<and> (std_find mem (Suc i) e x < e \<longrightarrow> mem ! std_find mem (Suc i) e x = x)" by simp
    have "mem ! j \<noteq> x" if "i \<le> j" "j < std_find mem (Suc i) e x" for j
      using that True ih by (cases "j = i") auto
    with True ih show ?thesis by (simp add: std_find.simps [of mem i e x])
  next
    case False
    with "1.prems" show ?thesis by (auto simp: std_find.simps [of mem i e x])
  qed
qed

lemma mr_slice_split:
  assumes "b \<le> p" "p \<le> e" "e \<le> length mem"
  shows "mr_slice mem (mr_make b p) @ mr_slice mem (mr_make p e) = mr_slice mem (mr_make b e)"
proof -
  have "take (p - b) (drop b mem) @ take (e - p) (drop p mem) = take (p - b + (e - p)) (drop b mem)"
    using assms by (simp only: take_add drop_drop) simp
  moreover have "p - b + (e - p) = e - b" using assms by simp
  ultimately show ?thesis by (simp add: mr_slice_def mr_defs)
qed

text \<open>
  \<^verbatim>\<open>FindAndSplit\<close> splits a range at the first occurrence of the element searched for: the
  first part holds no such element, the second is empty or starts with it, and together they are
  the whole range.
\<close>

theorem FindAndSplit_first_occurrence:
  assumes "mr_wf mem r" and "FindAndSplit mem r x = (pre, post)"
  shows "mr_slice mem pre @ mr_slice mem post = mr_slice mem r \<and> x \<notin> set (mr_slice mem pre)
    \<and> (mr_slice mem post = [] \<or> hd (mr_slice mem post) = x)
    \<and> mr_slice mem pre = takeWhile (\<lambda>y. y \<noteq> x) (mr_slice mem r)"
proof -
  define p where "p = std_find mem (beginElement r) (endElement r) x"
  have r: "mr_make (beginElement r) (endElement r) = r" by (simp add: mr_make_def)
  have pp: "pre = mr_make (beginElement r) p" "post = mr_make p (endElement r)"
    using assms(2) by (auto simp: FindAndSplit_def p_def Let_def)
  have b: "beginElement r \<le> p" "p \<le> endElement r" "endElement r \<le> length mem"
    using assms(1) std_find_props [of "beginElement r" "endElement r" mem x] by (auto simp: p_def mr_wf_def)
  have whole: "mr_slice mem pre @ mr_slice mem post = mr_slice mem r"
    using mr_slice_split [OF b] by (simp add: pp r)
  have no: "x \<notin> set (mr_slice mem pre)"
    using assms(1) std_find_props [of "beginElement r" "endElement r" mem x] b
    by (auto simp: pp mr_slice_def mr_defs p_def in_set_conv_nth)
  have first: "mr_slice mem post = [] \<or> hd (mr_slice mem post) = x"
  proof (cases "p < endElement r")
    case True
    then have "mem ! p = x"
      using assms(1) std_find_props [of "beginElement r" "endElement r" mem x] by (auto simp: p_def mr_wf_def)
    with True b show ?thesis by (simp add: pp mr_slice_def mr_defs hd_drop_conv_nth)
  qed (simp add: pp mr_slice_def mr_defs)
  have "takeWhile (\<lambda>y. y \<noteq> x) (mr_slice mem pre @ mr_slice mem post) = mr_slice mem pre"
    using no first by (subst takeWhile_append2) (auto simp: takeWhile_eq_Nil_iff)
  with whole no first show ?thesis by simp
qed

theorem FindAndSplit_first_occurrence_witness:
  "\<exists>pre post. FindAndSplit [7, 1, 0, 2, 0::nat] (mr_make 0 5) 0 = (pre, post)
     \<and> mr_slice [7, 1, 0, 2, 0::nat] pre = [7, 1]"
proof -
  have wf: "mr_wf [7, 1, 0, 2, 0::nat] (mr_make 0 5)" by (simp add: mr_defs)
  obtain pre post where fs: "FindAndSplit [7, 1, 0, 2, 0::nat] (mr_make 0 5) 0 = (pre, post)"
    by fastforce
  have whole: "mr_slice [7, 1, 0, 2, 0::nat] (mr_make 0 5) = [7, 1, 0, 2, 0]"
    by (simp add: mr_slice_def mr_defs)
  show ?thesis
    using FindAndSplit_first_occurrence [OF wf fs] fs unfolding whole by auto
qed

text \<open>
  \<^verbatim>\<open>IntersectingRange\<close> holds exactly the positions that both ranges hold.
\<close>

theorem IntersectingRange_is_intersection:
  assumes "beginElement x \<le> endElement x" and "beginElement y \<le> endElement y"
  shows "mr_contains (IntersectingRange x y) p \<longleftrightarrow> mr_contains x p \<and> mr_contains y p"
  using assms by (auto simp: IntersectingRange_def mr_contains_def mr_defs)

theorem IntersectingRange_is_intersection_witness:
  "mr_contains (IntersectingRange (mr_make 2 6) (mr_make 4 9)) 5
   \<and> \<not> mr_contains (IntersectingRange (mr_make 2 6) (mr_make 4 9)) 6"
proof -
  have "beginElement (mr_make 2 6) \<le> endElement (mr_make 2 6)"
    and "beginElement (mr_make 4 9) \<le> endElement (mr_make 4 9)" by (simp_all add: mr_make_def)
  from IntersectingRange_is_intersection [OF this, of 5] IntersectingRange_is_intersection [OF this, of 6]
  show ?thesis by (simp add: mr_contains_def mr_make_def)
qed

end
