(* ===== verification/Cyclic_Buffer.thy ===== *)
theory Cyclic_Buffer
  imports Memory_Range
begin

section \<open>The cyclic buffer: infra/util/CyclicBuffer.hpp\<close>

text \<open>
  \<^verbatim>\<open>CyclicBuffer\<close> keeps a front and a back pointer into a block of storage and a flag that tells a
  full buffer from an empty one. The pointers are indices. \<open>cb_list\<close> is the sequence a buffer
  holds; the theorems say what each operation does to that sequence, that the invariant
  \<open>cb_inv\<close> is kept, and that \<^verbatim>\<open>PopInto\<close>, a loop over contiguous parts, ends.
\<close>

record 'a cyclic_buffer =
  cb_storage :: "'a list"
  cb_front :: nat
  cb_back :: nat
  cb_isFull :: bool

definition cb_make :: "'a list \<Rightarrow> 'a cyclic_buffer" where
  "cb_make aStorage = \<lparr>cb_storage = aStorage, cb_front = 0, cb_back = 0, cb_isFull = False\<rparr>"

definition cb_end :: "'a cyclic_buffer \<Rightarrow> nat" where
  "cb_end b = length (cb_storage b)"

definition cb_Empty :: "'a cyclic_buffer \<Rightarrow> bool" where
  "cb_Empty b \<longleftrightarrow> cb_front b = cb_back b \<and> \<not> cb_isFull b"

definition cb_Full :: "'a cyclic_buffer \<Rightarrow> bool" where
  "cb_Full b \<longleftrightarrow> cb_isFull b"

definition cb_Size :: "'a cyclic_buffer \<Rightarrow> nat" where
  "cb_Size b =
     (if cb_isFull b then length (cb_storage b)
      else if cb_back b < cb_front b then (cb_end b - cb_front b) + cb_back b
      else cb_back b - cb_front b)"

definition cb_Available :: "'a cyclic_buffer \<Rightarrow> nat" where
  "cb_Available b = length (cb_storage b) - cb_Size b"

definition cb_Push :: "'a \<Rightarrow> 'a cyclic_buffer \<Rightarrow> 'a cyclic_buffer result" where
  "cb_Push data b = checked (\<not> cb_Full b)
     (let b1 = b\<lparr>cb_storage := (cb_storage b)[cb_back b := data], cb_back := cb_back b + 1\<rparr>;
          b2 = (if cb_back b1 = cb_end b1 then b1\<lparr>cb_back := 0\<rparr> else b1)
      in Inr (if cb_front b2 = cb_back b2 then b2\<lparr>cb_isFull := True\<rparr> else b2))"

definition cb_Push_range :: "'a list \<Rightarrow> 'a cyclic_buffer \<Rightarrow> 'a cyclic_buffer result" where
  "cb_Push_range data b = checked (length data \<le> length (cb_storage b) - cb_Size b)
     (let size = min (length data) (cb_end b - cb_back b);
          b1 = b\<lparr>cb_storage := overwrite (cb_storage b) (cb_back b) (take size data),
                 cb_back := cb_back b + size\<rparr>;
          b2 = (if cb_back b1 = cb_end b1 then b1\<lparr>cb_back := 0\<rparr> else b1);
          b3 = (if size < length data
                then b2\<lparr>cb_storage := overwrite (cb_storage b2) (cb_back b2) (drop size data),
                        cb_back := cb_back b2 + (length data - size)\<rparr>
                else b2)
      in Inr (if data \<noteq> [] \<and> cb_front b3 = cb_back b3 then b3\<lparr>cb_isFull := True\<rparr> else b3))"

definition cb_Pop :: "nat \<Rightarrow> 'a cyclic_buffer \<Rightarrow> 'a cyclic_buffer" where
  "cb_Pop numToPop b =
     (let b1 = (if numToPop \<noteq> 0 then b\<lparr>cb_isFull := False\<rparr> else b);
          wraps = numToPop \<ge> cb_end b1 - cb_front b1;
          num = (if wraps then numToPop - (cb_end b1 - cb_front b1) else numToPop);
          b2 = (if wraps then b1\<lparr>cb_front := 0\<rparr> else b1);
          b3 = b2\<lparr>cb_front := cb_front b2 + num\<rparr>
      in if cb_Empty b3 then b3\<lparr>cb_front := 0, cb_back := 0\<rparr> else b3)"

definition cb_ContiguousRange :: "nat \<Rightarrow> 'a cyclic_buffer \<Rightarrow> mrange result" where
  "cb_ContiguousRange offset b = checked (offset = 0 \<or> offset < cb_Size b)
     (if cb_Empty b then Inr mr_null
      else let offsetFront = (if cb_front b + offset \<ge> cb_end b
                              then cb_front b + offset - cb_end b else cb_front b + offset)
           in if offsetFront \<ge> cb_back b then Inr (mr_make offsetFront (cb_end b))
              else Inr (mr_make offsetFront (cb_back b)))"

text \<open>
  The loop of \<^verbatim>\<open>PopInto\<close>: \<open>n\<close> elements of the destination are still to be filled, \<open>acc\<close> is what
  was copied. \<open>None\<close> is a loop that does not end.
\<close>

partial_function (option) cb_PopInto_loop ::
    "nat \<Rightarrow> 'a cyclic_buffer \<Rightarrow> 'a list \<Rightarrow> ('a list \<times> 'a cyclic_buffer) result option" where
  "cb_PopInto_loop n b acc =
     (if n = 0 then Some (Inr (acc, b))
      else case cb_ContiguousRange 0 b of
             Inl e \<Rightarrow> Some (Inl e)
           | Inr r \<Rightarrow>
               (let chunk = Head r n
                in cb_PopInto_loop (n - mr_size chunk) (cb_Pop (mr_size chunk) b)
                     (acc @ mr_slice (cb_storage b) chunk)))"

definition cb_PopInto :: "nat \<Rightarrow> 'a cyclic_buffer \<Rightarrow> ('a list \<times> 'a cyclic_buffer) result option" where
  "cb_PopInto n b = (if cb_Size b \<ge> n then cb_PopInto_loop n b [] else Some (Inl AssertFailed))"

subsection \<open>Invariant and contents\<close>

definition cb_inv :: "'a cyclic_buffer \<Rightarrow> bool" where
  "cb_inv b \<longleftrightarrow> cb_front b < cb_end b \<and> cb_back b < cb_end b
     \<and> (cb_isFull b \<longrightarrow> cb_front b = cb_back b)"

definition cb_list :: "'a cyclic_buffer \<Rightarrow> 'a list" where
  "cb_list b = ring (cb_storage b) (cb_front b) (cb_Size b)"

lemmas cb_defs = cb_end_def cb_Empty_def cb_Full_def cb_Size_def cb_inv_def

lemma length_cb_list [simp]: "length (cb_list b) = cb_Size b"
  by (simp add: cb_list_def)

lemma cb_Size_le: "cb_inv b \<Longrightarrow> cb_Size b \<le> length (cb_storage b)"
  by (auto simp: cb_defs)

lemma cb_Empty_iff: "cb_inv b \<Longrightarrow> cb_Empty b \<longleftrightarrow> cb_Size b = 0"
  by (auto simp: cb_defs)

lemma cb_Full_iff: "cb_inv b \<Longrightarrow> cb_Full b \<longleftrightarrow> cb_Size b = length (cb_storage b)"
  by (auto simp: cb_defs)

text \<open>The back pointer is where the next element goes.\<close>

lemma cb_back_eq: "cb_inv b \<Longrightarrow> (cb_front b + cb_Size b) mod length (cb_storage b) = cb_back b"
  by (auto simp: cb_defs mod_if)

lemma cb_make_correct:
  "xs \<noteq> [] \<Longrightarrow> cb_inv (cb_make xs) \<and> cb_list (cb_make xs) = []"
  by (simp add: cb_make_def cb_defs cb_list_def)

subsection \<open>Pushing one element\<close>

text \<open>
  A buffer whose pointers are \<open>f\<close> and \<open>f + n\<close> around the block, and whose flag is set exactly when
  all of the block is in use, has size \<open>n\<close>.
\<close>

lemma cb_Size_of_pointers:
  assumes "f < N" "n \<le> N" "length xs = N"
  shows "cb_Size \<lparr>cb_storage = xs, cb_front = f, cb_back = (f + n) mod N, cb_isFull = (n = N)\<rparr> = n"
    and "n \<noteq> 0 \<or> \<not> full \<Longrightarrow> cb_inv \<lparr>cb_storage = xs, cb_front = f, cb_back = (f + n) mod N, cb_isFull = (n = N)\<rparr>"
  using assms by (auto simp: cb_defs mod_if)

lemma cb_Push_pointers:
  assumes "cb_inv b" and "\<not> cb_Full b"
  shows "cb_Push x b = Inr \<lparr>cb_storage = (cb_storage b)[cb_back b := x], cb_front = cb_front b,
     cb_back = (cb_front b + Suc (cb_Size b)) mod length (cb_storage b),
     cb_isFull = (Suc (cb_Size b) = length (cb_storage b))\<rparr>"
proof -
  have "(cb_front b + Suc (cb_Size b)) mod length (cb_storage b)
    = (if Suc (cb_back b) = cb_end b then 0 else Suc (cb_back b))"
    using cb_back_eq [OF assms(1)] by (simp add: cb_end_def mod_Suc)
  with assms show ?thesis
    by (cases b) (auto simp: cb_Push_def Let_def cb_defs split: if_splits)
qed

lemma cb_Push_correct:
  assumes inv: "cb_inv b" and nf: "\<not> cb_Full b"
  shows "\<exists>b'. cb_Push x b = Inr b' \<and> cb_inv b' \<and> cb_list b' = cb_list b @ [x]
    \<and> cb_end b' = cb_end b"
proof -
  let ?N = "length (cb_storage b)"
  let ?b' = "\<lparr>cb_storage = (cb_storage b)[cb_back b := x], cb_front = cb_front b,
     cb_back = (cb_front b + Suc (cb_Size b)) mod ?N, cb_isFull = (Suc (cb_Size b) = ?N)\<rparr>"
  have f: "cb_front b < ?N" and n: "cb_Size b < ?N"
    using inv nf cb_Size_le [OF inv] cb_Full_iff [OF inv] by (auto simp: cb_inv_def cb_end_def)
  from f n have "cb_Size ?b' = Suc (cb_Size b)" and "cb_inv ?b'"
    using cb_Size_of_pointers [of "cb_front b" ?N "Suc (cb_Size b)" "(cb_storage b)[cb_back b := x]"]
    by auto
  moreover have "cb_list ?b' = cb_list b @ [x]"
    using ring_snoc [OF n, of "cb_front b" x] calculation(1)
    by (simp add: cb_list_def cb_back_eq [OF inv])
  ultimately show ?thesis
    using cb_Push_pointers [OF inv nf, of x] by (auto simp: cb_end_def)
qed

subsection \<open>Pushing a range\<close>

lemma cb_Push_range_pointers:
  assumes inv: "cb_inv b" and room: "length data \<le> length (cb_storage b) - cb_Size b"
  obtains xs where "cb_Push_range data b = Inr \<lparr>cb_storage = xs, cb_front = cb_front b,
     cb_back = (cb_front b + (cb_Size b + length data)) mod length (cb_storage b),
     cb_isFull = (cb_Size b + length data = length (cb_storage b))\<rparr>"
    and "xs = (let size = min (length data) (cb_end b - cb_back b);
               ys = overwrite (cb_storage b) (cb_back b) (take size data)
           in if size < length data then overwrite ys 0 (drop size data) else ys)"
    and "length xs = length (cb_storage b)"
proof -
  let ?N = "length (cb_storage b)"
  have bk: "(cb_front b + (cb_Size b + length data)) mod ?N
    = (if cb_back b + length data < ?N then cb_back b + length data else cb_back b + length data - ?N)"
  proof -
    have "(cb_front b + (cb_Size b + length data)) mod ?N = (cb_back b + length data) mod ?N"
      using cb_back_eq [OF inv] by (metis add.assoc mod_add_left_eq)
    then show ?thesis
      using inv room by (subst (asm) mod_add_once) (auto simp: cb_inv_def cb_end_def)
  qed
  define B where "B = (if cb_back b + length data < ?N then cb_back b + length data
    else cb_back b + length data - ?N)"
  have full: "cb_Size b + length data = ?N \<longleftrightarrow> cb_isFull b \<or> data \<noteq> [] \<and> cb_front b = B"
    using inv room by (auto simp: B_def cb_defs split: if_splits)
  let ?xs = "let size = min (length data) (cb_end b - cb_back b);
               ys = overwrite (cb_storage b) (cb_back b) (take size data)
           in if size < length data then overwrite ys 0 (drop size data) else ys"
  have len: "length ?xs = ?N"
    using inv room by (auto simp: Let_def cb_defs split: if_splits)
  have "cb_Push_range data b = Inr \<lparr>cb_storage = ?xs, cb_front = cb_front b, cb_back = B,
     cb_isFull = (cb_isFull b \<or> data \<noteq> [] \<and> cb_front b = B)\<rparr>"
  proof (cases "length data \<le> cb_end b - cb_back b")
    case True
    then have "length (overwrite (cb_storage b) (cb_back b) data) = ?N"
      using inv by (intro length_overwrite) (auto simp: cb_defs)
    moreover have "cb_back b + length data \<noteq> ?N \<Longrightarrow> cb_back b + length data < ?N"
      using True inv by (auto simp: cb_end_def cb_inv_def)
    ultimately show ?thesis using True room
      by (cases "cb_back b + length data = ?N")
        (simp_all add: cb_Push_range_def Let_def B_def cb_end_def min_def)
  next
    case False
    then have "length (overwrite (cb_storage b) (cb_back b) (take (cb_end b - cb_back b) data)) = ?N"
      using inv by (intro length_overwrite) (auto simp: cb_defs)
    moreover have "length data - (?N - cb_back b) = B" and "data \<noteq> []" and "cb_back b \<le> ?N"
      using False inv by (auto simp: B_def cb_defs)
    ultimately show ?thesis using False room
      by (simp add: cb_Push_range_def Let_def cb_end_def min_def)
  qed
  with len show ?thesis
    by (intro that [of ?xs]) (simp_all only: full bk B_def)
qed

lemma cb_Push_range_list:
  fixes b :: "'a cyclic_buffer" and data :: "'a list"
  assumes inv: "cb_inv b" and room: "length data \<le> length (cb_storage b) - cb_Size b"
  defines "sz \<equiv> min (length data) (cb_end b - cb_back b)"
  defines "ys \<equiv> overwrite (cb_storage b) (cb_back b) (take sz data)"
  defines "xs \<equiv> if sz < length data then overwrite ys 0 (drop sz data) else ys"
  shows "ring xs (cb_front b) (cb_Size b + length data) = cb_list b @ data"
proof -
  let ?N = "length (cb_storage b)"
  have bounds: "cb_back b < ?N" "cb_front b < ?N" "cb_Size b + length data \<le> ?N"
    using inv room cb_Size_le [OF inv] by (auto simp: cb_inv_def cb_end_def)
  have ys: "length ys = ?N" using bounds by (simp add: ys_def sz_def cb_end_def)
  have nth: "xs ! j = (if cb_back b \<le> j \<and> j < cb_back b + length data then data ! (j - cb_back b)
      else if j + ?N < cb_back b + length data then data ! (j + ?N - cb_back b) else cb_storage b ! j)"
    if "j < ?N" for j
    using that bounds ys
    by (auto simp: add.commute xs_def ys_def nth_overwrite sz_def cb_end_def min_def split: if_splits)
  have old: "xs ! ((cb_front b + i) mod ?N) = cb_storage b ! ((cb_front b + i) mod ?N)"
    if "i < cb_Size b" for i
    using that inv bounds by (subst nth) (auto simp: mod_add_once cb_defs split: if_splits)
  have new: "xs ! ((cb_front b + cb_Size b + k) mod ?N) = data ! k" if "k < length data" for k
  proof -
    have "(cb_front b + cb_Size b + k) mod ?N = (cb_back b + k) mod ?N"
      using cb_back_eq [OF inv] by (metis mod_add_left_eq)
    also have "\<dots> = (if cb_back b + k < ?N then cb_back b + k else cb_back b + k - ?N)"
      using bounds that by (intro mod_add_once) auto
    finally show ?thesis using that bounds by (auto simp: nth)
  qed
  have "length xs = ?N" using ys bounds by (auto simp: xs_def sz_def)
  then show ?thesis
    unfolding cb_list_def by (rule ring_append_block) (use old new in auto)
qed

lemma cb_Push_range_correct:
  assumes inv: "cb_inv b" and room: "length data \<le> length (cb_storage b) - cb_Size b"
  shows "\<exists>b'. cb_Push_range data b = Inr b' \<and> cb_inv b' \<and> cb_list b' = cb_list b @ data
    \<and> cb_end b' = cb_end b"
proof -
  let ?N = "length (cb_storage b)"
  obtain xs where eq: "cb_Push_range data b = Inr \<lparr>cb_storage = xs, cb_front = cb_front b,
     cb_back = (cb_front b + (cb_Size b + length data)) mod ?N,
     cb_isFull = (cb_Size b + length data = ?N)\<rparr>" (is "_ = Inr ?b'")
    and xs: "xs = (let size = min (length data) (cb_end b - cb_back b);
               ys = overwrite (cb_storage b) (cb_back b) (take size data)
           in if size < length data then overwrite ys 0 (drop size data) else ys)"
    and len: "length xs = ?N"
    using inv room by (rule cb_Push_range_pointers)
  have bounds: "cb_front b < ?N" "cb_Size b + length data \<le> ?N"
    using inv room cb_Size_le [OF inv] by (auto simp: cb_inv_def cb_end_def)
  from bounds len have "cb_Size ?b' = cb_Size b + length data" and "cb_inv ?b'"
    using cb_Size_of_pointers [of "cb_front b" ?N "cb_Size b + length data" xs] by auto
  moreover have "cb_list ?b' = cb_list b @ data"
    using cb_Push_range_list [OF inv room] calculation(1) xs by (simp add: cb_list_def Let_def)
  ultimately show ?thesis using eq len by (auto simp: cb_end_def)
qed

subsection \<open>Popping\<close>

lemma cb_Pop_correct:
  assumes inv: "cb_inv b" and n: "n \<le> cb_Size b"
  shows "cb_inv (cb_Pop n b) \<and> cb_list (cb_Pop n b) = drop n (cb_list b)
    \<and> cb_end (cb_Pop n b) = cb_end b"
proof -
  let ?N = "length (cb_storage b)"
  define F where "F = (if ?N \<le> cb_front b + n then cb_front b + n - ?N else cb_front b + n)"
  have F: "F = (cb_front b + n) mod ?N"
    using inv n cb_Size_le [OF inv] by (auto simp: F_def mod_add_once cb_inv_def cb_end_def)
  have "F = cb_back b \<and> \<not> (cb_isFull b \<and> n = 0) \<longleftrightarrow> cb_Size b = n"
    using inv n by (auto simp: F_def cb_defs split: if_splits)
  moreover have "cb_Pop n b = (if F = cb_back b \<and> \<not> (cb_isFull b \<and> n = 0)
      then b\<lparr>cb_front := 0, cb_back := 0, cb_isFull := False\<rparr>
      else b\<lparr>cb_front := F, cb_isFull := (cb_isFull b \<and> n = 0)\<rparr>)"
  proof -
    have w: "n \<ge> ?N - cb_front b \<longleftrightarrow> ?N \<le> cb_front b + n"
      and d: "n - (?N - cb_front b) = cb_front b + n - ?N"
      and lt: "cb_front b < ?N"
      using inv by (auto simp: cb_inv_def cb_end_def)
    then show ?thesis
      by (cases "n = 0"; cases "?N \<le> cb_front b + n")
        (simp_all add: cb_Pop_def Let_def F_def w d cb_Empty_def cb_end_def)
  qed
  ultimately have keep: "cb_Pop n b = (if cb_Size b = n
      then b\<lparr>cb_front := 0, cb_back := 0, cb_isFull := False\<rparr>
      else b\<lparr>cb_front := F, cb_isFull := (cb_isFull b \<and> n = 0)\<rparr>)" by simp
  show ?thesis
  proof (cases "cb_Size b = n")
    case True
    with inv show ?thesis by (auto simp: keep cb_list_def cb_inv_def cb_end_def cb_Size_def)
  next
    case False
    with inv n have "cb_Size (cb_Pop n b) = cb_Size b - n" and "cb_inv (cb_Pop n b)"
      by (auto simp: keep F_def cb_defs split: if_splits)
    with False show ?thesis
      by (simp add: keep cb_list_def drop_ring cb_end_def F ring_mod)
  qed
qed

subsection \<open>Contiguous parts\<close>

lemma cb_ContiguousRange_correct:
  assumes inv: "cb_inv b" and off: "offset < cb_Size b"
  shows "\<exists>r. cb_ContiguousRange offset b = Inr r \<and> mr_wf (cb_storage b) r \<and> 0 < mr_size r
    \<and> offset + mr_size r \<le> cb_Size b
    \<and> mr_slice (cb_storage b) r = take (mr_size r) (drop offset (cb_list b))"
proof -
  let ?N = "length (cb_storage b)"
  define P where "P = (if cb_front b + offset \<ge> ?N then cb_front b + offset - ?N else cb_front b + offset)"
  define r where "r = (if P \<ge> cb_back b then mr_make P ?N else mr_make P (cb_back b))"
  have eq: "cb_ContiguousRange offset b = Inr r"
    using inv off by (auto simp: cb_ContiguousRange_def cb_Empty_iff P_def r_def cb_end_def Let_def)
  have wf: "mr_wf (cb_storage b) r" "0 < mr_size r" "offset + mr_size r \<le> cb_Size b"
    using inv off by (auto simp: r_def P_def mr_defs cb_defs split: if_splits)
  have P: "beginElement r = (cb_front b + offset) mod ?N"
    using inv off cb_Size_le [OF inv]
    by (auto simp: r_def P_def mr_make_def mod_add_once cb_inv_def cb_end_def)
  have "mr_slice (cb_storage b) r = ring (cb_storage b) (beginElement r) (mr_size r)"
    using wf by (subst ring_contiguous) (auto simp: mr_slice_def mr_defs)
  also have "\<dots> = take (mr_size r) (drop offset (cb_list b))"
    using wf by (simp add: P ring_mod cb_list_def drop_ring take_ring min_def)
  finally show ?thesis using eq wf by blast
qed

subsection \<open>Popping into a destination\<close>

lemma cb_PopInto_loop_correct:
  assumes "cb_inv b" and "n \<le> cb_Size b"
  shows "\<exists>b'. cb_PopInto_loop n b acc = Some (Inr (acc @ take n (cb_list b), b'))
    \<and> cb_inv b' \<and> cb_list b' = drop n (cb_list b) \<and> cb_end b' = cb_end b"
  using assms
proof (induction n arbitrary: b acc rule: less_induct)
  case (less n)
  show ?case
  proof (cases "n = 0")
    case True
    with less.prems show ?thesis by (simp add: cb_PopInto_loop.simps)
  next
    case False
    then obtain r where r: "cb_ContiguousRange 0 b = Inr r" "mr_wf (cb_storage b) r" "0 < mr_size r"
        "mr_size r \<le> cb_Size b" "mr_slice (cb_storage b) r = take (mr_size r) (cb_list b)"
      using cb_ContiguousRange_correct [of b 0] less.prems by auto
    define k where "k = mr_size (Head r n)"
    have k: "k = min n (mr_size r)" using r(2) by (auto simp: k_def Head_def mr_defs)
    have chunk: "mr_slice (cb_storage b) (Head r n) = take k (cb_list b)"
      using r by (simp add: mr_slice_cut k min.commute)
    have pop: "cb_inv (cb_Pop k b)" "cb_list (cb_Pop k b) = drop k (cb_list b)"
        "cb_end (cb_Pop k b) = cb_end b"
      using cb_Pop_correct [of b k] less.prems k by auto
    have sz: "cb_Size (cb_Pop k b) = cb_Size b - k"
      using pop(2) by (metis length_cb_list length_drop)
    have lt: "n - k < n" and le: "n - k \<le> cb_Size (cb_Pop k b)"
      using False r(3) k less.prems(2) unfolding sz by auto
    obtain b' where b': "cb_PopInto_loop (n - k) (cb_Pop k b) (acc @ take k (cb_list b))
        = Some (Inr ((acc @ take k (cb_list b)) @ take (n - k) (cb_list (cb_Pop k b)), b'))"
        "cb_inv b'" "cb_list b' = drop (n - k) (cb_list (cb_Pop k b))" "cb_end b' = cb_end (cb_Pop k b)"
      using less.IH [OF lt pop(1) le, of "acc @ take k (cb_list b)"] by blast
    have kn: "k \<le> n" using k by simp
    have "take k (cb_list b) @ take (n - k) (drop k (cb_list b)) = take n (cb_list b)"
      using take_add [of k "n - k" "cb_list b"] kn by simp
    moreover have "cb_PopInto_loop n b acc
        = cb_PopInto_loop (n - k) (cb_Pop k b) (acc @ take k (cb_list b))"
      by (subst cb_PopInto_loop.simps) (use False r(1) chunk in \<open>simp add: k_def Let_def\<close>)
    ultimately show ?thesis using b' pop kn by simp
  qed
qed

subsection \<open>What the buffer promises\<close>

text \<open>
  Pushing is the operation of a queue: on a buffer that is not full, \<^verbatim>\<open>Push\<close> of an element
  appends it to the sequence the buffer holds, and pushing a range that fits appends the range,
  across the end of the storage too; the invariant is kept, and a buffer that is full, or has too
  little room, fails the assertion.
\<close>

theorem cb_push_appends:
  assumes "cb_inv b"
  shows "(if cb_Full b then cb_Push x b = Inl AssertFailed
      else \<exists>b'. cb_Push x b = Inr b' \<and> cb_inv b' \<and> cb_list b' = cb_list b @ [x])
    \<and> (if cb_Available b < length xs then cb_Push_range xs b = Inl AssertFailed
      else \<exists>b'. cb_Push_range xs b = Inr b' \<and> cb_inv b' \<and> cb_list b' = cb_list b @ xs)"
  using assms cb_Push_correct [of b x] cb_Push_range_correct [of b xs]
  by (auto simp: cb_Push_def cb_Push_range_def cb_Available_def)

theorem cb_push_appends_witness:
  "\<exists>b'. cb_Push_range [7, 8, 9] \<lparr>cb_storage = [1, 2, 3, 4, 5::nat], cb_front = 3, cb_back = 4, cb_isFull = False\<rparr>
     = Inr b' \<and> cb_list b' = [4, 7, 8, 9]"
proof -
  let ?b = "\<lparr>cb_storage = [1, 2, 3, 4, 5::nat], cb_front = 3, cb_back = 4, cb_isFull = False\<rparr>"
  have inv: "cb_inv ?b" by (simp add: cb_inv_def cb_end_def)
  have "cb_list ?b = [4]" and "\<not> cb_Available ?b < length [7, 8, 9::nat]"
    by (simp_all add: cb_list_def cb_Size_def cb_Available_def ring_def)
  with cb_push_appends [OF inv, of 0 "[7, 8, 9]"] show ?thesis by auto
qed

text \<open>
  \<^verbatim>\<open>PopInto\<close> ends and takes from the front: with at least \<open>n\<close> elements present, its loop over
  contiguous parts returns, fills the destination with the first \<open>n\<close> elements in order, and leaves
  the rest; with fewer, it fails its assertion.
\<close>

theorem cb_PopInto_takes_front:
  assumes "cb_inv b"
  shows "if n \<le> cb_Size b
    then \<exists>b'. cb_PopInto n b = Some (Inr (take n (cb_list b), b')) \<and> cb_inv b'
           \<and> cb_list b' = drop n (cb_list b)
    else cb_PopInto n b = Some (Inl AssertFailed)"
  using assms cb_PopInto_loop_correct [of b n "[]"] by (auto simp: cb_PopInto_def)

theorem cb_PopInto_takes_front_witness:
  "\<exists>b'. cb_PopInto 2 \<lparr>cb_storage = [1, 2, 3, 4, 5::nat], cb_front = 4, cb_back = 2, cb_isFull = False\<rparr>
     = Some (Inr ([5, 1], b')) \<and> cb_list b' = [2]"
proof -
  let ?b = "\<lparr>cb_storage = [1, 2, 3, 4, 5::nat], cb_front = 4, cb_back = 2, cb_isFull = False\<rparr>"
  have inv: "cb_inv ?b" by (simp add: cb_inv_def cb_end_def)
  have "cb_list ?b = [5, 1, 2]" by (simp add: cb_list_def cb_Size_def ring_def cb_end_def upt_rec)
  moreover have "2 \<le> cb_Size ?b" by (simp add: cb_Size_def cb_end_def)
  ultimately show ?thesis using cb_PopInto_takes_front [OF inv, of 2] by auto
qed

end
