(* ===== verification/Static_Storage.thy ===== *)
theory Static_Storage
  imports Prelude
begin

section \<open>Storage whose objects come and go: infra/util/StaticStorage.hpp\<close>

text \<open>
  A \<^verbatim>\<open>StaticStorage<T>\<close> is memory in which an object of type T may or may not live. A block of them
  is a list of options: \<open>None\<close> where no object lives. \<^verbatim>\<open>Construct\<close> starts a lifetime and \<^verbatim>\<open>Destruct\<close>
  ends one. Reading a slot without an object has no defined value, and neither has assigning to it,
  unless the type is trivial (\<open>triv\<close>), for which an assignment is as good as a construction. Moving
  from an object leaves it alive; the model reads its value.
  \<open>bounded_sequence\<close> is the contract the bounded containers share, with the loops over
  \<^verbatim>\<open>push_back\<close> and \<^verbatim>\<open>pop_back\<close> that \<^verbatim>\<open>assign\<close>, \<^verbatim>\<open>resize\<close> and \<^verbatim>\<open>clear\<close> are made of proved once.
\<close>

type_synonym 'a slots = "'a option list"

definition ss_Construct :: "'a \<Rightarrow> nat \<Rightarrow> 'a slots \<Rightarrow> 'a slots result" where
  "ss_Construct x i s = checked (i < length s) (Inr (s[i := Some x]))"

definition ss_Destruct :: "nat \<Rightarrow> 'a slots \<Rightarrow> 'a slots result" where
  "ss_Destruct i s = checked (i < length s)
     (if s ! i = None then Inl UndefinedBehaviour else Inr (s[i := None]))"

definition ss_read :: "nat \<Rightarrow> 'a slots \<Rightarrow> 'a result" where
  "ss_read i s = checked (i < length s)
     (case s ! i of None \<Rightarrow> Inl UndefinedBehaviour | Some x \<Rightarrow> Inr x)"

definition ss_assign :: "bool \<Rightarrow> 'a \<Rightarrow> nat \<Rightarrow> 'a slots \<Rightarrow> 'a slots result" where
  "ss_assign triv x i s = checked (i < length s)
     (if s ! i = None \<and> \<not> triv then Inl UndefinedBehaviour else Inr (s[i := Some x]))"

text \<open>\<^verbatim>\<open>std::copy\<close> and \<^verbatim>\<open>std::fill_n\<close> assign, their \<^verbatim>\<open>uninitialized_\<close> variants construct.\<close>

fun std_copy :: "bool \<Rightarrow> 'a list \<Rightarrow> nat \<Rightarrow> 'a slots \<Rightarrow> 'a slots result" where
  "std_copy triv [] i s = Inr s"
| "std_copy triv (x # xs) i s = bindR (ss_assign triv x i s) (\<lambda>s'. std_copy triv xs (Suc i) s')"

fun std_uninitialized_copy :: "'a list \<Rightarrow> nat \<Rightarrow> 'a slots \<Rightarrow> 'a slots result" where
  "std_uninitialized_copy [] i s = Inr s"
| "std_uninitialized_copy (x # xs) i s =
     bindR (ss_Construct x i s) (\<lambda>s'. std_uninitialized_copy xs (Suc i) s')"

subsection \<open>Slots that are alive\<close>

definition alive :: "'a slots \<Rightarrow> nat \<Rightarrow> nat \<Rightarrow> bool" where
  "alive s i j \<longleftrightarrow> j \<le> length s \<and> (\<forall>k. i \<le> k \<and> k < j \<longrightarrow> s ! k \<noteq> None)"

lemma overwrite_snoc:
  "i + length xs < length s \<Longrightarrow> overwrite (s[i + length xs := x]) i xs = overwrite s i (xs @ [x])"
  by (simp add: overwrite_def drop_update_swap Cons_nth_drop_Suc [symmetric])

lemma overwrite_prepend:
  "i + length xs + length ys \<le> length s \<Longrightarrow>
    overwrite (overwrite s (i + length xs) ys) i xs = overwrite s i (xs @ ys)"
  by (rule nth_equalityI) (auto simp: nth_overwrite nth_append)

lemma overwrite_append:
  "i + length xs + length ys \<le> length s \<Longrightarrow>
    overwrite (overwrite s i xs) (i + length xs) ys = overwrite s i (xs @ ys)"
  by (rule nth_equalityI) (auto simp: nth_overwrite nth_append)

text \<open>The slots from \<open>q\<close> up to \<open>cp\<close> copied \<open>n\<close> places up, the last one first.\<close>

definition shift_up :: "nat \<Rightarrow> nat \<Rightarrow> nat \<Rightarrow> 'a slots \<Rightarrow> 'a slots" where
  "shift_up q cp n s = overwrite s (q + n) (take (cp - q) (drop q s))"

lemma shift_up_refl [simp]: "cp \<le> q \<Longrightarrow> q + n \<le> length s \<Longrightarrow> shift_up q cp n s = s"
  by (simp add: shift_up_def)

lemma shift_up_step:
  assumes "q \<le> cp" and "cp + n < length s"
  shows "shift_up q cp n (s[cp + n := s ! cp]) = shift_up q (Suc cp) n s"
proof -
  have "take (cp - q) (drop q (s[cp + n := s ! cp])) = take (cp - q) (drop q s)"
    using assms by (simp add: drop_update_swap)
  moreover have "take (Suc cp - q) (drop q s) = take (cp - q) (drop q s) @ [s ! cp]"
    using assms by (simp add: Suc_diff_le take_Suc_conv_app_nth)
  moreover have "cp + n = q + n + length (take (cp - q) (drop q s))" using assms by simp
  then have "overwrite (s[cp + n := s ! cp]) (q + n) (take (cp - q) (drop q s))
      = overwrite s (q + n) (take (cp - q) (drop q s) @ [s ! cp])"
    using overwrite_snoc [of "q + n" "take (cp - q) (drop q s)" s "s ! cp"] assms by metis
  ultimately show ?thesis by (simp only: shift_up_def)
qed

lemma shift_up_split:
  assumes "p \<le> q" and "q \<le> e" and "e + n \<le> length s"
  shows "shift_up p q n (shift_up q e n s) = shift_up p e n s"
proof -
  let ?u = "take (q - p) (drop p s)" and ?w = "take (e - q) (drop q s)"
  have "take (q - p) (drop p (overwrite s (q + n) ?w)) = ?u"
    using assms by (simp add: overwrite_def drop_take)
  moreover have "take (e - p) (drop p s) = ?u @ ?w"
    using assms take_add [of "q - p" "e - q" "drop p s"] by simp
  moreover have "overwrite (overwrite s (q + n) ?w) (p + n) ?u = overwrite s (p + n) (?u @ ?w)"
  proof -
    have "q + n = p + n + length ?u" and "p + n + length ?u + length ?w \<le> length s" using assms by simp_all
    then show ?thesis using overwrite_prepend [of "p + n" ?u ?w s] by metis
  qed
  ultimately show ?thesis by (simp only: shift_up_def)
qed

lemma std_uninitialized_copy_eq:
  "i + length xs \<le> length s \<Longrightarrow> std_uninitialized_copy xs i s = Inr (overwrite s i (map Some xs))"
  by (induction xs arbitrary: i s) (simp_all add: ss_Construct_def overwrite_Cons)

lemma std_copy_eq:
  assumes "i + length xs \<le> length s" and "triv \<or> alive s i (i + length xs)"
  shows "std_copy triv xs i s = Inr (overwrite s i (map Some xs))"
  using assms
proof (induction xs arbitrary: i s)
  case (Cons x xs)
  then have "triv \<or> alive (s[i := Some x]) (Suc i) (Suc i + length xs)"
    by (auto simp: alive_def nth_list_update)
  with Cons show ?case by (auto simp: ss_assign_def overwrite_Cons alive_def)
qed simp

text \<open>Copying over a slot without an object has no defined meaning for a type that is not trivial.\<close>

lemma std_copy_dead:
  assumes "i + length xs \<le> length s" and "i \<le> k" and "k < i + length xs" and "s ! k = None"
  shows "std_copy False xs i s = Inl UndefinedBehaviour"
  using assms
proof (induction xs arbitrary: i s)
  case (Cons x xs)
  show ?case
  proof (cases "s ! i = None")
    case True
    with Cons.prems show ?thesis by (simp add: ss_assign_def)
  next
    case False
    with Cons.prems have "i < k" by (metis le_neq_implies_less)
    with Cons.prems have "std_copy False xs (Suc i) (s[i := Some x]) = Inl UndefinedBehaviour"
      by (intro Cons.IH) auto
    with False Cons.prems show ?thesis by (simp add: ss_assign_def)
  qed
qed simp

subsection \<open>Loops over push_back and pop_back\<close>

fun push_all :: "('a \<Rightarrow> 'c \<Rightarrow> 'c result) \<Rightarrow> 'a list \<Rightarrow> 'c \<Rightarrow> 'c result" where
  "push_all push [] c = Inr c"
| "push_all push (x # xs) c = bindR (push x c) (push_all push xs)"

text \<open>\<open>k\<close> turns of a loop that pops.\<close>

fun pop_times :: "('c \<Rightarrow> 'c result) \<Rightarrow> nat \<Rightarrow> 'c \<Rightarrow> 'c result" where
  "pop_times pop 0 c = Inr c"
| "pop_times pop (Suc k) c = bindR (pop c) (pop_times pop k)"

locale bounded_sequence =
  fixes elems :: "'c \<Rightarrow> 'a list"
    and inv :: "'c \<Rightarrow> bool"
    and capacity :: "'c \<Rightarrow> nat"
    and push_back :: "'a \<Rightarrow> 'c \<Rightarrow> 'c result"
    and pop_back :: "'c \<Rightarrow> 'c result"
  assumes elems_fit: "inv c \<Longrightarrow> length (elems c) \<le> capacity c"
    and push_back: "inv c \<Longrightarrow> length (elems c) < capacity c \<Longrightarrow>
      \<exists>c'. push_back x c = Inr c' \<and> inv c' \<and> elems c' = elems c @ [x] \<and> capacity c' = capacity c"
    and push_back_full: "inv c \<Longrightarrow> length (elems c) = capacity c \<Longrightarrow> push_back x c = Inl AssertFailed"
    and pop_back: "inv c \<Longrightarrow> elems c \<noteq> [] \<Longrightarrow>
      \<exists>c'. pop_back c = Inr c' \<and> inv c' \<and> elems c' = butlast (elems c) \<and> capacity c' = capacity c"
    and pop_back_empty: "inv c \<Longrightarrow> elems c = [] \<Longrightarrow> pop_back c = Inl AssertFailed"
begin

lemma push_all_fits:
  assumes "inv c" and "length (elems c) + length xs \<le> capacity c"
  shows "\<exists>c'. push_all push_back xs c = Inr c' \<and> inv c' \<and> elems c' = elems c @ xs
    \<and> capacity c' = capacity c"
  using assms
proof (induction xs arbitrary: c)
  case (Cons x xs)
  then obtain c1 where c1: "push_back x c = Inr c1" "inv c1" "elems c1 = elems c @ [x]"
      "capacity c1 = capacity c"
    using push_back [of c x] by auto
  with Cons.prems Cons.IH [of c1] show ?case by auto
qed simp

lemma push_all_overflows:
  assumes "inv c" and "capacity c < length (elems c) + length xs"
  shows "push_all push_back xs c = Inl AssertFailed"
  using assms
proof (induction xs arbitrary: c)
  case Nil
  with elems_fit [of c] show ?case by simp
next
  case (Cons x xs)
  show ?case
  proof (cases "length (elems c) = capacity c")
    case True
    with Cons.prems push_back_full show ?thesis by simp
  next
    case False
    with Cons.prems elems_fit have "length (elems c) < capacity c" by (meson le_neq_implies_less)
    with Cons.prems obtain c1 where "push_back x c = Inr c1" "inv c1" "elems c1 = elems c @ [x]"
        "capacity c1 = capacity c"
      using push_back [of c x] by auto
    with Cons.prems Cons.IH [of c1] show ?thesis by simp
  qed
qed

lemma pop_times_drops:
  assumes "inv c" and "k \<le> length (elems c)"
  shows "\<exists>c'. pop_times pop_back k c = Inr c' \<and> inv c'
    \<and> elems c' = take (length (elems c) - k) (elems c) \<and> capacity c' = capacity c"
  using assms
proof (induction k arbitrary: c)
  case (Suc k)
  then have "elems c \<noteq> []" by auto
  with Suc.prems obtain c1 where c1: "pop_back c = Inr c1" "inv c1" "elems c1 = butlast (elems c)"
      "capacity c1 = capacity c"
    using pop_back [of c] by auto
  have "take (length (elems c) - Suc k) (butlast (elems c)) = take (length (elems c) - Suc k) (elems c)"
    by (simp add: butlast_conv_take)
  with c1 Suc.prems Suc.IH [of c1] show ?case by auto
qed simp

end

end
