(* ===== verification/Bounded_Vector.thy ===== *)
theory Bounded_Vector
  imports Static_Storage
begin

section \<open>The bounded vector: infra/util/BoundedVector.hpp\<close>

text \<open>
  \<^verbatim>\<open>BoundedVector\<close> keeps its elements at the front of a fixed block of \<^verbatim>\<open>StaticStorage\<close> and counts them.
  Iterators are indices. \<open>bv_list\<close> is the sequence of elements; \<open>bv_inv\<close> says that the slots of the
  elements hold objects, \<open>bv_tidy\<close> that the others hold none. The argument \<open>triv\<close> of the operations
  that assign says whether the element type is trivial.
\<close>

record 'a bounded_vector =
  bv_storage :: "'a slots"
  bv_numAllocated :: nat

definition bv_make :: "'a slots \<Rightarrow> 'a bounded_vector" where
  "bv_make s = \<lparr>bv_storage = s, bv_numAllocated = 0\<rparr>"

definition bv_size :: "'a bounded_vector \<Rightarrow> nat" where
  "bv_size v = bv_numAllocated v"

definition bv_max_size :: "'a bounded_vector \<Rightarrow> nat" where
  "bv_max_size v = length (bv_storage v)"

definition bv_empty :: "'a bounded_vector \<Rightarrow> bool" where
  "bv_empty v \<longleftrightarrow> bv_numAllocated v = 0"

definition bv_full :: "'a bounded_vector \<Rightarrow> bool" where
  "bv_full v \<longleftrightarrow> bv_numAllocated v = bv_max_size v"

definition bv_index :: "nat \<Rightarrow> 'a bounded_vector \<Rightarrow> 'a result" where
  "bv_index position v = checked (position < bv_size v) (ss_read position (bv_storage v))"

definition bv_front :: "'a bounded_vector \<Rightarrow> 'a result" where
  "bv_front v = checked (\<not> bv_empty v) (ss_read 0 (bv_storage v))"

definition bv_back :: "'a bounded_vector \<Rightarrow> 'a result" where
  "bv_back v = checked (\<not> bv_empty v) (ss_read (bv_size v - 1) (bv_storage v))"

definition bv_push_back :: "'a \<Rightarrow> 'a bounded_vector \<Rightarrow> 'a bounded_vector result" where
  "bv_push_back x v = checked (\<not> bv_full v)
     (bindR (ss_Construct x (bv_numAllocated v) (bv_storage v))
       (\<lambda>s. Inr (v\<lparr>bv_storage := s, bv_numAllocated := bv_numAllocated v + 1\<rparr>)))"

definition bv_emplace_back :: "'a \<Rightarrow> 'a bounded_vector \<Rightarrow> 'a bounded_vector result" where
  "bv_emplace_back x v = checked (bv_size v \<noteq> bv_max_size v)
     (bindR (ss_Construct x (bv_numAllocated v) (bv_storage v))
       (\<lambda>s. Inr (v\<lparr>bv_storage := s, bv_numAllocated := bv_numAllocated v + 1\<rparr>)))"

definition bv_pop_back :: "'a bounded_vector \<Rightarrow> 'a bounded_vector result" where
  "bv_pop_back v = checked (\<not> bv_empty v)
     (bindR (ss_Destruct (bv_numAllocated v - 1) (bv_storage v))
       (\<lambda>s. Inr (v\<lparr>bv_storage := s, bv_numAllocated := bv_numAllocated v - 1\<rparr>)))"

lemma bv_pop_back_size: "bv_pop_back v = Inr v' \<Longrightarrow> bv_size v' = bv_size v - 1 \<and> 0 < bv_size v"
  by (auto simp: bv_pop_back_def bv_size_def bv_empty_def result_simps)

lemma bv_push_back_size: "bv_push_back x v = Inr v' \<Longrightarrow> bv_size v' = bv_size v + 1"
  by (auto simp: bv_push_back_def bv_size_def result_simps)

function bv_clear :: "'a bounded_vector \<Rightarrow> 'a bounded_vector result" where
  "bv_clear v = (if \<not> bv_empty v then bindR (bv_pop_back v) bv_clear else Inr v)"
  by pat_completeness auto
termination
  by (relation "measure bv_size") (auto dest: bv_pop_back_size)

function bv_shrink :: "nat \<Rightarrow> 'a bounded_vector \<Rightarrow> 'a bounded_vector result" where
  "bv_shrink n v = (if n < bv_size v then bindR (bv_pop_back v) (bv_shrink n) else Inr v)"
  by pat_completeness auto
termination
  by (relation "measure (\<lambda>(n, v). bv_size v)") (auto dest: bv_pop_back_size)

function bv_grow :: "nat \<Rightarrow> 'a \<Rightarrow> 'a bounded_vector \<Rightarrow> 'a bounded_vector result" where
  "bv_grow n x v = (if n > bv_size v then bindR (bv_push_back x v) (bv_grow n x) else Inr v)"
  by pat_completeness auto
termination
  by (relation "measure (\<lambda>(n, x, v). n - bv_size v)") (auto dest: bv_push_back_size)

declare bv_clear.simps [simp del] bv_shrink.simps [simp del] bv_grow.simps [simp del]

definition bv_resize :: "nat \<Rightarrow> 'a \<Rightarrow> 'a bounded_vector \<Rightarrow> 'a bounded_vector result" where
  "bv_resize n x v = bindR (bv_shrink n v) (bv_grow n x)"

definition bv_assign :: "'a list \<Rightarrow> 'a bounded_vector \<Rightarrow> 'a bounded_vector result" where
  "bv_assign xs v = bindR (bv_clear v) (push_all bv_emplace_back xs)"

definition bv_assign_n :: "nat \<Rightarrow> 'a \<Rightarrow> 'a bounded_vector \<Rightarrow> 'a bounded_vector result" where
  "bv_assign_n n x v = bindR (bv_clear v) (push_all bv_emplace_back (replicate n x))"

subsection \<open>Moving elements up\<close>

text \<open>
  The two loops of \<^verbatim>\<open>move_up\<close>, from the end down to \<open>position\<close>: as long as the target lies past the
  old end \<open>e\<close> it is constructed, after that it is assigned. A position below which the loop would
  run past the start of the block has no meaning.
\<close>

fun bv_move_up_construct :: "nat \<Rightarrow> nat \<Rightarrow> nat \<Rightarrow> nat \<Rightarrow> 'a slots \<Rightarrow> (nat \<times> 'a slots) result" where
  "bv_move_up_construct 0 position n e s =
     (if 0 \<noteq> position \<and> 0 + n \<noteq> e then Inl UndefinedBehaviour else Inr (0, s))"
| "bv_move_up_construct (Suc cp) position n e s =
     (if Suc cp \<noteq> position \<and> Suc cp + n \<noteq> e
      then bindR (ss_read cp s) (\<lambda>x. bindR (ss_Construct x (cp + n) s)
             (\<lambda>s'. bv_move_up_construct cp position n e s'))
      else Inr (Suc cp, s))"

fun bv_move_up_assign :: "bool \<Rightarrow> nat \<Rightarrow> nat \<Rightarrow> nat \<Rightarrow> 'a slots \<Rightarrow> 'a slots result" where
  "bv_move_up_assign triv 0 position n s =
     (if 0 \<noteq> position then Inl UndefinedBehaviour else Inr s)"
| "bv_move_up_assign triv (Suc cp) position n s =
     (if Suc cp \<noteq> position
      then bindR (ss_read cp s) (\<lambda>x. bindR (ss_assign triv x (cp + n) s)
             (\<lambda>s'. bv_move_up_assign triv cp position n s'))
      else Inr s)"

definition bv_move_up :: "bool \<Rightarrow> nat \<Rightarrow> nat \<Rightarrow> 'a bounded_vector \<Rightarrow> 'a bounded_vector result" where
  "bv_move_up triv position n v =
     bindR (bv_move_up_construct (bv_size v) position n (bv_size v) (bv_storage v))
       (\<lambda>(cp, s). bindR (bv_move_up_assign triv cp position n s)
         (\<lambda>s'. Inr (v\<lparr>bv_storage := s', bv_numAllocated := bv_numAllocated v + n\<rparr>)))"

definition bv_insert_n :: "bool \<Rightarrow> nat \<Rightarrow> nat \<Rightarrow> 'a \<Rightarrow> 'a bounded_vector \<Rightarrow> 'a bounded_vector result" where
  "bv_insert_n triv position n x v = checked (bv_size v + n \<le> bv_max_size v)
     (let initialized_size = min (min (position + n) (bv_size v)) n
      in bindR (bv_move_up triv position n v)
        (\<lambda>v1. bindR (std_copy triv (replicate initialized_size x) position (bv_storage v1))
          (\<lambda>s1. bindR (std_uninitialized_copy (replicate (n - initialized_size) x)
                         (position + initialized_size) s1)
            (\<lambda>s2. Inr (v1\<lparr>bv_storage := s2\<rparr>)))))"

definition bv_insert :: "bool \<Rightarrow> nat \<Rightarrow> 'a \<Rightarrow> 'a bounded_vector \<Rightarrow> 'a bounded_vector result" where
  "bv_insert triv position x v = bv_insert_n triv position 1 x v"

definition bv_insert_range :: "bool \<Rightarrow> nat \<Rightarrow> 'a list \<Rightarrow> 'a bounded_vector \<Rightarrow> 'a bounded_vector result" where
  "bv_insert_range triv position xs v = checked (bv_size v + length xs \<le> bv_max_size v)
     (let n = length xs;
          initialized_size = min (min (position + n) (bv_size v)) n
      in bindR (bv_move_up triv position n v)
        (\<lambda>v1. bindR (std_copy triv (take initialized_size xs) position (bv_storage v1))
          (\<lambda>s1. bindR (std_uninitialized_copy (drop initialized_size xs)
                         (position + initialized_size) s1)
            (\<lambda>s2. Inr (v1\<lparr>bv_storage := s2\<rparr>)))))"

definition bv_emplace :: "bool \<Rightarrow> nat \<Rightarrow> 'a \<Rightarrow> 'a bounded_vector \<Rightarrow> 'a bounded_vector result" where
  "bv_emplace triv position x v = checked (bv_size v \<noteq> bv_max_size v)
     (bindR (bv_move_up triv position 1 v)
       (\<lambda>v1. bindR (ss_Construct x position (bv_storage v1)) (\<lambda>s. Inr (v1\<lparr>bv_storage := s\<rparr>))))"

subsection \<open>Erasing\<close>

text \<open>
  \<^verbatim>\<open>erase\<close> moves the elements from \<open>last\<close> on down to \<open>first\<close>, then destroys what is left at the end.
  A \<open>last\<close> past the end has no meaning: the loop would run on.
\<close>

function bv_erase_move :: "bool \<Rightarrow> nat \<Rightarrow> nat \<Rightarrow> nat \<Rightarrow> 'a slots \<Rightarrow> (nat \<times> 'a slots) result" where
  "bv_erase_move triv fi la e s =
     (if la = e then Inr (fi, s)
      else if e < la then Inl UndefinedBehaviour
      else bindR (ss_read la s) (\<lambda>x. bindR (ss_assign triv x fi s)
             (\<lambda>s'. bv_erase_move triv (Suc fi) (Suc la) e s')))"
  by pat_completeness auto
termination
  by (relation "measure (\<lambda>(triv, fi, la, e, s). e - la)") auto

function bv_erase_destruct :: "nat \<Rightarrow> nat \<Rightarrow> 'a bounded_vector \<Rightarrow> 'a bounded_vector result" where
  "bv_erase_destruct fi la v =
     (if fi = la then Inr v
      else if la < fi then Inl UndefinedBehaviour
      else bindR (ss_Destruct fi (bv_storage v))
             (\<lambda>s. bv_erase_destruct (Suc fi) la
                (v\<lparr>bv_storage := s, bv_numAllocated := bv_numAllocated v - 1\<rparr>)))"
  by pat_completeness auto
termination
  by (relation "measure (\<lambda>(fi, la, v). la - fi)") auto

declare bv_erase_move.simps [simp del] bv_erase_destruct.simps [simp del]

definition bv_erase_range :: "bool \<Rightarrow> nat \<Rightarrow> nat \<Rightarrow> 'a bounded_vector \<Rightarrow> 'a bounded_vector result" where
  "bv_erase_range triv fi la v =
     bindR (bv_erase_move triv fi la (bv_size v) (bv_storage v))
       (\<lambda>(fi', s). bv_erase_destruct fi' (bv_size v) (v\<lparr>bv_storage := s\<rparr>))"

definition bv_erase :: "bool \<Rightarrow> nat \<Rightarrow> 'a bounded_vector \<Rightarrow> 'a bounded_vector result" where
  "bv_erase triv position v = bv_erase_range triv position (position + 1) v"

text \<open>The loop of the free function \<^verbatim>\<open>erase_if\<close>: \<open>i\<close> reads, \<open>out\<close> writes.\<close>

function bv_erase_if_loop ::
    "bool \<Rightarrow> ('a \<Rightarrow> bool) \<Rightarrow> nat \<Rightarrow> nat \<Rightarrow> nat \<Rightarrow> 'a slots \<Rightarrow> (nat \<times> 'a slots) result" where
  "bv_erase_if_loop triv pred i out e s =
     (if i < e
      then bindR (ss_read i s) (\<lambda>x.
             if pred x then bv_erase_if_loop triv pred (Suc i) out e s
             else if i \<noteq> out
             then bindR (ss_assign triv x out s) (\<lambda>s'. bv_erase_if_loop triv pred (Suc i) (Suc out) e s')
             else bv_erase_if_loop triv pred (Suc i) (Suc out) e s)
      else Inr (out, s))"
  by pat_completeness auto
termination
  by (relation "measure (\<lambda>(triv, pred, i, out, e, s). e - i)") auto

declare bv_erase_if_loop.simps [simp del]

definition bv_erase_if :: "bool \<Rightarrow> ('a \<Rightarrow> bool) \<Rightarrow> 'a bounded_vector \<Rightarrow> (nat \<times> 'a bounded_vector) result" where
  "bv_erase_if triv pred v =
     bindR (bv_erase_if_loop triv pred 0 0 (bv_size v) (bv_storage v))
       (\<lambda>(out, s). bindR (bv_erase_range triv out (bv_size v) (v\<lparr>bv_storage := s\<rparr>))
         (\<lambda>v'. Inr (bv_size v - out, v')))"

definition bv_erase_value :: "bool \<Rightarrow> 'a \<Rightarrow> 'a bounded_vector \<Rightarrow> (nat \<times> 'a bounded_vector) result" where
  "bv_erase_value triv x v = bv_erase_if triv (\<lambda>y. y = x) v"

subsection \<open>Swapping and comparing\<close>

text \<open>
  \<^verbatim>\<open>swap\<close> exchanges the elements both vectors have and moves the others; \<open>i\<close> runs up to \<open>n\<close>.
\<close>

function bv_swap_common :: "bool \<Rightarrow> nat \<Rightarrow> nat \<Rightarrow> 'a slots \<Rightarrow> 'a slots \<Rightarrow> ('a slots \<times> 'a slots) result" where
  "bv_swap_common triv i n s t =
     (if i < n
      then bindR (ss_read i s) (\<lambda>x. bindR (ss_read i t) (\<lambda>y.
             bindR (ss_assign triv y i s) (\<lambda>s'. bindR (ss_assign triv x i t) (\<lambda>t'.
               bv_swap_common triv (Suc i) n s' t'))))
      else Inr (s, t))"
  by pat_completeness auto
termination
  by (relation "measure (\<lambda>(triv, i, n, s, t). n - i)") auto

function bv_swap_move :: "nat \<Rightarrow> nat \<Rightarrow> 'a slots \<Rightarrow> 'a slots \<Rightarrow> ('a slots \<times> 'a slots) result" where
  "bv_swap_move i n to from =
     (if i < n
      then bindR (ss_read i from) (\<lambda>x. bindR (ss_Construct x i to) (\<lambda>to'.
             bindR (ss_Destruct i from) (\<lambda>from'. bv_swap_move (Suc i) n to' from')))
      else Inr (to, from))"
  by pat_completeness auto
termination
  by (relation "measure (\<lambda>(i, n, to, from). n - i)") auto

declare bv_swap_common.simps [simp del] bv_swap_move.simps [simp del]

definition bv_swap :: "bool \<Rightarrow> 'a bounded_vector \<Rightarrow> 'a bounded_vector
    \<Rightarrow> ('a bounded_vector \<times> 'a bounded_vector) result" where
  "bv_swap triv v w = checked (bv_size v \<le> bv_max_size w \<and> bv_size w < bv_max_size v)
     (bindR (bv_swap_common triv 0 (min (bv_size v) (bv_size w)) (bv_storage v) (bv_storage w))
       (\<lambda>(s, t). bindR (bv_swap_move (bv_size v) (bv_size w) s t)
         (\<lambda>(s', t'). bindR (bv_swap_move (bv_size w) (bv_size v) t' s')
           (\<lambda>(t'', s''). Inr (v\<lparr>bv_storage := s'', bv_numAllocated := bv_size w\<rparr>,
                              w\<lparr>bv_storage := t'', bv_numAllocated := bv_size v\<rparr>)))))"

subsection \<open>Invariant and contents\<close>

definition bv_inv :: "'a bounded_vector \<Rightarrow> bool" where
  "bv_inv v \<longleftrightarrow> alive (bv_storage v) 0 (bv_numAllocated v)"

definition bv_tidy :: "'a bounded_vector \<Rightarrow> bool" where
  "bv_tidy v \<longleftrightarrow> (\<forall>i. bv_numAllocated v \<le> i \<and> i < length (bv_storage v) \<longrightarrow> bv_storage v ! i = None)"

definition bv_list :: "'a bounded_vector \<Rightarrow> 'a list" where
  "bv_list v = map the (take (bv_numAllocated v) (bv_storage v))"

lemmas bv_defs = bv_size_def bv_max_size_def bv_empty_def bv_full_def

lemma bv_inv_le: "bv_inv v \<Longrightarrow> bv_numAllocated v \<le> length (bv_storage v)"
  by (simp add: bv_inv_def alive_def)

lemma length_bv_list [simp]: "bv_inv v \<Longrightarrow> length (bv_list v) = bv_size v"
  using bv_inv_le [of v] by (simp add: bv_list_def bv_size_def)

lemma bv_list_nth: "bv_inv v \<Longrightarrow> i < bv_size v \<Longrightarrow> bv_storage v ! i = Some (bv_list v ! i)"
  using bv_inv_le [of v] by (auto simp: bv_inv_def alive_def bv_list_def bv_size_def)

lemma bv_make_correct:
  "(\<forall>x\<in>set s. x = None) \<Longrightarrow> bv_inv (bv_make s) \<and> bv_tidy (bv_make s) \<and> bv_list (bv_make s) = []"
  by (simp add: bv_make_def bv_inv_def bv_tidy_def bv_list_def alive_def)

lemma bv_index_correct:
  assumes "bv_inv v"
  shows "bv_index i v = (if i < bv_size v then Inr (bv_list v ! i) else Inl AssertFailed)"
  using assms bv_list_nth [of v i] bv_inv_le [of v]
  by (auto simp: bv_index_def ss_read_def bv_size_def)

lemma bv_emplace_back_eq: "bv_emplace_back = bv_push_back"
  by (intro ext) (simp add: bv_emplace_back_def bv_push_back_def bv_full_def bv_size_def)

lemma bv_push_back_correct:
  assumes "bv_inv v" and "bv_size v < bv_max_size v"
  shows "\<exists>v'. bv_push_back x v = Inr v' \<and> bv_inv v' \<and> (bv_tidy v \<longrightarrow> bv_tidy v')
    \<and> bv_list v' = bv_list v @ [x] \<and> bv_max_size v' = bv_max_size v"
  using assms
  by (auto simp: bv_push_back_def bv_defs ss_Construct_def bv_inv_def bv_tidy_def bv_list_def alive_def
      take_Suc_conv_app_nth nth_list_update less_Suc_eq)

lemma bv_pop_back_correct:
  assumes "bv_inv v" and "0 < bv_size v"
  shows "\<exists>v'. bv_pop_back v = Inr v' \<and> bv_inv v' \<and> (bv_tidy v \<longrightarrow> bv_tidy v')
    \<and> bv_list v' = butlast (bv_list v) \<and> bv_max_size v' = bv_max_size v"
proof -
  obtain m where m: "bv_numAllocated v = Suc m" using assms(2) by (cases "bv_numAllocated v") (auto simp: bv_size_def)
  have le: "Suc m \<le> length (bv_storage v)" using bv_inv_le [OF assms(1)] m by simp
  have "map the (take m (bv_storage v)) = butlast (bv_list v)"
    using le m by (simp add: bv_list_def butlast_take flip: map_butlast)
  with assms m le show ?thesis
    by (auto simp: bv_pop_back_def bv_defs ss_Destruct_def bv_inv_def bv_tidy_def bv_list_def alive_def
        nth_list_update)
qed

interpretation bv: bounded_sequence bv_list bv_inv bv_max_size bv_push_back bv_pop_back
proof
  fix v :: "'a bounded_vector" and x
  show "bv_inv v \<Longrightarrow> length (bv_list v) \<le> bv_max_size v"
    using bv_inv_le [of v] by (simp add: bv_size_def bv_max_size_def)
  show "bv_inv v \<Longrightarrow> length (bv_list v) < bv_max_size v \<Longrightarrow>
      \<exists>v'. bv_push_back x v = Inr v' \<and> bv_inv v' \<and> bv_list v' = bv_list v @ [x] \<and> bv_max_size v' = bv_max_size v"
    using bv_push_back_correct [of v x] by auto
  show "bv_inv v \<Longrightarrow> length (bv_list v) = bv_max_size v \<Longrightarrow> bv_push_back x v = Inl AssertFailed"
    by (simp add: bv_push_back_def bv_full_def bv_size_def)
  show "bv_inv v \<Longrightarrow> bv_list v \<noteq> [] \<Longrightarrow>
      \<exists>v'. bv_pop_back v = Inr v' \<and> bv_inv v' \<and> bv_list v' = butlast (bv_list v) \<and> bv_max_size v' = bv_max_size v"
    using bv_pop_back_correct [of v] length_bv_list [of v] by (metis length_greater_0_conv)
  show "bv_inv v \<Longrightarrow> bv_list v = [] \<Longrightarrow> bv_pop_back v = Inl AssertFailed"
    using length_bv_list [of v] by (simp add: bv_pop_back_def bv_empty_def bv_size_def)
qed

subsection \<open>clear, resize and assign\<close>

lemma bv_shrink_eq: "bv_shrink n v = pop_times bv_pop_back (bv_size v - n) v"
proof (induction n v rule: bv_shrink.induct)
  case (1 n v)
  show ?case
  proof (cases "n < bv_size v")
    case True
    then have "bv_size v - n = Suc (bv_size v - 1 - n)" by simp
    then have "pop_times bv_pop_back (bv_size v - n) v
        = bindR (bv_pop_back v) (pop_times bv_pop_back (bv_size v - 1 - n))"
      by (simp only: pop_times.simps)
    moreover have "bindR (bv_pop_back v) (bv_shrink n)
        = bindR (bv_pop_back v) (pop_times bv_pop_back (bv_size v - 1 - n))"
      using 1 True by (intro bindR_cong refl) (auto dest: bv_pop_back_size)
    ultimately show ?thesis using True by (simp add: bv_shrink.simps [of n v])
  qed (simp add: bv_shrink.simps [of n v])
qed

lemma bv_clear_eq: "bv_clear v = bv_shrink 0 v"
proof (induction v rule: bv_clear.induct)
  case (1 v)
  then show ?case
    by (auto simp: bv_clear.simps [of v] bv_shrink.simps [of 0 v] bv_defs intro!: bindR_cong)
qed

lemma bv_grow_eq: "bv_grow n x v = push_all bv_push_back (replicate (n - bv_size v) x) v"
proof (induction n x v rule: bv_grow.induct)
  case (1 n x v)
  show ?case
  proof (cases "bv_size v < n")
    case True
    then have "n - bv_size v = Suc (n - (bv_size v + 1))" by simp
    then have "push_all bv_push_back (replicate (n - bv_size v) x) v
        = bindR (bv_push_back x v) (push_all bv_push_back (replicate (n - (bv_size v + 1)) x))"
      by (simp only: replicate_Suc push_all.simps)
    moreover have "bindR (bv_push_back x v) (bv_grow n x)
        = bindR (bv_push_back x v) (push_all bv_push_back (replicate (n - (bv_size v + 1)) x))"
      using 1 True by (intro bindR_cong refl) (auto dest: bv_push_back_size)
    ultimately show ?thesis using True by (simp add: bv_grow.simps [of n x v])
  qed (simp add: bv_grow.simps [of n x v])
qed

lemma bv_shrink_correct:
  assumes "bv_inv v"
  shows "\<exists>v'. bv_shrink n v = Inr v' \<and> bv_inv v' \<and> bv_list v' = take n (bv_list v)
    \<and> bv_max_size v' = bv_max_size v"
proof -
  have "take (bv_size v - (bv_size v - n)) (bv_list v) = take n (bv_list v)"
    using assms by (cases "n \<le> bv_size v") auto
  with assms show ?thesis
    using bv.pop_times_drops [of v "bv_size v - n"] by (auto simp: bv_shrink_eq)
qed

lemma bv_clear_correct:
  assumes "bv_inv v"
  shows "\<exists>v'. bv_clear v = Inr v' \<and> bv_inv v' \<and> bv_list v' = [] \<and> bv_max_size v' = bv_max_size v"
  using bv_shrink_correct [OF assms, of 0] by (simp add: bv_clear_eq)

lemma bv_resize_correct:
  assumes "bv_inv v"
  shows "if n \<le> bv_max_size v
     then \<exists>v'. bv_resize n x v = Inr v' \<and> bv_inv v'
            \<and> bv_list v' = take n (bv_list v) @ replicate (n - bv_size v) x \<and> bv_max_size v' = bv_max_size v
     else bv_resize n x v = Inl AssertFailed"
proof -
  obtain v1 where v1: "bv_shrink n v = Inr v1" "bv_inv v1" "bv_list v1 = take n (bv_list v)"
      "bv_max_size v1 = bv_max_size v"
    using bv_shrink_correct [OF assms] by blast
  have s1: "bv_size v1 = min n (bv_size v)"
    using v1(2,3) assms by (metis length_bv_list length_take min.commute)
  have le: "bv_size v \<le> bv_max_size v" using bv_inv_le [OF assms] by (simp add: bv_defs)
  have r: "bv_resize n x v = push_all bv_push_back (replicate (n - bv_size v) x) v1"
    using v1(1) s1 by (simp add: bv_resize_def bv_grow_eq min_def)
  have l: "length (bv_list v1) + length (replicate (n - bv_size v) x) = n" if "bv_max_size v < n"
    using v1(2) s1 that le by simp
  have l': "length (bv_list v1) + length (replicate (n - bv_size v) x) = n" if "n \<le> bv_max_size v"
    using v1(2) s1 that by auto
  show ?thesis
    using bv.push_all_fits [OF v1(2), of "replicate (n - bv_size v) x"]
      bv.push_all_overflows [OF v1(2), of "replicate (n - bv_size v) x"] l l'
    unfolding r v1(4) v1(3) [symmetric] by (metis linorder_not_le)
qed

lemma bv_assign_correct:
  assumes "bv_inv v"
  shows "if length xs \<le> bv_max_size v
     then \<exists>v'. bv_assign xs v = Inr v' \<and> bv_inv v' \<and> bv_list v' = xs
     else bv_assign xs v = Inl AssertFailed"
proof -
  obtain v0 where v0: "bv_clear v = Inr v0" "bv_inv v0" "bv_list v0 = []" "bv_max_size v0 = bv_max_size v"
    using bv_clear_correct [OF assms] by blast
  have r: "bv_assign xs v = push_all bv_push_back xs v0"
    using v0(1) by (simp add: bv_assign_def bv_emplace_back_eq)
  show ?thesis
    using bv.push_all_fits [OF v0(2), of xs] bv.push_all_overflows [OF v0(2), of xs] v0
    unfolding r by auto
qed

text \<open>
  The loops of \<^verbatim>\<open>clear\<close>, \<^verbatim>\<open>resize\<close> and \<^verbatim>\<open>assign\<close> end and do what the standard container does:
  nothing is left after \<^verbatim>\<open>clear\<close>; \<^verbatim>\<open>resize\<close> keeps the first elements and fills up with the value;
  \<^verbatim>\<open>assign\<close> replaces the contents; a request beyond the capacity fails the assertion.
\<close>

theorem bv_resize_assign_correct:
  assumes "bv_inv v"
  shows "(\<exists>v'. bv_clear v = Inr v' \<and> bv_inv v' \<and> bv_list v' = [])
    \<and> (if n \<le> bv_max_size v
       then \<exists>v'. bv_resize n x v = Inr v' \<and> bv_inv v'
              \<and> bv_list v' = take n (bv_list v) @ replicate (n - bv_size v) x
       else bv_resize n x v = Inl AssertFailed)
    \<and> (if length xs \<le> bv_max_size v
       then \<exists>v'. bv_assign xs v = Inr v' \<and> bv_inv v' \<and> bv_list v' = xs
       else bv_assign xs v = Inl AssertFailed)"
  using bv_clear_correct [OF assms] bv_resize_correct [OF assms, of n x] bv_assign_correct [OF assms, of xs]
  by (auto split: if_splits)

theorem bv_resize_assign_correct_witness:
  "\<exists>v'. bv_resize 3 0 \<lparr>bv_storage = [Some 5, None, None, None], bv_numAllocated = 1\<rparr> = Inr v'
     \<and> bv_list v' = [5, 0, 0::nat]"
proof -
  let ?v = "\<lparr>bv_storage = [Some 5, None, None, None], bv_numAllocated = 1\<rparr> :: nat bounded_vector"
  have inv: "bv_inv ?v" by (simp add: bv_inv_def alive_def)
  have "take 3 (bv_list ?v) @ replicate (3 - bv_size ?v) 0 = [5, 0, 0]" and "3 \<le> bv_max_size ?v"
    by (simp_all add: bv_list_def bv_size_def bv_max_size_def eval_nat_numeral)
  with bv_resize_assign_correct [OF inv, of 3 0 "[]"] show ?thesis by auto
qed

subsection \<open>Inserting\<close>

lemma bv_move_up_construct_eq:
  assumes "q = max position (e - n)" and "q \<le> cp" and "cp \<le> e" and "e + n \<le> length s"
    and "alive s q cp"
  shows "bv_move_up_construct cp position n e s = Inr (q, shift_up q cp n s)"
  using assms
proof (induction cp arbitrary: s)
  case 0
  then show ?case by auto
next
  case (Suc cp)
  show ?case
  proof (cases "Suc cp = q")
    case True
    with Suc.prems have "Suc cp = position \<or> Suc cp + n = e" by auto
    then have "bv_move_up_construct (Suc cp) position n e s = Inr (Suc cp, s)" by auto
    with True Suc.prems show ?thesis by auto
  next
    case False
    with Suc.prems have q: "q \<le> cp" "Suc cp \<noteq> position" "Suc cp + n \<noteq> e" by auto
    from Suc.prems(5) q(1) obtain x where x: "s ! cp = Some x" by (auto simp: alive_def)
    have "bv_move_up_construct cp position n e (s[cp + n := Some x])
        = Inr (q, shift_up q cp n (s[cp + n := Some x]))"
      using Suc.prems q by (intro Suc.IH) (auto simp: alive_def nth_list_update)
    then show ?thesis
      using x q Suc.prems shift_up_step [of q cp n s] by (simp add: ss_read_def ss_Construct_def)
  qed
qed

lemma bv_move_up_assign_eq:
  assumes "position \<le> cp" and "cp + n \<le> length s"
    and "alive s position cp" and "triv \<or> alive s (position + n) (cp + n)"
  shows "bv_move_up_assign triv cp position n s = Inr (shift_up position cp n s)"
  using assms
proof (induction cp arbitrary: s)
  case 0
  then show ?case by auto
next
  case (Suc cp)
  show ?case
  proof (cases "Suc cp = position")
    case True
    with Suc.prems show ?thesis unfolding True [symmetric] by simp
  next
    case False
    with Suc.prems have q: "position \<le> cp" by auto
    with Suc.prems obtain x where x: "s ! cp = Some x" by (auto simp: alive_def)
    have "bv_move_up_assign triv cp position n (s[cp + n := Some x])
        = Inr (shift_up position cp n (s[cp + n := Some x]))"
      using Suc.prems q by (intro Suc.IH) (auto simp: alive_def nth_list_update)
    then show ?thesis
      using x q Suc.prems False shift_up_step [of position cp n s]
      by (auto simp: ss_read_def ss_assign_def alive_def)
  qed
qed

lemma bv_move_up_eq:
  assumes "bv_inv v" and "position \<le> bv_size v" and "bv_size v + n \<le> bv_max_size v"
  shows "bv_move_up triv position n v = Inr (v\<lparr>bv_storage := shift_up position (bv_size v) n (bv_storage v),
     bv_numAllocated := bv_numAllocated v + n\<rparr>)"
proof -
  let ?s = "bv_storage v" and ?e = "bv_size v"
  define q where "q = max position (?e - n)"
  have al: "alive ?s 0 ?e" using assms(1) by (simp add: bv_inv_def bv_size_def)
  have q: "position \<le> q" "q \<le> ?e" using assms(2) by (auto simp: q_def)
  have "bv_move_up_construct ?e position n ?e ?s = Inr (q, shift_up q ?e n ?s)"
    using assms al q by (intro bv_move_up_construct_eq) (auto simp: q_def alive_def bv_max_size_def)
  moreover have "bv_move_up_assign triv q position n (shift_up q ?e n ?s)
      = Inr (shift_up position q n (shift_up q ?e n ?s))"
  proof (rule bv_move_up_assign_eq)
    have nth: "shift_up q ?e n ?s ! k = ?s ! k" if "k < q + n" for k
      using that assms q by (subst shift_up_def, subst nth_overwrite) (auto simp: bv_max_size_def)
    have len: "length (shift_up q ?e n ?s) = length ?s"
      using assms q by (simp add: shift_up_def bv_max_size_def)
    show "alive (shift_up q ?e n ?s) position q"
      using al q assms by (auto simp: alive_def nth len bv_max_size_def)
    have "q = position \<or> q + n \<le> ?e" by (auto simp: q_def)
    then show "triv \<or> alive (shift_up q ?e n ?s) (position + n) (q + n)"
      using al q assms by (auto simp: alive_def nth len bv_max_size_def)
    show "q + n \<le> length (shift_up q ?e n ?s)" using q assms len by (simp add: bv_max_size_def)
  qed (use q in simp)
  ultimately show ?thesis
    using q assms by (simp add: bv_move_up_def shift_up_split bv_max_size_def)
qed

text \<open>What is in the block after the elements were moved up and \<open>xs\<close> was written at the position.\<close>

lemma bv_list_after_insert:
  assumes "bv_inv v" and "position \<le> bv_size v" and "bv_size v + length xs \<le> bv_max_size v"
  defines "s \<equiv> overwrite (shift_up position (bv_size v) (length xs) (bv_storage v)) position (map Some xs)"
  shows "bv_inv (v\<lparr>bv_numAllocated := bv_numAllocated v + length xs, bv_storage := s\<rparr>)"
    and "bv_list (v\<lparr>bv_numAllocated := bv_numAllocated v + length xs, bv_storage := s\<rparr>)
      = take position (bv_list v) @ xs @ drop position (bv_list v)"
proof -
  let ?e = "bv_size v" and ?t = "bv_storage v" and ?n = "length xs"
  have e: "?e \<le> length ?t" "?e + ?n \<le> length ?t" "bv_numAllocated v = ?e"
    using assms by (simp_all add: bv_max_size_def bv_size_def)
  have "s = take position ?t @ map Some xs @ take (?e - position) (drop position ?t) @ drop (?e + ?n) ?t"
    using assms(2) e by (simp add: s_def shift_up_def overwrite_def add.commute)
  then have tk: "take (?e + ?n) s = take position ?t @ map Some xs @ take (?e - position) (drop position ?t)"
    using assms(2) e by simp
  have len: "length s = length ?t"
    using assms(2) e by (simp add: s_def shift_up_def)
  have nn: "\<forall>x\<in>set (take ?e ?t). x \<noteq> None"
    using assms(1) e by (auto simp: bv_inv_def alive_def in_set_conv_nth)
  have "set (take position ?t) \<subseteq> set (take ?e ?t)"
    using assms(2) by (rule set_take_subset_set_take)
  moreover have "set (take (?e - position) (drop position ?t)) \<subseteq> set (take ?e ?t)"
    by (metis drop_take set_drop_subset)
  ultimately have "\<forall>x\<in>set (take (?e + ?n) s). x \<noteq> None"
    using nn by (auto simp: tk)
  then have "\<forall>k<?e + ?n. s ! k \<noteq> None"
    using e len by (metis in_set_conv_nth length_take min.absorb4 min_less_iff_conj nth_take order_less_le_trans)
  then show "bv_inv (v\<lparr>bv_numAllocated := bv_numAllocated v + length xs, bv_storage := s\<rparr>)"
    using e len by (simp add: bv_inv_def alive_def)
  show "bv_list (v\<lparr>bv_numAllocated := bv_numAllocated v + length xs, bv_storage := s\<rparr>)
      = take position (bv_list v) @ xs @ drop position (bv_list v)"
    using assms(2) e tk by (simp add: bv_list_def take_map drop_map drop_take min_def comp_def)
qed

lemma bv_insert_range_correct:
  assumes inv: "bv_inv v" and pos: "position \<le> bv_size v" and room: "bv_size v + length xs \<le> bv_max_size v"
    and ok: "triv \<or> min (bv_size v) (length xs) \<le> bv_size v - position"
  shows "\<exists>v'. bv_insert_range triv position xs v = Inr v' \<and> bv_inv v'
    \<and> bv_list v' = take position (bv_list v) @ xs @ drop position (bv_list v) \<and> bv_max_size v' = bv_max_size v"
proof -
  let ?n = "length xs" and ?e = "bv_size v"
  define k where "k = min (min (position + ?n) ?e) ?n"
  let ?s1 = "shift_up position ?e ?n (bv_storage v)"
  have len: "length ?s1 = length (bv_storage v)" using pos room by (simp add: shift_up_def bv_max_size_def)
  have k: "k \<le> ?n" "k = min ?e ?n" by (auto simp: k_def)
  have nth: "?s1 ! j = bv_storage v ! j" if "j < position + ?n" for j
    using that pos room by (subst shift_up_def, subst nth_overwrite) (auto simp: bv_max_size_def)
  have "triv \<or> alive ?s1 position (position + length (take k xs))"
  proof (cases triv)
    case False
    with ok k pos have "position + k \<le> ?e" by auto
    moreover have "alive (bv_storage v) 0 ?e" using inv by (simp add: bv_inv_def bv_size_def)
    ultimately show ?thesis
      using room len k(1) by (auto simp: alive_def nth bv_max_size_def)
  qed simp
  then have copy: "std_copy triv (take k xs) position ?s1 = Inr (overwrite ?s1 position (map Some (take k xs)))"
    using pos room k len by (intro std_copy_eq) (auto simp: bv_max_size_def)
  have lk: "length (map Some (take k xs)) = k" using k by simp
  have "std_uninitialized_copy (drop k xs) (position + k) (overwrite ?s1 position (map Some (take k xs)))
      = Inr (overwrite (overwrite ?s1 position (map Some (take k xs))) (position + k) (map Some (drop k xs)))"
    using pos room k len by (intro std_uninitialized_copy_eq) (auto simp: bv_max_size_def)
  also have "overwrite (overwrite ?s1 position (map Some (take k xs))) (position + k) (map Some (drop k xs))
      = overwrite ?s1 position (map Some xs)"
    using overwrite_append [of position "map Some (take k xs)" "map Some (drop k xs)" ?s1] pos room len k
    by (simp add: lk bv_max_size_def flip: map_append)
  finally have ins: "bv_insert_range triv position xs v
      = Inr (v\<lparr>bv_numAllocated := bv_numAllocated v + ?n, bv_storage := overwrite ?s1 position (map Some xs)\<rparr>)"
    using room copy by (simp add: bv_insert_range_def bv_move_up_eq [OF inv pos room] Let_def k_def [symmetric])
  have "length (overwrite ?s1 position (map Some xs)) = length (bv_storage v)"
    using pos room len by (simp add: bv_max_size_def)
  with ins show ?thesis
    using bv_list_after_insert [OF inv pos room] by (simp add: bv_max_size_def)
qed

lemma bv_insert_range_undefined:
  assumes inv: "bv_inv v" and tidy: "bv_tidy v" and pos: "position \<le> bv_size v"
    and room: "bv_size v + length xs \<le> bv_max_size v"
    and bad: "bv_size v - position < min (bv_size v) (length xs)"
  shows "bv_insert_range False position xs v = Inl UndefinedBehaviour"
proof -
  let ?n = "length xs" and ?e = "bv_size v"
  define k where "k = min (min (position + ?n) ?e) ?n"
  let ?s1 = "shift_up position ?e ?n (bv_storage v)"
  have len: "length ?s1 = length (bv_storage v)" using pos room by (simp add: shift_up_def bv_max_size_def)
  have k: "k \<le> ?n" "k = min ?e ?n" by (auto simp: k_def)
  have "?s1 ! ?e = bv_storage v ! ?e"
    using bad pos room by (subst shift_up_def, subst nth_overwrite) (auto simp: bv_max_size_def)
  also have "\<dots> = None" using tidy bad room by (auto simp: bv_tidy_def bv_size_def bv_max_size_def)
  finally have "std_copy False (take k xs) position ?s1 = Inl UndefinedBehaviour"
    using pos room bad k len by (intro std_copy_dead [of _ _ _ ?e]) (auto simp: bv_max_size_def)
  then show ?thesis
    using room by (simp add: bv_insert_range_def bv_move_up_eq [OF inv pos room] Let_def k_def [symmetric])
qed

lemma bv_insert_n_eq: "bv_insert_n triv position n x v = bv_insert_range triv position (replicate n x) v"
  by (simp add: bv_insert_n_def bv_insert_range_def Let_def min_def)

text \<open>
  What \<^verbatim>\<open>insert\<close> of a range does, on every branch: beyond the capacity it fails its assertion;
  for a trivial element type it puts the range before the position and keeps the other elements in
  order. For any other type it does so only while the number it takes for already constructed slots,
  the smaller of the size and the range's length, does not exceed the elements after the position.
  Past that, as when two elements are appended to a vector of two, it assigns to storage in which
  no object lives.
\<close>

theorem bv_insert_range_cases:
  assumes "bv_inv v" and "bv_tidy v" and "position \<le> bv_size v"
  shows "if bv_max_size v < bv_size v + length xs
      then bv_insert_range triv position xs v = Inl AssertFailed
    else if triv \<or> min (bv_size v) (length xs) \<le> bv_size v - position
      then \<exists>v'. bv_insert_range triv position xs v = Inr v' \<and> bv_inv v'
             \<and> bv_list v' = take position (bv_list v) @ xs @ drop position (bv_list v)
    else bv_insert_range triv position xs v = Inl UndefinedBehaviour"
  using assms bv_insert_range_correct [of v position xs triv] bv_insert_range_undefined [of v position xs]
  by (auto simp: bv_insert_range_def [of _ _ _ v])

theorem bv_insert_range_cases_witness:
  "bv_insert_range False 2 [7, 8] \<lparr>bv_storage = [Some 5, Some 6, None, None], bv_numAllocated = 2\<rparr>
     = (Inl UndefinedBehaviour :: nat bounded_vector result)"
proof -
  let ?v = "\<lparr>bv_storage = [Some 5, Some 6, None, None], bv_numAllocated = 2\<rparr> :: nat bounded_vector"
  have "bv_inv ?v" by (auto simp: bv_inv_def alive_def less_Suc_eq numeral_eq_Suc)
  moreover have "bv_tidy ?v" by (auto simp: bv_tidy_def less_Suc_eq numeral_eq_Suc)
  moreover have "2 \<le> bv_size ?v" by (simp add: bv_size_def)
  ultimately show ?thesis
    using bv_insert_range_cases [of ?v 2 "[7, 8]" False] by (simp add: bv_size_def bv_max_size_def)
qed

subsection \<open>Erasing\<close>

lemma bv_erase_move_eq:
  assumes "fi \<le> la" and "la \<le> e" and "e \<le> length s" and "alive s fi e"
  shows "bv_erase_move triv fi la e s
    = Inr (fi + (e - la), overwrite s fi (take (e - la) (drop la s)))"
  using assms
proof (induction triv fi la e s rule: bv_erase_move.induct)
  case (1 triv fi la e s)
  show ?case
  proof (cases "la = e")
    case True
    with "1.prems" show ?thesis by (subst bv_erase_move.simps) simp
  next
    case False
    with "1.prems" obtain x where x: "s ! la = Some x" by (auto simp: alive_def)
    from False "1.prems" obtain y where y: "s ! fi = Some y" by (auto simp: alive_def)
    let ?s = "s[fi := Some x]"
    have rec: "bv_erase_move triv (Suc fi) (Suc la) e ?s
        = Inr (Suc fi + (e - Suc la), overwrite ?s (Suc fi) (take (e - Suc la) (drop (Suc la) ?s)))"
      using False "1.prems" x y
      by (intro "1.IH" [where x = x]) (auto simp: ss_read_def ss_assign_def alive_def nth_list_update)
    have "take (e - la) (drop la s) = Some x # take (e - Suc la) (drop (Suc la) ?s)"
      using False "1.prems" x Cons_nth_drop_Suc [of la s] take_Suc_Cons [of "e - Suc la" "Some x" "drop (Suc la) s"]
      by (simp add: Suc_diff_Suc drop_update_cancel)
    then have "overwrite ?s (Suc fi) (take (e - Suc la) (drop (Suc la) ?s))
        = overwrite s fi (take (e - la) (drop la s))"
      using False "1.prems" overwrite_Cons [of fi s "Some x"] by simp
    with rec False "1.prems" x y show ?thesis
      by (simp add: bv_erase_move.simps [of triv fi la e s] ss_read_def ss_assign_def)
  qed
qed

lemma bv_erase_destruct_eq:
  assumes "fi \<le> la" and "la \<le> length (bv_storage v)" and "alive (bv_storage v) fi la"
  shows "bv_erase_destruct fi la v
    = Inr (v\<lparr>bv_storage := overwrite (bv_storage v) fi (replicate (la - fi) None),
             bv_numAllocated := bv_numAllocated v - (la - fi)\<rparr>)"
  using assms
proof (induction fi la v rule: bv_erase_destruct.induct)
  case (1 fi la v)
  show ?case
  proof (cases "fi = la")
    case True
    with "1.prems" show ?thesis by (subst bv_erase_destruct.simps) simp
  next
    case False
    let ?v = "v\<lparr>bv_storage := (bv_storage v)[fi := None], bv_numAllocated := bv_numAllocated v - 1\<rparr>"
    have d: "ss_Destruct fi (bv_storage v) = Inr ((bv_storage v)[fi := None])"
      using False "1.prems" by (auto simp: ss_Destruct_def alive_def)
    have "bv_erase_destruct (Suc fi) la ?v
        = Inr (?v\<lparr>bv_storage := overwrite (bv_storage ?v) (Suc fi) (replicate (la - Suc fi) None),
                 bv_numAllocated := bv_numAllocated ?v - (la - Suc fi)\<rparr>)"
      using False "1.prems" d by (intro "1.IH") (auto simp: alive_def nth_list_update)
    moreover have "overwrite ((bv_storage v)[fi := None]) (Suc fi) (replicate (la - Suc fi) None)
        = overwrite (bv_storage v) fi (replicate (la - fi) None)"
      using False "1.prems" overwrite_Cons [of fi "bv_storage v" None "replicate (la - Suc fi) None"]
      by (simp flip: replicate_Suc add: Suc_diff_Suc)
    moreover have "bv_numAllocated v - 1 - (la - Suc fi) = bv_numAllocated v - (la - fi)"
      using False "1.prems" by simp
    ultimately show ?thesis
      using False "1.prems" d by (simp add: bv_erase_destruct.simps [of fi la v])
  qed
qed

lemma bv_erase_range_correct:
  assumes inv: "bv_inv v" and "fi \<le> la" and "la \<le> bv_size v"
  shows "\<exists>v'. bv_erase_range triv fi la v = Inr v' \<and> bv_inv v' \<and> (bv_tidy v \<longrightarrow> bv_tidy v')
    \<and> bv_list v' = take fi (bv_list v) @ drop la (bv_list v) \<and> bv_max_size v' = bv_max_size v"
proof -
  let ?s = "bv_storage v" and ?e = "bv_size v"
  define m where "m = fi + (?e - la)"
  define s1 where "s1 = overwrite ?s fi (take (?e - la) (drop la ?s))"
  define s2 where "s2 = overwrite s1 m (replicate (?e - m) None)"
  have e: "?e \<le> length ?s" "bv_numAllocated v = ?e" and al: "alive ?s 0 ?e"
    using inv bv_inv_le [OF inv] by (simp_all add: bv_size_def bv_inv_def)
  have m: "m \<le> ?e" using assms by (simp add: m_def)
  have len: "length s1 = length ?s" using assms e by (simp add: s1_def)
  have nth1: "s1 ! k = (if fi \<le> k \<and> k < m then ?s ! (k - fi + la) else ?s ! k)" if "k < length ?s" for k
    using that assms e by (subst s1_def, subst nth_overwrite) (auto simp: m_def add.commute)
  have al1: "alive s1 0 ?e"
    using al assms e len by (auto simp: alive_def nth1 m_def)
  have r: "bv_erase_range triv fi la v = Inr (v\<lparr>bv_storage := s2, bv_numAllocated := m\<rparr>)"
    using assms e al m len al1 bv_erase_move_eq [of fi la ?e ?s triv]
      bv_erase_destruct_eq [of m ?e "v\<lparr>bv_storage := s1\<rparr>"]
    by (auto simp: bv_erase_range_def alive_def s2_def m_def [symmetric] s1_def [symmetric])
  have nth2: "s2 ! k = (if m \<le> k \<and> k < ?e then None else s1 ! k)" if "k < length ?s" for k
    using that m e len by (subst s2_def, subst nth_overwrite) auto
  have len2: "length s2 = length ?s" using m e len by (simp add: s2_def)
  have "take m s2 = take fi ?s @ take (?e - la) (drop la ?s)"
    using assms e m len2
    by (intro nth_equalityI) (auto simp: nth2 nth1 nth_append m_def add.commute)
  then have "map the (take m s2) = take fi (bv_list v) @ drop la (bv_list v)"
    using assms e by (simp add: bv_list_def take_map drop_map drop_take min_def)
  moreover have "\<forall>k<m. s2 ! k \<noteq> None" using al1 m e len by (auto simp: alive_def nth2)
  moreover have "bv_tidy v \<Longrightarrow> \<forall>k. m \<le> k \<and> k < length ?s \<longrightarrow> s2 ! k = None"
    using e m by (auto simp: bv_tidy_def nth2 nth1)
  ultimately show ?thesis
    using r m e len2 by (simp add: bv_inv_def alive_def bv_tidy_def bv_list_def bv_max_size_def)
qed

text \<open>
  After the loop of \<^verbatim>\<open>erase_if\<close> the kept elements stand in front, in their order; nothing behind the
  elements changed.
\<close>

lemma bv_erase_if_loop_correct:
  assumes "out \<le> i" and "i \<le> e" and "e \<le> length s" and "alive s 0 e"
  shows "\<exists>out' s'. bv_erase_if_loop triv pred i out e s = Inr (out', s') \<and> out' \<le> e
    \<and> length s' = length s \<and> alive s' 0 e \<and> drop e s' = drop e s
    \<and> map the (take out' s')
        = map the (take out s) @ filter (\<lambda>x. \<not> pred x) (map the (take (e - i) (drop i s)))"
  using assms
proof (induction triv pred i out e s rule: bv_erase_if_loop.induct)
  case (1 triv pred i out e s)
  show ?case
  proof (cases "i < e")
    case False
    with "1.prems" show ?thesis by (subst bv_erase_if_loop.simps) auto
  next
    case True
    with "1.prems" obtain x where x: "s ! i = Some x" by (auto simp: alive_def)
    have "out < e" using True "1.prems" by simp
    then obtain y where y: "s ! out = Some y" using "1.prems" by (auto simp: alive_def)
    have rd: "ss_read i s = Inr x" and wr: "ss_assign triv x out s = Inr (s[out := Some x])"
      using True "1.prems" x y by (simp_all add: ss_read_def ss_assign_def)
    have hd: "take (e - i) (drop i s) = Some x # take (e - Suc i) (drop (Suc i) s)"
      using True "1.prems" x Cons_nth_drop_Suc [of i s]
        take_Suc_Cons [of "e - Suc i" "Some x" "drop (Suc i) s"]
      by (simp add: Suc_diff_Suc)
    consider "pred x" | "\<not> pred x" "i \<noteq> out" | "\<not> pred x" "i = out" by blast
    then show ?thesis
    proof cases
      case 1
      with "1.IH"(1) [OF True rd 1] "1.prems" True show ?thesis
        by (subst bv_erase_if_loop.simps) (simp add: rd hd)
    next
      case 2
      have "take (Suc out) (s[out := Some x]) = take out s @ [Some x]"
        using "1.prems" True by (simp add: take_Suc_conv_app_nth)
      with 2 "1.IH"(2) [OF True rd 2 wr] "1.prems" True show ?thesis
        by (subst bv_erase_if_loop.simps)
          (simp add: rd wr hd alive_def nth_list_update drop_update_cancel)
    next
      case 3
      have "take (Suc out) s = take out s @ [Some x]"
        using 3 "1.prems" True x by (simp add: take_Suc_conv_app_nth)
      with 3 "1.IH"(3) [OF True rd 3(1)] "1.prems" True show ?thesis
        by (subst bv_erase_if_loop.simps) (simp add: rd [unfolded 3(2)] hd [unfolded 3(2)])
    qed
  qed
qed

text \<open>
  \<^verbatim>\<open>erase_if\<close> keeps exactly the elements that do not satisfy the predicate, in their order, returns how
  many it removed, and leaves every slot behind the kept elements without an object.
\<close>

theorem bv_erase_if_filters:
  assumes "bv_inv v" and "bv_tidy v"
  shows "\<exists>v'. bv_erase_if triv pred v = Inr (length (filter pred (bv_list v)), v')
    \<and> bv_inv v' \<and> bv_tidy v' \<and> bv_max_size v' = bv_max_size v
    \<and> bv_list v' = filter (\<lambda>x. \<not> pred x) (bv_list v)"
proof -
  let ?e = "bv_size v"
  have e: "?e \<le> length (bv_storage v)" "bv_numAllocated v = ?e" and al: "alive (bv_storage v) 0 ?e"
    using assms bv_inv_le [OF assms(1)] by (simp_all add: bv_size_def bv_inv_def)
  obtain out s where l: "bv_erase_if_loop triv pred 0 0 ?e (bv_storage v) = Inr (out, s)" "out \<le> ?e"
      and len: "length s = length (bv_storage v)" and als: "alive s 0 ?e"
      and dr: "drop ?e s = drop ?e (bv_storage v)"
      and tk: "map the (take out s) = filter (\<lambda>x. \<not> pred x) (bv_list v)"
    using bv_erase_if_loop_correct [of 0 0 ?e "bv_storage v" triv pred, OF _ _ e(1) al]
    unfolding bv_list_def e(2) by (simp only: take_0 diff_zero drop_0 list.map append_Nil) blast
  let ?w = "v\<lparr>bv_storage := s\<rparr>"
  have w: "bv_inv ?w" "bv_size ?w = ?e"
    using als by (simp_all add: bv_inv_def bv_size_def)
  have tidy: "bv_tidy ?w"
    unfolding bv_tidy_def
  proof (intro allI impI)
    fix k assume k: "bv_numAllocated ?w \<le> k \<and> k < length (bv_storage ?w)"
    then have "s ! k = drop ?e s ! (k - ?e)" using e len by (simp add: nth_drop)
    also have "\<dots> = bv_storage v ! k" using k e len by (simp add: dr nth_drop)
    finally show "bv_storage ?w ! k = None" using k assms(2) len by (simp add: bv_tidy_def)
  qed
  obtain v' where r: "bv_erase_range triv out ?e ?w = Inr v'" "bv_inv v'" "bv_tidy v'"
      and c: "bv_list v' = take out (bv_list ?w) @ drop ?e (bv_list ?w)" "bv_max_size v' = bv_max_size ?w"
    using bv_erase_range_correct [OF w(1), of out ?e triv] l(2) w(2) tidy by auto
  have lens: "length (bv_list v) = ?e" "out \<le> length s"
    using e(1) l(2) len by (simp_all add: bv_list_def bv_size_def)
  have "take out (bv_list ?w) @ drop ?e (bv_list ?w) = map the (take out s)"
    using l(2) e by (simp add: bv_list_def take_map min_def)
  with tk c have li: "bv_list v' = filter (\<lambda>x. \<not> pred x) (bv_list v)" by simp
  have "out = length (filter (\<lambda>x. \<not> pred x) (bv_list v))"
    using arg_cong [OF tk, of length] lens by simp
  then have "?e - out = length (filter pred (bv_list v))"
    using sum_length_filter_compl [of pred "bv_list v"] lens by simp
  with l r c li len show ?thesis
    by (simp add: bv_erase_if_def bv_max_size_def)
qed

theorem bv_erase_if_filters_witness:
  "\<exists>v'. bv_erase_if False (\<lambda>x. x < 3) \<lparr>bv_storage = [Some 1, Some 5, Some (2 :: nat), None], bv_numAllocated = 3\<rparr>
     = Inr (2, v') \<and> bv_list v' = [5]"
proof -
  let ?v = "\<lparr>bv_storage = [Some 1, Some 5, Some 2, None], bv_numAllocated = 3\<rparr> :: nat bounded_vector"
  have "bv_inv ?v" by (auto simp: bv_inv_def alive_def less_Suc_eq numeral_eq_Suc)
  moreover have "bv_tidy ?v" by (auto simp: bv_tidy_def less_Suc_eq numeral_eq_Suc)
  moreover have "bv_list ?v = [1, 5, 2]" by (simp add: bv_list_def numeral_eq_Suc)
  ultimately show ?thesis
    using bv_erase_if_filters [of ?v False "\<lambda>x. x < 3"] by auto
qed

subsection \<open>Swapping\<close>

lemma bv_swap_common_correct:
  assumes "i \<le> n" and "n \<le> length s" and "n \<le> length t" and "alive s 0 n" and "alive t 0 n"
  shows "\<exists>s' t'. bv_swap_common triv i n s t = Inr (s', t') \<and> length s' = length s \<and> length t' = length t
    \<and> (\<forall>k<length s. s' ! k = (if i \<le> k \<and> k < n then t ! k else s ! k))
    \<and> (\<forall>k<length t. t' ! k = (if i \<le> k \<and> k < n then s ! k else t ! k))"
  using assms
proof (induction triv i n s t rule: bv_swap_common.induct)
  case (1 triv i n s t)
  show ?case
  proof (cases "i < n")
    case False
    then show ?thesis by (subst bv_swap_common.simps) auto
  next
    case True
    with "1.prems" obtain x y where xy: "s ! i = Some x" "t ! i = Some y" by (auto simp: alive_def) blast
    have ops: "ss_read i s = Inr x" "ss_read i t = Inr y"
        "ss_assign triv y i s = Inr (s[i := Some y])" "ss_assign triv x i t = Inr (t[i := Some x])"
      using True "1.prems" xy by (simp_all add: ss_read_def ss_assign_def)
    have "alive (s[i := Some y]) 0 n" "alive (t[i := Some x]) 0 n"
      using "1.prems" True xy by (auto simp: alive_def nth_list_update)
    with "1.IH" [OF True ops] True "1.prems" obtain s' t' where
      r: "bv_swap_common triv (Suc i) n (s[i := Some y]) (t[i := Some x]) = Inr (s', t')"
        "length s' = length s" "length t' = length t"
      and n: "\<And>k. k < length s \<Longrightarrow> s' ! k = (if Suc i \<le> k \<and> k < n then t[i := Some x] ! k else s[i := Some y] ! k)"
        "\<And>k. k < length t \<Longrightarrow> t' ! k = (if Suc i \<le> k \<and> k < n then s[i := Some y] ! k else t[i := Some x] ! k)"
      by (auto simp del: nth_list_update)
    have "s' ! k = (if i \<le> k \<and> k < n then t ! k else s ! k)" if "k < length s" for k
      using that n(1) [OF that] True xy by (cases "k = i") (auto simp: nth_list_update)
    moreover have "t' ! k = (if i \<le> k \<and> k < n then s ! k else t ! k)" if "k < length t" for k
      using that n(2) [OF that] True xy by (cases "k = i") (auto simp: nth_list_update)
    ultimately show ?thesis
      using r ops True by (subst bv_swap_common.simps) simp
  qed
qed

lemma bv_swap_move_correct:
  assumes "n \<le> length to" and "n \<le> length from" and "alive from i n"
    and "\<forall>k. i \<le> k \<and> k < n \<longrightarrow> to ! k = None"
  shows "\<exists>to' from'. bv_swap_move i n to from = Inr (to', from')
    \<and> length to' = length to \<and> length from' = length from
    \<and> (\<forall>k<length to. to' ! k = (if i \<le> k \<and> k < n then from ! k else to ! k))
    \<and> (\<forall>k<length from. from' ! k = (if i \<le> k \<and> k < n then None else from ! k))"
  using assms
proof (induction i n to "from" rule: bv_swap_move.induct)
  case (1 i n to "from")
  show ?case
  proof (cases "i < n")
    case False
    then show ?thesis by (subst bv_swap_move.simps) auto
  next
    case True
    with "1.prems" obtain x where x: "from ! i = Some x" by (auto simp: alive_def)
    have ops: "ss_read i from = Inr x" "ss_Construct x i to = Inr (to[i := Some x])"
        "ss_Destruct i from = Inr (from[i := None])"
      using True "1.prems" x by (simp_all add: ss_read_def ss_Construct_def ss_Destruct_def)
    have "alive (from[i := None]) (Suc i) n" "\<forall>k. Suc i \<le> k \<and> k < n \<longrightarrow> to[i := Some x] ! k = None"
      using "1.prems" True by (auto simp: alive_def nth_list_update)
    with "1.IH" [OF True ops] "1.prems" obtain to' from' where
      r: "bv_swap_move (Suc i) n (to[i := Some x]) (from[i := None]) = Inr (to', from')"
        "length to' = length to" "length from' = length from"
      and n: "\<And>k. k < length to \<Longrightarrow> to' ! k = (if Suc i \<le> k \<and> k < n then from[i := None] ! k else to[i := Some x] ! k)"
        "\<And>k. k < length from \<Longrightarrow> from' ! k = (if Suc i \<le> k \<and> k < n then None else from[i := None] ! k)"
      by (auto simp del: nth_list_update)
    have "to' ! k = (if i \<le> k \<and> k < n then from ! k else to ! k)" if "k < length to" for k
      using that n(1) [OF that] True x by (cases "k = i") (auto simp: nth_list_update)
    moreover have "from' ! k = (if i \<le> k \<and> k < n then None else from ! k)" if "k < length from" for k
      using that n(2) [OF that] True by (cases "k = i") (auto simp: nth_list_update)
    ultimately show ?thesis
      using r ops True by (subst bv_swap_move.simps) simp
  qed
qed

text \<open>The three loops of \<^verbatim>\<open>swap\<close> one after the other, on blocks with \<open>a\<close> and \<open>b\<close> elements.\<close>

lemma bv_swap_loops:
  assumes sz: "a \<le> length s" "a \<le> length t" "b \<le> length s" "b \<le> length t"
    and al: "alive s 0 a" "alive t 0 b"
    and td: "\<And>k. a \<le> k \<Longrightarrow> k < length s \<Longrightarrow> s ! k = None" "\<And>k. b \<le> k \<Longrightarrow> k < length t \<Longrightarrow> t ! k = None"
  shows "\<exists>s1 t1 s2 t2 s3 t3. bv_swap_common triv 0 (min a b) s t = Inr (s1, t1)
    \<and> bv_swap_move a b s1 t1 = Inr (s2, t2) \<and> bv_swap_move b a t2 s2 = Inr (t3, s3)
    \<and> length s1 = length s \<and> length t1 = length t \<and> length s2 = length s \<and> length t2 = length t
    \<and> length s3 = length s \<and> length t3 = length t
    \<and> (\<forall>k<length s. s3 ! k = (if k < b then t ! k else None))
    \<and> (\<forall>k<length t. t3 ! k = (if k < a then s ! k else None))"
proof -
  have "alive s 0 (min a b)" "alive t 0 (min a b)" using al by (auto simp: alive_def)
  then obtain s1 t1 where 1: "bv_swap_common triv 0 (min a b) s t = Inr (s1, t1)"
      "length s1 = length s" "length t1 = length t"
      "\<And>k. k < length s \<Longrightarrow> s1 ! k = (if k < min a b then t ! k else s ! k)"
      "\<And>k. k < length t \<Longrightarrow> t1 ! k = (if k < min a b then s ! k else t ! k)"
    using bv_swap_common_correct [of 0 "min a b" s t triv] sz by (auto simp: min.coboundedI1)
  have "alive t1 a b" "\<forall>k. a \<le> k \<and> k < b \<longrightarrow> s1 ! k = None"
    using al sz 1 td by (auto simp: alive_def)
  then obtain s2 t2 where 2: "bv_swap_move a b s1 t1 = Inr (s2, t2)"
      "length s2 = length s" "length t2 = length t"
      "\<And>k. k < length s \<Longrightarrow> s2 ! k = (if a \<le> k \<and> k < b then t1 ! k else s1 ! k)"
      "\<And>k. k < length t \<Longrightarrow> t2 ! k = (if a \<le> k \<and> k < b then None else t1 ! k)"
    using bv_swap_move_correct [of b s1 t1 a] sz 1 by auto
  have "alive s2 b a" "\<forall>k. b \<le> k \<and> k < a \<longrightarrow> t2 ! k = None"
    using al sz 1 2 td by (auto simp: alive_def)
  then obtain t3 s3 where 3: "bv_swap_move b a t2 s2 = Inr (t3, s3)"
      "length s3 = length s" "length t3 = length t"
      "\<And>k. k < length t \<Longrightarrow> t3 ! k = (if b \<le> k \<and> k < a then s2 ! k else t2 ! k)"
      "\<And>k. k < length s \<Longrightarrow> s3 ! k = (if b \<le> k \<and> k < a then None else s2 ! k)"
    using bv_swap_move_correct [of a t2 s2 b] sz 2 by auto
  have s3: "s3 ! k = (if k < b then t ! k else None)" if "k < length s" for k
    using that sz by (auto simp: 1 2 3 td)
  have t3: "t3 ! k = (if k < a then s ! k else None)" if "k < length t" for k
    using that sz by (auto simp: 1 2 3 td)
  show ?thesis
    using 1 2 3 s3 t3 by (intro exI conjI allI impI) assumption+
qed

text \<open>
  \<^verbatim>\<open>swap\<close> exchanges the contents of two vectors of possibly different capacity. It asserts that the
  other vector holds strictly less than this one's capacity, so that it refuses a swap that would
  just fill this vector.
\<close>

theorem bv_swap_exchanges:
  assumes inv: "bv_inv v" "bv_inv w" and tidy: "bv_tidy v" "bv_tidy w"
  shows "if bv_size v \<le> bv_max_size w \<and> bv_size w < bv_max_size v
    then \<exists>v' w'. bv_swap triv v w = Inr (v', w') \<and> bv_inv v' \<and> bv_inv w' \<and> bv_tidy v' \<and> bv_tidy w'
      \<and> bv_list v' = bv_list w \<and> bv_list w' = bv_list v
      \<and> bv_max_size v' = bv_max_size v \<and> bv_max_size w' = bv_max_size w
    else bv_swap triv v w = Inl AssertFailed"
proof (cases "bv_size v \<le> bv_max_size w \<and> bv_size w < bv_max_size v")
  case False
  then show ?thesis by (auto simp: bv_swap_def)
next
  case True
  define a b s t where "a = bv_size v" and "b = bv_size w" and "s = bv_storage v" and "t = bv_storage w"
  have sz: "a \<le> length s" "a \<le> length t" "b \<le> length s" "b \<le> length t"
    using True bv_inv_le [OF inv(1)] bv_inv_le [OF inv(2)]
    by (simp_all add: a_def b_def s_def t_def bv_size_def bv_max_size_def)
  have al: "alive s 0 a" "alive t 0 b"
    using inv by (simp_all add: a_def b_def s_def t_def bv_inv_def bv_size_def)
  have td: "\<And>k. a \<le> k \<Longrightarrow> k < length s \<Longrightarrow> s ! k = None" "\<And>k. b \<le> k \<Longrightarrow> k < length t \<Longrightarrow> t ! k = None"
    using tidy by (simp_all add: a_def b_def s_def t_def bv_tidy_def bv_size_def)
  obtain s1 t1 s2 t2 s3 t3 where loops: "bv_swap_common triv 0 (min a b) s t = Inr (s1, t1)"
      "bv_swap_move a b s1 t1 = Inr (s2, t2)" "bv_swap_move b a t2 s2 = Inr (t3, s3)"
      and len: "length s3 = length s" "length t3 = length t"
      and s3: "\<And>k. k < length s \<Longrightarrow> s3 ! k = (if k < b then t ! k else None)"
      and t3: "\<And>k. k < length t \<Longrightarrow> t3 ! k = (if k < a then s ! k else None)"
    using bv_swap_loops [OF sz al td, of triv] by blast
  have r: "bv_swap triv v w = Inr (v\<lparr>bv_storage := s3, bv_numAllocated := b\<rparr>,
      w\<lparr>bv_storage := t3, bv_numAllocated := a\<rparr>)" (is "_ = Inr (?v, ?w)")
    using True loops
    by (simp add: bv_swap_def a_def [symmetric] b_def [symmetric] s_def [symmetric] t_def [symmetric])
  have "bv_inv ?v" "bv_inv ?w" "bv_tidy ?v" "bv_tidy ?w"
    using al sz len by (auto simp: bv_inv_def bv_tidy_def alive_def s3 t3)
  moreover have "take b s3 = take b t" "take a t3 = take a s"
    using sz len by (auto intro!: nth_equalityI simp: s3 t3)
  then have "bv_list ?v = bv_list w" "bv_list ?w = bv_list v"
    by (simp_all add: bv_list_def a_def b_def s_def t_def bv_size_def)
  moreover have "bv_max_size ?v = bv_max_size v" "bv_max_size ?w = bv_max_size w"
    using len by (simp_all add: bv_max_size_def s_def t_def)
  ultimately show ?thesis using True r by auto
qed

theorem bv_swap_exchanges_witness:
  "\<exists>v' w'. bv_swap False \<lparr>bv_storage = [Some 1, None], bv_numAllocated = 1\<rparr>
      \<lparr>bv_storage = [None :: nat option], bv_numAllocated = 0\<rparr> = Inr (v', w') \<and> bv_list w' = [1]"
proof -
  let ?v = "\<lparr>bv_storage = [Some 1, None], bv_numAllocated = 1\<rparr> :: nat bounded_vector"
  let ?w = "\<lparr>bv_storage = [None], bv_numAllocated = 0\<rparr> :: nat bounded_vector"
  have "bv_inv ?v" "bv_inv ?w" by (auto simp: bv_inv_def alive_def)
  moreover have "bv_tidy ?v" "bv_tidy ?w" by (auto simp: bv_tidy_def less_Suc_eq numeral_eq_Suc)
  moreover have "bv_list ?v = [1]" by (simp add: bv_list_def)
  moreover have "bv_size ?v \<le> bv_max_size ?w \<and> bv_size ?w < bv_max_size ?v"
    by (simp add: bv_size_def bv_max_size_def)
  ultimately show ?thesis
    using bv_swap_exchanges [of ?v ?w False] by auto
qed

end
