(* ===== verification/Bounded_Deque.thy ===== *)
theory Bounded_Deque
  imports Bounded_Vector
begin

section \<open>The bounded deque: infra/util/BoundedDeque.hpp\<close>

text \<open>
  \<^verbatim>\<open>BoundedDeque\<close> keeps its elements circularly in a fixed block of \<^verbatim>\<open>StaticStorage\<close>, from \<open>start\<close> on.
  Iterators are element indices. The block read from \<open>start\<close> on is the block of a bounded vector,
  \<open>bd_vector\<close>; the operations that leave \<open>start\<close> alone simulate those of that vector slot by slot
  (\<open>bd_sim\<close>), the others rotate it. A position past the end has no meaning as an argument.
\<close>

record 'a bounded_deque =
  bd_storage :: "'a slots"
  bd_start :: nat
  bd_numAllocated :: nat

definition bd_make :: "'a slots \<Rightarrow> 'a bounded_deque" where
  "bd_make s = \<lparr>bd_storage = s, bd_start = 0, bd_numAllocated = 0\<rparr>"

definition bd_size :: "'a bounded_deque \<Rightarrow> nat" where
  "bd_size b = bd_numAllocated b"

definition bd_max_size :: "'a bounded_deque \<Rightarrow> nat" where
  "bd_max_size b = length (bd_storage b)"

definition bd_empty :: "'a bounded_deque \<Rightarrow> bool" where
  "bd_empty b \<longleftrightarrow> bd_numAllocated b = 0"

definition bd_full :: "'a bounded_deque \<Rightarrow> bool" where
  "bd_full b \<longleftrightarrow> bd_numAllocated b = bd_max_size b"

definition bd_index :: "'a bounded_deque \<Rightarrow> nat \<Rightarrow> nat" where
  "bd_index b elementIndex =
     (let index = bd_start b + elementIndex
      in if index < bd_max_size b then index else index - bd_max_size b)"

text \<open>The slot \<^verbatim>\<open>storage[index(i)]\<close>: constructing, destroying, reading and assigning its object.\<close>

definition bd_Construct :: "'a \<Rightarrow> nat \<Rightarrow> 'a bounded_deque \<Rightarrow> 'a bounded_deque result" where
  "bd_Construct x i b = bindR (ss_Construct x (bd_index b i) (bd_storage b)) (\<lambda>s. Inr (b\<lparr>bd_storage := s\<rparr>))"

definition bd_Destruct :: "nat \<Rightarrow> 'a bounded_deque \<Rightarrow> 'a bounded_deque result" where
  "bd_Destruct i b = bindR (ss_Destruct (bd_index b i) (bd_storage b)) (\<lambda>s. Inr (b\<lparr>bd_storage := s\<rparr>))"

definition bd_read :: "nat \<Rightarrow> 'a bounded_deque \<Rightarrow> 'a result" where
  "bd_read i b = ss_read (bd_index b i) (bd_storage b)"

definition bd_slot_assign :: "bool \<Rightarrow> 'a \<Rightarrow> nat \<Rightarrow> 'a bounded_deque \<Rightarrow> 'a bounded_deque result" where
  "bd_slot_assign triv x i b = bindR (ss_assign triv x (bd_index b i) (bd_storage b)) (\<lambda>s. Inr (b\<lparr>bd_storage := s\<rparr>))"

definition bd_at :: "nat \<Rightarrow> 'a bounded_deque \<Rightarrow> 'a result" where
  "bd_at position b = checked (position < bd_size b) (bd_read position b)"

definition bd_front :: "'a bounded_deque \<Rightarrow> 'a result" where
  "bd_front b = checked (\<not> bd_empty b) (ss_read (bd_start b) (bd_storage b))"

definition bd_back :: "'a bounded_deque \<Rightarrow> 'a result" where
  "bd_back b = checked (\<not> bd_empty b) (bd_read (bd_numAllocated b - 1) b)"

text \<open>The ranges of slots of \<^verbatim>\<open>contiguous_range\<close> and \<^verbatim>\<open>contiguous_range_at_end\<close>, as begin and end.\<close>

definition bd_contiguous_range :: "nat \<Rightarrow> 'a bounded_deque \<Rightarrow> nat \<times> nat" where
  "bd_contiguous_range from b =
     (if \<not> bd_empty b
      then let i = bd_index b from in (i, min (i + bd_numAllocated b - from) (bd_max_size b))
      else (0, 0))"

definition bd_contiguous_range_at_end :: "nat \<Rightarrow> 'a bounded_deque \<Rightarrow> nat \<times> nat" where
  "bd_contiguous_range_at_end to b =
     (if \<not> bd_empty b
      then let i0 = bd_index b to; i = (if i0 = 0 then bd_max_size b else i0)
           in (if to \<le> i then i - to else 0, i)
      else (0, 0))"

subsection \<open>Operations at the ends\<close>

definition bd_push_back :: "'a \<Rightarrow> 'a bounded_deque \<Rightarrow> 'a bounded_deque result" where
  "bd_push_back x b = checked (\<not> bd_full b)
     (bindR (bd_Construct x (bd_numAllocated b) b)
       (\<lambda>b'. Inr (b'\<lparr>bd_numAllocated := bd_numAllocated b' + 1\<rparr>)))"

definition bd_emplace_back :: "'a \<Rightarrow> 'a bounded_deque \<Rightarrow> 'a bounded_deque result" where
  "bd_emplace_back x b = checked (bd_size b \<noteq> bd_max_size b)
     (bindR (bd_Construct x (bd_numAllocated b) b)
       (\<lambda>b'. Inr (b'\<lparr>bd_numAllocated := bd_numAllocated b' + 1\<rparr>)))"

definition bd_pop_back :: "'a bounded_deque \<Rightarrow> 'a bounded_deque result" where
  "bd_pop_back b = checked (\<not> bd_empty b)
     (bindR (bd_Destruct (bd_numAllocated b - 1) b)
       (\<lambda>b'. Inr (b'\<lparr>bd_numAllocated := bd_numAllocated b' - 1\<rparr>)))"

definition bd_push_front :: "'a \<Rightarrow> 'a bounded_deque \<Rightarrow> 'a bounded_deque result" where
  "bd_push_front x b = checked (\<not> bd_full b)
     (let b1 = b\<lparr>bd_start := bd_index b (bd_max_size b - 1)\<rparr>
      in bindR (ss_Construct x (bd_start b1) (bd_storage b1))
           (\<lambda>s. Inr (b1\<lparr>bd_storage := s, bd_numAllocated := bd_numAllocated b1 + 1\<rparr>)))"

definition bd_emplace_front :: "'a \<Rightarrow> 'a bounded_deque \<Rightarrow> 'a bounded_deque result" where
  "bd_emplace_front x b = checked (bd_size b \<noteq> bd_max_size b)
     (let b1 = b\<lparr>bd_start := (if bd_start b \<noteq> 0 then bd_start b - 1 else bd_max_size b - 1)\<rparr>
      in bindR (bd_Construct x 0 b1)
           (\<lambda>b2. Inr (b2\<lparr>bd_numAllocated := bd_numAllocated b2 + 1\<rparr>)))"

definition bd_pop_front :: "'a bounded_deque \<Rightarrow> 'a bounded_deque result" where
  "bd_pop_front b = checked (\<not> bd_empty b)
     (bindR (ss_Destruct (bd_start b) (bd_storage b))
       (\<lambda>s. let b1 = b\<lparr>bd_storage := s\<rparr>
            in Inr (b1\<lparr>bd_start := bd_index b1 1, bd_numAllocated := bd_numAllocated b1 - 1\<rparr>)))"

lemma bd_pop_back_size: "bd_pop_back b = Inr b' \<Longrightarrow> bd_size b' = bd_size b - 1 \<and> 0 < bd_size b"
  by (auto simp: bd_pop_back_def bd_Destruct_def bd_size_def bd_empty_def result_simps)

lemma bd_push_back_size: "bd_push_back x b = Inr b' \<Longrightarrow> bd_size b' = bd_size b + 1"
  by (auto simp: bd_push_back_def bd_Construct_def bd_size_def result_simps)

function bd_pop_all :: "'a bounded_deque \<Rightarrow> 'a bounded_deque result" where
  "bd_pop_all b = (if \<not> bd_empty b then bindR (bd_pop_back b) bd_pop_all else Inr b)"
  by pat_completeness auto
termination
  by (relation "measure bd_size") (auto dest: bd_pop_back_size)

function bd_shrink :: "nat \<Rightarrow> 'a bounded_deque \<Rightarrow> 'a bounded_deque result" where
  "bd_shrink n b = (if n < bd_size b then bindR (bd_pop_back b) (bd_shrink n) else Inr b)"
  by pat_completeness auto
termination
  by (relation "measure (\<lambda>(n, b). bd_size b)") (auto dest: bd_pop_back_size)

function bd_grow :: "nat \<Rightarrow> 'a \<Rightarrow> 'a bounded_deque \<Rightarrow> 'a bounded_deque result" where
  "bd_grow n x b = (if n > bd_size b then bindR (bd_push_back x b) (bd_grow n x) else Inr b)"
  by pat_completeness auto
termination
  by (relation "measure (\<lambda>(n, x, b). n - bd_size b)") (auto dest: bd_push_back_size)

declare bd_pop_all.simps [simp del] bd_shrink.simps [simp del] bd_grow.simps [simp del]

text \<open>\<open>triv\<close> says whether the element type is trivially destructible: then \<^verbatim>\<open>clear\<close> only forgets.\<close>

definition bd_clear :: "bool \<Rightarrow> 'a bounded_deque \<Rightarrow> 'a bounded_deque result" where
  "bd_clear triv b =
     bindR (if triv then Inr (b\<lparr>bd_numAllocated := 0\<rparr>) else bd_pop_all b)
       (\<lambda>b'. Inr (b'\<lparr>bd_start := 0\<rparr>))"

definition bd_resize :: "nat \<Rightarrow> 'a \<Rightarrow> 'a bounded_deque \<Rightarrow> 'a bounded_deque result" where
  "bd_resize n x b = bindR (bd_shrink n b) (bd_grow n x)"

definition bd_assign :: "bool \<Rightarrow> 'a list \<Rightarrow> 'a bounded_deque \<Rightarrow> 'a bounded_deque result" where
  "bd_assign triv xs b = bindR (bd_clear triv b) (push_all bd_push_back xs)"

definition bd_assign_n :: "bool \<Rightarrow> nat \<Rightarrow> 'a \<Rightarrow> 'a bounded_deque \<Rightarrow> 'a bounded_deque result" where
  "bd_assign_n triv n x b = bindR (bd_clear triv b) (push_all bd_push_back (replicate n x))"

subsection \<open>Inserting\<close>

text \<open>
  The two loops of \<^verbatim>\<open>move_up\<close>: \<open>k\<close> is \<^verbatim>\<open>number_of_copies\<close>, \<open>cp\<close> is \<^verbatim>\<open>copy_position\<close>. An empty deque has no
  copies to make, so that the wrapped value its \<^verbatim>\<open>copy_position\<close> has there is never used.
\<close>

fun bd_move_up_construct :: "nat \<Rightarrow> nat \<Rightarrow> nat \<Rightarrow> 'a bounded_deque \<Rightarrow> (nat \<times> nat \<times> 'a bounded_deque) result" where
  "bd_move_up_construct 0 cp n b = Inr (0, cp, b)"
| "bd_move_up_construct (Suc k) cp n b =
     (if bd_numAllocated b \<le> cp
      then bindR (bd_read (cp - n) b) (\<lambda>x. bindR (bd_Construct x cp b)
             (\<lambda>b'. bd_move_up_construct k (cp - 1) n b'))
      else Inr (Suc k, cp, b))"

fun bd_move_up_assign :: "bool \<Rightarrow> nat \<Rightarrow> nat \<Rightarrow> nat \<Rightarrow> 'a bounded_deque \<Rightarrow> 'a bounded_deque result" where
  "bd_move_up_assign triv 0 cp n b = Inr b"
| "bd_move_up_assign triv (Suc k) cp n b =
     bindR (bd_read (cp - n) b) (\<lambda>x. bindR (bd_slot_assign triv x cp b)
       (\<lambda>b'. bd_move_up_assign triv k (cp - 1) n b'))"

definition bd_move_up :: "bool \<Rightarrow> nat \<Rightarrow> nat \<Rightarrow> 'a bounded_deque \<Rightarrow> 'a bounded_deque result" where
  "bd_move_up triv position n b =
     (if bd_numAllocated b < position then Inl UndefinedBehaviour
      else bindR (bd_move_up_construct (bd_numAllocated b - position) (bd_numAllocated b + n - 1) n b)
        (\<lambda>(k, cp, b1). bindR (bd_move_up_assign triv k cp n b1)
          (\<lambda>b2. Inr (b2\<lparr>bd_numAllocated := bd_numAllocated b2 + n\<rparr>))))"

fun bd_construct_each :: "'a list \<Rightarrow> nat \<Rightarrow> 'a bounded_deque \<Rightarrow> 'a bounded_deque result" where
  "bd_construct_each [] e b = Inr b"
| "bd_construct_each (x # xs) e b = bindR (bd_Construct x e b) (\<lambda>b'. bd_construct_each xs (Suc e) b')"

fun bd_assign_each :: "bool \<Rightarrow> 'a list \<Rightarrow> nat \<Rightarrow> 'a bounded_deque \<Rightarrow> 'a bounded_deque result" where
  "bd_assign_each triv [] e b = Inr b"
| "bd_assign_each triv (x # xs) e b =
     bindR (bd_slot_assign triv x e b) (\<lambda>b'. bd_assign_each triv xs (Suc e) b')"

definition bd_insert_range :: "bool \<Rightarrow> nat \<Rightarrow> 'a list \<Rightarrow> 'a bounded_deque \<Rightarrow> 'a bounded_deque result" where
  "bd_insert_range triv position xs b =
     (let n = length xs in
      checked (bd_size b + n \<le> bd_max_size b)
        (if position = 0 \<and> bd_numAllocated b \<noteq> 0
         then bd_construct_each xs position
                (b\<lparr>bd_start := bd_index b (bd_max_size b - n), bd_numAllocated := bd_numAllocated b + n\<rparr>)
         else bindR (bd_move_up triv position n b) (bd_assign_each triv xs position)))"

definition bd_insert_n :: "bool \<Rightarrow> nat \<Rightarrow> nat \<Rightarrow> 'a \<Rightarrow> 'a bounded_deque \<Rightarrow> 'a bounded_deque result" where
  "bd_insert_n triv position n x b =
     checked (bd_size b + n \<le> bd_max_size b)
        (if position = 0 \<and> bd_numAllocated b \<noteq> 0
         then bd_construct_each (replicate n x) position
                (b\<lparr>bd_start := bd_index b (bd_max_size b - n), bd_numAllocated := bd_numAllocated b + n\<rparr>)
         else bindR (bd_move_up triv position n b) (bd_assign_each triv (replicate n x) position))"

definition bd_insert :: "bool \<Rightarrow> nat \<Rightarrow> 'a \<Rightarrow> 'a bounded_deque \<Rightarrow> 'a bounded_deque result" where
  "bd_insert triv position x b = bd_insert_n triv position 1 x b"

definition bd_emplace :: "bool \<Rightarrow> nat \<Rightarrow> 'a \<Rightarrow> 'a bounded_deque \<Rightarrow> 'a bounded_deque result" where
  "bd_emplace triv position x b = checked (bd_size b \<noteq> bd_max_size b)
     (bindR (bd_move_up triv position 1 b) (bd_Construct x position))"

subsection \<open>Erasing and swapping\<close>

fun bd_erase_front :: "nat \<Rightarrow> 'a bounded_deque \<Rightarrow> 'a bounded_deque result" where
  "bd_erase_front 0 b = Inr b"
| "bd_erase_front (Suc k) b =
     bindR (bd_Destruct 0 b)
       (\<lambda>b1. let b2 = b1\<lparr>bd_numAllocated := bd_numAllocated b1 - 1\<rparr>
             in bd_erase_front k (b2\<lparr>bd_start := bd_index b2 1\<rparr>))"

lemma bd_slot_assign_size:
  "bd_slot_assign triv x i b = Inr b' \<Longrightarrow> bd_numAllocated b' = bd_numAllocated b"
  by (auto simp: bd_slot_assign_def result_simps)

function bd_erase_move :: "bool \<Rightarrow> nat \<Rightarrow> nat \<Rightarrow> 'a bounded_deque \<Rightarrow> (nat \<times> nat \<times> 'a bounded_deque) result" where
  "bd_erase_move triv fi la b =
     (if la = bd_numAllocated b then Inr (fi, la, b)
      else if bd_numAllocated b < la then Inl UndefinedBehaviour
      else bindR (bd_read la b) (\<lambda>x. bindR (bd_slot_assign triv x fi b)
             (\<lambda>b'. bd_erase_move triv (Suc fi) (Suc la) b')))"
  by pat_completeness auto
termination
  by (relation "measure (\<lambda>(triv, fi, la, b). bd_numAllocated b - la)") (auto dest: bd_slot_assign_size)

function bd_erase_destruct :: "nat \<Rightarrow> nat \<Rightarrow> 'a bounded_deque \<Rightarrow> 'a bounded_deque result" where
  "bd_erase_destruct fi la b =
     (if fi = la then Inr b
      else if la < fi then Inl UndefinedBehaviour
      else bindR (bd_Destruct fi b)
             (\<lambda>b'. bd_erase_destruct (Suc fi) la (b'\<lparr>bd_numAllocated := bd_numAllocated b' - 1\<rparr>)))"
  by pat_completeness auto
termination
  by (relation "measure (\<lambda>(fi, la, b). la - fi)") auto

declare bd_erase_move.simps [simp del] bd_erase_destruct.simps [simp del]

text \<open>The distance is compared as an unsigned number: a negative one fails the assertion too.\<close>

definition bd_erase_range :: "bool \<Rightarrow> nat \<Rightarrow> nat \<Rightarrow> 'a bounded_deque \<Rightarrow> 'a bounded_deque result" where
  "bd_erase_range triv fi la b = checked (fi \<le> la \<and> la - fi \<le> bd_size b)
     (if fi = 0 then bd_erase_front la b
      else bindR (bd_erase_move triv fi la b) (\<lambda>(fi', la', b'). bd_erase_destruct fi' la' b'))"

definition bd_erase :: "bool \<Rightarrow> nat \<Rightarrow> 'a bounded_deque \<Rightarrow> 'a bounded_deque result" where
  "bd_erase triv position b = bd_erase_range triv position (position + 1) b"

function bd_swap_common :: "bool \<Rightarrow> nat \<Rightarrow> nat \<Rightarrow> 'a bounded_deque \<Rightarrow> 'a bounded_deque
    \<Rightarrow> ('a bounded_deque \<times> 'a bounded_deque) result" where
  "bd_swap_common triv i n b c =
     (if i < n
      then bindR (bd_read i b) (\<lambda>x. bindR (bd_read i c) (\<lambda>y.
             bindR (bd_slot_assign triv y i b) (\<lambda>b'. bindR (bd_slot_assign triv x i c) (\<lambda>c'.
               bd_swap_common triv (Suc i) n b' c'))))
      else Inr (b, c))"
  by pat_completeness auto
termination
  by (relation "measure (\<lambda>(triv, i, n, b, c). n - i)") auto

function bd_swap_move :: "nat \<Rightarrow> nat \<Rightarrow> 'a bounded_deque \<Rightarrow> 'a bounded_deque
    \<Rightarrow> ('a bounded_deque \<times> 'a bounded_deque) result" where
  "bd_swap_move i n to from =
     (if i < n
      then bindR (bd_read i from) (\<lambda>x. bindR (bd_Construct x i to) (\<lambda>to'.
             bindR (bd_Destruct i from) (\<lambda>from'. bd_swap_move (Suc i) n to' from')))
      else Inr (to, from))"
  by pat_completeness auto
termination
  by (relation "measure (\<lambda>(i, n, to, from). n - i)") auto

declare bd_swap_common.simps [simp del] bd_swap_move.simps [simp del]

definition bd_swap :: "bool \<Rightarrow> 'a bounded_deque \<Rightarrow> 'a bounded_deque
    \<Rightarrow> ('a bounded_deque \<times> 'a bounded_deque) result" where
  "bd_swap triv b c =
     bindR (bd_swap_common triv 0 (min (bd_size b) (bd_size c)) b c)
       (\<lambda>(b1, c1). bindR (bd_swap_move (bd_size b) (bd_size c) b1 c1)
         (\<lambda>(b2, c2). bindR (bd_swap_move (bd_size c) (bd_size b) c2 b2)
           (\<lambda>(c3, b3). Inr (b3\<lparr>bd_numAllocated := bd_size c\<rparr>, c3\<lparr>bd_numAllocated := bd_size b\<rparr>))))"

section \<open>The deque simulates a vector\<close>

text \<open>Results that fail alike or succeed with related values.\<close>

abbreviation sim :: "('a \<Rightarrow> 'b \<Rightarrow> bool) \<Rightarrow> 'a result \<Rightarrow> 'b result \<Rightarrow> bool" where
  "sim R \<equiv> rel_sum (=) R"

lemma sim_bindR:
  assumes "sim R m m'" and "\<And>x y. R x y \<Longrightarrow> m = Inr x \<Longrightarrow> m' = Inr y \<Longrightarrow> sim S (f x) (g y)"
  shows "sim S (bindR m f) (bindR m' g)"
  using assms by (cases m; cases m') auto

lemma sim_checked: "c = c' \<Longrightarrow> (c \<Longrightarrow> sim R r r') \<Longrightarrow> sim R (checked c r) (checked c' r')"
  by (cases c) auto

lemma sim_Inr: "sim R r (Inr y) \<Longrightarrow> \<exists>x. r = Inr x \<and> R x y"
  by (cases r) auto

lemma sim_Inl: "sim R r (Inl e) \<Longrightarrow> r = Inl e"
  by (cases r) auto

definition bd_wf :: "'a bounded_deque \<Rightarrow> bool" where
  "bd_wf b \<longleftrightarrow> bd_start b < bd_max_size b \<or> bd_max_size b = 0"

definition bd_vector :: "'a bounded_deque \<Rightarrow> 'a bounded_vector" where
  "bd_vector b = \<lparr>bv_storage = ring (bd_storage b) (bd_start b) (bd_max_size b),
                  bv_numAllocated = bd_numAllocated b\<rparr>"

definition bd_sim :: "'a bounded_deque \<Rightarrow> 'a bounded_vector \<Rightarrow> bool" where
  "bd_sim b v \<longleftrightarrow> bd_wf b \<and> v = bd_vector b"

definition bd_inv :: "'a bounded_deque \<Rightarrow> bool" where
  "bd_inv b \<longleftrightarrow> bd_wf b \<and> bv_inv (bd_vector b)"

definition bd_tidy :: "'a bounded_deque \<Rightarrow> bool" where
  "bd_tidy b \<longleftrightarrow> bv_tidy (bd_vector b)"

definition bd_list :: "'a bounded_deque \<Rightarrow> 'a list" where
  "bd_list b = bv_list (bd_vector b)"

lemmas bd_defs = bd_size_def bd_max_size_def bd_empty_def bd_full_def

lemma bd_index_mod: "bd_wf b \<Longrightarrow> i \<le> bd_max_size b \<Longrightarrow> bd_index b i = (bd_start b + i) mod bd_max_size b"
  by (auto simp: bd_index_def bd_wf_def Let_def mod_add_once)

lemma bd_vector_simps [simp]:
  "bv_numAllocated (bd_vector b) = bd_numAllocated b"
  "bv_size (bd_vector b) = bd_size b"
  "bv_max_size (bd_vector b) = bd_max_size b"
  "length (bv_storage (bd_vector b)) = bd_max_size b"
  "bv_empty (bd_vector b) = bd_empty b"
  "bv_full (bd_vector b) = bd_full b"
  "bd_vector (b\<lparr>bd_numAllocated := n\<rparr>) = bd_vector b\<lparr>bv_numAllocated := n\<rparr>"
  by (simp_all add: bd_vector_def bv_defs bd_defs)

lemma bd_wf_update [simp]:
  "bd_wf (b\<lparr>bd_numAllocated := n\<rparr>) = bd_wf b"
  by (simp add: bd_wf_def bd_max_size_def)

lemma bd_vector_nth: "bd_wf b \<Longrightarrow> i < bd_max_size b \<Longrightarrow> bv_storage (bd_vector b) ! i = bd_storage b ! bd_index b i"
  by (simp add: bd_vector_def nth_ring bd_index_mod bd_max_size_def)

lemma bd_index_0: "bd_start b < bd_max_size b \<Longrightarrow> bd_index b 0 = bd_start b"
  by (simp add: bd_index_def)

lemma bd_index_0_start: "k < bd_max_size b \<Longrightarrow> bd_index (b\<lparr>bd_start := k\<rparr>) 0 = k"
  by (simp add: bd_index_def bd_max_size_def)

lemma bd_max_size_update [simp]:
  "bd_max_size (b\<lparr>bd_numAllocated := n\<rparr>) = bd_max_size b"
  "bd_max_size (b\<lparr>bd_start := k\<rparr>) = bd_max_size b"
  by (simp_all add: bd_max_size_def)

lemma bd_index_numAllocated [simp]: "bd_index (b\<lparr>bd_numAllocated := n\<rparr>) i = bd_index b i"
  by (simp add: bd_index_def Let_def)

lemma bd_update_commute:
  "b\<lparr>bd_numAllocated := n, bd_start := k\<rparr> = b\<lparr>bd_start := k, bd_numAllocated := n\<rparr>"
  by (cases b) simp

lemma bd_index_less: "bd_wf b \<Longrightarrow> i < bd_max_size b \<Longrightarrow> bd_index b i < bd_max_size b"
  by (simp add: bd_index_mod)

text \<open>A write to \<^verbatim>\<open>storage[index(i)]\<close> is a write to slot \<open>i\<close> of the vector.\<close>

lemma bd_sim_write:
  assumes "bd_wf b" and "i < bd_max_size b"
  shows "bd_sim (b\<lparr>bd_storage := (bd_storage b)[bd_index b i := z]\<rparr>)
    (bd_vector b\<lparr>bv_storage := (bv_storage (bd_vector b))[i := z]\<rparr>)"
  using assms ring_update_inside [of i "length (bd_storage b)" "bd_storage b" "bd_start b" z]
  by (simp add: bd_sim_def bd_wf_def bd_vector_def bd_index_mod bd_max_size_def)

lemma bd_read_sim: "bd_wf b \<Longrightarrow> i < bd_max_size b \<Longrightarrow> bd_read i b = ss_read i (bv_storage (bd_vector b))"
  using bd_index_less [of b i] by (simp add: bd_read_def ss_read_def bd_vector_nth bd_max_size_def)

lemma bd_Construct_sim:
  assumes "bd_wf b" and "i < bd_max_size b"
  shows "sim bd_sim (bd_Construct x i b)
    (bindR (ss_Construct x i (bv_storage (bd_vector b))) (\<lambda>s. Inr (bd_vector b\<lparr>bv_storage := s\<rparr>)))"
  using assms bd_index_less [of b i] bd_sim_write [OF assms]
  by (simp add: bd_Construct_def ss_Construct_def bd_max_size_def)

lemma bd_Destruct_sim:
  assumes "bd_wf b" and "i < bd_max_size b"
  shows "sim bd_sim (bd_Destruct i b)
    (bindR (ss_Destruct i (bv_storage (bd_vector b))) (\<lambda>s. Inr (bd_vector b\<lparr>bv_storage := s\<rparr>)))"
  using assms bd_index_less [of b i] bd_sim_write [OF assms] bd_vector_nth [OF assms]
  by (simp add: bd_Destruct_def ss_Destruct_def bd_max_size_def)

lemma bd_slot_assign_sim:
  assumes "bd_wf b" and "i < bd_max_size b"
  shows "sim bd_sim (bd_slot_assign triv x i b)
    (bindR (ss_assign triv x i (bv_storage (bd_vector b))) (\<lambda>s. Inr (bd_vector b\<lparr>bv_storage := s\<rparr>)))"
  using assms bd_index_less [of b i] bd_sim_write [OF assms] bd_vector_nth [OF assms]
  by (simp add: bd_slot_assign_def ss_assign_def bd_max_size_def)

text \<open>The slot operations keep everything but the block.\<close>

lemma bd_slot_frame:
  "bd_Construct x i b = Inr b' \<Longrightarrow> bd_start b' = bd_start b \<and> bd_numAllocated b' = bd_numAllocated b
    \<and> bd_max_size b' = bd_max_size b"
  "bd_slot_assign triv x i b = Inr b' \<Longrightarrow> bd_start b' = bd_start b \<and> bd_numAllocated b' = bd_numAllocated b
    \<and> bd_max_size b' = bd_max_size b"
  "bd_Destruct i b = Inr b' \<Longrightarrow> bd_start b' = bd_start b \<and> bd_numAllocated b' = bd_numAllocated b
    \<and> bd_max_size b' = bd_max_size b"
  by (auto simp: bd_Construct_def bd_slot_assign_def bd_Destruct_def ss_Construct_def ss_assign_def
      ss_Destruct_def bd_max_size_def result_simps split: if_splits)

lemma bd_sim_size: "bd_sim b v \<Longrightarrow> bd_numAllocated b = bv_numAllocated v"
  by (simp add: bd_sim_def)

lemma bd_sim_numAllocated:
  "bd_sim b v \<Longrightarrow> bd_sim (b\<lparr>bd_numAllocated := n\<rparr>) (v\<lparr>bv_numAllocated := n\<rparr>)"
  by (simp add: bd_sim_def)

lemma bd_push_back_sim:
  assumes "bd_wf b" and "bd_size b \<le> bd_max_size b"
  shows "sim bd_sim (bd_push_back x b) (bv_push_back x (bd_vector b))"
proof -
  have "bindR (ss_Construct x (bd_numAllocated b) (bv_storage (bd_vector b)))
      (\<lambda>s. Inr (bd_vector b\<lparr>bv_storage := s, bv_numAllocated := bd_numAllocated b + 1\<rparr>))
    = bindR (bindR (ss_Construct x (bd_numAllocated b) (bv_storage (bd_vector b)))
        (\<lambda>s. Inr (bd_vector b\<lparr>bv_storage := s\<rparr>)))
      (\<lambda>v. Inr (v\<lparr>bv_numAllocated := bd_numAllocated b + 1\<rparr>))"
    by (simp add: bindR_assoc)
  moreover have "sim bd_sim (bindR (bd_Construct x (bd_numAllocated b) b)
       (\<lambda>b'. Inr (b'\<lparr>bd_numAllocated := bd_numAllocated b' + 1\<rparr>))) \<dots>" if "\<not> bd_full b"
    using assms that
    by (intro sim_bindR [OF bd_Construct_sim])
      (auto simp: bd_full_def bd_size_def bd_sim_numAllocated dest!: bd_slot_frame(1))
  ultimately show ?thesis
    by (auto simp: bd_push_back_def bv_push_back_def intro!: sim_checked)
qed

lemma bd_pop_back_sim:
  assumes "bd_wf b" and "bd_size b \<le> bd_max_size b"
  shows "sim bd_sim (bd_pop_back b) (bv_pop_back (bd_vector b))"
proof -
  have "bindR (ss_Destruct (bd_numAllocated b - 1) (bv_storage (bd_vector b)))
      (\<lambda>s. Inr (bd_vector b\<lparr>bv_storage := s, bv_numAllocated := bd_numAllocated b - 1\<rparr>))
    = bindR (bindR (ss_Destruct (bd_numAllocated b - 1) (bv_storage (bd_vector b)))
        (\<lambda>s. Inr (bd_vector b\<lparr>bv_storage := s\<rparr>)))
      (\<lambda>v. Inr (v\<lparr>bv_numAllocated := bd_numAllocated b - 1\<rparr>))"
    by (simp add: bindR_assoc)
  moreover have "sim bd_sim (bindR (bd_Destruct (bd_numAllocated b - 1) b)
       (\<lambda>b'. Inr (b'\<lparr>bd_numAllocated := bd_numAllocated b' - 1\<rparr>))) \<dots>" if "\<not> bd_empty b"
    using assms that
    by (intro sim_bindR [OF bd_Destruct_sim])
      (auto simp: bd_empty_def bd_size_def bd_sim_numAllocated dest!: bd_slot_frame(3))
  ultimately show ?thesis
    by (auto simp: bd_pop_back_def bv_pop_back_def intro!: sim_checked)
qed

lemma bd_inv_bounds: "bd_inv b \<Longrightarrow> bd_wf b \<and> bd_size b \<le> bd_max_size b"
  using bv_inv_le [of "bd_vector b"] by (simp add: bd_inv_def bd_size_def)

text \<open>What a simulated vector operation establishes holds of the deque.\<close>

lemma bd_lift:
  assumes "sim bd_sim r r'" and "\<exists>v'. r' = Inr v' \<and> bv_inv v' \<and> (t \<longrightarrow> bv_tidy v') \<and> bv_list v' = xs \<and> bv_max_size v' = m"
  shows "\<exists>b'. r = Inr b' \<and> bd_inv b' \<and> (t \<longrightarrow> bd_tidy b') \<and> bd_list b' = xs \<and> bd_max_size b' = m"
  using assms by (cases r) (auto simp: bd_sim_def bd_inv_def bd_tidy_def bd_list_def)

lemma bd_push_back_correct:
  assumes "bd_inv b" and "bd_size b < bd_max_size b"
  shows "\<exists>b'. bd_push_back x b = Inr b' \<and> bd_inv b' \<and> (bd_tidy b \<longrightarrow> bd_tidy b')
    \<and> bd_list b' = bd_list b @ [x] \<and> bd_max_size b' = bd_max_size b"
  unfolding bd_tidy_def [of b] bd_list_def [of b]
  using assms bd_inv_bounds [OF assms(1)] bv_push_back_correct [of "bd_vector b" x]
  by (intro bd_lift [OF bd_push_back_sim]) (auto simp: bd_inv_def)

lemma bd_pop_back_correct:
  assumes "bd_inv b" and "0 < bd_size b"
  shows "\<exists>b'. bd_pop_back b = Inr b' \<and> bd_inv b' \<and> (bd_tidy b \<longrightarrow> bd_tidy b')
    \<and> bd_list b' = butlast (bd_list b) \<and> bd_max_size b' = bd_max_size b"
  unfolding bd_tidy_def [of b] bd_list_def [of b]
  using assms bd_inv_bounds [OF assms(1)] bv_pop_back_correct [of "bd_vector b"]
  by (intro bd_lift [OF bd_pop_back_sim]) (auto simp: bd_inv_def)

lemma length_bd_list [simp]: "bd_inv b \<Longrightarrow> length (bd_list b) = bd_size b"
  by (simp add: bd_inv_def bd_list_def)

interpretation bd: bounded_sequence bd_list bd_inv bd_max_size bd_push_back bd_pop_back
proof
  fix b :: "'a bounded_deque" and x
  show "bd_inv b \<Longrightarrow> length (bd_list b) \<le> bd_max_size b"
    using bd_inv_bounds [of b] by simp
  show "bd_inv b \<Longrightarrow> length (bd_list b) < bd_max_size b \<Longrightarrow>
      \<exists>b'. bd_push_back x b = Inr b' \<and> bd_inv b' \<and> bd_list b' = bd_list b @ [x] \<and> bd_max_size b' = bd_max_size b"
    using bd_push_back_correct [of b x] by auto
  show "bd_inv b \<Longrightarrow> length (bd_list b) = bd_max_size b \<Longrightarrow> bd_push_back x b = Inl AssertFailed"
    by (simp add: bd_push_back_def bd_full_def bd_size_def)
  show "bd_inv b \<Longrightarrow> bd_list b \<noteq> [] \<Longrightarrow>
      \<exists>b'. bd_pop_back b = Inr b' \<and> bd_inv b' \<and> bd_list b' = butlast (bd_list b) \<and> bd_max_size b' = bd_max_size b"
    using bd_pop_back_correct [of b] length_bd_list [of b] by (metis length_greater_0_conv)
  show "bd_inv b \<Longrightarrow> bd_list b = [] \<Longrightarrow> bd_pop_back b = Inl AssertFailed"
    using length_bd_list [of b] by (simp add: bd_pop_back_def bd_empty_def bd_size_def)
qed

subsection \<open>Loops over the slots\<close>

lemma bd_frame_wf: "bd_start b' = bd_start b \<Longrightarrow> bd_max_size b' = bd_max_size b \<Longrightarrow> bd_wf b' = bd_wf b"
  by (simp add: bd_wf_def)

lemma bd_construct_each_sim:
  assumes "bd_wf b" and "e + length xs \<le> bd_max_size b"
  shows "sim bd_sim (bd_construct_each xs e b)
    (bindR (std_uninitialized_copy xs e (bv_storage (bd_vector b))) (\<lambda>s. Inr (bd_vector b\<lparr>bv_storage := s\<rparr>)))"
  using assms
proof (induction xs arbitrary: e b)
  case (Cons x xs)
  then have e: "e < bd_max_size b" by simp
  let ?b = "b\<lparr>bd_storage := (bd_storage b)[bd_index b e := Some x]\<rparr>"
  have w: "bd_vector ?b = bd_vector b\<lparr>bv_storage := (bv_storage (bd_vector b))[e := Some x]\<rparr>" "bd_wf ?b"
    using bd_sim_write [of b e "Some x"] Cons.prems e by (auto simp: bd_sim_def)
  have "bd_max_size ?b = bd_max_size b" by (simp add: bd_max_size_def)
  with Cons.IH [of ?b "Suc e"] Cons.prems w e bd_index_less [of b e] show ?case
    by (simp add: bd_Construct_def ss_Construct_def bd_max_size_def)
qed (simp add: bd_sim_def)

lemma bd_assign_each_sim:
  assumes "bd_wf b" and "e + length xs \<le> bd_max_size b"
  shows "sim bd_sim (bd_assign_each triv xs e b)
    (bindR (std_copy triv xs e (bv_storage (bd_vector b))) (\<lambda>s. Inr (bd_vector b\<lparr>bv_storage := s\<rparr>)))"
  using assms
proof (induction xs arbitrary: e b)
  case (Cons x xs)
  then have e: "e < bd_max_size b" by simp
  let ?b = "b\<lparr>bd_storage := (bd_storage b)[bd_index b e := Some x]\<rparr>"
  have w: "bd_vector ?b = bd_vector b\<lparr>bv_storage := (bv_storage (bd_vector b))[e := Some x]\<rparr>" "bd_wf ?b"
    using bd_sim_write [of b e "Some x"] Cons.prems e by (auto simp: bd_sim_def)
  have "bd_max_size ?b = bd_max_size b" by (simp add: bd_max_size_def)
  with Cons.IH [of ?b "Suc e"] Cons.prems w e bd_index_less [of b e] bd_vector_nth [of b e] show ?case
    by (cases triv) (simp_all add: bd_slot_assign_def ss_assign_def bd_max_size_def)
qed (simp add: bd_sim_def)

subsection \<open>The front\<close>

lemma ring_rotate:
  assumes "k \<le> length xs"
  shows "ring xs (s + k) (length xs) = drop k (ring xs s (length xs)) @ take k (ring xs s (length xs))"
proof (rule nth_equalityI)
  fix i assume i: "i < length (ring xs (s + k) (length xs))"
  show "ring xs (s + k) (length xs) ! i
      = (drop k (ring xs s (length xs)) @ take k (ring xs s (length xs))) ! i"
  proof (cases "i < length xs - k")
    case True
    then show ?thesis using i by (simp add: nth_append nth_ring add.assoc)
  next
    case False
    then have "s + k + i = s + (i - (length xs - k)) + length xs" using i assms by simp
    moreover have "i - (length xs - k) < k" using i False assms by simp
    ultimately show ?thesis
      using False i assms mod_add_self2 [of "s + (i - (length xs - k))" "length xs"]
      by (simp add: nth_append nth_ring ac_simps del: mod_add_self2)
  qed
qed (use assms in simp)

lemma bd_start_rotate:
  assumes "bd_wf b" and "k \<le> bd_max_size b"
  shows "bd_wf (b\<lparr>bd_start := bd_index b k\<rparr>)"
    and "bd_vector (b\<lparr>bd_start := bd_index b k\<rparr>) = bd_vector b\<lparr>bv_storage :=
      drop k (bv_storage (bd_vector b)) @ take k (bv_storage (bd_vector b))\<rparr>"
proof -
  show "bd_wf (b\<lparr>bd_start := bd_index b k\<rparr>)"
    using assms by (auto simp: bd_wf_def bd_index_mod [OF assms] bd_max_size_def)
  show "bd_vector (b\<lparr>bd_start := bd_index b k\<rparr>) = bd_vector b\<lparr>bv_storage :=
      drop k (bv_storage (bd_vector b)) @ take k (bv_storage (bd_vector b))\<rparr>"
    using assms ring_rotate [of k "bd_storage b" "bd_start b"]
      ring_mod [of "bd_storage b" "bd_start b + k" "length (bd_storage b)"]
    by (simp add: bd_vector_def bd_index_mod bd_max_size_def)
qed

text \<open>Constructing objects in front of the first one.\<close>

lemma bd_prepend_correct:
  assumes "bd_inv b" and "bd_size b + length xs \<le> bd_max_size b"
  shows "\<exists>b'. bd_construct_each xs 0
      (b\<lparr>bd_start := bd_index b (bd_max_size b - length xs), bd_numAllocated := bd_numAllocated b + length xs\<rparr>) = Inr b'
    \<and> bd_inv b' \<and> (bd_tidy b \<longrightarrow> bd_tidy b') \<and> bd_list b' = xs @ bd_list b \<and> bd_max_size b' = bd_max_size b"
proof -
  let ?N = "bd_max_size b" and ?n = "length xs" and ?s = "bv_storage (bd_vector b)"
  let ?b = "b\<lparr>bd_start := bd_index b (?N - ?n), bd_numAllocated := bd_numAllocated b + ?n\<rparr>"
  have wf: "bd_wf b" using assms bd_inv_bounds by blast
  have vec: "bd_vector ?b = \<lparr>bv_storage = drop (?N - ?n) ?s @ take (?N - ?n) ?s, bv_numAllocated = bd_numAllocated b + ?n\<rparr>"
      and wf1: "bd_wf ?b"
    using bd_start_rotate [OF wf, of "?N - ?n"] by simp_all
  have N: "bd_max_size ?b = ?N" by (simp add: bd_max_size_def)
  let ?s' = "map Some xs @ take (?N - ?n) ?s"
  have "std_uninitialized_copy xs 0 (bv_storage (bd_vector ?b)) = Inr ?s'"
    unfolding vec using assms by (subst std_uninitialized_copy_eq) (simp_all add: overwrite_def)
  then have S: "sim bd_sim (bd_construct_each xs 0 ?b) (Inr (bd_vector ?b\<lparr>bv_storage := ?s'\<rparr>))"
    using bd_construct_each_sim [OF wf1, of 0 xs] assms N by simp
  have al: "alive ?s 0 (bd_size b)" using assms by (simp add: bd_inv_def bv_inv_def bd_size_def)
  have "alive ?s' 0 (bd_size b + ?n)"
    using al assms by (auto simp: alive_def nth_append)
  moreover have "take (bd_size b + ?n) ?s' = map Some xs @ take (bd_size b) ?s"
    using assms by simp
  moreover have "?s' ! i = None" if "bd_tidy b" "bd_size b + ?n \<le> i" "i < ?N" for i
  proof -
    have "bd_numAllocated b \<le> i - ?n" "i - ?n < ?N" using that by (simp_all add: bd_size_def)
    then show ?thesis using that by (simp add: bd_tidy_def bv_tidy_def nth_append)
  qed
  ultimately show ?thesis
    using assms(2)
    by (intro bd_lift [OF S] exI [of _ "bd_vector ?b\<lparr>bv_storage := ?s'\<rparr>"])
      (auto simp: vec bv_inv_def bv_tidy_def bv_list_def bd_list_def bd_size_def bv_max_size_def add.commute comp_def)
qed

lemma bd_push_front_eq:
  assumes "bd_inv b"
  shows "bd_push_front x b = checked (\<not> bd_full b) (bd_construct_each [x] 0
      (b\<lparr>bd_start := bd_index b (bd_max_size b - 1), bd_numAllocated := bd_numAllocated b + 1\<rparr>))"
proof -
  let ?t = "bd_index b (bd_max_size b - 1)"
  let ?b = "b\<lparr>bd_start := ?t, bd_numAllocated := bd_numAllocated b + 1\<rparr>"
  have "bd_index ?b 0 = ?t" if "\<not> bd_full b"
  proof -
    have "?t < bd_max_size b"
      using that bd_inv_bounds [OF assms] by (intro bd_index_less) (auto simp: bd_defs)
    then show ?thesis using bd_index_0 [of ?b] by simp
  qed
  then show ?thesis
    by (cases "bd_full b"; cases b) (simp_all add: bd_push_front_def bd_Construct_def bindR_assoc)
qed

lemma bd_emplace_front_eq:
  assumes "bd_inv b"
  shows "bd_emplace_front x b = bd_push_front x b"
proof (cases "bd_full b")
  case True
  then show ?thesis by (simp add: bd_emplace_front_def bd_push_front_def bd_defs)
next
  case False
  then have N: "0 < bd_max_size b" and st: "bd_start b < bd_max_size b"
    using bd_inv_bounds [OF assms] by (auto simp: bd_defs bd_wf_def)
  let ?t = "if bd_start b \<noteq> 0 then bd_start b - 1 else bd_max_size b - 1"
  have t: "bd_index b (bd_max_size b - 1) = ?t"
    using N st by (auto simp: bd_index_def Let_def)
  have "?t < bd_max_size b" using N st by auto
  then have "bd_index (b\<lparr>bd_start := ?t\<rparr>) 0 = ?t"
    by (rule bd_index_0_start)
  with False show ?thesis
    unfolding bd_emplace_front_def bd_push_front_def t
    by (simp add: bd_Construct_def bindR_assoc bd_full_def bd_size_def)
qed

lemma bd_push_front_correct:
  assumes "bd_inv b" and "bd_size b < bd_max_size b"
  shows "\<exists>b'. bd_push_front x b = Inr b' \<and> bd_inv b' \<and> (bd_tidy b \<longrightarrow> bd_tidy b')
    \<and> bd_list b' = x # bd_list b \<and> bd_max_size b' = bd_max_size b"
  using assms bd_prepend_correct [of b "[x]"] bd_push_front_eq [of b x] by (simp add: bd_full_def bd_size_def)

lemma bd_pop_front_correct:
  assumes "bd_inv b" and "0 < bd_size b"
  shows "\<exists>b'. bd_pop_front b = Inr b' \<and> bd_inv b' \<and> (bd_tidy b \<longrightarrow> bd_tidy b')
    \<and> bd_list b' = tl (bd_list b) \<and> bd_max_size b' = bd_max_size b"
proof -
  let ?s = "bv_storage (bd_vector b)"
  have wf: "bd_wf b" and le: "bd_size b \<le> bd_max_size b" using bd_inv_bounds [OF assms(1)] by auto
  then have N: "0 < bd_max_size b" using assms by simp
  have ix: "bd_index b 0 = bd_start b" using wf N by (auto simp: bd_index_def bd_wf_def)
  define b1 where "b1 = b\<lparr>bd_storage := (bd_storage b)[bd_start b := None]\<rparr>"
  have v1: "bd_vector b1 = bd_vector b\<lparr>bv_storage := ?s[0 := None]\<rparr>" and wf1: "bd_wf b1"
    using bd_sim_write [OF wf N, of None] by (auto simp: bd_sim_def b1_def ix)
  have N1: "bd_max_size b1 = bd_max_size b" "bd_numAllocated b1 = bd_numAllocated b"
    by (simp_all add: b1_def bd_max_size_def)
  define b2 where "b2 = b1\<lparr>bd_start := bd_index b1 1\<rparr>"
  have "tl (?s[0 := None]) @ take 1 (?s[0 := None]) = tl ?s @ [None]"
    using N bd_vector_simps(4) [of b] by (cases ?s) auto
  then have v2: "bd_vector b2 = bd_vector b\<lparr>bv_storage := tl ?s @ [None]\<rparr>" and wf2: "bd_wf b2"
    using bd_start_rotate [OF wf1, of 1] N N1 unfolding v1 b2_def by (auto simp: drop_Suc)
  have al: "alive ?s 0 (bd_size b)" using assms by (simp add: bd_inv_def bv_inv_def bd_size_def)
  then have "bd_storage b ! bd_start b \<noteq> None"
    using bd_vector_nth [OF wf N] assms(2) unfolding alive_def ix by (metis le0)
  moreover have "bd_start b < length (bd_storage b)" using wf N by (simp add: bd_wf_def bd_max_size_def)
  ultimately have r: "bd_pop_front b = Inr (b2\<lparr>bd_numAllocated := bd_numAllocated b - 1\<rparr>)"
    using assms by (simp add: bd_pop_front_def ss_Destruct_def bd_empty_def bd_size_def b2_def b1_def Let_def)
  let ?v = "\<lparr>bv_storage = tl ?s @ [None], bv_numAllocated = bd_size b - 1\<rparr>"
  have S: "sim bd_sim (bd_pop_front b) (Inr ?v)"
    using v2 wf2 by (simp add: r bd_sim_def bd_size_def)
  have len: "length ?s = bd_max_size b" by simp
  have "alive (tl ?s @ [None]) 0 (bd_size b - 1)"
    using al N len le by (auto simp: alive_def nth_append nth_tl)
  moreover have "take (bd_size b - 1) (tl ?s @ [None]) = tl (take (bd_size b) ?s)"
    using le assms(2) by (cases "bd_size b"; cases ?s) (auto simp: len [symmetric] simp del: bd_vector_simps)
  moreover have "(tl ?s @ [None]) ! i = None" if "bd_tidy b" "bd_size b - 1 \<le> i" "i < bd_max_size b" for i
  proof -
    have "bd_numAllocated b \<le> Suc i" using that by (simp add: bd_size_def)
    then show ?thesis using that by (auto simp: bd_tidy_def bv_tidy_def nth_append nth_tl)
  qed
  ultimately show ?thesis
    using N
    by (intro bd_lift [OF S] exI [of _ ?v])
      (auto simp: bv_inv_def bv_tidy_def bv_list_def bd_list_def bd_size_def bv_max_size_def map_tl)
qed

text \<open>
  The four operations at the ends of a deque are those of a list: they add or remove the first or the
  last element, whatever the place of the elements in the circular block; on a full (or empty)
  deque they fail their assertion. The \<^verbatim>\<open>emplace_\<close> variants do the same as the \<^verbatim>\<open>push_\<close> ones.
\<close>

theorem bd_ends_are_list_ends:
  assumes "bd_inv b"
  shows "(if bd_full b then bd_push_front x b = Inl AssertFailed \<and> bd_push_back x b = Inl AssertFailed
      else (\<exists>b'. bd_push_front x b = Inr b' \<and> bd_inv b' \<and> bd_list b' = x # bd_list b \<and> bd_max_size b' = bd_max_size b)
         \<and> (\<exists>b'. bd_push_back x b = Inr b' \<and> bd_inv b' \<and> bd_list b' = bd_list b @ [x] \<and> bd_max_size b' = bd_max_size b))
    \<and> (if bd_empty b then bd_pop_front b = Inl AssertFailed \<and> bd_pop_back b = Inl AssertFailed
      else (\<exists>b'. bd_pop_front b = Inr b' \<and> bd_inv b' \<and> bd_list b' = tl (bd_list b) \<and> bd_max_size b' = bd_max_size b)
         \<and> (\<exists>b'. bd_pop_back b = Inr b' \<and> bd_inv b' \<and> bd_list b' = butlast (bd_list b) \<and> bd_max_size b' = bd_max_size b))
    \<and> bd_emplace_front x b = bd_push_front x b \<and> bd_emplace_back x b = bd_push_back x b"
proof -
  have le: "bd_size b \<le> bd_max_size b" using bd_inv_bounds [OF assms] by simp
  have "bd_full b \<Longrightarrow> bd_push_front x b = Inl AssertFailed \<and> bd_push_back x b = Inl AssertFailed"
    by (simp add: bd_push_front_def bd_push_back_def)
  moreover have "bd_empty b \<Longrightarrow> bd_pop_front b = Inl AssertFailed \<and> bd_pop_back b = Inl AssertFailed"
    by (simp add: bd_pop_front_def bd_pop_back_def)
  moreover have "bd_emplace_back x b = bd_push_back x b"
    by (simp add: bd_emplace_back_def bd_push_back_def bd_full_def bd_size_def)
  moreover have "\<not> bd_full b \<Longrightarrow> bd_size b < bd_max_size b" "\<not> bd_empty b \<Longrightarrow> 0 < bd_size b"
    using le by (auto simp: bd_full_def bd_empty_def bd_size_def)
  ultimately show ?thesis
    using bd_push_front_correct [OF assms, of x] bd_push_back_correct [OF assms, of x]
      bd_pop_front_correct [OF assms] bd_pop_back_correct [OF assms] bd_emplace_front_eq [OF assms, of x]
    by auto
qed

theorem bd_ends_are_list_ends_witness:
  "\<exists>b'. bd_push_front 9 \<lparr>bd_storage = [Some 1, None, Some (0 :: nat)], bd_start = 2, bd_numAllocated = 2\<rparr> = Inr b'
     \<and> bd_list b' = [9, 0, 1]"
proof -
  let ?b = "\<lparr>bd_storage = [Some 1, None, Some 0], bd_start = 2, bd_numAllocated = 2\<rparr> :: nat bounded_deque"
  have v: "bd_vector ?b = \<lparr>bv_storage = [Some 0, Some 1, None], bv_numAllocated = 2\<rparr>"
    by (simp add: bd_vector_def bd_max_size_def ring_def upt_rec)
  have "bd_inv ?b"
    unfolding bd_inv_def v by (auto simp: bd_wf_def bd_max_size_def bv_inv_def alive_def less_Suc_eq numeral_2_eq_2)
  moreover have "bd_list ?b = [0, 1]"
    unfolding bd_list_def v by (simp add: bv_list_def)
  moreover have "\<not> bd_full ?b" by (simp add: bd_full_def bd_max_size_def)
  ultimately show ?thesis using bd_ends_are_list_ends [of ?b 9] by auto
qed

subsection \<open>clear, resize and assign\<close>

lemma bd_shrink_eq: "bd_shrink n b = pop_times bd_pop_back (bd_size b - n) b"
proof (induction n b rule: bd_shrink.induct)
  case (1 n b)
  show ?case
  proof (cases "n < bd_size b")
    case True
    then have k: "bd_size b - n = Suc (bd_size b - 1 - n)" by simp
    show ?thesis
    proof (cases "bd_pop_back b")
      case (Inr b')
      then have "bd_size b' = bd_size b - 1" using bd_pop_back_size by blast
      with 1 [OF True Inr] True Inr show ?thesis by (subst bd_shrink.simps) (simp add: k)
    qed (use True in \<open>subst bd_shrink.simps, simp add: k\<close>)
  qed (subst bd_shrink.simps, simp)
qed

lemma bd_pop_all_eq: "bd_pop_all b = bd_shrink 0 b"
proof (induction b rule: bd_pop_all.induct)
  case (1 b)
  then show ?case
    by (subst bd_pop_all.simps, subst bd_shrink.simps)
      (cases "bd_pop_back b", auto simp: bd_empty_def bd_size_def)
qed

lemma bd_grow_eq: "bd_grow n x b = push_all bd_push_back (replicate (n - bd_size b) x) b"
proof (induction n x b rule: bd_grow.induct)
  case (1 n x b)
  show ?case
  proof (cases "n > bd_size b")
    case True
    then have k: "n - bd_size b = Suc (n - (bd_size b + 1))" by simp
    show ?thesis
    proof (cases "bd_push_back x b")
      case (Inr b')
      then have "bd_size b' = bd_size b + 1" by (rule bd_push_back_size)
      with 1 [OF True Inr] True Inr show ?thesis by (subst bd_grow.simps) (simp add: k)
    qed (use True in \<open>subst bd_grow.simps, simp add: k\<close>)
  qed (subst bd_grow.simps, simp)
qed

lemma bd_shrink_correct:
  assumes "bd_inv b"
  shows "\<exists>b'. bd_shrink n b = Inr b' \<and> bd_inv b' \<and> bd_list b' = take n (bd_list b) \<and> bd_max_size b' = bd_max_size b"
proof -
  have "bd_size b - (bd_size b - n) = min (bd_size b) n" by simp
  moreover have "take (min (bd_size b) n) (bd_list b) = take n (bd_list b)"
    using assms by (simp add: min_def)
  ultimately show ?thesis
    using bd.pop_times_drops [OF assms, of "bd_size b - n"] assms unfolding bd_shrink_eq by auto
qed

lemma bd_clear_correct:
  assumes "bd_inv b"
  shows "\<exists>b'. bd_clear triv b = Inr b' \<and> bd_inv b' \<and> bd_list b' = [] \<and> bd_max_size b' = bd_max_size b"
proof -
  have reset: "bd_inv (b'\<lparr>bd_start := 0\<rparr>) \<and> bd_list (b'\<lparr>bd_start := 0\<rparr>) = [] \<and> bd_max_size (b'\<lparr>bd_start := 0\<rparr>) = bd_max_size b'"
    if "bd_numAllocated b' = 0" for b' :: "'a bounded_deque"
    using that by (auto simp: bd_inv_def bd_wf_def bv_inv_def alive_def bd_list_def bv_list_def bd_vector_def bd_max_size_def)
  show ?thesis
  proof (cases triv)
    case True
    with reset [of "b\<lparr>bd_numAllocated := 0\<rparr>"] show ?thesis by (simp add: bd_clear_def)
  next
    case False
    obtain b' where b': "bd_pop_all b = Inr b'" "bd_inv b'" "bd_list b' = []" "bd_max_size b' = bd_max_size b"
      using bd_shrink_correct [OF assms, of 0] by (auto simp: bd_pop_all_eq)
    then have "bd_numAllocated b' = 0" using length_bd_list [of b'] by (simp add: bd_size_def)
    with reset b' False show ?thesis by (simp add: bd_clear_def)
  qed
qed

lemma bd_resize_correct:
  assumes "bd_inv b" and "n \<le> bd_max_size b"
  shows "\<exists>b'. bd_resize n x b = Inr b' \<and> bd_inv b' \<and> bd_max_size b' = bd_max_size b
    \<and> bd_list b' = take n (bd_list b) @ replicate (n - bd_size b) x"
proof -
  obtain b1 where b1: "bd_shrink n b = Inr b1" "bd_inv b1" "bd_list b1 = take n (bd_list b)"
      "bd_max_size b1 = bd_max_size b"
    using bd_shrink_correct [OF assms(1), of n] by blast
  then have sz: "bd_size b1 = min (bd_size b) n"
    using assms length_bd_list [of b1] length_bd_list [of b] by simp
  then have "n - bd_size b1 = n - bd_size b" "bd_size b1 + (n - bd_size b) \<le> bd_max_size b"
    using assms(2) bd_inv_bounds [OF assms(1)] by auto
  with b1 sz assms bd.push_all_fits [OF b1(2), of "replicate (n - bd_size b) x"] show ?thesis
    by (auto simp: bd_resize_def bd_grow_eq)
qed

text \<open>
  \<^verbatim>\<open>clear\<close>, \<^verbatim>\<open>resize\<close> and \<^verbatim>\<open>assign\<close> of a deque end and do to the sequence what their names say, for
  every size that fits; \<^verbatim>\<open>assign\<close> of too many elements fails the assertion of \<^verbatim>\<open>push_back\<close>.
\<close>

theorem bd_resize_assign_correct:
  assumes "bd_inv b"
  shows "(\<exists>b'. bd_clear triv b = Inr b' \<and> bd_inv b' \<and> bd_list b' = [])
    \<and> (n \<le> bd_max_size b \<longrightarrow> (\<exists>b'. bd_resize n x b = Inr b' \<and> bd_inv b'
        \<and> bd_list b' = take n (bd_list b) @ replicate (n - bd_size b) x))
    \<and> (if length xs \<le> bd_max_size b
       then \<exists>b'. bd_assign triv xs b = Inr b' \<and> bd_inv b' \<and> bd_list b' = xs
       else bd_assign triv xs b = Inl AssertFailed)"
proof -
  obtain b1 where b1: "bd_clear triv b = Inr b1" "bd_inv b1" "bd_list b1 = []" "bd_max_size b1 = bd_max_size b"
    using bd_clear_correct [OF assms] by blast
  have "if length xs \<le> bd_max_size b
       then \<exists>b'. bd_assign triv xs b = Inr b' \<and> bd_inv b' \<and> bd_list b' = xs
       else bd_assign triv xs b = Inl AssertFailed"
    using b1 bd.push_all_fits [OF b1(2), of xs] bd.push_all_overflows [OF b1(2), of xs]
    by (auto simp: bd_assign_def)
  with b1 bd_resize_correct [OF assms, of n x] show ?thesis by auto
qed

theorem bd_resize_assign_correct_witness:
  "\<exists>b'. bd_assign False [4, 5] (bd_make [None, None, None :: nat option]) = Inr b' \<and> bd_list b' = [4, 5]"
proof -
  have "bd_inv (bd_make [None, None, None :: nat option])"
    by (simp add: bd_make_def bd_inv_def bd_wf_def bd_max_size_def bv_inv_def bd_vector_def alive_def)
  from bd_resize_assign_correct [OF this, of False 0 0 "[4, 5]"] show ?thesis
    by (auto simp: bd_make_def bd_max_size_def)
qed

subsection \<open>Inserting in the deque\<close>

text \<open>A read followed by a write moves an object between two slots of the vector.\<close>

abbreviation on_block :: "'a bounded_vector \<Rightarrow> 'a slots \<Rightarrow> 'a bounded_vector" where
  "on_block v s \<equiv> v\<lparr>bv_storage := s\<rparr>"

lemma bd_write_vector:
  assumes "bd_wf b" and "i < bd_max_size b" and "b' = b\<lparr>bd_storage := (bd_storage b)[bd_index b i := z]\<rparr>"
  shows "bd_vector b' = on_block (bd_vector b) ((bv_storage (bd_vector b))[i := z])"
    and "bd_wf b'" and "bd_max_size b' = bd_max_size b" and "bd_numAllocated b' = bd_numAllocated b"
  using bd_sim_write [OF assms(1,2), of z] assms(3) by (auto simp: bd_sim_def bd_max_size_def)

lemma bd_Construct_eq:
  "bd_wf b \<Longrightarrow> i < bd_max_size b \<Longrightarrow>
    bd_Construct x i b = Inr (b\<lparr>bd_storage := (bd_storage b)[bd_index b i := Some x]\<rparr>)"
  using bd_index_less [of b i] by (simp add: bd_Construct_def ss_Construct_def bd_max_size_def)

lemma bd_slot_assign_eq:
  "bd_wf b \<Longrightarrow> i < bd_max_size b \<Longrightarrow>
    bd_slot_assign triv x i b = (if bv_storage (bd_vector b) ! i = None \<and> \<not> triv then Inl UndefinedBehaviour
      else Inr (b\<lparr>bd_storage := (bd_storage b)[bd_index b i := Some x]\<rparr>))"
  using bd_index_less [of b i] bd_vector_nth [of b i]
  by (simp add: bd_slot_assign_def ss_assign_def bd_max_size_def)

lemma bd_Destruct_eq:
  "bd_wf b \<Longrightarrow> i < bd_max_size b \<Longrightarrow>
    bd_Destruct i b = (if bv_storage (bd_vector b) ! i = None then Inl UndefinedBehaviour
      else Inr (b\<lparr>bd_storage := (bd_storage b)[bd_index b i := None]\<rparr>))"
  using bd_index_less [of b i] bd_vector_nth [of b i]
  by (simp add: bd_Destruct_def ss_Destruct_def bd_max_size_def)

lemma bd_move_up_construct_sim:
  assumes "bd_wf b" and "q = position + k" and "k \<noteq> 0 \<longrightarrow> Suc cp = q + n" and "q + n \<le> bd_max_size b"
    and "bd_numAllocated b = e" and "e \<le> q + n"
  shows "sim (\<lambda>(k', cp', b') (q', s). q' = position + k' \<and> (k' \<noteq> 0 \<longrightarrow> Suc cp' = q' + n) \<and> q' \<le> q
      \<and> bd_sim b' (on_block (bd_vector b) s) \<and> bd_max_size b' = bd_max_size b)
    (bd_move_up_construct k cp n b) (bv_move_up_construct q position n e (bv_storage (bd_vector b)))"
  using assms
proof (induction k arbitrary: q cp b)
  case 0
  then show ?case by (cases position) (auto simp: bd_sim_def)
next
  case (Suc k)
  let ?q = "position + k"
  have q: "q = Suc ?q" and cp: "cp = ?q + n" using Suc.prems by simp_all
  show ?case
  proof (cases "e \<le> cp")
    case False
    then have "Suc ?q + n = e" using Suc.prems cp by simp
    then show ?thesis using Suc.prems False cp by (simp add: bd_sim_def)
  next
    case True
    then have ne: "Suc ?q + n \<noteq> e" using cp by simp
    have rd: "bd_read ?q b = ss_read ?q (bv_storage (bd_vector b))"
      using Suc.prems by (intro bd_read_sim) auto
    show ?thesis
    proof (cases "ss_read ?q (bv_storage (bd_vector b))")
      case (Inl a)
      then show ?thesis using Suc.prems True ne rd cp q by simp
    next
      case (Inr x)
      define b' where "b' = b\<lparr>bd_storage := (bd_storage b)[bd_index b cp := Some x]\<rparr>"
      have c: "cp < bd_max_size b" using Suc.prems cp by simp
      note w = bd_write_vector [OF Suc.prems(1) c b'_def]
      have "sim (\<lambda>(k', cp', b'') (q', s). q' = position + k' \<and> (k' \<noteq> 0 \<longrightarrow> Suc cp' = q' + n) \<and> q' \<le> ?q
          \<and> bd_sim b'' (on_block (bd_vector b') s) \<and> bd_max_size b'' = bd_max_size b')
        (bd_move_up_construct k (cp - 1) n b') (bv_move_up_construct ?q position n e (bv_storage (bd_vector b')))"
        using Suc.prems True cp w by (intro Suc.IH) auto
      then have "sim (\<lambda>(k', cp', b'') (q', s). q' = position + k' \<and> (k' \<noteq> 0 \<longrightarrow> Suc cp' = q' + n) \<and> q' \<le> q
          \<and> bd_sim b'' (on_block (bd_vector b) s) \<and> bd_max_size b'' = bd_max_size b)
        (bd_move_up_construct k (cp - 1) n b')
        (bv_move_up_construct ?q position n e ((bv_storage (bd_vector b))[cp := Some x]))"
        using w(1,3) q by (auto elim!: sum.rel_mono_strong)
      then show ?thesis
        using Suc.prems True ne rd cp q c Inr bd_Construct_eq [OF Suc.prems(1) c, of x]
        by (simp add: b'_def ss_Construct_def)
    qed
  qed
qed

lemma bd_move_up_assign_sim:
  assumes "bd_wf b" and "q = position + k" and "k \<noteq> 0 \<longrightarrow> Suc cp = q + n" and "q + n \<le> bd_max_size b"
  shows "sim (\<lambda>b' s. bd_sim b' (on_block (bd_vector b) s))
    (bd_move_up_assign triv k cp n b) (bv_move_up_assign triv q position n (bv_storage (bd_vector b)))"
  using assms
proof (induction k arbitrary: q cp b)
  case 0
  then show ?case by (cases position) (auto simp: bd_sim_def)
next
  case (Suc k)
  let ?q = "position + k"
  have q: "q = Suc ?q" and cp: "cp = ?q + n" using Suc.prems by simp_all
  have rd: "bd_read ?q b = ss_read ?q (bv_storage (bd_vector b))"
    using Suc.prems by (intro bd_read_sim) auto
  show ?case
  proof (cases "ss_read ?q (bv_storage (bd_vector b))")
    case (Inl a)
    then show ?thesis using Suc.prems rd cp q by simp
  next
    case (Inr x)
    define b' where "b' = b\<lparr>bd_storage := (bd_storage b)[bd_index b cp := Some x]\<rparr>"
    have c: "cp < bd_max_size b" using Suc.prems cp by simp
    note w = bd_write_vector [OF Suc.prems(1) c b'_def]
    have "sim (\<lambda>b'' s. bd_sim b'' (on_block (bd_vector b') s))
      (bd_move_up_assign triv k (cp - 1) n b') (bv_move_up_assign triv ?q position n (bv_storage (bd_vector b')))"
      using Suc.prems cp w by (intro Suc.IH) auto
    then have "sim (\<lambda>b'' s. bd_sim b'' (on_block (bd_vector b) s))
      (bd_move_up_assign triv k (cp - 1) n b')
      (bv_move_up_assign triv ?q position n ((bv_storage (bd_vector b))[cp := Some x]))"
      using w(1) by (auto elim!: sum.rel_mono_strong)
    then show ?thesis
      using Suc.prems rd cp q c Inr bd_slot_assign_eq [OF Suc.prems(1) c, of triv x]
      by (cases triv) (simp_all add: b'_def ss_assign_def)
  qed
qed

lemma bd_move_up_sim:
  assumes "bd_wf b" and "position \<le> bd_size b" and "bd_size b + n \<le> bd_max_size b"
  shows "sim bd_sim (bd_move_up triv position n b) (bv_move_up triv position n (bd_vector b))"
proof -
  let ?e = "bd_numAllocated b"
  have k: "?e = position + (?e - position)" "\<not> ?e < position" using assms(2) by (simp_all add: bd_size_def)
  have "sim (\<lambda>(k', cp', b') (q', s). q' = position + k' \<and> (k' \<noteq> 0 \<longrightarrow> Suc cp' = q' + n) \<and> q' \<le> ?e
      \<and> bd_sim b' (on_block (bd_vector b) s) \<and> bd_max_size b' = bd_max_size b)
    (bd_move_up_construct (?e - position) (?e + n - 1) n b)
    (bv_move_up_construct ?e position n ?e (bv_storage (bd_vector b)))"
    using assms k by (intro bd_move_up_construct_sim) (auto simp: bd_size_def)
  then show ?thesis
    unfolding bd_move_up_def bv_move_up_def bd_vector_simps if_not_P [OF k(2)] bd_size_def
  proof (rule sim_bindR, goal_cases)
    case (1 x y)
    obtain k' cp' b1 q' s where xy: "x = (k', cp', b1)" "y = (q', s)" by (cases x; cases y) auto
    with 1(1) have r: "q' = position + k'" "k' \<noteq> 0 \<longrightarrow> Suc cp' = q' + n" "q' \<le> ?e" "bd_wf b1"
        "bd_vector b1 = on_block (bd_vector b) s" "bd_max_size b1 = bd_max_size b"
      by (auto simp: bd_sim_def)
    have "sim (\<lambda>b' s'. bd_sim b' (on_block (bd_vector b) s'))
      (bd_move_up_assign triv k' cp' n b1) (bv_move_up_assign triv q' position n s)"
      using bd_move_up_assign_sim [OF r(4,1,2), of triv] r assms by (simp add: bd_size_def)
    then show ?case
      unfolding xy split by (rule sim_bindR) (simp, frule bd_sim_size, simp add: bd_sim_numAllocated)
  qed
qed

text \<open>The branch of \<^verbatim>\<open>insert\<close> that moves up and assigns.\<close>

lemma bd_insert_moved_sim:
  assumes "bd_inv b" and "position \<le> bd_size b" and "bd_size b + length xs \<le> bd_max_size b"
  shows "sim bd_sim (bindR (bd_move_up triv position (length xs) b) (bd_assign_each triv xs position))
    (bindR (std_copy triv xs position (shift_up position (bd_size b) (length xs) (bv_storage (bd_vector b))))
      (\<lambda>s. Inr (on_block (bd_vector b\<lparr>bv_numAllocated := bd_numAllocated b + length xs\<rparr>) s)))"
proof -
  let ?v = "bd_vector b" and ?n = "length xs"
  let ?s = "shift_up position (bd_size b) ?n (bv_storage ?v)"
  have mv: "bv_move_up triv position ?n ?v = Inr (?v\<lparr>bv_storage := ?s, bv_numAllocated := bd_numAllocated b + ?n\<rparr>)"
    using assms bv_move_up_eq [of ?v position ?n triv] by (simp add: bd_inv_def)
  obtain b1 where b1: "bd_move_up triv position ?n b = Inr b1" "bd_wf b1"
      "bd_vector b1 = ?v\<lparr>bv_storage := ?s, bv_numAllocated := bd_numAllocated b + ?n\<rparr>"
    using sim_Inr [OF bd_move_up_sim [of b position ?n triv, unfolded mv]] assms bd_inv_bounds [OF assms(1)]
    by (auto simp: bd_sim_def)
  have "bd_max_size b1 = length ?s" using bd_vector_simps(4) [of b1] b1(3) by simp
  also have "\<dots> = bd_max_size b" using assms by (simp add: shift_up_def)
  finally have "position + ?n \<le> bd_max_size b1" using assms by simp
  from bd_assign_each_sim [OF b1(2) this, of triv] show ?thesis
    unfolding b1(1) b1(3) by simp
qed

lemma bd_insert_front_eq:
  "bd_size b + length xs \<le> bd_max_size b \<Longrightarrow> bd_numAllocated b \<noteq> 0 \<Longrightarrow>
    bd_insert_range triv 0 xs b = bd_construct_each xs 0
      (b\<lparr>bd_start := bd_index b (bd_max_size b - length xs), bd_numAllocated := bd_numAllocated b + length xs\<rparr>)"
  by (simp add: bd_insert_range_def Let_def)

lemma bd_insert_range_correct:
  assumes inv: "bd_inv b" and pos: "position \<le> bd_size b" and room: "bd_size b + length xs \<le> bd_max_size b"
    and ok: "triv \<or> position = 0 \<and> bd_size b \<noteq> 0 \<or> position + length xs \<le> bd_size b"
  shows "\<exists>b'. bd_insert_range triv position xs b = Inr b' \<and> bd_inv b' \<and> (False \<longrightarrow> bd_tidy b')
    \<and> bd_list b' = take position (bd_list b) @ xs @ drop position (bd_list b) \<and> bd_max_size b' = bd_max_size b"
proof (cases "position = 0 \<and> bd_numAllocated b \<noteq> 0")
  case True
  then show ?thesis
    using bd_prepend_correct [OF inv room] bd_insert_front_eq [OF room, of triv] by auto
next
  case False
  let ?v = "bd_vector b" and ?n = "length xs"
  let ?s = "shift_up position (bd_size b) ?n (bv_storage ?v)"
  have vinv: "bv_inv ?v" "position \<le> bv_size ?v" "bv_size ?v + ?n \<le> bv_max_size ?v"
    using assms by (simp_all add: bd_inv_def)
  have len: "length ?s = bd_max_size b" using pos room by (simp add: shift_up_def)
  have "triv \<or> alive ?s position (position + ?n)"
  proof (cases triv)
    case no: False
    with ok False have fit: "position + ?n \<le> bd_size b" by (auto simp: bd_size_def)
    have "?s ! j = bv_storage ?v ! j" if "j < position + ?n" for j
      using that pos room by (subst shift_up_def, subst nth_overwrite) auto
    moreover have "alive (bv_storage ?v) 0 (bd_size b)" using vinv(1) by (simp add: bv_inv_def bd_size_def)
    ultimately show ?thesis using fit room len by (auto simp: alive_def)
  qed simp
  then have cp: "std_copy triv xs position ?s = Inr (overwrite ?s position (map Some xs))"
    using pos room len by (intro std_copy_eq) auto
  have eq: "bd_insert_range triv position xs b
      = bindR (bd_move_up triv position ?n b) (bd_assign_each triv xs position)"
    using False room by (auto simp: bd_insert_range_def)
  note ins = bv_list_after_insert [OF vinv, unfolded bd_vector_simps]
  have max: "bv_max_size (on_block w (overwrite ?s position (map Some xs))) = bd_max_size b" for w
    using len pos room by (simp add: bv_max_size_def)
  show ?thesis
    unfolding eq bd_list_def [of b]
    by (rule bd_lift [OF bd_insert_moved_sim [OF inv pos room, of triv, unfolded cp bindR_simps]])
      (intro exI conjI impI; (rule refl ins max | simp))
qed

lemma bd_insert_range_undefined:
  assumes inv: "bd_inv b" and tidy: "bd_tidy b" and pos: "position \<le> bd_size b"
    and room: "bd_size b + length xs \<le> bd_max_size b"
    and bad: "\<not> (position = 0 \<and> bd_size b \<noteq> 0)" "bd_size b < position + length xs"
  shows "bd_insert_range False position xs b = Inl UndefinedBehaviour"
proof -
  let ?v = "bd_vector b" and ?n = "length xs"
  let ?s = "shift_up position (bd_size b) ?n (bv_storage ?v)"
  have len: "length ?s = bd_max_size b" using pos room by (simp add: shift_up_def)
  have lt: "bd_size b < bd_max_size b" using bad pos room by simp
  have "?s ! bd_size b = bv_storage ?v ! bd_size b"
    using bad pos room by (subst shift_up_def, subst nth_overwrite) auto
  also have "\<dots> = None" using tidy lt by (auto simp: bd_tidy_def bv_tidy_def bd_size_def)
  finally have "std_copy False xs position ?s = Inl UndefinedBehaviour"
    using pos room bad len by (intro std_copy_dead [of _ _ _ "bd_size b"]) auto
  moreover have "bd_insert_range False position xs b
      = bindR (bd_move_up False position ?n b) (bd_assign_each False xs position)"
    using bad(1) room by (auto simp: bd_insert_range_def bd_size_def)
  ultimately show ?thesis
    using bd_insert_moved_sim [OF inv pos room, of False] by (auto dest: sim_Inl)
qed

lemma bd_insert_n_eq: "bd_insert_n triv position n x b = bd_insert_range triv position (replicate n x) b"
  by (simp add: bd_insert_n_def bd_insert_range_def)

text \<open>
  What \<^verbatim>\<open>insert\<close> of a range does to a deque, on every branch: too long a range fails the assertion;
  in front of a non-empty deque, inside the elements, or for a trivial type, the range is put
  before the position and the other elements keep their order. Where the range reaches past the
  last element (appending, or inserting into an empty deque) a type that is not trivial is assigned
  to storage in which no object lives.
\<close>

theorem bd_insert_range_cases:
  assumes "bd_inv b" and "bd_tidy b" and "position \<le> bd_size b"
  shows "if bd_max_size b < bd_size b + length xs
      then bd_insert_range triv position xs b = Inl AssertFailed
    else if triv \<or> position = 0 \<and> bd_size b \<noteq> 0 \<or> position + length xs \<le> bd_size b
      then \<exists>b'. bd_insert_range triv position xs b = Inr b' \<and> bd_inv b'
             \<and> bd_list b' = take position (bd_list b) @ xs @ drop position (bd_list b)
    else bd_insert_range triv position xs b = Inl UndefinedBehaviour"
proof (cases "bd_max_size b < bd_size b + length xs")
  case True
  then show ?thesis by (simp add: bd_insert_range_def)
next
  case False
  then have room: "bd_size b + length xs \<le> bd_max_size b" by simp
  show ?thesis
  proof (cases "triv \<or> position = 0 \<and> bd_size b \<noteq> 0 \<or> position + length xs \<le> bd_size b")
    case True
    with False bd_insert_range_correct [OF assms(1,3) room True] show ?thesis by auto
  next
    case bad: False
    with False bd_insert_range_undefined [OF assms(1,2,3) room] show ?thesis by auto
  qed
qed

theorem bd_insert_range_cases_witness:
  "bd_insert_range False 0 [4 :: nat] (bd_make [None, None]) = Inl UndefinedBehaviour"
proof -
  let ?b = "bd_make [None, None :: nat option]"
  have "bd_inv ?b"
    by (simp add: bd_make_def bd_inv_def bd_wf_def bd_max_size_def bv_inv_def bd_vector_def alive_def)
  moreover have "bd_tidy ?b"
    by (auto simp: bd_make_def bd_tidy_def bv_tidy_def bd_vector_def bd_max_size_def ring_def less_Suc_eq upt_rec)
  ultimately show ?thesis
    using bd_insert_range_cases [of ?b 0 "[4]" False]
    by (simp add: bd_make_def bd_size_def bd_max_size_def)
qed

subsection \<open>Erasing from the deque\<close>

lemma bd_erase_move_sim:
  assumes "bd_wf b" and "fi \<le> la" and "bd_size b \<le> bd_max_size b" and "e = bd_numAllocated b"
  shows "sim (\<lambda>(fi', la', b') (fi'', s). fi'' = fi' \<and> la' = e \<and> bd_max_size b' = bd_max_size b
      \<and> bd_sim b' (on_block (bd_vector b) s))
    (bd_erase_move triv fi la b) (bv_erase_move triv fi la e (bv_storage (bd_vector b)))"
  using assms
proof (induction "e - la" arbitrary: fi la b)
  case 0
  then show ?case
    by (subst bd_erase_move.simps, subst bv_erase_move.simps) (auto simp: bd_sim_def)
next
  case (Suc k)
  then have la: "la < e" "la < bd_max_size b" "fi < bd_max_size b" by (auto simp: bd_size_def)
  have rd: "bd_read la b = ss_read la (bv_storage (bd_vector b))" using Suc.prems la by (intro bd_read_sim) auto
  show ?case
  proof (cases "ss_read la (bv_storage (bd_vector b))")
    case (Inl a)
    with rd la Suc.prems show ?thesis
      by (subst bd_erase_move.simps, subst bv_erase_move.simps) simp
  next
    case (Inr x)
    define b' where "b' = b\<lparr>bd_storage := (bd_storage b)[bd_index b fi := Some x]\<rparr>"
    note w = bd_write_vector [OF Suc.prems(1) la(3) b'_def]
    have "sim (\<lambda>(fi', la', b'') (fi'', s). fi'' = fi' \<and> la' = e \<and> bd_max_size b'' = bd_max_size b'
        \<and> bd_sim b'' (on_block (bd_vector b') s))
      (bd_erase_move triv (Suc fi) (Suc la) b') (bv_erase_move triv (Suc fi) (Suc la) e (bv_storage (bd_vector b')))"
      using Suc.prems Suc.hyps(2) la w by (intro Suc.hyps(1)) (auto simp: bd_size_def)
    then have "sim (\<lambda>(fi', la', b'') (fi'', s). fi'' = fi' \<and> la' = e \<and> bd_max_size b'' = bd_max_size b
        \<and> bd_sim b'' (on_block (bd_vector b) s))
      (bd_erase_move triv (Suc fi) (Suc la) b')
      (bv_erase_move triv (Suc fi) (Suc la) e ((bv_storage (bd_vector b))[fi := Some x]))"
      using w(1,3) by (auto elim!: sum.rel_mono_strong)
    then show ?thesis
      using la rd Inr Suc.prems bd_slot_assign_eq [OF Suc.prems(1) la(3), of triv x]
      by (subst bd_erase_move.simps, subst bv_erase_move.simps)
        (cases triv; simp add: b'_def ss_assign_def)
  qed
qed

lemma bd_erase_destruct_sim:
  assumes "bd_wf b" and "la \<le> bd_max_size b"
  shows "sim bd_sim (bd_erase_destruct fi la b) (bv_erase_destruct fi la (bd_vector b))"
  using assms
proof (induction "la - fi" arbitrary: fi b)
  case 0
  then show ?case
    by (subst bd_erase_destruct.simps, subst bv_erase_destruct.simps) (auto simp: bd_sim_def)
next
  case (Suc k)
  then have fi: "fi < la" "fi < bd_max_size b" by simp_all
  define b' where "b' = b\<lparr>bd_storage := (bd_storage b)[bd_index b fi := None]\<rparr>"
  note w = bd_write_vector [OF Suc.prems(1) fi(2) b'_def]
  have "sim bd_sim (bd_erase_destruct (Suc fi) la (b'\<lparr>bd_numAllocated := bd_numAllocated b' - 1\<rparr>))
      (bv_erase_destruct (Suc fi) la (bd_vector (b'\<lparr>bd_numAllocated := bd_numAllocated b' - 1\<rparr>)))"
    using Suc.prems Suc.hyps(2) w by (intro Suc.hyps(1)) auto
  then show ?case
    using fi w bd_Destruct_eq [OF Suc.prems(1) fi(2)]
    by (subst bd_erase_destruct.simps, subst bv_erase_destruct.simps) (auto simp: b'_def [symmetric] ss_Destruct_def)
qed

lemma bd_erase_front_pops:
  assumes "bd_inv b" and "k \<le> bd_size b"
  shows "\<exists>b'. bd_erase_front k b = Inr b' \<and> bd_inv b' \<and> (bd_tidy b \<longrightarrow> bd_tidy b')
    \<and> bd_list b' = drop k (bd_list b) \<and> bd_max_size b' = bd_max_size b"
  using assms
proof (induction k arbitrary: b)
  case (Suc k)
  have wf: "bd_wf b" "bd_start b < bd_max_size b"
    using bd_inv_bounds [OF Suc.prems(1)] Suc.prems(2) by (auto simp: bd_wf_def)
  obtain b1 where b1: "bd_pop_front b = Inr b1" "bd_inv b1" "bd_tidy b \<longrightarrow> bd_tidy b1"
      "bd_list b1 = tl (bd_list b)" "bd_max_size b1 = bd_max_size b"
    using bd_pop_front_correct [OF Suc.prems(1)] Suc.prems(2) by auto
  have sz: "bd_size b1 = bd_size b - 1"
    using length_bd_list [OF b1(2)] length_bd_list [OF Suc.prems(1)] b1(4) by simp
  have eq: "bd_erase_front (Suc k) b = bindR (bd_pop_front b) (bd_erase_front k)"
    using Suc.prems(2)
    by (simp add: bd_pop_front_def bd_Destruct_def bd_index_0 [OF wf(2)] bd_empty_def bd_size_def
        bindR_assoc Let_def bd_update_commute)
  have "k \<le> bd_size b1" using sz Suc.prems(2) by simp
  from Suc.IH [OF b1(2) this] b1(3) show ?case unfolding eq b1(1) bindR_simps b1(4,5) drop_Suc by blast
qed simp

text \<open>
  \<^verbatim>\<open>erase\<close> of a range of a deque removes exactly the elements of the range and destroys as many
  objects, both in front, where it moves the start, and further on, where it moves elements down.
\<close>

theorem bd_erase_range_removes:
  assumes inv: "bd_inv b" and "fi \<le> la" and "la \<le> bd_size b"
  shows "\<exists>b'. bd_erase_range triv fi la b = Inr b' \<and> bd_inv b' \<and> (bd_tidy b \<longrightarrow> bd_tidy b')
    \<and> bd_list b' = take fi (bd_list b) @ drop la (bd_list b) \<and> bd_max_size b' = bd_max_size b"
proof (cases "fi = 0")
  case True
  with assms bd_erase_front_pops [OF inv, of la] show ?thesis by (simp add: bd_erase_range_def)
next
  case False
  let ?v = "bd_vector b" and ?e = "bd_numAllocated b"
  have wf: "bd_wf b" "bd_size b \<le> bd_max_size b" using bd_inv_bounds [OF inv] by simp_all
  have "sim bd_sim (bindR (bd_erase_move triv fi la b) (\<lambda>(fi', la', b'). bd_erase_destruct fi' la' b'))
      (bindR (bv_erase_move triv fi la ?e (bv_storage ?v)) (\<lambda>(fi', s). bv_erase_destruct fi' ?e (on_block ?v s)))"
    using bd_erase_move_sim [OF wf(1) assms(2) wf(2) refl, of triv]
  proof (rule sim_bindR, goal_cases)
    case (1 x y)
    then show ?case
      using wf(2) by (cases x; cases y) (auto simp: bd_sim_def bd_size_def intro!: bd_erase_destruct_sim)
  qed
  moreover have "bd_erase_range triv fi la b
      = bindR (bd_erase_move triv fi la b) (\<lambda>(fi', la', b'). bd_erase_destruct fi' la' b')"
    using False assms by (simp add: bd_erase_range_def le_diff_conv trans_le_add1)
  ultimately have "sim bd_sim (bd_erase_range triv fi la b) (bv_erase_range triv fi la ?v)"
    by (simp add: bv_erase_range_def bd_size_def)
  from bd_lift [OF this, of "bd_tidy b"] bv_erase_range_correct [of ?v fi la triv] assms show ?thesis
    by (simp add: bd_inv_def [of b] bd_tidy_def [of b] bd_list_def [of b])
qed

theorem bd_erase_range_removes_witness:
  "\<exists>b'. bd_erase_range False 1 2 \<lparr>bd_storage = [Some 1, Some 2, Some (0 :: nat)], bd_start = 2, bd_numAllocated = 3\<rparr>
      = Inr b' \<and> bd_list b' = [0, 2]"
proof -
  let ?b = "\<lparr>bd_storage = [Some 1, Some 2, Some 0], bd_start = 2, bd_numAllocated = 3\<rparr> :: nat bounded_deque"
  have v: "bd_vector ?b = \<lparr>bv_storage = [Some 0, Some 1, Some 2], bv_numAllocated = 3\<rparr>"
    by (simp add: bd_vector_def bd_max_size_def ring_def upt_rec)
  have "bd_inv ?b"
    unfolding bd_inv_def v by (auto simp: bd_wf_def bd_max_size_def bv_inv_def alive_def less_Suc_eq numeral_3_eq_3)
  moreover have "bd_list ?b = [0, 1, 2]"
    unfolding bd_list_def v by (simp add: bv_list_def)
  ultimately show ?thesis
    using bd_erase_range_removes [of ?b 1 2 False] by (auto simp: bd_size_def)
qed

subsection \<open>Swapping deques\<close>

lemma bd_swap_common_sim:
  assumes "bd_wf b" and "bd_wf c" and "n \<le> bd_max_size b" and "n \<le> bd_max_size c"
  shows "sim (\<lambda>(b', c') (s, t). bd_sim b' (on_block (bd_vector b) s) \<and> bd_sim c' (on_block (bd_vector c) t))
    (bd_swap_common triv i n b c) (bv_swap_common triv i n (bv_storage (bd_vector b)) (bv_storage (bd_vector c)))"
  using assms
proof (induction "n - i" arbitrary: i b c)
  case 0
  then show ?case by (subst bd_swap_common.simps, subst bv_swap_common.simps) (simp add: bd_sim_def)
next
  case (Suc k)
  then have i: "i < n" "i < bd_max_size b" "i < bd_max_size c" by simp_all
  have rd: "bd_read i b = ss_read i (bv_storage (bd_vector b))" "bd_read i c = ss_read i (bv_storage (bd_vector c))"
    using Suc.prems i by (intro bd_read_sim; simp)+
  show ?case
  proof (cases "\<exists>x y. ss_read i (bv_storage (bd_vector b)) = Inr x \<and> ss_read i (bv_storage (bd_vector c)) = Inr y")
    case False
    with i rd show ?thesis
      by (subst bd_swap_common.simps, subst bv_swap_common.simps)
        (cases "ss_read i (bv_storage (bd_vector b))"; cases "ss_read i (bv_storage (bd_vector c))"; simp)
  next
    case True
    then obtain x y where xy: "ss_read i (bv_storage (bd_vector b)) = Inr x"
        "ss_read i (bv_storage (bd_vector c)) = Inr y" by blast
    then have some: "bv_storage (bd_vector b) ! i = Some x" "bv_storage (bd_vector c) ! i = Some y"
      using i by (auto simp: ss_read_def result_simps split: option.splits)
    define b' where "b' = b\<lparr>bd_storage := (bd_storage b)[bd_index b i := Some y]\<rparr>"
    define c' where "c' = c\<lparr>bd_storage := (bd_storage c)[bd_index c i := Some x]\<rparr>"
    note w = bd_write_vector [OF Suc.prems(1) i(2) b'_def] and u = bd_write_vector [OF Suc.prems(2) i(3) c'_def]
    have "sim (\<lambda>(b'', c'') (s, t). bd_sim b'' (on_block (bd_vector b') s) \<and> bd_sim c'' (on_block (bd_vector c') t))
      (bd_swap_common triv (Suc i) n b' c')
      (bv_swap_common triv (Suc i) n (bv_storage (bd_vector b')) (bv_storage (bd_vector c')))"
      using Suc.prems Suc.hyps(2) w u by (intro Suc.hyps(1)) auto
    then have "sim (\<lambda>(b'', c'') (s, t). bd_sim b'' (on_block (bd_vector b) s) \<and> bd_sim c'' (on_block (bd_vector c) t))
      (bd_swap_common triv (Suc i) n b' c')
      (bv_swap_common triv (Suc i) n ((bv_storage (bd_vector b))[i := Some y]) ((bv_storage (bd_vector c))[i := Some x]))"
      by (simp add: w(1) u(1))
    then show ?thesis
      using i xy rd some bd_slot_assign_eq [OF Suc.prems(1) i(2), of triv y]
        bd_slot_assign_eq [OF Suc.prems(2) i(3), of triv x]
      by (subst bd_swap_common.simps, subst bv_swap_common.simps)
        (simp add: ss_assign_def b'_def [symmetric] c'_def [symmetric])
  qed
qed

lemma bd_swap_move_sim:
  assumes "bd_wf b" and "bd_wf c" and "n \<le> bd_max_size b" and "n \<le> bd_max_size c"
  shows "sim (\<lambda>(b', c') (s, t). bd_sim b' (on_block (bd_vector b) s) \<and> bd_sim c' (on_block (bd_vector c) t))
    (bd_swap_move i n b c) (bv_swap_move i n (bv_storage (bd_vector b)) (bv_storage (bd_vector c)))"
  using assms
proof (induction "n - i" arbitrary: i b c)
  case 0
  then show ?case by (subst bd_swap_move.simps, subst bv_swap_move.simps) (simp add: bd_sim_def)
next
  case (Suc k)
  then have i: "i < n" "i < bd_max_size b" "i < bd_max_size c" by simp_all
  have rd: "bd_read i c = ss_read i (bv_storage (bd_vector c))"
    using Suc.prems i by (intro bd_read_sim; simp)
  show ?case
  proof (cases "ss_read i (bv_storage (bd_vector c))")
    case (Inl a)
    with i rd show ?thesis by (subst bd_swap_move.simps, subst bv_swap_move.simps) simp
  next
    case (Inr x)
    then have some: "bv_storage (bd_vector c) ! i = Some x"
      using i by (auto simp: ss_read_def result_simps split: option.splits)
    define b' where "b' = b\<lparr>bd_storage := (bd_storage b)[bd_index b i := Some x]\<rparr>"
    define c' where "c' = c\<lparr>bd_storage := (bd_storage c)[bd_index c i := None]\<rparr>"
    note w = bd_write_vector [OF Suc.prems(1) i(2) b'_def] and u = bd_write_vector [OF Suc.prems(2) i(3) c'_def]
    have "sim (\<lambda>(b'', c'') (s, t). bd_sim b'' (on_block (bd_vector b') s) \<and> bd_sim c'' (on_block (bd_vector c') t))
      (bd_swap_move (Suc i) n b' c')
      (bv_swap_move (Suc i) n (bv_storage (bd_vector b')) (bv_storage (bd_vector c')))"
      using Suc.prems Suc.hyps(2) w u by (intro Suc.hyps(1)) auto
    then have "sim (\<lambda>(b'', c'') (s, t). bd_sim b'' (on_block (bd_vector b) s) \<and> bd_sim c'' (on_block (bd_vector c) t))
      (bd_swap_move (Suc i) n b' c')
      (bv_swap_move (Suc i) n ((bv_storage (bd_vector b))[i := Some x]) ((bv_storage (bd_vector c))[i := None]))"
      by (simp add: w(1) u(1))
    then show ?thesis
      using i Inr rd some bd_Construct_eq [OF Suc.prems(1) i(2), of x] bd_Destruct_eq [OF Suc.prems(2) i(3)]
      by (subst bd_swap_move.simps, subst bv_swap_move.simps)
        (simp add: ss_Construct_def ss_Destruct_def b'_def [symmetric] c'_def [symmetric])
  qed
qed

text \<open>
  \<^verbatim>\<open>swap\<close> of two deques, of possibly different capacity and with their elements at different places
  of their blocks, exchanges their contents, given that each can hold what the other has.
\<close>

theorem bd_swap_exchanges:
  assumes inv: "bd_inv b" "bd_inv c" and tidy: "bd_tidy b" "bd_tidy c"
    and fit: "bd_size b \<le> bd_max_size c" "bd_size c \<le> bd_max_size b"
  shows "\<exists>b' c'. bd_swap triv b c = Inr (b', c') \<and> bd_inv b' \<and> bd_inv c' \<and> bd_tidy b' \<and> bd_tidy c'
    \<and> bd_list b' = bd_list c \<and> bd_list c' = bd_list b"
proof -
  define v w where "v = bd_vector b" and "w = bd_vector c"
  define m n s t where "m = bd_size b" and "n = bd_size c" and "s = bv_storage v" and "t = bv_storage w"
  have wf: "bd_wf b" "bd_wf c" and sz: "m \<le> length s" "m \<le> length t" "n \<le> length s" "n \<le> length t"
    using bd_inv_bounds [OF inv(1)] bd_inv_bounds [OF inv(2)] fit
    by (simp_all add: m_def n_def s_def t_def v_def w_def)
  have al: "alive s 0 m" "alive t 0 n"
    using inv by (simp_all add: m_def n_def s_def t_def v_def w_def bd_inv_def bv_inv_def bd_size_def)
  have td: "\<And>k. m \<le> k \<Longrightarrow> k < length s \<Longrightarrow> s ! k = None" "\<And>k. n \<le> k \<Longrightarrow> k < length t \<Longrightarrow> t ! k = None"
    using tidy by (simp_all add: m_def n_def s_def t_def v_def w_def bd_tidy_def bv_tidy_def bd_size_def)
  obtain s1 t1 s2 t2 s3 t3 where loops: "bv_swap_common triv 0 (min m n) s t = Inr (s1, t1)"
      "bv_swap_move m n s1 t1 = Inr (s2, t2)" "bv_swap_move n m t2 s2 = Inr (t3, s3)"
      and len: "length s1 = length s" "length t1 = length t" "length s2 = length s" "length t2 = length t"
        "length s3 = length s" "length t3 = length t"
      and s3: "\<And>k. k < length s \<Longrightarrow> s3 ! k = (if k < n then t ! k else None)"
      and t3: "\<And>k. k < length t \<Longrightarrow> t3 ! k = (if k < m then s ! k else None)"
    using bv_swap_loops [OF sz al td, of triv] by blast
  have N: "bd_max_size b = length s" "bd_max_size c = length t" by (simp_all add: s_def t_def v_def w_def)
  have mn: "min m n \<le> bd_max_size b" "min m n \<le> bd_max_size c" using sz N by auto
  obtain b1 c1 where 1: "bd_swap_common triv 0 (min m n) b c = Inr (b1, c1)" "bd_wf b1" "bd_wf c1"
      "bd_vector b1 = on_block v s1" "bd_vector c1 = on_block w t1"
    using sim_Inr [OF bd_swap_common_sim [OF wf mn, of triv 0, folded v_def w_def, folded s_def t_def, unfolded loops(1)]]
    by (auto simp: bd_sim_def)
  then have N1: "bd_max_size b1 = length s" "bd_max_size c1 = length t"
    using bd_vector_simps(4) [of b1] bd_vector_simps(4) [of c1] len by simp_all
  obtain b2 c2 where 2: "bd_swap_move m n b1 c1 = Inr (b2, c2)" "bd_wf b2" "bd_wf c2"
      "bd_vector b2 = on_block v s2" "bd_vector c2 = on_block w t2"
    using bd_swap_move_sim [OF 1(2,3), of n m] sz loops(2) by (auto simp: N1 1(4,5) bd_sim_def dest!: sim_Inr)
  then have N2: "bd_max_size b2 = length s" "bd_max_size c2 = length t"
    using bd_vector_simps(4) [of b2] bd_vector_simps(4) [of c2] len by simp_all
  obtain b3 c3 where 3: "bd_swap_move n m c2 b2 = Inr (c3, b3)" "bd_wf b3" "bd_wf c3"
      "bd_vector b3 = on_block v s3" "bd_vector c3 = on_block w t3"
    using bd_swap_move_sim [OF 2(3,2), of m n] sz loops(3) by (auto simp: N2 2(4,5) bd_sim_def dest!: sim_Inr)
  let ?b = "b3\<lparr>bd_numAllocated := n\<rparr>" and ?c = "c3\<lparr>bd_numAllocated := m\<rparr>"
  have r: "bd_swap triv b c = Inr (?b, ?c)"
    using 1(1) 2(1) 3(1) by (simp add: bd_swap_def m_def [symmetric] n_def [symmetric])
  have "bd_inv ?b" "bd_inv ?c" "bd_tidy ?b" "bd_tidy ?c"
    using al sz len(5,6) 3 by (auto simp: bd_inv_def bd_tidy_def bv_inv_def bv_tidy_def alive_def s3 t3)
  moreover have "take n s3 = take n t" "take m t3 = take m s"
    using sz len(5,6) by (auto intro!: nth_equalityI simp: s3 t3)
  then have "bd_list ?b = bd_list c" "bd_list ?c = bd_list b"
    using 3(4,5) by (simp_all add: bd_list_def bv_list_def m_def n_def s_def t_def v_def w_def bd_size_def)
  ultimately show ?thesis using r by blast
qed

theorem bd_swap_exchanges_witness:
  "\<exists>b' c'. bd_swap False \<lparr>bd_storage = [None, Some (1 :: nat)], bd_start = 1, bd_numAllocated = 1\<rparr> (bd_make [None])
     = Inr (b', c') \<and> bd_list c' = [1]"
proof -
  let ?b = "\<lparr>bd_storage = [None, Some 1], bd_start = 1, bd_numAllocated = 1\<rparr> :: nat bounded_deque"
  let ?c = "bd_make [None] :: nat bounded_deque"
  have v: "bd_vector ?b = \<lparr>bv_storage = [Some 1, None], bv_numAllocated = 1\<rparr>"
    by (simp add: bd_vector_def bd_max_size_def ring_def upt_rec)
  have w: "bd_vector ?c = \<lparr>bv_storage = [None], bv_numAllocated = 0\<rparr>"
    by (simp add: bd_make_def bd_vector_def bd_max_size_def ring_def upt_rec)
  have "bd_inv ?b" "bd_inv ?c"
    unfolding bd_inv_def v w by (simp_all add: bd_wf_def bd_max_size_def bv_inv_def alive_def bd_make_def)
  moreover have "bd_tidy ?b" "bd_tidy ?c"
    unfolding bd_tidy_def v w by (auto simp: bv_tidy_def less_Suc_eq)
  moreover have "bd_size ?b \<le> bd_max_size ?c" "bd_size ?c \<le> bd_max_size ?b"
    by (simp_all add: bd_size_def bd_max_size_def bd_make_def)
  moreover have "bd_list ?b = [1]"
    unfolding bd_list_def v by (simp add: bv_list_def)
  ultimately show ?thesis
    using bd_swap_exchanges [of ?b ?c False] by auto
qed

subsection \<open>Contiguous ranges\<close>

text \<open>The slots from begin to end of a range, read as a list of elements.\<close>

definition bd_slots :: "nat \<times> nat \<Rightarrow> 'a bounded_deque \<Rightarrow> 'a list" where
  "bd_slots r b = map the (take (snd r - fst r) (drop (fst r) (bd_storage b)))"

lemma bd_contiguous_range_prefix:
  assumes inv: "bd_inv b" and "from < bd_size b"
  shows "\<exists>k. 0 < k \<and> bd_slots (bd_contiguous_range from b) b = take k (drop from (bd_list b))
    \<and> (k = bd_size b - from \<or> bd_index b from + k = bd_max_size b)"
proof -
  let ?N = "bd_max_size b" and ?i = "bd_index b from"
  have wf: "bd_wf b" and le: "bd_size b \<le> ?N" using bd_inv_bounds [OF inv] by auto
  have i: "?i < ?N" using wf assms le by (intro bd_index_less) auto
  define k where "k = min (bd_size b - from) (?N - ?i)"
  have "take k (drop ?i (bd_storage b)) = take k (drop from (take (bd_size b) (bv_storage (bd_vector b))))"
  proof (rule nth_equalityI)
    show "length (take k (drop ?i (bd_storage b))) = length (take k (drop from (take (bd_size b) (bv_storage (bd_vector b)))))"
      using i le by (auto simp: k_def bd_max_size_def min_def)
    fix j assume "j < length (take k (drop ?i (bd_storage b)))"
    then have j: "j < k" by simp
    have "bd_index b (from + j) = ?i + j"
      using j wf le assms by (auto simp: k_def bd_index_def Let_def)
    moreover have "from + j < ?N" using j le by (auto simp: k_def)
    ultimately show "take k (drop ?i (bd_storage b)) ! j = take k (drop from (take (bd_size b) (bv_storage (bd_vector b)))) ! j"
      using j i le bd_vector_nth [OF wf, of "from + j"] by (auto simp: k_def bd_max_size_def)
  qed
  moreover have "bd_contiguous_range from b = (?i, ?i + k)"
    using assms i by (auto simp: bd_contiguous_range_def bd_empty_def bd_size_def k_def Let_def)
  moreover have "0 < k" "k = bd_size b - from \<or> ?i + k = ?N" using assms i by (auto simp: k_def)
  ultimately show ?thesis
    by (intro exI [of _ k]) (simp add: bd_slots_def bd_list_def bv_list_def take_map drop_map bd_size_def)
qed

end
