(* ===== verification/Stream_Readers.thy ===== *)
theory Stream_Readers
  imports Bounded_Deque
begin

section \<open>Stream readers: infra/stream\<close>

text \<open>
  A \<^verbatim>\<open>StreamReader\<close> hands out the bytes of some source and reports to a \<^verbatim>\<open>StreamErrorPolicy\<close> whether there
  were enough. The locales \<open>stream_source\<close>, \<open>stream_reader\<close> and
  \<open>stream_reader_with_rewinding\<close> are that interface: a reader stands at a position of a
  sequence of bytes, and every operation is explained by the sequence. It is interpreted on the
  readers over a range of bytes, a string, a bounded vector and a bounded deque. The readers that
  wrap another reader (\<^verbatim>\<open>LimitedStreamReader\<close>, \<^verbatim>\<open>CountingStreamReader\<close>, \<^verbatim>\<open>BufferingStreamReader\<close>) take the operations
  of that reader as arguments and are shown to keep the contract.
\<close>

subsection \<open>StreamErrorPolicy\<close>

datatype failure_mode = FailByAssertion | FailSoft | FailNo

record error_policy =
  ep_failureMode :: failure_mode
  ep_failed :: bool
  ep_checkedFail :: bool

definition ep_make :: "failure_mode \<Rightarrow> error_policy" where
  "ep_make mode = \<lparr>ep_failureMode = mode, ep_failed = False, ep_checkedFail = True\<rparr>"

definition ep_destroy :: "error_policy \<Rightarrow> unit result" where
  "ep_destroy p = checked (ep_checkedFail p) (Inr ())"

definition ep_Failed :: "error_policy \<Rightarrow> bool \<times> error_policy" where
  "ep_Failed p = (ep_failed p, p\<lparr>ep_checkedFail := True\<rparr>)"

definition ep_ReportResult :: "bool \<Rightarrow> error_policy \<Rightarrow> error_policy result" where
  "ep_ReportResult good p =
     (let p1 = (if \<not> good then p\<lparr>ep_failed := True\<rparr> else p)
      in checked (good \<or> ep_failureMode p \<noteq> FailByAssertion)
        (Inr (p1\<lparr>ep_checkedFail := (ep_failureMode p \<noteq> FailSoft)\<rparr>)))"

lemma ep_ReportResult_twice: "bindR (ep_ReportResult a p) (ep_ReportResult b) = ep_ReportResult (a \<and> b) p"
  by (cases a; cases b; cases "ep_failureMode p") (simp_all add: ep_ReportResult_def Let_def)

lemma ep_ReportResult_bind:
  "bindR (ep_ReportResult a p) (\<lambda>p'. bindR (ep_ReportResult b p') f) = bindR (ep_ReportResult (a \<and> b) p) f"
  by (simp only: ep_ReportResult_twice [symmetric] bindR_assoc)

lemma ep_ReportResult_True [simp]:
  "ep_ReportResult True p = Inr (p\<lparr>ep_checkedFail := (ep_failureMode p \<noteq> FailSoft)\<rparr>)"
  by (simp add: ep_ReportResult_def)

lemma ep_ReportResult_assertion [simp]:
  "ep_failureMode p = FailByAssertion \<Longrightarrow> ep_ReportResult False p = Inl AssertFailed"
  by (simp add: ep_ReportResult_def Let_def)

subsection \<open>The contract of a reader\<close>

text \<open>
  What \<^verbatim>\<open>Extract\<close> does to a range with contents \<open>dst\<close> when the bytes \<open>u\<close> are left: it reports whether they
  are enough, and fills the range from the front as far as they go.
\<close>

definition reader_outcome :: "byte list \<Rightarrow> byte list \<Rightarrow> 's \<Rightarrow> error_policy \<Rightarrow> (byte list \<times> 's \<times> error_policy) result" where
  "reader_outcome dst u s p =
     bindR (ep_ReportResult (length dst \<le> length u) p)
       (\<lambda>p'. Inr (take (length dst) u @ drop (length u) dst, s, p'))"

locale stream_source =
  fixes ok :: "'s \<Rightarrow> bool"
    and total :: "'s \<Rightarrow> byte list"
    and pos :: "'s \<Rightarrow> nat"
    and ext :: "byte list \<Rightarrow> 's \<Rightarrow> error_policy \<Rightarrow> (byte list \<times> 's \<times> error_policy) result"
    and extract_contiguous :: "nat \<Rightarrow> 's \<Rightarrow> byte list \<times> 's"
    and is_empty :: "'s \<Rightarrow> bool"
    and available :: "'s \<Rightarrow> nat"
  assumes pos_le: "ok s \<Longrightarrow> pos s \<le> length (total s)"
    and ext: "ok s \<Longrightarrow> \<exists>s'. (\<forall>p. ext dst s p = reader_outcome dst (drop (pos s) (total s)) s' p)
      \<and> ok s' \<and> total s' = total s \<and> pos s' = min (pos s + length dst) (length (total s))"
    and extract_contiguous: "ok s \<Longrightarrow> \<exists>k s'. extract_contiguous n s = (take k (drop (pos s) (total s)), s')
      \<and> k \<le> n \<and> pos s + k \<le> length (total s) \<and> (0 < n \<and> pos s < length (total s) \<longrightarrow> 0 < k)
      \<and> ok s' \<and> total s' = total s \<and> pos s' = pos s + k"
    and is_empty: "ok s \<Longrightarrow> is_empty s \<longleftrightarrow> pos s = length (total s)"
    and available: "ok s \<Longrightarrow> available s = length (total s) - pos s"

locale stream_reader = stream_source +
  fixes peek :: "'a \<Rightarrow> error_policy \<Rightarrow> (byte \<times> error_policy) result"
  assumes peek: "ok s \<Longrightarrow> pos s < length (total s) \<Longrightarrow>
      peek s p = bindR (ep_ReportResult True p) (\<lambda>p'. Inr (total s ! pos s, p'))"
    and peek_at_end: "ok s \<Longrightarrow> pos s = length (total s) \<Longrightarrow> ep_failureMode p = FailByAssertion \<Longrightarrow>
      peek s p = Inl AssertFailed"

locale stream_reader_with_rewinding = stream_reader +
  fixes save :: "'a \<Rightarrow> nat"
    and rewind :: "nat \<Rightarrow> 'a \<Rightarrow> 'a"
  assumes save: "ok s \<Longrightarrow> save s = pos s"
    and rewind: "ok s \<Longrightarrow> m \<le> pos s \<Longrightarrow> ok (rewind m s) \<and> total (rewind m s) = total s \<and> pos (rewind m s) = m"

text \<open>
  \<^verbatim>\<open>InputStream::Consume\<close>: skip an amount of bytes by extracting contiguous ranges until there are none; the
  result says what is reported.
\<close>

function is_Consume :: "(nat \<Rightarrow> 's \<Rightarrow> byte list \<times> 's) \<Rightarrow> nat \<Rightarrow> 's \<Rightarrow> bool \<times> 's" where
  "is_Consume ExtractContiguousRange amount s =
     (if 0 < amount
      then let (r, s') = ExtractContiguousRange amount s; reduced = length r
           in if reduced = 0 then (False, s') else is_Consume ExtractContiguousRange (amount - reduced) s'
      else (True, s))"
  by pat_completeness auto
termination by (relation "measure (\<lambda>(_, amount, _). amount)") auto

declare is_Consume.simps [simp del]

text \<open>Reading until the reader is empty, the way \<^verbatim>\<open>SesameWindowed\<close>, \<^verbatim>\<open>SesameCobs\<close> and \<^verbatim>\<open>BufferingStreamReader\<close> do.\<close>

fun drain :: "nat \<Rightarrow> (nat \<Rightarrow> 's \<Rightarrow> byte list \<times> 's) \<Rightarrow> ('s \<Rightarrow> bool) \<Rightarrow> nat \<Rightarrow> 's \<Rightarrow> (byte list list \<times> 's) option" where
  "drain 0 ec em m s = None"
| "drain (Suc fuel) ec em m s =
     (if em s then Some ([], s)
      else let (r, s') = ec m s in map_option (\<lambda>(rs, s''). (r # rs, s'')) (drain fuel ec em m s'))"

context stream_source
begin

definition unread :: "'s \<Rightarrow> byte list" where
  "unread s = drop (pos s) (total s)"

lemma ext_succeeds:
  assumes "ok s" and "length dst \<le> length (unread s)"
  shows "\<exists>s' p'. ext dst s p = Inr (take (length dst) (unread s), s', p') \<and> ok s'
    \<and> unread s' = drop (length dst) (unread s) \<and> ep_failed p' = ep_failed p"
  using ext [OF assms(1), of dst] pos_le [OF assms(1)] assms(2)
  by (auto simp: reader_outcome_def unread_def add.commute)

lemma ext_too_much_asserts:
  assumes "ok s" and "length (unread s) < length dst" and "ep_failureMode p = FailByAssertion"
  shows "ext dst s p = Inl AssertFailed"
  using ext [OF assms(1), of dst] assms by (auto simp: reader_outcome_def unread_def)

lemma consume_correct:
  "ok s \<Longrightarrow> \<exists>s'. is_Consume extract_contiguous n s = (n \<le> length (unread s), s') \<and> ok s' \<and> total s' = total s
    \<and> pos s' = min (pos s + n) (length (total s))"
proof (induction n arbitrary: s rule: less_induct)
  case (less n)
  note le = pos_le [OF less.prems]
  show ?case
  proof (cases "n = 0")
    case True
    then show ?thesis using less.prems le by (simp add: is_Consume.simps)
  next
    case False
    obtain k s1 where c: "extract_contiguous n s = (take k (drop (pos s) (total s)), s1)" "k \<le> n"
        "pos s + k \<le> length (total s)" "pos s < length (total s) \<longrightarrow> 0 < k"
        "ok s1" "total s1 = total s" "pos s1 = pos s + k"
      using extract_contiguous [OF less.prems, of n] False by auto
    have len: "length (take k (drop (pos s) (total s))) = k" using c(3) by auto
    show ?thesis
    proof (cases "k = 0")
      case True
      then show ?thesis using False c le len
        by (subst is_Consume.simps) (auto simp: unread_def)
    next
      case kpos: False
      have "is_Consume extract_contiguous n s = is_Consume extract_contiguous (n - k) s1"
        using False kpos len by (subst is_Consume.simps) (simp only: c(1) Let_def split_conv if_False if_True neq0_conv [symmetric] not_False_eq_True)
      with less.IH [of "n - k" s1] kpos False c show ?thesis
        by (auto simp: unread_def min_def)
    qed
  qed
qed

lemma drain_reads_all:
  assumes "0 < m" and "ok s" and "length (unread s) < fuel"
  shows "\<exists>rs s'. drain fuel extract_contiguous is_empty m s = Some (rs, s') \<and> concat rs = unread s
    \<and> ok s' \<and> total s' = total s \<and> pos s' = length (total s)"
  using assms(2,3)
proof (induction fuel arbitrary: s)
  case (Suc fuel)
  note le = pos_le [OF Suc.prems(1)]
  show ?case
  proof (cases "is_empty s")
    case True
    then show ?thesis using Suc.prems(1) is_empty [OF Suc.prems(1)] by (simp add: unread_def)
  next
    case False
    then have lt: "pos s < length (total s)" using is_empty [OF Suc.prems(1)] le by simp
    obtain k s1 where c: "extract_contiguous m s = (take k (unread s), s1)" "0 < k"
        "pos s + k \<le> length (total s)" "ok s1" "total s1 = total s" "pos s1 = pos s + k"
      using extract_contiguous [OF Suc.prems(1), of m] assms(1) lt by (auto simp: unread_def)
    have u: "unread s = take k (unread s) @ unread s1"
      using c(5,6) by (simp add: unread_def append_take_drop_id [symmetric] del: append_take_drop_id)
        (metis add.commute append_take_drop_id drop_drop)
    have "length (unread s1) < fuel" using Suc.prems(2) c(2,3,5,6) by (simp add: unread_def)
    from Suc.IH [OF c(4) this] obtain rs s' where
      "drain fuel extract_contiguous is_empty m s1 = Some (rs, s')" "concat rs = unread s1"
      "ok s'" "total s' = total s" "pos s' = length (total s)" using c(5) by auto
    then show ?thesis using False c(1) u by auto
  qed
qed simp

end

subsection \<open>ByteInputStreamReader\<close>

record byte_reader =
  br_range :: "byte list"
  br_offset :: nat

definition br_make :: "byte list \<Rightarrow> byte_reader" where
  "br_make r = \<lparr>br_range = r, br_offset = 0\<rparr>"

definition br_ResetRange :: "byte list \<Rightarrow> byte_reader \<Rightarrow> byte_reader" where
  "br_ResetRange newRange r = r\<lparr>br_range := newRange, br_offset := 0\<rparr>"

definition br_Processed :: "byte_reader \<Rightarrow> byte list" where
  "br_Processed r = take (br_offset r) (br_range r)"

definition br_Remaining :: "byte_reader \<Rightarrow> byte list" where
  "br_Remaining r = drop (br_offset r) (br_range r)"

definition br_Extract :: "byte list \<Rightarrow> byte_reader \<Rightarrow> error_policy \<Rightarrow> (byte list \<times> byte_reader \<times> error_policy) result" where
  "br_Extract dataRange r errorPolicy =
     (let remaining = length (br_range r) - br_offset r
      in bindR (ep_ReportResult (length dataRange \<le> remaining) errorPolicy)
        (\<lambda>p. let n = min (length dataRange) remaining
             in Inr (overwrite dataRange 0 (take n (drop (br_offset r) (br_range r))),
                     r\<lparr>br_offset := br_offset r + n\<rparr>, p)))"

text \<open>A byte is read also when none is left; unless the policy is to assert, that is past the end of the range.\<close>

definition br_Peek :: "byte_reader \<Rightarrow> error_policy \<Rightarrow> (byte \<times> error_policy) result" where
  "br_Peek r errorPolicy =
     bindR (ep_ReportResult (1 \<le> length (br_range r) - br_offset r) errorPolicy)
       (\<lambda>p. if br_offset r < length (br_range r) then Inr (br_range r ! br_offset r, p) else Inl UndefinedBehaviour)"

definition br_ExtractContiguousRange :: "nat \<Rightarrow> byte_reader \<Rightarrow> byte list \<times> byte_reader" where
  "br_ExtractContiguousRange m r =
     (let result = take m (drop (br_offset r) (br_range r))
      in (result, r\<lparr>br_offset := br_offset r + length result\<rparr>))"

definition br_PeekContiguousRange :: "nat \<Rightarrow> byte_reader \<Rightarrow> byte list" where
  "br_PeekContiguousRange start r = drop (br_offset r + start) (br_range r)"

definition br_Empty :: "byte_reader \<Rightarrow> bool" where
  "br_Empty r \<longleftrightarrow> br_offset r = length (br_range r)"

definition br_Available :: "byte_reader \<Rightarrow> nat" where
  "br_Available r = length (br_range r) - br_offset r"

definition br_ConstructSaveMarker :: "byte_reader \<Rightarrow> nat" where
  "br_ConstructSaveMarker r = br_offset r"

definition br_Rewind :: "nat \<Rightarrow> byte_reader \<Rightarrow> byte_reader" where
  "br_Rewind marker r = r\<lparr>br_offset := marker\<rparr>"

definition br_ok :: "byte_reader \<Rightarrow> bool" where
  "br_ok r \<longleftrightarrow> br_offset r \<le> length (br_range r)"

lemma fill_front:
  "overwrite dst 0 (take (min (length dst) (length u)) u) = take (length dst) u @ drop (length u) dst"
    "overwrite dst 0 (take (length dst) u) = take (length dst) u @ drop (length u) dst"
  by (auto simp: overwrite_def min_def not_le)

lemma min_step: "k \<le> n \<Longrightarrow> k + min a (n - k) = min (k + a) n"
    "k \<le> n \<Longrightarrow> k + min (n - k) (min a n) = min (k + a) n" for k n a :: nat
  by auto

interpretation br: stream_reader_with_rewinding br_ok br_range br_offset br_Extract
  br_ExtractContiguousRange br_Empty br_Available br_Peek br_ConstructSaveMarker br_Rewind
proof
  fix s dst p n
  assume s: "br_ok s"
  show "\<exists>s'. (\<forall>p. br_Extract dst s p = reader_outcome dst (drop (br_offset s) (br_range s)) s' p)
      \<and> br_ok s' \<and> br_range s' = br_range s \<and> br_offset s' = min (br_offset s + length dst) (length (br_range s))"
    using s fill_front(1) [of dst "drop (br_offset s) (br_range s)"]
    by (intro exI [of _ "s\<lparr>br_offset := br_offset s + min (length dst) (length (br_range s) - br_offset s)\<rparr>"])
      (simp add: br_Extract_def reader_outcome_def br_ok_def Let_def min_step)
  show "\<exists>k s'. br_ExtractContiguousRange n s = (take k (drop (br_offset s) (br_range s)), s')
      \<and> k \<le> n \<and> br_offset s + k \<le> length (br_range s) \<and> (0 < n \<and> br_offset s < length (br_range s) \<longrightarrow> 0 < k)
      \<and> br_ok s' \<and> br_range s' = br_range s \<and> br_offset s' = br_offset s + k"
    using s by (intro exI [of _ "min n (length (br_range s) - br_offset s)"])
      (auto simp: br_ExtractContiguousRange_def Let_def br_ok_def min_def)
qed (auto simp: br_ok_def Suc_le_eq br_Peek_def br_Empty_def br_Available_def br_ConstructSaveMarker_def br_Rewind_def)

subsection \<open>StringInputStreamReader\<close>

text \<open>The reader over a string; characters are bytes.\<close>

record string_reader =
  sr_string :: "byte list"
  sr_offset :: nat

definition sr_make :: "byte list \<Rightarrow> string_reader" where
  "sr_make string = \<lparr>sr_string = string, sr_offset = 0\<rparr>"

definition sr_Extract :: "byte list \<Rightarrow> string_reader \<Rightarrow> error_policy \<Rightarrow> (byte list \<times> string_reader \<times> error_policy) result" where
  "sr_Extract dataRange r errorPolicy =
     bindR (ep_ReportResult (sr_offset r + length dataRange \<le> length (sr_string r)) errorPolicy)
       (\<lambda>p. let n = min (length dataRange) (length (sr_string r) - sr_offset r)
            in Inr (overwrite dataRange 0 (take n (drop (sr_offset r) (sr_string r))),
                    r\<lparr>sr_offset := sr_offset r + n\<rparr>, p))"

definition sr_Peek :: "string_reader \<Rightarrow> error_policy \<Rightarrow> (byte \<times> error_policy) result" where
  "sr_Peek r errorPolicy =
     (if sr_offset r = length (sr_string r)
      then bindR (ep_ReportResult False errorPolicy) (\<lambda>p. Inr (0, p))
      else bindR (ep_ReportResult True errorPolicy) (\<lambda>p. Inr (sr_string r ! sr_offset r, p)))"

definition sr_ExtractContiguousRange :: "nat \<Rightarrow> string_reader \<Rightarrow> byte list \<times> string_reader" where
  "sr_ExtractContiguousRange m r =
     (let result = take m (drop (sr_offset r) (sr_string r))
      in (result, r\<lparr>sr_offset := sr_offset r + length result\<rparr>))"

definition sr_PeekContiguousRange :: "nat \<Rightarrow> string_reader \<Rightarrow> byte list" where
  "sr_PeekContiguousRange start r = drop (sr_offset r + start) (sr_string r)"

definition sr_Empty :: "string_reader \<Rightarrow> bool" where
  "sr_Empty r \<longleftrightarrow> sr_offset r = length (sr_string r)"

definition sr_Available :: "string_reader \<Rightarrow> nat" where
  "sr_Available r = length (sr_string r) - sr_offset r"

definition sr_ConstructSaveMarker :: "string_reader \<Rightarrow> nat" where
  "sr_ConstructSaveMarker r = sr_offset r"

definition sr_Rewind :: "nat \<Rightarrow> string_reader \<Rightarrow> string_reader" where
  "sr_Rewind marker r = r\<lparr>sr_offset := marker\<rparr>"

definition sr_ok :: "string_reader \<Rightarrow> bool" where
  "sr_ok r \<longleftrightarrow> sr_offset r \<le> length (sr_string r)"

interpretation sr: stream_reader_with_rewinding sr_ok sr_string sr_offset sr_Extract
  sr_ExtractContiguousRange sr_Empty sr_Available sr_Peek sr_ConstructSaveMarker sr_Rewind
proof
  fix s dst p n
  assume s: "sr_ok s"
  show "\<exists>s'. (\<forall>p. sr_Extract dst s p = reader_outcome dst (drop (sr_offset s) (sr_string s)) s' p)
      \<and> sr_ok s' \<and> sr_string s' = sr_string s \<and> sr_offset s' = min (sr_offset s + length dst) (length (sr_string s))"
    using s fill_front(1) [of dst "drop (sr_offset s) (sr_string s)"]
    by (intro exI [of _ "s\<lparr>sr_offset := sr_offset s + min (length dst) (length (sr_string s) - sr_offset s)\<rparr>"])
      (simp add: sr_Extract_def reader_outcome_def sr_ok_def Let_def min_step le_diff_conv2 add.commute)
  show "\<exists>k s'. sr_ExtractContiguousRange n s = (take k (drop (sr_offset s) (sr_string s)), s')
      \<and> k \<le> n \<and> sr_offset s + k \<le> length (sr_string s) \<and> (0 < n \<and> sr_offset s < length (sr_string s) \<longrightarrow> 0 < k)
      \<and> sr_ok s' \<and> sr_string s' = sr_string s \<and> sr_offset s' = sr_offset s + k"
    using s by (intro exI [of _ "min n (length (sr_string s) - sr_offset s)"])
      (auto simp: sr_ExtractContiguousRange_def Let_def sr_ok_def min_def)
qed (auto simp: sr_ok_def sr_Peek_def sr_Empty_def sr_Available_def sr_ConstructSaveMarker_def sr_Rewind_def)

subsection \<open>BoundedVectorInputStreamReader\<close>

record vector_reader =
  vr_container :: "byte bounded_vector"
  vr_offset :: nat

definition vr_make :: "byte bounded_vector \<Rightarrow> vector_reader" where
  "vr_make container = \<lparr>vr_container = container, vr_offset = 0\<rparr>"

definition vr_PeekContiguousRange :: "nat \<Rightarrow> vector_reader \<Rightarrow> byte list" where
  "vr_PeekContiguousRange start r = drop (vr_offset r + start) (bv_list (vr_container r))"

definition vr_Extract :: "byte list \<Rightarrow> vector_reader \<Rightarrow> error_policy \<Rightarrow> (byte list \<times> vector_reader \<times> error_policy) result" where
  "vr_Extract dataRange r errorPolicy =
     bindR (ep_ReportResult (length dataRange \<le> bv_size (vr_container r) - vr_offset r) errorPolicy)
       (\<lambda>p. let n = min (length dataRange) (bv_size (vr_container r));
                from = take n (vr_PeekContiguousRange 0 r)
            in Inr (overwrite dataRange 0 from, r\<lparr>vr_offset := vr_offset r + length from\<rparr>, p))"

definition vr_Empty :: "vector_reader \<Rightarrow> bool" where
  "vr_Empty r \<longleftrightarrow> vr_offset r = bv_size (vr_container r)"

definition vr_Peek :: "vector_reader \<Rightarrow> error_policy \<Rightarrow> (byte \<times> error_policy) result" where
  "vr_Peek r errorPolicy =
     bindR (ep_ReportResult (\<not> vr_Empty r) errorPolicy)
       (\<lambda>p. if \<not> vr_Empty r then bindR (bv_index (vr_offset r) (vr_container r)) (\<lambda>x. Inr (x, p)) else Inr (0, p))"

definition vr_ExtractContiguousRange :: "nat \<Rightarrow> vector_reader \<Rightarrow> byte list \<times> vector_reader" where
  "vr_ExtractContiguousRange m r =
     (let result = take m (vr_PeekContiguousRange 0 r)
      in (result, r\<lparr>vr_offset := vr_offset r + length result\<rparr>))"

definition vr_Available :: "vector_reader \<Rightarrow> nat" where
  "vr_Available r = bv_size (vr_container r) - vr_offset r"

definition vr_ConstructSaveMarker :: "vector_reader \<Rightarrow> nat" where
  "vr_ConstructSaveMarker r = vr_offset r"

definition vr_Rewind :: "nat \<Rightarrow> vector_reader \<Rightarrow> vector_reader" where
  "vr_Rewind marker r = r\<lparr>vr_offset := marker\<rparr>"

definition vr_ok :: "vector_reader \<Rightarrow> bool" where
  "vr_ok r \<longleftrightarrow> bv_inv (vr_container r) \<and> vr_offset r \<le> bv_size (vr_container r)"

definition vr_bytes :: "vector_reader \<Rightarrow> byte list" where
  "vr_bytes r = bv_list (vr_container r)"

lemma length_vr_bytes: "vr_ok r \<Longrightarrow> length (vr_bytes r) = bv_size (vr_container r)"
  by (simp add: vr_ok_def vr_bytes_def)

lemma take_min_drop: "take (min a n) (drop k xs) = take (min a (length xs - k)) (drop k xs)" if "length xs = n"
  using that by (auto simp: min_def)

interpretation vr: stream_reader_with_rewinding vr_ok vr_bytes vr_offset vr_Extract
  vr_ExtractContiguousRange vr_Empty vr_Available vr_Peek vr_ConstructSaveMarker vr_Rewind
proof
  fix s dst p n m
  assume s: "vr_ok s"
  note len = length_vr_bytes [OF s]
  have off: "vr_offset s \<le> length (vr_bytes s)" using s len by (simp add: vr_ok_def)
  then show "vr_offset s \<le> length (vr_bytes s)" .
  show "\<exists>s'. (\<forall>p. vr_Extract dst s p = reader_outcome dst (drop (vr_offset s) (vr_bytes s)) s' p)
      \<and> vr_ok s' \<and> vr_bytes s' = vr_bytes s \<and> vr_offset s' = min (vr_offset s + length dst) (length (vr_bytes s))"
    using s len off fill_front(1) [of dst "drop (vr_offset s) (vr_bytes s)"]
    by (intro exI [of _ "s\<lparr>vr_offset := vr_offset s + min (length dst) (length (vr_bytes s) - vr_offset s)\<rparr>"])
      (simp add: vr_Extract_def vr_PeekContiguousRange_def reader_outcome_def vr_ok_def Let_def min_step vr_bytes_def [symmetric]
        take_min_drop, simp add: vr_bytes_def min_step)
  show "\<exists>k s'. vr_ExtractContiguousRange n s = (take k (drop (vr_offset s) (vr_bytes s)), s')
      \<and> k \<le> n \<and> vr_offset s + k \<le> length (vr_bytes s) \<and> (0 < n \<and> vr_offset s < length (vr_bytes s) \<longrightarrow> 0 < k)
      \<and> vr_ok s' \<and> vr_bytes s' = vr_bytes s \<and> vr_offset s' = vr_offset s + k"
    using s len off by (intro exI [of _ "min n (length (vr_bytes s) - vr_offset s)"])
      (auto simp: vr_ExtractContiguousRange_def vr_PeekContiguousRange_def Let_def vr_ok_def min_def vr_bytes_def)
  show "vr_Empty s = (vr_offset s = length (vr_bytes s))" "vr_Available s = length (vr_bytes s) - vr_offset s"
    using len by (simp_all add: vr_Empty_def vr_Available_def)
  show "vr_Peek s p = bindR (ep_ReportResult True p) (\<lambda>p'. Inr (vr_bytes s ! vr_offset s, p'))"
    if "vr_offset s < length (vr_bytes s)"
    using that s len by (simp add: vr_Peek_def vr_Empty_def vr_ok_def vr_bytes_def bv_index_correct)
  show "vr_Peek s p = Inl AssertFailed" if "vr_offset s = length (vr_bytes s)" "ep_failureMode p = FailByAssertion"
    using that len by (simp add: vr_Peek_def vr_Empty_def)
  show "vr_ConstructSaveMarker s = vr_offset s" by (simp add: vr_ConstructSaveMarker_def)
  show "vr_ok (vr_Rewind m s) \<and> vr_bytes (vr_Rewind m s) = vr_bytes s \<and> vr_offset (vr_Rewind m s) = m"
    if "m \<le> vr_offset s"
    using that s by (auto simp: vr_Rewind_def vr_ok_def vr_bytes_def)
qed

subsection \<open>BoundedDequeInputStreamReader\<close>

record deque_reader =
  dr_container :: "byte bounded_deque"
  dr_offset :: nat

definition dr_make :: "byte bounded_deque \<Rightarrow> deque_reader" where
  "dr_make container = \<lparr>dr_container = container, dr_offset = 0\<rparr>"

definition dr_PeekContiguousRange :: "nat \<Rightarrow> deque_reader \<Rightarrow> byte list" where
  "dr_PeekContiguousRange start r = bd_slots (bd_contiguous_range (dr_offset r + start) (dr_container r)) (dr_container r)"

text \<open>
  The loop of \<^verbatim>\<open>Extract\<close>, which fills the range piece by piece; \<open>n\<close> bytes are still to be filled. A position
  before the end of the deque has a range that is not empty (\<open>bd_contiguous_range_prefix\<close>), so the
  test for an empty piece, with which the recursion is well founded, is never met.
\<close>

function dr_fill :: "nat \<Rightarrow> deque_reader \<Rightarrow> byte list \<times> deque_reader" where
  "dr_fill n r =
     (if n \<noteq> 0 \<and> bd_size (dr_container r) \<noteq> dr_offset r
      then let from = take n (dr_PeekContiguousRange 0 r)
           in if from = [] then ([], r)
              else let (rest, r') = dr_fill (n - length from) (r\<lparr>dr_offset := dr_offset r + length from\<rparr>)
                   in (from @ rest, r')
      else ([], r))"
  by pat_completeness auto
termination by (relation "measure fst") (auto simp: length_greater_0_conv [symmetric] simp del: length_greater_0_conv)

declare dr_fill.simps [simp del]

definition dr_Extract :: "byte list \<Rightarrow> deque_reader \<Rightarrow> error_policy \<Rightarrow> (byte list \<times> deque_reader \<times> error_policy) result" where
  "dr_Extract dataRange r errorPolicy =
     bindR (ep_ReportResult (length dataRange \<le> bd_size (dr_container r) - dr_offset r) errorPolicy)
       (\<lambda>p. let (bytes, r') = dr_fill (length dataRange) r in Inr (overwrite dataRange 0 bytes, r', p))"

definition dr_Peek :: "deque_reader \<Rightarrow> error_policy \<Rightarrow> (byte \<times> error_policy) result" where
  "dr_Peek r errorPolicy = bindR (dr_Extract [0] r errorPolicy) (\<lambda>(element, r', p). Inr (hd element, p))"

definition dr_ExtractContiguousRange :: "nat \<Rightarrow> deque_reader \<Rightarrow> byte list \<times> deque_reader" where
  "dr_ExtractContiguousRange m r =
     (let result = take m (dr_PeekContiguousRange 0 r)
      in (result, r\<lparr>dr_offset := dr_offset r + length result\<rparr>))"

definition dr_Empty :: "deque_reader \<Rightarrow> bool" where
  "dr_Empty r \<longleftrightarrow> dr_offset r = bd_size (dr_container r)"

definition dr_Available :: "deque_reader \<Rightarrow> nat" where
  "dr_Available r = bd_size (dr_container r) - dr_offset r"

definition dr_ConstructSaveMarker :: "deque_reader \<Rightarrow> nat" where
  "dr_ConstructSaveMarker r = dr_offset r"

definition dr_Rewind :: "nat \<Rightarrow> deque_reader \<Rightarrow> deque_reader" where
  "dr_Rewind marker r = r\<lparr>dr_offset := marker\<rparr>"

definition dr_ok :: "deque_reader \<Rightarrow> bool" where
  "dr_ok r \<longleftrightarrow> bd_inv (dr_container r) \<and> dr_offset r \<le> bd_size (dr_container r)"

definition dr_bytes :: "deque_reader \<Rightarrow> byte list" where
  "dr_bytes r = bd_list (dr_container r)"

lemma length_dr_bytes: "dr_ok r \<Longrightarrow> length (dr_bytes r) = bd_size (dr_container r)"
  by (simp add: dr_ok_def dr_bytes_def)

lemma bd_contiguous_range_at_end_empty: "bd_slots (bd_contiguous_range (bd_size b) b) b = []"
  by (simp add: bd_slots_def bd_contiguous_range_def bd_size_def Let_def min_def)

lemma dr_PeekContiguousRange_prefix:
  assumes "dr_ok r" and "i \<le> length (dr_bytes r) - dr_offset r"
  shows "\<exists>k. dr_PeekContiguousRange i r = take k (drop (dr_offset r + i) (dr_bytes r))
    \<and> k \<le> length (dr_bytes r) - (dr_offset r + i) \<and> (dr_offset r + i < length (dr_bytes r) \<longrightarrow> 0 < k)"
proof (cases "dr_offset r + i < bd_size (dr_container r)")
  case True
  then obtain k where "0 < k" "dr_PeekContiguousRange i r = take k (drop (dr_offset r + i) (dr_bytes r))"
    using bd_contiguous_range_prefix [of "dr_container r" "dr_offset r + i"] assms(1)
    by (auto simp: dr_PeekContiguousRange_def dr_bytes_def dr_ok_def)
  then show ?thesis using True assms(1) length_dr_bytes [OF assms(1)]
    by (intro exI [of _ "min k (length (dr_bytes r) - (dr_offset r + i))"]) (auto simp: min_def)
next
  case False
  then have "dr_offset r + i = bd_size (dr_container r)"
    using assms length_dr_bytes [OF assms(1)] by (auto simp: dr_ok_def)
  then show ?thesis using length_dr_bytes [OF assms(1)]
    by (simp add: dr_PeekContiguousRange_def bd_contiguous_range_at_end_empty)
qed

lemma dr_fill_correct:
  "dr_ok r \<Longrightarrow> dr_fill n r = (take n (drop (dr_offset r) (dr_bytes r)),
    r\<lparr>dr_offset := min (dr_offset r + n) (length (dr_bytes r))\<rparr>)"
proof (induction n arbitrary: r rule: less_induct)
  case (less n)
  note len = length_dr_bytes [OF less.prems]
  have off: "dr_offset r \<le> length (dr_bytes r)" using less.prems len by (simp add: dr_ok_def)
  show ?case
  proof (cases "n = 0 \<or> dr_offset r = length (dr_bytes r)")
    case True
    then show ?thesis using len off by (subst dr_fill.simps) auto
  next
    case False
    obtain k where k: "dr_PeekContiguousRange 0 r = take k (drop (dr_offset r) (dr_bytes r))"
        "k \<le> length (dr_bytes r) - dr_offset r" "0 < k"
      using dr_PeekContiguousRange_prefix [OF less.prems, of 0] False off by auto
    define f where "f = take n (dr_PeekContiguousRange 0 r)"
    let ?r = "r\<lparr>dr_offset := dr_offset r + length f\<rparr>"
    have f: "f = take (min n k) (drop (dr_offset r) (dr_bytes r))" "length f = min n k" "f \<noteq> []"
      using k False by (auto simp: f_def)
    have r: "dr_ok ?r" "dr_bytes ?r = dr_bytes r"
      using less.prems f(2) k(2) len by (auto simp: dr_ok_def dr_bytes_def)
    have "dr_fill n r = (let (rest, r') = dr_fill (n - length f) ?r in (f @ rest, r'))"
      using False f(3) len by (subst dr_fill.simps) (simp add: f_def [symmetric] Let_def)
    also have "\<dots> = (f @ take (n - length f) (drop (dr_offset r + length f) (dr_bytes r)),
        r\<lparr>dr_offset := min (dr_offset r + n) (length (dr_bytes r))\<rparr>)"
      using less.IH [of "n - length f" ?r] r False f(2) k(3) by simp
    also have "f @ take (n - length f) (drop (dr_offset r + length f) (dr_bytes r)) = take n (drop (dr_offset r) (dr_bytes r))"
      using f(1) f(2) take_add [of "min n k" "n - min n k" "drop (dr_offset r) (dr_bytes r)"]
      by (simp add: add.commute)
    finally show ?thesis .
  qed
qed

interpretation dr: stream_reader_with_rewinding dr_ok dr_bytes dr_offset dr_Extract
  dr_ExtractContiguousRange dr_Empty dr_Available dr_Peek dr_ConstructSaveMarker dr_Rewind
proof
  fix s dst p n m
  assume s: "dr_ok s"
  note len = length_dr_bytes [OF s]
  have off: "dr_offset s \<le> length (dr_bytes s)" using s len by (simp add: dr_ok_def)
  then show "dr_offset s \<le> length (dr_bytes s)" .
  have ext: "dr_Extract dst s p = reader_outcome dst (drop (dr_offset s) (dr_bytes s))
      (s\<lparr>dr_offset := min (dr_offset s + length dst) (length (dr_bytes s))\<rparr>) p" for dst p
    using fill_front(2) [of dst "drop (dr_offset s) (dr_bytes s)"] len
    by (simp add: dr_Extract_def dr_fill_correct [OF s] reader_outcome_def)
  then show "\<exists>s'. (\<forall>p. dr_Extract dst s p = reader_outcome dst (drop (dr_offset s) (dr_bytes s)) s' p)
      \<and> dr_ok s' \<and> dr_bytes s' = dr_bytes s \<and> dr_offset s' = min (dr_offset s + length dst) (length (dr_bytes s))"
    using s len by (auto simp: dr_ok_def dr_bytes_def)
  show "dr_Peek s p = bindR (ep_ReportResult True p) (\<lambda>p'. Inr (dr_bytes s ! dr_offset s, p'))"
    if "dr_offset s < length (dr_bytes s)"
    using that by (simp add: dr_Peek_def ext reader_outcome_def hd_drop_conv_nth take_Suc Suc_le_eq hd_append)
  show "dr_Peek s p = Inl AssertFailed" if "dr_offset s = length (dr_bytes s)" "ep_failureMode p = FailByAssertion"
    using that by (simp add: dr_Peek_def ext reader_outcome_def)
  obtain k where k: "dr_PeekContiguousRange 0 s = take k (drop (dr_offset s) (dr_bytes s))"
      "k \<le> length (dr_bytes s) - dr_offset s" "dr_offset s < length (dr_bytes s) \<longrightarrow> 0 < k"
    using dr_PeekContiguousRange_prefix [OF s, of 0] by auto
  show "\<exists>k s'. dr_ExtractContiguousRange n s = (take k (drop (dr_offset s) (dr_bytes s)), s')
      \<and> k \<le> n \<and> dr_offset s + k \<le> length (dr_bytes s) \<and> (0 < n \<and> dr_offset s < length (dr_bytes s) \<longrightarrow> 0 < k)
      \<and> dr_ok s' \<and> dr_bytes s' = dr_bytes s \<and> dr_offset s' = dr_offset s + k"
    using s len off k by (intro exI [of _ "min n k"])
      (auto simp: dr_ExtractContiguousRange_def Let_def dr_ok_def min_def dr_bytes_def)
  show "dr_Empty s = (dr_offset s = length (dr_bytes s))" "dr_Available s = length (dr_bytes s) - dr_offset s"
    using len by (simp_all add: dr_Empty_def dr_Available_def)
  show "dr_ConstructSaveMarker s = dr_offset s" by (simp add: dr_ConstructSaveMarker_def)
  show "dr_ok (dr_Rewind m s) \<and> dr_bytes (dr_Rewind m s) = dr_bytes s \<and> dr_offset (dr_Rewind m s) = m"
    if "m \<le> dr_offset s"
    using that s by (auto simp: dr_Rewind_def dr_ok_def dr_bytes_def)
qed

end
