(* ===== verification/Stream_Wrappers.thy ===== *)
theory Stream_Wrappers
  imports Stream_Readers
begin

section \<open>Readers around readers: infra/stream\<close>

text \<open>
  \<^verbatim>\<open>LimitedStreamReader\<close> cuts a reader off after a number of bytes, \<^verbatim>\<open>CountingStreamReader\<close> counts what is read
  and \<^verbatim>\<open>BufferingStreamReader\<close> puts the bytes of a deque in front. Their operations take those of the
  wrapped reader as arguments. Inside the contracts of \<open>Stream_Readers\<close> the wrapped reader is any
  reader; the lemmas there say that the wrapper meets the contract too, so wrappers can be stacked.
\<close>

subsection \<open>LimitedStreamReader\<close>

record 's limited_reader =
  lr_input :: 's
  lr_length :: nat

definition lr_make :: "'s \<Rightarrow> nat \<Rightarrow> 's limited_reader" where
  "lr_make input n = \<lparr>lr_input = input, lr_length = n\<rparr>"

definition lr_ResetLength :: "nat \<Rightarrow> 's limited_reader \<Rightarrow> 's limited_reader" where
  "lr_ResetLength newLength r = r\<lparr>lr_length := newLength\<rparr>"

definition lr_Extract ::
  "(byte list \<Rightarrow> 's \<Rightarrow> error_policy \<Rightarrow> (byte list \<times> 's \<times> error_policy) result) \<Rightarrow>
   byte list \<Rightarrow> 's limited_reader \<Rightarrow> error_policy \<Rightarrow> (byte list \<times> 's limited_reader \<times> error_policy) result" where
  "lr_Extract Extract dst r errorPolicy =
     bindR (ep_ReportResult (length dst \<le> lr_length r) errorPolicy)
       (\<lambda>p. let part = take (lr_length r) dst
            in bindR (Extract part (lr_input r) p)
              (\<lambda>(part', input', p'). Inr (part' @ drop (lr_length r) dst,
                 r\<lparr>lr_length := lr_length r - length part, lr_input := input'\<rparr>, p')))"

definition lr_Peek ::
  "('s \<Rightarrow> error_policy \<Rightarrow> (byte \<times> error_policy) result) \<Rightarrow> 's limited_reader \<Rightarrow> error_policy \<Rightarrow> (byte \<times> error_policy) result" where
  "lr_Peek Peek r errorPolicy =
     bindR (ep_ReportResult (lr_length r \<noteq> 0) errorPolicy)
       (\<lambda>p. if lr_length r \<noteq> 0 then Peek (lr_input r) p else Inr (0, p))"

definition lr_ExtractContiguousRange ::
  "(nat \<Rightarrow> 's \<Rightarrow> byte list \<times> 's) \<Rightarrow> nat \<Rightarrow> 's limited_reader \<Rightarrow> byte list \<times> 's limited_reader" where
  "lr_ExtractContiguousRange ExtractContiguousRange m r =
     (let (result, input') = ExtractContiguousRange (min (lr_length r) m) (lr_input r)
      in (result, r\<lparr>lr_length := lr_length r - length result, lr_input := input'\<rparr>))"

definition lr_PeekContiguousRange :: "(nat \<Rightarrow> 's \<Rightarrow> byte list) \<Rightarrow> nat \<Rightarrow> 's limited_reader \<Rightarrow> byte list" where
  "lr_PeekContiguousRange PeekContiguousRange start r = PeekContiguousRange start (lr_input r)"

definition lr_Empty :: "('s \<Rightarrow> bool) \<Rightarrow> 's limited_reader \<Rightarrow> bool" where
  "lr_Empty Empty r \<longleftrightarrow> lr_length r = 0 \<or> Empty (lr_input r)"

text \<open>\<^verbatim>\<open>std::min<uint32_t>\<close> converts what is available to 32 bits.\<close>

definition lr_Available :: "('s \<Rightarrow> nat) \<Rightarrow> 's limited_reader \<Rightarrow> nat" where
  "lr_Available Available r = min (lr_length r) (Available (lr_input r) mod 2 ^ 32)"

subsection \<open>LimitedStreamReaderWithRewinding\<close>

text \<open>
  Its operations other than \<^verbatim>\<open>Available\<close> and \<^verbatim>\<open>Rewind\<close> have the text of those of \<^verbatim>\<open>LimitedStreamReader\<close>. The
  length is a 32 bit number.
\<close>

definition lrw_LimitReached :: "'s limited_reader \<Rightarrow> bool" where
  "lrw_LimitReached r \<longleftrightarrow> lr_length r = 0"

definition lrw_SwitchInput :: "'s \<Rightarrow> 's limited_reader \<Rightarrow> 's limited_reader" where
  "lrw_SwitchInput newInput r = r\<lparr>lr_input := newInput\<rparr>"

definition lrw_Extract ::
  "(byte list \<Rightarrow> 's \<Rightarrow> error_policy \<Rightarrow> (byte list \<times> 's \<times> error_policy) result) \<Rightarrow>
   byte list \<Rightarrow> 's limited_reader \<Rightarrow> error_policy \<Rightarrow> (byte list \<times> 's limited_reader \<times> error_policy) result" where
  "lrw_Extract Extract dst r errorPolicy = lr_Extract Extract dst r errorPolicy"

definition lrw_Peek ::
  "('s \<Rightarrow> error_policy \<Rightarrow> (byte \<times> error_policy) result) \<Rightarrow> 's limited_reader \<Rightarrow> error_policy \<Rightarrow> (byte \<times> error_policy) result" where
  "lrw_Peek Peek r errorPolicy = lr_Peek Peek r errorPolicy"

definition lrw_ExtractContiguousRange ::
  "(nat \<Rightarrow> 's \<Rightarrow> byte list \<times> 's) \<Rightarrow> nat \<Rightarrow> 's limited_reader \<Rightarrow> byte list \<times> 's limited_reader" where
  "lrw_ExtractContiguousRange ExtractContiguousRange m r = lr_ExtractContiguousRange ExtractContiguousRange m r"

definition lrw_Available :: "('s \<Rightarrow> nat) \<Rightarrow> 's limited_reader \<Rightarrow> nat" where
  "lrw_Available Available r = min (lr_length r) (Available (lr_input r))"

definition lrw_ConstructSaveMarker :: "('s \<Rightarrow> nat) \<Rightarrow> 's limited_reader \<Rightarrow> nat" where
  "lrw_ConstructSaveMarker ConstructSaveMarker r = ConstructSaveMarker (lr_input r)"

definition lrw_Rewind :: "('s \<Rightarrow> nat) \<Rightarrow> (nat \<Rightarrow> 's \<Rightarrow> 's) \<Rightarrow> nat \<Rightarrow> 's limited_reader \<Rightarrow> 's limited_reader" where
  "lrw_Rewind ConstructSaveMarker Rewind marker r =
     (let now = ConstructSaveMarker (lr_input r); r1 = r\<lparr>lr_input := Rewind marker (lr_input r)\<rparr>
      in r1\<lparr>lr_length := nat ((int (lr_length r1) + (int now - int marker)) mod 2 ^ 32)\<rparr>)"

text \<open>What a limited reader reads: the bytes of its input up to the limit.\<close>

definition lr_bytes :: "('s \<Rightarrow> byte list) \<Rightarrow> ('s \<Rightarrow> nat) \<Rightarrow> 's limited_reader \<Rightarrow> byte list" where
  "lr_bytes tot pos r = take (pos (lr_input r) + lr_length r) (tot (lr_input r))"

definition lr_pos :: "('s \<Rightarrow> nat) \<Rightarrow> 's limited_reader \<Rightarrow> nat" where
  "lr_pos pos r = pos (lr_input r)"

definition lr_ok :: "('s \<Rightarrow> bool) \<Rightarrow> ('s \<Rightarrow> byte list) \<Rightarrow> ('s \<Rightarrow> nat) \<Rightarrow> 's limited_reader \<Rightarrow> bool" where
  "lr_ok ok tot pos r \<longleftrightarrow> ok (lr_input r) \<and> length (tot (lr_input r)) < 2 ^ 32 \<and> pos (lr_input r) + lr_length r < 2 ^ 32"

lemma reader_outcome_limited:
  assumes "length u' = min n (length u)" and "u' = take n u"
  shows "bindR (ep_ReportResult (length dst \<le> n) p)
      (\<lambda>p. bindR (reader_outcome (take n dst) u s' p) (\<lambda>(part', i, p'). Inr (part' @ drop n dst, f i, p')))
    = reader_outcome dst u' (f s') p"
proof -
  have eq: "(length dst \<le> n \<and> length (take n dst) \<le> length u) = (length dst \<le> length u')"
    using assms(1) by auto
  have "drop (length u) (take n dst) @ drop n dst = drop (length u) dst" if "length u \<le> n"
    using that append_take_drop_id [of "n - length u" "drop (length u) dst"] by (simp add: drop_take)
  then have "(take (length (take n dst)) u @ drop (length u) (take n dst)) @ drop n dst
      = take (length dst) u' @ drop (length u') dst"
    using assms by (cases "n \<le> length u"; cases "length dst \<le> n") simp_all
  then show ?thesis
    unfolding reader_outcome_def bindR_assoc ep_ReportResult_bind eq by simp
qed

context stream_reader
begin

lemma limited_reader:
  "stream_reader (lr_ok ok total pos) (lr_bytes total pos) (lr_pos pos) (lr_Extract ext)
    (lr_ExtractContiguousRange extract_contiguous) (lr_Empty is_empty) (lr_Available available) (lr_Peek peek)"
proof
  fix s :: "'a limited_reader" and dst p n
  assume s: "lr_ok ok total pos s"
  let ?i = "lr_input s" and ?n = "lr_length s" and ?b = "lr_bytes total pos"
  have i: "ok ?i" "length (total ?i) < 2 ^ 32" "pos ?i + ?n < 2 ^ 32" using s by (simp_all add: lr_ok_def)
  note le = pos_le [OF i(1)]
  have len: "length (?b s) = min (pos ?i + ?n) (length (total ?i))" by (simp add: lr_bytes_def)
  have rest: "drop (pos ?i) (?b s) = take ?n (drop (pos ?i) (total ?i))" by (simp add: lr_bytes_def drop_take)
  show "lr_pos pos s \<le> length (?b s)" using le by (simp add: lr_pos_def len)
  obtain i' where i': "\<And>p. ext (take ?n dst) ?i p = reader_outcome (take ?n dst) (drop (pos ?i) (total ?i)) i' p"
      "ok i'" "total i' = total ?i" "pos i' = min (pos ?i + min (length dst) ?n) (length (total ?i))"
    using ext [OF i(1), of "take ?n dst"] by (auto simp: min.commute)
  let ?s = "s\<lparr>lr_length := ?n - min (length dst) ?n, lr_input := i'\<rparr>"
  have "lr_Extract ext dst s p = reader_outcome dst (drop (pos ?i) (?b s)) ?s p" for p
    unfolding lr_Extract_def Let_def i'(1) length_take rest
    by (subst reader_outcome_limited [symmetric]) (simp_all add: min.commute)
  moreover have "?b ?s = ?b s"
    using i'(3,4) le by (auto simp: lr_bytes_def min_def)
  ultimately show "\<exists>s'. (\<forall>p. lr_Extract ext dst s p = reader_outcome dst (drop (lr_pos pos s) (?b s)) s' p)
      \<and> lr_ok ok total pos s' \<and> ?b s' = ?b s \<and> lr_pos pos s' = min (lr_pos pos s + length dst) (length (?b s))"
    using i i' by (intro exI [of _ ?s]) (auto simp: lr_pos_def lr_ok_def len min_def)
  show "lr_Peek peek s p = bindR (ep_ReportResult True p) (\<lambda>p'. Inr (?b s ! lr_pos pos s, p'))"
    if "lr_pos pos s < length (?b s)" for p
    using that peek [OF i(1)] by (simp add: lr_Peek_def lr_pos_def lr_bytes_def)
  show "lr_Peek peek s p = Inl AssertFailed"
    if "lr_pos pos s = length (?b s)" "ep_failureMode p = FailByAssertion" for p
    using that peek_at_end [OF i(1)] by (cases "?n = 0") (simp_all add: lr_Peek_def lr_pos_def lr_bytes_def min_def split: if_splits)
  obtain k j where k: "extract_contiguous (min ?n n) ?i = (take k (drop (pos ?i) (total ?i)), j)"
      "k \<le> min ?n n" "pos ?i + k \<le> length (total ?i)" "0 < min ?n n \<and> pos ?i < length (total ?i) \<longrightarrow> 0 < k"
      "ok j" "total j = total ?i" "pos j = pos ?i + k"
    using extract_contiguous [OF i(1), of "min ?n n"] by blast
  let ?t = "s\<lparr>lr_length := ?n - k, lr_input := j\<rparr>"
  have t: "?b ?t = ?b s" "length (take k (drop (pos ?i) (total ?i))) = k" "take k (take ?n (drop (pos ?i) (total ?i))) = take k (drop (pos ?i) (total ?i))"
    using k(2) k(3,6,7) by (auto simp: lr_bytes_def min_absorb1)
  show "\<exists>k s'. lr_ExtractContiguousRange extract_contiguous n s = (take k (drop (lr_pos pos s) (?b s)), s')
      \<and> k \<le> n \<and> lr_pos pos s + k \<le> length (?b s) \<and> (0 < n \<and> lr_pos pos s < length (?b s) \<longrightarrow> 0 < k)
      \<and> lr_ok ok total pos s' \<and> ?b s' = ?b s \<and> lr_pos pos s' = lr_pos pos s + k"
    using i k t by (intro exI [of _ k], intro exI [of _ ?t])
      (simp add: lr_ExtractContiguousRange_def lr_pos_def lr_ok_def len rest)
  show "lr_Empty is_empty s = (lr_pos pos s = length (?b s))"
    using is_empty [OF i(1)] le by (auto simp: lr_Empty_def lr_pos_def len)
  show "lr_Available available s = length (?b s) - lr_pos pos s"
    using available [OF i(1)] i(2) le by (auto simp: lr_Available_def lr_pos_def len)
qed

end

context stream_reader_with_rewinding
begin

lemma limited_reader_with_rewinding:
  "stream_reader_with_rewinding (lr_ok ok total pos) (lr_bytes total pos) (lr_pos pos) (lrw_Extract ext)
    (lrw_ExtractContiguousRange extract_contiguous) (lr_Empty is_empty) (lrw_Available available) (lrw_Peek peek)
    (lrw_ConstructSaveMarker save) (lrw_Rewind save rewind)"
proof -
  have *: "lrw_Extract ext = lr_Extract ext" "lrw_Peek peek = lr_Peek peek"
      "lrw_ExtractContiguousRange extract_contiguous = lr_ExtractContiguousRange extract_contiguous"
    by (simp_all add: fun_eq_iff lrw_Extract_def lrw_Peek_def lrw_ExtractContiguousRange_def)
  have av: "lrw_Available available s = length (lr_bytes total pos s) - lr_pos pos s" if "lr_ok ok total pos s" for s
    using that available [of "lr_input s"] pos_le [of "lr_input s"]
    by (auto simp: lrw_Available_def lr_ok_def lr_bytes_def lr_pos_def)
  have bk: "lr_ok ok total pos (lrw_Rewind save rewind m s)
      \<and> lr_bytes total pos (lrw_Rewind save rewind m s) = lr_bytes total pos s
      \<and> lr_pos pos (lrw_Rewind save rewind m s) = m" if s: "lr_ok ok total pos s" "m \<le> lr_pos pos s" for m s
  proof -
    let ?i = "lr_input s"
    have i: "ok ?i" "m \<le> pos ?i" "pos ?i + lr_length s < 2 ^ 32" using s by (simp_all add: lr_ok_def lr_pos_def)
    then have "nat ((int (lr_length s) + (int (pos ?i) - int m)) mod 2 ^ 32) = lr_length s + (pos ?i - m)"
      by (simp add: of_nat_diff [symmetric] del: of_nat_diff)
    then show ?thesis using rewind [OF i(1,2)] save [OF i(1)] i s
      by (simp add: lrw_Rewind_def Let_def lr_ok_def lr_bytes_def lr_pos_def add.commute)
  qed
  have sv: "lrw_ConstructSaveMarker save s = lr_pos pos s" if "lr_ok ok total pos s" for s
    using that save by (simp add: lrw_ConstructSaveMarker_def lr_ok_def lr_pos_def)
  note l = limited_reader
  note src = stream_reader.axioms(1) [OF l]
  show ?thesis unfolding *
    by unfold_locales (fact av sv bk stream_source.pos_le [OF src] stream_source.ext [OF src] stream_reader.peek [OF l]
        stream_reader.peek_at_end [OF l] stream_source.extract_contiguous [OF src] stream_source.is_empty [OF src])+
qed

end

text \<open>The readers of \<^verbatim>\<open>SesameWindowed\<close> and \<^verbatim>\<open>SesameCobs\<close> for the message in their deques.\<close>

interpretation limited_dr: stream_reader_with_rewinding "lr_ok dr_ok dr_bytes dr_offset" "lr_bytes dr_bytes dr_offset"
  "lr_pos dr_offset" "lrw_Extract dr_Extract" "lrw_ExtractContiguousRange dr_ExtractContiguousRange"
  "lr_Empty dr_Empty" "lrw_Available dr_Available" "lrw_Peek dr_Peek" "lrw_ConstructSaveMarker dr_ConstructSaveMarker"
  "lrw_Rewind dr_ConstructSaveMarker dr_Rewind"
  by (rule dr.limited_reader_with_rewinding)

interpretation lr_dr: stream_reader "lr_ok dr_ok dr_bytes dr_offset" "lr_bytes dr_bytes dr_offset"
  "lr_pos dr_offset" "lr_Extract dr_Extract" "lr_ExtractContiguousRange dr_ExtractContiguousRange"
  "lr_Empty dr_Empty" "lr_Available dr_Available" "lr_Peek dr_Peek"
  by (rule dr.limited_reader)

subsection \<open>CountingStreamReader\<close>

record 's counting_reader =
  cr_reader :: 's
  cr_totalRead :: nat

definition cr_make :: "'s \<Rightarrow> 's counting_reader" where
  "cr_make reader = \<lparr>cr_reader = reader, cr_totalRead = 0\<rparr>"

text \<open>
  During \<^verbatim>\<open>Extract\<close> the counting reader stands between the wrapped reader and the error policy to see what is
  reported: it passes reports on and remembers whether one was bad. The policy starts without
  failures for the wrapped reader, so afterwards \<open>ep_failed\<close> says whether a report was bad, and the
  earlier failure is put back.
\<close>

definition cr_Extract ::
  "(byte list \<Rightarrow> 's \<Rightarrow> error_policy \<Rightarrow> (byte list \<times> 's \<times> error_policy) result) \<Rightarrow>
   byte list \<Rightarrow> 's counting_reader \<Rightarrow> error_policy \<Rightarrow> (byte list \<times> 's counting_reader \<times> error_policy) result" where
  "cr_Extract Extract dst r errorPolicy =
     bindR (Extract dst (cr_reader r) (errorPolicy\<lparr>ep_failed := False\<rparr>))
       (\<lambda>(dst', reader', p).
         let good = (\<not> ep_failed p); r1 = r\<lparr>cr_reader := reader'\<rparr>
         in Inr (dst', if good then r1\<lparr>cr_totalRead := (cr_totalRead r1 + length dst) mod 2 ^ 32\<rparr> else r1,
                 p\<lparr>ep_failed := (ep_failed errorPolicy \<or> ep_failed p)\<rparr>))"

definition cr_Peek ::
  "('s \<Rightarrow> error_policy \<Rightarrow> (byte \<times> error_policy) result) \<Rightarrow> 's counting_reader \<Rightarrow> error_policy \<Rightarrow> (byte \<times> error_policy) result" where
  "cr_Peek Peek r errorPolicy = Peek (cr_reader r) errorPolicy"

definition cr_ExtractContiguousRange ::
  "(nat \<Rightarrow> 's \<Rightarrow> byte list \<times> 's) \<Rightarrow> nat \<Rightarrow> 's counting_reader \<Rightarrow> byte list \<times> 's counting_reader" where
  "cr_ExtractContiguousRange ExtractContiguousRange m r =
     (let (result, reader') = ExtractContiguousRange m (cr_reader r)
      in (result, r\<lparr>cr_reader := reader', cr_totalRead := (cr_totalRead r + length result) mod 2 ^ 32\<rparr>))"

definition cr_PeekContiguousRange :: "(nat \<Rightarrow> 's \<Rightarrow> byte list) \<Rightarrow> nat \<Rightarrow> 's counting_reader \<Rightarrow> byte list" where
  "cr_PeekContiguousRange PeekContiguousRange start r = PeekContiguousRange start (cr_reader r)"

definition cr_Empty :: "('s \<Rightarrow> bool) \<Rightarrow> 's counting_reader \<Rightarrow> bool" where
  "cr_Empty Empty r = Empty (cr_reader r)"

definition cr_Available :: "('s \<Rightarrow> nat) \<Rightarrow> 's counting_reader \<Rightarrow> nat" where
  "cr_Available Available r = Available (cr_reader r)"

definition crw_ConstructSaveMarker :: "('s \<Rightarrow> nat) \<Rightarrow> 's counting_reader \<Rightarrow> nat" where
  "crw_ConstructSaveMarker ConstructSaveMarker r = ConstructSaveMarker (cr_reader r)"

definition crw_Rewind :: "('s \<Rightarrow> nat) \<Rightarrow> (nat \<Rightarrow> 's \<Rightarrow> 's) \<Rightarrow> nat \<Rightarrow> 's counting_reader \<Rightarrow> 's counting_reader" where
  "crw_Rewind ConstructSaveMarker Rewind marker r =
     r\<lparr>cr_totalRead := nat ((int (cr_totalRead r) - (int (ConstructSaveMarker (cr_reader r)) - int marker)) mod 2 ^ 32),
       cr_reader := Rewind marker (cr_reader r)\<rparr>"

lemma cr_Extract_outcome:
  assumes "\<And>p. Extract dst (cr_reader r) p = reader_outcome dst u s' p"
  shows "cr_Extract Extract dst r p = reader_outcome dst u
    (if length dst \<le> length u then r\<lparr>cr_reader := s', cr_totalRead := (cr_totalRead r + length dst) mod 2 ^ 32\<rparr>
     else r\<lparr>cr_reader := s'\<rparr>) p"
  by (cases "length dst \<le> length u"; cases "ep_failureMode p")
    (simp_all add: cr_Extract_def assms reader_outcome_def ep_ReportResult_def Let_def)

context stream_reader_with_rewinding
begin

lemma counting_reader:
  "stream_reader_with_rewinding (\<lambda>r. ok (cr_reader r)) (\<lambda>r. total (cr_reader r)) (\<lambda>r. pos (cr_reader r)) (cr_Extract ext)
    (cr_ExtractContiguousRange extract_contiguous) (cr_Empty is_empty) (cr_Available available) (cr_Peek peek)
    (crw_ConstructSaveMarker save) (crw_Rewind save rewind)"
proof
  fix s :: "'a counting_reader" and dst p n m
  assume s: "ok (cr_reader s)"
  obtain r where r: "\<And>p. ext dst (cr_reader s) p = reader_outcome dst (drop (pos (cr_reader s)) (total (cr_reader s))) r p"
      "ok r" "total r = total (cr_reader s)" "pos r = min (pos (cr_reader s) + length dst) (length (total (cr_reader s)))"
    using ext [OF s, of dst] by auto
  from cr_Extract_outcome [of ext, OF r(1)] r(2-)
  show "\<exists>s'. (\<forall>p. cr_Extract ext dst s p = reader_outcome dst (drop (pos (cr_reader s)) (total (cr_reader s))) s' p)
      \<and> ok (cr_reader s') \<and> total (cr_reader s') = total (cr_reader s)
      \<and> pos (cr_reader s') = min (pos (cr_reader s) + length dst) (length (total (cr_reader s)))"
    by (intro exI conjI allI) (assumption | simp)+
  show "\<exists>k s'. cr_ExtractContiguousRange extract_contiguous n s = (take k (drop (pos (cr_reader s)) (total (cr_reader s))), s')
      \<and> k \<le> n \<and> pos (cr_reader s) + k \<le> length (total (cr_reader s))
      \<and> (0 < n \<and> pos (cr_reader s) < length (total (cr_reader s)) \<longrightarrow> 0 < k)
      \<and> ok (cr_reader s') \<and> total (cr_reader s') = total (cr_reader s) \<and> pos (cr_reader s') = pos (cr_reader s) + k"
    using extract_contiguous [OF s, of n] by (auto simp: cr_ExtractContiguousRange_def)
qed (auto simp: pos_le cr_Peek_def peek peek_at_end cr_Empty_def is_empty cr_Available_def available
    crw_ConstructSaveMarker_def save crw_Rewind_def rewind)

text \<open>The count is the number of bytes read since the start, as a 32 bit number, while nothing fails.\<close>

definition counted :: "nat \<Rightarrow> 'a counting_reader \<Rightarrow> bool" where
  "counted start r \<longleftrightarrow> ok (cr_reader r) \<and> start \<le> pos (cr_reader r) \<and> cr_totalRead r = (pos (cr_reader r) - start) mod 2 ^ 32"

lemma counted_extract:
  assumes "counted start r" and "length dst \<le> length (total (cr_reader r)) - pos (cr_reader r)"
    and "cr_Extract ext dst r p = Inr (dst', r', p')"
  shows "counted start r'"
proof -
  have ok: "ok (cr_reader r)" using assms(1) by (simp add: counted_def)
  from ext [OF ok, of dst] obtain s where
    s: "\<And>p. ext dst (cr_reader r) p = reader_outcome dst (drop (pos (cr_reader r)) (total (cr_reader r))) s p"
      "ok s" "pos s = min (pos (cr_reader r) + length dst) (length (total (cr_reader r)))" by auto
  from cr_Extract_outcome [of ext, OF s(1), of p] assms(2,3)
  have "r' = r\<lparr>cr_reader := s, cr_totalRead := (cr_totalRead r + length dst) mod 2 ^ 32\<rparr>"
    by (simp add: reader_outcome_def)
  then show ?thesis using assms(1,2) s(2,3) pos_le [OF ok] by (auto simp: counted_def mod_add_left_eq)
qed

lemma counted_rewind:
  assumes "counted start r" and "start \<le> m" and "m \<le> pos (cr_reader r)"
  shows "counted start (crw_Rewind save rewind m r)"
proof -
  have ok: "ok (cr_reader r)" using assms(1) by (simp add: counted_def)
  have "int ((pos (cr_reader r) - start) mod 2 ^ 32) = (int (pos (cr_reader r)) - int start) mod 2 ^ 32"
    using assms by (simp add: of_nat_mod counted_def)
  then have "nat ((int (cr_totalRead r) - (int (pos (cr_reader r)) - int m)) mod 2 ^ 32) = nat (int (m - start) mod 2 ^ 32)"
    using assms by (simp add: counted_def mod_diff_left_eq)
  also have "\<dots> = (m - start) mod 2 ^ 32" by (simp add: nat_mod_distrib)
  finally show ?thesis using rewind [OF ok assms(3)] save [OF ok] assms(2)
    by (simp add: counted_def crw_Rewind_def)
qed

end

interpretation counting_br: stream_reader_with_rewinding "\<lambda>r. br_ok (cr_reader r)" "\<lambda>r. br_range (cr_reader r)"
  "\<lambda>r. br_offset (cr_reader r)" "cr_Extract br_Extract" "cr_ExtractContiguousRange br_ExtractContiguousRange"
  "cr_Empty br_Empty" "cr_Available br_Available" "cr_Peek br_Peek" "crw_ConstructSaveMarker br_ConstructSaveMarker"
  "crw_Rewind br_ConstructSaveMarker br_Rewind"
  by (rule br.counting_reader)

subsection \<open>BufferingStreamReader\<close>

text \<open>
  A reader that first gives the bytes of a deque, then those of another reader, and at its end leaves
  what was not read in the deque.
\<close>

record 's buffering_reader =
  bfr_buffer :: "byte bounded_deque"
  bfr_input :: 's
  bfr_index :: nat
  bfr_bufferIndex :: nat

definition bfr_make :: "byte bounded_deque \<Rightarrow> 's \<Rightarrow> 's buffering_reader" where
  "bfr_make buffer input = \<lparr>bfr_buffer = buffer, bfr_input = input, bfr_index = 0, bfr_bufferIndex = 0\<rparr>"

text \<open>One \<^verbatim>\<open>bufferIndex += Read(...)\<close> of \<^verbatim>\<open>Extract\<close> with \<open>n\<close> bytes to go: the bytes read, the bytes to go and the new state.\<close>

definition bfr_Read :: "nat \<Rightarrow> 's buffering_reader \<Rightarrow> byte list \<times> nat \<times> 's buffering_reader" where
  "bfr_Read n r =
     (let from = take n (bd_slots (bd_contiguous_range (bfr_index r) (bfr_buffer r)) (bfr_buffer r))
      in (from, n - length from,
          r\<lparr>bfr_index := bfr_index r + length from, bfr_bufferIndex := bfr_bufferIndex r + length from\<rparr>))"

definition bfr_Extract ::
  "(nat \<Rightarrow> 's \<Rightarrow> byte list \<times> 's) \<Rightarrow> byte list \<Rightarrow> 's buffering_reader \<Rightarrow> error_policy \<Rightarrow>
   (byte list \<times> 's buffering_reader \<times> error_policy) result" where
  "bfr_Extract ExtractContiguousRange dst r errorPolicy =
     (let (f12, n2, r2) =
            (if bfr_index r < bd_size (bfr_buffer r)
             then let (f1, n1, r1) = bfr_Read (length dst) r; (f2, n2, r2) = bfr_Read n1 r1 in (f1 @ f2, n2, r2)
             else ([], length dst, r));
          (f3, n3, r3) =
            (if n2 \<noteq> 0
             then let (f3, input') = ExtractContiguousRange n2 (bfr_input r2)
                  in (f3, n2 - length f3, r2\<lparr>bfr_input := input', bfr_index := bfr_index r2 + length f3\<rparr>)
             else ([], n2, r2))
      in bindR (ep_ReportResult (n3 = 0) errorPolicy) (\<lambda>p. Inr (overwrite dst 0 (f12 @ f3), r3, p)))"

definition bfr_PeekContiguousRange :: "(nat \<Rightarrow> 's \<Rightarrow> byte list) \<Rightarrow> nat \<Rightarrow> 's buffering_reader \<Rightarrow> byte list" where
  "bfr_PeekContiguousRange PeekContiguousRange start r =
     (if bfr_index r + start < bd_size (bfr_buffer r)
      then bd_slots (bd_contiguous_range (bfr_index r + start) (bfr_buffer r)) (bfr_buffer r)
      else PeekContiguousRange (bfr_index r + start - bd_size (bfr_buffer r)) (bfr_input r))"

definition bfr_Peek ::
  "(nat \<Rightarrow> 's \<Rightarrow> byte list) \<Rightarrow> 's buffering_reader \<Rightarrow> error_policy \<Rightarrow> (byte \<times> error_policy) result" where
  "bfr_Peek PeekContiguousRange r errorPolicy =
     (let rng = bfr_PeekContiguousRange PeekContiguousRange 0 r
      in bindR (ep_ReportResult (rng \<noteq> []) errorPolicy) (\<lambda>p. Inr (if rng = [] then 0 else hd rng, p)))"

definition bfr_ExtractContiguousRange ::
  "(nat \<Rightarrow> 's \<Rightarrow> byte list \<times> 's) \<Rightarrow> nat \<Rightarrow> 's buffering_reader \<Rightarrow> byte list \<times> 's buffering_reader" where
  "bfr_ExtractContiguousRange ExtractContiguousRange m r =
     (if bfr_index r < bd_size (bfr_buffer r)
      then let from = take m (bd_slots (bd_contiguous_range (bfr_index r) (bfr_buffer r)) (bfr_buffer r))
           in (from, r\<lparr>bfr_index := bfr_index r + length from, bfr_bufferIndex := bfr_bufferIndex r + length from\<rparr>)
      else let (result, input') = ExtractContiguousRange m (bfr_input r)
           in (result, r\<lparr>bfr_input := input', bfr_index := bfr_index r + length result\<rparr>))"

definition bfr_Available :: "('s \<Rightarrow> nat) \<Rightarrow> 's buffering_reader \<Rightarrow> nat" where
  "bfr_Available Available r = bd_size (bfr_buffer r) - bfr_bufferIndex r + Available (bfr_input r)"

definition bfr_Empty :: "('s \<Rightarrow> nat) \<Rightarrow> 's buffering_reader \<Rightarrow> bool" where
  "bfr_Empty Available r \<longleftrightarrow> bfr_Available Available r = 0"

definition bfr_ConstructSaveMarker :: "'s buffering_reader \<Rightarrow> nat" where
  "bfr_ConstructSaveMarker r = bfr_index r"

definition bfr_Rewind :: "('s \<Rightarrow> nat) \<Rightarrow> (nat \<Rightarrow> 's \<Rightarrow> 's) \<Rightarrow> nat \<Rightarrow> 's buffering_reader \<Rightarrow> 's buffering_reader" where
  "bfr_Rewind ConstructSaveMarker Rewind marker r =
     (let r1 = (if bd_size (bfr_buffer r) < bfr_index r
                then let rewindAmount = min (bfr_index r - marker) (bfr_index r - bd_size (bfr_buffer r))
                     in r\<lparr>bfr_input := Rewind (ConstructSaveMarker (bfr_input r) - rewindAmount) (bfr_input r),
                          bfr_index := bfr_index r - rewindAmount\<rparr>
                else r)
      in if marker < bd_size (bfr_buffer r1)
         then r1\<lparr>bfr_index := marker, bfr_bufferIndex := marker\<rparr>
         else r1)"

fun bfr_store :: "byte list list \<Rightarrow> byte bounded_deque \<Rightarrow> byte bounded_deque result" where
  "bfr_store [] b = Inr b"
| "bfr_store (rng # rngs) b = bindR (bd_insert_range True (bd_size b) rng b) (bfr_store rngs)"

text \<open>
  The destructor; \<open>rngs\<close> are the ranges the loop of \<^verbatim>\<open>StoreRemainder\<close> gets from the input until it is empty
  (\<open>drain\<close>).
\<close>

definition bfr_StoreRemainder :: "byte list list \<Rightarrow> 's buffering_reader \<Rightarrow> byte bounded_deque result" where
  "bfr_StoreRemainder rngs r =
     (let bufferDecrease = min (bd_size (bfr_buffer r)) (bfr_index r)
      in bindR (bd_erase_range True 0 bufferDecrease (bfr_buffer r)) (bfr_store rngs))"

text \<open>
  The bytes a buffering reader stands for: those of the buffer, then what the input had to give when
  the reader was made.
\<close>

definition bfr_base :: "('s \<Rightarrow> nat) \<Rightarrow> 's buffering_reader \<Rightarrow> nat" where
  "bfr_base pos r = pos (bfr_input r) - (bfr_index r - bd_size (bfr_buffer r))"

definition bfr_bytes :: "('s \<Rightarrow> byte list) \<Rightarrow> ('s \<Rightarrow> nat) \<Rightarrow> 's buffering_reader \<Rightarrow> byte list" where
  "bfr_bytes tot pos r = bd_list (bfr_buffer r) @ drop (bfr_base pos r) (tot (bfr_input r))"

definition bfr_ok :: "('s \<Rightarrow> bool) \<Rightarrow> ('s \<Rightarrow> nat) \<Rightarrow> 's buffering_reader \<Rightarrow> bool" where
  "bfr_ok ok pos r \<longleftrightarrow> bd_inv (bfr_buffer r) \<and> ok (bfr_input r) \<and> bfr_bufferIndex r = min (bfr_index r) (bd_size (bfr_buffer r))
     \<and> bfr_index r - bd_size (bfr_buffer r) \<le> pos (bfr_input r)"

lemma bd_two_ranges:
  assumes inv: "bd_inv b" and "from \<le> bd_size b"
  defines "s1 \<equiv> bd_slots (bd_contiguous_range from b) b"
  shows "s1 @ bd_slots (bd_contiguous_range (from + length s1) b) b = drop from (bd_list b)"
proof (cases "from = bd_size b")
  case True
  then show ?thesis using inv by (simp add: s1_def bd_contiguous_range_at_end_empty)
next
  case False
  then have lt: "from < bd_size b" using assms(2) by simp
  obtain k where k: "0 < k" "s1 = take k (drop from (bd_list b))" "k = bd_size b - from \<or> bd_index b from + k = bd_max_size b"
    using bd_contiguous_range_prefix [OF inv lt] unfolding s1_def by blast
  have len: "length s1 = min k (bd_size b - from)" using k(2) inv by simp
  show ?thesis
  proof (cases "bd_size b - from \<le> k")
    case True
    then have "from + length s1 = bd_size b" using len lt by simp
    then show ?thesis using True k(2) inv by (simp add: bd_contiguous_range_at_end_empty)
  next
    case less: False
    note b = bd_inv_bounds [OF inv]
    have idx: "bd_index b (from + k) = 0"
      using k(3) less b lt by (auto simp: bd_index_def Let_def bd_wf_def split: if_splits)
    from less have fk: "from + k < bd_size b" by simp
    obtain j where j: "bd_slots (bd_contiguous_range (from + k) b) b = take j (drop (from + k) (bd_list b))"
        "j = bd_size b - (from + k) \<or> bd_index b (from + k) + j = bd_max_size b"
      using bd_contiguous_range_prefix [OF inv fk] by blast
    have "bd_size b - (from + k) \<le> j" using j(2) idx b by auto
    then have "bd_slots (bd_contiguous_range (from + k) b) b = drop (from + k) (bd_list b)"
      using j(1) inv by simp
    moreover have "length s1 = k" using len less by simp
    ultimately show ?thesis using append_take_drop_id [of k "drop from (bd_list b)"]
      by (simp add: k(2) add.commute)
  qed
qed

lemma bfr_Read_twice:
  assumes "bd_inv (bfr_buffer r)" and "bfr_index r \<le> bd_size (bfr_buffer r)"
  shows "(let (f1, n1, r1) = bfr_Read n r; (f2, n2, r2) = bfr_Read n1 r1 in (f1 @ f2, n2, r2))
    = (let k = min n (bd_size (bfr_buffer r) - bfr_index r)
       in (take k (drop (bfr_index r) (bd_list (bfr_buffer r))), n - k,
           r\<lparr>bfr_index := bfr_index r + k, bfr_bufferIndex := bfr_bufferIndex r + k\<rparr>))"
proof -
  let ?b = "bfr_buffer r" and ?i = "bfr_index r"
  define s1 s2 where "s1 = bd_slots (bd_contiguous_range ?i ?b) ?b"
    and "s2 = bd_slots (bd_contiguous_range (?i + length s1) ?b) ?b"
  have s: "drop ?i (bd_list ?b) = s1 @ s2" using bd_two_ranges [OF assms] by (simp add: s1_def s2_def)
  have len: "bd_size ?b - ?i = length s1 + length s2"
    using arg_cong [OF s, of length] assms(1) by simp
  show ?thesis
  proof (cases "n \<le> length s1")
    case True
    then show ?thesis unfolding len s by (simp add: bfr_Read_def s1_def [symmetric] Let_def min_absorb1)
  next
    case False
    then show ?thesis unfolding len s
      by (simp add: bfr_Read_def s1_def [symmetric] s2_def [symmetric] Let_def min_def add.assoc)
  qed
qed

text \<open>
  \<^verbatim>\<open>Extract\<close> asks the input for one contiguous range. It works when the input always has all that is asked for
  in one range, as the readers over ranges, strings and vectors do.
\<close>

lemma take_min_length: "take (min a (length xs)) xs = take a xs"
  by (simp add: min_def)

lemma min_through: "k \<le> n \<Longrightarrow> min (i + n) (i + k + a) = i + k + min (n - k) a" for i k n a :: nat
  by auto

locale contiguous_source = stream_source +
  assumes whole: "ok s \<Longrightarrow> fst (extract_contiguous n s) = take n (drop (pos s) (total s))"
begin

lemma whole_step:
  assumes "ok s"
  shows "\<exists>s'. extract_contiguous n s = (take n (drop (pos s) (total s)), s') \<and> ok s' \<and> total s' = total s
    \<and> pos s' = min (pos s + n) (length (total s))"
proof -
  obtain k s' where k: "extract_contiguous n s = (take k (drop (pos s) (total s)), s')"
      "ok s'" "total s' = total s" "pos s' = pos s + k" "pos s + k \<le> length (total s)"
    using extract_contiguous [OF assms, of n] by auto
  moreover from k have eq: "take k (drop (pos s) (total s)) = take n (drop (pos s) (total s))"
    using whole [OF assms, of n] by simp
  moreover from arg_cong [OF eq, of length] k(5) pos_le [OF assms] have "pos s + k = min (pos s + n) (length (total s))"
    by (auto simp: min_def split: if_splits)
  ultimately show ?thesis by simp
qed

lemma bfr_unread:
  assumes "bfr_ok ok pos r"
  shows "drop (bfr_index r) (bfr_bytes total pos r)
      = drop (bfr_index r) (bd_list (bfr_buffer r)) @ drop (pos (bfr_input r)) (total (bfr_input r))"
    and "length (bfr_bytes total pos r) - bfr_index r
      = bd_size (bfr_buffer r) - bfr_index r + (length (total (bfr_input r)) - pos (bfr_input r))"
    and "bfr_index r \<le> length (bfr_bytes total pos r)"
  using assms pos_le [of "bfr_input r"] by (auto simp: bfr_ok_def bfr_bytes_def bfr_base_def)

lemma bfr_front:
  assumes "bfr_ok ok pos r"
  shows "(if bfr_index r < bd_size (bfr_buffer r)
      then let (f1, n1, r1) = bfr_Read n r; (f2, n2, r2) = bfr_Read n1 r1 in (f1 @ f2, n2, r2)
      else ([], n, r))
    = (let k = min n (bd_size (bfr_buffer r) - bfr_index r)
       in (take n (drop (bfr_index r) (bd_list (bfr_buffer r))), n - k,
           r\<lparr>bfr_index := bfr_index r + k, bfr_bufferIndex := bfr_bufferIndex r + k\<rparr>))"
proof (cases "bfr_index r < bd_size (bfr_buffer r)")
  case True
  have "take n (drop (bfr_index r) (bd_list (bfr_buffer r)))
      = take (min n (bd_size (bfr_buffer r) - bfr_index r)) (drop (bfr_index r) (bd_list (bfr_buffer r)))"
    using assms by (simp add: bfr_ok_def min_def)
  then show ?thesis
    using True assms bfr_Read_twice [of r n] by (simp add: bfr_ok_def Let_def)
next
  case False
  then show ?thesis using assms by (simp add: bfr_ok_def)
qed

lemma buffering_extract:
  assumes r: "bfr_ok ok pos r"
  shows "\<exists>r'. (\<forall>p. bfr_Extract extract_contiguous dst r p
      = reader_outcome dst (drop (bfr_index r) (bfr_bytes total pos r)) r' p)
    \<and> bfr_ok ok pos r' \<and> bfr_bytes total pos r' = bfr_bytes total pos r
    \<and> bfr_index r' = min (bfr_index r + length dst) (length (bfr_bytes total pos r))"
proof -
  let ?i = "bfr_index r" and ?b = "bfr_buffer r" and ?in = "bfr_input r" and ?n = "length dst"
  let ?L = "drop ?i (bd_list ?b)" and ?U = "drop (pos ?in) (total ?in)"
  define k where "k = min ?n (bd_size ?b - ?i)"
  define r2 where "r2 = r\<lparr>bfr_index := ?i + k, bfr_bufferIndex := bfr_bufferIndex r + k\<rparr>"
  have ok: "ok ?in" "bd_inv ?b" "bfr_bufferIndex r = min ?i (bd_size ?b)" "?i - bd_size ?b \<le> pos ?in"
    using r by (simp_all add: bfr_ok_def)
  obtain s where s: "extract_contiguous (?n - k) ?in = (take (?n - k) ?U, s)" "ok s" "total s = total ?in"
      "pos s = min (pos ?in + (?n - k)) (length (total ?in))"
    using whole_step [OF ok(1), of "?n - k"] by auto
  define r3 where "r3 = (if ?n - k \<noteq> 0 then r2\<lparr>bfr_input := s, bfr_index := ?i + k + length (take (?n - k) ?U)\<rparr> else r2)"
  note front = bfr_front [OF r, of ?n, unfolded Let_def, folded k_def, folded r2_def]
  have L: "length ?L = bd_size ?b - ?i" using ok(2) by simp
  have u: "take ?n (?L @ ?U) = take ?n ?L @ (if ?n - k \<noteq> 0 then take (?n - k) ?U else [])"
    using L by (auto simp: k_def min_def)
  have enough: "(?n \<le> length (?L @ ?U)) = ((if ?n - k \<noteq> 0 then ?n - k - length (take (?n - k) ?U) else 0) = 0)"
    using L by (auto simp: k_def min_def)
  have "bfr_Extract extract_contiguous dst r p = reader_outcome dst (?L @ ?U) r3 p" for p
  proof -
    have "bfr_input r2 = ?in" "bfr_index r2 = ?i + k" by (simp_all add: r2_def)
    then have "bfr_Extract extract_contiguous dst r p
        = bindR (ep_ReportResult (?n \<le> length (?L @ ?U)) p) (\<lambda>p. Inr (overwrite dst 0 (take ?n (?L @ ?U)), r3, p))"
      unfolding bfr_Extract_def Let_def front enough u
      by (cases "?n - k \<noteq> 0") (simp_all add: s(1) r3_def)
    then show ?thesis by (simp only: reader_outcome_def fill_front(2))
  qed
  moreover have "bfr_ok ok pos r3 \<and> bfr_bytes total pos r3 = bfr_bytes total pos r
      \<and> bfr_index r3 = min (?i + ?n) (length (bfr_bytes total pos r))"
  proof -
    have le: "pos ?in \<le> length (total ?in)" by (rule pos_le [OF ok(1)])
    have same: "bfr_buffer r3 = ?b" "ok (bfr_input r3)" "total (bfr_input r3) = total ?in"
      using ok(1) s(2,3) by (simp_all add: r3_def r2_def)
    have bi: "bfr_bufferIndex r3 = min (bfr_index r3) (bd_size ?b)" "bfr_index r3 = min (?i + ?n) (length (bfr_bytes total pos r))"
      "bfr_index r3 - bd_size ?b \<le> pos (bfr_input r3)" "bfr_base pos r3 = bfr_base pos r"
    proof -
      have "bfr_bufferIndex r3 = min (bfr_index r3) (bd_size ?b) \<and> bfr_index r3 = min (?i + ?n) (length (bfr_bytes total pos r))
        \<and> bfr_index r3 - bd_size ?b \<le> pos (bfr_input r3) \<and> bfr_base pos r3 = bfr_base pos r"
      proof (cases "?n \<le> bd_size ?b - ?i")
        case True
        have beyond: "?i + ?n - bd_size ?b = ?i - bd_size ?b" "min ?i (bd_size ?b) + ?n = min (?i + ?n) (bd_size ?b)"
          "?i + ?n \<le> length (bfr_bytes total pos r)"
          using True bfr_unread(2,3) [OF r] by arith+
        have kn: "k = ?n" using True by (simp add: k_def)
        then have "r3 = r\<lparr>bfr_index := ?i + ?n, bfr_bufferIndex := bfr_bufferIndex r + ?n\<rparr>" by (simp add: r3_def r2_def)
        then show ?thesis using True beyond ok(3,4) bfr_unread(2,3) [OF r] by (auto simp: bfr_base_def)
      next
        case False
        then have kn: "k = bd_size ?b - ?i" "bd_size ?b - ?i < ?n" "?n - k \<noteq> 0" by (simp_all add: k_def)
        define e where "e = min (?n - k) (length (total ?in) - pos ?in)"
        have r3: "bfr_bufferIndex r3 = min ?i (bd_size ?b) + (bd_size ?b - ?i)" "bfr_input r3 = s" "bfr_index r3 = ?i + k + e"
          using kn by (simp_all add: r3_def r2_def min.commute e_def ok(3))
        have "length (bfr_bytes total pos r) = ?i + k + (length (total ?in) - pos ?in)"
          using kn(1) bfr_unread(2,3) [OF r] by linarith
        with kn(1,2) have index: "?i + k + e = min (?i + ?n) (length (bfr_bytes total pos r))" by (simp add: e_def min_through)
        have e: "min ?i (bd_size ?b) + (bd_size ?b - ?i) = min (?i + k + e) (bd_size ?b)" "?i + k + e - bd_size ?b = ?i - bd_size ?b + e"
          using kn(1) by arith+
        have "pos s = pos ?in + e" using s(4) le by (auto simp: e_def min_def)
        then have "?i - bd_size ?b + e \<le> pos s" "pos s - (?i - bd_size ?b + e) = pos ?in - (?i - bd_size ?b)"
          using ok(4) by simp_all
        then show ?thesis unfolding bfr_base_def r3 same(1) e(2) using e(1) index by blast
      qed
      then show "bfr_bufferIndex r3 = min (bfr_index r3) (bd_size ?b)" "bfr_index r3 = min (?i + ?n) (length (bfr_bytes total pos r))"
        "bfr_index r3 - bd_size ?b \<le> pos (bfr_input r3)" "bfr_base pos r3 = bfr_base pos r" by blast+
    qed
    then show ?thesis using same ok(2) by (simp add: bfr_bytes_def bfr_ok_def)
  qed
  ultimately show ?thesis using bfr_unread(1) [OF r] by auto
qed

lemma buffering_source:
  "stream_source (bfr_ok ok pos) (bfr_bytes total pos) bfr_index (bfr_Extract extract_contiguous)
    (bfr_ExtractContiguousRange extract_contiguous) (bfr_Empty available) (bfr_Available available)"
proof
  fix r :: "'a buffering_reader" and dst n
  assume r: "bfr_ok ok pos r"
  let ?i = "bfr_index r" and ?b = "bfr_buffer r" and ?in = "bfr_input r" and ?B = "bfr_bytes total pos"
  have ok: "ok ?in" "bd_inv ?b" "bfr_bufferIndex r = min ?i (bd_size ?b)" "?i - bd_size ?b \<le> pos ?in"
    using r by (simp_all add: bfr_ok_def)
  note u = bfr_unread [OF r] and le = pos_le [OF ok(1)]
  show "?i \<le> length (?B r)" by (rule u(3))
  show "\<exists>r'. (\<forall>p. bfr_Extract extract_contiguous dst r p = reader_outcome dst (drop ?i (?B r)) r' p)
      \<and> bfr_ok ok pos r' \<and> ?B r' = ?B r \<and> bfr_index r' = min (?i + length dst) (length (?B r))"
    by (rule buffering_extract [OF r])
  have av: "bfr_Available available r = length (?B r) - ?i"
    using ok(3) available [OF ok(1)] by (simp add: bfr_Available_def u(2))
  then show "bfr_Available available r = length (?B r) - ?i" .
  show "bfr_Empty available r = (?i = length (?B r))"
    using av u(3) by (auto simp: bfr_Empty_def)
  show "\<exists>k r'. bfr_ExtractContiguousRange extract_contiguous n r = (take k (drop ?i (?B r)), r')
      \<and> k \<le> n \<and> ?i + k \<le> length (?B r) \<and> (0 < n \<and> ?i < length (?B r) \<longrightarrow> 0 < k)
      \<and> bfr_ok ok pos r' \<and> ?B r' = ?B r \<and> bfr_index r' = ?i + k"
  proof (cases "?i < bd_size ?b")
    case True
    then obtain j where j: "0 < j" "bd_slots (bd_contiguous_range ?i ?b) ?b = take j (drop ?i (bd_list ?b))"
      using bd_contiguous_range_prefix [OF ok(2)] by blast
    define k where "k = min n (min j (bd_size ?b - ?i))"
    let ?r = "r\<lparr>bfr_index := ?i + k, bfr_bufferIndex := bfr_bufferIndex r + k\<rparr>"
    have k: "take n (take j (drop ?i (bd_list ?b))) = take k (drop ?i (bd_list ?b))"
        "length (take k (drop ?i (bd_list ?b))) = k" "k \<le> bd_size ?b - ?i" "0 < n \<longrightarrow> 0 < k"
      using True j(1) ok(2) take_min_length [of "min n j" "drop ?i (bd_list ?b)"] by (simp_all add: k_def min.assoc [symmetric])
    then have "bfr_ExtractContiguousRange extract_contiguous n r = (take k (drop ?i (?B r)), ?r)"
      using True ok(2) by (simp add: bfr_ExtractContiguousRange_def j(2) u(1) Let_def)
    moreover have "bfr_ok ok pos ?r" "?B ?r = ?B r"
      using True k(3) ok by (simp_all add: bfr_ok_def bfr_bytes_def bfr_base_def)
    moreover have "k \<le> n" "?i + k \<le> length (?B r)" using k(3) u(2,3) by (simp add: k_def, linarith)
    ultimately show ?thesis using k(4) by (intro exI [of _ k], intro exI [of _ ?r]) simp
  next
    case False
    obtain k s where k: "extract_contiguous n ?in = (take k (drop (pos ?in) (total ?in)), s)"
        "k \<le> n" "pos ?in + k \<le> length (total ?in)" "0 < n \<and> pos ?in < length (total ?in) \<longrightarrow> 0 < k"
        "ok s" "total s = total ?in" "pos s = pos ?in + k"
      using extract_contiguous [OF ok(1), of n] by blast
    let ?r = "r\<lparr>bfr_input := s, bfr_index := ?i + k\<rparr>"
    have "length (take k (drop (pos ?in) (total ?in))) = k" using k(3) by simp
    then have "bfr_ExtractContiguousRange extract_contiguous n r = (take k (drop ?i (?B r)), ?r)"
      using False ok(2) by (simp add: bfr_ExtractContiguousRange_def u(1) k(1))
    moreover have "?i + k - bd_size ?b = ?i - bd_size ?b + k" using False by simp
    then have "bfr_ok ok pos ?r" "?B ?r = ?B r"
      using False ok k(5,6,7) by (simp_all add: bfr_ok_def bfr_bytes_def bfr_base_def)
    moreover have "?i + k \<le> length (?B r)" "?i < length (?B r) \<longrightarrow> pos ?in < length (total ?in)"
      using k(3) False u(2,3) by linarith+
    ultimately show ?thesis using k(2,4) by (intro exI [of _ k], intro exI [of _ ?r]) simp
  qed
qed

end

context stream_reader_with_rewinding
begin

text \<open>Rewinding a buffering reader goes back in the input, and from there into the buffer.\<close>

lemma buffering_rewind:
  assumes r: "bfr_ok ok pos r" and m: "m \<le> bfr_index r"
  shows "bfr_ok ok pos (bfr_Rewind save rewind m r)
    \<and> bfr_bytes total pos (bfr_Rewind save rewind m r) = bfr_bytes total pos r
    \<and> bfr_index (bfr_Rewind save rewind m r) = m"
proof (cases "bd_size (bfr_buffer r) < bfr_index r")
  case True
  let ?i = "bfr_index r" and ?n = "bd_size (bfr_buffer r)" and ?in = "bfr_input r"
  define a where "a = min (?i - m) (?i - ?n)"
  have ok: "ok ?in" "?i - ?n \<le> pos ?in" using r by (simp_all add: bfr_ok_def)
  have le: "pos ?in - a \<le> pos ?in" by simp
  note rw = rewind [OF ok(1) le] and sv = save [OF ok(1)]
  show ?thesis
  proof (cases "m < ?n")
    case m': True
    then have "a = ?i - ?n" using True by (simp add: a_def)
    then show ?thesis using r True m' rw ok(2)
      by (simp add: bfr_Rewind_def Let_def a_def [symmetric] sv bfr_ok_def bfr_bytes_def bfr_base_def)
  next
    case False
    then have am: "a = ?i - m" using m by (simp add: a_def)
    have a: "?i - a = m" "?i - ?n = a + (m - ?n)" using False m True unfolding am by linarith+
    have base: "pos ?in - a - (m - ?n) = pos ?in - (?i - ?n)" "m - ?n \<le> pos ?in - a" "min ?i ?n = min m ?n"
      using ok(2) a(2) False True by linarith+
    have "bfr_Rewind save rewind m r = r\<lparr>bfr_input := rewind (pos ?in - a) ?in, bfr_index := m\<rparr>"
      unfolding bfr_Rewind_def Let_def sv a_def [symmetric] using True False a(1) by simp
    then show ?thesis using r rw base
      by (simp add: bfr_ok_def bfr_bytes_def bfr_base_def)
  qed
next
  case False
  then show ?thesis using assms by (auto simp: bfr_Rewind_def bfr_ok_def bfr_bytes_def bfr_base_def)
qed

end

interpretation whole_br: contiguous_source br_ok br_range br_offset br_Extract br_ExtractContiguousRange br_Empty br_Available
  by unfold_locales (simp add: br_ExtractContiguousRange_def Let_def)

interpretation whole_sr: contiguous_source sr_ok sr_string sr_offset sr_Extract sr_ExtractContiguousRange sr_Empty sr_Available
  by unfold_locales (simp add: sr_ExtractContiguousRange_def Let_def)

interpretation whole_vr: contiguous_source vr_ok vr_bytes vr_offset vr_Extract vr_ExtractContiguousRange vr_Empty vr_Available
  by unfold_locales (simp add: vr_ExtractContiguousRange_def vr_PeekContiguousRange_def vr_bytes_def Let_def)

interpretation buffering_br: stream_source "bfr_ok br_ok br_offset" "bfr_bytes br_range br_offset" bfr_index
  "bfr_Extract br_ExtractContiguousRange" "bfr_ExtractContiguousRange br_ExtractContiguousRange" "bfr_Empty br_Available"
  "bfr_Available br_Available"
  by (rule whole_br.buffering_source)

lemma bfr_Extract_buffer:
  "bfr_Extract ec dst r p = Inr (dst', r', p') \<Longrightarrow> bfr_buffer r' = bfr_buffer r"
  by (auto simp: bfr_Extract_def bfr_Read_def Let_def result_simps split: if_splits prod.splits)

lemma bfr_store_correct:
  "bd_inv b \<Longrightarrow> bd_size b + length (concat rngs) \<le> bd_max_size b \<Longrightarrow>
    \<exists>b'. bfr_store rngs b = Inr b' \<and> bd_inv b' \<and> bd_list b' = bd_list b @ concat rngs"
proof (induction rngs arbitrary: b)
  case (Cons rng rngs)
  then have fits: "bd_size b + length rng \<le> bd_max_size b" by simp
  obtain b1 where b1: "bd_insert_range True (bd_size b) rng b = Inr b1" "bd_inv b1" "bd_list b1 = bd_list b @ rng"
      "bd_max_size b1 = bd_max_size b"
    using bd_insert_range_correct [OF Cons.prems(1) order_refl fits, of True] Cons.prems(1) by auto
  have "bd_size b1 = bd_size b + length rng"
    using arg_cong [OF b1(3), of length] b1(2) Cons.prems(1) by simp
  then show ?case using Cons.IH [OF b1(2)] Cons.prems(2) b1 by auto
qed simp

lemma bfr_StoreRemainder_correct:
  assumes r: "bfr_ok br_ok br_offset r" and rngs: "concat rngs = drop (br_offset (bfr_input r)) (br_range (bfr_input r))"
    and fits: "length (bfr_bytes br_range br_offset r) - bfr_index r \<le> bd_max_size (bfr_buffer r)"
  shows "\<exists>b. bfr_StoreRemainder rngs r = Inr b \<and> bd_inv b
    \<and> bd_list b = drop (bfr_index r) (bfr_bytes br_range br_offset r)"
proof -
  let ?b = "bfr_buffer r" and ?k = "min (bd_size (bfr_buffer r)) (bfr_index r)"
  have inv: "bd_inv ?b" using r by (simp add: bfr_ok_def)
  obtain b1 where b1: "bd_erase_range True 0 ?k ?b = Inr b1" "bd_inv b1" "bd_list b1 = drop ?k (bd_list ?b)"
      "bd_max_size b1 = bd_max_size ?b"
    using bd_erase_front_pops [OF inv, of ?k] by (auto simp: bd_erase_range_def)
  have "drop ?k (bd_list ?b) = drop (bfr_index r) (bd_list ?b)" using inv by (simp add: min_def)
  then have u: "drop (bfr_index r) (bfr_bytes br_range br_offset r) = bd_list b1 @ concat rngs"
    using whole_br.bfr_unread(1) [OF r] b1(3) rngs by simp
  have "bd_size b1 + length (concat rngs) \<le> bd_max_size b1"
    using arg_cong [OF u, of length] fits b1(2,4) by simp
  from bfr_store_correct [OF b1(2) this] b1(1) u show ?thesis
    by (auto simp: bfr_StoreRemainder_def)
qed

text \<open>
  C39. No byte is lost or read twice by a buffering reader over a range: what is extracted is the content
  of the buffer followed by that of the input, and after its destruction the buffer holds exactly what was
  not extracted, in order.
\<close>

theorem buffering_reader_loses_nothing:
  assumes inv: "bd_inv buffer" and "length dst \<le> bd_size buffer + length input" and "0 < m"
    and fits: "bd_size buffer + length input - length dst \<le> bd_max_size buffer"
  shows "\<exists>r p rngs i b. bfr_Extract br_ExtractContiguousRange dst (bfr_make buffer (br_make input)) (ep_make mode)
      = Inr (take (length dst) (bd_list buffer @ input), r, p)
    \<and> drain (Suc (length input)) br_ExtractContiguousRange br_Empty m (bfr_input r) = Some (rngs, i)
    \<and> bfr_StoreRemainder rngs r = Inr b \<and> bd_list b = drop (length dst) (bd_list buffer @ input)"
proof -
  let ?r = "bfr_make buffer (br_make input)"
  have r: "bfr_ok br_ok br_offset ?r" "bfr_bytes br_range br_offset ?r = bd_list buffer @ input" "bfr_index ?r = 0"
    using inv by (simp_all add: bfr_make_def br_make_def bfr_ok_def br_ok_def bfr_bytes_def bfr_base_def)
  from buffering_br.ext [OF r(1), of dst] obtain r' where
    ex: "\<And>p. bfr_Extract br_ExtractContiguousRange dst ?r p = reader_outcome dst (bd_list buffer @ input) r' p"
    and r': "bfr_ok br_ok br_offset r'" "bfr_bytes br_range br_offset r' = bd_list buffer @ input"
      "bfr_index r' = length dst"
    using r assms(2) inv by auto
  have i: "br_ok (bfr_input r')" using r'(1) by (simp add: bfr_ok_def)
  obtain p where e: "bfr_Extract br_ExtractContiguousRange dst ?r (ep_make mode) = Inr (take (length dst) (bd_list buffer @ input), r', p)"
    using ex [of "ep_make mode"] assms(2) inv by (auto simp: reader_outcome_def)
  from bfr_Extract_buffer [OF e] have buf: "bfr_buffer r' = buffer" by (simp add: bfr_make_def)
  have "length (br.unread (bfr_input r')) < Suc (length input)"
    using whole_br.bfr_unread(2) [OF r'(1)] r'(2,3) assms(2) inv by (simp add: br.unread_def buf)
  from br.drain_reads_all [OF assms(3) i this] obtain rngs j where
    d: "drain (Suc (length input)) br_ExtractContiguousRange br_Empty m (bfr_input r') = Some (rngs, j)"
      "concat rngs = drop (br_offset (bfr_input r')) (br_range (bfr_input r'))"
    by (auto simp: br.unread_def)
  from bfr_StoreRemainder_correct [OF r'(1) d(2)] fits inv obtain b where
    "bfr_StoreRemainder rngs r' = Inr b" "bd_list b = drop (length dst) (bd_list buffer @ input)"
    by (auto simp: r'(2,3) buf)
  with e d(1) show ?thesis by blast
qed

theorem buffering_reader_loses_nothing_witness:
  "\<exists>r p rngs i b. bfr_Extract br_ExtractContiguousRange [0, 0, 0]
        (bfr_make \<lparr>bd_storage = [Some 2, None, Some 1], bd_start = 2, bd_numAllocated = 2\<rparr> (br_make [3, 4])) (ep_make FailByAssertion)
      = Inr ([1, 2, 3], r, p)
    \<and> drain 3 br_ExtractContiguousRange br_Empty 9 (bfr_input r) = Some (rngs, i)
    \<and> bfr_StoreRemainder rngs r = Inr b \<and> bd_list b = [4]"
proof -
  let ?b = "\<lparr>bd_storage = [Some 2, None, Some 1], bd_start = 2, bd_numAllocated = 2\<rparr> :: byte bounded_deque"
  have v: "bd_vector ?b = \<lparr>bv_storage = [Some 1, Some 2, None], bv_numAllocated = 2\<rparr>"
    by (simp add: bd_vector_def bd_max_size_def ring_def upt_rec)
  have b: "bd_inv ?b" "bd_list ?b = [1, 2]" "bd_size ?b = 2" "bd_max_size ?b = 3"
    unfolding bd_inv_def bd_list_def v
    by (auto simp: bd_wf_def bv_inv_def alive_def bv_list_def bd_size_def bd_max_size_def less_Suc_eq numeral_eq_Suc)
  show ?thesis
    using buffering_reader_loses_nothing [OF b(1), of "[0, 0, 0]" "[3, 4]" 9 FailByAssertion] b(2-)
    by (simp add: numeral_eq_Suc)
qed

text \<open>
  Two calls of \<^verbatim>\<open>BufferingStreamReader\<close> that do not keep the contract of a reader. After a byte of the input has
  been read, \<^verbatim>\<open>Peek\<close> looks past the next byte of the input, because \<^verbatim>\<open>PeekContiguousRange\<close> adds the bytes of the
  input that were read to the offset while the input already stands behind them. And \<^verbatim>\<open>Extract\<close> fails although
  enough bytes are available when the input, a deque whose content wraps, hands them out in two ranges.
\<close>

theorem buffering_reader_contract_broken:
  "(let r = snd (bfr_ExtractContiguousRange br_ExtractContiguousRange 1
          (bfr_make \<lparr>bd_storage = [], bd_start = 0, bd_numAllocated = 0\<rparr> (br_make [1, 2, 3])))
    in bfr_Available br_Available r = 2
      \<and> map_sum id fst (bfr_Peek br_PeekContiguousRange r (ep_make FailByAssertion)) = Inr 3
      \<and> fst (bfr_ExtractContiguousRange br_ExtractContiguousRange 1 r) = [2])
   \<and> (let r = bfr_make \<lparr>bd_storage = [], bd_start = 0, bd_numAllocated = 0\<rparr>
          (dr_make \<lparr>bd_storage = [Some 2, None, Some 1], bd_start = 2, bd_numAllocated = 2\<rparr>)
    in bfr_Available dr_Available r = 2
      \<and> bfr_Extract dr_ExtractContiguousRange [0, 0] r (ep_make FailByAssertion) = Inl AssertFailed)"
  by code_simp

end
