(* ===== verification/Stream_Writers.thy ===== *)
theory Stream_Writers
  imports Stream_Wrappers Memory_Range
begin

section \<open>Stream writers: infra/stream\<close>

text \<open>
  A \<^verbatim>\<open>StreamWriter\<close> appends bytes to some destination and reports to the error policy whether there was room.
  The locale \<open>stream_sink\<close> says what happens while there is room, \<open>stream_writer\<close> adds what happens when there
  is not. The writers over a range of bytes, a vector and a deque interpret it, \<^verbatim>\<open>LimitedStreamWriter\<close> and
  \<^verbatim>\<open>BufferingStreamWriter\<close> keep it. \<^verbatim>\<open>SaveState\<close> and \<^verbatim>\<open>RestoreState\<close> move what was written after a marker out of the way
  and back, so that a \<^verbatim>\<open>SavedMarkerStreamWriter\<close> can insert at the marker.
\<close>

subsection \<open>The contract of a writer\<close>

lemma take_overwrite: "i + length ys \<le> length xs \<Longrightarrow> take (i + length ys) (overwrite xs i ys) = take i xs @ ys"
  by (simp add: overwrite_def)

lemma drop_overwrite: "i + length ys \<le> e \<Longrightarrow> e \<le> length xs \<Longrightarrow> drop e (overwrite xs i ys) = drop e xs"
  by (simp add: overwrite_def)

locale stream_sink =
  fixes ok :: "'s \<Rightarrow> bool"
    and written :: "'s \<Rightarrow> byte list"
    and ins :: "byte list \<Rightarrow> 's \<Rightarrow> error_policy \<Rightarrow> ('s \<times> error_policy) result"
    and available :: "'s \<Rightarrow> nat"
  assumes ins: "ok w \<Longrightarrow> length xs \<le> available w \<Longrightarrow>
      \<exists>w'. (\<forall>p. ins xs w p = bindR (ep_ReportResult True p) (\<lambda>p'. Inr (w', p')))
        \<and> ok w' \<and> written w' = written w @ xs \<and> available w' = available w - length xs"

locale stream_writer = stream_sink +
  assumes ins_too_much: "ok w \<Longrightarrow> available w < length xs \<Longrightarrow>
      \<exists>w'. (\<forall>p. ins xs w p = bindR (ep_ReportResult False p) (\<lambda>p'. Inr (w', p')))
        \<and> ok w' \<and> written w' = written w @ take (available w) xs \<and> available w' = 0"

text \<open>\<^verbatim>\<open>stream << a << b << ...\<close>, for ranges of bytes.\<close>

fun write_all ::
  "(byte list \<Rightarrow> 's \<Rightarrow> error_policy \<Rightarrow> ('s \<times> error_policy) result) \<Rightarrow> byte list list \<Rightarrow> 's \<Rightarrow> error_policy \<Rightarrow> ('s \<times> error_policy) result" where
  "write_all insrt [] w p = Inr (w, p)"
| "write_all insrt (xs # xss) w p = bindR (insrt xs w p) (\<lambda>(w', p'). write_all insrt xss w' p')"

context stream_sink
begin

lemma write_all_fits:
  assumes "ok w" and "length (concat xss) \<le> available w"
  shows "\<exists>w' p'. write_all ins xss w p = Inr (w', p') \<and> ok w' \<and> written w' = written w @ concat xss
    \<and> available w' = available w - length (concat xss)"
  using assms
proof (induction xss arbitrary: w p)
  case (Cons xs xss)
  have fits: "length xs \<le> available w" using Cons.prems(2) by simp
  obtain w1 where w1: "\<And>p. ins xs w p = bindR (ep_ReportResult True p) (\<lambda>p'. Inr (w1, p'))"
      "ok w1" "written w1 = written w @ xs" "available w1 = available w - length xs"
    using ins [OF Cons.prems(1) fits] by blast
  have "length (concat xss) \<le> available w1" using Cons.prems(2) w1(4) by simp
  from Cons.IH [OF w1(2) this, of "p\<lparr>ep_checkedFail := (ep_failureMode p \<noteq> FailSoft)\<rparr>"] w1 show ?case by auto
qed simp

end

context stream_writer
begin

lemma ins_outcome:
  assumes "ok w"
  shows "\<exists>w'. (\<forall>p. ins xs w p = bindR (ep_ReportResult (length xs \<le> available w) p) (\<lambda>p'. Inr (w', p')))
    \<and> ok w' \<and> written w' = written w @ take (available w) xs \<and> available w' = available w - length xs"
proof (cases "length xs \<le> available w")
  case True
  with ins [OF assms True] show ?thesis by (simp only: True take_all_iff [THEN iffD2, OF True])
next
  case False
  then have "available w < length xs" by simp
  with ins_too_much [OF assms this] False show ?thesis by simp
qed

lemma write_all_asserts:
  assumes "ok w" and "available w < length (concat xss)" and "ep_failureMode p = FailByAssertion"
  shows "write_all ins xss w p = Inl AssertFailed"
  using assms
proof (induction xss arbitrary: w p)
  case (Cons xs xss)
  show ?case
  proof (cases "length xs \<le> available w")
    case True
    obtain w1 where w1: "\<And>p. ins xs w p = bindR (ep_ReportResult True p) (\<lambda>p'. Inr (w1, p'))"
        "ok w1" "available w1 = available w - length xs"
      using ins [OF Cons.prems(1) True] by blast
    have "available w1 < length (concat xss)" using Cons.prems(2) w1(3) True by auto
    from Cons.IH [OF w1(2) this, of "p\<lparr>ep_checkedFail := (ep_failureMode p \<noteq> FailSoft)\<rparr>"] w1 Cons.prems(3)
    show ?thesis by simp
  next
    case False
    then obtain w1 where "\<And>p. ins xs w p = bindR (ep_ReportResult False p) (\<lambda>p'. Inr (w1, p'))"
      using ins_too_much [OF Cons.prems(1), of xs] by auto
    then show ?thesis using Cons.prems(3) by simp
  qed
qed simp

end

subsection \<open>BoundedDequeStreamWriter and BoundedVectorStreamWriter\<close>

definition bdw_Available :: "byte bounded_deque \<Rightarrow> nat" where
  "bdw_Available deque = bd_max_size deque - bd_size deque"

definition bdw_Insert :: "byte list \<Rightarrow> byte bounded_deque \<Rightarrow> error_policy \<Rightarrow> (byte bounded_deque \<times> error_policy) result" where
  "bdw_Insert rng deque errorPolicy =
     (let spaceLeft = bdw_Available deque; spaceOk = (length rng \<le> spaceLeft)
      in bindR (ep_ReportResult spaceOk errorPolicy)
        (\<lambda>p. bindR (bd_insert_range True (bd_size deque) (take spaceLeft rng) deque) (\<lambda>deque'. Inr (deque', p))))"

definition bdw_ConstructSaveMarker :: "byte bounded_deque \<Rightarrow> nat" where
  "bdw_ConstructSaveMarker deque = bd_size deque"

definition bdw_GetProcessedBytesSince :: "nat \<Rightarrow> byte bounded_deque \<Rightarrow> nat" where
  "bdw_GetProcessedBytesSince marker deque = bd_size deque - marker"

definition bvw_Available :: "byte bounded_vector \<Rightarrow> nat" where
  "bvw_Available vector = bv_max_size vector - bv_size vector"

definition bvw_Insert :: "byte list \<Rightarrow> byte bounded_vector \<Rightarrow> error_policy \<Rightarrow> (byte bounded_vector \<times> error_policy) result" where
  "bvw_Insert rng vector errorPolicy =
     (let spaceLeft = bvw_Available vector; spaceOk = (length rng \<le> spaceLeft)
      in bindR (ep_ReportResult spaceOk errorPolicy)
        (\<lambda>p. bindR (bv_insert_range True (bv_size vector) (take spaceLeft rng) vector) (\<lambda>vector'. Inr (vector', p))))"

definition bvw_ConstructSaveMarker :: "byte bounded_vector \<Rightarrow> nat" where
  "bvw_ConstructSaveMarker vector = bv_size vector"

definition bvw_GetProcessedBytesSince :: "nat \<Rightarrow> byte bounded_vector \<Rightarrow> nat" where
  "bvw_GetProcessedBytesSince marker vector = bv_size vector - marker"

lemma bdw_Insert_outcome:
  assumes "bd_inv b"
  shows "\<exists>b'. (\<forall>p. bdw_Insert xs b p = bindR (ep_ReportResult (length xs \<le> bdw_Available b) p) (\<lambda>p'. Inr (b', p')))
    \<and> bd_inv b' \<and> bd_list b' = bd_list b @ take (bdw_Available b) xs \<and> bdw_Available b' = bdw_Available b - length xs
    \<and> bd_max_size b' = bd_max_size b"
proof -
  let ?ys = "take (bdw_Available b) xs"
  have fits: "bd_size b + length ?ys \<le> bd_max_size b"
    using bd_inv_bounds [OF assms] by (auto simp: bdw_Available_def min_def)
  obtain b' where b': "bd_insert_range True (bd_size b) ?ys b = Inr b'" "bd_inv b'" "bd_list b' = bd_list b @ ?ys"
      "bd_max_size b' = bd_max_size b"
    using bd_insert_range_correct [OF assms order_refl fits, of True] assms by auto
  moreover have "bdw_Available b' = bdw_Available b - length xs"
    using arg_cong [OF b'(3), of length] b'(2,4) assms by (simp add: bdw_Available_def)
  ultimately show ?thesis by (intro exI [of _ b']) (simp add: bdw_Insert_def Let_def)
qed

interpretation bdw: stream_writer bd_inv bd_list bdw_Insert bdw_Available
proof
  fix w :: "byte bounded_deque" and xs
  assume w: "bd_inv w"
  show "\<exists>w'. (\<forall>p. bdw_Insert xs w p = bindR (ep_ReportResult True p) (\<lambda>p'. Inr (w', p')))
      \<and> bd_inv w' \<and> bd_list w' = bd_list w @ xs \<and> bdw_Available w' = bdw_Available w - length xs"
    if "length xs \<le> bdw_Available w"
    using bdw_Insert_outcome [OF w, of xs] that by auto
  show "\<exists>w'. (\<forall>p. bdw_Insert xs w p = bindR (ep_ReportResult False p) (\<lambda>p'. Inr (w', p')))
      \<and> bd_inv w' \<and> bd_list w' = bd_list w @ take (bdw_Available w) xs \<and> bdw_Available w' = 0"
    if "bdw_Available w < length xs"
    using bdw_Insert_outcome [OF w, of xs] that by (auto simp: not_le)
qed

lemma bvw_Insert_outcome:
  assumes "bv_inv b"
  shows "\<exists>b'. (\<forall>p. bvw_Insert xs b p = bindR (ep_ReportResult (length xs \<le> bvw_Available b) p) (\<lambda>p'. Inr (b', p')))
    \<and> bv_inv b' \<and> bv_list b' = bv_list b @ take (bvw_Available b) xs \<and> bvw_Available b' = bvw_Available b - length xs"
proof -
  let ?ys = "take (bvw_Available b) xs"
  have le: "bv_size b \<le> bv_max_size b" using bv_inv_le [OF assms] by (simp add: bv_size_def bv_max_size_def)
  then have fits: "bv_size b + length ?ys \<le> bv_max_size b"
    by (auto simp: bvw_Available_def min_def)
  obtain b' where b': "bv_insert_range True (bv_size b) ?ys b = Inr b'" "bv_inv b'" "bv_list b' = bv_list b @ ?ys"
      "bv_max_size b' = bv_max_size b"
    using bv_insert_range_correct [OF assms order_refl fits, of True] assms by auto
  moreover have "bvw_Available b' = bvw_Available b - length xs"
    using arg_cong [OF b'(3), of length] b'(2,4) assms by (simp add: bvw_Available_def)
  ultimately show ?thesis by (intro exI [of _ b']) (simp add: bvw_Insert_def Let_def)
qed

interpretation bvw: stream_writer bv_inv bv_list bvw_Insert bvw_Available
proof
  fix w :: "byte bounded_vector" and xs
  assume w: "bv_inv w"
  show "\<exists>w'. (\<forall>p. bvw_Insert xs w p = bindR (ep_ReportResult True p) (\<lambda>p'. Inr (w', p')))
      \<and> bv_inv w' \<and> bv_list w' = bv_list w @ xs \<and> bvw_Available w' = bvw_Available w - length xs"
    if "length xs \<le> bvw_Available w"
    using bvw_Insert_outcome [OF w, of xs] that by auto
  show "\<exists>w'. (\<forall>p. bvw_Insert xs w p = bindR (ep_ReportResult False p) (\<lambda>p'. Inr (w', p')))
      \<and> bv_inv w' \<and> bv_list w' = bv_list w @ take (bvw_Available w) xs \<and> bvw_Available w' = 0"
    if "bvw_Available w < length xs"
    using bvw_Insert_outcome [OF w, of xs] that by (auto simp: not_le)
qed

subsection \<open>ByteOutputStreamWriter\<close>

record byte_writer =
  bw_streamRange :: "byte list"
  bw_offset :: nat

definition bw_make :: "byte list \<Rightarrow> byte_writer" where
  "bw_make streamRange = \<lparr>bw_streamRange = streamRange, bw_offset = 0\<rparr>"

definition bw_Processed :: "byte_writer \<Rightarrow> byte list" where
  "bw_Processed w = take (bw_offset w) (bw_streamRange w)"

definition bw_Remaining :: "byte_writer \<Rightarrow> byte list" where
  "bw_Remaining w = drop (bw_offset w) (bw_streamRange w)"

definition bw_Reset :: "byte_writer \<Rightarrow> byte_writer" where
  "bw_Reset w = w\<lparr>bw_offset := 0\<rparr>"

definition bw_Available :: "byte_writer \<Rightarrow> nat" where
  "bw_Available w = length (bw_streamRange w) - bw_offset w"

definition bw_Insert :: "byte list \<Rightarrow> byte_writer \<Rightarrow> error_policy \<Rightarrow> (byte_writer \<times> error_policy) result" where
  "bw_Insert dataRange w errorPolicy =
     bindR (ep_ReportResult (length dataRange \<le> length (bw_streamRange w) - bw_offset w) errorPolicy)
       (\<lambda>p. let part = take (length (bw_streamRange w) - bw_offset w) dataRange
            in Inr (w\<lparr>bw_streamRange := overwrite (bw_streamRange w) (bw_offset w) part,
                      bw_offset := bw_offset w + length part\<rparr>, p))"

definition bw_ConstructSaveMarker :: "byte_writer \<Rightarrow> nat" where
  "bw_ConstructSaveMarker w = bw_offset w"

definition bw_GetProcessedBytesSince :: "nat \<Rightarrow> byte_writer \<Rightarrow> nat" where
  "bw_GetProcessedBytesSince marker w = bw_offset w - marker"

text \<open>
  The bytes written since the marker move to the end of the range; the result is the free space
  between. Ranges of bytes are pairs of positions in the range of the stream.
\<close>

definition bw_SaveState :: "nat \<Rightarrow> byte_writer \<Rightarrow> (byte_writer \<times> mrange) result" where
  "bw_SaveState marker w =
     (let size = length (bw_streamRange w); n = bw_offset w - marker
      in Inr (w\<lparr>bw_streamRange := overwrite (bw_streamRange w) (size - n) (take n (drop marker (bw_streamRange w)))\<rparr>,
              mr_make marker (size - n)))"

definition bw_RestoreState :: "mrange \<Rightarrow> byte_writer \<Rightarrow> byte_writer result" where
  "bw_RestoreState r w =
     (let size = length (bw_streamRange w)
      in Inr (w\<lparr>bw_streamRange := overwrite (bw_streamRange w) (beginElement r) (drop (endElement r) (bw_streamRange w)),
                bw_offset := nat (int (bw_offset w) + (int (beginElement r) - int (bw_offset w)) + (int size - int (endElement r)))\<rparr>))"

definition bw_Overwrite :: "nat \<Rightarrow> byte_writer \<Rightarrow> mrange" where
  "bw_Overwrite marker w = DiscardHead (mr_make 0 (length (bw_streamRange w))) marker"

definition bw_ok :: "byte_writer \<Rightarrow> bool" where
  "bw_ok w \<longleftrightarrow> bw_offset w \<le> length (bw_streamRange w)"

lemma bw_Insert_outcome:
  assumes "bw_ok w"
  shows "\<exists>w'. (\<forall>p. bw_Insert xs w p = bindR (ep_ReportResult (length xs \<le> bw_Available w) p) (\<lambda>p'. Inr (w', p')))
    \<and> bw_ok w' \<and> bw_Processed w' = bw_Processed w @ take (bw_Available w) xs \<and> bw_Available w' = bw_Available w - length xs"
proof -
  let ?k = "bw_offset w" and ?r = "bw_streamRange w"
  let ?ys = "take (length ?r - ?k) xs"
  let ?w = "w\<lparr>bw_streamRange := overwrite ?r ?k ?ys, bw_offset := ?k + length ?ys\<rparr>"
  have le: "?k + length ?ys \<le> length ?r" using assms by (auto simp: bw_ok_def)
  then have "bw_ok ?w" "bw_Available ?w = bw_Available w - length xs"
    by (simp_all add: bw_ok_def bw_Available_def)
  moreover have "take (?k + length ?ys) (overwrite ?r ?k ?ys) = take ?k ?r @ ?ys"
    by (rule take_overwrite [OF le])
  ultimately show ?thesis
    by (intro exI [of _ ?w]) (simp add: bw_Insert_def bw_Available_def bw_Processed_def)
qed

interpretation bw: stream_writer bw_ok bw_Processed bw_Insert bw_Available
proof
  fix w :: byte_writer and xs
  assume w: "bw_ok w"
  show "\<exists>w'. (\<forall>p. bw_Insert xs w p = bindR (ep_ReportResult True p) (\<lambda>p'. Inr (w', p')))
      \<and> bw_ok w' \<and> bw_Processed w' = bw_Processed w @ xs \<and> bw_Available w' = bw_Available w - length xs"
    if "length xs \<le> bw_Available w"
    using bw_Insert_outcome [OF w, of xs] that by auto
  show "\<exists>w'. (\<forall>p. bw_Insert xs w p = bindR (ep_ReportResult False p) (\<lambda>p'. Inr (w', p')))
      \<and> bw_ok w' \<and> bw_Processed w' = bw_Processed w @ take (bw_Available w) xs \<and> bw_Available w' = 0"
    if "bw_Available w < length xs"
    using bw_Insert_outcome [OF w, of xs] that by (auto simp: not_le)
qed

text \<open>The same for a vector: its size becomes the capacity while the state is saved.\<close>

definition bvw_SaveState :: "nat \<Rightarrow> byte bounded_vector \<Rightarrow> (byte bounded_vector \<times> mrange) result" where
  "bvw_SaveState marker v =
     (let n = bv_size v - marker
      in bindR (bv_resize (bv_max_size v) 0 v)
        (\<lambda>v'. Inr (v'\<lparr>bv_storage := overwrite (bv_storage v') (bv_size v' - n) (take n (drop marker (bv_storage v')))\<rparr>,
                   mr_make marker (bv_size v' - n))))"

definition bvw_RestoreState :: "mrange \<Rightarrow> byte bounded_vector \<Rightarrow> byte bounded_vector result" where
  "bvw_RestoreState r v =
     (let v1 = v\<lparr>bv_storage := overwrite (bv_storage v) (beginElement r) (drop (endElement r) (take (bv_size v) (bv_storage v)))\<rparr>
      in bv_resize (bv_size v1 - mr_size r) 0 v1)"

definition bvw_Overwrite :: "nat \<Rightarrow> byte bounded_vector \<Rightarrow> mrange" where
  "bvw_Overwrite marker v = DiscardHead (mr_make 0 (bv_size v)) marker"

subsection \<open>SavedMarkerStreamWriter\<close>

text \<open>
  A writer over the free space that \<^verbatim>\<open>SaveState\<close> of a stream leaves, in the memory of the stream; \<open>wr\<close> writes bytes
  at a position of that memory.
\<close>

record 's saved_marker =
  sm_stream :: 's
  sm_streamRange :: mrange
  sm_offset :: nat

definition sm_make :: "(nat \<Rightarrow> 's \<Rightarrow> ('s \<times> mrange) result) \<Rightarrow> nat \<Rightarrow> 's \<Rightarrow> 's saved_marker result" where
  "sm_make SaveState marker s =
     bindR (SaveState marker s) (\<lambda>(s', r). Inr \<lparr>sm_stream = s', sm_streamRange = r, sm_offset = 0\<rparr>)"

definition sm_Remaining :: "'s saved_marker \<Rightarrow> mrange" where
  "sm_Remaining m = mr_make (beginElement (sm_streamRange m) + sm_offset m) (endElement (sm_streamRange m))"

definition sm_destroy :: "(mrange \<Rightarrow> 's \<Rightarrow> 's result) \<Rightarrow> 's saved_marker \<Rightarrow> 's result" where
  "sm_destroy RestoreState m = RestoreState (sm_Remaining m) (sm_stream m)"

definition sm_Commit :: "'s saved_marker \<Rightarrow> 's saved_marker" where
  "sm_Commit m = m\<lparr>sm_streamRange := sm_Remaining m, sm_offset := 0\<rparr>"

definition sm_Undo :: "'s saved_marker \<Rightarrow> 's saved_marker" where
  "sm_Undo m = m\<lparr>sm_offset := 0\<rparr>"

definition sm_Insert ::
  "(nat \<Rightarrow> byte list \<Rightarrow> 's \<Rightarrow> 's) \<Rightarrow> byte list \<Rightarrow> 's saved_marker \<Rightarrow> error_policy \<Rightarrow> ('s saved_marker \<times> error_policy) result" where
  "sm_Insert wr dataRange m errorPolicy =
     bindR (ep_ReportResult (length dataRange \<le> mr_size (sm_streamRange m) - sm_offset m) errorPolicy)
       (\<lambda>p. let part = take (mr_size (sm_streamRange m) - sm_offset m) dataRange
            in Inr (m\<lparr>sm_stream := wr (beginElement (sm_streamRange m) + sm_offset m) part (sm_stream m),
                      sm_offset := sm_offset m + length part\<rparr>, p))"

definition bw_write :: "nat \<Rightarrow> byte list \<Rightarrow> byte_writer \<Rightarrow> byte_writer" where
  "bw_write i ys w = w\<lparr>bw_streamRange := overwrite (bw_streamRange w) i ys\<rparr>"

definition bvw_write :: "nat \<Rightarrow> byte list \<Rightarrow> byte bounded_vector \<Rightarrow> byte bounded_vector" where
  "bvw_write i ys v = v\<lparr>bv_storage := overwrite (bv_storage v) i (map Some ys)\<rparr>"

text \<open>What the user of a saved marker does, and what is to be inserted at the marker then.\<close>

datatype sm_action = SmInsert "byte list" | SmCommit | SmUndo

fun sm_run ::
  "(nat \<Rightarrow> byte list \<Rightarrow> 's \<Rightarrow> 's) \<Rightarrow> sm_action list \<Rightarrow> 's saved_marker \<Rightarrow> error_policy \<Rightarrow> ('s saved_marker \<times> error_policy) result" where
  "sm_run wr [] m p = Inr (m, p)"
| "sm_run wr (SmInsert ys # acts) m p = bindR (sm_Insert wr ys m p) (\<lambda>(m', p'). sm_run wr acts m' p')"
| "sm_run wr (SmCommit # acts) m p = sm_run wr acts (sm_Commit m) p"
| "sm_run wr (SmUndo # acts) m p = sm_run wr acts (sm_Undo m) p"

fun sm_result :: "sm_action list \<Rightarrow> byte list \<Rightarrow> byte list \<Rightarrow> byte list" where
  "sm_result [] committed pending = committed @ pending"
| "sm_result (SmInsert ys # acts) committed pending = sm_result acts committed (pending @ ys)"
| "sm_result (SmCommit # acts) committed pending = sm_result acts (committed @ pending) []"
| "sm_result (SmUndo # acts) committed pending = sm_result acts committed []"

fun sm_fits :: "nat \<Rightarrow> sm_action list \<Rightarrow> byte list \<Rightarrow> byte list \<Rightarrow> bool" where
  "sm_fits room [] committed pending = True"
| "sm_fits room (SmInsert ys # acts) committed pending
     = (length (committed @ pending @ ys) \<le> room \<and> sm_fits room acts committed (pending @ ys))"
| "sm_fits room (SmCommit # acts) committed pending = sm_fits room acts (committed @ pending) []"
| "sm_fits room (SmUndo # acts) committed pending = sm_fits room acts committed []"

locale marker_stream =
  fixes ok :: "'s \<Rightarrow> bool"
    and full :: "'s \<Rightarrow> bool"
    and written :: "'s \<Rightarrow> byte list"
    and mem :: "'s \<Rightarrow> byte list"
    and available :: "'s \<Rightarrow> nat"
    and save_state :: "nat \<Rightarrow> 's \<Rightarrow> ('s \<times> mrange) result"
    and restore_state :: "mrange \<Rightarrow> 's \<Rightarrow> 's result"
    and wr :: "nat \<Rightarrow> byte list \<Rightarrow> 's \<Rightarrow> 's"
  assumes save_state: "ok s \<Longrightarrow> m \<le> length (written s) \<Longrightarrow>
      \<exists>s' e. save_state m s = Inr (s', mr_make m e) \<and> full s' \<and> m + available s = e \<and> e \<le> length (mem s')
        \<and> take m (mem s') = take m (written s) \<and> drop e (mem s') = drop m (written s)"
    and wr: "full s \<Longrightarrow> i + length ys \<le> length (mem s) \<Longrightarrow> full (wr i ys s) \<and> mem (wr i ys s) = overwrite (mem s) i ys"
    and restore_state: "full s \<Longrightarrow> b \<le> e \<Longrightarrow> e \<le> length (mem s) \<Longrightarrow>
      \<exists>s'. restore_state (mr_make b e) s = Inr s' \<and> ok s' \<and> written s' = take b (mem s) @ drop e (mem s)"
begin

lemma sm_run_correct:
  assumes "full (sm_stream m)" and "sm_streamRange m = mr_make b e" and "b + sm_offset m \<le> e" and "e \<le> length (mem (sm_stream m))"
    and "take (b + sm_offset m) (mem (sm_stream m)) = hd0 @ committed @ pending"
    and "length pending = sm_offset m" and "drop e (mem (sm_stream m)) = tl0"
    and "sm_fits room acts committed pending" and "length hd0 + room = e"
  shows "\<exists>m' p' b' e'. sm_run wr acts m p = Inr (m', p') \<and> full (sm_stream m') \<and> sm_streamRange m' = mr_make b' e'
    \<and> b' + sm_offset m' \<le> e' \<and> e' \<le> length (mem (sm_stream m'))
    \<and> take (b' + sm_offset m') (mem (sm_stream m')) = hd0 @ sm_result acts committed pending
    \<and> drop e' (mem (sm_stream m')) = tl0"
  using assms
proof (induction acts arbitrary: m p b committed pending)
  case Nil
  then show ?case by auto
next
  case (Cons act acts)
  let ?mem = "mem (sm_stream m)"
  have bo: "length (hd0 @ committed @ pending) = b + sm_offset m"
    using Cons.prems(3,4) arg_cong [OF Cons.prems(5), of length] by simp
  show ?case
  proof (cases act)
    case (SmInsert ys)
    have fit: "b + sm_offset m + length ys \<le> e" using Cons.prems(8,9) bo SmInsert by simp
    let ?m = "m\<lparr>sm_stream := wr (b + sm_offset m) ys (sm_stream m), sm_offset := sm_offset m + length ys\<rparr>"
    have le: "b + sm_offset m + length ys \<le> length ?mem" using fit Cons.prems(4) by simp
    note w = wr [OF Cons.prems(1) le]
    have "take (b + sm_offset m + length ys) (overwrite ?mem (b + sm_offset m) ys) = hd0 @ committed @ pending @ ys"
      using take_overwrite [OF le] Cons.prems(5) by simp
    moreover have "drop e (overwrite ?mem (b + sm_offset m) ys) = tl0"
      using drop_overwrite [OF fit Cons.prems(4)] Cons.prems(7) by simp
    moreover have "length ys \<le> e - (b + sm_offset m)" using fit by simp
    then have "sm_Insert wr ys m p = bindR (ep_ReportResult True p) (\<lambda>p'. Inr (?m, p'))" for p
      by (simp add: sm_Insert_def Cons.prems(2) mr_make_def mr_size_def)
    ultimately show ?thesis
      using Cons.IH [of ?m b committed "pending @ ys" "p\<lparr>ep_checkedFail := (ep_failureMode p \<noteq> FailSoft)\<rparr>"]
        Cons.prems w fit le SmInsert by (simp add: add.assoc)
  next
    case SmCommit
    then show ?thesis
      using Cons.IH [of "sm_Commit m" "b + sm_offset m" "committed @ pending" "[]" p] Cons.prems
      by (simp add: sm_Commit_def sm_Remaining_def mr_make_def)
  next
    case SmUndo
    have "take b ?mem = hd0 @ committed"
      using Cons.prems(3,4,6) bo arg_cong [OF Cons.prems(5), of "take b"] by (simp add: min_def)
    then show ?thesis
      using Cons.IH [of "sm_Undo m" b committed "[]" p] Cons.prems SmUndo
      by (simp add: sm_Undo_def)
  qed
qed

lemma session:
  assumes s: "ok s" and m: "m \<le> length (written s)" and fits: "sm_fits (available s) acts [] []"
  shows "\<exists>s'. bindR (sm_make save_state m s) (\<lambda>sm. bindR (sm_run wr acts sm p) (\<lambda>(sm', p'). sm_destroy restore_state sm')) = Inr s'
    \<and> ok s' \<and> written s' = take m (written s) @ sm_result acts [] [] @ drop m (written s)"
proof -
  obtain s1 e where s1: "save_state m s = Inr (s1, mr_make m e)" "full s1" "m + available s = e" "e \<le> length (mem s1)"
      "take m (mem s1) = take m (written s)" "drop e (mem s1) = drop m (written s)"
    using save_state [OF s m] by blast
  let ?m = "\<lparr>sm_stream = s1, sm_streamRange = mr_make m e, sm_offset = 0\<rparr>"
  obtain m' p' b' e' where r: "sm_run wr acts ?m p = Inr (m', p')" "full (sm_stream m')" "sm_streamRange m' = mr_make b' e'"
      "b' + sm_offset m' \<le> e'" "e' \<le> length (mem (sm_stream m'))"
      "take (b' + sm_offset m') (mem (sm_stream m')) = take m (written s) @ sm_result acts [] []"
      "drop e' (mem (sm_stream m')) = drop m (written s)"
    using sm_run_correct [of ?m m e "take m (written s)" "[]" "[]" "drop m (written s)" "available s" acts p] s1 m fits by auto
  from restore_state [OF r(2,4,5)] r(6,7) obtain s' where
    "restore_state (mr_make (b' + sm_offset m') e') (sm_stream m') = Inr s'" "ok s'"
    "written s' = take m (written s) @ sm_result acts [] [] @ drop m (written s)" by auto
  then show ?thesis using s1(1) r(1,3)
    by (simp add: sm_make_def sm_destroy_def sm_Remaining_def mr_make_def)
qed

end

interpretation bw_marker: marker_stream bw_ok "\<lambda>_. True" bw_Processed bw_streamRange bw_Available bw_SaveState bw_RestoreState bw_write
proof
  fix s :: byte_writer and m i b e :: nat and ys :: "byte list"
  show "\<exists>s' e. bw_SaveState m s = Inr (s', mr_make m e) \<and> True \<and> m + bw_Available s = e \<and> e \<le> length (bw_streamRange s')
      \<and> take m (bw_streamRange s') = take m (bw_Processed s) \<and> drop e (bw_streamRange s') = drop m (bw_Processed s)"
    if s: "bw_ok s" and m: "m \<le> length (bw_Processed s)"
  proof -
    let ?r = "bw_streamRange s" and ?k = "bw_offset s"
    have k: "?k \<le> length ?r" "m \<le> ?k" using s m by (simp_all add: bw_ok_def bw_Processed_def)
    let ?ys = "take (?k - m) (drop m ?r)" and ?e = "length ?r - (?k - m)"
    have le: "?e + length ?ys \<le> length ?r" "length ?ys = ?k - m" using k by auto
    have "drop ?e (overwrite ?r ?e ?ys) = ?ys" "take m (overwrite ?r ?e ?ys) = take m ?r"
      using k by (simp_all add: overwrite_def)
    then show ?thesis using k le
      by (simp add: bw_SaveState_def bw_Available_def bw_Processed_def Let_def drop_take add.commute)
  qed
  show "True \<and> bw_streamRange (bw_write i ys s) = overwrite (bw_streamRange s) i ys"
    by (simp add: bw_write_def)
  show "\<exists>s'. bw_RestoreState (mr_make b e) s = Inr s' \<and> bw_ok s'
      \<and> bw_Processed s' = take b (bw_streamRange s) @ drop e (bw_streamRange s)"
    if "b \<le> e" "e \<le> length (bw_streamRange s)"
  proof -
    let ?r = "bw_streamRange s"
    have le: "b + length (drop e ?r) \<le> length ?r" using that by simp
    have n: "nat (int (bw_offset s) + (int b - int (bw_offset s)) + (int (length ?r) - int e)) = b + length (drop e ?r)"
      using that by simp
    show ?thesis
      using take_overwrite [OF le] le
      by (simp add: bw_RestoreState_def Let_def mr_make_def bw_ok_def bw_Processed_def n [simplified])
  qed
qed

definition bv_full_ok :: "'a bounded_vector \<Rightarrow> bool" where
  "bv_full_ok v \<longleftrightarrow> bv_inv v \<and> bv_size v = bv_max_size v"

lemma bv_full_storage: "bv_full_ok v \<Longrightarrow> bv_storage v = map Some (bv_list v)"
proof (rule nth_equalityI)
  assume v: "bv_full_ok v"
  then have n: "bv_numAllocated v = length (bv_storage v)" by (simp add: bv_full_ok_def bv_size_def bv_max_size_def)
  then show "length (bv_storage v) = length (map Some (bv_list v))" by (simp add: bv_list_def)
  fix i assume "i < length (bv_storage v)"
  with v n show "bv_storage v ! i = map Some (bv_list v) ! i"
    by (auto simp: bv_full_ok_def bv_inv_def alive_def bv_list_def)
qed

lemma bv_full_set:
  assumes "length ys = bv_max_size v" and "bv_numAllocated v = bv_max_size v"
  shows "bv_full_ok (v\<lparr>bv_storage := map Some ys\<rparr>)" and "bv_list (v\<lparr>bv_storage := map Some ys\<rparr>) = ys"
  using assms by (auto simp: bv_full_ok_def bv_inv_def alive_def bv_size_def bv_max_size_def bv_list_def comp_def)

lemma map_overwrite: "map f (overwrite xs i ys) = overwrite (map f xs) i (map f ys)"
  by (simp add: overwrite_def take_map drop_map)

interpretation bvw_marker: marker_stream bv_inv bv_full_ok bv_list bv_list bvw_Available bvw_SaveState bvw_RestoreState bvw_write
proof
  fix s :: "byte bounded_vector" and m i b e :: nat and ys :: "byte list"
  show "\<exists>s' e. bvw_SaveState m s = Inr (s', mr_make m e) \<and> bv_full_ok s' \<and> m + bvw_Available s = e \<and> e \<le> length (bv_list s')
      \<and> take m (bv_list s') = take m (bv_list s) \<and> drop e (bv_list s') = drop m (bv_list s)"
    if s: "bv_inv s" and m: "m \<le> length (bv_list s)"
  proof -
    have le: "bv_size s \<le> bv_max_size s" using bv_inv_le [OF s] by (simp add: bv_size_def bv_max_size_def)
    let ?L = "bv_list s" and ?N = "bv_max_size s" and ?n = "bv_size s - m"
    obtain v where v: "bv_resize ?N 0 s = Inr v" "bv_inv v" "bv_list v = ?L @ replicate (?N - bv_size s) 0" "bv_max_size v = ?N"
      using bv_resize_correct [OF s, of ?N 0] le s by auto
    have m': "m \<le> bv_size s" using m s by simp
    have size: "bv_size v = ?N" using arg_cong [OF v(3), of length] v(2) le s by simp
    then have full: "bv_full_ok v" using v(2,4) by (simp add: bv_full_ok_def)
    note st = bv_full_storage [OF full]
    let ?ys = "overwrite (bv_list v) (?N - ?n) (take ?n (drop m (bv_list v)))"
    have "length ?ys = ?N" using le m' size v(2) by simp
    then have w: "bv_full_ok (v\<lparr>bv_storage := map Some ?ys\<rparr>)" "bv_list (v\<lparr>bv_storage := map Some ?ys\<rparr>) = ?ys"
      using bv_full_set [of ?ys v] v(4) size by (simp_all add: bv_size_def)
    have "bvw_SaveState m s = Inr (v\<lparr>bv_storage := map Some ?ys\<rparr>, mr_make m (?N - ?n))"
      by (simp add: bvw_SaveState_def v(1) size st map_overwrite take_map drop_map Let_def)
    moreover have "take ?n (drop m (bv_list v)) = drop m ?L" using m' s by (simp add: v(3))
    then have "drop (?N - ?n) ?ys = drop m ?L" "take m ?ys = take m ?L"
      using m' le s size v(2) by (simp_all add: overwrite_def) (simp add: v(3) min_def)
    ultimately show ?thesis using w m' le size v(2) s \<open>length ?ys = ?N\<close>
      by (auto simp: bvw_Available_def add.commute)
  qed
  show "bv_full_ok (bvw_write i ys s) \<and> bv_list (bvw_write i ys s) = overwrite (bv_list s) i ys"
    if s: "bv_full_ok s" and i: "i + length ys \<le> length (bv_list s)"
  proof -
    have "length (overwrite (bv_list s) i ys) = bv_max_size s"
      using i s by (simp add: bv_full_ok_def)
    moreover have "bvw_write i ys s = s\<lparr>bv_storage := map Some (overwrite (bv_list s) i ys)\<rparr>"
      by (simp add: bvw_write_def bv_full_storage [OF s] map_overwrite)
    ultimately show ?thesis
      using bv_full_set [of "overwrite (bv_list s) i ys" s] s by (simp add: bv_full_ok_def bv_size_def)
  qed
  show "\<exists>s'. bvw_RestoreState (mr_make b e) s = Inr s' \<and> bv_inv s' \<and> bv_list s' = take b (bv_list s) @ drop e (bv_list s)"
    if s: "bv_full_ok s" and be: "b \<le> e" "e \<le> length (bv_list s)"
  proof -
    let ?ys = "overwrite (bv_list s) b (drop e (bv_list s))" and ?N = "bv_max_size s"
    have n: "length (bv_list s) = ?N" "bv_size s = ?N" "bv_numAllocated s = ?N"
      using s by (simp_all add: bv_full_ok_def bv_size_def)
    have ys: "length ?ys = ?N" using be n by simp
    let ?v = "s\<lparr>bv_storage := map Some ?ys\<rparr>"
    have v: "bv_full_ok ?v" "bv_list ?v = ?ys" using bv_full_set [OF ys n(3)] by simp_all
    have sz: "bv_size ?v = ?N" "bv_max_size ?v = ?N" using n ys by (simp_all add: bv_size_def bv_max_size_def)
    have "bvw_RestoreState (mr_make b e) s = bv_resize (?N - (e - b)) 0 ?v"
      using n sz by (simp add: bvw_RestoreState_def bv_full_storage [OF s] map_overwrite drop_map mr_make_def mr_size_def Let_def)
    moreover have "take (?N - (e - b)) ?ys = take b (bv_list s) @ drop e (bv_list s)"
      using take_overwrite [of b "drop e (bv_list s)" "bv_list s"] be n(1) by (simp add: add.commute)
    ultimately show ?thesis
      using bv_resize_correct [of ?v "?N - (e - b)" 0] v sz by (auto simp: bv_full_ok_def)
  qed
qed

text \<open>
  C40. Inserting at a saved marker: whatever a \<^verbatim>\<open>SavedMarkerStreamWriter\<close> writes, commits and undoes over a range or a
  vector, as long as it fits, after its destruction the stream holds what it held before the marker, then
  the bytes that were committed or not undone, then what it held behind the marker.
\<close>

theorem saved_marker_inserts_at_marker:
  assumes "marker \<le> length (bw_Processed w)" and "bw_ok w" and "sm_fits (bw_Available w) acts [] []"
    and "vmarker \<le> length (bv_list v)" and "bv_inv v" and "sm_fits (bvw_Available v) vacts [] []"
  shows "(\<exists>w'. bindR (sm_make bw_SaveState marker w) (\<lambda>m. bindR (sm_run bw_write acts m p)
        (\<lambda>(m', p'). sm_destroy bw_RestoreState m')) = Inr w' \<and> bw_ok w'
      \<and> bw_Processed w' = take marker (bw_Processed w) @ sm_result acts [] [] @ drop marker (bw_Processed w))
    \<and> (\<exists>v'. bindR (sm_make bvw_SaveState vmarker v) (\<lambda>m. bindR (sm_run bvw_write vacts m p)
        (\<lambda>(m', p'). sm_destroy bvw_RestoreState m')) = Inr v' \<and> bv_inv v'
      \<and> bv_list v' = take vmarker (bv_list v) @ sm_result vacts [] [] @ drop vmarker (bv_list v))"
  using bw_marker.session [OF assms(2,1,3), of p] bvw_marker.session [OF assms(5,4,6), of p] by blast

theorem saved_marker_inserts_at_marker_witness:
  "\<exists>w'. bindR (sm_make bw_SaveState 1 \<lparr>bw_streamRange = [1, 2, 0, 0, 0], bw_offset = 2\<rparr>)
      (\<lambda>m. bindR (sm_run bw_write [SmInsert [7], SmCommit, SmInsert [8, 9], SmUndo, SmInsert [5]] m (ep_make FailByAssertion))
        (\<lambda>(m', p'). sm_destroy bw_RestoreState m')) = Inr w' \<and> bw_Processed w' = [1, 7, 5, 2]"
proof -
  have "bv_inv \<lparr>bv_storage = [], bv_numAllocated = 0\<rparr>" by (simp add: bv_inv_def alive_def)
  then show ?thesis
    using saved_marker_inserts_at_marker [of 1 "\<lparr>bw_streamRange = [1, 2, 0, 0, 0], bw_offset = 2\<rparr>"
        "[SmInsert [7], SmCommit, SmInsert [8, 9], SmUndo, SmInsert [5]]" 0 "\<lparr>bv_storage = [], bv_numAllocated = 0\<rparr>" "[]"
        "ep_make FailByAssertion"]
    by (auto simp: bw_Processed_def bw_ok_def bw_Available_def)
qed

subsection \<open>LimitedStreamWriter\<close>

record 's limited_writer =
  lw_output :: 's
  lw_length :: nat

definition lw_make :: "'s \<Rightarrow> nat \<Rightarrow> 's limited_writer" where
  "lw_make output n = \<lparr>lw_output = output, lw_length = n\<rparr>"

definition lw_Insert ::
  "(byte list \<Rightarrow> 's \<Rightarrow> error_policy \<Rightarrow> ('s \<times> error_policy) result) \<Rightarrow>
   byte list \<Rightarrow> 's limited_writer \<Rightarrow> error_policy \<Rightarrow> ('s limited_writer \<times> error_policy) result" where
  "lw_Insert Insert rng w errorPolicy =
     bindR (ep_ReportResult (length rng \<le> lw_length w) errorPolicy)
       (\<lambda>p. let part = take (lw_length w) rng
            in bindR (Insert part (lw_output w) p)
              (\<lambda>(output', p'). Inr (w\<lparr>lw_length := lw_length w - length part, lw_output := output'\<rparr>, p')))"

definition lw_Available :: "('s \<Rightarrow> nat) \<Rightarrow> 's limited_writer \<Rightarrow> nat" where
  "lw_Available Available w = min (lw_length w) (Available (lw_output w))"

definition lw_ConstructSaveMarker :: "('s \<Rightarrow> nat) \<Rightarrow> 's limited_writer \<Rightarrow> nat" where
  "lw_ConstructSaveMarker ConstructSaveMarker w = ConstructSaveMarker (lw_output w)"

definition lw_GetProcessedBytesSince :: "(nat \<Rightarrow> 's \<Rightarrow> nat) \<Rightarrow> nat \<Rightarrow> 's limited_writer \<Rightarrow> nat" where
  "lw_GetProcessedBytesSince GetProcessedBytesSince marker w = GetProcessedBytesSince marker (lw_output w)"

definition lw_SaveState :: "(nat \<Rightarrow> 's \<Rightarrow> ('s \<times> mrange) result) \<Rightarrow> nat \<Rightarrow> 's limited_writer \<Rightarrow> ('s limited_writer \<times> mrange) result" where
  "lw_SaveState SaveState marker w =
     bindR (SaveState marker (lw_output w)) (\<lambda>(output', r). Inr (w\<lparr>lw_output := output'\<rparr>, r))"

definition lw_Overwrite :: "('s \<Rightarrow> nat) \<Rightarrow> (nat \<Rightarrow> 's \<Rightarrow> mrange) \<Rightarrow> nat \<Rightarrow> 's limited_writer \<Rightarrow> 's limited_writer \<times> mrange" where
  "lw_Overwrite ConstructSaveMarker Overwrite marker w =
     (w\<lparr>lw_length := lw_length w + (ConstructSaveMarker (lw_output w) - marker)\<rparr>, Overwrite marker (lw_output w))"

definition lw_RestoreState :: "(mrange \<Rightarrow> 's \<Rightarrow> 's result) \<Rightarrow> mrange \<Rightarrow> 's limited_writer \<Rightarrow> 's limited_writer result" where
  "lw_RestoreState RestoreState r w = bindR (RestoreState r (lw_output w)) (\<lambda>output'. Inr (w\<lparr>lw_output := output'\<rparr>))"

context stream_writer
begin

lemma limited_writer:
  "stream_writer (\<lambda>w. ok (lw_output w)) (\<lambda>w. written (lw_output w)) (lw_Insert ins) (lw_Available available)"
proof
  fix w :: "'a limited_writer" and xs
  assume w: "ok (lw_output w)"
  let ?o = "lw_output w" and ?n = "lw_length w"
  show "\<exists>w'. (\<forall>p. lw_Insert ins xs w p = bindR (ep_ReportResult True p) (\<lambda>p'. Inr (w', p')))
      \<and> ok (lw_output w') \<and> written (lw_output w') = written ?o @ xs
      \<and> lw_Available available w' = lw_Available available w - length xs"
    if fits: "length xs \<le> lw_Available available w"
  proof -
    have f: "length xs \<le> ?n" "length xs \<le> available ?o" using fits by (simp_all add: lw_Available_def)
    obtain o' where o': "\<And>p. ins xs ?o p = bindR (ep_ReportResult True p) (\<lambda>p'. Inr (o', p'))" "ok o'"
        "written o' = written ?o @ xs" "available o' = available ?o - length xs"
      using ins [OF w f(2)] by blast
    have "lw_Insert ins xs w p = bindR (ep_ReportResult True p) (\<lambda>p'. Inr (w\<lparr>lw_length := ?n - length xs, lw_output := o'\<rparr>, p'))" for p
      using f(1) by (simp add: lw_Insert_def o'(1) Let_def)
    then show ?thesis using o'
      by (intro exI [of _ "w\<lparr>lw_length := ?n - length xs, lw_output := o'\<rparr>"]) (simp add: lw_Available_def)
  qed
  show "\<exists>w'. (\<forall>p. lw_Insert ins xs w p = bindR (ep_ReportResult False p) (\<lambda>p'. Inr (w', p')))
      \<and> ok (lw_output w') \<and> written (lw_output w') = written ?o @ take (lw_Available available w) xs
      \<and> lw_Available available w' = 0"
    if much: "lw_Available available w < length xs"
  proof -
    let ?part = "take ?n xs"
    obtain o' where o': "\<And>p. ins ?part ?o p = bindR (ep_ReportResult (length ?part \<le> available ?o) p) (\<lambda>p'. Inr (o', p'))" "ok o'"
        "written o' = written ?o @ take (available ?o) ?part" "available o' = available ?o - length ?part"
      using ins_outcome [OF w, of ?part] by blast
    let ?w = "w\<lparr>lw_length := ?n - length ?part, lw_output := o'\<rparr>"
    have rep: "(length xs \<le> ?n \<and> length ?part \<le> available ?o) = False" using much by (auto simp: lw_Available_def)
    have "lw_Insert ins xs w p = bindR (ep_ReportResult False p) (\<lambda>p'. Inr (?w, p'))" for p
      unfolding lw_Insert_def Let_def o'(1) bindR_assoc ep_ReportResult_bind rep by simp
    moreover have "lw_Available available ?w = 0"
      using much o'(4) by (auto simp: lw_Available_def min_def split: if_splits)
    ultimately show ?thesis using o'
      by (intro exI [of _ ?w]) (simp add: lw_Available_def min.commute)
  qed
qed

end

text \<open>The writer \<^verbatim>\<open>SesameCobs\<close> gives to its observer.\<close>

interpretation limited_bvw: stream_writer "\<lambda>w. bv_inv (lw_output w)" "\<lambda>w. bv_list (lw_output w)" "lw_Insert bvw_Insert"
  "lw_Available bvw_Available"
  by (rule bvw.limited_writer)

subsection \<open>BufferingStreamWriter\<close>

record 's buffering_writer =
  bfw_buffer :: "byte bounded_deque"
  bfw_output :: 's
  bfw_index :: nat

definition bfw_Insert ::
  "(byte list \<Rightarrow> 's \<Rightarrow> error_policy \<Rightarrow> ('s \<times> error_policy) result) \<Rightarrow> ('s \<Rightarrow> nat) \<Rightarrow>
   byte list \<Rightarrow> 's buffering_writer \<Rightarrow> error_policy \<Rightarrow> ('s buffering_writer \<times> error_policy) result" where
  "bfw_Insert Insert Available rng w errorPolicy =
     (let fst_part = take (Available (bfw_output w)) rng
      in bindR (Insert fst_part (bfw_output w) errorPolicy)
        (\<lambda>(output', p). let w1 = w\<lparr>bfw_output := output', bfw_index := bfw_index w + length fst_part\<rparr>;
             rest = drop (length fst_part) rng
         in bindR (bd_insert_range True (bd_size (bfw_buffer w1)) rest (bfw_buffer w1))
           (\<lambda>buffer'. Inr (w1\<lparr>bfw_buffer := buffer', bfw_index := bfw_index w1 + length rest\<rparr>, p))))"

definition bfw_Available :: "('s \<Rightarrow> nat) \<Rightarrow> 's buffering_writer \<Rightarrow> nat" where
  "bfw_Available Available w = Available (bfw_output w) + bd_max_size (bfw_buffer w) - bd_size (bfw_buffer w)"

definition bfw_ConstructSaveMarker :: "'s buffering_writer \<Rightarrow> nat" where
  "bfw_ConstructSaveMarker w = bfw_index w"

definition bfw_GetProcessedBytesSince :: "nat \<Rightarrow> 's buffering_writer \<Rightarrow> nat" where
  "bfw_GetProcessedBytesSince marker w = bfw_index w - marker"

text \<open>\<^verbatim>\<open>LoadRemainder\<close> does this twice: the content of the deque may lie in two pieces.\<close>

definition bfw_LoadRange ::
  "(byte list \<Rightarrow> 's \<Rightarrow> error_policy \<Rightarrow> ('s \<times> error_policy) result) \<Rightarrow> ('s \<Rightarrow> nat) \<Rightarrow>
   's buffering_writer \<Rightarrow> error_policy \<Rightarrow> ('s buffering_writer \<times> error_policy) result" where
  "bfw_LoadRange Insert Available w p =
     (let from = take (Available (bfw_output w)) (bd_slots (bd_contiguous_range 0 (bfw_buffer w)) (bfw_buffer w))
      in bindR (Insert from (bfw_output w) p)
        (\<lambda>(output', p'). bindR (bd_erase_range True 0 (length from) (bfw_buffer w))
          (\<lambda>buffer'. Inr (w\<lparr>bfw_output := output', bfw_buffer := buffer'\<rparr>, p'))))"

definition bfw_LoadRemainder ::
  "(byte list \<Rightarrow> 's \<Rightarrow> error_policy \<Rightarrow> ('s \<times> error_policy) result) \<Rightarrow> ('s \<Rightarrow> nat) \<Rightarrow>
   's buffering_writer \<Rightarrow> 's buffering_writer result" where
  "bfw_LoadRemainder Insert Available w =
     bindR (bfw_LoadRange Insert Available w (ep_make FailByAssertion))
       (\<lambda>(w1, p). bindR (bfw_LoadRange Insert Available w1 p)
         (\<lambda>(w2, p'). Inr (w2\<lparr>bfw_index := bd_size (bfw_buffer w2)\<rparr>)))"

definition bfw_make ::
  "(byte list \<Rightarrow> 's \<Rightarrow> error_policy \<Rightarrow> ('s \<times> error_policy) result) \<Rightarrow> ('s \<Rightarrow> nat) \<Rightarrow>
   byte bounded_deque \<Rightarrow> 's \<Rightarrow> 's buffering_writer result" where
  "bfw_make Insert Available buffer output =
     bfw_LoadRemainder Insert Available \<lparr>bfw_buffer = buffer, bfw_output = output, bfw_index = 0\<rparr>"

definition bfw_written :: "('s \<Rightarrow> byte list) \<Rightarrow> 's buffering_writer \<Rightarrow> byte list" where
  "bfw_written written w = written (bfw_output w) @ bd_list (bfw_buffer w)"

definition bfw_ok :: "('s \<Rightarrow> bool) \<Rightarrow> ('s \<Rightarrow> nat) \<Rightarrow> 's buffering_writer \<Rightarrow> bool" where
  "bfw_ok ok available w \<longleftrightarrow> ok (bfw_output w) \<and> bd_inv (bfw_buffer w)
     \<and> (bd_list (bfw_buffer w) = [] \<or> available (bfw_output w) = 0)"

lemma bd_erase_front_start:
  "bd_erase_front k b = Inr b' \<Longrightarrow> bd_wf b \<Longrightarrow> k \<le> bd_max_size b \<Longrightarrow> bd_start b' = bd_index b k"
proof (induction k arbitrary: b)
  case 0
  then show ?case by (auto simp: bd_index_def bd_wf_def Let_def)
next
  case (Suc k)
  have idx: "bd_index (x\<lparr>bd_numAllocated := n\<rparr>) i = bd_index x i" for x :: "'a bounded_deque" and n i
    by (simp add: bd_index_def bd_max_size_def Let_def)
  from Suc.prems(1) obtain b1 where b1: "bd_Destruct 0 b = Inr b1"
      "bd_erase_front k (b1\<lparr>bd_numAllocated := bd_numAllocated b1 - 1, bd_start := bd_index b1 1\<rparr>) = Inr b'"
    by (auto simp: result_simps idx Let_def)
  from b1(1) have s: "bd_start b1 = bd_start b" "bd_max_size b1 = bd_max_size b"
    by (auto simp: bd_Destruct_def ss_Destruct_def result_simps bd_max_size_def split: if_splits option.splits)
  let ?b = "b1\<lparr>bd_numAllocated := bd_numAllocated b1 - 1, bd_start := bd_index b1 1\<rparr>"
  have m: "bd_max_size ?b = bd_max_size b" using s(2) by (simp add: bd_max_size_def)
  have "bd_wf ?b" using Suc.prems(2,3) s m by (auto simp: bd_wf_def bd_index_def Let_def)
  from Suc.IH [OF b1(2) this] Suc.prems m have "bd_start b' = bd_index ?b k" by simp
  also have "\<dots> = bd_index b (Suc k)"
    using Suc.prems(2,3) s m by (auto simp: bd_index_def Let_def bd_wf_def)
  finally show ?case .
qed

lemma bd_contiguous_from_0:
  assumes "bd_inv b" and "bd_start b = 0"
  shows "bd_slots (bd_contiguous_range 0 b) b = bd_list b"
proof (cases "bd_size b = 0")
  case True
  then have "bd_list b = []" using length_bd_list [OF assms(1)] by (simp flip: length_0_conv)
  then show ?thesis using True bd_contiguous_range_at_end_empty [of b] by simp
next
  case False
  then obtain k where k: "bd_slots (bd_contiguous_range 0 b) b = take k (bd_list b)" "k = bd_size b \<or> bd_index b 0 + k = bd_max_size b"
    using bd_contiguous_range_prefix [OF assms(1), of 0] by auto
  have "bd_index b 0 = 0" using assms by (simp add: bd_index_def)
  then have "bd_size b \<le> k" using k(2) bd_inv_bounds [OF assms(1)] by auto
  then show ?thesis using k(1) assms(1) by simp
qed

context stream_sink
begin

lemma buffering_sink:
  "stream_sink (bfw_ok ok available) (bfw_written written) (bfw_Insert ins available) (bfw_Available available)"
proof
  fix w :: "'s buffering_writer" and xs :: "byte list"
  assume w: "bfw_ok ok available w" and fits: "length xs \<le> bfw_Available available w"
  let ?o = "bfw_output w" and ?b = "bfw_buffer w" and ?xs = "take (available (bfw_output w)) xs"
  let ?ys = "drop (length ?xs) xs"
  have ok: "ok ?o" "bd_inv ?b" and le: "bd_size ?b \<le> bd_max_size ?b" using w bd_inv_bounds [of ?b] by (simp_all add: bfw_ok_def)
  have "length ?xs \<le> available ?o" by simp
  from ins [OF ok(1) this] obtain o' where
    o': "\<And>p. ins ?xs ?o p = bindR (ep_ReportResult True p) (\<lambda>p'. Inr (o', p'))" "ok o'"
      "written o' = written ?o @ ?xs" "available o' = available ?o - length ?xs" by blast
  have room: "bd_size ?b + length ?ys \<le> bd_max_size ?b" using fits le by (auto simp: bfw_Available_def min_def)
  obtain b' where b': "bd_insert_range True (bd_size ?b) ?ys ?b = Inr b'" "bd_inv b'" "bd_list b' = bd_list ?b @ ?ys"
      "bd_max_size b' = bd_max_size ?b"
    using bd_insert_range_correct [OF ok(2) order_refl room, of True] ok(2) by auto
  let ?w = "w\<lparr>bfw_output := o', bfw_index := bfw_index w + length ?xs + length ?ys, bfw_buffer := b'\<rparr>"
  have "bfw_Insert ins available xs w p = bindR (ep_ReportResult True p) (\<lambda>p'. Inr (?w, p'))" for p
    by (simp add: bfw_Insert_def Let_def o'(1) b'(1) del: length_take length_drop)
  moreover have "bfw_ok ok available ?w \<and> bfw_written written ?w = bfw_written written w @ xs"
  proof (cases "length xs \<le> available ?o")
    case True
    then show ?thesis using w o' b' by (auto simp: bfw_ok_def bfw_written_def)
  next
    case False
    then have "bd_list ?b = [] \<or> ?xs = []" using w by (auto simp: bfw_ok_def)
    then show ?thesis using False w o' b' by (auto simp: bfw_ok_def bfw_written_def min_def)
  qed
  moreover have "bd_size b' = bd_size ?b + length ?ys"
    using arg_cong [OF b'(3), of length] b'(2) ok(2) by (simp del: length_drop)
  then have "bfw_Available available ?w = bfw_Available available w - length xs"
    using le room o'(4) b'(4) by (auto simp: bfw_Available_def min_def)
  ultimately show "\<exists>w'. (\<forall>p. bfw_Insert ins available xs w p = bindR (ep_ReportResult True p) (\<lambda>p'. Inr (w', p')))
      \<and> bfw_ok ok available w' \<and> bfw_written written w' = bfw_written written w @ xs
      \<and> bfw_Available available w' = bfw_Available available w - length xs"
    by blast
qed

lemma LoadRange_correct:
  assumes o: "ok (bfw_output w)" and inv: "bd_inv (bfw_buffer w)"
  defines "k \<equiv> min (available (bfw_output w)) (length (bd_slots (bd_contiguous_range 0 (bfw_buffer w)) (bfw_buffer w)))"
  shows "\<exists>w' p'. bfw_LoadRange ins available w p = Inr (w', p') \<and> ok (bfw_output w') \<and> bd_inv (bfw_buffer w')
    \<and> written (bfw_output w') = written (bfw_output w) @ take k (bd_list (bfw_buffer w))
    \<and> bd_list (bfw_buffer w') = drop k (bd_list (bfw_buffer w)) \<and> available (bfw_output w') = available (bfw_output w) - k
    \<and> bd_erase_front k (bfw_buffer w) = Inr (bfw_buffer w') \<and> bd_max_size (bfw_buffer w') = bd_max_size (bfw_buffer w)
    \<and> k \<le> bd_size (bfw_buffer w)"
proof -
  let ?b = "bfw_buffer w" and ?o = "bfw_output w"
  let ?s = "bd_slots (bd_contiguous_range 0 ?b) ?b" and ?from = "take (available ?o) (bd_slots (bd_contiguous_range 0 ?b) ?b)"
  have two: "bd_list ?b = ?s @ bd_slots (bd_contiguous_range (length ?s) ?b) ?b" using bd_two_ranges [OF inv, of 0] by simp
  have "bd_size ?b = length ?s + length (bd_slots (bd_contiguous_range (length ?s) ?b) ?b)"
    using arg_cong [OF two, of length] by (simp only: length_append length_bd_list [OF inv])
  then have s: "?s = take (length ?s) (bd_list ?b)" "length ?s \<le> bd_size ?b"
    by (simp add: two, simp)
  have part: "?from = take k (bd_list ?b)" "length ?from = k" "k \<le> bd_size ?b"
    using s by (simp_all add: k_def min.commute) (metis take_take min.commute)
  have "length ?from \<le> available ?o" by simp
  from ins [OF o this] obtain o' where
    o': "\<And>p. ins ?from ?o p = bindR (ep_ReportResult True p) (\<lambda>p'. Inr (o', p'))" "ok o'"
      "written o' = written ?o @ ?from" "available o' = available ?o - length ?from" by blast
  obtain b' where b': "bd_erase_range True 0 k ?b = Inr b'" "bd_inv b'" "bd_list b' = drop k (bd_list ?b)" "bd_erase_front k ?b = Inr b'"
      "bd_max_size b' = bd_max_size ?b"
    using bd_erase_front_pops [OF inv part(3)] part(3) by (auto simp: bd_erase_range_def)
  show ?thesis
    using o' b' part by (simp add: bfw_LoadRange_def Let_def del: length_take)
qed

lemma LoadRemainder_correct:
  assumes o: "ok (bfw_output w)" and inv: "bd_inv (bfw_buffer w)"
  shows "\<exists>w'. bfw_LoadRemainder ins available w = Inr w' \<and> bfw_ok ok available w'
    \<and> bfw_written written w' = bfw_written written w \<and> bfw_Available available w' = bfw_Available available w"
proof -
  let ?b = "bfw_buffer w" and ?a = "available (bfw_output w)"
  let ?s = "bd_slots (bd_contiguous_range 0 ?b) ?b"
  define k where "k = min ?a (length ?s)"
  obtain w1 p1 where w1: "bfw_LoadRange ins available w (ep_make FailByAssertion) = Inr (w1, p1)" "ok (bfw_output w1)"
      "bd_inv (bfw_buffer w1)" "written (bfw_output w1) = written (bfw_output w) @ take k (bd_list ?b)"
      "bd_list (bfw_buffer w1) = drop k (bd_list ?b)" "available (bfw_output w1) = ?a - k"
      "bd_erase_front k ?b = Inr (bfw_buffer w1)" "bd_max_size (bfw_buffer w1) = bd_max_size ?b" "k \<le> bd_size ?b"
    using LoadRange_correct [OF o inv, of "ep_make FailByAssertion"] unfolding k_def by blast
  let ?b1 = "bfw_buffer w1"
  define j where "j = min (?a - k) (length (bd_slots (bd_contiguous_range 0 ?b1) ?b1))"
  obtain w2 p2 where w2: "bfw_LoadRange ins available w1 p1 = Inr (w2, p2)" "ok (bfw_output w2)"
      "bd_inv (bfw_buffer w2)" "written (bfw_output w2) = written (bfw_output w1) @ take j (bd_list ?b1)"
      "bd_list (bfw_buffer w2) = drop j (bd_list ?b1)" "available (bfw_output w2) = ?a - k - j"
      "bd_max_size (bfw_buffer w2) = bd_max_size ?b1" "j \<le> bd_size ?b1"
    using LoadRange_correct [OF w1(2,3), of p1] unfolding j_def w1(6) by blast
  have "bd_list (bfw_buffer w2) = [] \<or> available (bfw_output w2) = 0"
  proof (cases "?a < length ?s")
    case True
    then show ?thesis using w2(6) by (simp add: k_def)
  next
    case False
    then have ks: "k = length ?s" by (simp add: k_def)
    show ?thesis
    proof (cases "bd_list ?b1 = []")
      case True
      then show ?thesis using w2(5) by simp
    next
      case ne: False
      then have less: "k < bd_size ?b" using w1(5) inv by (metis drop_eq_Nil leI length_bd_list)
      then obtain i where i: "?s = take i (bd_list ?b)" "i = bd_size ?b \<or> bd_index ?b 0 + i = bd_max_size ?b"
        using bd_contiguous_range_prefix [OF inv, of 0] by auto
      have b: "bd_wf ?b" "bd_size ?b \<le> bd_max_size ?b" using bd_inv_bounds [OF inv] by simp_all
      have "i = k" using i(1) ks less inv by (simp add: min_def split: if_splits)
      then have "bd_index ?b 0 + k = bd_max_size ?b" using i(2) less by simp
      then have "bd_start ?b1 = 0"
        using bd_erase_front_start [OF w1(7) b(1)] less b by (auto simp: bd_index_def Let_def bd_wf_def split: if_splits)
      from bd_contiguous_from_0 [OF w1(3) this] have "j = min (?a - k) (length (bd_list ?b1))" by (simp add: j_def)
      then show ?thesis using w2(5,6) by (auto simp: min_def)
    qed
  qed
  then have "bfw_ok ok available (w2\<lparr>bfw_index := bd_size (bfw_buffer w2)\<rparr>)" using w2(2,3) by (simp add: bfw_ok_def)
  moreover have "bfw_written written (w2\<lparr>bfw_index := bd_size (bfw_buffer w2)\<rparr>) = bfw_written written w"
    using w2(4,5) w1(4,5) take_add [of k j "bd_list ?b"] append_take_drop_id [of "k + j" "bd_list ?b"]
    by (simp add: bfw_written_def add.commute)
  moreover have kj: "k + j \<le> ?a" by (simp add: j_def k_def)
  moreover have "bd_size ?b1 = bd_size ?b - k" "bd_size (bfw_buffer w2) = bd_size ?b1 - j"
    using arg_cong [OF w1(5), of length] arg_cong [OF w2(5), of length] inv w1(3) w2(3) by simp_all
  then have "bfw_Available available (w2\<lparr>bfw_index := bd_size (bfw_buffer w2)\<rparr>) = bfw_Available available w"
    using w1(8,9) w2(6,7,8) kj by (simp add: bfw_Available_def)
  ultimately show ?thesis using w1(1) w2(1) by (simp add: bfw_LoadRemainder_def)
qed

end

interpretation buffering_bvw: stream_sink "bfw_ok bv_inv bvw_Available" "bfw_written bv_list" "bfw_Insert bvw_Insert bvw_Available"
  "bfw_Available bvw_Available"
  by (rule bvw.buffering_sink)

text \<open>
  A buffering writer keeps the order of the bytes: when it is made over a deque with bytes that did not fit
  earlier, those go to the output first, as many as fit, and what is written through it then follows; output and
  buffer together hold all bytes in order, and bytes stay in the buffer only when the output is full.
\<close>

theorem buffering_writer_keeps_order:
  assumes "bv_inv output" and "bd_inv buffer"
    and room: "bd_size buffer + length (concat xss) \<le> (bv_max_size output - bv_size output) + bd_max_size buffer"
  shows "\<exists>w w' p. bfw_make bvw_Insert bvw_Available buffer output = Inr w
    \<and> write_all (bfw_Insert bvw_Insert bvw_Available) xss w (ep_make mode) = Inr (w', p)
    \<and> bv_list (bfw_output w') @ bd_list (bfw_buffer w') = bv_list output @ bd_list buffer @ concat xss
    \<and> (bd_list (bfw_buffer w') = [] \<or> bv_size (bfw_output w') = bv_max_size (bfw_output w'))"
proof -
  let ?w = "\<lparr>bfw_buffer = buffer, bfw_output = output, bfw_index = 0\<rparr>"
  obtain w where w: "bfw_make bvw_Insert bvw_Available buffer output = Inr w" "bfw_ok bv_inv bvw_Available w"
      "bfw_written bv_list w = bv_list output @ bd_list buffer" "bfw_Available bvw_Available w = bfw_Available bvw_Available ?w"
    using bvw.LoadRemainder_correct [of ?w] assms(1,2) by (auto simp: bfw_make_def bfw_written_def)
  have "length (concat xss) \<le> bfw_Available bvw_Available w"
    using room w(4) bd_inv_bounds [OF assms(2)] by (simp add: bfw_Available_def bvw_Available_def)
  from buffering_bvw.write_all_fits [OF w(2) this, of "ep_make mode"] obtain w' p where
    w': "write_all (bfw_Insert bvw_Insert bvw_Available) xss w (ep_make mode) = Inr (w', p)" "bfw_ok bv_inv bvw_Available w'"
      "bfw_written bv_list w' = bfw_written bv_list w @ concat xss" by blast
  have "bd_list (bfw_buffer w') = [] \<or> bv_size (bfw_output w') = bv_max_size (bfw_output w')"
    using w'(2) bv_inv_le [of "bfw_output w'"] by (auto simp: bfw_ok_def bvw_Available_def bv_size_def bv_max_size_def)
  with w w' show ?thesis by (auto simp: bfw_written_def)
qed

theorem buffering_writer_keeps_order_witness:
  "\<exists>w w' p. bfw_make bvw_Insert bvw_Available \<lparr>bd_storage = [Some 2, None, Some 1], bd_start = 2, bd_numAllocated = 2\<rparr>
        \<lparr>bv_storage = [Some 0, None, None, None], bv_numAllocated = 1\<rparr> = Inr w
    \<and> write_all (bfw_Insert bvw_Insert bvw_Available) [[3, 4], [5]] w (ep_make FailByAssertion) = Inr (w', p)
    \<and> bv_list (bfw_output w') @ bd_list (bfw_buffer w') = [0, 1, 2, 3, 4, 5]"
proof -
  let ?b = "\<lparr>bd_storage = [Some 2, None, Some 1], bd_start = 2, bd_numAllocated = 2\<rparr> :: byte bounded_deque"
  let ?o = "\<lparr>bv_storage = [Some 0, None, None, None], bv_numAllocated = 1\<rparr> :: byte bounded_vector"
  have v: "bd_vector ?b = \<lparr>bv_storage = [Some 1, Some 2, None], bv_numAllocated = 2\<rparr>"
    by (simp add: bd_vector_def bd_max_size_def ring_def upt_rec)
  have b: "bd_inv ?b" "bd_list ?b = [1, 2]" "bd_size ?b = 2" "bd_max_size ?b = 3"
    unfolding bd_inv_def bd_list_def v
    by (auto simp: bd_wf_def bv_inv_def alive_def bv_list_def bd_size_def bd_max_size_def less_Suc_eq numeral_eq_Suc)
  have o: "bv_inv ?o" "bv_list ?o = [0]" "bv_size ?o = 1" "bv_max_size ?o = 4"
    by (auto simp: bv_inv_def alive_def bv_list_def bv_size_def bv_max_size_def)
  show ?thesis
    using buffering_writer_keeps_order [OF o(1) b(1), of "[[3, 4], [5]]" FailByAssertion] b(2-) o(2-) by auto
qed

end
