(* ===== verification/Text_Output.thy ===== *)
theory Text_Output
  imports Stream_Writers
begin

unbundle bit_operations_syntax

section \<open>TextOutputStream: infra/stream/OutputStream.cpp\<close>

text \<open>
  Writing text to any writer: numbers in three radices with optional padding, strings, bytes as hexadecimal, ASCII and
  Base64 text, and formatted text. The operation \<^verbatim>\<open>Insert\<close> of the writer is an argument. Manipulators (\<^verbatim>\<open>stream << hex\<close>)
  make a copy of the stream that writes to the same writer; \<open>to_on\<close> runs an operation on such a copy.
\<close>

datatype radix = RadixDec | RadixBin | RadixHex

record 'w text_output =
  to_writer :: 'w
  to_errorPolicy :: error_policy
  to_radix :: radix
  to_width :: nat
  to_padding :: byte

type_synonym 'w insert_op = "byte list \<Rightarrow> 'w \<Rightarrow> error_policy \<Rightarrow> ('w \<times> error_policy) result"

definition to_make :: "'w \<Rightarrow> error_policy \<Rightarrow> 'w text_output" where
  "to_make w p = \<lparr>to_writer = w, to_errorPolicy = p, to_radix = RadixDec, to_width = 0, to_padding = 32\<rparr>"

definition to_Insert :: "'w insert_op \<Rightarrow> byte list \<Rightarrow> 'w text_output \<Rightarrow> 'w text_output result" where
  "to_Insert Insert bs t =
     bindR (Insert bs (to_writer t) (to_errorPolicy t)) (\<lambda>(w, p). Inr (t\<lparr>to_writer := w, to_errorPolicy := p\<rparr>))"

definition to_Hex :: "'w text_output \<Rightarrow> 'w text_output" where
  "to_Hex t = t\<lparr>to_radix := RadixHex\<rparr>"

definition to_Bin :: "'w text_output \<Rightarrow> 'w text_output" where
  "to_Bin t = t\<lparr>to_radix := RadixBin\<rparr>"

definition to_Dec :: "'w text_output \<Rightarrow> 'w text_output" where
  "to_Dec t = t\<lparr>to_radix := RadixDec\<rparr>"

definition to_Width :: "nat \<Rightarrow> byte \<Rightarrow> 'w text_output \<Rightarrow> 'w text_output" where
  "to_Width w padding t = t\<lparr>to_width := w, to_padding := padding\<rparr>"

definition to_on :: "('w text_output \<Rightarrow> 'w text_output) \<Rightarrow> ('w text_output \<Rightarrow> 'w text_output result) \<Rightarrow>
    'w text_output \<Rightarrow> 'w text_output result" where
  "to_on manipulate op t =
     bindR (op (manipulate t)) (\<lambda>t'. Inr (t\<lparr>to_writer := to_writer t', to_errorPolicy := to_errorPolicy t'\<rparr>))"

subsection \<open>Padding, strings and characters\<close>

primrec to_pad :: "'w insert_op \<Rightarrow> nat \<Rightarrow> 'w text_output \<Rightarrow> 'w text_output result" where
  "to_pad Insert 0 t = Inr t"
| "to_pad Insert (Suc n) t = bindR (to_Insert Insert [to_padding t] t) (to_pad Insert n)"

definition to_OutputOptionalPadding :: "'w insert_op \<Rightarrow> nat \<Rightarrow> 'w text_output \<Rightarrow> 'w text_output result" where
  "to_OutputOptionalPadding Insert n t =
     bindR (to_pad Insert (to_width t - n) t) (\<lambda>t'. Inr (t'\<lparr>to_width := 0, to_padding := 32\<rparr>))"

definition to_string :: "'w insert_op \<Rightarrow> byte list \<Rightarrow> 'w text_output \<Rightarrow> 'w text_output result" where
  "to_string Insert s t = bindR (to_OutputOptionalPadding Insert (length s) t) (to_Insert Insert s)"

definition to_char :: "'w insert_op \<Rightarrow> byte \<Rightarrow> 'w text_output \<Rightarrow> 'w text_output result" where
  "to_char Insert c t = bindR (to_OutputOptionalPadding Insert 1 t) (to_Insert Insert [c])"

definition to_Endl :: "'w insert_op \<Rightarrow> 'w text_output \<Rightarrow> 'w text_output result" where
  "to_Endl Insert t = to_string Insert [13, 10] t"

subsection \<open>Numbers\<close>

text \<open>
  The three functions \<^verbatim>\<open>OutputAsDecimal\<close>, \<^verbatim>\<open>OutputAsBinary\<close> and \<^verbatim>\<open>OutputAsHexadecimal\<close> have the same two loops: one finds the largest
  power of the radix that is not above the number, counting digits, the other divides by that power and the ones below it. The
  mask is a \<^verbatim>\<open>uint64_t\<close>.
\<close>

lemma mask_grows:
  fixes v msk :: "64 word"
  assumes "b \<le> unat (v div msk)" and "2 \<le> b" and "b \<le> 16"
  shows "unat (msk * of_nat b) = unat msk * b" "unat msk * b \<le> unat v" "0 < unat msk"
proof -
  show pos: "0 < unat msk" using assms(1,2) by (cases "unat msk = 0") (simp_all add: unat_div)
  have "b \<le> unat v div unat msk" using assms(1) by (simp add: unat_div)
  then have "unat msk * b \<le> unat msk * (unat v div unat msk)" by simp
  also have "\<dots> \<le> unat v" by simp
  finally show le: "unat msk * b \<le> unat v" .
  have "unat (of_nat b :: 64 word) = b" using assms(3) by (simp add: unat_of_nat)
  moreover have "unat msk * b < 2 ^ 64"
  proof -
    have "unat v < 2 ^ 64" using unsigned_less [of v] by simp
    with le show ?thesis by simp
  qed
  ultimately show "unat (msk * of_nat b) = unat msk * b" by (simp add: unat_mult_lem [THEN iffD1])
qed

function to_mask :: "nat \<Rightarrow> 64 word \<Rightarrow> 64 word \<Rightarrow> nat \<Rightarrow> 64 word \<times> nat" where
  "to_mask b v msk nofDigits =
     (if 2 \<le> b \<and> b \<le> 16 \<and> b \<le> unat (v div msk) then to_mask b v (msk * of_nat b) (nofDigits + 1) else (msk, nofDigits))"
  by pat_completeness auto
termination
proof (relation "measure (\<lambda>(b, v, msk, n). unat v - unat msk)", simp, clarify)
  fix b :: nat and v msk :: "64 word" and n :: nat
  assume b: "2 \<le> b" "b \<le> 16" "b \<le> unat (v div msk)"
  note m = mask_grows [OF b(3,1,2)]
  have "unat msk < unat msk * b" using m(3) b(1) by simp
  then have "unat v - unat msk * b < unat v - unat msk" using m(2) by linarith
  then show "((b, v, msk * of_nat b, n + 1), (b, v, msk, n)) \<in> measure (\<lambda>(b, v, msk, n). unat v - unat msk)"
    by (simp only: in_measure split_conv m(1))
qed

function to_digits :: "'w insert_op \<Rightarrow> (64 word \<Rightarrow> byte) \<Rightarrow> nat \<Rightarrow> 64 word \<Rightarrow> 64 word \<Rightarrow> 'w text_output \<Rightarrow> 'w text_output result" where
  "to_digits Insert digit b v msk t =
     (if 2 \<le> b \<and> b \<le> 16 \<and> msk \<noteq> 0
      then bindR (to_Insert Insert [digit (v div msk)] t) (to_digits Insert digit b v (msk div of_nat b))
      else Inr t)"
  by pat_completeness auto
termination
proof (relation "measure (\<lambda>(_, _, b, v, msk, _). unat msk)", simp, clarify)
  fix Insert :: "'w insert_op" and digit :: "64 word \<Rightarrow> byte" and b :: nat and v msk :: "64 word" and t x :: "'w text_output"
  assume b: "2 \<le> b" "b \<le> 16" "msk \<noteq> 0"
  have "unat (of_nat b :: 64 word) = b" using b(2) by (simp add: unat_of_nat)
  moreover have "0 < unat msk" using b(3) by (simp add: unat_gt_0)
  ultimately have "unat (msk div of_nat b) < unat msk" using b(1) by (simp add: unat_div)
  then show "((Insert, digit, b, v, msk div of_nat b, x), Insert, digit, b, v, msk, t) \<in> measure (\<lambda>(_, _, b, v, msk, _). unat msk)"
    by simp
qed

declare to_mask.simps [simp del] to_digits.simps [simp del]

definition to_OutputAs :: "'w insert_op \<Rightarrow> (64 word \<Rightarrow> byte) \<Rightarrow> nat \<Rightarrow> 64 word \<Rightarrow> bool \<Rightarrow> 'w text_output \<Rightarrow> 'w text_output result" where
  "to_OutputAs Insert digit b v negative t =
     (let (msk, nofDigits) = to_mask b v 1 (if negative then 2 else 1)
      in bindR (to_OutputOptionalPadding Insert nofDigits t)
        (\<lambda>t1. bindR (if negative then to_Insert Insert [45] t1 else Inr t1)
          (to_digits Insert digit b v msk)))"

definition to_OutputAsDecimal :: "'w insert_op \<Rightarrow> 64 word \<Rightarrow> bool \<Rightarrow> 'w text_output \<Rightarrow> 'w text_output result" where
  "to_OutputAsDecimal Insert = to_OutputAs Insert (\<lambda>q. ucast (q mod 10) + 48) 10"

definition to_OutputAsBinary :: "'w insert_op \<Rightarrow> 64 word \<Rightarrow> bool \<Rightarrow> 'w text_output \<Rightarrow> 'w text_output result" where
  "to_OutputAsBinary Insert = to_OutputAs Insert (\<lambda>q. 48 + ucast (q AND 1)) 2"

text \<open>The characters \<^verbatim>\<open>0123456789abcdef\<close>.\<close>

definition hexChars :: "byte list" where
  "hexChars = [48, 49, 50, 51, 52, 53, 54, 55, 56, 57, 97, 98, 99, 100, 101, 102]"

definition to_OutputAsHexadecimal :: "'w insert_op \<Rightarrow> 64 word \<Rightarrow> bool \<Rightarrow> 'w text_output \<Rightarrow> 'w text_output result" where
  "to_OutputAsHexadecimal Insert = to_OutputAs Insert (\<lambda>q. hexChars ! unat (q mod 16)) 16"

definition to_uint64 :: "'w insert_op \<Rightarrow> 64 word \<Rightarrow> 'w text_output \<Rightarrow> 'w text_output result" where
  "to_uint64 Insert v t =
     (case to_radix t of
        RadixDec \<Rightarrow> to_OutputAsDecimal Insert v False t
      | RadixBin \<Rightarrow> to_OutputAsBinary Insert v False t
      | RadixHex \<Rightarrow> to_OutputAsHexadecimal Insert v False t)"

text \<open>For the smallest \<^verbatim>\<open>int64_t\<close>, \<^verbatim>\<open>-v\<close> overflows, which has no meaning in C++.\<close>

definition to_int64 :: "'w insert_op \<Rightarrow> 64 word \<Rightarrow> 'w text_output \<Rightarrow> 'w text_output result" where
  "to_int64 Insert v t =
     (let negative = sint v < 0
      in if sint v = - (2 ^ 63) then Inl UndefinedBehaviour
         else let v = (if negative then - v else v)
              in case to_radix t of
                   RadixDec \<Rightarrow> to_OutputAsDecimal Insert v negative t
                 | RadixBin \<Rightarrow> to_OutputAsBinary Insert v negative t
                 | RadixHex \<Rightarrow> to_OutputAsHexadecimal Insert v negative t)"

text \<open>The smaller types are converted to the 64 bit ones.\<close>

definition to_uint8 :: "'w insert_op \<Rightarrow> byte \<Rightarrow> 'w text_output \<Rightarrow> 'w text_output result" where
  "to_uint8 Insert v = to_uint64 Insert (ucast v)"

definition to_uint16 :: "'w insert_op \<Rightarrow> 16 word \<Rightarrow> 'w text_output \<Rightarrow> 'w text_output result" where
  "to_uint16 Insert v = to_uint64 Insert (ucast v)"

definition to_uint32 :: "'w insert_op \<Rightarrow> 32 word \<Rightarrow> 'w text_output \<Rightarrow> 'w text_output result" where
  "to_uint32 Insert v = to_uint64 Insert (ucast v)"

definition to_int8 :: "'w insert_op \<Rightarrow> byte \<Rightarrow> 'w text_output \<Rightarrow> 'w text_output result" where
  "to_int8 Insert v = to_int64 Insert (scast v)"

definition to_int16 :: "'w insert_op \<Rightarrow> 16 word \<Rightarrow> 'w text_output \<Rightarrow> 'w text_output result" where
  "to_int16 Insert v = to_int64 Insert (scast v)"

definition to_int32 :: "'w insert_op \<Rightarrow> 32 word \<Rightarrow> 'w text_output \<Rightarrow> 'w text_output result" where
  "to_int32 Insert v = to_int64 Insert (scast v)"

subsection \<open>The text of a number\<close>

text \<open>The digits of a number in some base, most significant first, by repeated division.\<close>

fun radix_digits :: "nat \<Rightarrow> nat \<Rightarrow> nat list" where
  "radix_digits b n = (if 2 \<le> b \<and> b \<le> n then radix_digits b (n div b) @ [n mod b] else [n])"

declare radix_digits.simps [simp del]

definition radix_base :: "radix \<Rightarrow> nat" where
  "radix_base r = (case r of RadixDec \<Rightarrow> 10 | RadixBin \<Rightarrow> 2 | RadixHex \<Rightarrow> 16)"

definition number_text :: "radix \<Rightarrow> int \<Rightarrow> byte list" where
  "number_text r i = (if i < 0 then [45] else []) @ map (\<lambda>d. hexChars ! d) (radix_digits (radix_base r) (nat \<bar>i\<bar>))"

definition padded :: "nat \<Rightarrow> byte \<Rightarrow> byte list \<Rightarrow> byte list" where
  "padded w c s = replicate (w - length s) c @ s"

lemma radix_digits_length: "2 \<le> b \<Longrightarrow> n < b ^ k \<Longrightarrow> 0 < k \<Longrightarrow> length (radix_digits b n) \<le> k"
proof (induction b n arbitrary: k rule: radix_digits.induct)
  case (1 b n)
  show ?case
  proof (cases "b \<le> n")
    case True
    obtain k' where "k = Suc k'" using "1.prems" by (cases k) auto
    moreover from this have "k' \<noteq> 0" using True "1.prems" by (intro notI) simp
    ultimately have k: "k = Suc k'" "0 < k'" by simp_all
    with "1.prems" have "n div b < b ^ k'" by (simp add: less_mult_imp_div_less mult.commute)
    with "1.IH" True "1.prems" k have "length (radix_digits b (n div b)) \<le> k'" by simp
    with True "1.prems" k show ?thesis by (subst radix_digits.simps) simp
  next
    case False
    with "1.prems" show ?thesis by (subst radix_digits.simps) simp
  qed
qed

text \<open>A number between two powers of the base has the digits the quotients by the lower powers give.\<close>

lemma radix_digits_powers:
  assumes "2 \<le> b" and "n < b ^ Suc k" and "k = 0 \<or> b ^ k \<le> n"
  shows "radix_digits b n = map (\<lambda>i. n div b ^ i mod b) (rev [0..<Suc k])"
  using assms(2,3)
proof (induction k arbitrary: n)
  case 0
  then show ?case using assms(1) by (simp add: radix_digits.simps)
next
  case (Suc k)
  have "b ^ Suc k \<le> n" using Suc.prems(2) by simp
  then have "b ^ k \<le> n div b" using assms(1) by (simp add: less_eq_div_iff_mult_less_eq mult.commute)
  moreover have "n div b < b ^ Suc k" using Suc.prems(1) assms(1) by (simp add: div_less_iff_less_mult mult.commute)
  ultimately have ih: "radix_digits b (n div b) = map (\<lambda>i. n div b div b ^ i mod b) (rev [0..<Suc k])" using Suc.IH by blast
  have "b * 1 \<le> b * b ^ k" using assms(1) by (intro mult_le_mono2) simp
  then have "b \<le> n" using \<open>b ^ Suc k \<le> n\<close> by (simp only: power_Suc mult_1_right)
  then have "radix_digits b n = radix_digits b (n div b) @ [n mod b]" using assms(1) by (subst radix_digits.simps) simp
  also have "\<dots> = map (\<lambda>i. n div b ^ i mod b) (map Suc (rev [0..<Suc k]) @ [0])"
    unfolding ih by (simp add: div_mult2_eq comp_def)
  also have "map Suc (rev [0..<Suc k]) @ [0] = rev [0..<Suc (Suc k)]"
    by (metis map_Suc_upt rev.simps(2) rev_map upt_conv_Cons zero_less_Suc)
  finally show ?case .
qed

lemma unat_power: "b ^ k < 2 ^ 64 \<Longrightarrow> unat (of_nat (b ^ k) :: 64 word) = b ^ k"
  by (simp add: unat_of_nat del: of_nat_power)

lemma to_mask_power:
  fixes v :: "64 word"
  assumes b: "2 \<le> b" "b \<le> 16" and "b ^ j \<le> unat v \<or> j = 0"
  shows "\<exists>k. to_mask b v (of_nat (b ^ j)) n = (of_nat (b ^ k), n + (k - j)) \<and> j \<le> k \<and> b ^ k < 2 ^ 64
    \<and> unat v < b ^ Suc k \<and> (k = 0 \<or> b ^ k \<le> unat v)"
  using assms(3)
proof (induction "unat v - b ^ j" arbitrary: j n rule: less_induct)
  case less
  have v: "unat v < 2 ^ 64" using unsigned_less [of v] by simp
  have p: "b ^ j < 2 ^ 64" using less.prems v by (cases "j = 0") auto
  note u = unat_power [OF p]
  have q: "unat (v div of_nat (b ^ j)) = unat v div b ^ j" using u by (simp only: unat_div)
  have pos: "0 < b ^ j" using b(1) by simp
  show ?case
  proof (cases "b \<le> unat v div b ^ j")
    case True
    then have le: "b ^ Suc j \<le> unat v" using pos by (simp add: less_eq_div_iff_mult_less_eq)
    have "b ^ j < b ^ Suc j" using b(1) pos by simp
    then have less': "unat v - b ^ Suc j < unat v - b ^ j" using le by linarith
    have "to_mask b v (of_nat (b ^ j)) n = to_mask b v (of_nat (b ^ j) * of_nat b) (n + 1)"
      using True b q by (subst to_mask.simps) simp
    also have "of_nat (b ^ j) * of_nat b = (of_nat (b ^ Suc j) :: 64 word)" by simp
    finally have eq: "to_mask b v (of_nat (b ^ j)) n = to_mask b v (of_nat (b ^ Suc j)) (n + 1)" .
    from less.hyps [OF less', of "n + 1"] le obtain k where
      "to_mask b v (of_nat (b ^ Suc j)) (n + 1) = (of_nat (b ^ k), n + 1 + (k - Suc j))" "Suc j \<le> k" "b ^ k < 2 ^ 64"
      "unat v < b ^ Suc k" "k = 0 \<or> b ^ k \<le> unat v" by blast
    then show ?thesis unfolding eq by (intro exI [of _ k]) auto
  next
    case False
    then have "unat v div b ^ j < b" by simp
    then have "unat v < b ^ Suc j" using div_less_iff_less_mult [OF pos] by (simp only: power_Suc)
    moreover have "to_mask b v (of_nat (b ^ j)) n = (of_nat (b ^ j), n)" using False b q by (subst to_mask.simps) simp
    ultimately show ?thesis using p less.prems by (intro exI [of _ j]) auto
  qed
qed

text \<open>A sequence of insertions, to which all output comes down.\<close>

primrec to_inserts :: "'w insert_op \<Rightarrow> byte list list \<Rightarrow> 'w text_output \<Rightarrow> 'w text_output result" where
  "to_inserts Insert [] t = Inr t"
| "to_inserts Insert (xs # xss) t = bindR (to_Insert Insert xs t) (to_inserts Insert xss)"

lemma to_inserts_fun:
  "to_inserts Insert [] = Inr"
  "to_inserts Insert (xs # xss) = (\<lambda>t. bindR (to_Insert Insert xs t) (to_inserts Insert xss))"
  by (rule ext, simp)+

lemma to_inserts_append: "to_inserts Insert (xss @ yss) t = bindR (to_inserts Insert xss t) (to_inserts Insert yss)"
proof (induction xss arbitrary: t)
  case (Cons xs xss)
  then have "to_inserts Insert (xss @ yss) = (\<lambda>t. bindR (to_inserts Insert xss t) (to_inserts Insert yss))" by blast
  then show ?case by (simp add: bindR_assoc)
qed simp

lemma to_Insert_fields:
  "to_Insert Insert bs t = Inr t' \<Longrightarrow> to_padding t' = to_padding t \<and> to_width t' = to_width t \<and> to_radix t' = to_radix t"
  by (auto simp: to_Insert_def result_simps)

lemma to_pad_inserts: "to_pad Insert n t = to_inserts Insert (replicate n [to_padding t]) t"
proof (induction n arbitrary: t)
  case (Suc n)
  then show ?case using to_Insert_fields [of Insert "[to_padding t]" t]
    by (cases "to_Insert Insert [to_padding t] t") simp_all
qed simp

lemma to_digits_inserts:
  fixes v :: "64 word"
  assumes b: "2 \<le> b" "b \<le> 16" and "b ^ k < 2 ^ 64"
  shows "to_digits Insert digit b v (of_nat (b ^ k)) t = to_inserts Insert (map (\<lambda>i. [digit (v div of_nat (b ^ i))]) (rev [0..<Suc k])) t"
  using assms(3)
proof (induction k arbitrary: t)
  case 0
  have d: "(1 :: 64 word) div of_nat b = 0"
    using b by (simp only: word_unat_eq_iff unat_div unat_of_nat) simp
  have "to_digits Insert digit b v 0 t' = Inr t'" for t' by (subst to_digits.simps) simp
  then have "to_digits Insert digit b v 0 = Inr" by blast
  with b d show ?case by (subst to_digits.simps) (simp add: to_inserts_fun del: div_word_one of_nat_power)
next
  case (Suc k)
  have lt: "b ^ k < 2 ^ 64"
  proof -
    have "b ^ k \<le> b ^ Suc k" using b(1) by simp
    with Suc.prems show ?thesis by (rule order.strict_trans1 [rotated])
  qed
  have nz: "(of_nat (b ^ Suc k) :: 64 word) \<noteq> 0"
    using unat_power [OF Suc.prems] b(1) by (auto simp: word_unat_eq_iff)
  have "unat (of_nat b :: 64 word) = b" using b(2) by (simp add: unat_of_nat)
  then have d: "(of_nat (b ^ Suc k) :: 64 word) div of_nat b = of_nat (b ^ k)"
    using unat_power [OF Suc.prems] unat_power [OF lt] b(1) by (simp only: word_unat_eq_iff unat_div) simp
  have "to_digits Insert digit b v (of_nat (b ^ Suc k)) t
      = bindR (to_Insert Insert [digit (v div of_nat (b ^ Suc k))] t) (to_digits Insert digit b v (of_nat (b ^ k)))"
    using b nz d by (subst to_digits.simps) (simp del: of_nat_power power_Suc of_nat_mult)
  moreover have "to_digits Insert digit b v (of_nat (b ^ k))
      = to_inserts Insert (map (\<lambda>i. [digit (v div of_nat (b ^ i))]) (rev [0..<Suc k]))"
    using Suc.IH [OF lt] by blast
  moreover have "rev [0..<Suc (Suc k)] = Suc k # rev [0..<Suc k]" by simp
  ultimately show ?case by (simp only: list.map to_inserts.simps)
qed

lemma hexChars_digit: "d < 10 \<Longrightarrow> hexChars ! d = of_nat d + 48"
  by (auto simp: hexChars_def less_Suc_eq numeral_eq_Suc)

lemma digit_chars:
  fixes q :: "64 word"
  shows "ucast (q mod 10) + 48 = hexChars ! (unat q mod 10)" "48 + ucast (q AND 1) = hexChars ! (unat q mod 2)"
    "hexChars ! unat (q mod 16) = hexChars ! (unat q mod 16)"
proof -
  have "(ucast (q mod 10) :: byte) = of_nat (unat (q mod 10))" by simp
  then show "ucast (q mod 10) + 48 = hexChars ! (unat q mod 10)" by (simp add: hexChars_digit unat_mod)
  have "(ucast (q AND 1) :: byte) = of_nat (unat (q mod 2))" by (simp add: and_one_eq)
  also have "unat (q mod 2) = unat q mod 2" by (simp add: unat_mod del: One_nat_def)
  finally show "48 + ucast (q AND 1) = hexChars ! (unat q mod 2)" by (simp add: hexChars_digit add.commute)
  show "hexChars ! unat (q mod 16) = hexChars ! (unat q mod 16)" by (simp add: unat_mod)
qed

text \<open>The three functions insert the padding, the sign and the digits, one by one.\<close>

lemma to_OutputAs_inserts:
  fixes v :: "64 word" and negative :: bool
  assumes b: "2 \<le> b" "b \<le> 16" and digit: "\<And>q. digit q = hexChars ! (unat q mod b)"
  defines "str \<equiv> (if negative then [45] else []) @ map (\<lambda>d. hexChars ! d) (radix_digits b (unat v))"
  shows "to_OutputAs Insert digit b v negative t =
    bindR (to_OutputOptionalPadding Insert (length str) t) (to_inserts Insert (map (\<lambda>c. [c]) str))"
proof -
  let ?n = "if negative then 2 else 1 :: nat"
  obtain k where k: "to_mask b v 1 ?n = (of_nat (b ^ k), ?n + k)" "b ^ k < 2 ^ 64" "unat v < b ^ Suc k" "k = 0 \<or> b ^ k \<le> unat v"
    using to_mask_power [OF b, of 0 v ?n] by auto
  have q: "unat (v div of_nat (b ^ i)) = unat v div b ^ i" if "i \<le> k" for i
  proof -
    have "b ^ i \<le> b ^ k" using that b(1) by (intro power_increasing) simp_all
    with k(2) show ?thesis by (simp only: unat_div unat_power)
  qed
  have ds: "map (\<lambda>i. [digit (v div of_nat (b ^ i))]) (rev [0..<Suc k]) = map (\<lambda>c. [c]) (map (\<lambda>d. hexChars ! d) (radix_digits b (unat v)))"
    unfolding radix_digits_powers [OF b(1) k(3,4)] by (simp add: digit q del: of_nat_power)
  have len: "?n + k = length str"
    unfolding str_def radix_digits_powers [OF b(1) k(3,4)] by simp
  have "to_digits Insert digit b v (of_nat (b ^ k)) = to_inserts Insert (map (\<lambda>c. [c]) (map (\<lambda>d. hexChars ! d) (radix_digits b (unat v))))"
    using to_digits_inserts [OF b k(2), of Insert digit v] ds by auto
  then show ?thesis
    unfolding to_OutputAs_def k(1) Let_def split_conv len
    by (cases negative) (simp_all add: str_def to_inserts_fun)
qed

lemma to_uint64_inserts:
  "to_uint64 Insert v t = (let str = number_text (to_radix t) (int (unat v))
     in bindR (to_OutputOptionalPadding Insert (length str) t) (to_inserts Insert (map (\<lambda>c. [c]) str)))"
  by (cases "to_radix t")
    (simp_all add: to_uint64_def to_OutputAsDecimal_def to_OutputAsBinary_def to_OutputAsHexadecimal_def to_OutputAs_inserts
      digit_chars number_text_def radix_base_def Let_def)

lemma to_int64_inserts:
  assumes "sint v \<noteq> - (2 ^ 63)"
  shows "to_int64 Insert v t = (let str = number_text (to_radix t) (sint v)
     in bindR (to_OutputOptionalPadding Insert (length str) t) (to_inserts Insert (map (\<lambda>c. [c]) str)))"
proof -
  define u where "u = (if sint v < 0 then - v else v)"
  have "u = word_of_int \<bar>sint v\<bar>" by (simp add: u_def)
  moreover have "\<bar>sint v\<bar> < 2 ^ 64" using sint_lt [of v] sint_ge [of v] by simp
  ultimately have u: "unat u = nat \<bar>sint v\<bar>" by (simp add: unat_eq_nat_uint uint_word_of_int)
  show ?thesis
  unfolding to_int64_def Let_def u_def [symmetric]
  using assms
  by (cases "to_radix t")
    (simp_all add: to_OutputAsDecimal_def to_OutputAsBinary_def to_OutputAsHexadecimal_def to_OutputAs_inserts
      digit_chars number_text_def radix_base_def Let_def u)
qed

subsection \<open>What arrives at the writer\<close>

context stream_sink
begin

text \<open>The text \<open>bs\<close> was appended to what the writer of \<open>t\<close> had, without a failure.\<close>

definition printed :: "'s text_output \<Rightarrow> byte list \<Rightarrow> 's text_output \<Rightarrow> bool" where
  "printed t bs t' \<longleftrightarrow> ok (to_writer t') \<and> written (to_writer t') = written (to_writer t) @ bs
     \<and> available (to_writer t') = available (to_writer t) - length bs
     \<and> ep_failed (to_errorPolicy t') = ep_failed (to_errorPolicy t) \<and> to_radix t' = to_radix t"

lemma printed_trans: "printed t as t1 \<Longrightarrow> printed t1 bs t2 \<Longrightarrow> printed t (as @ bs) t2"
  by (simp add: printed_def)

lemma inserts_fit:
  assumes "ok (to_writer t)" and "length (concat xss) \<le> available (to_writer t)"
  shows "\<exists>t'. to_inserts ins xss t = Inr t' \<and> printed t (concat xss) t' \<and> to_width t' = to_width t \<and> to_padding t' = to_padding t"
  using assms
proof (induction xss arbitrary: t)
  case Nil
  then show ?case by (simp add: printed_def)
next
  case (Cons xs xss)
  obtain w where w: "\<And>p. ins xs (to_writer t) p = bindR (ep_ReportResult True p) (\<lambda>p'. Inr (w, p'))" "ok w"
      "written w = written (to_writer t) @ xs" "available w = available (to_writer t) - length xs"
    using ins [OF Cons.prems(1), of xs] Cons.prems(2) by auto
  define t1 where "t1 = t\<lparr>to_writer := w, to_errorPolicy :=
    (to_errorPolicy t)\<lparr>ep_checkedFail := (ep_failureMode (to_errorPolicy t) \<noteq> FailSoft)\<rparr>\<rparr>"
  have step: "to_Insert ins xs t = Inr t1" using w(1) by (simp add: to_Insert_def t1_def)
  have p1: "printed t xs t1" "to_width t1 = to_width t" "to_padding t1 = to_padding t" using w by (simp_all add: printed_def t1_def)
  obtain t' where "to_inserts ins xss t1 = Inr t'" "printed t1 (concat xss) t'" "to_width t' = to_width t1" "to_padding t' = to_padding t1"
  proof -
    have "ok (to_writer t1)" "length (concat xss) \<le> available (to_writer t1)" using Cons.prems(2) w(2,4) by (simp_all add: t1_def)
    from Cons.IH [OF this] show ?thesis using that by blast
  qed
  then show ?case using step p1 printed_trans [OF p1(1)] by auto
qed

lemma text_fits:
  assumes ok: "ok (to_writer t)" and room: "length (padded (to_width t) (to_padding t) (concat xss)) \<le> available (to_writer t)"
  shows "\<exists>t'. bindR (to_OutputOptionalPadding ins (length (concat xss)) t) (to_inserts ins xss) = Inr t'
    \<and> printed t (padded (to_width t) (to_padding t) (concat xss)) t' \<and> to_width t' = 0 \<and> to_padding t' = 32"
proof -
  let ?n = "to_width t - length (concat xss)"
  let ?pads = "replicate ?n [to_padding t]"
  have pads: "concat ?pads = replicate ?n (to_padding t)" by (induction ?n) (simp_all add: replicate_append_same [symmetric])
  obtain t1 where t1: "to_inserts ins ?pads t = Inr t1" "printed t (replicate ?n (to_padding t)) t1"
    using inserts_fit [OF ok, of ?pads] room unfolding pads by (auto simp: padded_def)
  let ?t1 = "t1\<lparr>to_width := 0, to_padding := 32\<rparr>"
  have p1: "printed t (replicate ?n (to_padding t)) ?t1" using t1(2) by (simp add: printed_def)
  obtain t' where "to_inserts ins xss ?t1 = Inr t'" "printed ?t1 (concat xss) t'" "to_width t' = 0" "to_padding t' = 32"
  proof -
    have "ok (to_writer ?t1)" "length (concat xss) \<le> available (to_writer ?t1)" using p1 room by (simp_all add: printed_def padded_def)
    from inserts_fit [OF this] show ?thesis using that by auto
  qed
  then show ?thesis using t1(1) printed_trans [OF p1, of "concat xss" t'] by (auto simp: to_OutputOptionalPadding_def to_pad_inserts padded_def)
qed

lemma chars_fit:
  assumes "ok (to_writer t)" and "length (padded (to_width t) (to_padding t) str) \<le> available (to_writer t)"
  shows "\<exists>t'. bindR (to_OutputOptionalPadding ins (length str) t) (to_inserts ins (map (\<lambda>c. [c]) str)) = Inr t'
    \<and> printed t (padded (to_width t) (to_padding t) str) t' \<and> to_width t' = 0 \<and> to_padding t' = 32"
proof -
  have "concat (map (\<lambda>c. [c]) str) = str" by (induction str) simp_all
  with text_fits [of t "map (\<lambda>c. [c]) str"] assms show ?thesis by simp
qed

lemma uint64_prints:
  assumes "ok (to_writer t)"
    and "length (padded (to_width t) (to_padding t) (number_text (to_radix t) (int (unat v)))) \<le> available (to_writer t)"
  shows "\<exists>t'. to_uint64 ins v t = Inr t' \<and> printed t (padded (to_width t) (to_padding t) (number_text (to_radix t) (int (unat v)))) t'
    \<and> to_width t' = 0 \<and> to_padding t' = 32"
  using chars_fit [OF assms] by (simp add: to_uint64_inserts Let_def)

lemma int64_prints:
  assumes "ok (to_writer t)" and "sint v \<noteq> - (2 ^ 63)"
    and "length (padded (to_width t) (to_padding t) (number_text (to_radix t) (sint v))) \<le> available (to_writer t)"
  shows "\<exists>t'. to_int64 ins v t = Inr t' \<and> printed t (padded (to_width t) (to_padding t) (number_text (to_radix t) (sint v))) t'
    \<and> to_width t' = 0 \<and> to_padding t' = 32"
  using chars_fit [OF assms(1,3)] to_int64_inserts [OF assms(2), of ins t] by (simp add: Let_def)

lemma string_prints:
  assumes "ok (to_writer t)" and "length (padded (to_width t) (to_padding t) s) \<le> available (to_writer t)"
  shows "\<exists>t'. to_string ins s t = Inr t' \<and> printed t (padded (to_width t) (to_padding t) s) t' \<and> to_width t' = 0 \<and> to_padding t' = 32"
proof -
  have "to_Insert ins s = to_inserts ins [s]" by (simp add: to_inserts_fun bindR_def fun_eq_iff split: sum.split)
  then show ?thesis using text_fits [of t "[s]"] assms by (simp add: to_string_def del: to_inserts.simps)
qed

lemma char_prints:
  assumes "ok (to_writer t)" and "length (padded (to_width t) (to_padding t) [c]) \<le> available (to_writer t)"
  shows "\<exists>t'. to_char ins c t = Inr t' \<and> printed t (padded (to_width t) (to_padding t) [c]) t' \<and> to_width t' = 0 \<and> to_padding t' = 32"
  using string_prints [OF assms] by (simp add: to_char_def to_string_def)

end

subsection \<open>Bytes as text, and formatted text\<close>

primrec to_AsAscii :: "'w insert_op \<Rightarrow> byte list \<Rightarrow> 'w text_output \<Rightarrow> 'w text_output result" where
  "to_AsAscii Insert [] t = Inr t"
| "to_AsAscii Insert (x # xs) t =
     bindR (if unat x < 32 \<or> 128 \<le> unat x then to_char Insert 46 t else to_char Insert x t) (to_AsAscii Insert xs)"

primrec to_AsHex :: "'w insert_op \<Rightarrow> byte list \<Rightarrow> 'w text_output \<Rightarrow> 'w text_output result" where
  "to_AsHex Insert [] t = Inr t"
| "to_AsHex Insert (x # xs) t =
     bindR (to_on (\<lambda>t. to_Width 2 48 (to_Hex t)) (to_uint8 Insert x) t) (to_AsHex Insert xs)"

text \<open>
  \<^verbatim>\<open>FormatArgs\<close>: the format is the text before its terminating zero; \<^verbatim>\<open>%1%\<close> to \<^verbatim>\<open>%9%\<close> stand for the arguments, whose output
  functions are \<open>formatters\<close>; other text behind a \<^verbatim>\<open>%\<close> loses the \<^verbatim>\<open>%\<close>, and a digit behind it is lost as well.
\<close>

function to_FormatArgs :: "'w insert_op \<Rightarrow> byte list \<Rightarrow> ('w text_output \<Rightarrow> 'w text_output result) list \<Rightarrow>
    'w text_output \<Rightarrow> 'w text_output result" where
  "to_FormatArgs Insert format formatters t =
     (if format = [] then Inr t
      else let start = takeWhile (\<lambda>c. c \<noteq> 37) format; rest = drop (length start) format
           in bindR (to_Insert Insert start t)
             (\<lambda>t. if rest = [] then Inr t
                  else let f = tl rest
                       in if f \<noteq> [] \<and> 49 \<le> unat (hd f) \<and> unat (hd f) \<le> 57
                          then if tl f \<noteq> [] \<and> hd (tl f) = 37
                               then let index = unat (hd f) - 49
                                    in bindR (if index < length formatters then (formatters ! index) t else Inr t)
                                      (to_FormatArgs Insert (tl (tl f)) formatters)
                               else to_FormatArgs Insert (tl f) formatters t
                          else to_FormatArgs Insert f formatters t))"
  by pat_completeness auto
termination
  by (relation "measure (\<lambda>(_, format, _, _). length format)") (auto simp: Suc_diff_Suc length_greater_0_conv [symmetric] simp del: length_greater_0_conv)

declare to_FormatArgs.simps [simp del]

end
