(* ===== verification/Text_Input.thy ===== *)
theory Text_Input
  imports Text_Output
begin

section \<open>TextInputStream: infra/stream/InputStream.cpp\<close>

text \<open>
  Reading text from any reader: numbers in decimal and hexadecimal with leading spaces and a sign, and literals. The
  operations of the reader are the record \<open>reader_ops\<close>. The loops end when the reader runs out of matching
  characters, which depends on the reader, so they have fuel; a reader with fewer bytes left than fuel never uses it up.
  What is printed by \<^verbatim>\<open>TextOutputStream\<close> is read back. Reading a \<^verbatim>\<open>float\<close> is not modelled.
\<close>

record 'r reader_ops =
  ro_Extract :: "byte list \<Rightarrow> 'r \<Rightarrow> error_policy \<Rightarrow> (byte list \<times> 'r \<times> error_policy) result"
  ro_Peek :: "'r \<Rightarrow> error_policy \<Rightarrow> (byte \<times> error_policy) result"
  ro_Empty :: "'r \<Rightarrow> bool"

record 'r text_input =
  ti_reader :: 'r
  ti_errorPolicy :: error_policy
  ti_isDecimal :: bool
  ti_width :: "nat option"

definition ti_make :: "'r \<Rightarrow> error_policy \<Rightarrow> 'r text_input" where
  "ti_make r p = \<lparr>ti_reader = r, ti_errorPolicy = p, ti_isDecimal = True, ti_width = None\<rparr>"

definition ti_Hex :: "'r text_input \<Rightarrow> 'r text_input" where
  "ti_Hex t = t\<lparr>ti_isDecimal := False\<rparr>"

definition ti_Width :: "nat \<Rightarrow> 'r text_input \<Rightarrow> 'r text_input" where
  "ti_Width w t = t\<lparr>ti_width := Some w\<rparr>"

definition ti_Peek :: "'r reader_ops \<Rightarrow> 'r text_input \<Rightarrow> (byte \<times> 'r text_input) result" where
  "ti_Peek R t = bindR (ro_Peek R (ti_reader t) (ti_errorPolicy t)) (\<lambda>(c, p). Inr (c, t\<lparr>ti_errorPolicy := p\<rparr>))"

definition ti_Report :: "bool \<Rightarrow> 'r text_input \<Rightarrow> 'r text_input result" where
  "ti_Report good t = bindR (ep_ReportResult good (ti_errorPolicy t)) (\<lambda>p. Inr (t\<lparr>ti_errorPolicy := p\<rparr>))"

definition ti_text :: "'r reader_ops \<Rightarrow> byte list \<Rightarrow> 'r text_input \<Rightarrow> (byte list \<times> 'r text_input) result" where
  "ti_text R dst t = bindR (ro_Extract R dst (ti_reader t) (ti_errorPolicy t))
     (\<lambda>(s, r, p). Inr (s, t\<lparr>ti_reader := r, ti_errorPolicy := p\<rparr>))"

text \<open>Extraction of one character into a variable that holds \<open>c\<close>.\<close>

definition ti_char :: "'r reader_ops \<Rightarrow> byte \<Rightarrow> 'r text_input \<Rightarrow> (byte \<times> 'r text_input) result" where
  "ti_char R c t = bindR (ti_text R [c] t) (\<lambda>(s, t'). Inr (hd s, t'))"

text \<open>The literal is the text before its terminating zero; the variable the characters are extracted to starts with some value \<open>c\<close>.\<close>

fun ti_literal :: "'r reader_ops \<Rightarrow> byte \<Rightarrow> byte list \<Rightarrow> 'r text_input \<Rightarrow> 'r text_input result" where
  "ti_literal R c [] t = Inr t"
| "ti_literal R c (l # ls) t =
     bindR (ti_char R c t) (\<lambda>(c', t1). bindR (ti_Report (c' = l) t1) (ti_literal R c ls))"

fun ti_spaces :: "'r reader_ops \<Rightarrow> nat \<Rightarrow> byte \<Rightarrow> 'r text_input \<Rightarrow> 'r text_input result" where
  "ti_spaces R 0 c t = Inl OutOfFuel"
| "ti_spaces R (Suc fuel) c t =
     (if c = 32 then bindR (ti_char R c t) (\<lambda>(_, t1). bindR (ti_Peek R t1) (\<lambda>(c', t2). ti_spaces R fuel c' t2)) else Inr t)"

definition ti_SkipSpaces :: "'r reader_ops \<Rightarrow> nat \<Rightarrow> 'r text_input \<Rightarrow> 'r text_input result" where
  "ti_SkipSpaces R fuel t = bindR (ti_Peek R t) (\<lambda>(c, t1). ti_spaces R fuel c t1)"

subsection \<open>Numbers\<close>

text \<open>
  The step of the loop for a character: the next value, or none when the character is not a digit. The
  value has the width of the variable and wraps.
\<close>

definition decimal_step :: "('l::len) word \<Rightarrow> byte \<Rightarrow> 'l word option" where
  "decimal_step v c = (if 48 \<le> unat c \<and> unat c \<le> 57 then Some (v * 10 + of_nat (unat c - 48)) else None)"

definition hex_step :: "('l::len) word \<Rightarrow> byte \<Rightarrow> 'l word option" where
  "hex_step v c =
     (if 48 \<le> unat c \<and> unat c \<le> 57 then Some (push_bit 4 v + of_nat (unat c - 48))
      else if 97 \<le> unat c \<and> unat c \<le> 102 then Some (push_bit 4 v + of_nat (unat c - 97) + 10)
      else if 65 \<le> unat c \<and> unat c \<le> 70 then Some (push_bit 4 v + of_nat (unat c - 65) + 10)
      else None)"

fun ti_digits :: "'r reader_ops \<Rightarrow> (('l::len) word \<Rightarrow> byte \<Rightarrow> 'l word option) \<Rightarrow> nat \<Rightarrow> nat \<Rightarrow> 'l word \<Rightarrow> 'r text_input \<Rightarrow>
    ('l word \<times> 'r text_input) result" where
  "ti_digits R step 0 i v t = Inl OutOfFuel"
| "ti_digits R step (Suc fuel) i v t =
     (if (ti_width t \<noteq> Some i \<and> \<not> ro_Empty R (ti_reader t)) \<or> i = 0
      then bindR (ti_Peek R t)
        (\<lambda>(c, t1). case step v c of
            Some v' \<Rightarrow> bindR (ti_char R c t1) (\<lambda>(_, t2). ti_digits R step fuel (i + 1) v' t2)
          | None \<Rightarrow> bindR (ti_Report (0 < i) t1) (\<lambda>t2. Inr (v, t2)))
      else Inr (v, t))"

definition ti_unsigned :: "(('l::len) word \<Rightarrow> byte \<Rightarrow> 'l word option) \<Rightarrow> 'r reader_ops \<Rightarrow> nat \<Rightarrow> 'r text_input \<Rightarrow>
    ('l word \<times> 'r text_input) result" where
  "ti_unsigned step R fuel t = bindR (ti_SkipSpaces R fuel t) (ti_digits R step fuel 0 0)"

definition ti_signed :: "(('l::len) word \<Rightarrow> byte \<Rightarrow> 'l word option) \<Rightarrow> 'r reader_ops \<Rightarrow> nat \<Rightarrow> 'r text_input \<Rightarrow>
    ('l word \<times> 'r text_input) result" where
  "ti_signed step R fuel t =
     bindR (ti_SkipSpaces R fuel t)
       (\<lambda>t1. bindR (ti_Peek R t1)
         (\<lambda>(c, t2). bindR (if c = 45 then bindR (ti_char R c t2) (\<lambda>(_, t3). Inr (-1, t3)) else Inr (1, t2))
           (\<lambda>(v, t4). bindR (ti_unsigned step R fuel t4) (\<lambda>(vp, t5). Inr (v * vp, t5)))))"

definition ti_ReadAsDecimal_uint32 :: "'r reader_ops \<Rightarrow> nat \<Rightarrow> 'r text_input \<Rightarrow> (32 word \<times> 'r text_input) result" where
  "ti_ReadAsDecimal_uint32 = ti_unsigned decimal_step"

definition ti_ReadAsDecimal_uint64 :: "'r reader_ops \<Rightarrow> nat \<Rightarrow> 'r text_input \<Rightarrow> (64 word \<times> 'r text_input) result" where
  "ti_ReadAsDecimal_uint64 = ti_unsigned decimal_step"

definition ti_ReadAsDecimal_int32 :: "'r reader_ops \<Rightarrow> nat \<Rightarrow> 'r text_input \<Rightarrow> (32 word \<times> 'r text_input) result" where
  "ti_ReadAsDecimal_int32 = ti_signed decimal_step"

definition ti_ReadAsDecimal_int64 :: "'r reader_ops \<Rightarrow> nat \<Rightarrow> 'r text_input \<Rightarrow> (64 word \<times> 'r text_input) result" where
  "ti_ReadAsDecimal_int64 = ti_signed decimal_step"

definition ti_ReadAsHex_uint32 :: "'r reader_ops \<Rightarrow> nat \<Rightarrow> 'r text_input \<Rightarrow> (32 word \<times> 'r text_input) result" where
  "ti_ReadAsHex_uint32 = ti_unsigned hex_step"

definition ti_ReadAsHex_uint64 :: "'r reader_ops \<Rightarrow> nat \<Rightarrow> 'r text_input \<Rightarrow> (64 word \<times> 'r text_input) result" where
  "ti_ReadAsHex_uint64 = ti_unsigned hex_step"

definition ti_ReadAsHex_int32 :: "'r reader_ops \<Rightarrow> nat \<Rightarrow> 'r text_input \<Rightarrow> (32 word \<times> 'r text_input) result" where
  "ti_ReadAsHex_int32 = ti_signed hex_step"

definition ti_ReadAsHex_int64 :: "'r reader_ops \<Rightarrow> nat \<Rightarrow> 'r text_input \<Rightarrow> (64 word \<times> 'r text_input) result" where
  "ti_ReadAsHex_int64 = ti_signed hex_step"

definition ti_int32 :: "'r reader_ops \<Rightarrow> nat \<Rightarrow> 'r text_input \<Rightarrow> (32 word \<times> 'r text_input) result" where
  "ti_int32 R fuel t = (if ti_isDecimal t then ti_ReadAsDecimal_int32 R fuel t else ti_ReadAsHex_int32 R fuel t)"

definition ti_int64 :: "'r reader_ops \<Rightarrow> nat \<Rightarrow> 'r text_input \<Rightarrow> (64 word \<times> 'r text_input) result" where
  "ti_int64 R fuel t = (if ti_isDecimal t then ti_ReadAsDecimal_int64 R fuel t else ti_ReadAsHex_int64 R fuel t)"

definition ti_uint32 :: "'r reader_ops \<Rightarrow> nat \<Rightarrow> 'r text_input \<Rightarrow> (32 word \<times> 'r text_input) result" where
  "ti_uint32 R fuel t = (if ti_isDecimal t then ti_ReadAsDecimal_uint32 R fuel t else ti_ReadAsHex_uint32 R fuel t)"

definition ti_uint64 :: "'r reader_ops \<Rightarrow> nat \<Rightarrow> 'r text_input \<Rightarrow> (64 word \<times> 'r text_input) result" where
  "ti_uint64 R fuel t = (if ti_isDecimal t then ti_ReadAsDecimal_uint64 R fuel t else ti_ReadAsHex_uint64 R fuel t)"

text \<open>The smaller types are read as 32 bit numbers and cut.\<close>

definition ti_int8 :: "'r reader_ops \<Rightarrow> nat \<Rightarrow> 'r text_input \<Rightarrow> (byte \<times> 'r text_input) result" where
  "ti_int8 R fuel t = bindR (ti_int32 R fuel t) (\<lambda>(v, t'). Inr (ucast v, t'))"

definition ti_int16 :: "'r reader_ops \<Rightarrow> nat \<Rightarrow> 'r text_input \<Rightarrow> (16 word \<times> 'r text_input) result" where
  "ti_int16 R fuel t = bindR (ti_int32 R fuel t) (\<lambda>(v, t'). Inr (ucast v, t'))"

definition ti_uint8 :: "'r reader_ops \<Rightarrow> nat \<Rightarrow> 'r text_input \<Rightarrow> (byte \<times> 'r text_input) result" where
  "ti_uint8 R fuel t = bindR (ti_uint32 R fuel t) (\<lambda>(v, t'). Inr (ucast v, t'))"

definition ti_uint16 :: "'r reader_ops \<Rightarrow> nat \<Rightarrow> 'r text_input \<Rightarrow> (16 word \<times> 'r text_input) result" where
  "ti_uint16 R fuel t = bindR (ti_uint32 R fuel t) (\<lambda>(v, t'). Inr (ucast v, t'))"

subsection \<open>Reading what is there\<close>

text \<open>The value of a character as a digit of a base.\<close>

definition digit_value :: "nat \<Rightarrow> byte \<Rightarrow> nat option" where
  "digit_value b c =
     (if 48 \<le> unat c \<and> unat c \<le> 57 then Some (unat c - 48)
      else if b = 16 \<and> 97 \<le> unat c \<and> unat c \<le> 102 then Some (unat c - 87)
      else if b = 16 \<and> 65 \<le> unat c \<and> unat c \<le> 70 then Some (unat c - 55)
      else None)"

lemma decimal_step_value: "decimal_step v c = map_option (\<lambda>d. v * of_nat 10 + of_nat d) (digit_value 10 c)"
  by (simp add: decimal_step_def digit_value_def)

lemma hex_step_value: "hex_step v c = map_option (\<lambda>d. v * of_nat 16 + of_nat d) (digit_value 16 c)"
proof -
  have "(of_nat (n - 97) + 10 :: 'a word) = of_nat (n - 87)" if "97 \<le> n" for n
    using that of_nat_add [of "n - 97" 10, where 'a = "'a word"] by simp
  moreover have "(of_nat (n - 65) + 10 :: 'a word) = of_nat (n - 55)" if "65 \<le> n" for n
    using that of_nat_add [of "n - 65" 10, where 'a = "'a word"] by simp
  ultimately show ?thesis by (simp add: hex_step_def digit_value_def push_bit_eq_mult add.assoc)
qed

lemma foldl_radix_digits: "2 \<le> b \<Longrightarrow> foldl (\<lambda>a d. a * b + d) 0 (radix_digits b n) = n"
  by (induction b n rule: radix_digits.induct) (subst radix_digits.simps, simp)

lemma radix_digits_less: "2 \<le> b \<Longrightarrow> d \<in> set (radix_digits b n) \<Longrightarrow> d < b"
  by (induction b n rule: radix_digits.induct) (subst (asm) (2) radix_digits.simps, auto split: if_splits)

lemma radix_digits_not_Nil [simp]: "radix_digits b n \<noteq> []"
  by (subst radix_digits.simps) simp

lemma digit_value_hexChars: "d < b \<Longrightarrow> b = 10 \<or> b = 16 \<Longrightarrow> digit_value b (hexChars ! d) = Some d"
proof -
  assume d: "d < b" and b: "b = 10 \<or> b = 16"
  have "list_all (\<lambda>d. digit_value 10 (hexChars ! d) = Some d) [0..<10]" "list_all (\<lambda>d. digit_value 16 (hexChars ! d) = Some d) [0..<16]"
    by code_simp+
  then show ?thesis using d b by (auto simp: list_all_iff)
qed

context stream_reader
begin

definition ops :: "'a reader_ops" where
  "ops = \<lparr>ro_Extract = ext, ro_Peek = peek, ro_Empty = is_empty\<rparr>"

text \<open>The stream has the bytes \<open>u\<close> left; an operation has not failed and has left the manipulators alone.\<close>

definition at :: "'a text_input \<Rightarrow> byte list \<Rightarrow> bool" where
  "at t u \<longleftrightarrow> ok (ti_reader t) \<and> unread (ti_reader t) = u"

definition same_mode :: "'a text_input \<Rightarrow> 'a text_input \<Rightarrow> bool" where
  "same_mode t t' \<longleftrightarrow> ep_failed (ti_errorPolicy t') = ep_failed (ti_errorPolicy t)
     \<and> ti_isDecimal t' = ti_isDecimal t \<and> ti_width t' = ti_width t"

lemma same_mode_trans [trans]: "same_mode t t1 \<Longrightarrow> same_mode t1 t2 \<Longrightarrow> same_mode t t2"
  by (simp add: same_mode_def)

lemma peek_char:
  assumes "at t (c # u)"
  obtains t' where "ti_Peek ops t = Inr (c, t')" "at t' (c # u)" "same_mode t t'"
proof -
  let ?r = "ti_reader t"
  have u: "drop (pos ?r) (total ?r) = c # u" using assms by (simp add: at_def unread_def)
  then have lt: "pos ?r < length (total ?r)" by (metis drop_eq_Nil list.distinct(1) not_le)
  moreover have "total ?r ! pos ?r = c" using hd_drop_conv_nth [OF lt] u by simp
  ultimately have "ti_Peek ops t = Inr (c, t\<lparr>ti_errorPolicy := (ti_errorPolicy t)\<lparr>ep_checkedFail := (ep_failureMode (ti_errorPolicy t) \<noteq> FailSoft)\<rparr>\<rparr>)"
    using peek [of ?r "ti_errorPolicy t"] assms by (simp add: ti_Peek_def ops_def at_def)
  then show ?thesis using that assms by (simp add: at_def same_mode_def)
qed

lemma take_char:
  assumes "at t (c # u)"
  obtains t' where "ti_char ops d t = Inr (c, t')" "at t' u" "same_mode t t'"
proof -
  obtain r p where r: "ext [d] (ti_reader t) (ti_errorPolicy t) = Inr ([c], r, p)" "ok r" "unread r = u"
      "ep_failed p = ep_failed (ti_errorPolicy t)"
    using ext_succeeds [of "ti_reader t" "[d]" "ti_errorPolicy t"] assms by (auto simp: at_def)
  then have "ti_char ops d t = Inr (c, t\<lparr>ti_reader := r, ti_errorPolicy := p\<rparr>)"
    by (simp add: ti_char_def ti_text_def ops_def)
  then show ?thesis using that r by (simp add: at_def same_mode_def)
qed

lemma not_empty: "at t u \<Longrightarrow> ro_Empty ops (ti_reader t) \<longleftrightarrow> u = []"
  using is_empty [of "ti_reader t"] pos_le [of "ti_reader t"] by (auto simp: at_def ops_def unread_def)

lemma spaces_skipped:
  assumes "at t (replicate k 32 @ c # u)" and "c \<noteq> 32" and "k < fuel"
  obtains t' where "ti_SkipSpaces ops fuel t = Inr t'" "at t' (c # u)" "same_mode t t'"
proof -
  have loop: "\<exists>t'. ti_spaces ops fuel (hd (replicate k 32 @ c # u)) t = Inr t' \<and> at t' (c # u) \<and> same_mode t t'"
    if "at t (replicate k 32 @ c # u)" "k < fuel" for t k fuel
    using that
  proof (induction k arbitrary: t fuel)
    case 0
    then show ?case using assms(2) by (cases fuel) (auto simp: same_mode_def)
  next
    case (Suc k)
    then obtain f where f: "fuel = Suc f" "k < f" by (cases fuel) auto
    from Suc.prems(1) have "at t (32 # replicate k 32 @ c # u)" by simp
    then obtain t1 where t1: "ti_char ops 32 t = Inr (32, t1)" "at t1 (replicate k 32 @ c # u)" "same_mode t t1" by (rule take_char)
    obtain x xs where x: "replicate k 32 @ c # u = x # xs" by (cases k) auto
    with t1(2) obtain t2 where t2: "ti_Peek ops t1 = Inr (x, t2)" "at t2 (replicate k 32 @ c # u)" "same_mode t1 t2"
      using peek_char [of t1 x xs] by auto
    obtain t' where t': "ti_spaces ops f x t2 = Inr t'" "at t' (c # u)" "same_mode t2 t'"
      using Suc.IH [OF t2(2) f(2)] x by auto
    have "same_mode t t'" using t1(3) t2(3) t'(3) by (blast intro: same_mode_trans)
    then show ?case using f(1) t1(1) t2(1) t'(1,2) by simp
  qed
  obtain x xs where x: "replicate k 32 @ c # u = x # xs" by (cases k) auto
  with assms(1) obtain t1 where t1: "ti_Peek ops t = Inr (x, t1)" "at t1 (replicate k 32 @ c # u)" "same_mode t t1"
    using peek_char [of t x xs] by auto
  from loop [OF t1(2) assms(3)] obtain t' where t': "ti_spaces ops fuel x t1 = Inr t'" "at t' (c # u)" "same_mode t1 t'" using x by auto
  show ?thesis
    by (rule that [of t']) (use t1 t' in \<open>simp_all add: ti_SkipSpaces_def same_mode_trans [OF t1(3) t'(3)]\<close>)
qed

text \<open>
  A loop over digits reads all of them, up to the end or the first other character, when no width is set.
\<close>

lemma digits_read:
  fixes step :: "('l::len) word \<Rightarrow> byte \<Rightarrow> 'l word option"
  assumes step: "\<And>v c. step v c = map_option (\<lambda>d. v * of_nat b + of_nat d) (digit_value b c)"
    and stop: "u = [] \<or> digit_value b (hd u) = None"
    and "at t (cs @ u)" and "map (digit_value b) cs = map Some ds" and "cs \<noteq> [] \<or> 0 < i" and "ti_width t = None" and "length cs < fuel"
  shows "\<exists>t'. ti_digits ops step fuel i (of_nat a) t = Inr (of_nat (foldl (\<lambda>a d. a * b + d) a ds), t') \<and> at t' u \<and> same_mode t t'"
  using assms(3-)
proof (induction cs arbitrary: t ds i a fuel)
  case Nil
  then obtain f where f: "fuel = Suc f" by (cases fuel) auto
  have ds: "ds = []" using Nil.prems(2) by simp
  show ?case
  proof (cases u)
    case Nil': Nil
    then have "ro_Empty ops (ti_reader t)" using not_empty [OF Nil.prems(1)] by simp
    then show ?thesis using Nil.prems f ds Nil' by (simp add: same_mode_def)
  next
    case (Cons x xs)
    have "at t (x # xs)" using Nil.prems(1) Cons by simp
    then obtain t1 where t1: "ti_Peek ops t = Inr (x, t1)" "at t1 (x # xs)" "same_mode t t1" by (rule peek_char)
    have none: "step v x = None" for v using step stop Cons by simp
    have "ti_digits ops step fuel i (of_nat a) t
        = Inr (of_nat a, t1\<lparr>ti_errorPolicy := (ti_errorPolicy t1)\<lparr>ep_checkedFail := (ep_failureMode (ti_errorPolicy t1) \<noteq> FailSoft)\<rparr>\<rparr>)"
      using Nil.prems(3,4) not_empty [OF Nil.prems(1)] f Cons t1(1) none by (simp add: ti_Report_def)
    then show ?thesis using t1(2,3) ds Cons by (simp add: at_def same_mode_def)
  qed
next
  case (Cons c cs)
  obtain d ds' where ds: "ds = d # ds'" "digit_value b c = Some d" "map (digit_value b) cs = map Some ds'"
    using Cons.prems(2) by (cases ds) auto
  obtain f where f: "fuel = Suc f" "length cs < f" using Cons.prems(5) by (cases fuel) auto
  have "at t (c # cs @ u)" using Cons.prems(1) by simp
  then obtain t1 where t1: "ti_Peek ops t = Inr (c, t1)" "at t1 (c # cs @ u)" "same_mode t t1" by (rule peek_char)
  from t1(2) obtain t2 where t2: "ti_char ops c t1 = Inr (c, t2)" "at t2 (cs @ u)" "same_mode t1 t2" by (rule take_char)
  have w: "ti_width t2 = None" using Cons.prems(4) t1(3) t2(3) by (simp add: same_mode_def)
  have "step (of_nat a) c = Some (of_nat (a * b + d))" using step ds(2) by simp
  then have "ti_digits ops step fuel i (of_nat a) t = ti_digits ops step f (i + 1) (of_nat (a * b + d)) t2"
    using f(1) t1(1) t2(1) Cons.prems(4) not_empty [OF Cons.prems(1)] by simp
  moreover obtain t' where "ti_digits ops step f (i + 1) (of_nat (a * b + d)) t2
      = Inr (of_nat (foldl (\<lambda>a d. a * b + d) (a * b + d) ds'), t')" "at t' u" "same_mode t2 t'"
    using Cons.IH [OF t2(2) ds(3) _ w f(2), of "i + 1" "a * b + d"] by auto
  ultimately show ?case using ds(1) same_mode_trans [OF t1(3) same_mode_trans [OF t2(3)]] by auto
qed

lemma digit_not_special: "digit_value b c = Some d \<Longrightarrow> c \<noteq> 32 \<and> c \<noteq> 45"
  by (auto simp: digit_value_def split: if_splits)

lemma unsigned_read:
  fixes step :: "('l::len) word \<Rightarrow> byte \<Rightarrow> 'l word option"
  assumes step: "\<And>v c. step v c = map_option (\<lambda>d. v * of_nat b + of_nat d) (digit_value b c)"
    and stop: "u = [] \<or> digit_value b (hd u) = None"
    and t: "at t (replicate k 32 @ cs @ u)" and cs: "map (digit_value b) cs = map Some ds" "cs \<noteq> []"
    and "ti_width t = None" and "k + length cs < fuel"
  shows "\<exists>t'. ti_unsigned step ops fuel t = Inr (of_nat (foldl (\<lambda>a d. a * b + d) 0 ds), t') \<and> at t' u \<and> same_mode t t'"
proof -
  obtain c cs' where c: "cs = c # cs'" using cs(2) by (cases cs) auto
  then obtain d where "digit_value b c = Some d" using cs(1) by (cases ds) auto
  then have "c \<noteq> 32" using digit_not_special by blast
  moreover have "at t (replicate k 32 @ c # cs' @ u)" "k < fuel" using t c assms(7) by simp_all
  ultimately obtain t1 where t1: "ti_SkipSpaces ops fuel t = Inr t1" "at t1 (c # cs' @ u)" "same_mode t t1"
    using spaces_skipped by metis
  have "at t1 (cs @ u)" "ti_width t1 = None" using t1 c assms(6) by (simp_all add: same_mode_def)
  from digits_read [OF step stop this(1) cs(1) _ this(2), of 0 fuel 0] obtain t' where
    "ti_digits ops step fuel 0 0 t1 = Inr (of_nat (foldl (\<lambda>a d. a * b + d) 0 ds), t')" "at t' u" "same_mode t1 t'"
    using cs(2) assms(7) by auto
  then show ?thesis using t1 same_mode_trans [OF t1(3)] by (auto simp: ti_unsigned_def)
qed

lemma signed_read:
  fixes step :: "('l::len) word \<Rightarrow> byte \<Rightarrow> 'l word option"
  assumes step: "\<And>v c. step v c = map_option (\<lambda>d. v * of_nat b + of_nat d) (digit_value b c)"
    and stop: "u = [] \<or> digit_value b (hd u) = None"
    and t: "at t (replicate k 32 @ (if neg then [45] else []) @ cs @ u)" and cs: "map (digit_value b) cs = map Some ds" "cs \<noteq> []"
    and w: "ti_width t = None" and fuel: "k + length cs < fuel"
  shows "\<exists>t'. ti_signed step ops fuel t = Inr ((if neg then -1 else 1) * of_nat (foldl (\<lambda>a d. a * b + d) 0 ds), t') \<and> at t' u \<and> same_mode t t'"
proof -
  obtain c cs' where c: "cs = c # cs'" using cs(2) by (cases cs) auto
  then obtain d where "digit_value b c = Some d" using cs(1) by (cases ds) auto
  then have nc: "c \<noteq> 32" "c \<noteq> 45" using digit_not_special by blast+
  let ?x = "if neg then 45 else c" and ?xs = "if neg then cs @ u else cs' @ u"
  have x: "(if neg then [45] else []) @ cs @ u = ?x # ?xs" using c by simp
  have "?x \<noteq> 32" using nc by auto
  have "k < fuel" using fuel by simp
  from spaces_skipped [OF t [unfolded x] \<open>?x \<noteq> 32\<close> this]
  obtain t1 where t1: "ti_SkipSpaces ops fuel t = Inr t1" "at t1 (?x # ?xs)" "same_mode t t1" .
  from t1(2) obtain t2 where t2: "ti_Peek ops t1 = Inr (?x, t2)" "at t2 (?x # ?xs)" "same_mode t1 t2" by (rule peek_char)
  obtain t3 where t3: "(if ?x = 45 then bindR (ti_char ops ?x t2) (\<lambda>(_, t3). Inr (-1, t3)) else Inr (1, t2)) = Inr (if neg then -1 else 1 :: 'l word, t3)"
      "at t3 (cs @ u)" "same_mode t2 t3"
  proof (cases neg)
    case True
    with t2(2) obtain t3 where "ti_char ops 45 t2 = Inr (45, t3)" "at t3 (cs @ u)" "same_mode t2 t3"
      using take_char [of t2 45 "cs @ u" 45] by auto
    then show ?thesis using that [of t3] True by simp
  next
    case False
    then show ?thesis using that [of t2] t2(2) c nc(2) by (simp add: same_mode_def)
  qed
  have sm: "same_mode t t3" using t1(3) t2(3) t3(3) by (blast intro: same_mode_trans)
  then have "ti_width t3 = None" using w by (simp add: same_mode_def)
  with unsigned_read [OF step stop, of t3 0 cs ds fuel] t3(2) cs fuel obtain t' where
    "ti_unsigned step ops fuel t3 = Inr (of_nat (foldl (\<lambda>a d. a * b + d) 0 ds), t')" "at t' u" "same_mode t3 t'" by auto
  then show ?thesis using t1(1) t2(1) t3(1) same_mode_trans [OF sm, of t'] by (auto simp: ti_signed_def)
qed

text \<open>The text of a number in decimal or hexadecimal, with spaces in front of it, is read as the number.\<close>

lemma number_read:
  fixes step :: "('l::len) word \<Rightarrow> byte \<Rightarrow> 'l word option"
  assumes step: "\<And>v c. step v c = map_option (\<lambda>d. v * of_nat (radix_base r) + of_nat d) (digit_value (radix_base r) c)"
    and r: "radix_base r = 10 \<or> radix_base r = 16"
    and stop: "u = [] \<or> digit_value (radix_base r) (hd u) = None"
    and t: "at t (replicate k 32 @ number_text r i @ u)" "ti_width t = None" and fuel: "k + length (number_text r i) < fuel"
  shows "\<exists>t'. ti_signed step ops fuel t = Inr (of_int i, t') \<and> at t' u \<and> same_mode t t'"
    and "0 \<le> i \<Longrightarrow> \<exists>t'. ti_unsigned step ops fuel t = Inr (of_int i, t') \<and> at t' u \<and> same_mode t t'"
proof -
  let ?b = "radix_base r" and ?ds = "radix_digits (radix_base r) (nat \<bar>i\<bar>)"
  let ?cs = "map (\<lambda>d. hexChars ! d) ?ds"
  have b2: "2 \<le> ?b" using r by auto
  have cs: "map (digit_value ?b) ?cs = map Some ?ds" "?cs \<noteq> []"
    using radix_digits_less [OF b2] digit_value_hexChars [OF _ r] by auto
  have val: "foldl (\<lambda>a d. a * ?b + d) 0 ?ds = nat \<bar>i\<bar>" by (rule foldl_radix_digits [OF b2])
  have nt: "number_text r i = (if i < 0 then [45] else []) @ ?cs" by (simp add: number_text_def)
  have f: "k + length ?cs < fuel" using fuel by (simp add: nt)
  have "(if i < 0 then -1 else 1) * of_nat (nat \<bar>i\<bar>) = (of_int i :: 'l word)"
    by (simp add: of_nat_nat)
  then show "\<exists>t'. ti_signed step ops fuel t = Inr (of_int i, t') \<and> at t' u \<and> same_mode t t'"
    using signed_read [OF step stop _ cs t(2) f, of "i < 0"] t(1) val by (simp add: nt)
  show "\<exists>t'. ti_unsigned step ops fuel t = Inr (of_int i, t') \<and> at t' u \<and> same_mode t t'" if "0 \<le> i"
    using unsigned_read [OF step stop _ cs t(2) f] t(1) val that by (simp add: nt of_nat_nat)
qed

lemma ints_read:
  assumes r: "r \<noteq> RadixBin" "ti_isDecimal t = (r = RadixDec)"
    and stop: "u = [] \<or> digit_value (radix_base r) (hd u) = None"
    and t: "at t (replicate k 32 @ number_text r i @ u)" "ti_width t = None" and fuel: "k + length (number_text r i) < fuel"
  shows "(\<exists>t'. ti_int64 ops fuel t = Inr (of_int i, t') \<and> at t' u \<and> same_mode t t')
    \<and> (\<exists>t'. ti_int32 ops fuel t = Inr (of_int i, t') \<and> at t' u \<and> same_mode t t')
    \<and> (0 \<le> i \<longrightarrow> (\<exists>t'. ti_uint64 ops fuel t = Inr (of_int i, t') \<and> at t' u \<and> same_mode t t'))
    \<and> (0 \<le> i \<longrightarrow> (\<exists>t'. ti_uint32 ops fuel t = Inr (of_int i, t') \<and> at t' u \<and> same_mode t t'))"
proof -
  note defs = ti_int64_def ti_int32_def ti_uint64_def ti_uint32_def ti_ReadAsDecimal_int64_def ti_ReadAsDecimal_int32_def
    ti_ReadAsDecimal_uint64_def ti_ReadAsDecimal_uint32_def ti_ReadAsHex_int64_def ti_ReadAsHex_int32_def
    ti_ReadAsHex_uint64_def ti_ReadAsHex_uint32_def
  show ?thesis
  proof (cases r)
    case RadixDec
    have b: "radix_base r = 10" using RadixDec by (simp add: radix_base_def)
    note n = number_read [where r = r and i = i, OF _ _ stop t fuel, unfolded b, OF decimal_step_value disjI1 [OF refl]]
    show ?thesis using r(2) RadixDec by (simp add: defs n)
  next
    case RadixHex
    have b: "radix_base r = 16" using RadixHex by (simp add: radix_base_def)
    note n = number_read [where r = r and i = i, OF _ _ stop t fuel, unfolded b, OF hex_step_value disjI2 [OF refl]]
    show ?thesis using r(2) RadixHex by (simp add: defs n)
  next
    case RadixBin
    then show ?thesis using r(1) by simp
  qed
qed

end

subsection \<open>Printing and reading back\<close>

definition br_ops :: "byte_reader reader_ops" where
  "br_ops = \<lparr>ro_Extract = br_Extract, ro_Peek = br_Peek, ro_Empty = br_Empty\<rparr>"

lemma br_ops_eq: "br_ops = br.ops"
  by (simp add: br_ops_def br.ops_def)

lemma br_at_make: "br.at (ti_make (br_make u) p) u"
  by (simp add: br.at_def ti_make_def br_make_def br_ok_def br.unread_def)

text \<open>
  Numbers are printed as text, over a range of bytes: printing an unsigned or a signed 64 bit number inserts
  the padding, the sign and the digits of the number in the radix of the stream, without leading zeros, and resets the width; the
  smallest signed number is the exception, where the negation in the code overflows.
\<close>

theorem numbers_are_printed:
  assumes "bw_ok (to_writer t)"
  shows "(length (padded (to_width t) (to_padding t) (number_text (to_radix t) (int (unat u)))) \<le> bw_Available (to_writer t) \<longrightarrow>
      (\<exists>t'. to_uint64 bw_Insert u t = Inr t' \<and> to_width t' = 0
        \<and> bw_Processed (to_writer t') = bw_Processed (to_writer t) @ padded (to_width t) (to_padding t) (number_text (to_radix t) (int (unat u)))))
    \<and> (sint v \<noteq> - (2 ^ 63) \<and> length (padded (to_width t) (to_padding t) (number_text (to_radix t) (sint v))) \<le> bw_Available (to_writer t) \<longrightarrow>
      (\<exists>t'. to_int64 bw_Insert v t = Inr t' \<and> to_width t' = 0
        \<and> bw_Processed (to_writer t') = bw_Processed (to_writer t) @ padded (to_width t) (to_padding t) (number_text (to_radix t) (sint v))))
    \<and> (sint v = - (2 ^ 63) \<longrightarrow> to_int64 bw_Insert v t = Inl UndefinedBehaviour)"
proof -
  have "to_int64 bw_Insert v t = Inl UndefinedBehaviour" if "sint v = - (2 ^ 63)"
    using that by (simp add: to_int64_def)
  then show ?thesis using bw.uint64_prints [OF assms, of u] bw.int64_prints [OF assms, of v] by (auto simp: bw.printed_def)
qed

theorem numbers_are_printed_witness:
  "\<exists>t'. to_int64 bw_Insert (- 5) ((to_make (bw_make [0, 0, 0, 0]) (ep_make FailByAssertion))\<lparr>to_width := 4\<rparr>) = Inr t'
    \<and> bw_Processed (to_writer t') = [32, 32, 45, 53]"
proof -
  let ?t = "(to_make (bw_make [0, 0, 0, 0]) (ep_make FailByAssertion))\<lparr>to_width := 4\<rparr>"
  have "number_text RadixDec (- 5) = [45, 53]"
    by (simp add: number_text_def radix_base_def radix_digits.simps hexChars_def)
  then show ?thesis
    using numbers_are_printed [of ?t 0 "- 5"]
    by (auto simp: to_make_def bw_make_def bw_ok_def bw_Available_def bw_Processed_def padded_def numeral_2_eq_2)
qed

text \<open>
  A printing operation \<open>print\<close> and a reading operation \<open>read\<close> agree on a value: what \<open>print\<close> appends to the bytes
  written by \<open>out\<close> is at least as long as the width that was asked for, and \<open>read\<close>, on a stream that was
  made for those bytes and the bytes \<open>u\<close> and set to the same radix, returns the value, leaves exactly \<open>u\<close> and has not
  failed. A radix other than decimal is read as hexadecimal: there is no manipulator for binary input.
\<close>

definition reads_back :: "(byte_writer text_output \<Rightarrow> byte_writer text_output result) \<Rightarrow>
    (byte_reader text_input \<Rightarrow> ('v \<times> byte_reader text_input) result) \<Rightarrow> 'v \<Rightarrow> byte list \<Rightarrow> byte_writer text_output \<Rightarrow> bool" where
  "reads_back print read v u out \<longleftrightarrow>
     (\<exists>out' str. print out = Inr out'
        \<and> bw_Processed (to_writer out') = bw_Processed (to_writer out) @ str \<and> to_width out \<le> length str
        \<and> to_width out' = 0 \<and> ep_failed (to_errorPolicy out') = ep_failed (to_errorPolicy out)
        \<and> (\<forall>mode. \<exists>inp. read ((ti_make (br_make (str @ u)) (ep_make mode))\<lparr>ti_isDecimal := (to_radix out = RadixDec)\<rparr>) = Inr (v, inp)
              \<and> br_Remaining (ti_reader inp) = u \<and> \<not> ep_failed (ti_errorPolicy inp)))"

lemma number_text_length:
  assumes "r \<noteq> RadixBin" and "- (2 ^ 63) \<le> i" and "i < 2 ^ 64"
  shows "length (number_text r i) \<le> 20"
proof -
  have b: "radix_base r = 10 \<or> radix_base r = 16" using assms(1) by (cases r) (simp_all add: radix_base_def)
  have "(10 :: nat) ^ 19 \<le> radix_base r ^ 19" "(10 :: nat) ^ 20 \<le> radix_base r ^ 20"
    using b by (auto intro: power_mono)
  moreover have "nat \<bar>i\<bar> < (if i < 0 then 10 ^ 19 else 10 ^ 20)" using assms(2,3) by (auto simp: nat_less_iff)
  ultimately have "nat \<bar>i\<bar> < radix_base r ^ (if i < 0 then 19 else 20)" by (auto split: if_splits)
  from radix_digits_length [OF _ this] b show ?thesis by (auto simp: number_text_def split: if_splits)
qed

lemma reads_backI:
  assumes out: "to_padding out = 32" "to_radix out \<noteq> RadixBin" and u: "u = [] \<or> digit_value (radix_base (to_radix out)) (hd u) = None"
    and i: "- (2 ^ 63) \<le> i" "i < 2 ^ 64" and fuel: "max (to_width out) 20 < fuel"
    and print: "\<exists>out'. print out = Inr out'
      \<and> bw.printed out (padded (to_width out) (to_padding out) (number_text (to_radix out) i)) out' \<and> to_width out' = 0 \<and> to_padding out' = 32"
    and read: "\<And>t k. ti_isDecimal t = (to_radix out = RadixDec) \<Longrightarrow> ti_width t = None
      \<Longrightarrow> br.at t (replicate k 32 @ number_text (to_radix out) i @ u) \<Longrightarrow> k + length (number_text (to_radix out) i) < fuel
      \<Longrightarrow> \<exists>t'. read t = Inr (v, t') \<and> br.at t' u \<and> br.same_mode t t'"
  shows "reads_back print read v u out"
proof -
  let ?n = "number_text (to_radix out) i" and ?str = "padded (to_width out) 32 (number_text (to_radix out) i)"
  obtain out' where out': "print out = Inr out'" "bw_Processed (to_writer out') = bw_Processed (to_writer out) @ ?str"
      "to_width out' = 0" "ep_failed (to_errorPolicy out') = ep_failed (to_errorPolicy out)"
    using print out(1) by (auto simp: bw.printed_def)
  have len: "to_width out - length ?n + length ?n < fuel"
    using number_text_length [OF out(2) i] fuel by linarith
  have "\<exists>inp. read t = Inr (v, inp) \<and> br_Remaining (ti_reader inp) = u \<and> \<not> ep_failed (ti_errorPolicy inp)"
    if t: "t = (ti_make (br_make (?str @ u)) (ep_make mode))\<lparr>ti_isDecimal := (to_radix out = RadixDec)\<rparr>" for t mode
  proof -
    have "br.at t (replicate (to_width out - length ?n) 32 @ ?n @ u)"
      using br_at_make [of "?str @ u" "ep_make mode"] by (simp add: t br.at_def padded_def)
    from read [OF _ _ this len] obtain inp where "read t = Inr (v, inp)" "br.at inp u" "br.same_mode t inp"
      by (auto simp: t ti_make_def)
    then show ?thesis
      by (auto simp: t br.at_def br.unread_def br.same_mode_def br_Remaining_def ti_make_def ep_make_def)
  qed
  then show ?thesis using out' unfolding reads_back_def by (fastforce simp: padded_def)
qed

text \<open>The smaller types are extended before they are printed, and cut after they are read.\<close>

lemma uint_extended: "LENGTH('l::len) \<le> LENGTH('k::len) \<Longrightarrow> uint (ucast (v :: 'l word) :: 'k word) = uint v"
  by (simp add: uint_up_ucast is_up source_size_def target_size_def)

lemma sint_extended: "LENGTH('l::len) \<le> LENGTH('k::len) \<Longrightarrow> sint (scast (v :: 'l word) :: 'k word) = sint v"
  by (simp add: sint_up_scast is_up source_size_def target_size_def)

lemma ucast_of_ucast: "LENGTH('l::len) \<le> LENGTH('k::len) \<Longrightarrow> ucast (ucast (v :: 'l word) :: 'k word) = v"
  by transfer simp

lemma ucast_of_scast: "LENGTH('l::len) \<le> LENGTH('k::len) \<Longrightarrow> ucast (scast (v :: 'l word) :: 'k word) = v"
  by transfer (simp add: take_bit_signed_take_bit)

lemma word64_range:
  fixes v :: "64 word"
  shows "- (2 ^ 63) \<le> uint v" "uint v < 2 ^ 64" "- (2 ^ 63) \<le> sint v" "sint v < 2 ^ 64"
proof -
  show "uint v < 2 ^ 64" using uint_lt2p [of v] by simp
  show "- (2 ^ 63) \<le> uint v" by (rule order_trans [OF _ uint_ge_0]) simp
  show "- (2 ^ 63) \<le> sint v" "sint v < 2 ^ 64" using sint_lt [of v] sint_ge [of v] by simp_all
qed

lemma unsigned_reads_back:
  assumes out: "bw_ok (to_writer out)" "max (to_width out) 20 \<le> bw_Available (to_writer out)"
    "to_radix out \<noteq> RadixBin" "to_padding out = 32" "u = [] \<or> digit_value (radix_base (to_radix out)) (hd u) = None"
    "max (to_width out) 20 < fuel"
    and read: "\<And>t. \<exists>t'. ti_uint64 br_ops fuel t = Inr (of_int (uint v), t') \<and> br.at t' u \<and> br.same_mode t t' \<Longrightarrow>
      \<exists>t'. ti_uint32 br_ops fuel t = Inr (of_int (uint v), t') \<and> br.at t' u \<and> br.same_mode t t' \<Longrightarrow>
      \<exists>t'. read t = Inr (x, t') \<and> br.at t' u \<and> br.same_mode t t'"
  shows "reads_back (to_uint64 bw_Insert v) read x u out"
proof (rule reads_backI [OF out(4,3,5) word64_range(1,2) out(6)])
  have "length (padded (to_width out) (to_padding out) (number_text (to_radix out) (int (unat v)))) \<le> bw_Available (to_writer out)"
    using number_text_length [OF out(3) word64_range(1,2), of v] out(2) unfolding of_nat_unat padded_def length_append length_replicate by linarith
  from bw.uint64_prints [OF out(1) this] show "\<exists>out'. to_uint64 bw_Insert v out = Inr out' \<and> bw.printed out
      (padded (to_width out) (to_padding out) (number_text (to_radix out) (uint v))) out' \<and> to_width out' = 0 \<and> to_padding out' = 32"
    by simp
next
  fix t k
  assume t: "ti_isDecimal t = (to_radix out = RadixDec)" "ti_width t = None"
    "br.at t (replicate k 32 @ number_text (to_radix out) (uint v) @ u)" "k + length (number_text (to_radix out) (uint v)) < fuel"
  show "\<exists>t'. read t = Inr (x, t') \<and> br.at t' u \<and> br.same_mode t t'"
    using br.ints_read [OF out(3) t(1) out(5) t(3,2,4), folded br_ops_eq] by (intro read) simp_all
qed

lemma signed_reads_back:
  assumes out: "bw_ok (to_writer out)" "max (to_width out) 20 \<le> bw_Available (to_writer out)"
    "to_radix out \<noteq> RadixBin" "to_padding out = 32" "u = [] \<or> digit_value (radix_base (to_radix out)) (hd u) = None"
    "max (to_width out) 20 < fuel" and v: "sint v \<noteq> - (2 ^ 63)"
    and read: "\<And>t. \<exists>t'. ti_int64 br_ops fuel t = Inr (of_int (sint v), t') \<and> br.at t' u \<and> br.same_mode t t' \<Longrightarrow>
      \<exists>t'. ti_int32 br_ops fuel t = Inr (of_int (sint v), t') \<and> br.at t' u \<and> br.same_mode t t' \<Longrightarrow>
      \<exists>t'. read t = Inr (x, t') \<and> br.at t' u \<and> br.same_mode t t'"
  shows "reads_back (to_int64 bw_Insert v) read x u out"
proof (rule reads_backI [OF out(4,3,5) word64_range(3,4) out(6)])
  have "length (padded (to_width out) (to_padding out) (number_text (to_radix out) (sint v))) \<le> bw_Available (to_writer out)"
    using number_text_length [OF out(3) word64_range(3,4), of v] out(2) unfolding padded_def length_append length_replicate by linarith
  from bw.int64_prints [OF out(1) v this] show "\<exists>out'. to_int64 bw_Insert v out = Inr out' \<and> bw.printed out
      (padded (to_width out) (to_padding out) (number_text (to_radix out) (sint v))) out' \<and> to_width out' = 0 \<and> to_padding out' = 32" .
next
  fix t k
  assume t: "ti_isDecimal t = (to_radix out = RadixDec)" "ti_width t = None"
    "br.at t (replicate k 32 @ number_text (to_radix out) (sint v) @ u)" "k + length (number_text (to_radix out) (sint v)) < fuel"
  show "\<exists>t'. read t = Inr (x, t') \<and> br.at t' u \<and> br.same_mode t t'"
    using br.ints_read [OF out(3) t(1) out(5) t(3,2,4), folded br_ops_eq] by (intro read) simp_all
qed

lemma narrow_not_least:
  fixes v :: "'l::len word"
  assumes "LENGTH('l) \<le> 32"
  shows "sint (scast v :: 64 word) \<noteq> - (2 ^ 63)"
proof -
  have "(2 :: int) ^ (LENGTH('l) - 1) \<le> 2 ^ 31" using assms by (intro power_increasing) simp_all
  then have "- (2 ^ 31) \<le> sint v" using sint_ge [of v] by linarith
  then show ?thesis using assms by (simp add: sint_extended)
qed

text \<open>
  C24. What is printed is read back: printing any unsigned or signed number of 64, 32, 16 or 8 bits in decimal or
  hexadecimal, padded with spaces to any width, into a range with room for the text, and reading the bytes that this has
  written, followed by nothing or by a character that is not a digit, gives the same number; the reader then stands
  right behind it, neither stream has recorded a failure, and the loops of the reader end. The exception is the
  smallest 64 bit signed number, where negation overflows before it is printed.
\<close>

theorem number_roundtrip:
  assumes "bw_ok (to_writer out)" and "max (to_width out) 20 \<le> bw_Available (to_writer out)"
    and "to_radix out \<noteq> RadixBin" and "to_padding out = 32"
    and "u = [] \<or> digit_value (radix_base (to_radix out)) (hd u) = None"
    and "max (to_width out) 20 < fuel"
  shows "reads_back (to_uint64 bw_Insert v) (ti_uint64 br_ops fuel) v u out
    \<and> (sint v \<noteq> - (2 ^ 63) \<longrightarrow> reads_back (to_int64 bw_Insert v) (ti_int64 br_ops fuel) v u out)
    \<and> reads_back (to_uint32 bw_Insert v32) (ti_uint32 br_ops fuel) v32 u out
    \<and> reads_back (to_int32 bw_Insert v32) (ti_int32 br_ops fuel) v32 u out
    \<and> reads_back (to_uint16 bw_Insert v16) (ti_uint16 br_ops fuel) v16 u out
    \<and> reads_back (to_int16 bw_Insert v16) (ti_int16 br_ops fuel) v16 u out
    \<and> reads_back (to_uint8 bw_Insert v8) (ti_uint8 br_ops fuel) v8 u out
    \<and> reads_back (to_int8 bw_Insert v8) (ti_int8 br_ops fuel) v8 u out"
proof -
  note unsigned = unsigned_reads_back [OF assms] and signed = signed_reads_back [OF assms]
  show ?thesis
  proof (intro conjI impI)
    show "reads_back (to_uint64 bw_Insert v) (ti_uint64 br_ops fuel) v u out"
      by (rule unsigned) simp
    show "reads_back (to_int64 bw_Insert v) (ti_int64 br_ops fuel) v u out" if "sint v \<noteq> - (2 ^ 63)"
      using that by (rule signed) simp
    show "reads_back (to_uint32 bw_Insert v32) (ti_uint32 br_ops fuel) v32 u out"
      unfolding to_uint32_def by (rule unsigned) (simp add: uint_extended)
    show "reads_back (to_int32 bw_Insert v32) (ti_int32 br_ops fuel) v32 u out"
      unfolding to_int32_def by (rule signed [OF narrow_not_least]) (simp_all add: sint_extended)
    show "reads_back (to_uint16 bw_Insert v16) (ti_uint16 br_ops fuel) v16 u out"
      unfolding to_uint16_def by (rule unsigned) (auto simp: uint_extended ti_uint16_def ucast_of_ucast)
    show "reads_back (to_int16 bw_Insert v16) (ti_int16 br_ops fuel) v16 u out"
      unfolding to_int16_def by (rule signed [OF narrow_not_least]) (auto simp: sint_extended ti_int16_def ucast_of_scast)
    show "reads_back (to_uint8 bw_Insert v8) (ti_uint8 br_ops fuel) v8 u out"
      unfolding to_uint8_def by (rule unsigned) (auto simp: uint_extended ti_uint8_def ucast_of_ucast)
    show "reads_back (to_int8 bw_Insert v8) (ti_int8 br_ops fuel) v8 u out"
      unfolding to_int8_def by (rule signed [OF narrow_not_least]) (auto simp: sint_extended ti_int8_def ucast_of_scast)
  qed
qed

text \<open>Printing -42 with width 6 and reading it back in front of a comma.\<close>

theorem number_roundtrip_witness:
  "reads_back (to_int32 bw_Insert (- 42)) (ti_int32 br_ops 30) (- 42) [44]
     ((to_make (bw_make (replicate 30 0)) (ep_make FailSoft))\<lparr>to_width := 6\<rparr>)"
proof -
  let ?out = "(to_make (bw_make (replicate 30 0)) (ep_make FailSoft))\<lparr>to_width := 6\<rparr>"
  have "bw_ok (to_writer ?out)" "max (to_width ?out) 20 \<le> bw_Available (to_writer ?out)"
    "to_radix ?out \<noteq> RadixBin" "to_padding ?out = 32" "max (to_width ?out) 20 < 30"
    by (simp_all add: to_make_def bw_make_def bw_ok_def bw_Available_def)
  moreover have "[44] = [] \<or> digit_value (radix_base (to_radix ?out)) (hd [44]) = None"
    by (simp add: digit_value_def)
  ultimately show ?thesis by (intro number_roundtrip [THEN conjunct2, THEN conjunct2, THEN conjunct2, THEN conjunct1])
qed

end
