(* ===== verification/Byte_Text.thy ===== *)
theory Byte_Text
  imports Text_Input
begin

unbundle bit_operations_syntax

section \<open>Bytes as Base64 and hexadecimal text\<close>

text \<open>
  \<^verbatim>\<open>Base64Encoder\<close> and \<^verbatim>\<open>AsBase64\<close> (OutputStream.cpp), \<^verbatim>\<open>FromBase64\<close> and \<^verbatim>\<open>FromHex\<close> (InputStream.cpp) and the table of
  Base64.cpp. The encoder keeps the bits that are left over between bytes, so that it can be fed in
  pieces; it is shown to print what the definition of Base64 by groups of three bytes gives, and the decoder to read it back.
\<close>

subsection \<open>The table\<close>

text \<open>The characters A to Z, a to z, 0 to 9, + and /.\<close>

definition base64Table :: "byte list" where
  "base64Table = map of_nat ([65..<91] @ [97..<123] @ [48..<58] @ [43, 47])"

definition base64_char :: "byte \<Rightarrow> byte result" where
  "base64_char i = (if unat i < 64 then Inr (base64Table ! unat i) else Inl UndefinedBehaviour)"

definition DecodeBase64Byte :: "byte \<Rightarrow> byte" where
  "DecodeBase64Byte c = of_nat (length (takeWhile (\<lambda>x. x \<noteq> c) base64Table))"

subsection \<open>Base64Encoder\<close>

record base64_encoder =
  be_bitIndex :: nat
  be_encodedByte :: byte
  be_size :: "32 word"

definition be_make :: base64_encoder where
  "be_make = \<lparr>be_bitIndex = 2, be_encodedByte = 0, be_size = 0\<rparr>"

definition be_put :: "'w insert_op \<Rightarrow> base64_encoder \<times> 'w text_output \<Rightarrow> (base64_encoder \<times> 'w text_output) result" where
  "be_put Insert = (\<lambda>(e, t). bindR (base64_char (be_encodedByte e))
     (\<lambda>c. bindR (to_char Insert c t) (\<lambda>t'. Inr (e\<lparr>be_size := be_size e + 1\<rparr>, t'))))"

definition be_byte :: "'w insert_op \<Rightarrow> byte \<Rightarrow> base64_encoder \<times> 'w text_output \<Rightarrow> (base64_encoder \<times> 'w text_output) result" where
  "be_byte Insert x = (\<lambda>(e, t).
     bindR (be_put Insert (e\<lparr>be_encodedByte := be_encodedByte e OR drop_bit (be_bitIndex e) x\<rparr>, t))
       (\<lambda>(e1, t1).
         let e2 = e1\<lparr>be_encodedByte := drop_bit 2 (push_bit (8 - be_bitIndex e1) x), be_bitIndex := be_bitIndex e1 + 2\<rparr>
         in if be_bitIndex e2 = 8
            then bindR (be_put Insert (e2, t1)) (\<lambda>(e3, t3). Inr (e3\<lparr>be_encodedByte := 0, be_bitIndex := 2\<rparr>, t3))
            else Inr (e2, t1)))"

primrec be_Encode :: "'w insert_op \<Rightarrow> byte list \<Rightarrow> base64_encoder \<times> 'w text_output \<Rightarrow> (base64_encoder \<times> 'w text_output) result" where
  "be_Encode Insert [] s = Inr s"
| "be_Encode Insert (x # xs) s = bindR (be_byte Insert x s) (be_Encode Insert xs)"

text \<open>A character \<^verbatim>\<open>=\<close> in the destructor, when the size is not a multiple of four.\<close>

definition be_fill :: "'w insert_op \<Rightarrow> base64_encoder \<times> 'w text_output \<Rightarrow> (base64_encoder \<times> 'w text_output) result" where
  "be_fill Insert = (\<lambda>(e, t).
     if be_size e AND 3 \<noteq> 0 then bindR (to_char Insert 61 t) (\<lambda>t'. Inr (e\<lparr>be_size := be_size e + 1\<rparr>, t')) else Inr (e, t))"

definition be_destroy :: "'w insert_op \<Rightarrow> base64_encoder \<times> 'w text_output \<Rightarrow> 'w text_output result" where
  "be_destroy Insert = (\<lambda>(e, t).
     bindR (if be_size e AND 3 \<noteq> 0 then be_put Insert (e, t) else Inr (e, t))
       (\<lambda>s. bindR (be_fill Insert s) (\<lambda>s. bindR (be_fill Insert s) (\<lambda>(_, t'). Inr t'))))"

definition to_AsBase64 :: "'w insert_op \<Rightarrow> byte list \<Rightarrow> 'w text_output \<Rightarrow> 'w text_output result" where
  "to_AsBase64 Insert data t = bindR (be_Encode Insert data (be_make, t)) (be_destroy Insert)"

primrec be_Encode_all :: "'w insert_op \<Rightarrow> byte list list \<Rightarrow> base64_encoder \<times> 'w text_output \<Rightarrow> (base64_encoder \<times> 'w text_output) result" where
  "be_Encode_all Insert [] s = Inr s"
| "be_Encode_all Insert (xs # xss) s = bindR (be_Encode Insert xs s) (be_Encode_all Insert xss)"

definition to_AsCombinedBase64 :: "'w insert_op \<Rightarrow> byte list list \<Rightarrow> 'w text_output \<Rightarrow> 'w text_output result" where
  "to_AsCombinedBase64 Insert ranges t = bindR (be_Encode_all Insert ranges (be_make, t)) (be_destroy Insert)"

subsection \<open>Decoding\<close>

definition DecodeHexByte :: "byte \<Rightarrow> nat" where
  "DecodeHexByte c =
     (if 48 \<le> unat c \<and> unat c \<le> 57 then unat c - 48
      else if 97 \<le> unat c \<and> unat c \<le> 102 then unat c - 97 + 10
      else if 65 \<le> unat c \<and> unat c \<le> 70 then unat c - 65 + 10
      else 16)"

text \<open>
  The loops of \<^verbatim>\<open>FromHex\<close> and \<^verbatim>\<open>FromBase64\<close>: \<open>out\<close> is what has been stored in front of the range that is left, \<open>data\<close>. The
  character is only read from a stream that is not empty, which overwrites the variable. Each character adds bits, and eight
  bits shorten the range, so the loops end; at their head there are always fewer than eight bits.
\<close>

function fh_loop :: "'r reader_ops \<Rightarrow> nat \<Rightarrow> byte \<Rightarrow> byte list \<Rightarrow> byte list \<Rightarrow> 'r text_input \<Rightarrow> (byte list \<times> 'r text_input) result" where
  "fh_loop R bitIndex decodedByte out data t =
     (if data \<noteq> [] \<and> \<not> ro_Empty R (ti_reader t) \<and> bitIndex < 8
      then bindR (ti_char R 0 t)
        (\<lambda>(c, t1). let decodedValue = DecodeHexByte c
          in if 16 \<le> decodedValue then bindR (ti_Report False t1) (\<lambda>t2. Inr (out @ data, t2))
             else let d = push_bit 4 decodedByte OR of_nat decodedValue
                  in if bitIndex + 4 = 8 then fh_loop R 0 d (out @ [d]) (tl data) t1
                     else fh_loop R (bitIndex + 4) d out data t1)
      else bindR (ti_Report (data = []) t) (\<lambda>t2. Inr (out @ data, t2)))"
  by pat_completeness auto
termination
  by (relation "measure (\<lambda>(_, bitIndex, _, _, data, _). 8 * length data - bitIndex)")
    (auto simp: neq_Nil_conv)

definition ti_FromHex :: "'r reader_ops \<Rightarrow> byte list \<Rightarrow> 'r text_input \<Rightarrow> (byte list \<times> 'r text_input) result" where
  "ti_FromHex R data t = fh_loop R 0 0 [] data t"

fun fb_padding :: "'r reader_ops \<Rightarrow> nat \<Rightarrow> 'r text_input \<Rightarrow> 'r text_input result" where
  "fb_padding R bitIndex t =
     (if bitIndex \<noteq> 0 \<and> \<not> ro_Empty R (ti_reader t)
      then bindR (ti_char R 0 t) (\<lambda>(c, t1). bindR (ti_Report (c = 61) t1) (fb_padding R (bitIndex - 2)))
      else Inr t)"

function fb_loop :: "'r reader_ops \<Rightarrow> nat \<Rightarrow> 16 word \<Rightarrow> byte list \<Rightarrow> byte list \<Rightarrow> 'r text_input \<Rightarrow> (byte list \<times> 'r text_input) result" where
  "fb_loop R bitIndex decodedWord out data t =
     (if data \<noteq> [] \<and> \<not> ro_Empty R (ti_reader t) \<and> bitIndex < 8
      then bindR (ti_char R 0 t)
        (\<lambda>(c, t1). let decodedValue = DecodeBase64Byte c
          in if 64 \<le> unat decodedValue then bindR (ti_Report False t1) (\<lambda>t2. Inr (out @ data, t2))
             else let w = push_bit 6 decodedWord OR ucast decodedValue
                  in if 8 \<le> bitIndex + 6
                     then fb_loop R (bitIndex + 6 - 8) w (out @ [ucast (drop_bit (bitIndex + 6 - 8) w)]) (tl data) t1
                     else fb_loop R (bitIndex + 6) w out data t1)
      else bindR (fb_padding R bitIndex t)
        (\<lambda>t1. bindR (ti_Report (data = []) t1) (\<lambda>t2. Inr (out @ data, t2))))"
  by pat_completeness auto
termination
  by (relation "measure (\<lambda>(_, bitIndex, _, _, data, _). 8 * length data - bitIndex)")
    (auto simp: neq_Nil_conv)

declare fh_loop.simps [simp del] fb_loop.simps [simp del] fb_padding.simps [simp del]

definition ti_FromBase64 :: "'r reader_ops \<Rightarrow> byte list \<Rightarrow> 'r text_input \<Rightarrow> (byte list \<times> 'r text_input) result" where
  "ti_FromBase64 R data t = fb_loop R 0 0 [] data t"

text \<open>
  \<^verbatim>\<open>Base64DecodedSize\<close>. The loop over the characters from the last backwards looks at a character before it checks
  that there is one: with a string of four or more characters that are all \<^verbatim>\<open>=\<close> it looks before the string.
\<close>

definition Base64DecodedSize :: "byte list \<Rightarrow> nat result" where
  "Base64DecodedSize encodedContents =
     (if length encodedContents < 4 then Inr 0
      else let pads = length (takeWhile (\<lambda>c. c = 61) (rev encodedContents))
           in if pads = length encodedContents then Inl UndefinedBehaviour
              else Inr (nat ((int (length encodedContents div 4 * 3) - int pads) mod 2 ^ 64)))"

subsection \<open>Bits and numbers\<close>

lemma or_plus_nat: "b < 2 ^ k \<Longrightarrow> (a * 2 ^ k) OR b = a * 2 ^ k + b" for a b :: nat
proof -
  assume b: "b < 2 ^ k"
  have "a * 2 ^ k = push_bit k a" by (simp add: push_bit_eq_mult)
  moreover have "b = take_bit k b" using b by (simp add: take_bit_nat_eq_self)
  ultimately show ?thesis
    by (metis (no_types, lifting) bit_push_bit_iff bit_take_bit_iff disjunctive_add not_le)
qed

lemma unat_shift_or:
  fixes x :: "('l::len) word"
  assumes "v < 2 ^ k" and "k \<le> LENGTH('l)"
  shows "unat (push_bit k x OR of_nat v) = (unat x * 2 ^ k + v) mod 2 ^ LENGTH('l)"
proof -
  define j where "j = LENGTH('l) - k"
  have L: "LENGTH('l) = j + k" using assms(2) by (simp add: j_def)
  have push: "unat (push_bit k x) = unat x mod 2 ^ j * 2 ^ k"
    unfolding unsigned_push_bit_eq by (simp add: push_bit_eq_mult take_bit_eq_mod L power_add)
  have v: "unat (of_nat v :: 'l word) = v"
  proof -
    have "(2 :: nat) ^ k \<le> 2 ^ LENGTH('l)" using assms(2) by simp
    with assms(1) have "v < 2 ^ LENGTH('l)" by (rule order.strict_trans2)
    then show ?thesis by (simp add: unat_of_nat)
  qed
  have "unat (push_bit k x OR of_nat v) = unat x mod 2 ^ j * 2 ^ k + v"
    by (simp only: unsigned_or_eq push v or_plus_nat [OF assms(1)])
  also have "\<dots> = (unat x * 2 ^ k + v) mod 2 ^ LENGTH('l)"
  proof -
    have "unat x mod 2 ^ j * 2 ^ k + v < (unat x mod 2 ^ j + 1) * 2 ^ k" using assms(1) by simp
    also have "\<dots> \<le> 2 ^ j * 2 ^ k" by (intro mult_le_mono1) (simp add: Suc_leI)
    finally have "unat x mod 2 ^ j * 2 ^ k + v < 2 ^ LENGTH('l)" by (simp add: L power_add)
    moreover have "(unat x * 2 ^ k + v) mod 2 ^ LENGTH('l) = (unat x * 2 ^ k mod 2 ^ LENGTH('l) + v) mod 2 ^ LENGTH('l)"
      by (simp add: mod_add_left_eq)
    ultimately show ?thesis by (simp add: L power_add mult.commute)
  qed
  finally show ?thesis .
qed

lemma unat_push_drop:
  fixes x :: byte
  shows "unat (drop_bit 2 (push_bit 6 x)) = unat x mod 4 * 16" "unat (drop_bit 2 (push_bit 4 x)) = unat x mod 16 * 4"
    "unat (drop_bit 2 (push_bit 2 x)) = unat x mod 64" "unat (drop_bit k x) = unat x div 2 ^ k"
proof -
  have d: "unat (drop_bit k y) = unat y div 2 ^ k" for k and y :: byte
  proof -
    have "unat y < 256" using unsigned_less [of y] by simp
    then show ?thesis unfolding unsigned_drop_bit_eq by (simp add: drop_bit_eq_div take_bit_eq_mod)
  qed
  have p: "unat (push_bit k x) = unat x * 2 ^ k mod 256" for k
    unfolding unsigned_push_bit_eq by (simp add: push_bit_eq_mult take_bit_eq_mod)
  show "unat (drop_bit k x) = unat x div 2 ^ k" by (rule d)
  show "unat (drop_bit 2 (push_bit 6 x)) = unat x mod 4 * 16"
    unfolding d p using mult_mod_right [of 64 "unat x" 4] by (simp add: mult.commute)
  show "unat (drop_bit 2 (push_bit 4 x)) = unat x mod 16 * 4"
    unfolding d p using mult_mod_right [of 16 "unat x" 16] by (simp add: mult.commute)
  show "unat (drop_bit 2 (push_bit 2 x)) = unat x mod 64"
    unfolding d p using mult_mod_right [of 4 "unat x" 64] by (simp add: mult.commute)
qed

lemma and_3: "w AND 3 = w mod 4" for w :: "('l::len) word"
  using take_bit_eq_mask [of 2 w] by (simp add: take_bit_eq_mod mask_eq_exp_minus_1)

subsection \<open>The encoder prints Base64\<close>

text \<open>Base64 by groups of three bytes, which make four characters.\<close>

definition b64 :: "nat \<Rightarrow> byte" where
  "b64 i = base64Table ! i"

fun base64_ref :: "byte list \<Rightarrow> byte list" where
  "base64_ref [] = []"
| "base64_ref [a] = [b64 (unat a div 4), b64 (unat a mod 4 * 16), 61, 61]"
| "base64_ref [a, b] = [b64 (unat a div 4), b64 (unat a mod 4 * 16 + unat b div 16), b64 (unat b mod 16 * 4), 61]"
| "base64_ref (a # b # c # rest) =
     [b64 (unat a div 4), b64 (unat a mod 4 * 16 + unat b div 16), b64 (unat b mod 16 * 4 + unat c div 64), b64 (unat c mod 64)]
     @ base64_ref rest"

definition unpadded :: "'w text_output \<Rightarrow> bool" where
  "unpadded t \<longleftrightarrow> to_width t = 0 \<and> to_padding t = 32"

lemma to_char_unpadded: "unpadded t \<Longrightarrow> to_char Insert c t = to_Insert Insert [c] t"
proof -
  assume "unpadded t"
  then have "t\<lparr>to_width := 0, to_padding := 32\<rparr> = t" by (simp add: unpadded_def)
  then have "to_OutputOptionalPadding Insert 1 t = Inr t" using \<open>unpadded t\<close> by (simp add: to_OutputOptionalPadding_def unpadded_def)
  then show ?thesis by (simp add: to_char_def)
qed

lemma unpadded_Insert: "unpadded t \<Longrightarrow> to_Insert Insert cs t = Inr t' \<Longrightarrow> unpadded t'"
  using to_Insert_fields [of Insert cs t t'] by (simp add: unpadded_def)

lemma base64_char_of_nat: "i < 64 \<Longrightarrow> base64_char (of_nat i) = Inr (b64 i)"
  by (simp add: base64_char_def b64_def unat_of_nat)

lemma be_put_unpadded:
  assumes "unpadded t" and "i < 64" and "be_encodedByte e = of_nat i"
  shows "be_put Insert (e, t) = bindR (to_Insert Insert [b64 i] t) (\<lambda>t'. Inr (e\<lparr>be_size := be_size e + 1\<rparr>, t'))"
  using assms by (simp add: be_put_def base64_char_of_nat to_char_unpadded)

lemma byte_eq_of_nat: "unat x = n \<Longrightarrow> x = of_nat n" for x :: byte
  by auto

lemma be_byte_middle:
  assumes t: "unpadded t" and i: "i < 64" "be_encodedByte e OR drop_bit (be_bitIndex e) x = of_nat i" and "be_bitIndex e \<noteq> 6"
  shows "be_byte Insert x (e, t) = bindR (to_Insert Insert [b64 i] t)
    (\<lambda>t1. Inr (e\<lparr>be_encodedByte := drop_bit 2 (push_bit (8 - be_bitIndex e) x), be_bitIndex := be_bitIndex e + 2, be_size := be_size e + 1\<rparr>, t1))"
proof -
  have "be_put Insert (e\<lparr>be_encodedByte := be_encodedByte e OR drop_bit (be_bitIndex e) x\<rparr>, t)
      = bindR (to_Insert Insert [b64 i] t) (\<lambda>t'. Inr (e\<lparr>be_encodedByte := of_nat i, be_size := be_size e + 1\<rparr>, t'))"
    using be_put_unpadded [OF t i(1), of "e\<lparr>be_encodedByte := of_nat i\<rparr>" Insert] i(2) by simp
  then show ?thesis using assms(4) by (cases "to_Insert Insert [b64 i] t") (simp_all add: be_byte_def Let_def)
qed

lemma be_byte_last:
  assumes t: "unpadded t" and i: "i < 64" "be_encodedByte e OR drop_bit 6 x = of_nat i" and "be_bitIndex e = 6"
  shows "be_byte Insert x (e, t) = bindR (to_inserts Insert [[b64 i], [b64 (unat x mod 64)]] t)
    (\<lambda>t1. Inr (e\<lparr>be_encodedByte := 0, be_bitIndex := 2, be_size := be_size e + 2\<rparr>, t1))"
proof -
  have put: "be_put Insert (e\<lparr>be_encodedByte := be_encodedByte e OR drop_bit (be_bitIndex e) x\<rparr>, t)
      = bindR (to_Insert Insert [b64 i] t) (\<lambda>t'. Inr (e\<lparr>be_encodedByte := of_nat i, be_size := be_size e + 1\<rparr>, t'))"
    using be_put_unpadded [OF t i(1), of "e\<lparr>be_encodedByte := of_nat i\<rparr>" Insert] i(2) assms(4) by simp
  have d: "drop_bit 2 (push_bit 2 x) = of_nat (unat x mod 64)" by (rule byte_eq_of_nat) (rule unat_push_drop)
  show ?thesis
  proof (cases "to_Insert Insert [b64 i] t")
    case (Inl a)
    then show ?thesis using put by (simp add: be_byte_def)
  next
    case (Inr t1)
    obtain b n where e: "e = \<lparr>be_bitIndex = 6, be_encodedByte = b, be_size = n\<rparr>" using assms(4) by (cases e) simp
    let ?e = "\<lparr>be_bitIndex = 8, be_encodedByte = of_nat (unat x mod 64), be_size = n + 1\<rparr>"
    have "be_put Insert (?e, t1)
        = bindR (to_Insert Insert [b64 (unat x mod 64)] t1) (\<lambda>t'. Inr (?e\<lparr>be_size := n + 1 + 1\<rparr>, t'))"
      using be_put_unpadded [OF unpadded_Insert [OF t Inr], of "unat x mod 64" ?e Insert] by simp
    then show ?thesis using put Inr d
      by (cases "to_Insert Insert [b64 (unat x mod 64)] t1") (simp_all add: be_byte_def Let_def e)
  qed
qed

text \<open>The bits left from the byte before, and the first bits of the next byte.\<close>

lemma or_next_bits:
  fixes x :: byte
  assumes "p * 2 ^ k < 256" and "unat x div 2 ^ j < 2 ^ k"
  shows "of_nat (p * 2 ^ k) OR drop_bit j x = of_nat (p * 2 ^ k + unat x div 2 ^ j)"
proof (rule byte_eq_of_nat)
  have "unat (of_nat (p * 2 ^ k) :: byte) = p * 2 ^ k" using assms(1) by (simp only: unat_of_nat) simp
  then show "unat (of_nat (p * 2 ^ k) OR drop_bit j x) = p * 2 ^ k + unat x div 2 ^ j"
    by (simp only: unsigned_or_eq unat_push_drop(4) or_plus_nat [OF assms(2)])
qed

lemma be_byte_steps:
  fixes x :: byte
  assumes t: "unpadded t"
  shows "be_byte Insert x (\<lparr>be_bitIndex = 2, be_encodedByte = 0, be_size = n\<rparr>, t)
      = bindR (to_Insert Insert [b64 (unat x div 4)] t) (\<lambda>t1. Inr (\<lparr>be_bitIndex = 4, be_encodedByte = of_nat (unat x mod 4 * 16), be_size = n + 1\<rparr>, t1))"
    and "p < 4 \<Longrightarrow> be_byte Insert x (\<lparr>be_bitIndex = 4, be_encodedByte = of_nat (p * 16), be_size = n\<rparr>, t)
      = bindR (to_Insert Insert [b64 (p * 16 + unat x div 16)] t) (\<lambda>t1. Inr (\<lparr>be_bitIndex = 6, be_encodedByte = of_nat (unat x mod 16 * 4), be_size = n + 1\<rparr>, t1))"
    and "p < 16 \<Longrightarrow> be_byte Insert x (\<lparr>be_bitIndex = 6, be_encodedByte = of_nat (p * 4), be_size = n\<rparr>, t)
      = bindR (to_inserts Insert [[b64 (p * 4 + unat x div 64)], [b64 (unat x mod 64)]] t)
          (\<lambda>t1. Inr (\<lparr>be_bitIndex = 2, be_encodedByte = 0, be_size = n + 2\<rparr>, t1))"
proof -
  note x = unat_byte_less [of x]
  have d: "drop_bit 2 (push_bit 6 x) = of_nat (unat x mod 4 * 16)" "drop_bit 2 (push_bit 4 x) = of_nat (unat x mod 16 * 4)"
    by (rule byte_eq_of_nat, rule unat_push_drop)+
  have "unat x div 4 < 64" using x by linarith
  moreover have "(0 :: byte) OR drop_bit 2 x = of_nat (unat x div 4)"
    by (rule byte_eq_of_nat) (simp only: or.left_neutral unat_push_drop(4), simp)
  ultimately show "be_byte Insert x (\<lparr>be_bitIndex = 2, be_encodedByte = 0, be_size = n\<rparr>, t)
      = bindR (to_Insert Insert [b64 (unat x div 4)] t) (\<lambda>t1. Inr (\<lparr>be_bitIndex = 4, be_encodedByte = of_nat (unat x mod 4 * 16), be_size = n + 1\<rparr>, t1))"
    using be_byte_middle [OF t, of "unat x div 4" "\<lparr>be_bitIndex = 2, be_encodedByte = 0, be_size = n\<rparr>" x] d(1) by simp
  show "be_byte Insert x (\<lparr>be_bitIndex = 4, be_encodedByte = of_nat (p * 16), be_size = n\<rparr>, t)
      = bindR (to_Insert Insert [b64 (p * 16 + unat x div 16)] t) (\<lambda>t1. Inr (\<lparr>be_bitIndex = 6, be_encodedByte = of_nat (unat x mod 16 * 4), be_size = n + 1\<rparr>, t1))"
    if "p < 4"
  proof -
    have q: "unat x div 16 < 16" using x by linarith
    have "of_nat (p * 2 ^ 4) OR drop_bit 4 x = of_nat (p * 2 ^ 4 + unat x div 2 ^ 4)" using that q by (intro or_next_bits) simp_all
    then show ?thesis
      using be_byte_middle [OF t, of "p * 16 + unat x div 16" "\<lparr>be_bitIndex = 4, be_encodedByte = of_nat (p * 16), be_size = n\<rparr>" x] d(2) that q
      by simp
  qed
  show "be_byte Insert x (\<lparr>be_bitIndex = 6, be_encodedByte = of_nat (p * 4), be_size = n\<rparr>, t)
      = bindR (to_inserts Insert [[b64 (p * 4 + unat x div 64)], [b64 (unat x mod 64)]] t)
          (\<lambda>t1. Inr (\<lparr>be_bitIndex = 2, be_encodedByte = 0, be_size = n + 2\<rparr>, t1))" if "p < 16"
  proof -
    have q: "unat x div 64 < 4" using x by linarith
    have "of_nat (p * 2 ^ 2) OR drop_bit 6 x = of_nat (p * 2 ^ 2 + unat x div 2 ^ 6)" using that q by (intro or_next_bits) simp_all
    then show ?thesis
      using be_byte_last [OF t, of "p * 4 + unat x div 64" "\<lparr>be_bitIndex = 6, be_encodedByte = of_nat (p * 4), be_size = n\<rparr>" x] that q
      by (simp del: to_inserts.simps)
  qed
qed

lemma size_and_3:
  fixes n :: "32 word"
  assumes "n AND 3 = 0"
  shows "(n + 1) AND 3 \<noteq> 0" "(n + 2) AND 3 \<noteq> 0" "(n + 3) AND 3 \<noteq> 0" "(n + 4) AND 3 = 0"
proof -
  have iff: "w AND 3 = 0 \<longleftrightarrow> unat w mod 4 = 0" for w :: "32 word"
    by (simp add: and_3 word_unat_eq_iff unat_mod)
  have "unat (n + k) mod 4 = unat k mod 4" for k
  proof -
    have "unat (n + k) mod 4 = (unat n + unat k) mod 4" by (simp add: unat_word_ariths mod_mod_cancel)
    also have "\<dots> = unat k mod 4" using assms by (simp add: iff mod_add_eq [symmetric])
    finally show ?thesis .
  qed
  then show "(n + 1) AND 3 \<noteq> 0" "(n + 2) AND 3 \<noteq> 0" "(n + 3) AND 3 \<noteq> 0" "(n + 4) AND 3 = 0"
    by (simp_all add: iff)
qed

lemma bind_Insert_cong:
  assumes "unpadded t" and "\<And>t1. unpadded t1 \<Longrightarrow> f t1 = g t1"
  shows "bindR (to_Insert Insert cs t) f = bindR (to_Insert Insert cs t) g"
  using assms unpadded_Insert [OF assms(1), of Insert cs] by (cases "to_Insert Insert cs t") auto

lemma be_fill_steps:
  assumes "unpadded t"
  shows "be_size e AND 3 \<noteq> 0 \<Longrightarrow> be_fill Insert (e, t) = bindR (to_Insert Insert [61] t) (\<lambda>t'. Inr (e\<lparr>be_size := be_size e + 1\<rparr>, t'))"
    "be_size e AND 3 = 0 \<Longrightarrow> be_fill Insert (e, t) = Inr (e, t)"
  using assms by (simp_all add: be_fill_def to_char_unpadded)

lemma be_destroy_steps:
  assumes t: "unpadded t" and n: "n AND 3 = 0" and i: "i < 64"
  shows "be_size e = n \<Longrightarrow> be_destroy Insert (e, t) = Inr t"
    and "be_size e = n + 2 \<Longrightarrow> be_encodedByte e = of_nat i \<Longrightarrow> be_destroy Insert (e, t) = to_inserts Insert [[b64 i], [61]] t"
    and "be_size e = n + 1 \<Longrightarrow> be_encodedByte e = of_nat i \<Longrightarrow> be_destroy Insert (e, t) = to_inserts Insert [[b64 i], [61], [61]] t"
proof -
  note s = size_and_3 [OF n]
  show "be_destroy Insert (e, t) = Inr t" if "be_size e = n" using n that by (simp add: be_destroy_def be_fill_steps [OF t])
  show "be_destroy Insert (e, t) = to_inserts Insert [[b64 i], [61]] t" if e: "be_size e = n + 2" "be_encodedByte e = of_nat i"
  proof -
    let ?f = "\<lambda>e t. bindR (be_fill Insert (e, t)) (\<lambda>s. bindR (be_fill Insert s) (\<lambda>(_, t'). Inr t'))"
    have rest: "?f (e\<lparr>be_size := n + 3\<rparr>) t1 = to_inserts Insert [[61]] t1" if "unpadded t1" for t1
    proof -
      have "?f (e\<lparr>be_size := n + 3\<rparr>) t1 = bindR (to_Insert Insert [61] t1) (\<lambda>t2. bindR (be_fill Insert (e\<lparr>be_size := n + 4\<rparr>, t2)) (\<lambda>(_, t'). Inr t'))"
        using s(3) be_fill_steps(1) [OF that, of "e\<lparr>be_size := n + 3\<rparr>" Insert] by (simp add: bindR_assoc add.assoc)
      also have "\<dots> = bindR (to_Insert Insert [61] t1) (to_inserts Insert [])"
        by (rule bind_Insert_cong [OF that]) (simp add: be_fill_steps(2) s(4))
      finally show ?thesis by simp
    qed
    have "be_destroy Insert (e, t) = bindR (to_Insert Insert [b64 i] t) (?f (e\<lparr>be_size := n + 3\<rparr>))"
      using s(2) e be_put_unpadded [OF t i e(2)] by (simp add: be_destroy_def bindR_assoc add.assoc)
    also have "\<dots> = bindR (to_Insert Insert [b64 i] t) (to_inserts Insert [[61]])"
      by (rule bind_Insert_cong [OF t rest])
    finally show ?thesis by simp
  qed
  show "be_destroy Insert (e, t) = to_inserts Insert [[b64 i], [61], [61]] t" if e: "be_size e = n + 1" "be_encodedByte e = of_nat i"
  proof -
    let ?f = "\<lambda>e t. bindR (be_fill Insert (e, t)) (\<lambda>s. bindR (be_fill Insert s) (\<lambda>(_, t'). Inr t'))"
    let ?g = "\<lambda>e t. bindR (be_fill Insert (e, t)) (\<lambda>(_, t'). Inr t')"
    have last: "?g (e\<lparr>be_size := n + 3\<rparr>) t1 = to_inserts Insert [[61]] t1" if "unpadded t1" for t1
      using s(3) be_fill_steps(1) [OF that, of "e\<lparr>be_size := n + 3\<rparr>" Insert] by (simp add: bindR_assoc to_inserts_fun)
    have rest: "?f (e\<lparr>be_size := n + 2\<rparr>) t1 = to_inserts Insert [[61], [61]] t1" if "unpadded t1" for t1
    proof -
      have "?f (e\<lparr>be_size := n + 2\<rparr>) t1 = bindR (to_Insert Insert [61] t1) (?g (e\<lparr>be_size := n + 3\<rparr>))"
        using s(2) be_fill_steps(1) [OF that, of "e\<lparr>be_size := n + 2\<rparr>" Insert] by (simp add: bindR_assoc add.assoc)
      also have "\<dots> = bindR (to_Insert Insert [61] t1) (to_inserts Insert [[61]])"
        by (rule bind_Insert_cong [OF that last])
      finally show ?thesis by simp
    qed
    have "be_destroy Insert (e, t) = bindR (to_Insert Insert [b64 i] t) (?f (e\<lparr>be_size := n + 2\<rparr>))"
      using s(1) e be_put_unpadded [OF t i e(2)] by (simp add: be_destroy_def bindR_assoc add.assoc)
    also have "\<dots> = bindR (to_Insert Insert [b64 i] t) (to_inserts Insert [[61], [61]])"
      by (rule bind_Insert_cong [OF t rest])
    finally show ?thesis by simp
  qed
qed

text \<open>What the encoder inserts, with a size that is a multiple of four at the start of a group.\<close>

abbreviation group_start :: "32 word \<Rightarrow> base64_encoder" where
  "group_start n \<equiv> \<lparr>be_bitIndex = 2, be_encodedByte = 0, be_size = n\<rparr>"

lemma be_two_bytes:
  assumes t: "unpadded t"
  shows "bindR (be_Encode Insert (a # b # xs) (group_start n, t)) f =
    bindR (to_Insert Insert [b64 (unat a div 4)] t)
      (\<lambda>t1. bindR (to_Insert Insert [b64 (unat a mod 4 * 16 + unat b div 16)] t1)
        (\<lambda>t2. bindR (be_Encode Insert xs (\<lparr>be_bitIndex = 6, be_encodedByte = of_nat (unat b mod 16 * 4), be_size = n + 2\<rparr>, t2)) f))"
proof -
  let ?s1 = "\<lambda>t1. (\<lparr>be_bitIndex = 4, be_encodedByte = of_nat (unat a mod 4 * 16), be_size = n + 1\<rparr>, t1)"
  have "bindR (be_Encode Insert (a # b # xs) (group_start n, t)) f =
      bindR (to_Insert Insert [b64 (unat a div 4)] t) (\<lambda>t1. bindR (be_Encode Insert (b # xs) (?s1 t1)) f)"
    by (simp only: be_Encode.simps be_byte_steps(1) [OF t] bindR_assoc bindR_simps)
  also have "\<dots> = bindR (to_Insert Insert [b64 (unat a div 4)] t)
      (\<lambda>t1. bindR (to_Insert Insert [b64 (unat a mod 4 * 16 + unat b div 16)] t1)
        (\<lambda>t2. bindR (be_Encode Insert xs (\<lparr>be_bitIndex = 6, be_encodedByte = of_nat (unat b mod 16 * 4), be_size = n + 1 + 1\<rparr>, t2)) f))"
    by (rule bind_Insert_cong [OF t])
      (simp only: be_Encode.simps be_byte_steps(2) mod_less_divisor zero_less_numeral bindR_assoc bindR_simps)
  finally show ?thesis by (simp add: add.assoc del: be_Encode.simps)
qed

lemma be_group_inserts:
  assumes t: "unpadded t" and f: "\<And>t1. unpadded t1 \<Longrightarrow> bindR (be_Encode Insert xs (group_start (n + 4), t1)) f = to_inserts Insert css t1"
  shows "bindR (be_Encode Insert (a # b # c # xs) (group_start n, t)) f =
    to_inserts Insert ([[b64 (unat a div 4)], [b64 (unat a mod 4 * 16 + unat b div 16)],
        [b64 (unat b mod 16 * 4 + unat c div 64)], [b64 (unat c mod 64)]] @ css) t"
proof -
  let ?s = "\<lambda>t2. (\<lparr>be_bitIndex = 6, be_encodedByte = of_nat (unat b mod 16 * 4), be_size = n + 2\<rparr>, t2)"
  let ?cs = "[[b64 (unat b mod 16 * 4 + unat c div 64)], [b64 (unat c mod 64)]]"
  have tail: "bindR (be_Encode Insert (c # xs) (?s t2)) f = to_inserts Insert (?cs @ css) t2" if t2: "unpadded t2" for t2
  proof -
    have "bindR (be_Encode Insert (c # xs) (?s t2)) f
        = bindR (to_inserts Insert ?cs t2) (\<lambda>t1. bindR (be_Encode Insert xs (group_start (n + 2 + 2), t1)) f)"
      by (simp only: be_Encode.simps be_byte_steps(3) [OF t2] mod_less_divisor zero_less_numeral bindR_assoc bindR_simps)
    also have "\<dots> = bindR (to_Insert Insert [b64 (unat b mod 16 * 4 + unat c div 64)] t2)
        (\<lambda>t3. bindR (to_Insert Insert [b64 (unat c mod 64)] t3) (\<lambda>t1. bindR (be_Encode Insert xs (group_start (n + 4), t1)) f))"
      by (simp add: bindR_assoc to_inserts_fun add.assoc)
    also have "\<dots> = bindR (to_Insert Insert [b64 (unat b mod 16 * 4 + unat c div 64)] t2)
        (\<lambda>t3. bindR (to_Insert Insert [b64 (unat c mod 64)] t3) (to_inserts Insert css))"
      by (intro bind_Insert_cong t2 f)
    finally show ?thesis by (simp add: to_inserts_fun)
  qed
  have "bindR (be_Encode Insert (a # b # c # xs) (group_start n, t)) f
      = bindR (to_Insert Insert [b64 (unat a div 4)] t) (\<lambda>t1. bindR (to_Insert Insert [b64 (unat a mod 4 * 16 + unat b div 16)] t1)
          (to_inserts Insert (?cs @ css)))"
    unfolding be_two_bytes [OF t] by (intro bind_Insert_cong t tail)
  then show ?thesis by (simp add: to_inserts_fun)
qed

lemma base64_inserts:
  assumes "unpadded t" and "n AND 3 = 0"
  shows "bindR (be_Encode Insert data (group_start n, t)) (be_destroy Insert)
    = to_inserts Insert (map (\<lambda>c. [c]) (base64_ref data)) t"
  using assms
proof (induction data arbitrary: t n rule: base64_ref.induct)
  case 1
  then show ?case by (simp add: be_destroy_steps(1) [where i = 0])
next
  case (2 a)
  have "bindR (be_Encode Insert [a] (group_start n, t)) (be_destroy Insert) = bindR (to_Insert Insert [b64 (unat a div 4)] t)
      (\<lambda>t1. be_destroy Insert (\<lparr>be_bitIndex = 4, be_encodedByte = of_nat (unat a mod 4 * 16), be_size = n + 1\<rparr>, t1))"
    by (simp add: be_byte_steps(1) [OF 2(1)] bindR_assoc del: of_nat_mult)
  also have "\<dots> = bindR (to_Insert Insert [b64 (unat a div 4)] t) (to_inserts Insert [[b64 (unat a mod 4 * 16)], [61], [61]])"
    by (rule bind_Insert_cong [OF 2(1) be_destroy_steps(3) [OF _ 2(2)]]) simp_all
  finally show ?case by simp
next
  case (3 a b)
  have tail: "bindR (be_Encode Insert [] (\<lparr>be_bitIndex = 6, be_encodedByte = of_nat (unat b mod 16 * 4), be_size = n + 2\<rparr>, t2)) (be_destroy Insert)
      = to_inserts Insert [[b64 (unat b mod 16 * 4)], [61]] t2" if "unpadded t2" for t2
    using be_destroy_steps(2) [OF that 3(2), of "unat b mod 16 * 4"
      "\<lparr>be_bitIndex = 6, be_encodedByte = of_nat (unat b mod 16 * 4), be_size = n + 2\<rparr>" Insert] by (simp del: of_nat_mult)
  have "bindR (be_Encode Insert [a, b] (group_start n, t)) (be_destroy Insert) = bindR (to_Insert Insert [b64 (unat a div 4)] t)
      (\<lambda>t1. bindR (to_Insert Insert [b64 (unat a mod 4 * 16 + unat b div 16)] t1) (to_inserts Insert [[b64 (unat b mod 16 * 4)], [61]]))"
    unfolding be_two_bytes [OF 3(1)] by (intro bind_Insert_cong 3(1) tail)
  then show ?case by (simp add: to_inserts_fun)
next
  case (4 a b c rest)
  have "bindR (be_Encode Insert rest (group_start (n + 4), t1)) (be_destroy Insert)
      = to_inserts Insert (map (\<lambda>c. [c]) (base64_ref rest)) t1" if "unpadded t1" for t1
    using 4(1) [OF that] size_and_3(4) [OF 4(3)] by blast
  from be_group_inserts [OF 4(2) this] show ?case by simp
qed

lemma be_Encode_append: "be_Encode Insert (xs @ ys) s = bindR (be_Encode Insert xs s) (be_Encode Insert ys)"
proof (induction xs arbitrary: s)
  case (Cons x xs)
  then have "be_Encode Insert (xs @ ys) = (\<lambda>s. bindR (be_Encode Insert xs s) (be_Encode Insert ys))" by blast
  then show ?case by (simp add: bindR_assoc)
qed simp

lemma be_Encode_all_concat: "be_Encode_all Insert xss s = be_Encode Insert (concat xss) s"
proof (induction xss arbitrary: s)
  case (Cons xs xss)
  then have "be_Encode_all Insert xss = be_Encode Insert (concat xss)" by blast
  then show ?case by (simp add: be_Encode_append)
qed simp

lemma to_AsBase64_inserts:
  assumes "unpadded t"
  shows "to_AsBase64 Insert data t = to_inserts Insert (map (\<lambda>c. [c]) (base64_ref data)) t"
    and "to_AsCombinedBase64 Insert ranges t = to_inserts Insert (map (\<lambda>c. [c]) (base64_ref (concat ranges))) t"
  using base64_inserts [OF assms, of 0]
  by (simp_all add: to_AsBase64_def to_AsCombinedBase64_def be_make_def be_Encode_all_concat)

subsection \<open>The decoder reads it back\<close>

lemma DecodeBase64Byte_b64: "i < 64 \<Longrightarrow> DecodeBase64Byte (b64 i) = of_nat i"
proof -
  have "list_all (\<lambda>i. DecodeBase64Byte (b64 i) = of_nat i) [0..<64]" by code_simp
  then show "i < 64 \<Longrightarrow> ?thesis" by (auto simp: list_all_iff)
qed

lemma DecodeHexByte_hexChars: "d < 16 \<Longrightarrow> DecodeHexByte (hexChars ! d) = d"
proof -
  have "list_all (\<lambda>d. DecodeHexByte (hexChars ! d) = d) [0..<16]" by code_simp
  then show "d < 16 \<Longrightarrow> ?thesis" by (auto simp: list_all_iff)
qed

text \<open>The bits of the register after the next character, of which the highest eight are the next byte.\<close>

lemma register_bits:
  fixes w :: "16 word"
  assumes v: "v < 64" and k: "k < 8"
  defines "w' \<equiv> push_bit 6 w OR of_nat v"
  shows "unat w' mod 2 ^ (k + 6) = unat w mod 2 ^ k * 64 + v"
    and "2 \<le> k \<Longrightarrow> ucast (drop_bit (k - 2) w') = (of_nat ((unat w mod 2 ^ k * 64 + v) div 2 ^ (k - 2)) :: byte)"
proof -
  have w': "unat w' = (unat w * 64 + v) mod 65536" using unat_shift_or [of v 6 w] v by (simp add: w'_def)
  have "(2 :: nat) ^ (k + 6) dvd 2 ^ 16" using k by (intro le_imp_power_dvd) simp
  then have "unat w' mod 2 ^ (k + 6) = (unat w * 64 + v) mod (2 ^ k * 64)"
    unfolding w' by (simp add: mod_mod_cancel power_add)
  also have "\<dots> = unat w mod 2 ^ k * 64 + v"
  proof -
    have "(unat w * 64 + v) mod (64 * 2 ^ k) = 64 * ((unat w * 64 + v) div 64 mod 2 ^ k) + (unat w * 64 + v) mod 64"
      by (rule mod_mult2_eq)
    then show ?thesis using v by (simp add: mult.commute)
  qed
  finally show low: "unat w' mod 2 ^ (k + 6) = unat w mod 2 ^ k * 64 + v" .
  assume k2: "2 \<le> k"
  have "(ucast (drop_bit (k - 2) w') :: byte) = of_nat (unat (drop_bit (k - 2) w'))" by simp
  also have "unat (drop_bit (k - 2) w') = unat w' div 2 ^ (k - 2)"
  proof -
    have "unat w' < 65536" using w' by simp
    then show ?thesis unfolding unsigned_drop_bit_eq by (simp add: drop_bit_eq_div take_bit_eq_mod)
  qed
  also have "(of_nat (unat w' div 2 ^ (k - 2)) :: byte) = of_nat (unat w' div 2 ^ (k - 2) mod 256)"
    by (simp add: word_unat_eq_iff unat_of_nat)
  also have "unat w' div 2 ^ (k - 2) mod 256 = unat w' mod 2 ^ (k + 6) div 2 ^ (k - 2)"
  proof -
    have "unat w' mod (2 ^ (k - 2) * 256) div 2 ^ (k - 2) = unat w' div 2 ^ (k - 2) mod 256"
      by (simp add: mod_mult2_eq)
    moreover have "(2 :: nat) ^ (k + 6) = 2 ^ (k - 2) * 256"
      using k2 power_add [of "2 :: nat" "k - 2" 8] by (simp add: add.commute)
    ultimately show ?thesis by simp
  qed
  finally show "ucast (drop_bit (k - 2) w') = (of_nat ((unat w mod 2 ^ k * 64 + v) div 2 ^ (k - 2)) :: byte)"
    unfolding low .
qed

lemma drop_high: "(q * 64 + v) mod 16 = v mod 16" "(q * 64 + v) mod 4 = v mod 4" for q v :: nat
  using mod_mult_self3 [of "q * 4" 16 v] mod_mult_self3 [of "q * 16" 4 v] by (simp_all add: mult.assoc)

text \<open>The three bytes of a group from its four characters.\<close>

lemma group_bytes:
  fixes a b c :: byte
  shows "q < 16 \<Longrightarrow> of_nat ((unat a div 4 * 64 + (unat a mod 4 * 16 + q)) div 16) = a"
    and "r < 4 \<Longrightarrow> of_nat ((unat b div 16 * 64 + (unat b mod 16 * 4 + r)) div 4) = b"
    and "of_nat (unat c div 64 * 64 + unat c mod 64) = c"
proof -
  show "of_nat ((unat a div 4 * 64 + (unat a mod 4 * 16 + q)) div 16) = a" if "q < 16"
  proof -
    have "(unat a div 4 * 64 + (unat a mod 4 * 16 + q)) div 16 = unat a div 4 * 4 + unat a mod 4" using that by linarith
    then show ?thesis by (simp only: div_mult_mod_eq) simp
  qed
  show "of_nat ((unat b div 16 * 64 + (unat b mod 16 * 4 + r)) div 4) = b" if "r < 4"
  proof -
    have "(unat b div 16 * 64 + (unat b mod 16 * 4 + r)) div 4 = unat b div 16 * 16 + unat b mod 16" using that by linarith
    then show ?thesis by (simp only: div_mult_mod_eq) simp
  qed
  show "of_nat (unat c div 64 * 64 + unat c mod 64) = c" by (simp only: div_mult_mod_eq) simp
qed

context stream_reader
begin

lemma base64_step:
  assumes t: "at t (b64 v # u)" and v: "v < 64" and "data \<noteq> []" and k: "k < 8"
  obtains w' t' where "at t' u" "same_mode t t'"
    "k < 2 \<Longrightarrow> fb_loop ops k w out data t = fb_loop ops (k + 6) w' out data t'"
    "unat w' mod 2 ^ (k + 6) = unat w mod 2 ^ k * 64 + v"
    "2 \<le> k \<Longrightarrow> fb_loop ops k w out data t
       = fb_loop ops (k - 2) w' (out @ [of_nat ((unat w mod 2 ^ k * 64 + v) div 2 ^ (k - 2))]) (tl data) t'"
proof -
  obtain t' where t': "ti_char ops 0 t = Inr (b64 v, t')" "at t' u" "same_mode t t'" using t by (rule take_char)
  let ?w = "push_bit 6 w OR of_nat v :: 16 word"
  have uv: "unat (of_nat v :: byte) = v" using v by (simp add: unat_of_nat)
  have "ucast x = (of_nat (unat x) :: 16 word)" for x :: byte by simp
  then have "ucast (of_nat v :: byte) = (of_nat v :: 16 word)" using uv by metis
  then have step: "fb_loop ops k w out data t =
      (if 8 \<le> k + 6 then fb_loop ops (k + 6 - 8) ?w (out @ [ucast (drop_bit (k + 6 - 8) ?w)]) (tl data) t'
       else fb_loop ops (k + 6) ?w out data t')"
    using assms(3) k not_empty [OF t] t'(1) v uv by (subst fb_loop.simps) (simp add: DecodeBase64Byte_b64 Let_def)
  show ?thesis
    by (rule that [OF t'(2,3), of ?w]) (use step register_bits [OF v k, of w] k in \<open>auto simp: not_le\<close>)
qed

lemma base64_padding:
  "at t (replicate n 61 @ u) \<Longrightarrow> \<exists>t'. fb_padding ops (2 * n) t = Inr t' \<and> at t' u \<and> same_mode t t'"
proof (induction n arbitrary: t)
  case 0
  then show ?case by (subst fb_padding.simps) (simp add: same_mode_def)
next
  case (Suc n)
  then have t: "at t (61 # replicate n 61 @ u)" by simp
  then obtain t1 where t1: "ti_char ops 0 t = Inr (61, t1)" "at t1 (replicate n 61 @ u)" "same_mode t t1" by (rule take_char)
  let ?t2 = "t1\<lparr>ti_errorPolicy := (ti_errorPolicy t1)\<lparr>ep_checkedFail := (ep_failureMode (ti_errorPolicy t1) \<noteq> FailSoft)\<rparr>\<rparr>"
  have t2: "at ?t2 (replicate n 61 @ u)" "same_mode t ?t2" using t1(2,3) by (simp_all add: at_def same_mode_def)
  have "fb_padding ops (2 * Suc n) t = fb_padding ops (2 * n) ?t2"
    using t1(1) not_empty [OF t] by (subst fb_padding.simps) (simp add: ti_Report_def)
  with Suc.IH [OF t2(1)] same_mode_trans [OF t2(2)] show ?case by auto
qed

lemma base64_end:
  assumes "at t (replicate n 61 @ u)"
  shows "\<exists>t'. fb_loop ops (2 * n) w out [] t = Inr (out, t') \<and> at t' u \<and> same_mode t t'"
proof -
  obtain t1 where t1: "fb_padding ops (2 * n) t = Inr t1" "at t1 u" "same_mode t t1" using base64_padding [OF assms] by blast
  let ?t2 = "t1\<lparr>ti_errorPolicy := (ti_errorPolicy t1)\<lparr>ep_checkedFail := (ep_failureMode (ti_errorPolicy t1) \<noteq> FailSoft)\<rparr>\<rparr>"
  have "fb_loop ops (2 * n) w out [] t = Inr (out, ?t2)" using t1(1) by (subst fb_loop.simps) (simp add: ti_Report_def)
  then show ?thesis using t1(2,3) by (auto simp: at_def same_mode_def)
qed

lemma base64_steps:
  assumes t: "at t (b64 v # u)" and v: "v < 64"
  shows "\<exists>w' t'. at t' u \<and> same_mode t t' \<and> fb_loop ops 0 w out (x # data) t = fb_loop ops 6 w' out (x # data) t' \<and> unat w' mod 64 = v"
    and "\<exists>w' t'. at t' u \<and> same_mode t t' \<and> unat w' mod 16 = v mod 16
      \<and> fb_loop ops 6 w out (x # data) t = fb_loop ops 4 w' (out @ [of_nat ((unat w mod 64 * 64 + v) div 16)]) data t'"
    and "\<exists>w' t'. at t' u \<and> same_mode t t' \<and> unat w' mod 4 = v mod 4
      \<and> fb_loop ops 4 w out (x # data) t = fb_loop ops 2 w' (out @ [of_nat ((unat w mod 16 * 64 + v) div 4)]) data t'"
    and "\<exists>w' t'. at t' u \<and> same_mode t t' \<and> fb_loop ops 2 w out (x # data) t = fb_loop ops 0 w' (out @ [of_nat (unat w mod 4 * 64 + v)]) data t'"
proof -
  have d: "x # data \<noteq> []" by simp
  show "\<exists>w' t'. at t' u \<and> same_mode t t' \<and> fb_loop ops 0 w out (x # data) t = fb_loop ops 6 w' out (x # data) t' \<and> unat w' mod 64 = v"
    by (rule base64_step [OF t v d, of 0 w out]) auto
  show "\<exists>w' t'. at t' u \<and> same_mode t t' \<and> unat w' mod 16 = v mod 16
      \<and> fb_loop ops 6 w out (x # data) t = fb_loop ops 4 w' (out @ [of_nat ((unat w mod 64 * 64 + v) div 16)]) data t'"
  proof (rule base64_step [OF t v d, of 6 w out])
    fix w' :: "16 word" and t'
    assume a: "at t' u" "same_mode t t'" "unat w' mod 2 ^ (6 + 6) = unat w mod 2 ^ 6 * 64 + v"
      "2 \<le> (6 :: nat) \<Longrightarrow> fb_loop ops 6 w out (x # data) t = fb_loop ops (6 - 2) w'
         (out @ [of_nat ((unat w mod 2 ^ 6 * 64 + v) div 2 ^ (6 - 2))]) (tl (x # data)) t'"
    have "unat w' mod 16 = unat w' mod 2 ^ (6 + 6) mod 16" by (simp add: mod_mod_cancel)
    also have "\<dots> = v mod 16" unfolding a(3) by (rule drop_high)
    finally show ?thesis using a(1,2,4) by auto
  qed simp
  show "\<exists>w' t'. at t' u \<and> same_mode t t' \<and> unat w' mod 4 = v mod 4
      \<and> fb_loop ops 4 w out (x # data) t = fb_loop ops 2 w' (out @ [of_nat ((unat w mod 16 * 64 + v) div 4)]) data t'"
  proof (rule base64_step [OF t v d, of 4 w out])
    fix w' :: "16 word" and t'
    assume a: "at t' u" "same_mode t t'" "unat w' mod 2 ^ (4 + 6) = unat w mod 2 ^ 4 * 64 + v"
      "2 \<le> (4 :: nat) \<Longrightarrow> fb_loop ops 4 w out (x # data) t = fb_loop ops (4 - 2) w'
         (out @ [of_nat ((unat w mod 2 ^ 4 * 64 + v) div 2 ^ (4 - 2))]) (tl (x # data)) t'"
    have "unat w' mod 4 = unat w' mod 2 ^ (4 + 6) mod 4" by (simp add: mod_mod_cancel)
    also have "\<dots> = v mod 4" unfolding a(3) by (rule drop_high)
    finally show ?thesis using a(1,2,4) by auto
  qed simp
  show "\<exists>w' t'. at t' u \<and> same_mode t t' \<and> fb_loop ops 2 w out (x # data) t = fb_loop ops 0 w' (out @ [of_nat (unat w mod 4 * 64 + v)]) data t'"
    by (rule base64_step [OF t v d, of 2 w out]) auto
qed

lemma base64_first_byte:
  assumes t: "at t (b64 (unat a div 4) # b64 (unat a mod 4 * 16 + q) # u)" and q: "q < 16"
  shows "\<exists>w' t'. at t' u \<and> same_mode t t' \<and> fb_loop ops 0 w out (x # data) t = fb_loop ops 4 w' (out @ [a]) data t' \<and> unat w' mod 16 = q"
proof -
  have a: "unat a div 4 < 64" "unat a mod 4 * 16 + q < 64" using unat_byte_less [of a] q by linarith+
  obtain w1 t1 where s1: "at t1 (b64 (unat a mod 4 * 16 + q) # u)" "same_mode t t1"
      "fb_loop ops 0 w out (x # data) t = fb_loop ops 6 w1 out (x # data) t1" "unat w1 mod 64 = unat a div 4"
    using base64_steps(1) [OF t a(1), of w out x data] by blast
  obtain w2 t2 where s2: "at t2 u" "same_mode t1 t2" "unat w2 mod 16 = (unat a mod 4 * 16 + q) mod 16"
      "fb_loop ops 6 w1 out (x # data) t1 = fb_loop ops 4 w2 (out @ [of_nat ((unat w1 mod 64 * 64 + (unat a mod 4 * 16 + q)) div 16)]) data t2"
    using base64_steps(2) [OF s1(1) a(2), of w1 out x data] by blast
  have "of_nat ((unat w1 mod 64 * 64 + (unat a mod 4 * 16 + q)) div 16) = a" unfolding s1(4) by (rule group_bytes(1) [OF q])
  moreover have "unat w2 mod 16 = q" using s2(3) q by simp
  ultimately show ?thesis using s1 s2 same_mode_trans [OF s1(2) s2(2)] by auto
qed

lemma base64_second_byte:
  assumes t: "at t (b64 (unat b mod 16 * 4 + r) # u)" and r: "r < 4" and w: "unat w mod 16 = unat b div 16"
  shows "\<exists>w' t'. at t' u \<and> same_mode t t' \<and> fb_loop ops 4 w out (x # data) t = fb_loop ops 2 w' (out @ [b]) data t' \<and> unat w' mod 4 = r"
proof -
  have v: "unat b mod 16 * 4 + r < 64" using r by linarith
  obtain w1 t1 where s1: "at t1 u" "same_mode t t1" "unat w1 mod 4 = (unat b mod 16 * 4 + r) mod 4"
      "fb_loop ops 4 w out (x # data) t = fb_loop ops 2 w1 (out @ [of_nat ((unat w mod 16 * 64 + (unat b mod 16 * 4 + r)) div 4)]) data t1"
    using base64_steps(3) [OF t v, of w out x data] by blast
  have "of_nat ((unat w mod 16 * 64 + (unat b mod 16 * 4 + r)) div 4) = b" unfolding w by (rule group_bytes(2) [OF r])
  moreover have "unat w1 mod 4 = r" using s1(3) r by simp
  ultimately show ?thesis using s1 by auto
qed

lemma base64_reads:
  assumes "at t (base64_ref xs @ u)" and "length data = length xs"
  shows "\<exists>t'. fb_loop ops 0 w out data t = Inr (out @ xs, t') \<and> at t' u \<and> same_mode t t'"
  using assms
proof (induction xs arbitrary: t w out data rule: base64_ref.induct)
  case 1
  then show ?case using base64_end [of t 0 u w out] by simp
next
  case (2 a)
  then obtain x where d: "data = [x]" by (cases data) auto
  obtain w1 t1 where s1: "at t1 (61 # 61 # u)" "same_mode t t1" "fb_loop ops 0 w out data t = fb_loop ops 4 w1 (out @ [a]) [] t1"
    using base64_first_byte [of t a 0 "61 # 61 # u" w out x "[]"] 2(1) d by auto
  have e: "at t1 (replicate 2 61 @ u)" using s1(1) by (simp add: numeral_2_eq_2)
  show ?case using s1(3) base64_end [OF e, of w1 "out @ [a]"] same_mode_trans [OF s1(2)] by auto
next
  case (3 a b)
  then obtain x y where d: "data = [x, y]" by (cases data; cases "tl data") auto
  have q: "unat b div 16 < 16" using unat_byte_less [of b] by linarith
  obtain w1 t1 where s1: "at t1 (b64 (unat b mod 16 * 4) # 61 # u)" "same_mode t t1"
      "fb_loop ops 0 w out data t = fb_loop ops 4 w1 (out @ [a]) [y] t1" "unat w1 mod 16 = unat b div 16"
    using base64_first_byte [OF _ q, of t a "b64 (unat b mod 16 * 4) # 61 # u" w out x "[y]"] 3(1) d by auto
  obtain w2 t2 where s2: "at t2 (61 # u)" "same_mode t1 t2" "fb_loop ops 4 w1 (out @ [a]) [y] t1 = fb_loop ops 2 w2 (out @ [a, b]) [] t2"
    using base64_second_byte [of t1 b 0 "61 # u" w1 "out @ [a]" y "[]"] s1(1,4) by auto
  show ?case using s1(3) s2 base64_end [of t2 1 u w2 "out @ [a, b]"] same_mode_trans [OF s1(2) same_mode_trans [OF s2(2)]] by auto
next
  case (4 a b c rest)
  then obtain x y z data' where d: "data = x # y # z # data'" "length data' = length rest"
    by (cases data; cases "tl data"; cases "tl (tl data)") auto
  let ?u = "base64_ref rest @ u" and ?v3 = "unat b mod 16 * 4 + unat c div 64"
  have q: "unat b div 16 < 16" "unat c div 64 < 4" using unat_byte_less [of b] unat_byte_less [of c] by linarith+
  obtain w1 t1 where s1: "at t1 (b64 ?v3 # b64 (unat c mod 64) # ?u)" "same_mode t t1"
      "fb_loop ops 0 w out data t = fb_loop ops 4 w1 (out @ [a]) (y # z # data') t1" "unat w1 mod 16 = unat b div 16"
    using base64_first_byte [OF _ q(1), of t a "b64 ?v3 # b64 (unat c mod 64) # ?u" w out x "y # z # data'"] 4(2) d(1) by auto
  obtain w2 t2 where s2: "at t2 (b64 (unat c mod 64) # ?u)" "same_mode t1 t2" "unat w2 mod 4 = unat c div 64"
      "fb_loop ops 4 w1 (out @ [a]) (y # z # data') t1 = fb_loop ops 2 w2 (out @ [a, b]) (z # data') t2"
    using base64_second_byte [OF s1(1) q(2) s1(4), of "out @ [a]" y "z # data'"] by auto
  obtain w3 t3 where s3: "at t3 ?u" "same_mode t2 t3"
      "fb_loop ops 2 w2 (out @ [a, b]) (z # data') t2 = fb_loop ops 0 w3 (out @ [a, b] @ [of_nat (unat w2 mod 4 * 64 + unat c mod 64)]) data' t3"
    using base64_steps(4) [OF s2(1), of w2 "out @ [a, b]" z data'] by auto
  have c: "of_nat (unat w2 mod 4 * 64 + unat c mod 64) = c" unfolding s2(3) by (rule group_bytes(3))
  obtain t' where t': "fb_loop ops 0 w3 (out @ [a, b, c]) data' t3 = Inr ((out @ [a, b, c]) @ rest, t')" "at t' u" "same_mode t3 t'"
    using 4(1) [OF s3(1) d(2)] by blast
  have "same_mode t t'" using s1(2) s2(2) s3(2) t'(3) by (blast intro: same_mode_trans)
  then show ?case using s1(3) s2(4) s3(3) t'(1,2) c by simp
qed

lemma FromBase64_reads:
  assumes "at t (base64_ref xs @ u)" and "length data = length xs"
  shows "\<exists>t'. ti_FromBase64 ops data t = Inr (xs, t') \<and> at t' u \<and> same_mode t t'"
  using base64_reads [OF assms, of 0 "[]"] by (simp add: ti_FromBase64_def)

end

end
