(* ===== verification/Byte_Codecs.thy ===== *)
theory Byte_Codecs
  imports Byte_Text
begin

section \<open>Printing bytes and reading them back\<close>

text \<open>
  The properties of Base64 and hexadecimal text over ranges of bytes: what \<^verbatim>\<open>AsBase64\<close>, \<^verbatim>\<open>AsCombinedBase64\<close> and \<^verbatim>\<open>AsHex\<close> print,
  that \<^verbatim>\<open>FromBase64\<close> and \<^verbatim>\<open>FromHex\<close> read it back, and the size \<^verbatim>\<open>Base64DecodedSize\<close> announces.
\<close>

subsection \<open>The size of the decoded text\<close>

lemma b64_not_pad: "i < 64 \<Longrightarrow> b64 i \<noteq> 61"
proof -
  have "list_all (\<lambda>i. b64 i \<noteq> 61) [0..<64]" by code_simp
  then show "i < 64 \<Longrightarrow> ?thesis" by (auto simp: list_all_iff)
qed

lemma byte_parts:
  fixes a b :: byte
  shows "unat a div 4 < 64" "unat a mod 4 * 16 < 64" "unat a mod 4 * 16 + unat b div 16 < 64" "unat a mod 16 * 4 < 64"
    "unat a mod 16 * 4 + unat b div 64 < 64" "unat a mod 64 < 64"
  using unat_byte_less [of a] unat_byte_less [of b] by linarith+

lemmas b64_parts_not_pad = byte_parts [THEN b64_not_pad]

definition pads :: "byte list \<Rightarrow> nat" where
  "pads s = length (takeWhile (\<lambda>c. c = 61) (rev s))"

lemma pads_append: "\<exists>c \<in> set ys. c \<noteq> 61 \<Longrightarrow> pads (xs @ ys) = pads ys"
  by (auto simp: pads_def)

lemma pads_all: "pads s = length s \<Longrightarrow> c \<in> set s \<Longrightarrow> c = 61"
proof -
  assume p: "pads s = length s" and c: "c \<in> set s"
  have "length (rev s) = pads s + length (dropWhile (\<lambda>c. c = 61) (rev s))"
    unfolding pads_def by (metis length_append takeWhile_dropWhile_id)
  then have "dropWhile (\<lambda>c. c = 61) (rev s) = []" using p by simp
  then have "\<forall>x \<in> set s. x = 61" by (simp add: dropWhile_eq_Nil_conv)
  then show "c = 61" using c by blast
qed

lemma base64_ref_shape:
  "\<exists>k p. length (base64_ref xs) = 4 * k \<and> length xs + p = 3 * k
     \<and> (xs \<noteq> [] \<longrightarrow> pads (base64_ref xs) = p \<and> (\<exists>c \<in> set (base64_ref xs). c \<noteq> 61))"
proof (induction xs rule: base64_ref.induct)
  case 1
  show ?case by simp
next
  case (2 a)
  show ?case by (intro exI [of _ 1] exI [of _ 2]) (simp add: pads_def b64_parts_not_pad)
next
  case (3 a b)
  show ?case by (intro exI [of _ 1] exI [of _ 1]) (simp add: pads_def b64_parts_not_pad)
next
  case (4 a b c rest)
  let ?g = "[b64 (unat a div 4), b64 (unat a mod 4 * 16 + unat b div 16), b64 (unat b mod 16 * 4 + unat c div 64), b64 (unat c mod 64)]"
  obtain k p where kp: "length (base64_ref rest) = 4 * k" "length rest + p = 3 * k"
      "rest \<noteq> [] \<Longrightarrow> pads (base64_ref rest) = p \<and> (\<exists>c \<in> set (base64_ref rest). c \<noteq> 61)"
    using 4 by blast
  show ?case
  proof (cases "rest = []")
    case True
    then show ?thesis by (intro exI [of _ 1] exI [of _ 0]) (simp add: pads_def b64_parts_not_pad)
  next
    case False
    have "pads (?g @ base64_ref rest) = p" using pads_append [of "base64_ref rest" ?g] kp(3) [OF False] by blast
    then show ?thesis using kp(1,2) by (intro exI [of _ "k + 1"] exI [of _ p]) (simp add: b64_parts_not_pad)
  qed
qed

lemma Base64DecodedSize_ref:
  assumes "length xs < 2 ^ 64"
  shows "Base64DecodedSize (base64_ref xs) = Inr (length xs)"
proof (cases "xs = []")
  case True
  then show ?thesis by (simp add: Base64DecodedSize_def)
next
  case False
  obtain k p where kp: "length (base64_ref xs) = 4 * k" "length xs + p = 3 * k" "pads (base64_ref xs) = p"
      "\<exists>c \<in> set (base64_ref xs). c \<noteq> 61"
    using base64_ref_shape [of xs] False by blast
  have "p \<noteq> 4 * k" using pads_all [of "base64_ref xs"] kp by auto
  moreover have "0 < k" using kp(2) False by (cases k) auto
  moreover have "int (4 * k div 4 * 3) - int p = int (length xs)" using kp(2) by simp
  ultimately show ?thesis using kp(1,3) assms
    by (simp add: Base64DecodedSize_def pads_def [symmetric] Let_def del: of_nat_mult)
qed

subsection \<open>Hexadecimal text\<close>

definition hex_text :: "byte list \<Rightarrow> byte list" where
  "hex_text xs = concat (map (\<lambda>x. [hexChars ! (unat x div 16), hexChars ! (unat x mod 16)]) xs)"

lemma hex_text_Cons: "hex_text (x # xs) = hexChars ! (unat x div 16) # hexChars ! (unat x mod 16) # hex_text xs"
  by (simp add: hex_text_def)

lemma hex_text_Nil [simp]: "hex_text [] = []"
  by (simp add: hex_text_def)

lemma length_hex_text [simp]: "length (hex_text xs) = 2 * length xs"
  by (induction xs) (simp_all add: hex_text_Cons)

lemma padded_hex_byte: "padded 2 48 (number_text RadixHex (int (unat x))) = [hexChars ! (unat x div 16), hexChars ! (unat x mod 16)]"
  for x :: byte
proof -
  have x: "unat x div 16 < 16" using unat_byte_less [of x] by linarith
  show ?thesis
  proof (cases "unat x < 16")
    case True
    then show ?thesis by (simp add: number_text_def radix_base_def radix_digits.simps padded_def hexChars_def)
  next
    case False
    then show ?thesis using x
      by (simp add: number_text_def radix_base_def radix_digits.simps [of 16 "unat x"] radix_digits.simps [of 16 "unat x div 16"] padded_def)
  qed
qed

context stream_sink
begin

lemma AsHex_prints:
  assumes "ok (to_writer t)" and "2 * length xs \<le> available (to_writer t)"
  shows "\<exists>t'. to_AsHex ins xs t = Inr t' \<and> printed t (hex_text xs) t'"
  using assms
proof (induction xs arbitrary: t)
  case Nil
  then show ?case by (simp add: printed_def)
next
  case (Cons x xs)
  let ?t = "to_Width 2 48 (to_Hex t)" and ?d = "[hexChars ! (unat x div 16), hexChars ! (unat x mod 16)]"
  have "to_writer ?t = to_writer t" "to_radix ?t = RadixHex" "to_width ?t = 2" "to_padding ?t = 48" "to_errorPolicy ?t = to_errorPolicy t"
    by (simp_all add: to_Width_def to_Hex_def)
  moreover have "unat (ucast x :: 64 word) = unat x" using unat_byte_less [of x] by (simp add: unsigned_ucast_eq take_bit_nat_eq_self)
  ultimately obtain t1 where t1: "to_uint8 ins x ?t = Inr t1" "printed ?t ?d t1"
    using uint64_prints [of ?t "ucast x"] Cons.prems padded_hex_byte [of x] by (auto simp: to_uint8_def)
  let ?t2 = "t\<lparr>to_writer := to_writer t1, to_errorPolicy := to_errorPolicy t1\<rparr>"
  have p2: "printed t ?d ?t2" using t1(2) by (simp add: printed_def to_Width_def to_Hex_def)
  then have ok2: "ok (to_writer ?t2)" "2 * length xs \<le> available (to_writer ?t2)"
    using Cons.prems(2) by (simp_all add: printed_def)
  obtain t' where "to_AsHex ins xs ?t2 = Inr t'" "printed ?t2 (hex_text xs) t'"
    using Cons.IH [of ?t2] ok2 by blast
  then show ?case using t1(1) printed_trans [OF p2] by (auto simp: to_on_def hex_text_Cons)
qed

lemma AsBase64_prints:
  assumes "ok (to_writer t)" and "unpadded t" and "length (base64_ref xs) \<le> available (to_writer t)"
  shows "\<exists>t'. to_AsBase64 ins xs t = Inr t' \<and> printed t (base64_ref xs) t'"
proof -
  have "concat (map (\<lambda>c. [c]) s) = s" for s :: "byte list" by (induction s) simp_all
  with inserts_fit [OF assms(1), of "map (\<lambda>c. [c]) (base64_ref xs)"] assms(3) show ?thesis
    by (auto simp: to_AsBase64_inserts(1) [OF assms(2)])
qed

end

lemma fh_digits:
  assumes "p < 16" and "q < 16"
  shows "push_bit 4 (push_bit 4 d OR of_nat p) OR of_nat q = (of_nat (p * 16 + q) :: byte)"
proof (rule byte_eq_of_nat)
  have "unat (push_bit 4 (push_bit 4 d OR of_nat p) OR of_nat q :: byte) = (unat (push_bit 4 d OR of_nat p :: byte) * 16 + q) mod 256"
    using unat_shift_or [of q 4 "push_bit 4 d OR of_nat p :: byte"] assms(2) by simp
  also have "unat (push_bit 4 d OR of_nat p :: byte) = (unat d * 16 + p) mod 256"
    using unat_shift_or [of p 4 d] assms(1) by simp
  also have "((unat d * 16 + p) mod 256 * 16 + q) mod 256 = p * 16 + q"
  proof -
    define m where "m = (unat d * 16 + p) mod 256"
    have "m mod 16 = (unat d * 16 + p) mod 16" unfolding m_def by (rule mod_mod_cancel) simp
    then have "m mod 16 = p" using assms(1) by simp
    then have "m = m div 16 * 16 + p" by (metis div_mult_mod_eq)
    then have "m * 16 + q = m div 16 * 256 + (p * 16 + q)" by simp
    then have "(m * 16 + q) mod 256 = (p * 16 + q) mod 256" by (simp only: mod_mult_self3)
    then show ?thesis using assms unfolding m_def [symmetric] by simp
  qed
  finally show "unat (push_bit 4 (push_bit 4 d OR of_nat p) OR of_nat q :: byte) = p * 16 + q" .
qed

context stream_reader
begin

lemma hex_step:
  assumes t: "at t (hexChars ! v # u)" and v: "v < 16" and "data \<noteq> []" and "k = 0 \<or> k = 4"
  obtains t' where "at t' u" "same_mode t t'"
    "\<And>d. fh_loop ops k d out data t = (let e = push_bit 4 d OR of_nat v
       in if k = 4 then fh_loop ops 0 e (out @ [e]) (tl data) t' else fh_loop ops 4 e out data t')"
proof -
  obtain t' where t': "ti_char ops 0 t = Inr (hexChars ! v, t')" "at t' u" "same_mode t t'" using t by (rule take_char)
  show ?thesis
    by (rule that [OF t'(2,3)], subst fh_loop.simps)
      (use assms(3,4) not_empty [OF t] t'(1) v in \<open>auto simp: DecodeHexByte_hexChars Let_def\<close>)
qed

lemma hex_reads:
  assumes "at t (hex_text xs @ u)" and "length data = length xs"
  shows "\<exists>t'. fh_loop ops 0 d out data t = Inr (out @ xs, t') \<and> at t' u \<and> same_mode t t'"
  using assms
proof (induction xs arbitrary: t d out data)
  case Nil
  then show ?case by (subst fh_loop.simps) (simp add: ti_Report_def ep_ReportResult_def same_mode_def at_def)
next
  case (Cons x xs)
  let ?p = "unat x div 16" and ?q = "unat x mod 16"
  have pq: "?p < 16" "?q < 16" using unat_byte_less [of x] by linarith+
  obtain y data' where d: "data = y # data'" "length data' = length xs" using Cons.prems(2) by (cases data) auto
  have at0: "at t (hexChars ! ?p # hexChars ! ?q # hex_text xs @ u)" using Cons.prems(1) by (simp add: hex_text_Cons)
  obtain t1 where t1: "at t1 (hexChars ! ?q # hex_text xs @ u)" "same_mode t t1"
      "fh_loop ops 0 d out data t = fh_loop ops 4 (push_bit 4 d OR of_nat ?p) out data t1"
    by (rule hex_step [OF at0 pq(1), of data 0 out]) (use d in \<open>auto simp: Let_def\<close>)
  obtain t2 where t2: "at t2 (hex_text xs @ u)" "same_mode t1 t2"
      "\<And>e. fh_loop ops 4 e out data t1 = fh_loop ops 0 (push_bit 4 e OR of_nat ?q) (out @ [push_bit 4 e OR of_nat ?q]) data' t2"
    by (rule hex_step [OF t1(1) pq(2), of data 4 out]) (use d in \<open>auto simp: Let_def\<close>)
  have "of_nat (?p * 16 + ?q) = x" by (rule byte_eq_of_nat [symmetric]) simp
  then have b: "push_bit 4 (push_bit 4 d OR of_nat ?p) OR of_nat ?q = x" using fh_digits [OF pq, of d] by simp
  show ?case using t1(3) t2(3) [of "push_bit 4 d OR of_nat ?p"] Cons.IH [OF t2(1) d(2), of x "out @ [x]"]
      same_mode_trans [OF same_mode_trans [OF t1(2) t2(2)]] unfolding b by auto
qed

lemma FromHex_reads:
  assumes "at t (hex_text xs @ u)" and "length data = length xs"
  shows "\<exists>t'. ti_FromHex ops data t = Inr (xs, t') \<and> at t' u \<and> same_mode t t'"
  using hex_reads [OF assms, of 0 "[]"] by (simp add: ti_FromHex_def)

end

subsection \<open>Properties\<close>

text \<open>
  C25. The encoder, which is fed byte by byte and keeps the bits left over, prints Base64 as it is defined by groups of three bytes,
  whether the bytes come as one range or in pieces: over a range with room for it, the text that is added is that of the reference
  definition, and no failure is recorded.
\<close>

theorem base64_is_printed:
  assumes "bw_ok (to_writer t)" and "unpadded t" and "length (base64_ref (concat ranges)) \<le> bw_Available (to_writer t)"
  shows "\<exists>t'. to_AsBase64 bw_Insert (concat ranges) t = Inr t' \<and> to_AsCombinedBase64 bw_Insert ranges t = Inr t'
    \<and> bw_Processed (to_writer t') = bw_Processed (to_writer t) @ base64_ref (concat ranges)
    \<and> ep_failed (to_errorPolicy t') = ep_failed (to_errorPolicy t)"
  using bw.AsBase64_prints [OF assms] to_AsBase64_inserts [OF assms(2), of bw_Insert]
  by (auto simp: bw.printed_def)

theorem base64_is_printed_witness:
  "\<exists>t'. to_AsCombinedBase64 bw_Insert [[97], [98]] (to_make (bw_make [0, 0, 0, 0]) (ep_make FailByAssertion)) = Inr t'
    \<and> bw_Processed (to_writer t') = [89, 87, 73, 61]"
proof -
  have "base64_ref [97, 98] = [89, 87, 73, 61]" by (simp add: b64_def base64Table_def upt_rec)
  then show ?thesis
    using base64_is_printed [of "to_make (bw_make [0, 0, 0, 0]) (ep_make FailByAssertion)" "[[97], [98]]"]
    by (auto simp: to_make_def unpadded_def bw_make_def bw_ok_def bw_Available_def bw_Processed_def)
qed

text \<open>
  C26. Base64 is read back: into a range of the right size, \<^verbatim>\<open>FromBase64\<close> reads exactly the bytes the text stands for, takes the
  padding with it, leaves what follows, and records no failure; and \<^verbatim>\<open>Base64DecodedSize\<close> announces that size.
\<close>

theorem base64_roundtrip:
  assumes "length data = length xs" and "length xs < 2 ^ 64"
  shows "Base64DecodedSize (base64_ref xs) = Inr (length xs)
    \<and> (\<exists>t'. ti_FromBase64 br_ops data (ti_make (br_make (base64_ref xs @ u)) (ep_make mode)) = Inr (xs, t')
        \<and> br_Remaining (ti_reader t') = u \<and> \<not> ep_failed (ti_errorPolicy t'))"
  using Base64DecodedSize_ref [OF assms(2)] br.FromBase64_reads [OF br_at_make assms(1), of u "ep_make mode"]
  by (auto simp: br_ops_eq br.at_def br.unread_def br.same_mode_def br_Remaining_def ti_make_def ep_make_def)

theorem base64_roundtrip_witness:
  "\<exists>t'. ti_FromBase64 br_ops [0, 0] (ti_make (br_make [89, 87, 73, 61, 33]) (ep_make FailByAssertion)) = Inr ([97, 98], t')
    \<and> br_Remaining (ti_reader t') = [33]"
proof -
  have "base64_ref [97, 98] = [89, 87, 73, 61]" by (simp add: b64_def base64Table_def upt_rec)
  then show ?thesis using base64_roundtrip [of "[0, 0]" "[97, 98]" "[33]" FailByAssertion] by auto
qed

text \<open>
  Bytes printed with \<^verbatim>\<open>AsHex\<close> are two hexadecimal digits each, whatever radix and width the stream has, and \<^verbatim>\<open>FromHex\<close> reads the same
  bytes back into a range of the right size.
\<close>

theorem hex_bytes_roundtrip:
  assumes "bw_ok (to_writer t)" and "2 * length xs \<le> bw_Available (to_writer t)" and "length data = length xs"
  shows "\<exists>t' s t''. to_AsHex bw_Insert xs t = Inr t' \<and> bw_Processed (to_writer t') = bw_Processed (to_writer t) @ s
    \<and> length s = 2 * length xs \<and> ti_FromHex br_ops data (ti_make (br_make (s @ u)) (ep_make mode)) = Inr (xs, t'')
    \<and> br_Remaining (ti_reader t'') = u \<and> \<not> ep_failed (ti_errorPolicy t'')"
  using bw.AsHex_prints [OF assms(1,2)] br.FromHex_reads [OF br_at_make assms(3), of u "ep_make mode"]
  by (auto simp: bw.printed_def br_ops_eq br.at_def br.unread_def br.same_mode_def br_Remaining_def ti_make_def ep_make_def)

theorem hex_bytes_roundtrip_witness:
  "\<exists>t' s t''. to_AsHex bw_Insert [10, 255] (to_make (bw_make [0, 0, 0, 0, 0]) (ep_make FailSoft)) = Inr t'
    \<and> bw_Processed (to_writer t') = s \<and> length s = 4
    \<and> ti_FromHex br_ops [0, 0] (ti_make (br_make (s @ [32])) (ep_make FailSoft)) = Inr ([10, 255], t'')
    \<and> br_Remaining (ti_reader t'') = [32]"
  using hex_bytes_roundtrip [of "to_make (bw_make [0, 0, 0, 0, 0]) (ep_make FailSoft)" "[10, 255]" "[0, 0]" "[32]" FailSoft]
  by (auto simp: to_make_def bw_make_def bw_ok_def bw_Available_def bw_Processed_def)

end
