(* ===== verification/Cobs_Code.thy ===== *)
theory Cobs_Code
  imports Prelude
begin

section \<open>Consistent overhead byte stuffing, as functions on byte sequences\<close>

text \<open>
  The reference code that the in-place encoder and the decoding state machine of
  services/util/SesameCobs.cpp are proved against. \<open>cobs_encode\<close> cuts a message at its zeros and
  after every 254 bytes without one, and puts the length before each piece; the closing zero is the
  only one. \<open>cobs_frames\<close> and \<open>cobs_decode\<close> take any byte sequence apart, and \<open>dec_step\<close> decodes one byte at a
  time. The size functions of \<^verbatim>\<open>SesameCobs\<close> are here too,
  with the bounds they promise.
\<close>

abbreviation maxFrameSize :: nat where
  "maxFrameSize \<equiv> 254"

definition frame :: "byte list \<Rightarrow> byte list" where
  "frame m = takeWhile (\<lambda>x. x \<noteq> 0) (take maxFrameSize m)"

lemma frame_le: "length (frame m) \<le> length m" "length (frame m) \<le> maxFrameSize"
  unfolding frame_def
  using length_takeWhile_le [of "\<lambda>x. x \<noteq> 0" "take maxFrameSize m"] by simp_all

text \<open>
  One piece after the other up to the end of the message, or up to a piece of full size, where the
  encoder stops before it goes on with what is left.
\<close>

function cobs_fill :: "byte list \<Rightarrow> byte list \<times> byte list option" where
  "cobs_fill m =
     (let f = frame m; k = length f in
      if k = maxFrameSize then (of_nat (k + 1) # f, Some (drop k m))
      else if length m \<le> k then (of_nat (k + 1) # f @ [0], None)
      else case cobs_fill (drop (k + 1) m) of (bs, rest) \<Rightarrow> (of_nat (k + 1) # f @ bs, rest))"
  by pat_completeness auto
termination
  by (relation "measure length") auto

function cobs_encode :: "byte list \<Rightarrow> byte list" where
  "cobs_encode m =
     (let f = frame m; k = length f in
      if k = maxFrameSize then of_nat (k + 1) # f @ cobs_encode (drop k m)
      else if length m \<le> k then of_nat (k + 1) # f @ [0]
      else of_nat (k + 1) # f @ cobs_encode (drop (k + 1) m))"
  by pat_completeness auto
termination
proof (relation "measure length", goal_cases)
  case (2 m f k)
  then show ?case using frame_le(1) [of m] by simp
qed auto

declare cobs_fill.simps [simp del] cobs_encode.simps [simp del]

subsection \<open>Frames\<close>

lemma frame_prefix: "frame m = take (length (frame m)) m"
proof -
  have "frame m = take (length (frame m)) (take maxFrameSize m)"
    unfolding frame_def by (rule takeWhile_eq_take)
  then show ?thesis using frame_le(2) [of m] by (simp add: min_def)
qed

lemma frame_nonzero: "x \<in> set (frame m) \<Longrightarrow> x \<noteq> 0"
  by (auto simp: frame_def dest: set_takeWhileD)

lemma frame_stop:
  assumes "length (frame m) < maxFrameSize" and "length (frame m) < length m"
  shows "m ! length (frame m) = 0"
proof -
  have "length (frame m) < length (take maxFrameSize m)" using assms by simp
  from nth_length_takeWhile [of "\<lambda>x. x \<noteq> 0", OF this [unfolded frame_def]] assms show ?thesis
    by (simp add: frame_def [symmetric])
qed

lemma frame_split:
  assumes "length (frame m) < maxFrameSize" and "length (frame m) < length m"
  shows "m = frame m @ 0 # drop (Suc (length (frame m))) m"
  using assms frame_stop [OF assms] frame_prefix [of m]
  by (metis append_take_drop_id Cons_nth_drop_Suc)

lemma frame_drop: "m = frame m @ drop (length (frame m)) m"
  using frame_prefix [of m] by (metis append_take_drop_id)

text \<open>The three cases in which a message is: a full frame, a last frame, a frame before a zero.\<close>

lemma cobs_cases [case_names full final zero]:
  obtains "length (frame m) = maxFrameSize" "m = frame m @ drop maxFrameSize m"
  | "length (frame m) < maxFrameSize" "m = frame m"
  | "length (frame m) < maxFrameSize" "length (frame m) < length m"
    "m = frame m @ 0 # drop (Suc (length (frame m))) m"
proof -
  consider "length (frame m) = maxFrameSize" | "length (frame m) < maxFrameSize" "length m \<le> length (frame m)"
    | "length (frame m) < maxFrameSize" "length (frame m) < length m"
    using frame_le(2) [of m] by linarith
  then show ?thesis
  proof cases
    case 1
    then show ?thesis using that(1) frame_drop [of m] by metis
  next
    case 2
    then show ?thesis using that(2) frame_prefix [of m] by simp
  next
    case 3
    then show ?thesis using that(3) frame_split [of m] by blast
  qed
qed

definition overhead :: "byte list \<Rightarrow> byte" where
  "overhead f = of_nat (length f + 1)"

lemma overhead_eq:
  assumes "length f < 255"
  shows "overhead f \<noteq> 0" "overhead f = 255 \<longleftrightarrow> length f = maxFrameSize" "overhead f = 1 \<longleftrightarrow> f = []"
  using assms of_nat_byte_inject [of "length f + 1" 0] of_nat_byte_inject [of "length f + 1" 255]
    of_nat_byte_inject [of "length f + 1" 1]
  by (simp_all add: overhead_def)

lemma overhead_Cons: "overhead (x # f) - 1 = overhead f"
  by (simp add: overhead_def)

lemma cobs_encode_full:
  "length (frame m) = maxFrameSize \<Longrightarrow> cobs_encode m = 255 # frame m @ cobs_encode (drop maxFrameSize m)"
  by (subst cobs_encode.simps) (simp add: Let_def overhead_def)

lemma cobs_encode_end:
  "length (frame m) < maxFrameSize \<Longrightarrow> m = frame m \<Longrightarrow>
    cobs_encode m = overhead m # m @ [0]"
  by (subst cobs_encode.simps) (simp add: Let_def overhead_def)

lemma cobs_encode_zero:
  "length (frame m) < maxFrameSize \<Longrightarrow> length (frame m) < length m \<Longrightarrow>
    cobs_encode m = overhead (frame m) # frame m @ cobs_encode (drop (Suc (length (frame m))) m)"
  by (subst cobs_encode.simps) (simp add: Let_def overhead_def)

lemma cobs_fill_full:
  "length (frame m) = maxFrameSize \<Longrightarrow> cobs_fill m = (255 # frame m, Some (drop maxFrameSize m))"
  by (subst cobs_fill.simps) (simp add: Let_def overhead_def)

lemma cobs_fill_end:
  "length (frame m) < maxFrameSize \<Longrightarrow> m = frame m \<Longrightarrow> cobs_fill m = (overhead m # m @ [0], None)"
  by (subst cobs_fill.simps) (simp add: Let_def overhead_def)

lemma cobs_fill_zero:
  "length (frame m) < maxFrameSize \<Longrightarrow> length (frame m) < length m \<Longrightarrow>
    cobs_fill m = (overhead (frame m) # frame m @ fst (cobs_fill (drop (Suc (length (frame m))) m)),
      snd (cobs_fill (drop (Suc (length (frame m))) m)))"
  by (subst cobs_fill.simps) (simp add: Let_def overhead_def split: prod.split)

lemma cobs_encode_fill:
  "cobs_encode m = fst (cobs_fill m) @ (case snd (cobs_fill m) of None \<Rightarrow> [] | Some r \<Rightarrow> cobs_encode r)"
proof (induction m rule: length_induct)
  case (1 m)
  show ?case
  proof (cases m rule: cobs_cases)
    case full
    then show ?thesis by (simp add: cobs_encode_full cobs_fill_full)
  next
    case final
    then show ?thesis by (simp add: cobs_encode_end cobs_fill_end)
  next
    case zero
    with 1 show ?thesis by (simp add: cobs_encode_zero cobs_fill_zero)
  qed
qed

text \<open>A computation rule by the shape of the message, for all facts about the code below.\<close>

lemma cobs_induct [case_names full final zero]:
  assumes full: "\<And>f m. length f = maxFrameSize \<Longrightarrow> 0 \<notin> set f \<Longrightarrow> P m \<Longrightarrow>
      cobs_encode (f @ m) = 255 # f @ cobs_encode m \<Longrightarrow> P (f @ m)"
    and final: "\<And>f. length f < maxFrameSize \<Longrightarrow> 0 \<notin> set f \<Longrightarrow>
      cobs_encode f = overhead f # f @ [0] \<Longrightarrow> P f"
    and zero: "\<And>f m. length f < maxFrameSize \<Longrightarrow> 0 \<notin> set f \<Longrightarrow> P m \<Longrightarrow>
      cobs_encode (f @ 0 # m) = overhead f # f @ cobs_encode m \<Longrightarrow> P (f @ 0 # m)"
  shows "P m"
proof (induction m rule: length_induct)
  case (1 m)
  have nz: "0 \<notin> set (frame m)" using frame_nonzero by blast
  show ?case
  proof (cases m rule: cobs_cases)
    case f: full
    then have len: "length (drop maxFrameSize m) < length m" using frame_le(1) [of m] by simp
    have "P (frame m @ drop maxFrameSize m)"
      using f nz 1 len by (intro full) (auto simp flip: f(2) simp: cobs_encode_full)
    with f(2) show ?thesis by simp
  next
    case e: final
    then have "P (frame m)"
      using nz by (intro final) (auto simp flip: e(2) simp: cobs_encode_end)
    with e(2) show ?thesis by simp
  next
    case z: zero
    then have "P (frame m @ 0 # drop (Suc (length (frame m))) m)"
      using nz 1 by (intro zero) (auto simp flip: z(3) simp: cobs_encode_zero)
    with z(3) show ?thesis by simp
  qed
qed

subsection \<open>Framing\<close>

text \<open>An encoded message ends in a zero and has no other.\<close>

lemma cobs_encode_delimited:
  "\<exists>body. cobs_encode m = body @ [0] \<and> 0 \<notin> set body \<and> body \<noteq> []"
proof (induction m rule: cobs_induct)
  case (full f m)
  then obtain body where "cobs_encode m = body @ [0]" "0 \<notin> set body" by blast
  with full show ?case by (intro exI [of _ "255 # f @ body"]) auto
next
  case (final f)
  then show ?case
    using overhead_eq(1) [of f] by (intro exI [of _ "overhead f # f"]) auto
next
  case (zero f m)
  then obtain body where "cobs_encode m = body @ [0]" "0 \<notin> set body" by blast
  with zero show ?case
    using overhead_eq(1) [of f] by (intro exI [of _ "overhead f # f @ body"]) auto
qed

subsection \<open>What the bytes of a line mean\<close>

text \<open>
  The frames of a byte sequence are what stands between its zeros; \<open>cobs_frames\<close> returns those that a
  zero has ended and the bytes after the last zero. \<open>cobs_decode\<close> takes a frame apart as the code is
  defined: a byte \<open>n\<close> announces \<open>n - 1\<close> bytes as they are, and what follows them stands after a zero,
  unless \<open>n\<close> is 255. A frame may end before the bytes that were announced. \<open>cobs_messages\<close> lists the
  messages of some frames with the number of bytes each took: a frame without content is no message,
  its bytes count for the next one. None of this knows the state of a decoder.
\<close>

primrec cobs_frames :: "byte list \<Rightarrow> byte list list \<times> byte list" where
  "cobs_frames [] = ([], [])"
| "cobs_frames (x # xs) =
     (case cobs_frames xs of (frames, rest) \<Rightarrow>
        if x = 0 then ([] # frames, rest)
        else case frames of [] \<Rightarrow> ([], x # rest) | f # fs \<Rightarrow> ((x # f) # fs, rest))"

fun cobs_decode :: "byte list \<Rightarrow> byte list" where
  "cobs_decode [] = []"
| "cobs_decode (n # xs) =
     (let announced = take (unat n - 1) xs; more = drop (unat n - 1) xs
      in if more = [] then announced
         else announced @ (if n = 255 then [] else [0]) @ cobs_decode more)"

primrec cobs_messages :: "byte list list \<Rightarrow> nat \<Rightarrow> (byte list \<times> nat) list \<times> nat" where
  "cobs_messages [] n = ([], n)"
| "cobs_messages (f # fs) n =
     (if cobs_decode f = [] then cobs_messages fs (n + length f + 1)
      else case cobs_messages fs 0 of (ms, n') \<Rightarrow> ((cobs_decode f, n + length f + 1) # ms, n'))"

lemma cobs_frames_split:
  "concat (map (\<lambda>f. f @ [0]) (fst (cobs_frames xs))) @ snd (cobs_frames xs) = xs
    \<and> (\<forall>f\<in>set (fst (cobs_frames xs)). 0 \<notin> set f) \<and> 0 \<notin> set (snd (cobs_frames xs))"
  by (induction xs) (auto split: prod.splits list.splits)

lemma cobs_frames_delimited:
  "0 \<notin> set f \<Longrightarrow> cobs_frames (f @ 0 # xs) = (f # fst (cobs_frames xs), snd (cobs_frames xs))"
  by (induction f) (auto split: prod.splits)

lemma cobs_frames_rest: "0 \<notin> set f \<Longrightarrow> cobs_frames f = ([], f)"
  by (induction f) auto

lemma cobs_decode_frame:
  assumes "length f < 255"
  shows "cobs_decode (overhead f # f @ xs) =
    f @ (if xs = [] then [] else (if length f = maxFrameSize then [] else [0]) @ cobs_decode xs)"
proof -
  have "unat (overhead f) = length f + 1"
    using assms unat_of_nat [where 'a = 8, of "length f + 1"] by (simp add: overhead_def)
  then show ?thesis using overhead_eq(2) [OF assms] by (simp add: Let_def)
qed

text \<open>The frame of an encoded message is the message again.\<close>

lemma cobs_decode_encode: "cobs_decode (butlast (cobs_encode m)) = m"
proof (induction m rule: cobs_induct)
  case (full f m)
  obtain body where b: "cobs_encode m = body @ [0]" "body \<noteq> []" using cobs_encode_delimited [of m] by blast
  have "overhead f = 255" using full overhead_eq(2) [of f] by simp
  with full b cobs_decode_frame [of f body] show ?case by (simp add: butlast_append)
next
  case (final f)
  with cobs_decode_frame [of f "[]"] show ?case by (simp add: butlast_append)
next
  case (zero f m)
  obtain body where b: "cobs_encode m = body @ [0]" "body \<noteq> []" using cobs_encode_delimited [of m] by blast
  with zero cobs_decode_frame [of f body] show ?case by (simp add: butlast_append)
qed

subsection \<open>Decoding\<close>

text \<open>
  The decoder between two bytes: the value of the overhead counter, whether the next overhead byte
  stands for a zero of the message, the payload so far and the number of bytes read for it. A step
  returns the messages that are complete, with the number of bytes each took.
\<close>

record decoder =
  dec_next :: byte
  dec_pseudo :: bool
  dec_payload :: "byte list"
  dec_size :: nat

definition dec_boundary :: "decoder \<Rightarrow> decoder \<times> (byte list \<times> nat) list" where
  "dec_boundary d =
     (if dec_payload d = []
      then (\<lparr>dec_next = 1, dec_pseudo = True, dec_payload = [], dec_size = dec_size d + 1\<rparr>, [])
      else (\<lparr>dec_next = 1, dec_pseudo = True, dec_payload = [], dec_size = 0\<rparr>,
            [(dec_payload d, dec_size d + 1)]))"

definition dec_step :: "byte \<Rightarrow> decoder \<Rightarrow> decoder \<times> (byte list \<times> nat) list" where
  "dec_step x d =
     (if x = 0 then dec_boundary d
      else if dec_next d = 1
      then (\<lparr>dec_next = x, dec_pseudo = (x = 255),
             dec_payload = dec_payload d @ (if dec_pseudo d then [] else [0]), dec_size = dec_size d + 1\<rparr>, [])
      else (\<lparr>dec_next = dec_next d - 1, dec_pseudo = dec_pseudo d,
             dec_payload = dec_payload d @ [x], dec_size = dec_size d + 1\<rparr>, []))"

primrec dec_run :: "byte list \<Rightarrow> decoder \<Rightarrow> decoder \<times> (byte list \<times> nat) list" where
  "dec_run [] d = (d, [])"
| "dec_run (x # xs) d =
     (case dec_step x d of (d', out) \<Rightarrow> case dec_run xs d' of (d'', out') \<Rightarrow> (d'', out @ out'))"

definition dec_start :: decoder where
  "dec_start = \<lparr>dec_next = 1, dec_pseudo = True, dec_payload = [], dec_size = 0\<rparr>"

lemma dec_run_append:
  "dec_run (xs @ ys) d =
     (fst (dec_run ys (fst (dec_run xs d))), snd (dec_run xs d) @ snd (dec_run ys (fst (dec_run xs d))))"
  by (induction xs arbitrary: d) (simp_all split: prod.split)

lemma dec_run_frame:
  assumes "0 \<notin> set f" and "length f < 255" and "dec_next d = overhead f"
  shows "dec_run f d = (d\<lparr>dec_next := 1, dec_payload := dec_payload d @ f, dec_size := dec_size d + length f\<rparr>, [])"
  using assms
proof (induction f arbitrary: d)
  case Nil
  then show ?case by (simp add: overhead_def)
next
  case (Cons x f)
  let ?d = "\<lparr>dec_next = dec_next d - 1, dec_pseudo = dec_pseudo d, dec_payload = dec_payload d @ [x], dec_size = dec_size d + 1\<rparr>"
  have "dec_step x d = (?d, [])"
    using Cons.prems overhead_eq(3) [of "x # f"] by (simp add: dec_step_def)
  moreover have "dec_run f ?d = (?d\<lparr>dec_next := 1, dec_payload := dec_payload ?d @ f, dec_size := dec_size ?d + length f\<rparr>, [])"
    using Cons.prems by (intro Cons.IH) (auto simp: overhead_Cons)
  ultimately show ?case by (cases d) simp
qed

text \<open>An overhead byte followed by the frame it announces.\<close>

lemma dec_run_overhead_frame:
  assumes "0 \<notin> set f" and "length f < 255" and "dec_next d = 1"
  shows "dec_run (overhead f # f) d =
    (\<lparr>dec_next = 1, dec_pseudo = (length f = maxFrameSize),
      dec_payload = dec_payload d @ (if dec_pseudo d then [] else [0]) @ f,
      dec_size = dec_size d + 1 + length f\<rparr>, [])"
  using assms by (simp add: dec_step_def overhead_eq dec_run_frame)

text \<open>
  Decoding an encoded message from any point where an overhead byte is due gives the message, after
  the payload that was there and the zero the overhead byte may stand for.
\<close>

lemma dec_run_encode:
  assumes "dec_next d = 1"
  shows "dec_run (cobs_encode m) d = (let pl = dec_payload d @ (if dec_pseudo d then [] else [0]) @ m in
     if pl = [] then (\<lparr>dec_next = 1, dec_pseudo = True, dec_payload = [], dec_size = dec_size d + length (cobs_encode m)\<rparr>, [])
     else (dec_start, [(pl, dec_size d + length (cobs_encode m))]))"
  unfolding Let_def using assms
proof (induction m arbitrary: d rule: cobs_induct)
  case (full f m)
  have "overhead f = 255" using full overhead_eq(2) [of f] by simp
  then have "dec_run (255 # f) d = (\<lparr>dec_next = 1, dec_pseudo = True,
      dec_payload = dec_payload d @ (if dec_pseudo d then [] else [0]) @ f, dec_size = dec_size d + 1 + length f\<rparr>, [])"
    using dec_run_overhead_frame [of f d] full by simp
  with full show ?case
    using dec_run_append [of "255 # f" "cobs_encode m" d] by auto
next
  case (final f)
  have "cobs_encode f = (overhead f # f) @ [0]" using final by simp
  then have "dec_run (cobs_encode f) d = dec_boundary \<lparr>dec_next = 1, dec_pseudo = False,
      dec_payload = dec_payload d @ (if dec_pseudo d then [] else [0]) @ f, dec_size = dec_size d + 1 + length f\<rparr>"
    using dec_run_overhead_frame [of f d] final
    by (simp only: dec_run_append) (simp add: dec_step_def split: prod.split)
  with final show ?case by (auto simp: dec_boundary_def dec_start_def)
next
  case (zero f m)
  have "dec_run (overhead f # f) d = (\<lparr>dec_next = 1, dec_pseudo = False,
      dec_payload = dec_payload d @ (if dec_pseudo d then [] else [0]) @ f, dec_size = dec_size d + 1 + length f\<rparr>, [])"
    using dec_run_overhead_frame [of f d] zero by simp
  with zero show ?case
    using dec_run_append [of "overhead f # f" "cobs_encode m" d] by auto
qed

lemma dec_run_messages:
  assumes "[] \<notin> set ms"
  shows "dec_run (concat (map cobs_encode ms)) dec_start = (dec_start, map (\<lambda>m. (m, length (cobs_encode m))) ms)"
  using assms
proof (induction ms)
  case (Cons m ms)
  have "dec_run (cobs_encode m) dec_start = (dec_start, [(m, length (cobs_encode m))])"
    using Cons.prems dec_run_encode [of dec_start m] by (auto simp: dec_start_def)
  with Cons show ?case by (simp add: dec_run_append)
qed simp

subsection \<open>Sizes\<close>

text \<open>
  \<^verbatim>\<open>MessageSize\<close> reads the message in contiguous ranges; its counter of consecutive bytes is a byte.
  The subtractions of \<^verbatim>\<open>MaxSendMessageSize\<close> and \<^verbatim>\<open>WorstCaseDecodedMessageSize\<close> are unsigned: they mean
  something for arguments of at least 4 and 2.
\<close>

definition size_byte :: "byte \<Rightarrow> nat \<times> byte \<Rightarrow> nat \<times> byte" where
  "size_byte x rc = (case rc of (result, consecutiveNonZero) \<Rightarrow>
     if x = 0 then (result, 0)
     else if consecutiveNonZero + 1 = 254 then (result + 1, 0)
     else (result, consecutiveNonZero + 1))"

definition size_range :: "byte list \<Rightarrow> nat \<times> byte \<Rightarrow> nat \<times> byte" where
  "size_range rng rc = fold size_byte rng (fst rc + length rng, snd rc)"

definition cobs_MessageSize :: "byte list list \<Rightarrow> nat" where
  "cobs_MessageSize rngs = fst (fold size_range rngs (2, 0))"

definition cobs_MaxSendMessageSize :: "nat \<Rightarrow> nat" where
  "cobs_MaxSendMessageSize sendStorageMaxSize =
     sendStorageMaxSize - (2 + 2) - (sendStorageMaxSize - (2 + 2)) div (maxFrameSize + 1)"

definition cobs_WorstCaseEncodedMessageSize :: "nat \<Rightarrow> nat" where
  "cobs_WorstCaseEncodedMessageSize n = n + n div maxFrameSize + 2"

definition cobs_WorstCaseDecodedMessageSize :: "nat \<Rightarrow> nat" where
  "cobs_WorstCaseDecodedMessageSize n = (n - 2) - (n - 2) div maxFrameSize"

lemma size_byte_shift: "size_byte x (r + k, c) = (fst (size_byte x (r, c)) + k, snd (size_byte x (r, c)))"
  by (simp add: size_byte_def)

lemma fold_size_byte_shift:
  "fold size_byte xs (r + k, c) = (fst (fold size_byte xs (r, c)) + k, snd (fold size_byte xs (r, c)))"
proof (induction xs arbitrary: r c)
  case (Cons x xs)
  show ?case
    using Cons [of "fst (size_byte x (r, c))" "snd (size_byte x (r, c))"]
    by (simp add: size_byte_shift)
qed simp

lemma fold_size_range:
  "fold size_range rngs (r, c) =
     (fst (fold size_byte (concat rngs) (r, c)) + length (concat rngs), snd (fold size_byte (concat rngs) (r, c)))"
proof (induction rngs arbitrary: r c)
  case (Cons rng rngs)
  let ?s = "fold size_byte rng (r, c)"
  have "fold size_range (rng # rngs) (r, c) = fold size_range rngs (fst ?s + length rng, snd ?s)"
    by (simp add: size_range_def fold_size_byte_shift)
  also have "\<dots> = (fst (fold size_byte (concat rngs) (fst ?s + length rng, snd ?s)) + length (concat rngs),
      snd (fold size_byte (concat rngs) (fst ?s + length rng, snd ?s)))"
    by (rule Cons.IH)
  finally show ?case
    using fold_size_byte_shift [of "concat rngs" "fst ?s" "length rng" "snd ?s"] by simp
qed simp

lemma fold_size_frame:
  assumes "0 \<notin> set f" and "j + length f \<le> 254" and "j < 254"
  shows "fold size_byte f (r, of_nat j) =
    (if j + length f = 254 then (r + 1, 0) else (r, of_nat (j + length f)))"
  using assms
proof (induction f arbitrary: j)
  case (Cons x f)
  have eq: "(of_nat j :: byte) + 1 = 254 \<longleftrightarrow> j = 253"
    using of_nat_byte_inject [of "j + 1" 254] Cons.prems(3) by simp
  show ?case
  proof (cases "j = 253")
    case True
    with Cons.prems have "f = []" by simp
    with True Cons.prems eq show ?thesis by (simp add: size_byte_def)
  next
    case False
    then have "size_byte x (r, of_nat j) = (r, of_nat (Suc j))"
      using Cons.prems eq by (simp add: size_byte_def add.commute)
    with Cons.IH [of "Suc j"] Cons.prems False show ?thesis by simp
  qed
qed simp

lemma fold_size_encode:
  "fst (fold size_byte m (r, 0)) + length m + 2 = r + length (cobs_encode m)"
proof (induction m arbitrary: r rule: cobs_induct)
  case (full f m)
  with fold_size_frame [of f 0 r] full.IH [of "Suc r"] show ?case by simp
next
  case (final f)
  with fold_size_frame [of f 0 r] show ?case by simp
next
  case (zero f m)
  have "fold size_byte (f @ [0]) (r, 0) = (r, 0)"
    using fold_size_frame [of f 0 r] zero by (simp add: size_byte_def)
  then have "fold size_byte (f @ 0 # m) (r, 0) = fold size_byte m (r, 0)" by simp
  with zero show ?case by simp
qed

lemma encode_length_bounds:
  "length m + 2 \<le> length (cobs_encode m)" "length (cobs_encode m) \<le> length m + length m div maxFrameSize + 2"
proof -
  show "length m + 2 \<le> length (cobs_encode m)"
    by (induction m rule: cobs_induct) auto
  show "length (cobs_encode m) \<le> length m + length m div maxFrameSize + 2"
  proof (induction m rule: cobs_induct)
    case (zero f m)
    have "length m div maxFrameSize \<le> length (f @ 0 # m) div maxFrameSize" by (intro div_le_mono) simp
    with zero show ?case by simp
  qed auto
qed

end
