(* ===== verification/Sesame_Cobs.thy ===== *)
theory Sesame_Cobs
  imports Cobs_Code Memory_Range Bounded_Deque
begin

section \<open>SesameCobs: services/util/SesameCobs.cpp\<close>

text \<open>
  \<^verbatim>\<open>SesameCobs\<close> sends and receives messages over a serial line, encoded so that zero bytes only occur
  between messages. The state has the members of the class; the send buffer is a bounded vector and
  the receive buffer a bounded deque, of bytes. What the object tells its surroundings is appended
  to \<open>cobs_events\<close>: calls of the observer, data given to the serial line, the end of \<^verbatim>\<open>Stop\<close>.
  What the surroundings tell it are calls of the operations: \<open>cobs_WriterInsert\<close> and
  \<open>cobs_WriterRelease\<close> for the writer the observer was given, \<open>cobs_SendDataDone\<close> for the serial line
  that has sent its data. A call of the observer that ends a function may so be followed by calls
  back; the one that does not, in \<^verbatim>\<open>FinishMessage\<close>, takes as argument whether the observer resets the
  object while it handles the message, \<open>resets\<close>.
\<close>

datatype cobs_event =
    SendMessageStreamAvailable nat
  | MessageSent nat
  | ReceivedMessage "byte list" nat
  | SerialSendData "byte list"
  | StopDone
  | StopScheduled
  | StreamFailed

datatype cobs_on_allocatable = OnAllocatableSendStreamFilled | OnAllocatableClear | OnAllocatableNothing

datatype cobs_continuation = TailThenSendOrDone | ThenSendOrDone

record sesame_cobs =
  cobs_sendReqestedSize :: "nat option"
  cobs_sendingFirstPacket :: bool
  cobs_sendingUserData :: bool
  cobs_resetting :: bool
  cobs_sendSizeEncoded :: nat
  cobs_nextOverhead :: byte
  cobs_overheadPositionIsPseudo :: bool
  cobs_receivedMessage :: "byte bounded_deque"
  cobs_receiveSizeEncoded :: nat
  cobs_currentMessageSize :: nat
  cobs_sendStorage :: "byte bounded_vector"
  cobs_sendStreamAllocated :: bool
  cobs_sendStreamLength :: nat
  cobs_onAllocatable :: cobs_on_allocatable
  cobs_dataToSend :: mrange
  cobs_chunkToSend :: mrange
  cobs_frameSize :: byte
  cobs_onStopDone :: bool
  cobs_onSendDataDone :: "cobs_continuation option"
  cobs_events :: "cobs_event list"

definition cobs_make :: "byte slots \<Rightarrow> byte slots \<Rightarrow> sesame_cobs" where
  "cobs_make sendStorage receivedMessage =
     \<lparr>cobs_sendReqestedSize = None, cobs_sendingFirstPacket = True, cobs_sendingUserData = False,
      cobs_resetting = False, cobs_sendSizeEncoded = 0, cobs_nextOverhead = 1,
      cobs_overheadPositionIsPseudo = True, cobs_receivedMessage = bd_make receivedMessage,
      cobs_receiveSizeEncoded = 0, cobs_currentMessageSize = 0, cobs_sendStorage = bv_make sendStorage,
      cobs_sendStreamAllocated = False, cobs_sendStreamLength = 0,
      cobs_onAllocatable = OnAllocatableSendStreamFilled, cobs_dataToSend = mr_null,
      cobs_chunkToSend = mr_null, cobs_frameSize = 0, cobs_onStopDone = False,
      cobs_onSendDataDone = None, cobs_events = []\<rparr>"

definition cobs_emit :: "cobs_event \<Rightarrow> sesame_cobs \<Rightarrow> sesame_cobs" where
  "cobs_emit e c = c\<lparr>cobs_events := cobs_events c @ [e]\<rparr>"

subsection \<open>Requesting to send\<close>

definition cobs_CheckReadyToSendUserData :: "sesame_cobs \<Rightarrow> sesame_cobs result" where
  "cobs_CheckReadyToSendUserData c =
     (case cobs_sendReqestedSize c of
        Some n \<Rightarrow>
          if \<not> cobs_sendingUserData c
          then bindR (bv_push_back 0 (cobs_sendStorage c))
            (\<lambda>v. let c1 = c\<lparr>cobs_sendStorage := v, cobs_sendReqestedSize := None\<rparr>
                 in checked (\<not> cobs_sendStreamAllocated c1)
                      (Inr (cobs_emit (SendMessageStreamAvailable n)
                        (c1\<lparr>cobs_sendStreamAllocated := True, cobs_sendStreamLength := n\<rparr>))))
          else Inr c
      | None \<Rightarrow> Inr c)"

definition cobs_RequestSendMessage :: "nat \<Rightarrow> sesame_cobs \<Rightarrow> sesame_cobs result" where
  "cobs_RequestSendMessage n c = checked (cobs_sendReqestedSize c = None)
     (cobs_CheckReadyToSendUserData (c\<lparr>cobs_sendReqestedSize := Some n\<rparr>))"

definition cobs_FinishReset :: "sesame_cobs \<Rightarrow> sesame_cobs result" where
  "cobs_FinishReset c =
     cobs_CheckReadyToSendUserData
       (c\<lparr>cobs_resetting := False, cobs_sendingUserData := False, cobs_sendSizeEncoded := 0\<rparr>)"

definition cobs_Reset :: "sesame_cobs \<Rightarrow> sesame_cobs result" where
  "cobs_Reset c =
     bindR (if cobs_sendStreamAllocated c then Inr (c\<lparr>cobs_onAllocatable := OnAllocatableClear\<rparr>)
            else bindR (bv_clear (cobs_sendStorage c)) (\<lambda>v. Inr (c\<lparr>cobs_sendStorage := v\<rparr>)))
       (\<lambda>c1. bindR (bd_clear True (cobs_receivedMessage c1))
         (\<lambda>q. let c2 = c1\<lparr>cobs_sendingFirstPacket := True, cobs_nextOverhead := 1,
                    cobs_overheadPositionIsPseudo := True, cobs_receivedMessage := q,
                    cobs_receiveSizeEncoded := 0, cobs_currentMessageSize := 0,
                    cobs_sendReqestedSize := None\<rparr>
              in if cobs_sendingUserData c2 then Inr (c2\<lparr>cobs_resetting := True\<rparr>)
                 else cobs_FinishReset c2))"

definition cobs_Stop :: "sesame_cobs \<Rightarrow> sesame_cobs" where
  "cobs_Stop c =
     (let c1 = c\<lparr>cobs_onAllocatable := OnAllocatableNothing\<rparr>
      in if \<not> cobs_sendingUserData c1 \<and> \<not> cobs_resetting c1 then cobs_emit StopScheduled c1
         else c1\<lparr>cobs_onStopDone := True\<rparr>)"

subsection \<open>Sending\<close>

text \<open>The bytes of a range of the send buffer, and a write to the last byte of a range.\<close>

definition cobs_bytes :: "sesame_cobs \<Rightarrow> mrange \<Rightarrow> byte list" where
  "cobs_bytes c r = map the (mr_slice (bv_storage (cobs_sendStorage c)) r)"

definition cobs_set_back :: "byte \<Rightarrow> sesame_cobs \<Rightarrow> sesame_cobs result" where
  "cobs_set_back x c =
     (let v = cobs_sendStorage c; e = endElement (cobs_chunkToSend c)
      in if e = 0 \<or> length (bv_storage v) < e then Inl UndefinedBehaviour
         else Inr (c\<lparr>cobs_sendStorage := v\<lparr>bv_storage := (bv_storage v)[e - 1 := Some x]\<rparr>\<rparr>))"

definition cobs_FindDelimiter :: "sesame_cobs \<Rightarrow> byte" where
  "cobs_FindDelimiter c =
     (let data = Head (cobs_dataToSend c) 254
      in of_nat (std_find (bv_storage (cobs_sendStorage c)) (beginElement data) (endElement data) (Some 0)
           - beginElement data))"

definition cobs_CreateChunkWithTermination :: "sesame_cobs \<Rightarrow> mrange" where
  "cobs_CreateChunkWithTermination c =
     (if mr_empty (cobs_dataToSend c)
      then mr_make (beginElement (cobs_chunkToSend c)) (endElement (cobs_chunkToSend c) + 1)
      else mr_make (beginElement (cobs_chunkToSend c))
             (beginElement (cobs_dataToSend c) + unat (cobs_frameSize c)
                + (if cobs_frameSize c < 254 then 1 else 0)))"

definition cobs_FillChunk :: "sesame_cobs \<Rightarrow> (bool \<times> sesame_cobs) result" where
  "cobs_FillChunk c =
     (let c1 = c\<lparr>cobs_frameSize := cobs_FindDelimiter c\<rparr>
      in bindR (cobs_set_back (cobs_frameSize c1 + 1) c1)
        (\<lambda>c2. let c3 = c2\<lparr>cobs_chunkToSend := cobs_CreateChunkWithTermination c2\<rparr>
              in bindR (if cobs_frameSize c3 < 254 then cobs_set_back 0 c3 else Inr c3)
                (\<lambda>c4. let c5 = c4\<lparr>cobs_dataToSend := DiscardHead (cobs_dataToSend c4) (unat (cobs_frameSize c4))\<rparr>
                      in if mr_empty (cobs_dataToSend c5) \<or> cobs_frameSize c5 = 254 then Inr (False, c5)
                         else if bv_storage (cobs_sendStorage c5) ! beginElement (cobs_dataToSend c5) = Some 0
                         then bindR (mr_pop_front (cobs_dataToSend c5) 1)
                                (\<lambda>r. Inr (True, c5\<lparr>cobs_dataToSend := r\<rparr>))
                         else Inr (True, c5))))"

text \<open>
  The zero that \<^verbatim>\<open>FillChunk\<close> writes after a frame stands where the next data starts, so that a
  turn of the loop of \<^verbatim>\<open>SendChunk\<close> always takes away data.
\<close>

lemma cobs_FillChunk_decreases:
  assumes "cobs_FillChunk c = Inr (True, c')"
  shows "mr_size (cobs_dataToSend c') < mr_size (cobs_dataToSend c)"
proof -
  define fs where "fs = cobs_FindDelimiter c"
  have big: "unat fs < mr_size (cobs_dataToSend c)"
    using assms
    by (auto simp: cobs_FillChunk_def cobs_set_back_def result_simps Let_def DiscardHead_def mr_null_def
        mr_empty_def fs_def split: if_splits)
  then have ne: "beginElement (cobs_dataToSend c) \<noteq> endElement (cobs_dataToSend c)" by (auto simp: mr_size_def)
  show ?thesis
  proof (cases "fs < 254")
    case True
    then show ?thesis
      using assms big ne
      by (auto simp: cobs_FillChunk_def cobs_set_back_def result_simps Let_def DiscardHead_def mr_empty_def
          cobs_CreateChunkWithTermination_def mr_make_def mr_size_def mr_pop_front_def fs_def [symmetric]
          split: if_splits)
  next
    case False
    then have "0 < unat fs" by (auto simp: word_less_nat_alt)
    then show ?thesis
      using assms big ne False
      by (auto simp: cobs_FillChunk_def cobs_set_back_def result_simps Let_def DiscardHead_def mr_empty_def
          cobs_CreateChunkWithTermination_def mr_make_def mr_size_def mr_pop_front_def fs_def [symmetric]
          split: if_splits)
  qed
qed

function cobs_FillLoop :: "sesame_cobs \<Rightarrow> sesame_cobs result" where
  "cobs_FillLoop c =
     bindR (cobs_FillChunk c) (\<lambda>(again, c'). if again then cobs_FillLoop c' else Inr c')"
  by pat_completeness auto
termination
  by (relation "measure (\<lambda>c. mr_size (cobs_dataToSend c))") (auto dest: cobs_FillChunk_decreases)

declare cobs_FillLoop.simps [simp del]

definition cobs_SendSerialData :: "byte list \<Rightarrow> cobs_continuation \<Rightarrow> sesame_cobs \<Rightarrow> sesame_cobs" where
  "cobs_SendSerialData data onDone c =
     cobs_emit (SerialSendData data) (c\<lparr>cobs_onSendDataDone := Some onDone\<rparr>)"

definition cobs_SendChunk :: "sesame_cobs \<Rightarrow> sesame_cobs result" where
  "cobs_SendChunk c =
     bindR (cobs_FillLoop c)
       (\<lambda>c1. let c2 = c1\<lparr>cobs_sendSizeEncoded := cobs_sendSizeEncoded c1 + mr_size (cobs_chunkToSend c1)\<rparr>
             in Inr (cobs_SendSerialData (cobs_bytes c2 (cobs_chunkToSend c2)) TailThenSendOrDone c2))"

definition cobs_FinishChunk :: "sesame_cobs \<Rightarrow> sesame_cobs result" where
  "cobs_FinishChunk c =
     bindR (bv_clear (cobs_sendStorage c))
       (\<lambda>v. let c1 = cobs_emit (MessageSent (cobs_sendSizeEncoded c))
                       (c\<lparr>cobs_sendStorage := v, cobs_dataToSend := mr_null\<rparr>)
            in cobs_CheckReadyToSendUserData (c1\<lparr>cobs_sendSizeEncoded := 0, cobs_sendingUserData := False\<rparr>))"

definition cobs_SendOrDone :: "sesame_cobs \<Rightarrow> sesame_cobs result" where
  "cobs_SendOrDone c =
     (if cobs_resetting c then cobs_FinishReset c
      else if mr_empty (cobs_dataToSend c) \<and> cobs_frameSize c < 254 then cobs_FinishChunk c
      else cobs_SendChunk c)"

definition cobs_SendFirstDelimiter :: "sesame_cobs \<Rightarrow> sesame_cobs" where
  "cobs_SendFirstDelimiter c =
     cobs_SendSerialData [0] ThenSendOrDone
       (c\<lparr>cobs_sendingFirstPacket := False, cobs_sendSizeEncoded := cobs_sendSizeEncoded c + 1\<rparr>)"

definition cobs_SendStreamFilled :: "sesame_cobs \<Rightarrow> sesame_cobs result" where
  "cobs_SendStreamFilled c =
     (let all = mr_make 0 (bv_size (cobs_sendStorage c));
          c1 = c\<lparr>cobs_sendingUserData := True, cobs_frameSize := 0,
                 cobs_dataToSend := DiscardHead all 1, cobs_chunkToSend := Head all 1\<rparr>
      in if cobs_sendingFirstPacket c1 then Inr (cobs_SendFirstDelimiter c1) else cobs_SendOrDone c1)"

text \<open>
  The completion of \<^verbatim>\<open>SendData\<close>, with the two lambdas that \<^verbatim>\<open>SendChunk\<close> and \<^verbatim>\<open>SendFirstDelimiter\<close> leave
  in \<^verbatim>\<open>onSendDataDone\<close>; both functions are reset as they are called.
\<close>

definition cobs_SendDataDone :: "sesame_cobs \<Rightarrow> sesame_cobs result" where
  "cobs_SendDataDone c =
     (if cobs_onStopDone c then Inr (cobs_emit StopDone (c\<lparr>cobs_onStopDone := False\<rparr>))
      else case cobs_onSendDataDone c of
          None \<Rightarrow> Inl UndefinedBehaviour
        | Some k \<Rightarrow>
            let c1 = c\<lparr>cobs_onSendDataDone := None\<rparr>
            in case k of
                TailThenSendOrDone \<Rightarrow> cobs_SendOrDone (c1\<lparr>cobs_chunkToSend := Tail (cobs_chunkToSend c1) 1\<rparr>)
              | ThenSendOrDone \<Rightarrow> cobs_SendOrDone c1)"

text \<open>
  The writer the observer holds: a \<^verbatim>\<open>LimitedStreamWriter\<close> over a \<^verbatim>\<open>BoundedVectorStreamWriter\<close>. When it is
  released, the shared optional calls what was registered with it.
\<close>

definition cobs_WriterInsert :: "byte list \<Rightarrow> sesame_cobs \<Rightarrow> sesame_cobs result" where
  "cobs_WriterInsert bytes c =
     (let len = cobs_sendStreamLength c;
          bytes1 = take len bytes;
          v = cobs_sendStorage c;
          spaceLeft = bv_max_size v - bv_size v;
          bytes2 = take spaceLeft bytes1
      in bindR (bv_insert_range True (bv_size v) bytes2 v)
           (\<lambda>v'. let c1 = c\<lparr>cobs_sendStreamLength := len - length bytes1, cobs_sendStorage := v'\<rparr>
                 in Inr (if bytes2 = bytes then c1 else cobs_emit StreamFailed c1)))"

definition cobs_WriterRelease :: "sesame_cobs \<Rightarrow> sesame_cobs result" where
  "cobs_WriterRelease c =
     (let c1 = c\<lparr>cobs_sendStreamAllocated := False\<rparr>
      in case cobs_onAllocatable c1 of
          OnAllocatableSendStreamFilled \<Rightarrow> cobs_SendStreamFilled c1
        | OnAllocatableClear \<Rightarrow>
            bindR (bv_clear (cobs_sendStorage c1))
              (\<lambda>v. Inr (c1\<lparr>cobs_sendStorage := v, cobs_onAllocatable := OnAllocatableSendStreamFilled\<rparr>))
        | OnAllocatableNothing \<Rightarrow> Inr c1)"

subsection \<open>Receiving\<close>

definition cobs_ReceivedPayload :: "byte list \<Rightarrow> sesame_cobs \<Rightarrow> sesame_cobs result" where
  "cobs_ReceivedPayload data c =
     bindR (bd_insert_range True (bd_size (cobs_receivedMessage c)) data (cobs_receivedMessage c))
       (\<lambda>q. Inr (c\<lparr>cobs_receivedMessage := q, cobs_currentMessageSize := cobs_currentMessageSize c + length data\<rparr>))"

text \<open>The reader given to the observer yields the first bytes of the deque, \<^verbatim>\<open>messageSize\<close> of them.\<close>

definition cobs_FinishMessage :: "(byte list \<Rightarrow> bool) \<Rightarrow> sesame_cobs \<Rightarrow> sesame_cobs result" where
  "cobs_FinishMessage resets c =
     (let messageSize = cobs_currentMessageSize c;
          c1 = c\<lparr>cobs_currentMessageSize := 0\<rparr>
      in if messageSize = 0 then Inr c1
         else let message = take messageSize (bd_list (cobs_receivedMessage c1));
                  c2 = cobs_emit (ReceivedMessage message (cobs_receiveSizeEncoded c1))
                         (c1\<lparr>cobs_receiveSizeEncoded := 0\<rparr>)
              in bindR (if resets message then cobs_Reset c2 else Inr c2)
                (\<lambda>c3. if bd_empty (cobs_receivedMessage c3) then Inr c3
                      else bindR (bd_erase_range True 0 messageSize (cobs_receivedMessage c3))
                             (\<lambda>q. Inr (c3\<lparr>cobs_receivedMessage := q\<rparr>))))"

text \<open>\<open>data\<close> is what is left of the received range; the functions that consume it return the rest.\<close>

definition cobs_MessageBoundary ::
    "(byte list \<Rightarrow> bool) \<Rightarrow> byte list \<Rightarrow> sesame_cobs \<Rightarrow> (byte list \<times> sesame_cobs) result" where
  "cobs_MessageBoundary resets data c =
     bindR (cobs_FinishMessage resets (c\<lparr>cobs_receiveSizeEncoded := cobs_receiveSizeEncoded c + 1\<rparr>))
       (\<lambda>c1. checked (data \<noteq> [])
         (Inr (tl data, c1\<lparr>cobs_nextOverhead := 1, cobs_overheadPositionIsPseudo := True\<rparr>)))"

definition cobs_ExtractOverhead ::
    "(byte list \<Rightarrow> bool) \<Rightarrow> byte list \<Rightarrow> sesame_cobs \<Rightarrow> (byte list \<times> sesame_cobs) result" where
  "cobs_ExtractOverhead resets data c =
     (let c1 = c\<lparr>cobs_nextOverhead := hd data\<rparr>
      in if cobs_nextOverhead c1 = 0 then cobs_MessageBoundary resets data c1
         else let c2 = c1\<lparr>cobs_receiveSizeEncoded := cobs_receiveSizeEncoded c1 + 1\<rparr>
              in bindR (if cobs_overheadPositionIsPseudo c2 then Inr c2 else cobs_ReceivedPayload [0] c2)
                (\<lambda>c3. Inr (tl data, c3\<lparr>cobs_overheadPositionIsPseudo := (cobs_nextOverhead c3 = 255)\<rparr>)))"

definition cobs_ForwardData ::
    "byte list \<Rightarrow> byte list \<Rightarrow> sesame_cobs \<Rightarrow> (byte list \<times> sesame_cobs) result" where
  "cobs_ForwardData contents data c =
     bindR (cobs_ReceivedPayload contents c)
       (\<lambda>c1. Inr (drop (length contents) data,
          c1\<lparr>cobs_receiveSizeEncoded := cobs_receiveSizeEncoded c1 + length contents,
             cobs_nextOverhead := cobs_nextOverhead c1 - of_nat (length contents)\<rparr>))"

text \<open>
  \<^verbatim>\<open>Head(data, nextOverhead - 1)\<close>: the difference is computed as an int and then read as an unsigned
  size, so that an overhead of 0 would not limit the data.
\<close>

definition cobs_ExtractData ::
    "(byte list \<Rightarrow> bool) \<Rightarrow> byte list \<Rightarrow> sesame_cobs \<Rightarrow> (byte list \<times> sesame_cobs) result" where
  "cobs_ExtractData resets data c =
     (let head = (if cobs_nextOverhead c = 0 then data else take (unat (cobs_nextOverhead c) - 1) data);
          preDelimiter = takeWhile (\<lambda>x. x \<noteq> 0) head;
          postDelimiter = dropWhile (\<lambda>x. x \<noteq> 0) head
      in bindR (if preDelimiter \<noteq> [] then cobs_ForwardData preDelimiter data c else Inr (data, c))
        (\<lambda>(data1, c1). if postDelimiter \<noteq> [] then cobs_MessageBoundary resets data1 c1 else Inr (data1, c1)))"

lemma cobs_MessageBoundary_shorter:
  "cobs_MessageBoundary resets data c = Inr (data', c') \<Longrightarrow> data' = tl data \<and> data \<noteq> []"
  by (auto simp: cobs_MessageBoundary_def result_simps)

lemma cobs_ForwardData_shorter:
  "cobs_ForwardData contents data c = Inr (data', c') \<Longrightarrow> data' = drop (length contents) data"
  by (auto simp: cobs_ForwardData_def result_simps)

lemma cobs_ExtractOverhead_shorter:
  "data \<noteq> [] \<Longrightarrow> cobs_ExtractOverhead resets data c = Inr (data', c') \<Longrightarrow> length data' < length data"
  by (auto simp: cobs_ExtractOverhead_def result_simps Let_def dest: cobs_MessageBoundary_shorter split: if_splits)

lemma cobs_ExtractData_shorter:
  assumes "data \<noteq> []" and "cobs_nextOverhead c \<noteq> 1" and "cobs_ExtractData resets data c = Inr (data', c')"
  shows "length data' < length data"
proof -
  define hd where "hd = (if cobs_nextOverhead c = 0 then data else take (unat (cobs_nextOverhead c) - 1) data)"
  have "cobs_nextOverhead c \<noteq> 0 \<Longrightarrow> 2 \<le> unat (cobs_nextOverhead c)"
    using assms(2) by (intro byte_ge_2)
  then have "hd \<noteq> []" using assms(1) by (auto simp: hd_def)
  then have "takeWhile (\<lambda>x. x \<noteq> 0) hd \<noteq> [] \<or> dropWhile (\<lambda>x. x \<noteq> 0) hd \<noteq> []"
    by (metis takeWhile_dropWhile_id append_Nil)
  with assms(1,3) show ?thesis
    unfolding cobs_ExtractData_def Let_def hd_def [symmetric]
    by (fastforce simp: result_simps dest!: cobs_MessageBoundary_shorter cobs_ForwardData_shorter split: if_splits)
qed

function cobs_ReceivedData :: "(byte list \<Rightarrow> bool) \<Rightarrow> byte list \<Rightarrow> sesame_cobs \<Rightarrow> sesame_cobs result" where
  "cobs_ReceivedData resets data c =
     (if data = [] then Inr c
      else bindR (if cobs_nextOverhead c = 1 then cobs_ExtractOverhead resets data c
                  else cobs_ExtractData resets data c)
             (\<lambda>(data', c'). cobs_ReceivedData resets data' c'))"
  by pat_completeness auto
termination
  by (relation "measure (\<lambda>(resets, data, c). length data)")
    (auto dest: cobs_ExtractOverhead_shorter cobs_ExtractData_shorter split: if_splits)

declare cobs_ReceivedData.simps [simp del]

text \<open>\<^verbatim>\<open>DataReceived\<close> takes the contiguous ranges the reader of the serial line has, one after the other.\<close>

primrec cobs_DataReceived :: "(byte list \<Rightarrow> bool) \<Rightarrow> byte list list \<Rightarrow> sesame_cobs \<Rightarrow> sesame_cobs result" where
  "cobs_DataReceived resets [] c = Inr c"
| "cobs_DataReceived resets (data # ranges) c =
     bindR (cobs_ReceivedData resets data c) (cobs_DataReceived resets ranges)"

section \<open>The receiving side refines the decoder\<close>

text \<open>
  What the receiving members say, as a state of the reference decoder. The deque holds the payload of
  the message that is being received and nothing else.
\<close>

definition cobs_decoder :: "sesame_cobs \<Rightarrow> decoder" where
  "cobs_decoder c = \<lparr>dec_next = cobs_nextOverhead c, dec_pseudo = cobs_overheadPositionIsPseudo c,
     dec_payload = bd_list (cobs_receivedMessage c), dec_size = cobs_receiveSizeEncoded c\<rparr>"

definition cobs_inv :: "sesame_cobs \<Rightarrow> bool" where
  "cobs_inv c \<longleftrightarrow> bd_inv (cobs_receivedMessage c) \<and> bv_inv (cobs_sendStorage c)
     \<and> cobs_currentMessageSize c = bd_size (cobs_receivedMessage c) \<and> cobs_nextOverhead c \<noteq> 0"

definition received :: "(byte list \<times> nat) list \<Rightarrow> cobs_event list" where
  "received out = map (\<lambda>(m, n). ReceivedMessage m n) out"

abbreviation cobs_capacity :: "sesame_cobs \<Rightarrow> nat" where
  "cobs_capacity c \<equiv> bd_max_size (cobs_receivedMessage c)"

text \<open>A call that reads bytes and leaves the object as the decoder is after them.\<close>

definition cobs_reads :: "decoder \<times> (byte list \<times> nat) list \<Rightarrow> sesame_cobs \<Rightarrow> sesame_cobs \<Rightarrow> bool" where
  "cobs_reads r c c' \<longleftrightarrow> cobs_inv c' \<and> cobs_decoder c' = fst r
     \<and> cobs_events c' = cobs_events c @ received (snd r) \<and> cobs_capacity c' = cobs_capacity c"

lemma received_simps [simp]: "received [] = []" "received (xs @ ys) = received xs @ received ys"
  by (simp_all add: received_def)

lemma cobs_reads_trans:
  "cobs_reads (dec_run xs (cobs_decoder c)) c c1 \<Longrightarrow> cobs_reads (dec_run ys (cobs_decoder c1)) c1 c2
    \<Longrightarrow> cobs_reads (dec_run (xs @ ys) (cobs_decoder c)) c c2"
  by (simp add: cobs_reads_def dec_run_append)

text \<open>The payload never exceeds the capacity while the bytes are read.\<close>

definition dec_fits :: "nat \<Rightarrow> byte list \<Rightarrow> decoder \<Rightarrow> bool" where
  "dec_fits cap xs d \<longleftrightarrow> (\<forall>k\<in>{0..length xs}. length (dec_payload (fst (dec_run (take k xs) d))) \<le> cap)"

lemma dec_fits_append:
  assumes "dec_fits cap (xs @ ys) d"
  shows "dec_fits cap xs d" and "dec_fits cap ys (fst (dec_run xs d))" and "length (dec_payload (fst (dec_run xs d))) \<le> cap"
proof -
  show "dec_fits cap xs d"
    unfolding dec_fits_def
  proof
    fix k assume "k \<in> {0..length xs}"
    then show "length (dec_payload (fst (dec_run (take k xs) d))) \<le> cap"
      using bspec [OF assms [unfolded dec_fits_def], of k] by simp
  qed
  show "length (dec_payload (fst (dec_run xs d))) \<le> cap"
    using bspec [OF assms [unfolded dec_fits_def], of "length xs"] by simp
  show "dec_fits cap ys (fst (dec_run xs d))"
    unfolding dec_fits_def
  proof
    fix k assume "k \<in> {0..length ys}"
    then show "length (dec_payload (fst (dec_run (take k ys) (fst (dec_run xs d))))) \<le> cap"
      using bspec [OF assms [unfolded dec_fits_def], of "length xs + k"] by (simp add: dec_run_append)
  qed
qed

lemma dec_payload_grows:
  "0 \<notin> set xs \<Longrightarrow> length (dec_payload d) \<le> length (dec_payload (fst (dec_run xs d)))"
proof (induction xs arbitrary: d)
  case (Cons x xs)
  have "length (dec_payload d) \<le> length (dec_payload (fst (dec_step x d)))"
    using Cons.prems by (simp add: dec_step_def)
  also have "\<dots> \<le> length (dec_payload (fst (dec_run xs (fst (dec_step x d)))))"
    using Cons.prems by (intro Cons.IH) simp
  finally show ?case by (cases "dec_step x d"; cases "dec_run xs (fst (dec_step x d))") simp
qed simp

lemma dec_fits_join:
  assumes "dec_fits cap xs d" and "dec_fits cap ys (fst (dec_run xs d))"
  shows "dec_fits cap (xs @ ys) d"
  unfolding dec_fits_def
proof
  fix k assume k: "k \<in> {0..length (xs @ ys)}"
  show "length (dec_payload (fst (dec_run (take k (xs @ ys)) d))) \<le> cap"
  proof (cases "k \<le> length xs")
    case True
    then show ?thesis using bspec [OF assms(1) [unfolded dec_fits_def], of k] by simp
  next
    case False
    then show ?thesis
      using bspec [OF assms(2) [unfolded dec_fits_def], of "k - length xs"] k by (simp add: dec_run_append)
  qed
qed

lemma dec_fits_append_iff:
  "dec_fits cap (xs @ ys) d \<longleftrightarrow> dec_fits cap xs d \<and> dec_fits cap ys (fst (dec_run xs d))"
  using dec_fits_append [of cap xs ys d] dec_fits_join [of cap xs d ys] by blast

lemma dec_fits_body:
  assumes "0 \<notin> set b"
  shows "dec_fits cap b d \<longleftrightarrow> length (dec_payload (fst (dec_run b d))) \<le> cap"
proof
  assume "dec_fits cap b d"
  then show "length (dec_payload (fst (dec_run b d))) \<le> cap" using dec_fits_append(3) [of cap b "[]" d] by simp
next
  assume len: "length (dec_payload (fst (dec_run b d))) \<le> cap"
  show "dec_fits cap b d"
    unfolding dec_fits_def
  proof
    fix k
    have "0 \<notin> set (drop k b)" using assms by (auto dest: in_set_dropD)
    then have "length (dec_payload (fst (dec_run (take k b) d))) \<le> length (dec_payload (fst (dec_run b d)))"
      using dec_payload_grows [of "drop k b" "fst (dec_run (take k b) d)"] dec_run_append [of "take k b" "drop k b" d]
      by simp
    with len show "length (dec_payload (fst (dec_run (take k b) d))) \<le> cap" by simp
  qed
qed

lemma dec_fits_zero: "dec_fits cap [0] d \<longleftrightarrow> length (dec_payload d) \<le> cap"
proof -
  have "dec_payload (fst (dec_run [0] d)) = []" by (simp add: dec_step_def dec_boundary_def)
  moreover have "{0..length [0 :: byte]} = {0, 1}" by auto
  ultimately show ?thesis by (simp add: dec_fits_def)
qed

lemma bd_size_list: "bd_inv b \<Longrightarrow> bd_size b = length (bd_list b)"
  by simp

lemma cobs_ReceivedPayload_correct:
  assumes "cobs_inv c" and "length (bd_list (cobs_receivedMessage c)) + length data \<le> cobs_capacity c"
  shows "\<exists>q. cobs_ReceivedPayload data c = Inr (c\<lparr>cobs_receivedMessage := q,
      cobs_currentMessageSize := cobs_currentMessageSize c + length data\<rparr>)
    \<and> bd_inv q \<and> bd_list q = bd_list (cobs_receivedMessage c) @ data \<and> bd_max_size q = cobs_capacity c
    \<and> bd_size q = bd_size (cobs_receivedMessage c) + length data"
proof -
  let ?q = "cobs_receivedMessage c"
  have "bd_inv ?q" "bd_size ?q + length data \<le> bd_max_size ?q"
    using assms by (simp_all add: cobs_inv_def)
  from bd_insert_range_correct [OF this(1) order_refl this(2), of True] obtain q where
    "bd_insert_range True (bd_size ?q) data ?q = Inr q" "bd_inv q" "bd_list q = bd_list ?q @ data"
    "bd_max_size q = bd_max_size ?q"
    using \<open>bd_inv ?q\<close> by auto
  moreover from this have "bd_size q = bd_size ?q + length data"
    using \<open>bd_inv ?q\<close> length_bd_list [of q] by simp
  ultimately show ?thesis by (intro exI [of _ q]) (simp add: cobs_ReceivedPayload_def)
qed

lemma cobs_Reset_rx:
  assumes "bv_inv (cobs_sendStorage c)" and "bd_inv (cobs_receivedMessage c)"
  shows "\<exists>c'. cobs_Reset c = Inr c' \<and> cobs_inv c' \<and> cobs_decoder c' = dec_start \<and> cobs_events c' = cobs_events c
    \<and> cobs_capacity c' = cobs_capacity c \<and> bd_empty (cobs_receivedMessage c')
    \<and> cobs_currentMessageSize c' = 0 \<and> cobs_receiveSizeEncoded c' = 0"
proof -
  obtain v where v: "bv_clear (cobs_sendStorage c) = Inr v" "bv_inv v"
    using bv_clear_correct [OF assms(1)] by auto
  obtain q where q: "bd_clear True (cobs_receivedMessage c) = Inr q" "bd_inv q" "bd_list q = []"
      "bd_max_size q = cobs_capacity c"
    using bd_clear_correct [OF assms(2), of True] by auto
  have z: "bd_size q = 0" "bd_empty q" using q(2,3) bd_size_list [OF q(2)] by (simp_all add: bd_empty_def bd_size_def)
  show ?thesis
    using v q z assms
    by (cases "cobs_sendStreamAllocated c"; cases "cobs_sendingUserData c")
      (simp_all add: cobs_Reset_def cobs_FinishReset_def cobs_CheckReadyToSendUserData_def cobs_inv_def
        cobs_decoder_def dec_start_def)
qed

lemma cobs_FinishMessage_correct:
  assumes inv: "bd_inv (cobs_receivedMessage c)" "bv_inv (cobs_sendStorage c)"
    and cur: "cobs_currentMessageSize c = bd_size (cobs_receivedMessage c)"
  shows "\<exists>c'. cobs_FinishMessage resets c = Inr c' \<and> bd_inv (cobs_receivedMessage c') \<and> bv_inv (cobs_sendStorage c')
    \<and> bd_list (cobs_receivedMessage c') = [] \<and> cobs_currentMessageSize c' = 0
    \<and> cobs_capacity c' = cobs_capacity c
    \<and> (if bd_list (cobs_receivedMessage c) = [] then cobs_receiveSizeEncoded c' = cobs_receiveSizeEncoded c
          \<and> cobs_events c' = cobs_events c
        else cobs_receiveSizeEncoded c' = 0
          \<and> cobs_events c' = cobs_events c @ [ReceivedMessage (bd_list (cobs_receivedMessage c)) (cobs_receiveSizeEncoded c)])"
proof (cases "bd_size (cobs_receivedMessage c) = 0")
  case True
  then have "bd_list (cobs_receivedMessage c) = []" using bd_size_list [OF inv(1)] by simp
  with True inv cur show ?thesis by (simp add: cobs_FinishMessage_def)
next
  case False
  let ?q = "cobs_receivedMessage c" and ?n = "bd_size (cobs_receivedMessage c)"
  have ne: "bd_list ?q \<noteq> []" using False bd_size_list [OF inv(1)] by auto
  define c2 where "c2 = cobs_emit (ReceivedMessage (bd_list ?q) (cobs_receiveSizeEncoded c))
    (c\<lparr>cobs_currentMessageSize := 0, cobs_receiveSizeEncoded := 0\<rparr>)"
  have c2: "cobs_receivedMessage c2 = ?q" "cobs_sendStorage c2 = cobs_sendStorage c" "cobs_currentMessageSize c2 = 0"
      "cobs_receiveSizeEncoded c2 = 0"
      "cobs_events c2 = cobs_events c @ [ReceivedMessage (bd_list ?q) (cobs_receiveSizeEncoded c)]"
    by (simp_all add: c2_def cobs_emit_def)
  have fm: "cobs_FinishMessage resets c = bindR (if resets (bd_list ?q) then cobs_Reset c2 else Inr c2)
      (\<lambda>c3. if bd_empty (cobs_receivedMessage c3) then Inr c3
            else bindR (bd_erase_range True 0 ?n (cobs_receivedMessage c3)) (\<lambda>q. Inr (c3\<lparr>cobs_receivedMessage := q\<rparr>)))"
    using False cur inv(1) by (simp add: cobs_FinishMessage_def Let_def c2_def)
  show ?thesis
  proof (cases "resets (bd_list ?q)")
    case True
    obtain c3 where c3: "cobs_Reset c2 = Inr c3" "cobs_inv c3" "cobs_decoder c3 = dec_start"
        "cobs_events c3 = cobs_events c2" "cobs_capacity c3 = cobs_capacity c2"
        "bd_empty (cobs_receivedMessage c3)" "cobs_currentMessageSize c3 = 0" "cobs_receiveSizeEncoded c3 = 0"
      using cobs_Reset_rx [of c2] inv c2 by auto
    moreover have "bd_list (cobs_receivedMessage c3) = []"
      using arg_cong [OF c3(3), of dec_payload] by (simp add: cobs_decoder_def dec_start_def)
    ultimately show ?thesis using True fm ne c2 by (simp add: cobs_inv_def)
  next
    case no: False
    obtain q where q: "bd_erase_range True 0 ?n ?q = Inr q" "bd_inv q" "bd_list q = []" "bd_max_size q = bd_max_size ?q"
      using bd_erase_front_pops [OF inv(1), of ?n] inv(1) by (auto simp: bd_erase_range_def)
    have "\<not> bd_empty ?q" using False by (simp add: bd_empty_def bd_size_def)
    with q no fm ne c2 inv show ?thesis by simp
  qed
qed

lemma cobs_MessageBoundary_correct:
  assumes inv: "bd_inv (cobs_receivedMessage c)" "bv_inv (cobs_sendStorage c)"
    "cobs_currentMessageSize c = bd_size (cobs_receivedMessage c)" and data: "data \<noteq> []"
  shows "\<exists>c'. cobs_MessageBoundary resets data c = Inr (tl data, c') \<and> cobs_reads (dec_boundary (cobs_decoder c)) c c'"
proof -
  let ?c = "c\<lparr>cobs_receiveSizeEncoded := cobs_receiveSizeEncoded c + 1\<rparr>"
  obtain c1 where c1: "cobs_FinishMessage resets ?c = Inr c1" "bd_inv (cobs_receivedMessage c1)" "bv_inv (cobs_sendStorage c1)"
      "bd_list (cobs_receivedMessage c1) = []" "cobs_currentMessageSize c1 = 0" "cobs_capacity c1 = cobs_capacity c"
      and ev: "if bd_list (cobs_receivedMessage c) = [] then cobs_receiveSizeEncoded c1 = cobs_receiveSizeEncoded c + 1
          \<and> cobs_events c1 = cobs_events c
        else cobs_receiveSizeEncoded c1 = 0
          \<and> cobs_events c1 = cobs_events c @ [ReceivedMessage (bd_list (cobs_receivedMessage c)) (cobs_receiveSizeEncoded c + 1)]"
    using cobs_FinishMessage_correct [of ?c resets] inv by auto
  have "bd_size (cobs_receivedMessage c1) = 0" using c1 bd_size_list by fastforce
  with c1 ev data show ?thesis
    by (auto simp: cobs_MessageBoundary_def cobs_reads_def cobs_inv_def cobs_decoder_def dec_boundary_def received_def)
qed

lemma cobs_ExtractOverhead_correct:
  assumes inv: "cobs_inv c" and data: "data = x # rest" and next1: "cobs_nextOverhead c = 1"
    and fits: "length (dec_payload (fst (dec_step x (cobs_decoder c)))) \<le> cobs_capacity c"
  shows "\<exists>c'. cobs_ExtractOverhead resets data c = Inr (rest, c') \<and> cobs_reads (dec_step x (cobs_decoder c)) c c'"
proof (cases "x = 0")
  case True
  let ?c = "c\<lparr>cobs_nextOverhead := 0\<rparr>"
  have "dec_boundary (cobs_decoder ?c) = dec_boundary (cobs_decoder c)"
    by (simp add: dec_boundary_def cobs_decoder_def)
  then show ?thesis
    using cobs_MessageBoundary_correct [of ?c data resets] data inv True
    by (auto simp: cobs_ExtractOverhead_def dec_step_def cobs_inv_def cobs_reads_def)
next
  case False
  let ?c = "c\<lparr>cobs_nextOverhead := x, cobs_receiveSizeEncoded := cobs_receiveSizeEncoded c + 1\<rparr>"
  have inv': "cobs_inv ?c" using inv False by (simp add: cobs_inv_def)
  show ?thesis
  proof (cases "cobs_overheadPositionIsPseudo c")
    case True
    with False data inv next1 show ?thesis
      by (simp add: cobs_ExtractOverhead_def Let_def dec_step_def cobs_reads_def cobs_inv_def cobs_decoder_def)
  next
    case no: False
    have "length (bd_list (cobs_receivedMessage ?c)) + length [0 :: byte] \<le> cobs_capacity ?c"
      using fits False no next1 by (simp add: dec_step_def cobs_decoder_def)
    from cobs_ReceivedPayload_correct [OF inv' this] obtain q where
      "cobs_ReceivedPayload [0] ?c = Inr (?c\<lparr>cobs_receivedMessage := q,
        cobs_currentMessageSize := cobs_currentMessageSize ?c + 1\<rparr>)"
      "bd_inv q" "bd_list q = bd_list (cobs_receivedMessage c) @ [0]" "bd_max_size q = cobs_capacity c"
      "bd_size q = bd_size (cobs_receivedMessage c) + 1"
      by auto
    with False no data inv next1 show ?thesis
      by (simp add: cobs_ExtractOverhead_def Let_def dec_step_def cobs_reads_def cobs_inv_def cobs_decoder_def)
  qed
qed

lemma cobs_inv_room: "cobs_inv c \<Longrightarrow> length (bd_list (cobs_receivedMessage c)) \<le> cobs_capacity c"
  using bd_inv_bounds [of "cobs_receivedMessage c"] by (simp add: cobs_inv_def)

lemma cobs_ReceivedPayload_overflow:
  assumes "cobs_inv c" and "cobs_capacity c < length (bd_list (cobs_receivedMessage c)) + length data"
  shows "cobs_ReceivedPayload data c = Inl AssertFailed"
  using assms by (simp add: cobs_ReceivedPayload_def bd_insert_range_def cobs_inv_def)

lemma cobs_ExtractOverhead_overflow:
  assumes inv: "cobs_inv c" and next1: "cobs_nextOverhead c = 1"
    and full: "cobs_capacity c < length (dec_payload (fst (dec_step x (cobs_decoder c))))"
  shows "cobs_ExtractOverhead resets (x # rest) c = Inl AssertFailed"
proof -
  have "length (bd_list (cobs_receivedMessage c)) \<le> cobs_capacity c"
    using inv by (rule cobs_inv_room)
  then have x: "x \<noteq> 0" "\<not> cobs_overheadPositionIsPseudo c"
    and len: "cobs_capacity c < length (bd_list (cobs_receivedMessage c)) + length [0 :: byte]"
    using full next1 by (auto simp: dec_step_def cobs_decoder_def dec_boundary_def split: if_splits)
  let ?c = "c\<lparr>cobs_nextOverhead := x, cobs_receiveSizeEncoded := cobs_receiveSizeEncoded c + 1\<rparr>"
  have "cobs_inv ?c" using inv x by (simp add: cobs_inv_def)
  from cobs_ReceivedPayload_overflow [OF this] len have "cobs_ReceivedPayload [0] ?c = Inl AssertFailed" by simp
  with x show ?thesis by (simp add: cobs_ExtractOverhead_def Let_def)
qed

text \<open>Bytes inside a frame, as many as the overhead still announces or fewer.\<close>

lemma dec_run_data:
  assumes "0 \<notin> set f" and "length f < unat (dec_next d)"
  shows "dec_run f d = (d\<lparr>dec_next := dec_next d - of_nat (length f), dec_payload := dec_payload d @ f,
    dec_size := dec_size d + length f\<rparr>, [])"
  using assms
proof (induction f arbitrary: d)
  case (Cons x f)
  let ?d = "\<lparr>dec_next = dec_next d - 1, dec_pseudo = dec_pseudo d, dec_payload = dec_payload d @ [x], dec_size = dec_size d + 1\<rparr>"
  have n: "unat (dec_next d - 1) = unat (dec_next d) - 1"
    using Cons.prems(2) by (intro unat_sub_if' [THEN trans]) (auto simp: word_le_nat_alt)
  have "dec_next d \<noteq> 1" using Cons.prems(2) by auto
  then have "dec_step x d = (?d, [])" using Cons.prems(1) by (simp add: dec_step_def)
  moreover have "dec_run f ?d = (?d\<lparr>dec_next := dec_next ?d - of_nat (length f), dec_payload := dec_payload ?d @ f,
      dec_size := dec_size ?d + length f\<rparr>, [])"
    using Cons.prems n by (intro Cons.IH) auto
  ultimately show ?case by (cases d) (simp add: algebra_simps)
qed simp

lemma cobs_ForwardData_correct:
  assumes inv: "cobs_inv c" and pre: "0 \<notin> set pre" "length pre < unat (cobs_nextOverhead c)"
    and fits: "length (dec_payload (fst (dec_run pre (cobs_decoder c)))) \<le> cobs_capacity c"
  shows "\<exists>c'. cobs_ForwardData pre data c = Inr (drop (length pre) data, c')
    \<and> cobs_reads (dec_run pre (cobs_decoder c)) c c'"
proof -
  have run: "dec_run pre (cobs_decoder c) = (cobs_decoder c\<lparr>dec_next := cobs_nextOverhead c - of_nat (length pre),
      dec_payload := bd_list (cobs_receivedMessage c) @ pre, dec_size := cobs_receiveSizeEncoded c + length pre\<rparr>, [])"
    using dec_run_data [of pre "cobs_decoder c"] pre by (simp add: cobs_decoder_def)
  then have "length (bd_list (cobs_receivedMessage c)) + length pre \<le> cobs_capacity c" using fits by simp
  from cobs_ReceivedPayload_correct [OF inv this] obtain q where
    q: "cobs_ReceivedPayload pre c = Inr (c\<lparr>cobs_receivedMessage := q,
        cobs_currentMessageSize := cobs_currentMessageSize c + length pre\<rparr>)"
      "bd_inv q" "bd_list q = bd_list (cobs_receivedMessage c) @ pre" "bd_max_size q = cobs_capacity c"
      "bd_size q = bd_size (cobs_receivedMessage c) + length pre"
    by auto
  have "cobs_nextOverhead c - of_nat (length pre) \<noteq> 0"
  proof
    assume "cobs_nextOverhead c - of_nat (length pre) = 0"
    then have "unat (cobs_nextOverhead c) = unat (of_nat (length pre) :: byte)" by simp
    then have "unat (cobs_nextOverhead c) \<le> length pre" by (simp add: unat_of_nat)
    with pre(2) show False by simp
  qed
  with q inv run show ?thesis
    by (simp add: cobs_ForwardData_def cobs_reads_def cobs_inv_def cobs_decoder_def)
qed

lemma cobs_reads_refl: "cobs_inv c \<Longrightarrow> cobs_reads (dec_run [] (cobs_decoder c)) c c"
  by (simp add: cobs_reads_def)

text \<open>
  One call either takes some bytes away as the decoder does, or fails because the payload of those
  bytes does not fit.
\<close>

lemma cobs_ExtractData_cases:
  assumes inv: "cobs_inv c" and data: "data \<noteq> []" and next1: "cobs_nextOverhead c \<noteq> 1"
  shows "cobs_ExtractData resets data c = Inl AssertFailed \<and> \<not> dec_fits (cobs_capacity c) data (cobs_decoder c)
    \<or> (\<exists>xs ys c'. data = xs @ ys \<and> xs \<noteq> [] \<and> cobs_ExtractData resets data c = Inr (ys, c')
        \<and> cobs_reads (dec_run xs (cobs_decoder c)) c c' \<and> dec_fits (cobs_capacity c) xs (cobs_decoder c))"
proof -
  define head where "head = take (unat (cobs_nextOverhead c) - 1) data"
  define pre where "pre = takeWhile (\<lambda>x. x \<noteq> 0) head"
  define post where "post = dropWhile (\<lambda>x. x \<noteq> 0) head"
  have n0: "cobs_nextOverhead c \<noteq> 0" using inv by (simp add: cobs_inv_def)
  then have n2: "2 \<le> unat (cobs_nextOverhead c)" using next1 by (rule byte_ge_2)
  have hd_data: "data = head @ drop (unat (cobs_nextOverhead c) - 1) data" by (simp add: head_def)
  have split: "head = pre @ post" by (simp add: pre_def post_def)
  have ne: "head \<noteq> []" using data n2 by (auto simp: head_def)
  have len: "length pre < unat (cobs_nextOverhead c)"
  proof -
    have "length pre \<le> length head" using split by simp
    also have "\<dots> \<le> unat (cobs_nextOverhead c) - 1" by (simp add: head_def)
    finally show ?thesis using n2 by simp
  qed
  have nz: "0 \<notin> set pre" by (auto simp: pre_def dest: set_takeWhileD)
  define rest where "rest = post @ drop (unat (cobs_nextOverhead c) - 1) data"
  have dat: "data = pre @ rest" using hd_data split by (simp add: rest_def)
  have pre_run: "dec_run pre (cobs_decoder c) = (cobs_decoder c\<lparr>dec_next := cobs_nextOverhead c - of_nat (length pre),
      dec_payload := bd_list (cobs_receivedMessage c) @ pre, dec_size := cobs_receiveSizeEncoded c + length pre\<rparr>, [])"
    using dec_run_data [of pre "cobs_decoder c"] nz len by (simp add: cobs_decoder_def)
  have eqn: "cobs_ExtractData resets data c =
      bindR (if pre \<noteq> [] then cobs_ForwardData pre data c else Inr (data, c))
        (\<lambda>(data1, c1). if post \<noteq> [] then cobs_MessageBoundary resets data1 c1 else Inr (data1, c1))"
    unfolding cobs_ExtractData_def Let_def if_not_P [OF n0] head_def [symmetric] pre_def [symmetric]
      post_def [symmetric] by (rule refl)
  show ?thesis
  proof (cases "dec_fits (cobs_capacity c) pre (cobs_decoder c)")
    case False
    then have full: "cobs_capacity c < length (bd_list (cobs_receivedMessage c)) + length pre"
      using dec_fits_body [OF nz, of "cobs_capacity c" "cobs_decoder c"] pre_run by simp
    have "pre \<noteq> []"
      using full cobs_inv_room [OF inv] by auto
    then have "cobs_ExtractData resets data c = Inl AssertFailed"
      using eqn cobs_ReceivedPayload_overflow [OF inv full] by (simp add: cobs_ForwardData_def)
    moreover have "\<not> dec_fits (cobs_capacity c) data (cobs_decoder c)"
      using False dec_fits_append(1) [of "cobs_capacity c" pre rest] by (auto simp: dat)
    ultimately show ?thesis by blast
  next
    case fits: True
    then have fp: "length (dec_payload (fst (dec_run pre (cobs_decoder c)))) \<le> cobs_capacity c"
      using dec_fits_body [OF nz] by blast
    obtain c1 where c1: "(if pre \<noteq> [] then cobs_ForwardData pre data c else Inr (data, c)) = Inr (rest, c1)"
        "cobs_reads (dec_run pre (cobs_decoder c)) c c1"
      using cobs_ForwardData_correct [OF inv nz len fp, of data] cobs_reads_refl [OF inv] dat
      by (cases "pre = []") auto
    have eq: "cobs_ExtractData resets data c = (if post \<noteq> [] then cobs_MessageBoundary resets rest c1 else Inr (rest, c1))"
      unfolding eqn c1(1) by simp
    show ?thesis
    proof (cases "post = []")
      case True
      then have "pre \<noteq> []" using ne split by auto
      with True c1 eq dat fits show ?thesis
        by (intro disjI2 exI [of _ pre] exI [of _ rest] exI [of _ c1]) auto
    next
      case False
      then have hd: "hd post = 0" using hd_dropWhile [of "\<lambda>x. x \<noteq> 0" head] by (auto simp: post_def)
      then obtain rest' where r: "rest = 0 # rest'" using False by (cases post) (auto simp: rest_def)
      obtain c2 where c2: "cobs_MessageBoundary resets rest c1 = Inr (rest', c2)"
          "cobs_reads (dec_boundary (cobs_decoder c1)) c1 c2"
        using cobs_MessageBoundary_correct [of c1 rest resets] c1(2) r by (auto simp: cobs_reads_def cobs_inv_def)
      have "cobs_reads (dec_run [0] (cobs_decoder c1)) c1 c2"
        using c2(2) by (simp add: dec_step_def split: prod.split)
      then have "cobs_reads (dec_run (pre @ [0]) (cobs_decoder c)) c c2"
        using c1(2) by (rule cobs_reads_trans [rotated])
      moreover have "dec_fits (cobs_capacity c) (pre @ [0]) (cobs_decoder c)"
        using fits fp by (simp add: dec_fits_append_iff dec_fits_zero)
      ultimately show ?thesis
        using False c2 eq dat r by (intro disjI2 exI [of _ "pre @ [0]"] exI [of _ rest'] exI [of _ c2]) auto
    qed
  qed
qed

text \<open>One turn of the loop of \<^verbatim>\<open>ReceivedData\<close>.\<close>

definition cobs_Extract :: "(byte list \<Rightarrow> bool) \<Rightarrow> byte list \<Rightarrow> sesame_cobs \<Rightarrow> (byte list \<times> sesame_cobs) result" where
  "cobs_Extract resets data c =
     (if cobs_nextOverhead c = 1 then cobs_ExtractOverhead resets data c else cobs_ExtractData resets data c)"

lemma cobs_Extract_cases:
  assumes "cobs_inv c" and "data \<noteq> []"
  obtains (full) "cobs_Extract resets data c = Inl AssertFailed" "\<not> dec_fits (cobs_capacity c) data (cobs_decoder c)"
  | (reads) xs ys c' where "data = xs @ ys" "xs \<noteq> []" "cobs_Extract resets data c = Inr (ys, c')"
    "cobs_reads (dec_run xs (cobs_decoder c)) c c'" "dec_fits (cobs_capacity c) xs (cobs_decoder c)"
proof (cases "cobs_nextOverhead c = 1")
  case False
  with cobs_ExtractData_cases [OF assms False, of resets] that show ?thesis
    by (auto simp: cobs_Extract_def)
next
  case True
  obtain x rest where d: "data = [x] @ rest" using assms(2) by (cases data) auto
  let ?d = "cobs_decoder c"
  have run: "dec_run [x] ?d = dec_step x ?d" by (simp split: prod.split)
  have start: "length (dec_payload ?d) \<le> cobs_capacity c"
    using cobs_inv_room [OF assms(1)] by (simp add: cobs_decoder_def)
  show ?thesis
  proof (cases "length (dec_payload (fst (dec_step x ?d))) \<le> cobs_capacity c")
    case fits: True
    from cobs_ExtractOverhead_correct [OF assms(1) d [simplified] True fits, of resets] obtain c' where
      c': "cobs_ExtractOverhead resets data c = Inr (rest, c')" "cobs_reads (dec_step x ?d) c c'" by blast
    moreover have "dec_fits (cobs_capacity c) [x] ?d"
      using fits run start dec_fits_zero dec_fits_body [of "[x]"] by (cases "x = 0") auto
    ultimately show ?thesis using that(2) [of "[x]" rest c'] d True run by (simp add: cobs_Extract_def)
  next
    case False
    then have "cobs_ExtractOverhead resets data c = Inl AssertFailed"
      using cobs_ExtractOverhead_overflow [OF assms(1) True] d by simp
    moreover have "\<not> dec_fits (cobs_capacity c) data ?d"
      using False dec_fits_append(3) [of "cobs_capacity c" "[x]" rest ?d] d run by auto
    ultimately show ?thesis using that(1) True by (simp add: cobs_Extract_def)
  qed
qed

lemma cobs_ReceivedData_Extract:
  "data \<noteq> [] \<Longrightarrow> cobs_ReceivedData resets data c =
    bindR (cobs_Extract resets data c) (\<lambda>(data', c'). cobs_ReceivedData resets data' c')"
  by (subst cobs_ReceivedData.simps) (simp add: cobs_Extract_def)

text \<open>A call that reads \<open>bytes\<close>: as the decoder, or a failed assertion where the payload does not fit.\<close>

definition cobs_consumes :: "byte list \<Rightarrow> sesame_cobs \<Rightarrow> sesame_cobs result \<Rightarrow> bool" where
  "cobs_consumes bytes c r \<longleftrightarrow>
     (if dec_fits (cobs_capacity c) bytes (cobs_decoder c)
      then \<exists>c'. r = Inr c' \<and> cobs_reads (dec_run bytes (cobs_decoder c)) c c'
      else r = Inl AssertFailed)"

lemma cobs_consumes_append:
  assumes "cobs_reads (dec_run xs (cobs_decoder c)) c c1" and "dec_fits (cobs_capacity c) xs (cobs_decoder c)"
    and "cobs_consumes ys c1 r"
  shows "cobs_consumes (xs @ ys) c r"
proof -
  have "dec_fits (cobs_capacity c) (xs @ ys) (cobs_decoder c) \<longleftrightarrow> dec_fits (cobs_capacity c1) ys (cobs_decoder c1)"
    using assms(1,2) by (simp add: dec_fits_append_iff cobs_reads_def)
  with assms(1,3) cobs_reads_trans show ?thesis by (fastforce simp: cobs_consumes_def split: if_splits)
qed

lemma cobs_consumes_nil: "cobs_inv c \<Longrightarrow> cobs_consumes [] c (Inr c)"
  using cobs_reads_refl [of c] cobs_inv_room [of c] by (auto simp: cobs_consumes_def dec_fits_def cobs_decoder_def)

lemma cobs_ReceivedData_consumes:
  assumes "cobs_inv c"
  shows "cobs_consumes data c (cobs_ReceivedData resets data c)"
  using assms
proof (induction data arbitrary: c rule: length_induct)
  case (1 data)
  show ?case
  proof (cases "data = []")
    case True
    then show ?thesis using cobs_consumes_nil [OF "1.prems"] by (subst cobs_ReceivedData.simps) simp
  next
    case False
    from "1.prems" False show ?thesis
    proof (cases rule: cobs_Extract_cases [where resets = resets])
      case full
      with False show ?thesis by (simp add: cobs_ReceivedData_Extract cobs_consumes_def)
    next
      case (reads xs ys c1)
      have "cobs_consumes ys c1 (cobs_ReceivedData resets ys c1)"
        using "1.IH" reads by (auto simp: cobs_reads_def)
      with reads(4,5) have "cobs_consumes (xs @ ys) c (cobs_ReceivedData resets ys c1)" by (rule cobs_consumes_append)
      with reads False show ?thesis by (simp add: cobs_ReceivedData_Extract)
    qed
  qed
qed

lemma cobs_DataReceived_consumes:
  assumes "cobs_inv c"
  shows "cobs_consumes (concat ranges) c (cobs_DataReceived resets ranges c)"
  using assms
proof (induction ranges arbitrary: c)
  case Nil
  then show ?case using cobs_consumes_nil by simp
next
  case (Cons data ranges)
  note first = cobs_ReceivedData_consumes [OF Cons.prems, of data resets]
  show ?case
  proof (cases "dec_fits (cobs_capacity c) data (cobs_decoder c)")
    case True
    with first obtain c1 where c1: "cobs_ReceivedData resets data c = Inr c1"
        "cobs_reads (dec_run data (cobs_decoder c)) c c1" by (auto simp: cobs_consumes_def)
    have "cobs_consumes (concat ranges) c1 (cobs_DataReceived resets ranges c1)"
      using Cons.IH c1(2) by (simp add: cobs_reads_def)
    from cobs_consumes_append [OF c1(2) True this] c1(1) show ?thesis by simp
  next
    case False
    with first show ?thesis by (simp add: cobs_consumes_def dec_fits_append_iff)
  qed
qed

lemma cobs_DataReceived_refines:
  assumes "cobs_inv c" and "dec_fits (cobs_capacity c) (concat ranges) (cobs_decoder c)"
  shows "\<exists>c'. cobs_DataReceived resets ranges c = Inr c' \<and> cobs_reads (dec_run (concat ranges) (cobs_decoder c)) c c'"
  using cobs_DataReceived_consumes [OF assms(1), of ranges resets] assms(2) by (simp add: cobs_consumes_def)

subsection \<open>Whatever the line delivers\<close>

text \<open>A frame, or the start of one, adds to the payload what it decodes to.\<close>

lemma dec_run_body:
  assumes "dec_next d = 1" and "0 \<notin> set b" and "b \<noteq> []"
  shows "snd (dec_run b d) = []
    \<and> dec_payload (fst (dec_run b d)) = dec_payload d @ (if dec_pseudo d then [] else [0]) @ cobs_decode b
    \<and> dec_size (fst (dec_run b d)) = dec_size d + length b"
  using assms
proof (induction b arbitrary: d rule: cobs_decode.induct)
  case (2 n xs)
  let ?f = "take (unat n - 1) xs" and ?more = "drop (unat n - 1) xs"
  let ?d1 = "\<lparr>dec_next = n, dec_pseudo = (n = 255),
     dec_payload = dec_payload d @ (if dec_pseudo d then [] else [0]), dec_size = dec_size d + 1\<rparr>"
  have n0: "n \<noteq> 0" and nz: "0 \<notin> set ?f" "0 \<notin> set ?more"
    using "2.prems"(2) by (auto dest: in_set_takeD in_set_dropD)
  then have "0 < unat n" by (simp add: unat_gt_0)
  then have run: "dec_run ?f ?d1 = (?d1\<lparr>dec_next := n - of_nat (length ?f),
      dec_payload := dec_payload ?d1 @ ?f, dec_size := dec_size ?d1 + length ?f\<rparr>, [])" (is "_ = (?d2, [])")
    using dec_run_data [of ?f ?d1] nz(1) by simp
  have "dec_run (?f @ ?more) ?d1 = (fst (dec_run ?more ?d2), snd (dec_run ?more ?d2))"
    using dec_run_append [of ?f ?more ?d1] run by simp
  then have split: "dec_run (n # xs) d = dec_run ?more ?d2"
    using "2.prems"(1) n0 by (simp add: dec_step_def split: prod.split)
  show ?case
  proof (cases "?more = []")
    case True
    then show ?thesis using split by (simp add: Let_def)
  next
    case False
    then have len: "length ?f = unat n - 1" by simp
    with \<open>0 < unat n\<close> have "n - of_nat (length ?f) = 1" by (simp add: of_nat_diff)
    then have "dec_next ?d2 = 1" by simp
    from "2.IH" [OF refl refl False this nz(2) False] len show ?thesis
      using split False by (simp add: Let_def)
  qed
qed simp

lemma dec_run_rest:
  assumes "0 \<notin> set b"
  shows "snd (dec_run b (dec_start\<lparr>dec_size := n\<rparr>)) = []
    \<and> dec_payload (fst (dec_run b (dec_start\<lparr>dec_size := n\<rparr>))) = cobs_decode b
    \<and> dec_size (fst (dec_run b (dec_start\<lparr>dec_size := n\<rparr>))) = n + length b"
  using dec_run_body [of "dec_start\<lparr>dec_size := n\<rparr>" b] assms by (cases "b = []") (simp_all add: dec_start_def)

lemma dec_run_delimited:
  assumes "0 \<notin> set b"
  shows "dec_run (b @ [0]) (dec_start\<lparr>dec_size := n\<rparr>) =
    (if cobs_decode b = [] then (dec_start\<lparr>dec_size := n + length b + 1\<rparr>, [])
     else (dec_start, [(cobs_decode b, n + length b + 1)]))"
proof -
  let ?r = "dec_run b (dec_start\<lparr>dec_size := n\<rparr>)"
  have "dec_run (b @ [0]) (dec_start\<lparr>dec_size := n\<rparr>) = dec_boundary (fst ?r)"
    using dec_run_rest [OF assms, of n] by (simp add: dec_run_append dec_step_def split: prod.split)
  then show ?thesis
    using dec_run_rest [OF assms, of n] by (simp add: dec_boundary_def dec_start_def)
qed

lemma dec_run_frames:
  assumes "\<forall>f\<in>set fs. 0 \<notin> set f"
  shows "dec_run (concat (map (\<lambda>f. f @ [0]) fs)) (dec_start\<lparr>dec_size := n\<rparr>) =
    (dec_start\<lparr>dec_size := snd (cobs_messages fs n)\<rparr>, fst (cobs_messages fs n))"
  using assms
proof (induction fs arbitrary: n)
  case (Cons f fs)
  have start: "dec_start = dec_start\<lparr>dec_size := 0\<rparr>" by (simp add: dec_start_def)
  note run = dec_run_append [of "f @ [0]" "concat (map (\<lambda>f. f @ [0]) fs)" "dec_start\<lparr>dec_size := n\<rparr>"]
  show ?case
  proof (cases "cobs_decode f = []")
    case True
    then show ?thesis
      using Cons dec_run_delimited [of f n] run by simp
  next
    case False
    have "dec_run (concat (map (\<lambda>f. f @ [0]) fs)) dec_start =
        (dec_start\<lparr>dec_size := snd (cobs_messages fs 0)\<rparr>, fst (cobs_messages fs 0))"
      using Cons.IH [of 0] Cons.prems start by simp
    with False show ?thesis
      using Cons.prems dec_run_delimited [of f n] run by (simp split: prod.split)
  qed
qed (simp add: dec_start_def)

lemma dec_fits_rest:
  "0 \<notin> set b \<Longrightarrow> dec_fits cap b (dec_start\<lparr>dec_size := n\<rparr>) \<longleftrightarrow> length (cobs_decode b) \<le> cap"
  using dec_run_rest [of b n] by (simp add: dec_fits_body)

lemma dec_fits_frames:
  assumes "\<forall>f\<in>set fs. 0 \<notin> set f"
  shows "dec_fits cap (concat (map (\<lambda>f. f @ [0]) fs)) (dec_start\<lparr>dec_size := n\<rparr>)
    \<longleftrightarrow> (\<forall>f\<in>set fs. length (cobs_decode f) \<le> cap)"
  using assms
proof (induction fs arbitrary: n)
  case Nil
  then show ?case by (simp add: dec_fits_def dec_start_def)
next
  case (Cons f fs)
  have start: "dec_start = dec_start\<lparr>dec_size := 0\<rparr>" by (simp add: dec_start_def)
  have f: "0 \<notin> set f" using Cons.prems by simp
  have "dec_fits cap (f @ [0]) (dec_start\<lparr>dec_size := n\<rparr>) \<longleftrightarrow> length (cobs_decode f) \<le> cap"
    using dec_fits_rest [OF f] dec_run_rest [OF f, of n] by (simp add: dec_fits_append_iff dec_fits_zero)
  moreover have "dec_fits cap (concat (map (\<lambda>f. f @ [0]) fs)) (fst (dec_run (f @ [0]) (dec_start\<lparr>dec_size := n\<rparr>)))
      \<longleftrightarrow> (\<forall>f\<in>set fs. length (cobs_decode f) \<le> cap)"
    using Cons.IH Cons.prems dec_run_delimited [OF f, of n] start by (metis fst_conv list.set_intros(2))
  ultimately show ?case
    using dec_fits_append_iff [of cap "f @ [0]" "concat (map (\<lambda>f. f @ [0]) fs)"] by simp
qed

lemma dec_fits_encode:
  assumes "length m \<le> cap"
  shows "dec_fits cap (cobs_encode m) dec_start"
proof -
  obtain body where b: "cobs_encode m = body @ [0]" "0 \<notin> set body" using cobs_encode_delimited [of m] by blast
  then have "cobs_decode body = m" using cobs_decode_encode [of m] by simp
  then show ?thesis
    using dec_fits_frames [of "[body]" cap 0] b assms by (simp add: dec_start_def)
qed

lemma dec_run_line:
  fixes xs :: "byte list" and n :: nat
  defines "frames \<equiv> fst (cobs_frames xs)" and "rest \<equiv> snd (cobs_frames xs)"
    and "r \<equiv> dec_run xs (dec_start\<lparr>dec_size := n\<rparr>)"
  shows "snd r = fst (cobs_messages frames n)"
    and "dec_payload (fst r) = cobs_decode rest"
    and "dec_size (fst r) = snd (cobs_messages frames n) + length rest"
    and "rest = [] \<Longrightarrow> dec_next (fst r) = 1 \<and> dec_pseudo (fst r)"
    and "dec_fits cap xs (dec_start\<lparr>dec_size := n\<rparr>) \<longleftrightarrow> (\<forall>f\<in>set (rest # frames). length (cobs_decode f) \<le> cap)"
proof -
  have s: "xs = concat (map (\<lambda>f. f @ [0]) frames) @ rest" "\<forall>f\<in>set frames. 0 \<notin> set f" "0 \<notin> set rest"
    using cobs_frames_split [of xs] by (simp_all add: frames_def rest_def)
  note run = dec_run_append [of "concat (map (\<lambda>f. f @ [0]) frames)" rest "dec_start\<lparr>dec_size := n\<rparr>",
      folded s(1), unfolded dec_run_frames [OF s(2)], folded r_def]
  note unfinished = dec_run_rest [OF s(3), of "snd (cobs_messages frames n)"]
  show "snd r = fst (cobs_messages frames n)" "dec_payload (fst r) = cobs_decode rest"
    "dec_size (fst r) = snd (cobs_messages frames n) + length rest"
    using run unfinished by simp_all
  show "rest = [] \<Longrightarrow> dec_next (fst r) = 1 \<and> dec_pseudo (fst r)"
    using run by (simp add: dec_start_def)
  show "dec_fits cap xs (dec_start\<lparr>dec_size := n\<rparr>) \<longleftrightarrow> (\<forall>f\<in>set (rest # frames). length (cobs_decode f) \<le> cap)"
    using dec_fits_frames [OF s(2), of cap n] dec_fits_rest [OF s(3), of cap "snd (cobs_messages frames n)"]
    by (subst s(1)) (auto simp: dec_fits_append_iff dec_run_frames [OF s(2)])
qed

text \<open>
  C36. Whatever bytes the serial line delivers, in whatever ranges, and whether or not the observer
  resets the object while it handles a message: starting between two frames, SesameCobs passes on,
  in order and once each, the messages that the delimited frames of the byte sequence decode to,
  each with the number of bytes since the last one. Frames that are cut off by an early delimiter,
  empty frames and frames that are the code of no message are included. What is left in the buffer
  is what the unfinished frame decodes to so far. Only where a frame decodes to more than the
  receive buffer holds does the call fail, with the assertion of the buffer.
\<close>

theorem cobs_messages_arrive:
  assumes "cobs_inv c" and "cobs_nextOverhead c = 1" and "cobs_overheadPositionIsPseudo c"
    and "bd_list (cobs_receivedMessage c) = []"
  shows "case cobs_frames (concat ranges) of (frames, rest) \<Rightarrow>
    case cobs_messages frames (cobs_receiveSizeEncoded c) of (messages, uncounted) \<Rightarrow>
      if \<exists>f\<in>set (rest # frames). cobs_capacity c < length (cobs_decode f)
      then cobs_DataReceived resets ranges c = Inl AssertFailed
      else \<exists>c'. cobs_DataReceived resets ranges c = Inr c' \<and> cobs_inv c'
        \<and> cobs_events c' = cobs_events c @ map (\<lambda>(m, n). ReceivedMessage m n) messages
        \<and> bd_list (cobs_receivedMessage c') = cobs_decode rest
        \<and> cobs_receiveSizeEncoded c' = uncounted + length rest
        \<and> (rest = [] \<longrightarrow> cobs_nextOverhead c' = 1 \<and> cobs_overheadPositionIsPseudo c')"
proof -
  have start: "cobs_decoder c = dec_start\<lparr>dec_size := cobs_receiveSizeEncoded c\<rparr>"
    using assms by (simp add: cobs_decoder_def dec_start_def)
  note line = dec_run_line [where xs = "concat ranges" and n = "cobs_receiveSizeEncoded c", folded start]
  obtain frames rest where fr: "cobs_frames (concat ranges) = (frames, rest)" by fastforce
  obtain messages uncounted where ms: "cobs_messages frames (cobs_receiveSizeEncoded c) = (messages, uncounted)"
    by fastforce
  note line = line [unfolded fr fst_conv snd_conv ms]
  have sel: "cobs_nextOverhead e = dec_next (cobs_decoder e)"
    "cobs_overheadPositionIsPseudo e = dec_pseudo (cobs_decoder e)"
    "bd_list (cobs_receivedMessage e) = dec_payload (cobs_decoder e)"
    "cobs_receiveSizeEncoded e = dec_size (cobs_decoder e)" for e
    by (simp_all add: cobs_decoder_def)
  have fits: "(\<exists>f\<in>set (rest # frames). cobs_capacity c < length (cobs_decode f))
      \<longleftrightarrow> \<not> dec_fits (cobs_capacity c) (concat ranges) (cobs_decoder c)"
    unfolding line(5) by (auto simp: not_le)
  show ?thesis
    unfolding fr ms prod.case fits
  proof (cases "dec_fits (cobs_capacity c) (concat ranges) (cobs_decoder c)")
    case True
    with cobs_DataReceived_consumes [OF assms(1), of ranges resets] obtain c' where
      c': "cobs_DataReceived resets ranges c = Inr c'" "cobs_reads (dec_run (concat ranges) (cobs_decoder c)) c c'"
      by (auto simp: cobs_consumes_def)
    then have "cobs_inv c'" "cobs_decoder c' = fst (dec_run (concat ranges) (cobs_decoder c))"
      "cobs_events c' = cobs_events c @ received messages"
      using line(1) by (simp_all add: cobs_reads_def)
    with True c'(1) line(2-4) sel [of c'] show "if \<not> dec_fits (cobs_capacity c) (concat ranges) (cobs_decoder c)
        then cobs_DataReceived resets ranges c = Inl AssertFailed
        else \<exists>c'. cobs_DataReceived resets ranges c = Inr c' \<and> cobs_inv c'
          \<and> cobs_events c' = cobs_events c @ map (\<lambda>(m, n). ReceivedMessage m n) messages
          \<and> bd_list (cobs_receivedMessage c') = cobs_decode rest
          \<and> cobs_receiveSizeEncoded c' = uncounted + length rest
          \<and> (rest = [] \<longrightarrow> cobs_nextOverhead c' = 1 \<and> cobs_overheadPositionIsPseudo c')"
      unfolding received_def by auto
  qed (use cobs_DataReceived_consumes [OF assms(1), of ranges resets] in \<open>simp add: cobs_consumes_def\<close>)
qed

lemma cobs_make_inv:
  "(\<forall>x\<in>set s. x = None) \<Longrightarrow> (\<forall>x\<in>set q. x = None) \<Longrightarrow>
    cobs_inv (cobs_make s q) \<and> cobs_decoder (cobs_make s q) = dec_start \<and> cobs_capacity (cobs_make s q) = length q"
  by (simp add: cobs_make_def cobs_inv_def cobs_decoder_def dec_start_def bd_make_def bv_make_def bd_inv_def bd_wf_def
      bd_max_size_def bv_inv_def alive_def bd_vector_def bd_list_def bv_list_def bd_size_def)

theorem cobs_messages_arrive_witness:
  "\<exists>c'. cobs_DataReceived (\<lambda>m. True) [[0, 5, 7], [0, 3, 7, 9, 1, 0, 2], [5]] (cobs_make [None] [None, None, None]) = Inr c'
     \<and> cobs_events c' = [ReceivedMessage [7] 4, ReceivedMessage [7, 9, 0] 5]
     \<and> bd_list (cobs_receivedMessage c') = [5] \<and> cobs_receiveSizeEncoded c' = 2"
proof -
  let ?c = "cobs_make [None] [None, None, None]"
  have c: "cobs_inv ?c" "cobs_decoder ?c = dec_start" "cobs_capacity ?c = 3"
    using cobs_make_inv [of "[None]" "[None, None, None]"] by simp_all
  have d: "cobs_nextOverhead ?c = 1" "cobs_overheadPositionIsPseudo ?c" "bd_list (cobs_receivedMessage ?c) = []"
    "cobs_receiveSizeEncoded ?c = 0" "cobs_events ?c = []"
    using c(2) by (simp_all add: cobs_decoder_def dec_start_def) (simp add: cobs_make_def)
  have fr: "cobs_frames (concat [[0, 5, 7], [0, 3, 7, 9, 1, 0, 2], [5]]) = ([[], [5, 7], [3, 7, 9, 1]], [2, 5])"
    by simp
  have ms: "cobs_messages [[], [5, 7], [3, 7, 9, 1]] 0 = ([([7], 4), ([7, 9, 0], 5)], 0)" by simp
  have fits: "\<not> (\<exists>f\<in>set [[2, 5], [], [5, 7], [3, 7, 9, 1]]. 3 < length (cobs_decode f))" "cobs_decode [2, 5] = [5]"
    by simp_all
  show ?thesis
    using cobs_messages_arrive [OF c(1) d(1-3), where ranges = "[[0, 5, 7], [0, 3, 7, 9, 1, 0, 2], [5]]" and resets = "\<lambda>m. True"]
    unfolding c(3) d(4,5) fr prod.case ms if_not_P [OF fits(1)] fits(2) 
    by (elim exE conjE) (intro exI conjI, assumption, simp, assumption, simp)
qed

end
