(* ===== verification/Sesame_Cobs_Send.thy ===== *)
theory Sesame_Cobs_Send
  imports Sesame_Cobs
begin

text \<open>
  The sending side of \<^verbatim>\<open>SesameCobs\<close> against the reference code: the in-place encoder fills the chunks with
  the encoding of the message (\<open>cobs_FillLoop_correct\<close>), and the transmissions that follow one another
  send it completely. The contract that a \<^verbatim>\<open>SesameEncoded\<close> keeps towards its client is stated as a locale
  and interpreted on the sizes of \<^verbatim>\<open>SesameCobs\<close>; a message sent by one object arrives at another.
\<close>

section \<open>The sending side refines the encoder\<close>

lemma std_find_takeWhile:
  assumes "i \<le> e" and "e \<le> length mem"
  shows "std_find mem i e x = i + length (takeWhile (\<lambda>y. y \<noteq> x) (take (e - i) (drop i mem)))"
  using assms
proof (induction mem i e x rule: std_find.induct)
  case (1 mem i e x)
  show ?case
  proof (cases "i < e")
    case True
    then have "take (e - i) (drop i mem) = mem ! i # take (e - Suc i) (drop (Suc i) mem)"
      using "1.prems" by (metis Cons_nth_drop_Suc Suc_diff_Suc order_less_le_trans take_Suc_Cons)
    with True 1 show ?thesis by (subst std_find.simps) simp
  next
    case False
    with "1.prems" show ?thesis by (subst std_find.simps) simp
  qed
qed

lemma std_find_empty: "std_find mem i i x = i"
  by (subst std_find.simps) simp

text \<open>
  The send buffer while chunks are filled: what is before the last slot of the chunk, that slot (it
  takes the next overhead byte), the rest of the message, and the slots behind it.
\<close>

definition filling :: "sesame_cobs \<Rightarrow> nat \<Rightarrow> byte slots \<Rightarrow> byte option \<Rightarrow> byte list \<Rightarrow> byte slots \<Rightarrow> bool" where
  "filling c b A s r T \<longleftrightarrow> bv_storage (cobs_sendStorage c) = A @ s # map Some r @ T \<and> T \<noteq> [] \<and> b \<le> length A
     \<and> cobs_chunkToSend c = mr_make b (length A + 1)
     \<and> (if r = [] then mr_empty (cobs_dataToSend c)
        else cobs_dataToSend c = mr_make (length A + 1) (length A + 1 + length r))"

definition cobs_put :: "sesame_cobs \<Rightarrow> byte slots \<Rightarrow> mrange \<Rightarrow> mrange \<Rightarrow> byte \<Rightarrow> sesame_cobs" where
  "cobs_put c S chunk data fs = c\<lparr>cobs_sendStorage := cobs_sendStorage c\<lparr>bv_storage := S\<rparr>,
     cobs_chunkToSend := chunk, cobs_dataToSend := data, cobs_frameSize := fs\<rparr>"

lemma cobs_put_simps [simp]:
  "bv_storage (cobs_sendStorage (cobs_put c S ch d fs)) = S"
  "bv_numAllocated (cobs_sendStorage (cobs_put c S ch d fs)) = bv_numAllocated (cobs_sendStorage c)"
  "cobs_chunkToSend (cobs_put c S ch d fs) = ch"
  "cobs_dataToSend (cobs_put c S ch d fs) = d"
  "cobs_frameSize (cobs_put c S ch d fs) = fs"
  "cobs_put (cobs_put c S ch d fs) S' ch' d' fs' = cobs_put c S' ch' d' fs'"
  by (simp_all add: cobs_put_def)

lemma cobs_FindDelimiter_filling:
  assumes "filling c b A s r T"
  shows "cobs_FindDelimiter c = of_nat (length (frame r))"
proof (cases "r = []")
  case True
  with assms show ?thesis
    by (simp add: cobs_FindDelimiter_def filling_def Head_def mr_defs std_find_empty Let_def frame_def)
next
  case False
  let ?p = "length A + 1" and ?s = "bv_storage (cobs_sendStorage c)"
  have st: "?s = A @ s # map Some r @ T" and d: "cobs_dataToSend c = mr_make ?p (?p + length r)"
    using assms False by (simp_all add: filling_def)
  have head: "Head (cobs_dataToSend c) 254 = mr_make ?p (?p + min 254 (length r))"
    unfolding d by (auto simp: Head_def mr_defs)
  have sl: "take (min 254 (length r)) (drop ?p ?s) = map Some (take 254 r)"
    unfolding st by (simp add: take_map min_def)
  have "std_find ?s ?p (?p + min 254 (length r)) (Some 0)
      = ?p + length (takeWhile (\<lambda>y. y \<noteq> Some 0) (take (?p + min 254 (length r) - ?p) (drop ?p ?s)))"
    by (rule std_find_takeWhile) (auto simp: st)
  also have "\<dots> = ?p + length (frame r)"
    unfolding add_diff_cancel_left' sl by (simp add: takeWhile_map comp_def frame_def)
  finally show ?thesis unfolding cobs_FindDelimiter_def Let_def head by (simp add: mr_make_def)
qed

lemma frameSize_less: "k \<le> 254 \<Longrightarrow> (of_nat k :: byte) < 254 \<longleftrightarrow> k < 254" "k \<le> 254 \<Longrightarrow> unat (of_nat k :: byte) = k"
  by (simp_all add: word_less_nat_alt unat_of_nat)

lemma frameSize_eq: "k \<le> 254 \<Longrightarrow> (of_nat k :: byte) = 254 \<longleftrightarrow> k = 254"
  using of_nat_byte_inject [of k 254] by simp

text \<open>One turn of the loop, by the shape of the rest of the message.\<close>

lemma cobs_set_back_put:
  assumes "bv_storage (cobs_sendStorage c) = X @ y # Y" and "endElement (cobs_chunkToSend c) = length X + 1"
  shows "cobs_set_back z c = Inr (cobs_put c (X @ Some z # Y) (cobs_chunkToSend c) (cobs_dataToSend c) (cobs_frameSize c))"
  using assms by (simp add: cobs_set_back_def Let_def cobs_put_def)

lemma cobs_put_self:
  "c\<lparr>cobs_frameSize := fs\<rparr> = cobs_put c (bv_storage (cobs_sendStorage c)) (cobs_chunkToSend c) (cobs_dataToSend c) fs"
  "c\<lparr>cobs_chunkToSend := ch\<rparr> = cobs_put c (bv_storage (cobs_sendStorage c)) ch (cobs_dataToSend c) (cobs_frameSize c)"
  "c\<lparr>cobs_dataToSend := d\<rparr> = cobs_put c (bv_storage (cobs_sendStorage c)) (cobs_chunkToSend c) d (cobs_frameSize c)"
  by (simp_all add: cobs_put_def)

lemma cobs_FillChunk_full:
  assumes f: "filling c b A s r T" and k: "length (frame r) = 254"
  shows "\<exists>d. cobs_FillChunk c = Inr (False, cobs_put c (A @ Some 255 # map Some r @ T) (mr_make b (length A + 255)) d 254)
    \<and> (if drop 254 r = [] then mr_empty d else d = mr_make (length A + 255) (length A + 1 + length r))"
proof -
  have fd: "cobs_FindDelimiter c = 254" using cobs_FindDelimiter_filling [OF f] k by simp
  have ne: "r \<noteq> []" "254 \<le> length r" using k frame_le [of r] by auto
  have st: "bv_storage (cobs_sendStorage c) = A @ s # map Some r @ T"
    and ch: "cobs_chunkToSend c = mr_make b (length A + 1)"
    and d: "cobs_dataToSend c = mr_make (length A + 1) (length A + 1 + length r)"
    using f ne by (simp_all add: filling_def)
  have sb: "cobs_set_back 255 (cobs_put c (A @ s # map Some r @ T) (mr_make b (length A + 1)) (cobs_dataToSend c) 254)
      = Inr (cobs_put c (A @ Some 255 # map Some r @ T) (mr_make b (length A + 1)) (cobs_dataToSend c) 254)"
    by (subst cobs_set_back_put) (auto simp: mr_make_def)
  have u: "unat (254 :: byte) = 254" "\<not> (254 :: byte) < 254" "(254 :: byte) + 1 = 255" by simp_all
  have cc: "cobs_CreateChunkWithTermination (cobs_put c S (mr_make b (length A + 1)) (cobs_dataToSend c) 254)
      = mr_make b (length A + 255)" for S
    using ne by (simp add: cobs_CreateChunkWithTermination_def d mr_make_def mr_empty_def)
  show ?thesis
  proof (intro exI conjI)
    show "cobs_FillChunk c = Inr (False, cobs_put c (A @ Some 255 # map Some r @ T) (mr_make b (length A + 255))
        (DiscardHead (cobs_dataToSend c) 254) 254)"
      unfolding cobs_FillChunk_def cobs_put_self fd st ch Let_def cobs_put_simps u(1,3) sb bindR_simps cc
        if_not_P [OF u(2)] by simp
    show "if drop 254 r = [] then mr_empty (DiscardHead (cobs_dataToSend c) 254)
        else DiscardHead (cobs_dataToSend c) 254 = mr_make (length A + 255) (length A + 1 + length r)"
      by (simp add: d DiscardHead_def mr_size_def mr_make_def mr_empty_def mr_null_def)
  qed
qed

lemma cobs_FillChunk_final:
  assumes f: "filling c b A s r T" and k: "length (frame r) < 254" "r = frame r"
  shows "\<exists>d. cobs_FillChunk c = Inr (False, cobs_put c (A @ Some (overhead r) # map Some r @ Some 0 # tl T)
      (mr_make b (length A + length r + 2)) d (of_nat (length r))) \<and> mr_empty d"
proof -
  have len: "length r < 254" using k by metis
  define fs :: byte where "fs = of_nat (length r)"
  have fd: "cobs_FindDelimiter c = fs" using cobs_FindDelimiter_filling [OF f] k(2) by (simp add: fs_def)
  have fs: "fs < 254" "unat fs = length r" "fs \<noteq> 254" "fs + 1 = overhead r"
    using frameSize_less [of "length r"] frameSize_eq [of "length r"] len by (simp_all add: fs_def overhead_def)
  obtain t T' where T: "T = t # T'" using f by (cases T) (auto simp: filling_def)
  have st: "bv_storage (cobs_sendStorage c) = A @ s # map Some r @ t # T'"
    and ch: "cobs_chunkToSend c = mr_make b (length A + 1)"
    using f T by (simp_all add: filling_def)
  have sb: "cobs_set_back (fs + 1) (cobs_put c (A @ s # map Some r @ t # T') (mr_make b (length A + 1)) (cobs_dataToSend c) fs)
      = Inr (cobs_put c (A @ Some (overhead r) # map Some r @ t # T') (mr_make b (length A + 1)) (cobs_dataToSend c) fs)"
    by (subst cobs_set_back_put) (auto simp: mr_make_def fs)
  have cc: "cobs_CreateChunkWithTermination (cobs_put c S (mr_make b (length A + 1)) (cobs_dataToSend c) fs)
      = mr_make b (length A + length r + 2)" for S
    using f fs by (auto simp: cobs_CreateChunkWithTermination_def filling_def mr_make_def mr_empty_def split: if_splits)
  have sb0: "cobs_set_back 0 (cobs_put c (A @ Some (overhead r) # map Some r @ t # T') (mr_make b (length A + length r + 2)) (cobs_dataToSend c) fs)
      = Inr (cobs_put c (A @ Some (overhead r) # map Some r @ Some 0 # T') (mr_make b (length A + length r + 2)) (cobs_dataToSend c) fs)"
    by (subst cobs_set_back_put [of _ "A @ Some (overhead r) # map Some r"]) (auto simp: mr_make_def)
  have dh: "DiscardHead (cobs_dataToSend c) (length r) = mr_null"
    using f by (auto simp: DiscardHead_def filling_def mr_size_def mr_empty_def mr_make_def split: if_splits)
  show ?thesis
    unfolding cobs_FillChunk_def cobs_put_self fd st ch Let_def cobs_put_simps sb bindR_simps cc if_P [OF fs(1)] sb0
      fs(2) dh T
    by (auto simp: mr_empty_def mr_null_def fs_def)
qed

lemma cobs_FillChunk_zero:
  assumes f: "filling c b A s r T" and k: "length (frame r) < 254" "r = frame r @ 0 # r'"
  defines "A' \<equiv> A @ Some (overhead (frame r)) # map Some (frame r)"
  shows "\<exists>c'. cobs_FillChunk c = Inr (True, c') \<and> filling c' b A' (Some 0) r' T
    \<and> (\<exists>S ch d fs. c' = cobs_put c S ch d fs)"
proof -
  define g where "g = frame r"
  define fs :: byte where "fs = of_nat (length g)"
  have len: "length g < 254" using k by (simp add: g_def)
  have fd: "cobs_FindDelimiter c = fs" using cobs_FindDelimiter_filling [OF f] by (simp add: fs_def g_def)
  have fs: "fs < 254" "unat fs = length g" "fs \<noteq> 254" "fs + 1 = overhead g"
    using frameSize_less [of "length g"] frameSize_eq [of "length g"] len by (simp_all add: fs_def overhead_def)
  have r: "r = g @ 0 # r'" using k(2) by (simp add: g_def)
  have st: "bv_storage (cobs_sendStorage c) = A @ s # map Some g @ Some 0 # map Some r' @ T"
    and ch: "cobs_chunkToSend c = mr_make b (length A + 1)"
    and d: "cobs_dataToSend c = mr_make (length A + 1) (length A + 1 + (length g + 1 + length r'))" and T: "T \<noteq> []" "b \<le> length A"
    using f by (simp_all add: filling_def r)
  have sb: "cobs_set_back (fs + 1) (cobs_put c (A @ s # map Some g @ Some 0 # map Some r' @ T) (mr_make b (length A + 1)) D fs)
      = Inr (cobs_put c (A' @ Some 0 # map Some r' @ T) (mr_make b (length A + 1)) D fs)" for D
    by (subst cobs_set_back_put) (auto simp: mr_make_def fs A'_def g_def [symmetric])
  have cc: "cobs_CreateChunkWithTermination (cobs_put c S (mr_make b (length A + 1)) (cobs_dataToSend c) fs)
      = mr_make b (length A' + 1)" for S
    using fs by (simp add: cobs_CreateChunkWithTermination_def d mr_make_def mr_empty_def A'_def g_def [symmetric])
  have sb0: "cobs_set_back 0 (cobs_put c (A' @ Some 0 # map Some r' @ T) (mr_make b (length A' + 1)) D fs)
      = Inr (cobs_put c (A' @ Some 0 # map Some r' @ T) (mr_make b (length A' + 1)) D fs)" for D
    by (subst cobs_set_back_put) (auto simp: mr_make_def)
  let ?d = "mr_make (length A') (length A' + 1 + length r')"
  have dh: "DiscardHead (cobs_dataToSend c) (length g) = ?d" and ne: "\<not> mr_empty ?d"
    by (auto simp: DiscardHead_def d mr_size_def mr_make_def A'_def g_def [symmetric] mr_empty_def)
  have nth: "(A' @ Some 0 # map Some r' @ T) ! beginElement ?d = Some 0" by (simp add: mr_make_def)
  have pop: "mr_pop_front ?d 1 = Inr (mr_make (length A' + 1) (length A' + 1 + length r'))"
    by (simp add: mr_pop_front_def mr_make_def mr_size_def)
  let ?c = "cobs_put c (A' @ Some 0 # map Some r' @ T) (mr_make b (length A' + 1)) (mr_make (length A' + 1) (length A' + 1 + length r')) fs"
  have eq: "cobs_FillChunk c = Inr (True, ?c)"
    unfolding cobs_FillChunk_def cobs_put_self fd st ch Let_def cobs_put_simps sb bindR_simps cc if_P [OF fs(1)] sb0
      fs(2) dh using ne fs(3) nth pop by simp
  have "filling ?c b A' (Some 0) r' T"
    using T by (auto simp: filling_def mr_empty_def mr_make_def A'_def)
  with eq show ?thesis by (intro exI [of _ ?c]) blast
qed

text \<open>The loop of \<^verbatim>\<open>SendChunk\<close> writes the next piece of the encoding in front of the rest of the message.\<close>

lemma cobs_FillLoop_correct:
  assumes "filling c b A s r T"
  shows "\<exists>S ch d fs. cobs_FillLoop c = Inr (cobs_put c S ch d fs) \<and>
    (case cobs_fill r of
       (bs, None) \<Rightarrow> S = A @ map Some bs @ tl T \<and> ch = mr_make b (length A + length bs) \<and> mr_empty d \<and> fs < 254
     | (bs, Some r') \<Rightarrow> S = A @ map Some bs @ map Some r' @ T \<and> ch = mr_make b (length A + length bs) \<and> fs = 254
         \<and> (if r' = [] then mr_empty d else d = mr_make (length A + length bs) (length A + length bs + length r')))"
  using assms
proof (induction r arbitrary: c A s rule: length_induct)
  case (1 r)
  show ?case
  proof (cases r rule: cobs_cases)
    case full
    obtain d where d: "cobs_FillChunk c = Inr (False, cobs_put c (A @ Some 255 # map Some r @ T) (mr_make b (length A + 255)) d 254)"
        "if drop 254 r = [] then mr_empty d else d = mr_make (length A + 255) (length A + 1 + length r)"
      using cobs_FillChunk_full [OF 1(2) full(1)] by blast
    have mr: "map Some r = map Some (frame r) @ map Some (drop 254 r)"
      using arg_cong [OF full(2), of "map Some"] by simp
    have "length A + 1 + length r = length A + 255 + length (drop 254 r)"
      using frame_le(1) [of r] full(1) by simp
    then have d2: "if drop 254 r = [] then mr_empty d
        else d = mr_make (length A + 255) (length A + 255 + length (drop 254 r))"
      using d(2) by argo
    have "cobs_FillLoop c = Inr (cobs_put c (A @ Some 255 # (map Some (frame r) @ map Some (drop 254 r)) @ T)
        (mr_make b (length A + 255)) d 254)"
      using d(1) unfolding mr by (subst cobs_FillLoop.simps) simp
    with d2 cobs_fill_full [OF full(1)] full(1) show ?thesis
      by (intro exI [of _ "A @ Some 255 # (map Some (frame r) @ map Some (drop 254 r)) @ T"]
          exI [of _ "mr_make b (length A + 255)"] exI [of _ d] exI [of _ 254]) simp
  next
    case final
    obtain d where d: "cobs_FillChunk c = Inr (False, cobs_put c (A @ Some (overhead r) # map Some r @ Some 0 # tl T)
        (mr_make b (length A + length r + 2)) d (of_nat (length r)))" "mr_empty d"
      using cobs_FillChunk_final [OF 1(2) final] by blast
    have "(of_nat (length r) :: byte) < 254"
      using frameSize_less(1) [of "length r"] final by (metis less_imp_le_nat)
    with d cobs_fill_end [OF final] show ?thesis
      by (subst cobs_FillLoop.simps) (auto intro!: exI)
  next
    case zero
    define r' where "r' = drop (Suc (length (frame r))) r"
    define A' where "A' = A @ Some (overhead (frame r)) # map Some (frame r)"
    have rr: "r = frame r @ 0 # r'" using zero(3) by (simp add: r'_def)
    obtain c' S1 ch1 d1 fs1 where c': "cobs_FillChunk c = Inr (True, c')" "filling c' b A' (Some 0) r' T"
        "c' = cobs_put c S1 ch1 d1 fs1"
      using cobs_FillChunk_zero [OF 1(2) zero(1) rr] by (auto simp: A'_def)
    have "length r' < length r" using zero(2) by (simp add: r'_def)
    from "1.IH" [rule_format, OF this c'(2)] obtain S ch d fs where ih: "cobs_FillLoop c' = Inr (cobs_put c' S ch d fs)"
        "case cobs_fill r' of
       (bs, None) \<Rightarrow> S = A' @ map Some bs @ tl T \<and> ch = mr_make b (length A' + length bs) \<and> mr_empty d \<and> fs < 254
     | (bs, Some r') \<Rightarrow> S = A' @ map Some bs @ map Some r' @ T \<and> ch = mr_make b (length A' + length bs) \<and> fs = 254
         \<and> (if r' = [] then mr_empty d else d = mr_make (length A' + length bs) (length A' + length bs + length r'))"
      by (elim exE conjE) (rule that)
    have "cobs_fill r = (overhead (frame r) # frame r @ fst (cobs_fill r'), snd (cobs_fill r'))"
      using cobs_fill_zero [OF zero(1,2)] by (simp add: r'_def)
    then have post: "case cobs_fill r of
       (bs, None) \<Rightarrow> S = A @ map Some bs @ tl T \<and> ch = mr_make b (length A + length bs) \<and> mr_empty d \<and> fs < 254
     | (bs, Some r') \<Rightarrow> S = A @ map Some bs @ map Some r' @ T \<and> ch = mr_make b (length A + length bs) \<and> fs = 254
         \<and> (if r' = [] then mr_empty d else d = mr_make (length A + length bs) (length A + length bs + length r'))"
      using ih(2) by (auto simp: A'_def add.assoc split: prod.splits option.splits if_splits)
    have "cobs_FillLoop c = Inr (cobs_put c S ch d fs)"
      using c' ih(1) by (subst cobs_FillLoop.simps) simp
    with post show ?thesis by (intro exI conjI)
  qed
qed

subsection \<open>A whole message\<close>

text \<open>The serial line completes \<open>n\<close> transmissions; what it was given to send.\<close>

primrec cobs_serial_turns :: "nat \<Rightarrow> sesame_cobs \<Rightarrow> sesame_cobs result" where
  "cobs_serial_turns 0 c = Inr c"
| "cobs_serial_turns (Suc n) c = bindR (cobs_SendDataDone c) (cobs_serial_turns n)"

definition serial_data :: "byte list list \<Rightarrow> cobs_event list" where
  "serial_data pieces = map SerialSendData pieces"

text \<open>
  Between two chunks: the chunk is the slot of the next overhead byte, and all slots of the message
  hold bytes.
\<close>

definition chunk_ready :: "sesame_cobs \<Rightarrow> byte list \<Rightarrow> bool" where
  "chunk_ready c r \<longleftrightarrow> (\<exists>A s T. filling c (length A) A s r T \<and> None \<notin> set A \<and> s \<noteq> None
     \<and> bv_numAllocated (cobs_sendStorage c) = length A + 1 + length r)"

lemma chunk_ready_cong:
  "chunk_ready c r \<Longrightarrow> cobs_sendStorage c' = cobs_sendStorage c \<Longrightarrow> cobs_chunkToSend c' = cobs_chunkToSend c
    \<Longrightarrow> cobs_dataToSend c' = cobs_dataToSend c \<Longrightarrow> chunk_ready c' r"
  by (simp only: chunk_ready_def filling_def)

lemma chunk_readyI:
  "filling c (length A) A s r T \<Longrightarrow> None \<notin> set A \<Longrightarrow> s \<noteq> None
    \<Longrightarrow> bv_numAllocated (cobs_sendStorage c) = length A + 1 + length r \<Longrightarrow> chunk_ready c r"
  unfolding chunk_ready_def by blast

text \<open>Everything that neither the send buffer nor the events are, before and after.\<close>

definition same_but_sending :: "sesame_cobs \<Rightarrow> sesame_cobs \<Rightarrow> bool" where
  "same_but_sending c c' \<longleftrightarrow> cobs_sendReqestedSize c' = cobs_sendReqestedSize c
     \<and> cobs_sendingFirstPacket c' = cobs_sendingFirstPacket c \<and> cobs_resetting c' = cobs_resetting c
     \<and> cobs_onStopDone c' = cobs_onStopDone c \<and> cobs_sendStreamAllocated c' = cobs_sendStreamAllocated c
     \<and> cobs_onAllocatable c' = cobs_onAllocatable c \<and> cobs_decoder c' = cobs_decoder c
     \<and> cobs_receivedMessage c' = cobs_receivedMessage c \<and> cobs_currentMessageSize c' = cobs_currentMessageSize c
     \<and> bv_numAllocated (cobs_sendStorage c') = bv_numAllocated (cobs_sendStorage c)
     \<and> bv_max_size (cobs_sendStorage c') = bv_max_size (cobs_sendStorage c)"

lemma same_but_sending_trans:
  "same_but_sending c1 c2 \<Longrightarrow> same_but_sending c2 c3 \<Longrightarrow> same_but_sending c1 c3"
  by (simp add: same_but_sending_def)

lemma cobs_fill_length:
  "case cobs_fill r of (bs, None) \<Rightarrow> length bs = length r + 2
   | (bs, Some r') \<Rightarrow> length bs + length r' = length r + 1 \<and> length r' < length r \<and> bs \<noteq> []"
proof (induction r rule: length_induct)
  case (1 r)
  show ?case
  proof (cases r rule: cobs_cases)
    case full
    then show ?thesis using frame_le(1) [of r] by (simp add: cobs_fill_full)
  next
    case final
    from cobs_fill_end [OF this] show ?thesis by simp
  next
    case zero
    let ?r = "drop (Suc (length (frame r))) r"
    have "length ?r < length r" using zero(2) by simp
    from 1 [rule_format, OF this] zero(2) show ?thesis
      by (subst cobs_fill_zero [OF zero(1,2)]) (auto split: prod.splits option.splits)
  qed
qed

lemma cobs_SendChunk_correct:
  assumes ready: "chunk_ready c r"
  shows "\<exists>c'. cobs_SendChunk c = Inr c' \<and> same_but_sending c c' \<and> cobs_onSendDataDone c' = Some TailThenSendOrDone
    \<and> cobs_events c' = cobs_events c @ serial_data [fst (cobs_fill r)]
    \<and> cobs_sendSizeEncoded c' = cobs_sendSizeEncoded c + length (fst (cobs_fill r))
    \<and> (case snd (cobs_fill r) of
         None \<Rightarrow> mr_empty (cobs_dataToSend c') \<and> cobs_frameSize c' < 254 \<and> bv_inv (cobs_sendStorage c')
       | Some r' \<Rightarrow> cobs_frameSize c' = 254 \<and> length r' < length r
           \<and> chunk_ready (c'\<lparr>cobs_onSendDataDone := None, cobs_chunkToSend := Tail (cobs_chunkToSend c') 1\<rparr>) r')"
proof -
  obtain A s T where f: "filling c (length A) A s r T" and all: "None \<notin> set A" "s \<noteq> None"
      and num: "bv_numAllocated (cobs_sendStorage c) = length A + 1 + length r"
    using ready by (auto simp: chunk_ready_def)
  have len: "length (bv_storage (cobs_sendStorage c)) = length A + 1 + length r + length T" and T: "T \<noteq> []"
    using f by (simp_all add: filling_def)
  obtain bs rest where fill: "cobs_fill r = (bs, rest)" by (cases "cobs_fill r")
  obtain S ch d fs where L: "cobs_FillLoop c = Inr (cobs_put c S ch d fs)" and post: "case cobs_fill r of
       (bs, None) \<Rightarrow> S = A @ map Some bs @ tl T \<and> ch = mr_make (length A) (length A + length bs) \<and> mr_empty d \<and> fs < 254
     | (bs, Some r') \<Rightarrow> S = A @ map Some bs @ map Some r' @ T \<and> ch = mr_make (length A) (length A + length bs) \<and> fs = 254
         \<and> (if r' = [] then mr_empty d else d = mr_make (length A + length bs) (length A + length bs + length r'))"
    using cobs_FillLoop_correct [OF f] by (elim exE conjE) (rule that)
  have ch: "ch = mr_make (length A) (length A + length bs)" and S: "\<exists>U. S = A @ map Some bs @ U"
    using post by (auto simp: fill split: option.splits)
  obtain U where U: "S = A @ map Some bs @ U" using S by blast
  define c' where "c' = cobs_SendSerialData bs TailThenSendOrDone
    (cobs_put c S ch d fs\<lparr>cobs_sendSizeEncoded := cobs_sendSizeEncoded c + length bs\<rparr>)"
  have bytes: "map the (mr_slice S ch) = bs"
    by (simp add: mr_slice_def ch U mr_size_def mr_make_def comp_def)
  have szch: "mr_size ch = length bs" by (simp add: ch mr_size_def mr_make_def)
  have r: "cobs_SendChunk c = Inr c'"
    unfolding cobs_SendChunk_def L bindR_simps Let_def c'_def
    by (simp add: cobs_bytes_def bytes szch cobs_put_def)
  have fields: "same_but_sending c c'" "cobs_onSendDataDone c' = Some TailThenSendOrDone"
      "cobs_events c' = cobs_events c @ serial_data [bs]" "cobs_sendSizeEncoded c' = cobs_sendSizeEncoded c + length bs"
      "bv_storage (cobs_sendStorage c') = S" "bv_numAllocated (cobs_sendStorage c') = length A + 1 + length r"
      "cobs_chunkToSend c' = ch" "cobs_dataToSend c' = d" "cobs_frameSize c' = fs"
    using post len cobs_fill_length [of r] num T
    by (auto simp: c'_def same_but_sending_def cobs_SendSerialData_def cobs_emit_def cobs_put_def serial_data_def
        cobs_decoder_def bv_max_size_def fill split: option.splits)
  have "case rest of None \<Rightarrow> mr_empty d \<and> fs < 254 \<and> bv_inv (cobs_sendStorage c')
       | Some r' \<Rightarrow> fs = 254 \<and> length r' < length r
           \<and> chunk_ready (c'\<lparr>cobs_onSendDataDone := None, cobs_chunkToSend := Tail ch 1\<rparr>) r'"
  proof (cases rest)
    case None
    have "alive (A @ map Some bs @ tl T) 0 (length A + 1 + length r)"
      using all(1) cobs_fill_length [of r] None
      by (auto simp: alive_def fill nth_append in_set_conv_nth)
    with None post fields show ?thesis by (auto simp: fill bv_inv_def)
  next
    case (Some r')
    have bs: "bs \<noteq> []" "length bs + length r' = length r + 1" "length r' < length r"
      using cobs_fill_length [of r] Some by (auto simp: fill)
    define A' where "A' = A @ map Some (butlast bs)"
    have SA: "S = A' @ Some (last bs) # map Some r' @ T"
    proof -
      have "map Some bs = map Some (butlast bs) @ [Some (last bs)]"
        using arg_cong [OF append_butlast_last_id [OF bs(1), symmetric], of "map Some"] by simp
      then show ?thesis using post Some by (simp add: fill A'_def)
    qed
    have lA: "length A' + 1 = length A + length bs" using bs(1) by (simp add: A'_def)
    have tl: "Tail ch 1 = mr_make (length A') (length A' + 1)"
    proof (cases "length bs = 1")
      case True
      then show ?thesis using lA by (simp add: ch Tail_def mr_shrink_from_front_to_def mr_size_def mr_make_def)
    next
      case False
      then have "1 < length bs" using bs(1) by (cases bs) auto
      then show ?thesis using lA by (simp add: ch Tail_def mr_shrink_from_front_to_def mr_size_def mr_make_def)
    qed
    have "filling (c'\<lparr>cobs_onSendDataDone := None, cobs_chunkToSend := Tail ch 1\<rparr>) (length A') A' (Some (last bs)) r' T"
      unfolding filling_def using post Some fields SA tl T lA by (simp add: fill)
    moreover have "None \<notin> set A'" using all(1) by (auto simp: A'_def)
    moreover have "length A + 1 + length r = length A' + 1 + length r'" using bs(2) lA by simp
    ultimately have "chunk_ready (c'\<lparr>cobs_onSendDataDone := None, cobs_chunkToSend := Tail ch 1\<rparr>) r'"
      using fields(6) by (intro chunk_readyI [of _ A' "Some (last bs)" _ T]) simp_all
    then show ?thesis using Some post bs by (simp add: fill)
  qed
  with r fields show ?thesis by (cases rest) (simp_all add: fill)
qed

lemma cobs_SendDataDone_tail:
  assumes "cobs_onSendDataDone c = Some TailThenSendOrDone" and "\<not> cobs_onStopDone c" and "\<not> cobs_resetting c"
  shows "cobs_SendDataDone c =
    (let c' = c\<lparr>cobs_onSendDataDone := None, cobs_chunkToSend := Tail (cobs_chunkToSend c) 1\<rparr>
     in if mr_empty (cobs_dataToSend c) \<and> cobs_frameSize c < 254 then cobs_FinishChunk c' else cobs_SendChunk c')"
  using assms by (simp add: cobs_SendDataDone_def cobs_SendOrDone_def Let_def)

text \<open>From a chunk that is ready, the rest of the message is sent after finitely many transmissions.\<close>

lemma cobs_send_rest:
  assumes "chunk_ready c r" and "\<not> cobs_onStopDone c" and "\<not> cobs_resetting c"
  shows "\<exists>n pieces c'. bindR (cobs_SendChunk c) (cobs_serial_turns n) = cobs_FinishChunk c'
    \<and> same_but_sending c c' \<and> cobs_events c' = cobs_events c @ serial_data pieces
    \<and> concat pieces = cobs_encode r \<and> cobs_sendSizeEncoded c' = cobs_sendSizeEncoded c + length (cobs_encode r)
    \<and> bv_inv (cobs_sendStorage c')"
  using assms
proof (induction r arbitrary: c rule: length_induct)
  case (1 r)
  obtain bs rest where fill: "cobs_fill r = (bs, rest)" by (cases "cobs_fill r")
  obtain c1 where c1: "cobs_SendChunk c = Inr c1" "same_but_sending c c1" "cobs_onSendDataDone c1 = Some TailThenSendOrDone"
      "cobs_events c1 = cobs_events c @ serial_data [bs]" "cobs_sendSizeEncoded c1 = cobs_sendSizeEncoded c + length bs"
    and post: "case rest of
         None \<Rightarrow> mr_empty (cobs_dataToSend c1) \<and> cobs_frameSize c1 < 254 \<and> bv_inv (cobs_sendStorage c1)
       | Some r' \<Rightarrow> cobs_frameSize c1 = 254 \<and> length r' < length r
           \<and> chunk_ready (c1\<lparr>cobs_onSendDataDone := None, cobs_chunkToSend := Tail (cobs_chunkToSend c1) 1\<rparr>) r'"
    using cobs_SendChunk_correct [OF "1.prems"(1)] unfolding fill by auto
  have st: "\<not> cobs_onStopDone c1" "\<not> cobs_resetting c1"
    using c1(2) "1.prems" by (simp_all add: same_but_sending_def)
  let ?c = "c1\<lparr>cobs_onSendDataDone := None, cobs_chunkToSend := Tail (cobs_chunkToSend c1) 1\<rparr>"
  have same: "same_but_sending c1 ?c" by (simp add: same_but_sending_def cobs_decoder_def)
  show ?case
  proof (cases rest)
    case None
    have "bindR (cobs_SendChunk c) (cobs_serial_turns 1) = cobs_FinishChunk ?c"
      using c1 st post None by (simp add: cobs_SendDataDone_tail Let_def) (cases "cobs_FinishChunk ?c"; simp)
    moreover have "cobs_encode r = bs" using cobs_encode_fill [of r] fill None by simp
    ultimately show ?thesis
      using c1 post None same_but_sending_trans [OF c1(2) same]
      by (intro exI [of _ 1], intro exI [of _ "[bs]"], intro exI [of _ ?c]) simp
  next
    case (Some r')
    have enc: "cobs_encode r = bs @ cobs_encode r'" using cobs_encode_fill [of r] fill Some by simp
    have "length r' < length r" "chunk_ready ?c r'" using post Some by auto
    from "1.IH" [rule_format, OF this] st obtain n pieces c' where
      ih: "bindR (cobs_SendChunk ?c) (cobs_serial_turns n) = cobs_FinishChunk c'"
        "same_but_sending ?c c'" "cobs_events c' = cobs_events ?c @ serial_data pieces"
        "concat pieces = cobs_encode r'" "cobs_sendSizeEncoded c' = cobs_sendSizeEncoded ?c + length (cobs_encode r')"
        "bv_inv (cobs_sendStorage c')"
      by auto
    have "bindR (cobs_SendChunk c) (cobs_serial_turns (Suc n)) = cobs_FinishChunk c'"
      using c1 st post Some ih(1) by (simp add: cobs_SendDataDone_tail Let_def)
    moreover have "same_but_sending c c'"
      using c1(2) same ih(2) same_but_sending_trans by blast
    ultimately show ?thesis
      using c1 ih enc
      by (intro exI [of _ "Suc n"], intro exI [of _ "bs # pieces"], intro exI [of _ c'])
        (simp add: serial_data_def)
  qed
qed

text \<open>The end of a message when no other is waiting.\<close>

lemma cobs_FinishChunk_idle:
  assumes "bv_inv (cobs_sendStorage c)" and "cobs_sendReqestedSize c = None"
  shows "\<exists>c'. cobs_FinishChunk c = Inr c' \<and> cobs_events c' = cobs_events c @ [MessageSent (cobs_sendSizeEncoded c)]
    \<and> \<not> cobs_sendingUserData c' \<and> bv_list (cobs_sendStorage c') = [] \<and> cobs_sendSizeEncoded c' = 0
    \<and> cobs_sendingFirstPacket c' = cobs_sendingFirstPacket c \<and> cobs_decoder c' = cobs_decoder c
    \<and> cobs_receivedMessage c' = cobs_receivedMessage c"
proof -
  obtain v where "bv_clear (cobs_sendStorage c) = Inr v" "bv_list v = []"
    using bv_clear_correct [OF assms(1)] by auto
  with assms(2) show ?thesis
    by (simp add: cobs_FinishChunk_def cobs_emit_def cobs_CheckReadyToSendUserData_def Let_def cobs_decoder_def)
qed

text \<open>A sender whose writer is about to be released, with \<open>m\<close> written after the slot for the overhead.\<close>

definition cobs_written :: "sesame_cobs \<Rightarrow> byte list \<Rightarrow> bool" where
  "cobs_written c m \<longleftrightarrow> bv_inv (cobs_sendStorage c) \<and> (\<exists>x. bv_list (cobs_sendStorage c) = x # m)
     \<and> length m + 2 \<le> bv_max_size (cobs_sendStorage c) \<and> cobs_onAllocatable c = OnAllocatableSendStreamFilled
     \<and> \<not> cobs_resetting c \<and> \<not> cobs_onStopDone c \<and> cobs_sendReqestedSize c = None \<and> cobs_sendSizeEncoded c = 0"

lemma slots_of_list: "alive s 0 (length xs) \<Longrightarrow> map the (take (length xs) s) = xs \<Longrightarrow> take (length xs) s = map Some xs"
proof (rule nth_equalityI)
  assume al: "alive s 0 (length xs)" and xs: "map the (take (length xs) s) = xs"
  then show len: "length (take (length xs) s) = length (map Some xs)" by (simp add: alive_def)
  fix i assume "i < length (take (length xs) s)"
  then have i: "i < length xs" "i < length s" by simp_all
  then have "xs ! i = the (s ! i)" using arg_cong [OF xs, of "\<lambda>l. l ! i"] by simp
  with al i show "take (length xs) s ! i = map Some xs ! i" by (auto simp: alive_def)
qed

lemma cobs_SendStreamFilled_ready:
  assumes w: "cobs_written c m" and c1: "c1 = c\<lparr>cobs_sendStreamAllocated := al, cobs_sendingUserData := True,
      cobs_frameSize := 0, cobs_dataToSend := DiscardHead (mr_make 0 (bv_size (cobs_sendStorage c))) 1,
      cobs_chunkToSend := Head (mr_make 0 (bv_size (cobs_sendStorage c))) 1\<rparr>" and "m \<noteq> []"
  shows "chunk_ready c1 m" and "\<not> mr_empty (cobs_dataToSend c1)"
proof -
  let ?v = "cobs_sendStorage c"
  obtain x where x: "bv_list ?v = x # m" and inv: "bv_inv ?v" and room: "length m + 2 \<le> bv_max_size ?v"
    using w by (auto simp: cobs_written_def)
  have n: "bv_size ?v = Suc (length m)" using length_bv_list [OF inv] x by simp
  then have "take (Suc (length m)) (bv_storage ?v) = map Some (x # m)"
    using slots_of_list [of "bv_storage ?v" "x # m"] inv x by (simp add: bv_inv_def bv_list_def bv_size_def)
  then have st: "bv_storage ?v = Some x # map Some m @ drop (Suc (length m)) (bv_storage ?v)"
    by (metis append_Cons append_take_drop_id list.simps(9))
  have T: "drop (Suc (length m)) (bv_storage ?v) \<noteq> []" using room by (simp add: bv_max_size_def)
  have data: "cobs_dataToSend c1 = mr_make 1 (1 + length m)" "cobs_chunkToSend c1 = mr_make 0 1"
    using n \<open>m \<noteq> []\<close> by (auto simp: c1 DiscardHead_def Head_def mr_make_def mr_size_def mr_shrink_from_back_to_def)
  show "\<not> mr_empty (cobs_dataToSend c1)" using data \<open>m \<noteq> []\<close> by (simp add: mr_empty_def mr_make_def)
  have "filling c1 0 [] (Some x) m (drop (Suc (length m)) (bv_storage ?v))"
    unfolding filling_def using st T data \<open>m \<noteq> []\<close> by (simp add: c1)
  then show "chunk_ready c1 m"
    unfolding chunk_ready_def using n
    by (intro exI [of _ "[]"] exI [of _ "Some x"] exI [of _ "drop (Suc (length m)) (bv_storage ?v)"])
      (simp_all add: c1 bv_size_def)
qed

lemma cobs_message_is_sent_lemma:
  assumes w: "cobs_written c m" and m: "m \<noteq> []"
  defines "wire \<equiv> (if cobs_sendingFirstPacket c then [0] else []) @ cobs_encode m"
  shows "\<exists>n pieces c'. bindR (cobs_WriterRelease c) (cobs_serial_turns n) = Inr c'
    \<and> cobs_events c' = cobs_events c @ map SerialSendData pieces @ [MessageSent (length wire)]
    \<and> concat pieces = wire \<and> \<not> cobs_sendingUserData c' \<and> \<not> cobs_sendingFirstPacket c'
    \<and> bv_list (cobs_sendStorage c') = []"
proof -
  define c1 where "c1 = c\<lparr>cobs_sendStreamAllocated := False, cobs_sendingUserData := True,
      cobs_frameSize := 0, cobs_dataToSend := DiscardHead (mr_make 0 (bv_size (cobs_sendStorage c))) 1,
      cobs_chunkToSend := Head (mr_make 0 (bv_size (cobs_sendStorage c))) 1\<rparr>"
  note ready = cobs_SendStreamFilled_ready [OF w c1_def m]
  let ?first = "cobs_sendingFirstPacket c"
  define c2 where "c2 = (if ?first then (cobs_SendFirstDelimiter c1)\<lparr>cobs_onSendDataDone := None\<rparr> else c1)"
  have c2: "\<not> cobs_onStopDone c2" "\<not> cobs_resetting c2" "\<not> mr_empty (cobs_dataToSend c2)"
      "cobs_sendReqestedSize c2 = None" "\<not> cobs_sendingFirstPacket c2"
      "cobs_sendSizeEncoded c2 = (if ?first then 1 else 0)"
      "cobs_events c2 = cobs_events c @ serial_data (if ?first then [[0]] else [])"
    using ready(2) w
    by (auto simp: c2_def c1_def cobs_SendFirstDelimiter_def cobs_SendSerialData_def cobs_emit_def
        cobs_written_def serial_data_def)
  have "chunk_ready c2 m"
    by (rule chunk_ready_cong [OF ready(1)])
      (simp_all add: c2_def cobs_SendFirstDelimiter_def cobs_SendSerialData_def cobs_emit_def)
  from cobs_send_rest [OF this c2(1,2)] obtain n pieces c3 where
    c3: "bindR (cobs_SendChunk c2) (cobs_serial_turns n) = cobs_FinishChunk c3" "same_but_sending c2 c3"
      "cobs_events c3 = cobs_events c2 @ serial_data pieces" "concat pieces = cobs_encode m"
      "cobs_sendSizeEncoded c3 = cobs_sendSizeEncoded c2 + length (cobs_encode m)" "bv_inv (cobs_sendStorage c3)"
    by blast
  obtain c4 where c4: "cobs_FinishChunk c3 = Inr c4"
      "cobs_events c4 = cobs_events c3 @ [MessageSent (cobs_sendSizeEncoded c3)]" "\<not> cobs_sendingUserData c4"
      "bv_list (cobs_sendStorage c4) = []" "cobs_sendingFirstPacket c4 = cobs_sendingFirstPacket c3"
    using cobs_FinishChunk_idle [OF c3(6)] c3(2) c2(4) by (auto simp: same_but_sending_def)
  have sod: "cobs_SendOrDone c2 = cobs_SendChunk c2" using c2 by (simp add: cobs_SendOrDone_def)
  have "bindR (cobs_WriterRelease c) (cobs_serial_turns (if ?first then Suc n else n)) = Inr c4"
  proof (cases ?first)
    case True
    then have "cobs_WriterRelease c = Inr (cobs_SendFirstDelimiter c1)"
      using w by (simp add: cobs_WriterRelease_def cobs_SendStreamFilled_def cobs_written_def c1_def Let_def)
    moreover have "cobs_SendDataDone (cobs_SendFirstDelimiter c1) = cobs_SendOrDone c2"
      using w True by (simp add: cobs_SendDataDone_def cobs_SendFirstDelimiter_def cobs_SendSerialData_def
          cobs_emit_def c2_def c1_def cobs_written_def Let_def)
    ultimately show ?thesis using True c3(1) c4(1) sod by simp
  next
    case False
    then have "cobs_WriterRelease c = cobs_SendOrDone c2"
      using w by (simp add: cobs_WriterRelease_def cobs_SendStreamFilled_def cobs_written_def c1_def c2_def Let_def)
    with False c3(1) c4(1) sod show ?thesis by simp
  qed
  moreover have "\<not> cobs_sendingFirstPacket c4" using c4(5) c3(2) c2(5) by (simp add: same_but_sending_def)
  ultimately show ?thesis
    using c4 c3 c2(6,7)
    by (intro exI [of _ "if ?first then Suc n else n"], intro exI [of _ "(if ?first then [[0]] else []) @ pieces"],
        intro exI [of _ c4]) (auto simp: wire_def serial_data_def)
qed

text \<open>
  C37. A written message is sent completely: after finitely many completed transmissions the serial
  line has been given, in pieces, exactly the encoding of the message (after a single zero before the
  first message), the observer has been told the number of those bytes, and the sender is idle with
  an empty buffer. The buffer needs no more than two bytes beside the message, in which it is
  encoded in place.
\<close>

theorem cobs_message_is_sent:
  assumes "cobs_written c m" and "m \<noteq> []"
  shows "\<exists>n pieces c'. bindR (cobs_WriterRelease c) (cobs_serial_turns n) = Inr c'
    \<and> concat pieces = (if cobs_sendingFirstPacket c then [0] else []) @ cobs_encode m
    \<and> cobs_events c' = cobs_events c @ map SerialSendData pieces @ [MessageSent (length (concat pieces))]
    \<and> \<not> cobs_sendingUserData c' \<and> \<not> cobs_sendingFirstPacket c' \<and> bv_list (cobs_sendStorage c') = []"
  using cobs_message_is_sent_lemma [OF assms] by (elim exE conjE) (intro exI conjI, auto)

theorem cobs_message_is_sent_witness:
  "\<exists>n pieces c'. bindR (cobs_WriterRelease ((cobs_make [] [])\<lparr>cobs_sendStorage :=
        \<lparr>bv_storage = [Some 0, Some 7, Some 0, None], bv_numAllocated = 3\<rparr>\<rparr>)) (cobs_serial_turns n) = Inr c'
    \<and> concat pieces = [0, 2, 7, 1, 0] \<and> cobs_events c' = map SerialSendData pieces @ [MessageSent 5]"
proof -
  let ?v = "\<lparr>bv_storage = [Some 0, Some 7, Some 0, None], bv_numAllocated = 3\<rparr> :: byte bounded_vector"
  let ?c = "(cobs_make [] [])\<lparr>cobs_sendStorage := ?v\<rparr>"
  have "bv_inv ?v" by (auto simp: bv_inv_def alive_def less_Suc_eq numeral_eq_Suc)
  moreover have "bv_list ?v = [0, 7, 0]" by (simp add: bv_list_def)
  ultimately have w: "cobs_written ?c [7, 0]"
    by (simp add: cobs_written_def cobs_make_def bv_max_size_def)
  have f: "cobs_sendingFirstPacket ?c" "cobs_events ?c = []" by (simp_all add: cobs_make_def)
  have e: "cobs_encode [7, 0] = [2, 7, 1, 0]" by (simp add: cobs_encode.simps frame_def Let_def)
  from cobs_message_is_sent [OF w] obtain n pieces c' where
    r: "bindR (cobs_WriterRelease ?c) (cobs_serial_turns n) = Inr c'" "concat pieces = [0, 2, 7, 1, 0]"
    "cobs_events c' = map SerialSendData pieces @ [MessageSent (length (concat pieces))]"
    by (auto simp: f e)
  moreover have "length (concat pieces) = 5" unfolding r(2) by simp
  ultimately show ?thesis by metis
qed

lemma dec_step_size: "\<exists>k. fst (dec_step x (d\<lparr>dec_size := n\<rparr>)) = fst (dec_step x d)\<lparr>dec_size := k\<rparr>"
  by (simp add: dec_step_def dec_boundary_def)

lemma dec_run_payload_size: "dec_payload (fst (dec_run xs (d\<lparr>dec_size := n\<rparr>))) = dec_payload (fst (dec_run xs d))"
proof (induction xs arbitrary: d n)
  case (Cons x xs)
  obtain k where k: "fst (dec_step x (d\<lparr>dec_size := n\<rparr>)) = fst (dec_step x d)\<lparr>dec_size := k\<rparr>"
    using dec_step_size by blast
  have "dec_payload (fst (dec_run (x # xs) e)) = dec_payload (fst (dec_run xs (fst (dec_step x e))))" for e
    by (simp split: prod.split)
  with Cons k show ?case by metis
qed simp

lemma dec_fits_size: "dec_fits cap xs d \<Longrightarrow> dec_fits cap xs (d\<lparr>dec_size := n\<rparr>)"
  by (simp add: dec_fits_def dec_run_payload_size)

section \<open>The contract of SesameEncoded\<close>

text \<open>
  What the client of a \<^verbatim>\<open>SesameEncoded\<close> (services/util/Sesame.hpp) relies on to keep account of the room at
  the other side: \<^verbatim>\<open>MessageSize\<close> is the size on the wire, \<^verbatim>\<open>WorstCaseEncodedMessageSize\<close> bounds it by the
  length of the message, and a message of at most \<^verbatim>\<open>WorstCaseDecodedMessageSize\<close> of some room fits the room.
\<close>

locale sesame_encoded =
  fixes wire :: "byte list \<Rightarrow> byte list"
    and message_size :: "byte list list \<Rightarrow> nat"
    and worst_encoded :: "nat \<Rightarrow> nat"
    and worst_decoded :: "nat \<Rightarrow> nat"
  assumes message_size: "message_size ranges = length (wire (concat ranges))"
    and worst_encoded: "length (wire m) \<le> worst_encoded (length m)"
    and worst_encoded_mono: "k \<le> n \<Longrightarrow> worst_encoded k \<le> worst_encoded n"
    and worst_decoded: "2 \<le> n \<Longrightarrow> worst_encoded (worst_decoded n) \<le> n"
begin

lemma message_size_bound: "message_size ranges \<le> worst_encoded (length (concat ranges))"
  by (simp only: message_size worst_encoded)

lemma message_fits: "2 \<le> n \<Longrightarrow> length (concat ranges) \<le> worst_decoded n \<Longrightarrow> message_size ranges \<le> n"
  using message_size_bound [of ranges] worst_encoded_mono [of "length (concat ranges)" "worst_decoded n"]
    worst_decoded [of n] by (meson le_trans)

end

lemma worst_decoded_fits: "n - n div 254 + (n - n div 254) div 254 \<le> n" for n :: nat
proof -
  have "(n - n div 254) div 254 \<le> n div 254" by (intro div_le_mono) simp
  moreover have "n div 254 \<le> n" by simp
  ultimately show ?thesis by linarith
qed

interpretation cobs: sesame_encoded cobs_encode cobs_MessageSize cobs_WorstCaseEncodedMessageSize
  cobs_WorstCaseDecodedMessageSize
proof
  fix ranges :: "byte list list" and m :: "byte list" and k n :: nat
  show "cobs_MessageSize ranges = length (cobs_encode (concat ranges))"
    using fold_size_range [of ranges 2 0] fold_size_encode [of "concat ranges" 2]
    by (simp add: cobs_MessageSize_def)
  show "length (cobs_encode m) \<le> cobs_WorstCaseEncodedMessageSize (length m)"
    using encode_length_bounds(2) [of m] by (simp add: cobs_WorstCaseEncodedMessageSize_def)
  show "cobs_WorstCaseEncodedMessageSize k \<le> cobs_WorstCaseEncodedMessageSize n" if "k \<le> n"
    using that div_le_mono [OF that, of 254] by (simp add: cobs_WorstCaseEncodedMessageSize_def)
  show "cobs_WorstCaseEncodedMessageSize (cobs_WorstCaseDecodedMessageSize n) \<le> n" if "2 \<le> n"
    unfolding cobs_WorstCaseEncodedMessageSize_def cobs_WorstCaseDecodedMessageSize_def
    using that worst_decoded_fits [of "n - 2"] by linarith
qed

lemma max_send_fits: "d \<le> x - x div 255 \<Longrightarrow> d + d div 254 \<le> x + 1" for d x :: nat
proof -
  assume d: "d \<le> x - x div 255"
  have x: "x = 255 * (x div 255) + x mod 255" "x mod 255 < 255" by simp_all
  then have "d \<le> 254 * (x div 255) + x mod 255" using d by linarith
  then have "d div 254 \<le> (254 * (x div 255) + x mod 255) div 254" by (rule div_le_mono)
  also have "\<dots> \<le> x div 255 + 1" using x(2) by (simp add: div_le_mono)
  finally show ?thesis using d x(1) by linarith
qed

text \<open>
  The sizes \<^verbatim>\<open>SesameCobs\<close> computes: \<^verbatim>\<open>MessageSize\<close>, however the reader cuts the message into ranges and with
  its counter in a byte, is the number of bytes the encoding has on the wire, which
  \<^verbatim>\<open>WorstCaseEncodedMessageSize\<close> bounds; a message of at most \<^verbatim>\<open>WorstCaseDecodedMessageSize\<close> of some room takes
  no more than the room, and one of at most \<^verbatim>\<open>MaxSendMessageSize\<close> no more than the send buffer.
\<close>

theorem cobs_sizes:
  "cobs_MessageSize ranges = length (cobs_encode (concat ranges))
    \<and> cobs_MessageSize ranges \<le> cobs_WorstCaseEncodedMessageSize (length (concat ranges))
    \<and> (2 \<le> n \<and> length (concat ranges) \<le> cobs_WorstCaseDecodedMessageSize n \<longrightarrow> cobs_MessageSize ranges \<le> n)
    \<and> (4 \<le> s \<and> length (concat ranges) \<le> cobs_MaxSendMessageSize s \<longrightarrow> cobs_MessageSize ranges < s)"
proof -
  let ?m = "length (concat ranges)"
  have "cobs_MessageSize ranges < s" if "4 \<le> s" "?m \<le> cobs_MaxSendMessageSize s"
  proof -
    have "?m + ?m div 254 \<le> (s - 4) + 1"
      using that(2) by (intro max_send_fits) (simp add: cobs_MaxSendMessageSize_def)
    with cobs.message_size_bound [of ranges] that(1) show ?thesis
      by (simp add: cobs_WorstCaseEncodedMessageSize_def)
  qed
  then show ?thesis
    using cobs.message_size [of ranges] cobs.message_size_bound [of ranges] cobs.message_fits [of n ranges] by blast
qed

theorem cobs_sizes_witness:
  "cobs_MessageSize [[5], [0, 6]] \<le> 5 \<and> cobs_MessageSize [[5], [0, 6]] < 7"
  using cobs_sizes [of "[[5], [0, 6]]" 5 7]
  by (simp add: cobs_WorstCaseDecodedMessageSize_def cobs_MaxSendMessageSize_def)

text \<open>
  C38. From one \<^verbatim>\<open>SesameCobs\<close> to another: whatever pieces the sender gives to the serial line for a message
  and however they arrive, the receiver's observer gets that message once, with the same encoded
  size as the sender's observer was told. On this equality rests the account of the window kept by
  \<^verbatim>\<open>SesameWindowed\<close>.
\<close>

theorem cobs_end_to_end:
  assumes "cobs_written c m" and "m \<noteq> []"
    and "cobs_inv d" and "cobs_decoder d = dec_start" and "length m \<le> cobs_capacity d"
  shows "\<exists>n pieces c' size. bindR (cobs_WriterRelease c) (cobs_serial_turns n) = Inr c'
    \<and> cobs_events c' = cobs_events c @ map SerialSendData pieces @ [MessageSent size]
    \<and> (\<forall>ranges. concat ranges = concat pieces \<longrightarrow>
        (\<exists>d'. cobs_DataReceived resets ranges d = Inr d' \<and> cobs_inv d' \<and> cobs_decoder d' = dec_start
          \<and> cobs_events d' = cobs_events d @ [ReceivedMessage m size]))"
proof -
  define wire where "wire = (if cobs_sendingFirstPacket c then [0] else []) @ cobs_encode m"
  obtain n pieces c' where s: "bindR (cobs_WriterRelease c) (cobs_serial_turns n) = Inr c'"
      "cobs_events c' = cobs_events c @ map SerialSendData pieces @ [MessageSent (length wire)]" "concat pieces = wire"
    using cobs_message_is_sent_lemma [OF assms(1,2)] unfolding wire_def by blast
  let ?e = "dec_start\<lparr>dec_size := 1\<rparr>"
  have run: "dec_run wire dec_start = (dec_start, [(m, length wire)])"
    using dec_run_encode [of dec_start m] dec_run_encode [of ?e m] assms(2)
    by (auto simp: wire_def dec_start_def dec_step_def dec_boundary_def)
  have fits: "dec_fits (cobs_capacity d) wire dec_start"
  proof (cases "cobs_sendingFirstPacket c")
    case True
    have "dec_fits (cobs_capacity d) [0] dec_start"
      by (auto simp: dec_fits_def dec_start_def dec_step_def dec_boundary_def le_Suc_eq)
    moreover have "fst (dec_run [0] dec_start) = ?e"
      by (simp add: dec_start_def dec_step_def dec_boundary_def)
    ultimately have "dec_fits (cobs_capacity d) ([0] @ cobs_encode m) dec_start"
      using dec_fits_size [OF dec_fits_encode [OF assms(5)], of 1] by (intro dec_fits_join) simp_all
    then show ?thesis using True by (simp add: wire_def)
  next
    case False
    then show ?thesis using dec_fits_encode [OF assms(5)] by (simp add: wire_def)
  qed
  have "\<exists>d'. cobs_DataReceived resets ranges d = Inr d' \<and> cobs_inv d' \<and> cobs_decoder d' = dec_start
      \<and> cobs_events d' = cobs_events d @ [ReceivedMessage m (length wire)]" if "concat ranges = concat pieces" for ranges
    using cobs_DataReceived_refines [OF assms(3), of ranges resets] that s(3) fits assms(4) run
    by (auto simp: cobs_reads_def received_def)
  with s show ?thesis by blast
qed

theorem cobs_end_to_end_witness:
  "\<exists>n pieces c' size. bindR (cobs_WriterRelease ((cobs_make [] [])\<lparr>cobs_sendStorage :=
        \<lparr>bv_storage = [Some 0, Some 7, None], bv_numAllocated = 2\<rparr>\<rparr>)) (cobs_serial_turns n) = Inr c'
    \<and> cobs_events c' = map SerialSendData pieces @ [MessageSent size]
    \<and> (\<exists>d'. cobs_DataReceived (\<lambda>m. False) pieces (cobs_make [] [None]) = Inr d'
          \<and> cobs_events d' = [ReceivedMessage [7] size])"
proof -
  let ?v = "\<lparr>bv_storage = [Some 0, Some 7, None], bv_numAllocated = 2\<rparr> :: byte bounded_vector"
  let ?c = "(cobs_make [] [])\<lparr>cobs_sendStorage := ?v\<rparr>" and ?d = "cobs_make [] [None]"
  have "bv_inv ?v" by (auto simp: bv_inv_def alive_def less_Suc_eq numeral_eq_Suc)
  moreover have "bv_list ?v = [0, 7]" by (simp add: bv_list_def)
  ultimately have w: "cobs_written ?c [7]"
    by (simp add: cobs_written_def cobs_make_def bv_max_size_def)
  have d: "cobs_inv ?d" "cobs_decoder ?d = dec_start" "length [7 :: byte] \<le> cobs_capacity ?d"
    using cobs_make_inv [of "[]" "[None]"] by simp_all
  have ev: "cobs_events ?c = []" "cobs_events ?d = []" by (simp_all add: cobs_make_def)
  from cobs_end_to_end [OF w _ d, of "\<lambda>m. False"] obtain n pieces c' size where
    r: "bindR (cobs_WriterRelease ?c) (cobs_serial_turns n) = Inr c'"
      "cobs_events c' = map SerialSendData pieces @ [MessageSent size]"
      "\<forall>ranges. concat ranges = concat pieces \<longrightarrow> (\<exists>d'. cobs_DataReceived (\<lambda>m. False) ranges ?d = Inr d'
        \<and> cobs_inv d' \<and> cobs_decoder d' = dec_start \<and> cobs_events d' = [ReceivedMessage [7] size])"
    unfolding ev by auto
  from r(3) [rule_format, OF refl] r(1,2) show ?thesis by blast
qed

end
