(* ===== verification/Sesame_Windowed.thy ===== *)
theory Sesame_Windowed
  imports Sesame_Cobs_Send Stream_Writers
begin

section \<open>SesameWindowed: services/util/SesameWindowed.cpp\<close>

text \<open>
  \<^verbatim>\<open>SesameWindowed\<close> adds flow control to an encoded channel: each side announces the size of its buffer, a
  sender only sends what fits the room it knows of at the other side, and the receiver gives room
  back with release window packets. The windows are 16 bit numbers and wrap as such.

  The layer below is an argument, \<open>encoded_layer\<close>, with the four size functions of \<^verbatim>\<open>SesameEncoded\<close>;
  its calls of this object are the operations below, calls made to it are events. Two decisions of
  the surroundings are arguments as well: whether the initializer grants an initialization at once
  (\<open>grantNow\<close>; otherwise \<open>sw_InitializationGranted\<close> is called later), and whether the observer keeps the
  reader of a message it is given (\<open>keeps\<close>; otherwise it releases the reader before it returns).
  The hooks \<^verbatim>\<open>ReceivedInit\<close>, \<^verbatim>\<open>SendingMessage\<close> and so on, empty virtual functions for a tracing subclass,
  are left out.
\<close>

record encoded_layer =
  el_MaxSendMessageSize :: nat
  el_WorstCaseEncodedMessageSize :: "nat \<Rightarrow> nat"
  el_WorstCaseDecodedMessageSize :: "nat \<Rightarrow> nat"
  el_MessageSize :: "byte list list \<Rightarrow> nat"

type_synonym window = "16 word"

datatype sw_event =
    EncodedRequestSendMessage nat
  | EncodedWrite "byte list"
  | EncodedReset
  | ObserverInitialized
  | ObserverStreamAvailable
  | ObserverReceived "byte list"
  | InitializationRequested

datatype sw_state =
    StateSendingInit
  | StateSendingInitResponse
  | StateOperational
  | StateSendingMessage nat
  | StateSendingReleaseWindow

datatype sw_reader_action = NoReaderAction | ForwardAction window | ResetReadingAction

record sesame_windowed =
  sw_receivedMessage :: "byte bounded_deque"
  sw_splitBuffers :: byte
  sw_ownBufferSize :: window
  sw_releaseWindowSize :: window
  sw_initialized :: bool
  sw_sentInitResponse :: bool
  sw_currentReceiveMessageSize :: window
  sw_currentReceiveMessageReader :: bool
  sw_readerReferenced :: bool
  sw_readerAction :: sw_reader_action
  sw_otherAvailableWindow :: window
  sw_maxUsableBufferSize :: window
  sw_releasedWindow :: window
  sw_requestingInitialization :: bool
  sw_pendingInitialization :: "window option"
  sw_sendInitResponse :: bool
  sw_sending :: bool
  sw_requestedSendMessageSize :: "nat option"
  sw_state :: sw_state
  sw_events :: "sw_event list"

definition sw_emit :: "sw_event \<Rightarrow> sesame_windowed \<Rightarrow> sesame_windowed" where
  "sw_emit e c = c\<lparr>sw_events := sw_events c @ [e]\<rparr>"

subsection \<open>Packets\<close>

text \<open>16 bit numbers are written with their low byte first; bytes that are missing are read as 0.\<close>

definition le16 :: "window \<Rightarrow> byte list" where
  "le16 w = [of_nat (unat w mod 256), of_nat (unat w div 256)]"

definition read_le16 :: "byte list \<Rightarrow> window" where
  "read_le16 bs = (case bs of [] \<Rightarrow> 0 | [x] \<Rightarrow> of_nat (unat x) | x # y # _ \<Rightarrow> of_nat (unat x + 256 * unat y))"

definition sw_PacketInit :: "window \<Rightarrow> byte list" where
  "sw_PacketInit w = 1 # le16 w"

definition sw_PacketInitResponse :: "window \<Rightarrow> byte list" where
  "sw_PacketInitResponse w = 2 # le16 w"

definition sw_PacketReleaseWindow :: "window \<Rightarrow> byte list" where
  "sw_PacketReleaseWindow w = 3 # le16 w"

lemma read_le16_le16 [simp]: "read_le16 (le16 w @ bs) = w"
proof -
  have "unat w < 65536" using unsigned_less [of w] by simp
  then have eq: "unat (of_nat (unat w mod 256) :: byte) + 256 * unat (of_nat (unat w div 256) :: byte) = unat w"
    by (simp add: unat_of_nat)
  show ?thesis
    by (simp only: le16_def read_le16_def append.simps list.case eq) simp
qed

lemma length_le16 [simp]: "length (le16 w) = 2"
  by (simp add: le16_def)

subsection \<open>The next thing to send\<close>

text \<open>
  The conversion of an int to \<^verbatim>\<open>std::size_t\<close>. The number of buffers the room
  is split over is positive: the template that creates the object asserts that it is at least 2.
\<close>

definition to_size_t :: "int \<Rightarrow> nat" where
  "to_size_t i = nat (i mod 2 ^ 64)"

text \<open>
  Each state overrides some of the functions \<^verbatim>\<open>Request\<close>, \<^verbatim>\<open>RequestSendMessage\<close>, \<^verbatim>\<open>SendMessageStreamAvailable\<close> and \<^verbatim>\<open>MessageSent\<close>
  of \<^verbatim>\<open>State\<close>; a definition named after the state is such an override, and a call through the state is a case
  distinction.
\<close>

definition sw_StateSendingInit_Request :: "nat \<Rightarrow> sesame_windowed \<Rightarrow> sesame_windowed" where
  [simp]: "sw_StateSendingInit_Request initInformationSize c = sw_emit (EncodedRequestSendMessage (3 + initInformationSize)) c"

definition sw_StateSendingInitResponse_Request :: "nat \<Rightarrow> sesame_windowed \<Rightarrow> sesame_windowed" where
  [simp]: "sw_StateSendingInitResponse_Request initInformationSize c =
     sw_emit (EncodedRequestSendMessage (3 + initInformationSize)) (c\<lparr>sw_sending := True, sw_sentInitResponse := True\<rparr>)"

definition sw_StateSendingMessage_Request :: "nat \<Rightarrow> sesame_windowed \<Rightarrow> sesame_windowed" where
  [simp]: "sw_StateSendingMessage_Request requestedSize c = sw_emit (EncodedRequestSendMessage requestedSize) (c\<lparr>sw_sending := True\<rparr>)"

definition sw_StateSendingReleaseWindow_Request :: "sesame_windowed \<Rightarrow> sesame_windowed" where
  [simp]: "sw_StateSendingReleaseWindow_Request c = sw_emit (EncodedRequestSendMessage 3) (c\<lparr>sw_sending := True\<rparr>)"

text \<open>
  The constructors of the three sending states set \<^verbatim>\<open>sending\<close>, and the init response \<^verbatim>\<open>sentInitResponse\<close>; every one of
  them is followed by \<^verbatim>\<open>Request\<close> at once, so the two are one definition.
\<close>

definition sw_SetNextState :: "encoded_layer \<Rightarrow> nat \<Rightarrow> sesame_windowed \<Rightarrow> sesame_windowed" where
  "sw_SetNextState L info c =
     (if \<not> sw_sending c \<and> sw_initialized c
      then if sw_sendInitResponse c
           then if \<not> sw_currentReceiveMessageReader c
                then sw_StateSendingInitResponse_Request info (c\<lparr>sw_state := StateSendingInitResponse\<rparr>)
                else c
           else if (case sw_requestedSendMessageSize c of None \<Rightarrow> False
                    | Some n \<Rightarrow> el_WorstCaseEncodedMessageSize L (n + 1) + unat (sw_releaseWindowSize c)
                                 \<le> unat (sw_otherAvailableWindow c))
           then sw_StateSendingMessage_Request (the (sw_requestedSendMessageSize c) + 1)
                  (c\<lparr>sw_state := StateSendingMessage (the (sw_requestedSendMessageSize c) + 1)\<rparr>)
           else if int_div (int (unat (sw_ownBufferSize c)) - int (unat (sw_releaseWindowSize c))) (int (unat (sw_splitBuffers c)))
                     \<le> int (unat (sw_releasedWindow c))
                   \<and> sw_releaseWindowSize c \<le> sw_otherAvailableWindow c
           then sw_StateSendingReleaseWindow_Request (c\<lparr>sw_state := StateSendingReleaseWindow\<rparr>)
           else c\<lparr>sw_state := StateOperational\<rparr>
      else c)"

text \<open>The constructor; \<open>q\<close> is the receive buffer, \<open>info\<close> the size of the init information.\<close>

definition sw_make :: "encoded_layer \<Rightarrow> nat \<Rightarrow> byte bounded_deque \<Rightarrow> byte \<Rightarrow> sesame_windowed" where
  "sw_make L info q splitBuffers =
     sw_StateSendingInit_Request info
       \<lparr>sw_receivedMessage = q, sw_splitBuffers = splitBuffers,
        sw_ownBufferSize = of_nat (el_MaxSendMessageSize L),
        sw_releaseWindowSize = of_nat (el_WorstCaseEncodedMessageSize L 3),
        sw_initialized = False, sw_sentInitResponse = False, sw_currentReceiveMessageSize = 0,
        sw_currentReceiveMessageReader = False, sw_readerReferenced = False, sw_readerAction = NoReaderAction,
        sw_otherAvailableWindow = 0, sw_maxUsableBufferSize = 0, sw_releasedWindow = 0,
        sw_requestingInitialization = False, sw_pendingInitialization = None, sw_sendInitResponse = False,
        sw_sending = True, sw_requestedSendMessageSize = None, sw_state = StateSendingInit, sw_events = []\<rparr>"

subsection \<open>Requests of the client\<close>

definition sw_MaxSendMessageSize :: "encoded_layer \<Rightarrow> sesame_windowed \<Rightarrow> nat result" where
  "sw_MaxSendMessageSize L c = checked (sw_initialized c)
     (Inr (to_size_t (int (el_WorstCaseDecodedMessageSize L
            (to_size_t (int_div (int (unat (sw_maxUsableBufferSize c)) - int (unat (sw_releaseWindowSize c)))
                    (int (unat (sw_splitBuffers c)))))) - 1)))"

definition sw_State_RequestSendMessage :: "nat \<Rightarrow> sesame_windowed \<Rightarrow> sesame_windowed" where
  [simp]: "sw_State_RequestSendMessage n c = c\<lparr>sw_requestedSendMessageSize := Some n\<rparr>"

definition sw_StateOperational_RequestSendMessage :: "encoded_layer \<Rightarrow> nat \<Rightarrow> nat \<Rightarrow> sesame_windowed \<Rightarrow> sesame_windowed" where
  [simp]: "sw_StateOperational_RequestSendMessage L info n c = sw_SetNextState L info (c\<lparr>sw_requestedSendMessageSize := Some n\<rparr>)"

definition sw_RequestSendMessage :: "encoded_layer \<Rightarrow> nat \<Rightarrow> nat \<Rightarrow> sesame_windowed \<Rightarrow> sesame_windowed result" where
  "sw_RequestSendMessage L info n c =
     bindR (sw_MaxSendMessageSize L c)
       (\<lambda>m. checked (n \<le> m)
         (Inr (if sw_state c = StateOperational then sw_StateOperational_RequestSendMessage L info n c
               else sw_State_RequestSendMessage n c)))"

definition sw_Reset :: "sesame_windowed \<Rightarrow> sesame_windowed result" where
  "sw_Reset c =
     (let c1 = sw_emit EncodedReset c
      in checked (\<not> sw_currentReceiveMessageReader c1 \<and> \<not> sw_readerReferenced c1)
        (Inr (c1\<lparr>sw_initialized := False, sw_requestingInitialization := False, sw_sentInitResponse := False,
               sw_otherAvailableWindow := 0, sw_maxUsableBufferSize := 0, sw_releasedWindow := 0,
               sw_sendInitResponse := False, sw_sending := False, sw_requestedSendMessageSize := None,
               sw_state := StateOperational\<rparr>)))"

definition sw_ResetReading :: "sesame_windowed \<Rightarrow> sesame_windowed" where
  "sw_ResetReading c = c\<lparr>sw_readerAction := ResetReadingAction\<rparr>"

subsection \<open>Sending\<close>

text \<open>
  The layer below has a stream. All packets but messages are written at once; for a message the
  operation byte is written and the stream goes on to the observer.
\<close>

definition sw_StateSendingInit_SendMessageStreamAvailable :: "byte list \<Rightarrow> sesame_windowed \<Rightarrow> sesame_windowed" where
  [simp]: "sw_StateSendingInit_SendMessageStreamAvailable initInformation c =
     sw_emit (EncodedWrite (sw_PacketInit (sw_ownBufferSize c) @ initInformation)) c"

definition sw_StateSendingInitResponse_SendMessageStreamAvailable :: "byte list \<Rightarrow> sesame_windowed \<Rightarrow> sesame_windowed" where
  [simp]: "sw_StateSendingInitResponse_SendMessageStreamAvailable initInformation c =
     (sw_emit (EncodedWrite (sw_PacketInitResponse (sw_ownBufferSize c) @ initInformation)) c)
       \<lparr>sw_releasedWindow := 0, sw_sendInitResponse := False\<rparr>"

definition sw_StateSendingMessage_SendMessageStreamAvailable :: "sesame_windowed \<Rightarrow> sesame_windowed" where
  [simp]: "sw_StateSendingMessage_SendMessageStreamAvailable c =
     sw_emit ObserverStreamAvailable ((sw_emit (EncodedWrite [4]) c)\<lparr>sw_requestedSendMessageSize := None\<rparr>)"

definition sw_StateSendingReleaseWindow_SendMessageStreamAvailable :: "sesame_windowed \<Rightarrow> sesame_windowed" where
  [simp]: "sw_StateSendingReleaseWindow_SendMessageStreamAvailable c =
     (sw_emit (EncodedWrite (sw_PacketReleaseWindow (sw_releasedWindow c))) c)\<lparr>sw_releasedWindow := 0\<rparr>"

definition sw_SendMessageStreamAvailable :: "byte list \<Rightarrow> sesame_windowed \<Rightarrow> sesame_windowed result" where
  "sw_SendMessageStreamAvailable initInformation c =
     (case sw_state c of
        StateSendingInit \<Rightarrow> Inr (sw_StateSendingInit_SendMessageStreamAvailable initInformation c)
      | StateSendingInitResponse \<Rightarrow> Inr (sw_StateSendingInitResponse_SendMessageStreamAvailable initInformation c)
      | StateSendingMessage requestedSize \<Rightarrow> Inr (sw_StateSendingMessage_SendMessageStreamAvailable c)
      | StateSendingReleaseWindow \<Rightarrow> Inr (sw_StateSendingReleaseWindow_SendMessageStreamAvailable c)
      | StateOperational \<Rightarrow> Inl Aborted)"

text \<open>\<^verbatim>\<open>StateSendingMessage::MessageSent\<close> does what \<^verbatim>\<open>State::MessageSent\<close> does.\<close>

definition sw_State_MessageSent :: "encoded_layer \<Rightarrow> nat \<Rightarrow> nat \<Rightarrow> sesame_windowed \<Rightarrow> sesame_windowed" where
  [simp]: "sw_State_MessageSent L info encodedSize c = sw_SetNextState L info
     (c\<lparr>sw_otherAvailableWindow := sw_otherAvailableWindow c - of_nat encodedSize, sw_sending := False\<rparr>)"

definition sw_StateSendingInit_MessageSent :: "encoded_layer \<Rightarrow> nat \<Rightarrow> sesame_windowed \<Rightarrow> sesame_windowed" where
  [simp]: "sw_StateSendingInit_MessageSent L info c = sw_SetNextState L info (c\<lparr>sw_sending := False\<rparr>)"

definition sw_MessageSent :: "encoded_layer \<Rightarrow> nat \<Rightarrow> nat \<Rightarrow> sesame_windowed \<Rightarrow> sesame_windowed" where
  "sw_MessageSent L info encodedSize c =
     (if sw_state c = StateSendingInit then sw_StateSendingInit_MessageSent L info c
      else sw_State_MessageSent L info encodedSize c)"

subsection \<open>Receiving\<close>

text \<open>
  The layer below measures the message at the front of the deque through an \<^verbatim>\<open>ExtraCharacterReader\<close>, which puts
  the operation byte in front of the bytes of a limited reader; only three of its functions do not abort.
\<close>

record extra_character_reader =
  ec_extraCharacter :: nat
  ec_limited :: "deque_reader limited_reader"

definition ec_ExtractContiguousRange :: "nat \<Rightarrow> extra_character_reader \<Rightarrow> byte list \<times> extra_character_reader" where
  "ec_ExtractContiguousRange m r =
     (if ec_extraCharacter r \<noteq> 0
      then (take m (take (ec_extraCharacter r) [4]), r\<lparr>ec_extraCharacter := 0\<rparr>)
      else let (result, l) = lr_ExtractContiguousRange dr_ExtractContiguousRange m (ec_limited r)
           in (result, r\<lparr>ec_limited := l\<rparr>))"

definition ec_Empty :: "extra_character_reader \<Rightarrow> bool" where
  "ec_Empty r \<longleftrightarrow> ec_extraCharacter r = 0 \<and> lr_Empty dr_Empty (ec_limited r)"

definition ec_Available :: "extra_character_reader \<Rightarrow> nat" where
  "ec_Available r = lr_Available dr_Available (ec_limited r) + ec_extraCharacter r"

text \<open>
  The ranges a loop over \<^verbatim>\<open>ExtractContiguousRange\<close> gets from the reader of the message behind its length; every range
  has a byte at least.
\<close>

definition sw_ExtraCharacterRanges :: "byte bounded_deque \<Rightarrow> nat \<Rightarrow> byte list list" where
  "sw_ExtraCharacterRanges q n =
     (case drain (n + 2) ec_ExtractContiguousRange ec_Empty 65535
             \<lparr>ec_extraCharacter = 1, ec_limited = lr_make ((dr_make q)\<lparr>dr_offset := 2\<rparr>) n\<rparr>
      of None \<Rightarrow> [] | Some (rngs, _) \<Rightarrow> rngs)"

lemma drain_behind_operation:
  "drain fuel ec_ExtractContiguousRange ec_Empty m \<lparr>ec_extraCharacter = 0, ec_limited = l\<rparr> =
     map_option (\<lambda>(rngs, l'). (rngs, \<lparr>ec_extraCharacter = 0, ec_limited = l'\<rparr>))
       (drain fuel (lr_ExtractContiguousRange dr_ExtractContiguousRange) (lr_Empty dr_Empty) m l)"
proof (induction fuel arbitrary: l)
  case (Suc fuel)
  obtain r l' where "lr_ExtractContiguousRange dr_ExtractContiguousRange m l = (r, l')" by fastforce
  with Suc show ?case
    by (simp add: ec_Empty_def ec_ExtractContiguousRange_def option.map_comp comp_def case_prod_beta)
qed simp

lemma sw_ExtraCharacterRanges_eq:
  "sw_ExtraCharacterRanges q n =
     (case drain (n + 1) (lr_ExtractContiguousRange dr_ExtractContiguousRange) (lr_Empty dr_Empty) 65535
             (lr_make ((dr_make q)\<lparr>dr_offset := 2\<rparr>) n)
      of None \<Rightarrow> [] | Some (rngs, _) \<Rightarrow> [4] # rngs)"
proof -
  let ?l = "lr_make ((dr_make q)\<lparr>dr_offset := 2\<rparr>) n"
  have "drain (Suc (n + 1)) ec_ExtractContiguousRange ec_Empty 65535 \<lparr>ec_extraCharacter = 1, ec_limited = ?l\<rparr> =
      map_option (\<lambda>(rngs, r). ([4] # rngs, r))
        (drain (n + 1) ec_ExtractContiguousRange ec_Empty 65535 \<lparr>ec_extraCharacter = 0, ec_limited = ?l\<rparr>)"
    by (subst drain.simps(2)) (simp add: ec_Empty_def ec_ExtractContiguousRange_def del: drain.simps)
  then show ?thesis
    unfolding sw_ExtraCharacterRanges_def drain_behind_operation
    by (simp del: drain.simps split: option.split)
qed

lemma bd_erase_front_size: "bd_erase_front k b = Inr b' \<Longrightarrow> bd_size b' = bd_size b - k"
proof (induction k arbitrary: b)
  case (Suc k)
  from Suc.prems obtain b1 where b1: "bd_Destruct 0 b = Inr b1"
      "bd_erase_front k (b1\<lparr>bd_numAllocated := bd_numAllocated b1 - 1,
         bd_start := bd_index (b1\<lparr>bd_numAllocated := bd_numAllocated b1 - 1\<rparr>) 1\<rparr>) = Inr b'"
    by (auto simp: result_simps Let_def)
  from b1(1) have "bd_numAllocated b1 = bd_numAllocated b"
    by (auto simp: bd_Destruct_def result_simps)
  with Suc.IH [OF b1(2)] show ?case by (simp add: bd_size_def)
qed simp

lemma bd_erase_range_front_size: "bd_erase_range t 0 k b = Inr b' \<Longrightarrow> k \<le> bd_size b \<and> bd_size b' = bd_size b - k"
  using bd_erase_front_size by (auto simp: bd_erase_range_def result_simps)

text \<open>
  \<^verbatim>\<open>TryForwardReceivedMessage\<close> with \<^verbatim>\<open>ForwardReceivedMessage\<close>. When the observer does not keep the reader, the action
  set for the release of the reader runs before the observer returns; it forwards the next message. Each
  message takes at least its length from the deque.
\<close>

function sw_TryForwardReceivedMessage ::
  "encoded_layer \<Rightarrow> nat \<Rightarrow> (byte list \<Rightarrow> bool) \<Rightarrow> sesame_windowed \<Rightarrow> sesame_windowed result" where
  "sw_TryForwardReceivedMessage L info keeps c =
     (if \<not> sw_currentReceiveMessageReader c \<and> \<not> bd_empty (sw_receivedMessage c)
      then checked (2 \<le> bd_size (sw_receivedMessage c))
        (let currentReceiveMessageSize = read_le16 (take 2 (bd_list (sw_receivedMessage c)));
             encodedSize = el_MessageSize L (sw_ExtraCharacterRanges (sw_receivedMessage c) (unat currentReceiveMessageSize))
         in bindR (bd_erase_range True 0 2 (sw_receivedMessage c))
           (\<lambda>q. let message = take (unat currentReceiveMessageSize) (bd_list q);
                    c1 = sw_emit (ObserverReceived message)
                      (c\<lparr>sw_currentReceiveMessageSize := currentReceiveMessageSize, sw_receivedMessage := q,
                         sw_currentReceiveMessageReader := True, sw_readerAction := ForwardAction (of_nat encodedSize),
                         sw_readerReferenced := True\<rparr>)
                in if keeps message then Inr c1
                   else bindR (bd_erase_range True 0 (unat currentReceiveMessageSize) q)
                     (\<lambda>q'. bindR (sw_TryForwardReceivedMessage L info keeps
                               (c1\<lparr>sw_readerReferenced := False, sw_releasedWindow := sw_releasedWindow c1 + of_nat encodedSize,
                                   sw_currentReceiveMessageReader := False, sw_receivedMessage := q'\<rparr>))
                       (\<lambda>c2. Inr (sw_SetNextState L info c2)))))
      else Inr c)"
  by pat_completeness auto
termination
  by (relation "measure (\<lambda>(_, _, _, c). bd_size (sw_receivedMessage c))")
    (auto simp: sw_emit_def dest!: bd_erase_range_front_size)

declare sw_TryForwardReceivedMessage.simps [simp del]

text \<open>The observer lets go of the reader it kept.\<close>

definition sw_ReaderReleased ::
  "encoded_layer \<Rightarrow> nat \<Rightarrow> (byte list \<Rightarrow> bool) \<Rightarrow> sesame_windowed \<Rightarrow> sesame_windowed result" where
  "sw_ReaderReleased L info keeps c =
     (let c1 = c\<lparr>sw_readerReferenced := False\<rparr>
      in case sw_readerAction c1 of
          ForwardAction encodedSize \<Rightarrow>
            bindR (bd_erase_range True 0 (unat (sw_currentReceiveMessageSize c1)) (sw_receivedMessage c1))
              (\<lambda>q. bindR (sw_TryForwardReceivedMessage L info keeps
                       (c1\<lparr>sw_releasedWindow := sw_releasedWindow c1 + encodedSize, sw_currentReceiveMessageReader := False,
                           sw_receivedMessage := q\<rparr>))
                (\<lambda>c2. Inr (sw_SetNextState L info c2)))
        | ResetReadingAction \<Rightarrow>
            bindR (bd_clear True (sw_receivedMessage c1))
              (\<lambda>q. Inr (c1\<lparr>sw_currentReceiveMessageReader := False, sw_currentReceiveMessageSize := 0, sw_receivedMessage := q\<rparr>))
        | NoReaderAction \<Rightarrow> Inr c1)"

definition sw_SaveReceivedMessage ::
  "encoded_layer \<Rightarrow> nat \<Rightarrow> (byte list \<Rightarrow> bool) \<Rightarrow> byte list list \<Rightarrow> sesame_windowed \<Rightarrow> sesame_windowed result" where
  "sw_SaveReceivedMessage L info keeps rngs c =
     bindR (write_all bdw_Insert (le16 (of_nat (length (concat rngs))) # rngs) (sw_receivedMessage c) (ep_make FailByAssertion))
       (\<lambda>(q, p). sw_TryForwardReceivedMessage L info keeps (c\<lparr>sw_receivedMessage := q\<rparr>))"

definition sw_ReceivedInitialize :: "encoded_layer \<Rightarrow> sesame_windowed \<Rightarrow> sesame_windowed" where
  "sw_ReceivedInitialize L c =
     sw_emit ObserverInitialized
       (c\<lparr>sw_maxUsableBufferSize := min (of_nat (el_MaxSendMessageSize L)) (sw_otherAvailableWindow c), sw_initialized := True\<rparr>)"

text \<open>The function \<^verbatim>\<open>ReceivedMessage\<close> hands to the initializer with an init message.\<close>

definition sw_Granted :: "encoded_layer \<Rightarrow> nat \<Rightarrow> window \<Rightarrow> sesame_windowed \<Rightarrow> sesame_windowed" where
  "sw_Granted L info w c =
     sw_SetNextState L info
       (sw_ReceivedInitialize L
         (c\<lparr>sw_otherAvailableWindow := w, sw_sendInitResponse := True, sw_requestingInitialization := False\<rparr>))"

definition sw_InitializationGranted :: "encoded_layer \<Rightarrow> nat \<Rightarrow> sesame_windowed \<Rightarrow> sesame_windowed" where
  "sw_InitializationGranted L info c =
     (case sw_pendingInitialization c of None \<Rightarrow> c
      | Some w \<Rightarrow> sw_Granted L info w (c\<lparr>sw_pendingInitialization := None\<rparr>))"

text \<open>
  The message starts with the byte \<open>operation\<close>; \<open>rngs\<close> are the contiguous ranges in which the reader has the
  rest.
\<close>

definition sw_ReceivedMessage ::
  "encoded_layer \<Rightarrow> nat \<Rightarrow> bool \<Rightarrow> (byte list \<Rightarrow> bool) \<Rightarrow> byte \<Rightarrow> byte list list \<Rightarrow> nat \<Rightarrow> sesame_windowed \<Rightarrow> sesame_windowed result" where
  "sw_ReceivedMessage L info grantNow keeps operation rngs encodedSize c =
     bindR
       (if operation = 1
        then let w = read_le16 (concat rngs);
                 c1 = sw_emit InitializationRequested (c\<lparr>sw_requestingInitialization := True\<rparr>)
             in Inr (if grantNow then sw_Granted L info w c1 else c1\<lparr>sw_pendingInitialization := Some w\<rparr>)
        else if operation = 2
        then let c1 = c\<lparr>sw_otherAvailableWindow := read_le16 (concat rngs), sw_releasedWindow := of_nat encodedSize\<rparr>
             in Inr (if \<not> sw_sentInitResponse c1 \<and> \<not> sw_requestingInitialization c1 then sw_ReceivedInitialize L c1 else c1)
        else if operation = 3
        then Inr (if sw_initialized c
                  then c\<lparr>sw_releasedWindow := sw_releasedWindow c + of_nat encodedSize,
                         sw_otherAvailableWindow := sw_otherAvailableWindow c + read_le16 (concat rngs)\<rparr>
                  else c)
        else if operation = 4
        then if sw_initialized c then sw_SaveReceivedMessage L info keeps rngs c else Inr c
        else Inr c)
       (\<lambda>c'. Inr (sw_SetNextState L info c'))"

end
