(* ===== verification/Sesame_Window_Flow.thy ===== *)
theory Sesame_Window_Flow
  imports Sesame_Windowed
begin

section \<open>Two SesameWindowed peers\<close>

text \<open>
  Two \<^verbatim>\<open>SesameWindowed\<close> objects joined by a channel in each direction, from the moment one of them has answered the
  init message of the other. Every call the surroundings can make is an event: a request of a client, the
  stream of the layer below, the message a client writes, the end of a transmission, the arrival of a
  packet and the release of a reader; they interleave in any order. The theorems: no call fails and the receive
  buffers never overflow; the sizes of what is sent, stored and given back add up to the size of the buffer; every
  message arrives once and in order; and the two never wait for each other for ever.
\<close>

subsection \<open>The system\<close>

datatype phase = NotStarted | Writing | Sending nat

record link =
  lk_peer :: "bool \<Rightarrow> sesame_windowed"
  lk_wire :: "bool \<Rightarrow> byte list list"
  lk_phase :: "bool \<Rightarrow> phase"
  lk_sent :: "bool \<Rightarrow> byte list list"

text \<open>
  \<open>lk_wire k p\<close> are the packets peer \<open>p\<close> has sent that have not arrived, oldest first; \<open>lk_sent k p\<close> are the messages its
  client has written since the start.
\<close>

datatype link_event =
    is_Request: Request bool nat
  | Stream bool
  | Write bool "byte list"
  | Done bool
  | Deliver bool "byte list list" "byte list \<Rightarrow> bool"
  | Release bool "byte list \<Rightarrow> bool"

definition lay :: "encoded_layer \<Rightarrow> (bool \<Rightarrow> nat) \<Rightarrow> bool \<Rightarrow> encoded_layer" where
  "lay L W p = L\<lparr>el_MaxSendMessageSize := W p\<rparr>"

definition packet_size :: "encoded_layer \<Rightarrow> byte list \<Rightarrow> nat" where
  "packet_size L pk = el_MessageSize L [pk]"

definition is_sending_message :: "sesame_windowed \<Rightarrow> bool" where
  "is_sending_message c \<longleftrightarrow> (case sw_state c of StateSendingMessage n \<Rightarrow> True | _ \<Rightarrow> False)"

definition link_enabled :: "encoded_layer \<Rightarrow> (bool \<Rightarrow> nat) \<Rightarrow> link_event \<Rightarrow> link \<Rightarrow> bool" where
  "link_enabled L W e k =
     (case e of
        Request p n \<Rightarrow> sw_requestedSendMessageSize (lk_peer k p) = None
          \<and> (case sw_MaxSendMessageSize (lay L W p) (lk_peer k p) of Inl _ \<Rightarrow> False | Inr m \<Rightarrow> n \<le> m)
      | Stream p \<Rightarrow> sw_sending (lk_peer k p) \<and> lk_phase k p = NotStarted
      | Write p m \<Rightarrow> lk_phase k p = Writing
          \<and> (case sw_state (lk_peer k p) of StateSendingMessage n \<Rightarrow> length m < n | _ \<Rightarrow> False)
      | Done p \<Rightarrow> (case lk_phase k p of Sending n \<Rightarrow> True | _ \<Rightarrow> False)
      | Deliver p rngs keeps \<Rightarrow> lk_wire k (\<not> p) \<noteq> [] \<and> concat rngs = tl (hd (lk_wire k (\<not> p)))
      | Release p keeps \<Rightarrow> sw_readerReferenced (lk_peer k p))"

text \<open>The bytes of the packet a peer writes by itself, as the last event of the call tells.\<close>

definition last_write :: "sesame_windowed \<Rightarrow> byte list" where
  "last_write c = (case last (sw_events c) of EncodedWrite bs \<Rightarrow> bs | _ \<Rightarrow> [])"

definition put_peer :: "bool \<Rightarrow> sesame_windowed \<Rightarrow> link \<Rightarrow> link" where
  "put_peer p c k = k\<lparr>lk_peer := (lk_peer k)(p := c)\<rparr>"

definition put_packet :: "encoded_layer \<Rightarrow> bool \<Rightarrow> byte list \<Rightarrow> link \<Rightarrow> link" where
  "put_packet L p pk k =
     k\<lparr>lk_wire := (lk_wire k)(p := lk_wire k p @ [pk]), lk_phase := (lk_phase k)(p := Sending (packet_size L pk))\<rparr>"

definition link_do :: "encoded_layer \<Rightarrow> (bool \<Rightarrow> nat) \<Rightarrow> link_event \<Rightarrow> link \<Rightarrow> link result" where
  "link_do L W e k =
     (case e of
        Request p n \<Rightarrow> bindR (sw_RequestSendMessage (lay L W p) 0 n (lk_peer k p)) (\<lambda>c. Inr (put_peer p c k))
      | Stream p \<Rightarrow>
          bindR (sw_SendMessageStreamAvailable [] (lk_peer k p))
            (\<lambda>c. Inr (if is_sending_message (lk_peer k p)
                      then put_peer p c (k\<lparr>lk_phase := (lk_phase k)(p := Writing)\<rparr>)
                      else put_packet L p (last_write c) (put_peer p c k)))
      | Write p m \<Rightarrow> Inr (put_packet L p (4 # m) (k\<lparr>lk_sent := (lk_sent k)(p := lk_sent k p @ [m])\<rparr>))
      | Done p \<Rightarrow>
          (case lk_phase k p of
             Sending n \<Rightarrow> Inr (put_peer p (sw_MessageSent (lay L W p) 0 n (lk_peer k p))
                                (k\<lparr>lk_phase := (lk_phase k)(p := NotStarted)\<rparr>))
           | _ \<Rightarrow> Inr k)
      | Deliver p rngs keeps \<Rightarrow>
          bindR (sw_ReceivedMessage (lay L W p) 0 True keeps (hd (hd (lk_wire k (\<not> p)))) rngs
                   (packet_size L (hd (lk_wire k (\<not> p)))) (lk_peer k p))
            (\<lambda>c. Inr (put_peer p c (k\<lparr>lk_wire := (lk_wire k)(\<not> p := tl (lk_wire k (\<not> p)))\<rparr>)))
      | Release p keeps \<Rightarrow> bindR (sw_ReaderReleased (lay L W p) 0 keeps (lk_peer k p)) (\<lambda>c. Inr (put_peer p c k)))"

text \<open>
  The start: both peers were made and sent their init message; that of the responder \<^term>\<open>False\<close> was lost, that of
  the initiator \<^term>\<open>True\<close> has arrived, and the responder has written its init response.
\<close>

definition link_init_sent :: "encoded_layer \<Rightarrow> (bool \<Rightarrow> nat) \<Rightarrow> byte \<Rightarrow> byte bounded_deque \<Rightarrow> bool \<Rightarrow> sesame_windowed result" where
  "link_init_sent L W split q p =
     bindR (sw_SendMessageStreamAvailable [] (sw_make (lay L W p) 0 q split))
       (\<lambda>c. Inr (sw_MessageSent (lay L W p) 0 (packet_size L (last_write c)) c))"

definition link_start :: "encoded_layer \<Rightarrow> (bool \<Rightarrow> nat) \<Rightarrow> byte \<Rightarrow> (bool \<Rightarrow> byte bounded_deque) \<Rightarrow> link result" where
  "link_start L W split qs =
     bindR (link_init_sent L W split (qs True) True)
       (\<lambda>a. bindR (link_init_sent L W split (qs False) False)
         (\<lambda>b. let pk = sw_PacketInit (sw_ownBufferSize a)
               in bindR (sw_ReceivedMessage (lay L W False) 0 True (\<lambda>_. False) (hd pk) [tl pk] (packet_size L pk) b)
                 (\<lambda>b1. bindR (sw_SendMessageStreamAvailable [] b1)
                   (\<lambda>b2. Inr (put_packet L False (last_write b2)
                        \<lparr>lk_peer = (\<lambda>p. if p then a else b2), lk_wire = (\<lambda>_. []), lk_phase = (\<lambda>_. NotStarted),
                         lk_sent = (\<lambda>_. [])\<rparr>)))))"

inductive link_reach :: "encoded_layer \<Rightarrow> (bool \<Rightarrow> nat) \<Rightarrow> byte \<Rightarrow> (bool \<Rightarrow> byte bounded_deque) \<Rightarrow> link \<Rightarrow> bool"
  for L W split qs where
  link_reach_start: "link_start L W split qs = Inr k \<Longrightarrow> link_reach L W split qs k"
| link_reach_step: "link_reach L W split qs k \<Longrightarrow> link_enabled L W e k \<Longrightarrow> link_do L W e k = Inr k' \<Longrightarrow>
    link_reach L W split qs k'"

subsection \<open>What setting the next state does\<close>

text \<open>The fields that receiving leaves alone, and those that setting the next state leaves alone.\<close>

definition same_tx :: "sesame_windowed \<Rightarrow> sesame_windowed \<Rightarrow> bool" where
  "same_tx c c' \<longleftrightarrow> sw_splitBuffers c' = sw_splitBuffers c \<and> sw_ownBufferSize c' = sw_ownBufferSize c
     \<and> sw_releaseWindowSize c' = sw_releaseWindowSize c \<and> sw_initialized c' = sw_initialized c
     \<and> sw_sentInitResponse c' = sw_sentInitResponse c \<and> sw_otherAvailableWindow c' = sw_otherAvailableWindow c
     \<and> sw_maxUsableBufferSize c' = sw_maxUsableBufferSize c \<and> sw_requestingInitialization c' = sw_requestingInitialization c
     \<and> sw_pendingInitialization c' = sw_pendingInitialization c \<and> sw_sendInitResponse c' = sw_sendInitResponse c
     \<and> sw_sending c' = sw_sending c \<and> sw_requestedSendMessageSize c' = sw_requestedSendMessageSize c \<and> sw_state c' = sw_state c"

definition sw_received :: "sesame_windowed \<Rightarrow> byte list list" where
  "sw_received c = concat (map (\<lambda>e. case e of ObserverReceived m \<Rightarrow> [m] | _ \<Rightarrow> []) (sw_events c))"

definition wants_message :: "encoded_layer \<Rightarrow> sesame_windowed \<Rightarrow> bool" where
  "wants_message L c \<longleftrightarrow> (case sw_requestedSendMessageSize c of None \<Rightarrow> False
     | Some n \<Rightarrow> el_WorstCaseEncodedMessageSize L (n + 1) + unat (sw_releaseWindowSize c) \<le> unat (sw_otherAvailableWindow c))"

definition wants_release :: "sesame_windowed \<Rightarrow> bool" where
  "wants_release c \<longleftrightarrow>
     int_div (int (unat (sw_ownBufferSize c)) - int (unat (sw_releaseWindowSize c))) (int (unat (sw_splitBuffers c)))
       \<le> int (unat (sw_releasedWindow c))
     \<and> sw_releaseWindowSize c \<le> sw_otherAvailableWindow c"

lemma sw_received_simps [simp]:
  "sw_received (c\<lparr>sw_state := st\<rparr>) = sw_received c" "sw_received (c\<lparr>sw_sending := sg\<rparr>) = sw_received c"
  "sw_received (c\<lparr>sw_releasedWindow := r\<rparr>) = sw_received c" "sw_received (c\<lparr>sw_otherAvailableWindow := r\<rparr>) = sw_received c"
  "sw_received (c\<lparr>sw_requestedSendMessageSize := n\<rparr>) = sw_received c" "sw_received (c\<lparr>sw_maxUsableBufferSize := r\<rparr>) = sw_received c"
  "sw_received (c\<lparr>sw_initialized := b\<rparr>) = sw_received c" "sw_received (c\<lparr>sw_sendInitResponse := b\<rparr>) = sw_received c"
  "sw_received (c\<lparr>sw_requestingInitialization := b\<rparr>) = sw_received c" "sw_received (c\<lparr>sw_sentInitResponse := b\<rparr>) = sw_received c"
  "sw_received (sw_emit e c) = sw_received c @ (case e of ObserverReceived m \<Rightarrow> [m] | _ \<Rightarrow> [])"
  by (simp_all add: sw_received_def sw_emit_def)

lemma wants_state [simp]:
  "wants_message L (c\<lparr>sw_state := st\<rparr>) = wants_message L c" "wants_release (c\<lparr>sw_state := st\<rparr>) = wants_release c"
  by (simp_all add: wants_message_def wants_release_def split: option.splits)

lemma int_div_nat: "b \<le> a \<Longrightarrow> int_div (int a - int b) (int d) = int ((a - b) div d)"
  by (simp add: int_div_def of_nat_diff [symmetric] zdiv_int [symmetric] del: of_nat_diff)

text \<open>With a channel that is in use, setting the next state does one of four things.\<close>

lemma SetNextState_cases:
  assumes "sw_initialized c" and "\<not> sw_sendInitResponse c"
  obtains (busy) "sw_sending c" "sw_SetNextState L info c = c"
  | (message) n where "\<not> sw_sending c" "sw_requestedSendMessageSize c = Some n" "wants_message L c"
      "sw_SetNextState L info c = sw_emit (EncodedRequestSendMessage (n + 1)) (c\<lparr>sw_state := StateSendingMessage (n + 1), sw_sending := True\<rparr>)"
  | (release) "\<not> sw_sending c" "\<not> wants_message L c" "wants_release c"
      "sw_SetNextState L info c = sw_emit (EncodedRequestSendMessage 3) (c\<lparr>sw_state := StateSendingReleaseWindow, sw_sending := True\<rparr>)"
  | (idle) "\<not> sw_sending c" "\<not> wants_message L c" "\<not> wants_release c"
      "sw_SetNextState L info c = c\<lparr>sw_state := StateOperational\<rparr>"
proof (cases "sw_sending c")
  case True
  then show ?thesis using busy by (simp add: sw_SetNextState_def)
next
  case False
  note next_def = sw_SetNextState_def [of L info c, folded wants_message_def wants_release_def]
  show ?thesis
  proof (cases "wants_message L c")
    case True
    then obtain n where "sw_requestedSendMessageSize c = Some n" by (auto simp: wants_message_def split: option.splits)
    with True False assms message [of n] show ?thesis by (simp add: next_def)
  next
    case no: False
    with False assms release idle show ?thesis by (cases "wants_release c") (simp_all add: next_def)
  qed
qed

lemma SetNextState_not_initialized: "\<not> sw_initialized c \<Longrightarrow> sw_SetNextState L info c = c"
  by (simp add: sw_SetNextState_def)

lemma SetNextState_busy: "sw_sending c \<Longrightarrow> sw_SetNextState L info c = c"
  by (simp add: sw_SetNextState_def)

lemma SetNextState_idem:
  assumes "sw_initialized c" and "\<not> sw_sendInitResponse c"
  shows "sw_SetNextState L info (sw_SetNextState L info c) = sw_SetNextState L info c"
  using assms
proof (cases rule: SetNextState_cases [where L = L and info = info])
  case idle
  then show ?thesis
    using assms by (simp add: sw_SetNextState_def [of L info "c\<lparr>sw_state := StateOperational\<rparr>", folded wants_message_def wants_release_def])
qed (use assms in \<open>simp_all add: SetNextState_busy sw_emit_def\<close>)

text \<open>What setting the next state keeps in every case.\<close>

lemma SetNextState_same [simp]:
  "sw_receivedMessage (sw_SetNextState L info c) = sw_receivedMessage c"
  "sw_splitBuffers (sw_SetNextState L info c) = sw_splitBuffers c"
  "sw_ownBufferSize (sw_SetNextState L info c) = sw_ownBufferSize c"
  "sw_releaseWindowSize (sw_SetNextState L info c) = sw_releaseWindowSize c"
  "sw_initialized (sw_SetNextState L info c) = sw_initialized c"
  "sw_currentReceiveMessageSize (sw_SetNextState L info c) = sw_currentReceiveMessageSize c"
  "sw_currentReceiveMessageReader (sw_SetNextState L info c) = sw_currentReceiveMessageReader c"
  "sw_readerReferenced (sw_SetNextState L info c) = sw_readerReferenced c"
  "sw_readerAction (sw_SetNextState L info c) = sw_readerAction c"
  "sw_otherAvailableWindow (sw_SetNextState L info c) = sw_otherAvailableWindow c"
  "sw_maxUsableBufferSize (sw_SetNextState L info c) = sw_maxUsableBufferSize c"
  "sw_releasedWindow (sw_SetNextState L info c) = sw_releasedWindow c"
  "sw_requestingInitialization (sw_SetNextState L info c) = sw_requestingInitialization c"
  "sw_sendInitResponse (sw_SetNextState L info c) = sw_sendInitResponse c"
  "sw_requestedSendMessageSize (sw_SetNextState L info c) = sw_requestedSendMessageSize c"
  "sw_received (sw_SetNextState L info c) = sw_received c"
  by (simp_all add: sw_SetNextState_def sw_emit_def sw_received_def)

subsection \<open>Storing and forwarding messages\<close>

text \<open>A message in the receive buffer has its length in front of it.\<close>

definition stored :: "byte list \<Rightarrow> byte list" where
  "stored m = le16 (of_nat (length m)) @ m"

definition short :: "byte list list \<Rightarrow> bool" where
  "short ms \<longleftrightarrow> (\<forall>m\<in>set ms. length m < 65536)"

text \<open>
  The peer holds the messages \<open>ms\<close>: the observer has the reader of the first, the others wait behind it.
  Messages wait only while a reader is in use.
\<close>

definition holds :: "(byte list \<Rightarrow> nat) \<Rightarrow> sesame_windowed \<Rightarrow> byte list list \<Rightarrow> bool" where
  "holds enc c ms \<longleftrightarrow> bd_inv (sw_receivedMessage c) \<and> short ms
     \<and> (case ms of
          [] \<Rightarrow> \<not> sw_currentReceiveMessageReader c \<and> \<not> sw_readerReferenced c \<and> bd_list (sw_receivedMessage c) = []
        | m # ms' \<Rightarrow> sw_currentReceiveMessageReader c \<and> sw_readerReferenced c
            \<and> bd_list (sw_receivedMessage c) = m @ concat (map stored ms')
            \<and> sw_currentReceiveMessageSize c = of_nat (length m) \<and> sw_readerAction c = ForwardAction (of_nat (enc m)))"

definition total_size :: "(byte list \<Rightarrow> nat) \<Rightarrow> byte list list \<Rightarrow> nat" where
  "total_size f ms = sum_list (map f ms)"

lemma total_size_simps [simp]:
  "total_size f [] = 0" "total_size f (m # ms) = f m + total_size f ms"
  "total_size f (ms @ ms') = total_size f ms + total_size f ms'"
  by (simp_all add: total_size_def)

lemma unat_short: "length m < 65536 \<Longrightarrow> unat (of_nat (length m) :: window) = length m"
  by (simp add: unat_of_nat)

lemma same_tx_refl [simp]: "same_tx c c"
  by (simp add: same_tx_def)

lemma same_tx_trans: "same_tx c c1 \<Longrightarrow> same_tx c1 c2 \<Longrightarrow> same_tx c c2"
  by (simp add: same_tx_def)

lemma same_tx_rx:
  "same_tx c c1 \<Longrightarrow> same_tx c (c1\<lparr>sw_receivedMessage := q\<rparr>)"
  "same_tx c c1 \<Longrightarrow> same_tx c (c1\<lparr>sw_readerReferenced := b\<rparr>)"
  "same_tx c c1 \<Longrightarrow> same_tx c (c1\<lparr>sw_releasedWindow := w\<rparr>)"
  "same_tx c c1 \<Longrightarrow> same_tx c (c1\<lparr>sw_currentReceiveMessageReader := b\<rparr>)"
  "same_tx c c1 \<Longrightarrow> same_tx c (c1\<lparr>sw_currentReceiveMessageSize := w\<rparr>)"
  "same_tx c c1 \<Longrightarrow> same_tx c (c1\<lparr>sw_readerAction := a\<rparr>)"
  "same_tx c c1 \<Longrightarrow> same_tx c (sw_emit e c1)"
  by (simp_all add: same_tx_def sw_emit_def)

lemma bd_pop_front_bytes:
  assumes "bd_inv q" and "bd_list q = xs @ ys"
  obtains q' where "bd_erase_range True 0 (length xs) q = Inr q'" "bd_inv q'" "bd_list q' = ys" "bd_max_size q' = bd_max_size q"
proof -
  have "length xs \<le> bd_size q" using arg_cong [OF assms(2), of length] assms(1) by simp
  with bd_erase_front_pops [OF assms(1), of "length xs"] assms(2) that show thesis
    by (auto simp: bd_erase_range_def)
qed

lemma ExtraCharacterRanges_concat:
  assumes "bd_inv q" and "bd_list q = stored m @ rest" and "length m < 65536" and "bd_max_size q < 2 ^ 32"
  shows "concat (sw_ExtraCharacterRanges q (length m)) = 4 # m"
proof -
  let ?r = "lr_make ((dr_make q)\<lparr>dr_offset := 2\<rparr>) (length m)"
  have size: "bd_size q = length m + 2 + length rest" "bd_size q \<le> bd_max_size q"
    using arg_cong [OF assms(2), of length] assms(1) bd_inv_bounds [OF assms(1)] by (simp_all add: stored_def)
  have ok: "lr_ok dr_ok dr_bytes dr_offset ?r"
    using assms size by (simp add: lr_ok_def lr_make_def dr_make_def dr_ok_def dr_bytes_def stored_def)
  have bytes: "lr_dr.unread ?r = m"
    using assms(2) by (simp add: lr_dr.unread_def lr_bytes_def lr_pos_def lr_make_def dr_make_def dr_bytes_def stored_def)
  obtain rs s where "drain (Suc (length m)) (lr_ExtractContiguousRange dr_ExtractContiguousRange) (lr_Empty dr_Empty) 65535 ?r = Some (rs, s)"
      "concat rs = m"
    using lr_dr.drain_reads_all [of 65535 ?r "Suc (length m)"] ok bytes by auto
  then show ?thesis by (simp add: sw_ExtraCharacterRanges_eq)
qed

lemma read_le16_stored: "read_le16 (take 2 (stored m @ rest)) = of_nat (length m)"
  using read_le16_le16 [of "of_nat (length m)" "[]"] by (simp add: stored_def)

lemma lay_sel [simp]:
  "el_MessageSize (lay L W p) = el_MessageSize L" "el_MaxSendMessageSize (lay L W p) = W p"
  "el_WorstCaseEncodedMessageSize (lay L W p) = el_WorstCaseEncodedMessageSize L"
  "el_WorstCaseDecodedMessageSize (lay L W p) = el_WorstCaseDecodedMessageSize L"
  by (simp_all add: lay_def)

text \<open>The layer below, with its laws; an encoding is longer than what it encodes by two bytes at least.\<close>

locale windowed_layer =
  sesame_encoded wire "el_MessageSize L" "el_WorstCaseEncodedMessageSize L" "el_WorstCaseDecodedMessageSize L"
  for wire and L :: encoded_layer +
  assumes overhead: "length m + 2 \<le> length (wire m)"
begin

definition enc :: "byte list \<Rightarrow> nat" where
  "enc m = length (wire (4 # m))"

lemma TryForward_correct:
  assumes "\<not> sw_currentReceiveMessageReader c" and "\<not> sw_readerReferenced c" and "bd_inv (sw_receivedMessage c)"
    and "bd_list (sw_receivedMessage c) = concat (map stored ms)" and "short ms" and "bd_max_size (sw_receivedMessage c) < 2 ^ 32"
    and "sw_initialized c" and "\<not> sw_sendInitResponse c"
  shows "\<exists>b c1 d ms'. sw_TryForwardReceivedMessage (lay L W p) info keeps c
        = Inr (if b then sw_SetNextState (lay L W p) info c1 else c1)
    \<and> same_tx c c1 \<and> holds enc c1 ms' \<and> ms = d @ ms' \<and> sw_received c1 = sw_received c @ d @ take 1 ms'
    \<and> sw_releasedWindow c1 = sw_releasedWindow c + of_nat (total_size enc d)
    \<and> bd_max_size (sw_receivedMessage c1) = bd_max_size (sw_receivedMessage c)"
  using assms
proof (induction ms arbitrary: c)
  case Nil
  then have "bd_empty (sw_receivedMessage c)"
    using length_bd_list [OF Nil.prems(3)] by (simp add: bd_empty_def bd_size_def)
  then have "sw_TryForwardReceivedMessage (lay L W p) info keeps c = Inr c"
    by (subst sw_TryForwardReceivedMessage.simps) simp
  moreover have "holds enc c []" using Nil.prems by (simp add: holds_def short_def)
  ultimately show ?case by (intro exI [of _ False] exI [of _ c] exI [of _ "[]"]) simp
next
  case (Cons m ms)
  let ?q = "sw_receivedMessage c" and ?rest = "concat (map stored ms)"
  have m: "length m < 65536" "short ms" using Cons.prems(5) by (simp_all add: short_def)
  have q: "bd_list ?q = stored m @ ?rest" using Cons.prems(4) by simp
  have size: "2 \<le> bd_size ?q" using arg_cong [OF q, of length] Cons.prems(3) by (simp add: stored_def)
  then have ne: "\<not> bd_empty ?q" by (auto simp: bd_empty_def bd_size_def)
  have "bd_list ?q = le16 (of_nat (length m)) @ (m @ ?rest)" using q by (simp add: stored_def)
  from bd_pop_front_bytes [OF Cons.prems(3) this] obtain q1 where
    q1: "bd_erase_range True 0 2 ?q = Inr q1" "bd_inv q1" "bd_list q1 = m @ ?rest" "bd_max_size q1 = bd_max_size ?q" by auto
  from bd_pop_front_bytes [OF q1(2,3)] obtain q2 where
    q2: "bd_erase_range True 0 (length m) q1 = Inr q2" "bd_inv q2" "bd_list q2 = ?rest" "bd_max_size q2 = bd_max_size q1" .
  define cs where "cs = sw_emit (ObserverReceived m) (c\<lparr>sw_currentReceiveMessageSize := of_nat (length m), sw_receivedMessage := q1,
    sw_currentReceiveMessageReader := True, sw_readerAction := ForwardAction (of_nat (enc m)), sw_readerReferenced := True\<rparr>)"
  define c3 where "c3 = cs\<lparr>sw_readerReferenced := False, sw_releasedWindow := sw_releasedWindow cs + of_nat (enc m),
    sw_currentReceiveMessageReader := False, sw_receivedMessage := q2\<rparr>"
  have encs: "el_MessageSize L (sw_ExtraCharacterRanges ?q (length m)) = enc m"
    using ExtraCharacterRanges_concat [OF Cons.prems(3) q m(1) Cons.prems(6)] by (simp add: message_size enc_def)
  have len16: "read_le16 (take 2 (bd_list ?q)) = of_nat (length m)" unfolding q by (rule read_le16_stored)
  have step: "sw_TryForwardReceivedMessage (lay L W p) info keeps c =
      (if keeps m then Inr cs
       else bindR (sw_TryForwardReceivedMessage (lay L W p) info keeps c3) (\<lambda>c2. Inr (sw_SetNextState (lay L W p) info c2)))"
    by (subst sw_TryForwardReceivedMessage.simps)
      (use Cons.prems(1) ne size q1 q2(1) m(1) in \<open>simp add: len16 unat_short Let_def encs cs_def c3_def\<close>)
  have tx: "same_tx c cs" "same_tx c c3" by (simp_all add: cs_def c3_def same_tx_rx)
  have rcv: "sw_received cs = sw_received c @ [m]" "sw_received c3 = sw_received c @ [m]"
    by (simp_all add: cs_def c3_def sw_received_def sw_emit_def)
  show ?case
  proof (cases "keeps m")
    case True
    have "holds enc cs (m # ms)"
      using q1 Cons.prems(5) by (simp add: holds_def cs_def sw_emit_def)
    with True step tx rcv q1(4) show ?thesis
      by (intro exI [of _ False] exI [of _ cs] exI [of _ "[]"] exI [of _ "m # ms"]) (simp add: cs_def sw_emit_def)
  next
    case False
    have c3: "\<not> sw_currentReceiveMessageReader c3" "\<not> sw_readerReferenced c3" "sw_receivedMessage c3 = q2"
        "sw_initialized c3" "\<not> sw_sendInitResponse c3" "sw_releasedWindow c3 = sw_releasedWindow c + of_nat (enc m)"
      using Cons.prems(7,8) by (simp_all add: c3_def cs_def sw_emit_def)
    obtain b c1 d ms' where ih: "sw_TryForwardReceivedMessage (lay L W p) info keeps c3
          = Inr (if b then sw_SetNextState (lay L W p) info c1 else c1)"
        "same_tx c3 c1" "holds enc c1 ms'" "ms = d @ ms'" "sw_received c1 = sw_received c3 @ d @ take 1 ms'"
        "sw_releasedWindow c1 = sw_releasedWindow c3 + of_nat (total_size enc d)"
        "bd_max_size (sw_receivedMessage c1) = bd_max_size (sw_receivedMessage c3)"
      using Cons.IH [of c3] c3 q2 q1(4) m(2) Cons.prems(6) by auto
    have "sw_initialized c1" "\<not> sw_sendInitResponse c1" using ih(2) c3(4,5) by (simp_all add: same_tx_def)
    then have "sw_SetNextState (lay L W p) info (if b then sw_SetNextState (lay L W p) info c1 else c1) = sw_SetNextState (lay L W p) info c1"
      using SetNextState_idem by simp
    then show ?thesis using False step ih tx(2) rcv(2) c3(3,6) q2(4) q1(4)
      by (intro exI [of _ True] exI [of _ c1] exI [of _ "m # d"] exI [of _ ms']) (auto intro: same_tx_trans)
  qed
qed

text \<open>The same for a peer that holds messages: releasing the reader, and storing one more message.\<close>

lemma ReaderReleased_correct:
  assumes h: "holds enc c (m # ms)" and "bd_max_size (sw_receivedMessage c) < 2 ^ 32"
    and "sw_initialized c" and "\<not> sw_sendInitResponse c"
  shows "\<exists>c1 d ms'. sw_ReaderReleased (lay L W p) info keeps c = Inr (sw_SetNextState (lay L W p) info c1)
    \<and> same_tx c c1 \<and> holds enc c1 ms' \<and> ms = d @ ms' \<and> sw_received c1 = sw_received c @ d @ take 1 ms'
    \<and> sw_releasedWindow c1 = sw_releasedWindow c + of_nat (enc m + total_size enc d)
    \<and> bd_max_size (sw_receivedMessage c1) = bd_max_size (sw_receivedMessage c)"
proof -
  let ?q = "sw_receivedMessage c"
  have q: "bd_inv ?q" "bd_list ?q = m @ concat (map stored ms)" "length m < 65536" "short ms"
      "sw_currentReceiveMessageSize c = of_nat (length m)" "sw_readerAction c = ForwardAction (of_nat (enc m))"
    using h by (simp_all add: holds_def short_def)
  from bd_pop_front_bytes [OF q(1,2)] obtain q1 where
    q1: "bd_erase_range True 0 (length m) ?q = Inr q1" "bd_inv q1" "bd_list q1 = concat (map stored ms)" "bd_max_size q1 = bd_max_size ?q" .
  define c3 where "c3 = c\<lparr>sw_readerReferenced := False, sw_releasedWindow := sw_releasedWindow c + of_nat (enc m),
    sw_currentReceiveMessageReader := False, sw_receivedMessage := q1\<rparr>"
  have c3: "\<not> sw_currentReceiveMessageReader c3" "\<not> sw_readerReferenced c3" "sw_receivedMessage c3 = q1" "same_tx c c3"
      "sw_initialized c3" "\<not> sw_sendInitResponse c3" "sw_releasedWindow c3 = sw_releasedWindow c + of_nat (enc m)" "sw_received c3 = sw_received c"
    using assms(3,4) by (simp_all add: c3_def same_tx_rx sw_received_def)
  obtain b c1 d ms' where ih: "sw_TryForwardReceivedMessage (lay L W p) info keeps c3
        = Inr (if b then sw_SetNextState (lay L W p) info c1 else c1)"
      "same_tx c3 c1" "holds enc c1 ms'" "ms = d @ ms'" "sw_received c1 = sw_received c3 @ d @ take 1 ms'"
      "sw_releasedWindow c1 = sw_releasedWindow c3 + of_nat (total_size enc d)"
      "bd_max_size (sw_receivedMessage c1) = bd_max_size (sw_receivedMessage c3)"
    using TryForward_correct [OF c3(1,2), of ms W p info keeps] c3(3,5,6) q1 q(4) assms(2) by auto
  have "sw_initialized c1" "\<not> sw_sendInitResponse c1" using ih(2) c3(5,6) by (simp_all add: same_tx_def)
  then have "sw_SetNextState (lay L W p) info (if b then sw_SetNextState (lay L W p) info c1 else c1) = sw_SetNextState (lay L W p) info c1"
    using SetNextState_idem by simp
  then have "sw_ReaderReleased (lay L W p) info keeps c = Inr (sw_SetNextState (lay L W p) info c1)"
    using q(3,5,6) q1(1) ih(1) by (simp add: sw_ReaderReleased_def unat_short c3_def)
  then show ?thesis using ih c3(3,4,7,8) q1(4)
    by (intro exI [of _ c1] exI [of _ d] exI [of _ ms']) (auto intro: same_tx_trans)
qed

lemma enc_length: "length m + 3 \<le> enc m"
  using overhead [of "4 # m"] by (simp add: enc_def)

lemma held_size:
  assumes "holds enc c ms"
  shows "bd_size (sw_receivedMessage c) \<le> total_size enc ms"
proof -
  have st: "length (concat (map stored xs)) \<le> total_size enc xs" for xs
  proof (induction xs)
    case (Cons x xs)
    then show ?case using enc_length [of x] by (simp add: stored_def)
  qed simp
  have inv: "bd_inv (sw_receivedMessage c)" using assms by (simp add: holds_def)
  show ?thesis
  proof (cases ms)
    case Nil
    then show ?thesis using assms length_bd_list [OF inv] by (simp add: holds_def)
  next
    case (Cons m ms')
    then have "bd_size (sw_receivedMessage c) = length m + length (concat (map stored ms'))"
      using assms length_bd_list [OF inv] by (simp add: holds_def)
    then show ?thesis using st [of ms'] enc_length [of m] Cons by simp
  qed
qed

lemma SaveReceivedMessage_correct:
  assumes h: "holds enc c ms" and m: "length (concat rngs) < 65536"
    and room: "total_size enc (ms @ [concat rngs]) \<le> bd_max_size (sw_receivedMessage c)"
    and max: "bd_max_size (sw_receivedMessage c) < 2 ^ 32" and i: "sw_initialized c" "\<not> sw_sendInitResponse c"
  shows "\<exists>b c1 d ms'. sw_SaveReceivedMessage (lay L W p) info keeps rngs c = Inr (if b then sw_SetNextState (lay L W p) info c1 else c1)
    \<and> same_tx c c1 \<and> holds enc c1 ms' \<and> ms @ [concat rngs] = d @ ms'
    \<and> sw_received c1 @ tl ms' = sw_received c @ tl ms @ [concat rngs]
    \<and> sw_releasedWindow c1 = sw_releasedWindow c + of_nat (total_size enc d)
    \<and> bd_max_size (sw_receivedMessage c1) = bd_max_size (sw_receivedMessage c)"
proof -
  let ?q = "sw_receivedMessage c" and ?m = "concat rngs"
  have inv: "bd_inv ?q" using h by (simp add: holds_def)
  have fits: "length (concat (le16 (of_nat (length ?m)) # rngs)) \<le> bdw_Available ?q"
    using room held_size [OF h] enc_length [of ?m] by (simp add: bdw_Available_def)
  from bdw.write_all_fits [OF inv fits, of "ep_make FailByAssertion"] obtain q pl where
    q: "write_all bdw_Insert (le16 (of_nat (length ?m)) # rngs) ?q (ep_make FailByAssertion) = Inr (q, pl)"
      "bd_inv q" "bd_list q = bd_list ?q @ stored ?m" "bdw_Available q = bdw_Available ?q - (length ?m + 2)"
    by (auto simp: stored_def)
  have qmax: "bd_max_size q = bd_max_size ?q"
  proof -
    have "bd_size q = bd_size ?q + (length ?m + 2)" using arg_cong [OF q(3), of length] q(2) inv by (simp add: stored_def)
    moreover have "bd_max_size q - bd_size q = bd_max_size ?q - bd_size ?q - (length ?m + 2)" "length ?m + 2 \<le> bd_max_size ?q - bd_size ?q"
      using q(4) fits by (simp_all add: bdw_Available_def)
    ultimately show ?thesis using bd_inv_bounds [OF inv] bd_inv_bounds [OF q(2)] by linarith
  qed
  let ?c = "c\<lparr>sw_receivedMessage := q\<rparr>"
  show ?thesis
  proof (cases ms)
    case Nil
    from Nil h have rc: "\<not> sw_currentReceiveMessageReader ?c" "\<not> sw_readerReferenced ?c" "bd_list q = concat (map stored [?m])"
      using q(3) by (simp_all add: holds_def)
    obtain b c1 d ms' where f: "sw_TryForwardReceivedMessage (lay L W p) info keeps ?c
          = Inr (if b then sw_SetNextState (lay L W p) info c1 else c1)" "same_tx ?c c1" "holds enc c1 ms'" "[?m] = d @ ms'"
        "sw_received c1 = sw_received ?c @ d @ take 1 ms'" "sw_releasedWindow c1 = sw_releasedWindow ?c + of_nat (total_size enc d)"
        "bd_max_size (sw_receivedMessage c1) = bd_max_size (sw_receivedMessage ?c)"
      using TryForward_correct [OF rc(1,2), of "[?m]" W p info keeps] rc(3) q(2) qmax max m i by (auto simp: short_def)
    have "sw_received c1 @ tl ms' = sw_received c @ [?m]"
      using f(4,5) by (cases d) (auto simp: sw_received_def)
    then show ?thesis using f q(1) Nil qmax same_tx_trans [OF same_tx_rx(1) [OF same_tx_refl] f(2)]
      by (intro exI [of _ b] exI [of _ c1] exI [of _ d] exI [of _ ms']) (simp add: sw_SaveReceivedMessage_def)
  next
    case (Cons x xs)
    then have "sw_currentReceiveMessageReader ?c" using h by (simp add: holds_def)
    then have "sw_TryForwardReceivedMessage (lay L W p) info keeps ?c = Inr ?c"
      by (subst sw_TryForwardReceivedMessage.simps) simp
    moreover have "holds enc ?c (ms @ [?m])" using h Cons q(2,3) m by (auto simp: holds_def short_def)
    ultimately show ?thesis using q(1) Cons qmax
      by (intro exI [of _ False] exI [of _ ?c] exI [of _ "[]"] exI [of _ "ms @ [?m]"])
        (simp add: sw_SaveReceivedMessage_def same_tx_rx sw_received_def)
  qed
qed

end

subsection \<open>The configuration and the invariant\<close>

text \<open>The window a packet gives back, the bytes of the packet that is being sent, and the messages among packets.\<close>

definition win :: "byte list \<Rightarrow> nat" where
  "win pk = (if hd pk = 2 \<or> hd pk = 3 then unat (read_le16 (tl pk)) else 0)"

definition pend :: "phase \<Rightarrow> nat" where
  "pend ph = (case ph of Sending n \<Rightarrow> n | _ \<Rightarrow> 0)"

text \<open>The room the peer knows of at the other side, less what it is sending at the moment.\<close>

definition room :: "sesame_windowed \<Rightarrow> phase \<Rightarrow> nat" where
  "room c ph = unat (sw_otherAvailableWindow c - of_nat (pend ph))"

definition messages :: "byte list list \<Rightarrow> byte list list" where
  "messages pks = map tl (filter (\<lambda>pk. hd pk = 4) pks)"

definition plain :: "byte list \<Rightarrow> bool" where
  "plain pk \<longleftrightarrow> (\<exists>m. pk = 4 # m) \<or> (\<exists>w. pk = sw_PacketReleaseWindow w)"

text \<open>
  \<open>W p\<close> is the buffer size peer \<open>p\<close> announces, \<open>split\<close> the number of parts the buffers are split into. The receive
  buffers are empty and at least as large as announced, and a message of some size can be sent.
\<close>

locale windowed_link = windowed_layer +
  fixes W :: "bool \<Rightarrow> nat"
    and split :: byte
    and qs :: "bool \<Rightarrow> byte bounded_deque"
  assumes windows: "W p < 65536"
    and split2: "2 \<le> unat split"
    and reserve: "el_WorstCaseEncodedMessageSize L 3 + unat split * el_WorstCaseEncodedMessageSize L 3 \<le> W p"
    and usable: "0 < el_WorstCaseDecodedMessageSize L ((min (W True) (W False) - el_WorstCaseEncodedMessageSize L 3) div unat split)"
    and buffers: "bd_inv (qs p)" "bd_list (qs p) = []" "W p \<le> bd_max_size (qs p)" "bd_max_size (qs p) < 2 ^ 32"
begin

abbreviation worst :: "nat \<Rightarrow> nat" where
  "worst \<equiv> el_WorstCaseEncodedMessageSize L"

definition rs :: nat where
  "rs = worst 3"

definition thr :: "bool \<Rightarrow> nat" where
  "thr p = (W p - rs) div unat split"

definition limit :: nat where
  "limit = (min (W True) (W False) - rs) div unat split"

definition psize :: "byte list \<Rightarrow> nat" where
  "psize pk = length (wire pk)"

definition static :: "bool \<Rightarrow> sesame_windowed \<Rightarrow> bool" where
  "static p c \<longleftrightarrow> sw_splitBuffers c = split \<and> sw_ownBufferSize c = of_nat (W p) \<and> sw_releaseWindowSize c = of_nat rs
     \<and> \<not> sw_sendInitResponse c \<and> \<not> sw_requestingInitialization c
     \<and> bd_max_size (sw_receivedMessage c) = bd_max_size (qs p)
     \<and> (sw_initialized c \<longrightarrow> sw_maxUsableBufferSize c = of_nat (min (W True) (W False)))"

text \<open>The peer has something to send and room for it, or nothing to do.\<close>

definition committed :: "bool \<Rightarrow> sesame_windowed \<Rightarrow> phase \<Rightarrow> bool" where
  "committed p c ph \<longleftrightarrow> sw_sending c
     \<and> (case ph of
          NotStarted \<Rightarrow> (\<exists>n. sw_state c = StateSendingMessage (n + 1) \<and> sw_requestedSendMessageSize c = Some n \<and> worst (n + 1) + rs \<le> room c ph)
             \<or> (sw_state c = StateSendingReleaseWindow \<and> thr p \<le> unat (sw_releasedWindow c) \<and> rs \<le> room c ph)
        | Writing \<Rightarrow> (\<exists>n. sw_state c = StateSendingMessage (n + 1) \<and> worst (n + 1) + rs \<le> room c ph)
        | Sending n \<Rightarrow> sw_state c \<noteq> StateSendingInit \<and> sw_state c \<noteq> StateOperational)"

definition settled :: "sesame_windowed \<Rightarrow> phase \<Rightarrow> bool" where
  "settled c ph \<longleftrightarrow> ph = NotStarted \<and> \<not> sw_sending c \<and> sw_state c = StateOperational \<and> \<not> wants_message L c \<and> \<not> wants_release c"

text \<open>Before a call sets the next state, an idle peer may have something to do.\<close>

definition ready :: "bool \<Rightarrow> sesame_windowed \<Rightarrow> phase \<Rightarrow> bool" where
  "ready p c ph \<longleftrightarrow> (ph = NotStarted \<and> \<not> sw_sending c) \<or> committed p c ph"

lemma rs_small: "rs < 65536" "rs \<le> W p" "rs \<le> thr p"
proof -
  show le: "rs \<le> W p" "rs < 65536" using reserve [of p] windows [of p] by (simp_all add: rs_def)
  have "unat split * rs \<le> W p - rs" using reserve [of p] by (simp add: rs_def)
  then have "unat split * rs div unat split \<le> thr p" unfolding thr_def by (rule div_le_mono)
  then show "rs \<le> thr p" using split2 by simp
qed

lemma unat_rs [simp]: "unat (of_nat rs :: window) = rs"
  using rs_small by (simp add: unat_of_nat)

lemma unat_W [simp]: "unat (of_nat (W p) :: window) = W p"
  using windows by (simp add: unat_of_nat)

lemma wants_release_iff:
  assumes "static p c"
  shows "wants_release c \<longleftrightarrow> thr p \<le> unat (sw_releasedWindow c) \<and> rs \<le> unat (sw_otherAvailableWindow c)"
proof -
  have d: "int_div (int (W p) - int rs) (int (unat split)) = int (thr p)"
    using int_div_nat [OF rs_small(2) [of p], of "unat split"] by (simp only: thr_def)
  have "sw_ownBufferSize c = of_nat (W p)" "sw_releaseWindowSize c = of_nat rs" "sw_splitBuffers c = split"
    using assms by (simp_all add: static_def)
  then show ?thesis by (simp only: wants_release_def unat_rs unat_W d word_le_nat_alt of_nat_le_iff)
qed

lemma room_NotStarted [simp]: "room c NotStarted = unat (sw_otherAvailableWindow c)" "room c Writing = unat (sw_otherAvailableWindow c)"
  by (simp_all add: room_def pend_def)

lemma static_SetNextState [simp]: "static p (sw_SetNextState L' info c) = static p c"
  by (simp add: static_def)

lemma holds_SetNextState [simp]: "holds enc (sw_SetNextState L' info c) ms = holds enc c ms"
  by (simp add: holds_def split: list.split)

lemma room_SetNextState [simp]: "room (sw_SetNextState L' info c) ph = room c ph"
  by (simp add: room_def)

lemma wants_message_lay [simp]: "wants_message (lay L W p) c = wants_message L c"
  by (simp add: wants_message_def split: option.split)

lemma SetNextState_settles:
  assumes "static p c" and "sw_initialized c" and "ready p c ph"
  shows "committed p (sw_SetNextState (lay L W p) info c) ph \<or> settled (sw_SetNextState (lay L W p) info c) ph"
proof -
  have nr: "\<not> sw_sendInitResponse c" using assms(1) by (simp add: static_def)
  from assms(2) nr show ?thesis
  proof (cases rule: SetNextState_cases [where L = "lay L W p" and info = info])
    case busy
    then show ?thesis using assms(3) by (simp add: ready_def)
  next
    case (message n)
    then show ?thesis using assms
      by (simp add: ready_def committed_def wants_message_def static_def sw_emit_def)
  next
    case release
    then show ?thesis using assms(3) wants_release_iff [OF assms(1)]
      by (simp add: ready_def committed_def sw_emit_def)
  next
    case idle
    then show ?thesis using assms(3) by (simp add: ready_def committed_def settled_def)
  qed
qed

lemma ready_grows:
  assumes "committed p c ph \<or> settled c ph"
    and "sw_sending c' = sw_sending c" "sw_state c' = sw_state c" "sw_requestedSendMessageSize c' = sw_requestedSendMessageSize c"
    and "room c ph \<le> room c' ph" "unat (sw_releasedWindow c) \<le> unat (sw_releasedWindow c')"
  shows "ready p c' ph"
proof (cases "committed p c ph")
  case True
  then have "committed p c' ph"
    using assms(2-) by (auto simp: committed_def split: phase.splits intro: order_trans)
  then show ?thesis by (simp add: ready_def)
next
  case False
  with assms(1) have "settled c ph" by simp
  then show ?thesis using assms(2) by (simp add: ready_def settled_def)
qed

text \<open>Requests are within the maximum size a message may have.\<close>

definition request_ok :: "sesame_windowed \<Rightarrow> bool" where
  "request_ok c \<longleftrightarrow> (case sw_requestedSendMessageSize c of None \<Rightarrow> True | Some n \<Rightarrow> n + 1 \<le> el_WorstCaseDecodedMessageSize L limit)"

definition peer_ok :: "bool \<Rightarrow> sesame_windowed \<Rightarrow> phase \<Rightarrow> byte list list \<Rightarrow> bool" where
  "peer_ok p c ph ms \<longleftrightarrow> static p c \<and> sw_initialized c \<and> holds enc c ms \<and> (committed p c ph \<or> settled c ph) \<and> request_ok c"

text \<open>The initiator until the init response arrives.\<close>

definition waiting :: "sesame_windowed \<Rightarrow> phase \<Rightarrow> byte list list \<Rightarrow> bool" where
  "waiting c ph ms \<longleftrightarrow> static True c \<and> \<not> sw_initialized c \<and> holds enc c ms \<and> ms = [] \<and> ph = NotStarted \<and> \<not> sw_sending c
     \<and> \<not> sw_sentInitResponse c \<and> sw_requestedSendMessageSize c = None \<and> sw_otherAvailableWindow c = 0 \<and> sw_releasedWindow c = 0"

definition credit :: "link \<Rightarrow> (bool \<Rightarrow> byte list list) \<Rightarrow> bool \<Rightarrow> nat" where
  "credit k ms p = room (lk_peer k p) (lk_phase k p) + total_size psize (lk_wire k p) + total_size enc (ms (\<not> p))
     + unat (sw_releasedWindow (lk_peer k (\<not> p))) + total_size win (lk_wire k (\<not> p))"

definition shape :: "link \<Rightarrow> (bool \<Rightarrow> byte list list) \<Rightarrow> bool" where
  "shape k ms \<longleftrightarrow> peer_ok False (lk_peer k False) (lk_phase k False) (ms False)
     \<and> (if sw_initialized (lk_peer k True)
        then peer_ok True (lk_peer k True) (lk_phase k True) (ms True) \<and> (\<forall>p. list_all plain (lk_wire k p))
        else waiting (lk_peer k True) (lk_phase k True) (ms True) \<and> lk_wire k True = [] \<and> lk_wire k False \<noteq> []
          \<and> hd (lk_wire k False) = sw_PacketInitResponse (of_nat (W False)) \<and> list_all plain (tl (lk_wire k False)))"

definition link_inv :: "link \<Rightarrow> (bool \<Rightarrow> byte list list) \<Rightarrow> bool" where
  "link_inv k ms \<longleftrightarrow> shape k ms \<and> (\<forall>p. credit k ms p = W (\<not> p))
     \<and> (\<forall>p. lk_sent k p = sw_received (lk_peer k (\<not> p)) @ tl (ms (\<not> p)) @ messages (lk_wire k p))
     \<and> (\<exists>p. rs \<le> room (lk_peer k p) (lk_phase k p) + total_size win (lk_wire k (\<not> p)))"

lemma packet_fields [simp]:
  "win (4 # m) = 0" "win (sw_PacketReleaseWindow w) = unat w" "win (sw_PacketInitResponse w) = unat w"
  "messages (pk # pks) = (if hd pk = 4 then tl pk # messages pks else messages pks)"
  "messages [] = []" "messages (xs @ ys) = messages xs @ messages ys"
  "hd (sw_PacketReleaseWindow w) = 3" "hd (sw_PacketInitResponse w) = 2"
  "psize (4 # m) = enc m" "length (sw_PacketReleaseWindow w) = 3" "length (sw_PacketInitResponse w) = 3"
  using read_le16_le16 [of w "[]"]
  by (simp_all add: win_def messages_def sw_PacketReleaseWindow_def sw_PacketInitResponse_def psize_def enc_def)

lemma plain_packets [simp]: "plain (4 # m)" "plain (sw_PacketReleaseWindow w)"
  by (auto simp: plain_def)

lemma psize_worst: "length pk \<le> n \<Longrightarrow> psize pk \<le> worst n"
  unfolding psize_def using worst_encoded [of pk] worst_encoded_mono by (rule order_trans)

lemma psize_release [simp]: "psize (sw_PacketReleaseWindow w) \<le> rs" "psize (sw_PacketInitResponse w) \<le> rs"
  unfolding rs_def by (rule psize_worst, simp)+

lemma packet_size_psize [simp]: "packet_size L pk = psize pk"
  by (simp add: packet_size_def psize_def message_size)

lemma total_size_append [simp]: "total_size f (xs @ ys) = total_size f xs + total_size f ys"
  by (induction xs) simp_all

text \<open>
  A call at one peer changes that peer, puts packets behind those it has sent, and may take the oldest packet of the
  other. The invariant holds afterwards when the two sums over the change stay the same.
\<close>

lemma link_inv_update:
  assumes inv: "link_inv k ms"
    and init: "sw_initialized (lk_peer k p) \<or> wq = tl (lk_wire k (\<not> p))"
    and peer: "lk_peer k' = (lk_peer k)(p := c')" "lk_phase k' = (lk_phase k)(p := ph')"
    and wires: "lk_wire k' = (lk_wire k)(p := lk_wire k p @ new, \<not> p := wq)"
    and sent: "lk_sent k' = (lk_sent k)(p := lk_sent k p @ messages new)"
    and ok: "peer_ok p c' ph' ms'" and new: "list_all plain new"
    and wq: "wq = lk_wire k (\<not> p) \<or> wq = tl (lk_wire k (\<not> p))"
    and out: "room c' ph' + total_size psize new + total_size win wq
       = room (lk_peer k p) (lk_phase k p) + total_size win (lk_wire k (\<not> p))"
    and inn: "total_size psize wq + total_size enc ms' + unat (sw_releasedWindow c') + total_size win new
       = total_size psize (lk_wire k (\<not> p)) + total_size enc (ms p) + unat (sw_releasedWindow (lk_peer k p))"
    and fifo: "sw_received c' @ tl ms' @ messages wq = sw_received (lk_peer k p) @ tl (ms p) @ messages (lk_wire k (\<not> p))"
    and progress: "new = [] \<or> rs \<le> room c' ph' \<or> rs \<le> total_size win new"
  shows "link_inv k' (ms(p := ms'))"
proof -
  have ex: "\<exists>r. rs \<le> room (lk_peer k' r) (lk_phase k' r) + total_size win (lk_wire k' (\<not> r))"
  proof -
    obtain r where r: "rs \<le> room (lk_peer k r) (lk_phase k r) + total_size win (lk_wire k (\<not> r))"
      using inv by (auto simp: link_inv_def)
    consider "new = []" | "rs \<le> room c' ph'" | "rs \<le> total_size win new" using progress by blast
    then show ?thesis
    proof cases
      case 1
      then show ?thesis using r out by (cases "r = p") (auto simp: peer wires intro!: exI [of _ r])
    qed (auto simp: peer wires intro: exI [of _ p] exI [of _ "\<not> p"])
  qed
  have cred: "credit k' (ms(p := ms')) r = W (\<not> r)" for r
  proof -
    have "credit k ms p = W (\<not> p)" "credit k ms (\<not> p) = W p" using inv by (simp_all add: link_inv_def)
    then show ?thesis using out inn by (cases "r = p") (auto simp: credit_def peer wires)
  qed
  have seq: "lk_sent k' r = sw_received (lk_peer k' (\<not> r)) @ tl ((ms(p := ms')) (\<not> r)) @ messages (lk_wire k' r)" for r
  proof -
    have "lk_sent k r = sw_received (lk_peer k (\<not> r)) @ tl (ms (\<not> r)) @ messages (lk_wire k r)" using inv by (simp add: link_inv_def)
    then show ?thesis using fifo by (cases "r = p") (auto simp: peer wires sent)
  qed
  have i: "sw_initialized c'" using ok by (simp add: peer_ok_def)
  have "shape k' (ms(p := ms'))"
  proof -
    have wq': "list_all plain (lk_wire k (\<not> p)) \<Longrightarrow> list_all plain wq" using wq by (cases "lk_wire k (\<not> p)") auto
    have sh: "shape k ms" using inv by (simp add: link_inv_def)
    show ?thesis
    proof (cases p)
      case True
      then show ?thesis using sh init ok i new wq' by (auto simp: shape_def peer wires split: if_splits)
    next
      case False
      then show ?thesis using sh ok new wq wq' by (auto simp: shape_def peer wires)
    qed
  qed
  with ex cred seq show ?thesis by (auto simp: link_inv_def)
qed

subsection \<open>Every call succeeds and keeps the invariant\<close>

lemma holds_nil: "holds f c [] \<longleftrightarrow> bd_inv (sw_receivedMessage c) \<and> \<not> sw_currentReceiveMessageReader c
    \<and> \<not> sw_readerReferenced c \<and> bd_list (sw_receivedMessage c) = []"
  by (auto simp: holds_def short_def)

text \<open>Updates that leave a part of the invariant alone.\<close>

lemma frame [simp]:
  "static p (sw_emit e c) = static p c" "static p (c\<lparr>sw_requestedSendMessageSize := r\<rparr>) = static p c"
  "static p (c\<lparr>sw_releasedWindow := w\<rparr>) = static p c" "static p (c\<lparr>sw_otherAvailableWindow := w\<rparr>) = static p c"
  "static p (c\<lparr>sw_sending := b\<rparr>) = static p c"
  "holds f (sw_emit e c) ms = holds f c ms" "holds f (c\<lparr>sw_requestedSendMessageSize := r\<rparr>) ms = holds f c ms"
  "holds f (c\<lparr>sw_releasedWindow := w\<rparr>) ms = holds f c ms" "holds f (c\<lparr>sw_otherAvailableWindow := w\<rparr>) ms = holds f c ms"
  "holds f (c\<lparr>sw_sending := b\<rparr>) ms = holds f c ms"
  "request_ok (sw_emit e c) = request_ok c" "request_ok (c\<lparr>sw_releasedWindow := w\<rparr>) = request_ok c"
  "request_ok (c\<lparr>sw_otherAvailableWindow := w\<rparr>) = request_ok c" "request_ok (c\<lparr>sw_sending := b\<rparr>) = request_ok c"
  "room (sw_emit e c) ph = room c ph" "room (c\<lparr>sw_requestedSendMessageSize := r\<rparr>) ph = room c ph"
  "room (c\<lparr>sw_releasedWindow := w\<rparr>) ph = room c ph"
  by (simp_all add: static_def holds_def request_ok_def room_def sw_emit_def split: list.split)

lemma emit_fields [simp]:
  "sw_initialized (sw_emit e c) = sw_initialized c" "sw_sending (sw_emit e c) = sw_sending c" "sw_state (sw_emit e c) = sw_state c"
  "sw_releasedWindow (sw_emit e c) = sw_releasedWindow c" "sw_otherAvailableWindow (sw_emit e c) = sw_otherAvailableWindow c"
  "sw_requestedSendMessageSize (sw_emit e c) = sw_requestedSendMessageSize c"
  by (simp_all add: sw_emit_def)

lemma inv_peer:
  assumes "link_inv k ms" and "sw_initialized (lk_peer k p)"
  shows "peer_ok p (lk_peer k p) (lk_phase k p) (ms p)"
  using assms by (cases p) (auto simp: link_inv_def shape_def)

lemma inv_waiting:
  assumes "link_inv k ms" and "\<not> sw_initialized (lk_peer k p)"
  shows "p" "waiting (lk_peer k p) (lk_phase k p) (ms p)"
  using assms by (cases p; auto simp: link_inv_def shape_def peer_ok_def)+

lemma initialized_when:
  assumes "link_inv k ms"
    and "sw_sending (lk_peer k p) \<or> lk_phase k p \<noteq> NotStarted \<or> sw_readerReferenced (lk_peer k p)"
  shows "sw_initialized (lk_peer k p)"
proof (rule ccontr)
  assume "\<not> sw_initialized (lk_peer k p)"
  with assms(1) have "waiting (lk_peer k p) (lk_phase k p) (ms p)" by (rule inv_waiting(2))
  then have "holds enc (lk_peer k p) []" "\<not> sw_sending (lk_peer k p)" "lk_phase k p = NotStarted" by (auto simp: waiting_def)
  then show False using assms(2) by (simp add: holds_nil)
qed

lemma peer_ok_SetNextState:
  assumes "static p c" and "sw_initialized c" and "holds enc c ms" and "ready p c ph" and "request_ok c"
  shows "peer_ok p (sw_SetNextState (lay L W p) info c) ph ms"
  using assms SetNextState_settles [of p c ph info] by (simp add: peer_ok_def request_ok_def)

lemma int_div_limit:
  "to_size_t (int_div (int (min (W True) (W False)) - int rs) (int (unat split))) = limit"
proof -
  have "rs \<le> min (W True) (W False)" using rs_small(2) by simp
  then have "int_div (int (min (W True) (W False)) - int rs) (int (unat split)) = int limit"
    using int_div_nat [of rs "min (W True) (W False)" "unat split"] by (simp only: limit_def)
  moreover have "limit \<le> W True"
  proof -
    have "limit \<le> min (W True) (W False) - rs" unfolding limit_def by (rule div_le_dividend)
    then show ?thesis by simp
  qed
  ultimately show ?thesis using windows [of True] by (simp add: to_size_t_def)
qed

lemma unat_min [simp]: "unat (of_nat (min (W True) (W False)) :: window) = min (W True) (W False)"
  using windows by (simp add: unat_of_nat min_def)

lemma request_within:
  assumes "static p c" and "sw_MaxSendMessageSize L' c = Inr m" and "n \<le> m"
    and "el_WorstCaseDecodedMessageSize L' = el_WorstCaseDecodedMessageSize L"
  shows "sw_initialized c" "request_ok (c\<lparr>sw_requestedSendMessageSize := Some n\<rparr>)"
proof -
  show i: "sw_initialized c" using assms(2) by (auto simp: sw_MaxSendMessageSize_def checked_def split: if_splits)
  let ?d = "el_WorstCaseDecodedMessageSize L limit"
  have c: "sw_maxUsableBufferSize c = of_nat (min (W True) (W False))" "sw_releaseWindowSize c = of_nat rs" "sw_splitBuffers c = split"
    using assms(1) i by (simp_all add: static_def)
  have "m = to_size_t (int ?d - 1)"
    using assms(2,4) i by (simp only: sw_MaxSendMessageSize_def c unat_min unat_rs int_div_limit) (simp add: checked_def)
  moreover have "0 < ?d" using usable by (simp add: limit_def rs_def)
  ultimately have "m \<le> ?d - 1"
    using zmod_le_nonneg_dividend [of "int ?d - 1" "2 ^ 64"] by (simp add: to_size_t_def nat_le_iff of_nat_diff)
  then show "request_ok (c\<lparr>sw_requestedSendMessageSize := Some n\<rparr>)" using assms(3) \<open>0 < ?d\<close> by (simp add: request_ok_def)
qed

lemma do_Request:
  assumes inv: "link_inv k ms" and en: "link_enabled L W (Request p n) k"
  shows "\<exists>k' ms'. link_do L W (Request p n) k = Inr k' \<and> link_inv k' ms'"
proof -
  let ?c = "lk_peer k p" and ?ph = "lk_phase k p"
  let ?c1 = "?c\<lparr>sw_requestedSendMessageSize := Some n\<rparr>"
  let ?c' = "if sw_state ?c = StateOperational then sw_SetNextState (lay L W p) 0 ?c1 else ?c1"
  obtain m where m: "sw_MaxSendMessageSize (lay L W p) ?c = Inr m" "n \<le> m" and none: "sw_requestedSendMessageSize ?c = None"
    using en by (auto simp: link_enabled_def split: sum.splits)
  have i: "sw_initialized ?c" using m(1) by (auto simp: sw_MaxSendMessageSize_def checked_def split: if_splits)
  note ok = inv_peer [OF inv i, unfolded peer_ok_def]
  have req: "request_ok ?c1" by (rule request_within(2) [OF _ m, of p]) (use ok in simp_all)
  have "peer_ok p ?c' ?ph (ms p)"
  proof (cases "sw_state ?c = StateOperational")
    case True
    then have "ready p ?c1 ?ph" using ok by (auto simp: ready_def committed_def settled_def split: phase.splits)
    then show ?thesis using True ok i req peer_ok_SetNextState [of p ?c1 "ms p" ?ph 0] by simp
  next
    case False
    then have "committed p ?c1 ?ph" using ok none by (auto simp: committed_def settled_def room_def split: phase.splits)
    then show ?thesis using False ok i req by (simp add: peer_ok_def)
  qed
  then have "link_inv (put_peer p ?c' k) (ms(p := ms p))"
    by (intro link_inv_update [OF inv disjI1 [OF i], where new = "[]" and wq = "lk_wire k (\<not> p)" and c' = ?c' and ph' = ?ph])
      (simp_all add: put_peer_def)
  then show ?thesis using m by (auto simp: link_do_def sw_RequestSendMessage_def checked_def)
qed

text \<open>Sending a packet that fits the room takes its size from the room.\<close>

lemma room_Sending:
  assumes "n \<le> unat (sw_otherAvailableWindow c)"
  shows "room c (Sending n) = unat (sw_otherAvailableWindow c) - n"
proof -
  have "unat (sw_otherAvailableWindow c) < 65536" using unsigned_less [of "sw_otherAvailableWindow c"] by simp
  with assms have "n < 65536" by simp
  then have "unat (of_nat n :: window) = n" by (simp add: unat_of_nat)
  then show ?thesis using assms by (simp add: room_def pend_def unat_sub word_le_nat_alt)
qed

lemma do_Stream:
  assumes inv: "link_inv k ms" and en: "link_enabled L W (Stream p) k"
  shows "\<exists>k' ms'. link_do L W (Stream p) k = Inr k' \<and> link_inv k' ms'"
proof -
  let ?c = "lk_peer k p"
  have ph: "lk_phase k p = NotStarted" and snd: "sw_sending ?c" using en by (simp_all add: link_enabled_def)
  have i: "sw_initialized ?c" using initialized_when [OF inv, of p] snd by simp
  note ok = inv_peer [OF inv i, unfolded peer_ok_def]
  then consider (message) n where "sw_state ?c = StateSendingMessage (n + 1)" "worst (n + 1) + rs \<le> room ?c NotStarted"
    | (release) "sw_state ?c = StateSendingReleaseWindow" "thr p \<le> unat (sw_releasedWindow ?c)" "rs \<le> room ?c NotStarted"
    using ph snd by (auto simp: committed_def settled_def)
  then show ?thesis
  proof cases
    case message
    let ?c' = "sw_StateSendingMessage_SendMessageStreamAvailable ?c"
    let ?k = "put_peer p ?c' (k\<lparr>lk_phase := (lk_phase k)(p := Writing)\<rparr>)"
    have "committed p ?c' Writing" using message snd by (simp add: committed_def)
    then have "peer_ok p ?c' Writing (ms p)" using ok i by (simp add: peer_ok_def request_ok_def)
    then have "link_inv ?k (ms(p := ms p))"
      by (intro link_inv_update [OF inv disjI1 [OF i], where new = "[]" and wq = "lk_wire k (\<not> p)" and c' = ?c' and ph' = Writing])
        (simp_all add: put_peer_def ph)
    then show ?thesis using message(1) by (auto simp: link_do_def sw_SendMessageStreamAvailable_def is_sending_message_def)
  next
    case release
    let ?pk = "sw_PacketReleaseWindow (sw_releasedWindow ?c)"
    let ?c' = "sw_StateSendingReleaseWindow_SendMessageStreamAvailable ?c"
    let ?k = "put_packet L p ?pk (put_peer p ?c' k)"
    have room: "room ?c (Sending (psize ?pk)) = room ?c NotStarted - psize ?pk"
      using release(3) order_trans [OF psize_release(1)] by (simp add: room_Sending)
    have "committed p ?c' (Sending (psize ?pk))" using release(1) snd by (simp add: committed_def)
    then have "peer_ok p ?c' (Sending (psize ?pk)) (ms p)" using ok i by (simp add: peer_ok_def)
    moreover have "psize ?pk \<le> unat (sw_otherAvailableWindow ?c)" using release(3) order_trans [OF psize_release(1)] by simp
    moreover have "rs \<le> unat (sw_releasedWindow ?c)" using release(2) rs_small(3) [of p] by simp
    ultimately have "link_inv ?k (ms(p := ms p))"
      by (intro link_inv_update [OF inv disjI1 [OF i], where new = "[?pk]" and wq = "lk_wire k (\<not> p)" and c' = ?c' and ph' = "Sending (psize ?pk)"])
        (simp_all add: put_peer_def put_packet_def ph room fun_upd_idem)
    moreover have "last_write ?c' = ?pk" by (simp add: last_write_def sw_emit_def)
    ultimately show ?thesis using release(1)
      by (auto simp: link_do_def sw_SendMessageStreamAvailable_def is_sending_message_def)
  qed
qed

lemma do_Write:
  assumes inv: "link_inv k ms" and en: "link_enabled L W (Write p m) k"
  shows "\<exists>k' ms'. link_do L W (Write p m) k = Inr k' \<and> link_inv k' ms'"
proof -
  let ?c = "lk_peer k p" and ?k = "put_packet L p (4 # m) (k\<lparr>lk_sent := (lk_sent k)(p := lk_sent k p @ [m])\<rparr>)"
  have ph: "lk_phase k p = Writing" using en by (simp add: link_enabled_def)
  have i: "sw_initialized ?c" using initialized_when [OF inv, of p] ph by simp
  note ok = inv_peer [OF inv i, unfolded peer_ok_def]
  then obtain n where n: "sw_state ?c = StateSendingMessage (n + 1)" "worst (n + 1) + rs \<le> unat (sw_otherAvailableWindow ?c)" "sw_sending ?c"
    using ph by (auto simp: committed_def settled_def)
  have "length (4 # m) \<le> n + 1" using en n(1) by (simp add: link_enabled_def)
  from psize_worst [OF this] have e: "enc m + rs \<le> unat (sw_otherAvailableWindow ?c)" using n(2) by simp
  then have room: "room ?c (Sending (enc m)) = unat (sw_otherAvailableWindow ?c) - enc m" by (intro room_Sending) simp
  have "peer_ok p ?c (Sending (enc m)) (ms p)" using ok i n by (simp add: peer_ok_def committed_def)
  then have "link_inv ?k (ms(p := ms p))"
    using e by (intro link_inv_update [OF inv disjI1 [OF i], where new = "[4 # m]" and wq = "lk_wire k (\<not> p)" and c' = ?c and ph' = "Sending (enc m)"])
      (simp_all add: put_packet_def ph room fun_upd_idem le_diff_conv2)
  then show ?thesis by (auto simp: link_do_def)
qed

lemma do_Done:
  assumes inv: "link_inv k ms" and en: "link_enabled L W (Done p) k"
  shows "\<exists>k' ms'. link_do L W (Done p) k = Inr k' \<and> link_inv k' ms'"
proof -
  let ?c = "lk_peer k p"
  obtain n where ph: "lk_phase k p = Sending n" using en by (auto simp: link_enabled_def split: phase.splits)
  have i: "sw_initialized ?c" using initialized_when [OF inv, of p] ph by simp
  note ok = inv_peer [OF inv i, unfolded peer_ok_def]
  then have st: "sw_state ?c \<noteq> StateSendingInit" using ph by (auto simp: committed_def settled_def)
  let ?c1 = "?c\<lparr>sw_otherAvailableWindow := sw_otherAvailableWindow ?c - of_nat n, sw_sending := False\<rparr>"
  let ?c' = "sw_SetNextState (lay L W p) 0 ?c1"
  let ?k = "put_peer p ?c' (k\<lparr>lk_phase := (lk_phase k)(p := NotStarted)\<rparr>)"
  have "peer_ok p ?c' NotStarted (ms p)" using ok i by (intro peer_ok_SetNextState) (simp_all add: ready_def)
  then have "link_inv ?k (ms(p := ms p))"
    by (intro link_inv_update [OF inv disjI1 [OF i], where new = "[]" and wq = "lk_wire k (\<not> p)" and c' = ?c' and ph' = NotStarted])
      (simp_all add: put_peer_def ph room_def pend_def)
  then show ?thesis using st ph by (auto simp: link_do_def sw_MessageSent_def)
qed

text \<open>The sizes of what is under way to a peer and what it holds stay below its buffer size, so that no sum wraps.\<close>

lemma inv_bounds:
  assumes "link_inv k ms"
  shows "total_size psize (lk_wire k (\<not> p)) + total_size enc (ms p) + unat (sw_releasedWindow (lk_peer k p)) \<le> W p"
    and "room (lk_peer k p) (lk_phase k p) + total_size win (lk_wire k (\<not> p)) \<le> W (\<not> p)"
proof -
  have "credit k ms (\<not> p) = W p" "credit k ms p = W (\<not> p)" using assms by (simp_all add: link_inv_def)
  then show "total_size psize (lk_wire k (\<not> p)) + total_size enc (ms p) + unat (sw_releasedWindow (lk_peer k p)) \<le> W p"
    "room (lk_peer k p) (lk_phase k p) + total_size win (lk_wire k (\<not> p)) \<le> W (\<not> p)"
    by (simp_all add: credit_def)
qed

lemma unat_window_add: "unat a + n < 65536 \<Longrightarrow> unat (a + of_nat n :: window) = unat a + n"
  by (simp add: unat_word_ariths unat_of_nat)

lemma static_same_tx:
  assumes "same_tx c c1" and "bd_max_size (sw_receivedMessage c1) = bd_max_size (sw_receivedMessage c)"
  shows "static p c1 = static p c" "request_ok c1 = request_ok c" "sw_initialized c1 = sw_initialized c" "room c1 ph = room c ph"
  using assms by (simp_all add: same_tx_def static_def request_ok_def room_def)

lemma buffer_room: "static p c \<Longrightarrow> W p \<le> bd_max_size (sw_receivedMessage c) \<and> bd_max_size (sw_receivedMessage c) < 2 ^ 32"
  using buffers(3,4) [of p] by (simp add: static_def)

text \<open>A peer that has given messages to its observer has more to give back, and may have something to send.\<close>

lemma peer_ok_released:
  assumes "peer_ok p c ph ms" and "same_tx c c1" and "holds enc c1 ms'"
    and "bd_max_size (sw_receivedMessage c1) = bd_max_size (sw_receivedMessage c)"
    and "sw_releasedWindow c1 = sw_releasedWindow c + of_nat n" and "unat (sw_releasedWindow c) + n < 65536"
  shows "peer_ok p (sw_SetNextState (lay L W p) info c1) ph ms'" and "unat (sw_releasedWindow c1) = unat (sw_releasedWindow c) + n"
proof -
  note tx = static_same_tx [OF assms(2,4)]
  show r: "unat (sw_releasedWindow c1) = unat (sw_releasedWindow c) + n" using assms(5,6) by (simp add: unat_window_add)
  have "ready p c1 ph"
    using assms(1,2) r tx(4) by (intro ready_grows [of p c]) (auto simp: peer_ok_def same_tx_def)
  then show "peer_ok p (sw_SetNextState (lay L W p) info c1) ph ms'"
    using assms(1,3) tx by (intro peer_ok_SetNextState) (simp_all add: peer_ok_def)
qed

lemma do_Release:
  assumes inv: "link_inv k ms" and en: "link_enabled L W (Release p keeps) k"
  shows "\<exists>k' ms'. link_do L W (Release p keeps) k = Inr k' \<and> link_inv k' ms'"
proof -
  let ?c = "lk_peer k p" and ?ph = "lk_phase k p"
  have r: "sw_readerReferenced ?c" using en by (simp add: link_enabled_def)
  have i: "sw_initialized ?c" using initialized_when [OF inv, of p] r by simp
  note ok = inv_peer [OF inv i]
  obtain m xs where ms: "ms p = m # xs"
    using ok r by (cases "ms p") (auto simp: peer_ok_def holds_nil)
  have h: "holds enc ?c (m # xs)" "\<not> sw_sendInitResponse ?c" "bd_max_size (sw_receivedMessage ?c) < 2 ^ 32"
    using ok ms buffer_room [of p ?c] by (simp_all add: peer_ok_def static_def)
  obtain c1 d ms' where c1: "sw_ReaderReleased (lay L W p) 0 keeps ?c = Inr (sw_SetNextState (lay L W p) 0 c1)"
      "same_tx ?c c1" "holds enc c1 ms'" "xs = d @ ms'" "sw_received c1 = sw_received ?c @ d @ take 1 ms'"
      "sw_releasedWindow c1 = sw_releasedWindow ?c + of_nat (enc m + total_size enc d)"
      "bd_max_size (sw_receivedMessage c1) = bd_max_size (sw_receivedMessage ?c)"
    using ReaderReleased_correct [OF h(1,3) i h(2), of W p 0 keeps] by blast
  have "unat (sw_releasedWindow ?c) + (enc m + total_size enc d) < 65536"
    using inv_bounds(1) [OF inv, of p] windows [of p] by (simp add: ms c1(4))
  note new = peer_ok_released [OF ok c1(2,3,7,6) this]
  have "sw_received c1 @ tl ms' = sw_received ?c @ xs" using c1(4,5) by (cases ms') simp_all
  with new c1 have "link_inv (put_peer p (sw_SetNextState (lay L W p) 0 c1) k) (ms(p := ms'))"
    by (intro link_inv_update [OF inv disjI1 [OF i], where new = "[]" and wq = "lk_wire k (\<not> p)"
          and c' = "sw_SetNextState (lay L W p) 0 c1" and ph' = ?ph])
      (simp_all add: put_peer_def ms static_same_tx(4))
  then show ?thesis using c1(1) by (auto simp: link_do_def)
qed

text \<open>The arrival of a packet: a message, a release of window, or the init response.\<close>

definition taken :: "bool \<Rightarrow> sesame_windowed \<Rightarrow> link \<Rightarrow> link" where
  "taken p c k = put_peer p c (k\<lparr>lk_wire := (lk_wire k)(\<not> p := tl (lk_wire k (\<not> p)))\<rparr>)"

lemma taken_inv:
  assumes inv: "link_inv k ms" and pk: "lk_wire k (\<not> p) = pk # rest"
    and ok: "peer_ok p c' (lk_phase k p) ms'"
    and out: "room c' (lk_phase k p) = room (lk_peer k p) (lk_phase k p) + win pk"
    and inn: "total_size enc ms' + unat (sw_releasedWindow c') = psize pk + total_size enc (ms p) + unat (sw_releasedWindow (lk_peer k p))"
    and fifo: "sw_received c' @ tl ms' = sw_received (lk_peer k p) @ tl (ms p) @ messages [pk]"
  shows "link_inv (taken p c' k) (ms(p := ms'))"
proof (rule link_inv_update [OF inv, where new = "[]" and wq = rest and c' = c' and ph' = "lk_phase k p"])
  show "sw_received c' @ tl ms' @ messages rest = sw_received (lk_peer k p) @ tl (ms p) @ messages (lk_wire k (\<not> p))"
    using arg_cong [OF fifo, of "\<lambda>xs. xs @ messages rest"] pk by (simp split: if_splits)
qed (use pk ok out inn in \<open>simp_all add: taken_def put_peer_def fun_upd_idem\<close>)

lemma deliver_message:
  assumes inv: "link_inv k ms" and i: "sw_initialized (lk_peer k p)"
    and pk: "lk_wire k (\<not> p) = (4 # m) # rest" and rngs: "concat rngs = m"
  shows "\<exists>c' ms'. sw_ReceivedMessage (lay L W p) 0 True keeps 4 rngs n (lk_peer k p) = Inr c' \<and> link_inv (taken p c' k) (ms(p := ms'))"
proof -
  let ?c = "lk_peer k p" and ?ph = "lk_phase k p"
  note ok = inv_peer [OF inv i]
  then have c: "static p ?c" "holds enc ?c (ms p)" "\<not> sw_sendInitResponse ?c" by (simp_all add: peer_ok_def static_def)
  have all: "total_size enc (ms p @ [m]) + unat (sw_releasedWindow ?c) \<le> W p" using inv_bounds(1) [OF inv, of p] pk by simp
  then have "length (concat rngs) < 65536" "total_size enc (ms p @ [concat rngs]) \<le> bd_max_size (sw_receivedMessage ?c)"
    using enc_length [of m] windows [of p] buffer_room [OF c(1)] rngs by simp_all
  from SaveReceivedMessage_correct [OF c(2) this _ i c(3), of W p 0 keeps] buffer_room [OF c(1)]
  obtain b c1 d ms' where c1: "sw_SaveReceivedMessage (lay L W p) 0 keeps rngs ?c = Inr (if b then sw_SetNextState (lay L W p) 0 c1 else c1)"
      "same_tx ?c c1" "holds enc c1 ms'" "ms p @ [m] = d @ ms'" "sw_received c1 @ tl ms' = sw_received ?c @ tl (ms p) @ [m]"
      "sw_releasedWindow c1 = sw_releasedWindow ?c + of_nat (total_size enc d)"
      "bd_max_size (sw_receivedMessage c1) = bd_max_size (sw_receivedMessage ?c)"
    using rngs by auto
  let ?c' = "sw_SetNextState (lay L W p) 0 c1"
  have sum: "total_size enc (ms p) + enc m = total_size enc d + total_size enc ms'"
    using arg_cong [OF c1(4), of "total_size enc"] by simp
  have "unat (sw_releasedWindow ?c) + total_size enc d < 65536" using all sum windows [of p] by simp
  note new = peer_ok_released [OF ok c1(2,3,7,6) this]
  have "sw_SetNextState (lay L W p) 0 (if b then ?c' else c1) = ?c'"
    using SetNextState_idem [of c1] c(3) i c1(2) by (simp add: same_tx_def)
  then have "sw_ReceivedMessage (lay L W p) 0 True keeps 4 rngs n ?c = Inr ?c'"
    using c1(1) i by (simp add: sw_ReceivedMessage_def)
  moreover have "link_inv (taken p ?c' k) (ms(p := ms'))"
    using c1(5) new sum static_same_tx(4) [OF c1(2,7)] by (intro taken_inv [OF inv pk]) simp_all
  ultimately show ?thesis by blast
qed

lemma deliver_release:
  assumes inv: "link_inv k ms" and i: "sw_initialized (lk_peer k p)"
    and pk: "lk_wire k (\<not> p) = sw_PacketReleaseWindow w # rest" and rngs: "concat rngs = le16 w"
  shows "\<exists>c' ms'. sw_ReceivedMessage (lay L W p) 0 True keeps 3 rngs (psize (sw_PacketReleaseWindow w)) (lk_peer k p) = Inr c'
    \<and> link_inv (taken p c' k) (ms(p := ms'))"
proof -
  let ?c = "lk_peer k p" and ?ph = "lk_phase k p" and ?n = "psize (sw_PacketReleaseWindow w)"
  let ?c1 = "?c\<lparr>sw_releasedWindow := sw_releasedWindow ?c + of_nat ?n, sw_otherAvailableWindow := sw_otherAvailableWindow ?c + w\<rparr>"
  let ?c' = "sw_SetNextState (lay L W p) 0 ?c1"
  note ok = inv_peer [OF inv i, unfolded peer_ok_def]
  have rel: "unat (sw_releasedWindow ?c + of_nat ?n) = unat (sw_releasedWindow ?c) + ?n"
    using inv_bounds(1) [OF inv, of p] pk windows [of p] by (intro unat_window_add) simp
  have "room ?c1 ?ph = unat ((sw_otherAvailableWindow ?c - of_nat (pend ?ph)) + of_nat (unat w))"
    by (simp add: room_def algebra_simps)
  also have "\<dots> = room ?c ?ph + unat w" unfolding room_def
    using inv_bounds(2) [OF inv, of p] pk windows [of "\<not> p"] by (intro unat_window_add) (simp add: room_def)
  finally have room: "room ?c1 ?ph = room ?c ?ph + unat w" .
  have "ready p ?c1 ?ph" using ok by (intro ready_grows [of p ?c]) (simp_all add: room rel)
  then have "peer_ok p ?c' ?ph (ms p)" using ok by (intro peer_ok_SetNextState) simp_all
  then have "link_inv (taken p ?c' k) (ms(p := ms p))"
    by (intro taken_inv [OF inv pk]) (simp_all add: room rel)
  moreover have "sw_ReceivedMessage (lay L W p) 0 True keeps 3 rngs ?n ?c = Inr ?c'"
    using i rngs read_le16_le16 [of w "[]"] by (simp add: sw_ReceivedMessage_def)
  ultimately show ?thesis by blast
qed

lemma deliver_init_response:
  assumes inv: "link_inv k ms" and i: "\<not> sw_initialized (lk_peer k True)"
    and pk: "lk_wire k False = sw_PacketInitResponse (of_nat (W False)) # rest" and rngs: "concat rngs = le16 (of_nat (W False))"
  shows "\<exists>c' ms'. sw_ReceivedMessage (lay L W True) 0 True keeps 2 rngs (psize (sw_PacketInitResponse (of_nat (W False)))) (lk_peer k True) = Inr c'
    \<and> link_inv (taken True c' k) (ms(True := ms'))"
proof -
  let ?c = "lk_peer k True" and ?n = "psize (sw_PacketInitResponse (of_nat (W False)))"
  let ?c1 = "sw_ReceivedInitialize (lay L W True) (?c\<lparr>sw_otherAvailableWindow := of_nat (W False), sw_releasedWindow := of_nat ?n\<rparr>)"
  let ?c' = "sw_SetNextState (lay L W True) 0 ?c1"
  have w: "waiting ?c (lk_phase k True) (ms True)" using inv_waiting(2) [OF inv i] .
  then have h: "holds enc ?c []" by (auto simp: waiting_def)
  have pk': "lk_wire k (\<not> True) = sw_PacketInitResponse (of_nat (W False)) # rest" using pk by simp
  have n: "unat (of_nat ?n :: window) = ?n"
    using order.strict_trans1 [OF psize_release(2) rs_small(1)] by (simp add: unat_of_nat)
  have "min (of_nat (W True)) (of_nat (W False)) = (of_nat (min (W True) (W False)) :: window)"
    by (simp add: min_def word_le_nat_alt)
  then have "static True ?c1" using w by (simp add: waiting_def static_def sw_ReceivedInitialize_def sw_emit_def)
  moreover have "holds enc ?c1 []" "ready True ?c1 NotStarted" "request_ok ?c1" "sw_initialized ?c1"
    using w h by (simp_all add: waiting_def sw_ReceivedInitialize_def ready_def request_ok_def holds_nil sw_emit_def)
  ultimately have "peer_ok True ?c' NotStarted []" by (intro peer_ok_SetNextState)
  then have "link_inv (taken True ?c' k) (ms(True := []))"
    using w pk by (intro taken_inv [OF inv pk']) (simp_all add: waiting_def sw_ReceivedInitialize_def room_def pend_def n)
  moreover have "sw_ReceivedMessage (lay L W True) 0 True keeps 2 rngs ?n ?c = Inr ?c'"
    using w rngs read_le16_le16 [of "of_nat (W False)" "[]"] by (simp add: sw_ReceivedMessage_def waiting_def static_def)
  ultimately show ?thesis by blast
qed

lemma do_Deliver:
  assumes inv: "link_inv k ms" and en: "link_enabled L W (Deliver p rngs keeps) k"
  shows "\<exists>k' ms'. link_do L W (Deliver p rngs keeps) k = Inr k' \<and> link_inv k' ms'"
proof -
  obtain pk rest where pk: "lk_wire k (\<not> p) = pk # rest" and rngs: "concat rngs = tl pk"
    using en by (cases "lk_wire k (\<not> p)") (auto simp: link_enabled_def)
  have step: "link_do L W (Deliver p rngs keeps) k
      = bindR (sw_ReceivedMessage (lay L W p) 0 True keeps (hd pk) rngs (psize pk) (lk_peer k p)) (\<lambda>c. Inr (taken p c k))"
    using pk by (simp add: link_do_def taken_def)
  have sh: "shape k ms" using inv by (simp add: link_inv_def)
  show ?thesis
  proof (cases "sw_initialized (lk_peer k p)")
    case True
    then have "plain pk" using sh pk by (cases p) (auto simp: shape_def split: if_splits dest!: spec [of _ "\<not> p"])
    then consider m where "pk = 4 # m" | w where "pk = sw_PacketReleaseWindow w" by (auto simp: plain_def)
    then show ?thesis
    proof cases
      case 1
      then show ?thesis using deliver_message [OF inv True, of m rest rngs keeps "psize pk"] pk rngs step by auto
    next
      case 2
      then show ?thesis using deliver_release [OF inv True, of w rest rngs keeps] pk rngs step by (auto simp: sw_PacketReleaseWindow_def)
    qed
  next
    case False
    then have p: "p" using inv_waiting(1) [OF inv] by blast
    then have "pk = sw_PacketInitResponse (of_nat (W False))" using False sh pk by (auto simp: shape_def)
    then show ?thesis using deliver_init_response [OF inv, of rest rngs keeps] False p pk rngs step by (auto simp: sw_PacketInitResponse_def)
  qed
qed

theorem link_step:
  assumes "link_inv k ms" and "link_enabled L W e k"
  shows "\<exists>k' ms'. link_do L W e k = Inr k' \<and> link_inv k' ms'"
  using assms do_Request do_Stream do_Write do_Done do_Deliver do_Release by (cases e) metis+

subsection \<open>The start, and all reachable states\<close>

lemma init_sent:
  obtains c where "link_init_sent L W split (qs p) p = Inr c" "static p c" "holds enc c []" "\<not> sw_initialized c" "\<not> sw_sending c"
    "\<not> sw_sentInitResponse c" "sw_requestedSendMessageSize c = None" "sw_otherAvailableWindow c = 0" "sw_releasedWindow c = 0"
    "sw_received c = []" "sw_ownBufferSize c = of_nat (W p)"
proof
  let ?a = "sw_make (lay L W p) 0 (qs p) split"
  let ?c = "(sw_StateSendingInit_SendMessageStreamAvailable [] ?a)\<lparr>sw_sending := False\<rparr>"
  show "link_init_sent L W split (qs p) p = Inr ?c"
    by (simp add: link_init_sent_def sw_SendMessageStreamAvailable_def sw_MessageSent_def sw_make_def sw_emit_def SetNextState_not_initialized)
qed (use buffers [of p] in \<open>simp_all add: static_def holds_nil sw_make_def sw_emit_def sw_received_def rs_def\<close>)

text \<open>A peer that has sent its init message and gets that of the other will send an init response.\<close>

definition answering :: "bool \<Rightarrow> window \<Rightarrow> sesame_windowed \<Rightarrow> sesame_windowed" where
  "answering p w c = (sw_emit (EncodedRequestSendMessage 3) (sw_ReceivedInitialize (lay L W p)
    (sw_emit InitializationRequested (c\<lparr>sw_requestingInitialization := True\<rparr>)
      \<lparr>sw_otherAvailableWindow := w, sw_sendInitResponse := True, sw_requestingInitialization := False\<rparr>)))
    \<lparr>sw_state := StateSendingInitResponse, sw_sending := True, sw_sentInitResponse := True\<rparr>"

lemma answers:
  assumes "\<not> sw_sending c" and "holds enc c []"
  shows "sw_ReceivedMessage (lay L W p) 0 True keeps (hd (sw_PacketInit w)) [tl (sw_PacketInit w)] n c = Inr (answering p w c)"
    and "sw_SendMessageStreamAvailable [] (answering p w c) = Inr (sw_StateSendingInitResponse_SendMessageStreamAvailable [] (answering p w c))"
proof -
  have "\<not> sw_currentReceiveMessageReader c" using assms(2) by (simp add: holds_nil)
  moreover have "read_le16 (le16 w) = w" using read_le16_le16 [of w "[]"] by simp
  ultimately show "sw_ReceivedMessage (lay L W p) 0 True keeps (hd (sw_PacketInit w)) [tl (sw_PacketInit w)] n c = Inr (answering p w c)"
    using assms(1) by (simp add: answering_def sw_ReceivedMessage_def sw_PacketInit_def sw_Granted_def sw_SetNextState_def
      sw_ReceivedInitialize_def sw_emit_def Let_def)
  show "sw_SendMessageStreamAvailable [] (answering p w c) = Inr (sw_StateSendingInitResponse_SendMessageStreamAvailable [] (answering p w c))"
    by (simp add: sw_SendMessageStreamAvailable_def answering_def)
qed

lemma link_start_inv:
  "\<exists>k. link_start L W split qs = Inr k \<and> link_inv k (\<lambda>_. []) \<and> sw_requestedSendMessageSize (lk_peer k False) = None \<and> sw_sending (lk_peer k False)"
proof -
  obtain a where a: "link_init_sent L W split (qs True) True = Inr a" "static True a" "holds enc a []" "\<not> sw_initialized a" "\<not> sw_sending a"
    "\<not> sw_sentInitResponse a" "sw_requestedSendMessageSize a = None" "sw_otherAvailableWindow a = 0" "sw_releasedWindow a = 0"
    "sw_received a = []" "sw_ownBufferSize a = of_nat (W True)" by (rule init_sent)
  obtain b where b: "link_init_sent L W split (qs False) False = Inr b" "static False b" "holds enc b []" "\<not> sw_initialized b" "\<not> sw_sending b"
    "\<not> sw_sentInitResponse b" "sw_requestedSendMessageSize b = None" "sw_otherAvailableWindow b = 0" "sw_releasedWindow b = 0"
    "sw_received b = []" "sw_ownBufferSize b = of_nat (W False)" by (rule init_sent)
  let ?pk = "sw_PacketInit (of_nat (W True))" and ?rp = "sw_PacketInitResponse (of_nat (W False))"
  let ?b1 = "answering False (of_nat (W True)) b"
  let ?b2 = "sw_StateSendingInitResponse_SendMessageStreamAvailable [] ?b1"
  let ?k = "put_packet L False ?rp \<lparr>lk_peer = (\<lambda>p. if p then a else ?b2), lk_wire = (\<lambda>_. []), lk_phase = (\<lambda>_. NotStarted), lk_sent = (\<lambda>_. [])\<rparr>"
  have lw: "last_write ?b2 = ?rp" using b(11) by (simp add: answering_def last_write_def sw_ReceivedInitialize_def sw_emit_def)
  have start: "link_start L W split qs = Inr ?k"
    by (simp only: link_start_def a(1,11) b(1) Let_def answers [OF b(5,3)] lw bindR_simps)
  have "min (of_nat (W False)) (of_nat (W True)) = (of_nat (min (W True) (W False)) :: window)"
    by (simp add: min_def word_le_nat_alt)
  then have "static False ?b2" using b(2) by (simp add: answering_def static_def sw_ReceivedInitialize_def sw_emit_def)
  moreover have "holds enc ?b2 []" "request_ok ?b2" "sw_initialized ?b2" "sw_received ?b2 = []"
    using b(3,7,10) by (simp_all add: answering_def sw_ReceivedInitialize_def request_ok_def holds_nil sw_emit_def sw_received_def)
  moreover have "committed False ?b2 (Sending (psize ?rp))" by (simp add: answering_def committed_def)
  moreover have "room ?b2 (Sending (psize ?rp)) = W True - psize ?rp" "psize ?rp \<le> W True"
    using room_Sending [of "psize ?rp" ?b2] order_trans [OF psize_release(2) rs_small(2)] by (simp_all add: answering_def sw_ReceivedInitialize_def)
  moreover have "unat (sw_releasedWindow ?b2) = 0" by simp
  moreover have "waiting a NotStarted []" using a by (simp add: waiting_def)
  ultimately have "link_inv ?k (\<lambda>_. [])"
    using a(4,8,9,10) rs_small(2) [of False]
    by (simp only: link_inv_def shape_def credit_def put_packet_def all_bool_eq ex_bool_eq)
       (simp add: peer_ok_def room_def pend_def fun_upd_def)
  moreover have "sw_requestedSendMessageSize (lk_peer ?k False) = None" "sw_sending (lk_peer ?k False)"
    using b(7) by (simp_all add: put_packet_def answering_def sw_ReceivedInitialize_def)
  ultimately show ?thesis using start by blast
qed

lemma reach_inv: "link_reach L W split qs k \<Longrightarrow> \<exists>ms. link_inv k ms"
proof (induction rule: link_reach.induct)
  case (link_reach_start k)
  then show ?case using link_start_inv by fastforce
next
  case (link_reach_step k e k')
  then show ?case using link_step by fastforce
qed

lemma inv_holds: "link_inv k ms \<Longrightarrow> holds enc (lk_peer k p) (ms p)"
  using inv_peer [of k ms p] inv_waiting(2) [of k ms p] by (auto simp: peer_ok_def waiting_def)

lemma inv_credit:
  assumes "link_inv k ms"
  shows "\<forall>p. holds (\<lambda>m. packet_size L (4 # m)) (lk_peer k p) (ms p)
    \<and> room (lk_peer k p) (lk_phase k p) + total_size (packet_size L) (lk_wire k p)
        + total_size (\<lambda>m. packet_size L (4 # m)) (ms (\<not> p))
        + unat (sw_releasedWindow (lk_peer k (\<not> p))) + total_size win (lk_wire k (\<not> p)) = W (\<not> p)"
proof -
  have "packet_size L = psize" "(\<lambda>m. packet_size L (4 # m)) = enc" by auto
  then show ?thesis using assms inv_holds [OF assms] by (simp add: link_inv_def credit_def)
qed

lemma inv_order:
  assumes "link_inv k ms"
  shows "\<exists>rest. lk_sent k p = sw_received (lk_peer k (\<not> p)) @ rest
    \<and> (lk_wire k p = [] \<and> \<not> sw_readerReferenced (lk_peer k (\<not> p)) \<longrightarrow> rest = [])"
proof -
  have "lk_sent k p = sw_received (lk_peer k (\<not> p)) @ tl (ms (\<not> p)) @ messages (lk_wire k p)" using assms by (simp add: link_inv_def)
  moreover have "ms (\<not> p) = []" if "\<not> sw_readerReferenced (lk_peer k (\<not> p))"
    using inv_holds [OF assms, of "\<not> p"] that by (cases "ms (\<not> p)") (simp_all add: holds_def)
  ultimately show ?thesis by auto
qed

subsection \<open>The peers do not wait for each other\<close>

lemma thr_half: "2 * thr p \<le> W p - rs" "limit \<le> thr p"
proof -
  have "2 * thr p \<le> unat split * thr p" using split2 by simp
  also have "\<dots> \<le> W p - rs" unfolding thr_def by simp
  finally show "2 * thr p \<le> W p - rs" .
  show "limit \<le> thr p" unfolding limit_def thr_def by (intro div_le_mono diff_le_mono) (cases p; simp)
qed

lemma limit_fits: "n + 1 \<le> el_WorstCaseDecodedMessageSize L limit \<Longrightarrow> worst (n + 1) \<le> limit"
proof -
  assume n: "n + 1 \<le> el_WorstCaseDecodedMessageSize L limit"
  have "5 \<le> rs" using overhead [of "[0, 0, 0]"] worst_encoded [of "[0, 0, 0]"] by (simp add: rs_def numeral_3_eq_3)
  moreover have "limit = thr True \<or> limit = thr False" by (simp add: limit_def thr_def min_def)
  ultimately have "2 \<le> limit" using rs_small(3) [of True] rs_small(3) [of False] by auto
  then show ?thesis using worst_decoded worst_encoded_mono [OF n] by (meson order_trans)
qed

lemma idle_no_request:
  assumes settled: "\<And>p. settled (lk_peer k p) (lk_phase k p)" and static: "\<And>p. static p (lk_peer k p)"
    and req: "\<And>p. request_ok (lk_peer k p)"
    and avail: "\<And>p. unat (sw_otherAvailableWindow (lk_peer k p)) + unat (sw_releasedWindow (lk_peer k (\<not> p))) = W (\<not> p)"
    and someone: "rs \<le> unat (sw_otherAvailableWindow (lk_peer k q))"
  shows "sw_requestedSendMessageSize (lk_peer k p) = None"
proof -
  let ?a = "\<lambda>p. unat (sw_otherAvailableWindow (lk_peer k p))" and ?r = "\<lambda>p. unat (sw_releasedWindow (lk_peer k p))"
  have rel: "?r r < thr r" if "rs \<le> ?a r" for r
    using settled [of r] wants_release_iff [OF static [of r]] that by (auto simp: settled_def)
  have big: "thr (\<not> r) + rs \<le> ?a r" if "?r (\<not> r) < thr (\<not> r)" for r
    using avail [of r] thr_half(1) [of "\<not> r"] rs_small(2) [of "\<not> r"] that by linarith
  have "rs \<le> ?a (\<not> q)" using big [of "\<not> q"] rel [OF someone] by simp
  then have "rs \<le> ?a r" for r using someone by (cases "r = q") auto
  then have room: "thr (\<not> p) + rs \<le> ?a p" using big [of p] rel [of "\<not> p"] by blast
  have "\<not> wants_message L (lk_peer k p)" using settled [of p] by (simp add: settled_def)
  moreover have "wants_message L (lk_peer k p)" if "sw_requestedSendMessageSize (lk_peer k p) = Some n" for n
  proof -
    have "worst (n + 1) \<le> limit" using req [of p] that by (intro limit_fits) (simp add: request_ok_def)
    moreover have "sw_releaseWindowSize (lk_peer k p) = of_nat rs" using static [of p] by (simp add: static_def)
    ultimately show ?thesis using that room thr_half(2) [of "\<not> p"] by (simp add: wants_message_def)
  qed
  ultimately show ?thesis by (cases "sw_requestedSendMessageSize (lk_peer k p)") auto
qed

lemma not_stuck:
  assumes inv: "link_inv k ms" and req: "sw_requestedSendMessageSize (lk_peer k p) \<noteq> None"
  shows "\<exists>e. link_enabled L W e k \<and> \<not> is_Request e"
proof (rule ccontr)
  assume "\<not> ?thesis"
  then have no: "\<not> link_enabled L W e k" if "\<not> is_Request e" for e using that by blast
  have wires: "lk_wire k q = []" for q
    using no [of "Deliver (\<not> q) [tl (hd (lk_wire k q))] (\<lambda>_. False)"] by (simp add: link_enabled_def)
  have sh: "shape k ms" using inv by (simp add: link_inv_def)
  have ok: "peer_ok q (lk_peer k q) (lk_phase k q) (ms q)" for q
    using inv_peer [OF inv] sh wires [of False] by (cases q) (auto simp: shape_def peer_ok_def split: if_splits)
  have held: "ms q = []" for q
    using no [of "Release q (\<lambda>_. False)"] ok [of q]
    by (cases "ms q") (simp_all add: link_enabled_def peer_ok_def holds_def)
  have settled: "settled (lk_peer k q) (lk_phase k q)" for q
  proof -
    have "\<not> committed q (lk_peer k q) (lk_phase k q)"
      using no [of "Stream q"] no [of "Write q []"] no [of "Done q"]
      by (auto simp: committed_def link_enabled_def split: phase.splits)
    then show ?thesis using ok [of q] by (simp add: peer_ok_def)
  qed
  then have rm: "room (lk_peer k q) (lk_phase k q) = unat (sw_otherAvailableWindow (lk_peer k q))" for q
    using settled [of q] by (simp add: settled_def)
  have "credit k ms q = W (\<not> q)" for q using inv by (simp add: link_inv_def)
  then have avail: "unat (sw_otherAvailableWindow (lk_peer k q)) + unat (sw_releasedWindow (lk_peer k (\<not> q))) = W (\<not> q)" for q
    by (simp add: credit_def wires held rm)
  obtain r where "rs \<le> unat (sw_otherAvailableWindow (lk_peer k r))"
    using inv by (auto simp: link_inv_def wires rm)
  from idle_no_request [OF settled _ _ avail this] ok req show False by (simp add: peer_ok_def)
qed

end

subsection \<open>Two peers over SesameCobs\<close>

definition cobs_layer :: encoded_layer where
  "cobs_layer = \<lparr>el_MaxSendMessageSize = 0, el_WorstCaseEncodedMessageSize = cobs_WorstCaseEncodedMessageSize,
     el_WorstCaseDecodedMessageSize = cobs_WorstCaseDecodedMessageSize, el_MessageSize = cobs_MessageSize\<rparr>"

text \<open>
  Buffer sizes that work: the announced size fits 16 bits and the receive buffer, and every part the buffer is
  split into has room for a release window packet.
\<close>

definition sesame_config :: "(bool \<Rightarrow> nat) \<Rightarrow> byte \<Rightarrow> (bool \<Rightarrow> byte bounded_deque) \<Rightarrow> bool" where
  "sesame_config W split qs \<longleftrightarrow> 2 \<le> unat split
     \<and> (\<forall>p. 5 + unat split * 5 \<le> W p \<and> W p < 65536 \<and> bd_inv (qs p) \<and> bd_list (qs p) = []
          \<and> W p \<le> bd_max_size (qs p) \<and> bd_max_size (qs p) < 2 ^ 32)"

interpretation cobs_windowed: windowed_layer cobs_encode cobs_layer
proof
  show "length m + 2 \<le> length (cobs_encode m)" for m using encode_length_bounds(1) [of m] by simp
qed (simp_all add: cobs_layer_def cobs.message_size cobs.worst_encoded cobs.worst_encoded_mono cobs.worst_decoded)

lemma sesame_config_link: "sesame_config W split qs \<Longrightarrow> windowed_link cobs_encode cobs_layer W split qs"
proof unfold_locales
  assume c: "sesame_config W split qs"
  have w3: "el_WorstCaseEncodedMessageSize cobs_layer 3 = 5" by (simp add: cobs_layer_def cobs_WorstCaseEncodedMessageSize_def)
  show "W p < 65536" "2 \<le> unat split" "bd_inv (qs p)" "bd_list (qs p) = []" "W p \<le> bd_max_size (qs p)" "bd_max_size (qs p) < 2 ^ 32"
    "el_WorstCaseEncodedMessageSize cobs_layer 3 + unat split * el_WorstCaseEncodedMessageSize cobs_layer 3 \<le> W p" for p
    using c by (simp_all add: sesame_config_def w3)
  let ?n = "(min (W True) (W False) - 5) div unat split"
  have b: "5 + unat split * 5 \<le> W p" for p using c by (simp add: sesame_config_def)
  have "unat split * 5 \<le> min (W True) (W False) - 5" using b [of True] b [of False] by linarith
  moreover have "unat split \<noteq> 0" using c by (auto simp: sesame_config_def)
  ultimately have "5 \<le> ?n" by (metis div_le_mono nonzero_mult_div_cancel_left)
  then have "0 < (?n - 2) - (?n - 2) div 254" by linarith
  then show "0 < el_WorstCaseDecodedMessageSize cobs_layer ((min (W True) (W False) - el_WorstCaseEncodedMessageSize cobs_layer 3) div unat split)"
    by (simp only: w3) (simp add: cobs_layer_def cobs_WorstCaseDecodedMessageSize_def)
qed

locale sesame_pair =
  fixes W :: "bool \<Rightarrow> nat" and split :: byte and qs :: "bool \<Rightarrow> byte bounded_deque"
  assumes config: "sesame_config W split qs"

sublocale sesame_pair \<subseteq> windowed_link cobs_encode cobs_layer W split qs
  by (rule sesame_config_link [OF config])

text \<open>
  The sizes \<^verbatim>\<open>SesameInstantiation\<close> chooses for messages of \<open>m\<close> bytes: the window a peer announces is that of a
  \<^verbatim>\<open>SesameCobs\<close> whose send buffer has two bytes more, and its receive buffer has room for \<open>s\<close> messages with their
  lengths.
\<close>

definition instance_window :: "nat \<Rightarrow> nat" where
  "instance_window m = cobs_MaxSendMessageSize (m + 2)"

definition instance_buffer :: "nat \<Rightarrow> byte \<Rightarrow> byte bounded_deque" where
  "instance_buffer m s = bd_make (replicate ((m + 2) * unat s) None)"

lemma instance_buffer: "0 < unat s \<Longrightarrow> bd_inv (instance_buffer m s) \<and> bd_list (instance_buffer m s) = []
    \<and> bd_max_size (instance_buffer m s) = (m + 2) * unat s"
  by (simp add: instance_buffer_def bd_make_def bd_inv_def bd_wf_def bd_max_size_def bv_inv_def bd_vector_def alive_def bd_list_def bv_list_def)

text \<open>
  The buffers \<^verbatim>\<open>SesameInstantiation\<close> makes are large enough for flow control: for messages of a size that is not
  too small for the number of buffers, the announced window fits 16 bits and the receive buffer, and each part of it has
  room for a release window packet, so that the theorems on two peers below hold of them.
\<close>

theorem instance_config:
  assumes "2 \<le> unat s" and "\<And>p. 5 * unat s + 12 \<le> m p \<and> m p < 65536"
  shows "sesame_config (\<lambda>p. instance_window (m p)) s (\<lambda>p. instance_buffer (m p) s)"
proof -
  have s: "unat s < 256" using unsigned_less [of s] by simp
  have "5 + unat s * 5 \<le> instance_window (m p)" "instance_window (m p) < 65536" for p
  proof -
    let ?x = "m p - 2"
    have "instance_window (m p) = ?x - ?x div 255" by (simp add: instance_window_def cobs_MaxSendMessageSize_def)
    moreover have "255 * (?x div 255) \<le> ?x" by simp
    ultimately show "5 + unat s * 5 \<le> instance_window (m p)" "instance_window (m p) < 65536"
      using assms(2) [of p] s by linarith+
  qed
  moreover have "instance_window (m p) \<le> (m p + 2) * unat s" "(m p + 2) * unat s < 2 ^ 32" for p
  proof -
    have "instance_window (m p) \<le> m p + 2" by (simp add: instance_window_def cobs_MaxSendMessageSize_def)
    also have "\<dots> \<le> (m p + 2) * unat s" using mult_le_mono2 [of 1 "unat s" "m p + 2"] assms(1) by simp
    finally show "instance_window (m p) \<le> (m p + 2) * unat s" .
    have "(m p + 2) * unat s \<le> 65538 * 256" using assms(2) [of p] s by (intro mult_le_mono) simp_all
    then show "(m p + 2) * unat s < 2 ^ 32" by simp
  qed
  ultimately show ?thesis using assms(1) instance_buffer [of s] by (simp add: sesame_config_def)
qed

theorem instance_config_witness: "sesame_config (\<lambda>p. instance_window 100) 2 (\<lambda>p. instance_buffer 100 2)"
  using instance_config [of 2 "\<lambda>_. 100"] by simp

interpretation instance_100: sesame_pair "\<lambda>p. instance_window 100" 2 "\<lambda>p. instance_buffer 100 2"
proof
  have "instance_window 100 = 98" by (simp add: instance_window_def cobs_MaxSendMessageSize_def)
  then show "sesame_config (\<lambda>p. instance_window 100) 2 (\<lambda>p. instance_buffer 100 2)"
    using instance_buffer [of 2 100] by (simp add: sesame_config_def)
qed

text \<open>
  C1. Flow control never fails: with such buffers, the two peers start, and in every state that any interleaving of
  requests, transmissions, arrivals (in whatever ranges the bytes come) and releases of readers leads to, every call that
  can be made succeeds: no assertion fails, and no message is ever written to a receive buffer that has no room for it.
\<close>

theorem link_never_fails:
  assumes "sesame_config W split qs"
  shows "(\<exists>k. link_start cobs_layer W split qs = Inr k)
    \<and> (\<forall>k e. link_reach cobs_layer W split qs k \<and> link_enabled cobs_layer W e k \<longrightarrow> (\<exists>k'. link_do cobs_layer W e k = Inr k'))"
proof -
  note l = sesame_config_link [OF assms]
  show ?thesis using windowed_link.link_start_inv [OF l] windowed_link.reach_inv [OF l] windowed_link.link_step [OF l] by meson
qed

lemma instance_start:
  obtains k where "link_start cobs_layer (\<lambda>p. instance_window 100) 2 (\<lambda>p. instance_buffer 100 2) = Inr k"
    "link_reach cobs_layer (\<lambda>p. instance_window 100) 2 (\<lambda>p. instance_buffer 100 2) k"
    "sw_requestedSendMessageSize (lk_peer k False) = None" "sw_sending (lk_peer k False)"
  using instance_100.link_start_inv link_reach_start by blast


theorem link_never_fails_witness:
  "\<exists>k k'. link_reach cobs_layer (\<lambda>p. instance_window 100) 2 (\<lambda>p. instance_buffer 100 2) k
    \<and> link_do cobs_layer (\<lambda>p. instance_window 100) (Done False) k = Inr k'"
proof -
  obtain k where k: "link_start cobs_layer (\<lambda>p. instance_window 100) 2 (\<lambda>p. instance_buffer 100 2) = Inr k"
    "link_reach cobs_layer (\<lambda>p. instance_window 100) 2 (\<lambda>p. instance_buffer 100 2) k" using instance_start by blast
  have "link_enabled cobs_layer (\<lambda>p. instance_window 100) (Done False) k"
    using k(1) by (auto simp: link_start_def put_packet_def link_enabled_def result_simps Let_def)
  then show ?thesis using link_never_fails [OF instance_100.config] k(2) by blast
qed

text \<open>
  C2. The credit is conserved: in every reachable state, what a peer may still send, the encoded sizes of what it has
  sent and not delivered, of the messages the other side holds, what the other side has still to give back, and what it
  gives back in packets on the way, add up to exactly the buffer size the other side announced, for both directions.
\<close>

theorem link_credit_conserved:
  assumes "sesame_config W split qs" and "link_reach cobs_layer W split qs k"
  shows "\<exists>ms. \<forall>p. holds (\<lambda>m. packet_size cobs_layer (4 # m)) (lk_peer k p) (ms p)
    \<and> room (lk_peer k p) (lk_phase k p) + total_size (packet_size cobs_layer) (lk_wire k p)
        + total_size (\<lambda>m. packet_size cobs_layer (4 # m)) (ms (\<not> p))
        + unat (sw_releasedWindow (lk_peer k (\<not> p))) + total_size win (lk_wire k (\<not> p)) = W (\<not> p)"
proof -
  note l = sesame_config_link [OF assms(1)]
  obtain ms where ms: "windowed_link.link_inv cobs_encode cobs_layer W split qs k ms"
    using windowed_link.reach_inv [OF l assms(2)] by blast
  show ?thesis using windowed_link.inv_credit [OF l ms] by blast
qed

theorem link_credit_conserved_witness:
  "\<exists>k ms. link_reach cobs_layer (\<lambda>p. instance_window 100) 2 (\<lambda>p. instance_buffer 100 2) k
    \<and> room (lk_peer k False) (lk_phase k False) + total_size (packet_size cobs_layer) (lk_wire k False)
        + total_size (\<lambda>m. packet_size cobs_layer (4 # m)) (ms True)
        + unat (sw_releasedWindow (lk_peer k True)) + total_size win (lk_wire k True) = instance_window 100"
proof -
  obtain k where k: "link_reach cobs_layer (\<lambda>p. instance_window 100) 2 (\<lambda>p. instance_buffer 100 2) k" using instance_start by blast
  from link_credit_conserved [OF instance_100.config k] obtain ms where
    "\<forall>p. holds (\<lambda>m. packet_size cobs_layer (4 # m)) (lk_peer k p) (ms p)
    \<and> room (lk_peer k p) (lk_phase k p) + total_size (packet_size cobs_layer) (lk_wire k p)
        + total_size (\<lambda>m. packet_size cobs_layer (4 # m)) (ms (\<not> p))
        + unat (sw_releasedWindow (lk_peer k (\<not> p))) + total_size win (lk_wire k (\<not> p)) = instance_window 100" ..
  from spec [OF this, of False] k show ?thesis by auto
qed

text \<open>
  C3. Every message arrives once, unchanged and in order: at any time, the messages the observer at the other side has
  been given are the first of those the client has written, and when nothing is under way and no reader is in use, all of
  them.
\<close>

theorem link_messages_in_order:
  assumes "sesame_config W split qs" and "link_reach cobs_layer W split qs k"
  shows "\<exists>rest. lk_sent k p = sw_received (lk_peer k (\<not> p)) @ rest
    \<and> (lk_wire k p = [] \<and> \<not> sw_readerReferenced (lk_peer k (\<not> p)) \<longrightarrow> rest = [])"
proof -
  note l = sesame_config_link [OF assms(1)]
  obtain ms where ms: "windowed_link.link_inv cobs_encode cobs_layer W split qs k ms"
    using windowed_link.reach_inv [OF l assms(2)] by blast
  show ?thesis using windowed_link.inv_order [OF l ms, of p] by blast
qed

theorem link_messages_in_order_witness:
  "\<exists>k rest. link_reach cobs_layer (\<lambda>p. instance_window 100) 2 (\<lambda>p. instance_buffer 100 2) k
    \<and> lk_sent k False = sw_received (lk_peer k True) @ rest"
proof -
  obtain k where k: "link_reach cobs_layer (\<lambda>p. instance_window 100) 2 (\<lambda>p. instance_buffer 100 2) k" using instance_start by blast
  then show ?thesis using link_messages_in_order [OF instance_100.config k, of False] by auto
qed

text \<open>
  C4. The peers never wait for each other for ever: in a reachable state in which a client waits for the stream it
  requested, something can happen that does not depend on a new request: a transmission can start or end, a client can
  write its message, a packet can arrive, or a reader can be released.
\<close>

theorem link_not_stuck:
  assumes "sesame_config W split qs" and "link_reach cobs_layer W split qs k"
    and "sw_requestedSendMessageSize (lk_peer k p) \<noteq> None"
  shows "\<exists>e. link_enabled cobs_layer W e k \<and> \<not> is_Request e"
proof -
  note l = sesame_config_link [OF assms(1)]
  obtain ms where ms: "windowed_link.link_inv cobs_encode cobs_layer W split qs k ms"
    using windowed_link.reach_inv [OF l assms(2)] by blast
  show ?thesis by (rule windowed_link.not_stuck [OF l ms assms(3)])
qed

theorem link_not_stuck_witness:
  "\<exists>k e. link_reach cobs_layer (\<lambda>p. instance_window 100) 2 (\<lambda>p. instance_buffer 100 2) k \<and> sw_requestedSendMessageSize (lk_peer k False) = Some 0
    \<and> link_enabled cobs_layer (\<lambda>p. instance_window 100) e k \<and> \<not> is_Request e"
proof -
  let ?W = "\<lambda>p::bool. instance_window 100"
  obtain k where k: "link_reach cobs_layer (\<lambda>p. instance_window 100) 2 (\<lambda>p. instance_buffer 100 2) k"
    "sw_requestedSendMessageSize (lk_peer k False) = None" "sw_sending (lk_peer k False)" using instance_start by blast
  obtain ms where ms: "instance_100.link_inv k ms" using instance_100.reach_inv [OF k(1)] by blast
  have i: "sw_initialized (lk_peer k False)" using instance_100.initialized_when [OF ms] k(3) by blast
  then obtain m where m: "sw_MaxSendMessageSize (lay cobs_layer ?W False) (lk_peer k False) = Inr m"
    by (simp add: sw_MaxSendMessageSize_def checked_def)
  then have en: "link_enabled cobs_layer ?W (Request False 0) k" using k(2) by (simp add: link_enabled_def)
  from m obtain k' where k': "link_do cobs_layer ?W (Request False 0) k = Inr k'"
    "sw_requestedSendMessageSize (lk_peer k' False) = Some 0"
    by (simp add: link_do_def sw_RequestSendMessage_def checked_def put_peer_def)
  from link_reach_step [OF k(1) en k'(1)] have "link_reach cobs_layer (\<lambda>p. instance_window 100) 2 (\<lambda>p. instance_buffer 100 2) k'" .
  with link_not_stuck [OF instance_100.config this, of False] k'(2) show ?thesis by auto
qed

subsection \<open>Two peers that start at the same time\<close>

text \<open>
  Both peers send their init message before the other's arrives, both answer it with an init response, and both init
  responses arrive after they have been sent completely. The two peers have the same sizes and so go through the same
  states; this is the state of each in the end.
\<close>

definition crossing_init :: "encoded_layer \<Rightarrow> nat \<Rightarrow> byte \<Rightarrow> byte bounded_deque \<Rightarrow> sesame_windowed result" where
  "crossing_init L w split q =
     (let Lw = lay L (\<lambda>p. w) True; pk = sw_PacketInit (of_nat w); rp = sw_PacketInitResponse (of_nat w)
      in bindR (link_init_sent L (\<lambda>p. w) split q True)
        (\<lambda>c. bindR (sw_ReceivedMessage Lw 0 True (\<lambda>_. False) (hd pk) [tl pk] (packet_size L pk) c)
        (\<lambda>c. bindR (sw_SendMessageStreamAvailable [] c)
        (\<lambda>c. let c = sw_MessageSent Lw 0 (packet_size L rp) c
              in sw_ReceivedMessage Lw 0 True (\<lambda>_. False) (hd rp) [tl rp] (packet_size L rp) c))))"

text \<open>
  C5. Peers that start at the same time count the init response twice: although the init response takes room in the
  window of the other side, the arrival of the other's init response sets the window to the full size again, and
  the other side gives the same room back later; the window a peer knows of and what the other will release exceed the
  size of the buffer by the size of the init response, 5 bytes.
\<close>

theorem crossing_init_overcommits:
  assumes "sesame_config (\<lambda>p. w) split (\<lambda>p. q)"
  shows "\<exists>c. crossing_init cobs_layer w split q = Inr c \<and> sw_initialized c
    \<and> unat (sw_otherAvailableWindow c) + unat (sw_releasedWindow c) = w + 5"
proof -
  let ?W = "\<lambda>p::bool. w" and ?w = "of_nat w :: window"
  let ?L = "lay cobs_layer ?W True" and ?rp = "sw_PacketInitResponse ?w"
  note l = sesame_config_link [OF assms]
  obtain a where a: "link_init_sent cobs_layer ?W split q True = Inr a" "\<not> sw_sending a"
      "holds (windowed_layer.enc cobs_encode) a []"
    using windowed_link.init_sent [OF l, of True] by metis
  define c1 where "c1 = windowed_link.answering cobs_layer ?W True ?w a"
  note ans = windowed_link.answers [OF l a(2,3), where p = True and w = ?w, folded c1_def]
  let ?c2 = "sw_StateSendingInitResponse_SendMessageStreamAvailable [] c1"
  have c1: "sw_initialized c1" "sw_state c1 = StateSendingInitResponse"
    by (simp_all add: c1_def windowed_link.answering_def [OF l] sw_ReceivedInitialize_def sw_emit_def)
  have size: "packet_size cobs_layer ?rp = 5"
    using encode_length_bounds [of ?rp] by (simp add: packet_size_def cobs_layer_def cobs.message_size sw_PacketInitResponse_def)
  have w: "w < 65536" using assms by (simp add: sesame_config_def)
  have "read_le16 (le16 ?w) = ?w" using read_le16_le16 [of ?w "[]"] by simp
  then have "\<exists>c. sw_ReceivedMessage ?L 0 True (\<lambda>_. False) (hd ?rp) [tl ?rp] 5 c3 = Inr c \<and> sw_initialized c
      \<and> sw_otherAvailableWindow c = ?w \<and> sw_releasedWindow c = 5" if "sw_initialized c3" for c3
    using that by (simp add: sw_ReceivedMessage_def sw_PacketInitResponse_def sw_ReceivedInitialize_def sw_emit_def Let_def)
  moreover have "sw_initialized (sw_MessageSent ?L 0 5 ?c2)" using c1 by (simp add: sw_MessageSent_def sw_emit_def)
  ultimately obtain c where c: "sw_ReceivedMessage ?L 0 True (\<lambda>_. False) (hd ?rp) [tl ?rp] 5 (sw_MessageSent ?L 0 5 ?c2) = Inr c"
      "sw_initialized c" "sw_otherAvailableWindow c = ?w" "sw_releasedWindow c = 5" by blast
  have "crossing_init cobs_layer w split q = Inr c"
    by (simp only: crossing_init_def Let_def a(1) ans size c(1) bindR_simps)
  then show ?thesis using c w by (simp add: unat_of_nat)
qed

theorem crossing_init_overcommits_witness:
  "\<exists>c. crossing_init cobs_layer (instance_window 100) 2 (instance_buffer 100 2) = Inr c
    \<and> unat (sw_otherAvailableWindow c) + unat (sw_releasedWindow c) = 103"
proof -
  have "instance_window 100 = 98" by (simp add: instance_window_def cobs_MaxSendMessageSize_def)
  then show ?thesis using crossing_init_overcommits [OF instance_100.config] by auto
qed

end
