(* ===== verification/Interrupts.thy ===== *)
theory Interrupts
  imports Prelude
begin

section \<open>Code that can be interrupted\<close>

text \<open>
  Some classes of the library are shared between the event loop and interrupt handlers. On the processors the library is
  written for, an interrupt runs to its end before the code it interrupted goes on. So a function of the event loop is
  modelled by the sequence of its accesses to shared variables, with an interrupt possible before each of them, and a
  function called from an interrupt is one step.

  \<open>run\<close> executes such a function for a given schedule, the lists of interrupts that arrive before each access. \<open>always\<close> says that a
  function ends and meets a condition whatever interrupts arrive, knowing only how interrupts may change the state, the
  relation \<open>rely\<close>; the locale shows that this holds for \<open>run\<close> and every schedule when the handler respects the relation.
\<close>

subsection \<open>Functions as sequences of accesses\<close>

text \<open>
  \<open>Access u k\<close> is an atomic access that changes the state by \<open>u\<close> and goes on with \<open>k\<close>, which is given the state before the change:
  a load has the identity for \<open>u\<close>, a store ignores the state.
\<close>

datatype ('s, 'r) prog =
    Done 'r
  | Fault fault
  | Access "'s \<Rightarrow> 's" "'s \<Rightarrow> ('s, 'r) prog"

primrec bindP :: "('s, 'r) prog \<Rightarrow> ('r \<Rightarrow> ('s, 't) prog) \<Rightarrow> ('s, 't) prog" where
  "bindP (Done r) f = f r"
| "bindP (Fault e) f = Fault e"
| "bindP (Access u k) f = Access u (\<lambda>s. bindP (k s) f)"

abbreviation load :: "('s \<Rightarrow> 'v) \<Rightarrow> ('v \<Rightarrow> ('s, 'r) prog) \<Rightarrow> ('s, 'r) prog" where
  "load f k \<equiv> Access id (\<lambda>s. k (f s))"

abbreviation store :: "('s \<Rightarrow> 's) \<Rightarrow> ('s, 'r) prog \<Rightarrow> ('s, 'r) prog" where
  "store u p \<equiv> Access u (\<lambda>_. p)"

definition checkedP :: "bool \<Rightarrow> ('s, 'r) prog \<Rightarrow> ('s, 'r) prog" where
  "checkedP b p = (if b then p else Fault AssertFailed)"

lemma checkedP_simps [simp]: "checkedP True p = p" "checkedP False p = Fault AssertFailed"
  by (simp_all add: checkedP_def)

subsection \<open>Running with a schedule of interrupts\<close>

primrec irqs :: "('i \<Rightarrow> 's \<Rightarrow> 's result) \<Rightarrow> 'i list \<Rightarrow> 's \<Rightarrow> 's result" where
  "irqs irq [] s = Inr s"
| "irqs irq (i # is) s = bindR (irq i s) (irqs irq is)"

definition arrived :: "'i list list \<Rightarrow> 'i list" where
  "arrived hs = (case hs of [] \<Rightarrow> [] | h # _ \<Rightarrow> h)"

lemma arrived_simps [simp]: "arrived [] = []" "arrived (h # hs) = h"
  by (simp_all add: arrived_def)

primrec run :: "('s, 'r) prog \<Rightarrow> ('i \<Rightarrow> 's \<Rightarrow> 's result) \<Rightarrow> 'i list list \<Rightarrow> 's \<Rightarrow> ('r \<times> 'i list list \<times> 's) result" where
  "run (Done r) irq hs s = Inr (r, hs, s)"
| "run (Fault e) irq hs s = Inl e"
| "run (Access u k) irq hs s = bindR (irqs irq (arrived hs) s) (\<lambda>s1. run (k s1) irq (tl hs) (u s1))"

lemma run_bindP: "run (bindP p f) irq hs s = bindR (run p irq hs s) (\<lambda>(r, hs', s'). run (f r) irq hs' s')"
  by (induction p arbitrary: hs s) (simp_all add: bindR_assoc)

subsection \<open>What holds whatever interrupts arrive\<close>

text \<open>
  Before each access and at the end the state must meet \<open>ok\<close>, which is what a handler may count on.
\<close>

primrec always :: "('s, 'r) prog \<Rightarrow> ('s \<Rightarrow> bool) \<Rightarrow> ('s \<Rightarrow> 's \<Rightarrow> bool) \<Rightarrow> 's \<Rightarrow> ('r \<Rightarrow> 's \<Rightarrow> bool) \<Rightarrow> bool" where
  "always (Done r) ok rely s Q = (ok s \<and> Q r s)"
| "always (Fault e) ok rely s Q = False"
| "always (Access u k) ok rely s Q = (ok s \<and> (\<forall>s1. rely s s1 \<longrightarrow> always (k s1) ok rely (u s1) Q))"

lemma always_bindP: "always (bindP p f) ok rely s Q = always p ok rely s (\<lambda>r s'. always (f r) ok rely s' Q)"
proof (induction p arbitrary: s)
  case (Done r)
  have "always (f r) ok rely s Q \<Longrightarrow> ok s" by (cases "f r") simp_all
  then show ?case by auto
qed simp_all

lemma always_mono: "always p ok rely s Q \<Longrightarrow> (\<And>r s'. ok s' \<Longrightarrow> Q r s' \<Longrightarrow> Q' r s') \<Longrightarrow> always p ok rely s Q'"
  by (induction p arbitrary: s) auto

lemma always_bind:
  assumes "always p ok rely s Q" and "\<And>r s'. ok s' \<Longrightarrow> Q r s' \<Longrightarrow> always (f r) ok rely s' Q'"
  shows "always (bindP p f) ok rely s Q'"
  unfolding always_bindP using assms by (rule always_mono)

lemma always_Access: "ok s \<Longrightarrow> (\<And>s1. rely s s1 \<Longrightarrow> always (k s1) ok rely (u s1) Q) \<Longrightarrow> always (Access u k) ok rely s Q"
  by simp

text \<open>
  A handler that never fails in a state that meets \<open>ok\<close>, and whose effect is in \<open>rely\<close>.
\<close>

locale interrupt_handler =
  fixes ok :: "'s \<Rightarrow> bool"
    and rely :: "'s \<Rightarrow> 's \<Rightarrow> bool"
    and irq :: "'i \<Rightarrow> 's \<Rightarrow> 's result"
    and allowed :: "'i \<Rightarrow> bool"
  assumes rely_refl: "ok s \<Longrightarrow> rely s s"
    and rely_trans: "rely s s1 \<Longrightarrow> rely s1 s2 \<Longrightarrow> rely s s2"
    and rely_ok: "rely s s1 \<Longrightarrow> ok s1"
    and irq: "allowed i \<Longrightarrow> ok s \<Longrightarrow> \<exists>s'. irq i s = Inr s' \<and> rely s s'"
begin

lemma irqs_rely: "\<forall>i \<in> set is. allowed i \<Longrightarrow> ok s \<Longrightarrow> \<exists>s'. irqs irq is s = Inr s' \<and> rely s s'"
proof (induction "is" arbitrary: s)
  case Nil
  then show ?case by (simp add: rely_refl)
next
  case (Cons i "is")
  obtain s1 where s1: "irq i s = Inr s1" "rely s s1" using irq [of i s] Cons.prems by auto
  obtain s2 where "irqs irq is s1 = Inr s2" "rely s1 s2" using Cons.IH [of s1] Cons.prems rely_ok [OF s1(2)] by auto
  then show ?case using s1 rely_trans by auto
qed

lemma run_always:
  assumes "always p ok rely s Q" and "\<forall>h \<in> set hs. \<forall>i \<in> set h. allowed i"
  shows "\<exists>r hs' s'. run p irq hs s = Inr (r, hs', s') \<and> Q r s' \<and> ok s' \<and> set hs' \<subseteq> set hs"
  using assms
proof (induction p arbitrary: hs s)
  case (Access u k)
  have "\<forall>i \<in> set (arrived hs). allowed i" using Access.prems(2) by (cases hs) auto
  from irqs_rely [OF this, of s] obtain s1 where s1: "irqs irq (arrived hs) s = Inr s1" "rely s s1"
    using Access.prems(1) by auto
  have tl: "set (tl hs) \<subseteq> set hs" by (cases hs) auto
  have "\<exists>r hs' s'. run (k s1) irq (tl hs) (u s1) = Inr (r, hs', s') \<and> Q r s' \<and> ok s' \<and> set hs' \<subseteq> set (tl hs)"
    using Access.prems s1(2) tl by (intro Access.IH) auto
  then show ?case using s1(1) tl by auto
qed simp_all

lemma always_load:
  assumes "ok s" and "\<And>s1. rely s s1 \<Longrightarrow> always (k (f s1)) ok rely s1 Q"
  shows "always (load f k) ok rely s Q"
  using assms by simp

end

end
