(* ===== verification/Irq_Queue.thy ===== *)
theory Irq_Queue
  imports Interrupts Stream_Readers
begin

section \<open>The queue between an interrupt and the event loop\<close>

text \<open>
  \<^verbatim>\<open>infra::QueueForOneReaderOneIrqWriter\<close> (infra/event/QueueForOneReaderOneIrqWriter.hpp): a circular buffer into which an
  interrupt writes and from which the event loop reads, and the event that tells the reader of new data. The functions called from
  the interrupt are functions on the state; those of the reader are sequences of accesses, so that the
  interrupt can come between any two of them. The theorems hold for every schedule of interrupts: the
  reader gets what was added, once and in order, and no data is added without an event that calls the reader afterwards.
\<close>

subsection \<open>The queue\<close>

text \<open>
  The pointers are indices into the buffer, \<open>iq_events\<close> counts the events for \<^verbatim>\<open>DataAvailable\<close> the event dispatcher holds. The last
  three fields are history: what has been added, whether something was added since the reader was last called, and
  whether the reader is being called. No function reads them.
\<close>

record 'a irq_queue =
  iq_buffer :: "'a list"
  iq_contentsBegin :: nat
  iq_contentsEnd :: nat
  iq_notificationScheduled :: bool
  iq_events :: nat
  iq_added :: "'a list"
  iq_unseen :: bool
  iq_running :: bool

definition iq_make :: "'a list \<Rightarrow> 'a irq_queue" where
  "iq_make b = \<lparr>iq_buffer = b, iq_contentsBegin = 0, iq_contentsEnd = 0, iq_notificationScheduled = False, iq_events = 0,
     iq_added = [], iq_unseen = False, iq_running = False\<rparr>"

abbreviation iq_N :: "'a irq_queue \<Rightarrow> nat" where
  "iq_N q \<equiv> length (iq_buffer q)"

definition iq_FullBetween :: "nat \<Rightarrow> nat \<Rightarrow> nat \<Rightarrow> bool" where
  "iq_FullBetween N b e \<longleftrightarrow> (e = N - 1 \<or> b = e + 1) \<and> (e \<noteq> N - 1 \<or> b = 0)"

definition iq_Capacity :: "'a irq_queue \<Rightarrow> nat" where
  "iq_Capacity q = iq_N q - 1"

definition iq_SizeBetween :: "nat \<Rightarrow> nat \<Rightarrow> nat \<Rightarrow> nat" where
  "iq_SizeBetween N b e = (if iq_FullBetween N b e then N - 1 else if b \<le> e then e - b else (N - b) + e)"

subsection \<open>Functions called from the interrupt\<close>

definition iq_Empty :: "'a irq_queue \<Rightarrow> bool" where
  "iq_Empty q \<longleftrightarrow> iq_contentsBegin q = iq_contentsEnd q"

definition iq_Full :: "'a irq_queue \<Rightarrow> bool" where
  "iq_Full q \<longleftrightarrow> iq_FullBetween (iq_N q) (iq_contentsBegin q) (iq_contentsEnd q)"

definition iq_Size :: "'a irq_queue \<Rightarrow> nat" where
  "iq_Size q = iq_SizeBetween (iq_N q) (iq_contentsBegin q) (iq_contentsEnd q)"

definition iq_NotifyDataAvailable :: "'a irq_queue \<Rightarrow> 'a irq_queue" where
  "iq_NotifyDataAvailable q =
     (if \<not> iq_Empty q \<and> \<not> iq_notificationScheduled q
      then q\<lparr>iq_notificationScheduled := True, iq_events := iq_events q + 1\<rparr> else q)"

text \<open>The history of an addition.\<close>

definition iq_note :: "'a list \<Rightarrow> 'a irq_queue \<Rightarrow> 'a irq_queue" where
  "iq_note xs q = q\<lparr>iq_added := iq_added q @ xs, iq_unseen := iq_unseen q \<or> xs \<noteq> []\<rparr>"

definition iq_AddFromInterruptUnchecked :: "'a \<Rightarrow> 'a irq_queue \<Rightarrow> 'a irq_queue" where
  "iq_AddFromInterruptUnchecked element q =
     (if iq_Full q then q
      else let q1 = q\<lparr>iq_buffer := (iq_buffer q)[iq_contentsEnd q := element]\<rparr>;
               q2 = (if iq_contentsEnd q1 = iq_N q1 - 1 then q1\<lparr>iq_contentsEnd := 0\<rparr>
                     else q1\<lparr>iq_contentsEnd := iq_contentsEnd q1 + 1\<rparr>)
           in iq_NotifyDataAvailable (iq_note [element] q2))"

definition iq_AddFromInterrupt :: "'a \<Rightarrow> 'a irq_queue \<Rightarrow> 'a irq_queue result" where
  "iq_AddFromInterrupt element q = checked (\<not> iq_Full q) (Inr (iq_AddFromInterruptUnchecked element q))"

definition iq_AddRangeFromInterruptUnchecked :: "'a list \<Rightarrow> 'a irq_queue \<Rightarrow> 'a irq_queue" where
  "iq_AddRangeFromInterruptUnchecked data q =
     (let e = iq_contentsEnd q; b = iq_contentsBegin q;
          available = (if b \<le> e then iq_N q - 1 - (e - b) else b - e - 1)
      in if available < length data then q
         else let copySize = min (length data) (iq_N q - e);
                  buffer1 = overwrite (iq_buffer q) e (take copySize data);
                  e1 = (if e = iq_N q - copySize then 0 else e + copySize);
                  rest = drop copySize data;
                  buffer2 = overwrite buffer1 e1 rest
              in iq_NotifyDataAvailable (iq_note data (q\<lparr>iq_buffer := buffer2, iq_contentsEnd := e1 + length rest\<rparr>)))"

definition iq_AddRangeFromInterrupt :: "'a list \<Rightarrow> 'a irq_queue \<Rightarrow> 'a irq_queue result" where
  "iq_AddRangeFromInterrupt data q =
     checked (length data \<le> iq_Capacity q - iq_Size q) (Inr (iq_AddRangeFromInterruptUnchecked data q))"

text \<open>What an interrupt may call.\<close>

datatype 'a iq_add = AddElementUnchecked 'a | AddRangeUnchecked "'a list" | AddElement 'a | AddRange "'a list"

fun iq_irq :: "'a iq_add \<Rightarrow> 'a irq_queue \<Rightarrow> 'a irq_queue result" where
  "iq_irq (AddElementUnchecked x) q = Inr (iq_AddFromInterruptUnchecked x q)"
| "iq_irq (AddRangeUnchecked xs) q = Inr (iq_AddRangeFromInterruptUnchecked xs q)"
| "iq_irq (AddElement x) q = iq_AddFromInterrupt x q"
| "iq_irq (AddRange xs) q = iq_AddRangeFromInterrupt xs q"

fun iq_unchecked :: "'a iq_add \<Rightarrow> bool" where
  "iq_unchecked (AddElementUnchecked x) = True"
| "iq_unchecked (AddRangeUnchecked xs) = True"
| "iq_unchecked _ = False"

subsection \<open>Functions of the reader\<close>

type_synonym ('a, 'r) iq_prog = "('a irq_queue, 'r) prog"

text \<open>A load of \<^verbatim>\<open>contentsBegin\<close>, with the size of the buffer, which is constant.\<close>

abbreviation load_begin :: "(nat \<Rightarrow> nat \<Rightarrow> ('a, 'r) iq_prog) \<Rightarrow> ('a, 'r) iq_prog" where
  "load_begin k \<equiv> Access id (\<lambda>q. k (iq_contentsBegin q) (iq_N q))"

definition iq_Empty_p :: "('a, bool) iq_prog" where
  "iq_Empty_p = load iq_contentsBegin (\<lambda>b. load iq_contentsEnd (\<lambda>e. Done (b = e)))"

definition iq_Full_p :: "('a, bool) iq_prog" where
  "iq_Full_p = load_begin (\<lambda>b N. load iq_contentsEnd (\<lambda>e. Done (iq_FullBetween N b e)))"

definition iq_Size_p :: "('a, nat) iq_prog" where
  "iq_Size_p = load_begin (\<lambda>b N. load iq_contentsEnd (\<lambda>e. Done (iq_SizeBetween N b e)))"

definition iq_Get_p :: "('a, 'a) iq_prog" where
  "iq_Get_p = bindP iq_Empty_p (\<lambda>empty. checkedP (\<not> empty)
     (load iq_contentsBegin (\<lambda>b. load (\<lambda>q. iq_buffer q ! b) (\<lambda>result.
        load_begin (\<lambda>b1 N.
          if b1 = N - 1 then store (\<lambda>q. q\<lparr>iq_contentsBegin := 0\<rparr>) (Done result)
          else store (\<lambda>q. q\<lparr>iq_contentsBegin := iq_contentsBegin q + 1\<rparr>) (Done result))))))"

definition iq_at_p :: "nat \<Rightarrow> ('a, 'a) iq_prog" where
  "iq_at_p position = bindP iq_Size_p (\<lambda>n. checkedP (0 < n) (bindP iq_Size_p (\<lambda>n. checkedP (position < n)
     (load_begin (\<lambda>b N. load (\<lambda>q. iq_buffer q ! (if N \<le> b + position then position - (N - b) else b + position)) Done)))))"

definition iq_ContiguousRange_p :: "nat \<Rightarrow> ('a, nat \<times> nat) iq_prog" where
  "iq_ContiguousRange_p offset = load iq_contentsEnd (\<lambda>e. load_begin (\<lambda>b N.
     let b1 = (if N \<le> b + offset then offset - (N - b) else b + offset)
     in Done (if e < b1 then (b1, N) else (b1, e))))"

definition iq_Consume_p :: "nat \<Rightarrow> ('a, unit) iq_prog" where
  "iq_Consume_p amount = load_begin (\<lambda>b N.
     if N \<le> b + amount
     then load_begin (\<lambda>b1 N. store (\<lambda>q. q\<lparr>iq_contentsBegin := 0\<rparr>)
       (store (\<lambda>q. q\<lparr>iq_contentsBegin := iq_contentsBegin q + (amount - (N - b1))\<rparr>) (Done ())))
     else store (\<lambda>q. q\<lparr>iq_contentsBegin := iq_contentsBegin q + amount\<rparr>) (Done ()))"

text \<open>
  The event: \<^verbatim>\<open>DataAvailable\<close>, with \<open>onDataAvailable\<close> the function of the reader. The event dispatcher executes the first
  event it holds and takes it from its queue when it has been executed.
\<close>

definition iq_DataAvailable :: "('a, unit) iq_prog \<Rightarrow> ('a, unit) iq_prog" where
  "iq_DataAvailable onDataAvailable =
     store (\<lambda>q. q\<lparr>iq_notificationScheduled := False, iq_unseen := False, iq_running := True\<rparr>) onDataAvailable"

definition iq_dispatch :: "('a, unit) iq_prog \<Rightarrow> ('a, unit) iq_prog" where
  "iq_dispatch onDataAvailable = load iq_events (\<lambda>n.
     if n = 0 then Done ()
     else bindP (iq_DataAvailable onDataAvailable)
       (\<lambda>_. store (\<lambda>q. q\<lparr>iq_events := iq_events q - 1, iq_running := False\<rparr>) (Done ())))"

text \<open>
  What a reader does: it takes one element when there is one, or copies part of the contiguous range and consumes it.
\<close>

datatype iq_read = ReadOne | ReadRange nat

primrec iq_copy :: "nat \<Rightarrow> nat \<Rightarrow> ('a, 'a list) iq_prog" where
  "iq_copy 0 b = Done []"
| "iq_copy (Suc k) b = load (\<lambda>q. iq_buffer q ! b) (\<lambda>x. bindP (iq_copy k (b + 1)) (\<lambda>xs. Done (x # xs)))"

fun iq_read_p :: "iq_read \<Rightarrow> ('a, 'a list) iq_prog" where
  "iq_read_p ReadOne = bindP iq_Empty_p (\<lambda>empty. if empty then Done [] else bindP iq_Get_p (\<lambda>x. Done [x]))"
| "iq_read_p (ReadRange n) = bindP (iq_ContiguousRange_p 0) (\<lambda>(b, e). let k = min n (e - b)
     in bindP (iq_copy k b) (\<lambda>xs. bindP (iq_Consume_p k) (\<lambda>_. Done xs)))"

primrec iq_reads_p :: "iq_read list \<Rightarrow> ('a, 'a list) iq_prog" where
  "iq_reads_p [] = Done []"
| "iq_reads_p (c # cs) = bindP (iq_read_p c) (\<lambda>xs. bindP (iq_reads_p cs) (\<lambda>ys. Done (xs @ ys)))"

subsection \<open>The queue as a list\<close>

definition iq_count :: "'a irq_queue \<Rightarrow> nat" where
  "iq_count q = iq_SizeBetween (iq_N q) (iq_contentsBegin q) (iq_contentsEnd q)"

definition iq_list :: "'a irq_queue \<Rightarrow> 'a list" where
  "iq_list q = ring (iq_buffer q) (iq_contentsBegin q) (iq_count q)"

definition iq_ok :: "'a irq_queue \<Rightarrow> bool" where
  "iq_ok q \<longleftrightarrow> iq_contentsBegin q < iq_N q \<and> iq_contentsEnd q < iq_N q
     \<and> (iq_unseen q \<longrightarrow> iq_notificationScheduled q)
     \<and> iq_events q = (if iq_notificationScheduled q then 1 else 0) + (if iq_running q then 1 else 0)"

lemma size_between:
  assumes "b < N" and "e < N"
  shows "iq_SizeBetween N b e < N" "(b + iq_SizeBetween N b e) mod N = e"
    "iq_FullBetween N b e \<longleftrightarrow> iq_SizeBetween N b e = N - 1" "iq_SizeBetween N b e = 0 \<longleftrightarrow> b = e"
    "iq_SizeBetween N b e = (if b \<le> e then e - b else N - b + e)"
proof -
  show eq: "iq_SizeBetween N b e = (if b \<le> e then e - b else N - b + e)"
    using assms by (auto simp: iq_SizeBetween_def iq_FullBetween_def)
  show "iq_SizeBetween N b e < N" unfolding eq using assms by auto
  show "(b + iq_SizeBetween N b e) mod N = e" unfolding eq using assms by auto
  show "iq_SizeBetween N b e = 0 \<longleftrightarrow> b = e" unfolding eq using assms by auto
  show "iq_FullBetween N b e \<longleftrightarrow> iq_SizeBetween N b e = N - 1"
    unfolding eq iq_FullBetween_def using assms by auto
qed

lemma size_between_unique:
  assumes "b < N" and "e < N" and "n < N" and "(b + n) mod N = e"
  shows "iq_SizeBetween N b e = n"
  using mod_add_inj [of b "iq_SizeBetween N b e" N n] size_between [OF assms(1,2)] assms(3,4) by simp

lemma iq_list_Nil: "iq_ok q \<Longrightarrow> iq_list q = [] \<longleftrightarrow> iq_contentsBegin q = iq_contentsEnd q"
  by (simp add: iq_list_def iq_count_def iq_ok_def size_between(4))

lemma length_iq_list [simp]: "length (iq_list q) = iq_count q"
  by (simp add: iq_list_def)

lemma iq_Size_count [simp]: "iq_Size q = iq_count q"
  by (simp add: iq_Size_def iq_count_def)

lemma iq_Full_count: "iq_ok q \<Longrightarrow> iq_Full q \<longleftrightarrow> iq_count q = iq_Capacity q"
  by (simp add: iq_Full_def iq_ok_def iq_count_def iq_Capacity_def size_between(3))

lemma iq_count_less: "iq_ok q \<Longrightarrow> iq_count q < iq_N q"
  by (simp add: iq_ok_def iq_count_def size_between(1))

lemma iq_end: "iq_ok q \<Longrightarrow> iq_contentsEnd q = (iq_contentsBegin q + iq_count q) mod iq_N q"
  by (simp add: iq_ok_def iq_count_def size_between(2))

subsection \<open>What an interrupt does\<close>

text \<open>
  \<open>iq_grown q q'\<close>: \<open>q'\<close> is the queue \<open>q\<close> after interrupts. They leave the front of the queue where it is and add behind it; what they
  add is in the history.
\<close>

definition iq_grown :: "'a irq_queue \<Rightarrow> 'a irq_queue \<Rightarrow> bool" where
  "iq_grown q q' \<longleftrightarrow> iq_ok q' \<and> iq_N q' = iq_N q \<and> iq_contentsBegin q' = iq_contentsBegin q \<and> iq_running q' = iq_running q
     \<and> (iq_notificationScheduled q \<longrightarrow> iq_notificationScheduled q')
     \<and> (\<exists>xs. iq_added q' = iq_added q @ xs \<and> iq_list q' = iq_list q @ xs)"

lemma iq_grown_refl: "iq_ok q \<Longrightarrow> iq_grown q q"
  by (simp add: iq_grown_def)

lemma iq_grown_trans: "iq_grown q q1 \<Longrightarrow> iq_grown q1 q2 \<Longrightarrow> iq_grown q q2"
  by (auto simp: iq_grown_def)

text \<open>A block \<open>xs\<close> written behind the contents, with the end moved and the reader notified.\<close>

lemma iq_append_block:
  assumes q: "iq_ok q" and buf: "length buf = iq_N q" and room: "iq_count q + length xs < iq_N q"
    and old: "\<And>i. i < iq_count q \<Longrightarrow> buf ! ((iq_contentsBegin q + i) mod iq_N q) = iq_buffer q ! ((iq_contentsBegin q + i) mod iq_N q)"
    and new: "\<And>k. k < length xs \<Longrightarrow> buf ! ((iq_contentsBegin q + iq_count q + k) mod iq_N q) = xs ! k"
    and e: "e = (iq_contentsBegin q + iq_count q + length xs) mod iq_N q"
  defines "q' \<equiv> iq_NotifyDataAvailable (iq_note xs (q\<lparr>iq_buffer := buf, iq_contentsEnd := e\<rparr>))"
  shows "iq_grown q q'" "iq_list q' = iq_list q @ xs" "iq_added q' = iq_added q @ xs"
proof -
  have b: "iq_contentsBegin q < iq_N q" using q by (simp add: iq_ok_def)
  have "e < iq_N q" unfolding e using room by (intro mod_less_divisor) linarith
  have fields: "iq_buffer q' = buf" "iq_contentsBegin q' = iq_contentsBegin q" "iq_contentsEnd q' = e" "iq_added q' = iq_added q @ xs"
      "iq_running q' = iq_running q" "iq_unseen q' = (iq_unseen q \<or> xs \<noteq> [])"
      "iq_notificationScheduled q' = (iq_notificationScheduled q \<or> iq_contentsBegin q \<noteq> e)"
      "iq_events q' = iq_events q + (if iq_notificationScheduled q \<or> iq_contentsBegin q = e then 0 else 1)"
    by (simp_all add: q'_def iq_NotifyDataAvailable_def iq_note_def iq_Empty_def)
  have count: "iq_count q' = iq_count q + length xs"
    unfolding iq_count_def fields buf [symmetric]
    using b \<open>e < iq_N q\<close> room e buf by (intro size_between_unique) (simp_all add: iq_count_def add.assoc)
  show list: "iq_list q' = iq_list q @ xs"
    using ring_append_block [of buf "iq_buffer q" "iq_count q" "iq_contentsBegin q" xs] buf old new
    by (simp add: iq_list_def count fields)
  show added: "iq_added q' = iq_added q @ xs" by (rule fields)
  have "iq_contentsBegin q \<noteq> e" if "xs \<noteq> []"
    using size_between(4) [OF b \<open>e < iq_N q\<close>] count that by (simp add: iq_count_def fields buf)
  then have "iq_ok q'" using q \<open>e < iq_N q\<close> by (auto simp: iq_ok_def fields buf)
  then show "iq_grown q q'" using list added by (auto simp: iq_grown_def fields buf)
qed

lemma iq_AddFromInterruptUnchecked:
  assumes q: "iq_ok q"
  shows "iq_grown q (iq_AddFromInterruptUnchecked x q)"
    and "iq_list (iq_AddFromInterruptUnchecked x q) = (if iq_count q < iq_Capacity q then iq_list q @ [x] else iq_list q)"
    and "iq_added (iq_AddFromInterruptUnchecked x q) = (if iq_count q < iq_Capacity q then iq_added q @ [x] else iq_added q)"
proof -
  let ?r = "iq_AddFromInterruptUnchecked x q"
  have "iq_grown q ?r \<and> iq_list ?r = (if iq_count q < iq_Capacity q then iq_list q @ [x] else iq_list q)
    \<and> iq_added ?r = (if iq_count q < iq_Capacity q then iq_added q @ [x] else iq_added q)"
  proof (cases "iq_Full q")
    case True
    then show ?thesis using iq_Full_count [OF q] iq_grown_refl [OF q] by (simp add: iq_AddFromInterruptUnchecked_def)
  next
    case False
    have less: "iq_count q < iq_Capacity q" using False iq_Full_count [OF q] iq_count_less [OF q] by (simp add: iq_Capacity_def)
    let ?buf = "(iq_buffer q)[iq_contentsEnd q := x]" and ?e = "(iq_contentsBegin q + iq_count q + length [x]) mod iq_N q"
    have N: "0 < iq_N q" "iq_contentsEnd q < iq_N q" using q by (auto simp: iq_ok_def)
    have e: "?e = (if iq_contentsEnd q = iq_N q - 1 then 0 else iq_contentsEnd q + 1)"
      unfolding iq_end [OF q] using N by (auto simp: mod_Suc)
    have r: "?r = iq_NotifyDataAvailable (iq_note [x] (q\<lparr>iq_buffer := ?buf, iq_contentsEnd := ?e\<rparr>))"
      using False e by (simp add: iq_AddFromInterruptUnchecked_def Let_def)
    have apart: "iq_contentsEnd q \<noteq> (iq_contentsBegin q + i) mod iq_N q" if "i < iq_count q" for i
      using mod_add_inj [of "iq_contentsBegin q" i "iq_N q" "iq_count q"] iq_count_less [OF q] iq_end [OF q] that by auto
    have old: "?buf ! ((iq_contentsBegin q + i) mod iq_N q) = iq_buffer q ! ((iq_contentsBegin q + i) mod iq_N q)" if "i < iq_count q" for i
      by (rule nth_list_update_neq [OF apart [OF that]])
    have new: "?buf ! ((iq_contentsBegin q + iq_count q + k) mod iq_N q) = [x] ! k" if "k < length [x]" for k
      using that N(2) iq_end [OF q] by simp
    have "iq_count q + length [x] < iq_N q" using less by (simp add: iq_Capacity_def)
    then show ?thesis
      using iq_append_block [of q ?buf "[x]" ?e, OF q _ _ old new refl] less unfolding r by simp
  qed
  then show "iq_grown q ?r" "iq_list ?r = (if iq_count q < iq_Capacity q then iq_list q @ [x] else iq_list q)"
    "iq_added ?r = (if iq_count q < iq_Capacity q then iq_added q @ [x] else iq_added q)" by blast+
qed

text \<open>The two copies of the range: up to the end of the buffer, and the rest from its start on.\<close>

lemma two_copies:
  fixes buf :: "'a list"
  assumes e: "e < N" "length buf = N" and len: "length xs < N"
  defines "c \<equiv> min (length xs) (N - e)"
  defines "e1 \<equiv> (if e = N - c then 0 else e + c)"
  defines "buf2 \<equiv> overwrite (overwrite buf e (take c xs)) e1 (drop c xs)"
  shows "length buf2 = N" "e1 + length (drop c xs) = (e + length xs) mod N"
    "k < length xs \<Longrightarrow> buf2 ! ((e + k) mod N) = xs ! k"
    "j < N \<Longrightarrow> (\<And>k. k < length xs \<Longrightarrow> (e + k) mod N \<noteq> j) \<Longrightarrow> buf2 ! j = buf ! j"
proof -
  have c: "length (take c xs) = c" "e + c \<le> N" using e by (auto simp: c_def)
  have d: "length (drop c xs) = length xs - c" by simp
  have fit: "e1 + (length xs - c) \<le> N" using e len by (auto simp: e1_def c_def)
  have l1: "length (overwrite buf e (take c xs)) = N" using c e by simp
  show "length buf2 = N" using l1 fit by (simp add: buf2_def)
  show "e1 + length (drop c xs) = (e + length xs) mod N"
  proof (cases "e + length xs < N")
    case True
    then show ?thesis using e by (auto simp: e1_def c_def min_def)
  next
    case False
    then have "c = N - e" by (simp add: c_def)
    then show ?thesis using False e len by (simp add: e1_def mod_if add.commute)
  qed
  have nth: "buf2 ! j = (if e1 \<le> j \<and> j < e1 + (length xs - c) then drop c xs ! (j - e1)
      else if e \<le> j \<and> j < e + c then xs ! (j - e) else buf ! j)" if "j < N" for j
  proof -
    have "overwrite buf e (take c xs) ! j = (if e \<le> j \<and> j < e + c then xs ! (j - e) else buf ! j)"
      using that nth_overwrite [of e "take c xs" buf j] c e by auto
    then show ?thesis
      using that nth_overwrite [of e1 "drop c xs" "overwrite buf e (take c xs)" j] l1 fit by (simp add: buf2_def)
  qed
  show "buf2 ! ((e + k) mod N) = xs ! k" if k: "k < length xs"
  proof (cases "k < c")
    case True
    then have "e + k < N" using c(2) by linarith
    moreover have "\<not> (e1 \<le> e + k \<and> e + k < e1 + (length xs - c))"
      using True e len unfolding e1_def c_def by (auto simp: min_def split: if_splits)
    ultimately show ?thesis using nth [of "e + k"] True by auto
  next
    case False
    then have "c = N - e" "e1 = 0" using k e by (auto simp: c_def e1_def min_def)
    moreover have "(e + k) mod N = k - c" using False \<open>c = N - e\<close> e k len by (auto simp: mod_if)
    moreover have "k - c < length xs - c" "k - c < N" using False k len by linarith+
    moreover have "drop c xs ! (k - c) = xs ! k" using False k by simp
    ultimately show ?thesis using nth [of "k - c"] by simp
  qed
  show "buf2 ! j = buf ! j" if j: "j < N" and out: "\<And>k. k < length xs \<Longrightarrow> (e + k) mod N \<noteq> j"
  proof -
    have "\<not> (e \<le> j \<and> j < e + c)"
      using out [of "j - e"] j by (cases "j - e < length xs") (auto simp: c_def)
    moreover have "\<not> (e1 \<le> j \<and> j < e1 + (length xs - c))"
    proof
      assume a: "e1 \<le> j \<and> j < e1 + (length xs - c)"
      then have "c = N - e" "e1 = 0" using e by (auto simp: c_def e1_def min_def split: if_splits)
      moreover from this have "c + j < length xs" using a by auto
      ultimately show False using out [of "c + j"] e j by simp
    qed
    ultimately show ?thesis using nth [OF j] by presburger
  qed
qed

lemma iq_AddRangeFromInterruptUnchecked:
  assumes q: "iq_ok q"
  shows "iq_grown q (iq_AddRangeFromInterruptUnchecked xs q)"
    and "iq_list (iq_AddRangeFromInterruptUnchecked xs q) = (if length xs \<le> iq_Capacity q - iq_count q then iq_list q @ xs else iq_list q)"
    and "iq_added (iq_AddRangeFromInterruptUnchecked xs q) = (if length xs \<le> iq_Capacity q - iq_count q then iq_added q @ xs else iq_added q)"
proof -
  let ?r = "iq_AddRangeFromInterruptUnchecked xs q" and ?N = "iq_N q" and ?b = "iq_contentsBegin q" and ?e = "iq_contentsEnd q"
  have be: "?b < ?N" "?e < ?N" using q by (simp_all add: iq_ok_def)
  have avail: "(if ?b \<le> ?e then ?N - 1 - (?e - ?b) else ?b - ?e - 1) = iq_Capacity q - iq_count q"
    using be by (simp add: iq_Capacity_def iq_count_def size_between(5))
  have "iq_grown q ?r \<and> iq_list ?r = (if length xs \<le> iq_Capacity q - iq_count q then iq_list q @ xs else iq_list q)
    \<and> iq_added ?r = (if length xs \<le> iq_Capacity q - iq_count q then iq_added q @ xs else iq_added q)"
  proof (cases "length xs \<le> iq_Capacity q - iq_count q")
    case False
    then have "?r = q" unfolding iq_AddRangeFromInterruptUnchecked_def Let_def avail by simp
    then show ?thesis using False iq_grown_refl [OF q] by simp
  next
    case True
    have room: "iq_count q + length xs < ?N" using True iq_count_less [OF q] by (simp add: iq_Capacity_def)
    define c where "c = min (length xs) (?N - ?e)"
    define e1 where "e1 = (if ?e = ?N - c then 0 else ?e + c)"
    define buf where "buf = overwrite (overwrite (iq_buffer q) ?e (take c xs)) e1 (drop c xs)"
    have "length xs < ?N" using room by simp
    note copies = two_copies [OF be(2) refl this, folded c_def, folded e1_def, folded buf_def]
    have r: "?r = iq_NotifyDataAvailable (iq_note xs (q\<lparr>iq_buffer := buf, iq_contentsEnd := e1 + length (drop c xs)\<rparr>))"
      using True unfolding iq_AddRangeFromInterruptUnchecked_def Let_def avail by (simp add: c_def e1_def buf_def)
    have pos: "(?e + k) mod ?N = (?b + iq_count q + k) mod ?N" for k
      unfolding iq_end [OF q] by (simp add: mod_add_left_eq)
    have old: "buf ! ((?b + i) mod ?N) = iq_buffer q ! ((?b + i) mod ?N)" if i: "i < iq_count q" for i
    proof (rule copies(4))
      show "(?b + i) mod ?N < ?N" using be by (intro mod_less_divisor) linarith
      show "(?e + k) mod ?N \<noteq> (?b + i) mod ?N" if "k < length xs" for k
        using mod_add_inj [of ?b "iq_count q + k" ?N i] i that room unfolding pos by (auto simp: add.assoc)
    qed
    have new: "buf ! ((?b + iq_count q + k) mod ?N) = xs ! k" if "k < length xs" for k
      using copies(3) [OF that] unfolding pos .
    have "e1 + length (drop c xs) = (?b + iq_count q + length xs) mod ?N"
      using copies(2) unfolding pos .
    from iq_append_block [OF q copies(1) room old new this] show ?thesis using True unfolding r by simp
  qed
  then show "iq_grown q ?r" "iq_list ?r = (if length xs \<le> iq_Capacity q - iq_count q then iq_list q @ xs else iq_list q)"
    "iq_added ?r = (if length xs \<le> iq_Capacity q - iq_count q then iq_added q @ xs else iq_added q)" by blast+
qed

interpretation iq_irq: interrupt_handler iq_ok iq_grown iq_irq iq_unchecked
proof
  show "iq_grown q q" if "iq_ok q" for q :: "'a irq_queue" using that by (rule iq_grown_refl)
  show "iq_grown q q2" if "iq_grown q q1" "iq_grown q1 q2" for q q1 q2 :: "'a irq_queue" using that by (rule iq_grown_trans)
  show "iq_ok q1" if "iq_grown q q1" for q q1 :: "'a irq_queue" using that by (simp add: iq_grown_def)
  show "\<exists>q'. iq_irq i q = Inr q' \<and> iq_grown q q'" if "iq_unchecked i" "iq_ok q" for i and q :: "'a irq_queue"
    using that iq_AddFromInterruptUnchecked(1) iq_AddRangeFromInterruptUnchecked(1) by (cases i) auto
qed

subsection \<open>What the reader sees\<close>

text \<open>
  \<open>iq_taken q ys q'\<close>: \<open>q'\<close> is \<open>q\<close> after the reader has taken \<open>ys\<close> from the front, and after interrupts.
\<close>

definition iq_taken :: "'a irq_queue \<Rightarrow> 'a list \<Rightarrow> 'a irq_queue \<Rightarrow> bool" where
  "iq_taken q ys q' \<longleftrightarrow> iq_N q' = iq_N q \<and> iq_running q' = iq_running q
     \<and> (\<exists>xs. iq_added q' = iq_added q @ xs \<and> iq_list q @ xs = ys @ iq_list q')"

lemma iq_taken_grown: "iq_grown q q' \<Longrightarrow> iq_taken q [] q'"
  by (auto simp: iq_taken_def iq_grown_def)

lemma iq_taken_refl: "iq_taken q [] q"
  by (simp add: iq_taken_def)

lemma iq_taken_trans: "iq_taken q ys q1 \<Longrightarrow> iq_taken q1 zs q2 \<Longrightarrow> iq_taken q (ys @ zs) q2"
proof -
  assume "iq_taken q ys q1" "iq_taken q1 zs q2"
  then obtain xs1 xs2 where "iq_added q1 = iq_added q @ xs1" "iq_list q @ xs1 = ys @ iq_list q1"
      "iq_added q2 = iq_added q1 @ xs2" "iq_list q1 @ xs2 = zs @ iq_list q2" "iq_N q2 = iq_N q" "iq_running q2 = iq_running q"
    unfolding iq_taken_def by auto
  then show ?thesis unfolding iq_taken_def by (intro conjI exI [of _ "xs1 @ xs2"]) (simp_all flip: append_assoc, simp)
qed

lemma iq_grown_ok: "iq_grown q q' \<Longrightarrow> iq_ok q'"
  by (simp add: iq_grown_def)

text \<open>The elements of the contents stay where they are.\<close>

lemma iq_nth: "i < iq_count q \<Longrightarrow> iq_buffer q ! ((iq_contentsBegin q + i) mod iq_N q) = iq_list q ! i"
  by (simp add: iq_list_def nth_ring)

lemma iq_grown_nth:
  assumes "iq_grown q q'" and "i < iq_count q"
  shows "iq_buffer q' ! ((iq_contentsBegin q + i) mod iq_N q) = iq_list q ! i"
proof -
  obtain xs where "iq_list q' = iq_list q @ xs" using assms(1) by (auto simp: iq_grown_def)
  moreover from this have "i < iq_count q'" using assms(2) length_iq_list [of q'] by simp
  ultimately show ?thesis using iq_nth [of i q'] assms by (simp add: iq_grown_def nth_append)
qed

text \<open>Moving the front by a number of elements that are there takes these elements.\<close>

lemma iq_drop:
  assumes q: "iq_ok q" and k: "k \<le> iq_count q" and b: "b = (iq_contentsBegin q + k) mod iq_N q"
  shows "iq_ok (q\<lparr>iq_contentsBegin := b\<rparr>)" "iq_taken q (take k (iq_list q)) (q\<lparr>iq_contentsBegin := b\<rparr>)"
    "iq_list (q\<lparr>iq_contentsBegin := b\<rparr>) = drop k (iq_list q)"
proof -
  let ?q = "q\<lparr>iq_contentsBegin := b\<rparr>"
  have "b < iq_N q" unfolding b using q by (intro mod_less_divisor) (auto simp: iq_ok_def)
  then show "iq_ok ?q" using q by (simp add: iq_ok_def)
  have "(b + (iq_count q - k)) mod iq_N q = iq_contentsEnd q"
    unfolding b iq_end [OF q] mod_add_left_eq using k by simp
  then have count: "iq_count ?q = iq_count q - k"
    unfolding iq_count_def [of ?q] using q \<open>b < iq_N q\<close> iq_count_less [OF q] by (intro size_between_unique) (auto simp: iq_ok_def)
  show list: "iq_list ?q = drop k (iq_list q)"
    unfolding iq_list_def count drop_ring using ring_mod [of "iq_buffer q" "iq_contentsBegin q + k"] b by simp
  show "iq_taken q (take k (iq_list q)) ?q" by (simp add: iq_taken_def list)
qed

abbreviation iq_always :: "('a, 'r) iq_prog \<Rightarrow> 'a irq_queue \<Rightarrow> ('r \<Rightarrow> 'a irq_queue \<Rightarrow> bool) \<Rightarrow> bool" where
  "iq_always p q Q \<equiv> always p iq_ok iq_grown q Q"

lemmas iq_step = always_Access [where ok = iq_ok and rely = iq_grown]

text \<open>
  \<^verbatim>\<open>Empty\<close>, \<^verbatim>\<open>Full\<close> and \<^verbatim>\<open>Size\<close> give the answer for the queue at the moment of their last load.
\<close>

lemma iq_queries:
  assumes "iq_ok q"
  shows "iq_always iq_Empty_p q (\<lambda>r q'. r = (iq_list q' = []) \<and> iq_grown q q')"
    and "iq_always iq_Full_p q (\<lambda>r q'. r = (length (iq_list q') = iq_Capacity q') \<and> iq_grown q q')"
    and "iq_always iq_Size_p q (\<lambda>r q'. r = length (iq_list q') \<and> iq_grown q q')"
proof -
  have g: "iq_ok q2 \<and> iq_grown q q2 \<and> iq_contentsBegin q2 = iq_contentsBegin q1 \<and> iq_N q2 = iq_N q1"
    if "iq_grown q q1" "iq_grown q1 q2" for q1 q2
    using that iq_grown_trans [OF that] by (auto simp: iq_grown_def)
  show "iq_always iq_Empty_p q (\<lambda>r q'. r = (iq_list q' = []) \<and> iq_grown q q')"
    unfolding iq_Empty_p_def using assms g by (auto simp: iq_list_Nil dest: iq_grown_ok)
  show "iq_always iq_Full_p q (\<lambda>r q'. r = (length (iq_list q') = iq_Capacity q') \<and> iq_grown q q')"
  proof -
    have "iq_FullBetween (iq_N q1) (iq_contentsBegin q1) (iq_contentsEnd q2) = (iq_count q2 = iq_Capacity q2)"
      if "iq_grown q q1" "iq_grown q1 q2" for q1 q2
      using g [OF that] iq_Full_count [of q2] by (simp add: iq_Full_def)
    then show ?thesis unfolding iq_Full_p_def using assms g by (auto dest: iq_grown_ok)
  qed
  show "iq_always iq_Size_p q (\<lambda>r q'. r = length (iq_list q') \<and> iq_grown q q')"
    unfolding iq_Size_p_def using assms g by (auto simp: iq_count_def dest: iq_grown_ok)
qed

lemma iq_grown_fields: "iq_grown q q' \<Longrightarrow> iq_contentsBegin q' = iq_contentsBegin q" "iq_grown q q' \<Longrightarrow> iq_N q' = iq_N q"
  "iq_grown q q' \<Longrightarrow> iq_running q' = iq_running q"
  by (simp_all add: iq_grown_def)

lemma iq_grown_count: "iq_grown q q' \<Longrightarrow> iq_count q \<le> iq_count q'"
  using length_iq_list by (metis iq_grown_def le_add1 length_append)

lemma iq_grown_take: "iq_grown q q' \<Longrightarrow> k \<le> iq_count q \<Longrightarrow> take k (iq_list q') = take k (iq_list q)"
  by (auto simp: iq_grown_def)

text \<open>Moving the front, at any time after the elements were seen.\<close>

lemma iq_drop_later:
  assumes "iq_grown q q1" and "k \<le> iq_count q" and "b = (iq_contentsBegin q + k) mod iq_N q"
  shows "iq_ok (q1\<lparr>iq_contentsBegin := b\<rparr>)" "iq_taken q (take k (iq_list q)) (q1\<lparr>iq_contentsBegin := b\<rparr>)"
proof -
  have k: "k \<le> iq_count q1" using iq_grown_count [OF assms(1)] assms(2) by simp
  have b: "b = (iq_contentsBegin q1 + k) mod iq_N q1" using assms(3) iq_grown_fields [OF assms(1)] by simp
  note d = iq_drop [OF iq_grown_ok [OF assms(1)] k b]
  show "iq_ok (q1\<lparr>iq_contentsBegin := b\<rparr>)" by (rule d)
  show "iq_taken q (take k (iq_list q)) (q1\<lparr>iq_contentsBegin := b\<rparr>)"
    using iq_taken_trans [OF iq_taken_grown [OF assms(1)] d(2)] iq_grown_take [OF assms(1,2)] by simp
qed

lemma iq_Get_takes_front:
  assumes q: "iq_ok q" and ne: "iq_list q \<noteq> []"
  shows "iq_always iq_Get_p q (\<lambda>x q'. x = hd (iq_list q) \<and> iq_taken q [x] q')"
  unfolding iq_Get_p_def
proof (rule always_bind [OF iq_queries(1) [OF q]])
  fix empty q1
  assume q1: "iq_ok q1" "empty = (iq_list q1 = []) \<and> iq_grown q q1"
  have count: "0 < iq_count q" using ne by (simp add: iq_list_def)
  obtain x xs where x: "iq_list q = x # xs" using ne by (cases "iq_list q") auto
  have e: "empty = False" using q1(2) ne by (auto simp: iq_grown_def)
  have moved: "iq_always (if iq_contentsBegin q4 = iq_N q4 - 1 then store (\<lambda>q. q\<lparr>iq_contentsBegin := 0\<rparr>) (Done x)
      else store (\<lambda>q. q\<lparr>iq_contentsBegin := iq_contentsBegin q + 1\<rparr>) (Done x)) q4
      (\<lambda>x q'. x = hd (iq_list q) \<and> iq_taken q [x] q')" if q4: "iq_grown q q4" for q4
  proof -
    have b: "iq_contentsBegin q < iq_N q" using q by (simp add: iq_ok_def)
    have "iq_ok (q5\<lparr>iq_contentsBegin := (iq_contentsBegin q + 1) mod iq_N q\<rparr>) \<and>
        iq_taken q [x] (q5\<lparr>iq_contentsBegin := (iq_contentsBegin q + 1) mod iq_N q\<rparr>)" if "iq_grown q4 q5" for q5
      using iq_drop_later [OF iq_grown_trans [OF q4 that], of 1] count x by (simp add: Suc_le_eq)
    moreover have "(iq_contentsBegin q + 1) mod iq_N q = (if iq_contentsBegin q = iq_N q - 1 then 0 else iq_contentsBegin q + 1)"
      using b by (auto simp: mod_Suc)
    ultimately show ?thesis using iq_grown_ok [OF q4] iq_grown_fields [OF q4] iq_grown_fields(1) [of q4] x by auto
  qed
  have read: "iq_buffer q3 ! iq_contentsBegin q2 = x" if "iq_grown q1 q2" "iq_grown q2 q3" for q2 q3
    using iq_grown_nth [OF iq_grown_trans [OF iq_grown_trans [OF conjunct2 [OF q1(2)] that(1)] that(2)] count]
      iq_grown_fields(1) [OF conjunct2 [OF q1(2)]] iq_grown_fields(1) [OF that(1)] x q by (simp add: iq_ok_def)
  show "iq_always (checkedP (\<not> empty) (load iq_contentsBegin (\<lambda>b. load (\<lambda>q. iq_buffer q ! b) (\<lambda>result.
      load_begin (\<lambda>b1 N. if b1 = N - 1 then store (\<lambda>q. q\<lparr>iq_contentsBegin := 0\<rparr>) (Done result)
        else store (\<lambda>q. q\<lparr>iq_contentsBegin := iq_contentsBegin q + 1\<rparr>) (Done result)))))) q1
      (\<lambda>x q'. x = hd (iq_list q) \<and> iq_taken q [x] q')"
    unfolding e simp_thms checkedP_simps
    apply (rule iq_step [OF q1(1)])
    apply (rule iq_step, simp add: iq_grown_ok)
    apply (rule iq_step, simp add: iq_grown_ok)
    subgoal for q2 q3 q4
      using read [of q2 q3] moved [of q4] iq_grown_trans [of q q1 q4] iq_grown_trans [of q1 q2 q4] iq_grown_trans [of q2 q3 q4] q1(2)
      by (auto split: if_splits)
    done
qed

lemma wrap_index:
  fixes b n N :: nat
  assumes "b < N" and "n < N"
  shows "(if N \<le> b + n then n - (N - b) else b + n) = (b + n) mod N"
  using assms by (auto simp: mod_if)

lemma iq_ContiguousRange_within:
  assumes q: "iq_ok q" and n: "n \<le> iq_count q"
  shows "iq_always (iq_ContiguousRange_p n) q (\<lambda>(b, e) q'. iq_grown q q' \<and> b = (iq_contentsBegin q + n) mod iq_N q
    \<and> b \<le> e \<and> e \<le> iq_N q \<and> n + (e - b) \<le> iq_count q' \<and> (n < iq_count q \<longrightarrow> b < e))"
  unfolding iq_ContiguousRange_p_def Let_def
proof (rule iq_step [OF q], rule iq_step)
  fix q1 assume q1: "iq_grown q q1"
  then show "iq_ok (id q1)" by (simp add: iq_grown_ok)
  fix q2 assume "iq_grown (id q1) q2"
  then have q2: "iq_grown q1 q2" by simp
  let ?b = "iq_contentsBegin q" and ?N = "iq_N q"
  define b1 where "b1 = (?b + n) mod ?N"
  have N: "?b < ?N" "n < ?N" using q iq_count_less [OF q] n by (auto simp: iq_ok_def)
  note f = iq_grown_fields [OF q1] iq_grown_fields [OF iq_grown_trans [OF q1 q2]]
  have c: "n \<le> iq_count q1" "iq_count q \<le> iq_count q1" "iq_count q1 \<le> iq_count q2" "iq_count q1 < ?N"
    using n iq_grown_count [OF q1] iq_grown_count [OF q2] iq_count_less [OF iq_grown_ok [OF q1]] f by auto
  have e: "iq_contentsEnd q1 = (if ?b + iq_count q1 < ?N then ?b + iq_count q1 else ?b + iq_count q1 - ?N)"
    using iq_end [OF iq_grown_ok [OF q1]] f N c by (auto simp: mod_if)
  have b1: "b1 = (if ?b + n < ?N then ?b + n else ?b + n - ?N)" using N by (auto simp: b1_def mod_if)
  let ?e = "if iq_contentsEnd q1 < b1 then ?N else iq_contentsEnd q1"
  have "b1 \<le> ?e \<and> ?e \<le> ?N \<and> n + (?e - b1) \<le> iq_count q2 \<and> (n < iq_count q \<longrightarrow> b1 < ?e)"
    using N c unfolding e b1 by auto
  then show "iq_always (Done (if iq_contentsEnd q1 < (if iq_N q2 \<le> iq_contentsBegin q2 + n then n - (iq_N q2 - iq_contentsBegin q2) else iq_contentsBegin q2 + n)
      then (if iq_N q2 \<le> iq_contentsBegin q2 + n then n - (iq_N q2 - iq_contentsBegin q2) else iq_contentsBegin q2 + n, iq_N q2)
      else (if iq_N q2 \<le> iq_contentsBegin q2 + n then n - (iq_N q2 - iq_contentsBegin q2) else iq_contentsBegin q2 + n, iq_contentsEnd q1))) (id q2)
    (\<lambda>(b, e) q'. iq_grown q q' \<and> b = (iq_contentsBegin q + n) mod iq_N q
    \<and> b \<le> e \<and> e \<le> iq_N q \<and> n + (e - b) \<le> iq_count q' \<and> (n < iq_count q \<longrightarrow> b < e))"
    unfolding f wrap_index [OF N] b1_def [symmetric]
    using iq_grown_trans [OF q1 q2] iq_grown_ok [OF q2] by (auto split: if_splits)
qed

lemma iq_copy_reads:
  assumes "iq_ok q" and "i + k \<le> iq_count q" and "b = (iq_contentsBegin q + i) mod iq_N q" and "b + k \<le> iq_N q"
  shows "iq_always (iq_copy k b) q (\<lambda>xs q'. xs = take k (drop i (iq_list q)) \<and> iq_grown q q')"
  using assms
proof (induction k arbitrary: q i b)
  case 0
  then show ?case by (simp add: iq_grown_refl)
next
  case (Suc k)
  show ?case unfolding iq_copy.simps
  proof (rule iq_step [OF Suc.prems(1)])
    fix q1 assume q1: "iq_grown q q1"
    note f = iq_grown_fields [OF q1]
    have x: "iq_buffer q1 ! b = iq_list q ! i"
      using iq_grown_nth [OF q1, of i] Suc.prems(2) unfolding Suc.prems(3) by simp
    have count: "i + 1 + k \<le> iq_count q1" using iq_grown_count [OF q1] Suc.prems(2) by simp
    have tail: "take k (drop (i + 1) (iq_list q1)) = take k (drop (i + 1) (iq_list q))"
      using iq_grown_take [OF q1, of "i + 1 + k"] Suc.prems(2) by (simp add: take_drop add.commute)
    have all: "take (Suc k) (drop i (iq_list q)) = iq_list q ! i # take k (drop (i + 1) (iq_list q))"
      using Suc.prems(2) by (simp add: Cons_nth_drop_Suc [symmetric])
    have next_ok: "k = 0 \<or> b + 1 = (iq_contentsBegin q1 + (i + 1)) mod iq_N q1"
    proof (cases "k = 0")
      case False
      then have "Suc b < iq_N q" using Suc.prems(4) by simp
      then show ?thesis using f Suc.prems(3) by (simp add: mod_Suc)
    qed simp
    have "iq_always (iq_copy k (b + 1)) q1 (\<lambda>xs q'. xs = take k (drop (i + 1) (iq_list q1)) \<and> iq_grown q1 q')"
    proof (cases "k = 0")
      case True
      then show ?thesis using iq_grown_ok [OF q1] iq_grown_refl by auto
    next
      case False
      then show ?thesis using iq_grown_ok [OF q1] count next_ok Suc.prems(4) f by (intro Suc.IH) auto
    qed
    then show "iq_always (bindP (iq_copy k (b + 1)) (\<lambda>xs. Done (iq_buffer q1 ! b # xs))) (id q1)
        (\<lambda>xs q'. xs = take (Suc k) (drop i (iq_list q)) \<and> iq_grown q q')"
      unfolding id_apply by (rule always_bind) (auto simp: x all tail [simplified] intro: iq_grown_trans [OF q1])
  qed
qed

lemma iq_Consume_takes:
  assumes q: "iq_ok q" and k: "k \<le> iq_count q"
  shows "iq_always (iq_Consume_p k) q (\<lambda>_ q'. iq_taken q (take k (iq_list q)) q')"
  unfolding iq_Consume_p_def
proof (rule iq_step [OF q])
  fix q1 assume q1: "iq_grown q q1"
  let ?b = "iq_contentsBegin q" and ?N = "iq_N q"
  have N: "?b < ?N" "k < ?N" using q iq_count_less [OF q] k by (auto simp: iq_ok_def)
  note f1 = iq_grown_fields [OF q1]
  show "iq_always (if iq_N q1 \<le> iq_contentsBegin q1 + k
     then load_begin (\<lambda>b1 N. store (\<lambda>q. q\<lparr>iq_contentsBegin := 0\<rparr>)
       (store (\<lambda>q. q\<lparr>iq_contentsBegin := iq_contentsBegin q + (k - (N - b1))\<rparr>) (Done ())))
     else store (\<lambda>q. q\<lparr>iq_contentsBegin := iq_contentsBegin q + k\<rparr>) (Done ())) (id q1)
     (\<lambda>_ q'. iq_taken q (take k (iq_list q)) q')"
  proof (cases "?N \<le> ?b + k")
    case False
    have "iq_ok (q2\<lparr>iq_contentsBegin := ?b + k\<rparr>) \<and> iq_taken q (take k (iq_list q)) (q2\<lparr>iq_contentsBegin := ?b + k\<rparr>)" if "iq_grown q1 q2" for q2
      using iq_drop_later [OF iq_grown_trans [OF q1 that] k, of "?b + k"] False by simp
    then show ?thesis using False f1 iq_grown_ok [OF q1] iq_grown_fields(1) [of q1] by simp
  next
    case True
    let ?k = "?N - ?b"
    have zero: "iq_ok (q3\<lparr>iq_contentsBegin := 0\<rparr>) \<and> iq_taken q (take ?k (iq_list q)) (q3\<lparr>iq_contentsBegin := 0\<rparr>)
        \<and> k - ?k \<le> iq_count (q3\<lparr>iq_contentsBegin := 0\<rparr>) \<and> take (k - ?k) (iq_list (q3\<lparr>iq_contentsBegin := 0\<rparr>)) = take (k - ?k) (drop ?k (iq_list q))"
      if q3: "iq_grown q q3" for q3
    proof -
      have "0 = (?b + ?k) mod ?N" using N by simp
      moreover have kk: "?k \<le> iq_count q" using True k by simp
      ultimately have d: "iq_ok (q3\<lparr>iq_contentsBegin := 0\<rparr>)" "iq_taken q (take ?k (iq_list q)) (q3\<lparr>iq_contentsBegin := 0\<rparr>)"
        using iq_drop_later [OF q3, of ?k 0] by blast+
      have "iq_list (q3\<lparr>iq_contentsBegin := 0\<rparr>) = drop ?k (iq_list q3)"
        using iq_drop(3) [OF iq_grown_ok [OF q3], of ?k 0] iq_grown_fields [OF q3] kk iq_grown_count [OF q3] N by simp
      moreover from this have "iq_count (q3\<lparr>iq_contentsBegin := 0\<rparr>) = iq_count q3 - ?k"
        using length_iq_list by (metis length_drop)
      moreover have "k - ?k + ?k = k" using True by simp
      ultimately show ?thesis using d kk k iq_grown_count [OF q3] iq_grown_take [OF q3 k] by (simp add: take_drop diff_le_mono)
    qed
    have last: "iq_ok (q4\<lparr>iq_contentsBegin := iq_contentsBegin q4 + (k - ?k)\<rparr>)
        \<and> iq_taken q (take k (iq_list q)) (q4\<lparr>iq_contentsBegin := iq_contentsBegin q4 + (k - ?k)\<rparr>)"
      if q3: "iq_grown q q3" and q4: "iq_grown (q3\<lparr>iq_contentsBegin := 0\<rparr>) q4" for q3 q4
    proof -
      note z = zero [OF q3]
      have b: "iq_contentsBegin q4 = 0" "iq_N q4 = ?N" using iq_grown_fields [OF q4] iq_grown_fields [OF q3] by simp_all
      have "k - ?k = (iq_contentsBegin (q3\<lparr>iq_contentsBegin := 0\<rparr>) + (k - ?k)) mod iq_N (q3\<lparr>iq_contentsBegin := 0\<rparr>)"
        using iq_grown_fields [OF q3] N by simp
      from iq_drop_later [OF q4 _ this] z
      have "iq_ok (q4\<lparr>iq_contentsBegin := k - ?k\<rparr>)"
          "iq_taken (q3\<lparr>iq_contentsBegin := 0\<rparr>) (take (k - ?k) (drop ?k (iq_list q))) (q4\<lparr>iq_contentsBegin := k - ?k\<rparr>)"
        by simp_all
      moreover have "take ?k (iq_list q) @ take (k - ?k) (drop ?k (iq_list q)) = take k (iq_list q)"
        using True N by (simp add: take_add [symmetric])
      ultimately show ?thesis using iq_taken_trans [of q "take ?k (iq_list q)"] z b by fastforce
    qed
    have step: "iq_ok q2 \<and> iq_contentsBegin q2 = ?b \<and> iq_N q2 = ?N \<and> (\<forall>q3. iq_grown q2 q3 \<longrightarrow> iq_grown q q3)" if "iq_grown q1 q2" for q2
      using iq_grown_ok [OF that] iq_grown_fields [OF that] f1 iq_grown_trans [OF q1 that] iq_grown_trans by auto
    have ite: "(if iq_N q1 \<le> iq_contentsBegin q1 + k then p1 else p2) = p1" for p1 p2 :: "('a, unit) iq_prog" using True f1 by simp
    show ?thesis unfolding ite id_apply
      apply (rule iq_step [OF iq_grown_ok [OF q1]])
      apply (rule iq_step, simp add: iq_grown_ok)
      subgoal for q2 q3
        apply (rule iq_step)
        using zero [of q3] step [of q2] apply simp
        subgoal for q4 using last [of q3 q4] step [of q2] by simp
        done
      done
  qed
qed

lemma iq_read_takes:
  assumes q: "iq_ok q"
  shows "iq_always (iq_read_p c) q (\<lambda>xs q'. iq_taken q xs q')"
proof (cases c)
  case ReadOne
  have "iq_always (if empty then Done [] else bindP iq_Get_p (\<lambda>x. Done [x])) q1 (\<lambda>xs q'. iq_taken q xs q')"
    if q1: "iq_ok q1" "empty = (iq_list q1 = []) \<and> iq_grown q q1" for empty q1
  proof (cases "iq_list q1 = []")
    case True
    then show ?thesis using q1 iq_taken_grown by auto
  next
    case False
    have "iq_always (bindP iq_Get_p (\<lambda>x. Done [x])) q1 (\<lambda>xs q'. iq_taken q xs q')"
      by (rule always_bind [OF iq_Get_takes_front [OF q1(1) False]])
        (use iq_taken_trans [OF iq_taken_grown [OF conjunct2 [OF q1(2)]]] in auto)
    then show ?thesis using False q1 by simp
  qed
  then show ?thesis unfolding ReadOne iq_read_p.simps by (rule always_bind [OF iq_queries(1) [OF q]])
next
  case (ReadRange n)
  have "iq_always (let k = min n (e - b) in bindP (iq_copy k b) (\<lambda>xs. bindP (iq_Consume_p k) (\<lambda>_. Done xs))) q1 (\<lambda>xs q'. iq_taken q xs q')"
    if q1: "iq_ok q1" "iq_grown q q1" and be: "b = iq_contentsBegin q mod iq_N q" "b \<le> e" "e \<le> iq_N q" "e - b \<le> iq_count q1" for b e q1
  proof -
    let ?k = "min n (e - b)"
    have k: "?k \<le> iq_count q1" "b + ?k \<le> iq_N q1" "b = (iq_contentsBegin q1 + 0) mod iq_N q1"
      using be iq_grown_fields [OF q1(2)] by auto
    have "iq_always (iq_copy ?k b) q1 (\<lambda>xs q'. xs = take ?k (iq_list q1) \<and> iq_grown q1 q')"
      using iq_copy_reads [OF q1(1) _ k(3,2)] k(1) by simp
    then have "iq_always (bindP (iq_copy ?k b) (\<lambda>xs. bindP (iq_Consume_p ?k) (\<lambda>_. Done xs))) q1 (\<lambda>xs q'. iq_taken q xs q')"
    proof (rule always_bind)
      fix xs q2 assume q2: "iq_ok q2" "xs = take ?k (iq_list q1) \<and> iq_grown q1 q2"
      have k2: "?k \<le> iq_count q2" "take ?k (iq_list q2) = xs"
        using k(1) iq_grown_count [OF conjunct2 [OF q2(2)]] iq_grown_take [OF conjunct2 [OF q2(2)] k(1)] q2(2) by auto
      have "iq_taken q [] q2" using iq_taken_grown [OF iq_grown_trans [OF q1(2) conjunct2 [OF q2(2)]]] .
      then show "iq_always (bindP (iq_Consume_p ?k) (\<lambda>_. Done xs)) q2 (\<lambda>xs q'. iq_taken q xs q')"
        using iq_taken_trans [of q "[]" q2] k2(2) by (intro always_bind [OF iq_Consume_takes [OF q2(1) k2(1)]]) auto
    qed
    then show ?thesis by (simp add: Let_def)
  qed
  then show ?thesis unfolding ReadRange iq_read_p.simps
    by (intro always_bind [OF iq_ContiguousRange_within [OF q, of 0]]) (simp_all split: prod.splits)
qed

lemma iq_reads_take:
  "iq_ok q \<Longrightarrow> iq_always (iq_reads_p cs) q (\<lambda>xs q'. iq_taken q xs q')"
proof (induction cs arbitrary: q)
  case Nil
  then show ?case by (simp add: iq_taken_refl)
next
  case (Cons c cs)
  show ?case unfolding iq_reads_p.simps
  proof (rule always_bind [OF iq_read_takes [OF Cons.prems]])
    fix xs q1 assume q1: "iq_ok q1" "iq_taken q xs q1"
    show "iq_always (bindP (iq_reads_p cs) (\<lambda>ys. Done (xs @ ys))) q1 (\<lambda>xs q'. iq_taken q xs q')"
      by (rule always_bind [OF Cons.IH [OF q1(1)]]) (use iq_taken_trans [OF q1(2)] in auto)
  qed
qed

text \<open>An event that is executed leaves the notifications in order, whatever the reader does.\<close>

primrec iq_dispatches :: "iq_read list list \<Rightarrow> ('a, unit) iq_prog" where
  "iq_dispatches [] = Done ()"
| "iq_dispatches (cs # css) = bindP (iq_dispatch (bindP (iq_reads_p cs) (\<lambda>_. Done ()))) (\<lambda>_. iq_dispatches css)"

lemma iq_dispatch_ok:
  assumes q: "iq_ok q" "\<not> iq_running q"
  shows "iq_always (iq_dispatch (bindP (iq_reads_p cs) (\<lambda>_. Done ()))) q
    (\<lambda>_ q'. \<not> iq_running q' \<and> (iq_events q \<noteq> 0 \<longrightarrow> (\<exists>ys. iq_taken q ys q')))"
  unfolding iq_dispatch_def
proof (rule iq_step [OF q(1)])
  fix q1 assume q1: "iq_grown q q1"
  note ok1 = iq_grown_ok [OF q1]
  have r1: "\<not> iq_running q1" using q(2) iq_grown_fields(3) [OF q1] by simp
  let ?started = "\<lambda>q2. q2\<lparr>iq_notificationScheduled := False, iq_unseen := False, iq_running := True\<rparr>"
  have ran: "iq_always (bindP (iq_DataAvailable (bindP (iq_reads_p cs) (\<lambda>_. Done ())))
      (\<lambda>_. store (\<lambda>q. q\<lparr>iq_events := iq_events q - 1, iq_running := False\<rparr>) (Done ()))) q1
      (\<lambda>_ q'. \<not> iq_running q' \<and> (\<exists>ys. iq_taken q ys q'))" if n: "iq_events q1 \<noteq> 0"
    unfolding iq_DataAvailable_def bindP.simps
  proof (rule iq_step [OF ok1])
    fix q2 assume q2: "iq_grown q1 q2"
    have "iq_notificationScheduled q1" using n ok1 r1 by (simp add: iq_ok_def split: if_splits)
    then have "iq_notificationScheduled q2" using q2 by (simp add: iq_grown_def)
    moreover have "\<not> iq_running q2" using r1 iq_grown_fields(3) [OF q2] by simp
    ultimately have ok2: "iq_ok (?started q2)" using iq_grown_ok [OF q2] by (simp add: iq_ok_def)
    have same: "iq_list (?started q2) = iq_list q2" by (simp add: iq_list_def iq_count_def)
    show "iq_always (bindP (bindP (iq_reads_p cs) (\<lambda>_. Done ())) (\<lambda>_. store (\<lambda>q. q\<lparr>iq_events := iq_events q - 1, iq_running := False\<rparr>) (Done ())))
        (?started q2) (\<lambda>_ q'. \<not> iq_running q' \<and> (\<exists>ys. iq_taken q ys q'))"
      unfolding always_bindP
    proof (rule always_mono [OF iq_reads_take [OF ok2]])
      fix ys q3 assume q3: "iq_ok q3" "iq_taken (?started q2) ys q3"
      have done_ok: "iq_ok (q4\<lparr>iq_events := iq_events q4 - 1, iq_running := False\<rparr>) \<and> iq_taken q ys (q4\<lparr>iq_events := iq_events q4 - 1, iq_running := False\<rparr>)"
        if q4: "iq_grown q3 q4" for q4
      proof -
        have "iq_running q4" using q3(2) iq_grown_fields(3) [OF q4] by (simp add: iq_taken_def)
        then have "iq_ok (q4\<lparr>iq_events := iq_events q4 - 1, iq_running := False\<rparr>)" using iq_grown_ok [OF q4] by (auto simp: iq_ok_def)
        moreover have "iq_taken (?started q2) ys q4" using iq_taken_trans [OF q3(2) iq_taken_grown [OF q4]] by simp
        then obtain xs where t: "iq_N q4 = iq_N q2" "iq_added q4 = iq_added q2 @ xs" "iq_list q2 @ xs = ys @ iq_list q4"
          unfolding iq_taken_def same by auto
        have e: "iq_list (q4\<lparr>iq_events := iq_events q4 - 1, iq_running := False\<rparr>) = iq_list q4" by (simp add: iq_list_def iq_count_def)
        have "iq_taken q2 ys (q4\<lparr>iq_events := iq_events q4 - 1, iq_running := False\<rparr>)"
          unfolding iq_taken_def e using t r1 iq_grown_fields(3) [OF q2] by auto
        ultimately show ?thesis using iq_taken_trans [OF iq_taken_grown [OF iq_grown_trans [OF q1 q2]]] by fastforce
      qed
      show "iq_always (Done ()) q3 (\<lambda>_ s'. iq_always (store (\<lambda>q. q\<lparr>iq_events := iq_events q - 1, iq_running := False\<rparr>) (Done ())) s'
          (\<lambda>_ q'. \<not> iq_running q' \<and> (\<exists>ys. iq_taken q ys q')))"
        using q3(1) done_ok by auto
    qed
  qed
  have "iq_events q1 \<noteq> 0" if "iq_events q \<noteq> 0" using that q ok1 q1 by (auto simp: iq_ok_def iq_grown_def)
  then show "iq_always (if iq_events q1 = 0 then Done ()
     else bindP (iq_DataAvailable (bindP (iq_reads_p cs) (\<lambda>_. Done ())))
       (\<lambda>_. store (\<lambda>q. q\<lparr>iq_events := iq_events q - 1, iq_running := False\<rparr>) (Done ()))) (id q1)
     (\<lambda>_ q'. \<not> iq_running q' \<and> (iq_events q \<noteq> 0 \<longrightarrow> (\<exists>ys. iq_taken q ys q')))"
    using always_mono [OF ran] ok1 r1 by auto
qed

lemma iq_dispatches_ok:
  "iq_ok q \<Longrightarrow> \<not> iq_running q \<Longrightarrow> iq_always (iq_dispatches css) q (\<lambda>_ q'. \<not> iq_running q')"
proof (induction css arbitrary: q)
  case (Cons cs css)
  show ?case unfolding iq_dispatches.simps
    by (rule always_bind [OF iq_dispatch_ok [OF Cons.prems]]) (use Cons.IH in auto)
qed simp

end
