(* ===== verification/Irq_Stream.thy ===== *)
theory Irq_Stream
  imports Irq_Queue
begin

section \<open>Reading the interrupt queue as a stream\<close>

text \<open>
  \<^verbatim>\<open>QueueForOneReaderOneIrqWriter<uint8_t>::StreamReader\<close>: a stream over the bytes that are in the queue when it is made, with
  rewinding until \<^verbatim>\<open>Commit\<close> takes them from the queue. The properties of the queue and of the stream, for every schedule of
  interrupts, stand at the end.
\<close>

record iq_stream =
  ist_available :: nat
  ist_offset :: nat

definition ist_make_p :: "(byte, iq_stream) iq_prog" where
  "ist_make_p = bindP iq_Size_p (\<lambda>n. Done \<lparr>ist_available = n, ist_offset = 0\<rparr>)"

definition ist_Commit_p :: "iq_stream \<Rightarrow> (byte, iq_stream) iq_prog" where
  "ist_Commit_p r = bindP (iq_Consume_p (ist_offset r)) (\<lambda>_. Done (r\<lparr>ist_offset := 0\<rparr>))"

definition ist_Available :: "iq_stream \<Rightarrow> nat" where
  "ist_Available r = ist_available r - ist_offset r"

definition ist_Empty :: "iq_stream \<Rightarrow> bool" where
  "ist_Empty r \<longleftrightarrow> ist_Available r = 0"

definition ist_ConstructSaveMarker :: "iq_stream \<Rightarrow> nat" where
  "ist_ConstructSaveMarker r = ist_offset r"

definition ist_Rewind :: "nat \<Rightarrow> iq_stream \<Rightarrow> iq_stream" where
  "ist_Rewind marker r = r\<lparr>ist_offset := marker\<rparr>"

text \<open>A call of \<^verbatim>\<open>ReportResult\<close>, which touches nothing the interrupt shares.\<close>

definition reportP :: "bool \<Rightarrow> error_policy \<Rightarrow> (error_policy \<Rightarrow> ('s, 'r) prog) \<Rightarrow> ('s, 'r) prog" where
  "reportP b p k = (case ep_ReportResult b p of Inl e \<Rightarrow> Fault e | Inr p' \<Rightarrow> k p')"

text \<open>\<^verbatim>\<open>Head(queue.ContiguousRange(offset), n)\<close>, as the start and the size of the range.\<close>

definition ist_Head_p :: "nat \<Rightarrow> nat \<Rightarrow> (byte, nat \<times> nat) iq_prog" where
  "ist_Head_p offset n = bindP (iq_ContiguousRange_p offset) (\<lambda>(b, e). Done (b, min (e - b) n))"

text \<open>
  \<^verbatim>\<open>Extract\<close>: \<open>done\<close> is what has been copied, \<open>dest\<close> the contents of the rest of the range. Each round copies at least one byte or
  ends the loop, so there are at most as many rounds as bytes, and one more that finds the range empty.
\<close>

fun ist_Extract_loop :: "nat \<Rightarrow> byte list \<Rightarrow> byte list \<Rightarrow> iq_stream \<Rightarrow> error_policy \<Rightarrow> (byte, byte list \<times> iq_stream \<times> error_policy) iq_prog" where
  "ist_Extract_loop 0 out dest r p = (if dest = [] then Done (out, r, p) else Fault OutOfFuel)"
| "ist_Extract_loop (Suc fuel) out dest r p =
     (if dest = [] then Done (out, r, p)
      else bindP (ist_Head_p (ist_offset r) (min (length dest) (ist_Available r))) (\<lambda>(b, n).
        reportP (n \<noteq> 0) p (\<lambda>p1.
          if n = 0 then Done (out @ dest, r, p1)
          else bindP (iq_copy n b) (\<lambda>xs.
            ist_Extract_loop fuel (out @ xs) (drop n dest) (r\<lparr>ist_offset := ist_offset r + n\<rparr>) p1))))"

definition ist_Extract_p :: "byte list \<Rightarrow> iq_stream \<Rightarrow> error_policy \<Rightarrow> (byte, byte list \<times> iq_stream \<times> error_policy) iq_prog" where
  "ist_Extract_p dest r p = ist_Extract_loop (length dest) [] dest r p"

definition ist_Peek_p :: "iq_stream \<Rightarrow> error_policy \<Rightarrow> (byte, byte \<times> error_policy) iq_prog" where
  "ist_Peek_p r p = bindP (ist_Head_p (ist_offset r) (ist_Available r)) (\<lambda>(b, n).
     reportP (n \<noteq> 0) p (\<lambda>p1. if n = 0 then Done (0, p1) else load (\<lambda>q. iq_buffer q ! b) (\<lambda>x. Done (x, p1))))"

definition ist_ExtractContiguousRange_p :: "nat \<Rightarrow> iq_stream \<Rightarrow> (byte, (nat \<times> nat) \<times> iq_stream) iq_prog" where
  "ist_ExtractContiguousRange_p m r = bindP (ist_Head_p (ist_offset r) (min m (ist_Available r)))
     (\<lambda>(b, n). Done ((b, n), r\<lparr>ist_offset := ist_offset r + n\<rparr>))"

definition ist_PeekContiguousRange_p :: "nat \<Rightarrow> iq_stream \<Rightarrow> (byte, nat \<times> nat) iq_prog" where
  "ist_PeekContiguousRange_p start r = ist_Head_p (ist_offset r + start) (ist_Available r)"

subsection \<open>What is extracted\<close>

lemma ist_Head_within:
  assumes q: "iq_ok q" and n: "i \<le> iq_count q"
  shows "iq_always (ist_Head_p i m) q (\<lambda>(b, n) q'. iq_grown q q' \<and> b = (iq_contentsBegin q + i) mod iq_N q \<and> b + n \<le> iq_N q
    \<and> n \<le> m \<and> i + n \<le> iq_count q' \<and> (i < iq_count q \<and> 0 < m \<longrightarrow> 0 < n))"
  unfolding ist_Head_p_def by (rule always_bind [OF iq_ContiguousRange_within [OF q n]]) auto

lemma ist_Extract_reads:
  assumes "iq_ok q" and "ist_available r \<le> iq_count q" and "ist_offset r + length dest \<le> ist_available r" and "length dest \<le> fuel"
  shows "iq_always (ist_Extract_loop fuel out dest r p) q (\<lambda>(bs, r', p') q'. iq_grown q q'
    \<and> bs = out @ take (length dest) (drop (ist_offset r) (iq_list q))
    \<and> r' = r\<lparr>ist_offset := ist_offset r + length dest\<rparr> \<and> ep_failed p' = ep_failed p)"
  using assms
proof (induction fuel arbitrary: q out dest r p)
  case 0
  then show ?case by (simp add: iq_grown_refl)
next
  case (Suc fuel)
  show ?case
  proof (cases "dest = []")
    case True
    then show ?thesis using Suc.prems(1) by (simp add: iq_grown_refl)
  next
    case False
    let ?i = "ist_offset r" and ?m = "min (length dest) (ist_Available r)"
    have m: "?m = length dest" "?i < iq_count q" "?i \<le> iq_count q"
      using Suc.prems(2,3) False by (auto simp: ist_Available_def length_greater_0_conv [symmetric] simp del: length_greater_0_conv)
    have loop: "iq_always (reportP (n \<noteq> 0) p (\<lambda>p1. if n = 0 then Done (out @ dest, r, p1)
          else bindP (iq_copy n b) (\<lambda>xs. ist_Extract_loop fuel (out @ xs) (drop n dest) (r\<lparr>ist_offset := ?i + n\<rparr>) p1))) q1
        (\<lambda>(bs, r', p') q'. iq_grown q q' \<and> bs = out @ take (length dest) (drop ?i (iq_list q))
          \<and> r' = r\<lparr>ist_offset := ?i + length dest\<rparr> \<and> ep_failed p' = ep_failed p)"
      if q1: "iq_ok q1" "iq_grown q q1" and b: "b = (iq_contentsBegin q + ?i) mod iq_N q" "b + n \<le> iq_N q" "n \<le> ?m" "?i + n \<le> iq_count q1" "0 < n"
      for b n q1
    proof -
      obtain p1 where p1: "ep_ReportResult True p = Inr p1" "ep_failed p1 = ep_failed p" by (simp add: ep_ReportResult_def)
      have copy: "iq_always (iq_copy n b) q1 (\<lambda>xs q'. xs = take n (drop ?i (iq_list q1)) \<and> iq_grown q1 q')"
        using b iq_grown_fields [OF q1(2)] by (intro iq_copy_reads [OF q1(1)]) auto
      let ?r = "r\<lparr>ist_offset := ?i + n\<rparr>"
      have rest: "iq_always (ist_Extract_loop fuel (out @ xs) (drop n dest) ?r p1) q2
          (\<lambda>(bs, r', p') q'. iq_grown q q' \<and> bs = out @ take (length dest) (drop ?i (iq_list q))
            \<and> r' = r\<lparr>ist_offset := ?i + length dest\<rparr> \<and> ep_failed p' = ep_failed p)"
        if q2: "iq_ok q2" "xs = take n (drop ?i (iq_list q1)) \<and> iq_grown q1 q2" for xs q2
      proof -
        have g2: "iq_grown q q2" using iq_grown_trans [OF q1(2)] q2(2) by blast
        have "iq_always (ist_Extract_loop fuel (out @ xs) (drop n dest) ?r p1) q2 (\<lambda>(bs, r', p') q'. iq_grown q2 q'
            \<and> bs = (out @ xs) @ take (length (drop n dest)) (drop (ist_offset ?r) (iq_list q2))
            \<and> r' = ?r\<lparr>ist_offset := ist_offset ?r + length (drop n dest)\<rparr> \<and> ep_failed p' = ep_failed p1)"
          using Suc.prems b(3,5) m(1) iq_grown_count [OF g2] by (intro Suc.IH [OF q2(1)]) auto
        moreover have "xs @ take (length (drop n dest)) (drop (?i + n) (iq_list q2)) = take (length dest) (drop ?i (iq_list q))"
        proof -
          have k: "?i + length dest \<le> iq_count q" using Suc.prems(2,3) by simp
          have "take (length dest) (drop ?i (iq_list q')) = take (length dest) (drop ?i (iq_list q))" if "iq_grown q q'" for q'
            using iq_grown_take [OF that k] by (simp add: take_drop add.commute)
          note same = this
          define A where "A = take (length dest) (drop ?i (iq_list q))"
          have n: "n \<le> length dest" using b(3) m(1) by simp
          have "xs = take n (take (length dest) (drop ?i (iq_list q1)))" using q2(2) n by (simp add: min_def)
          then have "xs = take n A" using same [OF q1(2)] by (simp add: A_def)
          moreover have "take (length (drop n dest)) (drop (?i + n) (iq_list q2)) = drop n (take (length dest) (drop ?i (iq_list q2)))"
            by (simp add: drop_take add.commute)
          then have "take (length (drop n dest)) (drop (?i + n) (iq_list q2)) = drop n A" using same [OF g2] by (simp add: A_def)
          ultimately show ?thesis by (simp add: A_def [symmetric])
        qed
        ultimately show ?thesis
          using b(3) m(1) p1(2) iq_grown_trans [OF g2] by (elim always_mono) (auto simp: append_assoc)
      qed
      show ?thesis unfolding reportP_def using p1 b(5) always_bind [OF copy rest] by simp
    qed
    have "iq_always (bindP (ist_Head_p ?i ?m) (\<lambda>(b, n). reportP (n \<noteq> 0) p (\<lambda>p1. if n = 0 then Done (out @ dest, r, p1)
          else bindP (iq_copy n b) (\<lambda>xs. ist_Extract_loop fuel (out @ xs) (drop n dest) (r\<lparr>ist_offset := ?i + n\<rparr>) p1)))) q
        (\<lambda>(bs, r', p') q'. iq_grown q q' \<and> bs = out @ take (length dest) (drop ?i (iq_list q))
          \<and> r' = r\<lparr>ist_offset := ?i + length dest\<rparr> \<and> ep_failed p' = ep_failed p)"
      by (rule always_bind [OF ist_Head_within [OF Suc.prems(1) m(3)]]) (use loop m False in \<open>auto split: prod.splits\<close>)
    then show ?thesis using False by simp
  qed
qed

text \<open>Making the stream, extracting and committing, as the code that handles received bytes does.\<close>

definition ist_read_p :: "byte list \<Rightarrow> error_policy \<Rightarrow> (byte, byte list \<times> error_policy) iq_prog" where
  "ist_read_p dest p = bindP ist_make_p (\<lambda>r. bindP (ist_Extract_p dest r p)
     (\<lambda>(bs, r', p'). bindP (ist_Commit_p r') (\<lambda>_. Done (bs, p'))))"

lemma ist_read_takes:
  assumes q: "iq_ok q" and n: "length dest \<le> iq_count q"
  shows "iq_always (ist_read_p dest p) q (\<lambda>(bs, p') q'. bs = take (length dest) (iq_list q) \<and> iq_taken q bs q' \<and> ep_failed p' = ep_failed p)"
  unfolding ist_read_p_def
proof (rule always_bind)
  show "iq_always ist_make_p q (\<lambda>r q'. r = \<lparr>ist_available = iq_count q', ist_offset = 0\<rparr> \<and> iq_grown q q')"
    unfolding ist_make_p_def by (rule always_bind [OF iq_queries(3) [OF q]]) simp
  fix r q1 assume q1: "iq_ok q1" "r = \<lparr>ist_available = iq_count q1, ist_offset = 0\<rparr> \<and> iq_grown q q1"
  have n1: "length dest \<le> iq_count q1" "take (length dest) (iq_list q1) = take (length dest) (iq_list q)"
    using n iq_grown_count [OF conjunct2 [OF q1(2)]] iq_grown_take [OF conjunct2 [OF q1(2)] n] by auto
  have "iq_always (ist_Extract_p dest r p) q1 (\<lambda>(bs, r', p') q'. iq_grown q1 q' \<and> bs = take (length dest) (iq_list q1)
      \<and> r' = r\<lparr>ist_offset := length dest\<rparr> \<and> ep_failed p' = ep_failed p)"
    using ist_Extract_reads [OF q1(1), of r dest "length dest" "[]" p] n1(1) q1(2) by (simp add: ist_Extract_p_def)
  then show "iq_always (bindP (ist_Extract_p dest r p) (\<lambda>(bs, r', p'). bindP (ist_Commit_p r') (\<lambda>_. Done (bs, p')))) q1
      (\<lambda>(bs, p') q'. bs = take (length dest) (iq_list q) \<and> iq_taken q bs q' \<and> ep_failed p' = ep_failed p)"
  proof (rule always_bind)
    fix x q2
    assume q2: "iq_ok q2" "(case x of (bs, r', p') \<Rightarrow> \<lambda>q'. iq_grown q1 q' \<and> bs = take (length dest) (iq_list q1)
      \<and> r' = r\<lparr>ist_offset := length dest\<rparr> \<and> ep_failed p' = ep_failed p) q2"
    obtain bs r' p' where x: "x = (bs, r', p')" by (cases x)
    have g: "iq_grown q q2" using q1(2) q2(2) iq_grown_trans by (auto simp: x)
    have n2: "length dest \<le> iq_count q2" "take (length dest) (iq_list q2) = take (length dest) (iq_list q)"
      using n iq_grown_count [OF g] iq_grown_take [OF g n] by auto
    have "iq_always (bindP (ist_Commit_p r') (\<lambda>_. Done (bs, p'))) q2
        (\<lambda>(bs, p') q'. bs = take (length dest) (iq_list q) \<and> iq_taken q bs q' \<and> ep_failed p' = ep_failed p)"
      unfolding ist_Commit_p_def always_bindP
      by (rule always_mono [OF iq_Consume_takes [of q2 "ist_offset r'"]])
        (use q2 n1 n2 iq_taken_trans [OF iq_taken_grown [OF g]] in \<open>auto simp: x\<close>)
    then show "iq_always (case x of (bs, r', p') \<Rightarrow> bindP (ist_Commit_p r') (\<lambda>_. Done (bs, p'))) q2
        (\<lambda>(bs, p') q'. bs = take (length dest) (iq_list q) \<and> iq_taken q bs q' \<and> ep_failed p' = ep_failed p)"
      by (simp add: x)
  qed
qed

subsection \<open>Properties\<close>

lemma iq_ok_make: "b \<noteq> [] \<Longrightarrow> iq_ok (iq_make b)"
  by (simp add: iq_ok_def iq_make_def)

text \<open>
  C22. Whatever the reader does, with \<^verbatim>\<open>Get\<close> or with contiguous ranges and \<^verbatim>\<open>Consume\<close>, and whenever interrupts arrive in
  between its accesses: its calls end without a fault, and what it has taken, followed by what is left in the
  queue, is what the queue held followed by what the interrupts have added. Nothing is lost, repeated or reordered.
\<close>

theorem iq_reader_in_order:
  assumes "iq_ok q" and "\<forall>h \<in> set hs. \<forall>i \<in> set h. iq_unchecked i"
  shows "\<exists>xs hs' q' new. run (iq_reads_p cs) iq_irq hs q = Inr (xs, hs', q')
    \<and> iq_added q' = iq_added q @ new \<and> xs @ iq_list q' = iq_list q @ new"
  using iq_irq.run_always [OF iq_reads_take [OF assms(1)] assms(2), of cs] by (fastforce simp: iq_taken_def)

theorem iq_reader_in_order_witness:
  "\<exists>xs hs' q' new. run (iq_reads_p [ReadOne, ReadRange 5]) iq_irq [[AddRangeUnchecked [1, 2]], [], [AddElementUnchecked 3]] (iq_make [0, 0, 0 :: nat])
      = Inr (xs, hs', q') \<and> iq_added q' = new \<and> xs @ iq_list q' = new"
  using iq_reader_in_order [OF iq_ok_make, of "[0, 0, 0 :: nat]" "[[AddRangeUnchecked [1, 2]], [], [AddElementUnchecked 3]]" "[ReadOne, ReadRange 5]"]
  by (simp add: iq_list_def iq_count_def iq_make_def iq_SizeBetween_def iq_FullBetween_def)

text \<open>
  C23. No notification is lost: however the events are executed and interrupts arrive, between two events the event dispatcher holds
  at most one event for the queue, and it holds one whenever data has been added since the reader was last called.
\<close>

theorem iq_no_lost_notification:
  assumes "b \<noteq> []" and "\<forall>h \<in> set hs. \<forall>i \<in> set h. iq_unchecked i"
  shows "\<exists>hs' q'. run (iq_dispatches css) iq_irq hs (iq_make b) = Inr ((), hs', q')
    \<and> iq_events q' \<le> 1 \<and> (iq_unseen q' \<longrightarrow> iq_events q' = 1)"
proof -
  have "\<not> iq_running (iq_make b)" by (simp add: iq_make_def)
  from iq_irq.run_always [OF iq_dispatches_ok [OF iq_ok_make [OF assms(1)] this] assms(2), of css]
  show ?thesis by (auto simp: iq_ok_def)
qed

theorem iq_no_lost_notification_witness:
  "\<exists>hs' q'. run (iq_dispatches [[], [ReadOne]]) iq_irq [[AddElementUnchecked 7], [], [AddElementUnchecked 8]] (iq_make [0, 0, 0 :: nat]) = Inr ((), hs', q')
    \<and> iq_events q' \<le> 1 \<and> (iq_unseen q' \<longrightarrow> iq_events q' = 1)"
  using iq_no_lost_notification [of "[0, 0, 0 :: nat]" "[[AddElementUnchecked 7], [], [AddElementUnchecked 8]]" "[[], [ReadOne]]"] by simp

text \<open>
  Adding from the interrupt appends to the queue when there is room; otherwise the checked functions fail their
  assertion and the unchecked ones leave the queue alone. A queue over a buffer of \<open>n\<close> elements holds \<open>n - 1\<close>.
\<close>

theorem iq_add_cases:
  assumes "iq_ok q"
  shows "(iq_count q < iq_N q - 1 \<longrightarrow> iq_AddFromInterrupt x q = Inr (iq_AddFromInterruptUnchecked x q)
        \<and> iq_list (iq_AddFromInterruptUnchecked x q) = iq_list q @ [x])
    \<and> (\<not> iq_count q < iq_N q - 1 \<longrightarrow> iq_AddFromInterrupt x q = Inl AssertFailed
        \<and> iq_list (iq_AddFromInterruptUnchecked x q) = iq_list q)
    \<and> (length xs \<le> iq_N q - 1 - iq_count q \<longrightarrow> iq_AddRangeFromInterrupt xs q = Inr (iq_AddRangeFromInterruptUnchecked xs q)
        \<and> iq_list (iq_AddRangeFromInterruptUnchecked xs q) = iq_list q @ xs)
    \<and> (\<not> length xs \<le> iq_N q - 1 - iq_count q \<longrightarrow> iq_AddRangeFromInterrupt xs q = Inl AssertFailed
        \<and> iq_list (iq_AddRangeFromInterruptUnchecked xs q) = iq_list q)"
  using iq_AddFromInterruptUnchecked(2) [OF assms] iq_AddRangeFromInterruptUnchecked(2) [OF assms] iq_Full_count [OF assms] iq_count_less [OF assms]
  by (auto simp: iq_AddFromInterrupt_def iq_AddRangeFromInterrupt_def iq_Capacity_def)

theorem iq_add_cases_witness:
  "iq_AddRangeFromInterrupt [1, 2, 3] (iq_make [0, 0, 0 :: nat]) = Inl AssertFailed
    \<and> iq_list (iq_AddRangeFromInterruptUnchecked [1, 2] (iq_make [0, 0, 0 :: nat])) = [1, 2]"
  using iq_add_cases [OF iq_ok_make, of "[0, 0, 0 :: nat]" 0 "[1, 2, 3]"] iq_add_cases [OF iq_ok_make, of "[0, 0, 0 :: nat]" 0 "[1, 2]"]
  by (simp add: iq_list_def iq_count_def iq_make_def iq_SizeBetween_def iq_FullBetween_def)

text \<open>
  A stream over the queue, with interrupts arriving at any time: extracting no more bytes than the queue held gives the first
  bytes of the queue, reports no failure, and committing takes exactly these bytes from the queue.
\<close>

theorem ist_extract_and_commit:
  assumes "iq_ok q" and "length dest \<le> iq_count q" and "\<forall>h \<in> set hs. \<forall>i \<in> set h. iq_unchecked i"
  shows "\<exists>p' hs' q' new. run (ist_read_p dest p) iq_irq hs q = Inr ((take (length dest) (iq_list q), p'), hs', q')
    \<and> ep_failed p' = ep_failed p \<and> iq_added q' = iq_added q @ new \<and> iq_list q' = drop (length dest) (iq_list q) @ new"
proof -
  obtain bs p' hs' q' where r: "run (ist_read_p dest p) iq_irq hs q = Inr ((bs, p'), hs', q')" "bs = take (length dest) (iq_list q)"
      "iq_taken q bs q'" "ep_failed p' = ep_failed p"
    using iq_irq.run_always [OF ist_read_takes [OF assms(1,2)] assms(3), of p] by auto
  obtain new where new: "iq_added q' = iq_added q @ new" "iq_list q @ new = bs @ iq_list q'" using r(3) by (auto simp: iq_taken_def)
  have "bs @ drop (length dest) (iq_list q) @ new = bs @ iq_list q'" unfolding r(2) new(2) [symmetric, unfolded r(2)] by simp
  then show ?thesis using r new(1) by auto
qed

theorem ist_extract_and_commit_witness:
  "\<exists>p' hs' q' new. run (ist_read_p [0, 0] (ep_make FailByAssertion)) iq_irq [[], [], [AddElementUnchecked 9]]
      (iq_AddRangeFromInterruptUnchecked [4, 5] (iq_make [0, 0, 0, 0])) = Inr (([4, 5], p'), hs', q')
    \<and> ep_failed p' = False \<and> iq_added q' = [4, 5] @ new \<and> iq_list q' = new"
proof -
  let ?q = "iq_AddRangeFromInterruptUnchecked [4, 5] (iq_make [0, 0, 0, 0 :: byte])"
  have make: "iq_ok (iq_make [0, 0, 0, 0 :: byte])" by (rule iq_ok_make) simp
  have "iq_count (iq_make [0, 0, 0, 0 :: byte]) = 0" "iq_list (iq_make [0, 0, 0, 0 :: byte]) = []" "iq_added (iq_make [0, 0, 0, 0 :: byte]) = []"
    by (simp_all add: iq_list_def iq_count_def iq_make_def iq_SizeBetween_def iq_FullBetween_def)
  then have q: "iq_ok ?q" "iq_list ?q = [4, 5]" "iq_added ?q = [4, 5]"
    using iq_AddRangeFromInterruptUnchecked [OF make, of "[4, 5]"] iq_grown_ok by (auto simp: iq_Capacity_def iq_make_def)
  then have "iq_count ?q = 2" using length_iq_list [of ?q] by simp
  then show ?thesis using ist_extract_and_commit [OF q(1), of "[0, 0]" "[[], [], [AddElementUnchecked 9]]" "ep_make FailByAssertion"] q
    by (simp add: ep_make_def)
qed

end
