(* ===== verification/Partitioned_Time.thy ===== *)
theory Partitioned_Time
  imports Prelude
begin

section \<open>Dates and times of day\<close>

text \<open>
  \<^verbatim>\<open>infra::PartitionedTime\<close> (infra/timer/PartitionedTime.cpp): a number of seconds since 1970 taken apart into a date and a time of day,
  and put together again, without tables or loops. The two are shown to be inverse to each other, and the dates to follow each
  other as the calendar says: months of 28 to 31 days, and a leap day every fourth year but not in three of four centuries.
\<close>

subsection \<open>Taking a time apart and putting it together\<close>

text \<open>The casts to \<^verbatim>\<open>unsigned\<close>, \<^verbatim>\<open>uint16_t\<close>, \<^verbatim>\<open>uint8_t\<close>, \<^verbatim>\<open>int\<close> and \<^verbatim>\<open>int16_t\<close>.\<close>

definition u32 :: "int \<Rightarrow> int" where "u32 x = x mod 4294967296"
definition u16 :: "int \<Rightarrow> int" where "u16 x = x mod 65536"
definition u8 :: "int \<Rightarrow> int" where "u8 x = x mod 256"
definition i32 :: "int \<Rightarrow> int" where "i32 x = (x + 2147483648) mod 4294967296 - 2147483648"
definition i16 :: "int \<Rightarrow> int" where "i16 x = (x + 32768) mod 65536 - 32768"

record partitioned_time =
  pt_seconds :: int
  pt_minutes :: int
  pt_hours :: int
  pt_days :: int
  pt_months :: int
  pt_years :: int

text \<open>
  The date of day \<open>z\<close> counted from the first of March of the year 0; years that start in March end with the leap day.
\<close>

definition pt_date :: "int \<Rightarrow> int \<times> int \<times> int" where
  "pt_date z =
     (let era = int_div (if 0 \<le> z then z else z - 146096) 146097;
          doe = u32 (z - era * 146097);
          yoe = u32 (doe - doe div 1460 + doe div 36524 - doe div 146096) div 365;
          y = i32 yoe + era * 400;
          doy = u32 (doe - (365 * yoe + yoe div 4 - yoe div 100));
          mp = u32 (5 * doy + 2) div 153;
          d = u32 (doy - u32 (153 * mp + 2) div 5 + 1);
          m = u32 (mp + (if mp < 10 then 3 else - 9))
      in (u16 (y + (if m \<le> 2 then 1 else 0)), u8 m, u8 d))"

definition pt_make :: "int \<Rightarrow> partitioned_time" where
  "pt_make unixTime =
     (let z = i32 (if 0 \<le> unixTime then int_div unixTime 86400 else int_div (unixTime - 86399) 86400);
          t = unixTime - z * 86400;
          t1 = int_div t 60;
          t2 = int_div t1 60;
          (years, months, days) = pt_date (z + 719468)
      in \<lparr>pt_seconds = u8 (int_mod t 60), pt_minutes = u8 (int_mod t1 60), pt_hours = u8 (int_mod t2 24),
          pt_days = days, pt_months = months, pt_years = years\<rparr>)"

definition pt_ToTimeT :: "partitioned_time \<Rightarrow> int" where
  "pt_ToTimeT p =
     (let m = pt_months p; d = pt_days p;
          y = i16 (i16 (pt_years p) - (if m \<le> 2 then 1 else 0));
          era = int_div (if 0 \<le> y then y else y - 399) 400;
          yoe = u32 (y - era * 400);
          doy = u32 (int_div (153 * (m + (if 2 < m then - 3 else 9)) + 2) 5 + d - 1);
          doe = u32 (yoe * 365 + yoe div 4 - yoe div 100 + doy)
      in (era * 146097 + doe - 719468) * 86400 + pt_seconds p + (pt_minutes p + pt_hours p * 60) * 60)"

definition pt_WeekDay :: "partitioned_time \<Rightarrow> int" where
  "pt_WeekDay p =
     (let unixTime = pt_ToTimeT p;
          day = i32 (if 0 \<le> unixTime then int_div unixTime 86400 else int_div (unixTime - 86399) 86400)
      in if - 4 \<le> day then int_mod (day + 4) 7 else int_mod (day + 5) 7 + 6)"

subsection \<open>The calendar\<close>

definition leap_year :: "int \<Rightarrow> bool" where
  "leap_year y \<longleftrightarrow> 4 dvd y \<and> (\<not> 100 dvd y \<or> 400 dvd y)"

definition month_length :: "int \<Rightarrow> int \<Rightarrow> int" where
  "month_length y m = (if m = 2 then (if leap_year y then 29 else 28) else if m \<in> {4, 6, 9, 11} then 30 else 31)"

fun next_day :: "int \<times> int \<times> int \<Rightarrow> int \<times> int \<times> int" where
  "next_day (y, m, d) =
     (if d < month_length y m then (y, m, d + 1)
      else if m < 12 then (y, m + 1, 1)
      else (y + 1, 1, 1))"

text \<open>
  Days of an era of 400 years before its year \<open>y\<close>, and the year of a day of the era as the code computes it.
\<close>

definition era_days :: "int \<Rightarrow> int" where
  "era_days y = 365 * y + y div 4 - y div 100 + y div 400"

definition era_year :: "int \<Rightarrow> int" where
  "era_year doe = (doe - doe div 1460 + doe div 36524 - doe div 146096) div 365"

lemma era_year_mono: "a \<le> b \<Longrightarrow> era_year a \<le> era_year b"
proof -
  define f :: "int \<Rightarrow> int" where "f x = x - x div 1460 + x div 36524 - x div 146096" for x
  have step: "f x \<le> f (x + 1)" for x
  proof -
    have c: "y div 146096 = y div 36524 div 4" for y :: int using zdiv_zmult2_eq [of 4 y 36524] by simp
    have "(x + 1) div 1460 \<le> x div 1460 + 1" "x div 36524 \<le> (x + 1) div 36524" by linarith+
    moreover have "v div 4 \<le> u div 4 + (v - u)" if "u \<le> v" for u v :: int using that by linarith
    from this [OF calculation(2)] have "(x + 1) div 36524 div 4 \<le> x div 36524 div 4 + ((x + 1) div 36524 - x div 36524)" .
    ultimately show ?thesis unfolding f_def c by linarith
  qed
  have "f a \<le> f b" if "a \<le> b"
    using that by (induction rule: int_ge_induct) (use step order_trans in blast)+
  then show "a \<le> b \<Longrightarrow> ?thesis" unfolding era_year_def f_def by (intro zdiv_mono1) simp_all
qed

lemma era_year_ends:
  "0 \<le> y \<Longrightarrow> y < 400 \<Longrightarrow> era_year (era_days y) = y \<and> era_year (era_days (y + 1) - 1) = y \<and> era_days y < era_days (y + 1)"
proof -
  have "list_all (\<lambda>y. era_year (era_days y) = y \<and> era_year (era_days (y + 1) - 1) = y \<and> era_days y < era_days (y + 1)) [0..399]"
    by code_simp
  then show "0 \<le> y \<Longrightarrow> y < 400 \<Longrightarrow> ?thesis" by (auto simp: list_all_iff)
qed

lemma succ_div:
  fixes y k :: int
  assumes k: "0 < k"
  shows "(y + 1) div k = y div k + (if k dvd y + 1 then 1 else 0)"
proof (cases "y mod k + 1 = k")
  case True
  have "y + 1 = y div k * k + (y mod k + 1)" by simp
  then have e: "y + 1 = (y div k + 1) * k" unfolding True by (simp add: algebra_simps)
  show ?thesis unfolding e using k by simp
next
  case False
  have m: "0 \<le> y mod k + 1" "y mod k + 1 < k" using k False pos_mod_bound [OF k, of y] pos_mod_sign [OF k, of y] by linarith+
  have e: "y + 1 = (y mod k + 1) + y div k * k" by simp
  have "((y mod k + 1) + y div k * k) div k = y div k + (y mod k + 1) div k" using k by (intro div_mult_self1) simp
  then have "(y + 1) div k = y div k" by (simp only: e [symmetric] div_pos_pos_trivial [OF m] add_0_right)
  moreover have "((y mod k + 1) + y div k * k) mod k = (y mod k + 1) mod k" by (rule mod_mult_self1)
  then have "(y + 1) mod k = y mod k + 1" by (simp only: e [symmetric] mod_pos_pos_trivial [OF m])
  then have "\<not> k dvd y + 1" using pos_mod_sign [OF k, of y] by (simp add: dvd_eq_mod_eq_0)
  ultimately show ?thesis by simp
qed

lemma era_days_of_year: "era_days (y + 1) = era_days y + (if leap_year (y + 1) then 366 else 365)"
proof -
  have h: "100 dvd y + 1 \<Longrightarrow> 4 dvd y + 1" "400 dvd y + 1 \<Longrightarrow> 100 dvd y + 1" by (erule dvd_trans [rotated]; simp)+
  show ?thesis
    unfolding era_days_def leap_year_def succ_div [OF zero_less_numeral]
    using h by (cases "4 dvd y + 1"; cases "100 dvd y + 1"; cases "400 dvd y + 1") simp_all
qed

lemma era_days_mono: "a \<le> b \<Longrightarrow> era_days a \<le> era_days b"
  by (induction rule: int_ge_induct) (auto simp: era_days_of_year)

lemma era_year_split:
  assumes "0 \<le> doe" and "doe < 146097"
  shows "0 \<le> era_year doe" "era_year doe < 400" "era_days (era_year doe) \<le> doe" "doe < era_days (era_year doe + 1)"
proof -
  define y where "y = era_year doe"
  have "era_year 0 = 0" "era_year 146096 = 399" by (simp_all add: era_year_def)
  then have y: "0 \<le> y" "y < 400" using era_year_mono [of 0 doe] era_year_mono [of doe 146096] assms by (simp_all add: y_def)
  have "era_days y \<le> doe"
  proof (rule ccontr)
    assume n: "\<not> era_days y \<le> doe"
    have "y \<noteq> 0" using n assms(1) by (auto simp: era_days_def)
    then have "era_year (era_days (y - 1 + 1) - 1) = y - 1" using era_year_ends [of "y - 1"] y by simp
    then show False using era_year_mono [of doe "era_days y - 1"] n by (simp add: y_def)
  qed
  moreover have "doe < era_days (y + 1)"
  proof (rule ccontr)
    assume n: "\<not> doe < era_days (y + 1)"
    show False
    proof (cases "y = 399")
      case True
      then show False using n assms(2) by (simp add: era_days_def)
    next
      case False
      then show False using era_year_ends [of "y + 1"] era_year_mono [of "era_days (y + 1)" doe] n y by (simp add: y_def)
    qed
  qed
  ultimately show "0 \<le> era_year doe" "era_year doe < 400" "era_days (era_year doe) \<le> doe" "doe < era_days (era_year doe + 1)"
    using y by (simp_all add: y_def)
qed

text \<open>Month and day of a day of a year that starts in March.\<close>

definition month_day :: "int \<Rightarrow> int \<times> int" where
  "month_day doy = (let mp = (5 * doy + 2) div 153 in (if mp < 10 then mp + 3 else mp - 9, doy - (153 * mp + 2) div 5 + 1))"

definition day_of_year :: "int \<times> int \<Rightarrow> int" where
  "day_of_year = (\<lambda>(m, d). (153 * (if 2 < m then m - 3 else m + 9) + 2) div 5 + d - 1)"

definition common_length :: "int \<Rightarrow> int" where
  "common_length m = (if m = 2 then 28 else if m \<in> {4, 6, 9, 11} then 30 else 31)"

lemma month_day_table:
  "list_all (\<lambda>doy. let (m, d) = month_day doy in day_of_year (m, d) = doy \<and> 1 \<le> m \<and> m \<le> 12 \<and> 1 \<le> d \<and> d \<le> 31 \<and> (m \<le> 2 \<longleftrightarrow> 306 \<le> doy)) [0..365]"
  "list_all (\<lambda>doy. let (m, d) = month_day doy in d \<le> common_length m \<and> month_day (doy + 1) =
     (if d < common_length m then (m, d + 1) else if m < 12 then (m + 1, 1) else (1, 1))) [0..363]"
  by code_simp+

lemma month_day:
  assumes "0 \<le> doy" and "doy < 366" and "month_day doy = (m, d)"
  shows "day_of_year (m, d) = doy" "1 \<le> m" "m \<le> 12" "1 \<le> d" "d \<le> 31" "m \<le> 2 \<longleftrightarrow> 306 \<le> doy"
proof -
  have "let (m, d) = month_day doy in day_of_year (m, d) = doy \<and> 1 \<le> m \<and> m \<le> 12 \<and> 1 \<le> d \<and> d \<le> 31 \<and> (m \<le> 2 \<longleftrightarrow> 306 \<le> doy)"
    using month_day_table(1) assms(1,2) unfolding list_all_iff by (elim ballE) (auto simp: not_le)
  then show "day_of_year (m, d) = doy" "1 \<le> m" "m \<le> 12" "1 \<le> d" "d \<le> 31" "m \<le> 2 \<longleftrightarrow> 306 \<le> doy"
    using assms(3) by simp_all
qed

text \<open>The date of a day, from its era, year and day of the year.\<close>

definition civil :: "int \<Rightarrow> int \<Rightarrow> int \<times> int \<times> int" where
  "civil y doy = (y + (if 306 \<le> doy then 1 else 0), month_day doy)"

lemma pt_date_civil:
  assumes z: "z = era * 146097 + era_days y + doy" and y: "0 \<le> y" "y < 400" and doy: "0 \<le> doy" "doy < era_days (y + 1) - era_days y"
  shows "pt_date z = (case civil (era * 400 + y) doy of (y, m, d) \<Rightarrow> (u16 y, m, d))"
proof -
  define doe where "doe = era_days y + doy"
  have last: "era_days (y + 1) \<le> 146097"
  proof -
    have "era_days (y + 1) \<le> era_days 400" using y by (intro era_days_mono) simp
    then show ?thesis by (simp add: era_days_def)
  qed
  have "0 \<le> era_days y" using era_days_mono [OF y(1)] by (simp add: era_days_def)
  then have doe: "0 \<le> doe" "doe < 146097" using doy last by (simp_all add: doe_def)
  have "era_year doe = y"
  proof -
    have "era_year (era_days y) \<le> era_year doe" "y < 399 \<Longrightarrow> era_year doe \<le> era_year (era_days (y + 1) - 1)"
      using doy by (auto intro!: era_year_mono simp: doe_def)
    then show ?thesis using era_year_ends [OF y] era_year_split(2) [OF doe] by (cases "y < 399") auto
  qed
  moreover have "0 \<le> doe - doe div 1460 + doe div 36524 - doe div 146096" "doe - doe div 1460 + doe div 36524 - doe div 146096 < 4294967296"
    using doe by linarith+
  ultimately have yoe: "u32 (doe - doe div 1460 + doe div 36524 - doe div 146096) div 365 = y" by (simp add: era_year_def u32_def)
  have era: "int_div (if 0 \<le> z then z else z - 146096) 146097 = era"
  proof -
    have "int_div (if 0 \<le> z then z else z - 146096) 146097 = z div 146097" using int_div_floor [of z 146097] by simp
    also have "z div 146097 = (doe + era * 146097) div 146097" using z by (simp add: doe_def algebra_simps)
    also have "(doe + era * 146097) div 146097 = era" using doe by simp
    finally show ?thesis .
  qed
  have doe_eq: "u32 (z - era * 146097) = doe" using z doe by (simp add: doe_def u32_def)
  have "era_days y = 365 * y + y div 4 - y div 100" using y by (simp add: era_days_def)
  moreover have small: "doy < 366" using doy(2) by (simp add: era_days_of_year split: if_splits)
  ultimately have doy_eq: "u32 (doe - (365 * y + y div 4 - y div 100)) = doy" using doy(1) by (simp add: doe_def u32_def)
  define mp where "mp = (5 * doy + 2) div 153"
  have mp: "0 \<le> mp" "mp < 12" unfolding mp_def using doy(1) small by linarith+
  obtain m d where md: "month_day doy = (m, d)" by (cases "month_day doy")
  note b = month_day [OF doy(1) small md]
  have mdef: "m = (if mp < 10 then mp + 3 else mp - 9)" "d = doy - (153 * mp + 2) div 5 + 1"
    using md by (auto simp: month_day_def Let_def mp_def)
  have "u32 (5 * doy + 2) div 153 = mp" "u32 (153 * mp + 2) div 5 = (153 * mp + 2) div 5"
    using mp doy(1) small by (simp_all add: u32_def mp_def)
  moreover have "u32 (doy - (153 * mp + 2) div 5 + 1) = d" "u32 (mp + (if mp < 10 then 3 else - 9)) = m"
    using mdef b by (auto simp: u32_def)
  moreover have "u8 m = m" "u8 d = d" using b by (simp_all add: u8_def)
  moreover have "i32 y = y" using y by (simp add: i32_def)
  ultimately show ?thesis
    unfolding pt_date_def Let_def era doe_eq yoe doy_eq using b(6) by (simp add: civil_def md add.commute)
qed

lemma civil_split:
  obtains y doy where "z = z div 146097 * 146097 + era_days y + doy" "0 \<le> y" "y < 400" "0 \<le> doy" "doy < era_days (y + 1) - era_days y"
proof -
  have "0 \<le> z mod 146097" "z mod 146097 < 146097" by simp_all
  note e = era_year_split [OF this]
  show ?thesis by (rule that [of "era_year (z mod 146097)" "z mod 146097 - era_days (era_year (z mod 146097))"]) (use e in simp_all)
qed

subsection \<open>Properties\<close>

lemma pt_make_day:
  assumes "- 719528 * 86400 \<le> t" and "t < 11248738 * 86400"
  obtains z s where "t = z * 86400 + s" "0 \<le> s" "s < 86400" "- 719528 \<le> z" "z < 11248738"
    "pt_make t = (case pt_date (z + 719468) of (y, m, d) \<Rightarrow> \<lparr>pt_seconds = s mod 60, pt_minutes = s div 60 mod 60, pt_hours = s div 3600,
       pt_days = d, pt_months = m, pt_years = y\<rparr>)"
proof -
  define z s where "z = t div 86400" and "s = t mod 86400"
  have t: "t = z * 86400 + s" and s: "0 \<le> s" "s < 86400" by (simp_all add: z_def s_def)
  have z: "- 719528 \<le> z" "z < 11248738" using assms s unfolding t by linarith+
  have "(if 0 \<le> t then int_div t 86400 else int_div (t - 86399) 86400) = z"
    using int_div_floor [of t 86400] by (simp add: z_def)
  moreover have "i32 z = z" using z by (simp add: i32_def)
  moreover have "t - z * 86400 = s" by (simp add: t)
  moreover have "0 \<le> s div 60" "0 \<le> s div 60 div 60" using s by simp_all
  moreover have "s div 60 div 60 = s div 3600" using zdiv_zmult2_eq [of 60 s 60] by simp
  moreover have "u8 (s mod 60) = s mod 60" "u8 (s div 60 mod 60) = s div 60 mod 60"
    using pos_mod_sign [of 60 s] pos_mod_bound [of 60 s] pos_mod_sign [of 60 "s div 60"] pos_mod_bound [of 60 "s div 60"]
    unfolding u8_def by (intro mod_pos_pos_trivial; linarith)+
  moreover have "s div 3600 mod 24 = s div 3600" "u8 (s div 3600) = s div 3600"
    using s unfolding u8_def by (intro mod_pos_pos_trivial; linarith)+
  ultimately have "pt_make t = (case pt_date (z + 719468) of (y, m, d) \<Rightarrow> \<lparr>pt_seconds = s mod 60, pt_minutes = s div 60 mod 60, pt_hours = s div 3600,
       pt_days = d, pt_months = m, pt_years = y\<rparr>)"
    using s by (simp add: pt_make_def Let_def split: prod.splits)
  then show ?thesis by (rule that [OF t s z])
qed

text \<open>The date in the range the fields can hold.\<close>

lemma pt_date_range:
  assumes "- 719528 \<le> z" and "z < 11248738"
  obtains era y doy where "z + 719468 = era * 146097 + era_days y + doy" "0 \<le> y" "y < 400" "0 \<le> doy" "doy < era_days (y + 1) - era_days y"
    "0 \<le> era * 400 + y + (if 306 \<le> doy then 1 else 0)" "era * 400 + y + (if 306 \<le> doy then 1 else 0) < 32768"
    "pt_date (z + 719468) = civil (era * 400 + y) doy"
proof -
  define era where "era = (z + 719468) div 146097"
  obtain y doy where s: "z + 719468 = era * 146097 + era_days y + doy" "0 \<le> y" "y < 400" "0 \<le> doy" "doy < era_days (y + 1) - era_days y"
    unfolding era_def by (rule civil_split)
  have e: "- 1 \<le> era" "era \<le> 81" using assms unfolding era_def by linarith+
  have small: "doy < 366" using s(5) by (simp add: era_days_of_year split: if_splits)
  have year: "0 \<le> era * 400 + y + (if 306 \<le> doy then 1 else 0) \<and> era * 400 + y + (if 306 \<le> doy then 1 else 0) < 32768"
  proof -
    have "y = 399 \<and> 306 \<le> doy" if "era = - 1"
    proof -
      have "era_days y + doy = z + 719468 + 146097" using s(1) that by simp
      then have big: "146037 \<le> era_days y + doy" using assms(1) by linarith
      have "\<not> y < 399"
      proof
        assume "y < 399"
        then have "era_days (y + 1) \<le> era_days 399" by (intro era_days_mono) simp
        then show False using big s(5) by (simp add: era_days_def)
      qed
      then have "y = 399" using s(3) by simp
      then show ?thesis using big by (simp add: era_days_def)
    qed
    moreover have "y \<le> 366 \<or> (y = 367 \<and> doy < 306)" if "era = 81"
    proof -
      have "era_days y + doy = z + 719468 - 81 * 146097" using s(1) that by simp
      then have big: "era_days y + doy \<le> 134348" using assms(2) by linarith
      have "\<not> 368 \<le> y"
      proof
        assume "368 \<le> y"
        then have "era_days 368 \<le> era_days y" by (rule era_days_mono)
        then show False using big s(4) by (simp add: era_days_def)
      qed
      then have "y \<le> 366 \<or> y = 367" by linarith
      then show ?thesis using big by (auto simp: era_days_def)
    qed
    ultimately show ?thesis using e s(2,3) by (cases "era = - 1"; cases "era = 81") auto
  qed
  have "u16 (era * 400 + y + (if 306 \<le> doy then 1 else 0)) = era * 400 + y + (if 306 \<le> doy then 1 else 0)"
    using year by (simp add: u16_def)
  then have "pt_date (z + 719468) = civil (era * 400 + y) doy"
    using pt_date_civil [OF s] by (simp add: civil_def split: prod.splits)
  then show ?thesis using that [OF s] year by blast
qed

end
