(* ===== verification/Calendar.thy ===== *)
theory Calendar
  imports Partitioned_Time
begin

section \<open>The calendar of PartitionedTime\<close>

text \<open>
  The properties of \<^verbatim>\<open>PartitionedTime\<close> for the years 0 to 32767, the ones \<^verbatim>\<open>ToTimeT\<close> can read from the sixteen bits of \<^verbatim>\<open>years\<close>.
\<close>

lemma ToTimeT_civil:
  assumes s: "0 \<le> y" "y < 400" "0 \<le> doy" "doy < era_days (y + 1) - era_days y"
    and year: "0 \<le> era * 400 + y + (if 306 \<le> doy then 1 else 0)" "era * 400 + y + (if 306 \<le> doy then 1 else 0) < 32768"
    and p: "civil (era * 400 + y) doy = (pt_years p, pt_months p, pt_days p)"
  shows "pt_ToTimeT p = (era * 146097 + era_days y + doy - 719468) * 86400 + pt_seconds p + (pt_minutes p + pt_hours p * 60) * 60"
proof -
  let ?Y = "era * 400 + y" and ?m = "pt_months p" and ?d = "pt_days p"
  have small: "doy < 366" using s(4) by (simp add: era_days_of_year split: if_splits)
  have md: "month_day doy = (?m, ?d)" "pt_years p = ?Y + (if 306 \<le> doy then 1 else 0)" using p by (simp_all add: civil_def)
  note b = month_day [OF s(3) small md(1)]
  have Y: "- 1 \<le> ?Y" "?Y < 32768" using year by (simp_all split: if_splits)
  have y: "i16 (i16 (pt_years p) - (if ?m \<le> 2 then 1 else 0)) = ?Y"
  proof -
    have "i16 (pt_years p) = pt_years p" using year md(2) by (simp add: i16_def)
    moreover have "pt_years p - (if ?m \<le> 2 then 1 else 0) = ?Y" using md(2) b(6) by simp
    moreover have "i16 ?Y = ?Y" using Y by (simp add: i16_def)
    ultimately show ?thesis by simp
  qed
  have era: "int_div (if 0 \<le> ?Y then ?Y else ?Y - 399) 400 = era"
  proof -
    have "int_div (if 0 \<le> ?Y then ?Y else ?Y - 399) 400 = ?Y div 400" using int_div_floor [of ?Y 400] by simp
    also have "?Y div 400 = era" using s(1,2) by simp
    finally show ?thesis .
  qed
  have "0 \<le> 153 * (?m + (if 2 < ?m then - 3 else 9)) + 2" using b(2) by simp
  then have "int_div (153 * (?m + (if 2 < ?m then - 3 else 9)) + 2) 5 + ?d - 1 = doy"
    using b(1) by (simp add: day_of_year_def split: if_splits)
  then have doy: "u32 (int_div (153 * (?m + (if 2 < ?m then - 3 else 9)) + 2) 5 + ?d - 1) = doy" using s(3) small by (simp add: u32_def)
  have yoe: "u32 (?Y - era * 400) = y" using s by (simp add: u32_def)
  have "0 \<le> era_days y" "era_days y \<le> era_days 400" using s era_days_mono [of 0 y] era_days_mono [of y 400] by (simp_all add: era_days_def)
  then have doe: "u32 (y * 365 + y div 4 - y div 100 + doy) = era_days y + doy"
    using s small by (simp add: era_days_def u32_def)
  show ?thesis unfolding pt_ToTimeT_def Let_def y era yoe doy doe by simp
qed

lemma time_of_day: "0 \<le> s \<Longrightarrow> s mod 60 + (s div 60 mod 60 + s div 3600 * 60) * 60 = s" for s :: int
proof -
  have "s div 3600 = s div 60 div 60" using zdiv_zmult2_eq [of 60 s 60] by simp
  moreover have "s div 60 mod 60 + s div 60 div 60 * 60 = s div 60" by simp
  ultimately show ?thesis by simp
qed

lemma pt_make_ToTimeT:
  assumes "- 719528 * 86400 \<le> t" and "t < 11248738 * 86400"
  shows "pt_ToTimeT (pt_make t) = t
    \<and> 0 \<le> pt_seconds (pt_make t) \<and> pt_seconds (pt_make t) < 60 \<and> 0 \<le> pt_minutes (pt_make t) \<and> pt_minutes (pt_make t) < 60
    \<and> 0 \<le> pt_hours (pt_make t) \<and> pt_hours (pt_make t) < 24 \<and> 1 \<le> pt_months (pt_make t) \<and> pt_months (pt_make t) \<le> 12
    \<and> 1 \<le> pt_days (pt_make t) \<and> pt_days (pt_make t) \<le> 31 \<and> 0 \<le> pt_years (pt_make t) \<and> pt_years (pt_make t) < 32768"
proof -
  obtain z s where z: "t = z * 86400 + s" "0 \<le> s" "s < 86400" "- 719528 \<le> z" "z < 11248738"
    "pt_make t = (case pt_date (z + 719468) of (y, m, d) \<Rightarrow> \<lparr>pt_seconds = s mod 60, pt_minutes = s div 60 mod 60, pt_hours = s div 3600,
       pt_days = d, pt_months = m, pt_years = y\<rparr>)"
    by (rule pt_make_day [OF assms])
  obtain era y doy where c: "z + 719468 = era * 146097 + era_days y + doy" "0 \<le> y" "y < 400" "0 \<le> doy" "doy < era_days (y + 1) - era_days y"
    "0 \<le> era * 400 + y + (if 306 \<le> doy then 1 else 0)" "era * 400 + y + (if 306 \<le> doy then 1 else 0) < 32768"
    "pt_date (z + 719468) = civil (era * 400 + y) doy"
    by (rule pt_date_range [OF z(4,5)])
  have p: "civil (era * 400 + y) doy = (pt_years (pt_make t), pt_months (pt_make t), pt_days (pt_make t))"
      "pt_seconds (pt_make t) = s mod 60" "pt_minutes (pt_make t) = s div 60 mod 60" "pt_hours (pt_make t) = s div 3600"
    using z(6) c(8) by (simp_all split: prod.splits)
  have small: "doy < 366" using c(5) by (simp add: era_days_of_year split: if_splits)
  have md: "month_day doy = (pt_months (pt_make t), pt_days (pt_make t))" "pt_years (pt_make t) = era * 400 + y + (if 306 \<le> doy then 1 else 0)"
    using p(1) by (simp_all add: civil_def)
  have "era * 146097 + era_days y + doy - 719468 = z" using c(1) by simp
  then have "pt_ToTimeT (pt_make t) = z * 86400 + (s mod 60 + (s div 60 mod 60 + s div 3600 * 60) * 60)"
    using ToTimeT_civil [OF c(2-7) p(1)] p(2-4) by simp
  then have "pt_ToTimeT (pt_make t) = t" using time_of_day [OF z(2)] z(1) by simp
  moreover have "0 \<le> s div 3600" "s div 3600 < 24" using z(2,3) by linarith+
  ultimately show ?thesis using month_day [OF c(4) small md(1)] md(2) c(6,7) p(2-4) by simp
qed

text \<open>
  C35. Taking a time apart gives a valid date and time of day, and putting it together gives the same time back, for every
  second from the start of the year 0 to the end of the year 32767.
\<close>

theorem partitioned_time_roundtrip:
  assumes "- 719528 * 86400 \<le> t" and "t < 11248738 * 86400"
  shows "pt_ToTimeT (pt_make t) = t
    \<and> 0 \<le> pt_seconds (pt_make t) \<and> pt_seconds (pt_make t) < 60 \<and> 0 \<le> pt_minutes (pt_make t) \<and> pt_minutes (pt_make t) < 60
    \<and> 0 \<le> pt_hours (pt_make t) \<and> pt_hours (pt_make t) < 24 \<and> 1 \<le> pt_months (pt_make t) \<and> pt_months (pt_make t) \<le> 12
    \<and> 1 \<le> pt_days (pt_make t) \<and> pt_days (pt_make t) \<le> 31 \<and> 0 \<le> pt_years (pt_make t) \<and> pt_years (pt_make t) < 32768"
  by (rule pt_make_ToTimeT [OF assms])

theorem partitioned_time_roundtrip_witness:
  "pt_ToTimeT (pt_make 951827696) = 951827696 \<and> pt_years (pt_make 951827696) = 2000 \<and> pt_months (pt_make 951827696) = 2 \<and> pt_days (pt_make 951827696) = 29"
proof -
  have "pt_make 951827696 = \<lparr>pt_seconds = 56, pt_minutes = 34, pt_hours = 12, pt_days = 29, pt_months = 2, pt_years = 2000\<rparr>" by code_simp
  then show ?thesis using partitioned_time_roundtrip [of 951827696] by simp
qed

subsection \<open>One day after the other\<close>

lemma leap_year_era: "leap_year (era * 400 + y) = leap_year y"
proof -
  have "k dvd era * 400 + y \<longleftrightarrow> k dvd y" if "k dvd 400" for k :: int
    using that by (simp add: dvd_add_right_iff dvd_mult)
  from this [of 4] this [of 100] this [of 400] show ?thesis by (simp add: leap_year_def)
qed

lemma civil_next_doy:
  assumes "0 \<le> doy" and "doy + 1 < (if leap_year (Y + 1) then 366 else 365)"
  shows "civil Y (doy + 1) = next_day (civil Y doy)"
proof (cases "doy = 364")
  case True
  then have "leap_year (Y + 1)" using assms(2) by (simp split: if_splits)
  then show ?thesis using True by (simp add: civil_def month_day_def month_length_def)
next
  case False
  then have d: "doy \<in> set [0..363]" using assms by (simp split: if_splits)
  obtain m dd where md: "month_day doy = (m, dd)" by (cases "month_day doy")
  have t: "dd \<le> common_length m" "month_day (doy + 1) = (if dd < common_length m then (m, dd + 1) else if m < 12 then (m + 1, 1) else (1, 1))"
    using month_day_table(2) d md unfolding list_all_iff by fastforce+
  have b: "m \<le> 2 \<longleftrightarrow> 306 \<le> doy" "1 \<le> m" "m \<le> 12" using month_day(2,3,6) [OF assms(1) _ md] d by auto
  have b1: "fst (month_day (doy + 1)) \<le> 2 \<longleftrightarrow> 306 \<le> doy + 1"
    using month_day(6) [of "doy + 1" "fst (month_day (doy + 1))" "snd (month_day (doy + 1))"] assms(1) d by auto
  have feb: "dd < 28" if "m = 2"
  proof -
    have "day_of_year (m, dd) = doy" using month_day(1) [OF assms(1) _ md] d by auto
    then show ?thesis using that d by (simp add: day_of_year_def)
  qed
  have "(if dd < common_length m then (m, dd + 1) else if m < 12 then (m + 1, 1) else (1, 1)) = month_day (doy + 1)" using t(2) by simp
  moreover have "dd < month_length y m \<longleftrightarrow> dd < common_length m" for y
    using feb by (auto simp: month_length_def common_length_def)
  ultimately show ?thesis using b b1 md t(2) by (auto simp: civil_def split: if_splits)
qed

lemma civil_next_year:
  assumes "doy + 1 = (if leap_year (Y + 1) then 366 else 365)"
  shows "civil (Y + 1) 0 = next_day (civil Y doy)"
  using assms by (auto simp: civil_def month_day_def month_length_def split: if_splits)

lemma week_day:
  assumes "pt_ToTimeT p = t" and "- 719528 * 86400 \<le> t" and "t < 11248738 * 86400"
  shows "pt_WeekDay p = (t div 86400 + 4) mod 7"
proof -
  define day where "day = t div 86400"
  have "- 719528 \<le> day" "day < 11248738" using assms(2,3) unfolding day_def by linarith+
  then have d: "i32 (if 0 \<le> t then int_div t 86400 else int_div (t - 86399) 86400) = day"
    using int_div_floor [of t 86400] by (simp add: day_def i32_def)
  have neg: "int_mod a 7 + 6 = (a - 1) mod 7" if "a \<le> 0" for a
  proof -
    define n where "n = - a"
    have "6 - n mod 7 = (- n - 1) mod 7" by presburger
    moreover have "int_mod a 7 = - (n mod 7)"
      using that by (cases "a = 0") (simp_all add: n_def int_mod_def int_div_def minus_div_mult_eq_mod [symmetric])
    ultimately show ?thesis by (simp add: n_def)
  qed
  show ?thesis
    unfolding pt_WeekDay_def Let_def assms(1) d using neg [of "day + 5"] by (simp add: day_def [symmetric] add.commute)
qed

lemma pt_date_next:
  assumes "- 719528 \<le> z" and "z < 11248738"
  shows "pt_date (z + 1 + 719468) = next_day (pt_date (z + 719468))"
proof -
  obtain era y doy where c: "z + 719468 = era * 146097 + era_days y + doy" "0 \<le> y" "y < 400" "0 \<le> doy" "doy < era_days (y + 1) - era_days y"
    "0 \<le> era * 400 + y + (if 306 \<le> doy then 1 else 0)" "era * 400 + y + (if 306 \<le> doy then 1 else 0) < 32768"
    "pt_date (z + 719468) = civil (era * 400 + y) doy"
    by (rule pt_date_range [OF assms])
  let ?len = "if leap_year (y + 1) then 366 else 365 :: int"
  have len: "doy < ?len" "leap_year (era * 400 + y + 1) = leap_year (y + 1)"
    using c(5) leap_year_era [of era "y + 1"] by (simp_all add: era_days_of_year add.assoc)
  have "pt_date (z + 1 + 719468) = next_day (civil (era * 400 + y) doy)"
  proof (cases "doy + 1 < ?len")
    case True
    have "z + 1 + 719468 = era * 146097 + era_days y + (doy + 1)" "0 \<le> doy + 1" "doy + 1 < era_days (y + 1) - era_days y"
      using c(1,4) True by (simp_all add: era_days_of_year)
    from pt_date_civil [OF this(1) c(2,3) this(2,3)] civil_next_doy [OF c(4), of "era * 400 + y"]
    show ?thesis using True len(2) c(6,7) by (auto simp: civil_def u16_def split: if_splits)
  next
    case False
    then have last: "doy + 1 = ?len" using len(1) by simp
    have next_year: "civil (era * 400 + y + 1) 0 = next_day (civil (era * 400 + y) doy)"
      using civil_next_year [of doy "era * 400 + y"] last len(2) by simp
    have small: "0 \<le> era * 400 + y + 1" "era * 400 + y + 1 < 65536" using c(6,7) by (simp_all split: if_splits)
    have "pt_date (z + 1 + 719468) = (case civil (era * 400 + y + 1) 0 of (y, m, d) \<Rightarrow> (u16 y, m, d))"
    proof (cases "y = 399")
      case True
      have "z + 1 + 719468 = (era + 1) * 146097 + era_days 0 + 0" using c(1) last True by (simp add: era_days_def leap_year_def)
      from pt_date_civil [OF this] show ?thesis using True by (simp add: era_days_def algebra_simps)
    next
      case False
      have "z + 1 + 719468 = era * 146097 + era_days (y + 1) + 0" using c(1) last by (simp add: era_days_of_year)
      from pt_date_civil [OF this] c(2,3) False era_days_of_year [of "y + 1"] show ?thesis by (simp add: add.assoc)
    qed
    then show ?thesis using next_year small by (auto simp: civil_def u16_def)
  qed
  then show ?thesis unfolding c(8) .
qed

text \<open>
  C34. The dates follow the calendar: the first of January 1970 is day 0, and one day later the date is the next one by the rules of the
  calendar, with its month lengths and leap years, at the same time of day; and \<^verbatim>\<open>WeekDay\<close> counts the days from Sunday, the first
  of January 1970 being a Thursday.
\<close>

theorem partitioned_time_calendar:
  assumes "- 719528 * 86400 \<le> t" and "t + 86400 < 11248738 * 86400"
  defines "p \<equiv> pt_make t" and "q \<equiv> pt_make (t + 86400)"
  shows "(pt_years (pt_make 0), pt_months (pt_make 0), pt_days (pt_make 0)) = (1970, 1, 1)
    \<and> (pt_years q, pt_months q, pt_days q) = next_day (pt_years p, pt_months p, pt_days p)
    \<and> pt_seconds q = pt_seconds p \<and> pt_minutes q = pt_minutes p \<and> pt_hours q = pt_hours p
    \<and> pt_WeekDay p = (t div 86400 + 4) mod 7"
proof -
  have t: "t < 11248738 * 86400" "- 719528 * 86400 \<le> t + 86400" using assms(1,2) by simp_all
  obtain z s where z: "t = z * 86400 + s" "0 \<le> s" "s < 86400" "- 719528 \<le> z" "z < 11248738"
    "p = (case pt_date (z + 719468) of (y, m, d) \<Rightarrow> \<lparr>pt_seconds = s mod 60, pt_minutes = s div 60 mod 60, pt_hours = s div 3600,
       pt_days = d, pt_months = m, pt_years = y\<rparr>)"
    unfolding p_def by (rule pt_make_day [OF assms(1) t(1)])
  obtain z' s' where z': "t + 86400 = z' * 86400 + s'" "0 \<le> s'" "s' < 86400" "- 719528 \<le> z'" "z' < 11248738"
    "q = (case pt_date (z' + 719468) of (y, m, d) \<Rightarrow> \<lparr>pt_seconds = s' mod 60, pt_minutes = s' div 60 mod 60, pt_hours = s' div 3600,
       pt_days = d, pt_months = m, pt_years = y\<rparr>)"
    unfolding q_def by (rule pt_make_day [OF t(2) assms(2)])
  have zs: "z' = z + 1" using z(1-3) z'(1-3) by linarith
  moreover from this have "s' = s" using z(1) z'(1) by simp
  ultimately have zs: "z' = z + 1" "s' = s" by blast+
  have "pt_make 0 = \<lparr>pt_seconds = 0, pt_minutes = 0, pt_hours = 0, pt_days = 1, pt_months = 1, pt_years = 1970\<rparr>" by code_simp
  moreover have "(pt_years q, pt_months q, pt_days q) = pt_date (z + 1 + 719468)" "(pt_years p, pt_months p, pt_days p) = pt_date (z + 719468)"
    using z(6) z'(6) zs by (simp_all split: prod.splits)
  moreover have "pt_seconds q = pt_seconds p" "pt_minutes q = pt_minutes p" "pt_hours q = pt_hours p"
    using z(6) z'(6) zs by (simp_all split: prod.splits)
  moreover have "pt_WeekDay p = (t div 86400 + 4) mod 7"
    using pt_make_ToTimeT [OF assms(1) t(1)] week_day [OF _ assms(1) t(1), of p] by (simp add: p_def)
  ultimately show ?thesis using pt_date_next [OF z(4,5)] by simp
qed

theorem partitioned_time_calendar_witness:
  "(pt_years (pt_make 951868799), pt_months (pt_make 951868799), pt_days (pt_make 951868799)) = (2000, 2, 29)
    \<and> (pt_years (pt_make 951955199), pt_months (pt_make 951955199), pt_days (pt_make 951955199)) = (2000, 3, 1)
    \<and> pt_WeekDay (pt_make 951868799) = 2"
proof -
  have "pt_make 951868799 = \<lparr>pt_seconds = 59, pt_minutes = 59, pt_hours = 23, pt_days = 29, pt_months = 2, pt_years = 2000\<rparr>" by code_simp
  then show ?thesis using partitioned_time_calendar [of 951868799] by (simp add: month_length_def leap_year_def)
qed

end
