(* ===== verification/Timers.thy ===== *)
theory Timers
  imports Prelude
begin

section \<open>Timers and timer services\<close>

text \<open>
  \<^verbatim>\<open>infra::Timer\<close> with the timers derived from it and \<^verbatim>\<open>infra::TimerService\<close> (infra/timer). The timers of a service and the service
  are one state, because they call each other. A timer is a number; the virtual functions of the derived timers are case
  distinctions on its kind. Actions are values of a type parameter, and what they do is a function on the state.
  \<^verbatim>\<open>Now\<close> and \<^verbatim>\<open>Resolution\<close>, which the derived service provides, are fields. \<^verbatim>\<open>timerIterator\<close>, which \<^verbatim>\<open>UnregisterTimer\<close> moves on when it stands on the
  timer that is taken out, has no counterpart: the loops of \<^verbatim>\<open>Progressed\<close> that use it call nothing that takes a timer out, and \<^verbatim>\<open>Jumped\<close> only
  sets the times of timers that are armed. The list of all services by their numbers is not modelled.
\<close>

subsection \<open>Points in time\<close>

text \<open>
  Points in time and durations are 64 bit signed numbers; an overflow is undefined.
\<close>

definition time_max :: int where
  "time_max = 9223372036854775807"

definition timed :: "int \<Rightarrow> int result" where
  "timed t = (if - time_max - 1 \<le> t \<and> t \<le> time_max then Inr t else Inl UndefinedBehaviour)"

subsection \<open>The state\<close>

datatype 'a timer_kind =
    SingleShot
  | Repeating int
  | LimitedRepeating int nat
  | ClosingRepeating int int 'a
  | Alternating nat int int int 'a 'a

text \<open>
  The kinds carry the fields of the derived classes: \<^verbatim>\<open>triggerPeriod\<close>, \<^verbatim>\<open>howMany\<close> and \<^verbatim>\<open>closingAction\<close>; \<^verbatim>\<open>index\<close>, \<^verbatim>\<open>triggerStart\<close>, the
  two \<^verbatim>\<open>durations\<close> and the two \<^verbatim>\<open>scheduledTriggers\<close>.
\<close>

record 'a timer =
  tm_kind :: "'a timer_kind"
  tm_action :: "'a option"
  tm_nextTriggerTime :: int

record 'a timer_service =
  ts_timers :: "nat \<Rightarrow> 'a timer"
  ts_scheduledTimers :: "nat list"
  ts_nextTrigger :: int
  ts_holdUpdate :: bool
  ts_updateNeeded :: bool
  ts_Now :: int
  ts_Resolution :: int
  ts_announced :: int
  ts_fired :: "(nat \<times> int) list"

text \<open>
  \<open>ts_announced\<close> is the trigger time the derived service was last told of by \<^verbatim>\<open>NextTriggerChanged\<close>, \<open>ts_fired\<close> is history: the timers
  that were triggered, with their trigger times.
\<close>

definition ts_make :: "int \<Rightarrow> int \<Rightarrow> (nat \<Rightarrow> 'a timer_kind) \<Rightarrow> 'a timer_service" where
  "ts_make now resolution kinds =
     \<lparr>ts_timers = (\<lambda>i. \<lparr>tm_kind = kinds i, tm_action = None, tm_nextTriggerTime = 0\<rparr>), ts_scheduledTimers = [], ts_nextTrigger = time_max,
      ts_holdUpdate = False, ts_updateNeeded = False, ts_Now = now, ts_Resolution = resolution, ts_announced = time_max, ts_fired = []\<rparr>"

abbreviation ts_upd :: "nat \<Rightarrow> ('a timer \<Rightarrow> 'a timer) \<Rightarrow> 'a timer_service \<Rightarrow> 'a timer_service" where
  "ts_upd i f s \<equiv> s\<lparr>ts_timers := (ts_timers s)(i := f (ts_timers s i))\<rparr>"

definition tm_NextTrigger :: "nat \<Rightarrow> 'a timer_service \<Rightarrow> int" where
  "tm_NextTrigger i s = tm_nextTriggerTime (ts_timers s i)"

definition tm_Armed :: "nat \<Rightarrow> 'a timer_service \<Rightarrow> bool" where
  "tm_Armed i s \<longleftrightarrow> tm_action (ts_timers s i) \<noteq> None"

subsection \<open>TimerService\<close>

definition ts_NextTriggerChanged :: "'a timer_service \<Rightarrow> 'a timer_service" where
  "ts_NextTriggerChanged s = s\<lparr>ts_announced := ts_nextTrigger s\<rparr>"

definition ts_earliest_time :: "'a timer_service \<Rightarrow> int" where
  "ts_earliest_time s = foldl (\<lambda>t i. min t (tm_NextTrigger i s)) time_max (ts_scheduledTimers s)"

definition ts_ComputeNextTrigger :: "'a timer_service \<Rightarrow> 'a timer_service" where
  "ts_ComputeNextTrigger s =
     (if \<not> ts_holdUpdate s
      then let s1 = s\<lparr>ts_updateNeeded := False, ts_nextTrigger := ts_earliest_time s\<rparr>
           in if ts_nextTrigger s1 \<noteq> ts_nextTrigger s then ts_NextTriggerChanged s1 else s1
      else s\<lparr>ts_updateNeeded := True\<rparr>)"

definition ts_RegisterTimer :: "nat \<Rightarrow> 'a timer_service \<Rightarrow> 'a timer_service" where
  "ts_RegisterTimer i s =
     (let s1 = s\<lparr>ts_scheduledTimers := i # ts_scheduledTimers s\<rparr>
      in if tm_NextTrigger i s1 < ts_nextTrigger s1
         then ts_NextTriggerChanged (s1\<lparr>ts_nextTrigger := tm_NextTrigger i s1\<rparr>) else s1)"

definition ts_UnregisterTimer :: "nat \<Rightarrow> int \<Rightarrow> 'a timer_service \<Rightarrow> 'a timer_service" where
  "ts_UnregisterTimer i oldTriggerTime s =
     (let s1 = s\<lparr>ts_scheduledTimers := remove1 i (ts_scheduledTimers s)\<rparr>
      in if oldTriggerTime = ts_nextTrigger s1 then ts_ComputeNextTrigger s1 else s1)"

definition ts_UpdateTriggerTime :: "nat \<Rightarrow> int \<Rightarrow> 'a timer_service \<Rightarrow> 'a timer_service" where
  "ts_UpdateTriggerTime i oldTriggerTime s =
     (if ts_nextTrigger s = oldTriggerTime \<or> tm_NextTrigger i s < ts_nextTrigger s then ts_ComputeNextTrigger s else s)"

subsection \<open>Timer\<close>

definition tm_Cancel :: "nat \<Rightarrow> 'a timer_service \<Rightarrow> 'a timer_service" where
  "tm_Cancel i s =
     (let s1 = (if tm_Armed i s then ts_UnregisterTimer i (tm_NextTrigger i s) s else s)
      in ts_upd i (\<lambda>t. t\<lparr>tm_nextTriggerTime := 0, tm_action := None\<rparr>) s1)"

definition tm_SetNextTriggerTime :: "nat \<Rightarrow> int \<Rightarrow> 'a \<Rightarrow> 'a timer_service \<Rightarrow> 'a timer_service" where
  "tm_SetNextTriggerTime i time a s =
     (let oldTriggerTime = tm_NextTrigger i s;
          s1 = ts_upd i (\<lambda>t. t\<lparr>tm_nextTriggerTime := time\<rparr>) s;
          s2 = (if \<not> tm_Armed i s1 then ts_RegisterTimer i s1 else ts_UpdateTriggerTime i oldTriggerTime s1)
      in ts_upd i (\<lambda>t. t\<lparr>tm_action := Some a\<rparr>) s2)"

text \<open>\<^verbatim>\<open>Action\<close>, with the functions that override it.\<close>

definition tm_Action :: "nat \<Rightarrow> 'a timer_service \<Rightarrow> 'a option" where
  "tm_Action i s =
     (let t = ts_timers s i
      in case tm_kind t of
           ClosingRepeating period howMany closingAction \<Rightarrow> if 0 < howMany then tm_action t else Some closingAction
         | Alternating index triggerStart d0 d1 a0 a1 \<Rightarrow> Some (if index = 0 then a0 else a1)
         | _ \<Rightarrow> tm_action t)"

text \<open>A function object that is empty may not be set as an action.\<close>

definition tm_with_Action :: "nat \<Rightarrow> 'a timer_service \<Rightarrow> ('a \<Rightarrow> 'b result) \<Rightarrow> 'b result" where
  "tm_with_Action i s f = (case tm_Action i s of None \<Rightarrow> Inl AssertFailed | Some a \<Rightarrow> f a)"

definition tm_Jumped :: "int \<Rightarrow> int \<Rightarrow> nat \<Rightarrow> 'a timer_service \<Rightarrow> 'a timer_service result" where
  "tm_Jumped t0 t1 i s = bindR (timed (t1 - t0)) (\<lambda>d. bindR (timed (tm_NextTrigger i s + d))
     (\<lambda>time. tm_with_Action i s (\<lambda>a. Inr (tm_SetNextTriggerTime i time a s))))"

subsection \<open>The derived timers\<close>

definition tss_Start_at :: "nat \<Rightarrow> int \<Rightarrow> 'a \<Rightarrow> 'a timer_service \<Rightarrow> 'a timer_service result" where
  "tss_Start_at i time a s = bindR (timed (time_max - ts_Resolution s))
     (\<lambda>latest. if time < latest then bindR (timed (time + ts_Resolution s)) (\<lambda>t. Inr (tm_SetNextTriggerTime i t a s))
               else Inr (tm_Cancel i s))"

definition tss_Start :: "nat \<Rightarrow> int \<Rightarrow> 'a \<Rightarrow> 'a timer_service \<Rightarrow> 'a timer_service result" where
  "tss_Start i duration a s = bindR (timed (ts_Now s + ts_Resolution s)) (\<lambda>first. bindR (timed (time_max - duration))
     (\<lambda>latest. if first < latest
       then bindR (timed (ts_Now s + duration)) (\<lambda>t. bindR (timed (t + ts_Resolution s)) (\<lambda>t. Inr (tm_SetNextTriggerTime i t a s)))
       else Inr s))"

definition tr_TriggerPeriod :: "nat \<Rightarrow> 'a timer_service \<Rightarrow> int" where
  "tr_TriggerPeriod i s =
     (case tm_kind (ts_timers s i) of
        Repeating period \<Rightarrow> period
      | LimitedRepeating period howMany \<Rightarrow> period
      | ClosingRepeating period howMany closingAction \<Rightarrow> period
      | _ \<Rightarrow> 0)"

definition tr_StartTimer :: "(int \<Rightarrow> 'a timer_kind) \<Rightarrow> nat \<Rightarrow> int \<Rightarrow> 'a \<Rightarrow> 'a timer_service \<Rightarrow> 'a timer_service result" where
  "tr_StartTimer kind i duration a s =
     (let s1 = ts_upd i (\<lambda>t. t\<lparr>tm_kind := kind duration\<rparr>) s
      in bindR (timed (ts_Now s1 + duration)) (\<lambda>t. bindR (timed (t + ts_Resolution s1)) (\<lambda>t. Inr (tm_SetNextTriggerTime i t a s1))))"

definition tr_Start :: "nat \<Rightarrow> int \<Rightarrow> 'a \<Rightarrow> 'a timer_service \<Rightarrow> 'a timer_service result" where
  "tr_Start = tr_StartTimer Repeating"

definition tr_StartImmediately :: "('a \<Rightarrow> 'a timer_service \<Rightarrow> 'a timer_service result) \<Rightarrow> nat \<Rightarrow> int \<Rightarrow> 'a \<Rightarrow> 'a timer_service \<Rightarrow> 'a timer_service result" where
  "tr_StartImmediately perform i duration a s = bindR (tr_Start i duration a s) (perform a)"

definition tlr_Start :: "nat \<Rightarrow> nat \<Rightarrow> int \<Rightarrow> 'a \<Rightarrow> 'a timer_service \<Rightarrow> 'a timer_service result" where
  "tlr_Start i howMany duration a s =
     (if 0 < howMany then tr_StartTimer (\<lambda>period. LimitedRepeating period howMany) i duration a s
      else Inr (tm_Cancel i (ts_upd i (\<lambda>t. t\<lparr>tm_kind := LimitedRepeating (tr_TriggerPeriod i s) howMany\<rparr>) s)))"

definition tlr_StartImmediately :: "('a \<Rightarrow> 'a timer_service \<Rightarrow> 'a timer_service result) \<Rightarrow> nat \<Rightarrow> nat \<Rightarrow> int \<Rightarrow> 'a \<Rightarrow> 'a timer_service \<Rightarrow> 'a timer_service result" where
  "tlr_StartImmediately perform i howMany duration a s =
     bindR (tlr_Start i (if 0 < howMany then howMany - 1 else 0) duration a s)
       (\<lambda>s1. if 0 < howMany then perform a s1 else Inr s1)"

definition tcr_Start :: "('a \<Rightarrow> 'a timer_service \<Rightarrow> 'a timer_service result) \<Rightarrow> nat \<Rightarrow> int \<Rightarrow> int \<Rightarrow> 'a \<Rightarrow> 'a \<Rightarrow> 'a timer_service \<Rightarrow> 'a timer_service result" where
  "tcr_Start perform i howMany duration a closingAction s =
     (if 0 < howMany then tr_StartTimer (\<lambda>period. ClosingRepeating period howMany closingAction) i duration a s
      else perform closingAction (tm_Cancel i (ts_upd i (\<lambda>t. t\<lparr>tm_kind := ClosingRepeating (tr_TriggerPeriod i s) howMany closingAction\<rparr>) s)))"

text \<open>\<^verbatim>\<open>ComputeNextTriggerTime\<close> of each kind; \<open>a0\<close> stands for the dummy action of an alternating timer.\<close>

definition tr_ComputeNextTriggerTime :: "int \<Rightarrow> nat \<Rightarrow> 'a timer_service \<Rightarrow> 'a timer_service result" where
  "tr_ComputeNextTriggerTime period i s =
     (let now = max (ts_Now s) (tm_NextTrigger i s)
      in bindR (timed (now - tm_NextTrigger i s)) (\<lambda>late.
         if period = 0 then Inl UndefinedBehaviour
         else bindR (timed (now - int_mod late \<bar>period\<bar>)) (\<lambda>t. bindR (timed (t + period))
           (\<lambda>t. tm_with_Action i s (\<lambda>a. Inr (tm_SetNextTriggerTime i t a s))))))"

definition ta_ComputeNextTriggerTime :: "nat \<Rightarrow> 'a timer_service \<Rightarrow> 'a timer_service result" where
  "ta_ComputeNextTriggerTime i s =
     (case tm_kind (ts_timers s i) of
        Alternating index triggerStart d0 d1 a0 a1 \<Rightarrow>
          (let index1 = (index + 1) mod 2
           in bindR (timed (triggerStart + (if index1 = 0 then d0 else d1)))
             (\<lambda>t. Inr (tm_SetNextTriggerTime i t a0 (ts_upd i (\<lambda>tm. tm\<lparr>tm_kind := Alternating index1 t d0 d1 a0 a1\<rparr>) s))))
      | _ \<Rightarrow> Inl UndefinedBehaviour)"

definition ta_Start :: "nat \<Rightarrow> int \<Rightarrow> 'a \<Rightarrow> int \<Rightarrow> 'a \<Rightarrow> 'a timer_service \<Rightarrow> 'a timer_service result" where
  "ta_Start i d0 a0 d1 a1 s = bindR (timed (ts_Now s + ts_Resolution s))
     (\<lambda>t. ta_ComputeNextTriggerTime i (ts_upd i (\<lambda>tm. tm\<lparr>tm_kind := Alternating 1 t d0 d1 a0 a1\<rparr>) s))"

definition tm_ComputeNextTriggerTime :: "nat \<Rightarrow> 'a timer_service \<Rightarrow> 'a timer_service result" where
  "tm_ComputeNextTriggerTime i s =
     (case tm_kind (ts_timers s i) of
        SingleShot \<Rightarrow> Inr (tm_Cancel i s)
      | Repeating period \<Rightarrow> tr_ComputeNextTriggerTime period i s
      | LimitedRepeating period howMany \<Rightarrow>
          (let n = (if howMany = 0 then 2 ^ 32 - 1 else howMany - 1); s1 = ts_upd i (\<lambda>t. t\<lparr>tm_kind := LimitedRepeating period n\<rparr>) s
           in if 0 < n then tr_ComputeNextTriggerTime period i s1 else Inr (tm_Cancel i s1))
      | ClosingRepeating period howMany closingAction \<Rightarrow>
          (let s1 = ts_upd i (\<lambda>t. t\<lparr>tm_kind := ClosingRepeating period (howMany - 1) closingAction\<rparr>) s
           in if 0 \<le> howMany - 1 then tr_ComputeNextTriggerTime period i s1 else Inr (tm_Cancel i s1))
      | Alternating _ _ _ _ _ _ \<Rightarrow> ta_ComputeNextTriggerTime i s)"

subsection \<open>The passing of time\<close>

text \<open>
  One pass over the timers: the earliest of those that are due, and whether there is more than one. The loop ends when there is no more,
  which an action that starts timers again and again can prevent; so the loop is given fuel.
\<close>

definition ts_due_step :: "int \<Rightarrow> 'a timer_service \<Rightarrow> nat option \<times> bool \<Rightarrow> nat \<Rightarrow> nat option \<times> bool" where
  "ts_due_step time s = (\<lambda>(earliest, again) i.
     if tm_NextTrigger i s \<le> time
     then case earliest of None \<Rightarrow> (Some i, again)
        | Some e \<Rightarrow> (if tm_NextTrigger i s < tm_NextTrigger e s then Some i else Some e, True)
     else (earliest, again))"

definition ts_find_due :: "int \<Rightarrow> 'a timer_service \<Rightarrow> nat option \<times> bool" where
  "ts_find_due time s = foldl (ts_due_step time s) (None, False) (ts_scheduledTimers s)"

definition ts_trigger :: "('a \<Rightarrow> 'a timer_service \<Rightarrow> 'a timer_service result) \<Rightarrow> nat \<Rightarrow> 'a timer_service \<Rightarrow> 'a timer_service result" where
  "ts_trigger perform i s =
     (case tm_Action i s of
        None \<Rightarrow> Inl UndefinedBehaviour
      | Some a \<Rightarrow> bindR (tm_ComputeNextTriggerTime i (s\<lparr>ts_fired := ts_fired s @ [(i, tm_NextTrigger i s)]\<rparr>)) (perform a))"

primrec ts_Progressed_loop :: "nat \<Rightarrow> ('a \<Rightarrow> 'a timer_service \<Rightarrow> 'a timer_service result) \<Rightarrow> int \<Rightarrow> 'a timer_service \<Rightarrow> 'a timer_service result" where
  "ts_Progressed_loop 0 perform time s = Inl OutOfFuel"
| "ts_Progressed_loop (Suc fuel) perform time s =
     (case ts_find_due time s of
        (None, again) \<Rightarrow> Inr s
      | (Some i, again) \<Rightarrow> bindR (ts_trigger perform i s)
          (\<lambda>s1. if again then ts_Progressed_loop fuel perform time s1 else Inr s1))"

definition ts_released :: "'a timer_service \<Rightarrow> 'a timer_service" where
  "ts_released s = (let s1 = s\<lparr>ts_holdUpdate := False\<rparr> in if ts_updateNeeded s1 then ts_ComputeNextTrigger s1 else s1)"

definition ts_Progressed :: "nat \<Rightarrow> ('a \<Rightarrow> 'a timer_service \<Rightarrow> 'a timer_service result) \<Rightarrow> int \<Rightarrow> 'a timer_service \<Rightarrow> 'a timer_service result" where
  "ts_Progressed fuel perform time s =
     bindR (ts_Progressed_loop fuel perform time (s\<lparr>ts_holdUpdate := True\<rparr>)) (\<lambda>s1. Inr (ts_released s1))"

primrec ts_jump_all :: "int \<Rightarrow> int \<Rightarrow> nat list \<Rightarrow> 'a timer_service \<Rightarrow> 'a timer_service result" where
  "ts_jump_all t0 t1 [] s = Inr s"
| "ts_jump_all t0 t1 (i # is) s = bindR (tm_Jumped t0 t1 i s) (ts_jump_all t0 t1 is)"

definition ts_Jumped :: "int \<Rightarrow> int \<Rightarrow> 'a timer_service \<Rightarrow> 'a timer_service result" where
  "ts_Jumped t0 t1 s =
     bindR (ts_jump_all t0 t1 (ts_scheduledTimers s) (s\<lparr>ts_holdUpdate := True\<rparr>)) (\<lambda>s1. Inr (ts_released s1))"

subsection \<open>The next trigger is the earliest\<close>

lemma ts_earliest_Min: "ts_earliest_time s = Min (insert time_max ((\<lambda>i. tm_NextTrigger i s) ` set (ts_scheduledTimers s)))"
proof -
  have "foldl (\<lambda>t i. min t (f i)) a xs = Min (insert a (f ` set xs))" for f :: "nat \<Rightarrow> int" and a xs
  proof (induction xs arbitrary: a)
    case (Cons x xs)
    then show ?case by (cases "set xs = {}") (simp_all add: insert_commute [of a] min.commute min.left_commute)
  qed simp
  then show ?thesis by (simp add: ts_earliest_time_def)
qed

definition ts_ok :: "'a timer_service \<Rightarrow> bool" where
  "ts_ok s \<longleftrightarrow> distinct (ts_scheduledTimers s) \<and> (\<forall>i. i \<in> set (ts_scheduledTimers s) \<longleftrightarrow> tm_Armed i s)
     \<and> ts_announced s = ts_nextTrigger s \<and> (ts_updateNeeded s \<longrightarrow> ts_holdUpdate s)
     \<and> (\<not> ts_updateNeeded s \<longrightarrow> ts_nextTrigger s = ts_earliest_time s)"

lemma ts_earliest_cong:
  assumes "ts_scheduledTimers s' = ts_scheduledTimers s" and "\<And>i. i \<in> set (ts_scheduledTimers s) \<Longrightarrow> tm_NextTrigger i s' = tm_NextTrigger i s"
  shows "ts_earliest_time s' = ts_earliest_time s"
proof -
  have "(\<lambda>i. tm_NextTrigger i s') ` set (ts_scheduledTimers s) = (\<lambda>i. tm_NextTrigger i s) ` set (ts_scheduledTimers s)"
    using assms(2) by (rule image_cong [OF refl])
  then show ?thesis unfolding ts_earliest_Min assms(1) by simp
qed

lemma ts_ComputeNextTrigger_fields [simp]:
  "ts_timers (ts_ComputeNextTrigger s) = ts_timers s" "ts_scheduledTimers (ts_ComputeNextTrigger s) = ts_scheduledTimers s"
  "ts_holdUpdate (ts_ComputeNextTrigger s) = ts_holdUpdate s" "ts_Now (ts_ComputeNextTrigger s) = ts_Now s"
  "ts_fired (ts_ComputeNextTrigger s) = ts_fired s" "ts_Resolution (ts_ComputeNextTrigger s) = ts_Resolution s"
  by (simp_all add: ts_ComputeNextTrigger_def ts_NextTriggerChanged_def Let_def)

lemma tm_NextTrigger_cong: "ts_timers s' i = ts_timers s i \<Longrightarrow> tm_NextTrigger i s' = tm_NextTrigger i s"
  by (simp add: tm_NextTrigger_def)

lemma ts_ComputeNextTrigger_ok:
  assumes "distinct (ts_scheduledTimers s)" and "\<forall>i. i \<in> set (ts_scheduledTimers s) \<longleftrightarrow> tm_Armed i s" and "ts_announced s = ts_nextTrigger s"
  shows "ts_ok (ts_ComputeNextTrigger s)"
proof -
  let ?s = "ts_ComputeNextTrigger s"
  have armed: "tm_Armed i ?s = tm_Armed i s" for i by (simp add: tm_Armed_def)
  have e: "ts_earliest_time ?s = ts_earliest_time s" by (rule ts_earliest_cong) (simp_all add: tm_NextTrigger_def)
  have "ts_announced ?s = ts_nextTrigger ?s" "ts_updateNeeded ?s = ts_holdUpdate ?s" "\<not> ts_holdUpdate s \<Longrightarrow> ts_nextTrigger ?s = ts_earliest_time s"
    using assms(3) by (auto simp: ts_ComputeNextTrigger_def ts_NextTriggerChanged_def Let_def)
  then show ?thesis using assms(1,2) armed e by (simp add: ts_ok_def)
qed

text \<open>The two ways a timer changes: it is taken out, or its time is set.\<close>

lemma tm_Cancel_fields:
  shows "ts_timers (tm_Cancel i s) = (ts_timers s)(i := (ts_timers s i)\<lparr>tm_nextTriggerTime := 0, tm_action := None\<rparr>)"
    and "ts_scheduledTimers (tm_Cancel i s) = (if tm_Armed i s then remove1 i (ts_scheduledTimers s) else ts_scheduledTimers s)"
    and "ts_holdUpdate (tm_Cancel i s) = ts_holdUpdate s" "ts_Now (tm_Cancel i s) = ts_Now s" "ts_fired (tm_Cancel i s) = ts_fired s"
    and "ts_Resolution (tm_Cancel i s) = ts_Resolution s"
  by (simp_all add: tm_Cancel_def Let_def ts_UnregisterTimer_def)

lemma ts_earliest_remove:
  assumes d: "distinct (ts_scheduledTimers s)" "i \<in> set (ts_scheduledTimers s)" and ne: "ts_earliest_time s \<noteq> tm_NextTrigger i s"
  shows "ts_earliest_time (s\<lparr>ts_scheduledTimers := remove1 i (ts_scheduledTimers s)\<rparr>) = ts_earliest_time s"
proof -
  let ?f = "\<lambda>i. tm_NextTrigger i s"
  let ?A = "insert time_max (?f ` (set (ts_scheduledTimers s) - {i}))"
  have f: "(\<lambda>j. tm_NextTrigger j (s\<lparr>ts_scheduledTimers := l\<rparr>)) = ?f" for l by (simp add: tm_NextTrigger_def fun_eq_iff)
  have all: "insert time_max (?f ` set (ts_scheduledTimers s)) = insert (?f i) ?A" using d(2) by auto
  have "Min (insert (?f i) ?A) = min (?f i) (Min ?A)" by simp
  then have "Min ?A = ts_earliest_time s" using ne unfolding ts_earliest_Min all by (simp add: min_def split: if_splits)
  then show ?thesis unfolding ts_earliest_Min f using d(1) by simp
qed

lemma tm_Cancel_ok:
  assumes s: "ts_ok s"
  shows "ts_ok (tm_Cancel i s)"
proof (cases "tm_Armed i s")
  case False
  let ?s = "tm_Cancel i s"
  have "tm_Armed j ?s = tm_Armed j s" for j using False by (simp add: tm_Armed_def tm_Cancel_fields)
  moreover have i: "i \<notin> set (ts_scheduledTimers s)" using s False by (simp add: ts_ok_def)
  then have "ts_earliest_time ?s = ts_earliest_time s"
    using False by (intro ts_earliest_cong) (auto simp: tm_Cancel_fields tm_NextTrigger_def)
  moreover have "ts_announced ?s = ts_announced s" "ts_nextTrigger ?s = ts_nextTrigger s" "ts_updateNeeded ?s = ts_updateNeeded s"
    using False by (simp_all add: tm_Cancel_def)
  ultimately show ?thesis using s False by (simp add: ts_ok_def tm_Cancel_fields)
next
  case True
  define s1 where "s1 = s\<lparr>ts_scheduledTimers := remove1 i (ts_scheduledTimers s)\<rparr>"
  define s2 where "s2 = (if tm_NextTrigger i s = ts_nextTrigger s1 then ts_ComputeNextTrigger s1 else s1)"
  let ?s = "tm_Cancel i s"
  have eq: "?s = ts_upd i (\<lambda>t. t\<lparr>tm_nextTriggerTime := 0, tm_action := None\<rparr>) s2"
    using True by (simp add: tm_Cancel_def ts_UnregisterTimer_def Let_def s2_def s1_def)
  have d: "distinct (ts_scheduledTimers s)" "i \<in> set (ts_scheduledTimers s)" using s True by (simp_all add: ts_ok_def)
  have sched: "ts_scheduledTimers s2 = remove1 i (ts_scheduledTimers s)" "ts_timers s2 = ts_timers s" "ts_holdUpdate s2 = ts_holdUpdate s"
    by (simp_all add: s2_def s1_def)
  have s2: "ts_announced s2 = ts_nextTrigger s2" "ts_updateNeeded s2 \<longrightarrow> ts_holdUpdate s2" "\<not> ts_updateNeeded s2 \<longrightarrow> ts_nextTrigger s2 = ts_earliest_time s2"
  proof -
    have "ts_announced s2 = ts_nextTrigger s2 \<and> (ts_updateNeeded s2 \<longrightarrow> ts_holdUpdate s2) \<and> (\<not> ts_updateNeeded s2 \<longrightarrow> ts_nextTrigger s2 = ts_earliest_time s2)"
    proof (cases "tm_NextTrigger i s = ts_nextTrigger s")
      case True
      have e: "ts_earliest_time (ts_ComputeNextTrigger s1) = ts_earliest_time s1" by (rule ts_earliest_cong) (simp_all add: tm_NextTrigger_def)
      then show ?thesis using True s
        by (auto simp: s2_def s1_def ts_ok_def ts_ComputeNextTrigger_def ts_NextTriggerChanged_def Let_def)
    next
      case False
      then have "ts_earliest_time s1 = ts_earliest_time s" if "\<not> ts_updateNeeded s"
        using ts_earliest_remove [OF d] s that by (auto simp: s1_def ts_ok_def)
      moreover have "s2 = s1" using False by (simp add: s2_def s1_def)
      ultimately show ?thesis using s by (auto simp: s1_def ts_ok_def)
    qed
    then show "ts_announced s2 = ts_nextTrigger s2" "ts_updateNeeded s2 \<longrightarrow> ts_holdUpdate s2"
      "\<not> ts_updateNeeded s2 \<longrightarrow> ts_nextTrigger s2 = ts_earliest_time s2" by blast+
  qed
  have e: "ts_earliest_time ?s = ts_earliest_time s2"
    unfolding eq by (rule ts_earliest_cong) (use d sched in \<open>auto simp: tm_NextTrigger_def\<close>)
  have "tm_Armed j ?s \<longleftrightarrow> j \<noteq> i \<and> tm_Armed j s" for j by (simp add: tm_Armed_def tm_Cancel_fields)
  then show ?thesis using s s2 e d sched True by (auto simp: ts_ok_def eq)
qed

lemma tm_Set_fields:
  shows "ts_timers (tm_SetNextTriggerTime i t a s) = (ts_timers s)(i := (ts_timers s i)\<lparr>tm_nextTriggerTime := t, tm_action := Some a\<rparr>)"
    and "ts_scheduledTimers (tm_SetNextTriggerTime i t a s) = (if tm_Armed i s then ts_scheduledTimers s else i # ts_scheduledTimers s)"
    and "ts_holdUpdate (tm_SetNextTriggerTime i t a s) = ts_holdUpdate s" "ts_Now (tm_SetNextTriggerTime i t a s) = ts_Now s"
    and "ts_fired (tm_SetNextTriggerTime i t a s) = ts_fired s" "ts_Resolution (tm_SetNextTriggerTime i t a s) = ts_Resolution s"
  by (simp_all add: tm_SetNextTriggerTime_def Let_def tm_Armed_def ts_RegisterTimer_def ts_UpdateTriggerTime_def ts_NextTriggerChanged_def)

lemma ts_earliest_set:
  assumes d: "distinct (ts_scheduledTimers s)" and s': "set (ts_scheduledTimers s') = insert i (set (ts_scheduledTimers s))"
    and same: "\<And>j. j \<noteq> i \<Longrightarrow> tm_NextTrigger j s' = tm_NextTrigger j s"
    and old: "i \<in> set (ts_scheduledTimers s) \<Longrightarrow> ts_earliest_time s \<noteq> tm_NextTrigger i s"
  shows "ts_earliest_time s' = min (tm_NextTrigger i s') (ts_earliest_time s)"
proof -
  let ?B = "(\<lambda>j. tm_NextTrigger j s) ` (set (ts_scheduledTimers s) - {i})"
  have "(\<lambda>j. tm_NextTrigger j s') ` (set (ts_scheduledTimers s) - {i}) = ?B" using same by (intro image_cong) auto
  then have "insert time_max ((\<lambda>j. tm_NextTrigger j s') ` set (ts_scheduledTimers s')) = insert (tm_NextTrigger i s') (insert time_max ?B)"
    unfolding s' by (auto simp: image_def)
  then have new: "ts_earliest_time s' = min (tm_NextTrigger i s') (Min (insert time_max ?B))" unfolding ts_earliest_Min by simp
  have "ts_earliest_time s = Min (insert time_max ?B)"
  proof (cases "i \<in> set (ts_scheduledTimers s)")
    case True
    then have "insert time_max ((\<lambda>j. tm_NextTrigger j s) ` set (ts_scheduledTimers s)) = insert (tm_NextTrigger i s) (insert time_max ?B)" by auto
    then have "ts_earliest_time s = min (tm_NextTrigger i s) (Min (insert time_max ?B))" unfolding ts_earliest_Min by simp
    then show ?thesis using old [OF True] by (simp add: min_def split: if_splits)
  next
    case False
    then show ?thesis unfolding ts_earliest_Min by simp
  qed
  then show ?thesis using new by simp
qed

lemma tm_Set_ok:
  assumes s: "ts_ok s"
  shows "ts_ok (tm_SetNextTriggerTime i t a s)"
proof -
  let ?s = "tm_SetNextTriggerTime i t a s"
  define s1 where "s1 = ts_upd i (\<lambda>tm. tm\<lparr>tm_nextTriggerTime := t\<rparr>) s"
  define s2 where "s2 = (if \<not> tm_Armed i s1 then ts_RegisterTimer i s1 else ts_UpdateTriggerTime i (tm_NextTrigger i s) s1)"
  have eq: "?s = ts_upd i (\<lambda>tm. tm\<lparr>tm_action := Some a\<rparr>) s2" by (simp add: tm_SetNextTriggerTime_def Let_def s2_def s1_def)
  have armed1: "tm_Armed i s1 = tm_Armed i s" by (simp add: tm_Armed_def s1_def)
  have next1: "tm_NextTrigger i s1 = t" by (simp add: tm_NextTrigger_def s1_def)
  have d: "distinct (ts_scheduledTimers s)" "i \<in> set (ts_scheduledTimers s) \<longleftrightarrow> tm_Armed i s" using s by (simp_all add: ts_ok_def)
  have f: "ts_scheduledTimers ?s = (if tm_Armed i s then ts_scheduledTimers s else i # ts_scheduledTimers s)"
      "tm_NextTrigger i ?s = t" "\<And>j. j \<noteq> i \<Longrightarrow> tm_NextTrigger j ?s = tm_NextTrigger j s" "\<And>j. tm_Armed j ?s \<longleftrightarrow> j = i \<or> tm_Armed j s"
    by (auto simp: tm_Set_fields tm_NextTrigger_def tm_Armed_def)
  have min: "ts_earliest_time ?s = min t (ts_earliest_time s)" if "tm_Armed i s \<Longrightarrow> ts_earliest_time s \<noteq> tm_NextTrigger i s"
    using ts_earliest_set [of s ?s i] d f that by (auto simp: insert_absorb)
  have e2: "ts_earliest_time ?s = ts_earliest_time s2"
    unfolding eq by (rule ts_earliest_cong) (auto simp: tm_NextTrigger_def)
  have e1: "ts_earliest_time s2 = ts_earliest_time s1" if "tm_Armed i s"
    using that armed1 by (intro ts_earliest_cong) (auto simp: s2_def ts_UpdateTriggerTime_def tm_NextTrigger_def)
  have "ts_announced s2 = ts_nextTrigger s2 \<and> (ts_updateNeeded s2 \<longrightarrow> ts_holdUpdate s2) \<and> (\<not> ts_updateNeeded s2 \<longrightarrow> ts_nextTrigger s2 = ts_earliest_time s2)"
  proof (cases "tm_Armed i s")
    case False
    then have "s2 = ts_RegisterTimer i s1" using armed1 by (simp add: s2_def)
    then show ?thesis using s min [OF _] False e2
      by (auto simp: ts_RegisterTimer_def Let_def ts_NextTriggerChanged_def s1_def tm_NextTrigger_def ts_ok_def)
  next
    case True
    then have s2: "s2 = ts_UpdateTriggerTime i (tm_NextTrigger i s) s1" using armed1 by (simp add: s2_def)
    have s1f: "ts_nextTrigger s1 = ts_nextTrigger s" "ts_announced s1 = ts_announced s" "ts_updateNeeded s1 = ts_updateNeeded s" "ts_holdUpdate s1 = ts_holdUpdate s"
      by (simp_all add: s1_def)
    show ?thesis
    proof (cases "ts_nextTrigger s = tm_NextTrigger i s \<or> t < ts_nextTrigger s")
      case c: True
      then have "s2 = ts_ComputeNextTrigger s1" using s2 next1 s1f by (simp add: ts_UpdateTriggerTime_def)
      then show ?thesis using e1 [OF True] s s1f by (auto simp: ts_ComputeNextTrigger_def ts_NextTriggerChanged_def Let_def ts_ok_def)
    next
      case c: False
      then have "s2 = s1" using s2 next1 s1f by (simp add: ts_UpdateTriggerTime_def)
      moreover have "ts_earliest_time s1 = ts_nextTrigger s" if "\<not> ts_updateNeeded s"
        using min c s that e1 [OF True] e2 by (auto simp: ts_ok_def)
      ultimately show ?thesis using s s1f by (auto simp: ts_ok_def)
    qed
  qed
  then show ?thesis unfolding ts_ok_def e2 f(1,4) using d s by (auto simp: eq ts_ok_def)
qed

lemma ts_kind_ok: "ts_ok s \<Longrightarrow> ts_ok (ts_upd i (\<lambda>t. t\<lparr>tm_kind := k\<rparr>) s)"
proof -
  assume s: "ts_ok s"
  let ?s = "ts_upd i (\<lambda>t. t\<lparr>tm_kind := k\<rparr>) s"
  have "ts_earliest_time ?s = ts_earliest_time s" by (rule ts_earliest_cong) (auto simp: tm_NextTrigger_def)
  moreover have "tm_Armed j ?s = tm_Armed j s" for j by (simp add: tm_Armed_def)
  ultimately show ?thesis using s by (simp add: ts_ok_def)
qed

text \<open>\<open>ts_keeps\<close>: a call keeps the service in order and does not end the holding of updates.\<close>

definition ts_keeps :: "('a timer_service \<Rightarrow> 'a timer_service result) \<Rightarrow> bool" where
  "ts_keeps f \<longleftrightarrow> (\<forall>s s'. ts_ok s \<longrightarrow> f s = Inr s' \<longrightarrow> ts_ok s' \<and> ts_holdUpdate s' = ts_holdUpdate s)"

lemma ts_keepsD: "ts_keeps f \<Longrightarrow> ts_ok s \<Longrightarrow> f s = Inr s' \<Longrightarrow> ts_ok s' \<and> ts_holdUpdate s' = ts_holdUpdate s"
  unfolding ts_keeps_def by blast

lemma ts_keepsI: "(\<And>s s'. ts_ok s \<Longrightarrow> f s = Inr s' \<Longrightarrow> ts_ok s' \<and> ts_holdUpdate s' = ts_holdUpdate s) \<Longrightarrow> ts_keeps f"
  unfolding ts_keeps_def by blast

lemma ts_keeps_after:
  assumes "ts_keeps f" and "ts_ok s1" and "ts_holdUpdate s1 = h" and "f s1 = Inr s'"
  shows "ts_ok s' \<and> ts_holdUpdate s' = h"
  using ts_keepsD [OF assms(1,2,4)] assms(3) by simp

lemma ts_keeps_bind: "ts_keeps f \<Longrightarrow> ts_keeps g \<Longrightarrow> ts_keeps (\<lambda>s. bindR (f s) g)"
proof (rule ts_keepsI)
  fix s s'
  assume f: "ts_keeps f" and g: "ts_keeps g" and s: "ts_ok s" "bindR (f s) g = Inr s'"
  obtain s1 where s1: "f s = Inr s1" "g s1 = Inr s'" using s(2) by (auto simp: bindR_Inr_iff)
  note f1 = ts_keepsD [OF f s(1) s1(1)]
  show "ts_ok s' \<and> ts_holdUpdate s' = ts_holdUpdate s" using f1 by (intro ts_keeps_after [OF g _ _ s1(2)]) auto
qed

lemma timed_Inr: "timed t = Inr u \<longleftrightarrow> u = t \<and> - time_max - 1 \<le> t \<and> t \<le> time_max"
  by (auto simp: timed_def)

lemmas ts_changes = tm_Set_ok tm_Cancel_ok ts_kind_ok tm_Set_fields(3) tm_Cancel_fields(3)

lemma ts_starts_keep:
  "ts_keeps (\<lambda>s. Inr (tm_Cancel i s))" "ts_keeps (tss_Start_at i t a)" "ts_keeps (tss_Start i t a)"
  "ts_keeps (tr_StartTimer k i t a)" "ts_keeps (tr_Start i t a)" "ts_keeps (tlr_Start i n t a)"
  "ts_keeps (tr_ComputeNextTriggerTime t i)" "ts_keeps (ta_ComputeNextTriggerTime i)" "ts_keeps (ta_Start i d0 a0 d1 a1)"
  "ts_keeps (tm_ComputeNextTriggerTime i)" "ts_keeps (tm_Jumped t0 t1 i)"
proof -
  note defs = ts_keeps_def tss_Start_at_def tss_Start_def tr_StartTimer_def tr_ComputeNextTriggerTime_def ta_ComputeNextTriggerTime_def tm_Jumped_def
    tm_with_Action_def Let_def
  show "ts_keeps (\<lambda>s. Inr (tm_Cancel i s))" by (auto simp: ts_keeps_def ts_changes)
  show "ts_keeps (tss_Start_at i t a)" by (auto simp: defs bindR_Inr_iff ts_changes split: if_splits)
  show "ts_keeps (tss_Start i t a)" by (auto simp: defs bindR_Inr_iff ts_changes split: if_splits)
  show start: "ts_keeps (tr_StartTimer k i t a)" for k by (auto simp: defs bindR_Inr_iff ts_changes)
  show "ts_keeps (tr_Start i t a)" unfolding tr_Start_def by (rule start)
  show "ts_keeps (tlr_Start i n t a)"
  proof (rule ts_keepsI)
    fix s s' assume s: "ts_ok s" "tlr_Start i n t a s = Inr s'"
    show "ts_ok s' \<and> ts_holdUpdate s' = ts_holdUpdate s"
    proof (cases "0 < n")
      case True
      then show ?thesis using s ts_keepsD [OF start s(1)] by (simp add: tlr_Start_def)
    next
      case False
      then have "s' = tm_Cancel i (ts_upd i (\<lambda>tm. tm\<lparr>tm_kind := LimitedRepeating (tr_TriggerPeriod i s) n\<rparr>) s)" using s(2) by (simp add: tlr_Start_def)
      then show ?thesis using s(1) by (simp add: ts_changes)
    qed
  qed
  show rep: "ts_keeps (tr_ComputeNextTriggerTime t i)" for t by (auto simp: defs bindR_Inr_iff ts_changes split: if_splits option.splits)
  show alt: "ts_keeps (ta_ComputeNextTriggerTime i)" by (auto simp: defs bindR_Inr_iff ts_changes split: timer_kind.splits)
  show "ts_keeps (ta_Start i d0 a0 d1 a1)"
  proof (rule ts_keepsI)
    fix s s' assume s: "ts_ok s" "ta_Start i d0 a0 d1 a1 s = Inr s'"
    then obtain t where "ta_ComputeNextTriggerTime i (ts_upd i (\<lambda>tm. tm\<lparr>tm_kind := Alternating 1 t d0 d1 a0 a1\<rparr>) s) = Inr s'"
      by (auto simp: ta_Start_def bindR_Inr_iff)
    then show "ts_ok s' \<and> ts_holdUpdate s' = ts_holdUpdate s" by (rule ts_keeps_after [OF alt ts_kind_ok [OF s(1)], rotated]) simp
  qed
  show "ts_keeps (tm_ComputeNextTriggerTime i)"
  proof (rule ts_keepsI)
    fix s s' assume s: "ts_ok s" "tm_ComputeNextTriggerTime i s = Inr s'"
    have k: "ts_ok s' \<and> ts_holdUpdate s' = ts_holdUpdate s" if "f (ts_upd i (\<lambda>t. t\<lparr>tm_kind := kd\<rparr>) s) = Inr s'" "ts_keeps f" for f kd
      using that(1) by (rule ts_keeps_after [OF that(2) ts_kind_ok [OF s(1)], rotated]) simp
    have c: "ts_keeps (\<lambda>s. Inr (tm_Cancel i s))" by (auto simp: ts_keeps_def ts_changes)
    show "ts_ok s' \<and> ts_holdUpdate s' = ts_holdUpdate s"
    proof (cases "tm_kind (ts_timers s i)")
      case SingleShot
      then show ?thesis using s ts_keepsD [OF c s(1)] by (simp add: tm_ComputeNextTriggerTime_def)
    next
      case (Repeating period)
      then show ?thesis using s ts_keepsD [OF rep s(1)] by (simp add: tm_ComputeNextTriggerTime_def)
    next
      case (LimitedRepeating period n)
      then show ?thesis using s(2) k [OF _ rep] k [OF _ c] by (simp add: tm_ComputeNextTriggerTime_def Let_def split: if_splits)
    next
      case (ClosingRepeating period n ca)
      then show ?thesis using s(2) k [OF _ rep] k [OF _ c] by (simp add: tm_ComputeNextTriggerTime_def Let_def split: if_splits)
    next
      case (Alternating index t0 d0 d1 a0 a1)
      then show ?thesis using s ts_keepsD [OF alt s(1)] by (simp add: tm_ComputeNextTriggerTime_def)
    qed
  qed
  show "ts_keeps (tm_Jumped t0 t1 i)" by (auto simp: defs bindR_Inr_iff ts_changes split: option.splits)
qed

end
