(* ===== verification/Timer_Progress.thy ===== *)
theory Timer_Progress
  imports Timers
begin

section \<open>What a timer service does as time passes\<close>

text \<open>
  A client is what the actions of the timers do; whatever it is, as long as it uses the functions of the timers, the service knows the earliest trigger
  time (locale \<open>timer_client\<close>, interpreted on actions that are lists of calls). When time passes, the timers that are due are
  triggered in the order of their trigger times, once each, but for those that an action cancels or starts anew before it is their turn.
\<close>

subsection \<open>Clients\<close>

locale timer_client =
  fixes perform :: "'a \<Rightarrow> 'a timer_service \<Rightarrow> 'a timer_service result"
  assumes perform_keeps: "ts_keeps (perform a)"

lemma ts_other_fields_ok: "ts_ok s \<Longrightarrow> ts_ok (s\<lparr>ts_fired := l\<rparr>)" "ts_ok s \<Longrightarrow> ts_ok (s\<lparr>ts_Now := n\<rparr>)" "ts_ok s \<Longrightarrow> ts_ok (s\<lparr>ts_holdUpdate := True\<rparr>)"
proof -
  have e: "ts_earliest_time (s\<lparr>ts_fired := l\<rparr>) = ts_earliest_time s" "ts_earliest_time (s\<lparr>ts_Now := n\<rparr>) = ts_earliest_time s"
      "ts_earliest_time (s\<lparr>ts_holdUpdate := True\<rparr>) = ts_earliest_time s"
    by (rule ts_earliest_cong; simp add: tm_NextTrigger_def)+
  assume "ts_ok s"
  then show "ts_ok (s\<lparr>ts_fired := l\<rparr>)" "ts_ok (s\<lparr>ts_Now := n\<rparr>)" "ts_ok (s\<lparr>ts_holdUpdate := True\<rparr>)"
    by (simp_all add: ts_ok_def tm_Armed_def e)
qed

lemma ts_released_ok: "ts_ok s \<Longrightarrow> ts_ok (ts_released s) \<and> \<not> ts_holdUpdate (ts_released s)"
proof -
  assume s: "ts_ok s"
  let ?s = "s\<lparr>ts_holdUpdate := False\<rparr>"
  have e: "ts_earliest_time ?s = ts_earliest_time s" by (rule ts_earliest_cong) (simp_all add: tm_NextTrigger_def)
  show ?thesis
  proof (cases "ts_updateNeeded s")
    case True
    have "ts_ok (ts_ComputeNextTrigger ?s)" using s by (intro ts_ComputeNextTrigger_ok) (simp_all add: ts_ok_def tm_Armed_def)
    then show ?thesis using True by (simp add: ts_released_def)
  next
    case False
    then show ?thesis using s e by (simp add: ts_released_def ts_ok_def tm_Armed_def)
  qed
qed

context timer_client
begin

lemma trigger_keeps: "ts_keeps (ts_trigger perform i)"
proof (rule ts_keepsI)
  fix s s' assume s: "ts_ok s" "ts_trigger perform i s = Inr s'"
  obtain a where "bindR (tm_ComputeNextTriggerTime i (s\<lparr>ts_fired := ts_fired s @ [(i, tm_NextTrigger i s)]\<rparr>)) (perform a) = Inr s'"
    using s(2) by (auto simp: ts_trigger_def split: option.splits)
  then show "ts_ok s' \<and> ts_holdUpdate s' = ts_holdUpdate s"
    by (rule ts_keeps_after [OF ts_keeps_bind [OF ts_starts_keep(10) perform_keeps] ts_other_fields_ok(1) [OF s(1)], rotated]) simp
qed

lemma Progressed_loop_keeps: "ts_keeps (ts_Progressed_loop fuel perform time)"
proof (induction fuel)
  case 0
  show ?case by (rule ts_keepsI) simp
next
  case (Suc fuel)
  show ?case
  proof (rule ts_keepsI)
    fix s s' assume s: "ts_ok s" "ts_Progressed_loop (Suc fuel) perform time s = Inr s'"
    obtain e again where f: "ts_find_due time s = (e, again)" by (cases "ts_find_due time s")
    show "ts_ok s' \<and> ts_holdUpdate s' = ts_holdUpdate s"
    proof (cases e)
      case None
      then show ?thesis using s f by simp
    next
      case (Some i)
      then obtain s1 where s1: "ts_trigger perform i s = Inr s1" "(if again then ts_Progressed_loop fuel perform time s1 else Inr s1) = Inr s'"
        using s(2) f by (auto simp: bindR_Inr_iff)
      note k = ts_keepsD [OF trigger_keeps s(1) s1(1)]
      show ?thesis
      proof (cases again)
        case True
        then have "ts_Progressed_loop fuel perform time s1 = Inr s'" using s1(2) by simp
        then show ?thesis using k by (intro ts_keeps_after [OF Suc.IH]) auto
      next
        case False
        then show ?thesis using k s1(2) by simp
      qed
    qed
  qed
qed

lemma Progressed_ok: "ts_ok s \<Longrightarrow> ts_Progressed fuel perform time s = Inr s' \<Longrightarrow> ts_ok s' \<and> \<not> ts_holdUpdate s'"
proof -
  assume s: "ts_ok s" and "ts_Progressed fuel perform time s = Inr s'"
  then obtain s1 where "ts_Progressed_loop fuel perform time (s\<lparr>ts_holdUpdate := True\<rparr>) = Inr s1" "s' = ts_released s1"
    by (auto simp: ts_Progressed_def bindR_Inr_iff)
  then show ?thesis using ts_keepsD [OF Progressed_loop_keeps ts_other_fields_ok(3) [OF s]] ts_released_ok by blast
qed

end

lemma ts_jump_all_keeps: "ts_keeps (ts_jump_all t0 t1 is)"
proof (induction "is")
  case Nil
  show ?case by (rule ts_keepsI) simp
next
  case (Cons i "is")
  have "ts_jump_all t0 t1 (i # is) = (\<lambda>s. bindR (tm_Jumped t0 t1 i s) (ts_jump_all t0 t1 is))" by (simp add: fun_eq_iff)
  then show ?case using ts_keeps_bind [OF ts_starts_keep(11) Cons] by simp
qed

lemma ts_Jumped_ok: "ts_ok s \<Longrightarrow> ts_Jumped t0 t1 s = Inr s' \<Longrightarrow> ts_ok s' \<and> \<not> ts_holdUpdate s'"
proof -
  assume s: "ts_ok s" and "ts_Jumped t0 t1 s = Inr s'"
  then obtain s1 where "ts_jump_all t0 t1 (ts_scheduledTimers s) (s\<lparr>ts_holdUpdate := True\<rparr>) = Inr s1" "s' = ts_released s1"
    by (auto simp: ts_Jumped_def bindR_Inr_iff)
  then show ?thesis using ts_keepsD [OF ts_jump_all_keeps ts_other_fields_ok(3) [OF s]] ts_released_ok by blast
qed

subsection \<open>Actions that are lists of calls\<close>

datatype 'a timer_call =
    CallStartAt nat int 'a
  | CallStart nat int 'a
  | CallRepeat nat int 'a
  | CallLimited nat nat int 'a
  | CallAlternate nat int 'a int 'a
  | CallCancel nat

fun ts_call :: "'a timer_call \<Rightarrow> 'a timer_service \<Rightarrow> 'a timer_service result" where
  "ts_call (CallStartAt i t a) = tss_Start_at i t a"
| "ts_call (CallStart i d a) = tss_Start i d a"
| "ts_call (CallRepeat i d a) = tr_Start i d a"
| "ts_call (CallLimited i n d a) = tlr_Start i n d a"
| "ts_call (CallAlternate i d0 a0 d1 a1) = ta_Start i d0 a0 d1 a1"
| "ts_call (CallCancel i) = (\<lambda>s. Inr (tm_Cancel i s))"

primrec ts_calls :: "'a timer_call list \<Rightarrow> 'a timer_service \<Rightarrow> 'a timer_service result" where
  "ts_calls [] s = Inr s"
| "ts_calls (c # cs) s = bindR (ts_call c s) (ts_calls cs)"

definition ts_perform :: "('a \<Rightarrow> 'a timer_call list) \<Rightarrow> 'a \<Rightarrow> 'a timer_service \<Rightarrow> 'a timer_service result" where
  "ts_perform script a = ts_calls (script a)"

lemma ts_call_keeps: "ts_keeps (ts_call c)"
  by (cases c) (simp_all add: ts_starts_keep)

lemma ts_calls_keep: "ts_keeps (ts_calls cs)"
proof (induction cs)
  case Nil
  show ?case by (rule ts_keepsI) simp
next
  case (Cons c cs)
  have "ts_calls (c # cs) = (\<lambda>s. bindR (ts_call c s) (ts_calls cs))" by (simp add: fun_eq_iff)
  then show ?case using ts_keeps_bind [OF ts_call_keeps Cons] by simp
qed

interpretation scripted: timer_client "ts_perform script" for script
  by unfold_locales (simp add: ts_perform_def ts_calls_keep)

text \<open>The states a service can come to: calls, the passing of time and jumps of the clock in any order.\<close>

inductive ts_reachable :: "('a \<Rightarrow> 'a timer_call list) \<Rightarrow> 'a timer_service \<Rightarrow> bool" for script where
  reach_make: "ts_reachable script (ts_make now resolution kinds)"
| reach_call: "ts_reachable script s \<Longrightarrow> ts_call c s = Inr s' \<Longrightarrow> ts_reachable script s'"
| reach_time: "ts_reachable script s \<Longrightarrow> ts_reachable script (s\<lparr>ts_Now := now\<rparr>)"
| reach_progressed: "ts_reachable script s \<Longrightarrow> ts_Progressed fuel (ts_perform script) time s = Inr s' \<Longrightarrow> ts_reachable script s'"
| reach_jumped: "ts_reachable script s \<Longrightarrow> ts_Jumped t0 t1 s = Inr s' \<Longrightarrow> ts_reachable script s'"

lemma ts_reachable_ok: "ts_reachable script s \<Longrightarrow> ts_ok s \<and> \<not> ts_holdUpdate s"
proof (induction rule: ts_reachable.induct)
  case (reach_make now resolution kinds)
  show ?case by (simp add: ts_ok_def ts_make_def tm_Armed_def ts_earliest_time_def)
next
  case (reach_call s c s')
  then show ?case using ts_keepsD [OF ts_call_keeps] by blast
next
  case (reach_time s now)
  then show ?case by (simp add: ts_other_fields_ok)
next
  case (reach_progressed s fuel time s')
  then show ?case using scripted.Progressed_ok by blast
next
  case (reach_jumped s t0 t1 s')
  then show ?case using ts_Jumped_ok by blast
qed

subsection \<open>The timers that are due\<close>

definition due_list :: "int \<Rightarrow> 'a timer_service \<Rightarrow> nat list" where
  "due_list time s = filter (\<lambda>i. tm_NextTrigger i s \<le> time) (ts_scheduledTimers s)"

lemma due_list_cong:
  "ts_scheduledTimers s' = ts_scheduledTimers s \<Longrightarrow> (\<And>i. tm_NextTrigger i s' = tm_NextTrigger i s)
    \<Longrightarrow> due_list time s' = due_list time s"
  by (simp add: due_list_def)

text \<open>One pass over the timers finds the first of the earliest timers that are due, and whether there are others.\<close>

lemma arg_min_list_pick:
  fixes f :: "'b \<Rightarrow> int"
  shows "arg_min_list f (e # i # is) = arg_min_list f ((if f i < f e then i else e) # is)"
  by (cases "is") (auto simp: Let_def)

lemma ts_due_steps:
  "ts_due_step time s (None, again) i = (if tm_NextTrigger i s \<le> time then (Some i, again) else (None, again))"
  "ts_due_step time s (Some e, again) i = (if tm_NextTrigger i s \<le> time
     then (Some (if tm_NextTrigger i s < tm_NextTrigger e s then i else e), True) else (Some e, again))"
  by (simp_all add: ts_due_step_def)

lemma ts_find_due_scan:
  "foldl (ts_due_step time s) (Some e, again) is =
     (Some (arg_min_list (\<lambda>i. tm_NextTrigger i s) (e # filter (\<lambda>i. tm_NextTrigger i s \<le> time) is)),
      again \<or> filter (\<lambda>i. tm_NextTrigger i s \<le> time) is \<noteq> [])"
proof (induction "is" arbitrary: e again)
  case (Cons i "is")
  show ?case
  proof (cases "tm_NextTrigger i s \<le> time")
    case True
    then show ?thesis by (simp add: ts_due_steps Cons.IH arg_min_list_pick del: arg_min_list.simps(2))
  next
    case False
    then show ?thesis by (simp add: ts_due_steps Cons.IH)
  qed
qed simp

lemma ts_find_due:
  "ts_find_due time s = (case due_list time s of [] \<Rightarrow> (None, False)
     | i # is \<Rightarrow> (Some (arg_min_list (\<lambda>i. tm_NextTrigger i s) (i # is)), is \<noteq> []))"
proof -
  have "foldl (ts_due_step time s) (None, False) js = (case filter (\<lambda>i. tm_NextTrigger i s \<le> time) js of [] \<Rightarrow> (None, False)
     | i # is \<Rightarrow> (Some (arg_min_list (\<lambda>i. tm_NextTrigger i s) (i # is)), is \<noteq> []))" for js
  proof (induction js)
    case (Cons j js)
    show ?case
    proof (cases "tm_NextTrigger j s \<le> time")
      case True
      then show ?thesis by (simp add: ts_due_steps ts_find_due_scan)
    next
      case False
      then show ?thesis using Cons by (simp add: ts_due_steps)
    qed
  qed simp
  then show ?thesis by (simp add: ts_find_due_def due_list_def)
qed

subsection \<open>The order in which they are triggered\<close>

text \<open>
  The reference: of the timers that are due, the earliest, the first on the list if there are several, then the
  earliest of those that are left when it and the timers it \<open>touched\<close> are taken out, and so on.
\<close>

function due_order :: "(nat \<Rightarrow> int) \<Rightarrow> (nat \<Rightarrow> nat list) \<Rightarrow> nat list \<Rightarrow> (nat \<times> int) list" where
  "due_order at touched is =
     (if is = [] then []
      else let i = arg_min_list at is
           in (i, at i) # due_order at touched (filter (\<lambda>j. j \<noteq> i \<and> j \<notin> set (touched i)) is))"
  by pat_completeness auto
termination
  by (relation "measure (\<lambda>(at, touched, is). length is)") (auto intro!: length_filter_less dest: arg_min_list_in)

declare due_order.simps [simp del]

lemma due_order_Nil [simp]: "due_order at touched [] = []"
  by (simp add: due_order.simps)

lemma due_order_in: "(i, t) \<in> set (due_order at touched is) \<Longrightarrow> i \<in> set is \<and> t = at i"
proof (induction at touched "is" rule: due_order.induct)
  case (1 at touched "is")
  then show ?case
    by (subst (asm) (2) due_order.simps) (auto simp: Let_def split: if_splits dest: arg_min_list_in)
qed

text \<open>Each at most once, in the order of the trigger times, and only timers that another one touched are left out.\<close>

lemma due_order_distinct: "distinct (map fst (due_order at touched is))"
proof (induction at touched "is" rule: due_order.induct)
  case (1 at touched "is")
  show ?case
  proof (cases "is = []")
    case False
    let ?i = "arg_min_list at is"
    have "?i \<notin> fst ` set (due_order at touched (filter (\<lambda>j. j \<noteq> ?i \<and> j \<notin> set (touched ?i)) is))"
      by (auto dest: due_order_in)
    with 1 [OF False refl] False show ?thesis by (subst due_order.simps) (simp add: Let_def)
  qed simp
qed

lemma arg_min_list_least: "i \<in> set is \<Longrightarrow> at (arg_min_list at is) \<le> (at i :: int)"
  using f_arg_min_list_f [of "is" at] by (cases "is = []") (auto intro: Min_le)

lemma due_order_sorted: "sorted (map snd (due_order at touched is))"
proof (induction at touched "is" rule: due_order.induct)
  case (1 at touched "is")
  show ?case
  proof (cases "is = []")
    case False
    let ?i = "arg_min_list at is"
    have "at ?i \<le> t" if "t \<in> snd ` set (due_order at touched (filter (\<lambda>j. j \<noteq> ?i \<and> j \<notin> set (touched ?i)) is))" for t
      using that by (auto dest!: due_order_in intro: arg_min_list_least)
    with 1 [OF False refl] False show ?thesis by (subst due_order.simps) (simp add: Let_def)
  qed simp
qed

lemma due_order_complete:
  "i \<in> set is \<Longrightarrow> i \<in> fst ` set (due_order at touched is) \<or> (\<exists>j\<in>fst ` set (due_order at touched is). i \<in> set (touched j))"
proof (induction at touched "is" rule: due_order.induct)
  case (1 at touched "is")
  then have "is \<noteq> []" by auto
  with 1 show ?case by (subst (1 2) due_order.simps) (auto simp: Let_def)
qed

subsection \<open>Calls that start and cancel timers\<close>

text \<open>
  A call that takes the timers \<open>is\<close> away from those that are due and changes no other: they have been cancelled, or are
  to be triggered later.
\<close>

definition takes_out :: "int \<Rightarrow> nat list \<Rightarrow> 'a timer_service \<Rightarrow> 'a timer_service \<Rightarrow> bool" where
  "takes_out time is s s' \<longleftrightarrow> ts_ok s' \<and> ts_holdUpdate s' = ts_holdUpdate s \<and> ts_Now s' = ts_Now s
     \<and> ts_Resolution s' = ts_Resolution s \<and> ts_fired s' = ts_fired s
     \<and> due_list time s' = filter (\<lambda>j. j \<notin> set is) (due_list time s)
     \<and> (\<forall>j. j \<notin> set is \<longrightarrow> ts_timers s' j = ts_timers s j)"

lemma takes_out_none: "ts_ok s \<Longrightarrow> takes_out time [] s s"
  by (simp add: takes_out_def)

lemma takes_out_trans: "takes_out time is s s1 \<Longrightarrow> takes_out time js s1 s2 \<Longrightarrow> takes_out time (is @ js) s s2"
  by (auto simp: takes_out_def intro: filter_cong)

lemma takes_out_Cancel:
  assumes "ts_ok s"
  shows "takes_out time [i] s (tm_Cancel i s)"
proof -
  have d: "distinct (ts_scheduledTimers s)" "i \<in> set (ts_scheduledTimers s) \<longleftrightarrow> tm_Armed i s"
    using assms by (simp_all add: ts_ok_def)
  have "ts_scheduledTimers (tm_Cancel i s) = filter (\<lambda>j. j \<noteq> i) (ts_scheduledTimers s)"
    using d by (auto simp: tm_Cancel_fields distinct_remove1_removeAll removeAll_filter_not_eq intro!: filter_True [symmetric] filter_cong)
  then have "due_list time (tm_Cancel i s) = filter (\<lambda>j. j \<notin> set [i]) (due_list time s)"
    by (auto simp: due_list_def tm_NextTrigger_def tm_Cancel_fields intro: filter_cong)
  then show ?thesis using tm_Cancel_ok [OF assms, of i] by (simp add: takes_out_def tm_Cancel_fields)
qed

lemma takes_out_Set:
  assumes "ts_ok s" and "time < t"
  shows "takes_out time [i] s (tm_SetNextTriggerTime i t a s)"
proof -
  have "i \<in> set (ts_scheduledTimers s) \<longleftrightarrow> tm_Armed i s" using assms by (simp add: ts_ok_def)
  then have "due_list time (tm_SetNextTriggerTime i t a s) = filter (\<lambda>j. j \<notin> set [i]) (due_list time s)"
    using assms(2) by (auto simp: due_list_def tm_NextTrigger_def tm_Set_fields intro!: filter_cong)
  then show ?thesis using tm_Set_ok [OF assms(1), of i] by (simp add: takes_out_def tm_Set_fields)
qed

lemma takes_out_kind:
  assumes "takes_out time [i] (ts_upd i (\<lambda>t. t\<lparr>tm_kind := k\<rparr>) s) s'"
  shows "takes_out time [i] s s'"
proof -
  have "due_list time (ts_upd i (\<lambda>t. t\<lparr>tm_kind := k\<rparr>) s) = due_list time s"
    by (rule due_list_cong) (simp_all add: tm_NextTrigger_def)
  then show ?thesis using assms by (simp add: takes_out_def)
qed

lemmas takes_out_kind_Set = takes_out_kind [OF takes_out_Set [OF ts_kind_ok]]
  and takes_out_kind_Cancel = takes_out_kind [OF takes_out_Cancel [OF ts_kind_ok]]

text \<open>
  Calls that an action may make without another timer becoming due at once: any cancellation, and any start whose trigger time
  lies after \<open>time\<close> and is a point in time.
\<close>

definition later :: "int \<Rightarrow> int \<Rightarrow> int \<Rightarrow> int \<Rightarrow> bool" where
  "later now resolution time duration \<longleftrightarrow>
     0 \<le> duration \<and> time < now + duration + resolution \<and> now + duration + resolution < time_max"

fun later_call :: "int \<Rightarrow> int \<Rightarrow> int \<Rightarrow> 'a timer_call \<Rightarrow> bool" where
  "later_call now resolution time (CallStartAt i t a) = (time < t + resolution)"
| "later_call now resolution time (CallStart i d a) = later now resolution time d"
| "later_call now resolution time (CallRepeat i d a) = later now resolution time d"
| "later_call now resolution time (CallLimited i n d a) = (n = 0 \<or> later now resolution time d)"
| "later_call now resolution time (CallAlternate i d0 a0 d1 a1) = later now resolution time d0"
| "later_call now resolution time (CallCancel i) = True"

fun call_target :: "'a timer_call \<Rightarrow> nat" where
  "call_target (CallStartAt i t a) = i"
| "call_target (CallStart i d a) = i"
| "call_target (CallRepeat i d a) = i"
| "call_target (CallLimited i n d a) = i"
| "call_target (CallAlternate i d0 a0 d1 a1) = i"
| "call_target (CallCancel i) = i"

definition clock_ok :: "int \<Rightarrow> 'a timer_service \<Rightarrow> bool" where
  "clock_ok time s \<longleftrightarrow> 0 \<le> time \<and> time \<le> ts_Now s \<and> ts_Now s \<le> time_max \<and> 0 \<le> ts_Resolution s \<and> ts_Resolution s \<le> time_max"

lemma timed_ok: "- time_max - 1 \<le> t \<Longrightarrow> t \<le> time_max \<Longrightarrow> timed t = Inr t"
  by (simp add: timed_def)

lemma later_timed:
  assumes "clock_ok time s" and "later (ts_Now s) (ts_Resolution s) time d"
  shows "timed (ts_Now s + d) = Inr (ts_Now s + d)" "timed (ts_Now s + d + ts_Resolution s) = Inr (ts_Now s + d + ts_Resolution s)"
    "timed (ts_Now s + ts_Resolution s) = Inr (ts_Now s + ts_Resolution s)" "timed (time_max - d) = Inr (time_max - d)"
    "ts_Now s + ts_Resolution s < time_max - d" "timed (ts_Now s + ts_Resolution s + d) = Inr (ts_Now s + ts_Resolution s + d)"
    "time < ts_Now s + d + ts_Resolution s" "time < ts_Now s + ts_Resolution s + d"
  using assms unfolding clock_ok_def later_def by (auto intro!: timed_ok)

lemma call_takes_out:
  assumes s: "ts_ok s" "clock_ok time s" and c: "later_call (ts_Now s) (ts_Resolution s) time c"
  shows "\<exists>s'. ts_call c s = Inr s' \<and> takes_out time [call_target c] s s'"
proof (cases c)
  case (CallStartAt i t a)
  have l: "timed (time_max - ts_Resolution s) = Inr (time_max - ts_Resolution s)"
    using s(2) by (intro timed_ok) (simp_all add: clock_ok_def)
  show ?thesis
  proof (cases "t < time_max - ts_Resolution s")
    case True
    have "timed (t + ts_Resolution s) = Inr (t + ts_Resolution s)"
      using True c s(2) CallStartAt by (intro timed_ok) (simp_all add: clock_ok_def)
    then show ?thesis using True c CallStartAt l takes_out_Set [OF s(1)] by (simp add: tss_Start_at_def)
  next
    case False
    then show ?thesis using CallStartAt l takes_out_Cancel [OF s(1)] by (simp add: tss_Start_at_def)
  qed
next
  case (CallStart i d a)
  then show ?thesis using c later_timed [OF s(2), of d] takes_out_Set [OF s(1)] by (simp add: tss_Start_def)
next
  case (CallRepeat i d a)
  then show ?thesis using c later_timed [OF s(2), of d]
    by (simp add: tr_Start_def tr_StartTimer_def Let_def takes_out_kind_Set [OF s(1)])
next
  case (CallLimited i n d a)
  show ?thesis
  proof (cases "n = 0")
    case True
    then show ?thesis using CallLimited by (simp add: tlr_Start_def takes_out_kind_Cancel [OF s(1)])
  next
    case False
    then show ?thesis using CallLimited c later_timed [OF s(2), of d]
      by (simp add: tlr_Start_def tr_StartTimer_def Let_def takes_out_kind_Set [OF s(1)])
  qed
next
  case (CallAlternate i d0 a0 d1 a1)
  then show ?thesis using c later_timed [OF s(2), of d0]
    by (auto simp: ta_Start_def ta_ComputeNextTriggerTime_def Let_def takes_out_kind_Set [OF s(1)])
next
  case (CallCancel i)
  then show ?thesis using takes_out_Cancel [OF s(1)] by simp
qed

lemma calls_take_out:
  assumes "ts_ok s" and "clock_ok time s" and "list_all (later_call (ts_Now s) (ts_Resolution s) time) cs"
  shows "\<exists>s'. ts_calls cs s = Inr s' \<and> takes_out time (map call_target cs) s s'"
  using assms
proof (induction cs arbitrary: s)
  case Nil
  then show ?case by (simp add: takes_out_none)
next
  case (Cons c cs)
  obtain s1 where s1: "ts_call c s = Inr s1" "takes_out time [call_target c] s s1"
    using call_takes_out [OF Cons.prems(1,2)] Cons.prems(3) by auto
  then have "ts_ok s1" "clock_ok time s1" "list_all (later_call (ts_Now s1) (ts_Resolution s1) time) cs"
    using Cons.prems by (simp_all add: takes_out_def clock_ok_def)
  from Cons.IH [OF this] obtain s2 where "ts_calls cs s1 = Inr s2" "takes_out time (map call_target cs) s1 s2" by blast
  with s1 show ?case using takes_out_trans [OF s1(2)] by auto
qed

subsection \<open>One timer is triggered\<close>

text \<open>
  Timers that a round triggers once, whatever the kind: what they are to be triggered at next is no overflow and lies after
  \<open>time\<close>. For a repeating timer this is a positive period; a limited or closing one may also have come to its
  end; of an alternating one, the next of the two times is yet to come.
\<close>

definition repeats :: "int \<Rightarrow> int \<Rightarrow> bool" where
  "repeats now period \<longleftrightarrow> 0 < period \<and> now + period \<le> time_max"

definition triggers_once :: "int \<Rightarrow> int \<Rightarrow> 'a timer \<Rightarrow> bool" where
  "triggers_once now time t \<longleftrightarrow> 0 \<le> tm_nextTriggerTime t \<and>
     (case tm_kind t of
        SingleShot \<Rightarrow> True
      | Repeating period \<Rightarrow> repeats now period
      | LimitedRepeating period howMany \<Rightarrow> howMany = 1 \<or> repeats now period
      | ClosingRepeating period howMany closingAction \<Rightarrow> howMany \<le> 0 \<or> repeats now period
      | Alternating index triggerStart d0 d1 a0 a1 \<Rightarrow>
          time < triggerStart + (if (index + 1) mod 2 = 0 then d0 else d1)
          \<and> triggerStart + (if (index + 1) mod 2 = 0 then d0 else d1) \<le> time_max)"

lemma repeating_takes_out:
  assumes s: "ts_ok s" "clock_ok time s" and n: "0 \<le> tm_NextTrigger i s" "tm_NextTrigger i s \<le> time"
    and k: "repeats (ts_Now s) period" and a: "tm_Action i s = Some a"
  shows "\<exists>s'. tr_ComputeNextTriggerTime period i s = Inr s' \<and> takes_out time [i] s s'"
proof -
  let ?next = "tm_NextTrigger i s" and ?now = "ts_Now s"
  define t where "t = ?now - (?now - ?next) mod period + period"
  have now: "time \<le> ?now" "?now \<le> time_max" using s(2) by (simp_all add: clock_ok_def)
  have p: "0 < period" "?now + period \<le> time_max" using k by (simp_all add: repeats_def)
  have m: "0 \<le> (?now - ?next) mod period" "(?now - ?next) mod period < period" "(?now - ?next) mod period \<le> ?now - ?next"
    using p(1) n now by (auto intro: zmod_le_nonneg_dividend)
  have "- time_max - 1 \<le> ?now - ?next" "?now - ?next \<le> time_max" using n now unfolding time_max_def by linarith+
  moreover have "- time_max - 1 \<le> ?now - (?now - ?next) mod period" "?now - (?now - ?next) mod period \<le> time_max"
    using n m now unfolding time_max_def by linarith+
  moreover have "- time_max - 1 \<le> t" "t \<le> time_max" using n m now p unfolding t_def time_max_def by linarith+
  ultimately have "timed (?now - ?next) = Inr (?now - ?next)" "timed t = Inr t"
    "timed (?now - (?now - ?next) mod period) = Inr (?now - (?now - ?next) mod period)"
    by (simp_all add: timed_ok)
  then have c: "tr_ComputeNextTriggerTime period i s = Inr (tm_SetNextTriggerTime i t a s)"
    using p n now a by (simp add: tr_ComputeNextTriggerTime_def max_absorb1 tm_with_Action_def t_def Let_def)
  have "time < t" using now(1) m unfolding t_def by linarith
  then show ?thesis using c takes_out_Set [OF s(1)] by simp
qed

lemma ComputeNext_takes_out:
  assumes s: "ts_ok s" "clock_ok time s" and i: "i \<in> set (due_list time s)" and t: "triggers_once (ts_Now s) time (ts_timers s i)"
  shows "\<exists>s'. tm_ComputeNextTriggerTime i s = Inr s' \<and> takes_out time [i] s s'"
proof -
  have armed: "tm_action (ts_timers s i) \<noteq> None" and n: "0 \<le> tm_NextTrigger i s" "tm_NextTrigger i s \<le> time"
    using s(1) i t by (auto simp: due_list_def ts_ok_def tm_Armed_def triggers_once_def tm_NextTrigger_def)
  have repeat: "\<exists>s'. tr_ComputeNextTriggerTime period i (ts_upd i (\<lambda>t. t\<lparr>tm_kind := k\<rparr>) s) = Inr s' \<and> takes_out time [i] s s'"
    if per: "repeats (ts_Now s) period" and alt: "\<forall>index triggerStart d0 d1 a0 a1. k \<noteq> Alternating index triggerStart d0 d1 a0 a1"
    for period k
  proof -
    let ?s = "ts_upd i (\<lambda>t. t\<lparr>tm_kind := k\<rparr>) s"
    have "tm_Action i ?s \<noteq> None" using armed alt by (cases k) (auto simp: tm_Action_def Let_def)
    then obtain a where "tm_Action i ?s = Some a" by blast
    then obtain s' where "tr_ComputeNextTriggerTime period i ?s = Inr s'" "takes_out time [i] ?s s'"
      using repeating_takes_out [OF ts_kind_ok [OF s(1)], of time i k i period] s(2) n per
      by (auto simp: clock_ok_def tm_NextTrigger_def)
    then show ?thesis using takes_out_kind by blast
  qed
  have same: "ts_upd i (\<lambda>t. t\<lparr>tm_kind := k\<rparr>) s = s" if "tm_kind (ts_timers s i) = k" for k
    using that by (simp add: fun_upd_idem)
  show ?thesis
  proof (cases "tm_kind (ts_timers s i)")
    case SingleShot
    then show ?thesis using takes_out_Cancel [OF s(1)] by (simp add: tm_ComputeNextTriggerTime_def)
  next
    case (Repeating period)
    then show ?thesis using repeat [of period "Repeating period"] t same [OF Repeating]
      by (simp add: tm_ComputeNextTriggerTime_def triggers_once_def)
  next
    case (LimitedRepeating period n)
    then show ?thesis using repeat [of period] t takes_out_kind_Cancel [OF s(1)]
      by (auto simp: tm_ComputeNextTriggerTime_def triggers_once_def Let_def)
  next
    case (ClosingRepeating period n ca)
    then show ?thesis using repeat [of period] t takes_out_kind_Cancel [OF s(1)]
      by (auto simp: tm_ComputeNextTriggerTime_def triggers_once_def Let_def)
  next
    case (Alternating index start d0 d1 a0 a1)
    let ?t = "start + (if (index + 1) mod 2 = 0 then d0 else d1)"
    have "time < ?t" "?t \<le> time_max" using t Alternating by (simp_all add: triggers_once_def)
    moreover from this have "timed ?t = Inr ?t" using s(2) by (intro timed_ok) (simp_all add: clock_ok_def)
    ultimately show ?thesis using Alternating takes_out_kind_Set [OF s(1)]
      by (simp add: tm_ComputeNextTriggerTime_def ta_ComputeNextTriggerTime_def Let_def)
  qed
qed

text \<open>
  A service in which time has come to \<open>time\<close>, and its client's actions: the timers that are due are
  triggered once, and their actions make calls that are for later.
\<close>

definition rounds_ok :: "('a \<Rightarrow> 'a timer_call list) \<Rightarrow> int \<Rightarrow> 'a timer_service \<Rightarrow> bool" where
  "rounds_ok script time s \<longleftrightarrow> ts_ok s \<and> clock_ok time s
     \<and> list_all (\<lambda>i. triggers_once (ts_Now s) time (ts_timers s i)
         \<and> list_all (later_call (ts_Now s) (ts_Resolution s) time) (script (the (tm_Action i s)))) (due_list time s)"

text \<open>The timers that the action of a timer starts or cancels.\<close>

definition action_targets :: "('a \<Rightarrow> 'a timer_call list) \<Rightarrow> 'a timer_service \<Rightarrow> nat \<Rightarrow> nat list" where
  "action_targets script s i = map call_target (script (the (tm_Action i s)))"

abbreviation expected :: "('a \<Rightarrow> 'a timer_call list) \<Rightarrow> int \<Rightarrow> 'a timer_service \<Rightarrow> (nat \<times> int) list" where
  "expected script time s \<equiv> due_order (\<lambda>i. tm_NextTrigger i s) (action_targets script s) (due_list time s)"

lemma trigger_takes_out:
  assumes r: "rounds_ok script time s" and i: "i \<in> set (due_list time s)"
  shows "\<exists>s'. ts_trigger (ts_perform script) i s = Inr s' \<and> ts_fired s' = ts_fired s @ [(i, tm_NextTrigger i s)]
    \<and> takes_out time (i # action_targets script s i) (s\<lparr>ts_fired := ts_fired s'\<rparr>) s'"
proof -
  let ?s = "s\<lparr>ts_fired := ts_fired s @ [(i, tm_NextTrigger i s)]\<rparr>"
  have s: "ts_ok s" "clock_ok time s" and t: "triggers_once (ts_Now s) time (ts_timers s i)"
    "list_all (later_call (ts_Now s) (ts_Resolution s) time) (script (the (tm_Action i s)))"
    using r i by (auto simp: rounds_ok_def list_all_iff)
  have "tm_action (ts_timers s i) \<noteq> None" using s(1) i by (auto simp: ts_ok_def due_list_def tm_Armed_def)
  then have "tm_Action i s \<noteq> None" by (auto simp: tm_Action_def Let_def split: timer_kind.split)
  then obtain a where a: "tm_Action i s = Some a" by blast
  have due: "due_list time ?s = due_list time s" by (rule due_list_cong) (simp_all add: tm_NextTrigger_def)
  have "clock_ok time ?s" using s(2) by (simp add: clock_ok_def)
  from ComputeNext_takes_out [OF ts_other_fields_ok(1) [OF s(1)] this] i due t(1) obtain s1 where
    s1: "tm_ComputeNextTriggerTime i ?s = Inr s1" "takes_out time [i] ?s s1" by auto
  then have "ts_ok s1" "clock_ok time s1" "list_all (later_call (ts_Now s1) (ts_Resolution s1) time) (script a)"
    using s(2) t(2) a by (simp_all add: takes_out_def clock_ok_def)
  from calls_take_out [OF this] obtain s2 where s2: "ts_calls (script a) s1 = Inr s2"
      "takes_out time (map call_target (script a)) s1 s2" by blast
  have out: "takes_out time ([i] @ map call_target (script a)) ?s s2" by (rule takes_out_trans [OF s1(2) s2(2)])
  then have "ts_fired s2 = ts_fired s @ [(i, tm_NextTrigger i s)]" by (simp add: takes_out_def)
  then show ?thesis using s1(1) s2(1) a out by (simp add: ts_trigger_def ts_perform_def action_targets_def)
qed

text \<open>After a round the same holds for the timers that are left, and what is expected of them is the rest.\<close>

lemma due_order_cong:
  "(\<And>i. i \<in> set is \<Longrightarrow> at i = at' i \<and> touched i = touched' i) \<Longrightarrow> due_order at touched is = due_order at' touched' is"
proof (induction at touched "is" rule: due_order.induct)
  case (1 at touched "is")
  show ?case
  proof (cases "is = []")
    case False
    have min: "arg_min_list at xs = arg_min_list at' xs" if "\<And>i. i \<in> set xs \<Longrightarrow> at i = at' i" "xs \<noteq> []" for xs
      using that
    proof (induction at xs rule: arg_min_list.induct)
      case (2 f x y zs)
      then have m: "arg_min_list f (y # zs) = arg_min_list at' (y # zs)" by simp
      have "arg_min_list at' (y # zs) \<in> set (y # zs)" by (rule arg_min_list_in) simp
      then have "f (arg_min_list at' (y # zs)) = at' (arg_min_list at' (y # zs))" "f x = at' x" using "2.prems"(1) by auto
      then show ?case using m by (simp add: Let_def)
    qed simp_all
    let ?i = "arg_min_list at is"
    have i: "?i = arg_min_list at' is" "?i \<in> set is" using min [of "is"] "1.prems" False arg_min_list_in [of "is" at] by auto
    have "due_order at touched (filter (\<lambda>j. j \<noteq> ?i \<and> j \<notin> set (touched ?i)) is)
        = due_order at' touched' (filter (\<lambda>j. j \<noteq> ?i \<and> j \<notin> set (touched ?i)) is)"
      using "1.prems" by (intro "1.IH" [OF False refl]) auto
    then show ?thesis using False i "1.prems" by (subst (1 2) due_order.simps) (simp add: Let_def)
  qed simp
qed

lemma round_rest:
  assumes r: "rounds_ok script time s" and out: "takes_out time (i # action_targets script s i) (s\<lparr>ts_fired := l\<rparr>) s'"
  shows "rounds_ok script time s'"
    and "due_list time s' = filter (\<lambda>j. j \<noteq> i \<and> j \<notin> set (action_targets script s i)) (due_list time s)"
    and "expected script time s' = due_order (\<lambda>i. tm_NextTrigger i s) (action_targets script s) (due_list time s')"
proof -
  have "due_list time (s\<lparr>ts_fired := l\<rparr>) = due_list time s" by (rule due_list_cong) (simp_all add: tm_NextTrigger_def)
  then show due: "due_list time s' = filter (\<lambda>j. j \<noteq> i \<and> j \<notin> set (action_targets script s i)) (due_list time s)"
    using out by (auto simp: takes_out_def intro: filter_cong)
  have same: "ts_timers s' j = ts_timers s j" if "j \<in> set (due_list time s')" for j
    using out that due by (simp add: takes_out_def)
  then have same': "tm_Action j s' = tm_Action j s" "tm_NextTrigger j s' = tm_NextTrigger j s" if "j \<in> set (due_list time s')" for j
    using that by (simp_all add: tm_Action_def tm_NextTrigger_def)
  have f: "ts_ok s'" "ts_Now s' = ts_Now s" "ts_Resolution s' = ts_Resolution s" using out by (simp_all add: takes_out_def)
  have "set (due_list time s') \<subseteq> set (due_list time s)" using due by auto
  then show "rounds_ok script time s'"
    using r same same'(1) unfolding rounds_ok_def clock_ok_def f list_all_iff by (auto simp: f(1))
  show "expected script time s' = due_order (\<lambda>i. tm_NextTrigger i s) (action_targets script s) (due_list time s')"
    using same' by (intro due_order_cong) (simp add: action_targets_def)
qed

lemma Progressed_loop_expected:
  assumes "rounds_ok script time s" and "length (due_list time s) \<le> fuel" and "0 < fuel"
  shows "\<exists>s'. ts_Progressed_loop fuel (ts_perform script) time s = Inr s'
    \<and> ts_fired s' = ts_fired s @ expected script time s \<and> due_list time s' = []"
  using assms
proof (induction fuel arbitrary: s)
  case (Suc fuel)
  show ?case
  proof (cases "due_list time s")
    case Nil
    then show ?thesis by (simp add: ts_find_due)
  next
    case (Cons j js)
    let ?i = "arg_min_list (\<lambda>i. tm_NextTrigger i s) (due_list time s)"
    have i: "?i \<in> set (due_list time s)" using Cons by (intro arg_min_list_in) simp
    obtain s1 where s1: "ts_trigger (ts_perform script) ?i s = Inr s1" "ts_fired s1 = ts_fired s @ [(?i, tm_NextTrigger ?i s)]"
        "takes_out time (?i # action_targets script s ?i) (s\<lparr>ts_fired := ts_fired s1\<rparr>) s1"
      using trigger_takes_out [OF Suc.prems(1) i] by blast
    note rest = round_rest [OF Suc.prems(1) s1(3)]
    have exp: "expected script time s = (?i, tm_NextTrigger ?i s) # expected script time s1"
      using Cons rest(2,3) by (subst due_order.simps) (simp add: Let_def)
    have find: "ts_find_due time s = (Some ?i, js \<noteq> [])" using Cons by (simp add: ts_find_due)
    show ?thesis
    proof (cases "js = []")
      case True
      then have "due_list time s1 = []" using rest(2) Cons by simp
      then show ?thesis using True find s1 exp by simp
    next
      case False
      have "length (due_list time s1) < length (due_list time s)" unfolding rest(2) by (rule length_filter_less [OF i]) simp
      then have "length (due_list time s1) \<le> fuel" "0 < fuel" using Suc.prems(2) Cons False by (auto simp: neq_Nil_conv)
      from Suc.IH [OF rest(1) this] show ?thesis using False find s1 exp by auto
    qed
  qed
qed simp

lemma ts_released_fields: "ts_fired (ts_released s) = ts_fired s" "due_list time (ts_released s) = due_list time s"
  by (simp_all add: ts_released_def Let_def due_list_def tm_NextTrigger_def)

subsection \<open>The properties of a service\<close>

text \<open>
  C27. Whatever sequence of starts, restarts and cancellations of timers, of progress of time and of jumps of the clock a service has gone through, also from
  within the actions of timers that were triggered, the timers on its list are the timers that are armed, each is on it once, the next trigger time is the
  earliest of their trigger times (the largest time when there is none), and that is the time that the derived service was last told.
\<close>

theorem next_trigger_is_earliest:
  assumes "ts_reachable script s"
  shows "distinct (ts_scheduledTimers s) \<and> set (ts_scheduledTimers s) = {i. tm_Armed i s}
    \<and> ts_nextTrigger s = Min (insert time_max ((\<lambda>i. tm_NextTrigger i s) ` {i. tm_Armed i s})) \<and> ts_announced s = ts_nextTrigger s"
proof -
  have ok: "ts_ok s" "\<not> ts_holdUpdate s" using ts_reachable_ok [OF assms] by simp_all
  have set: "set (ts_scheduledTimers s) = {i. tm_Armed i s}" using ok by (auto simp: ts_ok_def)
  have "ts_nextTrigger s = Min (insert time_max ((\<lambda>i. tm_NextTrigger i s) ` {i. tm_Armed i s}))"
    using ok ts_earliest_Min [of s] unfolding set by (auto simp: ts_ok_def)
  then show ?thesis using ok set by (simp add: ts_ok_def)
qed

text \<open>
  C30. When the time has passed the trigger times of some timers, of any kind, and their actions cancel any timers and start
  any timers for a later time, \<^verbatim>\<open>Progressed\<close> ends, a round for each timer that is due sufficing: it triggers the earliest of the
  timers that are due, the first on the list of several, then the earliest of those that are left, where those are gone that
  an action has cancelled or started anew. So the triggers are in the order of the trigger times, no timer is triggered twice, a timer that was due is left out
  only when the action of one that was triggered cancelled or restarted it, and none is due afterwards. \<open>rounds_ok\<close> asks of the timers
  that are due that they are due once (a positive period, no overflow of the next time; an alternating timer may not be due again by \<open>time\<close>), and of
  what their actions start that it is triggered after \<open>time\<close>.
\<close>

theorem due_timers_fire_in_order:
  assumes "rounds_ok script time s" and "length (due_list time s) \<le> fuel" and "0 < fuel"
  shows "let log = due_order (\<lambda>i. tm_NextTrigger i s) (action_targets script s) (due_list time s) in
    (\<exists>s'. ts_Progressed fuel (ts_perform script) time s = Inr s' \<and> ts_fired s' = ts_fired s @ log \<and> due_list time s' = [])
    \<and> sorted (map snd log) \<and> distinct (map fst log)
    \<and> (\<forall>(i, t)\<in>set log. i \<in> set (due_list time s) \<and> t = tm_NextTrigger i s)
    \<and> (\<forall>i\<in>set (due_list time s). i \<in> fst ` set log \<or> (\<exists>j\<in>fst ` set log. i \<in> set (action_targets script s j)))"
proof -
  let ?s = "s\<lparr>ts_holdUpdate := True\<rparr>"
  have same: "due_list time ?s = due_list time s" "(\<lambda>i. tm_NextTrigger i ?s) = (\<lambda>i. tm_NextTrigger i s)"
    "action_targets script ?s = action_targets script s"
    by (simp_all add: due_list_def tm_NextTrigger_def action_targets_def tm_Action_def fun_eq_iff)
  have "rounds_ok script time ?s"
    using assms(1) ts_other_fields_ok(3) [of s] by (simp add: rounds_ok_def clock_ok_def same tm_Action_def)
  then obtain s' where "ts_Progressed_loop fuel (ts_perform script) time ?s = Inr s'"
      "ts_fired s' = ts_fired s @ expected script time s" "due_list time s' = []"
    using Progressed_loop_expected [of script time ?s fuel] assms(2,3) unfolding same by auto
  then have "ts_Progressed fuel (ts_perform script) time s = Inr (ts_released s')"
      "ts_fired (ts_released s') = ts_fired s @ expected script time s" "due_list time (ts_released s') = []"
    by (simp_all add: ts_Progressed_def ts_released_fields)
  then show ?thesis
    unfolding Let_def by (auto simp: due_order_sorted due_order_distinct dest: due_order_in due_order_complete)
qed

text \<open>A service with a repeating timer and two single shot timers that were started at time 0, at time 12.\<close>

definition three_started :: "nat timer_service result" where
  "three_started = ts_calls [CallRepeat 0 4 100, CallStart 1 9 101, CallStart 2 20 102]
     (ts_make 0 1 (\<lambda>i. if i = 0 then Repeating 4 else SingleShot))"

definition three_timers :: "nat timer_service" where
  "three_timers =
     \<lparr>ts_timers = (\<lambda>i. \<lparr>tm_kind = if i = 0 then Repeating 4 else SingleShot, tm_action = None, tm_nextTriggerTime = 0\<rparr>)
        (0 := \<lparr>tm_kind = Repeating 4, tm_action = Some 100, tm_nextTriggerTime = 5\<rparr>,
         1 := \<lparr>tm_kind = SingleShot, tm_action = Some 101, tm_nextTriggerTime = 10\<rparr>,
         2 := \<lparr>tm_kind = SingleShot, tm_action = Some 102, tm_nextTriggerTime = 21\<rparr>),
      ts_scheduledTimers = [2, 1, 0], ts_nextTrigger = 5, ts_holdUpdate = False, ts_updateNeeded = False, ts_Now = 12, ts_Resolution = 1,
      ts_announced = 5, ts_fired = []\<rparr>"

lemma three_started: "three_started = Inr (three_timers\<lparr>ts_Now := 0\<rparr>)"
  by (simp add: three_started_def three_timers_def ts_make_def tr_Start_def tr_StartTimer_def tss_Start_def timed_def time_max_def Let_def
      tm_SetNextTriggerTime_def tm_Armed_def ts_RegisterTimer_def tm_NextTrigger_def ts_NextTriggerChanged_def fun_eq_iff)

lemma ts_calls_reachable: "ts_reachable script s \<Longrightarrow> ts_calls cs s = Inr s' \<Longrightarrow> ts_reachable script s'"
  by (induction cs arbitrary: s) (auto simp: bindR_Inr_iff intro: reach_call)

lemma three_reachable: "ts_reachable (\<lambda>_. []) three_timers"
proof -
  have "ts_reachable (\<lambda>_. []) (three_timers\<lparr>ts_Now := 0\<rparr>)"
    using ts_calls_reachable [OF reach_make] three_started unfolding three_started_def by blast
  from reach_time [OF this, of 12] show ?thesis by (simp add: three_timers_def)
qed

theorem next_trigger_is_earliest_witness:
  "ts_reachable (\<lambda>_. []) three_timers \<and> set (ts_scheduledTimers three_timers) = {0, 1, 2}
    \<and> ts_nextTrigger three_timers = 5 \<and> ts_nextTrigger three_timers = Min (insert time_max ((\<lambda>i. tm_NextTrigger i three_timers) ` {i. tm_Armed i three_timers}))"
proof -
  have f: "set (ts_scheduledTimers three_timers) = {0, 1, 2}" "ts_nextTrigger three_timers = 5" by (auto simp: three_timers_def)
  show ?thesis by (intro conjI three_reachable f) (use next_trigger_is_earliest [OF three_reachable] in blast)
qed

text \<open>
  At time 25 all three are due. The action of the repeating timer cancels the first single shot timer, and starts another one for later; so
  the repeating timer is triggered and then the second single shot timer.
\<close>

definition three_script :: "nat \<Rightarrow> nat timer_call list" where
  "three_script a = (if a = 100 then [CallCancel 1, CallStart 3 30 103] else [])"

theorem due_timers_fire_in_order_witness:
  "due_list 25 (three_timers\<lparr>ts_Now := 25\<rparr>) = [2, 1, 0]
    \<and> (\<exists>s'. ts_Progressed 3 (ts_perform three_script) 25 (three_timers\<lparr>ts_Now := 25\<rparr>) = Inr s' \<and> ts_fired s' = [(0, 5), (2, 21)]
        \<and> due_list 25 s' = [])"
proof -
  let ?s = "three_timers\<lparr>ts_Now := 25\<rparr>"
  have due: "due_list 25 ?s = [2, 1, 0]" by (simp add: due_list_def three_timers_def tm_NextTrigger_def)
  have "ts_ok ?s" using ts_reachable_ok [OF three_reachable] by (simp add: ts_other_fields_ok)
  then have "rounds_ok three_script 25 ?s"
    unfolding rounds_ok_def due
    by (simp add: clock_ok_def time_max_def three_timers_def triggers_once_def repeats_def tm_Action_def three_script_def later_def)
  moreover have "action_targets three_script ?s 0 = [1, 3]" "action_targets three_script ?s 2 = []"
    by (simp_all add: action_targets_def tm_Action_def three_timers_def three_script_def)
  then have "due_order (\<lambda>i. tm_NextTrigger i ?s) (action_targets three_script ?s) [2, 1, 0] = [(0, 5), (2, 21)]"
    by (simp add: due_order.simps Let_def tm_NextTrigger_def three_timers_def)
  moreover have fired: "ts_fired ?s = []" by (simp add: three_timers_def)
  ultimately show ?thesis
    using due_timers_fire_in_order [of three_script 25 ?s 3] fired by (simp add: due Let_def)
qed

end
