(* ===== verification/Proto_Formatter.thy ===== *)
theory Proto_Formatter
  imports Stream_Writers
begin

unbundle bit_operations_syntax

section \<open>Protocol buffers: writing\<close>

text \<open>
  \<^verbatim>\<open>infra::ProtoFormatter\<close> and \<^verbatim>\<open>infra::ProtoLengthDelimitedFormatter\<close> (infra/syntax/ProtoFormatter.cpp) over any writer. A length-delimited field that is
  written piece by piece gets its length when it is complete: the length is inserted at a marker through a \<^verbatim>\<open>SavedMarkerDataStream\<close>, which has an error policy
  of its own. The locale \<open>proto_output\<close> joins the contract of a writer with that of a stream with markers and adds that markers count bytes; it is interpreted on
  the writers to vectors and to ranges.
\<close>

subsection \<open>Numbers\<close>

function MaxVarIntSize_loop :: "64 word \<Rightarrow> 32 word \<Rightarrow> 32 word" where
  "MaxVarIntSize_loop value result = (if 127 < value then MaxVarIntSize_loop (drop_bit 7 value) (result + 1) else result)"
  by pat_completeness auto

lemma unat_drop_7: "unat (drop_bit 7 (v :: 64 word)) = unat v div 128"
  by (simp only: unat_drop_bit_eq) (simp add: drop_bit_eq_div)

termination MaxVarIntSize_loop
  by (relation "measure (\<lambda>(v, _). unat v)") (auto simp: unat_drop_7 word_less_nat_alt)

declare MaxVarIntSize_loop.simps [simp del]

definition MaxVarIntSize :: "64 word \<Rightarrow> 32 word" where
  "MaxVarIntSize value = MaxVarIntSize_loop value 1"

type_synonym 'w put = "'w \<Rightarrow> error_policy \<Rightarrow> ('w \<times> error_policy) result"

function pf_PutVarInt :: "(byte list \<Rightarrow> 'w put) \<Rightarrow> 64 word \<Rightarrow> 'w put" where
  "pf_PutVarInt ins value w p =
     bindR (ins [if 127 < value then ucast ((value AND 127) OR 128) else ucast value] w p)
       (\<lambda>(w', p'). let value' = drop_bit 7 value in if value' \<noteq> 0 then pf_PutVarInt ins value' w' p' else Inr (w', p'))"
  by pat_completeness auto
termination
proof (relation "measure (\<lambda>(_, v, _, _). unat v)")
  fix ins :: "byte list \<Rightarrow> 'w put" and v w p x xa y and v' :: "64 word"
  assume "v' = drop_bit 7 v" "v' \<noteq> 0"
  then have "unat v div 128 \<noteq> 0" using unat_drop_7 [of v] by (metis unat_eq_zero)
  then show "((ins, v', xa, y), ins, v, w, p) \<in> measure (\<lambda>(_, v, _, _). unat v)" using \<open>v' = drop_bit 7 v\<close> by (simp add: unat_drop_7)
qed simp

declare pf_PutVarInt.simps [simp del]

definition pf_PutSignedVarInt :: "(byte list \<Rightarrow> 'w put) \<Rightarrow> 64 word \<Rightarrow> 'w put" where
  "pf_PutSignedVarInt ins value = pf_PutVarInt ins (push_bit 1 value XOR signed_drop_bit 63 value)"

text \<open>Numbers are written as they lie in memory, the low byte first.\<close>

definition memory_of :: "nat \<Rightarrow> ('l::len) word \<Rightarrow> byte list" where
  "memory_of n v = map (\<lambda>i. ucast (drop_bit (8 * i) v)) [0..<n]"

definition pf_PutFixed32 :: "(byte list \<Rightarrow> 'w put) \<Rightarrow> 32 word \<Rightarrow> 'w put" where
  "pf_PutFixed32 ins value = ins (memory_of 4 value)"

definition pf_PutFixed64 :: "(byte list \<Rightarrow> 'w put) \<Rightarrow> 64 word \<Rightarrow> 'w put" where
  "pf_PutFixed64 ins value = ins (memory_of 8 value)"

definition then_put :: "'w put \<Rightarrow> 'w put \<Rightarrow> 'w put" where
  "then_put f g w p = bindR (f w p) (\<lambda>(w', p'). g w' p')"

definition pf_PutString :: "(byte list \<Rightarrow> 'w put) \<Rightarrow> byte list \<Rightarrow> 'w put" where
  "pf_PutString ins string = then_put (pf_PutVarInt ins (of_nat (length string))) (ins string)"

definition pf_PutBytes :: "(byte list \<Rightarrow> 'w put) \<Rightarrow> byte list \<Rightarrow> 'w put" where
  "pf_PutBytes ins bytes = then_put (pf_PutVarInt ins (of_nat (length bytes))) (ins bytes)"

subsection \<open>Fields\<close>

text \<open>The tag of a field is a 32 bit number.\<close>

definition proto_tag :: "32 word \<Rightarrow> 32 word \<Rightarrow> 64 word" where
  "proto_tag fieldNumber k = ucast (push_bit 3 fieldNumber OR k)"

definition pf_PutVarIntField :: "(byte list \<Rightarrow> 'w put) \<Rightarrow> 64 word \<Rightarrow> 32 word \<Rightarrow> 'w put" where
  "pf_PutVarIntField ins value fieldNumber = then_put (pf_PutVarInt ins (proto_tag fieldNumber 0)) (pf_PutVarInt ins value)"

definition pf_PutSignedVarIntField :: "(byte list \<Rightarrow> 'w put) \<Rightarrow> 64 word \<Rightarrow> 32 word \<Rightarrow> 'w put" where
  "pf_PutSignedVarIntField ins value fieldNumber = then_put (pf_PutVarInt ins (proto_tag fieldNumber 0)) (pf_PutSignedVarInt ins value)"

definition pf_PutFixed32Field :: "(byte list \<Rightarrow> 'w put) \<Rightarrow> 32 word \<Rightarrow> 32 word \<Rightarrow> 'w put" where
  "pf_PutFixed32Field ins value fieldNumber = then_put (pf_PutVarInt ins (proto_tag fieldNumber 5)) (pf_PutFixed32 ins value)"

definition pf_PutFixed64Field :: "(byte list \<Rightarrow> 'w put) \<Rightarrow> 64 word \<Rightarrow> 32 word \<Rightarrow> 'w put" where
  "pf_PutFixed64Field ins value fieldNumber = then_put (pf_PutVarInt ins (proto_tag fieldNumber 1)) (pf_PutFixed64 ins value)"

definition pf_PutLengthDelimitedField :: "(byte list \<Rightarrow> 'w put) \<Rightarrow> byte list \<Rightarrow> 32 word \<Rightarrow> 'w put" where
  "pf_PutLengthDelimitedField ins rng fieldNumber =
     then_put (pf_PutVarInt ins (proto_tag fieldNumber 2)) (then_put (pf_PutVarInt ins (of_nat (length rng))) (ins rng))"

definition pf_PutStringField :: "(byte list \<Rightarrow> 'w put) \<Rightarrow> byte list \<Rightarrow> 32 word \<Rightarrow> 'w put" where
  "pf_PutStringField ins string fieldNumber = then_put (pf_PutVarInt ins (proto_tag fieldNumber 2)) (pf_PutString ins string)"

definition pf_PutBytesField :: "(byte list \<Rightarrow> 'w put) \<Rightarrow> byte list \<Rightarrow> 32 word \<Rightarrow> 'w put" where
  "pf_PutBytesField ins bytes fieldNumber = then_put (pf_PutVarInt ins (proto_tag fieldNumber 2)) (pf_PutBytes ins bytes)"

definition pf_PutLengthDelimitedSize :: "(byte list \<Rightarrow> 'w put) \<Rightarrow> nat \<Rightarrow> 32 word \<Rightarrow> 'w put" where
  "pf_PutLengthDelimitedSize ins n fieldNumber = then_put (pf_PutVarInt ins (proto_tag fieldNumber 2)) (pf_PutVarInt ins (of_nat n))"

subsection \<open>ProtoLengthDelimitedFormatter\<close>

text \<open>
  The operations of the writer the formatter uses. The marker of a formatter that was moved from is the largest number, here \<open>None\<close>.
\<close>

record 'w writer_ops =
  wo_Insert :: "byte list \<Rightarrow> 'w put"
  wo_ConstructSaveMarker :: "'w \<Rightarrow> nat"
  wo_GetProcessedBytesSince :: "nat \<Rightarrow> 'w \<Rightarrow> nat"
  wo_SaveState :: "nat \<Rightarrow> 'w \<Rightarrow> ('w \<times> mrange) result"
  wo_RestoreState :: "mrange \<Rightarrow> 'w \<Rightarrow> 'w result"
  wo_write :: "nat \<Rightarrow> byte list \<Rightarrow> 'w \<Rightarrow> 'w"

type_synonym delimited_formatter = "nat option"

definition ldf_make :: "'w writer_ops \<Rightarrow> 32 word \<Rightarrow> 'w \<Rightarrow> error_policy \<Rightarrow> (delimited_formatter \<times> 'w \<times> error_policy) result" where
  "ldf_make W fieldNumber w p =
     bindR (pf_PutVarInt (wo_Insert W) (proto_tag fieldNumber 2) w p) (\<lambda>(w', p'). Inr (Some (wo_ConstructSaveMarker W w'), w', p'))"

definition ldf_move :: "delimited_formatter \<Rightarrow> delimited_formatter \<times> delimited_formatter" where
  "ldf_move other = (other, None)"

definition ldf_destroy :: "'w writer_ops \<Rightarrow> delimited_formatter \<Rightarrow> 'w put" where
  "ldf_destroy W marker w p =
     (case marker of
        None \<Rightarrow> Inr (w, p)
      | Some m \<Rightarrow>
          (let n = wo_GetProcessedBytesSince W m w
           in bindR (sm_make (wo_SaveState W) m w) (\<lambda>saved.
              bindR (pf_PutVarInt (sm_Insert (wo_write W)) (of_nat n) saved (ep_make FailByAssertion)) (\<lambda>(saved', q).
              bindR (ep_destroy q) (\<lambda>_. bindR (sm_destroy (wo_RestoreState W) saved') (\<lambda>w'. Inr (w', p)))))))"

subsection \<open>The code of numbers\<close>

text \<open>The specification: seven bits in each byte, the low bits first; all bytes but the last have the high bit.\<close>

fun varint :: "nat \<Rightarrow> byte list" where
  "varint n = (if n < 128 then [of_nat n] else of_nat (n mod 128 + 128) # varint (n div 128))"

declare varint.simps [simp del]

definition single :: "byte \<Rightarrow> byte list" where
  "single b = [b]"

lemma varint_nonempty [simp]: "varint n \<noteq> []"
  by (subst varint.simps) simp

lemma concat_single [simp]: "concat (map single bs) = bs"
  by (induction bs) (simp_all add: single_def)

lemma ucast_of_unat: "ucast (v :: 64 word) = (of_nat (unat v) :: byte)"
  by simp

lemma varint_byte:
  "(if 127 < v then ucast ((v AND 127) OR 128) else ucast v) = (of_nat (if unat v < 128 then unat v else unat v mod 128 + 128) :: byte)" for v :: "64 word"
proof (cases "127 < v")
  case True
  then have n: "\<not> unat v < 128" by (simp add: word_less_nat_alt)
  have a: "v AND 127 = take_bit 7 v" using take_bit_eq_mask [of 7 v] by (simp add: mask_eq_decr_exp)
  have "take_bit 7 v AND 128 = 0" using bit_take_bit_iff
    by (intro bit_word_eqI) (auto simp: bit_and_iff bit_take_bit_iff bit_numeral_rec split: nat.splits)
  then have "(v AND 127) OR 128 = take_bit 7 v + 128" unfolding a by (simp only: disjunctive_add_eq_or)
  moreover have "unat (take_bit 7 v + 128) = unat v mod 128 + 128"
    using unsigned_take_bit_eq [of 7 v, where ?'a = nat] by (simp add: unat_word_ariths take_bit_eq_mod)
  ultimately have "unat ((v AND 127) OR 128) = unat v mod 128 + 128" by (simp only:)
  then have "ucast ((v AND 127) OR 128) = (of_nat (unat v mod 128 + 128) :: byte)" unfolding ucast_of_unat by (simp only:)
  then show ?thesis using True n by (simp only: if_True if_False)
next
  case False
  then show ?thesis by (simp add: word_less_nat_alt)
qed

lemma drop_7_zero: "drop_bit 7 v = 0 \<longleftrightarrow> unat v < 128" for v :: "64 word"
  unfolding word_unat_eq_iff unat_drop_7 by (simp add: div_eq_0_iff)

lemma PutVarInt_write_all: "pf_PutVarInt ins v w p = write_all ins (map single (varint (unat v))) w p"
proof (induction ins v w p rule: pf_PutVarInt.induct)
  case (1 ins v w p)
  note b = varint_byte [of v]
  show ?case
  proof (cases "unat v < 128")
    case True
    then have "varint (unat v) = [of_nat (unat v)]" by (subst varint.simps) simp
    then show ?thesis using True drop_7_zero [of v]
      unfolding pf_PutVarInt.simps [of ins v w p] b by (simp add: Let_def single_def case_prod_unfold)
  next
    case False
    then have "varint (unat v) = of_nat (unat v mod 128 + 128) # varint (unat (drop_bit 7 v))" by (subst varint.simps) (simp add: unat_drop_7)
    then show ?thesis using False drop_7_zero [of v] "1.IH" unfolding pf_PutVarInt.simps [of ins v w p] b
      by (auto simp: Let_def single_def intro!: bindR_cong)
  qed
qed

lemma varint_length: "n < 128 ^ Suc k \<Longrightarrow> length (varint n) \<le> Suc k"
proof (induction k arbitrary: n)
  case 0
  then show ?case by (subst varint.simps) simp
next
  case (Suc k)
  have "n div 128 < 128 ^ Suc k" using Suc.prems by (simp add: less_mult_imp_div_less mult.commute)
  from Suc.IH [OF this] show ?case by (subst varint.simps) simp
qed

lemma varint_word_length: "length (varint (unat (v :: 64 word))) \<le> 10"
proof -
  have "unat v < 128 ^ Suc 9" using unsigned_less [of v, where ?'a = nat] by simp
  from varint_length [OF this] show ?thesis by simp
qed

lemma MaxVarIntSize_loop_length: "MaxVarIntSize_loop v r = r + of_nat (length (varint (unat v)) - 1)"
proof (induction v r rule: MaxVarIntSize_loop.induct)
  case (1 v r)
  show ?case
  proof (cases "127 < v")
    case True
    then have "\<not> unat v < 128" by (simp add: word_less_nat_alt)
    then have "length (varint (unat v)) = Suc (length (varint (unat (drop_bit 7 v))))" by (subst varint.simps) (simp add: unat_drop_7)
    moreover have "length (varint (unat (drop_bit 7 v))) \<noteq> 0" by simp
    then obtain k where "length (varint (unat (drop_bit 7 v))) = Suc k" by (meson not0_implies_Suc)
    ultimately show ?thesis using True "1.IH" [OF True] by (subst MaxVarIntSize_loop.simps) simp
  next
    case False
    then have "unat v < 128" by (simp add: word_less_nat_alt)
    then have "varint (unat v) = [of_nat (unat v)]" by (subst varint.simps) simp
    then show ?thesis using False by (subst MaxVarIntSize_loop.simps) simp
  qed
qed

lemma MaxVarIntSize_length: "unat (MaxVarIntSize v) = length (varint (unat v))"
proof -
  obtain k where k: "length (varint (unat v)) = Suc k" by (metis length_0_conv not0_implies_Suc varint_nonempty)
  then have "k < 10" using varint_word_length [of v] by simp
  then have "unat (1 + of_nat k :: 32 word) = Suc k"
    by (simp add: unat_word_ariths unat_of_nat take_bit_nat_eq_self)
  then show ?thesis using k by (simp add: MaxVarIntSize_def MaxVarIntSize_loop_length)
qed

subsection \<open>Messages\<close>

text \<open>What a client of the formatter writes: fields, and messages in fields, each by the function for it.\<close>

datatype proto_item =
    ItemVarInt "64 word" "32 word"
  | ItemSigned "64 word" "32 word"
  | ItemFixed32 "32 word" "32 word"
  | ItemFixed64 "64 word" "32 word"
  | ItemDelimited "byte list" "32 word"
  | ItemString "byte list" "32 word"
  | ItemBytes "byte list" "32 word"
  | ItemMessage "proto_item list" "32 word"

fun pf_item :: "'w writer_ops \<Rightarrow> proto_item \<Rightarrow> 'w put"
  and pf_items :: "'w writer_ops \<Rightarrow> proto_item list \<Rightarrow> 'w put" where
  "pf_item W (ItemVarInt v f) = pf_PutVarIntField (wo_Insert W) v f"
| "pf_item W (ItemSigned v f) = pf_PutSignedVarIntField (wo_Insert W) v f"
| "pf_item W (ItemFixed32 v32 f) = pf_PutFixed32Field (wo_Insert W) v32 f"
| "pf_item W (ItemFixed64 v f) = pf_PutFixed64Field (wo_Insert W) v f"
| "pf_item W (ItemDelimited bs f) = pf_PutLengthDelimitedField (wo_Insert W) bs f"
| "pf_item W (ItemString bs f) = pf_PutStringField (wo_Insert W) bs f"
| "pf_item W (ItemBytes bs f) = pf_PutBytesField (wo_Insert W) bs f"
| "pf_item W (ItemMessage items f) =
     (\<lambda>w p. bindR (ldf_make W f w p) (\<lambda>(d, w1, p1). bindR (pf_items W items w1 p1) (\<lambda>(w2, p2). ldf_destroy W d w2 p2)))"
| "pf_items W [] = (\<lambda>w p. Inr (w, p))"
| "pf_items W (item # items) = then_put (pf_item W item) (pf_items W items)"

text \<open>The format: the bytes of a message.\<close>

definition zigzag :: "64 word \<Rightarrow> 64 word" where
  "zigzag v = push_bit 1 v XOR signed_drop_bit 63 v"

definition field_bytes :: "32 word \<Rightarrow> 32 word \<Rightarrow> byte list \<Rightarrow> byte list" where
  "field_bytes f k content = varint (unat (proto_tag f k)) @ content"

definition delimited_bytes :: "byte list \<Rightarrow> byte list" where
  "delimited_bytes bs = varint (unat (of_nat (length bs) :: 64 word)) @ bs"

fun item_bytes :: "proto_item \<Rightarrow> byte list" and items_bytes :: "proto_item list \<Rightarrow> byte list" where
  "item_bytes (ItemVarInt v f) = field_bytes f 0 (varint (unat v))"
| "item_bytes (ItemSigned v f) = field_bytes f 0 (varint (unat (zigzag v)))"
| "item_bytes (ItemFixed32 v32 f) = field_bytes f 5 (memory_of 4 v32)"
| "item_bytes (ItemFixed64 v f) = field_bytes f 1 (memory_of 8 v)"
| "item_bytes (ItemDelimited bs f) = field_bytes f 2 (delimited_bytes bs)"
| "item_bytes (ItemString bs f) = field_bytes f 2 (delimited_bytes bs)"
| "item_bytes (ItemBytes bs f) = field_bytes f 2 (delimited_bytes bs)"
| "item_bytes (ItemMessage items f) = field_bytes f 2 (delimited_bytes (items_bytes items))"
| "items_bytes [] = []"
| "items_bytes (item # items) = item_bytes item @ items_bytes items"

lemma then_put_write_all:
  "then_put (write_all ins xss) (write_all ins yss) = write_all ins (xss @ yss)"
proof -
  have "bindR (write_all ins xss w p) (\<lambda>(w', p'). write_all ins yss w' p') = write_all ins (xss @ yss) w p" for w p
    by (induction xss arbitrary: w p) (simp_all add: bindR_assoc case_prod_unfold)
  then show ?thesis by (simp add: then_put_def fun_eq_iff)
qed

lemma bindR_Inr [simp]: "bindR m Inr = m"
  by (cases m) simp_all

lemma then_put_range: "then_put (write_all ins xss) (ins bs) = write_all ins (xss @ [bs])"
proof -
  have "ins bs = write_all ins [bs]" by (simp add: fun_eq_iff case_prod_unfold)
  then show ?thesis using then_put_write_all [of ins xss "[bs]"] by simp
qed

text \<open>All fields but messages are a sequence of ranges that are written.\<close>

primrec item_ranges :: "proto_item \<Rightarrow> byte list list" where
  "item_ranges (ItemVarInt v f) = map single (varint (unat (proto_tag f 0))) @ map single (varint (unat v))"
| "item_ranges (ItemSigned v f) = map single (varint (unat (proto_tag f 0))) @ map single (varint (unat (zigzag v)))"
| "item_ranges (ItemFixed32 v32 f) = map single (varint (unat (proto_tag f 5))) @ [memory_of 4 v32]"
| "item_ranges (ItemFixed64 v f) = map single (varint (unat (proto_tag f 1))) @ [memory_of 8 v]"
| "item_ranges (ItemDelimited bs f) = map single (varint (unat (proto_tag f 2))) @ map single (varint (unat (of_nat (length bs) :: 64 word))) @ [bs]"
| "item_ranges (ItemString bs f) = map single (varint (unat (proto_tag f 2))) @ map single (varint (unat (of_nat (length bs) :: 64 word))) @ [bs]"
| "item_ranges (ItemBytes bs f) = map single (varint (unat (proto_tag f 2))) @ map single (varint (unat (of_nat (length bs) :: 64 word))) @ [bs]"
| "item_ranges (ItemMessage items f) = []"

lemma PutVarInt_ranges: "pf_PutVarInt ins v = write_all ins (map single (varint (unat v)))"
  by (simp add: fun_eq_iff PutVarInt_write_all)

lemmas pf_fields = pf_PutVarIntField_def pf_PutSignedVarIntField_def pf_PutSignedVarInt_def pf_PutFixed32Field_def pf_PutFixed32_def
  pf_PutFixed64Field_def pf_PutFixed64_def pf_PutLengthDelimitedField_def pf_PutStringField_def pf_PutString_def pf_PutBytesField_def pf_PutBytes_def

lemma plain_item_ranges:
  assumes "\<And>items f. item \<noteq> ItemMessage items f"
  shows "pf_item W item = write_all (wo_Insert W) (item_ranges item) \<and> concat (item_ranges item) = item_bytes item"
proof -
  have "pf_item W item = write_all (wo_Insert W) (item_ranges item)"
    using assms by (cases item; (simp only: pf_item.simps item_ranges.simps pf_fields PutVarInt_ranges then_put_range then_put_write_all zigzag_def append_assoc | blast))
  moreover have "concat (item_ranges item) = item_bytes item"
    using assms by (cases item; (simp only: item_ranges.simps item_bytes.simps concat_append concat_single concat.simps append_Nil2 field_bytes_def delimited_bytes_def | blast))
  ultimately show ?thesis ..
qed

subsection \<open>Writing keeps to the format\<close>

lemma sm_run_inserts: "write_all (sm_Insert wr) xss m p = sm_run wr (map SmInsert xss) m p"
  by (induction xss arbitrary: m p) (auto simp: case_prod_unfold intro!: bindR_cong)

lemma sm_result_inserts: "sm_result (map SmInsert xss) c d = c @ d @ concat xss"
  by (induction xss arbitrary: d) simp_all

lemma sm_fits_inserts: "sm_fits room (map SmInsert xss) c d \<longleftrightarrow> xss = [] \<or> length (c @ d @ concat xss) \<le> room"
  by (induction xss arbitrary: d) auto

lemma sm_run_policy:
  "sm_run wr acts m p = Inr (m', p') \<Longrightarrow> ep_failureMode p = FailByAssertion \<Longrightarrow> ep_checkedFail p \<Longrightarrow> ep_destroy p' = Inr ()"
proof (induction wr acts m p rule: sm_run.induct)
  case (1 wr m p)
  then show ?case by (simp add: ep_destroy_def)
next
  case (2 wr ys acts m p)
  have "length ys \<le> mr_size (sm_streamRange m) - sm_offset m"
  proof (rule ccontr)
    assume "\<not> ?thesis"
    then have "sm_Insert wr ys m p = Inl AssertFailed" using 2(3) by (simp add: sm_Insert_def)
    then show False using 2(2) by simp
  qed
  then obtain m1 where "sm_Insert wr ys m p = Inr (m1, p\<lparr>ep_checkedFail := True\<rparr>)" using 2(3) by (simp add: sm_Insert_def Let_def)
  then show ?case using 2(1) [of "(m1, p\<lparr>ep_checkedFail := True\<rparr>)"] 2(2,3) by simp
qed simp_all

locale proto_output =
  stream_sink ok written "wo_Insert W" available + marker_stream ok full written mem available "wo_SaveState W" "wo_RestoreState W" "wo_write W"
  for W :: "'s writer_ops" and ok :: "'s \<Rightarrow> bool" and full :: "'s \<Rightarrow> bool" and written :: "'s \<Rightarrow> byte list" and mem :: "'s \<Rightarrow> byte list"
    and available :: "'s \<Rightarrow> nat" +
  fixes capacity :: nat
  assumes save_marker: "ok s \<Longrightarrow> wo_ConstructSaveMarker W s = length (written s)"
    and processed_since: "ok s \<Longrightarrow> wo_GetProcessedBytesSince W m s = length (written s) - m"
    and capacity: "ok s \<Longrightarrow> available s + length (written s) = capacity"
begin

text \<open>The destructor inserts the length of what was written since the constructor.\<close>

lemma destroy_inserts_length:
  assumes s: "ok s" and w: "written s = xs @ ys" and fits: "length (varint (unat (of_nat (length ys) :: 64 word))) \<le> available s"
  shows "\<exists>s'. ldf_destroy W (Some (length xs)) s p = Inr (s', p) \<and> ok s' \<and> written s' = xs @ delimited_bytes ys"
proof -
  let ?v = "of_nat (length ys) :: 64 word"
  let ?acts = "map SmInsert (map single (varint (unat ?v)))"
  have "sm_fits (available s) ?acts [] []" using fits unfolding sm_fits_inserts by simp
  moreover have "length xs \<le> length (written s)" by (simp add: w)
  ultimately obtain s' where s': "bindR (sm_make (wo_SaveState W) (length xs) s) (\<lambda>sm. bindR (sm_run (wo_write W) ?acts sm (ep_make FailByAssertion))
      (\<lambda>(sm', p'). sm_destroy (wo_RestoreState W) sm')) = Inr s'" "ok s'" "written s' = xs @ varint (unat ?v) @ ys"
    using session [OF s, of "length xs" ?acts "ep_make FailByAssertion"] unfolding sm_result_inserts by (auto simp: w)
  then obtain sm sm' q where sm: "sm_make (wo_SaveState W) (length xs) s = Inr sm" "sm_run (wo_write W) ?acts sm (ep_make FailByAssertion) = Inr (sm', q)"
      "sm_destroy (wo_RestoreState W) sm' = Inr s'"
    by (auto simp: bindR_Inr_iff)
  have q: "ep_destroy q = Inr ()" by (rule sm_run_policy [OF sm(2)]) (simp_all add: ep_make_def)
  have "wo_GetProcessedBytesSince W (length xs) s = length ys" using processed_since [OF s] by (simp add: w)
  then show ?thesis using s' sm q
    by (simp add: ldf_destroy_def PutVarInt_ranges sm_run_inserts delimited_bytes_def)
qed

definition adds :: "'s put \<Rightarrow> byte list \<Rightarrow> bool" where
  "adds f bs \<longleftrightarrow> (\<forall>s p. ok s \<longrightarrow> length bs \<le> available s \<longrightarrow>
     (\<exists>s' p'. f s p = Inr (s', p') \<and> ok s' \<and> written s' = written s @ bs))"

lemma addsD:
  assumes "adds f bs" and "ok s" and "length bs \<le> available s"
  obtains s' p' where "f s p = Inr (s', p')" "ok s'" "written s' = written s @ bs" "available s' = available s - length bs"
proof -
  obtain s' p' where s': "f s p = Inr (s', p')" "ok s'" "written s' = written s @ bs"
    using assms unfolding adds_def by blast
  moreover have "available s' = available s - length bs" using capacity [OF assms(2)] capacity [OF s'(2)] s'(3) by simp
  ultimately show thesis by (rule that)
qed

lemma adds_ranges: "adds (write_all (wo_Insert W) xss) (concat xss)"
  unfolding adds_def using write_all_fits by blast

lemma adds_then: "adds f xs \<Longrightarrow> adds g ys \<Longrightarrow> adds (then_put f g) (xs @ ys)"
  unfolding adds_def [of "then_put f g"]
proof (intro allI impI)
  fix s p assume f: "adds f xs" and g: "adds g ys" and s: "ok s" "length (xs @ ys) \<le> available s"
  obtain s1 p1 where s1: "f s p = Inr (s1, p1)" "ok s1" "written s1 = written s @ xs" "available s1 = available s - length xs"
    using s by (auto intro: addsD [OF f, of s p])
  obtain s2 p2 where "g s1 p1 = Inr (s2, p2)" "ok s2" "written s2 = written s1 @ ys"
    using s s1 by (auto intro: addsD [OF g, of s1 p1])
  then show "\<exists>s' p'. then_put f g s p = Inr (s', p') \<and> ok s' \<and> written s' = written s @ xs @ ys"
    using s1 by (simp add: then_put_def)
qed

lemma adds_message:
  assumes "adds (pf_items W items) (items_bytes items)"
  shows "adds (pf_item W (ItemMessage items f)) (item_bytes (ItemMessage items f))"
  unfolding adds_def
proof (intro allI impI)
  fix s p
  let ?t = "varint (unat (proto_tag f 2))" and ?n = "varint (unat (of_nat (length (items_bytes items)) :: 64 word))"
  assume s: "ok s" "length (item_bytes (ItemMessage items f)) \<le> available s"
  have len: "length ?t + length ?n + length (items_bytes items) \<le> available s" using s(2) by (simp add: field_bytes_def delimited_bytes_def)
  obtain s1 p1 where s1: "pf_PutVarInt (wo_Insert W) (proto_tag f 2) s p = Inr (s1, p1)" "ok s1" "written s1 = written s @ ?t"
      "available s1 = available s - length ?t"
    using len s(1) by (auto intro: addsD [OF adds_ranges, of s "map single ?t" p] simp: PutVarInt_ranges)
  obtain s2 p2 where s2: "pf_items W items s1 p1 = Inr (s2, p2)" "ok s2" "written s2 = written s1 @ items_bytes items"
      "available s2 = available s1 - length (items_bytes items)"
    using len s1 by (auto intro: addsD [OF assms, of s1 p1])
  have room: "length ?n \<le> available s2" using len s1(4) s2(4) by linarith
  obtain s3 where "ldf_destroy W (Some (length (written s1))) s2 p2 = Inr (s3, p2)" "ok s3" "written s3 = written s1 @ delimited_bytes (items_bytes items)"
    using destroy_inserts_length [OF s2(2,3) room, of p2] by auto
  then show "\<exists>s' p'. pf_item W (ItemMessage items f) s p = Inr (s', p') \<and> ok s' \<and> written s' = written s @ item_bytes (ItemMessage items f)"
    using s1 s2 by (simp add: ldf_make_def save_marker field_bytes_def)
qed

lemma adds_plain:
  assumes "\<And>items f. item \<noteq> ItemMessage items f"
  shows "adds (pf_item W item) (item_bytes item)"
  using plain_item_ranges [OF assms, of W] adds_ranges [of "item_ranges item"] by simp

lemma items_written: "adds (pf_item W item) (item_bytes item)" "adds (pf_items W items) (items_bytes items)"
proof (induction item and items rule: item_bytes_items_bytes.induct)
  case (8 items f)
  then show ?case by (rule adds_message)
next
  case 9
  show ?case using adds_ranges [of "[]"] by (simp add: adds_def)
next
  case (10 item items)
  then show ?case using adds_then by simp
qed (rule adds_plain; simp)+

end

text \<open>The writers to vectors and to ranges of bytes.\<close>

definition bvw_ops :: "byte bounded_vector writer_ops" where
  "bvw_ops = \<lparr>wo_Insert = bvw_Insert, wo_ConstructSaveMarker = bvw_ConstructSaveMarker, wo_GetProcessedBytesSince = bvw_GetProcessedBytesSince,
     wo_SaveState = bvw_SaveState, wo_RestoreState = bvw_RestoreState, wo_write = bvw_write\<rparr>"

definition bw_ops :: "byte_writer writer_ops" where
  "bw_ops = \<lparr>wo_Insert = bw_Insert, wo_ConstructSaveMarker = bw_ConstructSaveMarker, wo_GetProcessedBytesSince = bw_GetProcessedBytesSince,
     wo_SaveState = bw_SaveState, wo_RestoreState = bw_RestoreState, wo_write = bw_write\<rparr>"

lemma bv_size_le: "bv_inv v \<Longrightarrow> bv_size v \<le> bv_max_size v"
  using bv_inv_le [of v] by (simp add: bv_size_def bv_max_size_def)

lemma bvw_RestoreState_capacity:
  assumes s: "bv_full_ok s" and be: "b \<le> e" "e \<le> length (bv_list s)" and r: "bvw_RestoreState (mr_make b e) s = Inr s'"
  shows "bv_max_size s' = bv_max_size s"
proof -
  let ?ys = "overwrite (bv_list s) b (drop e (bv_list s))" and ?N = "bv_max_size s"
  have n: "length (bv_list s) = ?N" "bv_size s = ?N" "bv_numAllocated s = ?N" using s by (simp_all add: bv_full_ok_def bv_size_def)
  let ?v = "s\<lparr>bv_storage := map Some ?ys\<rparr>"
  have ys: "length ?ys = ?N" using be n by simp
  have v: "bv_inv ?v" "bv_max_size ?v = ?N" using bv_full_set(1) [OF ys n(3)] ys by (simp_all add: bv_full_ok_def bv_max_size_def)
  have "bv_resize (?N - (e - b)) 0 ?v = Inr s'"
    using r n v(2) by (simp add: bvw_RestoreState_def bv_full_storage [OF s] map_overwrite drop_map mr_make_def mr_size_def Let_def bv_size_def)
  then show ?thesis using bv_resize_correct [OF v(1), of "?N - (e - b)" 0] v(2) by auto
qed

interpretation bvw_proto: proto_output bvw_ops "\<lambda>v. bv_inv v \<and> bv_max_size v = N" "\<lambda>v. bv_full_ok v \<and> bv_max_size v = N" bv_list bv_list bvw_Available N for N
proof
  fix s :: "byte bounded_vector" and xs ys :: "byte list" and m i b e :: nat
  show "\<exists>s'. (\<forall>p. wo_Insert bvw_ops xs s p = bindR (ep_ReportResult True p) (\<lambda>p'. Inr (s', p')))
      \<and> (bv_inv s' \<and> bv_max_size s' = N) \<and> bv_list s' = bv_list s @ xs \<and> bvw_Available s' = bvw_Available s - length xs"
    if s: "bv_inv s \<and> bv_max_size s = N" and room: "length xs \<le> bvw_Available s"
  proof -
    obtain s' where s': "\<forall>p. bvw_Insert xs s p = bindR (ep_ReportResult True p) (\<lambda>p'. Inr (s', p'))" "bv_inv s'" "bv_list s' = bv_list s @ xs"
        "bvw_Available s' = bvw_Available s - length xs"
      using bvw.ins [OF _ room] s by blast
    have "bv_size s' = bv_size s + length xs" using arg_cong [OF s'(3), of length] s s'(2) by simp
    moreover have "bv_size s' \<le> bv_max_size s'" "bv_size s \<le> bv_max_size s" using bv_size_le s s'(2) by auto
    ultimately have "bv_max_size s' = bv_max_size s" using s'(4) room by (simp add: bvw_Available_def)
    then show ?thesis using s s' by (auto simp: bvw_ops_def)
  qed
  have full: "length (bv_list v) = bv_max_size v" if "bv_full_ok v" for v :: "byte bounded_vector" using that by (simp add: bv_full_ok_def)
  show "\<exists>s' e. wo_SaveState bvw_ops m s = Inr (s', mr_make m e) \<and> (bv_full_ok s' \<and> bv_max_size s' = N) \<and> m + bvw_Available s = e
      \<and> e \<le> length (bv_list s') \<and> take m (bv_list s') = take m (bv_list s) \<and> drop e (bv_list s') = drop m (bv_list s)"
    if s: "bv_inv s \<and> bv_max_size s = N" and m: "m \<le> length (bv_list s)"
  proof -
    obtain s' e where s': "bvw_SaveState m s = Inr (s', mr_make m e)" "bv_full_ok s'" "m + bvw_Available s = e" "e \<le> length (bv_list s')"
        "take m (bv_list s') = take m (bv_list s)" "drop e (bv_list s') = drop m (bv_list s)"
      using bvw_marker.save_state [OF _ m] s by blast
    have "bv_size s \<le> bv_max_size s" using bv_size_le s by auto
    then have "bv_max_size s' = N" using arg_cong [OF s'(6), of length] s'(3,4) full [OF s'(2)] s m by (simp add: bvw_Available_def)
    then show ?thesis using s' by (auto simp: bvw_ops_def)
  qed
  show "(bv_full_ok (wo_write bvw_ops i ys s) \<and> bv_max_size (wo_write bvw_ops i ys s) = N) \<and> bv_list (wo_write bvw_ops i ys s) = overwrite (bv_list s) i ys"
    if s: "bv_full_ok s \<and> bv_max_size s = N" and i: "i + length ys \<le> length (bv_list s)"
    using bvw_marker.wr [OF _ i] s full i by (auto simp: bvw_ops_def bvw_write_def bv_max_size_def)
  show "\<exists>s'. wo_RestoreState bvw_ops (mr_make b e) s = Inr s' \<and> (bv_inv s' \<and> bv_max_size s' = N) \<and> bv_list s' = take b (bv_list s) @ drop e (bv_list s)"
    if s: "bv_full_ok s \<and> bv_max_size s = N" and be: "b \<le> e" "e \<le> length (bv_list s)"
    using bvw_marker.restore_state [OF _ be] bvw_RestoreState_capacity [OF _ be] s by (auto simp: bvw_ops_def)
qed (auto simp: bvw_ops_def bvw_ConstructSaveMarker_def bvw_GetProcessedBytesSince_def bvw_Available_def bv_size_le)

interpretation bw_proto: proto_output bw_ops "\<lambda>w. bw_ok w \<and> length (bw_streamRange w) = N" "\<lambda>w. length (bw_streamRange w) = N"
  bw_Processed bw_streamRange bw_Available N for N
proof
  fix s :: byte_writer and xs ys :: "byte list" and m i b e :: nat
  show "\<exists>s'. (\<forall>p. wo_Insert bw_ops xs s p = bindR (ep_ReportResult True p) (\<lambda>p'. Inr (s', p')))
      \<and> (bw_ok s' \<and> length (bw_streamRange s') = N) \<and> bw_Processed s' = bw_Processed s @ xs \<and> bw_Available s' = bw_Available s - length xs"
    if s: "bw_ok s \<and> length (bw_streamRange s) = N" and room: "length xs \<le> bw_Available s"
  proof -
    obtain s' where s': "\<forall>p. bw_Insert xs s p = bindR (ep_ReportResult True p) (\<lambda>p'. Inr (s', p'))" "bw_ok s'" "bw_Processed s' = bw_Processed s @ xs"
        "bw_Available s' = bw_Available s - length xs"
      using bw.ins [OF _ room] s by blast
    have "bw_offset s' = bw_offset s + length xs" using arg_cong [OF s'(3), of length] s s'(2) by (simp add: bw_Processed_def bw_ok_def)
    then have "length (bw_streamRange s') = N" using s s'(2,4) room unfolding bw_Available_def bw_ok_def by linarith
    then show ?thesis using s' by (auto simp: bw_ops_def)
  qed
  show "\<exists>s' e. wo_SaveState bw_ops m s = Inr (s', mr_make m e) \<and> length (bw_streamRange s') = N \<and> m + bw_Available s = e
      \<and> e \<le> length (bw_streamRange s') \<and> take m (bw_streamRange s') = take m (bw_Processed s) \<and> drop e (bw_streamRange s') = drop m (bw_Processed s)"
    if s: "bw_ok s \<and> length (bw_streamRange s) = N" and m: "m \<le> length (bw_Processed s)"
  proof -
    obtain s' e where s': "bw_SaveState m s = Inr (s', mr_make m e)" "m + bw_Available s = e" "e \<le> length (bw_streamRange s')"
        "take m (bw_streamRange s') = take m (bw_Processed s)" "drop e (bw_streamRange s') = drop m (bw_Processed s)"
      using bw_marker.save_state [OF _ m] s by blast
    have len: "length (bw_Processed s) = bw_offset s" using s by (simp add: bw_ok_def bw_Processed_def)
    have "length (bw_streamRange s') - e = length (bw_Processed s) - m" using arg_cong [OF s'(5), of length] by simp
    then have "length (bw_streamRange s') = N" using len s m s'(2,3) unfolding bw_Available_def bw_ok_def by linarith
    then show ?thesis using s' by (auto simp: bw_ops_def)
  qed
  show "\<exists>s'. wo_RestoreState bw_ops (mr_make b e) s = Inr s' \<and> (bw_ok s' \<and> length (bw_streamRange s') = N)
      \<and> bw_Processed s' = take b (bw_streamRange s) @ drop e (bw_streamRange s)"
    if s: "length (bw_streamRange s) = N" and be: "b \<le> e" "e \<le> length (bw_streamRange s)"
  proof -
    obtain s' where s': "bw_RestoreState (mr_make b e) s = Inr s'" "bw_ok s'" "bw_Processed s' = take b (bw_streamRange s) @ drop e (bw_streamRange s)"
      using bw_marker.restore_state [OF _ be] by blast
    have "length (bw_streamRange s') = N" using s'(1) s be by (auto simp: bw_RestoreState_def Let_def mr_make_def)
    then show ?thesis using s' by (simp add: bw_ops_def)
  qed
qed (auto simp: bw_ops_def bw_write_def bw_ConstructSaveMarker_def bw_GetProcessedBytesSince_def bw_Available_def bw_Processed_def bw_ok_def)

end
