(* ===== verification/Proto_Parser.thy ===== *)
theory Proto_Parser
  imports Proto_Formatter
begin

section \<open>Protocol buffers: reading\<close>

text \<open>
  \<^verbatim>\<open>infra::ProtoParser\<close> and \<^verbatim>\<open>infra::ProtoLengthDelimited\<close> (infra/syntax/ProtoParser.cpp). Both read through a \<^verbatim>\<open>LimitedStreamReader\<close> of their own over the reader of the stream they
  are made from, so a parser in a field of a message in a field reads through a stack of them; the state of a reader holds that of the reader below.
  The error policy of the format may be that of the stream: \<open>None\<close> stands for that case, where the two references name one object.
\<close>

record 'r proto_reader =
  pr_Extract :: "byte list \<Rightarrow> 'r \<Rightarrow> error_policy \<Rightarrow> (byte list \<times> 'r \<times> error_policy) result"
  pr_ExtractContiguousRange :: "nat \<Rightarrow> 'r \<Rightarrow> byte list \<times> 'r"
  pr_Empty :: "'r \<Rightarrow> bool"
  pr_Available :: "'r \<Rightarrow> nat"

definition pr_limited :: "'r proto_reader \<Rightarrow> 'r limited_reader proto_reader" where
  "pr_limited R = \<lparr>pr_Extract = lr_Extract (pr_Extract R), pr_ExtractContiguousRange = lr_ExtractContiguousRange (pr_ExtractContiguousRange R),
     pr_Empty = lr_Empty (pr_Empty R), pr_Available = lr_Available (pr_Available R)\<rparr>"

record 'r proto_input =
  pi_reader :: "'r limited_reader"
  pi_errorPolicy :: error_policy
  pi_formatErrorPolicy :: "error_policy option"

definition pi_Extract :: "'r proto_reader \<Rightarrow> byte list \<Rightarrow> 'r proto_input \<Rightarrow> (byte list \<times> 'r proto_input) result" where
  "pi_Extract R dst i = bindR (pr_Extract (pr_limited R) dst (pi_reader i) (pi_errorPolicy i))
     (\<lambda>(dst', r, p). Inr (dst', i\<lparr>pi_reader := r, pi_errorPolicy := p\<rparr>))"

definition pi_Failed :: "'r proto_input \<Rightarrow> bool \<times> 'r proto_input" where
  "pi_Failed i = (let (failed, p) = ep_Failed (pi_errorPolicy i) in (failed, i\<lparr>pi_errorPolicy := p\<rparr>))"

definition pi_ReportResult :: "bool \<Rightarrow> 'r proto_input \<Rightarrow> 'r proto_input result" where
  "pi_ReportResult good i = bindR (ep_ReportResult good (pi_errorPolicy i)) (\<lambda>p. Inr (i\<lparr>pi_errorPolicy := p\<rparr>))"

subsection \<open>ProtoParser\<close>

definition pp_make_format :: "'r proto_reader \<Rightarrow> 'r \<Rightarrow> error_policy \<Rightarrow> error_policy option \<Rightarrow> 'r proto_input" where
  "pp_make_format R r p format =
     \<lparr>pi_reader = lr_make r (pr_Available R r mod 2 ^ 32), pi_errorPolicy = p, pi_formatErrorPolicy = format\<rparr>"

definition pp_make :: "'r proto_reader \<Rightarrow> 'r \<Rightarrow> error_policy \<Rightarrow> 'r proto_input" where
  "pp_make R r p = pp_make_format R r p None"

definition pp_Empty :: "'r proto_reader \<Rightarrow> 'r proto_input \<Rightarrow> bool" where
  "pp_Empty R i = pr_Empty (pr_limited R) (pi_reader i)"

definition pp_ReportFormatResult :: "bool \<Rightarrow> 'r proto_input \<Rightarrow> 'r proto_input result" where
  "pp_ReportFormatResult good i =
     (case pi_formatErrorPolicy i of
        None \<Rightarrow> pi_ReportResult good i
      | Some q \<Rightarrow> bindR (ep_ReportResult good q) (\<lambda>q'. Inr (i\<lparr>pi_formatErrorPolicy := Some q'\<rparr>)))"

definition pp_FormatFailed :: "'r proto_input \<Rightarrow> bool \<times> 'r proto_input" where
  "pp_FormatFailed i =
     (case pi_formatErrorPolicy i of
        None \<Rightarrow> pi_Failed i
      | Some q \<Rightarrow> (let (failed, q') = ep_Failed q in (failed, i\<lparr>pi_formatErrorPolicy := Some q'\<rparr>)))"

text \<open>
  The loop of \<^verbatim>\<open>GetVarInt\<close>; the first argument is how far the index is from 10. The byte keeps its value when there is none to read.
\<close>

primrec pp_VarIntLoop :: "nat \<Rightarrow> 'r proto_reader \<Rightarrow> 64 word \<Rightarrow> nat \<Rightarrow> byte \<Rightarrow> 'r proto_input \<Rightarrow> (64 word \<times> byte \<times> nat \<times> 'r proto_input) result" where
  "pp_VarIntLoop 0 R result shift byte i = Inr (result, byte, 0, i)"
| "pp_VarIntLoop (Suc left) R result shift byte i =
     bindR (pi_Extract R [byte] i)
       (\<lambda>(bytes, i1). let byte1 = hd bytes;
            result1 = result + push_bit shift (ucast (byte1 AND 127));
            (failed, i2) = pi_Failed i1
        in if \<not> failed \<and> byte1 AND 128 \<noteq> 0 \<and> left \<noteq> 0 then pp_VarIntLoop left R result1 (shift + 7) byte1 i2
           else Inr (result1, byte1, left, i2))"

definition pp_GetVarInt :: "'r proto_reader \<Rightarrow> 'r proto_input \<Rightarrow> (64 word \<times> 'r proto_input) result" where
  "pp_GetVarInt R i =
     bindR (pp_VarIntLoop 10 R 0 0 0 i)
       (\<lambda>(result, byte, left, i1). let (failed, i2) = pi_Failed i1
          in if \<not> failed \<and> byte AND 128 \<noteq> 0 \<and> left = 0 then Inr (result, snd (pp_FormatFailed i2)) else Inr (result, i2))"

primrec value_of :: "byte list \<Rightarrow> ('l::len) word" where
  "value_of [] = 0"
| "value_of (b # bs) = ucast b OR push_bit 8 (value_of bs)"

definition pp_GetFixed32 :: "'r proto_reader \<Rightarrow> 'r proto_input \<Rightarrow> (32 word \<times> 'r proto_input) result" where
  "pp_GetFixed32 R i = bindR (pi_Extract R (memory_of 4 (0 :: 32 word)) i) (\<lambda>(bytes, i1). Inr (value_of bytes, i1))"

definition pp_GetFixed64 :: "'r proto_reader \<Rightarrow> 'r proto_input \<Rightarrow> (64 word \<times> 'r proto_input) result" where
  "pp_GetFixed64 R i = bindR (pi_Extract R (memory_of 8 (0 :: 64 word)) i) (\<lambda>(bytes, i1). Inr (value_of bytes, i1))"

datatype partial_field = PartialUint32 "32 word" | PartialUint64 "64 word" | PartialLengthDelimited "32 word"

definition pp_GetPartialField :: "'r proto_reader \<Rightarrow> 'r proto_input \<Rightarrow> (partial_field \<times> 32 word \<times> 'r proto_input) result" where
  "pp_GetPartialField R i =
     bindR (pp_GetVarInt R i) (\<lambda>(v, i1).
       let x = ucast v :: 32 word; type = x AND 7; fieldNumber = drop_bit 3 x
       in if type = 0 then bindR (pp_GetVarInt R i1) (\<lambda>(value, i2). Inr (PartialUint64 value, fieldNumber, i2))
          else if type = 1 then bindR (pp_GetFixed64 R i1) (\<lambda>(value, i2). Inr (PartialUint64 value, fieldNumber, i2))
          else if type = 2 then bindR (pp_GetVarInt R i1) (\<lambda>(value, i2). Inr (PartialLengthDelimited (ucast value), fieldNumber, i2))
          else if type = 5 then bindR (pp_GetFixed32 R i1) (\<lambda>(value, i2). Inr (PartialUint32 value, fieldNumber, i2))
          else bindR (pp_ReportFormatResult False i1) (\<lambda>i2. Inr (PartialUint32 0, 0, i2)))"

subsection \<open>ProtoLengthDelimited\<close>

text \<open>
  The field reads from the reader of the parser it was found by; \<open>pd_outer\<close> is that parser with what the field has read and reported.
\<close>

definition pd_make :: "'r proto_reader \<Rightarrow> 32 word \<Rightarrow> 'r proto_input \<Rightarrow> 'r limited_reader proto_input result" where
  "pd_make R len i =
     pi_ReportResult (unat len \<le> pr_Available (pr_limited R) (pi_reader i))
       \<lparr>pi_reader = lr_make (pi_reader i) (unat len), pi_errorPolicy = pi_errorPolicy i, pi_formatErrorPolicy = pi_formatErrorPolicy i\<rparr>"

definition pd_outer :: "'r limited_reader proto_input \<Rightarrow> 'r proto_input" where
  "pd_outer d = \<lparr>pi_reader = lr_input (pi_reader d), pi_errorPolicy = pi_errorPolicy d, pi_formatErrorPolicy = pi_formatErrorPolicy d\<rparr>"

definition pd_Available :: "'r proto_reader \<Rightarrow> 'r proto_input \<Rightarrow> nat" where
  "pd_Available R d = pr_Available (pr_limited R) (pi_reader d)"

definition pd_SkipEverything :: "nat \<Rightarrow> 'r proto_reader \<Rightarrow> 'r proto_input \<Rightarrow> 'r proto_input result" where
  "pd_SkipEverything fuel R d =
     (case drain fuel (pr_ExtractContiguousRange (pr_limited R)) (pr_Empty (pr_limited R)) (2 ^ 32 - 1) (pi_reader d) of
        None \<Rightarrow> Inl OutOfFuel
      | Some (rs, r) \<Rightarrow> Inr (d\<lparr>pi_reader := r\<rparr>))"

definition pd_Parser :: "'r proto_reader \<Rightarrow> 'r proto_input \<Rightarrow> 'r limited_reader proto_input" where
  "pd_Parser R d = pp_make_format (pr_limited R) (pi_reader d) (pi_errorPolicy d) (pi_formatErrorPolicy d)"

definition pd_GetBytes :: "'r proto_reader \<Rightarrow> byte bounded_vector \<Rightarrow> 'r proto_input \<Rightarrow> (byte bounded_vector \<times> 'r proto_input) result" where
  "pd_GetBytes R bytes d =
     bindR (bv_resize (min (pd_Available R d) (bv_max_size bytes)) 0 bytes) (\<lambda>b.
       bindR (pp_ReportFormatResult (bv_size b = pd_Available R d) d) (\<lambda>d1.
         bindR (pi_Extract R (bv_list b) d1) (\<lambda>(bs, d2). Inr (b\<lparr>bv_storage := overwrite (bv_storage b) 0 (map Some bs)\<rparr>, d2))))"

definition pd_GetBytesReference :: "'r proto_reader \<Rightarrow> 'r proto_input \<Rightarrow> byte list \<times> 'r proto_input" where
  "pd_GetBytesReference R d =
     (let (bs, r) = pr_ExtractContiguousRange (pr_limited R) (2 ^ 32 - 1) (pi_reader d) in (bs, d\<lparr>pi_reader := r\<rparr>))"

definition pd_GetStringReference :: "'r proto_reader \<Rightarrow> 'r proto_input \<Rightarrow> byte list \<times> 'r proto_input" where
  "pd_GetStringReference R d =
     (let (bs, r) = pr_ExtractContiguousRange (pr_limited R) (2 ^ 32 - 1) (pi_reader d) in (bs, d\<lparr>pi_reader := r\<rparr>))"

definition pd_GetStdString :: "'r proto_reader \<Rightarrow> 'r proto_input \<Rightarrow> (byte list \<times> 'r proto_input) result" where
  "pd_GetStdString R d = pi_Extract R (replicate (pd_Available R d) 32) d"

definition pd_GetUnboundedBytes :: "'r proto_reader \<Rightarrow> 'r proto_input \<Rightarrow> (byte list \<times> 'r proto_input) result" where
  "pd_GetUnboundedBytes R d = pi_Extract R (replicate (pd_Available R d) 0) d"

datatype 'r proto_field = FieldUint32 "32 word" "'r proto_input" | FieldUint64 "64 word" "'r proto_input" | FieldLengthDelimited "'r limited_reader proto_input"

definition pp_GetField :: "'r proto_reader \<Rightarrow> 'r proto_input \<Rightarrow> ('r proto_field \<times> 32 word) result" where
  "pp_GetField R i =
     bindR (pp_GetPartialField R i) (\<lambda>(field, fieldNumber, i1).
       case field of
         PartialUint32 value \<Rightarrow> Inr (FieldUint32 value i1, fieldNumber)
       | PartialUint64 value \<Rightarrow> Inr (FieldUint64 value i1, fieldNumber)
       | PartialLengthDelimited len \<Rightarrow> bindR (pd_make R len i1) (\<lambda>d. Inr (FieldLengthDelimited d, fieldNumber)))"

subsection \<open>Numbers\<close>

lemma value_of_bits: "bit (value_of bs :: ('l::len) word) n \<longleftrightarrow> n < LENGTH('l) \<and> n < 8 * length bs \<and> bit (bs ! (n div 8)) (n mod 8)"
proof (induction bs arbitrary: n)
  case (Cons b bs)
  show ?case
  proof (cases "n < 8")
    case True
    then show ?thesis by (auto simp: bit_or_iff bit_push_bit_iff bit_ucast_iff)
  next
    case False
    then have "n div 8 = Suc ((n - 8) div 8)" "n mod 8 = (n - 8) mod 8" by (simp_all add: le_div_geq le_mod_geq)
    moreover have "\<not> bit b n" using False bit_imp_le_length [of b n] by auto
    ultimately show ?thesis using False Cons.IH [of "n - 8"] by (auto simp: bit_or_iff bit_push_bit_iff bit_ucast_iff)
  qed
qed simp

lemma value_of_memory: "8 * k = LENGTH('l) \<Longrightarrow> value_of (memory_of k v) = v" for v :: "('l::len) word"
proof (rule bit_word_eqI)
  fix n assume k: "8 * k = LENGTH('l)" and n: "n < LENGTH('l)"
  then have "n div 8 < k" by auto
  moreover have "8 * (n div 8) + n mod 8 = n" by simp
  ultimately show "bit (value_of (memory_of k v) :: 'l word) n = bit v n"
    using n k by (simp add: value_of_bits memory_of_def bit_ucast_iff bit_drop_bit_eq)
qed

lemma length_memory_of [simp]: "length (memory_of k v) = k"
  by (simp add: memory_of_def)

lemma byte_seven_bits:
  fixes b :: byte
  shows "ucast (b AND 127) = (of_nat (unat b mod 128) :: 64 word)" and "b AND 128 = 0 \<longleftrightarrow> unat b < 128"
proof -
  have "b AND 127 = take_bit 7 b" using take_bit_eq_mask [of 7 b] by (simp add: mask_eq_decr_exp)
  moreover have "unat (take_bit 7 b) = unat b mod 128" by (simp only: unsigned_take_bit_eq) (simp add: take_bit_eq_mod)
  ultimately have "unat (b AND 127) = unat b mod 128" by simp
  then show "ucast (b AND 127) = (of_nat (unat b mod 128) :: 64 word)" by (metis of_nat_unat)
  have u: "unat b < 256" using unsigned_less [of b, where ?'a = nat] by simp
  have "bit b 7 \<longleftrightarrow> bit (unat b) 7" by (simp add: bit_unsigned_iff)
  also have "\<dots> \<longleftrightarrow> odd (unat b div 128)" by (simp add: bit_iff_odd)
  also have "\<dots> \<longleftrightarrow> \<not> unat b < 128"
  proof (cases "unat b < 128")
    case False
    then have "unat b div 128 = 1" using u by (intro div_nat_eqI) simp_all
    then show ?thesis using False by simp
  qed simp
  finally show "b AND 128 = 0 \<longleftrightarrow> unat b < 128" using and_exp_eq_0_iff_not_bit [of b 7] by simp
qed

subsection \<open>Reading what was written\<close>

locale proto_source = stream_reader ok total pos "pr_Extract R" "pr_ExtractContiguousRange R" "pr_Empty R" "pr_Available R" peek
  for R :: "'r proto_reader" and ok :: "'r \<Rightarrow> bool" and total :: "'r \<Rightarrow> byte list" and pos :: "'r \<Rightarrow> nat"
    and peek :: "'r \<Rightarrow> error_policy \<Rightarrow> (byte \<times> error_policy) result"
begin

lemma limited: "proto_source (pr_limited R) (lr_ok ok total pos) (lr_bytes total pos) (lr_pos pos) (lr_Peek peek)"
  using limited_reader by (simp add: proto_source_def pr_limited_def)

text \<open>The bytes that are left to read, and inputs on which nothing has failed.\<close>

definition remaining :: "'r proto_input \<Rightarrow> byte list" where
  "remaining i = drop (lr_pos pos (pi_reader i)) (lr_bytes total pos (pi_reader i))"

definition ready :: "'r proto_input \<Rightarrow> bool" where
  "ready i \<longleftrightarrow> lr_ok ok total pos (pi_reader i) \<and> \<not> ep_failed (pi_errorPolicy i)
     \<and> (case pi_formatErrorPolicy i of None \<Rightarrow> True | Some q \<Rightarrow> \<not> ep_failed q)"

definition gets :: "('r proto_input \<Rightarrow> ('v \<times> 'r proto_input) result) \<Rightarrow> byte list \<Rightarrow> 'v \<Rightarrow> bool" where
  "gets f xs v \<longleftrightarrow> (\<forall>i u. ready i \<longrightarrow> remaining i = xs @ u \<longrightarrow> (\<exists>i'. f i = Inr (v, i') \<and> ready i' \<and> remaining i' = u))"

lemma getsD: "gets f xs v \<Longrightarrow> ready i \<Longrightarrow> remaining i = xs @ u \<Longrightarrow> \<exists>i'. f i = Inr (v, i') \<and> ready i' \<and> remaining i' = u"
  unfolding gets_def by blast

lemma gets_bind:
  assumes "gets f xs v" and "gets (g v) ys w"
  shows "gets (\<lambda>i. bindR (f i) (\<lambda>(v, i'). g v i')) (xs @ ys) w"
  unfolding gets_def
proof (intro allI impI)
  fix i u assume i: "ready i" "remaining i = (xs @ ys) @ u"
  obtain i1 where i1: "f i = Inr (v, i1)" "ready i1" "remaining i1 = ys @ u" using getsD [OF assms(1) i(1), of "ys @ u"] i(2) by auto
  obtain i2 where "g v i1 = Inr (w, i2)" "ready i2" "remaining i2 = u" using getsD [OF assms(2) i1(2,3)] by auto
  then show "\<exists>i'. bindR (f i) (\<lambda>(v, i'). g v i') = Inr (w, i') \<and> ready i' \<and> remaining i' = u" using i1(1) by simp
qed

lemma gets_Extract: "length dst = length xs \<Longrightarrow> gets (pi_Extract R dst) xs xs"
  unfolding gets_def
proof (intro allI impI)
  fix i u assume len: "length dst = length xs" and i: "ready i" "remaining i = xs @ u"
  let ?r = "pi_reader i"
  note L = stream_reader.axioms(1) [OF limited_reader]
  have ok: "lr_ok ok total pos ?r" using i(1) by (simp add: ready_def)
  obtain r' where r': "\<And>p. lr_Extract (pr_Extract R) dst ?r p = reader_outcome dst (remaining i) r' p" "lr_ok ok total pos r'"
      "lr_bytes total pos r' = lr_bytes total pos ?r" "lr_pos pos r' = min (lr_pos pos ?r + length dst) (length (lr_bytes total pos ?r))"
    using stream_source.ext [OF L ok, of dst] unfolding remaining_def by blast
  have "length (remaining i) = length (lr_bytes total pos ?r) - lr_pos pos ?r" by (simp add: remaining_def)
  then have "lr_pos pos r' = lr_pos pos ?r + length xs"
    using r'(4) i(2) len stream_source.pos_le [OF L ok] by simp
  then have "drop (lr_pos pos r') (lr_bytes total pos r') = drop (length xs) (remaining i)" by (simp add: r'(3) remaining_def add.commute)
  then have u: "drop (lr_pos pos r') (lr_bytes total pos r') = u" using i(2) by simp
  have "pi_Extract R dst i = Inr (xs, i\<lparr>pi_reader := r', pi_errorPolicy := (pi_errorPolicy i)\<lparr>ep_checkedFail := (ep_failureMode (pi_errorPolicy i) \<noteq> FailSoft)\<rparr>\<rparr>)"
    using len i(2) by (simp add: pi_Extract_def pr_limited_def r'(1) reader_outcome_def)
  then show "\<exists>i'. pi_Extract R dst i = Inr (xs, i') \<and> ready i' \<and> remaining i' = u"
    using i(1) r'(2) u by (simp add: ready_def remaining_def)
qed

lemma ready_Failed [simp]: "ready i \<Longrightarrow> pi_Failed i = (False, i\<lparr>pi_errorPolicy := (pi_errorPolicy i)\<lparr>ep_checkedFail := True\<rparr>\<rparr>)"
  by (simp add: ready_def pi_Failed_def ep_Failed_def)

lemma ready_checked [simp]:
  "ready (i\<lparr>pi_errorPolicy := (pi_errorPolicy i)\<lparr>ep_checkedFail := c\<rparr>\<rparr>) = ready i"
  "remaining (i\<lparr>pi_errorPolicy := p\<rparr>) = remaining i"
  by (simp_all add: ready_def remaining_def)

lemma VarIntLoop_reads:
  assumes "ready i" and "remaining i = varint n @ u" and "length (varint n) \<le> left"
  shows "\<exists>b k i'. pp_VarIntLoop left R result shift byte i = Inr (result + push_bit shift (of_nat n), b, k, i') \<and> b AND 128 = 0 \<and> ready i' \<and> remaining i' = u"
  using assms
proof (induction left arbitrary: n i result shift byte)
  case (Suc left)
  define b where "b = hd (varint n)"
  define rest where "rest = tl (varint n)"
  have v: "varint n = b # rest" by (simp add: b_def rest_def)
  obtain i1 where i1: "pi_Extract R [byte] i = Inr ([b], i1)" "ready i1" "remaining i1 = rest @ u"
    using getsD [OF gets_Extract [of "[byte]" "[b]"] Suc.prems(1), of "rest @ u"] Suc.prems(2) v by auto
  let ?i = "i1\<lparr>pi_errorPolicy := (pi_errorPolicy i1)\<lparr>ep_checkedFail := True\<rparr>\<rparr>"
  show ?case
  proof (cases "n < 128")
    case True
    then have bn: "b = of_nat n" "rest = []" using v by (subst (asm) varint.simps; simp)+
    then have ub: "unat b = n" using True by (simp add: unat_of_nat take_bit_nat_eq_self)
    then have "b AND 128 = 0" "ucast (b AND 127) = (of_nat n :: 64 word)" using byte_seven_bits [of b] True by simp_all
    then show ?thesis using i1 bn by (intro exI [of _ b] exI [of _ left] exI [of _ ?i]) simp
  next
    case False
    then have bn: "b = of_nat (n mod 128 + 128)" "rest = varint (n div 128)" using v by (subst (asm) varint.simps; simp)+
    then have ub: "unat b = n mod 128 + 128" by (simp only: unat_of_nat) (simp add: take_bit_nat_eq_self)
    then have b: "b AND 128 \<noteq> 0" "ucast (b AND 127) = (of_nat (n mod 128) :: 64 word)" using byte_seven_bits [of b] by simp_all
    have len: "length (varint (n div 128)) \<le> left" using Suc.prems(3) v bn(2) by simp
    then have "left \<noteq> 0" by (metis le_zero_eq length_0_conv varint_nonempty)
    moreover have "push_bit shift (of_nat (n mod 128)) + push_bit (shift + 7) (of_nat (n div 128)) = push_bit shift (of_nat n :: 64 word)"
    proof -
      have "of_nat (n mod 128) + 128 * of_nat (n div 128) = (of_nat n :: 64 word)"
        by (metis mod_mult_div_eq of_nat_add of_nat_mult of_nat_numeral)
      then show ?thesis by (simp add: push_bit_eq_mult power_add mult.commute mult.left_commute distrib_left [symmetric] flip: distrib_left)
    qed
    ultimately show ?thesis using i1 b bn(2)
      using Suc.IH [of ?i "n div 128" "result + push_bit shift (of_nat (n mod 128))" "shift + 7" b] len by (simp add: add.assoc)
  qed
qed simp

lemma gets_VarInt: "gets (pp_GetVarInt R) (varint (unat v)) v"
  unfolding gets_def
proof (intro allI impI)
  fix i u assume i: "ready i" "remaining i = varint (unat v) @ u"
  obtain b k i' where "pp_VarIntLoop 10 R 0 0 0 i = Inr (v, b, k, i')" "b AND 128 = 0" "ready i'" "remaining i' = u"
    using VarIntLoop_reads [OF i, of 10 0 0 0] varint_word_length [of v] by auto
  then show "\<exists>i'. pp_GetVarInt R i = Inr (v, i') \<and> ready i' \<and> remaining i' = u" by (simp add: pp_GetVarInt_def)
qed

lemma gets_Fixed: "gets (pp_GetFixed32 R) (memory_of 4 v32) v32" "gets (pp_GetFixed64 R) (memory_of 8 v) v"
proof -
  have f: "gets (\<lambda>i. bindR (pi_Extract R dst i) (\<lambda>(bs, i1). Inr (h bs, i1))) xs (h xs)" if "length dst = length xs" for dst xs and h :: "byte list \<Rightarrow> 'v"
    using gets_bind [OF gets_Extract [OF that], of "\<lambda>bs i. Inr (h bs, i)" "[]" "h xs"] by (simp add: gets_def)
  show "gets (pp_GetFixed32 R) (memory_of 4 v32) v32" using f [of "memory_of 4 (0 :: 32 word)" "memory_of 4 v32" "value_of :: byte list \<Rightarrow> 32 word"] value_of_memory [of 4 v32]
    by (simp add: pp_GetFixed32_def [abs_def])
  show "gets (pp_GetFixed64 R) (memory_of 8 v) v" using f [of "memory_of 8 (0 :: 64 word)" "memory_of 8 v" "value_of :: byte list \<Rightarrow> 64 word"] value_of_memory [of 8 v]
    by (simp add: pp_GetFixed64_def [abs_def])
qed

end

subsection \<open>Fields and messages\<close>

lemma tag_parts:
  fixes f k :: "32 word"
  assumes "unat f < 2 ^ 29" and "take_bit 3 k = k"
  shows "ucast (proto_tag f k) AND 7 = k" and "drop_bit 3 (ucast (proto_tag f k)) = f"
proof -
  let ?x = "push_bit 3 f OR k"
  have x: "ucast (proto_tag f k) = ?x" unfolding proto_tag_def by (rule bit_word_eqI) (simp add: bit_ucast_iff)
  have "?x AND 7 = take_bit 3 ?x" using take_bit_eq_mask [of 3 ?x] by (simp add: mask_eq_decr_exp)
  also have "\<dots> = k" using assms(2) by (simp add: take_bit_or take_bit_push_bit)
  finally show "ucast (proto_tag f k) AND 7 = k" unfolding x .
  have f: "take_bit 29 f = f" using assms(1) by (simp only: word_unat_eq_iff unsigned_take_bit_eq) (simp add: take_bit_nat_eq_self)
  have "drop_bit 3 k = 0" using assms(2) by (metis drop_bit_take_bit diff_self_eq_0 take_bit_0)
  moreover have "drop_bit 3 (push_bit 3 f) = f"
    by (rule bit_word_eqI) (use f in \<open>auto simp: bit_drop_bit_eq bit_push_bit_iff bit_take_bit_iff bit_eq_iff\<close>)
  ultimately show "drop_bit 3 (ucast (proto_tag f k)) = f" unfolding x by (simp add: drop_bit_or)
qed

text \<open>What a client does with a message: get the fields one after the other until there is none, taking the bytes of those that have a length.\<close>

datatype proto_value = ValueUint32 "32 word" | ValueUint64 "64 word" | ValueBytes "byte list"

definition pp_ReadField :: "'r proto_reader \<Rightarrow> 'r proto_input \<Rightarrow> ((proto_value \<times> 32 word) \<times> 'r proto_input) result" where
  "pp_ReadField R i =
     bindR (pp_GetField R i) (\<lambda>(field, n).
       case field of
         FieldUint32 v i1 \<Rightarrow> Inr ((ValueUint32 v, n), i1)
       | FieldUint64 v i1 \<Rightarrow> Inr ((ValueUint64 v, n), i1)
       | FieldLengthDelimited d \<Rightarrow> bindR (pd_GetUnboundedBytes (pr_limited R) d) (\<lambda>(bs, d1). Inr ((ValueBytes bs, n), pd_outer d1)))"

primrec pp_ReadMessage :: "nat \<Rightarrow> 'r proto_reader \<Rightarrow> 'r proto_input \<Rightarrow> ((proto_value \<times> 32 word) list \<times> 'r proto_input) result" where
  "pp_ReadMessage 0 R i = Inl OutOfFuel"
| "pp_ReadMessage (Suc fuel) R i =
     (if pp_Empty R i then Inr ([], i)
      else bindR (pp_ReadField R i) (\<lambda>(v, i1). bindR (pp_ReadMessage fuel R i1) (\<lambda>(vs, i2). Inr (v # vs, i2))))"

primrec item_value :: "proto_item \<Rightarrow> proto_value \<times> 32 word" where
  "item_value (ItemVarInt v f) = (ValueUint64 v, f)"
| "item_value (ItemSigned v f) = (ValueUint64 (zigzag v), f)"
| "item_value (ItemFixed32 v32 f) = (ValueUint32 v32, f)"
| "item_value (ItemFixed64 v f) = (ValueUint64 v, f)"
| "item_value (ItemDelimited bs f) = (ValueBytes bs, f)"
| "item_value (ItemString bs f) = (ValueBytes bs, f)"
| "item_value (ItemBytes bs f) = (ValueBytes bs, f)"
| "item_value (ItemMessage items f) = (ValueBytes (items_bytes items), f)"

definition item_ok :: "proto_item \<Rightarrow> bool" where
  "item_ok item \<longleftrightarrow> unat (snd (item_value item)) < 2 ^ 29 \<and> (\<forall>bs. fst (item_value item) = ValueBytes bs \<longrightarrow> length bs < 2 ^ 32)"

context proto_source
begin

lemma gets_partial:
  assumes "unat f < 2 ^ 29"
  shows "gets (\<lambda>i. bindR (pp_GetPartialField R i) (\<lambda>(v, n, i'). Inr ((v, n), i'))) (field_bytes f 0 (varint (unat v))) (PartialUint64 v, f)"
    and "gets (\<lambda>i. bindR (pp_GetPartialField R i) (\<lambda>(v, n, i'). Inr ((v, n), i'))) (field_bytes f 1 (memory_of 8 v)) (PartialUint64 v, f)"
    and "gets (\<lambda>i. bindR (pp_GetPartialField R i) (\<lambda>(v, n, i'). Inr ((v, n), i'))) (field_bytes f 2 (varint (unat v))) (PartialLengthDelimited (ucast v), f)"
    and "gets (\<lambda>i. bindR (pp_GetPartialField R i) (\<lambda>(v, n, i'). Inr ((v, n), i'))) (field_bytes f 5 (memory_of 4 v32)) (PartialUint32 v32, f)"
proof -
  let ?get = "\<lambda>i. bindR (pp_GetPartialField R i) (\<lambda>(v, n, i'). Inr ((v, n), i'))"
  have via: "gets ?get (field_bytes f k xs) r"
    if get: "gets g xs a" and eq: "\<And>i i1. pp_GetVarInt R i = Inr (proto_tag f k, i1) \<Longrightarrow> ?get i = bindR (g i1) (\<lambda>(a, i2). Inr (h a, i2))" and r: "r = h a"
    for g k and a :: 'v and h xs r
    unfolding gets_def
  proof (intro allI impI)
    fix i u assume i: "ready i" "remaining i = field_bytes f k xs @ u"
    obtain i1 where i1: "pp_GetVarInt R i = Inr (proto_tag f k, i1)" "ready i1" "remaining i1 = xs @ u"
      using getsD [OF gets_VarInt i(1), of "proto_tag f k" "xs @ u"] i(2) by (auto simp: field_bytes_def)
    obtain i2 where "g i1 = Inr (a, i2)" "ready i2" "remaining i2 = u" using getsD [OF get i1(2,3)] by auto
    then show "\<exists>i'. ?get i = Inr (r, i') \<and> ready i' \<and> remaining i' = u" using eq [OF i1(1)] r by simp
  qed
  have k: "take_bit 3 (0 :: 32 word) = 0" "take_bit 3 (1 :: 32 word) = 1" "take_bit 3 (2 :: 32 word) = 2" "take_bit 3 (5 :: 32 word) = 5" by simp_all
  note tag = k [THEN tag_parts(1) [OF assms]] k [THEN tag_parts(2) [OF assms]]
  show "gets ?get (field_bytes f 0 (varint (unat v))) (PartialUint64 v, f)"
    by (rule via [where ?h1 = "\<lambda>v. (PartialUint64 v, f)", OF gets_VarInt]) (simp_all add: pp_GetPartialField_def tag Let_def case_prod_unfold bindR_assoc)
  show "gets ?get (field_bytes f 1 (memory_of 8 v)) (PartialUint64 v, f)"
    by (rule via [where ?h1 = "\<lambda>v. (PartialUint64 v, f)", OF gets_Fixed(2)]) (simp_all add: pp_GetPartialField_def tag Let_def case_prod_unfold bindR_assoc)
  show "gets ?get (field_bytes f 2 (varint (unat v))) (PartialLengthDelimited (ucast v), f)"
    by (rule via [where ?h1 = "\<lambda>v. (PartialLengthDelimited (ucast v), f)", OF gets_VarInt]) (simp_all add: pp_GetPartialField_def tag Let_def case_prod_unfold bindR_assoc)
  show "gets ?get (field_bytes f 5 (memory_of 4 v32)) (PartialUint32 v32, f)"
    by (rule via [where ?h1 = "\<lambda>v. (PartialUint32 v, f)", OF gets_Fixed(1)]) (simp_all add: pp_GetPartialField_def tag Let_def case_prod_unfold bindR_assoc)
qed

end

lemma Extract_through:
  assumes "lr_length (pi_reader d) = length dst"
  shows "pi_Extract (pr_limited R) dst d = bindR (pi_ReportResult True (pd_outer d)) (\<lambda>i. bindR (pi_Extract R dst i)
    (\<lambda>(bs, i1). Inr (bs, d\<lparr>pi_reader := \<lparr>lr_input = pi_reader i1, lr_length = 0\<rparr>, pi_errorPolicy := pi_errorPolicy i1\<rparr>)))"
  using assms
  by (cases "pi_reader d") (simp add: pi_Extract_def pr_limited_def [of "pr_limited R"] lr_Extract_def [of "pr_Extract (pr_limited R)"] Let_def pi_ReportResult_def
      pd_outer_def bindR_assoc case_prod_unfold)

context proto_source
begin

lemma delimited_ready:
  assumes i: "ready i" "remaining i = bs @ u" and len: "length bs < 2 ^ 32"
  obtains d where "pd_make R (of_nat (length bs)) i = Inr d" "pd_Available (pr_limited R) d = length bs" "ready (pd_outer d)" "remaining (pd_outer d) = bs @ u"
    "proto_source.ready (lr_ok ok total pos) (lr_bytes total pos) (lr_pos pos) d" "proto_source.remaining (lr_bytes total pos) (lr_pos pos) d = bs"
    "lr_length (pi_reader d) = length bs"
proof -
  let ?r = "pi_reader i" and ?p = "(pi_errorPolicy i)\<lparr>ep_checkedFail := (ep_failureMode (pi_errorPolicy i) \<noteq> FailSoft)\<rparr>"
  let ?d = "\<lparr>pi_reader = lr_make ?r (length bs), pi_errorPolicy = ?p, pi_formatErrorPolicy = pi_formatErrorPolicy i\<rparr>"
  note L = stream_reader.axioms(1) [OF limited_reader]
  have ok: "lr_ok ok total pos ?r" using i(1) by (simp add: ready_def)
  have n: "unat (of_nat (length bs) :: 32 word) = length bs" using len by (simp add: unat_of_nat take_bit_nat_eq_self)
  have avail: "lr_Available (pr_Available R) ?r = length bs + length u"
    using stream_source.available [OF L ok] i(2) by (simp add: remaining_def flip: length_drop)
  have size: "length (lr_bytes total pos ?r) < 2 ^ 32" using ok by (auto simp: lr_ok_def lr_bytes_def min_def)
  from avail have make: "pd_make R (of_nat (length bs)) i = Inr ?d" by (simp add: pd_make_def pr_limited_def pi_ReportResult_def n)
  have "length (lr_bytes total pos ?r) - lr_pos pos ?r = length bs + length u" using arg_cong [OF i(2), of length] by (simp add: remaining_def)
  then have pos: "lr_pos pos ?r + length bs \<le> length (lr_bytes total pos ?r)" and small: "length bs + length u < 2 ^ 32"
    using stream_source.pos_le [OF L ok] size by linarith+
  have "proto_source.ready (lr_ok ok total pos) (lr_bytes total pos) (lr_pos pos) ?d"
    using i(1) ok pos size unfolding proto_source.ready_def [OF limited] by (simp add: lr_ok_def [of "lr_ok ok total pos"] lr_make_def ready_def)
  moreover have "proto_source.remaining (lr_bytes total pos) (lr_pos pos) ?d = bs"
    using i(2) unfolding proto_source.remaining_def [OF limited]
    by (simp add: lr_pos_def [of "lr_pos pos"] lr_bytes_def [of "lr_bytes total pos"] lr_make_def drop_take flip: remaining_def)
  moreover have "pd_Available (pr_limited R) ?d = length bs"
    using avail small by (simp add: pd_Available_def pr_limited_def lr_Available_def [of "lr_Available _"] lr_make_def)
  moreover have "ready (pd_outer ?d)" "remaining (pd_outer ?d) = bs @ u" "lr_length (pi_reader ?d) = length bs"
    using i by (simp_all add: pd_outer_def ready_def remaining_def lr_make_def)
  ultimately show thesis using that [OF make] by blast
qed

lemma delimited_bytes_read:
  assumes i: "ready i" "remaining i = bs @ u" and len: "length bs < 2 ^ 32"
  shows "\<exists>d d1. pd_make R (of_nat (length bs)) i = Inr d \<and> pd_GetUnboundedBytes (pr_limited R) d = Inr (bs, d1) \<and> ready (pd_outer d1) \<and> remaining (pd_outer d1) = u"
proof -
  obtain d where d: "pd_make R (of_nat (length bs)) i = Inr d" "pd_Available (pr_limited R) d = length bs" "ready (pd_outer d)" "remaining (pd_outer d) = bs @ u"
      "lr_length (pi_reader d) = length bs"
    by (rule delimited_ready [OF assms]) blast
  let ?i = "(pd_outer d)\<lparr>pi_errorPolicy := (pi_errorPolicy (pd_outer d))\<lparr>ep_checkedFail := (ep_failureMode (pi_errorPolicy (pd_outer d)) \<noteq> FailSoft)\<rparr>\<rparr>"
  obtain i1 where i1: "pi_Extract R (replicate (length bs) 0) ?i = Inr (bs, i1)" "ready i1" "remaining i1 = u"
    using getsD [OF gets_Extract [of "replicate (length bs) 0" bs], of ?i u] d(3,4) by auto
  have f: "pi_formatErrorPolicy i1 = pi_formatErrorPolicy d" using i1(1) by (auto simp: pi_Extract_def bindR_Inr_iff pd_outer_def)
  let ?d = "d\<lparr>pi_reader := \<lparr>lr_input = pi_reader i1, lr_length = 0\<rparr>, pi_errorPolicy := pi_errorPolicy i1\<rparr>"
  have "pd_outer ?d = i1" using f by (cases i1) (simp add: pd_outer_def)
  moreover have "pd_GetUnboundedBytes (pr_limited R) d = Inr (bs, ?d)"
    using i1(1) d(2,5) by (simp add: pd_GetUnboundedBytes_def Extract_through pi_ReportResult_def)
  ultimately show ?thesis using d(1) i1(2,3) by auto
qed

end

context proto_source
begin

lemma partialD:
  assumes "gets (\<lambda>i. bindR (pp_GetPartialField R i) (\<lambda>(v, n, i'). Inr ((v, n), i'))) xs (v, n)" and "ready i" "remaining i = xs @ u"
  obtains i1 where "pp_GetPartialField R i = Inr (v, n, i1)" "ready i1" "remaining i1 = u"
  using getsD [OF assms] by (auto simp: bindR_Inr_iff)

lemma delimited_found:
  assumes f: "unat f < 2 ^ 29" and len: "length bs < 2 ^ 32" and i: "ready i" "remaining i = field_bytes f 2 (delimited_bytes bs) @ u"
  obtains i1 where "ready i1" "remaining i1 = bs @ u"
    "pp_GetField R i = bindR (pd_make R (of_nat (length bs)) i1) (\<lambda>d. Inr (FieldLengthDelimited d, f))"
proof -
  let ?v = "of_nat (length bs) :: 64 word"
  have "remaining i = field_bytes f 2 (varint (unat ?v)) @ bs @ u" using i(2) by (simp add: field_bytes_def delimited_bytes_def)
  then obtain i1 where i1: "pp_GetPartialField R i = Inr (PartialLengthDelimited (ucast ?v), f, i1)" "ready i1" "remaining i1 = bs @ u"
    using partialD [OF gets_partial(3) [OF f, of ?v] i(1)] by blast
  have "(ucast ?v :: 32 word) = of_nat (length bs)" using len by (simp add: word_unat_eq_iff unsigned_ucast_eq unat_of_nat take_bit_nat_eq_self)
  then show thesis using that [OF i1(2,3)] i1(1) by (simp add: pp_GetField_def)
qed

lemma gets_delimited:
  assumes "unat f < 2 ^ 29" and "length bs < 2 ^ 32"
  shows "gets (pp_ReadField R) (field_bytes f 2 (delimited_bytes bs)) (ValueBytes bs, f)"
  unfolding gets_def
proof (intro allI impI)
  fix i u assume i: "ready i" "remaining i = field_bytes f 2 (delimited_bytes bs) @ u"
  obtain i1 where i1: "ready i1" "remaining i1 = bs @ u"
      "pp_GetField R i = bindR (pd_make R (of_nat (length bs)) i1) (\<lambda>d. Inr (FieldLengthDelimited d, f))"
    by (rule delimited_found [OF assms i])
  obtain d d1 where "pd_make R (of_nat (length bs)) i1 = Inr d" "pd_GetUnboundedBytes (pr_limited R) d = Inr (bs, d1)" "ready (pd_outer d1)" "remaining (pd_outer d1) = u"
    using delimited_bytes_read [OF i1(1,2) assms(2)] by blast
  then show "\<exists>i'. pp_ReadField R i = Inr ((ValueBytes bs, f), i') \<and> ready i' \<and> remaining i' = u" using i1(3) by (simp add: pp_ReadField_def)
qed

lemma gets_item: "item_ok item \<Longrightarrow> gets (pp_ReadField R) (item_bytes item) (item_value item)"
proof -
  assume ok: "item_ok item"
  have plain: "gets (pp_ReadField R) xs (w, f)"
    if g: "gets (\<lambda>i. bindR (pp_GetPartialField R i) (\<lambda>(v, n, i'). Inr ((v, n), i'))) xs (v, f)"
      and c: "(case v of PartialUint32 a \<Rightarrow> w = ValueUint32 a | PartialUint64 a \<Rightarrow> w = ValueUint64 a | PartialLengthDelimited a \<Rightarrow> False)" for xs v w f
    unfolding gets_def
  proof (intro allI impI)
    fix i u assume i: "ready i" "remaining i = xs @ u"
    obtain i1 where "pp_GetPartialField R i = Inr (v, f, i1)" "ready i1" "remaining i1 = u" by (rule partialD [OF g i])
    then show "\<exists>i'. pp_ReadField R i = Inr ((w, f), i') \<and> ready i' \<and> remaining i' = u"
      using c by (cases v) (simp_all add: pp_ReadField_def pp_GetField_def)
  qed
  show ?thesis
  proof (cases item)
    case (ItemVarInt v f)
    then show ?thesis using ok plain [OF gets_partial(1)] by (simp add: item_ok_def)
  next
    case (ItemSigned v f)
    then show ?thesis using ok plain [OF gets_partial(1)] by (simp add: item_ok_def)
  next
    case (ItemFixed32 v f)
    then show ?thesis using ok plain [OF gets_partial(4)] by (simp add: item_ok_def)
  next
    case (ItemFixed64 v f)
    then show ?thesis using ok plain [OF gets_partial(2)] by (simp add: item_ok_def)
  qed (use ok gets_delimited in \<open>auto simp: item_ok_def\<close>)
qed

lemma empty_iff: "ready i \<Longrightarrow> pp_Empty R i \<longleftrightarrow> remaining i = []"
  using stream_source.is_empty [OF stream_reader.axioms(1) [OF limited_reader], of "pi_reader i"]
    stream_source.pos_le [OF stream_reader.axioms(1) [OF limited_reader], of "pi_reader i"]
  by (auto simp: ready_def pp_Empty_def pr_limited_def remaining_def)

lemma item_bytes_nonempty: "item_bytes item \<noteq> []"
  by (cases item) (simp_all add: field_bytes_def)

lemma message_read:
  assumes "ready i" and "remaining i = items_bytes items" and "\<forall>item \<in> set items. item_ok item" and "length items < fuel"
  shows "\<exists>i'. pp_ReadMessage fuel R i = Inr (map item_value items, i') \<and> ready i' \<and> remaining i' = []"
  using assms
proof (induction items arbitrary: i fuel)
  case Nil
  then obtain n where "fuel = Suc n" by (cases fuel) simp_all
  then show ?case using Nil empty_iff by simp
next
  case (Cons item items)
  then obtain n where n: "fuel = Suc n" "length items < n" by (cases fuel) simp_all
  obtain i1 where i1: "pp_ReadField R i = Inr (item_value item, i1)" "ready i1" "remaining i1 = items_bytes items"
    using getsD [OF gets_item Cons.prems(1), of item "items_bytes items"] Cons.prems(2,3) by auto
  have "\<not> pp_Empty R i" using empty_iff [OF Cons.prems(1)] Cons.prems(2) item_bytes_nonempty [of item] by simp
  then show ?case using Cons.IH [OF i1(2,3) _ n(2)] Cons.prems(3) i1(1) n(1) by auto
qed

lemma make_ready:
  assumes "ok r" and "length (total r) < 2 ^ 32" and "\<not> ep_failed p" and "case q of None \<Rightarrow> True | Some q \<Rightarrow> \<not> ep_failed q"
  shows "ready (pp_make_format R r p q) \<and> remaining (pp_make_format R r p q) = drop (pos r) (total r)"
  using assms available [OF assms(1)] pos_le [OF assms(1)]
  by (auto simp: ready_def pp_make_format_def lr_make_def remaining_def lr_ok_def lr_pos_def lr_bytes_def)

lemma parser_ready:
  assumes "ready i"
  shows "proto_source.ready (lr_ok ok total pos) (lr_bytes total pos) (lr_pos pos) (pd_Parser R i)"
    and "proto_source.remaining (lr_bytes total pos) (lr_pos pos) (pd_Parser R i) = remaining i"
proof -
  have size: "length (lr_bytes total pos (pi_reader i)) < 2 ^ 32" using assms by (auto simp: ready_def lr_ok_def lr_bytes_def min_def)
  have "lr_ok ok total pos (pi_reader i)" "\<not> ep_failed (pi_errorPolicy i)" "case pi_formatErrorPolicy i of None \<Rightarrow> True | Some q \<Rightarrow> \<not> ep_failed q"
    using assms by (simp_all add: ready_def)
  from proto_source.make_ready [OF limited this(1) size this(2,3)]
  show "proto_source.ready (lr_ok ok total pos) (lr_bytes total pos) (lr_pos pos) (pd_Parser R i)"
    "proto_source.remaining (lr_bytes total pos) (lr_pos pos) (pd_Parser R i) = remaining i"
    by (simp_all add: pd_Parser_def remaining_def)
qed

end

subsection \<open>Errors\<close>

lemma VarIntLoop_format: "pp_VarIntLoop left R result shift byte i = Inr (v, b, k, i') \<Longrightarrow> pi_formatErrorPolicy i' = pi_formatErrorPolicy i"
proof (induction left arbitrary: result shift byte i)
  case (Suc left)
  obtain bs i1 where i1: "pi_Extract R [byte] i = Inr (bs, i1)" using Suc.prems by (auto simp: bindR_Inr_iff)
  then have f: "pi_formatErrorPolicy i1 = pi_formatErrorPolicy i" by (auto simp: pi_Extract_def bindR_Inr_iff)
  obtain failed i2 where i2: "pi_Failed i1 = (failed, i2)" by (cases "pi_Failed i1")
  then have "pi_formatErrorPolicy i2 = pi_formatErrorPolicy i" using f by (auto simp: pi_Failed_def ep_Failed_def)
  then show ?case using Suc.prems Suc.IH i1 i2 by (auto simp: Let_def split: if_splits)
qed simp

lemma GetVarInt_format:
  assumes "pp_GetVarInt R i = Inr (v, i')" and "pi_formatErrorPolicy i = Some q"
  shows "\<exists>q'. pi_formatErrorPolicy i' = Some q' \<and> ep_failureMode q' = ep_failureMode q"
proof -
  obtain w b k i1 where l: "pp_VarIntLoop 10 R 0 0 0 i = Inr (w, b, k, i1)" using assms(1) by (auto simp: pp_GetVarInt_def bindR_Inr_iff)
  have i1: "pp_VarIntLoop 10 R 0 0 0 i = Inr (v, b, k, i1)" "i' = snd (pi_Failed i1) \<or> i' = snd (pp_FormatFailed (snd (pi_Failed i1)))"
    using assms(1) l by (cases "pi_Failed i1"; simp add: pp_GetVarInt_def split: if_splits; blast)+
  then show ?thesis using VarIntLoop_format [OF i1(1)] assms(2) by (auto simp: pi_Failed_def pp_FormatFailed_def ep_Failed_def)
qed

context proto_source
begin

lemma overlong_loop:
  assumes "ready i" and "remaining i = bs @ u" and "length bs = left" and "bs \<noteq> []" and "\<forall>b \<in> set bs. 128 \<le> unat b"
  shows "\<exists>v b i'. pp_VarIntLoop left R result shift byte i = Inr (v, b, 0, i') \<and> b AND 128 \<noteq> 0 \<and> ready i' \<and> remaining i' = u"
  using assms
proof (induction left arbitrary: bs i result shift byte)
  case (Suc left)
  then obtain b rest where bs: "bs = b # rest" by (cases bs) simp_all
  obtain i1 where i1: "pi_Extract R [byte] i = Inr ([b], i1)" "ready i1" "remaining i1 = rest @ u"
    using getsD [OF gets_Extract [of "[byte]" "[b]"] Suc.prems(1), of "rest @ u"] Suc.prems(2) bs by auto
  let ?i = "i1\<lparr>pi_errorPolicy := (pi_errorPolicy i1)\<lparr>ep_checkedFail := True\<rparr>\<rparr>"
  have b: "b AND 128 \<noteq> 0" using byte_seven_bits(2) [of b] Suc.prems(5) bs by simp
  show ?case
  proof (cases "left = 0")
    case True
    then show ?thesis using i1 b bs Suc.prems(3) by simp
  next
    case False
    then have "rest \<noteq> []" "length rest = left" "\<forall>b \<in> set rest. 128 \<le> unat b" using bs Suc.prems(3,5) by auto
    then show ?thesis using False i1 b Suc.IH [of ?i rest "result + push_bit shift (ucast (b AND 127))" "shift + 7" b] by auto
  qed
qed simp

lemma overlong_unreported:
  assumes "ready i" and "remaining i = bs @ u" and "length bs = 10" and "\<forall>b \<in> set bs. 128 \<le> unat b"
  shows "\<exists>v i'. pp_GetVarInt R i = Inr (v, i') \<and> ready i' \<and> remaining i' = u"
proof -
  have "bs \<noteq> []" using assms(3) by auto
  then obtain v b i1 where i1: "pp_VarIntLoop 10 R 0 0 0 i = Inr (v, b, 0, i1)" "b AND 128 \<noteq> 0" "ready i1" "remaining i1 = u"
    using overlong_loop [OF assms(1-3) _ assms(4), of 0 0 0] by auto
  let ?i = "i1\<lparr>pi_errorPolicy := (pi_errorPolicy i1)\<lparr>ep_checkedFail := True\<rparr>\<rparr>"
  have "ready (snd (pp_FormatFailed ?i)) \<and> remaining (snd (pp_FormatFailed ?i)) = u"
    using i1(3,4) by (cases "pi_formatErrorPolicy i1") (auto simp: pp_FormatFailed_def pi_Failed_def ep_Failed_def ready_def remaining_def)
  then show ?thesis using i1 by (simp add: pp_GetVarInt_def)
qed

lemma unknown_type_reported:
  assumes i: "ready i" "remaining i = varint (unat (proto_tag f k)) @ u" and f: "unat f < 2 ^ 29" and k: "take_bit 3 k = k" "k \<notin> {0, 1, 2, 5}"
    and q: "pi_formatErrorPolicy i = Some q" "ep_failureMode q \<noteq> FailByAssertion"
  shows "\<exists>i'. pp_GetField R i = Inr (FieldUint32 0 i', 0) \<and> fst (pp_FormatFailed i')"
proof -
  obtain i1 where i1: "pp_GetVarInt R i = Inr (proto_tag f k, i1)" using getsD [OF gets_VarInt i] by auto
  obtain q' where q': "pi_formatErrorPolicy i1 = Some q'" "ep_failureMode q' \<noteq> FailByAssertion" using GetVarInt_format [OF i1 q(1)] q(2) by auto
  have "pp_GetPartialField R i = bindR (pp_ReportFormatResult False i1) (\<lambda>i2. Inr (PartialUint32 0, 0, i2))"
    using i1 k(2) unfolding pp_GetPartialField_def by (simp add: Let_def tag_parts(1) [OF f k(1)])
  then show ?thesis using q' by (simp add: pp_GetField_def pp_ReportFormatResult_def ep_ReportResult_def pp_FormatFailed_def ep_Failed_def Let_def)
qed

end

end
