(* ===== verification/Proto_Messages.thy ===== *)
theory Proto_Messages
  imports Proto_Parser
begin

section \<open>Protocol buffers: messages that are written are read\<close>

text \<open>
  The contracts of the formatter and of the parser on the streams over a bounded vector: what is written to the vector is read from it, also messages in fields of messages;
  and what the parser does with text that is not a message.
\<close>

definition vr_ops :: "vector_reader proto_reader" where
  "vr_ops = \<lparr>pr_Extract = vr_Extract, pr_ExtractContiguousRange = vr_ExtractContiguousRange, pr_Empty = vr_Empty, pr_Available = vr_Available\<rparr>"

interpretation vr_proto: proto_source vr_ops vr_ok vr_bytes vr_offset vr_Peek
  unfolding proto_source_def vr_ops_def by simp (rule vr.stream_reader_axioms)

definition br_proto_ops :: "byte_reader proto_reader" where
  "br_proto_ops = \<lparr>pr_Extract = br_Extract, pr_ExtractContiguousRange = br_ExtractContiguousRange, pr_Empty = br_Empty, pr_Available = br_Available\<rparr>"

interpretation br_proto: proto_source br_proto_ops br_ok br_range br_offset br_Peek
  unfolding proto_source_def br_proto_ops_def by simp (rule br.stream_reader_axioms)

lemma vector_message:
  assumes "bv_inv v" and "bv_list v = []" and "length (items_bytes items) \<le> bvw_Available v" and "bv_max_size v < 2 ^ 32" and "\<not> ep_failed q"
  obtains v' p' where "pf_items bvw_ops items v p = Inr (v', p')" "vr_proto.ready (pp_make vr_ops (vr_make v') q)"
    "vr_proto.remaining (pp_make vr_ops (vr_make v') q) = items_bytes items"
proof -
  obtain v' p' where v': "pf_items bvw_ops items v p = Inr (v', p')" "bv_inv v'" "bv_max_size v' = bv_max_size v" "bv_list v' = items_bytes items"
    by (rule bvw_proto.addsD [OF bvw_proto.items_written(2) [of "bv_max_size v" items], of v p]) (use assms in auto)
  have "vr_ok (vr_make v')" "length (vr_bytes (vr_make v')) < 2 ^ 32"
    using v' assms(3,4) by (simp_all add: vr_ok_def vr_make_def vr_bytes_def bvw_Available_def)
  from vr_proto.make_ready [OF this assms(5), of None] show thesis
    using v' by (intro that [OF v'(1)]) (simp_all add: pp_make_def vr_make_def vr_bytes_def)
qed

text \<open>
  C31. A message that is written with \<^verbatim>\<open>ProtoFormatter\<close> to a vector that has room for it, with fields of every kind and messages within fields, is read
  by \<^verbatim>\<open>ProtoParser\<close> from the vector: the same fields with the same numbers in the same order, and nothing is reported as failed. Field numbers are below
  \<open>2 ^ 29\<close>.
\<close>

theorem proto_message_roundtrip:
  assumes "bv_inv v" and "bv_list v = []" and "length (items_bytes items) \<le> bvw_Available v" and "bv_max_size v < 2 ^ 32"
    and "\<forall>item \<in> set items. item_ok item" and "\<not> ep_failed q"
  shows "\<exists>v' p' i. pf_items bvw_ops items v p = Inr (v', p')
    \<and> pp_ReadMessage (Suc (length items)) vr_ops (pp_make vr_ops (vr_make v') q) = Inr (map item_value items, i)
    \<and> pp_Empty vr_ops i \<and> \<not> ep_failed (pi_errorPolicy i)"
proof -
  obtain v' p' where v': "pf_items bvw_ops items v p = Inr (v', p')" "vr_proto.ready (pp_make vr_ops (vr_make v') q)"
      "vr_proto.remaining (pp_make vr_ops (vr_make v') q) = items_bytes items"
    by (rule vector_message [OF assms(1-4,6)])
  obtain i where "pp_ReadMessage (Suc (length items)) vr_ops (pp_make vr_ops (vr_make v') q) = Inr (map item_value items, i)" "vr_proto.ready i"
      "vr_proto.remaining i = []"
    using vr_proto.message_read [OF v'(2,3) assms(5)] by blast
  then show ?thesis using v'(1) vr_proto.empty_iff by (auto simp: vr_proto.ready_def)
qed

text \<open>
  C32. A message in a field, written piece by piece with \<^verbatim>\<open>ProtoLengthDelimitedFormatter\<close>, is found as a field with a length: the field has exactly the bytes of
  the inner message, and a parser for the field reads the fields of the inner message and stops at its end, whatever comes behind it.
\<close>

theorem proto_nested_message:
  assumes "bv_inv v" and "bv_list v = []" and "length (items_bytes (ItemMessage inner f # rest)) \<le> bvw_Available v" and "bv_max_size v < 2 ^ 32"
    and "item_ok (ItemMessage inner f)" and "\<forall>item \<in> set inner. item_ok item" and "\<not> ep_failed q"
  shows "\<exists>v' p' d i. pf_items bvw_ops (ItemMessage inner f # rest) v p = Inr (v', p')
    \<and> pp_GetField vr_ops (pp_make vr_ops (vr_make v') q) = Inr (FieldLengthDelimited d, f)
    \<and> pd_Available (pr_limited vr_ops) d = length (items_bytes inner)
    \<and> pp_ReadMessage (Suc (length inner)) (pr_limited (pr_limited vr_ops)) (pd_Parser (pr_limited vr_ops) d) = Inr (map item_value inner, i)
    \<and> pp_Empty (pr_limited (pr_limited vr_ops)) i"
proof -
  let ?bs = "items_bytes inner"
  obtain v' p' where v': "pf_items bvw_ops (ItemMessage inner f # rest) v p = Inr (v', p')" "vr_proto.ready (pp_make vr_ops (vr_make v') q)"
      "vr_proto.remaining (pp_make vr_ops (vr_make v') q) = items_bytes (ItemMessage inner f # rest)"
    by (rule vector_message [OF assms(1-4,7)])
  have ok: "unat f < 2 ^ 29" "length ?bs < 2 ^ 32" using assms(5) by (simp_all add: item_ok_def)
  obtain i1 where i1: "vr_proto.ready i1" "vr_proto.remaining i1 = ?bs @ items_bytes rest"
      "pp_GetField vr_ops (pp_make vr_ops (vr_make v') q) = bindR (pd_make vr_ops (of_nat (length ?bs)) i1) (\<lambda>d. Inr (FieldLengthDelimited d, f))"
    using vr_proto.delimited_found [OF ok v'(2)] v'(3) by auto
  obtain d where d: "pd_make vr_ops (of_nat (length ?bs)) i1 = Inr d" "pd_Available (pr_limited vr_ops) d = length ?bs"
      "proto_source.ready (lr_ok vr_ok vr_bytes vr_offset) (lr_bytes vr_bytes vr_offset) (lr_pos vr_offset) d"
      "proto_source.remaining (lr_bytes vr_bytes vr_offset) (lr_pos vr_offset) d = ?bs"
    by (rule vr_proto.delimited_ready [OF i1(1,2) ok(2)]) blast
  note inner = proto_source.limited [OF vr_proto.limited]
  note parser = proto_source.parser_ready [OF vr_proto.limited d(3)]
  obtain i where i: "pp_ReadMessage (Suc (length inner)) (pr_limited (pr_limited vr_ops)) (pd_Parser (pr_limited vr_ops) d) = Inr (map item_value inner, i)"
      "pp_Empty (pr_limited (pr_limited vr_ops)) i"
    using proto_source.message_read [OF inner parser(1) _ assms(6), of "Suc (length inner)"] parser(2) d(4) proto_source.empty_iff [OF inner] by auto
  then show ?thesis using v'(1) i1(3) d(1,2) by auto
qed

text \<open>
  C33. A field with a type the parser does not know is reported to the error policy of the format. A number that has no end within ten bytes is not: \<^verbatim>\<open>GetVarInt\<close> returns
  a n and neither error policy reports a failure.
\<close>

theorem proto_parser_errors:
  assumes "vr_ok r" and "length (vr_bytes r) < 2 ^ 32" and "\<not> ep_failed p" and "\<not> ep_failed q" and "ep_failureMode q \<noteq> FailByAssertion"
  defines "i \<equiv> pp_make_format vr_ops r p (Some q)"
  shows "(drop (vr_offset r) (vr_bytes r) = varint (unat (proto_tag f k)) @ u \<and> unat f < 2 ^ 29 \<and> unat k < 8 \<and> k \<notin> {0, 1, 2, 5} \<longrightarrow>
      (\<exists>i'. pp_GetField vr_ops i = Inr (FieldUint32 0 i', 0) \<and> fst (pp_FormatFailed i')))
    \<and> (drop (vr_offset r) (vr_bytes r) = bs @ u \<and> length bs = 10 \<and> (\<forall>b \<in> set bs. 128 \<le> unat b) \<longrightarrow>
      (\<exists>n i'. pp_GetVarInt vr_ops i = Inr (n, i') \<and> \<not> fst (pi_Failed i') \<and> \<not> fst (pp_FormatFailed i')))"
proof -
  have i: "vr_proto.ready i" "vr_proto.remaining i = drop (vr_offset r) (vr_bytes r)" "pi_formatErrorPolicy i = Some q"
    using vr_proto.make_ready [OF assms(1-3), of "Some q"] assms(4) by (simp_all add: i_def) (simp add: pp_make_format_def)
  have "\<exists>i'. pp_GetField vr_ops i = Inr (FieldUint32 0 i', 0) \<and> fst (pp_FormatFailed i')"
    if "drop (vr_offset r) (vr_bytes r) = varint (unat (proto_tag f k)) @ u" "unat f < 2 ^ 29" "unat k < 8" "k \<notin> {0, 1, 2, 5}"
  proof -
    have "take_bit 3 k = k" using that(3) by (simp only: word_unat_eq_iff unsigned_take_bit_eq) (simp add: take_bit_nat_eq_self)
    then show ?thesis using vr_proto.unknown_type_reported [OF i(1) _ that(2) _ that(4) i(3) assms(5)] that(1) i(2) by simp
  qed
  moreover have "\<exists>n i'. pp_GetVarInt vr_ops i = Inr (n, i') \<and> \<not> fst (pi_Failed i') \<and> \<not> fst (pp_FormatFailed i')"
    if bs: "drop (vr_offset r) (vr_bytes r) = bs @ u" "length bs = 10" "\<forall>b \<in> set bs. 128 \<le> unat b"
  proof -
    obtain n i' where g: "pp_GetVarInt vr_ops i = Inr (n, i')" "vr_proto.ready i'"
      using vr_proto.overlong_unreported [OF i(1) _ bs(2,3)] i(2) bs(1) by auto
    then show ?thesis using GetVarInt_format [OF g(1) i(3)] by (auto simp: vr_proto.ready_def pi_Failed_def pp_FormatFailed_def ep_Failed_def)
  qed
  ultimately show ?thesis by blast
qed

text \<open>A message with a number, a message with two fields, and text.\<close>

definition sample_items :: "proto_item list" where
  "sample_items = [ItemVarInt 300 1, ItemMessage [ItemFixed32 5 2, ItemSigned 7 3] 4, ItemString [104, 105] 5]"

definition sample_vector :: "byte bounded_vector" where
  "sample_vector = \<lparr>bv_storage = replicate 24 None, bv_numAllocated = 0\<rparr>"

lemma sample_vector: "bv_inv sample_vector" "bv_list sample_vector = []" "bvw_Available sample_vector = 24" "bv_max_size sample_vector = 24"
  by (simp_all add: sample_vector_def bv_inv_def alive_def bv_list_def bvw_Available_def bv_max_size_def bv_size_def)

lemma sample_bytes: "items_bytes sample_items = [8, 172, 2, 34, 7, 21, 5, 0, 0, 0, 24, 14, 42, 2, 104, 105]"
  by code_simp

lemma sample_ok: "\<forall>item \<in> set sample_items. item_ok item" "item_ok (ItemMessage [ItemFixed32 5 2, ItemSigned 7 3] 4)"
  "\<forall>item \<in> set [ItemFixed32 5 2, ItemSigned 7 3]. item_ok item"
proof -
  have b: "items_bytes [ItemFixed32 5 2, ItemSigned 7 3] = [21, 5, 0, 0, 0, 24, 14]" by code_simp
  show "\<forall>item \<in> set sample_items. item_ok item" by (simp add: sample_items_def item_ok_def b del: items_bytes.simps)
  show "item_ok (ItemMessage [ItemFixed32 5 2, ItemSigned 7 3] 4)" by (simp add: item_ok_def b del: items_bytes.simps)
  show "\<forall>item \<in> set [ItemFixed32 5 2, ItemSigned 7 3]. item_ok item" by (simp add: item_ok_def)
qed

theorem proto_message_roundtrip_witness:
  "\<exists>v' p' i. pf_items bvw_ops sample_items sample_vector (ep_make FailSoft) = Inr (v', p')
    \<and> pp_ReadMessage 4 vr_ops (pp_make vr_ops (vr_make v') (ep_make FailSoft)) =
        Inr ([(ValueUint64 300, 1), (ValueBytes [21, 5, 0, 0, 0, 24, 14], 4), (ValueBytes [104, 105], 5)], i)
    \<and> pp_Empty vr_ops i \<and> \<not> ep_failed (pi_errorPolicy i)"
proof -
  have v: "map item_value sample_items = [(ValueUint64 300, 1), (ValueBytes [21, 5, 0, 0, 0, 24, 14], 4), (ValueBytes [104, 105], 5)]" by code_simp
  have n: "Suc (length sample_items) = 4" by (simp add: sample_items_def)
  have len: "length (items_bytes sample_items) \<le> bvw_Available sample_vector" by (simp add: sample_bytes sample_vector)
  show ?thesis using proto_message_roundtrip [OF sample_vector(1,2) len _ sample_ok(1), of "ep_make FailSoft" "ep_make FailSoft", unfolded v n]
    by (simp add: sample_vector ep_make_def)
qed

theorem proto_nested_message_witness:
  "\<exists>v' p' d i. pf_items bvw_ops [ItemMessage [ItemFixed32 5 2, ItemSigned 7 3] 4, ItemString [104, 105] 5] sample_vector (ep_make FailSoft) = Inr (v', p')
    \<and> pp_GetField vr_ops (pp_make vr_ops (vr_make v') (ep_make FailSoft)) = Inr (FieldLengthDelimited d, 4)
    \<and> pd_Available (pr_limited vr_ops) d = 7
    \<and> pp_ReadMessage 3 (pr_limited (pr_limited vr_ops)) (pd_Parser (pr_limited vr_ops) d) = Inr ([(ValueUint32 5, 2), (ValueUint64 14, 3)], i)
    \<and> pp_Empty (pr_limited (pr_limited vr_ops)) i"
proof -
  let ?inner = "[ItemFixed32 5 2, ItemSigned 7 3]" and ?rest = "[ItemString [104, 105] 5]"
  have b: "items_bytes (ItemMessage ?inner 4 # ?rest) = [34, 7, 21, 5, 0, 0, 0, 24, 14, 42, 2, 104, 105]" by code_simp
  have i: "items_bytes ?inner = [21, 5, 0, 0, 0, 24, 14]" by code_simp
  have v: "map item_value ?inner = [(ValueUint32 5, 2), (ValueUint64 14, 3)]" by code_simp
  have n: "Suc (length ?inner) = 3" "length (items_bytes ?inner) = 7" by (simp, simp add: i del: items_bytes.simps)
  have len: "length (items_bytes (ItemMessage ?inner 4 # ?rest)) \<le> bvw_Available sample_vector" by (simp add: b sample_vector del: items_bytes.simps)
  show ?thesis
    using proto_nested_message [OF sample_vector(1,2) len _ sample_ok(2,3), of "ep_make FailSoft" "ep_make FailSoft", unfolded v n]
    by (simp add: sample_vector ep_make_def)
qed

definition filled_vector :: "byte list \<Rightarrow> byte bounded_vector" where
  "filled_vector bs = \<lparr>bv_storage = map Some bs, bv_numAllocated = length bs\<rparr>"

lemma filled_vector: "vr_ok (vr_make (filled_vector bs))" "vr_bytes (vr_make (filled_vector bs)) = bs" "vr_offset (vr_make (filled_vector bs)) = 0"
  by (auto simp: filled_vector_def vr_ok_def vr_make_def vr_bytes_def bv_inv_def alive_def bv_list_def bv_size_def comp_def)

theorem proto_parser_errors_witness:
  "(\<exists>i'. pp_GetField vr_ops (pp_make_format vr_ops (vr_make (filled_vector [11])) (ep_make FailSoft) (Some (ep_make FailSoft))) = Inr (FieldUint32 0 i', 0)
      \<and> fst (pp_FormatFailed i'))
    \<and> (\<exists>n i'. pp_GetVarInt vr_ops (pp_make_format vr_ops (vr_make (filled_vector (replicate 10 255))) (ep_make FailSoft) (Some (ep_make FailSoft))) = Inr (n, i')
      \<and> \<not> fst (pi_Failed i') \<and> \<not> fst (pp_FormatFailed i'))"
proof -
  have t: "varint (unat (proto_tag 1 3)) = [11]" by code_simp
  have p: "\<not> ep_failed (ep_make FailSoft)" "ep_failureMode (ep_make FailSoft) \<noteq> FailByAssertion" by (simp_all add: ep_make_def)
  show ?thesis
    using proto_parser_errors [OF filled_vector(1) [of "[11]"] _ p(1,1,2), of 1 3 "[]" "[]"]
      proto_parser_errors [OF filled_vector(1) [of "replicate 10 255"] _ p(1,1,2), of 1 3 "[]" "replicate 10 255"]
    by (simp add: filled_vector t)
qed

end
