(* ===== verification/Intrusive_List.thy ===== *)
theory Intrusive_List
  imports Prelude
begin

section \<open>Doubly linked lists through the elements\<close>

text \<open>
  \<^verbatim>\<open>infra::IntrusiveList\<close> (infra/util/IntrusiveList.hpp): a list whose links live in its elements. The elements are not copied
  into the list, so the model has a store that gives the links of every node by its address, which all lists share, and a list is
  the address of its first node, the address of its own end node and the number of its elements. Each operation changes
  the store link by link as the code does, and reading through a null pointer is \<open>UndefinedBehaviour\<close>. The
  theorems relate the store to the list of addresses it holds.
\<close>

subsection \<open>Nodes\<close>

type_synonym addr = nat
type_synonym ptr = "addr option"

definition deref :: "ptr \<Rightarrow> (addr \<Rightarrow> 'a result) \<Rightarrow> 'a result" where
  "deref p f = (case p of None \<Rightarrow> Inl UndefinedBehaviour | Some a \<Rightarrow> f a)"

lemma deref_simps [simp]: "deref None f = Inl UndefinedBehaviour" "deref (Some a) f = f a"
  by (simp_all add: deref_def)

lemma deref_cong [fundef_cong]: "p = q \<Longrightarrow> (\<And>a. q = Some a \<Longrightarrow> f a = g a) \<Longrightarrow> deref p f = deref q g"
  by (cases q) auto

record il_store =
  il_next :: "addr \<Rightarrow> ptr"
  il_previous :: "addr \<Rightarrow> ptr"

definition set_next :: "addr \<Rightarrow> ptr \<Rightarrow> il_store \<Rightarrow> il_store" where
  "set_next a p s = s\<lparr>il_next := (il_next s)(a := p)\<rparr>"

definition set_previous :: "addr \<Rightarrow> ptr \<Rightarrow> il_store \<Rightarrow> il_store" where
  "set_previous a p s = s\<lparr>il_previous := (il_previous s)(a := p)\<rparr>"

text \<open>A statement of the form \<^verbatim>\<open>if (p != nullptr) p->...\<close>.\<close>

definition if_node :: "ptr \<Rightarrow> (addr \<Rightarrow> il_store \<Rightarrow> il_store) \<Rightarrow> il_store \<Rightarrow> il_store" where
  "if_node p f s = (case p of None \<Rightarrow> s | Some a \<Rightarrow> f a s)"

text \<open>Assigning one node to another leaves the links of both as they are: \<^verbatim>\<open>IntrusiveListNode::operator=\<close> does nothing.\<close>

definition il_node_assign :: "addr \<Rightarrow> addr \<Rightarrow> il_store \<Rightarrow> il_store" where
  "il_node_assign a b s = s"

text \<open>A node that is constructed, also as a copy of another, has no links.\<close>

definition il_node_make :: "addr \<Rightarrow> il_store \<Rightarrow> il_store" where
  "il_node_make a s = set_previous a None (set_next a None s)"

subsection \<open>The list\<close>

record il_list =
  il_numberOfElements :: nat
  il_beginNode :: ptr
  il_endNode :: addr

type_synonym il_state = "il_store \<times> il_list"

text \<open>The constructor, for a list whose end node is at the address \<open>e\<close>.\<close>

definition il_make :: "addr \<Rightarrow> il_store \<Rightarrow> il_state" where
  "il_make e s = (il_node_make e s, \<lparr>il_numberOfElements = 0, il_beginNode = Some e, il_endNode = e\<rparr>)"

text \<open>\<^verbatim>\<open>--\<close> on a \<^verbatim>\<open>std::size_t\<close>.\<close>

definition size_dec :: "nat \<Rightarrow> nat" where
  "size_dec n = (if n = 0 then 2 ^ 64 - 1 else n - 1)"

definition il_size :: "il_list \<Rightarrow> nat" where
  "il_size l = il_numberOfElements l"

definition il_empty :: "il_list \<Rightarrow> bool" where
  "il_empty l \<longleftrightarrow> il_numberOfElements l = 0"

definition il_front :: "il_list \<Rightarrow> addr result" where
  "il_front l = deref (il_beginNode l) Inr"

definition il_back :: "il_state \<Rightarrow> addr result" where
  "il_back = (\<lambda>(s, l). deref (il_previous s (il_endNode l)) Inr)"

definition il_push_front :: "addr \<Rightarrow> il_state \<Rightarrow> il_state" where
  "il_push_front node = (\<lambda>(s, l).
     let s1 = set_next node (il_beginNode l) s;
         s2 = set_previous node None s1;
         s3 = if_node (il_next s2 node) (\<lambda>n. set_previous n (Some node)) s2
     in (s3, l\<lparr>il_beginNode := Some node, il_numberOfElements := il_numberOfElements l + 1\<rparr>))"

definition il_push_back :: "addr \<Rightarrow> il_state \<Rightarrow> il_state" where
  "il_push_back node = (\<lambda>(s, l).
     let e = il_endNode l;
         s1 = set_next node (Some e) s;
         s2 = set_previous node (il_previous s1 e) s1;
         (s3, l1) = (case il_previous s2 node of
                       Some p \<Rightarrow> (set_next p (Some node) s2, l)
                     | None \<Rightarrow> (s2, l\<lparr>il_beginNode := Some node\<rparr>));
         s4 = set_previous e (Some node) s3
     in (s4, l1\<lparr>il_numberOfElements := il_numberOfElements l1 + 1\<rparr>))"

definition il_pop_front :: "il_state \<Rightarrow> il_state result" where
  "il_pop_front = (\<lambda>(s, l).
     deref (il_beginNode l) (\<lambda>erasingNode.
       let l1 = l\<lparr>il_beginNode := il_next s erasingNode\<rparr>
       in deref (il_beginNode l1) (\<lambda>b.
            let s1 = set_previous b None s;
                s2 = set_next erasingNode None s1
            in Inr (s2, l1\<lparr>il_numberOfElements := size_dec (il_numberOfElements l1)\<rparr>))))"

definition il_pop_back :: "il_state \<Rightarrow> il_state result" where
  "il_pop_back = (\<lambda>(s, l).
     let e = il_endNode l
     in deref (il_previous s e) (\<lambda>erasingNode.
          let s1 = set_previous e (il_previous s erasingNode) s;
              s2 = if_node (il_previous s1 e) (\<lambda>p. set_next p (Some e)) s1;
              s3 = set_previous erasingNode None s2
          in Inr (s3, l\<lparr>il_numberOfElements := size_dec (il_numberOfElements l)\<rparr>)))"

definition il_insert :: "addr \<Rightarrow> addr \<Rightarrow> il_state \<Rightarrow> il_state" where
  "il_insert position node = (\<lambda>(s, l).
     let s1 = set_previous node (il_previous s position) s;
         s2 = set_next node (Some position) s1;
         s3 = set_previous position (Some node) s2;
         (s4, l1) = (case il_previous s3 node of
                       Some p \<Rightarrow> (set_next p (Some node) s3, l)
                     | None \<Rightarrow> (s3, l\<lparr>il_beginNode := Some node\<rparr>))
     in (s4, l1\<lparr>il_numberOfElements := il_numberOfElements l1 + 1\<rparr>))"

definition il_unlink :: "addr \<Rightarrow> il_state \<Rightarrow> il_state result" where
  "il_unlink node = (\<lambda>(s, l).
     deref (il_next s node) (\<lambda>n.
       let s1 = set_previous n (il_previous s node) s;
           s2 = set_previous node None s1;
           s3 = set_next node None s2
       in Inr (s3, l\<lparr>il_numberOfElements := size_dec (il_numberOfElements l)\<rparr>)))"

definition il_erase :: "addr \<Rightarrow> il_state \<Rightarrow> il_state result" where
  "il_erase node = (\<lambda>(s, l).
     case il_previous s node of
       Some p \<Rightarrow> il_unlink node (set_next p (il_next s node) s, l)
     | None \<Rightarrow> if il_beginNode l \<noteq> Some node then Inr (s, l)
               else il_unlink node (s, l\<lparr>il_beginNode := il_next s node\<rparr>))"

lemma size_dec_less: "n \<noteq> 0 \<Longrightarrow> size_dec n < n"
  by (simp add: size_dec_def)

lemma il_pop_front_size: "il_pop_front (s, l) = Inr (s', l') \<Longrightarrow> il_numberOfElements l' = size_dec (il_numberOfElements l)"
  by (auto simp: il_pop_front_def deref_def Let_def split: option.splits)

function il_clear :: "il_state \<Rightarrow> il_state result" where
  "il_clear sl = (if il_empty (snd sl) then Inr sl else bindR (il_pop_front sl) il_clear)"
  by auto
termination
  by (relation "measure (\<lambda>sl. il_numberOfElements (snd sl))") (auto simp: il_empty_def size_dec_less dest: il_pop_front_size)

declare il_clear.simps [simp del]

definition il_assign :: "addr list \<Rightarrow> il_state \<Rightarrow> il_state result" where
  "il_assign nodes sl = bindR (il_clear sl) (\<lambda>sl1. Inr (fold il_push_back nodes sl1))"

text \<open>The constructor from a range.\<close>

definition il_make_range :: "addr list \<Rightarrow> addr \<Rightarrow> il_store \<Rightarrow> il_state result" where
  "il_make_range nodes e s = il_assign nodes (il_make e s)"

definition il_move_assign :: "il_store \<Rightarrow> il_list \<Rightarrow> il_list \<Rightarrow> (il_store \<times> il_list \<times> il_list) result" where
  "il_move_assign s l other = bindR (il_clear (s, l)) (\<lambda>(s1, l1).
     let l2 = l1\<lparr>il_numberOfElements := il_numberOfElements other\<rparr>;
         l3 = (if il_beginNode other \<noteq> Some (il_endNode other) then l2\<lparr>il_beginNode := il_beginNode other\<rparr> else l2);
         s2 = set_previous (il_endNode l3) (il_previous s1 (il_endNode other)) s1;
         s3 = if_node (il_previous s2 (il_endNode l3)) (\<lambda>p. set_next p (Some (il_endNode l3))) s2;
         other1 = other\<lparr>il_beginNode := Some (il_endNode other)\<rparr>;
         s4 = set_previous (il_endNode other) None s3
     in Inr (s4, l3, other1\<lparr>il_numberOfElements := 0\<rparr>))"

definition il_make_move :: "addr \<Rightarrow> il_store \<Rightarrow> il_list \<Rightarrow> (il_store \<times> il_list \<times> il_list) result" where
  "il_make_move e s other = (let (s1, l) = il_make e s in il_move_assign s1 l other)"

text \<open>\<^verbatim>\<open>std::swap\<close> on the end nodes copies one to a temporary node and assigns nodes twice.\<close>

definition il_swap :: "il_store \<Rightarrow> il_list \<Rightarrow> il_list \<Rightarrow> il_store \<times> il_list \<times> il_list" where
  "il_swap s l other =
     (let s1 = il_node_assign (il_endNode l) (il_endNode other) s;
          s2 = il_node_assign (il_endNode other) (il_endNode l) s1;
          l1 = l\<lparr>il_beginNode := il_beginNode other, il_numberOfElements := il_numberOfElements other\<rparr>;
          other1 = other\<lparr>il_beginNode := il_beginNode l, il_numberOfElements := il_numberOfElements l\<rparr>;
          (s3, l2) = (case il_previous s2 (il_endNode l1) of
                        Some p \<Rightarrow> (set_next p (Some (il_endNode l1)) s2, l1)
                      | None \<Rightarrow> (s2, l1\<lparr>il_beginNode := Some (il_endNode l1)\<rparr>));
          (s4, other2) = (case il_previous s3 (il_endNode other1) of
                        Some p \<Rightarrow> (set_next p (Some (il_endNode other1)) s3, other1)
                      | None \<Rightarrow> (s3, other1\<lparr>il_beginNode := Some (il_endNode other1)\<rparr>))
      in (s4, l2, other2))"

subsection \<open>Walking through the list\<close>

text \<open>
  A loop from an iterator \<open>p\<close> to the iterator \<open>e\<close>. The links could form a circle, so the loops have fuel; for a well-formed list more
  fuel than elements is enough.
\<close>

fun il_has_element_loop :: "nat \<Rightarrow> il_store \<Rightarrow> addr \<Rightarrow> ptr \<Rightarrow> addr \<Rightarrow> bool result" where
  "il_has_element_loop 0 s node p e = Inl OutOfFuel"
| "il_has_element_loop (Suc k) s node p e =
     (if p = Some e then Inr False
      else deref p (\<lambda>item. if item = node then Inr True else il_has_element_loop k s node (il_next s item) e))"

definition il_has_element :: "nat \<Rightarrow> addr \<Rightarrow> il_state \<Rightarrow> bool result" where
  "il_has_element fuel node = (\<lambda>(s, l). il_has_element_loop fuel s node (il_beginNode l) (il_endNode l))"

text \<open>\<^verbatim>\<open>std::equal\<close> and \<^verbatim>\<open>std::lexicographical_compare\<close> on iterators, with the comparison of elements as a parameter.\<close>

fun il_equal_loop :: "nat \<Rightarrow> (addr \<Rightarrow> addr \<Rightarrow> bool) \<Rightarrow> il_store \<Rightarrow> ptr \<Rightarrow> addr \<Rightarrow> ptr \<Rightarrow> bool result" where
  "il_equal_loop 0 eq s p e q = Inl OutOfFuel"
| "il_equal_loop (Suc k) eq s p e q =
     (if p = Some e then Inr True
      else deref p (\<lambda>x. deref q (\<lambda>y. if \<not> eq x y then Inr False else il_equal_loop k eq s (il_next s x) e (il_next s y))))"

definition il_eq :: "nat \<Rightarrow> (addr \<Rightarrow> addr \<Rightarrow> bool) \<Rightarrow> il_store \<Rightarrow> il_list \<Rightarrow> il_list \<Rightarrow> bool result" where
  "il_eq fuel eq s l other =
     (if il_size l = il_size other then il_equal_loop fuel eq s (il_beginNode l) (il_endNode l) (il_beginNode other) else Inr False)"

fun il_less_loop :: "nat \<Rightarrow> (addr \<Rightarrow> addr \<Rightarrow> bool) \<Rightarrow> il_store \<Rightarrow> ptr \<Rightarrow> addr \<Rightarrow> ptr \<Rightarrow> addr \<Rightarrow> bool result" where
  "il_less_loop 0 lt s p e q f = Inl OutOfFuel"
| "il_less_loop (Suc k) lt s p e q f =
     (if p = Some e \<or> q = Some f then Inr (p = Some e \<and> q \<noteq> Some f)
      else deref p (\<lambda>x. deref q (\<lambda>y.
        if lt x y then Inr True else if lt y x then Inr False else il_less_loop k lt s (il_next s x) e (il_next s y) f)))"

definition il_less :: "nat \<Rightarrow> (addr \<Rightarrow> addr \<Rightarrow> bool) \<Rightarrow> il_store \<Rightarrow> il_list \<Rightarrow> il_list \<Rightarrow> bool result" where
  "il_less fuel lt s l other = il_less_loop fuel lt s (il_beginNode l) (il_endNode l) (il_beginNode other) (il_endNode other)"

subsection \<open>The list a store holds\<close>

lemma set_next_fields [simp]:
  "il_next (set_next a p s) = (il_next s)(a := p)" "il_previous (set_next a p s) = il_previous s"
  by (simp_all add: set_next_def)

lemma set_previous_fields [simp]:
  "il_previous (set_previous a p s) = (il_previous s)(a := p)" "il_next (set_previous a p s) = il_next s"
  by (simp_all add: set_previous_def)

lemma set_previous_set_next: "set_previous a p (set_next b q s) = set_next b q (set_previous a p s)"
  by (simp add: set_previous_def set_next_def)

lemma if_node_simps [simp]: "if_node None f s = s" "if_node (Some a) f s = f a s"
  by (simp_all add: if_node_def)

text \<open>\<open>il_seg s p xs q\<close>: the nodes \<open>xs\<close> are linked both ways, \<open>p\<close> comes before them and the node \<open>q\<close> after them.\<close>

fun il_seg :: "il_store \<Rightarrow> ptr \<Rightarrow> addr list \<Rightarrow> addr \<Rightarrow> bool" where
  "il_seg s p [] q \<longleftrightarrow> il_previous s q = p"
| "il_seg s p (x # xs) q \<longleftrightarrow> il_previous s x = p \<and> il_next s x = Some (hd (xs @ [q])) \<and> il_seg s (Some x) xs q"

definition last_ptr :: "ptr \<Rightarrow> addr list \<Rightarrow> ptr" where
  "last_ptr p xs = (if xs = [] then p else Some (last xs))"

lemma last_ptr_simps [simp]: "last_ptr p [] = p" "last_ptr p (x # xs) = last_ptr (Some x) xs" "last_ptr p (xs @ [x]) = Some x"
  by (simp_all add: last_ptr_def)

lemma il_seg_append: "il_seg s p (xs @ y # ys) q \<longleftrightarrow> il_seg s p xs y \<and> il_seg s (last_ptr p xs) (y # ys) q"
  by (induction xs arbitrary: p) (auto simp: hd_append)

lemma il_seg_snoc: "il_seg s p (xs @ [y]) q \<longleftrightarrow> il_seg s p xs y \<and> il_next s y = Some q \<and> il_previous s q = Some y"
  by (induction xs arbitrary: p) (auto simp: hd_append)

lemma il_seg_previous: "il_seg s p xs q \<Longrightarrow> il_previous s q = last_ptr p xs"
  by (induction xs arbitrary: p) auto

lemma il_seg_cong:
  "(\<And>a. a \<in> set xs \<Longrightarrow> il_next s a = il_next t a) \<Longrightarrow> (\<And>a. a \<in> set (xs @ [q]) \<Longrightarrow> il_previous s a = il_previous t a)
   \<Longrightarrow> il_seg s p xs q = il_seg t p xs q"
  by (induction xs arbitrary: p) auto

lemma il_seg_set_next [simp]: "a \<notin> set xs \<Longrightarrow> il_seg (set_next a v s) p xs q = il_seg s p xs q"
  by (rule il_seg_cong) auto

lemma il_seg_set_previous [simp]: "a \<notin> set xs \<Longrightarrow> a \<noteq> q \<Longrightarrow> il_seg (set_previous a v s) p xs q = il_seg s p xs q"
  by (rule il_seg_cong) auto

text \<open>Another node takes the place after the segment.\<close>

lemma il_seg_retarget:
  assumes "il_seg s p xs q" and "distinct (xs @ [r])" and "xs \<noteq> []"
  shows "il_seg (set_previous r (Some (last xs)) (set_next (last xs) (Some r) s)) p xs r"
  using assms by (cases xs rule: rev_cases) (auto simp: il_seg_snoc)

definition il_inv :: "il_store \<Rightarrow> il_list \<Rightarrow> addr list \<Rightarrow> bool" where
  "il_inv s l xs \<longleftrightarrow> distinct (xs @ [il_endNode l]) \<and> il_seg s None xs (il_endNode l)
     \<and> il_beginNode l = Some (hd (xs @ [il_endNode l])) \<and> il_numberOfElements l = length xs"

abbreviation il_holds :: "il_state \<Rightarrow> addr list \<Rightarrow> bool" where
  "il_holds sl xs \<equiv> il_inv (fst sl) (snd sl) xs"

text \<open>A store holds at most one list.\<close>

lemma il_seg_unique: "il_seg s p xs q \<Longrightarrow> il_seg s p' ys q \<Longrightarrow> hd (xs @ [q]) = hd (ys @ [q]) \<Longrightarrow> q \<notin> set xs \<Longrightarrow> q \<notin> set ys \<Longrightarrow> xs = ys"
proof (induction xs arbitrary: p p' ys)
  case Nil
  then show ?case by (cases ys) auto
next
  case (Cons x xs)
  then show ?case by (cases ys) fastforce+
qed

lemma il_inv_unique: "il_inv s l xs \<Longrightarrow> il_inv s l ys \<Longrightarrow> xs = ys"
  by (auto simp: il_inv_def intro: il_seg_unique)

text \<open>A list does not depend on links of nodes outside it.\<close>

lemma il_inv_cong:
  assumes "il_inv s l xs" and "\<And>a. a \<in> set xs \<Longrightarrow> il_next t a = il_next s a"
    and "\<And>a. a \<in> set (xs @ [il_endNode l]) \<Longrightarrow> il_previous t a = il_previous s a"
  shows "il_inv t l xs"
proof -
  have "il_seg t None xs (il_endNode l) = il_seg s None xs (il_endNode l)" by (rule il_seg_cong) (use assms in auto)
  then show ?thesis using assms(1) by (simp add: il_inv_def)
qed

subsection \<open>Each operation on the list it holds\<close>

lemma il_make_inv: "il_inv (fst (il_make e s)) (snd (il_make e s)) []"
  by (simp add: il_make_def il_node_make_def il_inv_def)

lemma il_empty_iff: "il_inv s l xs \<Longrightarrow> il_empty l \<longleftrightarrow> xs = []"
  by (simp add: il_inv_def il_empty_def)

lemma il_front_inv: "il_inv s l (x # xs) \<Longrightarrow> il_front l = Inr x"
  by (simp add: il_inv_def il_front_def)

lemma il_back_inv: "il_inv s l (xs @ [x]) \<Longrightarrow> il_back (s, l) = Inr x"
  by (simp add: il_inv_def il_back_def il_seg_snoc)

lemma il_push_front_inv:
  assumes "il_inv s l xs" and "x \<notin> set xs" and "x \<noteq> il_endNode l"
  shows "il_holds (il_push_front x (s, l)) (x # xs)" and "il_endNode (snd (il_push_front x (s, l))) = il_endNode l"
proof -
  obtain y ys where y: "xs @ [il_endNode l] = y # ys" by (cases "xs @ [il_endNode l]") auto
  show "il_endNode (snd (il_push_front x (s, l))) = il_endNode l" by (simp add: il_push_front_def Let_def)
  show "il_holds (il_push_front x (s, l)) (x # xs)"
    using assms y by (cases xs) (auto simp: il_inv_def il_push_front_def Let_def)
qed

lemma il_insert_seg:
  assumes "il_seg s None (as @ bs) e" and "distinct (as @ bs @ [e])" and "x \<notin> set (as @ bs @ [e])" and "y = hd (bs @ [e])"
  shows "il_seg (if_node (last_ptr None as) (\<lambda>p. set_next p (Some x))
           (set_previous y (Some x) (set_next x (Some y) (set_previous x (last_ptr None as) s)))) None (as @ x # bs) e"
proof (cases as rule: rev_cases)
  case Nil
  then show ?thesis using assms by (cases bs) auto
next
  case (snoc cs c)
  then show ?thesis using assms by (cases bs) (auto simp: il_seg_append il_seg_snoc)
qed

lemma il_insert_inv:
  assumes "il_inv s l (as @ bs)" and "x \<notin> set (as @ bs)" and "x \<noteq> il_endNode l" and "y = hd (bs @ [il_endNode l])"
  shows "il_holds (il_insert y x (s, l)) (as @ x # bs)" and "il_endNode (snd (il_insert y x (s, l))) = il_endNode l"
proof -
  have "il_previous s y = last_ptr None as"
    using assms by (cases bs) (auto simp: il_inv_def il_seg_append dest: il_seg_previous)
  moreover have "x \<noteq> y" using assms by (cases bs) auto
  ultimately have e: "il_insert y x (s, l) = (if_node (last_ptr None as) (\<lambda>p. set_next p (Some x))
           (set_previous y (Some x) (set_next x (Some y) (set_previous x (last_ptr None as) s))),
        (if as = [] then l\<lparr>il_beginNode := Some x\<rparr> else l)\<lparr>il_numberOfElements := il_numberOfElements l + 1\<rparr>)"
    by (auto simp: il_insert_def Let_def last_ptr_def split: option.splits)
  show "il_endNode (snd (il_insert y x (s, l))) = il_endNode l" unfolding e by simp
  have "il_seg s None (as @ bs) (il_endNode l)" "distinct (as @ bs @ [il_endNode l])" using assms(1) by (auto simp: il_inv_def)
  from il_insert_seg [OF this, of x y] show "il_holds (il_insert y x (s, l)) (as @ x # bs)"
    unfolding e using assms by (cases as) (auto simp: il_inv_def)
qed

text \<open>Adding at the back is inserting before the end node.\<close>

lemma il_push_back_insert: "x \<noteq> il_endNode l \<Longrightarrow> il_previous s (il_endNode l) \<noteq> Some (il_endNode l) \<Longrightarrow>
  il_push_back x (s, l) = il_insert (il_endNode l) x (s, l)"
  by (auto simp: il_push_back_def il_insert_def Let_def set_next_def set_previous_def split: option.splits)

lemma il_push_back_inv:
  assumes "il_inv s l xs" and "x \<notin> set xs" and "x \<noteq> il_endNode l"
  shows "il_holds (il_push_back x (s, l)) (xs @ [x])" and "il_endNode (snd (il_push_back x (s, l))) = il_endNode l"
proof -
  have "il_previous s (il_endNode l) \<noteq> Some (il_endNode l)"
    using assms(1) by (auto simp: il_inv_def last_ptr_def dest!: il_seg_previous split: if_splits)
  note e = il_push_back_insert [OF assms(3) this]
  show "il_holds (il_push_back x (s, l)) (xs @ [x])" "il_endNode (snd (il_push_back x (s, l))) = il_endNode l"
    unfolding e using il_insert_inv [of s l xs "[]" x] assms by simp_all
qed

lemma il_erase_seg:
  assumes "il_seg s None (as @ x # bs) e" and "distinct (as @ x # bs @ [e])" and "y = hd (bs @ [e])"
  shows "il_seg (set_next x None (set_previous x None (set_previous y (last_ptr None as)
           (if_node (last_ptr None as) (\<lambda>p. set_next p (Some y)) s)))) None (as @ bs) e"
proof (cases as rule: rev_cases)
  case Nil
  then show ?thesis using assms by (cases bs) auto
next
  case (snoc cs c)
  then show ?thesis using assms by (cases bs) (auto simp: il_seg_append il_seg_snoc)
qed

text \<open>A node is detached when erasing it from a list it is not in does nothing: its link to the previous node is null.\<close>

lemma il_erase_inv:
  assumes "il_inv s l (as @ x # bs)"
  shows "\<exists>s' l'. il_erase x (s, l) = Inr (s', l') \<and> il_inv s' l' (as @ bs) \<and> il_endNode l' = il_endNode l
    \<and> il_previous s' x = None \<and> il_next s' x = None
    \<and> (\<forall>a. a \<notin> set (as @ bs @ [il_endNode l]) \<longrightarrow> a \<noteq> x \<longrightarrow> il_previous s' a = il_previous s a \<and> il_next s' a = il_next s a)"
proof -
  let ?e = "il_endNode l" and ?y = "hd (bs @ [il_endNode l])"
  let ?s = "set_next x None (set_previous x None (set_previous ?y (last_ptr None as)
           (if_node (last_ptr None as) (\<lambda>p. set_next p (Some ?y)) s)))"
  let ?l = "(if as = [] then l\<lparr>il_beginNode := Some ?y\<rparr> else l)\<lparr>il_numberOfElements := length (as @ bs)\<rparr>"
  have seg: "il_seg s None (as @ x # bs) ?e" and d: "distinct (as @ x # bs @ [?e])" using assms by (auto simp: il_inv_def)
  then have x: "il_previous s x = last_ptr None as" "il_next s x = Some ?y" "x \<noteq> ?y"
    by (auto simp: il_seg_append) (cases bs; auto)
  have nl: "last_ptr None as \<noteq> Some x" using d by (auto simp: last_ptr_def)
  have n: "il_numberOfElements l = Suc (length (as @ bs))" "il_beginNode l = Some (hd (as @ [x]))"
    using assms by (auto simp: il_inv_def hd_append)
  have e: "il_erase x (s, l) = Inr (?s, ?l)"
  proof (cases "as = []")
    case True
    then show ?thesis using x n by (simp add: il_erase_def il_unlink_def size_dec_def)
  next
    case False
    then show ?thesis using x n nl by (simp add: il_erase_def il_unlink_def size_dec_def last_ptr_def)
  qed
  have "il_inv ?s ?l (as @ bs)"
    using il_erase_seg [OF seg d refl] d n by (cases as) (auto simp: il_inv_def)
  moreover have y: "?y \<in> set (bs @ [?e])" by (cases bs) auto
  have "il_previous ?s a = il_previous s a \<and> il_next ?s a = il_next s a" if "a \<notin> set (as @ bs @ [?e])" "a \<noteq> x" for a
  proof -
    have "a \<noteq> ?y" using that y by auto
    moreover have "last_ptr None as \<noteq> Some a" using that by (auto simp: last_ptr_def)
    ultimately show ?thesis using that(2) by (auto simp: if_node_def split: option.splits)
  qed
  ultimately show ?thesis using e by (intro exI [of _ ?s] exI [of _ ?l]) simp
qed

lemma il_erase_detached: "il_inv s l xs \<Longrightarrow> x \<notin> set (xs @ [il_endNode l]) \<Longrightarrow> il_previous s x = None \<Longrightarrow> il_erase x (s, l) = Inr (s, l)"
  by (cases xs) (auto simp: il_erase_def il_inv_def)

text \<open>Removing the first element is erasing it.\<close>

lemma il_pop_front_inv:
  assumes "il_inv s l (x # xs)"
  shows "\<exists>s' l'. il_pop_front (s, l) = Inr (s', l') \<and> il_inv s' l' xs \<and> il_endNode l' = il_endNode l
    \<and> il_previous s' x = None \<and> il_next s' x = None
    \<and> (\<forall>a. a \<notin> set (xs @ [il_endNode l]) \<longrightarrow> a \<noteq> x \<longrightarrow> il_previous s' a = il_previous s a \<and> il_next s' a = il_next s a)"
proof -
  have x: "il_previous s x = None" "il_next s x = Some (hd (xs @ [il_endNode l]))" "il_beginNode l = Some x" "x \<noteq> hd (xs @ [il_endNode l])"
    using assms by (cases xs; auto simp: il_inv_def)+
  have "set_previous x None (set_previous y None s) = set_previous y None s" if "x \<noteq> y" for y
    using x(1) that by (cases s) (auto simp: set_previous_def)
  then have "il_pop_front (s, l) = il_erase x (s, l)"
    using x by (simp add: il_pop_front_def il_erase_def il_unlink_def)
  with il_erase_inv [of s l "[]" x xs] assms show ?thesis by simp
qed

lemma il_pop_back_inv:
  assumes "il_inv s l (xs @ [x])" and "xs \<noteq> []"
  shows "\<exists>s' l'. il_pop_back (s, l) = Inr (s', l') \<and> il_inv s' l' xs \<and> il_endNode l' = il_endNode l \<and> il_previous s' x = None"
proof -
  obtain ys y where xs: "xs = ys @ [y]" using assms(2) by (cases xs rule: rev_cases) auto
  have "hd ((ys @ [y, x]) @ [il_endNode l]) = hd ((ys @ [y]) @ [il_endNode l])" by (cases ys) auto
  then show ?thesis using assms(1) unfolding xs
    by (auto simp: il_inv_def il_pop_back_def Let_def il_seg_append il_seg_snoc size_dec_def)
qed

lemma il_clear_inv:
  "il_inv s l xs \<Longrightarrow> \<exists>s' l'. il_clear (s, l) = Inr (s', l') \<and> il_inv s' l' [] \<and> il_endNode l' = il_endNode l
    \<and> (\<forall>x \<in> set xs. il_previous s' x = None \<and> il_next s' x = None)
    \<and> (\<forall>a. a \<notin> set (xs @ [il_endNode l]) \<longrightarrow> il_previous s' a = il_previous s a \<and> il_next s' a = il_next s a)"
proof (induction xs arbitrary: s l)
  case Nil
  then show ?case by (simp add: il_clear.simps [of "(s, l)"] il_empty_iff)
next
  case (Cons x xs)
  obtain s1 l1 where 1: "il_pop_front (s, l) = Inr (s1, l1)" "il_inv s1 l1 xs" "il_endNode l1 = il_endNode l"
      "il_previous s1 x = None" "il_next s1 x = None"
      "\<forall>a. a \<notin> set (xs @ [il_endNode l]) \<longrightarrow> a \<noteq> x \<longrightarrow> il_previous s1 a = il_previous s a \<and> il_next s1 a = il_next s a"
    using il_pop_front_inv [OF Cons.prems] by auto
  obtain s2 l2 where 2: "il_clear (s1, l1) = Inr (s2, l2)" "il_inv s2 l2 []" "il_endNode l2 = il_endNode l1"
      "\<forall>x \<in> set xs. il_previous s2 x = None \<and> il_next s2 x = None"
      "\<forall>a. a \<notin> set (xs @ [il_endNode l1]) \<longrightarrow> il_previous s2 a = il_previous s1 a \<and> il_next s2 a = il_next s1 a"
    using Cons.IH [OF 1(2)] by auto
  have "x \<notin> set (xs @ [il_endNode l])" using Cons.prems by (auto simp: il_inv_def)
  moreover have "il_clear (s, l) = Inr (s2, l2)"
    using Cons.prems 1(1) 2(1) by (simp add: il_clear.simps [of "(s, l)"] il_empty_iff)
  ultimately show ?case using 1 2 by auto
qed

lemma il_push_backs_inv:
  "il_inv s l xs \<Longrightarrow> distinct (xs @ ys) \<Longrightarrow> il_endNode l \<notin> set ys \<Longrightarrow>
   il_holds (fold il_push_back ys (s, l)) (xs @ ys) \<and> il_endNode (snd (fold il_push_back ys (s, l))) = il_endNode l"
proof (induction ys arbitrary: s l xs)
  case (Cons y ys)
  obtain s1 l1 where 1: "il_push_back y (s, l) = (s1, l1)" by (cases "il_push_back y (s, l)")
  have "il_inv s1 l1 (xs @ [y])" "il_endNode l1 = il_endNode l"
    using il_push_back_inv [of s l xs y] Cons.prems 1 by auto
  then show ?case using Cons.IH [of s1 l1 "xs @ [y]"] Cons.prems 1 by simp
qed simp

lemma il_assign_inv:
  assumes "il_inv s l xs" and "distinct ys" and "il_endNode l \<notin> set ys"
  shows "\<exists>s' l'. il_assign ys (s, l) = Inr (s', l') \<and> il_inv s' l' ys \<and> il_endNode l' = il_endNode l"
proof -
  obtain s1 l1 where "il_clear (s, l) = Inr (s1, l1)" "il_inv s1 l1 []" "il_endNode l1 = il_endNode l"
    using il_clear_inv [OF assms(1)] by auto
  then show ?thesis using il_push_backs_inv [of s1 l1 "[]" ys] assms by (cases "fold il_push_back ys (s1, l1)") (simp add: il_assign_def)
qed

lemma il_move_assign_inv:
  assumes inv: "il_inv s l xs" "il_inv s other ys" and disjoint: "set (xs @ [il_endNode l]) \<inter> set (ys @ [il_endNode other]) = {}"
  shows "\<exists>s' l' other'. il_move_assign s l other = Inr (s', l', other') \<and> il_inv s' l' ys \<and> il_inv s' other' []
    \<and> il_endNode l' = il_endNode l \<and> il_endNode other' = il_endNode other"
proof -
  obtain s1 l1 where 1: "il_clear (s, l) = Inr (s1, l1)" "il_inv s1 l1 []" "il_endNode l1 = il_endNode l"
      "\<forall>a. a \<notin> set (xs @ [il_endNode l]) \<longrightarrow> il_previous s1 a = il_previous s a \<and> il_next s1 a = il_next s a"
    using il_clear_inv [OF inv(1)] by auto
  have "a \<notin> set (xs @ [il_endNode l])" if "a \<in> set (ys @ [il_endNode other])" for a using that disjoint by blast
  with 1(4) have same: "il_previous s1 a = il_previous s a \<and> il_next s1 a = il_next s a" if "a \<in> set (ys @ [il_endNode other])" for a
    using that by blast
  have o: "il_inv s1 other ys" by (rule il_inv_cong [OF inv(2)]) (use same in auto)
  have d: "il_endNode l \<notin> set ys" "il_endNode l \<noteq> il_endNode other" "distinct ys" using disjoint inv(2) by (auto simp: il_inv_def)
  have p: "il_previous s1 (il_endNode other) = last_ptr None ys" using o by (auto simp: il_inv_def dest: il_seg_previous)
  have b: "il_beginNode other = Some (il_endNode other) \<longleftrightarrow> ys = []" "il_numberOfElements other = length ys"
    using o by (cases ys; auto simp: il_inv_def)+
  show ?thesis
  proof (cases "ys = []")
    case True
    then show ?thesis using 1 d p b by (auto simp: il_move_assign_def Let_def il_inv_def)
  next
    case False
    then have "il_seg s1 None ys (il_endNode other)" "last_ptr None ys = Some (last ys)" "hd (ys @ [il_endNode l]) = hd (ys @ [il_endNode other])"
      using o by (auto simp: il_inv_def last_ptr_def)
    moreover have "il_endNode other \<notin> set ys" using o by (auto simp: il_inv_def)
    ultimately show ?thesis
      using il_seg_retarget [of s1 None ys "il_endNode other" "il_endNode l"] False 1 o d p b
      by (auto simp: il_move_assign_def Let_def il_inv_def set_previous_set_next [symmetric])
  qed
qed

subsection \<open>The loops end with the right answer\<close>

lemma il_has_element_loop_seg:
  "il_seg s p xs e \<Longrightarrow> e \<notin> set xs \<Longrightarrow> length xs < k \<Longrightarrow>
   il_has_element_loop k s node (Some (hd (xs @ [e]))) e = Inr (node \<in> set xs)"
proof (induction xs arbitrary: p k)
  case (Cons x xs)
  then show ?case by (cases k) auto
next
  case Nil
  then show ?case by (cases k) auto
qed

lemma il_has_element_inv: "il_inv s l xs \<Longrightarrow> length xs < fuel \<Longrightarrow> il_has_element fuel x (s, l) = Inr (x \<in> set xs)"
  by (auto simp: il_has_element_def il_inv_def intro: il_has_element_loop_seg [of s None])

lemma il_equal_loop_seg:
  "il_seg s p xs e \<Longrightarrow> il_seg s q ys f \<Longrightarrow> e \<notin> set xs \<Longrightarrow> length xs = length ys \<Longrightarrow> length xs < k \<Longrightarrow>
   il_equal_loop k eq s (Some (hd (xs @ [e]))) e (Some (hd (ys @ [f]))) = Inr (list_all2 eq xs ys)"
proof (induction xs arbitrary: p q ys k)
  case (Cons x xs)
  then show ?case by (cases k; cases ys) auto
next
  case Nil
  then show ?case by (cases k) auto
qed

lemma il_eq_inv:
  "il_inv s l xs \<Longrightarrow> il_inv s other ys \<Longrightarrow> length xs < fuel \<Longrightarrow> il_eq fuel eq s l other = Inr (list_all2 eq xs ys)"
  by (auto simp: il_eq_def il_inv_def il_size_def il_equal_loop_seg dest: list_all2_lengthD)

lemma il_less_loop_seg:
  "il_seg s p xs e \<Longrightarrow> il_seg s q ys f \<Longrightarrow> e \<notin> set xs \<Longrightarrow> f \<notin> set ys \<Longrightarrow> length xs < k \<Longrightarrow>
   il_less_loop k lt s (Some (hd (xs @ [e]))) e (Some (hd (ys @ [f]))) f = Inr (ord.lexordp lt xs ys)"
proof (induction xs arbitrary: p q ys k)
  case (Cons x xs)
  then show ?case by (cases k; cases ys) (auto simp: ord.lexordp_simps)
next
  case Nil
  then show ?case by (cases k; cases ys) (auto simp: ord.lexordp_simps)
qed

lemma il_less_inv:
  "il_inv s l xs \<Longrightarrow> il_inv s other ys \<Longrightarrow> length xs < fuel \<Longrightarrow> il_less fuel lt s l other = Inr (ord.lexordp lt xs ys)"
  by (auto simp: il_less_def il_inv_def intro: il_less_loop_seg [of s None _ _ None])

subsection \<open>Sequences of operations\<close>

datatype il_op = PushFront addr | PushBack addr | PopFront | PopBack | Insert addr addr | Erase addr | Clear | Assign "addr list"

fun il_do :: "il_op \<Rightarrow> il_state \<Rightarrow> il_state result" where
  "il_do (PushFront x) sl = Inr (il_push_front x sl)"
| "il_do (PushBack x) sl = Inr (il_push_back x sl)"
| "il_do PopFront sl = il_pop_front sl"
| "il_do PopBack sl = il_pop_back sl"
| "il_do (Insert y x) sl = Inr (il_insert y x sl)"
| "il_do (Erase x) sl = il_erase x sl"
| "il_do Clear sl = il_clear sl"
| "il_do (Assign xs) sl = il_assign xs sl"

fun il_dos :: "il_op list \<Rightarrow> il_state \<Rightarrow> il_state result" where
  "il_dos [] sl = Inr sl"
| "il_dos (c # cs) sl = bindR (il_do c sl) (il_dos cs)"

text \<open>
  What the operations mean for the list of addresses, where the caller may use them: a node that is added is
  not in the list, an element that is taken exists, and the last element is not taken with \<^verbatim>\<open>pop_back\<close>. Position \<open>e\<close> is the end.
\<close>

fun il_spec :: "addr \<Rightarrow> il_op \<Rightarrow> addr list \<Rightarrow> addr list option" where
  "il_spec e (PushFront x) xs = (if x \<in> set (xs @ [e]) then None else Some (x # xs))"
| "il_spec e (PushBack x) xs = (if x \<in> set (xs @ [e]) then None else Some (xs @ [x]))"
| "il_spec e PopFront xs = (if xs = [] then None else Some (tl xs))"
| "il_spec e PopBack xs = (if length xs < 2 then None else Some (butlast xs))"
| "il_spec e (Insert y x) xs =
     (if x \<in> set (xs @ [e]) \<or> y \<notin> set (xs @ [e]) then None
      else Some (takeWhile (\<lambda>z. z \<noteq> y) xs @ x # dropWhile (\<lambda>z. z \<noteq> y) xs))"
| "il_spec e (Erase x) xs = (if x = e then None else Some (remove1 x xs))"
| "il_spec e Clear xs = Some []"
| "il_spec e (Assign ys) xs = (if distinct ys \<and> e \<notin> set ys then Some ys else None)"

fun il_specs :: "addr \<Rightarrow> il_op list \<Rightarrow> addr list \<Rightarrow> addr list option" where
  "il_specs e [] xs = Some xs"
| "il_specs e (c # cs) xs = Option.bind (il_spec e c xs) (il_specs e cs)"

text \<open>The nodes outside the list are detached.\<close>

definition il_only :: "il_store \<Rightarrow> il_list \<Rightarrow> addr list \<Rightarrow> bool" where
  "il_only s l xs \<longleftrightarrow> il_inv s l xs \<and> (\<forall>a. a \<notin> set (xs @ [il_endNode l]) \<longrightarrow> il_previous s a = None)"

lemma il_insert_previous: "a \<noteq> x \<Longrightarrow> a \<noteq> y \<Longrightarrow> il_previous (fst (il_insert y x (s, l))) a = il_previous s a"
  by (simp add: il_insert_def Let_def split: option.splits prod.splits)

lemma il_push_front_previous: "a \<noteq> x \<Longrightarrow> il_beginNode l \<noteq> Some a \<Longrightarrow> il_previous (fst (il_push_front x (s, l))) a = il_previous s a"
  by (auto simp: il_push_front_def Let_def if_node_def split: option.splits)

lemma il_insert_only:
  assumes "il_only s l (as @ bs)" and "x \<notin> set (as @ bs @ [il_endNode l])" and "y = hd (bs @ [il_endNode l])"
  shows "il_only (fst (il_insert y x (s, l))) (snd (il_insert y x (s, l))) (as @ x # bs)"
proof -
  have "y \<in> set (bs @ [il_endNode l])" using assms(3) by (cases bs) auto
  then have "a \<noteq> y" if "a \<notin> set (as @ x # bs @ [il_endNode l])" for a using that by auto
  then have "il_previous (fst (il_insert y x (s, l))) a = None" if "a \<notin> set (as @ x # bs @ [il_endNode l])" for a
    using that assms(1) by (simp add: il_insert_previous il_only_def)
  then show ?thesis using il_insert_inv [of s l as bs x y] assms by (simp add: il_only_def)
qed

lemma il_push_front_only:
  assumes "il_only s l xs" and "x \<notin> set (xs @ [il_endNode l])"
  shows "il_only (fst (il_push_front x (s, l))) (snd (il_push_front x (s, l))) (x # xs)"
proof -
  have "il_beginNode l \<noteq> Some a" if "a \<notin> set (xs @ [il_endNode l])" for a
    using assms(1) that by (cases xs) (auto simp: il_only_def il_inv_def)
  then show ?thesis using il_push_front_inv [of s l xs x] assms by (auto simp: il_only_def il_push_front_previous)
qed

lemma il_push_back_only:
  assumes "il_only s l xs" and "x \<notin> set (xs @ [il_endNode l])"
  shows "il_only (fst (il_push_back x (s, l))) (snd (il_push_back x (s, l))) (xs @ [x])"
proof -
  have "il_previous s (il_endNode l) \<noteq> Some (il_endNode l)"
    using assms(1) by (auto simp: il_only_def il_inv_def last_ptr_def dest!: il_seg_previous split: if_splits)
  then have "il_push_back x (s, l) = il_insert (il_endNode l) x (s, l)" using assms(2) by (intro il_push_back_insert) auto
  then show ?thesis using il_insert_only [of s l xs "[]" x] assms by simp
qed

lemma il_pop_back_previous:
  "il_pop_back (s, l) = Inr (s', l') \<Longrightarrow> a \<noteq> il_endNode l \<Longrightarrow> il_previous s' a = (if il_previous s (il_endNode l) = Some a then None else il_previous s a)"
  by (auto simp: il_pop_back_def Let_def deref_def if_node_def split: option.splits)

lemma il_push_backs_only:
  "il_only s l xs \<Longrightarrow> distinct (xs @ ys) \<Longrightarrow> il_endNode l \<notin> set ys \<Longrightarrow>
   \<exists>s' l'. fold il_push_back ys (s, l) = (s', l') \<and> il_only s' l' (xs @ ys) \<and> il_endNode l' = il_endNode l"
proof (induction ys arbitrary: s l xs)
  case (Cons y ys)
  obtain s1 l1 where 1: "il_push_back y (s, l) = (s1, l1)" by (cases "il_push_back y (s, l)")
  have "il_only s1 l1 (xs @ [y])" "il_endNode l1 = il_endNode l"
    using il_push_back_only [of s l xs y] il_push_back_inv [of s l xs y] Cons.prems 1 by (auto simp: il_only_def)
  then show ?case using Cons.IH [of s1 l1 "xs @ [y]"] Cons.prems 1 by simp
qed simp

text \<open>Each operation does what it means, and says so by \<open>il_does\<close>.\<close>

definition il_does :: "il_state result \<Rightarrow> addr \<Rightarrow> addr list \<Rightarrow> bool" where
  "il_does r e ys \<longleftrightarrow> (\<exists>s' l'. r = Inr (s', l') \<and> il_only s' l' ys \<and> il_endNode l' = e)"

lemma il_pop_front_does: "il_only s l (x # xs) \<Longrightarrow> il_does (il_pop_front (s, l)) (il_endNode l) xs"
  using il_pop_front_inv [of s l x xs] unfolding il_does_def il_only_def by fastforce

lemma il_pop_back_does:
  assumes "il_only s l (xs @ [x])" and "xs \<noteq> []"
  shows "il_does (il_pop_back (s, l)) (il_endNode l) xs"
proof -
  obtain s' l' where 1: "il_pop_back (s, l) = Inr (s', l')" "il_inv s' l' xs" "il_endNode l' = il_endNode l"
    using il_pop_back_inv [of s l xs x] assms by (auto simp: il_only_def)
  have "il_previous s (il_endNode l) = Some x" using assms(1) by (simp add: il_only_def il_inv_def il_seg_snoc)
  then show ?thesis using 1 assms il_pop_back_previous [OF 1(1)] by (auto simp: il_does_def il_only_def)
qed

lemma il_erase_does: 
  assumes "il_only s l xs" and "x \<noteq> il_endNode l"
  shows "il_does (il_erase x (s, l)) (il_endNode l) (remove1 x xs)"
proof (cases "x \<in> set xs")
  case True
  then obtain as bs where xs: "xs = as @ x # bs" "x \<notin> set as" by (auto dest: split_list_first)
  then have "remove1 x xs = as @ bs" by (simp add: remove1_append)
  then show ?thesis using il_erase_inv [of s l as x bs] assms xs unfolding il_does_def il_only_def by fastforce
next
  case False
  then have "il_erase x (s, l) = Inr (s, l)" using assms by (intro il_erase_detached) (auto simp: il_only_def)
  then show ?thesis using False assms by (simp add: il_does_def remove1_idem)
qed

lemma il_clear_does: "il_only s l xs \<Longrightarrow> il_does (il_clear (s, l)) (il_endNode l) []"
  using il_clear_inv [of s l xs] unfolding il_does_def il_only_def by fastforce

lemma il_assign_does:
  assumes "il_only s l xs" and "distinct ys" and "il_endNode l \<notin> set ys"
  shows "il_does (il_assign ys (s, l)) (il_endNode l) ys"
proof -
  obtain s1 l1 where "il_clear (s, l) = Inr (s1, l1)" "il_only s1 l1 []" "il_endNode l1 = il_endNode l"
    using il_clear_does [OF assms(1)] by (auto simp: il_does_def)
  then show ?thesis using il_push_backs_only [of s1 l1 "[]" ys] assms by (auto simp: il_assign_def il_does_def)
qed

lemma il_insert_does:
  assumes "il_only s l xs" and "x \<notin> set (xs @ [il_endNode l])" and "y \<in> set (xs @ [il_endNode l])"
  shows "il_does (Inr (il_insert y x (s, l))) (il_endNode l) (takeWhile (\<lambda>z. z \<noteq> y) xs @ x # dropWhile (\<lambda>z. z \<noteq> y) xs)"
proof -
  let ?as = "takeWhile (\<lambda>z. z \<noteq> y) xs" and ?bs = "dropWhile (\<lambda>z. z \<noteq> y) xs"
  have "hd (?bs @ [il_endNode l]) = y" using assms(3) by (induction xs) auto
  note y = this [symmetric]
  have xs: "?as @ ?bs = xs" by (rule takeWhile_dropWhile_id)
  have x: "x \<notin> set (?as @ ?bs @ [il_endNode l])" using assms(2) unfolding append_assoc [symmetric] xs .
  have "il_only s l (?as @ ?bs)" "il_inv s l (?as @ ?bs)" using assms(1) unfolding xs il_only_def by simp_all
  then show ?thesis using il_insert_only [of s l ?as ?bs x y] il_insert_inv(2) [of s l ?as ?bs x y] x y assms(2)
    by (cases "il_insert y x (s, l)") (simp add: il_does_def)
qed

lemma il_do_spec:
  assumes "il_only s l xs" and "il_spec (il_endNode l) c xs = Some ys"
  shows "il_does (il_do c (s, l)) (il_endNode l) ys"
proof (cases c)
  case (PushFront x)
  then show ?thesis using assms il_push_front_only [of s l xs x] il_push_front_inv [of s l xs x]
    by (cases "il_push_front x (s, l)") (auto simp: il_does_def il_only_def split: if_splits)
next
  case (PushBack x)
  then show ?thesis using assms il_push_back_only [of s l xs x] il_push_back_inv [of s l xs x]
    by (cases "il_push_back x (s, l)") (auto simp: il_does_def il_only_def split: if_splits)
next
  case PopFront
  then show ?thesis using assms il_pop_front_does by (cases xs) auto
next
  case PopBack
  then show ?thesis using assms il_pop_back_does [of s l "butlast xs" "last xs"] by (cases xs) (auto split: if_splits)
next
  case (Insert y x)
  then show ?thesis using assms il_insert_does [of s l xs x y] by (auto split: if_splits)
next
  case (Erase x)
  then show ?thesis using assms il_erase_does [of s l xs x] by (auto split: if_splits)
next
  case Clear
  then show ?thesis using assms il_clear_does by auto
next
  case (Assign zs)
  then show ?thesis using assms il_assign_does [of s l xs zs] by (auto split: if_splits)
qed

lemma il_dos_spec:
  "il_only s l xs \<Longrightarrow> il_specs (il_endNode l) cs xs = Some ys \<Longrightarrow> il_does (il_dos cs (s, l)) (il_endNode l) ys"
proof (induction cs arbitrary: s l xs)
  case (Cons c cs)
  then obtain zs where zs: "il_spec (il_endNode l) c xs = Some zs" "il_specs (il_endNode l) cs zs = Some ys"
    by (auto simp: bind_eq_Some_conv)
  obtain s1 l1 where "il_do c (s, l) = Inr (s1, l1)" "il_only s1 l1 zs" "il_endNode l1 = il_endNode l"
    using il_do_spec [OF Cons.prems(1) zs(1)] by (auto simp: il_does_def)
  then show ?case using Cons.IH [of s1 l1 zs] zs(2) by simp
qed (simp add: il_does_def)

lemma il_make_only: "(\<And>a. il_previous s a = None) \<Longrightarrow> il_only (fst (il_make e s)) (snd (il_make e s)) []"
  using il_make_inv [of e s] by (simp add: il_only_def) (simp add: il_make_def il_node_make_def)

definition il_no_links :: il_store where
  "il_no_links = \<lparr>il_next = (\<lambda>_. None), il_previous = (\<lambda>_. None)\<rparr>"

text \<open>
  C10. Whatever sequence of operations is applied to a new list, within what a caller may do, every operation
  succeeds and the links hold the list of elements that the same operations give on a list. The size, the first and last
  element and the search by identity are those of that list.
\<close>

theorem IntrusiveList_refines_list:
  assumes "il_specs e cs [] = Some xs"
  shows "\<exists>s l. il_dos cs (il_make e il_no_links) = Inr (s, l) \<and> il_inv s l xs \<and> il_size l = length xs \<and> il_empty l = (xs = [])
    \<and> (xs = [] \<or> il_front l = Inr (hd xs) \<and> il_back (s, l) = Inr (last xs))
    \<and> il_has_element (Suc (length xs)) x (s, l) = Inr (x \<in> set xs)"
proof -
  have "il_does (il_dos cs (il_make e il_no_links)) e xs"
    using il_dos_spec [OF il_make_only [of il_no_links e]] assms by (simp add: il_make_def il_no_links_def)
  then obtain s l where sl: "il_dos cs (il_make e il_no_links) = Inr (s, l)" "il_inv s l xs" by (auto simp: il_does_def il_only_def)
  have "il_front l = Inr (hd xs)" if "xs \<noteq> []" using that sl(2) il_front_inv [of s l "hd xs" "tl xs"] by simp
  moreover have "il_back (s, l) = Inr (last xs)" if "xs \<noteq> []" using that sl(2) il_back_inv [of s l "butlast xs" "last xs"] by simp
  ultimately show ?thesis
    using sl il_has_element_inv [OF sl(2)] by (auto simp: il_empty_iff) (auto simp: il_inv_def il_size_def)
qed

lemma IntrusiveList_refines_list_witness:
  "\<exists>s l. il_dos [PushBack 1, PushBack 2, PushFront 3, Insert 2 4, Erase 1, Erase 1, PopFront, PopBack] (il_make 0 il_no_links) = Inr (s, l)
     \<and> il_inv s l [4] \<and> il_size l = 1 \<and> il_front l = Inr 4"
  using IntrusiveList_refines_list [of 0 "[PushBack 1, PushBack 2, PushFront 3, Insert 2 4, Erase 1, Erase 1, PopFront, PopBack]" "[4]" 4] by auto

text \<open>
  C12. Taking the only element with \<^verbatim>\<open>pop_back\<close> leaves the list pointing at it: the list says that it is empty, yet its first node is
  the element that was taken. An element added at the front then comes before the one that was taken, in
  a list that says it has one element and has no last element; and erasing the element that was taken makes the number of elements wrap around.
\<close>

theorem IntrusiveList_pop_back_of_last_element:
  assumes "il_inv s l [x]" and "y \<noteq> x" and "y \<noteq> il_endNode l"
  shows "\<exists>s' l'. il_pop_back (s, l) = Inr (s', l') \<and> il_empty l' \<and> il_beginNode l' = Some x
    \<and> (\<exists>s2 l2. il_push_front y (s', l') = (s2, l2) \<and> il_size l2 = 1 \<and> il_has_element 3 x (s2, l2) = Inr True
         \<and> il_back (s2, l2) = Inl UndefinedBehaviour)
    \<and> (\<exists>s3 l3. il_erase x (s', l') = Inr (s3, l3) \<and> il_size l3 = 2 ^ 64 - 1)"
  using assms
  by (auto simp: il_inv_def il_pop_back_def il_push_front_def il_erase_def il_unlink_def Let_def il_empty_def il_size_def size_dec_def
      il_has_element_def il_back_def numeral_3_eq_3)

lemma IntrusiveList_pop_back_of_last_element_witness:
  "il_inv (fst (il_push_back 1 (il_make 0 il_no_links))) (snd (il_push_back 1 (il_make 0 il_no_links))) [1]
   \<and> (\<exists>s' l'. il_pop_back (il_push_back 1 (il_make 0 il_no_links)) = Inr (s', l') \<and> il_empty l' \<and> il_beginNode l' = Some 1)"
proof -
  have inv: "il_inv (fst (il_push_back 1 (il_make 0 il_no_links))) (snd (il_push_back 1 (il_make 0 il_no_links))) [1]"
    by (simp add: il_push_back_def il_make_def il_node_make_def il_inv_def Let_def il_no_links_def)
  moreover have "il_endNode (snd (il_push_back 1 (il_make 0 il_no_links))) = 0"
    by (simp add: il_push_back_def il_make_def il_node_make_def Let_def il_no_links_def)
  ultimately show ?thesis using IntrusiveList_pop_back_of_last_element [OF inv, of 2] by auto
qed

text \<open>
  C11. Swapping two lists swaps their elements only when both are empty: the end nodes keep their links, since assigning nodes does
  nothing, so the last element of a list stays its own.
\<close>

theorem IntrusiveList_swap_only_of_empty_lists:
  assumes "il_inv s l xs" and "il_inv s other ys" and "set (xs @ [il_endNode l]) \<inter> set (ys @ [il_endNode other]) = {}"
  shows "\<exists>s' l' other'. il_swap s l other = (s', l', other') \<and> (il_inv s' l' ys \<longleftrightarrow> xs = [] \<and> ys = []) \<and> (il_inv s' other' xs \<longleftrightarrow> xs = [] \<and> ys = [])
    \<and> (xs = [] \<or> il_back (s', l') = Inr (last xs)) \<and> il_size l' = length ys \<and> il_size other' = length xs"
proof -
  let ?e = "il_endNode l" and ?f = "il_endNode other"
  have "last xs \<notin> set (ys @ [?f])" if "xs \<noteq> []" using assms(3) last_in_set [OF that] unfolding set_append by blast
  moreover have "last ys \<notin> set (xs @ [?e])" if "ys \<noteq> []" using assms(3) last_in_set [OF that] unfolding set_append by blast
  ultimately have d: "?e \<noteq> ?f" "last_ptr None xs \<noteq> Some ?f" "last_ptr None ys \<noteq> Some ?e" "last_ptr None xs \<noteq> last_ptr None ys \<or> xs = [] \<and> ys = []"
    using assms(3) by (auto simp: last_ptr_def)
  have p: "il_previous s ?e = last_ptr None xs" "il_previous s ?f = last_ptr None ys"
    using assms by (auto simp: il_inv_def dest: il_seg_previous)
  have n: "il_numberOfElements l = length xs" "il_numberOfElements other = length ys" using assms by (auto simp: il_inv_def)
  obtain s' l' other' where r: "il_swap s l other = (s', l', other')" by (cases "il_swap s l other")
  have r': "il_previous s' = il_previous s" "il_endNode l' = ?e" "il_endNode other' = ?f" "il_size l' = length ys" "il_size other' = length xs"
    using r n by (auto simp: il_swap_def il_node_assign_def Let_def il_size_def split: option.splits)
  have "xs = [] \<and> ys = []" if "il_inv s' l' ys"
    using that il_seg_previous [of s' None ys ?e] p d r' by (auto simp: il_inv_def)
  moreover have "xs = [] \<and> ys = []" if "il_inv s' other' xs"
    using that il_seg_previous [of s' None xs ?f] p d r' by (auto simp: il_inv_def)
  moreover have "il_inv s' l' [] \<and> il_inv s' other' []" if "xs = []" "ys = []"
    using r r' p n that by (auto simp: il_swap_def il_node_assign_def Let_def il_inv_def)
  moreover have "xs = [] \<or> il_back (s', l') = Inr (last xs)" using p r' by (auto simp: il_back_def last_ptr_def)
  ultimately show ?thesis using r r'(4,5) by auto
qed

lemma IntrusiveList_swap_only_of_empty_lists_witness:
  "\<exists>s' l' other'. il_swap (fst (il_push_back 2 (il_make 0 il_no_links))) (snd (il_push_back 2 (il_make 0 il_no_links))) (snd (il_make 1 il_no_links)) = (s', l', other')
     \<and> il_size l' = 0 \<and> il_back (s', l') = Inr 2"
proof -
  let ?s = "fst (il_push_back 2 (il_make 0 il_no_links))" and ?l = "snd (il_push_back 2 (il_make 0 il_no_links))" and ?o = "snd (il_make 1 il_no_links)"
  have "il_inv ?s ?l [2]" "il_inv ?s ?o []" "il_endNode ?l = 0" "il_endNode ?o = 1"
    by (simp_all add: il_push_back_def il_make_def il_node_make_def il_inv_def Let_def il_no_links_def)
  then show ?thesis using IntrusiveList_swap_only_of_empty_lists [of ?s ?l "[2]" ?o "[]"] by auto
qed

end
