(* ===== verification/Intrusive_Forward_List.thy ===== *)
theory Intrusive_Forward_List
  imports Intrusive_List
begin

section \<open>Singly linked lists through the elements\<close>

text \<open>
  \<^verbatim>\<open>infra::IntrusiveForwardList\<close> (infra/util/IntrusiveForwardList.hpp): a list whose elements hold the link to the next one. The store gives the
  link of every node by its address, a list is the pointer to its first node, and null ends it. An iterator is a pointer to a
  node. The theorem relates the store to the list of addresses it holds, and shows that the loops over it end.
\<close>

subsection \<open>The list and its operations\<close>

type_synonym fl_store = "addr \<Rightarrow> ptr"
type_synonym fl_list = ptr

definition fl_make :: fl_list where
  "fl_make = None"

definition fl_node_make :: "addr \<Rightarrow> fl_store \<Rightarrow> fl_store" where
  "fl_node_make a s = s(a := None)"

definition fl_empty :: "fl_list \<Rightarrow> bool" where
  "fl_empty b \<longleftrightarrow> b = None"

definition fl_front :: "fl_list \<Rightarrow> addr result" where
  "fl_front b = deref b Inr"

definition fl_increment :: "fl_store \<Rightarrow> ptr \<Rightarrow> ptr result" where
  "fl_increment s p = deref p (\<lambda>a. Inr (s a))"

definition fl_push_front :: "addr \<Rightarrow> fl_store \<Rightarrow> fl_list \<Rightarrow> fl_store \<times> fl_list" where
  "fl_push_front node s b = (s(node := b), Some node)"

definition fl_pop_front :: "fl_store \<Rightarrow> fl_list \<Rightarrow> fl_list result" where
  "fl_pop_front s b = deref b (\<lambda>a. Inr (s a))"

definition fl_insert_after :: "ptr \<Rightarrow> addr \<Rightarrow> fl_store \<Rightarrow> fl_store result" where
  "fl_insert_after position node s = deref position (\<lambda>p.
     let s1 = s(node := s p) in Inr (s1(p := Some node)))"

definition fl_erase_after :: "addr \<Rightarrow> fl_store \<Rightarrow> fl_store result" where
  "fl_erase_after node s = deref (s node) (\<lambda>n. Inr (s(node := s n)))"

text \<open>The loops over the list have fuel, of which more than the number of elements is enough.\<close>

fun fl_has_element_loop :: "nat \<Rightarrow> addr \<Rightarrow> fl_store \<Rightarrow> ptr \<Rightarrow> bool result" where
  "fl_has_element_loop 0 node s p = Inl OutOfFuel"
| "fl_has_element_loop (Suc k) node s p =
     (case p of None \<Rightarrow> Inr False | Some item \<Rightarrow> if item = node then Inr True else fl_has_element_loop k node s (s item))"

definition fl_has_element :: "nat \<Rightarrow> addr \<Rightarrow> fl_store \<Rightarrow> fl_list \<Rightarrow> bool result" where
  "fl_has_element fuel node s b = fl_has_element_loop fuel node s b"

fun fl_erase_slow_loop :: "nat \<Rightarrow> addr \<Rightarrow> ptr \<Rightarrow> ptr \<Rightarrow> fl_store \<Rightarrow> fl_list \<Rightarrow> (fl_store \<times> fl_list) result" where
  "fl_erase_slow_loop 0 node previous index s b = Inl OutOfFuel"
| "fl_erase_slow_loop (Suc k) node previous index s b =
     (case index of
        None \<Rightarrow> Inr (s, b)
      | Some i \<Rightarrow> if i = node
          then if index \<noteq> b then deref previous (\<lambda>p. bindR (fl_erase_after p s) (\<lambda>s1. Inr (s1, b)))
               else bindR (fl_pop_front s b) (\<lambda>b1. Inr (s, b1))
          else fl_erase_slow_loop k node index (s i) s b)"

definition fl_erase_slow :: "nat \<Rightarrow> addr \<Rightarrow> fl_store \<Rightarrow> fl_list \<Rightarrow> (fl_store \<times> fl_list) result" where
  "fl_erase_slow fuel node s b = fl_erase_slow_loop fuel node None b s b"

definition fl_clear :: "fl_list \<Rightarrow> fl_list" where
  "fl_clear b = None"

fun fl_assign_loop :: "addr list \<Rightarrow> ptr \<Rightarrow> fl_store \<Rightarrow> fl_list \<Rightarrow> (fl_store \<times> fl_list) result" where
  "fl_assign_loop [] current s b = Inr (s, b)"
| "fl_assign_loop (node # nodes) current s b =
     (if fl_empty b
      then let (s1, b1) = fl_push_front node s b in fl_assign_loop nodes b1 s1 b1
      else bindR (fl_insert_after current node s) (\<lambda>s1. bindR (fl_increment s1 current) (\<lambda>current1. fl_assign_loop nodes current1 s1 b)))"

definition fl_assign :: "addr list \<Rightarrow> fl_store \<Rightarrow> fl_list \<Rightarrow> (fl_store \<times> fl_list) result" where
  "fl_assign nodes s b = fl_assign_loop nodes None s (fl_clear b)"

definition fl_make_range :: "addr list \<Rightarrow> fl_store \<Rightarrow> (fl_store \<times> fl_list) result" where
  "fl_make_range nodes s = fl_assign nodes s fl_make"

definition fl_make_move :: "fl_list \<Rightarrow> fl_list \<times> fl_list" where
  "fl_make_move other = (other, None)"

definition fl_move_assign :: "fl_list \<Rightarrow> fl_list \<Rightarrow> fl_list \<times> fl_list" where
  "fl_move_assign b other = (other, None)"

definition fl_swap :: "fl_list \<Rightarrow> fl_list \<Rightarrow> fl_list \<times> fl_list" where
  "fl_swap b other = (other, b)"

text \<open>The comparison of elements is a parameter; \<^verbatim>\<open>operator<\<close> is \<^verbatim>\<open>std::lexicographical_compare\<close>.\<close>

fun fl_eq_loop :: "nat \<Rightarrow> (addr \<Rightarrow> addr \<Rightarrow> bool) \<Rightarrow> fl_store \<Rightarrow> ptr \<Rightarrow> ptr \<Rightarrow> bool result" where
  "fl_eq_loop 0 eq s i j = Inl OutOfFuel"
| "fl_eq_loop (Suc k) eq s i j =
     (case (i, j) of
        (Some x, Some y) \<Rightarrow> if \<not> eq x y then Inr False else fl_eq_loop k eq s (s x) (s y)
      | _ \<Rightarrow> Inr (i = j))"

definition fl_eq :: "nat \<Rightarrow> (addr \<Rightarrow> addr \<Rightarrow> bool) \<Rightarrow> fl_store \<Rightarrow> fl_list \<Rightarrow> fl_list \<Rightarrow> bool result" where
  "fl_eq fuel eq s b other = fl_eq_loop fuel eq s b other"

fun fl_less_loop :: "nat \<Rightarrow> (addr \<Rightarrow> addr \<Rightarrow> bool) \<Rightarrow> fl_store \<Rightarrow> ptr \<Rightarrow> ptr \<Rightarrow> bool result" where
  "fl_less_loop 0 lt s i j = Inl OutOfFuel"
| "fl_less_loop (Suc k) lt s i j =
     (case (i, j) of
        (Some x, Some y) \<Rightarrow> if lt x y then Inr True else if lt y x then Inr False else fl_less_loop k lt s (s x) (s y)
      | _ \<Rightarrow> Inr (i = None \<and> j \<noteq> None))"

definition fl_less :: "nat \<Rightarrow> (addr \<Rightarrow> addr \<Rightarrow> bool) \<Rightarrow> fl_store \<Rightarrow> fl_list \<Rightarrow> fl_list \<Rightarrow> bool result" where
  "fl_less fuel lt s b other = fl_less_loop fuel lt s b other"

subsection \<open>The list a store holds\<close>

fun fl_seg :: "fl_store \<Rightarrow> ptr \<Rightarrow> addr list \<Rightarrow> ptr \<Rightarrow> bool" where
  "fl_seg s p [] q \<longleftrightarrow> p = q"
| "fl_seg s p (x # xs) q \<longleftrightarrow> p = Some x \<and> fl_seg s (s x) xs q"

abbreviation fl_holds :: "fl_store \<Rightarrow> fl_list \<Rightarrow> addr list \<Rightarrow> bool" where
  "fl_holds s b xs \<equiv> fl_seg s b xs None"

lemma fl_seg_append: "fl_seg s p (xs @ ys) q \<longleftrightarrow> (\<exists>r. fl_seg s p xs r \<and> fl_seg s r ys q)"
  by (induction xs arbitrary: p) auto

lemma fl_seg_upd [simp]: "a \<notin> set xs \<Longrightarrow> fl_seg (s(a := v)) p xs q = fl_seg s p xs q"
  by (induction xs arbitrary: p) auto

lemma fl_holds_unique: "fl_holds s p xs \<Longrightarrow> fl_holds s p ys \<Longrightarrow> xs = ys"
proof (induction xs arbitrary: p ys)
  case Nil
  then show ?case by (cases ys) auto
next
  case (Cons x xs)
  then show ?case by (cases ys) auto
qed

text \<open>A list that ends holds no node twice.\<close>

lemma fl_holds_distinct: "fl_holds s p xs \<Longrightarrow> distinct xs"
proof (induction xs arbitrary: p)
  case (Cons x xs)
  have "x \<notin> set xs"
  proof
    assume "x \<in> set xs"
    then obtain as bs where xs: "xs = as @ x # bs" by (auto dest: split_list)
    then have "fl_holds s (s x) bs" using Cons.prems by (auto simp: fl_seg_append)
    moreover have "fl_holds s (s x) xs" using Cons.prems by simp
    ultimately have "bs = xs" by (rule fl_holds_unique)
    then show False using xs by (metis append_self_conv2 length_append length_Cons not_add_less2 lessI less_add_Suc2)
  qed
  then show ?case using Cons by auto
qed simp

subsection \<open>Each operation on the list it holds\<close>

lemma fl_push_front_holds: "fl_holds s b xs \<Longrightarrow> x \<notin> set xs \<Longrightarrow> fl_push_front x s b = (s', b') \<Longrightarrow> fl_holds s' b' (x # xs)"
  by (auto simp: fl_push_front_def)

lemma fl_pop_front_holds: "fl_holds s b (x # xs) \<Longrightarrow> \<exists>b'. fl_pop_front s b = Inr b' \<and> fl_holds s b' xs"
  by (simp add: fl_pop_front_def)

lemma fl_insert_after_holds:
  assumes "fl_holds s b (as @ y # bs)" and "x \<notin> set (as @ y # bs)"
  shows "\<exists>s'. fl_insert_after (Some y) x s = Inr s' \<and> fl_holds s' b (as @ y # x # bs)"
  using assms fl_holds_distinct [OF assms(1)] by (auto simp: fl_insert_after_def fl_seg_append)

lemma fl_erase_after_holds:
  assumes "fl_holds s b (as @ y # x # bs)"
  shows "\<exists>s'. fl_erase_after y s = Inr s' \<and> fl_holds s' b (as @ y # bs)"
  using assms fl_holds_distinct [OF assms] by (auto simp: fl_erase_after_def fl_seg_append)

lemma fl_has_element_holds: "fl_holds s b xs \<Longrightarrow> length xs < fuel \<Longrightarrow> fl_has_element fuel x s b = Inr (x \<in> set xs)"
  unfolding fl_has_element_def
proof (induction xs arbitrary: b fuel)
  case Nil
  then show ?case by (cases fuel) auto
next
  case (Cons y ys)
  then show ?case by (cases fuel) auto
qed

lemma fl_erase_slow_loop_holds:
  "fl_holds s b (as @ bs) \<Longrightarrow> fl_seg s b as i \<Longrightarrow> fl_holds s i bs \<Longrightarrow> x \<notin> set as \<Longrightarrow> length bs < k \<Longrightarrow>
   p = (if as = [] then None else Some (last as)) \<Longrightarrow>
   \<exists>s' b'. fl_erase_slow_loop k x p i s b = Inr (s', b') \<and> fl_holds s' b' (as @ remove1 x bs)"
proof (induction bs arbitrary: as i k p)
  case Nil
  then show ?case by (cases k) auto
next
  case (Cons y bs)
  obtain k' where k: "k = Suc k'" using Cons.prems(5) by (cases k) auto
  have i: "i = Some y" using Cons.prems(3) by simp
  show ?case
  proof (cases "y = x")
    case False
    have "fl_seg s b (as @ [y]) (s y)" "fl_holds s (s y) bs" using Cons.prems i by (auto simp: fl_seg_append)
    then show ?thesis using Cons.IH [of "as @ [y]" "s y" k' "Some y"] Cons.prems False k i by auto
  next
    case True
    show ?thesis
    proof (cases as rule: rev_cases)
      case Nil
      then show ?thesis using Cons.prems k i True by (simp add: fl_pop_front_def)
    next
      case (snoc zs z)
      have "b \<noteq> Some y"
        using fl_holds_distinct [OF Cons.prems(1)] Cons.prems(2) snoc by (cases zs) auto
      moreover obtain s' where "fl_erase_after z s = Inr s'" "fl_holds s' b (zs @ z # bs)"
        using fl_erase_after_holds [of s b zs z y bs] Cons.prems(1) snoc by auto
      ultimately show ?thesis using snoc Cons.prems(6) k i True by auto
    qed
  qed
qed

lemma fl_erase_slow_holds:
  "fl_holds s b xs \<Longrightarrow> length xs < fuel \<Longrightarrow> \<exists>s' b'. fl_erase_slow fuel x s b = Inr (s', b') \<and> fl_holds s' b' (remove1 x xs)"
  using fl_erase_slow_loop_holds [of s b "[]" xs b x fuel None] by (simp add: fl_erase_slow_def)

lemma fl_assign_loop_holds:
  "fl_holds s b (as @ [a]) \<Longrightarrow> distinct (as @ a # xs) \<Longrightarrow>
   \<exists>s' b'. fl_assign_loop xs (Some a) s b = Inr (s', b') \<and> fl_holds s' b' (as @ a # xs)"
proof (induction xs arbitrary: as a s)
  case (Cons x xs)
  obtain s1 where s1: "fl_insert_after (Some a) x s = Inr s1" "fl_holds s1 b (as @ a # [x])"
    using fl_insert_after_holds [OF Cons.prems(1), of x] Cons.prems(2) by auto
  then have "s1 a = Some x" by (auto simp: fl_seg_append)
  moreover have "\<not> fl_empty b" using Cons.prems(1) by (cases as) (auto simp: fl_empty_def)
  ultimately show ?case using Cons.IH [of s1 "as @ [a]" x] s1 Cons.prems(2) by (simp add: fl_increment_def)
qed auto

lemma fl_assign_holds: "distinct xs \<Longrightarrow> \<exists>s' b'. fl_assign xs s b = Inr (s', b') \<and> fl_holds s' b' xs"
proof (cases xs)
  case (Cons x ys)
  moreover assume "distinct xs"
  ultimately show ?thesis using fl_assign_loop_holds [of "s(x := None)" "Some x" "[]" x ys]
    by (simp add: fl_assign_def fl_clear_def fl_empty_def fl_push_front_def)
qed (simp add: fl_assign_def fl_clear_def)

lemma fl_eq_holds:
  "fl_holds s b xs \<Longrightarrow> fl_holds s c ys \<Longrightarrow> length xs < fuel \<Longrightarrow> fl_eq fuel eq s b c = Inr (list_all2 eq xs ys)"
  unfolding fl_eq_def
proof (induction xs arbitrary: b c ys fuel)
  case Nil
  then show ?case by (cases fuel; cases ys) auto
next
  case (Cons x xs)
  then show ?case by (cases fuel; cases ys) auto
qed

lemma fl_less_holds:
  "fl_holds s b xs \<Longrightarrow> fl_holds s c ys \<Longrightarrow> length xs < fuel \<Longrightarrow> fl_less fuel lt s b c = Inr (ord.lexordp lt xs ys)"
  unfolding fl_less_def
proof (induction xs arbitrary: b c ys fuel)
  case Nil
  then show ?case by (cases fuel; cases ys) (auto simp: ord.lexordp_simps)
next
  case (Cons x xs)
  then show ?case by (cases fuel; cases ys) (auto simp: ord.lexordp_simps)
qed

subsection \<open>Sequences of operations\<close>

datatype fl_op = FPushFront addr | FPopFront | FInsertAfter addr addr | FEraseAfter addr | FEraseSlow addr | FClear | FAssign "addr list"

text \<open>The fuel of \<^verbatim>\<open>erase_slow\<close> is an argument of the run.\<close>

fun fl_do :: "nat \<Rightarrow> fl_op \<Rightarrow> fl_store \<times> fl_list \<Rightarrow> (fl_store \<times> fl_list) result" where
  "fl_do fuel (FPushFront x) (s, b) = Inr (fl_push_front x s b)"
| "fl_do fuel FPopFront (s, b) = bindR (fl_pop_front s b) (\<lambda>b1. Inr (s, b1))"
| "fl_do fuel (FInsertAfter y x) (s, b) = bindR (fl_insert_after (Some y) x s) (\<lambda>s1. Inr (s1, b))"
| "fl_do fuel (FEraseAfter y) (s, b) = bindR (fl_erase_after y s) (\<lambda>s1. Inr (s1, b))"
| "fl_do fuel (FEraseSlow x) (s, b) = fl_erase_slow fuel x s b"
| "fl_do fuel FClear (s, b) = Inr (s, fl_clear b)"
| "fl_do fuel (FAssign xs) (s, b) = fl_assign xs s b"

fun fl_dos :: "nat \<Rightarrow> fl_op list \<Rightarrow> fl_store \<times> fl_list \<Rightarrow> (fl_store \<times> fl_list) result" where
  "fl_dos fuel [] sb = Inr sb"
| "fl_dos fuel (c # cs) sb = bindR (fl_do fuel c sb) (fl_dos fuel cs)"

text \<open>What the operations mean for the list of addresses, where the caller may use them.\<close>

fun fl_spec :: "fl_op \<Rightarrow> addr list \<Rightarrow> addr list option" where
  "fl_spec (FPushFront x) xs = (if x \<in> set xs then None else Some (x # xs))"
| "fl_spec FPopFront xs = (if xs = [] then None else Some (tl xs))"
| "fl_spec (FInsertAfter y x) xs =
     (if x \<in> set xs \<or> y \<notin> set xs then None
      else Some (takeWhile (\<lambda>z. z \<noteq> y) xs @ y # x # tl (dropWhile (\<lambda>z. z \<noteq> y) xs)))"
| "fl_spec (FEraseAfter y) xs =
     (if y \<notin> set xs \<or> y = last xs then None
      else Some (takeWhile (\<lambda>z. z \<noteq> y) xs @ y # tl (tl (dropWhile (\<lambda>z. z \<noteq> y) xs))))"
| "fl_spec (FEraseSlow x) xs = Some (remove1 x xs)"
| "fl_spec FClear xs = Some []"
| "fl_spec (FAssign ys) xs = (if distinct ys then Some ys else None)"

text \<open>The list after the operations, with the number of elements below \<open>n\<close> all the time.\<close>

fun fl_specs :: "nat \<Rightarrow> fl_op list \<Rightarrow> addr list \<Rightarrow> addr list option" where
  "fl_specs n [] xs = (if length xs < n then Some xs else None)"
| "fl_specs n (c # cs) xs = (if length xs < n then Option.bind (fl_spec c xs) (fl_specs n cs) else None)"

definition fl_does :: "(fl_store \<times> fl_list) result \<Rightarrow> addr list \<Rightarrow> bool" where
  "fl_does r xs \<longleftrightarrow> (\<exists>s b. r = Inr (s, b) \<and> fl_holds s b xs)"

lemma split_at:
  assumes "y \<in> set xs"
  obtains as bs where "xs = as @ y # bs" "takeWhile (\<lambda>z. z \<noteq> y) xs = as" "dropWhile (\<lambda>z. z \<noteq> y) xs = y # bs"
proof -
  from split_list_first [OF assms] obtain as bs where "xs = as @ y # bs" "y \<notin> set as" by auto
  moreover from this have "takeWhile (\<lambda>z. z \<noteq> y) xs = as" "dropWhile (\<lambda>z. z \<noteq> y) xs = y # bs"
    by (simp_all add: takeWhile_append dropWhile_append)
  ultimately show ?thesis by (intro that)
qed

lemma fl_do_spec:
  assumes b: "fl_holds s b xs" and "fl_spec c xs = Some ys" and "length xs < fuel"
  shows "fl_does (fl_do fuel c (s, b)) ys"
proof (cases c)
  case (FInsertAfter y x)
  then have y: "y \<in> set xs" "x \<notin> set xs" using assms(2) by (auto split: if_splits)
  obtain as bs where xs: "xs = as @ y # bs" "takeWhile (\<lambda>z. z \<noteq> y) xs = as" "dropWhile (\<lambda>z. z \<noteq> y) xs = y # bs" using split_at [OF y(1)] .
  then have "fl_holds s b (as @ y # bs)" "x \<notin> set (as @ y # bs)" using b y(2) by simp_all
  from fl_insert_after_holds [OF this] show ?thesis using assms(2) FInsertAfter xs(2,3) y by (auto simp: fl_does_def)
next
  case (FEraseAfter y)
  then have y: "y \<in> set xs" "y \<noteq> last xs" using assms(2) by (auto split: if_splits)
  obtain as bs where xs: "xs = as @ y # bs" "takeWhile (\<lambda>z. z \<noteq> y) xs = as" "dropWhile (\<lambda>z. z \<noteq> y) xs = y # bs" using split_at [OF y(1)] .
  then obtain x cs where bs: "bs = x # cs" using y(2) by (cases bs) auto
  have "fl_holds s b (as @ y # x # cs)" using b xs(1) bs by simp
  from fl_erase_after_holds [OF this] show ?thesis using assms(2) FEraseAfter xs(2,3) y bs by (auto simp: fl_does_def)
next
  case (FPushFront x)
  then show ?thesis using b assms(2) by (auto simp: fl_does_def fl_push_front_def split: if_splits)
next
  case FPopFront
  then show ?thesis using b assms(2) by (cases xs) (auto simp: fl_does_def fl_pop_front_def)
next
  case (FEraseSlow x)
  then show ?thesis using fl_erase_slow_holds [OF b assms(3)] assms(2) by (auto simp: fl_does_def)
next
  case FClear
  then show ?thesis using assms(2) by (simp add: fl_does_def fl_clear_def)
next
  case (FAssign zs)
  then show ?thesis using fl_assign_holds [of zs s b] assms(2) by (auto simp: fl_does_def split: if_splits)
qed

lemma fl_specs_length: "fl_specs n cs xs = Some ys \<Longrightarrow> length xs < n"
  by (cases cs) (auto split: if_splits)

lemma fl_dos_spec: "fl_holds s b xs \<Longrightarrow> fl_specs fuel cs xs = Some ys \<Longrightarrow> fl_does (fl_dos fuel cs (s, b)) ys"
proof (induction cs arbitrary: s b xs)
  case Nil
  then show ?case by (simp add: fl_does_def split: if_splits)
next
  case (Cons c cs)
  then obtain zs where zs: "fl_spec c xs = Some zs" "fl_specs fuel cs zs = Some ys"
    by (auto simp: bind_eq_Some_conv split: if_splits)
  obtain s1 b1 where "fl_do fuel c (s, b) = Inr (s1, b1)" "fl_holds s1 b1 zs"
    using fl_do_spec [OF Cons.prems(1) zs(1), of fuel] fl_specs_length [OF Cons.prems(2)] by (auto simp: fl_does_def)
  then show ?case using Cons.IH [of s1 b1 zs] zs(2) by simp
qed

text \<open>
  C13. Whatever sequence of operations is applied to an empty list, within what a caller may do, every operation succeeds, the loops end within as
  many rounds as the list has elements, and the links hold the list that the same operations give on a list of
  addresses. The search by identity is membership, and the comparison with any other list in the store compares the elements in order.
\<close>

theorem IntrusiveForwardList_refines_list:
  assumes "fl_specs fuel cs [] = Some xs"
  shows "\<exists>s b. fl_dos fuel cs (s0, fl_make) = Inr (s, b) \<and> fl_holds s b xs \<and> fl_empty b = (xs = [])
    \<and> (xs = [] \<or> fl_front b = Inr (hd xs)) \<and> fl_has_element fuel x s b = Inr (x \<in> set xs)
    \<and> (\<forall>other ys. \<not> fl_holds s other ys \<or> fl_eq fuel eq s b other = Inr (list_all2 eq xs ys)
         \<and> fl_less fuel lt s b other = Inr (ord.lexordp lt xs ys))"
proof -
  have "fl_does (fl_dos fuel cs (s0, fl_make)) xs" by (rule fl_dos_spec [OF _ assms]) (simp add: fl_make_def)
  then obtain s b where sb: "fl_dos fuel cs (s0, fl_make) = Inr (s, b)" "fl_holds s b xs" by (auto simp: fl_does_def)
  have "length ys < n" if "fl_specs n ds zs = Some ys" for n ds zs ys
    using that by (induction ds arbitrary: zs) (auto simp: bind_eq_Some_conv split: if_splits)
  from this [OF assms] have n: "length xs < fuel" .
  have "fl_empty b = (xs = [])" using sb(2) by (cases xs) (auto simp: fl_empty_def)
  moreover have "xs = [] \<or> fl_front b = Inr (hd xs)" using sb(2) by (cases xs) (auto simp: fl_front_def)
  ultimately show ?thesis
    using sb fl_has_element_holds [OF sb(2) n] fl_eq_holds [OF sb(2) _ n] fl_less_holds [OF sb(2) _ n] by blast
qed

lemma IntrusiveForwardList_refines_list_witness:
  "\<exists>s b. fl_dos 5 [FPushFront 1, FPushFront 2, FInsertAfter 2 3, FEraseSlow 1, FAssign [4, 5, 6], FEraseAfter 4, FEraseSlow 4] (\<lambda>_. None, fl_make) = Inr (s, b)
     \<and> fl_holds s b [6] \<and> fl_front b = Inr 6"
proof -
  have "fl_specs 5 [FPushFront 1, FPushFront 2, FInsertAfter 2 3, FEraseSlow 1, FAssign [4, 5, 6], FEraseAfter 4, FEraseSlow 4] [] = Some [6]" by simp
  from IntrusiveForwardList_refines_list [OF this, of "\<lambda>_. None" 6 "(=)" "(=)"] show ?thesis by auto
qed

end
