(* ===== verification/Claimable_Resource.thy ===== *)
theory Claimable_Resource
  imports Intrusive_List
begin

section \<open>A resource that is claimed in turn\<close>

text \<open>
  \<^verbatim>\<open>infra::ClaimableResource\<close> (infra/event/ClaimableResource.hpp, .cpp): claimers queue for a resource, which one of them holds at a time. The
  claimers are the nodes of the intrusive list of pending claims, so they are addresses of its store, and the fields of a claimer
  are maps from its address. The resource hands itself over in an event that it schedules on the
  event dispatcher; the model counts its events. The function of the claimer that is granted is called last in that event,
  so what it does is what follows the event; the model records the calls.
\<close>

subsection \<open>The resource and its claimers\<close>

record 'f claimable =
  res_store :: il_store
  res_pendingClaims :: il_list
  res_currentClaim :: ptr
  res_reEvaluateClaimScheduled :: bool
  res_isGranted :: "addr \<Rightarrow> bool"
  res_isQueued :: "addr \<Rightarrow> bool"
  res_onGranted :: "addr \<Rightarrow> 'f option"
  res_events :: nat
  res_called :: "(addr \<times> 'f) list"

text \<open>A resource whose list has its end node at \<open>e\<close>, before any claimer exists.\<close>

definition res_make :: "addr \<Rightarrow> 'f claimable" where
  "res_make e = \<lparr>res_store = fst (il_make e il_no_links), res_pendingClaims = snd (il_make e il_no_links), res_currentClaim = None,
     res_reEvaluateClaimScheduled = False, res_isGranted = (\<lambda>_. False), res_isQueued = (\<lambda>_. False), res_onGranted = (\<lambda>_. None),
     res_events = 0, res_called = []\<rparr>"

definition res_pending :: "'f claimable \<Rightarrow> il_state" where
  "res_pending s = (res_store s, res_pendingClaims s)"

definition res_put :: "'f claimable \<Rightarrow> il_state \<Rightarrow> 'f claimable" where
  "res_put s sl = s\<lparr>res_store := fst sl, res_pendingClaims := snd sl\<rparr>"

definition res_set_isGranted :: "addr \<Rightarrow> bool \<Rightarrow> 'f claimable \<Rightarrow> 'f claimable" where
  "res_set_isGranted a b s = s\<lparr>res_isGranted := (res_isGranted s)(a := b)\<rparr>"

definition res_set_isQueued :: "addr \<Rightarrow> bool \<Rightarrow> 'f claimable \<Rightarrow> 'f claimable" where
  "res_set_isQueued a b s = s\<lparr>res_isQueued := (res_isQueued s)(a := b)\<rparr>"

definition res_set_onGranted :: "addr \<Rightarrow> 'f option \<Rightarrow> 'f claimable \<Rightarrow> 'f claimable" where
  "res_set_onGranted a f s = s\<lparr>res_onGranted := (res_onGranted s)(a := f)\<rparr>"

definition res_ClaimsPending :: "'f claimable \<Rightarrow> bool" where
  "res_ClaimsPending s \<longleftrightarrow> \<not> il_empty (res_pendingClaims s)"

definition res_IsClaimed :: "addr \<Rightarrow> 'f claimable \<Rightarrow> bool" where
  "res_IsClaimed a s = res_isGranted s a"

definition res_IsQueued :: "addr \<Rightarrow> 'f claimable \<Rightarrow> bool" where
  "res_IsQueued a s = res_isQueued s a"

subsection \<open>Operations of the resource\<close>

definition res_ScheduleReEvaluateClaim :: "'f claimable \<Rightarrow> 'f claimable" where
  "res_ScheduleReEvaluateClaim s =
     (if \<not> res_reEvaluateClaimScheduled s then s\<lparr>res_reEvaluateClaimScheduled := True, res_events := res_events s + 1\<rparr> else s)"

text \<open>Calling \<^verbatim>\<open>onGranted\<close> resets it first; calling an empty function aborts.\<close>

definition res_call_onGranted :: "addr \<Rightarrow> 'f claimable \<Rightarrow> 'f claimable result" where
  "res_call_onGranted a s = (case res_onGranted s a of
       None \<Rightarrow> Inl Aborted
     | Some f \<Rightarrow> Inr ((res_set_onGranted a None s)\<lparr>res_called := res_called s @ [(a, f)]\<rparr>))"

definition res_ClaimGranted :: "addr \<Rightarrow> 'f claimable \<Rightarrow> 'f claimable result" where
  "res_ClaimGranted a s = res_call_onGranted a (res_set_isGranted a True (res_set_isQueued a False s))"

definition res_ReEvaluateClaim :: "'f claimable \<Rightarrow> 'f claimable result" where
  "res_ReEvaluateClaim s =
     (let s0 = s\<lparr>res_reEvaluateClaimScheduled := False\<rparr>
      in if res_currentClaim s0 = None \<and> \<not> il_empty (res_pendingClaims s0)
         then bindR (il_front (res_pendingClaims s0)) (\<lambda>c. bindR (il_pop_front (res_pending s0)) (\<lambda>sl.
                res_ClaimGranted c (res_put (s0\<lparr>res_currentClaim := Some c\<rparr>) sl)))
         else Inr s0)"

definition res_EnqueueClaimer :: "addr \<Rightarrow> bool \<Rightarrow> 'f claimable \<Rightarrow> 'f claimable" where
  "res_EnqueueClaimer a urgent s =
     res_put s (if urgent then il_push_front a (res_pending s) else il_push_back a (res_pending s))"

definition res_DequeueClaimer :: "addr \<Rightarrow> 'f claimable \<Rightarrow> 'f claimable result" where
  "res_DequeueClaimer a s = bindR (il_erase a (res_pending s)) (\<lambda>sl. Inr (res_put s sl))"

definition res_AddClaim :: "addr \<Rightarrow> bool \<Rightarrow> 'f claimable \<Rightarrow> 'f claimable" where
  "res_AddClaim a urgent s =
     (let s1 = res_EnqueueClaimer a urgent s
      in if res_currentClaim s1 = None then res_ScheduleReEvaluateClaim s1 else s1)"

definition res_RemoveClaim :: "addr \<Rightarrow> 'f claimable \<Rightarrow> 'f claimable result" where
  "res_RemoveClaim a s =
     (if res_currentClaim s = Some a then Inr (res_ScheduleReEvaluateClaim (s\<lparr>res_currentClaim := None\<rparr>))
      else if \<not> il_empty (res_pendingClaims s) then res_DequeueClaimer a s
      else Inr s)"

text \<open>The loop over the pending claims has fuel, one more than there are claims.\<close>

fun res_ReplaceClaim_loop :: "nat \<Rightarrow> addr \<Rightarrow> addr \<Rightarrow> ptr \<Rightarrow> 'f claimable \<Rightarrow> 'f claimable result" where
  "res_ReplaceClaim_loop 0 old new index s = Inl OutOfFuel"
| "res_ReplaceClaim_loop (Suc k) old new index s =
     (if index = Some (il_endNode (res_pendingClaims s)) then Inr s
      else deref index (\<lambda>c. if c = old
             then bindR (il_erase old (il_insert c new (res_pending s))) (\<lambda>sl. Inr (res_put s sl))
             else res_ReplaceClaim_loop k old new (il_next (res_store s) c) s))"

definition res_ReplaceClaim :: "addr \<Rightarrow> addr \<Rightarrow> 'f claimable \<Rightarrow> 'f claimable result" where
  "res_ReplaceClaim old new s =
     (let s1 = (if res_currentClaim s = Some old then s\<lparr>res_currentClaim := Some new\<rparr> else s)
      in res_ReplaceClaim_loop (Suc (il_size (res_pendingClaims s1))) old new (il_beginNode (res_pendingClaims s1)) s1)"

subsection \<open>Operations of a claimer\<close>

text \<open>A new claimer at the address \<open>a\<close>.\<close>

definition res_make_claimer :: "addr \<Rightarrow> 'f claimable \<Rightarrow> 'f claimable" where
  "res_make_claimer a s = res_set_onGranted a None (res_set_isQueued a False (res_set_isGranted a False
     (s\<lparr>res_store := il_node_make a (res_store s)\<rparr>)))"

text \<open>\<^verbatim>\<open>ClaimerBase::Release\<close> and \<^verbatim>\<open>ClaimerWithSize::Release\<close>.\<close>

definition res_Release_base :: "addr \<Rightarrow> 'f claimable \<Rightarrow> 'f claimable result" where
  "res_Release_base a s =
     (let s1 = (if \<not> res_isGranted s a then res_set_isQueued a False s else s)
      in res_RemoveClaim a (res_set_isGranted a False s1))"

definition res_Release :: "addr \<Rightarrow> 'f claimable \<Rightarrow> 'f claimable result" where
  "res_Release a s = res_Release_base a (if \<not> res_IsClaimed a s then res_set_onGranted a None s else s)"

definition res_ReleaseAllClaims :: "addr \<Rightarrow> 'f claimable \<Rightarrow> 'f claimable result" where
  "res_ReleaseAllClaims a s =
     bindR (if res_isGranted s a then res_Release_base a s else Inr s) (\<lambda>s1.
       if res_isQueued s1 a then res_Release_base a s1 else Inr s1)"

definition res_Claim :: "addr \<Rightarrow> 'f option \<Rightarrow> 'f claimable \<Rightarrow> 'f claimable result" where
  "res_Claim a f s = checked (res_onGranted s a = None)
     (Inr (res_AddClaim a False (res_set_isQueued a True (res_set_onGranted a f s))))"

definition res_ClaimUrgent :: "addr \<Rightarrow> 'f option \<Rightarrow> 'f claimable \<Rightarrow> 'f claimable result" where
  "res_ClaimUrgent a f s = checked (res_onGranted s a = None)
     (Inr (res_AddClaim a True (res_set_isQueued a True (res_set_onGranted a f s))))"

text \<open>What the move constructor and the move assignment of the base class share.\<close>

definition res_take_claims :: "addr \<Rightarrow> addr \<Rightarrow> 'f claimable \<Rightarrow> 'f claimable result" where
  "res_take_claims a other s =
     (let s1 = res_set_isQueued a (res_isQueued s other) (res_set_isGranted a (res_isGranted s other) s);
          s2 = res_set_isQueued other False (res_set_isGranted other False s1)
      in if res_isQueued s2 a \<or> res_isGranted s2 a then res_ReplaceClaim other a s2 else Inr s2)"

text \<open>The member \<^verbatim>\<open>onGranted\<close> is moved after the base class.\<close>

definition res_move_onGranted :: "addr \<Rightarrow> addr \<Rightarrow> 'f claimable \<Rightarrow> 'f claimable" where
  "res_move_onGranted a other s = res_set_onGranted other None (res_set_onGranted a (res_onGranted s other) s)"

definition res_make_move :: "addr \<Rightarrow> addr \<Rightarrow> 'f claimable \<Rightarrow> 'f claimable result" where
  "res_make_move a other s =
     bindR (res_take_claims a other (s\<lparr>res_store := il_node_make a (res_store s)\<rparr>)) (\<lambda>s1. Inr (res_move_onGranted a other s1))"

definition res_move_assign :: "addr \<Rightarrow> addr \<Rightarrow> 'f claimable \<Rightarrow> 'f claimable result" where
  "res_move_assign a other s =
     bindR (bindR (res_ReleaseAllClaims a s) (res_take_claims a other)) (\<lambda>s1. Inr (res_move_onGranted a other s1))"

text \<open>The member \<^verbatim>\<open>onGranted\<close> is destroyed before the base class.\<close>

definition res_destroy_claimer :: "addr \<Rightarrow> 'f claimable \<Rightarrow> 'f claimable result" where
  "res_destroy_claimer a s = res_ReleaseAllClaims a (res_set_onGranted a None s)"

text \<open>The destructor of the resource.\<close>

definition res_destroy :: "'f claimable \<Rightarrow> unit result" where
  "res_destroy s = checked (res_currentClaim s = None) (checked (il_empty (res_pendingClaims s)) (Inr ()))"

text \<open>The event dispatcher runs an event of the resource, if it has one.\<close>

definition res_dispatch :: "'f claimable \<Rightarrow> 'f claimable result" where
  "res_dispatch s = (if res_events s = 0 then Inr s else res_ReEvaluateClaim (s\<lparr>res_events := res_events s - 1\<rparr>))"

datatype 'f res_op = NewClaimer addr | DoClaim addr 'f | DoClaimUrgent addr 'f | DoRelease addr | MakeMove addr addr | MoveAssign addr addr
  | DestroyClaimer addr | Dispatch

fun res_do :: "'f res_op \<Rightarrow> 'f claimable \<Rightarrow> 'f claimable result" where
  "res_do (NewClaimer a) s = Inr (res_make_claimer a s)"
| "res_do (DoClaim a f) s = res_Claim a (Some f) s"
| "res_do (DoClaimUrgent a f) s = res_ClaimUrgent a (Some f) s"
| "res_do (DoRelease a) s = res_Release a s"
| "res_do (MakeMove a b) s = res_make_move a b s"
| "res_do (MoveAssign a b) s = res_move_assign a b s"
| "res_do (DestroyClaimer a) s = res_destroy_claimer a s"
| "res_do Dispatch s = res_dispatch s"

fun res_dos :: "'f res_op list \<Rightarrow> 'f claimable \<Rightarrow> 'f claimable result" where
  "res_dos [] s = Inr s"
| "res_dos (c # cs) s = bindR (res_do c s) (res_dos cs)"

subsection \<open>What a resource promises\<close>

text \<open>
  The holder, the queue of claims with the function of each, whether an event is scheduled, and the functions that have been called.
\<close>

record 'f turn =
  holder :: "addr option"
  waiting :: "(addr \<times> 'f) list"
  scheduled :: bool
  granted :: "(addr \<times> 'f) list"

definition turn_new :: "'f turn" where
  "turn_new = \<lparr>holder = None, waiting = [], scheduled = False, granted = []\<rparr>"

definition turn_claim :: "addr \<Rightarrow> 'f \<Rightarrow> bool \<Rightarrow> 'f turn \<Rightarrow> 'f turn" where
  "turn_claim a f urgent t = t\<lparr>waiting := (if urgent then (a, f) # waiting t else waiting t @ [(a, f)]), scheduled := scheduled t \<or> holder t = None\<rparr>"

definition turn_withdraw :: "addr \<Rightarrow> 'f turn \<Rightarrow> 'f turn" where
  "turn_withdraw a t = t\<lparr>waiting := filter (\<lambda>c. fst c \<noteq> a) (waiting t)\<rparr>"

definition turn_free :: "'f turn \<Rightarrow> 'f turn" where
  "turn_free t = t\<lparr>holder := None, scheduled := True\<rparr>"

definition turn_release :: "addr \<Rightarrow> 'f turn \<Rightarrow> 'f turn" where
  "turn_release a t = (if holder t = Some a then turn_free t else turn_withdraw a t)"

definition turn_release_all :: "addr \<Rightarrow> 'f turn \<Rightarrow> 'f turn" where
  "turn_release_all a t = turn_withdraw a (if holder t = Some a then turn_free t else t)"

definition turn_rename :: "addr \<Rightarrow> addr \<Rightarrow> 'f turn \<Rightarrow> 'f turn" where
  "turn_rename a b t = t\<lparr>holder := (if holder t = Some b then Some a else holder t),
     waiting := map (\<lambda>c. if fst c = b then (a, snd c) else c) (waiting t)\<rparr>"

definition turn_event :: "'f turn \<Rightarrow> 'f turn" where
  "turn_event t =
     (if \<not> scheduled t then t
      else case (holder t, waiting t) of
        (None, c # cs) \<Rightarrow> t\<lparr>holder := Some (fst c), waiting := cs, scheduled := False, granted := granted t @ [c]\<rparr>
      | _ \<Rightarrow> t\<lparr>scheduled := False\<rparr>)"

definition turn_has :: "addr \<Rightarrow> 'f turn \<Rightarrow> bool" where
  "turn_has a t \<longleftrightarrow> holder t = Some a \<or> a \<in> fst ` set (waiting t)"

fun turn_do :: "'f res_op \<Rightarrow> 'f turn \<Rightarrow> 'f turn result" where
  "turn_do (NewClaimer a) t = Inr t"
| "turn_do (DoClaim a f) t = checked (a \<notin> fst ` set (waiting t)) (Inr (turn_claim a f False t))"
| "turn_do (DoClaimUrgent a f) t = checked (a \<notin> fst ` set (waiting t)) (Inr (turn_claim a f True t))"
| "turn_do (DoRelease a) t = Inr (turn_release a t)"
| "turn_do (MakeMove a b) t = Inr (turn_rename a b t)"
| "turn_do (MoveAssign a b) t = Inr (turn_rename a b (turn_release_all a t))"
| "turn_do (DestroyClaimer a) t = Inr (turn_release_all a t)"
| "turn_do Dispatch t = Inr (turn_event t)"

fun turn_dos :: "'f res_op list \<Rightarrow> 'f turn \<Rightarrow> 'f turn result" where
  "turn_dos [] t = Inr t"
| "turn_dos (c # cs) t = bindR (turn_do c t) (turn_dos cs)"

text \<open>
  What a program may do: the objects it makes do not lie on ones that exist, and it does not assign a claimer to itself. Only claimers
  that exist are used, which the model need not require, as the address of no claimer has no claims.
\<close>

fun turn_allowed :: "addr \<Rightarrow> 'f res_op \<Rightarrow> 'f turn \<Rightarrow> bool" where
  "turn_allowed e (NewClaimer a) t = (a \<noteq> e \<and> \<not> turn_has a t)"
| "turn_allowed e (MakeMove a b) t = (a \<noteq> e \<and> b \<noteq> e \<and> a \<noteq> b \<and> \<not> turn_has a t)"
| "turn_allowed e (MoveAssign a b) t = (a \<noteq> e \<and> b \<noteq> e \<and> a \<noteq> b)"
| "turn_allowed e (DoClaim a f) t = (a \<noteq> e)"
| "turn_allowed e (DoClaimUrgent a f) t = (a \<noteq> e)"
| "turn_allowed e (DoRelease a) t = (a \<noteq> e)"
| "turn_allowed e (DestroyClaimer a) t = (a \<noteq> e)"
| "turn_allowed e Dispatch t = True"

fun turn_alloweds :: "addr \<Rightarrow> 'f res_op list \<Rightarrow> 'f turn \<Rightarrow> bool" where
  "turn_alloweds e [] t = True"
| "turn_alloweds e (c # cs) t = (turn_allowed e c t \<and> (case turn_do c t of Inl _ \<Rightarrow> True | Inr t' \<Rightarrow> turn_alloweds e cs t'))"

subsection \<open>The resource keeps its promise\<close>

text \<open>\<open>res_rel0\<close> leaves out the functions that are to be called, which do not match the queue in the middle of an operation.\<close>

definition res_rel0 :: "addr \<Rightarrow> 'f claimable \<Rightarrow> 'f turn \<Rightarrow> bool" where
  "res_rel0 e s t \<longleftrightarrow> il_only (res_store s) (res_pendingClaims s) (map fst (waiting t)) \<and> il_endNode (res_pendingClaims s) = e
     \<and> res_currentClaim s = holder t \<and> holder t \<noteq> Some e
     \<and> res_isQueued s = (\<lambda>a. a \<in> fst ` set (waiting t)) \<and> res_isGranted s = (\<lambda>a. holder t = Some a)
     \<and> res_reEvaluateClaimScheduled s = scheduled t \<and> res_events s = (if scheduled t then 1 else 0)
     \<and> res_called s = granted t \<and> (holder t = None \<and> waiting t \<noteq> [] \<longrightarrow> scheduled t)"

definition res_rel :: "addr \<Rightarrow> 'f claimable \<Rightarrow> 'f turn \<Rightarrow> bool" where
  "res_rel e s t \<longleftrightarrow> res_rel0 e s t \<and> res_onGranted s = map_of (waiting t)"

text \<open>An operation of the base class reaches \<open>t\<close> and leaves the functions alone.\<close>

definition res_reaches :: "addr \<Rightarrow> 'f claimable \<Rightarrow> 'f claimable result \<Rightarrow> 'f turn \<Rightarrow> bool" where
  "res_reaches e s r t \<longleftrightarrow> (\<exists>s'. r = Inr s' \<and> res_rel0 e s' t \<and> res_onGranted s' = res_onGranted s)"

lemmas res_defs = res_pending_def res_put_def res_set_isGranted_def res_set_isQueued_def res_set_onGranted_def
  res_ScheduleReEvaluateClaim_def res_IsClaimed_def res_IsQueued_def

lemma res_rel0_empty: "res_rel0 e s t \<Longrightarrow> il_empty (res_pendingClaims s) \<longleftrightarrow> waiting t = []"
  unfolding res_rel0_def il_only_def by (auto dest: il_empty_iff)

lemma res_rel0_distinct: "res_rel0 e s t \<Longrightarrow> distinct (map fst (waiting t)) \<and> e \<notin> fst ` set (waiting t)"
  by (auto simp: res_rel0_def il_only_def il_inv_def)

lemma remove1_withdraw: "distinct (map fst w) \<Longrightarrow> remove1 a (map fst w) = map fst (filter (\<lambda>c. fst c \<noteq> a) w)"
  by (simp add: distinct_remove1_removeAll removeAll_filter_not_eq filter_map comp_def eq_commute)

lemma map_of_withdraw: "map_of (filter (\<lambda>c. fst c \<noteq> a) w) = (map_of w)(a := None)"
  by (induction w) (auto simp: fun_eq_iff)

lemma map_of_rename:
  "a \<notin> fst ` set w \<Longrightarrow> a \<noteq> b \<Longrightarrow> map_of (map (\<lambda>c. if fst c = b then (a, snd c) else c) w) = (map_of w)(a := map_of w b, b := None)"
  by (induction w) (auto simp: fun_eq_iff)

lemma insert_remove1_rename:
  "distinct xs \<Longrightarrow> b \<in> set xs \<Longrightarrow> a \<noteq> b \<Longrightarrow>
   remove1 b (takeWhile (\<lambda>z. z \<noteq> b) xs @ a # dropWhile (\<lambda>z. z \<noteq> b) xs) = map (\<lambda>x. if x = b then a else x) xs"
proof (induction xs)
  case (Cons x xs)
  show ?case
  proof (cases "x = b")
    case True
    then have "map (\<lambda>x. if x = b then a else x) xs = xs" using Cons.prems by (intro map_idI) auto
    then show ?thesis using True Cons.prems by simp
  qed (use Cons in auto)
qed simp

lemma res_Dequeue_reaches:
  assumes "res_rel0 e s t" and "a \<noteq> e"
  shows "\<exists>sl. il_erase a (res_pending s) = Inr sl \<and> il_only (fst sl) (snd sl) (map fst (waiting (turn_withdraw a t))) \<and> il_endNode (snd sl) = e"
proof -
  have "il_does (il_erase a (res_pending s)) e (remove1 a (map fst (waiting t)))"
    using assms il_erase_does [of "res_store s" "res_pendingClaims s" "map fst (waiting t)" a] by (auto simp: res_rel0_def res_pending_def)
  then show ?thesis using res_rel0_distinct [OF assms(1)]
    by (fastforce simp: il_does_def turn_withdraw_def remove1_withdraw)
qed

lemma res_Release_base_reaches:
  assumes "res_rel0 e s t" and "a \<noteq> e"
  shows "res_reaches e s (res_Release_base a s) (turn_release a t)"
proof (cases "holder t = Some a")
  case True
  then show ?thesis using assms(1)
    by (auto simp: res_reaches_def res_Release_base_def res_RemoveClaim_def Let_def turn_release_def turn_free_def res_rel0_def res_defs fun_eq_iff)
next
  case False
  let ?s = "res_set_isGranted a False (res_set_isQueued a False s)"
  have r: "res_Release_base a s = res_RemoveClaim a ?s" using False assms(1) by (simp add: res_Release_base_def res_rel0_def Let_def)
  have queued: "res_isQueued ?s = (\<lambda>c. c \<in> fst ` set (waiting (turn_withdraw a t)))"
    using assms(1) by (auto simp: res_rel0_def res_defs turn_withdraw_def fun_eq_iff)
  have rest: "res_isGranted ?s = (\<lambda>c. holder t = Some c)" "res_currentClaim ?s = holder t" "res_onGranted ?s = res_onGranted s"
    using assms(1) False by (auto simp: res_rel0_def res_defs fun_eq_iff)
  have t: "turn_release a t = turn_withdraw a t" using False by (simp add: turn_release_def)
  show ?thesis
  proof (cases "waiting t = []")
    case True
    then have "res_RemoveClaim a ?s = Inr ?s" using False rest res_rel0_empty [OF assms(1)] by (simp add: res_RemoveClaim_def res_defs)
    moreover have "turn_withdraw a t = t" using True by (simp add: turn_withdraw_def)
    ultimately show ?thesis using queued rest assms(1) unfolding r t by (auto simp: res_reaches_def res_rel0_def res_defs)
  next
    case nonempty: False
    obtain sl where sl: "il_erase a (res_pending s) = Inr sl" "il_only (fst sl) (snd sl) (map fst (waiting (turn_withdraw a t)))" "il_endNode (snd sl) = e"
      using res_Dequeue_reaches [OF assms] by auto
    then have "res_DequeueClaimer a ?s = Inr (res_put ?s sl)" by (simp add: res_DequeueClaimer_def res_defs)
    then have "res_RemoveClaim a ?s = Inr (res_put ?s sl)"
      using False nonempty rest res_rel0_empty [OF assms(1)] by (simp add: res_RemoveClaim_def res_defs)
    then show ?thesis using sl queued rest assms(1) unfolding r t by (auto simp: res_reaches_def res_rel0_def res_defs turn_withdraw_def)
  qed
qed

lemma res_reaches_trans:
  assumes "res_reaches e s r t" and "\<And>s'. res_rel0 e s' t \<Longrightarrow> res_reaches e s' (f s') t'"
  shows "res_reaches e s (bindR r f) t'"
  using assms unfolding res_reaches_def by fastforce

lemma turn_withdraw_absent: "a \<notin> fst ` set (waiting t) \<Longrightarrow> turn_withdraw a t = t"
proof -
  assume "a \<notin> fst ` set (waiting t)"
  then have "filter (\<lambda>c. fst c \<noteq> a) (waiting t) = waiting t" by (intro filter_True) auto
  then show ?thesis by (simp add: turn_withdraw_def)
qed

lemma res_ReleaseAllClaims_reaches:
  assumes rel: "res_rel0 e s t" and "a \<noteq> e"
  shows "res_reaches e s (res_ReleaseAllClaims a s) (turn_release_all a t)"
proof -
  let ?t = "if holder t = Some a then turn_free t else t"
  have 1: "res_reaches e s (if res_isGranted s a then res_Release_base a s else Inr s) ?t"
    using res_Release_base_reaches [OF assms] rel by (auto simp: res_rel0_def turn_release_def res_reaches_def)
  show ?thesis unfolding res_ReleaseAllClaims_def
  proof (rule res_reaches_trans [OF 1])
    fix s' assume rel': "res_rel0 e s' ?t"
    have q: "res_isQueued s' a \<longleftrightarrow> a \<in> fst ` set (waiting t)" using rel' by (auto simp: res_rel0_def turn_free_def split: if_splits)
    have h: "turn_release a ?t = turn_release_all a t"
      by (simp add: turn_release_def turn_release_all_def turn_free_def)
    have "turn_release_all a t = ?t" if "a \<notin> fst ` set (waiting t)"
      using that by (auto simp: turn_release_all_def turn_free_def intro!: turn_withdraw_absent)
    then show "res_reaches e s' (if res_isQueued s' a then res_Release_base a s' else Inr s') (turn_release_all a t)"
      using res_Release_base_reaches [OF rel' assms(2)] rel' q unfolding h by (auto simp: res_reaches_def)
  qed
qed

lemma turn_release_all_has: "\<not> turn_has a (turn_release_all a t)"
  by (auto simp: turn_has_def turn_release_all_def turn_withdraw_def turn_free_def)

subsection \<open>Replacing a claim\<close>

lemma res_ReplaceClaim_loop_seg:
  "il_seg (res_store s) p xs e \<Longrightarrow> e = il_endNode (res_pendingClaims s) \<Longrightarrow> e \<notin> set xs \<Longrightarrow> length xs < k \<Longrightarrow>
   res_ReplaceClaim_loop k old new (Some (hd (xs @ [e]))) s =
     (if old \<in> set xs then bindR (il_erase old (il_insert old new (res_pending s))) (\<lambda>sl. Inr (res_put s sl)) else Inr s)"
proof (induction xs arbitrary: p k)
  case (Cons x xs)
  then show ?case by (cases k) auto
next
  case Nil
  then show ?case by (cases k) auto
qed

lemma il_replace_does:
  assumes "il_only s l xs" and "a \<notin> set (xs @ [il_endNode l])" and "b \<in> set xs"
  shows "il_does (il_erase b (il_insert b a (s, l))) (il_endNode l) (map (\<lambda>x. if x = b then a else x) xs)"
proof -
  let ?ys = "takeWhile (\<lambda>z. z \<noteq> b) xs @ a # dropWhile (\<lambda>z. z \<noteq> b) xs"
  obtain s1 l1 where 1: "il_insert b a (s, l) = (s1, l1)" "il_only s1 l1 ?ys" "il_endNode l1 = il_endNode l"
    using il_insert_does [OF assms(1,2), of b] assms(3) by (auto simp: il_does_def)
  have "distinct xs" "b \<noteq> il_endNode l1" "a \<noteq> b" using assms 1(3) by (auto simp: il_only_def il_inv_def)
  then show ?thesis using il_erase_does [OF 1(2), of b] 1 assms(3) by (simp add: insert_remove1_rename)
qed

lemma turn_rename_absent: "\<not> turn_has b t \<Longrightarrow> turn_rename a b t = t"
proof -
  assume b: "\<not> turn_has b t"
  then have "map (\<lambda>c. if fst c = b then (a, snd c) else c) (waiting t) = waiting t"
    by (intro map_idI) (auto simp: turn_has_def)
  then show ?thesis using b by (simp add: turn_rename_def turn_has_def)
qed

lemma map_rename_names:
  "fst ` set (map (\<lambda>c. if fst c = b then (a, snd c) else c) w) = (\<lambda>x. if x = b then a else x) ` fst ` set w"
  by (induction w) auto

lemma turn_rename_names:
  assumes "\<not> turn_has a t" and "a \<noteq> b"
  shows "c \<in> fst ` set (waiting (turn_rename a b t)) \<longleftrightarrow> (if c = a then b \<in> fst ` set (waiting t) else c \<noteq> b \<and> c \<in> fst ` set (waiting t))"
proof -
  have w: "waiting (turn_rename a b t) = map (\<lambda>c. if fst c = b then (a, snd c) else c) (waiting t)" by (simp add: turn_rename_def)
  have "fst ` set (waiting (turn_rename a b t)) = (\<lambda>x. if x = b then a else x) ` fst ` set (waiting t)"
    by (simp only: w map_rename_names)
  moreover have "c \<in> (\<lambda>x. if x = b then a else x) ` S \<longleftrightarrow> (if c = a then b \<in> S else c \<noteq> b \<and> c \<in> S)" if "a \<notin> S" for S
    using assms(2) that by auto
  ultimately show ?thesis using assms(1) by (simp add: turn_has_def)
qed

lemma res_take_claims_reaches:
  assumes rel: "res_rel0 e s t" and a: "\<not> turn_has a t" "a \<noteq> e" "a \<noteq> b"
  shows "res_reaches e s (res_take_claims a b s) (turn_rename a b t)"
proof (cases "turn_has b t")
  case False
  then have "res_set_isQueued b False (res_set_isGranted b False (res_set_isQueued a False (res_set_isGranted a False s))) = s"
    using rel a by (cases s) (auto simp: res_defs res_rel0_def turn_has_def fun_eq_iff)
  moreover have "\<not> res_isQueued s b" "\<not> res_isGranted s b" "\<not> res_isQueued s a" "\<not> res_isGranted s a" using False rel a by (auto simp: res_rel0_def turn_has_def)
  ultimately have "res_take_claims a b s = Inr s" using a(3) rel a(1)
    by (simp add: res_take_claims_def Let_def)
  then show ?thesis using rel turn_rename_absent [OF False] by (simp add: res_reaches_def)
next
  case True
  let ?s1 = "res_set_isQueued a (res_isQueued s b) (res_set_isGranted a (res_isGranted s b) s)"
  let ?s2 = "res_set_isQueued b False (res_set_isGranted b False ?s1)"
  define s3 where "s3 = (if res_currentClaim ?s2 = Some b then ?s2\<lparr>res_currentClaim := Some a\<rparr> else ?s2)"
  let ?t = "turn_rename a b t" and ?xs = "map fst (waiting t)"
  have only: "il_only (res_store s) (res_pendingClaims s) ?xs" and e: "il_endNode (res_pendingClaims s) = e" using rel by (auto simp: res_rel0_def)
  then have seg: "il_seg (res_store s) None ?xs e" "e \<notin> set ?xs" "il_beginNode (res_pendingClaims s) = Some (hd (?xs @ [e]))" "il_size (res_pendingClaims s) = length ?xs"
    by (auto simp: il_only_def il_inv_def il_size_def)
  have fields: "res_store s3 = res_store s" "res_pendingClaims s3 = res_pendingClaims s" "res_onGranted s3 = res_onGranted s"
      "res_currentClaim s3 = holder ?t" "res_called s3 = granted ?t" "res_events s3 = (if scheduled ?t then 1 else 0)" "res_reEvaluateClaimScheduled s3 = scheduled ?t"
    using rel by (auto simp: s3_def res_defs turn_rename_def res_rel0_def)
  have queued: "res_isQueued s3 = (\<lambda>c. c \<in> fst ` set (waiting ?t))"
    using rel a by (auto simp: s3_def res_rel0_def res_defs turn_has_def fun_eq_iff turn_rename_names)
  have granted: "res_isGranted s3 = (\<lambda>c. holder ?t = Some c)"
    using rel a by (auto simp: s3_def res_rel0_def res_defs turn_rename_def turn_has_def fun_eq_iff)
  have "res_isQueued ?s2 a \<or> res_isGranted ?s2 a" using True rel a by (auto simp: res_rel0_def res_defs turn_has_def)
  then have "res_take_claims a b s = res_ReplaceClaim b a ?s2" by (simp add: res_take_claims_def Let_def)
  also have "\<dots> = res_ReplaceClaim_loop (Suc (length ?xs)) b a (Some (hd (?xs @ [e]))) s3"
    using fields seg by (simp add: res_ReplaceClaim_def Let_def s3_def)
  also have "\<dots> = (if b \<in> set ?xs then bindR (il_erase b (il_insert b a (res_pending s3))) (\<lambda>sl. Inr (res_put s3 sl)) else Inr s3)"
    using fields seg e by (intro res_ReplaceClaim_loop_seg [where p = None]) simp_all
  finally have r: "res_take_claims a b s = \<dots>" .
  have names: "map fst (waiting ?t) = map (\<lambda>x. if x = b then a else x) ?xs" by (simp add: turn_rename_def)
  have rest: "holder ?t \<noteq> Some e" "holder ?t = None \<and> waiting ?t \<noteq> [] \<longrightarrow> scheduled ?t"
    using rel a by (auto simp: res_rel0_def turn_rename_def)
  show ?thesis
  proof (cases "b \<in> set ?xs")
    case True
    have "il_does (il_erase b (il_insert b a (res_pending s3))) e (map fst (waiting ?t))"
      using il_replace_does [OF only, of a b] True a e unfolding names res_pending_def fields by (simp add: turn_has_def)
    then obtain s' l' where "il_erase b (il_insert b a (res_pending s3)) = Inr (s', l')" "il_only s' l' (map fst (waiting ?t))" "il_endNode l' = e"
      by (auto simp: il_does_def)
    then show ?thesis using True fields queued granted rest unfolding r res_reaches_def res_rel0_def by (simp add: res_put_def)
  next
    case False
    then have "map (\<lambda>x. if x = b then a else x) ?xs = ?xs" by (intro map_idI) auto
    then have "map fst (waiting ?t) = ?xs" unfolding names .
    then show ?thesis using False fields queued granted rest only e unfolding r res_reaches_def res_rel0_def by simp
  qed
qed

subsection \<open>Each operation does what it promises\<close>

definition res_does :: "addr \<Rightarrow> 'f claimable result \<Rightarrow> 'f turn \<Rightarrow> bool" where
  "res_does e r t \<longleftrightarrow> (\<exists>s'. r = Inr s' \<and> res_rel e s' t)"

lemma res_make_rel: "res_rel e (res_make e) turn_new"
proof -
  have "il_only (fst (il_make e il_no_links)) (snd (il_make e il_no_links)) []" by (rule il_make_only) (simp add: il_no_links_def)
  moreover have "il_endNode (snd (il_make e il_no_links)) = e" by (simp add: il_make_def)
  ultimately show ?thesis by (simp add: res_rel_def res_rel0_def res_make_def turn_new_def)
qed

lemma res_node_make_rel0:
  assumes "res_rel0 e s t" and "\<not> turn_has a t" and "a \<noteq> e"
  shows "res_rel0 e (s\<lparr>res_store := il_node_make a (res_store s)\<rparr>) t"
proof -
  have inv: "il_inv (res_store s) (res_pendingClaims s) (map fst (waiting t))" and a: "a \<notin> set (map fst (waiting t) @ [il_endNode (res_pendingClaims s)])"
    using assms by (auto simp: turn_has_def res_rel0_def il_only_def)
  have "il_inv (il_node_make a (res_store s)) (res_pendingClaims s) (map fst (waiting t))"
    by (rule il_inv_cong [OF inv]) (use a in \<open>auto simp: il_node_make_def\<close>)
  then show ?thesis using assms(1) by (auto simp: res_rel0_def il_only_def il_node_make_def)
qed

lemma res_make_claimer_does:
  assumes rel: "res_rel e s t" and a: "\<not> turn_has a t" "a \<noteq> e"
  shows "res_does e (Inr (res_make_claimer a s)) t"
proof -
  let ?s = "s\<lparr>res_store := il_node_make a (res_store s)\<rparr>"
  have 0: "res_rel0 e ?s t" using res_node_make_rel0 rel a unfolding res_rel_def by blast
  have "res_isQueued ?s a = False" "res_isGranted ?s a = False" using rel a by (auto simp: res_rel_def res_rel0_def turn_has_def)
  moreover have "res_onGranted ?s a = None" using rel a by (auto simp: res_rel_def turn_has_def map_of_eq_None_iff)
  ultimately have "(res_isQueued ?s)(a := False) = res_isQueued ?s" "(res_isGranted ?s)(a := False) = res_isGranted ?s" "(res_onGranted ?s)(a := None) = res_onGranted ?s"
    by (simp_all only: fun_upd_idem)
  then have "res_make_claimer a s = ?s" by (simp add: res_make_claimer_def res_defs)
  then show ?thesis using 0 rel by (simp add: res_does_def res_rel_def)
qed

lemma res_AddClaim_rel0:
  assumes rel: "res_rel0 e s t" and a: "a \<notin> fst ` set (waiting t)" "a \<noteq> e"
    and s'_def: "s' = res_set_isQueued a True (res_set_onGranted a g s)"
  shows "res_rel0 e (res_AddClaim a urgent s') (turn_claim a f urgent t)"
    and "res_onGranted (res_AddClaim a urgent s') = (res_onGranted s)(a := g)"
proof -
  obtain s1 l1 where e: "(if urgent then il_push_front a (res_pending s) else il_push_back a (res_pending s)) = (s1, l1)"
    by (cases "if urgent then il_push_front a (res_pending s) else il_push_back a (res_pending s)")
  have "il_only s1 l1 (map fst (waiting (turn_claim a f urgent t)))" "il_endNode l1 = e"
    using rel a e il_push_front_only [of "res_store s" "res_pendingClaims s" "map fst (waiting t)" a]
      il_push_back_only [of "res_store s" "res_pendingClaims s" "map fst (waiting t)" a]
      il_push_front_inv(2) [of "res_store s" "res_pendingClaims s" "map fst (waiting t)" a]
      il_push_back_inv(2) [of "res_store s" "res_pendingClaims s" "map fst (waiting t)" a]
    by (auto simp: res_rel0_def res_pending_def turn_claim_def il_only_def split: if_splits)
  moreover have p: "res_pending s' = res_pending s" "res_currentClaim s' = holder t" using rel by (simp_all add: s'_def res_defs res_rel0_def)
  have enq: "res_EnqueueClaimer a urgent s' = res_put s' (s1, l1)" by (simp only: res_EnqueueClaimer_def p(1) e)
  with p have r: "res_AddClaim a urgent s' = (if holder t = None then res_ScheduleReEvaluateClaim (res_put s' (s1, l1)) else res_put s' (s1, l1))"
    by (auto simp: res_AddClaim_def Let_def enq res_put_def)
  have "res_isQueued s' = (\<lambda>c. c \<in> fst ` set (waiting (turn_claim a f urgent t)))"
    using rel by (auto simp: s'_def res_rel0_def res_defs turn_claim_def fun_eq_iff)
  ultimately show "res_rel0 e (res_AddClaim a urgent s') (turn_claim a f urgent t)"
    using rel unfolding r by (cases urgent; cases "holder t"; cases "scheduled t") (simp_all add: s'_def res_rel0_def turn_claim_def res_defs)
  show "res_onGranted (res_AddClaim a urgent s') = (res_onGranted s)(a := g)"
    unfolding r by (simp add: s'_def res_defs)
qed

lemma map_of_add:
  "a \<notin> fst ` set w \<Longrightarrow> map_of (if urgent then (a, f) # w else w @ [(a, f)]) = (map_of w)(a \<mapsto> f)"
  by (induction w) (auto simp: fun_eq_iff)

lemma res_add_rel:
  assumes "res_rel e s t" and "a \<notin> fst ` set (waiting t)" and "a \<noteq> e"
  shows "res_rel e (res_AddClaim a urgent (res_set_isQueued a True (res_set_onGranted a (Some f) s))) (turn_claim a f urgent t)"
proof -
  have "res_rel0 e s t" using assms(1) by (simp add: res_rel_def)
  from res_AddClaim_rel0 [OF this assms(2,3) refl] show ?thesis
    using assms(1) map_of_add [OF assms(2), of urgent f] by (simp add: res_rel_def turn_claim_def)
qed

lemma res_onGranted_None: "res_rel e s t \<Longrightarrow> res_onGranted s a = None \<longleftrightarrow> a \<notin> fst ` set (waiting t)"
  by (simp add: res_rel_def map_of_eq_None_iff)

lemma res_Release_does:
  assumes rel: "res_rel e s t" and a: "a \<noteq> e"
  shows "res_does e (res_Release a s) (turn_release a t)"
proof -
  let ?s = "if \<not> res_IsClaimed a s then res_set_onGranted a None s else s"
  have "res_rel0 e ?s t" using rel by (auto simp: res_rel_def res_rel0_def res_defs)
  from res_Release_base_reaches [OF this a] obtain s' where s': "res_Release a s = Inr s'" "res_rel0 e s' (turn_release a t)" "res_onGranted s' = res_onGranted ?s"
    by (auto simp: res_reaches_def res_Release_def)
  have "res_onGranted ?s = map_of (waiting (turn_release a t))"
    using rel by (auto simp: res_rel_def res_rel0_def res_defs turn_release_def turn_free_def turn_withdraw_def map_of_withdraw)
  then show ?thesis using s' by (simp add: res_does_def res_rel_def)
qed

lemma res_destroy_claimer_does:
  assumes rel: "res_rel e s t" and a: "a \<noteq> e"
  shows "res_does e (res_destroy_claimer a s) (turn_release_all a t)"
proof -
  have "res_rel0 e (res_set_onGranted a None s) t" using rel by (auto simp: res_rel_def res_rel0_def res_defs)
  from res_ReleaseAllClaims_reaches [OF this a] obtain s' where s': "res_destroy_claimer a s = Inr s'" "res_rel0 e s' (turn_release_all a t)"
      "res_onGranted s' = (res_onGranted s)(a := None)"
    by (auto simp: res_reaches_def res_destroy_claimer_def res_set_onGranted_def)
  moreover have "waiting (turn_release_all a t) = filter (\<lambda>c. fst c \<noteq> a) (waiting t)"
    by (simp add: turn_release_all_def turn_withdraw_def turn_free_def)
  ultimately show ?thesis using rel by (simp add: res_does_def res_rel_def map_of_withdraw)
qed

lemma res_take_claims_rel:
  assumes rel: "res_rel0 e s t" and a: "\<not> turn_has a t" "a \<noteq> e" "a \<noteq> b"
    and f: "(res_onGranted s)(a := None) = map_of (waiting t)"
  shows "res_does e (bindR (res_take_claims a b s) (\<lambda>s1. Inr (res_move_onGranted a b s1))) (turn_rename a b t)"
proof -
  obtain s' where s': "res_take_claims a b s = Inr s'" "res_rel0 e s' (turn_rename a b t)" "res_onGranted s' = res_onGranted s"
    using res_take_claims_reaches [OF rel a] by (auto simp: res_reaches_def)
  have "map_of (waiting (turn_rename a b t)) = ((res_onGranted s)(a := None))(a := ((res_onGranted s)(a := None)) b, b := None)"
    using a map_of_rename [of a "waiting t" b] unfolding f by (simp add: turn_rename_def turn_has_def)
  also have "\<dots> = (res_onGranted s)(a := res_onGranted s b, b := None)" using a(3) by auto
  finally have "map_of (waiting (turn_rename a b t)) = \<dots>" .
  then show ?thesis using s' by (auto simp: res_does_def res_rel_def res_rel0_def res_move_onGranted_def res_defs)
qed

lemma res_make_move_does:
  assumes rel: "res_rel e s t" and a: "\<not> turn_has a t" "a \<noteq> e" "a \<noteq> b"
  shows "res_does e (res_make_move a b s) (turn_rename a b t)"
proof -
  have "res_rel0 e (s\<lparr>res_store := il_node_make a (res_store s)\<rparr>) t" using res_node_make_rel0 [of e s t a] rel a by (simp add: res_rel_def)
  moreover have "res_onGranted s a = None" using rel a(1) by (simp add: res_rel_def turn_has_def map_of_eq_None_iff)
  then have "(res_onGranted s)(a := None) = map_of (waiting t)" using rel by (simp only: fun_upd_idem) (simp add: res_rel_def)
  ultimately show ?thesis unfolding res_make_move_def by (intro res_take_claims_rel a) simp_all
qed

lemma res_move_assign_does:
  assumes rel: "res_rel e s t" and a: "a \<noteq> e" "a \<noteq> b"
  shows "res_does e (res_move_assign a b s) (turn_rename a b (turn_release_all a t))"
proof -
  obtain s' where s': "res_ReleaseAllClaims a s = Inr s'" "res_rel0 e s' (turn_release_all a t)" "res_onGranted s' = res_onGranted s"
    using res_ReleaseAllClaims_reaches [of e s t a] rel a by (auto simp: res_reaches_def res_rel_def)
  have "waiting (turn_release_all a t) = filter (\<lambda>c. fst c \<noteq> a) (waiting t)"
    by (simp add: turn_release_all_def turn_withdraw_def turn_free_def)
  then have "(res_onGranted s')(a := None) = map_of (waiting (turn_release_all a t))"
    using rel s'(3) by (simp add: res_rel_def map_of_withdraw)
  then show ?thesis using res_take_claims_rel [OF s'(2) turn_release_all_has a] s'(1) by (simp add: res_move_assign_def)
qed

lemma res_dispatch_does:
  assumes rel: "res_rel e s t"
  shows "res_does e (res_dispatch s) (turn_event t)"
proof (cases "scheduled t")
  case False
  then show ?thesis using rel by (auto simp: res_dispatch_def res_does_def turn_event_def res_rel_def res_rel0_def)
next
  case True
  let ?s = "s\<lparr>res_events := 0, res_reEvaluateClaimScheduled := False\<rparr>"
  have ev: "res_events s = 1" using True rel by (simp add: res_rel_def res_rel0_def)
  show ?thesis
  proof (cases "holder t = None \<and> waiting t \<noteq> []")
    case idle: False
    then have "res_dispatch s = Inr ?s"
      using rel ev res_rel0_empty [of e s t] by (auto simp: res_dispatch_def res_ReEvaluateClaim_def Let_def res_rel_def) (auto simp: res_rel0_def)
    moreover have "turn_event t = t\<lparr>scheduled := False\<rparr>" using idle True by (auto simp: turn_event_def split: option.splits list.splits)
    ultimately show ?thesis using rel idle True by (auto simp: res_does_def res_rel_def res_rel0_def)
  next
    case busy: True
    then obtain a f w where t: "holder t = None" "waiting t = (a, f) # w" by (cases "waiting t") auto
    have only: "il_only (res_store s) (res_pendingClaims s) (a # map fst w)" and e: "il_endNode (res_pendingClaims s) = e"
      using rel t by (auto simp: res_rel_def res_rel0_def)
    have d: "a \<notin> fst ` set w" "a \<noteq> e" using only e by (auto simp: il_only_def il_inv_def)
    obtain s1 l1 where pop: "il_pop_front (res_store s, res_pendingClaims s) = Inr (s1, l1)" "il_only s1 l1 (map fst w)" "il_endNode l1 = e"
      using il_pop_front_does [OF only] e by (auto simp: il_does_def)
    let ?s1 = "res_put (?s\<lparr>res_currentClaim := Some a\<rparr>) (s1, l1)"
    have "il_front (res_pendingClaims s) = Inr a" using only by (auto simp: il_only_def dest: il_front_inv)
    moreover have "\<not> il_empty (res_pendingClaims s)" "res_currentClaim s = None"
      using rel t res_rel0_empty [of e s t] by (auto simp: res_rel_def res_rel0_def)
    ultimately have r: "res_dispatch s = res_ClaimGranted a ?s1"
      using ev pop(1) by (simp add: res_dispatch_def res_ReEvaluateClaim_def Let_def res_pending_def)
    have "res_onGranted ?s1 a = Some f" using rel t by (simp add: res_rel_def res_put_def)
    moreover have "map_of w a = None" using d(1) by (simp add: map_of_eq_None_iff)
    moreover have "turn_event t = t\<lparr>holder := Some a, waiting := w, scheduled := False, granted := granted t @ [(a, f)]\<rparr>"
      using t True by (simp add: turn_event_def)
    ultimately show ?thesis unfolding r using rel t d pop(2,3) True
      by (auto simp: res_does_def res_ClaimGranted_def res_call_onGranted_def res_rel_def res_rel0_def res_defs fun_eq_iff)
  qed
qed

lemma res_do_does:
  assumes rel: "res_rel e s t" and ok: "turn_allowed e c t"
  shows "case turn_do c t of Inl x \<Rightarrow> res_do c s = Inl x | Inr t' \<Rightarrow> res_does e (res_do c s) t'"
proof (cases c)
  case (NewClaimer a)
  then show ?thesis using res_make_claimer_does [OF rel] ok by simp
next
  case (DoClaim a f)
  then show ?thesis using res_onGranted_None [OF rel, of a] res_add_rel [OF rel, of a False f] ok
    by (cases "a \<in> fst ` set (waiting t)") (auto simp: res_Claim_def res_does_def checked_def)
next
  case (DoClaimUrgent a f)
  then show ?thesis using res_onGranted_None [OF rel, of a] res_add_rel [OF rel, of a True f] ok
    by (cases "a \<in> fst ` set (waiting t)") (auto simp: res_ClaimUrgent_def res_does_def checked_def)
next
  case (DoRelease a)
  then show ?thesis using res_Release_does [OF rel] ok by simp
next
  case (MakeMove a b)
  then show ?thesis using res_make_move_does [OF rel] ok by simp
next
  case (MoveAssign a b)
  then show ?thesis using res_move_assign_does [OF rel] ok by simp
next
  case (DestroyClaimer a)
  then show ?thesis using res_destroy_claimer_does [OF rel] ok by simp
next
  case Dispatch
  then show ?thesis using res_dispatch_does [OF rel] by simp
qed

lemma res_dos_does:
  "res_rel e s t \<Longrightarrow> turn_alloweds e cs t \<Longrightarrow>
   case turn_dos cs t of Inl x \<Rightarrow> res_dos cs s = Inl x | Inr t' \<Rightarrow> res_does e (res_dos cs s) t'"
proof (induction cs arbitrary: s t)
  case Nil
  then show ?case by (simp add: res_does_def)
next
  case (Cons c cs)
  then have c: "turn_allowed e c t" by simp
  show ?case
  proof (cases "turn_do c t")
    case (Inl x)
    then show ?thesis using res_do_does [OF Cons.prems(1) c] by simp
  next
    case (Inr t')
    then obtain s' where "res_do c s = Inr s'" "res_rel e s' t'" using res_do_does [OF Cons.prems(1) c] by (auto simp: res_does_def)
    then show ?thesis using Cons.IH [of s' t'] Cons.prems(2) Inr by (cases "turn_dos cs t'") simp_all
  qed
qed

lemma res_rel_answers:
  assumes "res_rel e s t"
  shows "res_IsClaimed a s \<longleftrightarrow> holder t = Some a" and "res_IsQueued a s \<longleftrightarrow> a \<in> fst ` set (waiting t)"
    and "res_ClaimsPending s \<longleftrightarrow> waiting t \<noteq> []" and "res_called s = granted t" and "res_events s = (if scheduled t then 1 else 0)"
    and "res_destroy s = checked (holder t = None \<and> waiting t = []) (Inr ())"
proof -
  have f: "res_isGranted s = (\<lambda>a. holder t = Some a)" "res_isQueued s = (\<lambda>a. a \<in> fst ` set (waiting t))" "res_currentClaim s = holder t"
      "res_called s = granted t" "res_events s = (if scheduled t then 1 else 0)" "il_empty (res_pendingClaims s) \<longleftrightarrow> waiting t = []"
    using assms res_rel0_empty [of e s t] by (simp_all add: res_rel_def res_rel0_def)
  show "res_IsClaimed a s \<longleftrightarrow> holder t = Some a" "res_IsQueued a s \<longleftrightarrow> a \<in> fst ` set (waiting t)"
    "res_ClaimsPending s \<longleftrightarrow> waiting t \<noteq> []" "res_called s = granted t" "res_events s = (if scheduled t then 1 else 0)"
    "res_destroy s = checked (holder t = None \<and> waiting t = []) (Inr ())"
    unfolding res_IsClaimed_def res_IsQueued_def res_ClaimsPending_def res_destroy_def checked_def f by simp_all
qed

text \<open>
  C8. Whatever a program does with a resource and its claimers - claims, urgent claims, releases, moving and destroying claimers, events - an assertion
  fails exactly when a claimer claims that is waiting already, and otherwise everything succeeds. At most one claimer has the resource, the
  claimers that wait are those that claimed and neither were granted it nor withdrew, urgent ones first,
  and the functions are called in that order, each once.
\<close>

theorem ClaimableResource_grants_in_turn:
  assumes "turn_alloweds e cs turn_new"
  shows "case turn_dos cs turn_new of
      Inl x \<Rightarrow> res_dos cs (res_make e) = Inl x \<and> x = AssertFailed
    | Inr t \<Rightarrow> \<exists>s. res_dos cs (res_make e) = Inr s \<and> (res_IsClaimed a s \<longleftrightarrow> holder t = Some a)
        \<and> (res_IsQueued a s \<longleftrightarrow> a \<in> fst ` set (waiting t)) \<and> (res_ClaimsPending s \<longleftrightarrow> waiting t \<noteq> [])
        \<and> res_called s = granted t \<and> res_destroy s = checked (holder t = None \<and> waiting t = []) (Inr ())"
proof (cases "turn_dos cs turn_new")
  case (Inl x)
  have "x = AssertFailed" if "turn_dos ds t = Inl x" for ds and t :: "'a turn"
    using that
  proof (induction ds arbitrary: t)
    case (Cons d ds)
    then show ?case by (cases d) (auto simp: checked_def split: if_splits)
  qed simp
  then show ?thesis using res_dos_does [OF res_make_rel assms] Inl by simp
next
  case (Inr t)
  then obtain s where "res_dos cs (res_make e) = Inr s" "res_rel e s t"
    using res_dos_does [OF res_make_rel assms] by (auto simp: res_does_def)
  then show ?thesis using Inr res_rel_answers [of e s t] by simp
qed

lemma ClaimableResource_grants_in_turn_witness:
  "\<exists>s. res_dos [NewClaimer 1, NewClaimer 2, DoClaim 1 ''a'', DoClaim 2 ''b'', Dispatch, DoClaimUrgent 1 ''c'', MakeMove 3 1, DoRelease 3, Dispatch] (res_make 0) = Inr s
     \<and> res_called s = [(1, ''a''), (3, ''c'')] \<and> res_IsClaimed 3 s"
  using ClaimableResource_grants_in_turn [of 0 "[NewClaimer 1, NewClaimer 2, DoClaim 1 ''a'', DoClaim 2 ''b'', Dispatch, DoClaimUrgent 1 ''c'', MakeMove 3 1, DoRelease 3, Dispatch]" 3]
  by (auto simp: turn_new_def turn_has_def turn_claim_def turn_event_def turn_rename_def turn_release_def turn_free_def)

text \<open>Releasing the resource and running the event.\<close>

definition res_round :: "'f claimable \<Rightarrow> 'f claimable result" where
  "res_round s = bindR (case res_currentClaim s of None \<Rightarrow> Inr s | Some a \<Rightarrow> res_Release a s) res_dispatch"

fun res_rounds :: "nat \<Rightarrow> 'f claimable \<Rightarrow> 'f claimable result" where
  "res_rounds 0 s = Inr s"
| "res_rounds (Suc n) s = bindR (res_round s) (res_rounds n)"

lemma res_round_does:
  assumes rel: "res_rel e s t" and w: "waiting t = c # cs"
  shows "\<exists>s' t'. res_round s = Inr s' \<and> res_rel e s' t' \<and> waiting t' = cs \<and> holder t' = Some (fst c) \<and> granted t' = granted t @ [c]"
proof (cases "holder t")
  case None
  then have "scheduled t" "res_currentClaim s = None" using rel w by (auto simp: res_rel_def res_rel0_def)
  moreover obtain s' where "res_dispatch s = Inr s'" "res_rel e s' (turn_event t)" using res_dispatch_does [OF rel] by (auto simp: res_does_def)
  ultimately show ?thesis using None w by (intro exI [of _ s'] exI [of _ "turn_event t"]) (simp add: res_round_def turn_event_def)
next
  case (Some a)
  then have "res_currentClaim s = Some a" "a \<noteq> e" using rel by (auto simp: res_rel_def res_rel0_def)
  moreover obtain s1 where "res_Release a s = Inr s1" "res_rel e s1 (turn_free t)"
    using res_Release_does [OF rel \<open>a \<noteq> e\<close>] Some by (auto simp: res_does_def turn_release_def)
  moreover obtain s' where "res_dispatch s1 = Inr s'" "res_rel e s' (turn_event (turn_free t))"
    using res_dispatch_does [OF \<open>res_rel e s1 (turn_free t)\<close>] by (auto simp: res_does_def)
  ultimately show ?thesis using w
    by (intro exI [of _ s'] exI [of _ "turn_event (turn_free t)"]) (simp add: res_round_def turn_event_def turn_free_def)
qed

lemma res_rounds_does:
  "res_rel e s t \<Longrightarrow> waiting t = cs @ ds \<Longrightarrow>
   \<exists>s' t'. res_rounds (length cs) s = Inr s' \<and> res_rel e s' t' \<and> waiting t' = ds \<and> granted t' = granted t @ cs \<and> (cs = [] \<or> holder t' = Some (fst (last cs)))"
proof (induction cs arbitrary: s t)
  case (Cons c cs)
  obtain s1 t1 where 1: "res_round s = Inr s1" "res_rel e s1 t1" "waiting t1 = cs @ ds" "holder t1 = Some (fst c)" "granted t1 = granted t @ [c]"
    using res_round_does [OF Cons.prems(1), of c "cs @ ds"] Cons.prems(2) by auto
  obtain s2 t2 where 2: "res_rounds (length cs) s1 = Inr s2" "res_rel e s2 t2" "waiting t2 = ds" "granted t2 = granted t1 @ cs" "cs = [] \<or> holder t2 = Some (fst (last cs))"
    using Cons.IH [OF 1(2,3)] by auto
  then have "cs = [] \<Longrightarrow> s2 = s1" by simp
  show ?case
  proof (cases "cs = []")
    case True
    then show ?thesis using 1 Cons.prems by auto
  next
    case False
    then show ?thesis using 1(1,5) 2 by auto
  qed
qed auto

text \<open>
  C9. A claim is granted in its turn: after any program, a claimer with \<open>n\<close> claims before it has the resource once it has been released
  and its event has run \<open>n + 1\<close> times, and the functions of the claims before it were called before its own.
\<close>

theorem ClaimableResource_claim_is_granted:
  assumes "turn_alloweds e cs turn_new" and "turn_dos cs turn_new = Inr t" and "waiting t = before @ (a, f) # after"
  shows "\<exists>s s'. res_dos cs (res_make e) = Inr s \<and> res_rounds (Suc (length before)) s = Inr s'
    \<and> res_IsClaimed a s' \<and> res_called s' = res_called s @ before @ [(a, f)]"
proof -
  obtain s where s: "res_dos cs (res_make e) = Inr s" "res_rel e s t"
    using res_dos_does [OF res_make_rel assms(1)] assms(2) by (auto simp: res_does_def)
  obtain s' t' where "res_rounds (length (before @ [(a, f)])) s = Inr s'" "res_rel e s' t'" "granted t' = granted t @ before @ [(a, f)]" "holder t' = Some a"
    using res_rounds_does [OF s(2), of "before @ [(a, f)]" after] assms(3) by auto
  then show ?thesis using s res_rel_answers(1) [of e s' t' a] res_rel_answers(4) [OF s(2)] res_rel_answers(4) [of e s' t'] by auto
qed

lemma ClaimableResource_claim_is_granted_witness:
  "\<exists>s s'. res_dos [NewClaimer 1, NewClaimer 2, DoClaim 1 ''a'', Dispatch, DoClaim 1 ''c'', DoClaim 2 ''b''] (res_make 0) = Inr s
     \<and> res_rounds 2 s = Inr s' \<and> res_IsClaimed 2 s' \<and> res_called s' = res_called s @ [(1, ''c''), (2, ''b'')]"
proof -
  let ?cs = "[NewClaimer 1, NewClaimer 2, DoClaim 1 ''a'', Dispatch, DoClaim 1 ''c'', DoClaim 2 ''b'']"
  let ?t = "\<lparr>holder = Some 1, waiting = [(1, ''c''), (2, ''b'')], scheduled = False, granted = [(1, ''a'')]\<rparr>"
  have "turn_alloweds 0 ?cs turn_new" "turn_dos ?cs turn_new = Inr ?t" "waiting ?t = [(1, ''c'')] @ (2, ''b'') # []"
    by (simp_all add: turn_new_def turn_has_def turn_claim_def turn_event_def)
  from ClaimableResource_claim_is_granted [OF this] show ?thesis by (simp add: numeral_2_eq_2)
qed

end
