(* ===== verification/Event_Dispatcher.thy ===== *)
theory Event_Dispatcher
  imports Prelude
begin

section \<open>The queue of the event dispatcher\<close>

text \<open>
  \<^verbatim>\<open>infra::EventDispatcherWorkerImpl\<close> (infra/event/EventDispatcher.hpp, .cpp): the circular queue of actions that the event loop runs. Any number of threads and
  interrupts add actions at the same time, without a lock; one worker takes them. The model is a step relation: each
  access of \<^verbatim>\<open>Schedule\<close> to the shared variables is a step of the thread that calls it, each access of \<^verbatim>\<open>ExecuteFirstAction\<close> is a step of
  the worker, and the steps of all of them come in any order. An interrupt that calls \<^verbatim>\<open>Schedule\<close> is a thread whose steps come in one go.
\<close>

subsection \<open>The dispatcher and where its threads are\<close>

text \<open>
  In \<^verbatim>\<open>Schedule\<close> a thread has read the push index and is about to exchange it, to store the action, to check the mark of the slot, to
  set it, or to update the minimum of the capacity. The worker has found the mark of the first slot set, runs the action, has
  reset the action, or has reset the mark.
\<close>

datatype 'a scheduling = NotScheduling | Exchanging nat 'a | Storing nat 'a | Checking nat | Marking nat | Measuring nat
datatype 'a working = Waiting | Found | Running 'a | ResetAction | ResetMark

text \<open>
  A slot is an action and its mark; the empty function is \<open>None\<close>. The last three fields are history: the actions in the
  order in which their slots were reserved, those that the worker has called, and how often it went on to the next slot. No step reads them.
\<close>

record 'a dispatcher =
  ed_scheduledActions :: "('a option \<times> bool) list"
  ed_pushIndex :: nat
  ed_popIndex :: nat
  ed_minCapacity :: nat
  ed_schedulers :: "nat \<Rightarrow> 'a scheduling"
  ed_worker :: "'a working"
  ed_fault :: "fault option"
  ed_reserved :: "'a list"
  ed_executed :: "'a list"
  ed_popped :: nat

definition ed_make :: "('a option \<times> bool) list \<Rightarrow> 'a dispatcher" where
  "ed_make storage = \<lparr>ed_scheduledActions = map (\<lambda>slot. (fst slot, False)) storage, ed_pushIndex = 0, ed_popIndex = 0,
     ed_minCapacity = length storage, ed_schedulers = (\<lambda>_. NotScheduling), ed_worker = Waiting, ed_fault = None,
     ed_reserved = [], ed_executed = [], ed_popped = 0\<rparr>"

abbreviation ed_N :: "'a dispatcher \<Rightarrow> nat" where
  "ed_N s \<equiv> length (ed_scheduledActions s)"

abbreviation ed_action :: "'a dispatcher \<Rightarrow> nat \<Rightarrow> 'a option" where
  "ed_action s i \<equiv> fst (ed_scheduledActions s ! i)"

abbreviation ed_mark :: "'a dispatcher \<Rightarrow> nat \<Rightarrow> bool" where
  "ed_mark s i \<equiv> snd (ed_scheduledActions s ! i)"

definition ed_set_action :: "nat \<Rightarrow> 'a option \<Rightarrow> 'a dispatcher \<Rightarrow> 'a dispatcher" where
  "ed_set_action i f s = s\<lparr>ed_scheduledActions := (ed_scheduledActions s)[i := (f, ed_mark s i)]\<rparr>"

definition ed_set_mark :: "nat \<Rightarrow> bool \<Rightarrow> 'a dispatcher \<Rightarrow> 'a dispatcher" where
  "ed_set_mark i b s = s\<lparr>ed_scheduledActions := (ed_scheduledActions s)[i := (ed_action s i, b)]\<rparr>"

definition ed_goto :: "nat \<Rightarrow> 'a scheduling \<Rightarrow> 'a dispatcher \<Rightarrow> 'a dispatcher" where
  "ed_goto t pc s = s\<lparr>ed_schedulers := (ed_schedulers s)(t := pc)\<rparr>"

subsection \<open>Steps\<close>

text \<open>A thread enters \<^verbatim>\<open>Schedule\<close> and reads the push index.\<close>

definition ed_Schedule_begin :: "nat \<Rightarrow> 'a \<Rightarrow> 'a dispatcher \<Rightarrow> 'a dispatcher" where
  "ed_Schedule_begin t action s = ed_goto t (Exchanging (ed_pushIndex s) action) s"

text \<open>\<^verbatim>\<open>compare_exchange_weak\<close> may fail for no reason; it then reads the index again.\<close>

definition ed_Schedule_spurious :: "nat \<Rightarrow> 'a dispatcher \<Rightarrow> 'a dispatcher" where
  "ed_Schedule_spurious t s = (case ed_schedulers s t of
       Exchanging pushIndex action \<Rightarrow> ed_goto t (Exchanging (ed_pushIndex s) action) s
     | _ \<Rightarrow> s)"

definition ed_Schedule_step :: "nat \<Rightarrow> 'a dispatcher \<Rightarrow> 'a dispatcher" where
  "ed_Schedule_step t s = (case ed_schedulers s t of
       NotScheduling \<Rightarrow> s
     | Exchanging pushIndex action \<Rightarrow>
         if ed_pushIndex s = pushIndex
         then ed_goto t (Storing pushIndex action)
                (s\<lparr>ed_pushIndex := (pushIndex + 1) mod 2 ^ 32 mod ed_N s, ed_reserved := ed_reserved s @ [action]\<rparr>)
         else ed_goto t (Exchanging (ed_pushIndex s) action) s
     | Storing pushIndex action \<Rightarrow> ed_goto t (Checking pushIndex) (ed_set_action pushIndex (Some action) s)
     | Checking pushIndex \<Rightarrow>
         if ed_mark s pushIndex then s\<lparr>ed_fault := Some AssertFailed\<rparr> else ed_goto t (Marking pushIndex) s
     | Marking pushIndex \<Rightarrow> ed_goto t (Measuring pushIndex) (ed_set_mark pushIndex True s)
     | Measuring pushIndex \<Rightarrow>
         let capacity = min (ed_minCapacity s) ((ed_N s + ed_popIndex s - pushIndex - 1) mod ed_N s + 1);
             s1 = s\<lparr>ed_minCapacity := capacity\<rparr>
         in if 1 \<le> capacity then ed_goto t NotScheduling s1 else s1\<lparr>ed_fault := Some AssertFailed\<rparr>)"

text \<open>
  The worker takes the first action and calls it; the resets happen when it returns, and also when it ends by an exception. Calling an empty function aborts.
\<close>

definition ed_Execute_step :: "'a dispatcher \<Rightarrow> 'a dispatcher" where
  "ed_Execute_step s = (case ed_worker s of
       Waiting \<Rightarrow> if ed_mark s (ed_popIndex s) then s\<lparr>ed_worker := Found\<rparr> else s
     | Found \<Rightarrow> (case ed_action s (ed_popIndex s) of
           None \<Rightarrow> s\<lparr>ed_fault := Some Aborted\<rparr>
         | Some action \<Rightarrow> s\<lparr>ed_worker := Running action, ed_executed := ed_executed s @ [action]\<rparr>)
     | Running action \<Rightarrow> ed_set_action (ed_popIndex s) None (s\<lparr>ed_worker := ResetAction\<rparr>)
     | ResetAction \<Rightarrow> ed_set_mark (ed_popIndex s) False (s\<lparr>ed_worker := ResetMark\<rparr>)
     | ResetMark \<Rightarrow> s\<lparr>ed_worker := Waiting, ed_popIndex := (ed_popIndex s + 1) mod 2 ^ 32 mod ed_N s, ed_popped := ed_popped s + 1\<rparr>)"

definition ed_IsIdle :: "'a dispatcher \<Rightarrow> bool" where
  "ed_IsIdle s \<longleftrightarrow> \<not> ed_mark s (ed_popIndex s)"

definition ed_MinCapacity :: "'a dispatcher \<Rightarrow> nat" where
  "ed_MinCapacity s = ed_minCapacity s"

inductive ed_step :: "'a dispatcher \<Rightarrow> 'a dispatcher \<Rightarrow> bool" where
  enter: "ed_fault s = None \<Longrightarrow> ed_schedulers s t = NotScheduling \<Longrightarrow> ed_step s (ed_Schedule_begin t action s)"
| spurious: "ed_fault s = None \<Longrightarrow> ed_step s (ed_Schedule_spurious t s)"
| schedule: "ed_fault s = None \<Longrightarrow> ed_step s (ed_Schedule_step t s)"
| execute: "ed_fault s = None \<Longrightarrow> ed_step s (ed_Execute_step s)"

inductive_cases ed_stepE: "ed_step s s'"

text \<open>
  The states that are reached while there is room: no thread reserves a slot when as many actions as there are slots are still in the queue.
\<close>

definition ed_room :: "'a dispatcher \<Rightarrow> bool" where
  "ed_room s \<longleftrightarrow> length (ed_reserved s) \<le> ed_popped s + ed_N s"

inductive ed_reached :: "('a option \<times> bool) list \<Rightarrow> 'a dispatcher \<Rightarrow> bool" for storage where
  start: "ed_reached storage (ed_make storage)"
| step: "ed_reached storage s \<Longrightarrow> ed_step s s' \<Longrightarrow> ed_room s' \<Longrightarrow> ed_reached storage s'"

text \<open>\<^verbatim>\<open>ExecuteAllActions\<close> while nothing is scheduled: steps of the worker until it finds no action. The number of steps is the fuel.\<close>

fun ed_ExecuteAllActions :: "nat \<Rightarrow> 'a dispatcher \<Rightarrow> 'a dispatcher result" where
  "ed_ExecuteAllActions 0 s = Inl OutOfFuel"
| "ed_ExecuteAllActions (Suc k) s =
     (case ed_fault s of
        Some e \<Rightarrow> Inl e
      | None \<Rightarrow> if ed_worker s = Waiting \<and> ed_IsIdle s then Inr s else ed_ExecuteAllActions k (ed_Execute_step s))"

subsection \<open>What holds in every state that is reached\<close>

fun ed_owns :: "'a scheduling \<Rightarrow> nat option" where
  "ed_owns (Storing i a) = Some i"
| "ed_owns (Checking i) = Some i"
| "ed_owns (Marking i) = Some i"
| "ed_owns _ = None"

text \<open>The action a thread brings to its slot, when the slot holds \<open>f\<close>.\<close>

fun ed_brings :: "'a scheduling \<Rightarrow> 'a option \<Rightarrow> 'a \<Rightarrow> bool" where
  "ed_brings (Storing i a) f x \<longleftrightarrow> a = x"
| "ed_brings _ f x \<longleftrightarrow> f = Some x"

text \<open>
  The tickets \<open>k\<close> with \<open>D \<le> k < R\<close> are the reservations that are in the queue; ticket \<open>k\<close> has the slot \<open>k mod N\<close>. Its slot either is being
  filled by one thread, or holds its action with the mark set, or is being emptied by the worker.
\<close>

definition ed_filling :: "'a dispatcher \<Rightarrow> nat \<Rightarrow> nat \<Rightarrow> bool" where
  "ed_filling s t k \<longleftrightarrow> ed_owns (ed_schedulers s t) = Some (k mod ed_N s) \<and> \<not> ed_mark s (k mod ed_N s)
     \<and> ed_brings (ed_schedulers s t) (ed_action s (k mod ed_N s)) (ed_reserved s ! k)"

definition ed_filled :: "'a dispatcher \<Rightarrow> nat \<Rightarrow> bool" where
  "ed_filled s k \<longleftrightarrow> ed_mark s (k mod ed_N s) \<and> (ed_action s (k mod ed_N s) = Some (ed_reserved s ! k) \<or> k = ed_popped s \<and> ed_worker s = ResetAction)"

definition ed_window :: "'a dispatcher \<Rightarrow> nat set" where
  "ed_window s = {ed_popped s ..< length (ed_reserved s)}"

fun ed_calls :: "'a working \<Rightarrow> nat" where
  "ed_calls Waiting = 0"
| "ed_calls Found = 0"
| "ed_calls _ = 1"

definition ed_at_worker :: "'a dispatcher \<Rightarrow> bool" where
  "ed_at_worker s \<longleftrightarrow> ed_executed s = take (ed_popped s + ed_calls (ed_worker s)) (ed_reserved s)
     \<and> (ed_worker s \<noteq> Waiting \<longrightarrow> ed_popped s \<in> ed_window s \<and> ed_mark s (ed_popped s mod ed_N s) = (ed_worker s \<noteq> ResetMark))
     \<and> (ed_worker s = ResetMark \<longrightarrow> (\<forall>t. ed_owns (ed_schedulers s t) \<noteq> Some (ed_popped s mod ed_N s)))"

text \<open>No two threads own the same slot.\<close>

definition ed_apart :: "(nat \<Rightarrow> 'a scheduling) \<Rightarrow> bool" where
  "ed_apart pcs \<longleftrightarrow> (\<forall>t u i. ed_owns (pcs t) = Some i \<longrightarrow> ed_owns (pcs u) = Some i \<longrightarrow> t = u)"

definition ed_inv :: "'a dispatcher \<Rightarrow> bool" where
  "ed_inv s \<longleftrightarrow> 0 < ed_N s \<and> ed_N s \<le> 2 ^ 32 \<and> ed_fault s = None \<and> 1 \<le> ed_minCapacity s
     \<and> ed_pushIndex s = length (ed_reserved s) mod ed_N s \<and> ed_popIndex s = ed_popped s mod ed_N s
     \<and> ed_popped s \<le> length (ed_reserved s) \<and> ed_room s
     \<and> ed_apart (ed_schedulers s)
     \<and> (\<forall>t. ed_owns (ed_schedulers s t) \<noteq> None \<longrightarrow> (\<exists>k \<in> ed_window s. ed_filling s t k))
     \<and> (\<forall>k \<in> ed_window s. (\<exists>t. ed_filling s t k) \<or> ed_filled s k \<or> k = ed_popped s \<and> ed_worker s = ResetMark)
     \<and> (\<forall>i < ed_N s. ed_mark s i \<longrightarrow> (\<exists>k \<in> ed_window s. i = k mod ed_N s))
     \<and> ed_at_worker s"

lemma ed_goto_fields [simp]:
  "ed_scheduledActions (ed_goto t pc s) = ed_scheduledActions s" "ed_pushIndex (ed_goto t pc s) = ed_pushIndex s"
  "ed_popIndex (ed_goto t pc s) = ed_popIndex s" "ed_minCapacity (ed_goto t pc s) = ed_minCapacity s"
  "ed_schedulers (ed_goto t pc s) = (ed_schedulers s)(t := pc)" "ed_worker (ed_goto t pc s) = ed_worker s"
  "ed_fault (ed_goto t pc s) = ed_fault s" "ed_reserved (ed_goto t pc s) = ed_reserved s"
  "ed_executed (ed_goto t pc s) = ed_executed s" "ed_popped (ed_goto t pc s) = ed_popped s"
  by (simp_all add: ed_goto_def)

lemma ed_set_fields [simp]:
  "ed_pushIndex (ed_set_action i f s) = ed_pushIndex s" "ed_popIndex (ed_set_action i f s) = ed_popIndex s"
  "ed_minCapacity (ed_set_action i f s) = ed_minCapacity s" "ed_schedulers (ed_set_action i f s) = ed_schedulers s"
  "ed_worker (ed_set_action i f s) = ed_worker s" "ed_fault (ed_set_action i f s) = ed_fault s"
  "ed_reserved (ed_set_action i f s) = ed_reserved s" "ed_executed (ed_set_action i f s) = ed_executed s"
  "ed_popped (ed_set_action i f s) = ed_popped s" "ed_N (ed_set_action i f s) = ed_N s"
  "ed_pushIndex (ed_set_mark i b s) = ed_pushIndex s" "ed_popIndex (ed_set_mark i b s) = ed_popIndex s"
  "ed_minCapacity (ed_set_mark i b s) = ed_minCapacity s" "ed_schedulers (ed_set_mark i b s) = ed_schedulers s"
  "ed_worker (ed_set_mark i b s) = ed_worker s" "ed_fault (ed_set_mark i b s) = ed_fault s"
  "ed_reserved (ed_set_mark i b s) = ed_reserved s" "ed_executed (ed_set_mark i b s) = ed_executed s"
  "ed_popped (ed_set_mark i b s) = ed_popped s" "ed_N (ed_set_mark i b s) = ed_N s"
  by (simp_all add: ed_set_action_def ed_set_mark_def)

lemma ed_set_slots [simp]:
  "i < ed_N s \<Longrightarrow> ed_action (ed_set_action i f s) j = (if j = i then f else ed_action s j)"
  "i < ed_N s \<Longrightarrow> ed_mark (ed_set_action i f s) j = ed_mark s j"
  "i < ed_N s \<Longrightarrow> ed_action (ed_set_mark i b s) j = ed_action s j"
  "i < ed_N s \<Longrightarrow> ed_mark (ed_set_mark i b s) j = (if j = i then b else ed_mark s j)"
  by (auto simp: ed_set_action_def ed_set_mark_def nth_list_update)

lemma ed_inv_facts:
  assumes "ed_inv s"
  shows ed_inv_N: "0 < ed_N s" "ed_N s \<le> 2 ^ 32" and ed_inv_fault: "ed_fault s = None" and ed_inv_capacity: "1 \<le> ed_minCapacity s"
    and ed_inv_push: "ed_pushIndex s = length (ed_reserved s) mod ed_N s" and ed_inv_pop: "ed_popIndex s = ed_popped s mod ed_N s"
    and ed_inv_popped: "ed_popped s \<le> length (ed_reserved s)" and ed_inv_room: "ed_room s" and ed_inv_worker: "ed_at_worker s"
  using assms unfolding ed_inv_def by simp_all

lemma ed_inv_one:
  "ed_inv s \<Longrightarrow> ed_owns (ed_schedulers s t) = Some i \<Longrightarrow> ed_owns (ed_schedulers s u) = Some i \<Longrightarrow> t = u"
  unfolding ed_inv_def ed_apart_def by blast

lemma ed_inv_own: "ed_inv s \<Longrightarrow> ed_owns (ed_schedulers s t) = Some i \<Longrightarrow> \<exists>k \<in> ed_window s. ed_filling s t k"
  unfolding ed_inv_def by simp

lemma ed_inv_slot: "ed_inv s \<Longrightarrow> k \<in> ed_window s \<Longrightarrow> (\<exists>t. ed_filling s t k) \<or> ed_filled s k \<or> k = ed_popped s \<and> ed_worker s = ResetMark"
  unfolding ed_inv_def by blast

lemma ed_inv_mark: "ed_inv s \<Longrightarrow> j < ed_N s \<Longrightarrow> ed_mark s j \<Longrightarrow> \<exists>k \<in> ed_window s. j = k mod ed_N s"
  unfolding ed_inv_def by blast

lemma ed_window_inj:
  assumes "ed_room s" and "k \<in> ed_window s" and "j \<in> ed_window s" and "k mod ed_N s = j mod ed_N s"
  shows "k = j"
proof -
  have "int (ed_N s) dvd int k - int j" using assms(4) by (metis mod_eq_dvd_iff zmod_int)
  moreover have "\<bar>int k - int j\<bar> < int (ed_N s)" using assms(1-3) by (auto simp: ed_room_def ed_window_def)
  ultimately show ?thesis using dvd_imp_le_int [of "int k - int j" "int (ed_N s)"] by fastforce
qed

lemma ed_filling_owns: "ed_filling s t k \<Longrightarrow> ed_owns (ed_schedulers s t) = Some (k mod ed_N s)"
  by (simp add: ed_filling_def)

lemma ed_inv_filling:
  assumes "ed_inv s" and "ed_owns (ed_schedulers s t) = Some i"
  obtains k where "k \<in> ed_window s" "i = k mod ed_N s" "ed_filling s t k"
  using ed_inv_own [OF assms] assms(2) by (auto simp: ed_filling_def)

text \<open>A step of a thread that owns no slot before and after.\<close>

lemma ed_goto_unowned:
  assumes inv: "ed_inv s" and "ed_owns (ed_schedulers s t) = None" and "ed_owns pc = None"
  shows "ed_inv (ed_goto t pc s)"
proof -
  have o: "ed_owns (ed_schedulers (ed_goto t pc s) u) = ed_owns (ed_schedulers s u)" for u using assms by simp
  have f: "ed_filling (ed_goto t pc s) u k = ed_filling s u k" for u k using assms by (auto simp: ed_filling_def)
  have w: "ed_at_worker (ed_goto t pc s) = ed_at_worker s" unfolding ed_at_worker_def o by (simp add: ed_window_def)
  have a: "ed_apart (ed_schedulers (ed_goto t pc s)) = ed_apart (ed_schedulers s)" unfolding ed_apart_def o ..
  show ?thesis using inv unfolding ed_inv_def o f w a by (simp add: ed_window_def ed_filled_def ed_room_def)
qed

lemma ed_capacity_inv: "ed_inv s \<Longrightarrow> 1 \<le> c \<Longrightarrow> ed_inv (s\<lparr>ed_minCapacity := c\<rparr>)"
  by (simp add: ed_inv_def ed_window_def ed_filled_def ed_filling_def ed_room_def ed_at_worker_def cong: conj_cong)

lemma ed_fillingI:
  "ed_owns (ed_schedulers s t) = Some (k mod ed_N s) \<Longrightarrow> \<not> ed_mark s (k mod ed_N s) \<Longrightarrow>
   ed_brings (ed_schedulers s t) (ed_action s (k mod ed_N s)) (ed_reserved s ! k) \<Longrightarrow> ed_filling s t k"
  by (simp add: ed_filling_def)

lemma Suc_mod_index: "n \<le> 2 ^ 32 \<Longrightarrow> 0 < n \<Longrightarrow> (k mod n + 1) mod 2 ^ 32 mod n = Suc k mod (n :: nat)"
proof -
  assume n: "n \<le> 2 ^ 32" "0 < n"
  have "k mod n + 1 \<le> n" using n by (simp add: Suc_leI)
  show ?thesis
  proof (cases "k mod n + 1 = 2 ^ 32")
    case True
    then have "n = 2 ^ 32" using n \<open>k mod n + 1 \<le> n\<close> by linarith
    then show ?thesis using True by (metis Suc_eq_plus1 mod_Suc_eq mod_mod_trivial)
  next
    case False
    then have "(k mod n + 1) mod 2 ^ 32 = k mod n + 1" using n \<open>k mod n + 1 \<le> n\<close> by (intro mod_less) linarith
    then show ?thesis by (simp add: mod_Suc_eq)
  qed
qed

text \<open>A slot is reserved.\<close>

lemma ed_reserve_inv:
  assumes inv: "ed_inv s" and pc: "ed_schedulers s t = Exchanging p a" and room: "Suc (length (ed_reserved s)) \<le> ed_popped s + ed_N s"
  shows "ed_inv (ed_goto t (Storing (ed_pushIndex s) a)
           (s\<lparr>ed_pushIndex := (ed_pushIndex s + 1) mod 2 ^ 32 mod ed_N s, ed_reserved := ed_reserved s @ [a]\<rparr>))" (is "ed_inv ?s")
proof -
  let ?R = "length (ed_reserved s)" and ?D = "ed_popped s"
  note facts = ed_inv_facts [OF inv]
  have win: "ed_window ?s = insert ?R (ed_window s)" using ed_inv_popped [OF inv] by (auto simp: ed_window_def)
  have new: "?R mod ed_N s \<noteq> k mod ed_N s" if "k \<in> ed_window s" for k
  proof
    assume "?R mod ed_N s = k mod ed_N s"
    then have "?R = k" using ed_window_inj [of ?s ?R k] that room win by (simp add: ed_room_def)
    then show False using that by (simp add: ed_window_def)
  qed
  have unmarked: "\<not> ed_mark s (?R mod ed_N s)" using ed_inv_mark [OF inv, of "?R mod ed_N s"] new ed_inv_N [OF inv] by auto
  have unowned: "ed_owns (ed_schedulers s u) \<noteq> Some (?R mod ed_N s)" for u
    using ed_inv_filling [OF inv, of u "?R mod ed_N s"] new by metis
  have old: "ed_filling ?s u k \<longleftrightarrow> ed_filling s u k" if "k \<in> ed_window s" "u \<noteq> t" for u k
    using that by (simp add: ed_filling_def ed_window_def nth_append)
  have t_old: "\<not> ed_filling s t k" for k using pc by (simp add: ed_filling_def)
  have t_new: "ed_filling ?s t ?R" using unmarked ed_inv_push [OF inv] by (auto intro!: ed_fillingI)
  have filled: "ed_filled ?s k \<longleftrightarrow> ed_filled s k" if "k \<in> ed_window s" for k
    using that by (simp add: ed_filled_def ed_window_def nth_append)
  have one: "ed_apart (ed_schedulers ?s)"
    using unowned ed_inv_one [OF inv] ed_inv_push [OF inv] by (auto simp: ed_apart_def)
  have own: "\<forall>u. ed_owns (ed_schedulers ?s u) \<noteq> None \<longrightarrow> (\<exists>k \<in> ed_window ?s. ed_filling ?s u k)"
  proof (intro allI impI)
    fix u assume u: "ed_owns (ed_schedulers ?s u) \<noteq> None"
    show "\<exists>k \<in> ed_window ?s. ed_filling ?s u k"
    proof (cases "u = t")
      case True
      then show ?thesis using t_new win by auto
    next
      case False
      then obtain i where "ed_owns (ed_schedulers s u) = Some i" using u by auto
      from ed_inv_own [OF inv this] show ?thesis using False old win by auto
    qed
  qed
  have slot: "\<forall>k \<in> ed_window ?s. (\<exists>u. ed_filling ?s u k) \<or> ed_filled ?s k \<or> k = ed_popped ?s \<and> ed_worker ?s = ResetMark"
  proof
    fix k assume k: "k \<in> ed_window ?s"
    show "(\<exists>u. ed_filling ?s u k) \<or> ed_filled ?s k \<or> k = ed_popped ?s \<and> ed_worker ?s = ResetMark"
    proof (cases "k = ?R")
      case False
      then have "k \<in> ed_window s" using k win by simp
      moreover from this have "\<exists>u. ed_filling ?s u k" if "ed_filling s u k" for u using old [of k u] t_old that by (cases "u = t") auto
      ultimately show ?thesis using ed_inv_slot [OF inv, of k] filled [of k] by auto
    qed (use t_new in blast)
  qed
  have mark: "\<forall>i < ed_N ?s. ed_mark ?s i \<longrightarrow> (\<exists>k \<in> ed_window ?s. i = k mod ed_N ?s)"
    using ed_inv_mark [OF inv] win by auto
  have "?R mod ed_N s \<noteq> ?D mod ed_N s" if "?D \<in> ed_window s" using new [OF that] .
  then have "ed_at_worker ?s" using ed_inv_worker [OF inv] ed_inv_push [OF inv] win
    by (cases "ed_worker s") (auto simp: ed_at_worker_def ed_window_def)
  moreover have "ed_room ?s" "ed_popped ?s \<le> length (ed_reserved ?s)" using room ed_inv_popped [OF inv] by (simp_all add: ed_room_def)
  moreover have "ed_pushIndex ?s = length (ed_reserved ?s) mod ed_N ?s"
    using ed_inv_push [OF inv] Suc_mod_index [of "ed_N s" ?R] ed_inv_N [OF inv] by simp
  ultimately show ?thesis using one own slot mark facts(1-4) ed_inv_pop [OF inv] unfolding ed_inv_def by simp
qed

text \<open>A step that neither reserves a slot nor frees one.\<close>

lemma ed_inv_change:
  assumes inv: "ed_inv s"
    and same: "ed_N s' = ed_N s" "ed_fault s' = None" "ed_minCapacity s' = ed_minCapacity s" "ed_pushIndex s' = ed_pushIndex s"
      "ed_popIndex s' = ed_popIndex s" "ed_reserved s' = ed_reserved s" "ed_popped s' = ed_popped s"
    and own: "\<And>u i. ed_owns (ed_schedulers s' u) = Some i \<Longrightarrow> ed_owns (ed_schedulers s u) = Some i"
    and fill: "\<And>u k. k \<in> ed_window s \<Longrightarrow> ed_filling s u k \<Longrightarrow> ed_owns (ed_schedulers s' u) \<noteq> None \<Longrightarrow> ed_filling s' u k"
    and filled: "\<And>u k. k \<in> ed_window s \<Longrightarrow> ed_filling s u k \<Longrightarrow> ed_owns (ed_schedulers s' u) = None \<Longrightarrow> ed_filled s' k"
    and keep: "\<And>k. k \<in> ed_window s \<Longrightarrow> ed_filled s k \<Longrightarrow> ed_filled s' k \<or> k = ed_popped s \<and> ed_worker s' = ResetMark"
    and reset: "ed_worker s = ResetMark \<Longrightarrow> ed_worker s' = ResetMark"
    and mark: "\<And>j. j < ed_N s \<Longrightarrow> ed_mark s' j \<Longrightarrow> \<exists>k \<in> ed_window s. j = k mod ed_N s"
    and worker: "ed_at_worker s'"
  shows "ed_inv s'"
proof -
  have win: "ed_window s' = ed_window s" and room: "ed_room s'" using same ed_inv_room [OF inv] by (simp_all add: ed_window_def ed_room_def)
  have "ed_apart (ed_schedulers s')" using own ed_inv_one [OF inv] unfolding ed_apart_def by blast
  moreover have "\<forall>t. ed_owns (ed_schedulers s' t) \<noteq> None \<longrightarrow> (\<exists>k \<in> ed_window s'. ed_filling s' t k)"
    unfolding win using own ed_inv_own [OF inv] fill by blast
  moreover have "\<forall>k \<in> ed_window s'. (\<exists>t. ed_filling s' t k) \<or> ed_filled s' k \<or> k = ed_popped s' \<and> ed_worker s' = ResetMark"
    unfolding win same using ed_inv_slot [OF inv] fill filled keep reset by metis
  moreover have "\<forall>i < ed_N s'. ed_mark s' i \<longrightarrow> (\<exists>k \<in> ed_window s'. i = k mod ed_N s')"
    unfolding win same using mark by blast
  ultimately show ?thesis using worker room ed_inv_facts [OF inv] unfolding ed_inv_def same by simp
qed

lemma ed_mod_less: "ed_inv s \<Longrightarrow> k mod ed_N s < ed_N s"
  using ed_inv_N(1) mod_less_divisor by blast

lemma ed_reset_unowned: "ed_inv s \<Longrightarrow> ed_owns (ed_schedulers s t) = Some i \<Longrightarrow> \<not> (ed_worker s = ResetMark \<and> i = ed_popped s mod ed_N s)"
  using ed_inv_worker [of s] unfolding ed_at_worker_def by blast

lemma ed_owner_filling:
  assumes inv: "ed_inv s" and t: "ed_owns (ed_schedulers s t) = Some (j mod ed_N s)" and j: "j \<in> ed_window s"
  shows "ed_filling s t j"
proof -
  obtain k where k: "k \<in> ed_window s" "j mod ed_N s = k mod ed_N s" "ed_filling s t k" using ed_inv_filling [OF inv t] .
  then have "k = j" using ed_window_inj [OF ed_inv_room [OF inv] k(1) j] by simp
  then show ?thesis using k(3) by simp
qed

lemma ed_Storing_inv:
  assumes inv: "ed_inv s" and pc: "ed_schedulers s t = Storing i a"
  shows "ed_inv (ed_goto t (Checking i) (ed_set_action i (Some a) s))"
proof -
  obtain k where k: "k \<in> ed_window s" "i = k mod ed_N s" "ed_filling s t k" using ed_inv_filling [OF inv, of t i] pc by auto
  have i: "i < ed_N s" and a: "a = ed_reserved s ! k" and m: "\<not> ed_mark s i"
    using k pc ed_mod_less [OF inv] by (simp_all add: ed_filling_def)
  have other: "u \<noteq> t \<Longrightarrow> ed_owns (ed_schedulers s u) \<noteq> Some i" for u using ed_inv_one [OF inv, of t i u] pc by auto
  have reset: "\<not> (ed_worker s = ResetMark \<and> i = ed_popped s mod ed_N s)" using ed_reset_unowned [OF inv, of t i] pc by simp
  show ?thesis
  proof (rule ed_inv_change [OF inv])
    fix u j assume u: "j \<in> ed_window s" "ed_filling s u j" "ed_owns (ed_schedulers (ed_goto t (Checking i) (ed_set_action i (Some a) s)) u) \<noteq> None"
    show "ed_filling (ed_goto t (Checking i) (ed_set_action i (Some a) s)) u j"
    proof (cases "u = t")
      case True
      then have "k mod ed_N s = j mod ed_N s" using ed_filling_owns [OF u(2)] pc k by simp
      then have "j = k" using ed_window_inj [OF ed_inv_room [OF inv] u(1) k(1)] by simp
      then show ?thesis using True u i k(2) a by (simp add: ed_filling_def)
    next
      case False
      then have "j mod ed_N s \<noteq> i" using other ed_filling_owns [OF u(2)] by auto
      then show ?thesis using False u i by (simp add: ed_filling_def)
    qed
  next
    fix u j assume "ed_filling s u j" "ed_owns (ed_schedulers (ed_goto t (Checking i) (ed_set_action i (Some a) s)) u) = None"
    then show "ed_filled (ed_goto t (Checking i) (ed_set_action i (Some a) s)) j"
      using ed_filling_owns [of s u j] by (auto split: if_splits)
  next
    show "ed_at_worker (ed_goto t (Checking i) (ed_set_action i (Some a) s))"
      using ed_inv_worker [OF inv] i reset by (auto simp: ed_at_worker_def ed_window_def)
  qed (use i m k pc ed_inv_mark [OF inv] ed_inv_fault [OF inv] in \<open>auto simp: ed_filled_def split: if_splits\<close>)
qed

lemma ed_Checking_inv:
  assumes inv: "ed_inv s" and pc: "ed_schedulers s t = Checking i"
  shows "\<not> ed_mark s i" and "ed_inv (ed_goto t (Marking i) s)"
proof -
  obtain k where k: "k \<in> ed_window s" "i = k mod ed_N s" "ed_filling s t k" using ed_inv_filling [OF inv, of t i] pc by auto
  then show "\<not> ed_mark s i" by (simp add: ed_filling_def)
  have o: "ed_owns (ed_schedulers (ed_goto t (Marking i) s) u) = ed_owns (ed_schedulers s u)" for u using pc by simp
  have f: "ed_filling (ed_goto t (Marking i) s) u k = ed_filling s u k" for u k using pc by (auto simp: ed_filling_def)
  have w: "ed_at_worker (ed_goto t (Marking i) s) = ed_at_worker s" unfolding ed_at_worker_def o by (simp add: ed_window_def)
  have a: "ed_apart (ed_schedulers (ed_goto t (Marking i) s)) = ed_apart (ed_schedulers s)" unfolding ed_apart_def o ..
  show "ed_inv (ed_goto t (Marking i) s)" using inv unfolding ed_inv_def o f w a by (simp add: ed_window_def ed_filled_def ed_room_def)
qed

lemma ed_Marking_inv:
  assumes inv: "ed_inv s" and pc: "ed_schedulers s t = Marking i"
  shows "ed_inv (ed_goto t (Measuring i) (ed_set_mark i True s))" (is "ed_inv ?s")
proof -
  obtain k where k: "k \<in> ed_window s" "i = k mod ed_N s" "ed_filling s t k" using ed_inv_filling [OF inv, of t i] pc by auto
  have i: "i < ed_N s" and m: "\<not> ed_mark s i" and f: "ed_action s i = Some (ed_reserved s ! k)"
    using k pc ed_mod_less [OF inv] by (simp_all add: ed_filling_def)
  have other: "u \<noteq> t \<Longrightarrow> ed_owns (ed_schedulers s u) \<noteq> Some i" for u using ed_inv_one [OF inv, of t i u] pc by auto
  have reset: "\<not> (ed_worker s = ResetMark \<and> i = ed_popped s mod ed_N s)" using ed_reset_unowned [OF inv, of t i] pc by simp
  show ?thesis
  proof (rule ed_inv_change [OF inv])
    fix u j assume u: "j \<in> ed_window s" "ed_filling s u j" "ed_owns (ed_schedulers ?s u) \<noteq> None"
    then have "u \<noteq> t" by auto
    then have "j mod ed_N s \<noteq> i" using other ed_filling_owns [OF u(2)] by auto
    then show "ed_filling ?s u j" using \<open>u \<noteq> t\<close> u i by (simp add: ed_filling_def)
  next
    fix u j assume u: "j \<in> ed_window s" "ed_filling s u j" "ed_owns (ed_schedulers ?s u) = None"
    then have "u = t" using ed_filling_owns [of s u j] by (auto split: if_splits)
    then have "k mod ed_N s = j mod ed_N s" using ed_filling_owns [OF u(2)] pc k by simp
    then have "j = k" using ed_window_inj [OF ed_inv_room [OF inv] u(1) k(1)] by simp
    then show "ed_filled ?s j" using i f k(2) by (simp add: ed_filled_def)
  next
    show "ed_at_worker ?s" using ed_inv_worker [OF inv] i reset pc
      by (cases "ed_worker s") (auto simp: ed_at_worker_def ed_window_def split: if_splits)
  qed (use i m k pc ed_inv_mark [OF inv] ed_inv_fault [OF inv] in \<open>auto simp: ed_filled_def split: if_splits\<close>)
qed

lemma ed_Schedule_inv:
  assumes inv: "ed_inv s" and room: "ed_room (ed_Schedule_step t s)"
  shows "ed_inv (ed_Schedule_step t s)"
proof (cases "ed_schedulers s t")
  case NotScheduling
  then show ?thesis using inv by (simp add: ed_Schedule_step_def)
next
  case (Exchanging p a)
  then show ?thesis using ed_reserve_inv [OF inv Exchanging] ed_goto_unowned [OF inv, of t "Exchanging (ed_pushIndex s) a"] room
    by (simp add: ed_Schedule_step_def ed_room_def split: if_splits)
next
  case (Storing i a)
  then show ?thesis using ed_Storing_inv [OF inv Storing] by (simp add: ed_Schedule_step_def)
next
  case (Checking i)
  then show ?thesis using ed_Checking_inv [OF inv Checking] by (simp add: ed_Schedule_step_def)
next
  case (Marking i)
  then show ?thesis using ed_Marking_inv [OF inv Marking] by (simp add: ed_Schedule_step_def)
next
  case (Measuring i)
  let ?c = "min (ed_minCapacity s) ((ed_N s + ed_popIndex s - i - 1) mod ed_N s + 1)"
  have c: "1 \<le> ?c" using ed_inv_capacity [OF inv] by simp
  have "ed_inv (ed_goto t NotScheduling (s\<lparr>ed_minCapacity := ?c\<rparr>))"
    using Measuring by (intro ed_goto_unowned ed_capacity_inv inv c) simp_all
  then show ?thesis using Measuring c by (simp add: ed_Schedule_step_def Let_def)
qed

text \<open>A mark at the first slot belongs to the first ticket.\<close>

lemma ed_first_marked:
  assumes inv: "ed_inv s" and m: "ed_mark s (ed_popIndex s)"
  shows "ed_popped s \<in> ed_window s" and "ed_worker s \<noteq> ResetAction \<Longrightarrow> ed_action s (ed_popIndex s) = Some (ed_reserved s ! ed_popped s)"
proof -
  have p: "ed_popIndex s = ed_popped s mod ed_N s" by (rule ed_inv_pop [OF inv])
  then obtain k where "k \<in> ed_window s" using ed_inv_mark [OF inv _ m] ed_mod_less [OF inv, of "ed_popped s"] by auto
  then show D: "ed_popped s \<in> ed_window s" by (simp add: ed_window_def)
  have "ed_worker s \<noteq> ResetMark" using ed_inv_worker [OF inv] m p by (auto simp: ed_at_worker_def)
  then have "ed_filled s (ed_popped s)" using ed_inv_slot [OF inv D] m p by (auto simp: ed_filling_def)
  then show "ed_worker s \<noteq> ResetAction \<Longrightarrow> ed_action s (ed_popIndex s) = Some (ed_reserved s ! ed_popped s)"
    using p by (auto simp: ed_filled_def)
qed

lemma ed_unmarked_owner: "ed_inv s \<Longrightarrow> ed_mark s i \<Longrightarrow> ed_owns (ed_schedulers s t) \<noteq> Some i"
  using ed_inv_filling [of s t i] by (auto simp: ed_filling_def)

lemma take_Suc_window: "ed_popped s \<in> ed_window s \<Longrightarrow> take (ed_popped s) (ed_reserved s) @ [ed_reserved s ! ed_popped s] = take (Suc (ed_popped s)) (ed_reserved s)"
  by (simp add: ed_window_def take_Suc_conv_app_nth)

text \<open>A step of the worker that changes at most its own place and what it has called.\<close>

lemma ed_worker_inv:
  assumes inv: "ed_inv s" and w: "ed_worker s \<noteq> ResetMark" "ed_worker s \<noteq> ResetAction"
    and ok: "ed_at_worker (s\<lparr>ed_worker := w, ed_executed := xs\<rparr>)"
  shows "ed_inv (s\<lparr>ed_worker := w, ed_executed := xs\<rparr>)"
  by (rule ed_inv_change [OF inv]) (use w ok ed_inv_mark [OF inv] ed_inv_fault [OF inv] in \<open>auto simp: ed_filled_def ed_filling_def\<close>)

lemma ed_ResetAction_inv:
  assumes inv: "ed_inv s" and w: "ed_worker s = Running a"
  shows "ed_inv (ed_set_action (ed_popIndex s) None (s\<lparr>ed_worker := ResetAction\<rparr>))" (is "ed_inv ?s")
proof -
  have p: "ed_popIndex s = ed_popped s mod ed_N s" by (rule ed_inv_pop [OF inv])
  then have i: "ed_popIndex s < ed_N s" using ed_mod_less [OF inv] by simp
  have D: "ed_popped s \<in> ed_window s" "ed_mark s (ed_popIndex s)" "ed_executed s = take (Suc (ed_popped s)) (ed_reserved s)"
    using ed_inv_worker [OF inv] w p by (auto simp: ed_at_worker_def)
  show ?thesis
  proof (rule ed_inv_change [OF inv])
    fix u k assume u: "k \<in> ed_window s" "ed_filling s u k" "ed_owns (ed_schedulers ?s u) \<noteq> None"
    have "k mod ed_N s \<noteq> ed_popIndex s" using ed_filling_owns [OF u(2)] ed_unmarked_owner [OF inv D(2), of u] by auto
    then show "ed_filling ?s u k" using u i by (simp add: ed_filling_def)
  next
    fix k assume k: "k \<in> ed_window s" "ed_filled s k"
    show "ed_filled ?s k \<or> k = ed_popped s \<and> ed_worker ?s = ResetMark"
    proof (cases "k = ed_popped s")
      case True
      then show ?thesis using k i D p by (simp add: ed_filled_def)
    next
      case False
      then have "k mod ed_N s \<noteq> ed_popIndex s" using ed_window_inj [OF ed_inv_room [OF inv] k(1) D(1)] p by auto
      then show ?thesis using k i w by (simp add: ed_filled_def)
    qed
  next
    show "ed_at_worker ?s" using D p i by (simp add: ed_at_worker_def ed_window_def)
  qed (use i w ed_inv_mark [OF inv] ed_inv_fault [OF inv] ed_filling_owns [of s] in \<open>auto\<close>)
qed

lemma ed_ResetMark_inv:
  assumes inv: "ed_inv s" and w: "ed_worker s = ResetAction"
  shows "ed_inv (ed_set_mark (ed_popIndex s) False (s\<lparr>ed_worker := ResetMark\<rparr>))" (is "ed_inv ?s")
proof -
  have p: "ed_popIndex s = ed_popped s mod ed_N s" by (rule ed_inv_pop [OF inv])
  then have i: "ed_popIndex s < ed_N s" using ed_mod_less [OF inv] by simp
  have D: "ed_popped s \<in> ed_window s" "ed_mark s (ed_popIndex s)" "ed_executed s = take (Suc (ed_popped s)) (ed_reserved s)"
    using ed_inv_worker [OF inv] w p by (auto simp: ed_at_worker_def)
  show ?thesis
  proof (rule ed_inv_change [OF inv])
    fix u k assume u: "k \<in> ed_window s" "ed_filling s u k" "ed_owns (ed_schedulers ?s u) \<noteq> None"
    then show "ed_filling ?s u k" using i by (simp add: ed_filling_def)
  next
    fix k assume k: "k \<in> ed_window s" "ed_filled s k"
    show "ed_filled ?s k \<or> k = ed_popped s \<and> ed_worker ?s = ResetMark"
    proof (cases "k = ed_popped s")
      case False
      then have "k mod ed_N s \<noteq> ed_popIndex s" using ed_window_inj [OF ed_inv_room [OF inv] k(1) D(1)] p by auto
      then show ?thesis using k i False by (simp add: ed_filled_def)
    qed simp
  next
    show "ed_at_worker ?s" using D p i ed_unmarked_owner [OF inv D(2)] by (simp add: ed_at_worker_def ed_window_def)
  qed (use i w ed_inv_mark [OF inv] ed_inv_fault [OF inv] ed_filling_owns [of s] in \<open>auto split: if_splits\<close>)
qed

lemma ed_pop_inv:
  assumes inv: "ed_inv s" and w: "ed_worker s = ResetMark"
  shows "ed_inv (s\<lparr>ed_worker := Waiting, ed_popIndex := (ed_popIndex s + 1) mod 2 ^ 32 mod ed_N s, ed_popped := ed_popped s + 1\<rparr>)" (is "ed_inv ?s")
proof -
  have p: "ed_popIndex s = ed_popped s mod ed_N s" by (rule ed_inv_pop [OF inv])
  have D: "ed_popped s \<in> ed_window s" "\<not> ed_mark s (ed_popped s mod ed_N s)" "ed_executed s = take (Suc (ed_popped s)) (ed_reserved s)"
      "\<And>t. ed_owns (ed_schedulers s t) \<noteq> Some (ed_popped s mod ed_N s)"
    using ed_inv_worker [OF inv] w by (auto simp: ed_at_worker_def)
  have win: "ed_window ?s = ed_window s - {ed_popped s}" by (auto simp: ed_window_def)
  have fill: "ed_filling ?s t k = ed_filling s t k" for t k by (simp add: ed_filling_def)
  have "\<forall>t. ed_owns (ed_schedulers ?s t) \<noteq> None \<longrightarrow> (\<exists>k \<in> ed_window ?s. ed_filling ?s t k)"
  proof (intro allI impI)
    fix t assume "ed_owns (ed_schedulers ?s t) \<noteq> None"
    then obtain i where "ed_owns (ed_schedulers s t) = Some i" by auto
    then obtain k where k: "k \<in> ed_window s" "i = k mod ed_N s" "ed_filling s t k" using ed_inv_filling [OF inv] by metis
    then have "k \<noteq> ed_popped s" using D(4) [of t] ed_filling_owns [OF k(3)] by auto
    then show "\<exists>k \<in> ed_window ?s. ed_filling ?s t k" using k unfolding win fill by auto
  qed
  moreover have "\<forall>k \<in> ed_window ?s. (\<exists>t. ed_filling ?s t k) \<or> ed_filled ?s k \<or> k = ed_popped ?s \<and> ed_worker ?s = ResetMark"
    unfolding win fill using ed_inv_slot [OF inv] w by (auto simp: ed_filled_def)
  moreover have "\<forall>i < ed_N ?s. ed_mark ?s i \<longrightarrow> (\<exists>k \<in> ed_window ?s. i = k mod ed_N ?s)"
    unfolding win using ed_inv_mark [OF inv] D(2) by auto
  moreover have "ed_popIndex ?s = ed_popped ?s mod ed_N ?s"
    using p Suc_mod_index [OF ed_inv_N(2) [OF inv] ed_inv_N(1) [OF inv], of "ed_popped s"] by simp
  moreover have "ed_at_worker ?s" using D(3) by (simp add: ed_at_worker_def)
  moreover have "ed_popped ?s \<le> length (ed_reserved ?s)" "ed_room ?s" using D(1) ed_inv_room [OF inv] by (simp_all add: ed_window_def ed_room_def)
  moreover have "ed_apart (ed_schedulers ?s)" using inv by (simp add: ed_inv_def)
  ultimately show ?thesis using ed_inv_facts(1-5) [OF inv] unfolding ed_inv_def by simp
qed

lemma ed_Execute_inv:
  assumes inv: "ed_inv s"
  shows "ed_inv (ed_Execute_step s)"
proof (cases "ed_worker s")
  case Waiting
  have "ed_at_worker (s\<lparr>ed_worker := Found, ed_executed := ed_executed s\<rparr>)" if "ed_mark s (ed_popIndex s)"
    using ed_inv_worker [OF inv] Waiting that ed_first_marked(1) [OF inv that] ed_inv_pop [OF inv] by (simp add: ed_at_worker_def ed_window_def)
  from ed_worker_inv [OF inv _ _ this] show ?thesis using Waiting inv by (simp add: ed_Execute_step_def)
next
  case Found
  have p: "ed_popIndex s = ed_popped s mod ed_N s" by (rule ed_inv_pop [OF inv])
  have D: "ed_popped s \<in> ed_window s" "ed_mark s (ed_popIndex s)" "ed_executed s = take (ed_popped s) (ed_reserved s)"
    using ed_inv_worker [OF inv] Found p by (auto simp: ed_at_worker_def)
  have a: "ed_action s (ed_popIndex s) = Some (ed_reserved s ! ed_popped s)" using ed_first_marked(2) [OF inv D(2)] Found by simp
  have "ed_at_worker (s\<lparr>ed_worker := Running (ed_reserved s ! ed_popped s), ed_executed := ed_executed s @ [ed_reserved s ! ed_popped s]\<rparr>)"
    using D p take_Suc_window [OF D(1)] by (simp add: ed_at_worker_def ed_window_def)
  from ed_worker_inv [OF inv _ _ this] show ?thesis using Found a by (simp add: ed_Execute_step_def)
next
  case (Running a)
  then show ?thesis using ed_ResetAction_inv [OF inv Running] by (simp add: ed_Execute_step_def)
next
  case ResetAction
  then show ?thesis using ed_ResetMark_inv [OF inv ResetAction] by (simp add: ed_Execute_step_def)
next
  case ResetMark
  then show ?thesis using ed_pop_inv [OF inv ResetMark] by (simp add: ed_Execute_step_def)
qed

lemma ed_make_inv: "0 < length storage \<Longrightarrow> length storage \<le> 2 ^ 32 \<Longrightarrow> ed_inv (ed_make storage)"
  by (auto simp: ed_inv_def ed_make_def ed_room_def ed_window_def ed_apart_def ed_at_worker_def Suc_le_eq)

lemma ed_step_inv:
  assumes inv: "ed_inv s" and "ed_step s s'" and "ed_room s'"
  shows "ed_inv s'"
proof -
  have enter: "ed_inv (ed_Schedule_begin t action s)" if "ed_schedulers s t = NotScheduling" for t action
    using ed_goto_unowned [OF inv, of t] that by (simp add: ed_Schedule_begin_def)
  have spurious: "ed_inv (ed_Schedule_spurious t s)" for t
    using ed_goto_unowned [OF inv, of t] inv by (auto simp: ed_Schedule_spurious_def split: scheduling.split)
  from assms(2) show ?thesis
    by (elim ed_stepE) (use enter spurious ed_Schedule_inv [OF inv] ed_Execute_inv [OF inv] assms(3) in simp_all)
qed

lemma ed_reached_inv:
  assumes "ed_reached storage s" and "0 < length storage" and "length storage \<le> 2 ^ 32"
  shows "ed_inv s"
  using assms(1) by induction (use ed_make_inv [OF assms(2,3)] ed_step_inv in blast)+

subsection \<open>Executable runs\<close>

datatype 'a ed_move = Enter nat 'a | Spurious nat | Schedule nat | Execute

fun ed_perform :: "'a ed_move \<Rightarrow> 'a dispatcher \<Rightarrow> 'a dispatcher" where
  "ed_perform (Enter t a) s = ed_Schedule_begin t a s"
| "ed_perform (Spurious t) s = ed_Schedule_spurious t s"
| "ed_perform (Schedule t) s = ed_Schedule_step t s"
| "ed_perform Execute s = ed_Execute_step s"

fun ed_can :: "'a ed_move \<Rightarrow> 'a dispatcher \<Rightarrow> bool" where
  "ed_can (Enter t a) s \<longleftrightarrow> ed_fault s = None \<and> (case ed_schedulers s t of NotScheduling \<Rightarrow> True | _ \<Rightarrow> False)"
| "ed_can _ s \<longleftrightarrow> ed_fault s = None"

fun ed_moves :: "'a ed_move list \<Rightarrow> 'a dispatcher \<Rightarrow> 'a dispatcher option" where
  "ed_moves [] s = Some s"
| "ed_moves (m # ms) s = (if ed_can m s \<and> ed_room (ed_perform m s) then ed_moves ms (ed_perform m s) else None)"

lemma ed_move_step: "ed_can m s \<Longrightarrow> ed_step s (ed_perform m s)"
  by (cases m) (auto intro: ed_step.intros split: scheduling.splits)

lemma ed_moves_reached: "ed_reached storage s \<Longrightarrow> ed_moves ms s = Some s' \<Longrightarrow> ed_reached storage s'"
proof (induction ms arbitrary: s)
  case (Cons m ms)
  then have "ed_can m s" "ed_room (ed_perform m s)" "ed_moves ms (ed_perform m s) = Some s'" by (auto split: if_splits)
  then show ?case using Cons.IH [of "ed_perform m s"] ed_reached.step [OF Cons.prems(1) ed_move_step [of m s]] by simp
qed simp

text \<open>
  Two slots; thread 1 reserves the first slot and is overtaken by thread 2, which loses an exchange before that. The worker finds nothing until thread 1 has
  set its mark, and then takes both actions in the order of the reservations.
\<close>

definition ed_example_start :: "string ed_move list" where
  "ed_example_start = [Enter 1 ''a'', Enter 2 ''b'', Schedule 1, Schedule 2, Spurious 2, Schedule 2, Schedule 2, Schedule 2, Schedule 2, Schedule 2, Execute]"

definition ed_example :: "string ed_move list" where
  "ed_example = ed_example_start @ [Schedule 1, Schedule 1, Schedule 1, Schedule 1, Execute, Execute, Execute, Execute, Execute, Execute, Execute]"

lemma ed_reached_N: "ed_reached storage s \<Longrightarrow> ed_N s = length storage"
proof (induction rule: ed_reached.induct)
  case (step s s')
  have "ed_N s' = ed_N s" using step.hyps(2)
    by (elim ed_stepE) (simp_all add: ed_Schedule_begin_def ed_Schedule_spurious_def ed_Schedule_step_def ed_Execute_step_def Let_def
      split: scheduling.split working.split option.split)
  then show ?case using step.IH by simp
qed (simp add: ed_make_def)

lemma ed_all_executed:
  assumes inv: "ed_inv s" and idle: "\<forall>t. ed_owns (ed_schedulers s t) = None" "ed_worker s = Waiting" "ed_IsIdle s"
  shows "ed_executed s = ed_reserved s"
proof (rule ccontr)
  assume "ed_executed s \<noteq> ed_reserved s"
  then have "ed_popped s \<in> ed_window s"
    using ed_inv_worker [OF inv] ed_inv_popped [OF inv] idle(2) by (auto simp: ed_window_def ed_at_worker_def)
  from ed_inv_slot [OF inv this] show False
    using idle ed_inv_pop [OF inv] by (auto simp: ed_filling_def ed_filled_def ed_IsIdle_def)
qed

subsection \<open>The theorems\<close>

text \<open>
  C6. However the steps of the threads and the worker are interleaved, as long as there is room no assertion fails, the worker
  never calls an empty function, and it calls the actions in the order in which they reserved their slots, each once. When no
  thread is filling a slot and the worker finds no action, every action has been called.
\<close>

theorem EventDispatcher_executes_in_order:
  assumes "ed_reached storage s" and "0 < length storage" and "length storage \<le> 2 ^ 32"
  shows "ed_fault s = None \<and> ed_executed s = take (length (ed_executed s)) (ed_reserved s)
    \<and> length (ed_reserved s) - length (ed_executed s) \<le> length storage
    \<and> ((\<forall>t. ed_owns (ed_schedulers s t) = None) \<and> ed_worker s = Waiting \<and> ed_IsIdle s \<longrightarrow> ed_executed s = ed_reserved s)"
proof -
  note inv = ed_reached_inv [OF assms]
  have n: "ed_N s = length storage" by (rule ed_reached_N [OF assms(1)])
  have w: "ed_executed s = take (ed_popped s + ed_calls (ed_worker s)) (ed_reserved s)" using ed_inv_worker [OF inv] by (simp add: ed_at_worker_def)
  have "ed_executed s = ed_reserved s" if "\<forall>t. ed_owns (ed_schedulers s t) = None" "ed_worker s = Waiting" "ed_IsIdle s"
    using ed_all_executed [OF inv] that by blast
  moreover have "ed_executed s = take (length (ed_executed s)) (ed_reserved s)" using w by (metis length_take min.cobounded1 take_all_iff take_take min.absorb1 nle_le)
  moreover have "length (ed_reserved s) - length (ed_executed s) \<le> length storage"
    using w ed_inv_room [OF inv] n by (simp add: ed_room_def)
  ultimately show ?thesis using ed_inv_fault [OF inv] by blast
qed

lemma EventDispatcher_executes_in_order_witness:
  "\<exists>s. ed_moves ed_example (ed_make [(None, False), (None, False)]) = Some s \<and> ed_fault s = None \<and> ed_executed s = [''a'', ''b''] \<and> ed_reserved s = [''a'', ''b'']"
proof -
  obtain s where s: "ed_moves ed_example (ed_make [(None, False), (None, False)]) = Some s" "ed_executed s = [''a'', ''b'']" "ed_reserved s = [''a'', ''b'']"
    by (simp add: ed_example_def ed_example_start_def ed_make_def ed_Schedule_begin_def ed_Schedule_step_def ed_Schedule_spurious_def ed_Execute_step_def
        ed_goto_def ed_set_action_def ed_set_mark_def ed_room_def Let_def)
  from ed_moves_reached [OF ed_reached.start s(1)] EventDispatcher_executes_in_order [of "[(None, False), (None, False)]" s] s show ?thesis by simp
qed

text \<open>The other half of an overflow: a thread that calls \<^verbatim>\<open>Schedule\<close> without being interrupted, up to the check of the mark.\<close>

definition ed_Schedule_until_check :: "nat \<Rightarrow> 'a \<Rightarrow> 'a dispatcher \<Rightarrow> 'a dispatcher" where
  "ed_Schedule_until_check t action s = ed_Schedule_step t (ed_Schedule_step t (ed_Schedule_step t (ed_Schedule_begin t action s)))"

text \<open>
  C7. When every slot holds an action that has not been taken, scheduling one more fails an assertion; by then the action in the first slot, the next to be
  run, has been replaced by the new one.
\<close>

theorem EventDispatcher_overflow_asserts:
  assumes "ed_reached storage s" and "0 < length storage" and "length storage \<le> 2 ^ 32"
    and full: "length (ed_reserved s) = ed_popped s + ed_N s" and filled: "\<forall>u. ed_owns (ed_schedulers s u) = None" and w: "ed_worker s = Waiting"
  shows "ed_fault (ed_Schedule_until_check t action s) = Some AssertFailed
    \<and> ed_action s (ed_popIndex s) = Some (ed_reserved s ! ed_popped s)
    \<and> ed_action (ed_Schedule_until_check t action s) (ed_popIndex s) = Some action"
proof -
  note inv = ed_reached_inv [OF assms(1-3)]
  have D: "ed_popped s \<in> ed_window s" using full ed_inv_N(1) [OF inv] by (simp add: ed_window_def)
  have p: "ed_popIndex s = ed_popped s mod ed_N s" "ed_pushIndex s = ed_popped s mod ed_N s"
    using ed_inv_pop [OF inv] ed_inv_push [OF inv] full by simp_all
  then have i: "ed_popped s mod ed_N s < ed_N s" using ed_mod_less [OF inv] by simp
  have m: "ed_mark s (ed_popped s mod ed_N s)" "ed_action s (ed_popped s mod ed_N s) = Some (ed_reserved s ! ed_popped s)"
    using ed_inv_slot [OF inv D] filled w by (auto simp: ed_filling_def ed_filled_def)
  show ?thesis using m i p
    by (simp add: ed_Schedule_until_check_def ed_Schedule_begin_def ed_Schedule_step_def ed_set_action_def)
qed

definition ed_example_full :: "string ed_move list" where
  "ed_example_full = [Enter 1 ''a'', Schedule 1, Schedule 1, Schedule 1, Schedule 1, Schedule 1]"

lemma EventDispatcher_overflow_asserts_witness:
  "\<exists>s. ed_moves ed_example_full (ed_make [(None, False)]) = Some s \<and> ed_fault (ed_Schedule_until_check 2 ''b'' s) = Some AssertFailed
     \<and> ed_action s 0 = Some ''a'' \<and> ed_action (ed_Schedule_until_check 2 ''b'' s) 0 = Some ''b''"
proof -
  obtain s where s: "ed_moves ed_example_full (ed_make [(None, False)]) = Some s" "ed_reserved s = [''a'']" "ed_popped s = 0" "ed_N s = 1"
      "ed_popIndex s = 0" "ed_worker s = Waiting" "ed_schedulers s = (\<lambda>_. NotScheduling)"
    by (simp add: ed_example_full_def ed_make_def ed_Schedule_begin_def ed_Schedule_step_def ed_goto_def ed_set_action_def ed_set_mark_def ed_room_def Let_def
        fun_upd_idem_iff)
  from ed_moves_reached [OF ed_reached.start s(1)] EventDispatcher_overflow_asserts [of "[(None, False)]" s 2 "''b''"] s show ?thesis by simp
qed

text \<open>The place of the worker in the round it makes for each action.\<close>

fun ed_place :: "'a working \<Rightarrow> nat" where
  "ed_place Waiting = 0"
| "ed_place Found = 1"
| "ed_place (Running a) = 2"
| "ed_place ResetAction = 3"
| "ed_place ResetMark = 4"

lemma ed_Execute_progress:
  assumes inv: "ed_inv s" and busy: "\<not> (ed_worker s = Waiting \<and> ed_IsIdle s)"
  shows "5 * (length (ed_reserved (ed_Execute_step s)) - ed_popped (ed_Execute_step s)) - ed_place (ed_worker (ed_Execute_step s))
      < 5 * (length (ed_reserved s) - ed_popped s) - ed_place (ed_worker s)"
    and "ed_schedulers (ed_Execute_step s) = ed_schedulers s" and "ed_reserved (ed_Execute_step s) = ed_reserved s"
proof -
  have D: "ed_popped s < length (ed_reserved s)"
  proof (cases "ed_worker s = Waiting")
    case True
    then show ?thesis using busy ed_first_marked(1) [OF inv] by (simp add: ed_IsIdle_def ed_window_def)
  next
    case False
    then show ?thesis using ed_inv_worker [OF inv] by (simp add: ed_at_worker_def ed_window_def)
  qed
  have found: "\<exists>a. ed_action s (ed_popIndex s) = Some a" if "ed_worker s = Found"
    using that ed_first_marked(2) [OF inv] ed_inv_worker [OF inv] ed_inv_pop [OF inv] by (simp add: ed_at_worker_def)
  show "5 * (length (ed_reserved (ed_Execute_step s)) - ed_popped (ed_Execute_step s)) - ed_place (ed_worker (ed_Execute_step s))
      < 5 * (length (ed_reserved s) - ed_popped s) - ed_place (ed_worker s)"
    using D found busy by (cases "ed_worker s") (auto simp: ed_Execute_step_def ed_IsIdle_def)
  show "ed_schedulers (ed_Execute_step s) = ed_schedulers s" "ed_reserved (ed_Execute_step s) = ed_reserved s"
    by (simp_all add: ed_Execute_step_def split: working.split option.split)
qed

lemma ed_ExecuteAllActions_ends:
  "ed_inv s \<Longrightarrow> 5 * (length (ed_reserved s) - ed_popped s) - ed_place (ed_worker s) < k \<Longrightarrow>
   \<exists>s'. ed_ExecuteAllActions k s = Inr s' \<and> ed_inv s' \<and> ed_schedulers s' = ed_schedulers s \<and> ed_reserved s' = ed_reserved s
     \<and> ed_worker s' = Waiting \<and> ed_IsIdle s'"
proof (induction k arbitrary: s)
  case (Suc k)
  show ?case
  proof (cases "ed_worker s = Waiting \<and> ed_IsIdle s")
    case True
    then show ?thesis using ed_inv_fault [OF Suc.prems(1)] Suc.prems(1) by simp
  next
    case False
    from ed_Execute_progress [OF Suc.prems(1) this] Suc.IH [OF ed_Execute_inv [OF Suc.prems(1)]] Suc.prems(2)
    show ?thesis using ed_inv_fault [OF Suc.prems(1)] False by auto
  qed
qed simp

text \<open>
  \<^verbatim>\<open>ExecuteAllActions\<close> ends and has then called every action that was scheduled, when no thread is scheduling.
\<close>

theorem EventDispatcher_ExecuteAllActions_ends:
  assumes "ed_reached storage s" and "0 < length storage" and "length storage \<le> 2 ^ 32" and "\<forall>t. ed_owns (ed_schedulers s t) = None"
    and "5 * length storage < fuel"
  shows "\<exists>s'. ed_ExecuteAllActions fuel s = Inr s' \<and> ed_executed s' = ed_reserved s \<and> ed_IsIdle s'"
proof -
  note inv = ed_reached_inv [OF assms(1-3)]
  have "ed_N s = length storage" by (rule ed_reached_N [OF assms(1)])
  then have "5 * (length (ed_reserved s) - ed_popped s) - ed_place (ed_worker s) < fuel"
    using ed_inv_room [OF inv] assms(5) by (simp add: ed_room_def)
  from ed_ExecuteAllActions_ends [OF inv this] obtain s' where s': "ed_ExecuteAllActions fuel s = Inr s'" "ed_inv s'"
      "ed_schedulers s' = ed_schedulers s" "ed_reserved s' = ed_reserved s" "ed_worker s' = Waiting" "ed_IsIdle s'" by auto
  then show ?thesis using ed_all_executed [OF s'(2)] assms(4) by auto
qed

lemma EventDispatcher_ExecuteAllActions_ends_witness:
  "\<exists>s s'. ed_moves ed_example_full (ed_make [(None, False)]) = Some s \<and> ed_ExecuteAllActions 6 s = Inr s' \<and> ed_executed s' = [''a''] \<and> ed_IsIdle s'"
proof -
  obtain s where s: "ed_moves ed_example_full (ed_make [(None, False)]) = Some s" "ed_reserved s = [''a'']" "ed_schedulers s = (\<lambda>_. NotScheduling)"
    by (simp add: ed_example_full_def ed_make_def ed_Schedule_begin_def ed_Schedule_step_def ed_goto_def ed_set_action_def ed_set_mark_def ed_room_def Let_def
        fun_upd_idem_iff)
  from ed_moves_reached [OF ed_reached.start s(1)] EventDispatcher_ExecuteAllActions_ends [of "[(None, False)]" s 6] s show ?thesis by simp
qed

end
