(* ===== verification/Bounded_String.thy ===== *)
theory Bounded_String
  imports Prelude
begin

section \<open>Bounded strings: infra/util/BoundedString.hpp\<close>

text \<open>
  A \<^verbatim>\<open>BoundedString\<close> is a block of storage, \<^verbatim>\<open>range\<close>, and the number of characters of it that are
  used, \<^verbatim>\<open>length\<close>. The block is a list, of any type of characters. \<^verbatim>\<open>size_t\<close> is unsigned and has 32
  bits, its wrap-around is written out by \<open>size_t\<close> and \<open>sub_t\<close>. An access through
  \<^verbatim>\<open>MemoryRange::operator[]\<close> asserts that the position lies in the block; a raw read, \<^verbatim>\<open>std::copy\<close>,
  \<^verbatim>\<open>std::fill\<close> and \<^verbatim>\<open>memmove\<close> outside a block are undefined behaviour. A \<^verbatim>\<open>const char*\<close> is the
  list of the characters from it to the end of the array it points into. The argument of an operation
  is in another block than the string that is changed.

  This theory holds the operations that change a string and the refinement of lists of bounded length
  by them; comparing and searching are in \<open>Bounded_String_Search\<close>.
\<close>

record 'c bstring =
  bstr_range :: "'c list"
  bstr_length :: nat

definition bstr_text :: "'c bstring \<Rightarrow> 'c list" where
  "bstr_text s = take (bstr_length s) (bstr_range s)"

definition size_limit :: nat where "size_limit = 4294967296"

definition bstr_npos :: nat where "bstr_npos = 4294967295"

definition size_t :: "nat \<Rightarrow> nat" where "size_t n = n mod size_limit"

definition sub_t :: "nat \<Rightarrow> nat \<Rightarrow> nat" where "sub_t a b = size_t (a + (size_limit - b))"

subsection \<open>Memory\<close>

definition mem_read :: "'c list \<Rightarrow> nat \<Rightarrow> 'c result" where
  "mem_read xs i = (if i < length xs then Inr (xs ! i) else Inl UndefinedBehaviour)"

definition mem_move :: "'c list \<Rightarrow> nat \<Rightarrow> nat \<Rightarrow> nat \<Rightarrow> 'c list result" where
  "mem_move xs dst src n =
     (if n = 0 then Inr xs
      else if src + n \<le> length xs \<and> dst + n \<le> length xs
        then Inr (overwrite xs dst (take n (drop src xs)))
      else Inl UndefinedBehaviour)"

text \<open>\<^verbatim>\<open>std::copy\<close> or \<^verbatim>\<open>memmove\<close> of the first \<open>n\<close> characters of another block, and \<^verbatim>\<open>std::fill\<close>.\<close>

definition mem_copy :: "'c list \<Rightarrow> nat \<Rightarrow> 'c list \<Rightarrow> nat \<Rightarrow> 'c list result" where
  "mem_copy xs dst src n =
     (if n = 0 then Inr xs
      else if n \<le> length src \<and> dst + n \<le> length xs then Inr (overwrite xs dst (take n src))
      else Inl UndefinedBehaviour)"

definition mem_fill :: "'c list \<Rightarrow> nat \<Rightarrow> nat \<Rightarrow> 'c \<Rightarrow> 'c list result" where
  "mem_fill xs dst n ch =
     (if n = 0 then Inr xs
      else if dst + n \<le> length xs then Inr (overwrite xs dst (replicate n ch))
      else Inl UndefinedBehaviour)"

definition strlen :: "'c::zero list \<Rightarrow> nat result" where
  "strlen z = (if 0 \<in> set z then Inr (length (takeWhile (\<lambda>c. c \<noteq> 0) z)) else Inl UndefinedBehaviour)"

subsection \<open>Access\<close>

definition bstr_empty :: "'c bstring \<Rightarrow> bool" where
  "bstr_empty s \<longleftrightarrow> bstr_length s = 0"

definition bstr_size :: "'c bstring \<Rightarrow> nat" where
  "bstr_size s = bstr_length s"

definition bstr_max_size :: "'c bstring \<Rightarrow> nat" where
  "bstr_max_size s = length (bstr_range s)"

definition bstr_full :: "'c bstring \<Rightarrow> bool" where
  "bstr_full s \<longleftrightarrow> bstr_length s = bstr_max_size s"

definition bstr_index :: "'c bstring \<Rightarrow> nat \<Rightarrow> 'c result" where
  "bstr_index s i = checked (i < bstr_max_size s) (Inr (bstr_range s ! i))"

text \<open>\<^verbatim>\<open>range[i] = c\<close>\<close>

definition bstr_put :: "'c bstring \<Rightarrow> nat \<Rightarrow> 'c \<Rightarrow> 'c bstring result" where
  "bstr_put s i c = checked (i < bstr_max_size s) (Inr (s\<lparr>bstr_range := (bstr_range s)[i := c]\<rparr>))"

definition bstr_front :: "'c bstring \<Rightarrow> 'c result" where
  "bstr_front s = checked (0 < bstr_max_size s) (Inr (bstr_range s ! 0))"

definition bstr_back :: "'c bstring \<Rightarrow> 'c result" where
  "bstr_back s = bstr_index s (sub_t (bstr_length s) 1)"

definition bstr_clear :: "'c bstring \<Rightarrow> 'c bstring" where
  "bstr_clear s = s\<lparr>bstr_length := 0\<rparr>"

subsection \<open>Assignment\<close>

text \<open>The overloads of \<^verbatim>\<open>AssignToRange\<close>, on the whole block.\<close>

definition AssignToRange_fill :: "'c list \<Rightarrow> nat \<Rightarrow> 'c \<Rightarrow> 'c bstring result" where
  "AssignToRange_fill r num ch = checked (num \<le> length r)
     (bindR (mem_fill r 0 num ch) (\<lambda>r. Inr \<lparr>bstr_range = r, bstr_length = num\<rparr>))"

definition AssignToRange_str :: "'c list \<Rightarrow> 'c bstring \<Rightarrow> 'c bstring result" where
  "AssignToRange_str r other = checked (bstr_size other \<le> length r)
     (bindR (mem_copy r 0 (bstr_range other) (bstr_length other))
       (\<lambda>r. Inr \<lparr>bstr_range = r, bstr_length = bstr_length other\<rparr>))"

definition AssignToRange_part :: "'c list \<Rightarrow> 'c bstring \<Rightarrow> nat \<Rightarrow> nat \<Rightarrow> 'c bstring result" where
  "AssignToRange_part r other pos num =
     (let num = min num (bstr_size other)
      in checked (num \<le> length r)
        (bindR (mem_copy r 0 (drop pos (bstr_range other)) num)
          (\<lambda>r. Inr \<lparr>bstr_range = r, bstr_length = num\<rparr>)))"

definition AssignToRange_chars :: "'c list \<Rightarrow> 'c list \<Rightarrow> nat \<Rightarrow> 'c bstring result" where
  "AssignToRange_chars r s num = checked (num \<le> length r)
     (bindR (mem_copy r 0 s num) (\<lambda>r. Inr \<lparr>bstr_range = r, bstr_length = num\<rparr>))"

definition AssignToRange_cstr :: "'c::zero list \<Rightarrow> 'c list \<Rightarrow> 'c bstring result" where
  "AssignToRange_cstr r s = bindR (strlen s) (AssignToRange_chars r s)"

definition AssignToRange_std :: "'c list \<Rightarrow> 'c list \<Rightarrow> 'c bstring result" where
  "AssignToRange_std r s = AssignToRange_chars r s (length s)"

text \<open>The overload for iterators stops when the block is full.\<close>

fun assign_loop :: "'c bstring \<Rightarrow> 'c list \<Rightarrow> 'c bstring result" where
  "assign_loop s [] = Inr s"
| "assign_loop s (c # cs) =
     (if bstr_length s = bstr_max_size s then Inr s
      else bindR (bstr_put s (bstr_length s) c)
        (\<lambda>s. assign_loop (s\<lparr>bstr_length := size_t (bstr_length s + 1)\<rparr>) cs))"

definition AssignToRange_iter :: "'c list \<Rightarrow> 'c list \<Rightarrow> 'c bstring result" where
  "AssignToRange_iter r cs = assign_loop \<lparr>bstr_range = r, bstr_length = 0\<rparr> cs"

definition bstr_assign_fill :: "'c bstring \<Rightarrow> nat \<Rightarrow> 'c \<Rightarrow> 'c bstring result" where
  "bstr_assign_fill s num ch = AssignToRange_fill (bstr_range s) num ch"

definition bstr_assign_str :: "'c bstring \<Rightarrow> 'c bstring \<Rightarrow> 'c bstring result" where
  "bstr_assign_str s other = AssignToRange_str (bstr_range s) other"

definition bstr_assign_part :: "'c bstring \<Rightarrow> 'c bstring \<Rightarrow> nat \<Rightarrow> nat \<Rightarrow> 'c bstring result" where
  "bstr_assign_part s other pos num = AssignToRange_part (bstr_range s) other pos num"

definition bstr_assign_chars :: "'c bstring \<Rightarrow> 'c list \<Rightarrow> nat \<Rightarrow> 'c bstring result" where
  "bstr_assign_chars s cs num = AssignToRange_chars (bstr_range s) cs num"

definition bstr_assign_cstr :: "'c::zero bstring \<Rightarrow> 'c list \<Rightarrow> 'c bstring result" where
  "bstr_assign_cstr s z = AssignToRange_cstr (bstr_range s) z"

definition bstr_assign_std :: "'c bstring \<Rightarrow> 'c list \<Rightarrow> 'c bstring result" where
  "bstr_assign_std s cs = AssignToRange_std (bstr_range s) cs"

definition bstr_assign_iter :: "'c bstring \<Rightarrow> 'c list \<Rightarrow> 'c bstring result" where
  "bstr_assign_iter s cs = AssignToRange_iter (bstr_range s) cs"

text \<open>\<^verbatim>\<open>operator=\<close> of a character; those of a C string and of a \<^verbatim>\<open>std::string\<close> are \<^verbatim>\<open>assign\<close>.\<close>

definition bstr_assign_char :: "'c bstring \<Rightarrow> 'c \<Rightarrow> 'c bstring result" where
  "bstr_assign_char s ch = bstr_assign_fill s 1 ch"

subsection \<open>Insertion and removal\<close>

definition MoveUp :: "'c bstring \<Rightarrow> nat \<Rightarrow> nat \<Rightarrow> 'c bstring result" where
  "MoveUp s start num =
     bindR (mem_move (bstr_range s) (size_t (start + num)) start (sub_t (bstr_length s) start))
       (\<lambda>r. Inr (s\<lparr>bstr_range := r, bstr_length := size_t (bstr_length s + num)\<rparr>))"

definition MoveDown :: "'c bstring \<Rightarrow> nat \<Rightarrow> nat \<Rightarrow> 'c bstring result" where
  "MoveDown s start num =
     bindR (mem_move (bstr_range s) start (size_t (start + num))
         (sub_t (sub_t (bstr_length s) start) num))
       (\<lambda>r. Inr (s\<lparr>bstr_range := r, bstr_length := sub_t (bstr_length s) num\<rparr>))"

text \<open>
  The loops \<^verbatim>\<open>for (; count != 0; --count) range[index++] = ...\<close>, of one character or of the characters
  behind a pointer; they return the index they end with.
\<close>

fun put_fill :: "'c bstring \<Rightarrow> nat \<Rightarrow> nat \<Rightarrow> 'c \<Rightarrow> ('c bstring \<times> nat) result" where
  "put_fill s index 0 ch = Inr (s, index)"
| "put_fill s index (Suc num) ch =
     bindR (bstr_put s index ch) (\<lambda>s. put_fill s (size_t (index + 1)) num ch)"

fun put_chars :: "'c bstring \<Rightarrow> nat \<Rightarrow> 'c list \<Rightarrow> nat \<Rightarrow> ('c bstring \<times> nat) result" where
  "put_chars s index src 0 = Inr (s, index)"
| "put_chars s index [] (Suc num) = Inl UndefinedBehaviour"
| "put_chars s index (c # src) (Suc num) =
     bindR (bstr_put s index c) (\<lambda>s. put_chars s (size_t (index + 1)) src num)"

definition bstr_insert_fill :: "'c bstring \<Rightarrow> nat \<Rightarrow> nat \<Rightarrow> 'c \<Rightarrow> 'c bstring result" where
  "bstr_insert_fill s index num ch =
     checked (size_t (bstr_length s + num) \<le> bstr_max_size s)
       (bindR (MoveUp s index num) (\<lambda>s.
        bindR (put_fill s index num ch) (\<lambda>(s, _). Inr s)))"

definition bstr_insert_chars :: "'c bstring \<Rightarrow> nat \<Rightarrow> 'c list \<Rightarrow> nat \<Rightarrow> 'c bstring result" where
  "bstr_insert_chars s index src num =
     checked (size_t (bstr_length s + num) \<le> bstr_max_size s)
       (bindR (MoveUp s index num) (\<lambda>s.
        bindR (put_chars s index src num) (\<lambda>(s, _). Inr s)))"

definition bstr_insert_cstr :: "'c::zero bstring \<Rightarrow> nat \<Rightarrow> 'c list \<Rightarrow> 'c bstring result" where
  "bstr_insert_cstr s index z = bindR (strlen z) (bstr_insert_chars s index z)"

definition bstr_insert_str :: "'c bstring \<Rightarrow> nat \<Rightarrow> 'c bstring \<Rightarrow> 'c bstring result" where
  "bstr_insert_str s index other =
     checked (size_t (bstr_length s + bstr_size other) \<le> bstr_max_size s)
       (bindR (MoveUp s index (bstr_size other)) (\<lambda>s.
        bindR (put_chars s index (bstr_range other) (bstr_length other)) (\<lambda>(s, _). Inr s)))"

definition bstr_insert_part :: "'c bstring \<Rightarrow> nat \<Rightarrow> 'c bstring \<Rightarrow> nat \<Rightarrow> nat \<Rightarrow> 'c bstring result" where
  "bstr_insert_part s index other index_str num =
     checked (size_t (bstr_length s + num) \<le> bstr_max_size s)
       (bindR (MoveUp s index num) (\<lambda>s.
        bindR (put_chars s index (drop index_str (bstr_range other)) num) (\<lambda>(s, _). Inr s)))"

definition bstr_insert_std :: "'c bstring \<Rightarrow> nat \<Rightarrow> 'c list \<Rightarrow> 'c bstring result" where
  "bstr_insert_std s index other = bstr_insert_chars s index other (length other)"

definition bstr_insert_std_part :: "'c bstring \<Rightarrow> nat \<Rightarrow> 'c list \<Rightarrow> nat \<Rightarrow> nat \<Rightarrow> 'c bstring result" where
  "bstr_insert_std_part s index other index_str num =
     bstr_insert_chars s index (drop index_str other) num"

text \<open>The overloads that take and return an iterator, which is a position.\<close>

definition bstr_insert_at_char :: "'c bstring \<Rightarrow> nat \<Rightarrow> 'c \<Rightarrow> ('c bstring \<times> nat) result" where
  "bstr_insert_at_char s pos ch = checked (bstr_length s \<noteq> bstr_max_size s)
     (bindR (MoveUp s pos 1) (\<lambda>s. bindR (bstr_put s pos ch) (\<lambda>s. Inr (s, size_t (pos + 1)))))"

definition bstr_insert_at_fill :: "'c bstring \<Rightarrow> nat \<Rightarrow> nat \<Rightarrow> 'c \<Rightarrow> ('c bstring \<times> nat) result" where
  "bstr_insert_at_fill s pos num ch =
     checked (size_t (bstr_length s + num) \<le> bstr_max_size s)
       (bindR (MoveUp s pos num) (\<lambda>s. put_fill s pos num ch))"

definition bstr_insert_at_iter :: "'c bstring \<Rightarrow> nat \<Rightarrow> 'c list \<Rightarrow> ('c bstring \<times> nat) result" where
  "bstr_insert_at_iter s i cs =
     (let additional = min (sub_t (bstr_max_size s) (bstr_length s)) (length cs)
      in bindR (MoveUp s i additional) (\<lambda>s. put_chars s i cs additional))"

definition bstr_erase :: "'c bstring \<Rightarrow> nat \<Rightarrow> nat \<Rightarrow> 'c bstring result" where
  "bstr_erase s index num = MoveDown s index (min num (sub_t (bstr_length s) index))"

definition bstr_erase_at :: "'c bstring \<Rightarrow> nat \<Rightarrow> ('c bstring \<times> nat) result" where
  "bstr_erase_at s position = bindR (MoveDown s position 1) (\<lambda>s. Inr (s, position))"

definition bstr_erase_between :: "'c bstring \<Rightarrow> nat \<Rightarrow> nat \<Rightarrow> ('c bstring \<times> nat) result" where
  "bstr_erase_between s first stop = bindR (MoveDown s first (sub_t stop first)) (\<lambda>s. Inr (s, first))"

definition bstr_push_back :: "'c bstring \<Rightarrow> 'c \<Rightarrow> 'c bstring result" where
  "bstr_push_back s ch = checked (bstr_length s \<noteq> bstr_max_size s)
     (bindR (bstr_put s (bstr_length s) ch)
       (\<lambda>s. Inr (s\<lparr>bstr_length := size_t (bstr_length s + 1)\<rparr>)))"

definition bstr_pop_back :: "'c bstring \<Rightarrow> 'c bstring result" where
  "bstr_pop_back s = checked (bstr_length s > 0) (Inr (s\<lparr>bstr_length := sub_t (bstr_length s) 1\<rparr>))"

subsection \<open>Appending\<close>

fun append_fill :: "'c bstring \<Rightarrow> nat \<Rightarrow> 'c \<Rightarrow> 'c bstring result" where
  "append_fill s 0 ch = Inr s"
| "append_fill s (Suc num) ch = bindR (bstr_put s (bstr_length s) ch)
     (\<lambda>s. append_fill (s\<lparr>bstr_length := size_t (bstr_length s + 1)\<rparr>) num ch)"

fun append_chars :: "'c bstring \<Rightarrow> 'c list \<Rightarrow> nat \<Rightarrow> 'c bstring result" where
  "append_chars s src 0 = Inr s"
| "append_chars s [] (Suc num) = Inl UndefinedBehaviour"
| "append_chars s (c # src) (Suc num) = bindR (bstr_put s (bstr_length s) c)
     (\<lambda>s. append_chars (s\<lparr>bstr_length := size_t (bstr_length s + 1)\<rparr>) src num)"

definition bstr_append_fill :: "'c bstring \<Rightarrow> nat \<Rightarrow> 'c \<Rightarrow> 'c bstring result" where
  "bstr_append_fill s num ch =
     checked (size_t (bstr_length s + num) \<le> bstr_max_size s) (append_fill s num ch)"

definition bstr_append_str :: "'c bstring \<Rightarrow> 'c bstring \<Rightarrow> 'c bstring result" where
  "bstr_append_str s other =
     checked (size_t (bstr_length s + bstr_size other) \<le> bstr_max_size s)
       (append_chars s (bstr_range other) (bstr_length other))"

definition bstr_append_part :: "'c bstring \<Rightarrow> 'c bstring \<Rightarrow> nat \<Rightarrow> nat \<Rightarrow> 'c bstring result" where
  "bstr_append_part s other pos num =
     checked (size_t (bstr_length s + num) \<le> bstr_max_size s)
       (append_chars s (drop pos (bstr_range other)) num)"

definition bstr_append_chars :: "'c bstring \<Rightarrow> 'c list \<Rightarrow> nat \<Rightarrow> 'c bstring result" where
  "bstr_append_chars s src num =
     checked (size_t (bstr_length s + num) \<le> bstr_max_size s) (append_chars s src num)"

definition bstr_append_cstr :: "'c::zero bstring \<Rightarrow> 'c list \<Rightarrow> 'c bstring result" where
  "bstr_append_cstr s z = bindR (strlen z) (bstr_append_chars s z)"

definition bstr_append_std :: "'c bstring \<Rightarrow> 'c list \<Rightarrow> 'c bstring result" where
  "bstr_append_std s cs = bstr_append_chars s cs (length cs)"

text \<open>The overload for iterators stops when the string is full.\<close>

fun bstr_append_iter :: "'c bstring \<Rightarrow> 'c list \<Rightarrow> 'c bstring result" where
  "bstr_append_iter s [] = Inr s"
| "bstr_append_iter s (c # cs) =
     (if bstr_length s \<noteq> bstr_max_size s
      then bindR (bstr_put s (bstr_length s) c)
        (\<lambda>s. bstr_append_iter (s\<lparr>bstr_length := size_t (bstr_length s + 1)\<rparr>) cs)
      else Inr s)"

text \<open>\<^verbatim>\<open>operator+=\<close>\<close>

definition bstr_plus_str :: "'c bstring \<Rightarrow> 'c bstring \<Rightarrow> 'c bstring result" where
  "bstr_plus_str s other = bstr_append_str s other"

definition bstr_plus_char :: "'c bstring \<Rightarrow> 'c \<Rightarrow> 'c bstring result" where
  "bstr_plus_char s ch = bstr_append_fill s 1 ch"

definition bstr_plus_cstr :: "'c::zero bstring \<Rightarrow> 'c list \<Rightarrow> 'c bstring result" where
  "bstr_plus_cstr s z = bstr_append_cstr s z"

definition bstr_plus_std :: "'c bstring \<Rightarrow> 'c list \<Rightarrow> 'c bstring result" where
  "bstr_plus_std s cs = bstr_append_std s cs"

subsection \<open>Resizing, copying out and swapping\<close>

definition bstr_resize :: "'c bstring \<Rightarrow> nat \<Rightarrow> 'c \<Rightarrow> 'c bstring result" where
  "bstr_resize s num ch = checked (num \<le> bstr_max_size s)
     (bindR (if num > bstr_length s
             then mem_fill (bstr_range s) (bstr_length s) (num - bstr_length s) ch
             else Inr (bstr_range s))
       (\<lambda>r. Inr (s\<lparr>bstr_range := r, bstr_length := num\<rparr>)))"

definition bstr_resize_default :: "'c::zero bstring \<Rightarrow> nat \<Rightarrow> 'c bstring result" where
  "bstr_resize_default s num = bstr_resize s num 0"

definition bstr_shrink :: "'c bstring \<Rightarrow> nat \<Rightarrow> 'c bstring" where
  "bstr_shrink s num = (if num < bstr_length s then s\<lparr>bstr_length := num\<rparr> else s)"

text \<open>The view that \<^verbatim>\<open>substr\<close> returns, by the characters of the block it covers.\<close>

definition bstr_substr :: "'c bstring \<Rightarrow> nat \<Rightarrow> nat \<Rightarrow> 'c bstring result" where
  "bstr_substr s pos num = checked (pos \<le> bstr_length s)
     (let num = min num (bstr_length s - pos)
      in Inr \<lparr>bstr_range = take num (drop pos (bstr_range s)), bstr_length = num\<rparr>)"

definition bstr_copy :: "'c bstring \<Rightarrow> 'c list \<Rightarrow> nat \<Rightarrow> nat \<Rightarrow> ('c list \<times> nat) result" where
  "bstr_copy s dest num pos = checked (pos \<le> bstr_length s)
     (let num = min num (bstr_length s - pos)
      in bindR (mem_copy dest 0 (drop pos (bstr_range s)) num) (\<lambda>dest. Inr (dest, num)))"

lemma bstr_put_frame: "bstr_put s i c = Inr s' \<Longrightarrow> bstr_length s' = bstr_length s
  \<and> bstr_max_size s' = bstr_max_size s"
  by (auto simp: bstr_put_def bstr_max_size_def result_simps)

function swap_both :: "nat \<Rightarrow> 'c bstring \<Rightarrow> 'c bstring \<Rightarrow> ('c bstring \<times> 'c bstring) result" where
  "swap_both i s other =
     (if i < bstr_size s \<and> i < bstr_size other
      then bindR (bstr_index s i) (\<lambda>x. bindR (bstr_index other i) (\<lambda>y.
           bindR (bstr_put s i y) (\<lambda>s'. bindR (bstr_put other i x) (\<lambda>other'.
           swap_both (Suc i) s' other'))))
      else Inr (s, other))"
  by pat_completeness auto
termination
  by (relation "measure (\<lambda>(i, s, other). bstr_size s - i)") (auto simp: bstr_size_def dest: bstr_put_frame)

function swap_tail :: "nat \<Rightarrow> 'c bstring \<Rightarrow> 'c bstring \<Rightarrow> 'c bstring result" where
  "swap_tail i from to =
     (if i < bstr_size from
      then bindR (bstr_index from i) (\<lambda>y. bindR (bstr_put to i y) (\<lambda>to. swap_tail (Suc i) from to))
      else Inr to)"
  by pat_completeness auto
termination
  by (relation "measure (\<lambda>(i, from, to). bstr_size from - i)") auto

declare swap_both.simps [simp del] swap_tail.simps [simp del]

definition bstr_swap :: "'c bstring \<Rightarrow> 'c bstring \<Rightarrow> ('c bstring \<times> 'c bstring) result" where
  "bstr_swap s other =
     bindR (swap_both 0 s other) (\<lambda>(s, other).
     bindR (swap_tail (bstr_size s) other s) (\<lambda>s.
     bindR (swap_tail (bstr_size other) s other) (\<lambda>other.
     Inr (s\<lparr>bstr_length := bstr_length other\<rparr>, other\<lparr>bstr_length := bstr_length s\<rparr>))))"

subsection \<open>Replacing\<close>

text \<open>
  Both overloads of \<^verbatim>\<open>ReplaceImpl\<close> get a pointer \<^verbatim>\<open>begin1\<close> into the string, here its position \<open>pos\<close>.
  The number of characters they move is written \<^verbatim>\<open>length - count1 - (begin() - begin1)\<close>; the
  difference of the pointers is \<open>-pos\<close>, so this is \<open>length - count1 + pos\<close>.
\<close>

definition ReplaceImpl_moved :: "'c bstring \<Rightarrow> nat \<Rightarrow> nat \<Rightarrow> nat" where
  "ReplaceImpl_moved s pos count1 = sub_t (sub_t (bstr_length s) count1) (sub_t 0 pos)"

definition ReplaceImpl_chars :: "'c bstring \<Rightarrow> nat \<Rightarrow> nat \<Rightarrow> 'c list \<Rightarrow> nat \<Rightarrow> 'c bstring result" where
  "ReplaceImpl_chars s pos count1 src count2 =
     checked (size_t (sub_t (bstr_length s) count1 + count2) \<le> bstr_max_size s)
       (bindR (mem_move (bstr_range s) (size_t (pos + count2)) (size_t (pos + count1))
           (ReplaceImpl_moved s pos count1)) (\<lambda>r.
        bindR (mem_copy r pos src count2) (\<lambda>r.
        Inr (s\<lparr>bstr_range := r, bstr_length := size_t (bstr_length s + sub_t count2 count1)\<rparr>))))"

definition ReplaceImpl_fill :: "'c bstring \<Rightarrow> nat \<Rightarrow> nat \<Rightarrow> 'c \<Rightarrow> nat \<Rightarrow> 'c bstring result" where
  "ReplaceImpl_fill s pos count1 ch count2 =
     checked (size_t (sub_t (bstr_length s) count1 + count2) \<le> bstr_max_size s)
       (bindR (mem_move (bstr_range s) (size_t (pos + count2)) (size_t (pos + count1))
           (ReplaceImpl_moved s pos count1)) (\<lambda>r.
        bindR (mem_fill r pos count2 ch) (\<lambda>r.
        Inr (s\<lparr>bstr_range := r, bstr_length := size_t (bstr_length s + sub_t count2 count1)\<rparr>))))"

definition bstr_replace_str :: "'c bstring \<Rightarrow> nat \<Rightarrow> nat \<Rightarrow> 'c bstring \<Rightarrow> 'c bstring result" where
  "bstr_replace_str s pos num other = ReplaceImpl_chars s pos num (bstr_range other) (bstr_size other)"

definition bstr_replace_between_str :: "'c bstring \<Rightarrow> nat \<Rightarrow> nat \<Rightarrow> 'c bstring \<Rightarrow> 'c bstring result" where
  "bstr_replace_between_str s first stop other =
     ReplaceImpl_chars s first (sub_t stop first) (bstr_range other) (bstr_size other)"

text \<open>\<open>pos2\<close> is not used.\<close>

definition bstr_replace_part ::
    "'c bstring \<Rightarrow> nat \<Rightarrow> nat \<Rightarrow> 'c bstring \<Rightarrow> nat \<Rightarrow> nat \<Rightarrow> 'c bstring result" where
  "bstr_replace_part s pos num other pos2 count2 =
     ReplaceImpl_chars s pos num (bstr_range other) count2"

definition bstr_replace_chars :: "'c bstring \<Rightarrow> nat \<Rightarrow> nat \<Rightarrow> 'c list \<Rightarrow> nat \<Rightarrow> 'c bstring result" where
  "bstr_replace_chars s pos num cs count2 = ReplaceImpl_chars s pos num cs count2"

definition bstr_replace_between_chars ::
    "'c bstring \<Rightarrow> nat \<Rightarrow> nat \<Rightarrow> 'c list \<Rightarrow> nat \<Rightarrow> 'c bstring result" where
  "bstr_replace_between_chars s first stop cs count2 =
     ReplaceImpl_chars s first (sub_t stop first) cs count2"

definition bstr_replace_cstr :: "'c::zero bstring \<Rightarrow> nat \<Rightarrow> nat \<Rightarrow> 'c list \<Rightarrow> 'c bstring result" where
  "bstr_replace_cstr s pos num z = bindR (strlen z) (ReplaceImpl_chars s pos num z)"

definition bstr_replace_between_cstr ::
    "'c::zero bstring \<Rightarrow> nat \<Rightarrow> nat \<Rightarrow> 'c list \<Rightarrow> 'c bstring result" where
  "bstr_replace_between_cstr s first stop z =
     bindR (strlen z) (ReplaceImpl_chars s first (sub_t stop first) z)"

definition bstr_replace_std :: "'c bstring \<Rightarrow> nat \<Rightarrow> nat \<Rightarrow> 'c list \<Rightarrow> 'c bstring result" where
  "bstr_replace_std s pos num cs = ReplaceImpl_chars s pos num cs (length cs)"

definition bstr_replace_between_std ::
    "'c bstring \<Rightarrow> nat \<Rightarrow> nat \<Rightarrow> 'c list \<Rightarrow> 'c bstring result" where
  "bstr_replace_between_std s first stop cs =
     ReplaceImpl_chars s first (sub_t stop first) cs (length cs)"

definition bstr_replace_std_count ::
    "'c bstring \<Rightarrow> nat \<Rightarrow> nat \<Rightarrow> 'c list \<Rightarrow> nat \<Rightarrow> 'c bstring result" where
  "bstr_replace_std_count s pos num cs count2 = ReplaceImpl_chars s pos num cs count2"

definition bstr_replace_between_std_count ::
    "'c bstring \<Rightarrow> nat \<Rightarrow> nat \<Rightarrow> 'c list \<Rightarrow> nat \<Rightarrow> 'c bstring result" where
  "bstr_replace_between_std_count s first stop cs count2 =
     ReplaceImpl_chars s first (sub_t stop first) cs count2"

definition bstr_replace_fill :: "'c bstring \<Rightarrow> nat \<Rightarrow> nat \<Rightarrow> nat \<Rightarrow> 'c \<Rightarrow> 'c bstring result" where
  "bstr_replace_fill s pos num count2 ch = ReplaceImpl_fill s pos num ch count2"

definition bstr_replace_between_fill ::
    "'c bstring \<Rightarrow> nat \<Rightarrow> nat \<Rightarrow> nat \<Rightarrow> 'c \<Rightarrow> 'c bstring result" where
  "bstr_replace_between_fill s first stop count2 ch =
     ReplaceImpl_fill s first (sub_t stop first) ch count2"

text \<open>
  The overload for a range of iterators of the replacement, which shortens the replacement to what it
  takes to be the room; \<open>std::max\<close> is that of a signed type.
\<close>

definition bstr_replace_iter :: "'c bstring \<Rightarrow> nat \<Rightarrow> nat \<Rightarrow> 'c list \<Rightarrow> 'c bstring result" where
  "bstr_replace_iter s first stop cs =
     (let over = max (int (bstr_length s) - int first + int (length cs) - int (bstr_max_size s)) 0;
          replacementSize = size_t (nat ((int (length cs) - over) mod int size_limit))
      in ReplaceImpl_chars s first (sub_t stop first) cs replacementSize)"

subsection \<open>Strings that lie in their block\<close>

definition bstr_wf :: "'c bstring \<Rightarrow> bool" where
  "bstr_wf s \<longleftrightarrow> bstr_length s \<le> bstr_max_size s \<and> bstr_max_size s < size_limit"

lemma size_t_small [simp]: "n < size_limit \<Longrightarrow> size_t n = n"
  by (simp add: size_t_def)

lemma sub_t_small [simp]:
  assumes "b \<le> a" "a < size_limit"
  shows "sub_t a b = a - b"
proof -
  have "a + (size_limit - b) = (a - b) + size_limit" using assms by simp
  then have "sub_t a b = ((a - b) + size_limit) mod size_limit" by (simp only: sub_t_def size_t_def)
  also have "\<dots> = a - b" using assms by (simp only: mod_add_self2) simp
  finally show ?thesis .
qed

lemma length_bstr_text [simp]: "bstr_wf s \<Longrightarrow> length (bstr_text s) = bstr_length s"
  by (simp add: bstr_text_def bstr_wf_def bstr_max_size_def)

lemma take_overwrite_end: "i + length ys \<le> length xs \<Longrightarrow> take (i + length ys) (overwrite xs i ys) = take i xs @ ys"
  by (simp add: overwrite_def)

lemma put_fill_eq:
  "i + n \<le> bstr_max_size s \<Longrightarrow> bstr_max_size s < size_limit
   \<Longrightarrow> put_fill s i n ch = Inr (s\<lparr>bstr_range := overwrite (bstr_range s) i (replicate n ch)\<rparr>, i + n)"
  by (induction s i n ch rule: put_fill.induct)
    (auto simp: bstr_put_def bstr_max_size_def overwrite_Cons)

lemma put_chars_eq:
  "n \<le> length src \<Longrightarrow> i + n \<le> bstr_max_size s \<Longrightarrow> bstr_max_size s < size_limit
   \<Longrightarrow> put_chars s i src n = Inr (s\<lparr>bstr_range := overwrite (bstr_range s) i (take n src)\<rparr>, i + n)"
  by (induction s i src n rule: put_chars.induct)
    (auto simp: bstr_put_def bstr_max_size_def overwrite_Cons)

lemma append_fill_eq:
  "bstr_length s + n \<le> bstr_max_size s \<Longrightarrow> bstr_max_size s < size_limit
   \<Longrightarrow> append_fill s n ch = Inr (s\<lparr>bstr_range := overwrite (bstr_range s) (bstr_length s) (replicate n ch),
     bstr_length := bstr_length s + n\<rparr>)"
  by (induction s n ch rule: append_fill.induct)
    (auto simp: bstr_put_def bstr_max_size_def overwrite_Cons)

lemma append_chars_eq:
  "n \<le> length src \<Longrightarrow> bstr_length s + n \<le> bstr_max_size s \<Longrightarrow> bstr_max_size s < size_limit
   \<Longrightarrow> append_chars s src n = Inr (s\<lparr>bstr_range := overwrite (bstr_range s) (bstr_length s) (take n src),
     bstr_length := bstr_length s + n\<rparr>)"
  by (induction s src n rule: append_chars.induct)
    (auto simp: bstr_put_def bstr_max_size_def overwrite_Cons)

lemma bstr_append_iter_eq:
  "bstr_wf s \<Longrightarrow> bstr_append_iter s cs = (let n = min (bstr_max_size s - bstr_length s) (length cs)
     in Inr (s\<lparr>bstr_range := overwrite (bstr_range s) (bstr_length s) (take n cs), bstr_length := bstr_length s + n\<rparr>))"
proof (induction s cs rule: bstr_append_iter.induct)
  case (2 s c cs)
  show ?case
  proof (cases "bstr_length s = bstr_max_size s")
    case True
    then show ?thesis by (simp add: bstr_max_size_def)
  next
    case False
    with "2.prems" have "bstr_length s < length (bstr_range s)" by (simp add: bstr_max_size_def bstr_wf_def)
    then obtain k where "length (bstr_range s) = Suc (bstr_length s + k)" using less_imp_Suc_add by blast
    with False 2 show ?thesis
      by (simp add: bstr_put_def bstr_max_size_def bstr_wf_def Let_def min_def overwrite_Cons)
  qed
qed (simp add: bstr_wf_def bstr_max_size_def)

lemma assign_loop_eq: "assign_loop s cs = bstr_append_iter s cs"
  by (induction s cs rule: assign_loop.induct) (auto intro: bindR_cong)

subsection \<open>The operations as list operations\<close>

text \<open>
  One change of a string, with the characters of its argument, and what it means for a list of at most
  \<open>N\<close> characters. The iterator overloads of \<^verbatim>\<open>assign\<close>, \<^verbatim>\<open>insert\<close> and \<^verbatim>\<open>append\<close> take the characters
  that fit; the others fail their assertion when the result is too long.
\<close>

datatype 'c bstr_edit =
    EAssign "'c list" | EAssignFill nat 'c | EAssignIter "'c list" | EClear
  | EInsert nat "'c list" | EInsertFill nat nat 'c | EInsertIter nat "'c list"
  | EErase nat nat | EEraseBetween nat nat | EPushBack 'c | EPopBack
  | EAppend "'c list" | EAppendFill nat 'c | EAppendIter "'c list"
  | EResize nat 'c | EShrink nat

fun bstr_do :: "'c bstring \<Rightarrow> 'c bstr_edit \<Rightarrow> 'c bstring result" where
  "bstr_do s (EAssign cs) = bstr_assign_std s cs"
| "bstr_do s (EAssignFill n c) = bstr_assign_fill s n c"
| "bstr_do s (EAssignIter cs) = bstr_assign_iter s cs"
| "bstr_do s EClear = Inr (bstr_clear s)"
| "bstr_do s (EInsert i cs) = bstr_insert_std s i cs"
| "bstr_do s (EInsertFill i n c) = bstr_insert_fill s i n c"
| "bstr_do s (EInsertIter i cs) = bindR (bstr_insert_at_iter s i cs) (\<lambda>(s, _). Inr s)"
| "bstr_do s (EErase i n) = bstr_erase s i n"
| "bstr_do s (EEraseBetween i j) = bindR (bstr_erase_between s i j) (\<lambda>(s, _). Inr s)"
| "bstr_do s (EPushBack c) = bstr_push_back s c"
| "bstr_do s EPopBack = bstr_pop_back s"
| "bstr_do s (EAppend cs) = bstr_append_std s cs"
| "bstr_do s (EAppendFill n c) = bstr_append_fill s n c"
| "bstr_do s (EAppendIter cs) = bstr_append_iter s cs"
| "bstr_do s (EResize n c) = bstr_resize s n c"
| "bstr_do s (EShrink n) = Inr (bstr_shrink s n)"

fun spec_edit :: "nat \<Rightarrow> 'c list \<Rightarrow> 'c bstr_edit \<Rightarrow> 'c list result" where
  "spec_edit N xs (EAssign cs) = checked (length cs \<le> N) (Inr cs)"
| "spec_edit N xs (EAssignFill n c) = checked (n \<le> N) (Inr (replicate n c))"
| "spec_edit N xs (EAssignIter cs) = Inr (take N cs)"
| "spec_edit N xs EClear = Inr []"
| "spec_edit N xs (EInsert i cs) =
     checked (length xs + length cs \<le> N) (Inr (take i xs @ cs @ drop i xs))"
| "spec_edit N xs (EInsertFill i n c) =
     checked (length xs + n \<le> N) (Inr (take i xs @ replicate n c @ drop i xs))"
| "spec_edit N xs (EInsertIter i cs) = Inr (take i xs @ take (N - length xs) cs @ drop i xs)"
| "spec_edit N xs (EErase i n) = Inr (take i xs @ drop (i + n) xs)"
| "spec_edit N xs (EEraseBetween i j) = Inr (take i xs @ drop j xs)"
| "spec_edit N xs (EPushBack c) = checked (length xs < N) (Inr (xs @ [c]))"
| "spec_edit N xs EPopBack = checked (xs \<noteq> []) (Inr (butlast xs))"
| "spec_edit N xs (EAppend cs) = checked (length xs + length cs \<le> N) (Inr (xs @ cs))"
| "spec_edit N xs (EAppendFill n c) = checked (length xs + n \<le> N) (Inr (xs @ replicate n c))"
| "spec_edit N xs (EAppendIter cs) = Inr (take N (xs @ cs))"
| "spec_edit N xs (EResize n c) = checked (n \<le> N) (Inr (take n xs @ replicate (n - length xs) c))"
| "spec_edit N xs (EShrink n) = Inr (take n xs)"

text \<open>The calls that are meant: the positions are in the string, and no sum of sizes wraps around.\<close>

fun edit_ok :: "nat \<Rightarrow> 'c list \<Rightarrow> 'c bstr_edit \<Rightarrow> bool" where
  "edit_ok N xs (EInsert i cs) \<longleftrightarrow> i \<le> length xs \<and> N + length cs < size_limit"
| "edit_ok N xs (EInsertFill i n c) \<longleftrightarrow> i \<le> length xs \<and> N + n < size_limit"
| "edit_ok N xs (EInsertIter i cs) \<longleftrightarrow> i \<le> length xs"
| "edit_ok N xs (EErase i n) \<longleftrightarrow> i \<le> length xs"
| "edit_ok N xs (EEraseBetween i j) \<longleftrightarrow> i \<le> j \<and> j \<le> length xs"
| "edit_ok N xs (EAppend cs) \<longleftrightarrow> N + length cs < size_limit"
| "edit_ok N xs (EAppendFill n c) \<longleftrightarrow> N + n < size_limit"
| "edit_ok N xs _ \<longleftrightarrow> True"

text \<open>A string of the same block that reads as the list \<open>ys\<close>.\<close>

definition bstr_is :: "'c bstring \<Rightarrow> 'c list \<Rightarrow> 'c bstring \<Rightarrow> bool" where
  "bstr_is s ys s' \<longleftrightarrow> bstr_wf s' \<and> bstr_max_size s' = bstr_max_size s \<and> bstr_text s' = ys"

lemma bstr_isI:
  assumes "bstr_wf s" "length r = bstr_max_size s" "n = length ys" "n \<le> length r" "take n r = ys"
  shows "bstr_is s ys (s\<lparr>bstr_range := r, bstr_length := n\<rparr>)"
  using assms by (simp add: bstr_is_def bstr_wf_def bstr_max_size_def bstr_text_def)

lemma bstr_update_order:
  "s\<lparr>bstr_length := n, bstr_range := r\<rparr> = s\<lparr>bstr_range := r, bstr_length := n\<rparr>"
  by simp

lemmas bstr_wf_defs = bstr_wf_def bstr_max_size_def bstr_size_def

lemma MoveUp_eq:
  assumes "bstr_wf s" "i \<le> bstr_length s" "bstr_length s + n \<le> bstr_max_size s"
  shows "MoveUp s i n = Inr (s\<lparr>bstr_range := overwrite (bstr_range s) (i + n) (drop i (bstr_text s)),
    bstr_length := bstr_length s + n\<rparr>)"
  using assms
  by (auto simp: MoveUp_def mem_move_def bstr_text_def bstr_wf_defs drop_take)

lemma MoveDown_eq:
  assumes "bstr_wf s" "i + n \<le> bstr_length s"
  shows "MoveDown s i n = Inr (s\<lparr>bstr_range := overwrite (bstr_range s) i (drop (i + n) (bstr_text s)),
    bstr_length := bstr_length s - n\<rparr>)"
  using assms
  by (auto simp: MoveDown_def mem_move_def bstr_text_def bstr_wf_defs drop_take)

text \<open>What insertion and removal leave in the block.\<close>

lemma moved_up_text:
  assumes "bstr_wf s" "i \<le> bstr_length s" "bstr_length s + length ys \<le> bstr_max_size s"
  shows "bstr_is s (take i (bstr_text s) @ ys @ drop i (bstr_text s))
    (s\<lparr>bstr_range := overwrite (overwrite (bstr_range s) (i + length ys) (drop i (bstr_text s))) i ys,
       bstr_length := bstr_length s + length ys\<rparr>)"
proof (rule bstr_isI)
  let ?T = "bstr_text s" and ?r = "bstr_range s" and ?n = "length ys"
  have lens: "length ?T = bstr_length s" "bstr_length s + ?n \<le> length ?r"
    using assms by (simp_all add: bstr_wf_defs bstr_text_def)
  have T: "take i ?T = take i ?r" using assms(2) by (simp add: bstr_text_def min_def)
  have "overwrite (overwrite ?r (i + ?n) (drop i ?T)) i ys = take i ?r @ ys @ drop i ?T @ drop (bstr_length s + ?n) ?r"
    using assms(2) lens by (simp add: overwrite_def min_def add.commute)
  then show "take (bstr_length s + ?n) (overwrite (overwrite ?r (i + ?n) (drop i ?T)) i ys)
      = take i ?T @ ys @ drop i ?T"
    using assms(2) lens T by simp
qed (use assms in \<open>auto simp: bstr_wf_defs bstr_text_def\<close>)

lemma moved_down_text:
  assumes "bstr_wf s" "i + n \<le> bstr_length s"
  shows "bstr_is s (take i (bstr_text s) @ drop (i + n) (bstr_text s))
    (s\<lparr>bstr_range := overwrite (bstr_range s) i (drop (i + n) (bstr_text s)), bstr_length := bstr_length s - n\<rparr>)"
proof (rule bstr_isI)
  have l: "bstr_length s - n = i + length (drop (i + n) (bstr_text s))"
    and le: "i + length (drop (i + n) (bstr_text s)) \<le> length (bstr_range s)"
    using assms by (auto simp: bstr_wf_defs bstr_text_def)
  show "take (bstr_length s - n) (overwrite (bstr_range s) i (drop (i + n) (bstr_text s)))
      = take i (bstr_text s) @ drop (i + n) (bstr_text s)"
    unfolding l using take_overwrite_end [OF le] assms(2) by (simp add: bstr_text_def min_def)
qed (use assms in \<open>auto simp: bstr_wf_defs bstr_text_def\<close>)

lemma appended_text:
  assumes "bstr_wf s" "bstr_length s + length ys \<le> bstr_max_size s"
  shows "bstr_is s (bstr_text s @ ys)
    (s\<lparr>bstr_range := overwrite (bstr_range s) (bstr_length s) ys, bstr_length := bstr_length s + length ys\<rparr>)"
  by (rule bstr_isI) (use assms in \<open>auto simp: bstr_wf_defs bstr_text_def take_overwrite_end\<close>)

fun bstr_agrees :: "'c bstring \<Rightarrow> 'c list result \<Rightarrow> 'c bstring result \<Rightarrow> bool" where
  "bstr_agrees s (Inl f) r \<longleftrightarrow> r = Inl f"
| "bstr_agrees s (Inr ys) (Inr s') \<longleftrightarrow> bstr_is s ys s'"
| "bstr_agrees s (Inr ys) (Inl f) \<longleftrightarrow> False"

lemma agrees_checked:
  "(b \<longleftrightarrow> b') \<Longrightarrow> (b \<Longrightarrow> bstr_agrees s sp r) \<Longrightarrow> bstr_agrees s (checked b sp) (checked b' r)"
  by (cases b) auto

lemma agrees_assign_chars:
  "bstr_wf s \<Longrightarrow> n \<le> length cs \<Longrightarrow>
   bstr_agrees s (checked (n \<le> bstr_max_size s) (Inr (take n cs))) (AssignToRange_chars (bstr_range s) cs n)"
  unfolding AssignToRange_chars_def bstr_max_size_def
  by (rule agrees_checked)
    (auto simp: mem_copy_def bstr_is_def bstr_wf_defs bstr_text_def overwrite_def)

lemma agrees_assign_fill:
  "bstr_wf s \<Longrightarrow>
   bstr_agrees s (checked (n \<le> bstr_max_size s) (Inr (replicate n c))) (AssignToRange_fill (bstr_range s) n c)"
  unfolding AssignToRange_fill_def bstr_max_size_def
  by (rule agrees_checked)
    (auto simp: mem_fill_def bstr_is_def bstr_wf_defs bstr_text_def overwrite_def)

lemma agrees_insert_chars:
  assumes "bstr_wf s" "i \<le> bstr_length s" "bstr_max_size s + n < size_limit" "n \<le> length cs"
  shows "bstr_agrees s
    (checked (bstr_length s + n \<le> bstr_max_size s) (Inr (take i (bstr_text s) @ take n cs @ drop i (bstr_text s))))
    (bstr_insert_chars s i cs n)"
  unfolding bstr_insert_chars_def
proof (rule agrees_checked)
  have l: "length (take n cs) = n" using assms(4) by simp
  show "bstr_length s + n \<le> bstr_max_size s \<longleftrightarrow> size_t (bstr_length s + n) \<le> bstr_max_size s"
    using assms by (simp add: bstr_wf_defs)
  assume "bstr_length s + n \<le> bstr_max_size s"
  with assms l moved_up_text [of s i "take n cs"]
  show "bstr_agrees s (Inr (take i (bstr_text s) @ take n cs @ drop i (bstr_text s)))
     (bindR (MoveUp s i n) (\<lambda>s. bindR (put_chars s i cs n) (\<lambda>(s, _). Inr s)))"
    by (simp add: MoveUp_eq put_chars_eq bstr_wf_defs bstr_update_order)
qed

lemma agrees_insert_fill:
  assumes "bstr_wf s" "i \<le> bstr_length s" "bstr_max_size s + n < size_limit"
  shows "bstr_agrees s
    (checked (bstr_length s + n \<le> bstr_max_size s) (Inr (take i (bstr_text s) @ replicate n c @ drop i (bstr_text s))))
    (bstr_insert_fill s i n c)"
  unfolding bstr_insert_fill_def
proof (rule agrees_checked)
  show "bstr_length s + n \<le> bstr_max_size s \<longleftrightarrow> size_t (bstr_length s + n) \<le> bstr_max_size s"
    using assms by (simp add: bstr_wf_defs)
  assume "bstr_length s + n \<le> bstr_max_size s"
  with assms moved_up_text [of s i "replicate n c"]
  show "bstr_agrees s (Inr (take i (bstr_text s) @ replicate n c @ drop i (bstr_text s)))
     (bindR (MoveUp s i n) (\<lambda>s. bindR (put_fill s i n c) (\<lambda>(s, _). Inr s)))"
    by (simp add: MoveUp_eq put_fill_eq bstr_wf_defs bstr_update_order)
qed

lemma agrees_insert_at_iter:
  assumes "bstr_wf s" "i \<le> bstr_length s"
  shows "bstr_agrees s
    (Inr (take i (bstr_text s) @ take (bstr_max_size s - bstr_length s) cs @ drop i (bstr_text s)))
    (bindR (bstr_insert_at_iter s i cs) (\<lambda>(s, _). Inr s))"
proof -
  let ?n = "min (bstr_max_size s - bstr_length s) (length cs)"
  have n: "sub_t (bstr_max_size s) (bstr_length s) = bstr_max_size s - bstr_length s"
    using assms by (simp add: bstr_wf_def)
  have room: "bstr_length s + ?n \<le> bstr_max_size s" using assms by (auto simp: bstr_wf_def min_def)
  have t: "take (bstr_max_size s - bstr_length s) cs = take ?n cs" by (simp add: min_def)
  have l: "length (take ?n cs) = ?n" by simp
  from moved_up_text [OF assms, of "take ?n cs"] room assms show ?thesis
    unfolding bstr_insert_at_iter_def Let_def n t l
    by (simp add: MoveUp_eq put_chars_eq bstr_wf_defs bstr_update_order)
qed

lemma agrees_erase_between:
  assumes "bstr_wf s" "i \<le> j" "j \<le> bstr_length s"
  shows "bstr_agrees s (Inr (take i (bstr_text s) @ drop j (bstr_text s)))
    (bindR (bstr_erase_between s i j) (\<lambda>(s, _). Inr s))"
  using assms moved_down_text [of s i "j - i"]
  by (simp add: bstr_erase_between_def MoveDown_eq bstr_wf_defs)

lemma agrees_erase:
  assumes "bstr_wf s" "i \<le> bstr_length s"
  shows "bstr_agrees s (Inr (take i (bstr_text s) @ drop (i + n) (bstr_text s))) (bstr_erase s i n)"
proof -
  let ?n = "min n (bstr_length s - i)"
  have n: "sub_t (bstr_length s) i = bstr_length s - i" using assms by (simp add: bstr_wf_def)
  have d: "drop (i + n) (bstr_text s) = drop (i + ?n) (bstr_text s)"
    using assms by (simp add: min_def)
  show ?thesis unfolding bstr_erase_def n d
    using moved_down_text [of s i ?n] assms by (simp add: MoveDown_eq)
qed

lemma agrees_append_chars:
  assumes "bstr_wf s" "bstr_max_size s + n < size_limit" "n \<le> length cs"
  shows "bstr_agrees s (checked (bstr_length s + n \<le> bstr_max_size s) (Inr (bstr_text s @ take n cs)))
    (bstr_append_chars s cs n)"
  unfolding bstr_append_chars_def
  by (rule agrees_checked)
    (use assms appended_text [of s "take n cs"] in \<open>auto simp: append_chars_eq bstr_wf_def\<close>)

lemma agrees_append_fill:
  assumes "bstr_wf s" "bstr_max_size s + n < size_limit"
  shows "bstr_agrees s (checked (bstr_length s + n \<le> bstr_max_size s) (Inr (bstr_text s @ replicate n c)))
    (bstr_append_fill s n c)"
  unfolding bstr_append_fill_def
  by (rule agrees_checked)
    (use assms appended_text [of s "replicate n c"] in \<open>auto simp: append_fill_eq bstr_wf_def\<close>)

lemma agrees_append_iter:
  assumes "bstr_wf s"
  shows "bstr_agrees s (Inr (take (bstr_max_size s) (bstr_text s @ cs))) (bstr_append_iter s cs)"
proof -
  let ?ys = "take (bstr_max_size s - bstr_length s) cs"
  have "take (bstr_max_size s) (bstr_text s @ cs) = bstr_text s @ ?ys"
    using assms by (simp add: bstr_wf_defs bstr_text_def)
  moreover have "bstr_length s + length ?ys \<le> bstr_max_size s" using assms by (auto simp: bstr_wf_def)
  moreover have "take (min (length cs) (bstr_max_size s - bstr_length s)) cs = ?ys" by (simp add: min_def)
  ultimately show ?thesis
    using appended_text [OF assms, of ?ys] assms
    by (simp add: bstr_append_iter_eq Let_def min.commute)
qed

lemma agrees_assign_iter:
  assumes "bstr_wf s"
  shows "bstr_agrees s (Inr (take (bstr_max_size s) cs)) (AssignToRange_iter (bstr_range s) cs)"
proof -
  let ?s = "\<lparr>bstr_range = bstr_range s, bstr_length = 0\<rparr>"
  have "bstr_wf ?s" "bstr_text ?s = []" "bstr_max_size ?s = bstr_max_size s"
    using assms by (simp_all add: bstr_wf_defs bstr_text_def)
  with agrees_append_iter [of ?s cs] show ?thesis
    by (cases "bstr_append_iter ?s cs") (auto simp: AssignToRange_iter_def assign_loop_eq bstr_is_def)
qed

lemma agrees_push_back:
  assumes "bstr_wf s"
  shows "bstr_agrees s (checked (bstr_length s < bstr_max_size s) (Inr (bstr_text s @ [c]))) (bstr_push_back s c)"
  unfolding bstr_push_back_def
proof (rule agrees_checked)
  show "bstr_length s < bstr_max_size s \<longleftrightarrow> bstr_length s \<noteq> bstr_max_size s"
    using assms by (auto simp: bstr_wf_def)
  assume room: "bstr_length s < bstr_max_size s"
  then have "overwrite (bstr_range s) (bstr_length s) [c] = (bstr_range s)[bstr_length s := c]"
    by (simp add: overwrite_def bstr_max_size_def upd_conv_take_nth_drop)
  with room assms appended_text [of s "[c]"] show "bstr_agrees s (Inr (bstr_text s @ [c]))
    (bindR (bstr_put s (bstr_length s) c) (\<lambda>s. Inr (s\<lparr>bstr_length := size_t (bstr_length s + 1)\<rparr>)))"
    by (simp add: bstr_put_def bstr_wf_def)
qed

lemma agrees_shorter:
  "bstr_wf s \<Longrightarrow> n \<le> bstr_length s \<Longrightarrow> bstr_is s (take n (bstr_text s)) (s\<lparr>bstr_length := n\<rparr>)"
  by (simp add: bstr_is_def bstr_wf_defs bstr_text_def min_def)

lemma agrees_pop_back:
  assumes "bstr_wf s"
  shows "bstr_agrees s (checked (bstr_text s \<noteq> []) (Inr (butlast (bstr_text s)))) (bstr_pop_back s)"
  unfolding bstr_pop_back_def
  by (rule agrees_checked)
    (use assms agrees_shorter [of s "bstr_length s - 1"] in
      \<open>auto simp: butlast_conv_take bstr_wf_def simp flip: length_greater_0_conv\<close>)

lemma agrees_resize:
  assumes "bstr_wf s"
  shows "bstr_agrees s (checked (n \<le> bstr_max_size s)
      (Inr (take n (bstr_text s) @ replicate (n - bstr_length s) c))) (bstr_resize s n c)"
  unfolding bstr_resize_def
proof (rule agrees_checked)
  assume n: "n \<le> bstr_max_size s"
  show "bstr_agrees s (Inr (take n (bstr_text s) @ replicate (n - bstr_length s) c))
    (bindR (if n > bstr_length s then mem_fill (bstr_range s) (bstr_length s) (n - bstr_length s) c
            else Inr (bstr_range s)) (\<lambda>r. Inr (s\<lparr>bstr_range := r, bstr_length := n\<rparr>)))"
  proof (cases "n > bstr_length s")
    case True
    with n assms appended_text [of s "replicate (n - bstr_length s) c"] show ?thesis
      by (simp add: mem_fill_def bstr_wf_defs)
  next
    case False
    with assms agrees_shorter [of s n] show ?thesis by simp
  qed
qed simp

lemma bstr_do_agrees:
  assumes "bstr_wf s" "edit_ok (bstr_max_size s) (bstr_text s) e"
  shows "bstr_agrees s (spec_edit (bstr_max_size s) (bstr_text s) e) (bstr_do s e)"
proof (cases e)
  case (EAssign cs)
  then show ?thesis using assms agrees_assign_chars [of s "length cs" cs]
    by (simp add: bstr_assign_std_def AssignToRange_std_def)
next
  case (EInsert i cs)
  then show ?thesis using assms agrees_insert_chars [of s i "length cs" cs] by (simp add: bstr_insert_std_def)
next
  case (EAppend cs)
  then show ?thesis using assms agrees_append_chars [of s "length cs" cs] by (simp add: bstr_append_std_def)
next
  case (EAppendIter cs)
  then show ?thesis using assms agrees_append_iter [of s cs] by (simp del: take_append)
qed (use assms agrees_shorter [of s] in \<open>auto simp: bstr_assign_fill_def bstr_assign_iter_def
    agrees_assign_fill agrees_assign_iter agrees_insert_fill agrees_insert_at_iter agrees_erase
    agrees_erase_between agrees_push_back agrees_pop_back agrees_append_fill agrees_append_iter
    agrees_resize bstr_clear_def bstr_shrink_def bstr_is_def\<close>)

fun bstr_dos :: "'c bstring \<Rightarrow> 'c bstr_edit list \<Rightarrow> 'c bstring result" where
  "bstr_dos s [] = Inr s"
| "bstr_dos s (e # es) = bindR (bstr_do s e) (\<lambda>s. bstr_dos s es)"

fun spec_edits :: "nat \<Rightarrow> 'c list \<Rightarrow> 'c bstr_edit list \<Rightarrow> 'c list result" where
  "spec_edits N xs [] = Inr xs"
| "spec_edits N xs (e # es) = bindR (spec_edit N xs e) (\<lambda>xs. spec_edits N xs es)"

fun edits_ok :: "nat \<Rightarrow> 'c list \<Rightarrow> 'c bstr_edit list \<Rightarrow> bool" where
  "edits_ok N xs [] \<longleftrightarrow> True"
| "edits_ok N xs (e # es) \<longleftrightarrow> edit_ok N xs e
     \<and> (case spec_edit N xs e of Inl _ \<Rightarrow> True | Inr ys \<Rightarrow> edits_ok N ys es)"

text \<open>C14.
  A \<^verbatim>\<open>BoundedString\<close> refines a list of bounded length: every sequence of assignments, insertions,
  removals, appends and changes of size, with positions in the string, gives the text that the
  corresponding list operations give, keeps the size of the block and the string inside it, and fails
  an assertion exactly when a result would be longer than the block or a character is removed from an
  empty string; the overloads that take iterators take the characters that fit instead. No memory
  outside the block is written.
\<close>

theorem BoundedString_refines_list:
  assumes "bstr_wf s" and "edits_ok (bstr_max_size s) (bstr_text s) es"
  shows "bstr_agrees s (spec_edits (bstr_max_size s) (bstr_text s) es) (bstr_dos s es)"
  using assms
proof (induction es arbitrary: s)
  case Nil
  then show ?case by (simp add: bstr_is_def)
next
  case (Cons e es)
  let ?sp = "spec_edit (bstr_max_size s) (bstr_text s) e"
  have step: "bstr_agrees s ?sp (bstr_do s e)" using Cons.prems by (intro bstr_do_agrees) auto
  show ?case
  proof (cases ?sp)
    case (Inl f)
    with step show ?thesis by simp
  next
    case (Inr ys)
    with step obtain s' where s': "bstr_do s e = Inr s'" "bstr_is s ys s'"
      by (cases "bstr_do s e") auto
    have "bstr_agrees s' (spec_edits (bstr_max_size s') (bstr_text s') es) (bstr_dos s' es)"
      using Cons.IH [of s'] Cons.prems(2) Inr s'(2) by (simp add: bstr_is_def)
    with Inr s' show ?thesis
      by (cases "spec_edits (bstr_max_size s) ys es"; cases "bstr_dos s' es") (auto simp: bstr_is_def)
  qed
qed

theorem BoundedString_refines_list_witness:
  "bstr_agrees \<lparr>bstr_range = replicate 6 (0::int), bstr_length = 0\<rparr> (Inr [1, 9, 7, 7, 4])
     (bstr_dos \<lparr>bstr_range = replicate 6 0, bstr_length = 0\<rparr>
       [EAssign [1, 2, 3, 4], EErase 1 2, EInsertFill 1 2 7, EInsert 1 [9]])
   \<and> bstr_dos \<lparr>bstr_range = replicate 6 (0::int), bstr_length = 0\<rparr>
       [EAssign [1, 2, 3, 4], EInsert 4 [5, 6, 7]] = Inl AssertFailed"
proof -
  let ?s = "\<lparr>bstr_range = replicate 6 (0::int), bstr_length = 0\<rparr>"
  have wf: "bstr_wf ?s" and t: "bstr_text ?s = []" "bstr_max_size ?s = 6"
    by (simp_all add: bstr_wf_defs bstr_text_def size_limit_def)
  show ?thesis
    using BoundedString_refines_list [OF wf, of "[EAssign [1, 2, 3, 4], EErase 1 2, EInsertFill 1 2 7, EInsert 1 [9]]"]
      BoundedString_refines_list [OF wf, of "[EAssign [1, 2, 3, 4], EInsert 4 [5, 6, 7]]"]
    unfolding t by (simp add: size_limit_def numeral_2_eq_2)
qed

subsection \<open>The overloads agree\<close>

lemma put_chars_take: "n \<le> length src \<Longrightarrow> put_chars s i (take n src) n = put_chars s i src n"
  by (induction s i src n rule: put_chars.induct) (auto intro!: bindR_cong)

lemma append_chars_take: "n \<le> length src \<Longrightarrow> append_chars s (take n src) n = append_chars s src n"
  by (induction s src n rule: append_chars.induct) (auto intro!: bindR_cong)

lemma mem_copy_take: "n \<le> length src \<Longrightarrow> mem_copy xs dst (take n src) n = mem_copy xs dst src n"
  by (simp add: mem_copy_def)

lemma strlen_text: "0 \<notin> set cs \<Longrightarrow> strlen (cs @ 0 # junk) = Inr (length cs)"
  by (simp add: strlen_def takeWhile_append takeWhile_eq_all_conv)

text \<open>Characters behind a pointer, of which the first \<open>n\<close> are used.\<close>

lemma bstr_chars_take:
  assumes "n \<le> length cs"
  shows "bstr_assign_chars s cs n = bstr_assign_std s (take n cs)"
    "bstr_insert_chars s i cs n = bstr_insert_std s i (take n cs)"
    "bstr_append_chars s cs n = bstr_append_std s (take n cs)"
    "ReplaceImpl_chars s i m cs n = bstr_replace_std s i m (take n cs)"
  using assms
  by (simp_all add: bstr_assign_chars_def bstr_assign_std_def AssignToRange_std_def AssignToRange_chars_def
      bstr_insert_chars_def bstr_insert_std_def bstr_append_chars_def bstr_append_std_def
      ReplaceImpl_chars_def bstr_replace_std_def put_chars_take append_chars_take mem_copy_take min_absorb2)

text \<open>
  The overloads of an operation agree: with another \<^verbatim>\<open>BoundedString\<close>, a part of it, a C string or a
  part of a \<^verbatim>\<open>std::string\<close> as the argument, \<^verbatim>\<open>assign\<close>, \<^verbatim>\<open>insert\<close>, \<^verbatim>\<open>append\<close> and \<^verbatim>\<open>replace\<close> do what they do
  with the \<^verbatim>\<open>std::string\<close> of the same text, also where they fail.
\<close>

theorem BoundedString_overloads_agree:
  assumes "bstr_wf other" and "pos + n \<le> bstr_length other" and "0 \<notin> set cs"
  shows "bstr_assign_str s other = bstr_assign_std s (bstr_text other)
    \<and> bstr_insert_str s i other = bstr_insert_std s i (bstr_text other)
    \<and> bstr_append_str s other = bstr_append_std s (bstr_text other)
    \<and> bstr_replace_str s i m other = bstr_replace_std s i m (bstr_text other)
    \<and> bstr_assign_part s other pos n = bstr_assign_std s (take n (drop pos (bstr_text other)))
    \<and> bstr_insert_part s i other pos n = bstr_insert_std s i (take n (drop pos (bstr_text other)))
    \<and> bstr_append_part s other pos n = bstr_append_std s (take n (drop pos (bstr_text other)))
    \<and> bstr_insert_std_part s i (bstr_text other) pos n = bstr_insert_std s i (take n (drop pos (bstr_text other)))
    \<and> bstr_assign_cstr s (cs @ 0 # junk) = bstr_assign_std s cs
    \<and> bstr_insert_cstr s i (cs @ 0 # junk) = bstr_insert_std s i cs
    \<and> bstr_append_cstr s (cs @ 0 # junk) = bstr_append_std s cs
    \<and> bstr_replace_cstr s i m (cs @ 0 # junk) = bstr_replace_std s i m cs"
proof -
  let ?r = "bstr_range other" and ?l = "bstr_length other"
  have l: "?l \<le> length ?r" using assms(1) by (simp add: bstr_wf_defs)
  have part: "take n (drop pos (bstr_text other)) = take n (drop pos ?r)" "n \<le> length (drop pos ?r)"
    using assms(2) l by (simp_all add: bstr_text_def drop_take min_def)
  have c: "length cs \<le> length (cs @ 0 # junk)" "take (length cs) (cs @ 0 # junk) = cs" by simp_all
  have "bstr_assign_str s other = bstr_assign_chars s ?r ?l" "bstr_insert_str s i other = bstr_insert_chars s i ?r ?l"
    "bstr_append_str s other = bstr_append_chars s ?r ?l" "bstr_replace_str s i m other = ReplaceImpl_chars s i m ?r ?l"
    by (simp_all add: bstr_assign_str_def AssignToRange_str_def bstr_assign_chars_def AssignToRange_chars_def
        bstr_insert_str_def bstr_insert_chars_def bstr_append_str_def bstr_append_chars_def bstr_replace_str_def
        bstr_size_def)
  moreover have "bstr_assign_part s other pos n = bstr_assign_chars s (drop pos ?r) n"
    "bstr_insert_part s i other pos n = bstr_insert_chars s i (drop pos ?r) n"
    "bstr_append_part s other pos n = bstr_append_chars s (drop pos ?r) n"
    using assms(2)
    by (simp_all add: bstr_assign_part_def AssignToRange_part_def bstr_assign_chars_def AssignToRange_chars_def
        bstr_insert_part_def bstr_insert_chars_def bstr_append_part_def bstr_append_chars_def bstr_size_def Let_def min_def)
  moreover have "bstr_insert_std_part s i (bstr_text other) pos n = bstr_insert_std s i (take n (drop pos (bstr_text other)))"
    using assms by (simp add: bstr_insert_std_part_def bstr_chars_take)
  moreover have "bstr_assign_cstr s (cs @ 0 # junk) = bstr_assign_chars s (cs @ 0 # junk) (length cs)"
    "bstr_insert_cstr s i (cs @ 0 # junk) = bstr_insert_chars s i (cs @ 0 # junk) (length cs)"
    "bstr_append_cstr s (cs @ 0 # junk) = bstr_append_chars s (cs @ 0 # junk) (length cs)"
    "bstr_replace_cstr s i m (cs @ 0 # junk) = ReplaceImpl_chars s i m (cs @ 0 # junk) (length cs)"
    using strlen_text [OF assms(3)]
    by (simp_all add: bstr_assign_cstr_def AssignToRange_cstr_def bstr_assign_chars_def bstr_insert_cstr_def
        bstr_append_cstr_def bstr_replace_cstr_def)
  ultimately show ?thesis
    unfolding part(1) by (simp only: bstr_chars_take [OF l] bstr_chars_take [OF part(2)] bstr_chars_take [OF c(1)]
        c(2) bstr_text_def simp_thms)
qed

subsection \<open>Assigning from a position\<close>

text \<open>
  \<^verbatim>\<open>assign(other, pos, count)\<close> limits \<^verbatim>\<open>count\<close> to the size of \<open>other\<close>, not to what is left of it
  behind \<^verbatim>\<open>pos\<close>: with a count that reaches past the end, which the default \<^verbatim>\<open>npos\<close> of the constructor
  does, it gives a text as long as \<open>other\<close> that ends with characters behind the text of \<open>other\<close>, or
  reads outside its block.
\<close>

lemma assign_part_past_the_end:
  assumes "bstr_wf s" "bstr_wf other" "bstr_length other \<le> n" "bstr_length other \<le> bstr_max_size s"
  shows "bstr_agrees s
    (if bstr_length other = 0 \<or> pos + bstr_length other \<le> bstr_max_size other
     then Inr (take (bstr_length other) (drop pos (bstr_range other))) else Inl UndefinedBehaviour)
    (bstr_assign_part s other pos n)"
  using assms
  by (auto simp: bstr_assign_part_def AssignToRange_part_def mem_copy_def bstr_is_def bstr_wf_defs bstr_text_def
      overwrite_def Let_def min_def)

subsection \<open>Replacing moves too much\<close>

lemma ReplaceImpl_moved_eq:
  assumes "bstr_wf s" "pos + count1 \<le> bstr_length s" "2 * bstr_max_size s < size_limit"
  shows "ReplaceImpl_moved s pos count1 = bstr_length s - count1 + pos"
proof (cases "pos = 0")
  case True
  have "sub_t 0 0 = 0" by (simp add: sub_t_def size_t_def)
  with True assms show ?thesis by (simp add: ReplaceImpl_moved_def bstr_wf_def)
next
  case False
  then have "sub_t 0 pos = size_limit - pos" using assms by (simp add: sub_t_def bstr_wf_def size_limit_def)
  then have "ReplaceImpl_moved s pos count1 = size_t (bstr_length s - count1 + (size_limit - (size_limit - pos)))"
    using assms by (simp add: ReplaceImpl_moved_def bstr_wf_def sub_t_def [of _ "size_limit - pos"])
  also have "\<dots> = bstr_length s - count1 + pos" using assms by (simp add: bstr_wf_def)
  finally show ?thesis .
qed

lemma take_three: "length a = i \<Longrightarrow> length b = n \<Longrightarrow> j \<le> length m
   \<Longrightarrow> take (i + (n + j)) (a @ b @ m @ d) = a @ b @ take j m"
  by simp

text \<open>What the two moves leave, when they stay in the block.\<close>

lemma replaced_text:
  assumes "bstr_wf s" "pos + count1 \<le> bstr_length s"
    and "2 * pos + max count1 (length ys) + (bstr_length s - count1) \<le> bstr_max_size s"
  shows "bstr_is s (take pos (bstr_text s) @ ys @ drop (pos + count1) (bstr_text s))
    (s\<lparr>bstr_range := overwrite (overwrite (bstr_range s) (pos + length ys)
         (take (bstr_length s - count1 + pos) (drop (pos + count1) (bstr_range s)))) pos ys,
       bstr_length := bstr_length s - count1 + length ys\<rparr>)"
proof (rule bstr_isI)
  let ?T = "bstr_text s" and ?r = "bstr_range s" and ?n = "length ys" and ?l = "bstr_length s"
  let ?m = "take (?l - count1 + pos) (drop (pos + count1) ?r)"
  have lens: "length ?m = ?l - count1 + pos" "pos + ?n + length ?m \<le> length ?r"
    using assms by (auto simp: bstr_wf_defs)
  have T: "take pos ?T = take pos ?r" using assms(2) by (simp add: bstr_text_def min_def)
  have m: "take (?l - count1 - pos) ?m = drop (pos + count1) ?T"
    using assms(2) by (simp add: bstr_text_def drop_take min_def add.commute)
  have r: "overwrite (overwrite ?r (pos + ?n) ?m) pos ys = take pos ?r @ ys @ ?m @ drop (pos + ?n + length ?m) ?r"
    using lens assms(2) by (simp add: overwrite_def min_def)
  show "take (?l - count1 + ?n) (overwrite (overwrite ?r (pos + ?n) ?m) pos ys) = take pos ?T @ ys @ drop (pos + count1) ?T"
  proof -
    have k: "?l - count1 + ?n = pos + (?n + (?l - count1 - pos))" using assms(2) by simp
    have "length (take pos ?r) = pos" "?l - count1 - pos \<le> length ?m" using lens assms(2) by simp_all
    then show ?thesis unfolding r k T by (simp only: take_three m)
  qed
  show "?l - count1 + ?n = length (take pos ?T @ ys @ drop (pos + count1) ?T)"
    using assms by (simp add: bstr_text_def bstr_wf_defs)
  show "length (overwrite (overwrite ?r (pos + ?n) ?m) pos ys) = bstr_max_size s"
    using lens by (simp add: bstr_max_size_def)
  then show "?l - count1 + ?n \<le> length (overwrite (overwrite ?r (pos + ?n) ?m) pos ys)"
    using assms by (simp add: bstr_max_size_def)
qed (rule assms(1))

text \<open>C16.
  \<^verbatim>\<open>replace\<close> of the \<open>count1\<close> characters at \<open>pos\<close> by a text moves \<open>2 * pos\<close> characters too many (the
  difference of the pointers in \<^verbatim>\<open>ReplaceImpl\<close> has the wrong sign). A result that is longer than the
  block fails the assertion; otherwise, where the overlong move stays in the block, the characters are
  replaced as meant, and where it does not, the call reads or writes outside the block, which for
  \<open>pos > 0\<close> happens to strings that are nearly full.
\<close>

theorem BoundedString_replace_moves_too_much:
  assumes "bstr_wf s" and "pos + count1 \<le> bstr_length s"
    and "2 * bstr_max_size s < size_limit" and "bstr_max_size s + length cs < size_limit"
  shows "bstr_agrees s
    (checked (bstr_length s - count1 + length cs \<le> bstr_max_size s)
      (if 2 * pos + max count1 (length cs) + (bstr_length s - count1) \<le> bstr_max_size s
       then Inr (take pos (bstr_text s) @ cs @ drop (pos + count1) (bstr_text s))
       else Inl UndefinedBehaviour))
    (bstr_replace_std s pos count1 cs)"
  unfolding bstr_replace_std_def ReplaceImpl_chars_def
proof (rule agrees_checked)
  let ?l = "bstr_length s" and ?n = "length cs" and ?N = "bstr_max_size s"
  have l: "sub_t ?l count1 = ?l - count1" "size_t (pos + ?n) = pos + ?n" "size_t (pos + count1) = pos + count1"
    "size_t (sub_t ?l count1 + ?n) = ?l - count1 + ?n"
    using assms by (simp_all add: bstr_wf_def)
  have len: "size_t (?l + sub_t ?n count1) = ?l - count1 + ?n"
  proof (cases "count1 \<le> ?n")
    case True
    then show ?thesis using assms by (simp add: bstr_wf_def)
  next
    case False
    then have "sub_t ?n count1 = size_limit - (count1 - ?n)"
      using assms by (simp add: sub_t_def size_t_def bstr_wf_def)
    then have "?l + sub_t ?n count1 = ?l - count1 + ?n + size_limit"
      using assms False by (simp add: bstr_wf_def)
    then have "size_t (?l + sub_t ?n count1) = (?l - count1 + ?n) mod size_limit"
      by (simp only: size_t_def mod_add_self2)
    then show ?thesis using assms False by (simp add: bstr_wf_def)
  qed
  show "?l - count1 + ?n \<le> ?N \<longleftrightarrow> size_t (sub_t ?l count1 + ?n) \<le> ?N" unfolding l(4) ..
  assume room: "?l - count1 + ?n \<le> ?N"
  show "bstr_agrees s (if 2 * pos + max count1 ?n + (?l - count1) \<le> ?N
       then Inr (take pos (bstr_text s) @ cs @ drop (pos + count1) (bstr_text s)) else Inl UndefinedBehaviour)
     (bindR (mem_move (bstr_range s) (size_t (pos + ?n)) (size_t (pos + count1)) (ReplaceImpl_moved s pos count1))
       (\<lambda>r. bindR (mem_copy r pos cs ?n)
       (\<lambda>r. Inr (s\<lparr>bstr_range := r, bstr_length := size_t (?l + sub_t ?n count1)\<rparr>))))"
    unfolding l(2,3) len ReplaceImpl_moved_eq [OF assms(1-3)]
    using replaced_text [OF assms(1,2), of cs] room assms(1,2)
    by (auto simp: mem_move_def mem_copy_def bstr_wf_defs)
qed

theorem BoundedString_replace_moves_too_much_witness:
  "bstr_replace_std \<lparr>bstr_range = [1, 2, 3, 4, 0 :: int], bstr_length = 4\<rparr> 1 2 [9, 9, 9]
     = Inl UndefinedBehaviour
   \<and> bstr_agrees \<lparr>bstr_range = [1, 2, 3, 4, 0, 0, 0 :: int], bstr_length = 4\<rparr> (Inr [1, 9, 9, 9, 4])
       (bstr_replace_std \<lparr>bstr_range = [1, 2, 3, 4, 0, 0, 0], bstr_length = 4\<rparr> 1 2 [9, 9, 9])"
proof -
  let ?s = "\<lparr>bstr_range = [1, 2, 3, 4, 0 :: int], bstr_length = 4\<rparr>"
  let ?t = "\<lparr>bstr_range = [1, 2, 3, 4, 0, 0, 0 :: int], bstr_length = 4\<rparr>"
  have s: "bstr_wf ?s" "bstr_wf ?t" by (simp_all add: bstr_wf_defs size_limit_def)
  show ?thesis
    using BoundedString_replace_moves_too_much [OF s(1), of 1 2 "[9, 9, 9]"]
      BoundedString_replace_moves_too_much [OF s(2), of 1 2 "[9, 9, 9]"]
    by (simp add: bstr_max_size_def bstr_text_def size_limit_def)
qed

theorem BoundedString_overloads_agree_witness:
  "bstr_insert_part \<lparr>bstr_range = [1, 2, 0, 0 :: int], bstr_length = 2\<rparr> 1
     \<lparr>bstr_range = [5, 6, 7], bstr_length = 3\<rparr> 1 2
   = bstr_insert_std \<lparr>bstr_range = [1, 2, 0, 0], bstr_length = 2\<rparr> 1 [6, 7]
   \<and> bstr_append_cstr \<lparr>bstr_range = [1, 2, 0, 0 :: int], bstr_length = 2\<rparr> [8, 9, 0, 5]
   = bstr_append_std \<lparr>bstr_range = [1, 2, 0, 0], bstr_length = 2\<rparr> [8, 9]"
proof -
  have o: "bstr_wf \<lparr>bstr_range = [5, 6, 7 :: int], bstr_length = 3\<rparr>"
    by (simp add: bstr_wf_defs size_limit_def)
  show ?thesis
    using BoundedString_overloads_agree [OF o, of 1 2 "[8, 9]" "\<lparr>bstr_range = [1, 2, 0, 0], bstr_length = 2\<rparr>" 1 0 "[5]"]
    by (simp add: bstr_text_def numeral_2_eq_2)
qed

text \<open>The overload that fills makes the same moves.\<close>

lemma ReplaceImpl_fill_eq:
  "ReplaceImpl_fill s pos count1 ch count2 = ReplaceImpl_chars s pos count1 (replicate count2 ch) count2"
  by (simp add: ReplaceImpl_fill_def ReplaceImpl_chars_def mem_fill_def mem_copy_def cong: if_cong)

subsection \<open>Swapping\<close>

lemma swap_both_eq:
  assumes "bstr_wf a" "bstr_wf b" "i \<le> bstr_length a" "i \<le> bstr_length b"
  shows "let m = min (bstr_length a) (bstr_length b) - i in swap_both i a b
    = Inr (a\<lparr>bstr_range := overwrite (bstr_range a) i (take m (drop i (bstr_range b)))\<rparr>,
           b\<lparr>bstr_range := overwrite (bstr_range b) i (take m (drop i (bstr_range a)))\<rparr>)"
  using assms
proof (induction i a b rule: swap_both.induct)
  case (1 i a b)
  show ?case
  proof (cases "i < bstr_size a \<and> i < bstr_size b")
    case True
    then have i: "i < bstr_length a" "i < bstr_length b" by (simp_all add: bstr_size_def)
    let ?x = "bstr_range a ! i" and ?y = "bstr_range b ! i"
    let ?a = "a\<lparr>bstr_range := (bstr_range a)[i := ?y]\<rparr>" and ?b = "b\<lparr>bstr_range := (bstr_range b)[i := ?x]\<rparr>"
    have r: "i < length (bstr_range a)" "i < length (bstr_range b)" using "1.prems" i by (simp_all add: bstr_wf_defs)
    have puts: "bstr_index a i = Inr ?x" "bstr_index b i = Inr ?y" "bstr_put a i ?y = Inr ?a" "bstr_put b i ?x = Inr ?b"
      using r by (simp_all add: bstr_index_def bstr_put_def bstr_max_size_def)
    have step: "swap_both i a b = swap_both (Suc i) ?a ?b"
      using True by (subst swap_both.simps) (simp add: puts)
    obtain k where k: "min (bstr_length a) (bstr_length b) - i = Suc k"
      "min (bstr_length a) (bstr_length b) - Suc i = k"
      using i by (metis Suc_diff_Suc min_less_iff_conj)
    have "let m = min (bstr_length ?a) (bstr_length ?b) - Suc i in swap_both (Suc i) ?a ?b
      = Inr (?a\<lparr>bstr_range := overwrite (bstr_range ?a) (Suc i) (take m (drop (Suc i) (bstr_range ?b)))\<rparr>,
           ?b\<lparr>bstr_range := overwrite (bstr_range ?b) (Suc i) (take m (drop (Suc i) (bstr_range ?a)))\<rparr>)"
      using "1.prems" i by (intro "1.IH" [OF True puts]) (simp_all add: bstr_wf_defs)
    then show ?thesis
      using r k unfolding step Let_def
      by (simp add: overwrite_Cons flip: Cons_nth_drop_Suc)
  next
    case False
    then have "min (bstr_length a) (bstr_length b) - i = 0" by (auto simp: bstr_size_def)
    moreover have "i \<le> length (bstr_range a)" "i \<le> length (bstr_range b)"
      using "1.prems" by (simp_all add: bstr_wf_defs)
    ultimately show ?thesis using False by (subst swap_both.simps) (auto simp: bstr_size_def)
  qed
qed

lemma swap_tail_eq:
  assumes "bstr_wf a" "bstr_wf b" "i \<le> bstr_length a" "bstr_length a \<le> bstr_max_size b"
  shows "swap_tail i a b
    = Inr (b\<lparr>bstr_range := overwrite (bstr_range b) i (drop i (bstr_text a))\<rparr>)"
  using assms
proof (induction i a b rule: swap_tail.induct)
  case (1 i a b)
  show ?case
  proof (cases "i < bstr_size a")
    case True
    then have r: "i < length (bstr_range a)" "i < length (bstr_range b)" "i < length (bstr_text a)"
      using "1.prems" by (simp_all add: bstr_wf_defs bstr_text_def)
    let ?y = "bstr_range a ! i"
    let ?b = "b\<lparr>bstr_range := (bstr_range b)[i := ?y]\<rparr>"
    have puts: "bstr_index a i = Inr ?y" "bstr_put b i ?y = Inr ?b"
      using r by (simp_all add: bstr_index_def bstr_put_def bstr_max_size_def)
    have "swap_tail (Suc i) a ?b = Inr (?b\<lparr>bstr_range := overwrite (bstr_range ?b) (Suc i) (drop (Suc i) (bstr_text a))\<rparr>)"
      using "1.prems" True by (intro "1.IH" [OF True puts]) (simp_all add: bstr_wf_defs)
    moreover have "?y = bstr_text a ! i" using True by (simp add: bstr_text_def bstr_size_def)
    moreover have "swap_tail i a b = swap_tail (Suc i) a ?b"
      using True by (subst swap_tail.simps) (simp add: puts)
    ultimately show ?thesis using r by (simp add: overwrite_Cons Cons_nth_drop_Suc)
  next
    case False
    with "1.prems" show ?thesis
      by (subst swap_tail.simps) (auto simp: bstr_wf_defs bstr_text_def overwrite_def)
  qed
qed

lemma swap_tail_stop: "bstr_length from \<le> i \<Longrightarrow> swap_tail i from to = Inr to"
  by (subst swap_tail.simps) (simp add: bstr_size_def)

text \<open>The longer string gives the other one its tail.\<close>

lemma bstr_swap_longer:
  assumes "bstr_wf a" "bstr_wf b" "bstr_length a \<le> bstr_length b" "bstr_length b \<le> bstr_max_size a"
  shows "bstr_is a (bstr_text b) (a\<lparr>bstr_range := overwrite (overwrite (bstr_range a) 0 (take (bstr_length a) (bstr_range b)))
        (bstr_length a) (drop (bstr_length a) (bstr_text b)), bstr_length := bstr_length b\<rparr>)
    \<and> bstr_is b (bstr_text a) (b\<lparr>bstr_range := overwrite (bstr_range b) 0 (take (bstr_length a) (bstr_range a)),
        bstr_length := bstr_length a\<rparr>)"
proof
  let ?l = "bstr_length a"
  have lens: "?l \<le> length (bstr_range a)" "bstr_length b \<le> length (bstr_range b)" "bstr_length b \<le> length (bstr_range a)"
    using assms by (simp_all add: bstr_wf_defs)
  have "overwrite (overwrite (bstr_range a) 0 (take ?l (bstr_range b))) ?l (drop ?l (bstr_text b))
    = take ?l (bstr_range b) @ drop ?l (bstr_text b) @ drop (bstr_length b) (bstr_range a)"
    using lens assms(3) by (simp add: overwrite_def bstr_text_def min_def)
  also have "\<dots> = bstr_text b @ drop (bstr_length b) (bstr_range a)"
    using assms(3) append_take_drop_id [of ?l "bstr_text b"] by (simp add: bstr_text_def min_def)
  finally show "bstr_is a (bstr_text b) (a\<lparr>bstr_range := overwrite (overwrite (bstr_range a) 0 (take ?l (bstr_range b)))
      ?l (drop ?l (bstr_text b)), bstr_length := bstr_length b\<rparr>)"
    using assms lens by (simp add: bstr_is_def bstr_wf_defs bstr_text_def)
  show "bstr_is b (bstr_text a) (b\<lparr>bstr_range := overwrite (bstr_range b) 0 (take ?l (bstr_range a)), bstr_length := ?l\<rparr>)"
    using assms lens by (simp add: bstr_is_def bstr_wf_defs bstr_text_def overwrite_def)
qed

text \<open>
  \<^verbatim>\<open>swap\<close> exchanges the texts of two strings whose blocks hold the other's text, character by character,
  each string keeping its block.
\<close>

theorem BoundedString_swap_exchanges:
  assumes "bstr_wf a" "bstr_wf b" "bstr_length a \<le> bstr_max_size b" "bstr_length b \<le> bstr_max_size a"
  shows "\<exists>a' b'. bstr_swap a b = Inr (a', b') \<and> bstr_is a (bstr_text b) a' \<and> bstr_is b (bstr_text a) b'"
proof -
  let ?m = "min (bstr_length a) (bstr_length b)"
  let ?a = "a\<lparr>bstr_range := overwrite (bstr_range a) 0 (take ?m (bstr_range b))\<rparr>"
  let ?b = "b\<lparr>bstr_range := overwrite (bstr_range b) 0 (take ?m (bstr_range a))\<rparr>"
  have both: "swap_both 0 a b = Inr (?a, ?b)"
    using swap_both_eq [OF assms(1,2), of 0] by (simp add: Let_def)
  have wf: "bstr_wf ?a" "bstr_wf ?b" "bstr_max_size ?a = bstr_max_size a" "bstr_max_size ?b = bstr_max_size b"
    using assms by (auto simp: bstr_wf_defs min_def)
  have tails: "drop ?m (bstr_text ?a) = drop ?m (bstr_text a)" "drop ?m (bstr_text ?b) = drop ?m (bstr_text b)"
    using assms by (auto simp: bstr_text_def overwrite_def bstr_wf_defs min_def drop_take)
  show ?thesis
  proof (cases "bstr_length a \<le> bstr_length b")
    case True
    then have m: "?m = bstr_length a" by simp
    show ?thesis
      using swap_tail_eq [OF wf(2,1), of "bstr_length a"] assms wf(3,4) True tails(2)
        bstr_swap_longer [OF assms(1,2) True assms(4)]
      unfolding m by (simp add: bstr_swap_def both [unfolded m] swap_tail_stop bstr_size_def)
  next
    case False
    then have le: "bstr_length b \<le> bstr_length a" and m: "?m = bstr_length b" by simp_all
    show ?thesis
      using swap_tail_eq [OF wf(1,2), of "bstr_length b"] assms wf(3,4) le tails(1)
        bstr_swap_longer [OF assms(2,1) le assms(3)]
      unfolding m by (simp add: bstr_swap_def both [unfolded m] swap_tail_stop bstr_size_def)
  qed
qed

subsection \<open>Sizes and positions that wrap around\<close>

text \<open>
  \<^verbatim>\<open>erase(index)\<close> does not check that \<open>index\<close> is in the string, and \<^verbatim>\<open>length - index\<close> wraps around:
  past the end of the string, with the default \<^verbatim>\<open>count\<close>, it makes the string \<open>index\<close> characters
  long, in or behind its block; with a given count it moves memory outside the block.
\<close>

theorem BoundedString_erase_past_the_end:
  assumes "bstr_wf s" and "bstr_length s < index" and "index + num < size_limit"
  shows "bstr_erase s index bstr_npos = Inr (s\<lparr>bstr_length := index\<rparr>)
    \<and> bstr_erase s index num = Inl UndefinedBehaviour"
proof -
  let ?l = "bstr_length s" and ?u = "size_limit - (index - bstr_length s)"
  have u: "sub_t ?l index = ?u" using assms by (simp add: sub_t_def size_t_def)
  have n: "min bstr_npos ?u = ?u" "min num ?u = num" using assms by (simp_all add: bstr_npos_def size_limit_def)
  have "sub_t ?u ?u = 0" using assms by simp
  moreover have "sub_t ?l ?u = index"
    using assms by (simp add: sub_t_def size_t_def)
  ultimately have "MoveDown s index ?u = Inr (s\<lparr>bstr_length := index\<rparr>)"
    by (simp add: MoveDown_def mem_move_def u)
  moreover have "sub_t ?u num = ?u - num" "?u - num > 0" "size_t (index + num) = index + num"
    "index + num + (?u - num) > length (bstr_range s)"
    using assms by (simp_all add: bstr_wf_defs)
  then have "MoveDown s index num = Inl UndefinedBehaviour"
    by (simp add: MoveDown_def mem_move_def u)
  ultimately show ?thesis unfolding bstr_erase_def u n by simp
qed

theorem BoundedString_erase_past_the_end_witness:
  "bstr_erase \<lparr>bstr_range = [1, 2, 3 :: int], bstr_length = 2\<rparr> 9 bstr_npos
    = Inr \<lparr>bstr_range = [1, 2, 3], bstr_length = 9\<rparr>"
proof -
  have s: "bstr_wf \<lparr>bstr_range = [1, 2, 3 :: int], bstr_length = 2\<rparr>" by (simp add: bstr_wf_defs size_limit_def)
  show ?thesis using BoundedString_erase_past_the_end [OF s, of 9 0] by (simp add: size_limit_def)
qed

text \<open>
  The assertion on \<^verbatim>\<open>length + count\<close> is on a sum that wraps around: a count of \<^verbatim>\<open>npos\<close> passes it
  for every string that is not empty.
\<close>

lemma bstr_insert_fill_wraps:
  assumes "bstr_wf s" "0 < bstr_length s"
  shows "bstr_insert_fill s 0 bstr_npos c = Inl UndefinedBehaviour"
proof -
  have "size_t (bstr_length s + bstr_npos) = bstr_length s - 1"
  proof -
    have "bstr_length s + bstr_npos = (bstr_length s - 1) + size_limit"
      using assms(2) by (simp add: bstr_npos_def size_limit_def)
    then have "size_t (bstr_length s + bstr_npos) = (bstr_length s - 1) mod size_limit"
      by (simp only: size_t_def mod_add_self2)
    moreover have "bstr_length s - 1 < size_limit" using assms unfolding bstr_wf_def by linarith
    ultimately show ?thesis by simp
  qed
  moreover have "bstr_length s - 1 \<le> bstr_max_size s" using assms unfolding bstr_wf_def by linarith
  moreover have "size_t bstr_npos = bstr_npos" by (simp add: bstr_npos_def size_limit_def)
  moreover have "sub_t (bstr_length s) 0 = bstr_length s" using assms(1) by (simp add: bstr_wf_def)
  ultimately show ?thesis
    using assms by (simp add: bstr_insert_fill_def MoveUp_def mem_move_def bstr_wf_defs bstr_npos_def size_limit_def)
qed

end
