(* ===== verification/Bounded_String_Search.thy ===== *)
theory Bounded_String_Search
  imports Bounded_String
begin

section \<open>Comparing and searching bounded strings: infra/util/BoundedString.hpp\<close>

text \<open>
  A pointer into a block is the list of the characters from it to the end of the block, a pair of
  pointers is that list and the number of characters between them. Reading behind the block is
  undefined behaviour. Positions that a loop counts down are integers: the code lets them reach the
  position before the first character.
\<close>

subsection \<open>Comparing\<close>

fun CompareImpl :: "'c::linorder list \<Rightarrow> nat \<Rightarrow> 'c list \<Rightarrow> nat \<Rightarrow> int result" where
  "CompareImpl xs 0 ys 0 = Inr 0"
| "CompareImpl xs (Suc n) ys 0 = Inr 1"
| "CompareImpl xs 0 ys (Suc m) = Inr (- 1)"
| "CompareImpl (x # xs) (Suc n) (y # ys) (Suc m) =
     (if x \<noteq> y then Inr (if x < y then - 1 else 1) else CompareImpl xs n ys m)"
| "CompareImpl xs (Suc n) ys (Suc m) = Inl UndefinedBehaviour"

definition bstr_compare :: "'c::linorder bstring \<Rightarrow> 'c bstring \<Rightarrow> int result" where
  "bstr_compare s other = CompareImpl (bstr_range s) (bstr_length s) (bstr_range other) (bstr_length other)"

definition bstr_compare_at :: "'c::linorder bstring \<Rightarrow> nat \<Rightarrow> nat \<Rightarrow> 'c bstring \<Rightarrow> int result" where
  "bstr_compare_at s pos1 count1 other =
     CompareImpl (drop pos1 (bstr_range s)) count1 (bstr_range other) (bstr_length other)"

definition bstr_compare_parts ::
    "'c::linorder bstring \<Rightarrow> nat \<Rightarrow> nat \<Rightarrow> 'c bstring \<Rightarrow> nat \<Rightarrow> nat \<Rightarrow> int result" where
  "bstr_compare_parts s pos1 count1 other pos2 count2 =
     CompareImpl (drop pos1 (bstr_range s)) count1 (drop pos2 (bstr_range other)) count2"

definition bstr_compare_cstr :: "'c::{linorder,zero} bstring \<Rightarrow> 'c list \<Rightarrow> int result" where
  "bstr_compare_cstr s z = bindR (strlen z) (CompareImpl (bstr_range s) (bstr_length s) z)"

definition bstr_compare_at_cstr :: "'c::{linorder,zero} bstring \<Rightarrow> nat \<Rightarrow> nat \<Rightarrow> 'c list \<Rightarrow> int result" where
  "bstr_compare_at_cstr s pos1 count1 z =
     bindR (strlen z) (CompareImpl (drop pos1 (bstr_range s)) count1 z)"

definition bstr_compare_at_chars :: "'c::linorder bstring \<Rightarrow> nat \<Rightarrow> nat \<Rightarrow> 'c list \<Rightarrow> nat \<Rightarrow> int result" where
  "bstr_compare_at_chars s pos1 count1 cs count2 =
     CompareImpl (drop pos1 (bstr_range s)) count1 cs count2"

definition bstr_compare_std :: "'c::linorder bstring \<Rightarrow> 'c list \<Rightarrow> int result" where
  "bstr_compare_std s cs = CompareImpl (bstr_range s) (bstr_length s) cs (length cs)"

text \<open>\<^verbatim>\<open>std::equal\<close> of \<open>n\<close> characters, and \<^verbatim>\<open>std::lexicographical_compare\<close>.\<close>

fun equal_chars :: "'c list \<Rightarrow> 'c list \<Rightarrow> nat \<Rightarrow> bool result" where
  "equal_chars xs ys 0 = Inr True"
| "equal_chars (x # xs) (y # ys) (Suc n) = (if x = y then equal_chars xs ys n else Inr False)"
| "equal_chars xs ys (Suc n) = Inl UndefinedBehaviour"

fun lexicographical_compare :: "'c::linorder list \<Rightarrow> nat \<Rightarrow> 'c list \<Rightarrow> nat \<Rightarrow> bool result" where
  "lexicographical_compare xs n ys 0 = Inr False"
| "lexicographical_compare xs 0 ys (Suc m) = Inr True"
| "lexicographical_compare (x # xs) (Suc n) (y # ys) (Suc m) =
     (if x < y then Inr True else if y < x then Inr False else lexicographical_compare xs n ys m)"
| "lexicographical_compare xs (Suc n) ys (Suc m) = Inl UndefinedBehaviour"

definition bstr_eq :: "'c bstring \<Rightarrow> 'c bstring \<Rightarrow> bool result" where
  "bstr_eq lhs rhs = (if bstr_size lhs = bstr_size rhs
     then equal_chars (bstr_range lhs) (bstr_range rhs) (bstr_length lhs) else Inr False)"

definition bstr_ne :: "'c bstring \<Rightarrow> 'c bstring \<Rightarrow> bool result" where
  "bstr_ne lhs rhs = bindR (bstr_eq lhs rhs) (\<lambda>b. Inr (\<not> b))"

definition bstr_less :: "'c::linorder bstring \<Rightarrow> 'c bstring \<Rightarrow> bool result" where
  "bstr_less lhs rhs =
     lexicographical_compare (bstr_range lhs) (bstr_length lhs) (bstr_range rhs) (bstr_length rhs)"

definition bstr_le :: "'c::linorder bstring \<Rightarrow> 'c bstring \<Rightarrow> bool result" where
  "bstr_le lhs rhs = bindR (bstr_less rhs lhs) (\<lambda>b. Inr (\<not> b))"

definition bstr_greater :: "'c::linorder bstring \<Rightarrow> 'c bstring \<Rightarrow> bool result" where
  "bstr_greater lhs rhs = bstr_less rhs lhs"

definition bstr_ge :: "'c::linorder bstring \<Rightarrow> 'c bstring \<Rightarrow> bool result" where
  "bstr_ge lhs rhs = bindR (bstr_less lhs rhs) (\<lambda>b. Inr (\<not> b))"

definition bstr_eq_cstr :: "'c::zero bstring \<Rightarrow> 'c list \<Rightarrow> bool result" where
  "bstr_eq_cstr lhs z = bindR (strlen z) (\<lambda>n. if bstr_size lhs = n
     then equal_chars (bstr_range lhs) z (bstr_length lhs) else Inr False)"

definition bstr_eq_std :: "'c bstring \<Rightarrow> 'c list \<Rightarrow> bool result" where
  "bstr_eq_std lhs rhs = (if bstr_size lhs = length rhs
     then equal_chars (bstr_range lhs) rhs (bstr_length lhs) else Inr False)"

definition bstr_less_cstr :: "'c::{linorder,zero} bstring \<Rightarrow> 'c list \<Rightarrow> bool result" where
  "bstr_less_cstr lhs z = bindR (strlen z) (lexicographical_compare (bstr_range lhs) (bstr_length lhs) z)"

definition cstr_less_bstr :: "'c::{linorder,zero} list \<Rightarrow> 'c bstring \<Rightarrow> bool result" where
  "cstr_less_bstr z rhs = bindR (strlen z)
     (\<lambda>n. lexicographical_compare z n (bstr_range rhs) (bstr_length rhs))"

definition bstr_less_std :: "'c::linorder bstring \<Rightarrow> 'c list \<Rightarrow> bool result" where
  "bstr_less_std lhs rhs = lexicographical_compare (bstr_range lhs) (bstr_length lhs) rhs (length rhs)"

definition std_less_bstr :: "'c::linorder list \<Rightarrow> 'c bstring \<Rightarrow> bool result" where
  "std_less_bstr lhs rhs = lexicographical_compare lhs (length lhs) (bstr_range rhs) (bstr_length rhs)"

text \<open>\<^verbatim>\<open>std::tolower\<close> of a byte in the C locale.\<close>

definition tolower :: "byte \<Rightarrow> byte" where
  "tolower c = (if 65 \<le> c \<and> c \<le> 90 then c + 32 else c)"

fun equal_nocase :: "byte list \<Rightarrow> byte list \<Rightarrow> nat \<Rightarrow> bool result" where
  "equal_nocase xs ys 0 = Inr True"
| "equal_nocase (x # xs) (y # ys) (Suc n) =
     (if tolower x = tolower y then equal_nocase xs ys n else Inr False)"
| "equal_nocase xs ys (Suc n) = Inl UndefinedBehaviour"

definition CaseInsensitiveCompare :: "byte bstring \<Rightarrow> byte bstring \<Rightarrow> bool result" where
  "CaseInsensitiveCompare lhs rhs = (if bstr_size lhs = bstr_size rhs
     then equal_nocase (bstr_range lhs) (bstr_range rhs) (bstr_length lhs) else Inr False)"

definition CaseInsensitiveCompare_cstr :: "byte bstring \<Rightarrow> byte list \<Rightarrow> bool result" where
  "CaseInsensitiveCompare_cstr lhs z = bindR (strlen z) (\<lambda>n. if bstr_size lhs = n
     then equal_nocase (bstr_range lhs) z (bstr_length lhs) else Inr False)"

subsection \<open>Searching\<close>

function bstr_find_loop :: "'c::linorder bstring \<Rightarrow> 'c list \<Rightarrow> nat \<Rightarrow> nat \<Rightarrow> nat result" where
  "bstr_find_loop s cs num i =
     (if i + num \<le> bstr_length s
      then bindR (CompareImpl (drop i (bstr_range s)) num cs num)
        (\<lambda>r. if r = 0 then Inr i else bstr_find_loop s cs num (Suc i))
      else Inr bstr_npos)"
  by pat_completeness auto
termination by (relation "measure (\<lambda>(s, cs, num, i). Suc (bstr_length s) - i)") auto

definition bstr_find_chars :: "'c::linorder bstring \<Rightarrow> 'c list \<Rightarrow> nat \<Rightarrow> nat \<Rightarrow> nat result" where
  "bstr_find_chars s cs pos num = checked (pos \<le> bstr_length s) (bstr_find_loop s cs num pos)"

definition bstr_find :: "'c::linorder bstring \<Rightarrow> 'c bstring \<Rightarrow> nat \<Rightarrow> nat result" where
  "bstr_find s other pos = bstr_find_chars s (bstr_range other) pos (bstr_size other)"

definition bstr_find_cstr :: "'c::{linorder,zero} bstring \<Rightarrow> 'c list \<Rightarrow> nat \<Rightarrow> nat result" where
  "bstr_find_cstr s z pos = bindR (strlen z) (bstr_find_chars s z pos)"

definition bstr_find_char :: "'c::linorder bstring \<Rightarrow> 'c \<Rightarrow> nat \<Rightarrow> nat result" where
  "bstr_find_char s ch pos = bstr_find_chars s [ch] pos 1"

function bstr_rfind_loop :: "'c::linorder bstring \<Rightarrow> 'c list \<Rightarrow> nat \<Rightarrow> int \<Rightarrow> nat result" where
  "bstr_rfind_loop s cs num i =
     (if i \<ge> 0
      then bindR (CompareImpl (drop (nat i) (bstr_range s)) num cs num)
        (\<lambda>r. if r = 0 then Inr (nat i) else bstr_rfind_loop s cs num (i - 1))
      else Inr bstr_npos)"
  by pat_completeness auto
termination by (relation "measure (\<lambda>(s, cs, num, i). nat (i + 1))") auto

definition bstr_rfind_chars :: "'c::linorder bstring \<Rightarrow> 'c list \<Rightarrow> nat \<Rightarrow> nat \<Rightarrow> nat result" where
  "bstr_rfind_chars s cs pos num =
     (let pos = min pos (bstr_length s)
      in bstr_rfind_loop s cs num (min (int pos) (int (bstr_length s) - int num)))"

definition bstr_rfind :: "'c::linorder bstring \<Rightarrow> 'c bstring \<Rightarrow> nat \<Rightarrow> nat result" where
  "bstr_rfind s other pos =
     (let pos = min pos (bstr_length s) in bstr_rfind_chars s (bstr_range other) pos (bstr_size other))"

definition bstr_rfind_cstr :: "'c::{linorder,zero} bstring \<Rightarrow> 'c list \<Rightarrow> nat \<Rightarrow> nat result" where
  "bstr_rfind_cstr s z pos = bindR (strlen z) (bstr_rfind_chars s z pos)"

definition bstr_rfind_char :: "'c::linorder bstring \<Rightarrow> 'c \<Rightarrow> nat \<Rightarrow> nat result" where
  "bstr_rfind_char s ch pos = bstr_rfind_chars s [ch] pos 1"

text \<open>\<^verbatim>\<open>std::find(s, s + count, c) != s + count\<close>\<close>

fun found_in :: "'c list \<Rightarrow> nat \<Rightarrow> 'c \<Rightarrow> bool result" where
  "found_in cs 0 c = Inr False"
| "found_in [] (Suc n) c = Inl UndefinedBehaviour"
| "found_in (x # cs) (Suc n) c = (if x = c then Inr True else found_in cs n c)"

text \<open>
  The loops upwards and downwards; \<open>want\<close> tells whether a character of the set is looked for or one
  that is not in it.
\<close>

function first_loop :: "bool \<Rightarrow> 'c bstring \<Rightarrow> 'c list \<Rightarrow> nat \<Rightarrow> nat \<Rightarrow> nat result" where
  "first_loop want s cs num i =
     (if i < bstr_length s
      then bindR (mem_read (bstr_range s) i) (\<lambda>c. bindR (found_in cs num c)
        (\<lambda>found. if found = want then Inr i else first_loop want s cs num (Suc i)))
      else Inr bstr_npos)"
  by pat_completeness auto
termination by (relation "measure (\<lambda>(want, s, cs, num, i). bstr_length s - i)") auto

function last_loop :: "bool \<Rightarrow> 'c bstring \<Rightarrow> 'c list \<Rightarrow> nat \<Rightarrow> int \<Rightarrow> nat result" where
  "last_loop want s cs num i =
     (if i \<ge> 0
      then bindR (mem_read (bstr_range s) (nat i)) (\<lambda>c. bindR (found_in cs num c)
        (\<lambda>found. if found = want then Inr (nat i) else last_loop want s cs num (i - 1)))
      else Inr bstr_npos)"
  by pat_completeness auto
termination by (relation "measure (\<lambda>(want, s, cs, num, i). nat (i + 1))") auto

declare bstr_find_loop.simps [simp del] bstr_rfind_loop.simps [simp del]
  first_loop.simps [simp del] last_loop.simps [simp del]

definition bstr_find_first_of :: "'c bstring \<Rightarrow> 'c list \<Rightarrow> nat \<Rightarrow> nat \<Rightarrow> nat result" where
  "bstr_find_first_of s cs pos num =
     (let pos = min pos (bstr_length s) in first_loop True s cs num pos)"

definition bstr_find_first_not_of :: "'c bstring \<Rightarrow> 'c list \<Rightarrow> nat \<Rightarrow> nat \<Rightarrow> nat result" where
  "bstr_find_first_not_of s cs pos num =
     (let pos = min pos (bstr_length s) in first_loop False s cs num pos)"

definition bstr_find_last_of :: "'c bstring \<Rightarrow> 'c list \<Rightarrow> nat \<Rightarrow> nat \<Rightarrow> nat result" where
  "bstr_find_last_of s cs pos num =
     (let pos = min pos (bstr_length s) in last_loop True s cs num (int pos - 1))"

definition bstr_find_last_not_of :: "'c bstring \<Rightarrow> 'c list \<Rightarrow> nat \<Rightarrow> nat \<Rightarrow> nat result" where
  "bstr_find_last_not_of s cs pos num =
     (let pos = min pos (bstr_length s) in last_loop False s cs num (int pos - 1))"

definition bstr_starts_with :: "'c bstring \<Rightarrow> 'c list \<Rightarrow> nat \<Rightarrow> bool result" where
  "bstr_starts_with s cs num =
     bindR (bstr_substr s 0 num) (\<lambda>t. bstr_eq t \<lparr>bstr_range = take num cs, bstr_length = num\<rparr>)"

definition bstr_ends_with :: "'c bstring \<Rightarrow> 'c list \<Rightarrow> nat \<Rightarrow> bool result" where
  "bstr_ends_with s cs num =
     (if num > bstr_length s then Inr False
      else bindR (bstr_substr s (bstr_length s - num) num)
        (\<lambda>t. bstr_eq t \<lparr>bstr_range = take num cs, bstr_length = num\<rparr>))"

definition bstr_starts_with_str :: "'c bstring \<Rightarrow> 'c bstring \<Rightarrow> bool result" where
  "bstr_starts_with_str s other = bstr_starts_with s (bstr_range other) (bstr_size other)"

definition bstr_ends_with_str :: "'c bstring \<Rightarrow> 'c bstring \<Rightarrow> bool result" where
  "bstr_ends_with_str s other = bstr_ends_with s (bstr_range other) (bstr_size other)"

function TrimLeft_loop :: "byte bstring \<Rightarrow> nat \<Rightarrow> byte bstring result" where
  "TrimLeft_loop s i =
     (if i < bstr_size s
      then bindR (bstr_index s i)
        (\<lambda>c. if c \<noteq> 32 then bstr_substr s i bstr_npos else TrimLeft_loop s (Suc i))
      else Inr \<lparr>bstr_range = [], bstr_length = 0\<rparr>)"
  by pat_completeness auto
termination by (relation "measure (\<lambda>(s, i). bstr_size s - i)") auto

declare TrimLeft_loop.simps [simp del]

definition TrimLeft :: "byte bstring \<Rightarrow> byte bstring result" where
  "TrimLeft s = TrimLeft_loop s 0"

subsection \<open>Comparison is that of the texts\<close>

lemma CompareImpl_eq:
  "n \<le> length xs \<Longrightarrow> m \<le> length ys \<Longrightarrow> CompareImpl xs n ys m
   = Inr (if take n xs = take m ys then 0 else if ord_class.lexordp (take n xs) (take m ys) then - 1 else 1)"
  by (induction xs n ys m rule: CompareImpl.induct) auto

lemma CompareImpl_zero:
  "n \<le> length xs \<Longrightarrow> n \<le> length ys \<Longrightarrow> \<exists>r. CompareImpl xs n ys n = Inr r \<and> (r = 0 \<longleftrightarrow> take n xs = take n ys)"
  by (simp add: CompareImpl_eq)

lemma equal_chars_eq:
  "n \<le> length xs \<Longrightarrow> n \<le> length ys \<Longrightarrow> equal_chars xs ys n = Inr (take n xs = take n ys)"
  by (induction xs ys n rule: equal_chars.induct) auto

lemma lexicographical_compare_eq:
  "n \<le> length xs \<Longrightarrow> m \<le> length ys
   \<Longrightarrow> lexicographical_compare xs n ys m = Inr (ord_class.lexordp (take n xs) (take m ys))"
  by (induction xs n ys m rule: lexicographical_compare.induct) auto

lemma bstr_text_reads: "bstr_wf s \<Longrightarrow> bstr_length s \<le> length (bstr_range s)"
  by (simp add: bstr_wf_defs)

lemma bstr_eq_text:
  assumes "bstr_wf a" "bstr_wf b"
  shows "bstr_eq a b = Inr (bstr_text a = bstr_text b)"
proof (cases "bstr_length a = bstr_length b")
  case True
  with assms bstr_text_reads [of a] bstr_text_reads [of b] show ?thesis
    by (simp add: bstr_eq_def bstr_size_def bstr_text_def equal_chars_eq)
next
  case False
  then have "length (bstr_text a) \<noteq> length (bstr_text b)" using assms by simp
  with False show ?thesis by (auto simp: bstr_eq_def bstr_size_def)
qed

lemma bstr_less_text:
  "bstr_wf a \<Longrightarrow> bstr_wf b \<Longrightarrow> bstr_less a b = Inr (ord_class.lexordp (bstr_text a) (bstr_text b))"
  by (simp add: bstr_less_def lexicographical_compare_eq bstr_text_reads bstr_text_def)

lemma bstr_compare_text:
  "bstr_wf a \<Longrightarrow> bstr_wf b \<Longrightarrow> bstr_compare a b
   = Inr (if bstr_text a = bstr_text b then 0 else if ord_class.lexordp (bstr_text a) (bstr_text b) then - 1 else 1)"
  by (simp add: bstr_compare_def CompareImpl_eq bstr_text_reads bstr_text_def)

text \<open>
  Comparison is the lexicographic order of the texts, and the operations agree on it: \<^verbatim>\<open>compare\<close> gives
  zero exactly when \<^verbatim>\<open>operator==\<close> holds, a negative number exactly when \<^verbatim>\<open>operator<\<close> does, the opposite
  for the operands exchanged, and \<^verbatim>\<open><=\<close>, \<^verbatim>\<open>>\<close>, \<^verbatim>\<open>>=\<close> and \<^verbatim>\<open>!=\<close> follow. Nothing outside the blocks
  is read.
\<close>

theorem BoundedString_comparison:
  assumes "bstr_wf a" and "bstr_wf b"
  shows "\<exists>c. bstr_compare a b = Inr c \<and> bstr_compare b a = Inr (- c)
    \<and> bstr_eq a b = Inr (c = 0) \<and> bstr_ne a b = Inr (c \<noteq> 0)
    \<and> bstr_less a b = Inr (c < 0) \<and> bstr_le a b = Inr (c \<le> 0)
    \<and> bstr_greater a b = Inr (c > 0) \<and> bstr_ge a b = Inr (c \<ge> 0)
    \<and> (c = 0 \<longleftrightarrow> bstr_text a = bstr_text b) \<and> (c < 0 \<longleftrightarrow> ord_class.lexordp (bstr_text a) (bstr_text b))"
proof -
  let ?A = "bstr_text a" and ?B = "bstr_text b"
  have tri: "ord_class.lexordp ?A ?B \<or> ?A = ?B \<or> ord_class.lexordp ?B ?A" by (rule lexordp_linear)
  have anti: "\<not> (ord_class.lexordp ?A ?B \<and> ord_class.lexordp ?B ?A)" "\<not> ord_class.lexordp ?A ?A"
    using lexordp_antisym [of ?A ?B] lexordp_irreflexive' [of ?A] by auto
  show ?thesis
    using tri anti assms
    by (intro exI [of _ "if ?A = ?B then 0 else if ord_class.lexordp ?A ?B then - 1 else 1"])
      (auto simp: bstr_compare_text bstr_eq_text bstr_less_text bstr_ne_def bstr_le_def bstr_greater_def bstr_ge_def)
qed

subsection \<open>Searching is that of the texts\<close>

text \<open>
  The first position in a list of positions at which a property holds, \<^verbatim>\<open>npos\<close> if there is none, and
  the occurrence of a text at a position.
\<close>

definition position_of :: "(nat \<Rightarrow> bool) \<Rightarrow> nat list \<Rightarrow> nat" where
  "position_of P is = (case List.find P is of Some i \<Rightarrow> i | None \<Rightarrow> bstr_npos)"

definition occurs_at :: "'c list \<Rightarrow> 'c list \<Rightarrow> nat \<Rightarrow> bool" where
  "occurs_at ys xs i \<longleftrightarrow> i + length ys \<le> length xs \<and> take (length ys) (drop i xs) = ys"

lemma position_of_simps [simp]:
  "position_of P [] = bstr_npos"
  "position_of P (i # is) = (if P i then i else position_of P is)"
  by (simp_all add: position_of_def)

lemma position_of_none: "(\<And>i. i \<in> set is \<Longrightarrow> \<not> P i) \<Longrightarrow> position_of P is = bstr_npos"
  by (induction "is") auto

lemma compare_occurs:
  assumes "bstr_wf s" "i + length ys \<le> bstr_length s"
  shows "\<exists>r. CompareImpl (drop i (bstr_range s)) (length ys) ys (length ys) = Inr r
    \<and> (r = 0 \<longleftrightarrow> occurs_at ys (bstr_text s) i)"
proof -
  have "take (length ys) (drop i (bstr_range s)) = take (length ys) (drop i (bstr_text s))"
    using assms(2) by (simp add: bstr_text_def drop_take min_def)
  then show ?thesis
    using CompareImpl_zero [of "length ys" "drop i (bstr_range s)" ys] assms bstr_text_reads [OF assms(1)]
    by (simp add: occurs_at_def)
qed

lemma bstr_find_loop_eq:
  assumes "bstr_wf s" "i \<le> bstr_length s"
  shows "bstr_find_loop s ys (length ys) i
    = Inr (position_of (occurs_at ys (bstr_text s)) [i..<Suc (bstr_length s)])"
  using assms
proof (induction s ys "length ys" i rule: bstr_find_loop.induct)
  case (1 s ys i)
  let ?P = "occurs_at ys (bstr_text s)"
  show ?case
  proof (cases "i + length ys \<le> bstr_length s")
    case True
    with compare_occurs [OF "1.prems"(1)] obtain r where
      r: "CompareImpl (drop i (bstr_range s)) (length ys) ys (length ys) = Inr r" "r = 0 \<longleftrightarrow> ?P i" by blast
    have up: "[i..<Suc (bstr_length s)] = i # [Suc i..<Suc (bstr_length s)]"
      using "1.prems"(2) by (intro upt_conv_Cons) simp
    show ?thesis
    proof (cases "r = 0")
      case True
      with r \<open>i + length ys \<le> bstr_length s\<close> show ?thesis
        unfolding up by (subst bstr_find_loop.simps) simp
    next
      case False
      have "bstr_find_loop s ys (length ys) (Suc i) = Inr (position_of ?P [Suc i..<Suc (bstr_length s)])"
      proof (cases "Suc i \<le> bstr_length s")
        case True
        with "1.hyps" [OF \<open>i + length ys \<le> bstr_length s\<close> r(1) False] "1.prems" show ?thesis by simp
      next
        case False
        then show ?thesis by (subst bstr_find_loop.simps) simp
      qed
      with r False True show ?thesis
        unfolding up by (subst bstr_find_loop.simps) (simp del: upt_Suc)
    qed
  next
    case False
    then have "position_of ?P [i..<Suc (bstr_length s)] = bstr_npos"
      using "1.prems" by (intro position_of_none) (auto simp: occurs_at_def)
    with False show ?thesis by (subst bstr_find_loop.simps) (simp del: upt_Suc)
  qed
qed

lemma upt_rev_Suc: "rev [0..<Suc n] = n # rev [0..<n]" by simp

lemma bstr_rfind_loop_eq:
  assumes "bstr_wf s" "- 1 \<le> i" "i + int (length ys) \<le> int (bstr_length s) \<or> i < 0"
  shows "bstr_rfind_loop s ys (length ys) i
    = Inr (position_of (occurs_at ys (bstr_text s)) (rev [0..<nat (i + 1)]))"
  using assms
proof (induction s ys "length ys" i rule: bstr_rfind_loop.induct)
  case (1 s ys i)
  let ?P = "occurs_at ys (bstr_text s)"
  show ?case
  proof (cases "i \<ge> 0")
    case True
    with "1.prems"(3) have "nat i + length ys \<le> bstr_length s" by linarith
    with compare_occurs [OF "1.prems"(1)] obtain r where
      r: "CompareImpl (drop (nat i) (bstr_range s)) (length ys) ys (length ys) = Inr r" "r = 0 \<longleftrightarrow> ?P (nat i)"
      by blast
    have down: "rev [0..<nat (i + 1)] = nat i # rev [0..<nat (i - 1 + 1)]"
      using True by (simp add: nat_add_distrib)
    show ?thesis
    proof (cases "r = 0")
      case True
      with r \<open>i \<ge> 0\<close> show ?thesis unfolding down by (subst bstr_rfind_loop.simps) simp
    next
      case False
      have "bstr_rfind_loop s ys (length ys) (i - 1) = Inr (position_of ?P (rev [0..<nat (i - 1 + 1)]))"
        using "1.hyps" [OF True r(1) False] "1.prems" True by auto
      with r False True show ?thesis
        unfolding down by (subst bstr_rfind_loop.simps) (simp del: diff_add_cancel)
    qed
  next
    case False
    then show ?thesis by (subst bstr_rfind_loop.simps) simp
  qed
qed

lemma found_in_eq: "found_in ys (length ys) c = Inr (c \<in> set ys)"
  by (induction ys) auto

lemma first_loop_eq:
  assumes "bstr_wf s" "i \<le> bstr_length s"
  shows "first_loop want s ys (length ys) i
    = Inr (position_of (\<lambda>i. (bstr_text s ! i \<in> set ys) = want) [i..<bstr_length s])"
  using assms
proof (induction want s ys "length ys" i rule: first_loop.induct)
  case (1 want s ys i)
  show ?case
  proof (cases "i < bstr_length s")
    case True
    have c: "mem_read (bstr_range s) i = Inr (bstr_text s ! i)"
      using True bstr_text_reads [OF "1.prems"(1)] by (simp add: mem_read_def bstr_text_def)
    show ?thesis
      using "1.hyps" [OF True c found_in_eq] "1.prems" True
      by (subst first_loop.simps) (simp add: c found_in_eq upt_conv_Cons)
  next
    case False
    with "1.prems" show ?thesis by (subst first_loop.simps) simp
  qed
qed

lemma last_loop_eq:
  assumes "bstr_wf s" "- 1 \<le> i" "i < int (bstr_length s)"
  shows "last_loop want s ys (length ys) i
    = Inr (position_of (\<lambda>i. (bstr_text s ! i \<in> set ys) = want) (rev [0..<nat (i + 1)]))"
  using assms
proof (induction want s ys "length ys" i rule: last_loop.induct)
  case (1 want s ys i)
  show ?case
  proof (cases "i \<ge> 0")
    case True
    have c: "mem_read (bstr_range s) (nat i) = Inr (bstr_text s ! nat i)"
      using True "1.prems"(3) bstr_text_reads [OF "1.prems"(1)] by (simp add: mem_read_def bstr_text_def)
    have down: "rev [0..<nat (i + 1)] = nat i # rev [0..<nat (i - 1 + 1)]"
      using True by (simp add: nat_add_distrib)
    show ?thesis
      using "1.hyps" [OF True c found_in_eq] "1.prems" True
      unfolding down by (subst last_loop.simps) (simp add: c found_in_eq del: diff_add_cancel)
  next
    case False
    then show ?thesis by (subst last_loop.simps) simp
  qed
qed

lemma position_of_rev_skip:
  assumes "m \<le> n" "\<And>i. m \<le> i \<Longrightarrow> i < n \<Longrightarrow> \<not> P i"
  shows "position_of P (rev [0..<n]) = position_of P (rev [0..<m])"
  using assms
proof (induction n)
  case (Suc n)
  show ?case
  proof (cases "m = Suc n")
    case False
    then have "m \<le> n" "\<not> P n" using Suc.prems by auto
    with Suc show ?thesis by simp
  qed simp
qed simp

lemma rfind_eq:
  assumes "bstr_wf s"
  shows "bstr_rfind_chars s ys pos (length ys)
    = Inr (position_of (occurs_at ys (bstr_text s)) (rev [0..<Suc (min pos (bstr_length s))]))"
proof -
  let ?P = "occurs_at ys (bstr_text s)" and ?p = "min pos (bstr_length s)"
  let ?i = "min (int ?p) (int (bstr_length s) - int (length ys))"
  show ?thesis
  proof (cases "length ys \<le> bstr_length s")
    case True
    have "position_of ?P (rev [0..<Suc ?p]) = position_of ?P (rev [0..<nat (?i + 1)])"
      using assms True by (intro position_of_rev_skip) (auto simp: occurs_at_def)
    moreover have "?i + int (length ys) \<le> int (bstr_length s) \<or> ?i < 0" by linarith
    ultimately show ?thesis
      using bstr_rfind_loop_eq [OF assms, of ?i ys] True
      by (simp add: bstr_rfind_chars_def Let_def del: upt_Suc)
  next
    case False
    then have "position_of ?P (rev [0..<Suc ?p]) = bstr_npos"
      using assms by (intro position_of_none) (auto simp: occurs_at_def)
    with False show ?thesis
      by (subst bstr_rfind_chars_def, subst bstr_rfind_loop.simps) (auto simp: Let_def simp del: upt_Suc)
  qed
qed

text \<open>C15.
  Searching a string from a position in it: \<^verbatim>\<open>find\<close> gives the first position from there on at which
  the text occurs, \<^verbatim>\<open>rfind\<close> the last one up to there, \<^verbatim>\<open>find_first_of\<close> and \<^verbatim>\<open>find_first_not_of\<close> the
  first position from there on of a character that is, or is not, in the set, \<^verbatim>\<open>find_last_of\<close> and
  \<^verbatim>\<open>find_last_not_of\<close> the last one before there (the position itself is not looked at, other than in
  \<^verbatim>\<open>std::string\<close>), and \<^verbatim>\<open>npos\<close> if there is none. Every search returns, and reads inside the blocks.
\<close>

theorem BoundedString_searches:
  assumes "bstr_wf s" and "pos \<le> bstr_length s"
  shows "bstr_find_chars s ys pos (length ys)
      = Inr (position_of (occurs_at ys (bstr_text s)) [pos..<Suc (bstr_length s)])
    \<and> bstr_rfind_chars s ys pos (length ys)
      = Inr (position_of (occurs_at ys (bstr_text s)) (rev [0..<Suc pos]))
    \<and> bstr_find_first_of s ys pos (length ys)
      = Inr (position_of (\<lambda>i. bstr_text s ! i \<in> set ys) [pos..<bstr_length s])
    \<and> bstr_find_first_not_of s ys pos (length ys)
      = Inr (position_of (\<lambda>i. bstr_text s ! i \<notin> set ys) [pos..<bstr_length s])
    \<and> bstr_find_last_of s ys pos (length ys)
      = Inr (position_of (\<lambda>i. bstr_text s ! i \<in> set ys) (rev [0..<pos]))
    \<and> bstr_find_last_not_of s ys pos (length ys)
      = Inr (position_of (\<lambda>i. bstr_text s ! i \<notin> set ys) (rev [0..<pos]))"
proof -
  have m: "min pos (bstr_length s) = pos" "nat (int pos - 1 + 1) = pos" "int pos - 1 < int (bstr_length s)"
    using assms(2) by auto
  have "bstr_find_chars s ys pos (length ys)
      = Inr (position_of (occurs_at ys (bstr_text s)) [pos..<Suc (bstr_length s)])"
    using assms by (simp add: bstr_find_chars_def bstr_find_loop_eq del: upt_Suc)
  moreover have "bstr_rfind_chars s ys pos (length ys)
      = Inr (position_of (occurs_at ys (bstr_text s)) (rev [0..<Suc pos]))"
    using rfind_eq [OF assms(1), of ys pos] m(1) by (simp del: upt_Suc)
  ultimately show ?thesis
    using first_loop_eq [OF assms, of True ys] first_loop_eq [OF assms, of False ys]
      last_loop_eq [OF assms(1) _ m(3), of True ys] last_loop_eq [OF assms(1) _ m(3), of False ys]
    by (simp add: bstr_find_first_of_def bstr_find_first_not_of_def bstr_find_last_of_def
        bstr_find_last_not_of_def m(1) del: upt_Suc)
qed

theorem BoundedString_searches_witness:
  "bstr_rfind_chars \<lparr>bstr_range = [1, 2, 1, 2, 0 :: int], bstr_length = 4\<rparr> [1, 2] 4 2 = Inr 2
   \<and> bstr_find_last_of \<lparr>bstr_range = [1, 2, 1, 2, 0 :: int], bstr_length = 4\<rparr> [1, 2] 4 2 = Inr 3"
proof -
  let ?s = "\<lparr>bstr_range = [1, 2, 1, 2, 0 :: int], bstr_length = 4\<rparr>"
  have s: "bstr_wf ?s" by (simp add: bstr_wf_defs size_limit_def)
  show ?thesis
    using BoundedString_searches [OF s, of 4 "[1, 2]"]
    by (simp add: bstr_text_def occurs_at_def numeral_eq_Suc)
qed

theorem BoundedString_comparison_witness:
  "\<exists>c. bstr_compare \<lparr>bstr_range = [1, 2 :: int], bstr_length = 2\<rparr> \<lparr>bstr_range = [1, 3, 5], bstr_length = 2\<rparr> = Inr c
    \<and> bstr_less \<lparr>bstr_range = [1, 2 :: int], bstr_length = 2\<rparr> \<lparr>bstr_range = [1, 3, 5], bstr_length = 2\<rparr> = Inr (c < 0)
    \<and> c < 0"
proof -
  let ?a = "\<lparr>bstr_range = [1, 2 :: int], bstr_length = 2\<rparr>" and ?b = "\<lparr>bstr_range = [1, 3, 5 :: int], bstr_length = 2\<rparr>"
  have w: "bstr_wf ?a" "bstr_wf ?b" by (simp_all add: bstr_wf_defs size_limit_def)
  have "ord_class.lexordp (bstr_text ?a) (bstr_text ?b)" by (simp add: bstr_text_def numeral_2_eq_2)
  with BoundedString_comparison [OF w] show ?thesis by blast
qed

subsection \<open>The other searches\<close>

lemma bstr_substr_text:
  assumes "bstr_wf s" "pos \<le> bstr_length s"
  shows "\<exists>t. bstr_substr s pos n = Inr t \<and> bstr_wf t \<and> bstr_text t = take n (drop pos (bstr_text s))"
proof -
  let ?k = "min n (bstr_length s - pos)"
  let ?t = "\<lparr>bstr_range = take ?k (drop pos (bstr_range s)), bstr_length = ?k\<rparr>"
  have "bstr_substr s pos n = Inr ?t" using assms(2) by (simp add: bstr_substr_def Let_def)
  moreover have "bstr_wf ?t" "bstr_text ?t = take n (drop pos (bstr_text s))"
    using assms by (auto simp: bstr_wf_defs bstr_text_def drop_take)
  ultimately show ?thesis by blast
qed

lemma bstr_copy_text:
  assumes "bstr_wf s" "pos \<le> bstr_length s" "length (take n (drop pos (bstr_text s))) \<le> length dest"
  shows "bstr_copy s dest n pos = Inr (overwrite dest 0 (take n (drop pos (bstr_text s))),
    length (take n (drop pos (bstr_text s))))"
proof -
  have "take n (drop pos (bstr_text s)) = take (min n (bstr_length s - pos)) (drop pos (bstr_range s))"
    by (simp add: bstr_text_def drop_take)
  moreover have "length (take n (drop pos (bstr_text s))) = min n (bstr_length s - pos)"
    using assms(1) by (simp add: min.commute)
  ultimately show ?thesis
    using assms by (auto simp: bstr_copy_def mem_copy_def Let_def bstr_wf_defs)
qed

text \<open>A prefix, a suffix and the text without the spaces in front.\<close>

lemma bstr_starts_with_text:
  assumes "bstr_wf s" "length ys < size_limit"
  shows "bstr_starts_with s ys (length ys) = Inr (take (length ys) (bstr_text s) = ys)"
proof -
  have "bstr_wf \<lparr>bstr_range = ys, bstr_length = length ys\<rparr>" using assms(2) by (simp add: bstr_wf_defs)
  then show ?thesis
    using bstr_substr_text [OF assms(1), of 0 "length ys"]
    by (auto simp: bstr_starts_with_def bstr_eq_text) (simp_all add: bstr_text_def)
qed

lemma bstr_ends_with_text:
  assumes "bstr_wf s" "length ys < size_limit"
  shows "bstr_ends_with s ys (length ys)
    = Inr (length ys \<le> bstr_length s \<and> drop (bstr_length s - length ys) (bstr_text s) = ys)"
proof (cases "length ys \<le> bstr_length s")
  case True
  have "bstr_wf \<lparr>bstr_range = ys, bstr_length = length ys\<rparr>" using assms(2) by (simp add: bstr_wf_defs)
  with True show ?thesis
    using bstr_substr_text [OF assms(1), of "bstr_length s - length ys" "length ys"] assms(1)
    by (auto simp: bstr_ends_with_def bstr_eq_text) (simp_all add: bstr_text_def)
qed (simp add: bstr_ends_with_def)

lemma TrimLeft_loop_text:
  assumes "bstr_wf s" "i \<le> bstr_length s" "bstr_length s \<le> bstr_npos"
  shows "\<exists>t. TrimLeft_loop s i = Inr t \<and> bstr_text t = dropWhile (\<lambda>c. c = 32) (drop i (bstr_text s))"
  using assms
proof (induction s i rule: TrimLeft_loop.induct)
  case (1 s i)
  show ?case
  proof (cases "i < bstr_size s")
    case True
    then have i: "i < bstr_length s" by (simp add: bstr_size_def)
    have c: "bstr_index s i = Inr (bstr_text s ! i)"
      using i bstr_text_reads [OF "1.prems"(1)] by (simp add: bstr_index_def bstr_max_size_def bstr_text_def)
    have d: "drop i (bstr_text s) = bstr_text s ! i # drop (Suc i) (bstr_text s)"
      using i "1.prems"(1) by (simp add: Cons_nth_drop_Suc)
    show ?thesis
    proof (cases "bstr_text s ! i = 32")
      case True
      with "1.IH" [OF \<open>i < bstr_size s\<close> c] "1.prems" i \<open>i < bstr_size s\<close> show ?thesis
        unfolding d by (subst TrimLeft_loop.simps) (simp add: c)
    next
      case False
      have "take bstr_npos (drop i (bstr_text s)) = drop i (bstr_text s)"
        using "1.prems" by simp
      with False bstr_substr_text [OF "1.prems"(1), of i bstr_npos] i \<open>i < bstr_size s\<close> show ?thesis
        by (subst TrimLeft_loop.simps) (auto simp: c d)
    qed
  next
    case False
    with "1.prems" show ?thesis
      by (subst TrimLeft_loop.simps) (auto simp: bstr_size_def bstr_text_def)
  qed
qed

lemma TrimLeft_text:
  "bstr_wf s \<Longrightarrow> \<exists>t. TrimLeft s = Inr t \<and> bstr_text t = dropWhile (\<lambda>c. c = 32) (bstr_text s)"
  using TrimLeft_loop_text [of s 0] by (simp add: TrimLeft_def bstr_wf_def size_limit_def bstr_npos_def)

end
