(* ===== verification/Derived_Timers.thy ===== *)
theory Derived_Timers
  imports Timer_Progress
begin

section \<open>Timer services derived from other timer services\<close>

text \<open>
  \<^verbatim>\<open>infra::DerivedTimerService\<close>, whose time is shifted, and \<^verbatim>\<open>infra::ScalableDerivedTimerService\<close>, whose time runs faster by a
  factor as well (infra/timer). Each is a timer service with timers of its own (theory \<open>Timers\<close>) that keeps one single shot timer of
  another service, the base, running to its next trigger. The two services are two states; the virtual
  call of \<^verbatim>\<open>NextTriggerChanged\<close> by the service is made after an operation that announced another trigger time.
\<close>

subsection \<open>DerivedTimerService\<close>

record ('a, 'b) derived =
  dt_service :: "'a timer_service"
  dt_base :: "'b timer_service"
  dt_timer :: nat
  dt_nextTrigger :: int
  dt_shift :: int

text \<open>\<open>progress\<close> is the action the base timer is given.\<close>

definition dt_NextTriggerChanged :: "'b \<Rightarrow> ('a, 'b) derived \<Rightarrow> ('a, 'b) derived result" where
  "dt_NextTriggerChanged progress d =
     bindR (timed (ts_nextTrigger (dt_service d) - dt_shift d)) (\<lambda>t.
       let d1 = d\<lparr>dt_nextTrigger := t\<rparr>
       in if ts_nextTrigger (dt_service d) \<noteq> time_max
          then bindR (tss_Start_at (dt_timer d) t progress (dt_base d)) (\<lambda>b. Inr (d1\<lparr>dt_base := b\<rparr>))
          else Inr (d1\<lparr>dt_base := tm_Cancel (dt_timer d) (dt_base d)\<rparr>))"

definition dt_Now :: "('a, 'b) derived \<Rightarrow> int result" where
  "dt_Now d = timed (ts_Now (dt_base d) + dt_shift d)"

definition dt_Resolution :: "('a, 'b) derived \<Rightarrow> int" where
  "dt_Resolution d = ts_Resolution (dt_base d)"

text \<open>What an operation of the service does, with the virtual call when it announced another trigger time.\<close>

definition dt_service_call :: "'b \<Rightarrow> ('a timer_service \<Rightarrow> 'a timer_service result) \<Rightarrow> ('a, 'b) derived \<Rightarrow> ('a, 'b) derived result" where
  "dt_service_call progress f d = bindR (dt_Now d) (\<lambda>now.
     bindR (f ((dt_service d)\<lparr>ts_Now := now, ts_Resolution := dt_Resolution d\<rparr>)) (\<lambda>s.
       if ts_announced s \<noteq> ts_announced (dt_service d) then dt_NextTriggerChanged progress (d\<lparr>dt_service := s\<rparr>)
       else Inr (d\<lparr>dt_service := s\<rparr>)))"

definition dt_timer_action ::
    "'b \<Rightarrow> nat \<Rightarrow> ('a \<Rightarrow> 'a timer_service \<Rightarrow> 'a timer_service result) \<Rightarrow> ('a, 'b) derived \<Rightarrow> ('a, 'b) derived result" where
  "dt_timer_action progress fuel perform d = bindR (timed (dt_nextTrigger d + dt_shift d))
     (\<lambda>time. dt_service_call progress (ts_Progressed fuel perform time) d)"

definition dt_Shift :: "'b \<Rightarrow> int \<Rightarrow> ('a, 'b) derived \<Rightarrow> ('a, 'b) derived result" where
  "dt_Shift progress shift d = bindR (dt_Now d) (\<lambda>oldTime.
     let d1 = d\<lparr>dt_shift := shift\<rparr>
     in bindR (dt_Now d1) (\<lambda>now. dt_service_call progress (ts_Jumped oldTime now) d1))"

definition dt_GetCurrentShift :: "('a, 'b) derived \<Rightarrow> int" where
  "dt_GetCurrentShift d = dt_shift d"

subsection \<open>ScalableDerivedTimerService\<close>

record ('a, 'b) scalable =
  sc_service :: "'a timer_service"
  sc_base :: "'b timer_service"
  sc_timer :: nat
  sc_nextTrigger :: int
  sc_shift :: int
  sc_factor :: int
  sc_startPointForFactor :: int

definition sc_ScaleTime :: "('a, 'b) scalable \<Rightarrow> int \<Rightarrow> int result" where
  "sc_ScaleTime d time =
     bindR (timed (time - sc_startPointForFactor d)) (\<lambda>x.
     bindR (timed (x + sc_shift d)) (\<lambda>x.
     bindR (timed (x * sc_factor d)) (\<lambda>x. timed (sc_startPointForFactor d + x))))"

definition sc_UnscaleTime :: "('a, 'b) scalable \<Rightarrow> int \<Rightarrow> int result" where
  "sc_UnscaleTime d time =
     bindR (timed (time - sc_startPointForFactor d)) (\<lambda>x.
       if sc_factor d = 0 then Inl UndefinedBehaviour
       else bindR (timed (int_div x (sc_factor d) - sc_shift d)) (\<lambda>x. timed (x + sc_startPointForFactor d)))"

definition sc_NextTriggerChanged :: "'b \<Rightarrow> ('a, 'b) scalable \<Rightarrow> ('a, 'b) scalable result" where
  "sc_NextTriggerChanged progress d =
     bindR (sc_UnscaleTime d (ts_nextTrigger (sc_service d))) (\<lambda>t.
       let d1 = d\<lparr>sc_nextTrigger := t\<rparr>
       in if ts_nextTrigger (sc_service d) \<noteq> time_max
          then bindR (tss_Start_at (sc_timer d) t progress (sc_base d)) (\<lambda>b. Inr (d1\<lparr>sc_base := b\<rparr>))
          else Inr (d1\<lparr>sc_base := tm_Cancel (sc_timer d) (sc_base d)\<rparr>))"

definition sc_Now :: "('a, 'b) scalable \<Rightarrow> int result" where
  "sc_Now d = sc_ScaleTime d (ts_Now (sc_base d))"

definition sc_Resolution :: "('a, 'b) scalable \<Rightarrow> int result" where
  "sc_Resolution d = timed (ts_Resolution (sc_base d) * sc_factor d)"

definition sc_service_call :: "'b \<Rightarrow> ('a timer_service \<Rightarrow> 'a timer_service result) \<Rightarrow> ('a, 'b) scalable \<Rightarrow> ('a, 'b) scalable result" where
  "sc_service_call progress f d = bindR (sc_Now d) (\<lambda>now. bindR (sc_Resolution d) (\<lambda>resolution.
     bindR (f ((sc_service d)\<lparr>ts_Now := now, ts_Resolution := resolution\<rparr>)) (\<lambda>s.
       if ts_announced s \<noteq> ts_announced (sc_service d) then sc_NextTriggerChanged progress (d\<lparr>sc_service := s\<rparr>)
       else Inr (d\<lparr>sc_service := s\<rparr>))))"

definition sc_timer_action ::
    "'b \<Rightarrow> nat \<Rightarrow> ('a \<Rightarrow> 'a timer_service \<Rightarrow> 'a timer_service result) \<Rightarrow> ('a, 'b) scalable \<Rightarrow> ('a, 'b) scalable result" where
  "sc_timer_action progress fuel perform d = bindR (sc_ScaleTime d (sc_nextTrigger d))
     (\<lambda>time. sc_service_call progress (ts_Progressed fuel perform time) d)"

definition sc_Shift :: "'b \<Rightarrow> int \<Rightarrow> ('a, 'b) scalable \<Rightarrow> ('a, 'b) scalable result" where
  "sc_Shift progress shift d = sc_NextTriggerChanged progress (d\<lparr>sc_shift := shift\<rparr>)"

definition sc_Scale :: "'b \<Rightarrow> int \<Rightarrow> ('a, 'b) scalable \<Rightarrow> ('a, 'b) scalable result" where
  "sc_Scale progress factor d = bindR (sc_Now d) (\<lambda>now.
     let d1 = d\<lparr>sc_startPointForFactor := now, sc_factor := factor\<rparr>
     in bindR (sc_Now d1) (\<lambda>now1. bindR (timed (sc_startPointForFactor d1 - now1)) (\<lambda>diff.
        bindR (timed (sc_shift d1 + diff)) (\<lambda>shift. sc_NextTriggerChanged progress (d1\<lparr>sc_shift := shift\<rparr>)))))"

definition sc_GetCurrentShift :: "('a, 'b) scalable \<Rightarrow> int" where
  "sc_GetCurrentShift d = sc_shift d"

subsection \<open>Times of a scaled service\<close>

lemma timed_Inr_eq: "timed t = Inr u \<Longrightarrow> u = t"
  by (simp add: timed_def split: if_splits)

lemma sc_ScaleTime_eq:
  "sc_ScaleTime d time = Inr t \<Longrightarrow> t = sc_startPointForFactor d + (time - sc_startPointForFactor d + sc_shift d) * sc_factor d"
  by (auto simp: sc_ScaleTime_def bindR_Inr_iff dest!: timed_Inr_eq)

lemma sc_UnscaleTime_eq:
  "sc_UnscaleTime d time = Inr t
   \<Longrightarrow> t = int_div (time - sc_startPointForFactor d) (sc_factor d) - sc_shift d + sc_startPointForFactor d"
  by (auto simp: sc_UnscaleTime_def bindR_Inr_iff split: if_splits dest!: timed_Inr_eq)

lemma scale_unscale:
  assumes "sc_UnscaleTime d time = Inr t" "sc_ScaleTime d t = Inr u"
  shows "u = time - int_mod (time - sc_startPointForFactor d) (sc_factor d)"
  using sc_UnscaleTime_eq [OF assms(1)] sc_ScaleTime_eq [OF assms(2)] by (simp add: int_mod_def)

text \<open>
  The base timer is set to the time at which the scaled time reaches the next trigger, rounded down, and its action makes the service
  progress to that time scaled up again, which is earlier than the next trigger unless the factor divides. Then
  no timer is due, nothing is announced and the base timer, a single shot timer that has fired, is not started again: the
  service stands still until a timer is started or the service is shifted.
\<close>

lemma ts_find_due_none:
  assumes "ts_ok s" "\<not> ts_updateNeeded s" "time < ts_nextTrigger s"
  shows "ts_find_due time s = (None, False)"
proof -
  have "tm_NextTrigger i s > time" if i: "i \<in> set (ts_scheduledTimers s)" for i
  proof -
    have "ts_nextTrigger s = Min (insert time_max ((\<lambda>i. tm_NextTrigger i s) ` set (ts_scheduledTimers s)))"
      using assms(1,2) by (simp add: ts_ok_def ts_earliest_Min)
    moreover have "Min (insert time_max ((\<lambda>i. tm_NextTrigger i s) ` set (ts_scheduledTimers s))) \<le> tm_NextTrigger i s"
      using i by (intro Min_le) auto
    ultimately show ?thesis using assms(3) by linarith
  qed
  moreover have "foldl (ts_due_step time s) (None, False) is = (None, False)"
    if "\<forall>i \<in> set is. tm_NextTrigger i s > time" for "is"
    using that by (induction "is") (auto simp: ts_due_step_def)
  ultimately show ?thesis by (simp add: ts_find_due_def)
qed

lemma ts_Progressed_nothing_due:
  assumes "ts_ok s" "\<not> ts_updateNeeded s" "\<not> ts_holdUpdate s" "time < ts_nextTrigger s" "0 < fuel"
  shows "ts_Progressed fuel perform time s = Inr s"
proof -
  obtain f where f: "fuel = Suc f" using assms(5) gr0_implies_Suc by blast
  let ?s = "s\<lparr>ts_holdUpdate := True\<rparr>"
  have "ts_find_due time ?s = (None, False)"
    using ts_find_due_none [OF ts_other_fields_ok(3) [OF assms(1)]] assms(2,4) by simp
  moreover have "?s\<lparr>ts_holdUpdate := False\<rparr> = s" using assms(3) by simp
  ultimately show ?thesis using assms(2) by (simp add: ts_Progressed_def f ts_released_def)
qed

text \<open>C29.
  A scaled service whose next trigger is not a whole number of factors after its starting point stands
  still: when the base timer fires, no timer of the service is triggered, and the base timer is not
  started again.
\<close>

theorem scaled_service_stands_still:
  assumes ok: "ts_ok (sc_service d)" "\<not> ts_updateNeeded (sc_service d)" "\<not> ts_holdUpdate (sc_service d)"
    and set: "sc_UnscaleTime d (ts_nextTrigger (sc_service d)) = Inr (sc_nextTrigger d)"
    and later: "sc_startPointForFactor d \<le> ts_nextTrigger (sc_service d)" "0 < sc_factor d"
    and part: "\<not> sc_factor d dvd ts_nextTrigger (sc_service d) - sc_startPointForFactor d"
    and times: "sc_ScaleTime d (sc_nextTrigger d) = Inr time" "sc_Now d = Inr now" "sc_Resolution d = Inr resolution"
    and "0 < fuel"
  shows "time < ts_nextTrigger (sc_service d)
    \<and> sc_timer_action progress fuel perform d
      = Inr (d\<lparr>sc_service := (sc_service d)\<lparr>ts_Now := now, ts_Resolution := resolution\<rparr>\<rparr>)"
proof
  let ?s = "(sc_service d)\<lparr>ts_Now := now, ts_Resolution := resolution\<rparr>"
  let ?x = "ts_nextTrigger (sc_service d) - sc_startPointForFactor d"
  have "time = ts_nextTrigger (sc_service d) - ?x mod sc_factor d"
    using scale_unscale [OF set times(1)] later by simp
  moreover have "?x mod sc_factor d > 0"
    using part later(2) by (metis dvd_eq_mod_eq_0 pos_mod_sign order_le_neq_trans)
  ultimately show early: "time < ts_nextTrigger (sc_service d)" by linarith
  have "ts_earliest_time ?s = ts_earliest_time (sc_service d)" by (rule ts_earliest_cong) (simp_all add: tm_NextTrigger_def)
  then have "ts_ok ?s" using ok(1) by (simp add: ts_ok_def tm_Armed_def)
  then have "ts_Progressed fuel perform time ?s = Inr ?s"
    using ok early \<open>0 < fuel\<close> by (intro ts_Progressed_nothing_due) simp_all
  then show "sc_timer_action progress fuel perform d = Inr (d\<lparr>sc_service := ?s\<rparr>)"
    by (simp add: sc_timer_action_def sc_service_call_def times)
qed

text \<open>A service three times as fast whose next trigger is at 5, with the base timer set to 1.\<close>

definition scaled_by_three :: "(nat, nat) scalable" where
  "scaled_by_three = \<lparr>sc_service = three_timers, sc_base = ts_make 2 1 (\<lambda>_. SingleShot), sc_timer = 0,
     sc_nextTrigger = 1, sc_shift = 0, sc_factor = 3, sc_startPointForFactor = 0\<rparr>"

theorem scaled_service_stands_still_witness:
  "ts_nextTrigger (sc_service scaled_by_three) = 5 \<and> sc_ScaleTime scaled_by_three 1 = Inr 3
    \<and> sc_timer_action 7 1 (ts_perform (\<lambda>_. [])) scaled_by_three
      = Inr (scaled_by_three\<lparr>sc_service := three_timers\<lparr>ts_Now := 6, ts_Resolution := 3\<rparr>\<rparr>)"
proof -
  let ?d = scaled_by_three
  have s: "ts_ok three_timers" "\<not> ts_holdUpdate three_timers" using ts_reachable_ok [OF three_reachable] by simp_all
  have f: "sc_service ?d = three_timers" "ts_nextTrigger three_timers = 5" "\<not> ts_updateNeeded three_timers"
    "sc_nextTrigger ?d = 1" "sc_factor ?d = 3" "sc_startPointForFactor ?d = 0"
    by (simp_all add: scaled_by_three_def three_timers_def)
  have u: "sc_UnscaleTime ?d 5 = Inr 1" "sc_ScaleTime ?d 1 = Inr 3" "sc_Now ?d = Inr 6" "sc_Resolution ?d = Inr 3"
    by (simp_all add: scaled_by_three_def sc_UnscaleTime_def sc_ScaleTime_def sc_Now_def sc_Resolution_def timed_def
        time_max_def ts_make_def)
  have "\<not> (3 :: int) dvd 5" by simp
  with scaled_service_stands_still [of ?d 3 6 3 1 7 "ts_perform (\<lambda>_. [])"] s f u show ?thesis by simp
qed

text \<open>
  \<^verbatim>\<open>Scale\<close> means to change the speed of the clock without a jump. It does so from the factor 1, or back to it; between other
  factors the clock jumps, by a multiple of the time that has passed since the last change.
\<close>

theorem scale_jumps:
  assumes "sc_Scale progress f d = Inr d'" and "sc_Now d = Inr now" and "sc_Now d' = Inr now'"
    and base: "ts_Now (sc_base d') = ts_Now (sc_base d)"
  shows "now' - now = f * (1 - f) * (1 - sc_factor d) * (ts_Now (sc_base d) - sc_startPointForFactor d + sc_shift d)"
proof -
  let ?x = "ts_Now (sc_base d) - sc_startPointForFactor d + sc_shift d"
  have now: "now = sc_startPointForFactor d + ?x * sc_factor d"
    using sc_ScaleTime_eq assms(2) unfolding sc_Now_def by blast
  let ?d1 = "d\<lparr>sc_startPointForFactor := now, sc_factor := f\<rparr>"
  obtain n1 d1 shift where s: "sc_Now ?d1 = Inr n1" "shift = sc_shift d + (now - n1)"
    "sc_NextTriggerChanged progress (?d1\<lparr>sc_shift := shift\<rparr>) = Inr d'"
    using assms(1,2) by (auto simp: sc_Scale_def Let_def bindR_Inr_iff dest!: timed_Inr_eq)
  have n1: "n1 = now + (ts_Now (sc_base d) - now + sc_shift d) * f"
    using sc_ScaleTime_eq [OF s(1) [unfolded sc_Now_def]] by simp
  have d': "sc_startPointForFactor d' = now" "sc_factor d' = f" "sc_shift d' = shift"
    using s(3) by (auto simp: sc_NextTriggerChanged_def Let_def bindR_Inr_iff split: if_splits)
  have "now' = now + (ts_Now (sc_base d) - now + shift) * f"
    using sc_ScaleTime_eq [OF assms(3) [unfolded sc_Now_def]] base by (simp add: d')
  then have "now' - now = (ts_Now (sc_base d) - now + sc_shift d) * (1 - f) * f"
    unfolding s(2) n1 by (simp add: algebra_simps)
  also have "ts_Now (sc_base d) - now + sc_shift d = (1 - sc_factor d) * ?x"
    unfolding now by (simp add: algebra_simps)
  finally show ?thesis by (simp only: mult.commute mult.left_commute)
qed

subsection \<open>Shifting a derived service\<close>

lemma ts_jump_all_times:
  assumes "ts_jump_all t0 t1 is s = Inr s'" "distinct is" "\<forall>i \<in> set is. tm_Armed i s"
  shows "ts_scheduledTimers s' = ts_scheduledTimers s \<and> (\<forall>j. tm_Armed j s' = tm_Armed j s)
    \<and> (\<forall>j. tm_NextTrigger j s' = tm_NextTrigger j s + (if j \<in> set is then t1 - t0 else 0))"
  using assms
proof (induction "is" arbitrary: s)
  case (Cons i "is")
  obtain a where s1: "ts_jump_all t0 t1 is (tm_SetNextTriggerTime i (tm_NextTrigger i s + (t1 - t0)) a s) = Inr s'"
    using Cons.prems(1) by (auto simp: tm_Jumped_def tm_with_Action_def bindR_Inr_iff split: option.splits dest!: timed_Inr_eq)
  let ?s1 = "tm_SetNextTriggerTime i (tm_NextTrigger i s + (t1 - t0)) a s"
  have armed: "tm_Armed j ?s1 = tm_Armed j s" for j using Cons.prems(3) by (auto simp: tm_Armed_def tm_Set_fields)
  have next1: "tm_NextTrigger j ?s1 = (if j = i then tm_NextTrigger i s + (t1 - t0) else tm_NextTrigger j s)" for j
    by (simp add: tm_NextTrigger_def tm_Set_fields)
  have "ts_scheduledTimers s' = ts_scheduledTimers ?s1 \<and> (\<forall>j. tm_Armed j s' = tm_Armed j ?s1)
    \<and> (\<forall>j. tm_NextTrigger j s' = tm_NextTrigger j ?s1 + (if j \<in> set is then t1 - t0 else 0))"
    using Cons.prems armed by (intro Cons.IH [OF s1]) auto
  then show ?case using Cons.prems(2,3) armed next1 by (auto simp: tm_Set_fields)
qed simp

lemma ts_Jumped_times:
  assumes "ts_ok s" "ts_Jumped t0 t1 s = Inr s'" "tm_Armed i s"
  shows "tm_Armed i s' \<and> tm_NextTrigger i s' = tm_NextTrigger i s + (t1 - t0)"
proof -
  let ?s = "s\<lparr>ts_holdUpdate := True\<rparr>"
  obtain s1 where s1: "ts_jump_all t0 t1 (ts_scheduledTimers s) ?s = Inr s1" "s' = ts_released s1"
    using assms(2) by (auto simp: ts_Jumped_def bindR_Inr_iff)
  have "distinct (ts_scheduledTimers s)" "\<forall>i \<in> set (ts_scheduledTimers s). tm_Armed i ?s" "i \<in> set (ts_scheduledTimers s)"
    using assms(1,3) by (auto simp: ts_ok_def tm_Armed_def)
  with ts_jump_all_times [OF s1(1)] assms(3) show ?thesis
    by (auto simp: s1(2) ts_released_def tm_Armed_def tm_NextTrigger_def Let_def)
qed

text \<open>
  Shifting a derived service moves its timers with its clock: each timer that is armed stays armed, and triggers at the same time of the
  base service as before.
\<close>

theorem shift_keeps_base_times:
  assumes "ts_ok (dt_service d)" and "dt_Shift progress shift d = Inr d'" and "tm_Armed i (dt_service d)"
  shows "dt_GetCurrentShift d' = shift \<and> tm_Armed i (dt_service d')
    \<and> tm_NextTrigger i (dt_service d') - dt_GetCurrentShift d' = tm_NextTrigger i (dt_service d) - dt_GetCurrentShift d"
proof -
  let ?b = "ts_Now (dt_base d)" and ?d1 = "d\<lparr>dt_shift := shift\<rparr>"
  have c: "dt_service_call progress (ts_Jumped (?b + dt_shift d) (?b + shift)) ?d1 = Inr d'"
    using assms(2) by (auto simp: dt_Shift_def dt_Now_def Let_def bindR_Inr_iff dest!: timed_Inr_eq)
  let ?s = "(dt_service d)\<lparr>ts_Now := ?b + shift, ts_Resolution := dt_Resolution ?d1\<rparr>"
  have e: "ts_earliest_time ?s = ts_earliest_time (dt_service d)" by (rule ts_earliest_cong) (simp_all add: tm_NextTrigger_def)
  have s: "ts_ok ?s" "tm_Armed i ?s" using assms(1,3) e by (simp_all add: ts_ok_def tm_Armed_def)
  obtain s' where s': "ts_Jumped (?b + dt_shift d) (?b + shift) ?s = Inr s'" "dt_service d' = s'" "dt_shift d' = shift"
    using c by (auto simp: dt_service_call_def dt_Now_def dt_NextTriggerChanged_def Let_def bindR_Inr_iff
        split: if_splits dest!: timed_Inr_eq)
  show ?thesis
    using ts_Jumped_times [OF s(1) s'(1) s(2)] s'(2,3) by (simp add: dt_GetCurrentShift_def tm_NextTrigger_def)
qed

end
