(* ===== verification/Tick_Timer.thy ===== *)
theory Tick_Timer
  imports Timers
begin

section \<open>The timer service that is driven by a tick interrupt: infra/timer/TickOnInterruptTimerService.cpp\<close>

text \<open>
  An interrupt counts ticks and, when enough of them have come for the next timer, schedules one event, in which the program takes the
  ticks, lets the time progress and computes how many ticks the next timer is away. The program and the interrupt share three
  atomic variables, so the event is cut into steps with one access each, between any two of which interrupts may come. The
  timers (theory \<open>Timers\<close>) appear by their next trigger time, of which the service is told when it changes; what
  the timers do when they are triggered are such changes.
\<close>

subsection \<open>The state\<close>

text \<open>
  Where the event is: not running, or between two of its steps: the ticks have been taken, the time has progressed, the next trigger has been
  computed, the comparison has been made, its result has been stored.
\<close>

datatype tick_pc = Idle | Taken nat | Progressing | Calculated | Compared bool | Stored bool

record tick_service =
  tk_systemTime :: int
  tk_resolution :: int
  tk_ticksNextNotification :: nat
  tk_ticksProgressed :: nat
  tk_notificationScheduled :: bool
  tk_nextTrigger :: int
  tk_pc :: tick_pc
  tk_events :: nat
  tk_interrupts :: nat
  tk_taken :: nat

text \<open>
  \<open>tk_events\<close> are the events of this service that the dispatcher holds; \<open>tk_interrupts\<close> and \<open>tk_taken\<close> are history: the interrupts
  there were and the ticks the program has taken.
\<close>

definition uint32_limit :: nat where "uint32_limit = 4294967296"

definition tk_most_ticks :: nat where "tk_most_ticks = 2147483647"

definition tk_Now :: "tick_service \<Rightarrow> int" where
  "tk_Now s = tk_systemTime s + int (tk_ticksProgressed s) * tk_resolution s"

definition tk_ticks_to_next :: "tick_service \<Rightarrow> nat result" where
  "tk_ticks_to_next s =
     (if tk_nextTrigger s \<noteq> time_max
      then bindR (timed (if tk_nextTrigger s > tk_systemTime s then tk_nextTrigger s - tk_systemTime s else 0))
        (\<lambda>durationToNextNotification. bindR (timed (durationToNextNotification + tk_resolution s - 1))
        (\<lambda>rounded. if tk_resolution s = 0 then Inl UndefinedBehaviour
          else Inr (min (nat (int_div rounded (tk_resolution s) mod int uint32_limit)) tk_most_ticks)))
      else Inr tk_most_ticks)"

definition tk_CalculateNextTrigger :: "tick_service \<Rightarrow> tick_service result" where
  "tk_CalculateNextTrigger s = bindR (tk_ticks_to_next s) (\<lambda>n. Inr (s\<lparr>tk_ticksNextNotification := n\<rparr>))"

definition tk_make :: "int \<Rightarrow> tick_service result" where
  "tk_make resolution = tk_CalculateNextTrigger
     \<lparr>tk_systemTime = 0, tk_resolution = resolution, tk_ticksNextNotification = 0, tk_ticksProgressed = 0,
      tk_notificationScheduled = False, tk_nextTrigger = time_max, tk_pc = Idle, tk_events = 0, tk_interrupts = 0, tk_taken = 0\<rparr>"

text \<open>The timers have another next trigger, and the service is told.\<close>

definition tk_NextTriggerChanged :: "int \<Rightarrow> tick_service \<Rightarrow> tick_service result" where
  "tk_NextTriggerChanged t s = tk_CalculateNextTrigger (s\<lparr>tk_nextTrigger := t\<rparr>)"

definition tk_SetResolution :: "int \<Rightarrow> tick_service \<Rightarrow> tick_service result" where
  "tk_SetResolution resolution s = tk_CalculateNextTrigger (s\<lparr>tk_resolution := resolution\<rparr>)"

definition tk_TimeProgressed :: "int \<Rightarrow> tick_service \<Rightarrow> tick_service result" where
  "tk_TimeProgressed amount s = bindR (timed (tk_systemTime s + amount)) (\<lambda>t. Inr (s\<lparr>tk_systemTime := t\<rparr>))"

subsection \<open>The interrupt\<close>

definition tk_SystemTickInterrupt :: "tick_service \<Rightarrow> tick_service" where
  "tk_SystemTickInterrupt s =
     (let s1 = s\<lparr>tk_ticksProgressed := (tk_ticksProgressed s + 1) mod uint32_limit, tk_interrupts := tk_interrupts s + 1\<rparr>
      in if tk_ticksProgressed s1 \<ge> tk_ticksNextNotification s1
         then let s2 = s1\<lparr>tk_notificationScheduled := True\<rparr>
              in if \<not> tk_notificationScheduled s1 then s2\<lparr>tk_events := tk_events s2 + 1\<rparr> else s2
         else s1)"

subsection \<open>The event\<close>

fun tk_ProcessTicks_step :: "tick_service \<Rightarrow> tick_pc \<Rightarrow> tick_service result" where
  "tk_ProcessTicks_step s Idle =
     checked (tk_events s > 0) (Inr (s\<lparr>tk_events := tk_events s - 1, tk_ticksProgressed := 0, tk_pc := Taken (tk_ticksProgressed s)\<rparr>))"
| "tk_ProcessTicks_step s (Taken ticks) =
     bindR (timed (int ticks * tk_resolution s)) (\<lambda>amount. bindR (tk_TimeProgressed amount s)
       (\<lambda>s. Inr (s\<lparr>tk_taken := tk_taken s + ticks, tk_pc := Progressing\<rparr>)))"
| "tk_ProcessTicks_step s Progressing =
     bindR (tk_CalculateNextTrigger s) (\<lambda>s. Inr (s\<lparr>tk_pc := Calculated\<rparr>))"
| "tk_ProcessTicks_step s Calculated =
     Inr (s\<lparr>tk_pc := Compared (tk_ticksProgressed s \<ge> tk_ticksNextNotification s)\<rparr>)"
| "tk_ProcessTicks_step s (Compared reschedule) =
     Inr (s\<lparr>tk_notificationScheduled := reschedule, tk_pc := Stored reschedule\<rparr>)"
| "tk_ProcessTicks_step s (Stored reschedule) =
     Inr (s\<lparr>tk_events := tk_events s + (if reschedule then 1 else 0), tk_pc := Idle\<rparr>)"

text \<open>
  The steps of a system: the interrupt at any time, a step of the event, and calls of the program, which are made outside of the event or by
  the timers that are triggered in it. \<open>tk_ProcessTicks_step s Idle\<close> is the start of the event by the dispatcher.
\<close>

inductive tick_step :: "tick_service \<Rightarrow> tick_service \<Rightarrow> bool" where
  tick_interrupt: "tick_step s (tk_SystemTickInterrupt s)"
| tick_process: "tk_ProcessTicks_step s (tk_pc s) = Inr s' \<Longrightarrow> tick_step s s'"
| tick_timers: "tk_pc s = Idle \<or> tk_pc s = Progressing \<Longrightarrow> tk_NextTriggerChanged t s = Inr s' \<Longrightarrow> tick_step s s'"
| tick_resolution: "tk_pc s = Idle \<or> tk_pc s = Progressing \<Longrightarrow> 0 < resolution \<Longrightarrow> tk_SetResolution resolution s = Inr s' \<Longrightarrow> tick_step s s'"

inductive tick_reachable :: "tick_service \<Rightarrow> bool" where
  tick_make: "0 < resolution \<Longrightarrow> tk_make resolution = Inr s \<Longrightarrow> tick_reachable s"
| tick_next: "tick_reachable s \<Longrightarrow> tick_step s s' \<Longrightarrow> tick_reachable s'"

subsection \<open>The invariant\<close>

fun tick_handshake :: "tick_pc \<Rightarrow> bool \<Rightarrow> nat \<Rightarrow> bool" where
  "tick_handshake Idle notified events \<longleftrightarrow> events = (if notified then 1 else 0)"
| "tick_handshake (Stored False) notified events \<longleftrightarrow> events = (if notified then 1 else 0)"
| "tick_handshake _ notified events \<longleftrightarrow> notified \<and> events = 0"

fun tick_pending :: "tick_pc \<Rightarrow> nat" where
  "tick_pending (Taken ticks) = ticks"
| "tick_pending _ = 0"

definition tick_inv :: "tick_service \<Rightarrow> bool" where
  "tick_inv s \<longleftrightarrow> 0 < tk_resolution s \<and> tick_handshake (tk_pc s) (tk_notificationScheduled s) (tk_events s)
     \<and> (tk_taken s + tick_pending (tk_pc s) + tk_ticksProgressed s) mod uint32_limit = tk_interrupts s mod uint32_limit
     \<and> (tk_pc s \<noteq> Progressing \<longrightarrow> tk_ticks_to_next s = Inr (tk_ticksNextNotification s))"

lemma tk_ticks_to_next_cong:
  assumes "tk_nextTrigger s' = tk_nextTrigger s" "tk_systemTime s' = tk_systemTime s" "tk_resolution s' = tk_resolution s"
  shows "tk_ticks_to_next s' = tk_ticks_to_next s"
  unfolding tk_ticks_to_next_def assms ..

lemma tk_ticks_to_next_fields [simp]:
  "tk_ticks_to_next (s\<lparr>tk_ticksNextNotification := n\<rparr>) = tk_ticks_to_next s"
  "tk_ticks_to_next (s\<lparr>tk_ticksProgressed := n\<rparr>) = tk_ticks_to_next s"
  "tk_ticks_to_next (s\<lparr>tk_notificationScheduled := b\<rparr>) = tk_ticks_to_next s"
  "tk_ticks_to_next (s\<lparr>tk_pc := pc\<rparr>) = tk_ticks_to_next s"
  "tk_ticks_to_next (s\<lparr>tk_events := n\<rparr>) = tk_ticks_to_next s"
  "tk_ticks_to_next (s\<lparr>tk_taken := n\<rparr>) = tk_ticks_to_next s"
  "tk_ticks_to_next (tk_SystemTickInterrupt s) = tk_ticks_to_next s"
  by (rule tk_ticks_to_next_cong; simp add: tk_SystemTickInterrupt_def Let_def)+

lemma tk_Calculate_inv:
  assumes "tk_CalculateNextTrigger s = Inr s'"
  shows "\<exists>n. s' = s\<lparr>tk_ticksNextNotification := n\<rparr> \<and> tk_ticks_to_next s = Inr n"
  using assms by (auto simp: tk_CalculateNextTrigger_def bindR_Inr_iff)

lemma interrupt_fields:
  "tk_pc (tk_SystemTickInterrupt s) = tk_pc s" "tk_taken (tk_SystemTickInterrupt s) = tk_taken s"
  "tk_systemTime (tk_SystemTickInterrupt s) = tk_systemTime s" "tk_nextTrigger (tk_SystemTickInterrupt s) = tk_nextTrigger s"
  "tk_resolution (tk_SystemTickInterrupt s) = tk_resolution s" "tk_interrupts (tk_SystemTickInterrupt s) = tk_interrupts s + 1"
  "tk_ticksNextNotification (tk_SystemTickInterrupt s) = tk_ticksNextNotification s"
  "tk_ticksProgressed (tk_SystemTickInterrupt s) = (tk_ticksProgressed s + 1) mod uint32_limit"
  by (simp_all add: tk_SystemTickInterrupt_def Let_def)

lemma interrupt_handshake:
  assumes "tick_handshake pc (tk_notificationScheduled s) (tk_events s)"
  shows "tick_handshake pc (tk_notificationScheduled (tk_SystemTickInterrupt s)) (tk_events (tk_SystemTickInterrupt s))"
proof (cases "pc = Idle \<or> pc = Stored False")
  case True
  with assms show ?thesis by (auto simp: tk_SystemTickInterrupt_def Let_def)
next
  case False
  then have "tick_handshake pc n e \<longleftrightarrow> n \<and> e = 0" for n e by (cases pc) auto
  with assms show ?thesis by (auto simp: tk_SystemTickInterrupt_def Let_def)
qed

lemma count_up: "(a + n) mod N = m mod N \<Longrightarrow> (a + (n + 1) mod N) mod N = (m + 1) mod N" for a n m N :: nat
proof -
  assume "(a + n) mod N = m mod N"
  then have "(a + n + 1) mod N = (m + 1) mod N" by (rule mod_add_cong) simp
  then show ?thesis by (simp only: mod_add_right_eq add.assoc)
qed

lemma interrupt_inv: "tick_inv s \<Longrightarrow> tick_inv (tk_SystemTickInterrupt s)"
  using interrupt_handshake [of "tk_pc s" s]
    count_up [of "tk_taken s + tick_pending (tk_pc s)" "tk_ticksProgressed s" uint32_limit "tk_interrupts s"]
  by (simp add: tick_inv_def interrupt_fields)

lemma process_inv:
  assumes s: "tick_inv s" and step: "tk_ProcessTicks_step s (tk_pc s) = Inr s'"
  shows "tick_inv s'"
proof (cases "tk_pc s")
  case Idle
  with step have e: "tk_events s > 0"
    "s' = s\<lparr>tk_events := tk_events s - 1, tk_ticksProgressed := 0, tk_pc := Taken (tk_ticksProgressed s)\<rparr>"
    by (auto simp: result_simps)
  with s Idle show ?thesis
    by (auto simp: tick_inv_def split: if_splits)
next
  case (Taken ticks)
  with s step show ?thesis
    by (auto simp: tick_inv_def tk_TimeProgressed_def bindR_Inr_iff)
next
  case Progressing
  with step obtain n where s': "s' = s\<lparr>tk_ticksNextNotification := n\<rparr>\<lparr>tk_pc := Calculated\<rparr>" "tk_ticks_to_next s = Inr n"
    by (auto simp: bindR_Inr_iff dest!: tk_Calculate_inv)
  with s Progressing show ?thesis by (simp add: tick_inv_def)
next
  case Calculated
  then have "s' = s\<lparr>tk_pc := Compared (tk_ticksProgressed s \<ge> tk_ticksNextNotification s)\<rparr>" using step by simp
  with s Calculated show ?thesis by (simp add: tick_inv_def)
next
  case (Compared reschedule)
  then have "s' = s\<lparr>tk_notificationScheduled := reschedule, tk_pc := Stored reschedule\<rparr>" using step by simp
  with s Compared show ?thesis by (cases reschedule) (simp_all add: tick_inv_def)
next
  case (Stored reschedule)
  then have "s' = s\<lparr>tk_events := tk_events s + (if reschedule then 1 else 0), tk_pc := Idle\<rparr>" using step by simp
  with s Stored show ?thesis by (cases reschedule) (simp_all add: tick_inv_def)
qed

lemma tk_Calculated:
  assumes "tk_CalculateNextTrigger s = Inr s'"
  obtains n where "s' = s\<lparr>tk_ticksNextNotification := n\<rparr>" "tk_ticks_to_next s' = Inr n"
  using tk_Calculate_inv [OF assms] tk_ticks_to_next_fields(1) by metis

lemma tick_step_inv:
  assumes "tick_step s s'" and "tick_inv s"
  shows "tick_inv s'"
  using assms
proof (cases rule: tick_step.cases)
  case tick_interrupt
  then show ?thesis using assms(2) interrupt_inv by simp
next
  case tick_process
  then show ?thesis using assms(2) process_inv by blast
next
  case (tick_timers t)
  from tick_timers(2) obtain n where "s' = s\<lparr>tk_nextTrigger := t\<rparr>\<lparr>tk_ticksNextNotification := n\<rparr>" "tk_ticks_to_next s' = Inr n"
    unfolding tk_NextTriggerChanged_def by (rule tk_Calculated)
  then show ?thesis using assms(2) by (simp add: tick_inv_def)
next
  case (tick_resolution r)
  from tick_resolution(3) obtain n where "s' = s\<lparr>tk_resolution := r\<rparr>\<lparr>tk_ticksNextNotification := n\<rparr>" "tk_ticks_to_next s' = Inr n"
    unfolding tk_SetResolution_def by (rule tk_Calculated)
  then show ?thesis using assms(2) tick_resolution(2) by (simp add: tick_inv_def)
qed

lemma tick_reachable_inv: "tick_reachable s \<Longrightarrow> tick_inv s"
proof (induction rule: tick_reachable.induct)
  case (tick_make r s)
  from tick_make(2) obtain n where "s = \<lparr>tk_systemTime = 0, tk_resolution = r, tk_ticksNextNotification = n, tk_ticksProgressed = 0,
      tk_notificationScheduled = False, tk_nextTrigger = time_max, tk_pc = Idle, tk_events = 0, tk_interrupts = 0, tk_taken = 0\<rparr>"
    "tk_ticks_to_next s = Inr n"
    unfolding tk_make_def by (auto elim: tk_Calculated)
  then show ?case using tick_make(1) by (simp add: tick_inv_def)
next
  case (tick_next s s')
  then show ?case using tick_step_inv by blast
qed

subsection \<open>The properties\<close>

text \<open>How many ticks the next trigger is away: never more than there are, rounded up.\<close>

lemma tk_ticks_to_next_le:
  assumes "tk_ticks_to_next s = Inr n" "0 < tk_resolution s" "tk_nextTrigger s \<noteq> time_max"
    and "tk_nextTrigger s \<le> tk_systemTime s + int k * tk_resolution s"
  shows "n \<le> k"
proof -
  let ?d = "if tk_nextTrigger s > tk_systemTime s then tk_nextTrigger s - tk_systemTime s else 0" and ?r = "tk_resolution s"
  have d: "0 \<le> ?d" "?d \<le> int k * ?r" using assms(2,4) by auto
  have n: "n = min (nat ((?d + ?r - 1) div ?r mod int uint32_limit)) tk_most_ticks"
    using assms(1-3) d(1) by (auto simp: tk_ticks_to_next_def bindR_Inr_iff split: if_splits dest!: timed_Inr [THEN iffD1])
  have "(?d + ?r - 1) div ?r \<le> (int k * ?r + (?r - 1)) div ?r"
    using d(2) assms(2) by (intro zdiv_mono1) simp_all
  also have "\<dots> = int k" using assms(2) by simp
  finally have le: "(?d + ?r - 1) div ?r \<le> int k" .
  have "0 \<le> (?d + ?r - 1) div ?r" using d(1) assms(2) by (intro div_int_pos_iff [THEN iffD2]) auto
  then have "(?d + ?r - 1) div ?r mod int uint32_limit \<le> (?d + ?r - 1) div ?r" by (rule zmod_le_nonneg_dividend)
  then show ?thesis using le unfolding n by linarith
qed

text \<open>
  No tick is lost and no event is scheduled twice, whenever the interrupts come: the ticks that the program has taken, is taking or will take
  are those there were (modulo the range of the counter), the dispatcher holds at most one event, none while it is running,
  and when it is not running it holds one exactly when the flag says so.
\<close>

theorem ticks_are_counted_once:
  assumes "tick_reachable s"
  shows "(tk_taken s + tick_pending (tk_pc s) + tk_ticksProgressed s) mod uint32_limit = tk_interrupts s mod uint32_limit
    \<and> tick_handshake (tk_pc s) (tk_notificationScheduled s) (tk_events s) \<and> tk_events s \<le> 1"
proof -
  have s: "tick_inv s" using assms by (rule tick_reachable_inv)
  have "e \<le> 1" if "tick_handshake pc n e" for pc n and e :: nat
    using that by (cases "(pc, n, e)" rule: tick_handshake.cases) (auto split: if_splits)
  then show ?thesis using s by (auto simp: tick_inv_def)
qed

text \<open>C28.
  When the time of the next trigger has come and the event is not running, the next interrupt makes sure that the event is scheduled. It need not be
  scheduled before: an interrupt that comes between the comparison at the end of the event and the storing of its result, and
  brings the ticks up to the number for which to schedule, schedules nothing, and the timer waits for one more tick.
\<close>

theorem trigger_waits_at_most_one_tick:
  assumes "tick_reachable s"
  shows "(tk_pc s = Idle \<and> tk_nextTrigger s \<le> tk_Now s \<and> tk_nextTrigger s \<noteq> time_max \<and> tk_ticksProgressed s + 1 < uint32_limit
      \<longrightarrow> tk_events (tk_SystemTickInterrupt s) = 1)
    \<and> (tk_pc s = Compared False \<and> tk_ticksProgressed s + 1 = tk_ticksNextNotification s
      \<longrightarrow> (\<exists>s1 s2. tk_ProcessTicks_step (tk_SystemTickInterrupt s) (Compared False) = Inr s1
        \<and> tk_ProcessTicks_step s1 (Stored False) = Inr s2 \<and> tk_pc s2 = Idle \<and> tk_events s2 = 0
        \<and> tk_ticksProgressed s2 = tk_ticksNextNotification s2 \<and> tk_events (tk_SystemTickInterrupt s2) = 1))"
proof -
  have s: "tick_inv s" using assms by (rule tick_reachable_inv)
  have "tk_events (tk_SystemTickInterrupt s) = 1"
    if "tk_pc s = Idle" "tk_nextTrigger s \<le> tk_Now s" "tk_nextTrigger s \<noteq> time_max" "tk_ticksProgressed s + 1 < uint32_limit"
  proof -
    have "tk_ticksNextNotification s \<le> tk_ticksProgressed s"
      using s that by (intro tk_ticks_to_next_le [of s]) (auto simp: tick_inv_def tk_Now_def)
    then show ?thesis using s that by (auto simp: tk_SystemTickInterrupt_def Let_def tick_inv_def)
  qed
  moreover have "\<exists>s1 s2. tk_ProcessTicks_step (tk_SystemTickInterrupt s) (Compared False) = Inr s1
      \<and> tk_ProcessTicks_step s1 (Stored False) = Inr s2 \<and> tk_pc s2 = Idle \<and> tk_events s2 = 0
      \<and> tk_ticksProgressed s2 = tk_ticksNextNotification s2 \<and> tk_events (tk_SystemTickInterrupt s2) = 1"
    if c: "tk_pc s = Compared False" "tk_ticksProgressed s + 1 = tk_ticksNextNotification s"
  proof -
    have "tk_ticks_to_next s = Inr (tk_ticksNextNotification s)" using s c(1) by (simp add: tick_inv_def)
    then have "tk_ticksNextNotification s \<le> tk_most_ticks"
      by (auto simp: tk_ticks_to_next_def bindR_Inr_iff split: if_splits)
    then have small: "tk_ticksNextNotification s + 1 < uint32_limit" by (simp add: tk_most_ticks_def uint32_limit_def)
    have "tk_notificationScheduled s" "tk_events s = 0" using s c(1) by (simp_all add: tick_inv_def)
    with c small show ?thesis by (simp add: tk_SystemTickInterrupt_def Let_def)
  qed
  ultimately show ?thesis by blast
qed

text \<open>A service with a resolution of 1 at time 1, whose timer was triggered at 1 and starts again for 2, just after the comparison.\<close>

definition tick_before :: "nat \<Rightarrow> int \<Rightarrow> tick_pc \<Rightarrow> int \<Rightarrow> tick_service" where
  "tick_before n time pc t = \<lparr>tk_systemTime = time, tk_resolution = 1, tk_ticksNextNotification = n, tk_ticksProgressed = 0,
     tk_notificationScheduled = pc \<noteq> Idle, tk_nextTrigger = t, tk_pc = pc, tk_events = 0, tk_interrupts = nat time, tk_taken = nat time\<rparr>"

lemma tick_before_reachable: "tick_reachable (tick_before 1 1 (Compared False) 2)"
proof -
  note computes = tk_make_def tk_NextTriggerChanged_def tk_CalculateNextTrigger_def tk_ticks_to_next_def timed_def time_max_def
    tick_before_def tk_SystemTickInterrupt_def tk_TimeProgressed_def uint32_limit_def tk_most_ticks_def Let_def
  have "tick_reachable (tick_before tk_most_ticks 0 Idle time_max)"
    by (rule tick_make [of 1]) (simp_all add: computes)
  then have "tick_reachable (tick_before 1 0 Idle 1)"
    by (rule tick_next [OF _ tick_timers [where t = 1]]) (simp_all add: computes)
  then have "tick_reachable (tk_SystemTickInterrupt (tick_before 1 0 Idle 1))"
    by (rule tick_next [OF _ tick_interrupt])
  then have "tick_reachable ((tick_before 1 0 (Taken 1) 1)\<lparr>tk_interrupts := 1\<rparr>)"
    by (rule tick_next [OF _ tick_process]) (simp add: computes)
  then have "tick_reachable (tick_before 1 1 Progressing 1)"
    by (rule tick_next [OF _ tick_process]) (simp add: computes)
  then have "tick_reachable (tick_before 1 1 Progressing 2)"
    by (rule tick_next [OF _ tick_timers [where t = 2]]) (simp_all add: computes)
  then have "tick_reachable (tick_before 1 1 Calculated 2)"
    by (rule tick_next [OF _ tick_process]) (simp add: computes)
  then show ?thesis
    by (rule tick_next [OF _ tick_process]) (simp add: computes)
qed

theorem trigger_waits_at_most_one_tick_witness:
  "\<exists>s1 s2. tk_ProcessTicks_step (tk_SystemTickInterrupt (tick_before 1 1 (Compared False) 2)) (Compared False) = Inr s1
    \<and> tk_ProcessTicks_step s1 (Stored False) = Inr s2 \<and> tk_pc s2 = Idle \<and> tk_events s2 = 0
    \<and> tk_ticksProgressed s2 = tk_ticksNextNotification s2 \<and> tk_events (tk_SystemTickInterrupt s2) = 1"
  using trigger_waits_at_most_one_tick [OF tick_before_reachable] by (simp add: tick_before_def)

theorem ticks_are_counted_once_witness:
  "tk_interrupts (tick_before 1 1 (Compared False) 2) = 1 \<and> tk_taken (tick_before 1 1 (Compared False) 2) = 1
    \<and> tk_events (tick_before 1 1 (Compared False) 2) \<le> 1
    \<and> tick_handshake (Compared False) (tk_notificationScheduled (tick_before 1 1 (Compared False) 2)) 0"
  using ticks_are_counted_once [OF tick_before_reachable] by (simp add: tick_before_def)

end
