(* ===== verification/Alarm_Retry.thy ===== *)
theory Alarm_Retry
  imports Calendar Timers
begin

section \<open>Alarms and delays between retries\<close>

text \<open>
  \<^verbatim>\<open>infra::TimerAlarm\<close>, a timer for a time of the day, over the timers of theory \<open>Timers\<close> and the dates of theory \<open>Calendar\<close>, and
  \<^verbatim>\<open>infra::RetryPolicyExponentialBackoff\<close> (infra/timer). The number of ticks of the clock in a second, which the library takes from
  the system clock, is \<open>tps\<close>.
\<close>

subsection \<open>TimerAlarm\<close>

record 'a alarm =
  al_service :: "'a timer_service"
  al_timer :: nat
  al_durationFromMidnight :: int

definition al_StartOfDay :: "int \<Rightarrow> int \<Rightarrow> int result" where
  "al_StartOfDay tps time =
     timed (pt_ToTimeT ((pt_make (int_div time tps))\<lparr>pt_hours := 0, pt_minutes := 0, pt_seconds := 0\<rparr>) * tps)"

text \<open>\<open>reached\<close> tells whether the trigger of today counts as passed.\<close>

definition al_trigger :: "int \<Rightarrow> int \<Rightarrow> (int \<Rightarrow> bool) \<Rightarrow> int \<Rightarrow> int result" where
  "al_trigger tps durationFromMidnight future now =
     bindR (al_StartOfDay tps now) (\<lambda>startOfDay. bindR (timed (startOfDay + durationFromMidnight)) (\<lambda>triggerToday.
       if future triggerToday then Inr triggerToday else timed (triggerToday + 24 * 60 * 60 * tps)))"

definition al_ComputeNextTriggerTime_action :: "int \<Rightarrow> 'a \<Rightarrow> 'a alarm \<Rightarrow> 'a alarm result" where
  "al_ComputeNextTriggerTime_action tps action al =
     (let now = ts_Now (al_service al)
      in bindR (al_trigger tps (al_durationFromMidnight al) (\<lambda>triggerToday. triggerToday > now) now)
        (\<lambda>t. Inr (al\<lparr>al_service := tm_SetNextTriggerTime (al_timer al) t action (al_service al)\<rparr>)))"

definition al_ComputeNextTriggerTime :: "int \<Rightarrow> 'a alarm \<Rightarrow> 'a alarm result" where
  "al_ComputeNextTriggerTime tps al =
     tm_with_Action (al_timer al) (al_service al) (\<lambda>a. al_ComputeNextTriggerTime_action tps a al)"

definition al_Start :: "int \<Rightarrow> int \<Rightarrow> 'a \<Rightarrow> 'a alarm \<Rightarrow> 'a alarm result" where
  "al_Start tps durationFromMidnight action al =
     al_ComputeNextTriggerTime_action tps action (al\<lparr>al_durationFromMidnight := durationFromMidnight\<rparr>)"

definition al_Jumped :: "int \<Rightarrow> int \<Rightarrow> int \<Rightarrow> 'a alarm \<Rightarrow> 'a alarm result" where
  "al_Jumped tps t0 t1 al =
     bindR (al_trigger tps (al_durationFromMidnight al) (\<lambda>triggerToday. triggerToday \<ge> t1) t1)
       (\<lambda>t. tm_with_Action (al_timer al) (al_service al)
         (\<lambda>a. Inr (al\<lparr>al_service := tm_SetNextTriggerTime (al_timer al) t a (al_service al)\<rparr>)))"

subsection \<open>The alarm triggers at its time of the day\<close>

lemma start_of_day:
  assumes "0 \<le> t" and "t < 11248738 * 86400"
  shows "pt_ToTimeT ((pt_make t)\<lparr>pt_hours := 0, pt_minutes := 0, pt_seconds := 0\<rparr>) = t - t mod 86400"
proof -
  have r: "- 719528 * 86400 \<le> t" using assms(1) by simp
  obtain z s where t: "t = z * 86400 + s" "0 \<le> s" "s < 86400"
    and p: "pt_make t = (case pt_date (z + 719468) of (y, m, d) \<Rightarrow> \<lparr>pt_seconds = s mod 60, pt_minutes = s div 60 mod 60,
      pt_hours = s div 3600, pt_days = d, pt_months = m, pt_years = y\<rparr>)"
    by (rule pt_make_day [OF r assms(2)])
  have "pt_ToTimeT ((pt_make t)\<lparr>pt_hours := 0, pt_minutes := 0, pt_seconds := 0\<rparr>)
    = pt_ToTimeT (pt_make t) - (pt_seconds (pt_make t) + (pt_minutes (pt_make t) + pt_hours (pt_make t) * 60) * 60)"
    by (simp add: pt_ToTimeT_def Let_def)
  also have "pt_ToTimeT (pt_make t) = t" using pt_make_ToTimeT [OF r assms(2)] by blast
  also have "pt_seconds (pt_make t) + (pt_minutes (pt_make t) + pt_hours (pt_make t) * 60) * 60 = s"
    unfolding p using time_of_day [OF t(2)] by (simp split: prod.splits)
  also have "s = t mod 86400" using t by (simp add: mod_pos_pos_trivial)
  finally show ?thesis .
qed

lemma al_trigger_times:
  assumes tps: "0 < tps" and now: "0 \<le> now" "now < 11248738 * 86400 * tps"
    and dur: "0 \<le> dur" "dur < 86400 * tps" and t: "al_trigger tps dur future now = Inr t"
  shows "t mod (86400 * tps) = dur \<and> (\<exists>today. t = (if future today then today else today + 86400 * tps)
    \<and> now - 86400 * tps < today \<and> today < now + 86400 * tps)"
proof -
  let ?day = "86400 * tps"
  have "now div tps * tps \<le> now"
    using tps pos_mod_sign [of tps now] minus_mod_eq_div_mult [of now tps] by linarith
  then have "now div tps * tps < 11248738 * 86400 * tps" using now(2) by linarith
  then have "now div tps < 11248738 * 86400" using tps by (simp only: mult_less_cancel_right_pos)
  moreover have "0 \<le> now div tps" using tps now(1) by (simp add: pos_imp_zdiv_nonneg_iff)
  ultimately have q: "0 \<le> now div tps" "now div tps < 11248738 * 86400" by blast+
  define z where "z = now div ?day"
  have z: "now = z * ?day + now mod ?day" "0 \<le> now mod ?day" "now mod ?day < ?day"
    using tps unfolding z_def by (simp_all only: div_mult_mod_eq) simp_all
  have "now div tps - now div tps mod 86400 = now div tps div 86400 * 86400"
    by (simp add: minus_mod_eq_div_mult)
  moreover have "now div tps div 86400 = z" using tps zdiv_zmult2_eq [of 86400 now tps] by (simp add: z_def mult.commute)
  ultimately have s: "al_StartOfDay tps now = timed (z * ?day)"
    using start_of_day [OF q] now(1) by (simp add: al_StartOfDay_def mult.assoc)
  then have t': "t = (if future (z * ?day + dur) then z * ?day + dur else z * ?day + dur + ?day)"
    using t by (auto simp: al_trigger_def bindR_Inr_iff timed_Inr split: if_splits)
  have m: "(z * ?day + dur) mod ?day = dur" using dur by (simp add: mod_pos_pos_trivial)
  then have "(z * ?day + dur + ?day) mod ?day = dur" by simp
  with m t' have "t mod ?day = dur" by simp
  moreover have "now - ?day < z * ?day + dur" "z * ?day + dur < now + ?day" using z dur by linarith+
  ultimately show ?thesis using t' by blast
qed

text \<open>
  An alarm that is started, or triggered, triggers next at its time of the day, later than now and within 24 hours; after a jump of the
  clock it does so at the time it jumped to or later.
\<close>

theorem alarm_is_at_its_time:
  assumes "0 < tps" and "0 \<le> now" "now < 11248738 * 86400 * tps" and "0 \<le> dur" "dur < 86400 * tps"
  shows "(al_trigger tps dur (\<lambda>today. today > now) now = Inr t \<longrightarrow> t mod (86400 * tps) = dur \<and> now < t \<and> t \<le> now + 86400 * tps)
    \<and> (al_trigger tps dur (\<lambda>today. today \<ge> now) now = Inr t \<longrightarrow> t mod (86400 * tps) = dur \<and> now \<le> t \<and> t < now + 86400 * tps)"
  using al_trigger_times [OF assms, of "\<lambda>today. today > now" t] al_trigger_times [OF assms, of "\<lambda>today. today \<ge> now" t]
  by (auto split: if_splits)

subsection \<open>RetryPolicyExponentialBackoff\<close>

record retry_policy =
  rp_maximumDelay :: int
  rp_retryAfterMaximumDelay :: int
  rp_retryDelay :: "int option"

definition rp_make :: "int \<Rightarrow> retry_policy" where
  "rp_make maximumDelay = \<lparr>rp_maximumDelay = maximumDelay, rp_retryAfterMaximumDelay = 0, rp_retryDelay = None\<rparr>"

definition rp_InitialDelay :: "int \<Rightarrow> bool \<Rightarrow> int" where
  "rp_InitialDelay tps intermittentFailure = (if intermittentFailure then 60 * tps else 60 * 60 * tps)"

definition rp_RetryDelay :: "int \<Rightarrow> int \<Rightarrow> bool \<Rightarrow> retry_policy \<Rightarrow> (retry_policy \<times> int) result" where
  "rp_RetryDelay tps now intermittentFailure rp =
     bindR (case rp_retryDelay rp of
       Some retryDelay \<Rightarrow>
         (if now \<ge> rp_retryAfterMaximumDelay rp
          then bindR (timed (rp_retryAfterMaximumDelay rp + rp_maximumDelay rp))
            (\<lambda>t. Inr (rp\<lparr>rp_retryAfterMaximumDelay := t, rp_retryDelay := Some (rp_InitialDelay tps False)\<rparr>))
          else bindR (timed (retryDelay * 2)) (\<lambda>doubled. bindR (timed (now + doubled)) (\<lambda>t.
            if t \<ge> rp_retryAfterMaximumDelay rp
            then bindR (timed (rp_retryAfterMaximumDelay rp - now)) (\<lambda>d. Inr (rp\<lparr>rp_retryDelay := Some d\<rparr>))
            else if \<not> intermittentFailure \<and> rp_InitialDelay tps False > doubled
            then Inr (rp\<lparr>rp_retryDelay := Some (rp_InitialDelay tps False)\<rparr>)
            else Inr (rp\<lparr>rp_retryDelay := Some doubled\<rparr>))))
     | None \<Rightarrow> bindR (timed (now + rp_maximumDelay rp))
         (\<lambda>t. Inr (rp\<lparr>rp_retryAfterMaximumDelay := t, rp_retryDelay := Some (rp_InitialDelay tps intermittentFailure)\<rparr>)))
     (\<lambda>rp. case rp_retryDelay rp of Some d \<Rightarrow> Inr (rp, d) | None \<Rightarrow> Inl UndefinedBehaviour)"

definition rp_Reset :: "retry_policy \<Rightarrow> retry_policy" where
  "rp_Reset rp = rp\<lparr>rp_retryDelay := None\<rparr>"

text \<open>\<^verbatim>\<open>RetryPolicyFixedInterval\<close> always gives its delay, and \<^verbatim>\<open>Reset\<close> does nothing.\<close>

definition rpf_RetryDelay :: "int \<Rightarrow> bool \<Rightarrow> int" where
  "rpf_RetryDelay retryDelay intermittentFailure = retryDelay"

text \<open>\<^verbatim>\<open>Retry\<close> starts a single shot timer with the delay.\<close>

definition retry_Start :: "int \<Rightarrow> nat \<Rightarrow> bool \<Rightarrow> 'a \<Rightarrow> retry_policy \<times> 'a timer_service \<Rightarrow> (retry_policy \<times> 'a timer_service) result" where
  "retry_Start tps i intermittentFailure action = (\<lambda>(rp, s).
     bindR (rp_RetryDelay tps (ts_Now s) intermittentFailure rp) (\<lambda>(rp, d).
     bindR (tss_Start i d action s) (\<lambda>s. Inr (rp, s))))"

definition retry_Stop :: "nat \<Rightarrow> retry_policy \<times> 'a timer_service \<Rightarrow> retry_policy \<times> 'a timer_service" where
  "retry_Stop i = (\<lambda>(rp, s). (rp_Reset rp, tm_Cancel i s))"

text \<open>
  A policy that was asked last at \<open>now\<close>: the delay is positive and not longer than the larger of an hour and the largest delay, and
  the point in time from which the delays start over is at most the largest delay away.
\<close>

fun rp_inv :: "int \<Rightarrow> int \<Rightarrow> retry_policy \<Rightarrow> bool" where
  "rp_inv tps now rp \<longleftrightarrow> (case rp_retryDelay rp of None \<Rightarrow> True
     | Some d \<Rightarrow> 0 < d \<and> d \<le> max (rp_maximumDelay rp) (3600 * tps)
       \<and> rp_retryAfterMaximumDelay rp \<le> now + rp_maximumDelay rp)"

theorem retry_delay_is_bounded:
  assumes "rp_inv tps before rp" "before \<le> now" "0 < tps" "0 \<le> rp_maximumDelay rp"
    and "rp_RetryDelay tps now intermittentFailure rp = Inr (rp', d)"
  shows "rp_inv tps now rp' \<and> rp_retryDelay rp' = Some d \<and> 0 < d \<and> d \<le> max (rp_maximumDelay rp) (3600 * tps)
    \<and> rp_maximumDelay rp' = rp_maximumDelay rp"
  using assms
  by (auto simp: rp_RetryDelay_def rp_InitialDelay_def bindR_Inr_iff timed_Inr split: option.splits if_splits)

lemma rp_made: "rp_inv tps now (rp_make maximumDelay)" "rp_inv tps now (rp_Reset rp)"
  by (simp_all add: rp_make_def rp_Reset_def)

text \<open>The timer of a retry is set to trigger later, when the clock is far from its end.\<close>

lemma retry_sets_timer:
  assumes "rp_inv tps before rp" "before \<le> ts_Now s" "0 < tps" "0 \<le> rp_maximumDelay rp" "0 \<le> ts_Resolution s"
    and "retry_Start tps i intermittentFailure action (rp, s) = Inr (rp', s')"
    and "ts_Now s + ts_Resolution s + max (rp_maximumDelay rp) (3600 * tps) < time_max"
  shows "rp_inv tps (ts_Now s) rp' \<and> tm_Armed i s' \<and> ts_Now s < tm_NextTrigger i s'
    \<and> tm_NextTrigger i s' \<le> ts_Now s + max (rp_maximumDelay rp) (3600 * tps) + ts_Resolution s"
proof -
  obtain d where d: "rp_RetryDelay tps (ts_Now s) intermittentFailure rp = Inr (rp', d)" "tss_Start i d action s = Inr s'"
    using assms(6) by (auto simp: retry_Start_def bindR_Inr_iff)
  note b = retry_delay_is_bounded [OF assms(1-4) d(1)]
  have "ts_Now s + ts_Resolution s < time_max - d" using b assms(7) by linarith
  then have "s' = tm_SetNextTriggerTime i (ts_Now s + d + ts_Resolution s) action s"
    using d(2) by (auto simp: tss_Start_def bindR_Inr_iff timed_Inr split: if_splits)
  then show ?thesis using b assms(5) by (auto simp: tm_Armed_def tm_NextTrigger_def tm_Set_fields)
qed

end
