(* ===== verification/Json_Tokens.thy ===== *)
theory Json_Tokens
  imports Bounded_String
begin

section \<open>JSON texts: the tokens and strings of infra/syntax/Json.cpp\<close>

text \<open>
  \<^verbatim>\<open>infra::JsonTokenizer\<close> cuts a text into tokens, \<^verbatim>\<open>infra::JsonString\<close> reads the characters a string of the text stands for. A text is a
  list of bytes, which are written by their ASCII codes: 34 is the quote, 92 the backslash, 58 the colon, 44 the comma, 46 the dot,
  45 the minus, 123 and 125 are the braces, 91 and 93 the brackets, 48 to 57 the digits. A token of a string carries its
  characters instead of a view of them. The classes of characters are those of the C locale.

  The texts that the theorems are about are given by their parts (\<open>json_atom\<close>) with any white space in front of each; the
  tokenizer finds the parts again.
\<close>

subsection \<open>Characters\<close>

definition isdigit :: "byte \<Rightarrow> bool" where
  "isdigit c \<longleftrightarrow> 48 \<le> c \<and> c \<le> 57"

definition isalpha :: "byte \<Rightarrow> bool" where
  "isalpha c \<longleftrightarrow> (65 \<le> c \<and> c \<le> 90) \<or> (97 \<le> c \<and> c \<le> 122)"

definition isspace :: "byte \<Rightarrow> bool" where
  "isspace c \<longleftrightarrow> c = 32 \<or> (9 \<le> c \<and> c \<le> 13)"

subsection \<open>Tokens\<close>

text \<open>The classes of \<^verbatim>\<open>JsonToken\<close>, and \<^verbatim>\<open>JsonBiggerInt\<close> and \<^verbatim>\<open>JsonFloat\<close>, which are tokens as well.\<close>

datatype json_token =
    EndToken | ErrorToken | Colon | Comma | Dot | Null
  | LeftBrace nat | RightBrace nat | LeftBracket nat | RightBracket nat
  | StringToken "byte list" | JsonBiggerInt "64 word" bool | JsonFloat "64 word" "32 word" bool | Boolean bool

definition ToInt64 :: "byte list \<Rightarrow> bool \<Rightarrow> 64 word" where
  "ToInt64 string sign = foldl (\<lambda>v c. v * 10 + ucast c - 48) 0 (drop (if sign then 1 else 0) string)"

definition ToInt32 :: "byte list \<Rightarrow> bool \<Rightarrow> 32 word" where
  "ToInt32 string sign = foldl (\<lambda>v c. v * 10 + ucast c - 48) 0 (drop (if sign then 1 else 0) string)"

definition nanoValueWidth :: nat where
  "nanoValueWidth = 9"

text \<open>The loops that move \<^verbatim>\<open>parseIndex\<close> on while the characters are of a class.\<close>

function skip_while :: "(byte \<Rightarrow> bool) \<Rightarrow> byte list \<Rightarrow> nat \<Rightarrow> nat" where
  "skip_while P os i = (if i < length os \<and> P (os ! i) then skip_while P os (Suc i) else i)"
  by pat_completeness auto
termination by (relation "measure (\<lambda>(P, os, i). length os - i)") auto

declare skip_while.simps [simp del]

definition SkipWhitespace :: "byte list \<Rightarrow> nat \<Rightarrow> nat" where
  "SkipWhitespace os i = skip_while isspace os i"

text \<open>The loop to the closing quote; \<open>Inl\<close> is the end of the text.\<close>

function string_loop :: "byte list \<Rightarrow> bool \<Rightarrow> nat \<Rightarrow> nat + nat" where
  "string_loop os escape i =
     (if escape \<or> os ! i \<noteq> 34
      then (let escape = (\<not> escape \<and> os ! i = 92); i = i + 1
            in if i \<ge> length os then Inl i else string_loop os escape i)
      else Inr i)"
  by pat_completeness auto
termination by (relation "measure (\<lambda>(os, escape, i). length os - i)") auto

declare string_loop.simps [simp del]

definition TryCreateStringToken :: "byte list \<Rightarrow> nat \<Rightarrow> json_token \<times> nat" where
  "TryCreateStringToken os i =
     (let tokenStart = i + 1
      in if tokenStart = length os then (ErrorToken, tokenStart)
         else case string_loop os False tokenStart of
             Inl i \<Rightarrow> (ErrorToken, i)
           | Inr i \<Rightarrow> (StringToken (take (i - tokenStart) (drop tokenStart os)), i + 1))"

definition pad_fraction :: "byte list \<Rightarrow> 32 word" where
  "pad_fraction fractional = ((\<lambda>v. v * 10) ^^ (nanoValueWidth - length fractional)) (ToInt32 fractional False)"

definition TryCreateFloatToken :: "byte list \<Rightarrow> 64 word \<Rightarrow> bool \<Rightarrow> nat \<Rightarrow> json_token \<times> nat" where
  "TryCreateFloatToken os integer sign i =
     (if i < length os \<and> os ! i = 45 then (ErrorToken, i)
      else let j = skip_while isdigit os i
           in (JsonFloat integer (pad_fraction (take nanoValueWidth (take (j - i) (drop i os)))) sign, j))"

definition TryCreateIntegerOrFloatToken :: "byte list \<Rightarrow> nat \<Rightarrow> json_token \<times> nat" where
  "TryCreateIntegerOrFloatToken os i =
     (let sign = (i < length os \<and> os ! i = 45);
          j = skip_while isdigit os (if sign then i + 1 else i);
          v = ToInt64 (take (j - i) (drop i os)) sign
      in if j \<ge> length os \<or> os ! j \<noteq> 46 then (JsonBiggerInt v sign, j)
         else TryCreateFloatToken os v sign (j + 1))"

definition TryCreateIdentifierToken :: "byte list \<Rightarrow> nat \<Rightarrow> json_token \<times> nat" where
  "TryCreateIdentifierToken os i =
     (let j = skip_while isalpha os i; identifier = take (j - i) (drop i os)
      in ((if identifier = [116, 114, 117, 101] then Boolean True
           else if identifier = [102, 97, 108, 115, 101] then Boolean False
           else if identifier = [110, 117, 108, 108] then Null
           else ErrorToken), j))"

definition Token :: "byte list \<Rightarrow> nat \<Rightarrow> json_token \<times> nat" where
  "Token os parseIndex =
     (let i = SkipWhitespace os parseIndex
      in if i \<ge> length os then (EndToken, i)
         else if os ! i = 34 then TryCreateStringToken os i
         else if os ! i = 58 then (Colon, i + 1)
         else if os ! i = 44 then (Comma, i + 1)
         else if os ! i = 46 then (Dot, i + 1)
         else if os ! i = 123 then (LeftBrace i, i + 1)
         else if os ! i = 125 then (RightBrace i, i + 1)
         else if os ! i = 91 then (LeftBracket i, i + 1)
         else if os ! i = 93 then (RightBracket i, i + 1)
         else if isdigit (os ! i) \<or> os ! i = 45 then TryCreateIntegerOrFloatToken os i
         else if isalpha (os ! i) then TryCreateIdentifierToken os i
         else (ErrorToken, i))"

subsection \<open>The tokenizer moves on\<close>

lemma skip_while_ge: "i \<le> skip_while P os i"
  by (induction P os i rule: skip_while.induct) (subst skip_while.simps, auto)

lemma skip_while_le: "i \<le> length os \<Longrightarrow> skip_while P os i \<le> length os"
  by (induction P os i rule: skip_while.induct) (subst skip_while.simps, auto)

lemma skip_while_step: "i < length os \<Longrightarrow> P (os ! i) \<Longrightarrow> i < skip_while P os i"
  using skip_while_ge [of "Suc i" P os] by (subst skip_while.simps) simp

lemma string_loop_bounds:
  "i < length os \<Longrightarrow> case string_loop os escape i of Inl j \<Rightarrow> j = length os | Inr j \<Rightarrow> i \<le> j \<and> j < length os"
proof (induction os escape i rule: string_loop.induct)
  case (1 os escape i)
  show ?case
  proof (cases "escape \<or> os ! i \<noteq> 34")
    case True
    show ?thesis
    proof (cases "length os \<le> Suc i")
      case True
      with \<open>escape \<or> os ! i \<noteq> 34\<close> "1.prems" show ?thesis by (subst string_loop.simps) (simp add: Let_def)
    next
      case False
      have ih: "case string_loop os (\<not> escape \<and> os ! i = 92) (i + 1) of
          Inl j \<Rightarrow> j = length os | Inr j \<Rightarrow> i + 1 \<le> j \<and> j < length os"
        by (rule "1.IH" [OF True refl refl]) (use False in simp_all)
      have "string_loop os escape i = string_loop os (\<not> escape \<and> os ! i = 92) (i + 1)"
        using True False by (subst string_loop.simps) (simp add: Let_def)
      with ih show ?thesis by (auto split: sum.splits)
    qed
  next
    case False
    with "1.prems" show ?thesis by (subst string_loop.simps) simp
  qed
qed

definition advances :: "json_token \<times> nat \<Rightarrow> nat \<Rightarrow> nat \<Rightarrow> bool" where
  "advances r i n \<longleftrightarrow> i \<le> snd r \<and> snd r \<le> n \<and> (fst r \<noteq> EndToken \<and> fst r \<noteq> ErrorToken \<longrightarrow> i < snd r)"

lemma string_advances: "i < length os \<Longrightarrow> advances (TryCreateStringToken os i) i (length os)"
  using string_loop_bounds [of "Suc i" os False]
  by (auto simp: TryCreateStringToken_def advances_def Let_def split: sum.splits)

lemma number_advances:
  assumes "i < length os" "isdigit (os ! i) \<or> os ! i = 45"
  shows "advances (TryCreateIntegerOrFloatToken os i) i (length os)"
proof -
  let ?sign = "os ! i = 45"
  let ?j = "skip_while isdigit os (if ?sign then i + 1 else i)"
  have j: "i < ?j" "?j \<le> length os"
    using assms skip_while_ge [of "i + 1" isdigit os] skip_while_step [of i os isdigit]
      skip_while_le [of "i + 1" os isdigit] skip_while_le [of i os isdigit]
    by (auto split: if_splits)
  have "advances (TryCreateFloatToken os v s (?j + 1)) i (length os)" if "?j < length os" for v s
    using that j skip_while_ge [of "?j + 1" isdigit os] skip_while_le [of "?j + 1" os isdigit]
    unfolding TryCreateFloatToken_def advances_def Let_def by (auto simp del: One_nat_def)
  with j assms(1) show ?thesis
    unfolding TryCreateIntegerOrFloatToken_def Let_def by (auto simp: advances_def)
qed

lemma identifier_advances:
  assumes "i < length os" "isalpha (os ! i)"
  shows "advances (TryCreateIdentifierToken os i) i (length os)"
  using skip_while_step [of i os isalpha] skip_while_le [of i os isalpha] assms
  by (simp add: TryCreateIdentifierToken_def advances_def Let_def)

lemma Token_advances:
  assumes "i \<le> length os"
  shows "advances (Token os i) i (length os)"
proof -
  let ?i = "SkipWhitespace os i"
  have i: "i \<le> ?i" "?i \<le> length os" using assms skip_while_ge skip_while_le by (simp_all add: SkipWhitespace_def)
  have up: "advances r i (length os)" if "advances r ?i (length os)" for r
    using that i by (auto simp: advances_def)
  show ?thesis
  proof (cases "?i < length os")
    case True
    then show ?thesis
      using string_advances number_advances identifier_advances True
      unfolding Token_def Let_def
      by (intro up) (auto simp: advances_def intro: string_advances number_advances identifier_advances)
  next
    case False
    with i show ?thesis by (simp add: Token_def advances_def Let_def)
  qed
qed

lemma Token_moves:
  "Token os i = (t, j) \<Longrightarrow> i \<le> length os \<Longrightarrow> j \<le> length os \<and> i \<le> j \<and> (t \<noteq> EndToken \<and> t \<noteq> ErrorToken \<longrightarrow> i < j)"
  using Token_advances [of i os] by (auto simp: advances_def)


subsection \<open>JsonString: the characters of a string\<close>

text \<open>
  An iterator is what is left of the text between the quotes. Reading at the end of it has no meaning; a lone backslash at the end
  is what \<^verbatim>\<open>operator*\<close> asserts against. A \<^verbatim>\<open>\u\<close> escape is collected in a \<^verbatim>\<open>char\<close>, so only its last two digits count.
\<close>

definition js_isHex :: "byte \<Rightarrow> bool" where
  "js_isHex c \<longleftrightarrow> (48 \<le> c \<and> c \<le> 57) \<or> (97 \<le> c \<and> c \<le> 102) \<or> (65 \<le> c \<and> c \<le> 70)"

definition js_hexValue :: "byte \<Rightarrow> byte" where
  "js_hexValue c = (if 48 \<le> c \<and> c \<le> 57 then c - 48 else if 97 \<le> c \<and> c \<le> 102 then c - 97 + 10 else c - 65 + 10)"

fun js_hexLoop :: "nat \<Rightarrow> byte \<Rightarrow> byte list \<Rightarrow> byte" where
  "js_hexLoop (Suc n) result (c # cs) = (if js_isHex c then js_hexLoop n (result * 16 + js_hexValue c) cs else result)"
| "js_hexLoop _ result _ = result"

fun js_skipHex :: "nat \<Rightarrow> byte list \<Rightarrow> byte list" where
  "js_skipHex (Suc n) (c # cs) = (if js_isHex c then js_skipHex n cs else c # cs)"
| "js_skipHex _ cs = cs"

fun js_deref :: "byte list \<Rightarrow> byte result" where
  "js_deref [] = Inl UndefinedBehaviour"
| "js_deref (c # cs) =
     (if c \<noteq> 92 then Inr c
      else case cs of
          [] \<Rightarrow> Inl AssertFailed
        | e # next \<Rightarrow> Inr (
            if e = 34 then 34 else if e = 92 then 92 else if e = 98 then 8 else if e = 102 then 12 else if e = 110 then 10
            else if e = 114 then 13 else if e = 116 then 9 else if e = 117 then js_hexLoop 4 0 next else e))"

fun js_next :: "byte list \<Rightarrow> byte list result" where
  "js_next [] = Inl UndefinedBehaviour"
| "js_next (c # cs) =
     Inr (if c \<noteq> 92 then cs
          else case cs of
              [] \<Rightarrow> []
            | e # position \<Rightarrow> if e = 117 then js_skipHex 4 position else position)"

lemma js_skipHex_length: "length (js_skipHex n cs) \<le> length cs"
  by (induction n cs rule: js_skipHex.induct) auto

lemma js_next_shrinks: "js_next cs = Inr r \<Longrightarrow> length r < length cs"
  using js_skipHex_length [of 4] by (cases cs) (auto simp: less_Suc_eq_le split: if_splits list.splits intro: le_SucI)

text \<open>The loop \<^verbatim>\<open>for (auto c : string)\<close>, collecting the characters.\<close>

function js_chars :: "byte list \<Rightarrow> byte list result" where
  "js_chars source =
     (if source = [] then Inr []
      else bindR (js_deref source) (\<lambda>c. bindR (js_next source) (\<lambda>rest. bindR (js_chars rest) (\<lambda>cs. Inr (c # cs)))))"
  by pat_completeness auto
termination by (relation "measure length") (auto dest: js_next_shrinks)

text \<open>\<^verbatim>\<open>operator==\<close> with a text, and \<^verbatim>\<open>size\<close>, \<^verbatim>\<open>empty\<close>.\<close>

function js_equals :: "byte list \<Rightarrow> byte list \<Rightarrow> bool result" where
  "js_equals x y =
     (if x \<noteq> [] \<and> y \<noteq> []
      then bindR (js_deref x) (\<lambda>c. if c \<noteq> hd y then Inr False
        else bindR (js_next x) (\<lambda>x'. js_equals x' (tl y)))
      else Inr (x = [] \<and> y = []))"
  by pat_completeness auto
termination by (relation "measure (\<lambda>(x, y). length x)") (auto dest: js_next_shrinks)

function js_size :: "byte list \<Rightarrow> nat result" where
  "js_size source = (if source = [] then Inr 0 else bindR (js_next source) (\<lambda>rest. bindR (js_size rest) (\<lambda>n. Inr (n + 1))))"
  by pat_completeness auto
termination by (relation "measure length") (auto dest: js_next_shrinks)

declare js_chars.simps [simp del] js_equals.simps [simp del] js_size.simps [simp del]

definition js_empty :: "byte list \<Rightarrow> bool result" where
  "js_empty source = bindR (js_size source) (\<lambda>n. Inr (n = 0))"

text \<open>What the tokenizer makes a string of: no quote, unless a backslash is in front of it, and no lone backslash at the end.\<close>

fun js_body :: "byte list \<Rightarrow> bool" where
  "js_body [] \<longleftrightarrow> True"
| "js_body (c # cs) \<longleftrightarrow>
     (if c = 34 then False else if c = 92 then (case cs of [] \<Rightarrow> False | _ # cs' \<Rightarrow> js_body cs') else js_body cs)"

lemma js_chars_Nil [simp]: "js_chars [] = Inr []"
  by (simp add: js_chars.simps)

lemma js_body_step:
  assumes "js_body s" and "s \<noteq> []"
  obtains c rest where "js_deref s = Inr c" "js_next s = Inr rest" "js_body rest" "length rest < length s"
proof -
  have hex: "js_body (js_skipHex n cs)" if "js_body cs" for n cs
    using that by (induction n cs rule: js_skipHex.induct) (auto simp: js_isHex_def)
  obtain c cs where s: "s = c # cs" using assms(2) by (cases s) auto
  have "\<exists>d r. js_deref s = Inr d \<and> js_next s = Inr r \<and> js_body r"
  proof (cases "c = 92")
    case True
    with assms(1) s obtain e cs' where "cs = e # cs'" "js_body cs'" by (cases cs) auto
    with s True hex [of cs' 4] show ?thesis by auto
  next
    case False
    with assms(1) s show ?thesis by (auto split: if_splits)
  qed
  then show thesis using that js_next_shrinks by blast
qed

text \<open>Such a string can be read to its end: the assertion of \<^verbatim>\<open>operator*\<close> is never reached.\<close>

lemma js_body_chars: "js_body s \<Longrightarrow> \<exists>cs. js_chars s = Inr cs"
proof (induction "length s" arbitrary: s rule: less_induct)
  case less
  show ?case
  proof (cases "s = []")
    case False
    with less.prems obtain c rest where st: "js_deref s = Inr c" "js_next s = Inr rest" "js_body rest" "length rest < length s"
      using js_body_step by blast
    then obtain cs where "js_chars rest = Inr cs" using less.hyps by blast
    with st False show ?thesis by (subst js_chars.simps) simp
  qed simp
qed

lemma js_equals_chars: "js_chars s = Inr cs \<Longrightarrow> js_equals s y = Inr (cs = y)"
proof (induction s y arbitrary: cs rule: js_equals.induct)
  case (1 x y)
  show ?case
  proof (cases "x = []")
    case True
    with "1.prems" show ?thesis by (subst js_equals.simps) auto
  next
    case False
    with "1.prems" obtain c rest ds where st: "js_deref x = Inr c" "js_next x = Inr rest" "js_chars rest = Inr ds" "cs = c # ds"
      by (subst (asm) js_chars.simps) (auto simp: result_simps split: if_splits)
    show ?thesis
    proof (cases y)
      case Nil
      with False st(4) show ?thesis by (subst js_equals.simps) simp
    next
      case (Cons d y')
      show ?thesis
      proof (cases "c = d")
        case True
        then have "js_equals rest y' = Inr (ds = y')" using "1.IH" [of c rest ds] False Cons st by simp
        with False Cons st True show ?thesis by (subst js_equals.simps) simp
      next
        case f: False
        with False Cons st show ?thesis by (subst js_equals.simps) simp
      qed
    qed
  qed
qed

lemma js_size_chars: "js_chars s = Inr cs \<Longrightarrow> js_size s = Inr (length cs)"
proof (induction s arbitrary: cs rule: js_size.induct)
  case (1 s)
  show ?case
  proof (cases "s = []")
    case False
    with "1.prems" obtain c rest ds where st: "js_next s = Inr rest" "js_chars rest = Inr ds" "cs = c # ds"
      by (subst (asm) js_chars.simps) (auto simp: result_simps split: if_splits)
    with "1.IH" [OF False st(1,2)] False show ?thesis by (subst js_size.simps) simp
  qed (use 1 in \<open>auto simp: js_size.simps\<close>)
qed


text \<open>\<^verbatim>\<open>AppendTo\<close> and \<^verbatim>\<open>ToString\<close>: the string they fill is asked whether it is full after a character was put in, not before.\<close>

function js_AppendTo :: "byte list \<Rightarrow> byte bstring \<Rightarrow> byte bstring result" where
  "js_AppendTo source result =
     (if source = [] then Inr result
      else bindR (js_deref source) (\<lambda>c. bindR (bstr_push_back result c) (\<lambda>result.
        if bstr_full result then Inr result else bindR (js_next source) (\<lambda>rest. js_AppendTo rest result))))"
  by pat_completeness auto
termination by (relation "measure (\<lambda>(source, result). length source)") (auto dest: js_next_shrinks)

declare js_AppendTo.simps [simp del]

definition js_ToString :: "byte list \<Rightarrow> byte bstring \<Rightarrow> byte bstring result" where
  "js_ToString source result = js_AppendTo source (bstr_clear result)"

lemma push_back_is:
  assumes "bstr_wf s" and "bstr_length s < bstr_max_size s"
  obtains s' where "bstr_push_back s c = Inr s'" "bstr_is s (bstr_text s @ [c]) s'"
  using agrees_push_back [OF assms(1), of c] assms(2) that by (cases "bstr_push_back s c") auto

lemma js_chars_step:
  assumes "js_chars s = Inr cs" and "s \<noteq> []"
  obtains c rest ds where "js_deref s = Inr c" "js_next s = Inr rest" "js_chars rest = Inr ds" "cs = c # ds"
  using assms that by (subst (asm) js_chars.simps) (auto simp: result_simps split: if_splits)

lemma js_AppendTo_chars:
  assumes "js_chars source = Inr cs" and "bstr_wf s" and "source = [] \<or> bstr_length s < bstr_max_size s"
  shows "\<exists>s'. js_AppendTo source s = Inr s' \<and> bstr_is s (bstr_text s @ take (bstr_max_size s - bstr_length s) cs) s'"
  using assms
proof (induction "length source" arbitrary: source cs s rule: less_induct)
  case less
  show ?case
  proof (cases "source = []")
    case True
    with less.prems show ?thesis by (simp add: js_AppendTo.simps bstr_is_def)
  next
    case False
    with less.prems(1) obtain c rest ds where st: "js_deref source = Inr c" "js_next source = Inr rest" "js_chars rest = Inr ds"
        "cs = c # ds" by (rule js_chars_step)
    have room: "bstr_length s < bstr_max_size s" using False less.prems(3) by blast
    with less.prems(2) obtain s1 where s1: "bstr_push_back s c = Inr s1" "bstr_is s (bstr_text s @ [c]) s1"
      by (rule push_back_is)
    have wf: "bstr_wf s1" "bstr_max_size s1 = bstr_max_size s" "bstr_text s1 = bstr_text s @ [c]"
      using s1(2) by (simp_all add: bstr_is_def)
    then have len: "bstr_length s1 = bstr_length s + 1" using less.prems(2) length_bstr_text [of s1] by simp
    have step: "js_AppendTo source s = (if bstr_full s1 then Inr s1 else js_AppendTo rest s1)"
      using False st s1(1) by (subst js_AppendTo.simps) simp
    show ?thesis
    proof (cases "bstr_full s1")
      case True
      then have "bstr_max_size s - bstr_length s = 1" using len wf(2) by (simp add: bstr_full_def)
      with step True s1(2) st(4) show ?thesis by simp
    next
      case nf: False
      then have room1: "bstr_length s1 < bstr_max_size s1" using wf(1) by (simp add: bstr_full_def bstr_wf_def)
      obtain s' where "js_AppendTo rest s1 = Inr s'" "bstr_is s1 (bstr_text s1 @ take (bstr_max_size s1 - bstr_length s1) ds) s'"
        using less.hyps [of rest ds s1] js_next_shrinks [OF st(2)] st(3) wf(1) room1 by blast
      moreover have "take (bstr_max_size s - bstr_length s) cs = c # take (bstr_max_size s1 - bstr_length s1) ds"
        using room len wf(2) st(4) Suc_diff_Suc [OF room, symmetric] by simp
      ultimately show ?thesis using step nf wf(2,3) by (simp add: bstr_is_def)
    qed
  qed
qed

lemma js_ToString_takes:
  assumes "js_chars source = Inr cs" and "bstr_wf s" and "0 < bstr_max_size s"
  shows "\<exists>s'. js_ToString source s = Inr s' \<and> bstr_is s (take (bstr_max_size s) cs) s'"
proof -
  have "bstr_wf (bstr_clear s)" "bstr_max_size (bstr_clear s) = bstr_max_size s" "bstr_length (bstr_clear s) = 0"
      "bstr_text (bstr_clear s) = []"
    using assms(2) by (simp_all add: bstr_clear_def bstr_wf_def bstr_max_size_def bstr_text_def)
  with js_AppendTo_chars [OF assms(1), of "bstr_clear s"] assms(3) show ?thesis
    by (simp add: js_ToString_def bstr_is_def)
qed

lemma js_AppendTo_full:
  "bstr_full s \<Longrightarrow> js_body source \<Longrightarrow> source \<noteq> [] \<Longrightarrow> js_AppendTo source s = Inl AssertFailed"
  by (erule js_body_step, assumption) (subst js_AppendTo.simps, simp add: bstr_full_def bstr_push_back_def)

text \<open>Every string the tokenizer makes a token of can be read.\<close>

lemma string_loop_body: "string_loop os escape i = Inr j \<Longrightarrow> i < length os \<Longrightarrow>
    js_body ((if escape then [92] else []) @ take (j - i) (drop i os))"
proof (induction os escape i rule: string_loop.induct)
  case (1 os escape i)
  show ?case
  proof (cases "escape \<or> os ! i \<noteq> 34")
    case False
    with "1.prems" show ?thesis by (subst (asm) string_loop.simps) simp
  next
    case True
    let ?escape = "\<not> escape \<and> os ! i = 92"
    have unfolded: "(if i + 1 \<ge> length os then Inl (i + 1) else string_loop os ?escape (i + 1)) = Inr j"
      using "1.prems"(1) True by (subst (asm) string_loop.simps) (simp add: Let_def split: if_splits)
    then have i1: "i + 1 < length os" and loop: "string_loop os ?escape (i + 1) = Inr j"
      by (auto split: if_splits simp del: One_nat_def)
    have ih: "js_body ((if ?escape then [92] else []) @ take (j - (i + 1)) (drop (i + 1) os))"
      by (rule "1.IH" [OF True refl refl _ loop i1]) (use i1 in simp)
    have "i < j" using string_loop_bounds [OF i1, of ?escape] loop by simp
    then obtain k where "j - i = Suc k" "j - (i + 1) = k" by (cases "j - i") auto
    moreover have "drop i os = os ! i # drop (i + 1) os" using "1.prems"(2) by (simp add: Cons_nth_drop_Suc)
    ultimately show ?thesis using ih True by (auto split: if_splits)
  qed
qed

lemma Token_string_readable:
  assumes "Token os i = (StringToken s, j)"
  shows "js_body s"
proof -
  let ?i = "SkipWhitespace os i"
  have "TryCreateStringToken os ?i = (StringToken s, j)" "?i < length os"
    using assms by (auto simp: Token_def Let_def TryCreateIntegerOrFloatToken_def TryCreateFloatToken_def
      TryCreateIdentifierToken_def split: if_splits)
  then have "string_loop os False (?i + 1) = Inr (j - 1)" "s = take (j - 1 - (?i + 1)) (drop (?i + 1) os)" "?i + 1 < length os"
    by (auto simp: TryCreateStringToken_def Let_def split: if_splits sum.splits)
  with string_loop_body [of os False "?i + 1" "j - 1"] show ?thesis by simp
qed

subsection \<open>The tokenizer finds the parts a text was put together from\<close>

datatype lexeme =
    LColon | LComma | LDot | LOpenBrace | LCloseBrace | LOpenBracket | LCloseBracket
  | LString "byte list" | LInt bool "byte list" | LFloat bool "byte list" "byte list" | LTrue | LFalse | LNull

fun lex_bytes :: "lexeme \<Rightarrow> byte list" where
  "lex_bytes LColon = [58]"
| "lex_bytes LComma = [44]"
| "lex_bytes LDot = [46]"
| "lex_bytes LOpenBrace = [123]"
| "lex_bytes LCloseBrace = [125]"
| "lex_bytes LOpenBracket = [91]"
| "lex_bytes LCloseBracket = [93]"
| "lex_bytes (LString s) = 34 # s @ [34]"
| "lex_bytes (LInt negative ds) = (if negative then [45] else []) @ ds"
| "lex_bytes (LFloat negative ds fs) = (if negative then [45] else []) @ ds @ 46 # fs"
| "lex_bytes LTrue = [116, 114, 117, 101]"
| "lex_bytes LFalse = [102, 97, 108, 115, 101]"
| "lex_bytes LNull = [110, 117, 108, 108]"

fun lex_valid :: "lexeme \<Rightarrow> bool" where
  "lex_valid (LString s) \<longleftrightarrow> js_body s"
| "lex_valid (LInt negative ds) \<longleftrightarrow> list_all isdigit ds \<and> (negative \<or> ds \<noteq> [])"
| "lex_valid (LFloat negative ds fs) \<longleftrightarrow> list_all isdigit ds \<and> (negative \<or> ds \<noteq> []) \<and> list_all isdigit fs"
| "lex_valid _ \<longleftrightarrow> True"

text \<open>What may come after a part, so that it does not read on into the next one.\<close>

fun lex_ends :: "lexeme \<Rightarrow> byte list \<Rightarrow> bool" where
  "lex_ends (LInt _ _) post \<longleftrightarrow> post = [] \<or> (\<not> isdigit (hd post) \<and> hd post \<noteq> 46)"
| "lex_ends (LFloat _ _ _) post \<longleftrightarrow> post = [] \<or> (\<not> isdigit (hd post) \<and> hd post \<noteq> 45)"
| "lex_ends LTrue post \<longleftrightarrow> post = [] \<or> \<not> isalpha (hd post)"
| "lex_ends LFalse post \<longleftrightarrow> post = [] \<or> \<not> isalpha (hd post)"
| "lex_ends LNull post \<longleftrightarrow> post = [] \<or> \<not> isalpha (hd post)"
| "lex_ends _ post \<longleftrightarrow> True"

fun lex_token :: "lexeme \<Rightarrow> nat \<Rightarrow> json_token" where
  "lex_token LColon i = Colon"
| "lex_token LComma i = Comma"
| "lex_token LDot i = Dot"
| "lex_token LOpenBrace i = LeftBrace i"
| "lex_token LCloseBrace i = RightBrace i"
| "lex_token LOpenBracket i = LeftBracket i"
| "lex_token LCloseBracket i = RightBracket i"
| "lex_token (LString s) i = StringToken s"
| "lex_token (LInt negative ds) i = JsonBiggerInt (ToInt64 ds False) negative"
| "lex_token (LFloat negative ds fs) i = JsonFloat (ToInt64 ds False) (pad_fraction (take nanoValueWidth fs)) negative"
| "lex_token LTrue i = Boolean True"
| "lex_token LFalse i = Boolean False"
| "lex_token LNull i = Null"

lemma drop_app:
  assumes "drop i os = xs @ ys" and "i \<le> length os"
  shows "drop (i + length xs) os = ys" "i + length xs \<le> length os"
proof -
  show "drop (i + length xs) os = ys" using assms(1) by (metis add.commute append_eq_conv_conj drop_drop)
  have "length os - i = length xs + length ys" using arg_cong [OF assms(1), of length] by simp
  with assms(2) show "i + length xs \<le> length os" by linarith
qed

lemma drop_Cons_nth: "drop i os = c # cs \<Longrightarrow> i < length os \<and> os ! i = c \<and> drop (Suc i) os = cs"
proof -
  assume d: "drop i os = c # cs"
  then have "i < length os" by (cases "i < length os") simp_all
  with d Cons_nth_drop_Suc [of i os] show ?thesis by simp
qed

lemma skip_while_app:
  assumes "drop i os = xs @ ys" and "i \<le> length os" and "list_all P xs" and "ys = [] \<or> \<not> P (hd ys)"
  shows "skip_while P os i = i + length xs"
  using assms
proof (induction xs arbitrary: i)
  case Nil
  then show ?case by (cases ys) (auto simp: skip_while.simps [of P os i] dest: drop_Cons_nth)
next
  case (Cons x xs)
  then have "i < length os \<and> os ! i = x \<and> drop (Suc i) os = xs @ ys" using drop_Cons_nth [of i os x "xs @ ys"] by simp
  with Cons.IH [of "Suc i"] Cons.prems show ?case by (simp add: skip_while.simps [of P os i])
qed

lemma string_loop_app:
  "drop i os = s @ 34 # post \<Longrightarrow> js_body s \<Longrightarrow> string_loop os False i = Inr (i + length s)"
proof (induction s arbitrary: i rule: js_body.induct)
  case 1
  then show ?case by (auto simp: string_loop.simps [of os False i] dest: drop_Cons_nth)
next
  case (2 c cs)
  from "2.prems"(2) have c: "c \<noteq> 34" by auto
  from drop_Cons_nth [of i os c] "2.prems"(1) have i: "i < length os" "os ! i = c" "drop (Suc i) os = cs @ 34 # post" by auto
  have i1: "Suc i < length os" using i(3) by (cases "Suc i < length os") auto
  have step: "string_loop os False i = string_loop os (c = 92) (Suc i)"
    using c i i1 by (subst string_loop.simps) (simp add: Let_def)
  show ?case
  proof (cases "c = 92")
    case False
    then have "js_body cs" using "2.prems"(2) c by simp
    with "2.IH"(2) [OF c False] i(3) have "string_loop os False (Suc i) = Inr (Suc i + length cs)" by simp
    with step False show ?thesis by simp
  next
    case True
    with "2.prems"(2) obtain e cs' where cs: "cs = e # cs'" "js_body cs'" by (cases cs) auto
    with i(3) drop_Cons_nth [of "Suc i" os e] have d2: "drop (Suc (Suc i)) os = cs' @ 34 # post" by auto
    have i2: "Suc (Suc i) < length os" using d2 by (cases "Suc (Suc i) < length os") auto
    have "string_loop os True (Suc i) = string_loop os False (Suc (Suc i))"
      using i2 by (subst string_loop.simps) (simp add: Let_def)
    moreover have "string_loop os False (Suc (Suc i)) = Inr (Suc (Suc i) + length cs')"
      using "2.IH"(1) [OF c True cs(1) d2 cs(2)] .
    ultimately show ?thesis using step True cs by simp
  qed
qed

lemma take_drop_app: "drop i os = xs @ ys \<Longrightarrow> take (length xs) (drop i os) = xs"
  by simp

lemma string_token:
  assumes "drop i os = 34 # s @ 34 # post" and "js_body s"
  shows "TryCreateStringToken os i = (StringToken s, i + length s + 2)"
proof -
  have d: "drop (Suc i) os = s @ 34 # post" using drop_Cons_nth [OF assms(1)] by simp
  then have "Suc i \<noteq> length os" by auto
  with string_loop_app [OF d assms(2)] d show ?thesis by (simp add: TryCreateStringToken_def)
qed

lemma number_token:
  assumes d: "drop i os = (if negative then [45] else []) @ ds @ post" and "i \<le> length os"
    and ds: "list_all isdigit ds" "negative \<or> ds \<noteq> []" and post: "post = [] \<or> \<not> isdigit (hd post)"
  shows "TryCreateIntegerOrFloatToken os i =
    (let j = i + length (if negative then [45 :: byte] else []) + length ds
     in if post = [] \<or> hd post \<noteq> 46 then (JsonBiggerInt (ToInt64 ds False) negative, j)
        else TryCreateFloatToken os (ToInt64 ds False) negative (j + 1))"
proof -
  let ?pre = "if negative then [45 :: byte] else []"
  let ?j = "i + length ?pre + length ds"
  have nil: "drop i os \<noteq> []" using d ds(2) by auto
  then have i: "i < length os" by simp
  have sign: "(os ! i = 45) = negative"
  proof (cases negative)
    case False
    with ds d obtain x xs where "drop i os = x # xs" "isdigit x" by (cases ds) auto
    with False drop_Cons_nth [of i os x xs] show ?thesis by (auto simp: isdigit_def)
  qed (use d drop_Cons_nth [of i os 45 "ds @ post"] in simp)
  have d2: "drop (i + length ?pre) os = ds @ post" and "i + length ?pre \<le> length os"
    using drop_app [OF d assms(2)] by blast+
  with skip_while_app [OF this ds(1) post] have j: "skip_while isdigit os (i + length ?pre) = ?j" by simp
  have jpost: "drop ?j os = post" and "?j \<le> length os" using drop_app [OF d2 \<open>i + length ?pre \<le> length os\<close>] by blast+
  then have at: "(?j \<ge> length os \<or> os ! ?j \<noteq> 46) = (post = [] \<or> hd post \<noteq> 46)"
    by (cases "?j < length os") (auto simp: hd_drop_conv_nth)
  have "take (?j - i) (drop i os) = ?pre @ ds" using d by (cases negative) simp_all
  then have v: "ToInt64 (take (?j - i) (drop i os)) negative = ToInt64 ds False" by (cases negative) (simp_all add: ToInt64_def)
  show ?thesis
    unfolding TryCreateIntegerOrFloatToken_def Let_def sign
    using i j v at by (cases negative) (simp_all add: sign cong: if_cong)
qed

lemma fraction_token:
  assumes d: "drop i os = fs @ post" and "i \<le> length os"
    and fs: "list_all isdigit fs" and post: "post = [] \<or> (\<not> isdigit (hd post) \<and> hd post \<noteq> 45)"
  shows "TryCreateFloatToken os v negative i = (JsonFloat v (pad_fraction (take nanoValueWidth fs)) negative, i + length fs)"
proof -
  have j: "skip_while isdigit os i = i + length fs" using skip_while_app [OF d assms(2) fs] post by blast
  have "\<not> (i < length os \<and> os ! i = 45)"
  proof
    assume "i < length os \<and> os ! i = 45"
    then have "hd (fs @ post) = 45" "fs @ post \<noteq> []" using d hd_drop_conv_nth [of i os] by auto
    with fs post show False by (cases fs) (auto simp: isdigit_def)
  qed
  with j d show ?thesis by (auto simp: TryCreateFloatToken_def Let_def min_def)
qed

lemma identifier_token:
  assumes d: "drop i os = xs @ post" and "i \<le> length os" and "list_all isalpha xs" and "post = [] \<or> \<not> isalpha (hd post)"
  shows "TryCreateIdentifierToken os i = ((if xs = [116, 114, 117, 101] then Boolean True
    else if xs = [102, 97, 108, 115, 101] then Boolean False
    else if xs = [110, 117, 108, 108] then Null else ErrorToken), i + length xs)"
  using skip_while_app [OF assms] d by (simp add: TryCreateIdentifierToken_def Let_def)


lemma isdigit_not_isspace: "isdigit c \<Longrightarrow> \<not> isspace c"
  by (auto simp: isdigit_def isspace_def word_le_nat_alt)

lemma isalpha_not_isdigit: "isalpha c \<Longrightarrow> \<not> isdigit c"
  by (auto simp: isdigit_def isalpha_def word_le_nat_alt)

lemma Token_lexeme:
  assumes d: "drop i os = ws @ lex_bytes l @ post" and "i \<le> length os"
    and ws: "list_all isspace ws" and l: "lex_valid l" "lex_ends l post"
  shows "Token os i = (lex_token l (i + length ws), i + length ws + length (lex_bytes l))"
proof -
  let ?i = "i + length ws"
  have di: "drop ?i os = lex_bytes l @ post" and i: "?i \<le> length os" using drop_app [OF d assms(2)] by blast+
  have first: "\<exists>c cs. lex_bytes l = c # cs \<and> \<not> isspace c"
    using l by (cases l) (auto simp: isspace_def neq_Nil_conv dest: isdigit_not_isspace [unfolded isspace_def])
  then obtain c cs where c: "lex_bytes l = c # cs" "\<not> isspace c" by blast
  have skip: "SkipWhitespace os i = ?i"
    unfolding SkipWhitespace_def using skip_while_app [OF d assms(2) ws] c by simp
  have nth: "?i < length os" "os ! ?i = c" using drop_Cons_nth [of ?i os c "cs @ post"] di c(1) by auto
  have base: "Token os i =
     (if c = 34 then TryCreateStringToken os ?i else if c = 58 then (Colon, ?i + 1) else if c = 44 then (Comma, ?i + 1)
      else if c = 46 then (Dot, ?i + 1) else if c = 123 then (LeftBrace ?i, ?i + 1) else if c = 125 then (RightBrace ?i, ?i + 1)
      else if c = 91 then (LeftBracket ?i, ?i + 1) else if c = 93 then (RightBracket ?i, ?i + 1)
      else if isdigit c \<or> c = 45 then TryCreateIntegerOrFloatToken os ?i
      else if isalpha c then TryCreateIdentifierToken os ?i else (ErrorToken, ?i))"
    using nth by (simp add: Token_def skip Let_def)
  have number: "Token os i = TryCreateIntegerOrFloatToken os ?i" if "isdigit c \<or> c = 45"
    using that unfolding base by (auto simp: isdigit_def)
  have name: "Token os i = TryCreateIdentifierToken os ?i" if "isalpha c"
    using that isalpha_not_isdigit [OF that] unfolding base by (auto simp: isalpha_def)
  show ?thesis
  proof (cases l)
    case (LString s)
    with l have "js_body s" by simp
    then show ?thesis using c(1) LString di string_token [of ?i os s post] base by auto
  next
    case (LInt negative ds)
    have "isdigit c \<or> c = 45" using LInt c(1) l(1) by (cases negative) auto
    moreover have "post = [] \<or> \<not> isdigit (hd post)" "post = [] \<or> hd post \<noteq> 46" using LInt l(2) by auto
    ultimately show ?thesis
      using number_token [of ?i os negative ds post] di i LInt l(1) number by (simp add: Let_def)
  next
    case (LFloat negative ds fs)
    let ?j = "?i + length (if negative then [45 :: byte] else []) + length ds"
    have "isdigit c \<or> c = 45" using LFloat c(1) l(1) by (cases negative; cases ds) auto
    then have "Token os i = TryCreateFloatToken os (ToInt64 ds False) negative (?j + 1)"
      using number_token [of ?i os negative ds "46 # fs @ post"] di i LFloat l(1) number
      by (simp add: Let_def isdigit_def)
    moreover have "drop (?j + 1) os = fs @ post" "?j + 1 \<le> length os"
      using drop_app [of ?i os "(if negative then [45] else []) @ ds @ [46]" "fs @ post"] di i LFloat
      by (cases negative; simp)+
    ultimately show ?thesis using fraction_token [of "?j + 1" os fs post] LFloat l by simp
  next
    case LTrue
    with c(1) have "isalpha c" by (simp add: isalpha_def)
    with LTrue di i l(2) name identifier_token [of ?i os "lex_bytes LTrue" post] show ?thesis by (simp add: isalpha_def)
  next
    case LFalse
    with c(1) have "isalpha c" by (simp add: isalpha_def)
    with LFalse di i l(2) name identifier_token [of ?i os "lex_bytes LFalse" post] show ?thesis by (simp add: isalpha_def)
  next
    case LNull
    with c(1) have "isalpha c" by (simp add: isalpha_def)
    with LNull di i l(2) name identifier_token [of ?i os "lex_bytes LNull" post] show ?thesis by (simp add: isalpha_def)
  qed (use base c(1) in simp_all)
qed

text \<open>A text put together from parts with white space in front of them, and the tokens of a whole text.\<close>

type_synonym lexemes = "(byte list \<times> lexeme) list"

definition lex_text :: "lexemes \<Rightarrow> byte list" where
  "lex_text ls = concat (map (\<lambda>(ws, l). ws @ lex_bytes l) ls)"

lemma lex_text_simps [simp]:
  "lex_text [] = []"
  "lex_text ((ws, l) # ls) = ws @ lex_bytes l @ lex_text ls"
  "lex_text (ls @ ms) = lex_text ls @ lex_text ms"
  by (simp_all add: lex_text_def)

fun lexed :: "lexemes \<Rightarrow> byte list \<Rightarrow> bool" where
  "lexed [] post \<longleftrightarrow> True"
| "lexed ((ws, l) # ls) post \<longleftrightarrow>
     list_all isspace ws \<and> lex_valid l \<and> lex_ends l (lex_text ls @ post) \<and> lexed ls post"

lemma lexed_append [simp]: "lexed (ls @ ms) post \<longleftrightarrow> lexed ls (lex_text ms @ post) \<and> lexed ms post"
  by (induction ls) auto

lemma Token_lexed:
  assumes "drop i os = lex_text ((ws, l) # ls) @ post" and "i \<le> length os" and "lexed ((ws, l) # ls) post"
  shows "Token os i = (lex_token l (i + length ws), i + length ws + length (lex_bytes l))"
    "drop (i + length ws + length (lex_bytes l)) os = lex_text ls @ post"
    "i + length ws + length (lex_bytes l) \<le> length os"
proof -
  show "Token os i = (lex_token l (i + length ws), i + length ws + length (lex_bytes l))"
    using Token_lexeme [of i os ws l "lex_text ls @ post"] assms by simp
  show "drop (i + length ws + length (lex_bytes l)) os = lex_text ls @ post"
    "i + length ws + length (lex_bytes l) \<le> length os"
    using drop_app [of i os "ws @ lex_bytes l" "lex_text ls @ post"] assms by (simp_all add: add.assoc)
qed

lemma Token_past: "length os \<le> i \<Longrightarrow> Token os i = (EndToken, i)"
  by (simp add: Token_def SkipWhitespace_def skip_while.simps [of isspace os i] Let_def)

text \<open>
  A tokenizer that is called again and again: until it returns \<open>EndToken\<close> or \<open>ErrorToken\<close>, both of which it keeps. The steps
  below move on until then, so this ends.
\<close>

lemma Token_moves_on:
  assumes "Token os i = (t, j)"
  shows "i \<le> j" "t \<noteq> EndToken \<Longrightarrow> t \<noteq> ErrorToken \<Longrightarrow> i < j \<and> j \<le> length os"
  using Token_moves [OF assms] Token_past [of os i] assms by (cases "i \<le> length os"; simp)+

function all_tokens :: "byte list \<Rightarrow> nat \<Rightarrow> json_token list" where
  "all_tokens os i =
     (let (t, j) = Token os i in if t = EndToken \<or> t = ErrorToken then [t] else t # all_tokens os j)"
  by pat_completeness auto
termination
  by (relation "measure (\<lambda>(os, i). length os - i)") (auto dest: Token_moves_on(2) [OF sym])

declare all_tokens.simps [simp del]

fun placed :: "nat \<Rightarrow> lexemes \<Rightarrow> json_token list" where
  "placed i [] = []"
| "placed i ((ws, l) # ls) = lex_token l (i + length ws) # placed (i + length ws + length (lex_bytes l)) ls"

lemma all_tokens_lexed:
  assumes "drop i os = lex_text ls @ ws" and "i \<le> length os" and "lexed ls ws" and "list_all isspace ws"
  shows "all_tokens os i = placed i ls @ [EndToken]"
  using assms
proof (induction ls arbitrary: i)
  case Nil
  have "SkipWhitespace os i = i + length ws"
    unfolding SkipWhitespace_def using skip_while_app [of i os ws "[]" isspace] Nil by simp
  moreover have "i + length ws = length os" using Nil by (metis append_Nil diff_add_inverse le_add_diff_inverse length_drop lex_text_simps(1))
  ultimately have "Token os i = (EndToken, i + length ws)" by (simp add: Token_def)
  then show ?case by (simp add: all_tokens.simps [of os i])
next
  case (Cons x ls)
  obtain w l where x: "x = (w, l)" by (cases x)
  note T = Token_lexed [of i os w l ls ws] 
  have "lex_token l (i + length w) \<noteq> EndToken \<and> lex_token l (i + length w) \<noteq> ErrorToken" by (cases l) simp_all
  with Cons x T show ?case by (subst all_tokens.simps) simp
qed

end
