(* ===== verification/Json_Objects.thy ===== *)
theory Json_Objects
  imports Json_Tokens
begin

section \<open>JSON objects and arrays: infra/syntax/Json.cpp\<close>

text \<open>
  \<^verbatim>\<open>infra::JsonObject\<close> and \<^verbatim>\<open>infra::JsonArray\<close> hold the text of an object or an array and an error flag. Their members are found by
  iterators, which read the text token by token each time; a member that is an object or an array itself is not read but
  skipped: \<^verbatim>\<open>SearchObjectEnd\<close> and \<^verbatim>\<open>SearchArrayEnd\<close> count the braces or brackets to the one that closes it. \<^verbatim>\<open>nested\<close> is an unsigned
  \<^verbatim>\<open>size_t\<close> of 32 bits and runs below zero at the first opening one.

  The theorems say what the iterators find in a text that is put together of members, with any white space: exactly these
  members, in this order. The parts inside of a member that is an object or an array only have to have balanced braces or
  brackets.
\<close>

subsection \<open>Values\<close>

datatype json_value =
    VBool bool | VInt "32 word" | VBigger "64 word" bool | VString "byte list" | VFloat "64 word" "32 word" bool
  | VObject "byte list" | VArray "byte list"

function search_loop :: "(json_token \<Rightarrow> bool) \<Rightarrow> (json_token \<Rightarrow> bool) \<Rightarrow> byte list \<Rightarrow> 32 word \<Rightarrow> json_token \<Rightarrow> nat \<Rightarrow> json_token \<times> nat" where
  "search_loop opens closes os nested token i =
     (if (nested \<noteq> 0 \<or> \<not> closes token) \<and> token \<noteq> EndToken \<and> token \<noteq> ErrorToken
      then (let nested = (if opens token then nested - 1 else nested);
                nested = (if closes token then nested + 1 else nested);
                (token, i) = Token os i
            in search_loop opens closes os nested token i)
      else (token, i))"
  by pat_completeness auto
termination
proof (relation "measure (\<lambda>(opens, closes, os, nested, token, i).
    2 * (length os - i) + (if token = EndToken \<or> token = ErrorToken then 0 else 1))", simp, clarify)
  fix os :: "byte list" and token t :: json_token and i j :: nat
  fix opens closes :: "json_token \<Rightarrow> bool" and nested n1 n2 :: "32 word" 
  assume old: "token \<noteq> EndToken" "token \<noteq> ErrorToken" and "(t, j) = Token os i"
  note T = Token_moves_on [OF this(3) [symmetric]]
  have "2 * (length os - j) + (if t = EndToken \<or> t = ErrorToken then 0 else 1) < 2 * (length os - i) + 1"
  proof (cases "t = EndToken \<or> t = ErrorToken")
    case True
    with T(1) show ?thesis by simp
  next
    case False
    then have "i < j" "j \<le> length os" using T(2) by blast+
    with False show ?thesis by simp
  qed
  with old show "((opens, closes, os, if closes token then (if opens token then nested - 1 else nested) + 1 else if opens token then nested - 1 else nested, t, j),
      opens, closes, os, nested, token, i) \<in> measure (\<lambda>(opens, closes, os, nested, token, i).
        2 * (length os - i) + (if token = EndToken \<or> token = ErrorToken then 0 else 1))"
    by simp
qed

declare search_loop.simps [simp del]

fun is_LeftBrace :: "json_token \<Rightarrow> bool" where
  "is_LeftBrace (LeftBrace i) \<longleftrightarrow> True" | "is_LeftBrace _ \<longleftrightarrow> False"

fun is_RightBrace :: "json_token \<Rightarrow> bool" where
  "is_RightBrace (RightBrace i) \<longleftrightarrow> True" | "is_RightBrace _ \<longleftrightarrow> False"

fun is_LeftBracket :: "json_token \<Rightarrow> bool" where
  "is_LeftBracket (LeftBracket i) \<longleftrightarrow> True" | "is_LeftBracket _ \<longleftrightarrow> False"

fun is_RightBracket :: "json_token \<Rightarrow> bool" where
  "is_RightBracket (RightBracket i) \<longleftrightarrow> True" | "is_RightBracket _ \<longleftrightarrow> False"

definition SearchObjectEnd :: "byte list \<Rightarrow> nat \<Rightarrow> nat option \<times> nat" where
  "SearchObjectEnd os i =
     (let (token, i) = Token os i; (token, i) = search_loop is_LeftBrace is_RightBrace os 0 token i
      in (case token of RightBrace k \<Rightarrow> Some k | _ \<Rightarrow> None, i))"

definition SearchArrayEnd :: "byte list \<Rightarrow> nat \<Rightarrow> nat option \<times> nat" where
  "SearchArrayEnd os i =
     (let (token, i) = Token os i; (token, i) = search_loop is_LeftBracket is_RightBracket os 0 token i
      in (case token of RightBracket k \<Rightarrow> Some k | _ \<Rightarrow> None, i))"

definition js_substr :: "byte list \<Rightarrow> nat \<Rightarrow> nat \<Rightarrow> byte list" where
  "js_substr os pos num = take num (drop pos os)"

definition ReadObjectValue :: "byte list \<Rightarrow> nat \<Rightarrow> nat \<Rightarrow> json_value option \<times> nat" where
  "ReadObjectValue os start i =
     (let (objectEnd, i) = SearchObjectEnd os i
      in (map_option (\<lambda>k. VObject (js_substr os start (k + 1 - start))) objectEnd, i))"

definition ReadArrayValue :: "byte list \<Rightarrow> nat \<Rightarrow> nat \<Rightarrow> json_value option \<times> nat" where
  "ReadArrayValue os start i =
     (let (arrayEnd, i) = SearchArrayEnd os i
      in (map_option (\<lambda>k. VArray (js_substr os start (k + 1 - start))) arrayEnd, i))"

definition ReadInteger :: "64 word \<Rightarrow> bool \<Rightarrow> json_value" where
  "ReadInteger v negative =
     (if (\<not> negative \<and> v \<le> 2147483647) \<or> (negative \<and> v \<le> 2147483648)
      then VInt (ucast (v * (if negative then -1 else 1))) else VBigger v negative)"

definition ConvertValue :: "byte list \<Rightarrow> json_token \<Rightarrow> nat \<Rightarrow> json_value option \<times> nat" where
  "ConvertValue os token i =
     (case token of
        StringToken s \<Rightarrow> (Some (VString s), i)
      | JsonBiggerInt v negative \<Rightarrow> (Some (ReadInteger v negative), i)
      | JsonFloat v nano negative \<Rightarrow> (Some (VFloat v nano negative), i)
      | Boolean b \<Rightarrow> (Some (VBool b), i)
      | LeftBrace k \<Rightarrow> ReadObjectValue os k i
      | LeftBracket k \<Rightarrow> ReadArrayValue os k i
      | Null \<Rightarrow> (Some (VObject []), i)
      | _ \<Rightarrow> (None, i))"

lemma search_loop_moves:
  assumes "search_loop opens closes os nested token i = (t, j)"
  shows "i \<le> j" "i \<le> length os \<Longrightarrow> j \<le> length os"
proof -
  have "i \<le> snd (search_loop opens closes os nested token i)
      \<and> (i \<le> length os \<longrightarrow> snd (search_loop opens closes os nested token i) \<le> length os)"
  proof (induction opens closes os nested token i rule: search_loop.induct)
    case (1 opens closes os nested token i)
    obtain t j where T: "Token os i = (t, j)" by fastforce
    have j: "i \<le> j" "i \<le> length os \<Longrightarrow> j \<le> length os" using Token_moves_on(1) [OF T] Token_moves [OF T] by blast+
    show ?case
      using "1.IH" [OF _ refl refl T [symmetric] refl] j T by (subst (1 2) search_loop.simps) (auto simp: Let_def)
  qed
  with assms show "i \<le> j" "i \<le> length os \<Longrightarrow> j \<le> length os" by simp_all
qed

lemma ConvertValue_moves:
  assumes "ConvertValue os token i = (v, j)" and "i \<le> length os"
  shows "i \<le> j \<and> j \<le> length os"
proof -
  have obj: "i \<le> snd (SearchObjectEnd os i) \<and> snd (SearchObjectEnd os i) \<le> length os"
    using Token_moves [of os i] search_loop_moves assms(2)
    by (fastforce simp: SearchObjectEnd_def split: prod.splits)
  have arr: "i \<le> snd (SearchArrayEnd os i) \<and> snd (SearchArrayEnd os i) \<le> length os"
    using Token_moves [of os i] search_loop_moves assms(2)
    by (fastforce simp: SearchArrayEnd_def split: prod.splits)
  from assms obj arr show ?thesis
    by (auto simp: ConvertValue_def ReadObjectValue_def ReadArrayValue_def split: json_token.splits prod.splits)
qed


subsection \<open>Iterating over an object\<close>

text \<open>
  \<^verbatim>\<open>JsonObjectIterator\<close>, with the flag \<^verbatim>\<open>error\<close> of the object it points to. \<^verbatim>\<open>ParseNextToken\<close> calls the function of the
  state; \<^verbatim>\<open>operator++\<close> does so until a member is complete or the object ends.
\<close>

datatype object_state = readObjectStart | readKeyOrEnd | readKey | readColon | readValue | readCommaOrObjectEnd | objectEnd

record object_iterator =
  joi_parseIndex :: nat
  joi_key :: "byte list"
  joi_value :: json_value
  joi_state :: object_state
  joi_error :: bool

definition joi_SetError :: "object_iterator \<Rightarrow> object_iterator" where
  "joi_SetError it = it\<lparr>joi_error := True, joi_state := objectEnd\<rparr>"

definition joi_ReadObjectStart :: "json_token \<Rightarrow> object_iterator \<Rightarrow> object_iterator" where
  "joi_ReadObjectStart token it =
     (let it = it\<lparr>joi_state := readKeyOrEnd\<rparr> in if is_LeftBrace token then it else joi_SetError it)"

definition joi_ReadKeyOrEnd :: "json_token \<Rightarrow> object_iterator \<Rightarrow> object_iterator" where
  "joi_ReadKeyOrEnd token it =
     (let it = it\<lparr>joi_state := readColon\<rparr>
      in case token of
          RightBrace _ \<Rightarrow> it\<lparr>joi_state := objectEnd\<rparr>
        | StringToken s \<Rightarrow> it\<lparr>joi_key := s\<rparr>
        | _ \<Rightarrow> joi_SetError it)"

definition joi_ReadKey :: "json_token \<Rightarrow> object_iterator \<Rightarrow> object_iterator" where
  "joi_ReadKey token it =
     (let it = it\<lparr>joi_state := readColon\<rparr> in case token of StringToken s \<Rightarrow> it\<lparr>joi_key := s\<rparr> | _ \<Rightarrow> joi_SetError it)"

definition joi_ReadColon :: "json_token \<Rightarrow> object_iterator \<Rightarrow> object_iterator" where
  "joi_ReadColon token it = (let it = it\<lparr>joi_state := readValue\<rparr> in if token = Colon then it else joi_SetError it)"

definition joi_ReadValue :: "byte list \<Rightarrow> json_token \<Rightarrow> object_iterator \<Rightarrow> object_iterator" where
  "joi_ReadValue os token it =
     (let it = it\<lparr>joi_state := readCommaOrObjectEnd\<rparr>;
          (v, i) = ConvertValue os token (joi_parseIndex it); it = it\<lparr>joi_parseIndex := i\<rparr>
      in case v of Some v \<Rightarrow> it\<lparr>joi_value := v\<rparr> | None \<Rightarrow> joi_SetError it)"

definition joi_ReadCommaOrObjectEnd :: "json_token \<Rightarrow> object_iterator \<Rightarrow> object_iterator" where
  "joi_ReadCommaOrObjectEnd token it =
     (case token of
        Comma \<Rightarrow> it\<lparr>joi_state := readKey\<rparr>
      | RightBrace _ \<Rightarrow> it\<lparr>joi_state := objectEnd\<rparr>
      | _ \<Rightarrow> joi_SetError it)"

definition joi_ParseNextToken :: "byte list \<Rightarrow> object_iterator \<Rightarrow> object_iterator result" where
  "joi_ParseNextToken os it =
     (let (token, i) = Token os (joi_parseIndex it); it = it\<lparr>joi_parseIndex := i\<rparr>
      in case joi_state it of
          readObjectStart \<Rightarrow> Inr (joi_ReadObjectStart token it)
        | readKeyOrEnd \<Rightarrow> Inr (joi_ReadKeyOrEnd token it)
        | readKey \<Rightarrow> Inr (joi_ReadKey token it)
        | readColon \<Rightarrow> Inr (joi_ReadColon token it)
        | readValue \<Rightarrow> Inr (joi_ReadValue os token it)
        | readCommaOrObjectEnd \<Rightarrow> Inr (joi_ReadCommaOrObjectEnd token it)
        | objectEnd \<Rightarrow> Inl Aborted)"

lemmas joi_reads = joi_ReadObjectStart_def joi_ReadKeyOrEnd_def joi_ReadKey_def joi_ReadColon_def joi_ReadValue_def
  joi_ReadCommaOrObjectEnd_def joi_SetError_def

lemma ConvertValue_bad: "ConvertValue os EndToken i = (None, i)" "ConvertValue os ErrorToken i = (None, i)"
  by (simp_all add: ConvertValue_def)

lemma ParseNextToken_moves:
  assumes "joi_ParseNextToken os it = Inr it'" and "joi_state it' \<noteq> objectEnd"
  shows "joi_parseIndex it < joi_parseIndex it' \<and> joi_parseIndex it' \<le> length os"
proof -
  obtain t j where T: "Token os (joi_parseIndex it) = (t, j)" by fastforce
  have good: "t \<noteq> EndToken \<and> t \<noteq> ErrorToken"
    using assms T by (auto simp: joi_ParseNextToken_def joi_reads ConvertValue_bad Let_def split: object_state.splits if_splits)
  then have j: "joi_parseIndex it < j" "j \<le> length os" using Token_moves_on(2) [OF T] by blast+
  show ?thesis
  proof (cases "joi_state it = readValue")
    case True
    obtain v k where C: "ConvertValue os t j = (v, k)" by fastforce
    with ConvertValue_moves [OF C j(2)] j assms(1) T True show ?thesis
      by (auto simp: joi_ParseNextToken_def joi_ReadValue_def joi_SetError_def Let_def split: option.splits)
  next
    case False
    with assms(1) T have "joi_parseIndex it' = j"
      by (auto simp: joi_ParseNextToken_def joi_reads Let_def split: object_state.splits json_token.splits if_splits)
    with j show ?thesis by simp
  qed
qed

function joi_increment :: "byte list \<Rightarrow> object_iterator \<Rightarrow> object_iterator result" where
  "joi_increment os it =
     bindR (joi_ParseNextToken os it) (\<lambda>it.
       if joi_state it \<noteq> readCommaOrObjectEnd \<and> joi_state it \<noteq> objectEnd then joi_increment os it else Inr it)"
  by pat_completeness auto
termination
  by (relation "measure (\<lambda>(os, it). length os - joi_parseIndex it)") (auto dest!: ParseNextToken_moves)

declare joi_increment.simps [simp del]

definition joi_begin :: "byte list \<Rightarrow> bool \<Rightarrow> object_iterator result" where
  "joi_begin os error = joi_increment os \<lparr>joi_parseIndex = 0, joi_key = [], joi_value = VBool False,
     joi_state = readObjectStart, joi_error = error\<rparr>"

lemma joi_increment_moves:
  "joi_increment os it = Inr it' \<Longrightarrow> joi_state it' \<noteq> objectEnd \<Longrightarrow>
    joi_parseIndex it < joi_parseIndex it' \<and> joi_parseIndex it' \<le> length os"
proof (induction os it arbitrary: it' rule: joi_increment.induct)
  case (1 os it)
  obtain it1 where p: "joi_ParseNextToken os it = Inr it1"
    and rest: "(if joi_state it1 \<noteq> readCommaOrObjectEnd \<and> joi_state it1 \<noteq> objectEnd then joi_increment os it1 else Inr it1) = Inr it'"
    using "1.prems"(1) by (subst (asm) joi_increment.simps) (auto simp: bindR_Inr_iff)
  show ?case
  proof (cases "joi_state it1 \<noteq> readCommaOrObjectEnd \<and> joi_state it1 \<noteq> objectEnd")
    case True
    with rest have "joi_increment os it1 = Inr it'" by simp
    with "1.IH" [OF p True] "1.prems"(2) ParseNextToken_moves [OF p] True show ?thesis by fastforce
  next
    case False
    with rest have "it1 = it'" by simp
    with p "1.prems"(2) ParseNextToken_moves show ?thesis by blast
  qed
qed

text \<open>
  The loops over the members: to the end, or to the first that satisfies a condition. The result is what was found, and the
  flag \<^verbatim>\<open>error\<close> that the object is left with.
\<close>

function joi_all :: "byte list \<Rightarrow> object_iterator \<Rightarrow> ((byte list \<times> json_value) list \<times> bool) result" where
  "joi_all os it =
     (if joi_state it = objectEnd then Inr ([], joi_error it)
      else bindR (joi_increment os it) (\<lambda>it'. bindR (joi_all os it')
        (\<lambda>(members, error). Inr ((joi_key it, joi_value it) # members, error))))"
  by pat_completeness auto
termination
  by (relation "measure (\<lambda>(os, it). if joi_state it = objectEnd then 0 else Suc (length os - joi_parseIndex it))")
    (auto dest!: joi_increment_moves)

function joi_find :: "byte list \<Rightarrow> (byte list \<Rightarrow> json_value \<Rightarrow> bool result) \<Rightarrow> object_iterator \<Rightarrow> (json_value option \<times> bool) result" where
  "joi_find os condition it =
     (if joi_state it = objectEnd then Inr (None, joi_error it)
      else bindR (condition (joi_key it) (joi_value it)) (\<lambda>found.
        if found then Inr (Some (joi_value it), joi_error it)
        else bindR (joi_increment os it) (joi_find os condition)))"
  by pat_completeness auto
termination
  by (relation "measure (\<lambda>(os, condition, it). if joi_state it = objectEnd then 0 else Suc (length os - joi_parseIndex it))")
    (auto dest!: joi_increment_moves)

declare joi_all.simps [simp del] joi_find.simps [simp del]

definition jo_members :: "byte list \<Rightarrow> bool \<Rightarrow> ((byte list \<times> json_value) list \<times> bool) result" where
  "jo_members os error = bindR (joi_begin os error) (joi_all os)"

definition ValidJsonObject :: "byte list \<Rightarrow> bool result" where
  "ValidJsonObject contents = bindR (jo_members contents False) (\<lambda>(_, error). Inr (\<not> error))"

subsection \<open>Looking up a member\<close>

text \<open>The functions of an object with the text \<open>os\<close> and the flag \<open>error\<close> return the flag that is set then as well.\<close>

definition jo_find :: "byte list \<Rightarrow> bool \<Rightarrow> byte list \<Rightarrow> (json_value \<Rightarrow> bool) \<Rightarrow> (json_value option \<times> bool) result" where
  "jo_find os error key holds =
     bindR (joi_begin os error) (joi_find os (\<lambda>k v. bindR (js_equals k key) (\<lambda>same. Inr (same \<and> holds v))))"

definition jo_HasKey :: "byte list \<Rightarrow> bool \<Rightarrow> byte list \<Rightarrow> (bool \<times> bool) result" where
  "jo_HasKey os error key = bindR (jo_find os error key (\<lambda>_. True)) (\<lambda>(v, error). Inr (v \<noteq> None, error))"

definition jo_GetValue :: "byte list \<Rightarrow> bool \<Rightarrow> byte list \<Rightarrow> (json_value \<times> bool) result" where
  "jo_GetValue os error key = bindR (jo_find os error key (\<lambda>_. True))
     (\<lambda>(v, error). case v of Some v \<Rightarrow> Inr (v, error) | None \<Rightarrow> Inr (VBool False, True))"

definition jo_GetValue_as :: "(json_value \<Rightarrow> bool) \<Rightarrow> json_value \<Rightarrow> byte list \<Rightarrow> bool \<Rightarrow> byte list \<Rightarrow> (json_value \<times> bool) result" where
  "jo_GetValue_as holds nothing os error key = bindR (jo_find os error key holds)
     (\<lambda>(v, error). case v of Some v \<Rightarrow> Inr (v, error) | None \<Rightarrow> Inr (nothing, True))"

definition jo_GetOptionalValue :: "(json_value \<Rightarrow> bool) \<Rightarrow> byte list \<Rightarrow> bool \<Rightarrow> byte list \<Rightarrow> (json_value option \<times> bool) result" where
  "jo_GetOptionalValue holds os error key = jo_find os error key holds"

fun is_VBool :: "json_value \<Rightarrow> bool" where "is_VBool (VBool b) \<longleftrightarrow> True" | "is_VBool _ \<longleftrightarrow> False"
fun is_VInt :: "json_value \<Rightarrow> bool" where "is_VInt (VInt i) \<longleftrightarrow> True" | "is_VInt _ \<longleftrightarrow> False"
fun is_VString :: "json_value \<Rightarrow> bool" where "is_VString (VString s) \<longleftrightarrow> True" | "is_VString _ \<longleftrightarrow> False"
fun is_VFloat :: "json_value \<Rightarrow> bool" where "is_VFloat (VFloat i f n) \<longleftrightarrow> True" | "is_VFloat _ \<longleftrightarrow> False"
fun is_VObject :: "json_value \<Rightarrow> bool" where "is_VObject (VObject s) \<longleftrightarrow> True" | "is_VObject _ \<longleftrightarrow> False"
fun is_VArray :: "json_value \<Rightarrow> bool" where "is_VArray (VArray s) \<longleftrightarrow> True" | "is_VArray _ \<longleftrightarrow> False"

definition jo_GetString :: "byte list \<Rightarrow> bool \<Rightarrow> byte list \<Rightarrow> (json_value \<times> bool) result" where
  "jo_GetString = jo_GetValue_as is_VString (VString [])"

definition jo_GetFloat :: "byte list \<Rightarrow> bool \<Rightarrow> byte list \<Rightarrow> (json_value \<times> bool) result" where
  "jo_GetFloat = jo_GetValue_as is_VFloat (VFloat 0 0 False)"

definition jo_GetBoolean :: "byte list \<Rightarrow> bool \<Rightarrow> byte list \<Rightarrow> (json_value \<times> bool) result" where
  "jo_GetBoolean = jo_GetValue_as is_VBool (VBool False)"

definition jo_GetInteger :: "byte list \<Rightarrow> bool \<Rightarrow> byte list \<Rightarrow> (json_value \<times> bool) result" where
  "jo_GetInteger = jo_GetValue_as is_VInt (VInt 0)"

definition jo_GetObject :: "byte list \<Rightarrow> bool \<Rightarrow> byte list \<Rightarrow> (json_value \<times> bool) result" where
  "jo_GetObject = jo_GetValue_as is_VObject (VObject [])"

definition jo_GetArray :: "byte list \<Rightarrow> bool \<Rightarrow> byte list \<Rightarrow> (json_value \<times> bool) result" where
  "jo_GetArray = jo_GetValue_as is_VArray (VArray [91, 93])"

text \<open>
  \<^verbatim>\<open>GetIntegerAs<T>\<close>, for a type of integers from \<open>lo\<close> to \<open>hi\<close>. The negation of the most negative \<^verbatim>\<open>int64_t\<close> is undefined.
\<close>

definition jo_ConvertValueTo :: "int \<Rightarrow> int \<Rightarrow> 64 word \<Rightarrow> bool \<Rightarrow> bool \<Rightarrow> (int \<times> bool) result" where
  "jo_ConvertValueTo lo hi v negative error =
     (if negative
      then (if sint (v - 1) = - (2 ^ 63) then Inl UndefinedBehaviour
            else let signedValue = sint (v - 1) * -1 - 1
                 in if signedValue < 0 \<and> lo \<le> signedValue \<and> signedValue \<le> hi then Inr (signedValue, error) else Inr (0, True))
      else if lo \<le> uint v \<and> uint v \<le> hi then Inr (uint v, error) else Inr (0, True))"

definition jo_GetIntegerAs :: "int \<Rightarrow> int \<Rightarrow> byte list \<Rightarrow> bool \<Rightarrow> byte list \<Rightarrow> (int \<times> bool) result" where
  "jo_GetIntegerAs lo hi os error key = bindR (jo_GetValue os error key)
     (\<lambda>(v, error). case v of
        VInt i \<Rightarrow> jo_ConvertValueTo lo hi (word_of_int \<bar>sint i\<bar>) (sint i < 0) error
      | VBigger u negative \<Rightarrow> jo_ConvertValueTo lo hi u negative error
      | _ \<Rightarrow> Inr (0, True))"


subsection \<open>Texts put together of members\<close>

text \<open>
  A member is a scalar, or parts in braces or brackets that are balanced. \<open>iw\<close> is the white space in front of the closing one.
\<close>

fun balanced :: "lexeme \<Rightarrow> lexeme \<Rightarrow> nat \<Rightarrow> lexeme list \<Rightarrow> bool" where
  "balanced opening closing depth [] \<longleftrightarrow> depth = 0"
| "balanced opening closing depth (l # ls) \<longleftrightarrow>
     (if l = opening then balanced opening closing (Suc depth) ls
      else if l = closing then 0 < depth \<and> balanced opening closing (depth - 1) ls
      else balanced opening closing depth ls)"

datatype json_item = Scalar lexeme | Braces lexemes "byte list" | Brackets lexemes "byte list"

fun is_scalar :: "lexeme \<Rightarrow> bool" where
  "is_scalar (LString s) \<longleftrightarrow> True"
| "is_scalar (LInt n ds) \<longleftrightarrow> True"
| "is_scalar (LFloat n ds fs) \<longleftrightarrow> True"
| "is_scalar LTrue \<longleftrightarrow> True"
| "is_scalar LFalse \<longleftrightarrow> True"
| "is_scalar LNull \<longleftrightarrow> True"
| "is_scalar _ \<longleftrightarrow> False"

fun item_ok :: "json_item \<Rightarrow> bool" where
  "item_ok (Scalar l) \<longleftrightarrow> is_scalar l"
| "item_ok (Braces inner iw) \<longleftrightarrow> balanced LOpenBrace LCloseBrace 0 (map snd inner) \<and> length inner < 2 ^ 32"
| "item_ok (Brackets inner iw) \<longleftrightarrow> balanced LOpenBracket LCloseBracket 0 (map snd inner) \<and> length inner < 2 ^ 32"

fun item_lexemes :: "byte list \<Rightarrow> json_item \<Rightarrow> lexemes" where
  "item_lexemes w (Scalar l) = [(w, l)]"
| "item_lexemes w (Braces inner iw) = (w, LOpenBrace) # inner @ [(iw, LCloseBrace)]"
| "item_lexemes w (Brackets inner iw) = (w, LOpenBracket) # inner @ [(iw, LCloseBracket)]"

fun scalar_value :: "lexeme \<Rightarrow> json_value" where
  "scalar_value (LString s) = VString s"
| "scalar_value (LInt negative ds) = ReadInteger (ToInt64 ds False) negative"
| "scalar_value (LFloat negative ds fs) = VFloat (ToInt64 ds False) (pad_fraction (take nanoValueWidth fs)) negative"
| "scalar_value LTrue = VBool True"
| "scalar_value LFalse = VBool False"
| "scalar_value _ = VObject []"

fun item_value :: "json_item \<Rightarrow> json_value" where
  "item_value (Scalar l) = scalar_value l"
| "item_value (Braces inner iw) = VObject (lex_text (item_lexemes [] (Braces inner iw)))"
| "item_value (Brackets inner iw) = VArray (lex_text (item_lexemes [] (Brackets inner iw)))"

text \<open>The search for the closing brace or bracket finds it, if fewer than \<open>2 ^ 32\<close> are open.\<close>

lemma search_loop_balanced:
  assumes classes: "\<And>l i. opens (lex_token l i) \<longleftrightarrow> l = opening" "\<And>l i. closes (lex_token l i) \<longleftrightarrow> l = closing"
    and different: "opening \<noteq> closing"
  shows "drop i os = lex_text (inner @ (iw, closing) # ls) @ post \<Longrightarrow> i \<le> length os \<Longrightarrow> lexed (inner @ (iw, closing) # ls) post \<Longrightarrow>
    balanced opening closing depth (map snd inner) \<Longrightarrow> depth + length inner < 2 ^ 32 \<Longrightarrow>
    (case Token os i of (token, i) \<Rightarrow> search_loop opens closes os (- of_nat depth) token i)
      = (lex_token closing (i + length (lex_text inner) + length iw), i + length (lex_text (inner @ [(iw, closing)])))"
proof (induction inner arbitrary: i depth)
  case Nil
  have T: "Token os i = (lex_token closing (i + length iw), i + length iw + length (lex_bytes closing))"
    using Token_lexed [of i os iw closing ls post] Nil by simp
  have "depth = 0" using Nil.prems(4) by simp
  then show ?case unfolding T by (subst split_conv, subst search_loop.simps) (simp add: classes)
next
  case (Cons x inner)
  obtain w l where x: "x = (w, l)" by (cases x)
  note T = Token_lexed [of i os w l "inner @ (iw, closing) # ls" post]
  let ?j = "i + length w + length (lex_bytes l)"
  have T1: "Token os i = (lex_token l (i + length w), ?j)" "drop ?j os = lex_text (inner @ (iw, closing) # ls) @ post" "?j \<le> length os"
    using T Cons.prems x by simp_all
  define depth' where "depth' = (if l = opening then Suc depth else if l = closing then depth - 1 else depth)"
  have bal: "balanced opening closing depth' (map snd inner)" "depth' + length inner < 2 ^ 32" and pos: "l = closing \<Longrightarrow> 0 < depth"
    using Cons.prems(4,5) x different by (auto simp: depth'_def split: if_splits)
  have nz: "(of_nat depth :: 32 word) \<noteq> 0" if "0 < depth"
  proof -
    have "depth < 2 ^ 32" using Cons.prems(5) by simp
    then have "unat (of_nat depth :: 32 word) = depth" by (simp add: unat_of_nat)
    with that show ?thesis by auto
  qed
  have nested: "(if l = closing then (if l = opening then - of_nat depth - 1 else - of_nat depth :: 32 word) + 1
      else if l = opening then - of_nat depth - 1 else - of_nat depth) = - of_nat depth'"
    using pos different by (auto simp: depth'_def of_nat_diff)
  have tok: "lex_token l k \<noteq> EndToken" "lex_token l k \<noteq> ErrorToken" for k by (cases l; simp)+
  have go: "(- of_nat depth :: 32 word) \<noteq> 0 \<or> l \<noteq> closing" using pos nz by auto
  have "(case Token os i of (token, i) \<Rightarrow> search_loop opens closes os (- of_nat depth) token i)
      = (case Token os ?j of (token, i) \<Rightarrow> search_loop opens closes os (- of_nat depth') token i)"
    unfolding T1(1) split_conv
    by (subst search_loop.simps) (use go nested tok in \<open>simp add: classes Let_def split: prod.splits\<close>)
  also have "\<dots> = (lex_token closing (?j + length (lex_text inner) + length iw), ?j + length (lex_text (inner @ [(iw, closing)])))"
    using Cons.IH [of ?j depth'] T1(2,3) bal Cons.prems(3) x by simp
  finally show ?case using x by (simp add: algebra_simps)
qed

lemma class_lexemes [simp]:
  "is_LeftBrace (lex_token l i) \<longleftrightarrow> l = LOpenBrace"
  "is_RightBrace (lex_token l i) \<longleftrightarrow> l = LCloseBrace"
  "is_LeftBracket (lex_token l i) \<longleftrightarrow> l = LOpenBracket"
  "is_RightBracket (lex_token l i) \<longleftrightarrow> l = LCloseBracket"
  by (cases l; simp)+

lemma ConvertValue_item:
  assumes d: "drop i os = lex_text (item_lexemes w v @ ls) @ post" and "i \<le> length os"
    and "lexed (item_lexemes w v @ ls) post" and "item_ok v"
  shows "(case Token os i of (token, i) \<Rightarrow> ConvertValue os token i) = (Some (item_value v), i + length (lex_text (item_lexemes w v)))"
proof (cases v)
  case (Scalar l)
  then have "Token os i = (lex_token l (i + length w), i + length w + length (lex_bytes l))"
    using Token_lexed [of i os w l ls post] assms by simp
  with Scalar assms(4) show ?thesis by (cases l) (simp_all add: ConvertValue_def add.assoc)
next
  case (Braces inner iw)
  note T = Token_lexed [of i os w LOpenBrace "inner @ (iw, LCloseBrace) # ls" post]
  let ?j = "i + length w + 1"
  have T1: "Token os i = (LeftBrace (i + length w), ?j)" "drop ?j os = lex_text (inner @ (iw, LCloseBrace) # ls) @ post" "?j \<le> length os"
    using T assms Braces by simp_all
  have found: "SearchObjectEnd os ?j = (Some (?j + length (lex_text inner) + length iw), ?j + length (lex_text (inner @ [(iw, LCloseBrace)])))"
    using search_loop_balanced [of is_LeftBrace LOpenBrace is_RightBrace LCloseBrace ?j os inner iw ls post 0] T1(2,3) assms(3,4) Braces
    by (simp add: SearchObjectEnd_def split: prod.splits)
  have "drop (i + length w) os = lex_text (item_lexemes [] v) @ lex_text ls @ post"
    using drop_app [of i os w "lex_text (item_lexemes [] v) @ lex_text ls @ post"] d assms(2) Braces by simp
  then have "js_substr os (i + length w) (length (lex_text (item_lexemes [] v))) = lex_text (item_lexemes [] v)"
    by (simp add: js_substr_def)
  moreover have "?j + length (lex_text inner) + length iw + 1 - (i + length w) = length (lex_text (item_lexemes [] v))"
    using Braces by simp
  ultimately show ?thesis using Braces found by (simp add: T1(1) ConvertValue_def ReadObjectValue_def)
next
  case (Brackets inner iw)
  note T = Token_lexed [of i os w LOpenBracket "inner @ (iw, LCloseBracket) # ls" post]
  let ?j = "i + length w + 1"
  have T1: "Token os i = (LeftBracket (i + length w), ?j)" "drop ?j os = lex_text (inner @ (iw, LCloseBracket) # ls) @ post" "?j \<le> length os"
    using T assms Brackets by simp_all
  have found: "SearchArrayEnd os ?j = (Some (?j + length (lex_text inner) + length iw), ?j + length (lex_text (inner @ [(iw, LCloseBracket)])))"
    using search_loop_balanced [of is_LeftBracket LOpenBracket is_RightBracket LCloseBracket ?j os inner iw ls post 0] T1(2,3) assms(3,4) Brackets
    by (simp add: SearchArrayEnd_def split: prod.splits)
  have "drop (i + length w) os = lex_text (item_lexemes [] v) @ lex_text ls @ post"
    using drop_app [of i os w "lex_text (item_lexemes [] v) @ lex_text ls @ post"] d assms(2) Brackets by simp
  then have "js_substr os (i + length w) (length (lex_text (item_lexemes [] v))) = lex_text (item_lexemes [] v)"
    by (simp add: js_substr_def)
  moreover have "?j + length (lex_text inner) + length iw + 1 - (i + length w) = length (lex_text (item_lexemes [] v))"
    using Brackets by simp
  ultimately show ?thesis using Brackets found by (simp add: T1(1) ConvertValue_def ReadArrayValue_def)
qed


text \<open>The members of an object; the white space that comes with each is the one in front of the comma before it.\<close>

datatype json_member = Member (key_space: "byte list") (raw_key: "byte list") (colon_space: "byte list")
  (value_space: "byte list") (item: json_item)

definition member_lexemes :: "json_member \<Rightarrow> lexemes" where
  "member_lexemes m = (key_space m, LString (raw_key m)) # (colon_space m, LColon) # item_lexemes (value_space m) (item m)"

fun rest_lexemes :: "(byte list \<times> json_member) list \<Rightarrow> lexemes" where
  "rest_lexemes [] = []"
| "rest_lexemes ((w, m) # ms) = (w, LComma) # member_lexemes m @ rest_lexemes ms"

fun members_lexemes :: "(byte list \<times> json_member) list \<Rightarrow> lexemes" where
  "members_lexemes [] = []"
| "members_lexemes ((_, m) # ms) = member_lexemes m @ rest_lexemes ms"

definition object_lexemes :: "byte list \<Rightarrow> (byte list \<times> json_member) list \<Rightarrow> byte list \<Rightarrow> lexemes" where
  "object_lexemes w ms w' = (w, LOpenBrace) # members_lexemes ms @ [(w', LCloseBrace)]"

definition member_result :: "json_member \<Rightarrow> byte list \<times> json_value" where
  "member_result m = (raw_key m, item_value (item m))"

definition members_ok :: "(byte list \<times> json_member) list \<Rightarrow> bool" where
  "members_ok ms \<longleftrightarrow> list_all (\<lambda>(_, m). item_ok (item m)) ms"

lemma members_ok_simps [simp]: "members_ok []" "members_ok ((w, m) # ms) \<longleftrightarrow> item_ok (item m) \<and> members_ok ms"
  by (simp_all add: members_ok_def)

lemma joi_increment_step:
  "joi_ParseNextToken os it = Inr it1 \<Longrightarrow> joi_increment os it =
    (if joi_state it1 \<noteq> readCommaOrObjectEnd \<and> joi_state it1 \<noteq> objectEnd then joi_increment os it1 else Inr it1)"
  by (subst joi_increment.simps) simp

lemma joi_all_end [simp]: "joi_state it = objectEnd \<Longrightarrow> joi_all os it = Inr ([], joi_error it)"
  by (simp add: joi_all.simps)

lemma joi_reads_member:
  assumes state: "joi_state it = readKey \<or> joi_state it = readKeyOrEnd"
    and d: "drop (joi_parseIndex it) os = lex_text (member_lexemes m @ ls) @ post" "joi_parseIndex it \<le> length os"
    and lexed: "lexed (member_lexemes m @ ls) post" and ok: "item_ok (item m)"
  shows "joi_increment os it = Inr \<lparr>joi_parseIndex = joi_parseIndex it + length (lex_text (member_lexemes m)), joi_key = raw_key m,
    joi_value = item_value (item m), joi_state = readCommaOrObjectEnd, joi_error = joi_error it\<rparr>"
proof -
  obtain wk k wc wv v where m: "m = Member wk k wc wv v" by (cases m)
  let ?i = "joi_parseIndex it" and ?v = "item_lexemes wv v"
  let ?j = "?i + length wk + (length k + 2)"
  let ?k = "?j + length wc + 1"
  have T1: "Token os ?i = (StringToken k, ?j)" "drop ?j os = lex_text ((wc, LColon) # ?v @ ls) @ post" "?j \<le> length os"
    using Token_lexed [of ?i os wk "LString k" "(wc, LColon) # ?v @ ls" post] d lexed m by (simp_all add: member_lexemes_def)
  have T2: "Token os ?j = (Colon, ?k)" "drop ?k os = lex_text (?v @ ls) @ post" "?k \<le> length os"
    using Token_lexed [of ?j os wc LColon "?v @ ls" post] T1(2,3) lexed m by (simp_all add: member_lexemes_def)
  obtain t i where T3: "Token os ?k = (t, i)" by fastforce
  with ConvertValue_item [of ?k os wv v ls post] T2(2,3) lexed ok m
  have C: "ConvertValue os t i = (Some (item_value v), ?k + length (lex_text ?v))"
    by (simp add: member_lexemes_def)
  let ?it1 = "it\<lparr>joi_parseIndex := ?j, joi_state := readColon, joi_key := k\<rparr>"
  let ?it2 = "?it1\<lparr>joi_parseIndex := ?k, joi_state := readValue\<rparr>"
  let ?it3 = "?it2\<lparr>joi_parseIndex := ?k + length (lex_text ?v), joi_state := readCommaOrObjectEnd, joi_value := item_value v\<rparr>"
  have "joi_ParseNextToken os it = Inr ?it1"
    using state by (auto simp: joi_ParseNextToken_def T1(1) joi_ReadKey_def joi_ReadKeyOrEnd_def Let_def)
  moreover have "joi_ParseNextToken os ?it1 = Inr ?it2"
    using T2(1) by (simp add: joi_ParseNextToken_def joi_ReadColon_def)
  moreover have "joi_ParseNextToken os ?it2 = Inr ?it3"
    using T3 C by (simp add: joi_ParseNextToken_def joi_ReadValue_def)
  ultimately have "joi_increment os it = Inr ?it3" by (simp add: joi_increment_step)
  then show ?thesis using m by (cases it) (simp add: member_lexemes_def)
qed

lemma joi_reads_rest:
  assumes "joi_state it = readCommaOrObjectEnd"
    and d: "drop (joi_parseIndex it) os = lex_text (rest_lexemes ms @ [(w, LCloseBrace)]) @ post" "joi_parseIndex it \<le> length os"
    and "lexed (rest_lexemes ms @ [(w, LCloseBrace)]) post" and "members_ok ms"
  shows "joi_all os it = Inr ((joi_key it, joi_value it) # map (member_result \<circ> snd) ms, joi_error it)"
  using assms
proof (induction ms arbitrary: it)
  case Nil
  have "Token os (joi_parseIndex it) = (RightBrace (joi_parseIndex it + length w), joi_parseIndex it + length w + 1)"
    using Token_lexed [of "joi_parseIndex it" os w LCloseBrace "[]" post] Nil.prems by simp
  then have "joi_increment os it = Inr (it\<lparr>joi_parseIndex := joi_parseIndex it + length w + 1, joi_state := objectEnd\<rparr>)"
    using Nil.prems(1) by (subst joi_increment.simps) (simp add: joi_ParseNextToken_def joi_ReadCommaOrObjectEnd_def)
  then show ?case using Nil.prems(1) by (simp add: joi_all.simps [of os it])
next
  case (Cons x ms)
  obtain u m where x: "x = (u, m)" by (cases x)
  let ?i = "joi_parseIndex it" and ?ls = "rest_lexemes ms @ [(w, LCloseBrace)]"
  let ?j = "?i + length u + 1"
  let ?it1 = "it\<lparr>joi_parseIndex := ?j, joi_state := readKey\<rparr>"
  have T: "Token os ?i = (Comma, ?j)" "drop ?j os = lex_text (member_lexemes m @ ?ls) @ post" "?j \<le> length os"
    using Token_lexed [of ?i os u LComma "member_lexemes m @ ?ls" post] Cons.prems x by simp_all
  have "joi_ParseNextToken os it = Inr ?it1"
    using T(1) Cons.prems(1) by (simp add: joi_ParseNextToken_def joi_ReadCommaOrObjectEnd_def)
  then have inc: "joi_increment os it = joi_increment os ?it1" by (simp add: joi_increment_step)
  define it2 where "it2 = \<lparr>joi_parseIndex = ?j + length (lex_text (member_lexemes m)), joi_key = raw_key m,
    joi_value = item_value (item m), joi_state = readCommaOrObjectEnd, joi_error = joi_error it\<rparr>"
  have "joi_increment os ?it1 = Inr it2"
    using joi_reads_member [of ?it1 os m ?ls post] T(2,3) Cons.prems(4,5) x by (simp add: it2_def)
  moreover have "joi_all os it2 = Inr ((joi_key it2, joi_value it2) # map (member_result \<circ> snd) ms, joi_error it2)"
  proof (rule Cons.IH)
    show "drop (joi_parseIndex it2) os = lex_text ?ls @ post" "joi_parseIndex it2 \<le> length os"
      using drop_app [of ?j os "lex_text (member_lexemes m)" "lex_text ?ls @ post"] T(2,3) by (simp_all add: it2_def)
  qed (use Cons.prems(4,5) x in \<open>simp_all add: it2_def\<close>)
  ultimately show ?case
    using Cons.prems(1) inc x by (subst joi_all.simps) (simp add: it2_def member_result_def)
qed

lemma jo_members_of_text:
  assumes lexed: "lexed (object_lexemes w ms w') post" and ok: "members_ok ms"
  shows "jo_members (lex_text (object_lexemes w ms w') @ post) error = Inr (map (member_result \<circ> snd) ms, error)"
proof -
  let ?os = "lex_text (object_lexemes w ms w') @ post"
  define it0 where "it0 = \<lparr>joi_parseIndex = 0, joi_key = [], joi_value = VBool False, joi_state = readObjectStart, joi_error = error\<rparr>"
  define it1 where "it1 = it0\<lparr>joi_parseIndex := length w + 1, joi_state := readKeyOrEnd\<rparr>"
  define ls where "ls = members_lexemes ms @ [(w', LCloseBrace)]"
  have ls: "object_lexemes w ms w' = (w, LOpenBrace) # ls" by (simp add: object_lexemes_def ls_def)
  have T: "Token ?os 0 = (LeftBrace (length w), length w + 1)" "drop (length w + 1) ?os = lex_text ls @ post" "length w + 1 \<le> length ?os"
    using Token_lexed [of 0 ?os w LOpenBrace ls post] lexed ls by simp_all
  have "joi_ParseNextToken ?os it0 = Inr it1"
    using T(1) by (simp add: joi_ParseNextToken_def joi_ReadObjectStart_def it0_def it1_def)
  then have start: "joi_begin ?os error = joi_increment ?os it1"
    by (simp add: joi_begin_def it0_def [symmetric] joi_increment_step it1_def)
  show ?thesis
  proof (cases ms)
    case Nil
    then have "Token ?os (length w + 1) = (RightBrace (length w + 1 + length w'), length w + 1 + length w' + 1)"
      using Token_lexed [of "length w + 1" ?os w' LCloseBrace "[]" post] T lexed ls by (auto simp: ls_def)
    then have "joi_increment ?os it1 = Inr (it1\<lparr>joi_parseIndex := length w + 1 + length w' + 1, joi_state := objectEnd\<rparr>)"
      by (subst joi_increment.simps) (simp add: joi_ParseNextToken_def joi_ReadKeyOrEnd_def it1_def it0_def)
    then show ?thesis
      using start Nil by (simp add: jo_members_def it1_def it0_def)
  next
    case (Cons x rest)
    obtain u m where x: "x = (u, m)" by (cases x)
    let ?ls = "rest_lexemes rest @ [(w', LCloseBrace)]"
    have ls': "ls = member_lexemes m @ ?ls" using Cons x by (simp add: ls_def)
    define it2 where "it2 = \<lparr>joi_parseIndex = length w + 1 + length (lex_text (member_lexemes m)), joi_key = raw_key m,
      joi_value = item_value (item m), joi_state = readCommaOrObjectEnd, joi_error = error\<rparr>"
    have "joi_increment ?os it1 = Inr it2"
      using joi_reads_member [of it1 ?os m ?ls post] T(2,3) lexed ok Cons x ls ls' by (simp add: it2_def it1_def it0_def)
    moreover have "joi_all ?os it2 = Inr ((joi_key it2, joi_value it2) # map (member_result \<circ> snd) rest, joi_error it2)"
    proof (rule joi_reads_rest)
      show "drop (joi_parseIndex it2) ?os = lex_text ?ls @ post" "joi_parseIndex it2 \<le> length ?os"
        using drop_app [of "length w + 1" ?os "lex_text (member_lexemes m)" "lex_text ?ls @ post"] T(2,3) ls' by (simp_all add: it2_def)
    qed (use lexed ok Cons x ls ls' in \<open>simp_all add: it2_def\<close>)
    ultimately show ?thesis using start Cons x by (simp add: jo_members_def it2_def member_result_def)
  qed
qed


text \<open>A loop that stops early sees the same members; the flag is never taken back.\<close>

lemma joi_increment_error: "joi_increment os it = Inr it' \<Longrightarrow> joi_error it \<Longrightarrow> joi_error it'"
proof (induction os it arbitrary: it' rule: joi_increment.induct)
  case (1 os it)
  obtain it1 where p: "joi_ParseNextToken os it = Inr it1"
    and rest: "(if joi_state it1 \<noteq> readCommaOrObjectEnd \<and> joi_state it1 \<noteq> objectEnd then joi_increment os it1 else Inr it1) = Inr it'"
    using "1.prems"(1) by (subst (asm) joi_increment.simps) (auto simp: bindR_Inr_iff)
  have "joi_error it1" using p "1.prems"(2)
    by (auto simp: joi_ParseNextToken_def joi_reads Let_def split: object_state.splits json_token.splits prod.splits option.splits if_splits)
  with rest "1.IH" [OF p] show ?case by (auto split: if_splits)
qed

lemma joi_all_step:
  assumes "joi_all os it = Inr (ms, e)" and "joi_state it \<noteq> objectEnd"
  obtains it' ms' where "joi_increment os it = Inr it'" "joi_all os it' = Inr (ms', e)" "ms = (joi_key it, joi_value it) # ms'"
  using assms that by (subst (asm) joi_all.simps) (auto simp: bindR_Inr_iff)

lemma joi_all_error: "joi_all os it = Inr (ms, e) \<Longrightarrow> joi_error it \<Longrightarrow> e"
proof (induction os it arbitrary: ms rule: joi_all.induct)
  case (1 os it)
  show ?case
  proof (cases "joi_state it = objectEnd")
    case False
    with "1.prems"(1) obtain it' ms' where "joi_increment os it = Inr it'" "joi_all os it' = Inr (ms', e)" by (rule joi_all_step)
    with "1.IH" [OF False] joi_increment_error "1.prems"(2) show ?thesis by blast
  qed (use 1 in simp)
qed

lemma joi_find_first:
  assumes "joi_all os it = Inr (ms, e)" and "\<And>k v. (k, v) \<in> set ms \<Longrightarrow> condition k v = Inr (P k v)"
  shows "\<exists>e'. joi_find os condition it = Inr (map_option snd (find (\<lambda>(k, v). P k v) ms), e') \<and> (joi_error it \<longrightarrow> e') \<and> (e' \<longrightarrow> e)"
  using assms
proof (induction os condition it arbitrary: ms rule: joi_find.induct)
  case (1 os condition it)
  show ?case
  proof (cases "joi_state it = objectEnd")
    case True
    with "1.prems"(1) show ?thesis by (auto simp: joi_find.simps [of os condition it])
  next
    case False
    with "1.prems"(1) obtain it' ms' where st: "joi_increment os it = Inr it'" "joi_all os it' = Inr (ms', e)"
        "ms = (joi_key it, joi_value it) # ms'" by (rule joi_all_step)
    have c: "condition (joi_key it) (joi_value it) = Inr (P (joi_key it) (joi_value it))" using "1.prems"(2) st(3) by simp
    show ?thesis
    proof (cases "P (joi_key it) (joi_value it)")
      case True
      with False c st(3) joi_all_error [OF "1.prems"(1)] show ?thesis by (auto simp: joi_find.simps [of os condition it])
    next
      case nP: False
      have "joi_find os condition it = joi_find os condition it'" using False nP c st(1) by (subst joi_find.simps) simp
      moreover obtain e' where "joi_find os condition it' = Inr (map_option snd (find (\<lambda>(k, v). P k v) ms'), e')"
          "joi_error it' \<longrightarrow> e'" "e' \<longrightarrow> e"
        using "1.IH" [OF False c nP st(1,2)] "1.prems"(2) st(3) by auto
      ultimately show ?thesis using nP st(3) joi_increment_error [OF st(1)] by auto
    qed
  qed
qed

lemma joi_begin_error: "joi_begin os True = Inr it \<Longrightarrow> joi_error it"
  by (auto simp: joi_begin_def dest: joi_increment_error)

text \<open>A member is looked up by the characters its key stands for.\<close>

definition key_is :: "byte list \<Rightarrow> byte list \<Rightarrow> bool" where
  "key_is key k \<longleftrightarrow> js_chars k = Inr key"

lemma jo_find_first:
  assumes "jo_members os error = Inr (ms, error)" and "\<And>k v. (k, v) \<in> set ms \<Longrightarrow> js_body k"
  shows "jo_find os error key holds = Inr (map_option snd (find (\<lambda>(k, v). key_is key k \<and> holds v) ms), error)"
proof -
  obtain it where it: "joi_begin os error = Inr it" "joi_all os it = Inr (ms, error)"
    using assms(1) by (auto simp: jo_members_def bindR_Inr_iff)
  have eq: "bindR (js_equals k key) (\<lambda>same. Inr (same \<and> holds v)) = Inr (key_is key k \<and> holds v)" if "(k, v) \<in> set ms" for k v
    using js_body_chars [OF assms(2) [OF that]] by (auto simp: js_equals_chars key_is_def)
  obtain e' where "joi_find os (\<lambda>k v. bindR (js_equals k key) (\<lambda>same. Inr (same \<and> holds v))) it
      = Inr (map_option snd (find (\<lambda>(k, v). key_is key k \<and> holds v) ms), e')" "joi_error it \<longrightarrow> e'" "e' \<longrightarrow> error"
    using joi_find_first [OF it(2), of "\<lambda>k v. bindR (js_equals k key) (\<lambda>same. Inr (same \<and> holds v))"
      "\<lambda>k v. key_is key k \<and> holds v"] eq by blast
  moreover have "e' = error" using calculation(2,3) joi_begin_error it(1) by (cases error) auto
  ultimately show ?thesis using it(1) by (simp add: jo_find_def)
qed

text \<open>The members of a text can be looked up.\<close>

lemma lexed_keys: "lexed (rest_lexemes ms) post \<Longrightarrow> list_all (\<lambda>(_, m). js_body (raw_key m)) ms"
  by (induction ms arbitrary: post rule: rest_lexemes.induct) (auto simp: member_lexemes_def)

lemma text_keys: "lexed (object_lexemes w ms w') post \<Longrightarrow> list_all (\<lambda>(_, m). js_body (raw_key m)) ms"
  by (cases ms rule: members_lexemes.cases) (auto simp: object_lexemes_def member_lexemes_def dest: lexed_keys)

lemma jo_find_of_text:
  assumes "lexed (object_lexemes w ms w') post" and "members_ok ms"
  shows "jo_find (lex_text (object_lexemes w ms w') @ post) error key holds =
    Inr (map_option snd (find (\<lambda>(k, v). key_is key k \<and> holds v) (map (member_result \<circ> snd) ms)), error)"
  using text_keys [OF assms(1)]
  by (intro jo_find_first [OF jo_members_of_text [OF assms]]) (auto simp: member_result_def list_all_iff)

end
