(* ===== verification/Json_Arrays.thy ===== *)
theory Json_Arrays
  imports Json_Objects
begin

section \<open>JSON arrays and documents: infra/syntax/Json.cpp\<close>

text \<open>
  Iterating over a \<^verbatim>\<open>JsonArray\<close>, and over one whose members all have one type (\<^verbatim>\<open>JsonIntegerArray\<close> and its kind, which stop
  with an error at the first other member). Then whole documents: objects and arrays in each other to any depth, of which
  each level is read by the iterators. Numbers, at last: what a text of digits is read as, and \<^verbatim>\<open>GetIntegerAs\<close>.
\<close>

subsection \<open>Iterating over an array\<close>

datatype array_state = readArrayStart | readValueOrEnd | readNextValue | readCommaOrArrayEnd | arrayEnd

record array_iterator =
  jai_parseIndex :: nat
  jai_value :: json_value
  jai_state :: array_state
  jai_error :: bool

definition jai_SetError :: "array_iterator \<Rightarrow> array_iterator" where
  "jai_SetError it = it\<lparr>jai_error := True, jai_state := arrayEnd\<rparr>"

definition jai_ReadValue :: "byte list \<Rightarrow> json_token \<Rightarrow> array_iterator \<Rightarrow> array_iterator" where
  "jai_ReadValue os token it =
     (let (v, i) = ConvertValue os token (jai_parseIndex it); it = it\<lparr>jai_parseIndex := i\<rparr>
      in case v of Some v \<Rightarrow> it\<lparr>jai_value := v\<rparr> | None \<Rightarrow> jai_SetError it)"

text \<open>The body of the loop of \<^verbatim>\<open>operator++\<close>.\<close>

definition jai_step :: "byte list \<Rightarrow> array_iterator \<Rightarrow> array_iterator result" where
  "jai_step os it =
     (let (token, i) = Token os (jai_parseIndex it); it = it\<lparr>jai_parseIndex := i\<rparr>
      in case jai_state it of
          readArrayStart \<Rightarrow>
            (let it = it\<lparr>jai_state := readValueOrEnd\<rparr> in Inr (if is_LeftBracket token then it else jai_SetError it))
        | readValueOrEnd \<Rightarrow>
            (let it = it\<lparr>jai_state := readCommaOrArrayEnd\<rparr>
             in Inr (if is_RightBracket token then it\<lparr>jai_state := arrayEnd\<rparr> else jai_ReadValue os token it))
        | readNextValue \<Rightarrow> Inr (jai_ReadValue os token (it\<lparr>jai_state := readCommaOrArrayEnd\<rparr>))
        | readCommaOrArrayEnd \<Rightarrow>
            Inr (if token = Comma then it\<lparr>jai_state := readNextValue\<rparr>
                 else if is_RightBracket token then it\<lparr>jai_state := arrayEnd\<rparr>
                 else jai_SetError it)
        | arrayEnd \<Rightarrow> Inl Aborted)"

lemmas jai_reads = jai_ReadValue_def jai_SetError_def

lemma jai_step_moves:
  assumes "jai_step os it = Inr it'" and "jai_state it' \<noteq> arrayEnd"
  shows "jai_parseIndex it < jai_parseIndex it' \<and> jai_parseIndex it' \<le> length os"
proof -
  obtain t j where T: "Token os (jai_parseIndex it) = (t, j)" by fastforce
  have good: "t \<noteq> EndToken \<and> t \<noteq> ErrorToken"
    using assms T by (auto simp: jai_step_def jai_reads ConvertValue_bad Let_def split: array_state.splits if_splits)
  then have j: "jai_parseIndex it < j" "j \<le> length os" using Token_moves_on(2) [OF T] by blast+
  obtain v k where C: "ConvertValue os t j = (v, k)" by fastforce
  have "jai_parseIndex it' = j \<or> jai_parseIndex it' = k"
    using assms(1) T C by (auto simp: jai_step_def jai_reads Let_def split: array_state.splits option.splits if_splits)
  with ConvertValue_moves [OF C j(2)] j show ?thesis by auto
qed

function jai_increment :: "byte list \<Rightarrow> array_iterator \<Rightarrow> array_iterator result" where
  "jai_increment os it =
     bindR (jai_step os it) (\<lambda>it.
       if jai_state it \<noteq> readCommaOrArrayEnd \<and> jai_state it \<noteq> arrayEnd then jai_increment os it else Inr it)"
  by pat_completeness auto
termination
  by (relation "measure (\<lambda>(os, it). length os - jai_parseIndex it)") (auto dest!: jai_step_moves)

declare jai_increment.simps [simp del]

definition jai_begin :: "byte list \<Rightarrow> bool \<Rightarrow> array_iterator result" where
  "jai_begin os error = jai_increment os \<lparr>jai_parseIndex = 0, jai_value = VBool False, jai_state = readArrayStart, jai_error = error\<rparr>"

lemma jai_increment_moves:
  "jai_increment os it = Inr it' \<Longrightarrow> jai_state it' \<noteq> arrayEnd \<Longrightarrow>
    jai_parseIndex it < jai_parseIndex it' \<and> jai_parseIndex it' \<le> length os"
proof (induction os it arbitrary: it' rule: jai_increment.induct)
  case (1 os it)
  obtain it1 where p: "jai_step os it = Inr it1"
    and rest: "(if jai_state it1 \<noteq> readCommaOrArrayEnd \<and> jai_state it1 \<noteq> arrayEnd then jai_increment os it1 else Inr it1) = Inr it'"
    using "1.prems"(1) by (subst (asm) jai_increment.simps) (auto simp: bindR_Inr_iff)
  show ?case
  proof (cases "jai_state it1 \<noteq> readCommaOrArrayEnd \<and> jai_state it1 \<noteq> arrayEnd")
    case True
    with rest have "jai_increment os it1 = Inr it'" by simp
    with "1.IH" [OF p True] "1.prems"(2) jai_step_moves [OF p] True show ?thesis by fastforce
  next
    case False
    with rest have "it1 = it'" by simp
    with p "1.prems"(2) jai_step_moves show ?thesis by blast
  qed
qed

text \<open>
  \<^verbatim>\<open>JsonValueArrayIterator<T>\<close>: after the first step and after every other the member is looked at. \<open>holds\<close> is the test
  of its type; every member passes it for the loop over a \<^verbatim>\<open>JsonArray\<close> itself.
\<close>

definition jva_check :: "(json_value \<Rightarrow> bool) \<Rightarrow> array_iterator \<Rightarrow> array_iterator" where
  "jva_check holds it = (if jai_state it \<noteq> arrayEnd \<and> \<not> holds (jai_value it) then jai_SetError it else it)"

definition jva_begin :: "(json_value \<Rightarrow> bool) \<Rightarrow> byte list \<Rightarrow> bool \<Rightarrow> array_iterator result" where
  "jva_begin holds os error = bindR (jai_begin os error) (\<lambda>it. Inr (jva_check holds it))"

definition jva_increment :: "(json_value \<Rightarrow> bool) \<Rightarrow> byte list \<Rightarrow> array_iterator \<Rightarrow> array_iterator result" where
  "jva_increment holds os it = bindR (jai_increment os it) (\<lambda>it. Inr (jva_check holds it))"

lemma jva_increment_moves:
  "jva_increment holds os it = Inr it' \<Longrightarrow> jai_state it' \<noteq> arrayEnd \<Longrightarrow>
    jai_parseIndex it < jai_parseIndex it' \<and> jai_parseIndex it' \<le> length os"
  by (auto simp: jva_increment_def jva_check_def jai_SetError_def bindR_Inr_iff split: if_splits dest: jai_increment_moves)

function jva_all :: "(json_value \<Rightarrow> bool) \<Rightarrow> byte list \<Rightarrow> array_iterator \<Rightarrow> (json_value list \<times> bool) result" where
  "jva_all holds os it =
     (if jai_state it = arrayEnd then Inr ([], jai_error it)
      else bindR (jva_increment holds os it) (\<lambda>it'. bindR (jva_all holds os it') (\<lambda>(vs, error). Inr (jai_value it # vs, error))))"
  by pat_completeness auto
termination
  by (relation "measure (\<lambda>(holds, os, it). if jai_state it = arrayEnd then 0 else Suc (length os - jai_parseIndex it))")
    (auto dest!: jva_increment_moves)

declare jva_all.simps [simp del]

definition ja_typed :: "(json_value \<Rightarrow> bool) \<Rightarrow> byte list \<Rightarrow> bool \<Rightarrow> (json_value list \<times> bool) result" where
  "ja_typed holds os error = bindR (jva_begin holds os error) (jva_all holds os)"

definition ja_values :: "byte list \<Rightarrow> bool \<Rightarrow> (json_value list \<times> bool) result" where
  "ja_values = ja_typed (\<lambda>_. True)"

definition JsonBooleanArray :: "byte list \<Rightarrow> bool \<Rightarrow> (json_value list \<times> bool) result" where
  "JsonBooleanArray = ja_typed is_VBool"

definition JsonIntegerArray :: "byte list \<Rightarrow> bool \<Rightarrow> (json_value list \<times> bool) result" where
  "JsonIntegerArray = ja_typed is_VInt"

definition JsonStringArray :: "byte list \<Rightarrow> bool \<Rightarrow> (json_value list \<times> bool) result" where
  "JsonStringArray = ja_typed is_VString"

definition JsonObjectArray :: "byte list \<Rightarrow> bool \<Rightarrow> (json_value list \<times> bool) result" where
  "JsonObjectArray = ja_typed is_VObject"

definition JsonArrayArray :: "byte list \<Rightarrow> bool \<Rightarrow> (json_value list \<times> bool) result" where
  "JsonArrayArray = ja_typed is_VArray"

subsection \<open>Texts put together of values\<close>

fun items_lexemes :: "(byte list \<times> byte list \<times> json_item) list \<Rightarrow> lexemes" where
  "items_lexemes [] = []"
| "items_lexemes ((w, iw, v) # vs) = (w, LComma) # item_lexemes iw v @ items_lexemes vs"

fun values_lexemes :: "(byte list \<times> byte list \<times> json_item) list \<Rightarrow> lexemes" where
  "values_lexemes [] = []"
| "values_lexemes ((_, iw, v) # vs) = item_lexemes iw v @ items_lexemes vs"

definition array_lexemes :: "byte list \<Rightarrow> (byte list \<times> byte list \<times> json_item) list \<Rightarrow> byte list \<Rightarrow> lexemes" where
  "array_lexemes w vs w' = (w, LOpenBracket) # values_lexemes vs @ [(w', LCloseBracket)]"

definition items_ok :: "(byte list \<times> byte list \<times> json_item) list \<Rightarrow> bool" where
  "items_ok vs \<longleftrightarrow> list_all (\<lambda>(_, _, v). item_ok v) vs"

lemma items_ok_simps [simp]: "items_ok []" "items_ok ((w, iw, v) # vs) \<longleftrightarrow> item_ok v \<and> items_ok vs"
  by (simp_all add: items_ok_def)

definition array_value :: "byte list \<times> byte list \<times> json_item \<Rightarrow> json_value" where
  "array_value x = item_value (snd (snd x))"

lemma array_value_simps [simp]: "array_value (w, iw, v) = item_value v"
  by (simp add: array_value_def)

lemma jai_increment_step:
  "jai_step os it = Inr it1 \<Longrightarrow> jai_increment os it =
    (if jai_state it1 \<noteq> readCommaOrArrayEnd \<and> jai_state it1 \<noteq> arrayEnd then jai_increment os it1 else Inr it1)"
  by (subst jai_increment.simps) simp

lemma jva_all_end [simp]: "jai_state it = arrayEnd \<Longrightarrow> jva_all holds os it = Inr ([], jai_error it)"
  by (simp add: jva_all.simps)

lemma scalar_not_closing: "is_scalar l \<Longrightarrow> l \<noteq> LCloseBracket"
  by auto

lemma item_not_closing:
  assumes "drop i os = lex_text (item_lexemes w v @ ls) @ post" and "i \<le> length os" and "lexed (item_lexemes w v @ ls) post" and "item_ok v"
  shows "\<not> is_RightBracket (fst (Token os i))"
proof -
  obtain l ls' where l: "item_lexemes w v = (w, l) # ls'" "l \<noteq> LCloseBracket" using assms(4) by (cases v) (auto dest: scalar_not_closing)
  with Token_lexed(1) [of i os w l "ls' @ ls" post] assms show ?thesis by simp
qed

lemma jai_reads_item:
  assumes state: "jai_state it = readNextValue \<or> jai_state it = readValueOrEnd"
    and d: "drop (jai_parseIndex it) os = lex_text (item_lexemes w v @ ls) @ post" "jai_parseIndex it \<le> length os"
    and lexed: "lexed (item_lexemes w v @ ls) post" and ok: "item_ok v"
  shows "jai_increment os it = Inr \<lparr>jai_parseIndex = jai_parseIndex it + length (lex_text (item_lexemes w v)),
    jai_value = item_value v, jai_state = readCommaOrArrayEnd, jai_error = jai_error it\<rparr>"
proof -
  obtain t i where T: "Token os (jai_parseIndex it) = (t, i)" by fastforce
  have C: "ConvertValue os t i = (Some (item_value v), jai_parseIndex it + length (lex_text (item_lexemes w v)))"
    using ConvertValue_item [OF d lexed ok] T by simp
  have "\<not> is_RightBracket t" using item_not_closing [OF d lexed ok] T by simp
  with state T C have "jai_step os it = Inr (it\<lparr>jai_parseIndex := jai_parseIndex it + length (lex_text (item_lexemes w v)),
      jai_value := item_value v, jai_state := readCommaOrArrayEnd\<rparr>)"
    by (cases it) (auto simp: jai_step_def jai_ReadValue_def)
  then show ?thesis by (cases it) (simp add: jai_increment_step)
qed

lemma jva_reads_rest:
  assumes "jai_state it = readCommaOrArrayEnd"
    and d: "drop (jai_parseIndex it) os = lex_text (items_lexemes vs @ [(w, LCloseBracket)]) @ post" "jai_parseIndex it \<le> length os"
    and "lexed (items_lexemes vs @ [(w, LCloseBracket)]) post" and "items_ok vs"
  shows "jva_all holds os it = Inr (jai_value it # takeWhile holds (map array_value vs),
    jai_error it \<or> \<not> list_all holds (map array_value vs))"
  using assms
proof (induction vs arbitrary: it)
  case Nil
  have "Token os (jai_parseIndex it) = (RightBracket (jai_parseIndex it + length w), jai_parseIndex it + length w + 1)"
    using Token_lexed [of "jai_parseIndex it" os w LCloseBracket "[]" post] Nil.prems by simp
  then have "jai_increment os it = Inr (it\<lparr>jai_parseIndex := jai_parseIndex it + length w + 1, jai_state := arrayEnd\<rparr>)"
    using Nil.prems(1) by (subst jai_increment.simps) (simp add: jai_step_def)
  then show ?case using Nil.prems(1) by (simp add: jva_all.simps [of holds os it] jva_increment_def jva_check_def)
next
  case (Cons x vs)
  obtain u iw v where x: "x = (u, iw, v)" by (cases x)
  let ?i = "jai_parseIndex it" and ?ls = "items_lexemes vs @ [(w, LCloseBracket)]"
  let ?j = "?i + length u + 1"
  let ?it1 = "it\<lparr>jai_parseIndex := ?j, jai_state := readNextValue\<rparr>"
  have T: "Token os ?i = (Comma, ?j)" "drop ?j os = lex_text (item_lexemes iw v @ ?ls) @ post" "?j \<le> length os"
    using Token_lexed [of ?i os u LComma "item_lexemes iw v @ ?ls" post] Cons.prems x by simp_all
  have "jai_step os it = Inr ?it1" using T(1) Cons.prems(1) by (simp add: jai_step_def)
  then have inc: "jai_increment os it = jai_increment os ?it1" by (simp add: jai_increment_step)
  define it2 where "it2 = \<lparr>jai_parseIndex = ?j + length (lex_text (item_lexemes iw v)),
    jai_value = item_value v, jai_state = readCommaOrArrayEnd, jai_error = jai_error it\<rparr>"
  have it2: "jai_increment os ?it1 = Inr it2"
    using jai_reads_item [of ?it1 os iw v ?ls post] T(2,3) Cons.prems(4,5) x by (simp add: it2_def)
  have ih: "jva_all holds os it2 = Inr (jai_value it2 # takeWhile holds (map array_value vs),
      jai_error it2 \<or> \<not> list_all holds (map array_value vs))"
  proof (rule Cons.IH)
    show "drop (jai_parseIndex it2) os = lex_text ?ls @ post" "jai_parseIndex it2 \<le> length os"
      using drop_app [of ?j os "lex_text (item_lexemes iw v)" "lex_text ?ls @ post"] T(2,3) by (simp_all add: it2_def)
  qed (use Cons.prems(4,5) x in \<open>simp_all add: it2_def\<close>)
  show ?case
  proof (cases "holds (item_value v)")
    case True
    then have "jva_check holds it2 = it2" by (simp add: jva_check_def it2_def)
    with ih it2 inc Cons.prems(1) x True show ?thesis
      by (subst jva_all.simps) (simp add: jva_increment_def, simp add: it2_def)
  next
    case False
    then have "jva_check holds it2 = jai_SetError it2" by (simp add: jva_check_def it2_def)
    with it2 inc Cons.prems(1) x False show ?thesis
      by (subst jva_all.simps) (simp add: jva_increment_def jai_SetError_def)
  qed
qed

lemma ja_typed_of_text:
  assumes lexed: "lexed (array_lexemes w vs w') post" and ok: "items_ok vs"
  shows "ja_typed holds (lex_text (array_lexemes w vs w') @ post) error =
    Inr (takeWhile holds (map array_value vs), error \<or> \<not> list_all holds (map array_value vs))"
proof -
  let ?os = "lex_text (array_lexemes w vs w') @ post"
  define it0 where "it0 = \<lparr>jai_parseIndex = 0, jai_value = VBool False, jai_state = readArrayStart, jai_error = error\<rparr>"
  define it1 where "it1 = it0\<lparr>jai_parseIndex := length w + 1, jai_state := readValueOrEnd\<rparr>"
  define ls where "ls = values_lexemes vs @ [(w', LCloseBracket)]"
  have ls: "array_lexemes w vs w' = (w, LOpenBracket) # ls" by (simp add: array_lexemes_def ls_def)
  have T: "Token ?os 0 = (LeftBracket (length w), length w + 1)" "drop (length w + 1) ?os = lex_text ls @ post" "length w + 1 \<le> length ?os"
    using Token_lexed [of 0 ?os w LOpenBracket ls post] lexed ls by simp_all
  have "jai_step ?os it0 = Inr it1" using T(1) by (simp add: jai_step_def it0_def it1_def)
  then have start: "jai_begin ?os error = jai_increment ?os it1"
    by (simp add: jai_begin_def it0_def [symmetric] jai_increment_step it1_def)
  show ?thesis
  proof (cases vs)
    case Nil
    then have "Token ?os (length w + 1) = (RightBracket (length w + 1 + length w'), length w + 1 + length w' + 1)"
      using Token_lexed [of "length w + 1" ?os w' LCloseBracket "[]" post] T lexed ls by (auto simp: ls_def)
    then have "jai_increment ?os it1 = Inr (it1\<lparr>jai_parseIndex := length w + 1 + length w' + 1, jai_state := arrayEnd\<rparr>)"
      by (subst jai_increment.simps) (simp add: jai_step_def it1_def it0_def)
    then show ?thesis
      using start Nil by (simp add: ja_typed_def jva_begin_def jva_check_def it1_def it0_def)
  next
    case (Cons x rest)
    obtain u iw v where x: "x = (u, iw, v)" by (cases x)
    let ?ls = "items_lexemes rest @ [(w', LCloseBracket)]"
    have ls': "ls = item_lexemes iw v @ ?ls" using Cons x by (simp add: ls_def)
    define it2 where "it2 = \<lparr>jai_parseIndex = length w + 1 + length (lex_text (item_lexemes iw v)),
      jai_value = item_value v, jai_state = readCommaOrArrayEnd, jai_error = error\<rparr>"
    have it2: "jai_increment ?os it1 = Inr it2"
      using jai_reads_item [of it1 ?os iw v ?ls post] T(2,3) lexed ok Cons x ls ls' by (simp add: it2_def it1_def it0_def)
    have all: "jva_all holds ?os it2 = Inr (jai_value it2 # takeWhile holds (map array_value rest),
        jai_error it2 \<or> \<not> list_all holds (map array_value rest))"
    proof (rule jva_reads_rest)
      show "drop (jai_parseIndex it2) ?os = lex_text ?ls @ post" "jai_parseIndex it2 \<le> length ?os"
        using drop_app [of "length w + 1" ?os "lex_text (item_lexemes iw v)" "lex_text ?ls @ post"] T(2,3) ls' by (simp_all add: it2_def)
    qed (use lexed ok Cons x ls ls' in \<open>simp_all add: it2_def\<close>)
    show ?thesis
    proof (cases "holds (item_value v)")
      case True
      then have "jva_check holds it2 = it2" by (simp add: jva_check_def it2_def)
      with start it2 all Cons x True show ?thesis by (simp add: ja_typed_def jva_begin_def, simp add: it2_def)
    next
      case False
      then have "jva_check holds it2 = jai_SetError it2" by (simp add: jva_check_def it2_def)
      with start it2 Cons x False show ?thesis by (simp add: ja_typed_def jva_begin_def jai_SetError_def)
    qed
  qed
qed

end
