(* ===== verification/Json_Documents.thy ===== *)
theory Json_Documents
  imports Json_Arrays
begin

section \<open>JSON documents and numbers\<close>

text \<open>
  Objects and arrays in each other, to any depth: each level is what the iterators of \<open>Json_Objects\<close> and \<open>Json_Arrays\<close> read, the
  levels below are the texts of its members. Then the numbers: what a text of digits is read as, and what \<^verbatim>\<open>GetIntegerAs\<close> makes
  of it. Last what a document means, whatever the code computes, and that the iterators give values that mean it.
\<close>

subsection \<open>Documents\<close>

text \<open>
  The white space is that of the members of \<open>Json_Objects\<close> and \<open>Json_Arrays\<close>. Scalars are strings, integers, fractions, booleans and null; numbers
  with an exponent, which JSON has and the tokenizer has not, are no documents here.
\<close>

datatype json_doc = DScalar lexeme | DObject doc_members "byte list" | DArray doc_items "byte list"
and doc_members = NoMembers | DMember "byte list" "byte list" "byte list" "byte list" "byte list" json_doc doc_members
and doc_items = NoItems | DItem "byte list" "byte list" json_doc doc_items

primrec doc_item :: "json_doc \<Rightarrow> json_item"
  and doc_member_list :: "doc_members \<Rightarrow> (byte list \<times> json_member) list"
  and doc_item_list :: "doc_items \<Rightarrow> (byte list \<times> byte list \<times> json_item) list" where
  "doc_item (DScalar l) = Scalar l"
| "doc_item (DObject ms w) = Braces (members_lexemes (doc_member_list ms)) w"
| "doc_item (DArray vs w) = Brackets (values_lexemes (doc_item_list vs)) w"
| "doc_member_list NoMembers = []"
| "doc_member_list (DMember w wk k wc wv d ms) = (w, Member wk k wc wv (doc_item d)) # doc_member_list ms"
| "doc_item_list NoItems = []"
| "doc_item_list (DItem w iw d vs) = (w, iw, doc_item d) # doc_item_list vs"

primrec doc_ok :: "json_doc \<Rightarrow> bool" and doc_members_ok :: "doc_members \<Rightarrow> bool" and doc_items_ok :: "doc_items \<Rightarrow> bool" where
  "doc_ok (DScalar l) \<longleftrightarrow> is_scalar l"
| "doc_ok (DObject ms w) \<longleftrightarrow> doc_members_ok ms"
| "doc_ok (DArray vs w) \<longleftrightarrow> doc_items_ok vs"
| "doc_members_ok NoMembers \<longleftrightarrow> True"
| "doc_members_ok (DMember w wk k wc wv d ms) \<longleftrightarrow> doc_ok d \<and> doc_members_ok ms"
| "doc_items_ok NoItems \<longleftrightarrow> True"
| "doc_items_ok (DItem w iw d vs) \<longleftrightarrow> doc_ok d \<and> doc_items_ok vs"

definition doc_text :: "byte list \<Rightarrow> json_doc \<Rightarrow> byte list" where
  "doc_text w d = lex_text (item_lexemes w (doc_item d))"

text \<open>The parts of a document are balanced, in braces and in brackets.\<close>

definition neutral :: "lexemes \<Rightarrow> bool" where
  "neutral ls \<longleftrightarrow> (\<forall>n rest. balanced LOpenBrace LCloseBrace n (map snd ls @ rest) = balanced LOpenBrace LCloseBrace n rest)
    \<and> (\<forall>n rest. balanced LOpenBracket LCloseBracket n (map snd ls @ rest) = balanced LOpenBracket LCloseBracket n rest)"

lemma neutral_Nil: "neutral []"
  by (simp add: neutral_def)

lemma neutral_append: "neutral ls \<Longrightarrow> neutral ms \<Longrightarrow> neutral (ls @ ms)"
  by (simp add: neutral_def)

lemma neutral_Cons: "l \<noteq> LOpenBrace \<Longrightarrow> l \<noteq> LCloseBrace \<Longrightarrow> l \<noteq> LOpenBracket \<Longrightarrow> l \<noteq> LCloseBracket \<Longrightarrow> neutral ls \<Longrightarrow> neutral ((w, l) # ls)"
  by (simp add: neutral_def)

lemma neutral_braces: "neutral ls \<Longrightarrow> neutral ((w, LOpenBrace) # ls @ [(w', LCloseBrace)])"
  by (simp add: neutral_def)

lemma neutral_brackets: "neutral ls \<Longrightarrow> neutral ((w, LOpenBracket) # ls @ [(w', LCloseBracket)])"
  by (simp add: neutral_def)

lemma neutral_scalar: "is_scalar l \<Longrightarrow> neutral [(w, l)]"
  by (cases l) (simp_all add: neutral_def)

lemma neutral_doc:
  shows "doc_ok d \<Longrightarrow> neutral (item_lexemes w (doc_item d))"
    and "doc_members_ok ms \<Longrightarrow> neutral (members_lexemes (doc_member_list ms)) \<and> neutral (rest_lexemes (doc_member_list ms))"
    and "doc_items_ok vs \<Longrightarrow> neutral (values_lexemes (doc_item_list vs)) \<and> neutral (items_lexemes (doc_item_list vs))"
proof (induction d and ms and vs arbitrary: w and and)
  case (DScalar l)
  then show ?case by (simp add: neutral_scalar)
next
  case (DObject ms w)
  then show ?case by (simp add: neutral_braces)
next
  case (DArray vs w)
  then show ?case by (simp add: neutral_brackets)
next
  case (DMember w wk k wc wv d ms)
  have "neutral (member_lexemes (Member wk k wc wv (doc_item d)))"
    using DMember by (simp add: member_lexemes_def neutral_Cons)
  with DMember show ?case by (simp add: neutral_append neutral_Cons)
next
  case (DItem w iw d vs)
  then show ?case by (simp add: neutral_append neutral_Cons)
qed (simp_all add: neutral_Nil)

lemma lex_text_length: "lexed ls post \<Longrightarrow> length ls \<le> length (lex_text ls)"
proof (induction ls)
  case (Cons x ls)
  obtain w l where x: "x = (w, l)" by (cases x)
  with Cons.prems have "0 < length (lex_bytes l)" by (cases l) auto
  moreover have "length ls \<le> length (lex_text ls)" using Cons x by simp
  ultimately show ?case by (simp add: x del: length_greater_0_conv)
qed simp

text \<open>So every document whose text has fewer than \<open>2 ^ 32\<close> bytes can be a member of an object or an array.\<close>

lemma doc_item_ok:
  assumes "doc_ok d" and "lexed (item_lexemes w (doc_item d)) post" and "length (doc_text w d) < 2 ^ 32"
  shows "item_ok (doc_item d)"
proof -
  have len: "length (item_lexemes w (doc_item d)) < 2 ^ 32"
    using lex_text_length [OF assms(2)] assms(3) by (simp add: doc_text_def)
  have bal: "balanced LOpenBrace LCloseBrace 0 (map snd ls)" "balanced LOpenBracket LCloseBracket 0 (map snd ls)" if "neutral ls" for ls
    using that unfolding neutral_def by (metis append_Nil2 balanced.simps(1))+
  show ?thesis
    using assms(1) len bal neutral_doc(2,3) by (cases d) simp_all
qed

lemma doc_members_ok_items:
  "doc_members_ok ms \<Longrightarrow> lexed (rest_lexemes (doc_member_list ms)) post \<Longrightarrow>
    length (lex_text (rest_lexemes (doc_member_list ms))) < 2 ^ 32 \<Longrightarrow> members_ok (doc_member_list ms)"
proof (induction ms arbitrary: post rule: doc_members.induct [of "\<lambda>_. True" _ "\<lambda>_. True"])
  case (DMember w wk k wc wv d ms)
  then show ?case using doc_item_ok [of d wv] by (auto simp: member_lexemes_def doc_text_def)
qed simp_all

lemma doc_items_ok_items:
  "doc_items_ok vs \<Longrightarrow> lexed (items_lexemes (doc_item_list vs)) post \<Longrightarrow>
    length (lex_text (items_lexemes (doc_item_list vs))) < 2 ^ 32 \<Longrightarrow> items_ok (doc_item_list vs)"
proof (induction vs arbitrary: post rule: doc_items.induct [of "\<lambda>_. True" "\<lambda>_. True"])
  case (DItem w iw d vs)
  then show ?case using doc_item_ok [of d iw] by (auto simp: doc_text_def)
qed simp_all

text \<open>What the members of a document are, as the iterators should give them.\<close>

definition doc_value :: "json_doc \<Rightarrow> json_value" where
  "doc_value d = (case d of DScalar l \<Rightarrow> scalar_value l | DObject _ _ \<Rightarrow> VObject (doc_text [] d) | DArray _ _ \<Rightarrow> VArray (doc_text [] d))"

primrec doc_member_values :: "doc_members \<Rightarrow> (byte list \<times> json_value) list" where
  "doc_member_values NoMembers = []"
| "doc_member_values (DMember _ _ k _ _ d ms) = (k, doc_value d) # doc_member_values ms"

primrec doc_item_values :: "doc_items \<Rightarrow> json_value list" where
  "doc_item_values NoItems = []"
| "doc_item_values (DItem _ _ d vs) = doc_value d # doc_item_values vs"

lemma doc_value_item: "doc_value d = item_value (doc_item d)"
  by (cases d) (simp_all add: doc_value_def doc_text_def)

lemma doc_member_values_list: "map (member_result \<circ> snd) (doc_member_list ms) = doc_member_values ms"
  by (induction ms rule: doc_members.induct [of "\<lambda>_. True" _ "\<lambda>_. True"]) (simp_all add: member_result_def doc_value_item)

lemma doc_item_values_list: "map array_value (doc_item_list vs) = doc_item_values vs"
  by (induction vs rule: doc_items.induct [of "\<lambda>_. True" "\<lambda>_. True"]) (simp_all add: doc_value_item)

text \<open>A document as it may be written: white space, and strings and numbers that are complete.\<close>

definition doc_written :: "byte list \<Rightarrow> json_doc \<Rightarrow> byte list \<Rightarrow> bool" where
  "doc_written w d post \<longleftrightarrow> doc_ok d \<and> lexed (item_lexemes w (doc_item d)) post \<and> length (doc_text w d) < 2 ^ 32"

lemma doc_object_members:
  assumes "doc_written w (DObject ms w') post"
  shows "lexed (object_lexemes w (doc_member_list ms) w') post" "members_ok (doc_member_list ms)"
    "doc_text w (DObject ms w') = lex_text (object_lexemes w (doc_member_list ms) w')"
proof -
  show "lexed (object_lexemes w (doc_member_list ms) w') post"
    "doc_text w (DObject ms w') = lex_text (object_lexemes w (doc_member_list ms) w')"
    using assms by (simp_all add: doc_written_def object_lexemes_def doc_text_def)
  show "members_ok (doc_member_list ms)"
  proof (cases ms)
    case (DMember u wk k wc wv d rest)
    with assms doc_item_ok [of d wv] doc_members_ok_items [of rest] show ?thesis
      by (auto simp: doc_written_def doc_text_def member_lexemes_def)
  qed simp
qed

lemma doc_array_items:
  assumes "doc_written w (DArray vs w') post"
  shows "lexed (array_lexemes w (doc_item_list vs) w') post" "items_ok (doc_item_list vs)"
    "doc_text w (DArray vs w') = lex_text (array_lexemes w (doc_item_list vs) w')"
proof -
  show "lexed (array_lexemes w (doc_item_list vs) w') post"
    "doc_text w (DArray vs w') = lex_text (array_lexemes w (doc_item_list vs) w')"
    using assms by (simp_all add: doc_written_def array_lexemes_def doc_text_def)
  show "items_ok (doc_item_list vs)"
  proof (cases vs)
    case (DItem u iw d rest)
    with assms doc_item_ok [of d iw] doc_items_ok_items [of rest] show ?thesis
      by (auto simp: doc_written_def doc_text_def)
  qed simp
qed


subsection \<open>Numbers\<close>

definition digits_value :: "byte list \<Rightarrow> nat" where
  "digits_value ds = foldl (\<lambda>v c. v * 10 + (unat c - 48)) 0 ds"

lemma digit_word:
  fixes c :: byte
  assumes "isdigit c"
  shows "(ucast c :: 'a :: len word) - 48 = of_nat (unat c - 48)"
proof -
  have "48 \<le> unat c" using assms by (simp add: isdigit_def word_le_nat_alt)
  then have "(of_nat (unat c - 48) :: 'a word) = of_nat (unat c) - 48" by (simp add: of_nat_diff)
  then show ?thesis by simp
qed

lemma digits_fold:
  assumes "list_all isdigit ds"
  shows "foldl (\<lambda>v c. v * 10 + ucast c - 48) (of_nat n :: 'a :: len word) ds = of_nat (foldl (\<lambda>v c. v * 10 + (unat c - 48)) n ds)"
  using assms
proof (induction ds arbitrary: n)
  case (Cons c ds)
  have eq: "(of_nat n :: 'a word) * 10 + ucast c - 48 = of_nat (n * 10 + (unat c - 48))"
    using digit_word [of c, where 'a = 'a] Cons.prems by (simp add: add_diff_eq [symmetric])
  have "foldl (\<lambda>v c. v * 10 + ucast c - 48) (of_nat (n * 10 + (unat c - 48)) :: 'a word) ds
      = of_nat (foldl (\<lambda>v c. v * 10 + (unat c - 48)) (n * 10 + (unat c - 48)) ds)"
    by (rule Cons.IH) (use Cons.prems in simp)
  then show ?case by (simp only: foldl_Cons eq)
qed simp

text \<open>A number of more digits than the type has wraps around, silently.\<close>

lemma ToInt64_digits: "list_all isdigit ds \<Longrightarrow> ToInt64 ds False = of_nat (digits_value ds)"
  using digits_fold [of ds 0, where 'a = 64] by (simp add: ToInt64_def digits_value_def)

lemma ToInt32_digits: "list_all isdigit ds \<Longrightarrow> ToInt32 ds False = of_nat (digits_value ds)"
  using digits_fold [of ds 0, where 'a = 32] by (simp add: ToInt32_def digits_value_def)

lemma times_ten: "((\<lambda>v. v * 10) ^^ k) (v :: 32 word) = v * 10 ^ k"
  by (induction k) (simp_all add: mult.assoc mult.commute)

lemma digits_value_append: "digits_value (ds @ [c]) = digits_value ds * 10 + (unat c - 48)"
  by (simp add: digits_value_def)

lemma digits_value_less: "list_all isdigit ds \<Longrightarrow> digits_value ds < 10 ^ length ds"
proof (induction ds rule: rev_induct)
  case Nil
  then show ?case by (simp add: digits_value_def)
next
  case (snoc c ds)
  have "unat c - 48 \<le> 9" using snoc.prems by (auto simp: isdigit_def word_le_nat_alt)
  moreover have "digits_value ds + 1 \<le> 10 ^ length ds" using snoc by simp
  ultimately show ?case by (simp add: digits_value_append)
qed

definition signed_value :: "bool \<Rightarrow> byte list \<Rightarrow> int" where
  "signed_value negative ds = (if negative then - int (digits_value ds) else int (digits_value ds))"

text \<open>
  \<^verbatim>\<open>ConvertValueTo\<close> is exact for every number of 64 bits and every type of integers, apart from the one negative number whose
  negation does not fit into \<^verbatim>\<open>int64_t\<close>.
\<close>

lemma ConvertValueTo_exact:
  assumes n: "n < 2 ^ 64" "negative \<Longrightarrow> 0 < n" "negative \<Longrightarrow> n \<noteq> 2 ^ 63 + 1" and lo: "- (2 ^ 63) \<le> lo" "lo \<le> 0"
  defines "i \<equiv> if negative then - int n else int n"
  shows "jo_ConvertValueTo lo hi (of_nat n) negative error = Inr (if lo \<le> i \<and> i \<le> hi then (i, error) else (0, True))"
proof (cases negative)
  case False
  have "uint (of_nat n :: 64 word) = int n" using n(1) by (simp add: uint_nat unat_of_nat)
  with False lo show ?thesis by (simp add: jo_ConvertValueTo_def i_def)
next
  case True
  have v: "sint (of_nat n - 1 :: 64 word) = signed_take_bit 63 (int n - 1)"
    using sint_sbintrunc' [of "int n - 1", where 'a = 64] by simp
  have s: "sint (of_nat n - 1 :: 64 word) = (if n \<le> 2 ^ 63 then int n - 1 else int n - 1 - 2 ^ 64)"
  proof (cases "n \<le> 2 ^ 63")
    case le: True
    have "signed_take_bit 63 (int n - 1) = int n - 1"
      using le n(2) [OF True] by (intro signed_take_bit_int_eq_self) simp_all
    with le show ?thesis unfolding v by simp
  next
    case gt: False
    have "signed_take_bit 63 (int n - 1) = signed_take_bit 63 (int n - 1 - 2 ^ 64)"
      by (rule signed_take_bit_eq_iff_take_bit_eq [THEN iffD2]) (simp add: take_bit_eq_mod mod_eq_dvd_iff)
    also have "\<dots> = int n - 1 - 2 ^ 64"
      using gt n(1) by (intro signed_take_bit_int_eq_self) simp_all
    finally show ?thesis using gt unfolding v by simp
  qed
  show ?thesis
  proof (cases "n \<le> 2 ^ 63")
    case le: True
    with s True n(2) lo show ?thesis by (simp add: jo_ConvertValueTo_def i_def Let_def)
  next
    case gt: False
    then have "sint (of_nat n - 1 :: 64 word) \<noteq> - (2 ^ 63)" using s n(3) True by simp
    with gt s True n(1) lo show ?thesis by (simp add: jo_ConvertValueTo_def i_def Let_def)
  qed
qed


lemma jo_find_of_doc:
  assumes "doc_written w (DObject ms w') post"
  shows "jo_find (doc_text w (DObject ms w') @ post) error key holds =
    Inr (map_option snd (find (\<lambda>(k, v). key_is key k \<and> holds v) (doc_member_values ms)), error)"
  using jo_find_of_text [OF doc_object_members(1,2) [OF assms]]
  by (simp add: doc_object_members(3) [OF assms] doc_member_values_list)

lemma ReadInteger_cases:
  assumes n: "n < 2 ^ 64" and i: "i = (if negative then - int n else int n)"
  shows "ReadInteger (of_nat n) negative = (if - (2 ^ 31) \<le> i \<and> i < 2 ^ 31 then VInt (word_of_int i) else VBigger (of_nat n) negative)"
proof -
  have "unat (of_nat n :: 64 word) = n" using n by (simp add: unat_of_nat)
  then have le: "(of_nat n :: 64 word) \<le> 2147483647 \<longleftrightarrow> n \<le> 2147483647" "(of_nat n :: 64 word) \<le> 2147483648 \<longleftrightarrow> n \<le> 2147483648"
    by (simp_all add: word_le_nat_alt)
  have "(of_nat n * (if negative then - 1 else 1) :: 64 word) = word_of_int i" by (simp add: i)
  moreover have "(ucast (word_of_int i :: 64 word) :: 32 word) = word_of_int i"
    by (simp add: ucast_eq word_of_int_eq_iff uint_word_of_int_eq)
  ultimately have "(ucast (of_nat n * (if negative then - 1 else 1) :: 64 word) :: 32 word) = word_of_int i" by (simp only:)
  then show ?thesis using le by (auto simp: ReadInteger_def i)
qed


lemma GetIntegerAs_number:
  assumes get: "jo_GetValue os error key = Inr (scalar_value (LInt negative ds), error)"
    and ds: "list_all isdigit ds" "digits_value ds < 2 ^ 64" "signed_value negative ds \<noteq> - (2 ^ 63) - 1"
    and lo: "- (2 ^ 63) \<le> lo" "lo \<le> 0" "0 \<le> hi"
  shows "jo_GetIntegerAs lo hi os error key = Inr (if lo \<le> signed_value negative ds \<and> signed_value negative ds \<le> hi
    then (signed_value negative ds, error) else (0, True))"
proof -
  let ?n = "digits_value ds" and ?i = "signed_value negative ds"
  have v: "scalar_value (LInt negative ds) = (if - (2 ^ 31) \<le> ?i \<and> ?i < 2 ^ 31 then VInt (word_of_int ?i) else VBigger (of_nat ?n) negative)"
    using ReadInteger_cases [OF ds(2), of ?i negative] by (simp add: ToInt64_digits ds(1) signed_value_def)
  show ?thesis
  proof (cases "- (2 ^ 31) \<le> ?i \<and> ?i < 2 ^ 31")
    case True
    then have s: "sint (word_of_int ?i :: 32 word) = ?i" by (simp add: sint_sbintrunc' signed_take_bit_int_eq_self)
    let ?m = "nat \<bar>?i\<bar>"
    have "jo_GetIntegerAs lo hi os error key = jo_ConvertValueTo lo hi (word_of_int \<bar>?i\<bar>) (?i < 0) error"
      using True v get by (simp add: jo_GetIntegerAs_def s)
    moreover have "(word_of_int \<bar>?i\<bar> :: 64 word) = of_nat ?m" by simp
    moreover have "(if ?i < 0 then - int ?m else int ?m) = ?i" by simp
    moreover have "jo_ConvertValueTo lo hi (of_nat ?m) (?i < 0) error =
        Inr (if lo \<le> (if ?i < 0 then - int ?m else int ?m) \<and> (if ?i < 0 then - int ?m else int ?m) \<le> hi
             then (if ?i < 0 then - int ?m else int ?m, error) else (0, True))"
    proof (rule ConvertValueTo_exact [OF _ _ _ lo(1,2)])
      have "\<bar>?i\<bar> \<le> 2147483648" using True by (simp add: abs_le_iff)
      then have "?m \<le> 2147483648" by (simp add: nat_le_iff)
      then show "?m < 2 ^ 64" "?m \<noteq> 2 ^ 63 + 1" by simp_all
    qed simp
    ultimately show ?thesis by (simp only:)
  next
    case False
    have "scalar_value (LInt negative ds) = VBigger (of_nat ?n) negative" unfolding v by (rule if_not_P [OF False])
    with get have "jo_GetIntegerAs lo hi os error key = jo_ConvertValueTo lo hi (of_nat ?n) negative error"
      by (simp add: jo_GetIntegerAs_def)
    also have "\<dots> = Inr (if lo \<le> ?i \<and> ?i \<le> hi then (?i, error) else (0, True))"
      unfolding signed_value_def
    proof (rule ConvertValueTo_exact [OF ds(2) _ _ lo(1,2)])
      show "negative \<Longrightarrow> 0 < ?n" using False by (cases ?n) (auto simp: signed_value_def)
      show "negative \<Longrightarrow> ?n \<noteq> 2 ^ 63 + 1" using ds(3) by (auto simp: signed_value_def)
    qed
    finally show ?thesis .
  qed
qed

subsection \<open>What a document means\<close>

text \<open>
  The meaning of a number is the number that its digits stand for in the decimal system. Integers are kept in 64 bits, so \<open>2 ^ 64\<close> and more
  wraps around; what fits into an \<^verbatim>\<open>int32_t\<close> comes as one. Of a fraction nine digits are kept, as nanos. There is no value for
  null: it comes as an empty object.
\<close>

definition number_means :: "bool \<Rightarrow> byte list \<Rightarrow> json_value \<Rightarrow> bool" where
  "number_means negative ds x \<longleftrightarrow>
     (let n = digits_value ds mod 2 ^ 64; i = if negative then - int n else int n
      in case x of
           VInt w \<Rightarrow> sint w = i
         | VBigger u sign \<Rightarrow> sign = negative \<and> unat u = n \<and> \<not> (- (2 ^ 31) \<le> i \<and> i < 2 ^ 31)
         | _ \<Rightarrow> False)"

definition fraction_means :: "bool \<Rightarrow> byte list \<Rightarrow> byte list \<Rightarrow> json_value \<Rightarrow> bool" where
  "fraction_means negative ds fs x \<longleftrightarrow>
     (case x of
        VFloat u nano sign \<Rightarrow> sign = negative \<and> unat u = digits_value ds mod 2 ^ 64
          \<and> unat nano = digits_value (take 9 fs) * 10 ^ (9 - length (take 9 fs))
      | _ \<Rightarrow> False)"

fun scalar_means :: "lexeme \<Rightarrow> json_value \<Rightarrow> bool" where
  "scalar_means (LString s) x \<longleftrightarrow> x = VString s"
| "scalar_means (LInt negative ds) x \<longleftrightarrow> number_means negative ds x"
| "scalar_means (LFloat negative ds fs) x \<longleftrightarrow> fraction_means negative ds fs x"
| "scalar_means LTrue x \<longleftrightarrow> x = VBool True"
| "scalar_means LFalse x \<longleftrightarrow> x = VBool False"
| "scalar_means LNull x \<longleftrightarrow> x = VObject []"
| "scalar_means _ x \<longleftrightarrow> False"

text \<open>
  A member that is an object or an array is its text, and iterating over that text gives, without an error, what its own members mean.
\<close>

primrec doc_means :: "json_doc \<Rightarrow> json_value \<Rightarrow> bool"
  and members_mean :: "doc_members \<Rightarrow> (byte list \<times> json_value) list \<Rightarrow> bool"
  and items_mean :: "doc_items \<Rightarrow> json_value list \<Rightarrow> bool" where
  "doc_means (DScalar l) x \<longleftrightarrow> scalar_means l x"
| "doc_means (DObject ms w) x \<longleftrightarrow> x = VObject (doc_text [] (DObject ms w))
     \<and> (case jo_members (doc_text [] (DObject ms w)) False of Inr (kvs, error) \<Rightarrow> \<not> error \<and> members_mean ms kvs | Inl _ \<Rightarrow> False)"
| "doc_means (DArray vs w) x \<longleftrightarrow> x = VArray (doc_text [] (DArray vs w))
     \<and> (case ja_values (doc_text [] (DArray vs w)) False of Inr (xs, error) \<Rightarrow> \<not> error \<and> items_mean vs xs | Inl _ \<Rightarrow> False)"
| "members_mean NoMembers kvs \<longleftrightarrow> kvs = []"
| "members_mean (DMember _ _ k _ _ d ms) kvs \<longleftrightarrow>
     (case kvs of [] \<Rightarrow> False | (k', x) # rest \<Rightarrow> k' = k \<and> doc_means d x \<and> members_mean ms rest)"
| "items_mean NoItems xs \<longleftrightarrow> xs = []"
| "items_mean (DItem _ _ d vs) xs \<longleftrightarrow> (case xs of [] \<Rightarrow> False | x # rest \<Rightarrow> doc_means d x \<and> items_mean vs rest)"

lemma number_means_value:
  assumes "list_all isdigit ds"
  shows "number_means negative ds (ReadInteger (ToInt64 ds False) negative)"
proof -
  define n where "n = digits_value ds mod 2 ^ 64"
  define i where "i = (if negative then - int n else int n)"
  have n: "n < 2 ^ 64" by (simp add: n_def)
  have "ToInt64 ds False = of_nat n"
    unfolding ToInt64_digits [OF assms] n_def by (simp add: word_of_nat_eq_iff take_bit_eq_mod)
  then have "ReadInteger (ToInt64 ds False) negative =
      (if - (2 ^ 31) \<le> i \<and> i < 2 ^ 31 then VInt (word_of_int i) else VBigger (of_nat n) negative)"
    using ReadInteger_cases [OF n i_def] by simp
  moreover have "sint (word_of_int i :: 32 word) = i" if "- (2 ^ 31) \<le> i" "i < 2 ^ 31"
    using that by (simp add: sint_sbintrunc' signed_take_bit_int_eq_self)
  moreover have "unat (of_nat n :: 64 word) = n" using n by (simp add: unat_of_nat)
  ultimately show ?thesis
    unfolding number_means_def n_def [symmetric] Let_def i_def [symmetric] by simp
qed

lemma fraction_means_value:
  assumes "list_all isdigit ds" and "list_all isdigit fs"
  shows "fraction_means negative ds fs (VFloat (ToInt64 ds False) (pad_fraction (take nanoValueWidth fs)) negative)"
proof -
  let ?fs = "take 9 fs"
  have fs: "list_all isdigit ?fs" using assms(2) by (auto simp: list_all_iff dest: in_set_takeD)
  have "digits_value ?fs * 10 ^ (9 - length ?fs) < 10 ^ length ?fs * 10 ^ (9 - length ?fs)"
    using digits_value_less [OF fs] by simp
  also have "\<dots> = 10 ^ 9" by (simp add: power_add [symmetric] min_def)
  finally have less: "digits_value ?fs * 10 ^ (9 - length ?fs) < 2 ^ 32" by simp
  have "pad_fraction ?fs = of_nat (digits_value ?fs * 10 ^ (9 - length ?fs))"
    by (simp add: pad_fraction_def nanoValueWidth_def ToInt32_digits [OF fs] times_ten)
  then have "unat (pad_fraction ?fs) = digits_value ?fs * 10 ^ (9 - length ?fs)"
    using less by (simp only: unat_of_nat) simp
  then show ?thesis
    by (simp add: fraction_means_def ToInt64_digits assms(1) nanoValueWidth_def unat_of_nat)
qed

lemma scalar_means_value: "is_scalar l \<Longrightarrow> lex_valid l \<Longrightarrow> scalar_means l (scalar_value l)"
  by (cases l) (simp_all add: number_means_value fraction_means_value)

text \<open>The parts of a document are documents that are written: what follows a part only matters by its first character.\<close>

lemma lexed_post: "(post = [] \<longleftrightarrow> post' = []) \<Longrightarrow> hd post = hd post' \<Longrightarrow> lexed ls post = lexed ls post'"
proof (induction ls)
  case (Cons x ls)
  obtain w l where x: "x = (w, l)" by (cases x)
  have "lex_ends l (lex_text ls @ post) = lex_ends l (lex_text ls @ post')"
    using Cons.prems by (cases "lex_text ls"; cases l) auto
  with Cons x show ?case by simp
qed simp

lemma doc_written_alone:
  assumes "doc_written w d post" and "\<And>l. d \<noteq> DScalar l"
  shows "doc_written [] d []"
proof -
  have closed: "lexed ls (u @ c # post) = lexed ls (u @ [c])" for ls u c
    by (rule lexed_post) (cases u; simp)+
  show ?thesis
  proof (cases d)
    case (DObject ms u)
    with assms(1) closed [of _ u 125] show ?thesis by (auto simp: doc_written_def doc_text_def)
  next
    case (DArray vs u)
    with assms(1) closed [of _ u 93] show ?thesis by (auto simp: doc_written_def doc_text_def)
  next
    case (DScalar l)
    with assms(2) show ?thesis by blast
  qed
qed

primrec members_written :: "doc_members \<Rightarrow> bool" where
  "members_written NoMembers \<longleftrightarrow> True"
| "members_written (DMember _ _ _ _ wv d ms) \<longleftrightarrow> (\<exists>post. doc_written wv d post) \<and> members_written ms"

primrec items_written :: "doc_items \<Rightarrow> bool" where
  "items_written NoItems \<longleftrightarrow> True"
| "items_written (DItem _ iw d vs) \<longleftrightarrow> (\<exists>post. doc_written iw d post) \<and> items_written vs"

lemma rest_members_written:
  "doc_members_ok ms \<Longrightarrow> lexed (rest_lexemes (doc_member_list ms)) post \<Longrightarrow>
    length (lex_text (rest_lexemes (doc_member_list ms))) < 2 ^ 32 \<Longrightarrow> members_written ms"
proof (induction ms arbitrary: post rule: doc_members.induct [of "\<lambda>_. True" _ "\<lambda>_. True"])
  case (DMember w wk k wc wv d ms)
  then show ?case by (auto simp: member_lexemes_def doc_text_def doc_written_def)
qed simp_all

lemma rest_items_written:
  "doc_items_ok vs \<Longrightarrow> lexed (items_lexemes (doc_item_list vs)) post \<Longrightarrow>
    length (lex_text (items_lexemes (doc_item_list vs))) < 2 ^ 32 \<Longrightarrow> items_written vs"
proof (induction vs arbitrary: post rule: doc_items.induct [of "\<lambda>_. True" "\<lambda>_. True"])
  case (DItem w iw d vs)
  then show ?case by (auto simp: doc_text_def doc_written_def)
qed simp_all

lemma members_are_written: "doc_written w (DObject ms w') post \<Longrightarrow> members_written ms"
  using rest_members_written by (cases ms) (auto simp: doc_written_def doc_text_def member_lexemes_def)

lemma items_are_written: "doc_written w (DArray vs w') post \<Longrightarrow> items_written vs"
  using rest_items_written by (cases vs) (auto simp: doc_written_def doc_text_def)

text \<open>One level, and then all of them.\<close>

lemma object_level:
  assumes "doc_written w (DObject ms w') post"
  shows "jo_members (doc_text w (DObject ms w') @ post) error = Inr (doc_member_values ms, error)"
  using jo_members_of_text [OF doc_object_members(1,2) [OF assms]] doc_object_members(3) [OF assms]
  by (simp add: doc_member_values_list)

lemma array_level:
  assumes "doc_written w (DArray vs w') post"
  shows "ja_typed holds (doc_text w (DArray vs w') @ post) error =
    Inr (takeWhile holds (doc_item_values vs), error \<or> takeWhile holds (doc_item_values vs) \<noteq> doc_item_values vs)"
proof -
  have "takeWhile holds xs \<noteq> xs \<longleftrightarrow> \<not> list_all holds xs" for xs
    by (simp add: takeWhile_eq_all_conv list_all_iff)
  then show ?thesis
    using ja_typed_of_text [OF doc_array_items(1,2) [OF assms], of holds error] doc_array_items(3) [OF assms]
    by (simp add: doc_item_values_list)
qed

lemma document_means:
  shows "doc_written w d post \<Longrightarrow> doc_means d (doc_value d)"
    and "members_written ms \<Longrightarrow> members_mean ms (doc_member_values ms)"
    and "items_written vs \<Longrightarrow> items_mean vs (doc_item_values vs)"
proof (induction d and ms and vs arbitrary: w post and and)
  case (DScalar l)
  then show ?case by (simp add: doc_written_def doc_value_def scalar_means_value)
next
  case (DObject ms w')
  have "doc_written [] (DObject ms w') []" using doc_written_alone [OF DObject.prems] by simp
  from object_level [OF this, of False] DObject.IH [OF members_are_written [OF DObject.prems]] show ?case
    by (simp add: doc_value_def)
next
  case (DArray vs w')
  have "doc_written [] (DArray vs w') []" using doc_written_alone [OF DArray.prems] by simp
  note level = array_level [OF this, of "\<lambda>_. True" False]
  have all: "takeWhile (\<lambda>_. True) xs = xs" for xs :: "json_value list" by (induction xs) simp_all
  show ?case
    using level DArray.IH [OF items_are_written [OF DArray.prems]] by (simp add: doc_value_def ja_values_def all)
qed auto

text \<open>
  An exponent is not read: the number in front of it is the value of the member, and the letter is an error, after which there are no members.
\<close>

lemma exponent_is_not_read:
  assumes k: "js_body k" and ds: "list_all isdigit ds" "negative \<or> ds \<noteq> []" and e: "e = 101 \<or> e = 69"
  shows "jo_members ([123, 34] @ k @ [34, 58] @ (if negative then [45] else []) @ ds @ e # rest) error
    = Inr ([(k, ReadInteger (ToInt64 ds False) negative)], True)"
proof -
  define m where "m = Member [] k [] [] (Scalar (LInt negative ds))"
  define os where "os = lex_text (([], LOpenBrace) # member_lexemes m) @ e # rest"
  have lexed: "lexed (([], LOpenBrace) # member_lexemes m) (e # rest)"
    using assms by (auto simp: m_def member_lexemes_def isdigit_def)
  define it0 where "it0 = \<lparr>joi_parseIndex = 0, joi_key = [], joi_value = VBool False, joi_state = readObjectStart, joi_error = error\<rparr>"
  define it1 where "it1 = it0\<lparr>joi_parseIndex := 1, joi_state := readKeyOrEnd\<rparr>"
  define it2 where "it2 = \<lparr>joi_parseIndex = 1 + length (lex_text (member_lexemes m)), joi_key = k,
    joi_value = ReadInteger (ToInt64 ds False) negative, joi_state = readCommaOrObjectEnd, joi_error = error\<rparr>"
  have T: "Token os 0 = (LeftBrace 0, 1)" "drop 1 os = lex_text (member_lexemes m) @ e # rest" "1 \<le> length os"
    using Token_lexed [of 0 os "[]" LOpenBrace "member_lexemes m" "e # rest", OF _ _ lexed]
    by (simp_all add: os_def del: lexed.simps)
  have "joi_ParseNextToken os it0 = Inr it1"
    using T(1) by (simp add: joi_ParseNextToken_def joi_ReadObjectStart_def it0_def it1_def)
  then have start: "joi_begin os error = joi_increment os it1"
    by (simp add: joi_begin_def it0_def [symmetric] joi_increment_step it1_def)
  have one: "joi_increment os it1 = Inr it2"
    using joi_reads_member [of it1 os m "[]" "e # rest"] T(2,3) lexed by (simp add: it2_def it1_def it0_def m_def)
  let ?i = "joi_parseIndex it2"
  have d: "drop ?i os = e # rest" "?i \<le> length os"
    using drop_app [of 1 os "lex_text (member_lexemes m)" "e # rest"] T(2,3) by (simp_all add: it2_def)
  have n: "?i < length os" "os ! ?i = e" using drop_Cons_nth [OF d(1)] by simp_all
  have c: "isalpha e" "\<not> isspace e" "\<not> isdigit e" using e by (auto simp: isalpha_def isspace_def isdigit_def)
  have "SkipWhitespace os ?i = ?i" using n c by (subst SkipWhitespace_def, subst skip_while.simps) simp
  moreover obtain j where "TryCreateIdentifierToken os ?i = (ErrorToken, j)"
  proof -
    define j where "j = skip_while isalpha os ?i"
    have "?i < j" unfolding j_def using n c by (intro skip_while_step) simp_all
    then obtain l where "j - ?i = Suc l" by (metis Suc_diff_Suc)
    then have "take (j - ?i) (drop ?i os) = e # take l rest" using d by simp
    then have "TryCreateIdentifierToken os ?i = (ErrorToken, j)"
      using e by (auto simp: TryCreateIdentifierToken_def j_def [symmetric])
    then show ?thesis by (rule that)
  qed
  ultimately have "Token os ?i = (ErrorToken, j)" using n c e by (auto simp: Token_def)
  then have "joi_increment os it2 = Inr (it2\<lparr>joi_parseIndex := j, joi_error := True, joi_state := objectEnd\<rparr>)"
    by (subst joi_increment.simps) (simp add: joi_ParseNextToken_def joi_ReadCommaOrObjectEnd_def joi_SetError_def it2_def)
  then have "joi_all os it2 = Inr ([(k, ReadInteger (ToInt64 ds False) negative)], True)"
    by (subst joi_all.simps) (simp add: it2_def)
  then show ?thesis using start one by (simp add: jo_members_def os_def m_def member_lexemes_def)
qed

subsection \<open>Properties\<close>

text \<open>
  C17. A document of objects and arrays in each other to any depth, whose numbers have no exponent, written with any white space, with fewer than
  \<open>2 ^ 32\<close> bytes and with anything after it, is read as what it is: iterating over an object gives all its members in order, each with its key and a
  value that means what is written, and leaves the error flag as it was; iterating over an array gives its values up to the
  first that is not of the type that is asked for, and sets the flag if there is one. What is written means a decimal number, with its sign, a fraction of up to
  nine digits, a string, a boolean, or, of an object or an array, the same again for its members. Numbers wrap at \<open>2 ^ 64\<close>, and null is
  read as an empty object. A number with an exponent is an error (\<open>exponent_is_not_read\<close>).
\<close>

theorem json_documents_are_read:
  assumes "doc_written w d post"
  shows "case d of
      DScalar l \<Rightarrow> True
    | DObject ms w' \<Rightarrow> \<exists>kvs. members_mean ms kvs \<and> (\<forall>error. jo_members (doc_text w d @ post) error = Inr (kvs, error))
    | DArray vs w' \<Rightarrow> \<exists>xs. items_mean vs xs \<and> (\<forall>holds error. ja_typed holds (doc_text w d @ post) error =
        Inr (takeWhile holds xs, error \<or> takeWhile holds xs \<noteq> xs))"
proof (cases d)
  case (DObject ms w')
  note object_level [OF assms [unfolded DObject]]
  moreover have "members_mean ms (doc_member_values ms)"
    using document_means(2) members_are_written assms unfolding DObject by blast
  ultimately show ?thesis unfolding DObject by auto
next
  case (DArray vs w')
  note array_level [OF assms [unfolded DArray]]
  moreover have "items_mean vs (doc_item_values vs)"
    using document_means(3) items_are_written assms unfolding DArray by blast
  ultimately show ?thesis unfolding DArray by auto
qed simp

theorem json_documents_are_read_witness:
  "(\<exists>a. jo_members [123, 32, 34, 97, 34, 58, 91, 49, 93, 125, 33] False = Inr ([([97], VArray [91, 49, 93])], False)
      \<and> ja_values [91, 49, 93] False = Inr ([VInt a], False) \<and> sint a = 1)
    \<and> (\<exists>a. ja_typed is_VInt [91, 45, 49, 44, 34, 34, 93] False = Inr ([VInt a], True) \<and> sint a = - 1)"
proof -
  have one: "digits_value [49] = 1" by (simp add: digits_value_def)
  have means: "\<exists>a. x = VInt a \<and> sint a = (if n then - 1 else 1)" if "number_means n [49] x" for n x
    using that by (cases x) (simp_all add: number_means_def one Let_def split: if_splits)
  let ?vs1 = "DItem [] [] (DScalar (LInt False [49])) NoItems"
  let ?ms = "DMember [] [32] [97] [] [] (DArray ?vs1 []) NoMembers"
  let ?vs2 = "DItem [] [] (DScalar (LInt True [49])) (DItem [] [] (DScalar (LString [])) NoItems)"
  have w: "doc_written [] (DObject ?ms []) [33]" "doc_written [] (DArray ?vs2 []) []"
    by (simp_all add: doc_written_def doc_text_def member_lexemes_def isspace_def isdigit_def)
  have t: "doc_text [] (DObject ?ms []) @ [33] = [123, 32, 34, 97, 34, 58, 91, 49, 93, 125, 33]"
    "doc_text [] (DArray ?vs2 []) @ [] = [91, 45, 49, 44, 34, 34, 93]" "doc_text [] (DArray ?vs1 []) = [91, 49, 93]"
    by (simp_all add: doc_text_def member_lexemes_def)
  obtain kvs where kvs: "members_mean ?ms kvs" "jo_members [123, 32, 34, 97, 34, 58, 91, 49, 93, 125, 33] False = Inr (kvs, False)"
    using json_documents_are_read [OF w(1)] unfolding t by auto
  obtain xs where xs: "items_mean ?vs2 xs" "ja_typed is_VInt [91, 45, 49, 44, 34, 34, 93] False =
      Inr (takeWhile is_VInt xs, False \<or> takeWhile is_VInt xs \<noteq> xs)"
    using json_documents_are_read [OF w(2)] unfolding t by auto
  show ?thesis
    using kvs xs by (auto simp: t split: list.splits sum.splits prod.splits dest!: means)
qed

text \<open>
  C18. \<^verbatim>\<open>GetIntegerAs\<close> on any such object is exact for the first member with that key, if it is a number of at most 64 bits: the number, if the type has
  it, and otherwise 0 with the error flag set. The one exception is \<open>- 2 ^ 63 - 1\<close>, for which the negation in \<^verbatim>\<open>ConvertValueTo\<close>
  overflows.
\<close>

theorem GetIntegerAs_is_exact:
  assumes "doc_written w (DObject ms w') post"
    and "find (\<lambda>(k, v). key_is key k) (doc_member_values ms) = Some (k, doc_value (DScalar (LInt negative ds)))"
    and "list_all isdigit ds" and "digits_value ds < 2 ^ 64"
    and "- (2 ^ 63) \<le> lo" and "lo \<le> 0" and "0 \<le> hi"
  shows "jo_GetIntegerAs lo hi (doc_text w (DObject ms w') @ post) error key =
    (if signed_value negative ds = - (2 ^ 63) - 1 then Inl UndefinedBehaviour
     else if lo \<le> signed_value negative ds \<and> signed_value negative ds \<le> hi then Inr (signed_value negative ds, error)
     else Inr (0, True))"
proof -
  let ?os = "doc_text w (DObject ms w') @ post"
  have get: "jo_GetValue ?os error key = Inr (scalar_value (LInt negative ds), error)"
    using assms(2) by (simp add: jo_GetValue_def jo_find_of_doc [OF assms(1)] doc_value_def)
  show ?thesis
  proof (cases "signed_value negative ds = - (2 ^ 63) - 1")
    case True
    then have n: "negative" "digits_value ds = 2 ^ 63 + 1" by (auto simp: signed_value_def split: if_splits)
    then have "scalar_value (LInt negative ds) = VBigger 9223372036854775809 True"
      by (simp add: ToInt64_digits assms(3) ReadInteger_def)
    with get have "jo_GetIntegerAs lo hi ?os error key = jo_ConvertValueTo lo hi 9223372036854775809 True error"
      by (simp add: jo_GetIntegerAs_def)
    also have "\<dots> = Inl UndefinedBehaviour" by (simp add: jo_ConvertValueTo_def)
    finally show ?thesis using True by simp
  next
    case False
    with GetIntegerAs_number [OF get assms(3,4) False assms(5-7)] show ?thesis by simp
  qed
qed

theorem GetIntegerAs_is_exact_witness:
  "jo_GetIntegerAs 0 255 [123, 34, 97, 34, 58, 50, 53, 53, 125] False [97] = Inr (255, False)
    \<and> jo_GetIntegerAs (- 128) 127 [123, 34, 97, 34, 58, 50, 53, 53, 125] False [97] = Inr (0, True)"
proof -
  let ?ms = "DMember [] [] [97] [] [] (DScalar (LInt False [50, 53, 53])) NoMembers"
  have w: "doc_written [] (DObject ?ms []) []" by (simp add: doc_written_def doc_text_def member_lexemes_def isdigit_def)
  have k: "key_is [97] [97]" by (simp add: key_is_def js_chars.simps)
  then have f: "find (\<lambda>(k, v). key_is [97] k) (doc_member_values ?ms) = Some ([97], doc_value (DScalar (LInt False [50, 53, 53])))" by simp
  have n: "digits_value [50, 53, 53] = 255" by (simp add: digits_value_def)
  then show ?thesis
    using GetIntegerAs_is_exact [OF w f, of 0 255 False] GetIntegerAs_is_exact [OF w f, of "- 128" 127 False]
    by (simp add: isdigit_def doc_text_def member_lexemes_def signed_value_def)
qed

text \<open>
  C19. A text that \<^verbatim>\<open>ValidJsonObject\<close> accepts need not be JSON: it only looks at the members of the outermost object, and not at what comes
  after it. Whatever has balanced braces passes for a member, such as \<^verbatim>\<open>{:}\<close>, and any text may follow.
\<close>

theorem ValidJsonObject_is_shallow:
  "ValidJsonObject ([123, 34, 97, 34, 58, 123, 58, 125, 125] @ junk) = Inr True"
proof -
  let ?m = "Member [] [97] [] [] (Braces [([], LColon)] [])"
  have "lexed (object_lexemes [] [([], ?m)] []) junk" "members_ok [([], ?m)]"
    by (simp_all add: object_lexemes_def member_lexemes_def)
  from jo_members_of_text [OF this, of False] show ?thesis
    by (simp add: ValidJsonObject_def object_lexemes_def member_lexemes_def)
qed

end
