(* ===== verification/Json_Escape.thy ===== *)
theory Json_Escape
  imports Json_Documents Text_Input
begin

section \<open>Escaping: infra/syntax/EscapeCharacterHelper.cpp and JsonFormatter.cpp\<close>

text \<open>
  \<^verbatim>\<open>InsertEscapedContent\<close> prints the characters of a text in runs: those that need no escape, and then an escape for the one that
  ends the run. Whether a \<^verbatim>\<open>char\<close> has a sign depends on the platform, and the comparison with \<^verbatim>\<open>0x20\<close> depends on it, so it is
  the argument \<open>char_signed\<close>. The text is a list of its characters. \<open>json_escaped\<close> says, character by character, what is printed;
  \<^verbatim>\<open>JsonEscapedStringSize\<close> and \<^verbatim>\<open>JsonSubStringOfMaxEscapedSize\<close> are about its length, and \<^verbatim>\<open>JsonString\<close> reads the text back.
\<close>

definition is_control :: "bool \<Rightarrow> byte \<Rightarrow> bool" where
  "is_control char_signed c \<longleftrightarrow> (if char_signed then sint c < 32 else unat c < 32)"

definition charactersToEscape :: "byte list" where
  "charactersToEscape = [60, 62, 38, 39, 34]"

text \<open>\<^verbatim>\<open>find_first_of\<close>, cut at the size of the text, and the loop that looks for control characters before that.\<close>

definition NonEscapedSubString :: "bool \<Rightarrow> byte list \<Rightarrow> byte list \<Rightarrow> nat \<Rightarrow> nat \<times> byte list" where
  "NonEscapedSubString char_signed escapes string start =
     (let escape = skip_while (\<lambda>c. c \<notin> set escapes) string start;
          escape = skip_while (\<lambda>c. \<not> is_control char_signed c) (take escape string) start
      in (escape, take (escape - start) (drop start string)))"

lemma NonEscaped_bounds:
  assumes "NonEscapedSubString sg escapes s start = (e, sub)" and "start \<le> length s"
  shows "start \<le> e" "e \<le> length s"
proof -
  let ?e = "skip_while (\<lambda>c. c \<notin> set escapes) s start"
  have "start \<le> ?e" "?e \<le> length s" using assms(2) by (simp_all add: skip_while_ge skip_while_le)
  moreover have "e = skip_while (\<lambda>c. \<not> is_control sg c) (take ?e s) start"
    using assms(1) by (simp add: NonEscapedSubString_def Let_def)
  ultimately show "start \<le> e" "e \<le> length s"
    using skip_while_ge [of start "\<lambda>c. \<not> is_control sg c" "take ?e s"]
      skip_while_le [of start "take ?e s" "\<lambda>c. \<not> is_control sg c"] by simp_all
qed

text \<open>The loop over the runs of a text; \<open>stop\<close> is where it stands, which it never passes the end of.\<close>

function InsertEscaped_loop :: "'w insert_op \<Rightarrow> bool \<Rightarrow> byte list \<Rightarrow> (byte \<Rightarrow> 'w text_output \<Rightarrow> 'w text_output result) \<Rightarrow> byte list \<Rightarrow> nat \<Rightarrow>
    'w text_output \<Rightarrow> 'w text_output result" where
  "InsertEscaped_loop Insert sg escapes replaceEscapeCharacter content start t =
     (if start < length content
      then (let (escape, nonEscapedSubString) = NonEscapedSubString sg escapes content start
            in bindR (if nonEscapedSubString \<noteq> [] then to_string Insert nonEscapedSubString t else Inr t) (\<lambda>t.
              if escape \<noteq> length content
              then bindR (replaceEscapeCharacter (content ! escape) t)
                (InsertEscaped_loop Insert sg escapes replaceEscapeCharacter content (escape + 1))
              else Inr t))
      else Inr t)"
  by pat_completeness auto
termination
  by (relation "measure (\<lambda>(Insert, sg, escapes, r, content, start, t). length content - start)")
    (auto dest!: NonEscaped_bounds(1) [OF sym])

declare InsertEscaped_loop.simps [simp del]

definition InsertEscapedContent :: "'w insert_op \<Rightarrow> bool \<Rightarrow> byte list \<Rightarrow> (byte \<Rightarrow> 'w text_output \<Rightarrow> 'w text_output result) \<Rightarrow> byte list \<Rightarrow>
    'w text_output \<Rightarrow> 'w text_output result" where
  "InsertEscapedContent Insert sg escapes replaceEscapeCharacter content =
     InsertEscaped_loop Insert sg escapes replaceEscapeCharacter content 0"

definition ReplaceEscapeCharacter :: "'w insert_op \<Rightarrow> byte \<Rightarrow> 'w text_output \<Rightarrow> 'w text_output result" where
  "ReplaceEscapeCharacter Insert c t =
     (if c = 34 then to_string Insert [92, 34] t
      else if c = 92 then to_string Insert [92, 92] t
      else if c = 8 then to_string Insert [92, 98] t
      else if c = 12 then to_string Insert [92, 102] t
      else if c = 10 then to_string Insert [92, 110] t
      else if c = 13 then to_string Insert [92, 114] t
      else if c = 9 then to_string Insert [92, 116] t
      else bindR (to_string Insert [92, 117] t) (to_on (to_Width 4 48 \<circ> to_Hex) (to_uint8 Insert c)))"

definition json_InsertEscapedContent :: "'w insert_op \<Rightarrow> bool \<Rightarrow> byte list \<Rightarrow> 'w text_output \<Rightarrow> 'w text_output result" where
  "json_InsertEscapedContent Insert sg content =
     InsertEscapedContent Insert sg charactersToEscape (ReplaceEscapeCharacter Insert) content"

definition EscapedCharacterSize :: "byte \<Rightarrow> nat" where
  "EscapedCharacterSize c = (if c \<in> set [34, 92, 8, 12, 10, 13, 9] then 2 else 6)"

function EscapedSize_loop :: "bool \<Rightarrow> byte list \<Rightarrow> nat \<Rightarrow> nat \<Rightarrow> nat" where
  "EscapedSize_loop sg string start sz =
     (if start < length string
      then (let (escape, nonEscapedSubString) = NonEscapedSubString sg charactersToEscape string start;
                sz = sz + length nonEscapedSubString
            in if escape \<noteq> length string then EscapedSize_loop sg string (escape + 1) (sz + EscapedCharacterSize (string ! escape))
               else sz)
      else sz)"
  by pat_completeness auto
termination
  by (relation "measure (\<lambda>(sg, string, start, sz). length string - start)") (auto dest!: NonEscaped_bounds(1) [OF sym])

declare EscapedSize_loop.simps [simp del]

definition JsonEscapedStringSize :: "bool \<Rightarrow> byte list \<Rightarrow> nat" where
  "JsonEscapedStringSize sg string = EscapedSize_loop sg string 0 0"

function MaxEscaped_loop :: "bool \<Rightarrow> byte list \<Rightarrow> nat \<Rightarrow> nat \<Rightarrow> nat \<Rightarrow> nat" where
  "MaxEscaped_loop sg string maxEscapedSize start sz =
     (if start < length string \<and> sz < maxEscapedSize
      then (let nonEscapedSubString = snd (NonEscapedSubString sg charactersToEscape string start);
                increment = min (length nonEscapedSubString) (maxEscapedSize - sz);
                sz = sz + increment; start = start + increment
            in if start < length string
               then (if EscapedCharacterSize (string ! start) > maxEscapedSize - sz then start
                     else MaxEscaped_loop sg string maxEscapedSize (start + 1) (sz + EscapedCharacterSize (string ! start)))
               else start)
      else start)"
  by pat_completeness auto
termination
  by (relation "measure (\<lambda>(sg, string, m, start, sz). length string - start)") (auto intro!: diff_less_mono2)

declare MaxEscaped_loop.simps [simp del]

definition JsonSubStringOfMaxEscapedSize :: "bool \<Rightarrow> byte list \<Rightarrow> nat \<Rightarrow> byte list" where
  "JsonSubStringOfMaxEscapedSize sg string maxEscapedSize = take (MaxEscaped_loop sg string maxEscapedSize 0 0) string"


subsection \<open>The escaped text, character by character\<close>

definition json_escapes :: "bool \<Rightarrow> byte \<Rightarrow> bool" where
  "json_escapes sg c \<longleftrightarrow> c \<in> set charactersToEscape \<or> is_control sg c"

definition json_escape :: "byte \<Rightarrow> byte list" where
  "json_escape c =
     (if c = 34 then [92, 34] else if c = 92 then [92, 92] else if c = 8 then [92, 98] else if c = 12 then [92, 102]
      else if c = 10 then [92, 110] else if c = 13 then [92, 114] else if c = 9 then [92, 116]
      else [92, 117, 48, 48, hexChars ! (unat c div 16), hexChars ! (unat c mod 16)])"

definition json_escaped :: "bool \<Rightarrow> byte list \<Rightarrow> byte list" where
  "json_escaped sg s = concat (map (\<lambda>c. if json_escapes sg c then json_escape c else [c]) s)"

lemma json_escaped_simps [simp]:
  "json_escaped sg [] = []"
  "json_escaped sg (c # cs) = (if json_escapes sg c then json_escape c else [c]) @ json_escaped sg cs"
  "json_escaped sg (xs @ ys) = json_escaped sg xs @ json_escaped sg ys"
  by (simp_all add: json_escaped_def)

lemma json_escaped_plain: "(\<And>c. c \<in> set xs \<Longrightarrow> \<not> json_escapes sg c) \<Longrightarrow> json_escaped sg xs = xs"
  by (induction xs) simp_all

lemma length_json_escape: "length (json_escape c) = EscapedCharacterSize c"
  by (simp add: json_escape_def EscapedCharacterSize_def)

lemma skip_while_takeWhile: "i \<le> length os \<Longrightarrow> skip_while P os i = i + length (takeWhile P (drop i os))"
proof -
  assume i: "i \<le> length os"
  have "drop i os = takeWhile P (drop i os) @ dropWhile P (drop i os)" by simp
  moreover have "list_all P (takeWhile P (drop i os))" by (auto simp: list_all_iff dest: set_takeWhileD)
  moreover have "dropWhile P (drop i os) = [] \<or> \<not> P (hd (dropWhile P (drop i os)))" using hd_dropWhile by blast
  ultimately show ?thesis using skip_while_app i by blast
qed

lemma takeWhile_both: "takeWhile Q (takeWhile P xs) = takeWhile (\<lambda>x. P x \<and> Q x) xs"
  by (induction xs) simp_all

lemma NonEscaped_run:
  fixes sg :: bool
  assumes "start \<le> length s"
  defines "run \<equiv> takeWhile (\<lambda>c. \<not> json_escapes sg c) (drop start s)"
  shows "NonEscapedSubString sg charactersToEscape s start = (start + length run, run)"
proof -
  let ?P = "\<lambda>c. c \<notin> set charactersToEscape"
  let ?e = "start + length (takeWhile ?P (drop start s))"
  have e: "skip_while ?P s start = ?e" using skip_while_takeWhile [OF assms(1)] .
  have le: "start \<le> length (take ?e s)" using assms(1) by simp
  have "drop start (take ?e s) = take (length (takeWhile ?P (drop start s))) (drop start s)" by (simp add: drop_take)
  then have "drop start (take ?e s) = takeWhile ?P (drop start s)" by (simp add: takeWhile_eq_take [symmetric])
  then have "skip_while (\<lambda>c. \<not> is_control sg c) (take ?e s) start = start + length run"
    using skip_while_takeWhile [OF le] by (simp add: takeWhile_both run_def json_escapes_def)
  moreover have "take (length run) (drop start s) = run" unfolding run_def by (metis takeWhile_eq_take)
  ultimately show ?thesis by (simp add: NonEscapedSubString_def Let_def e)
qed

text \<open>What is left of a text is a run, and then nothing or a character that is escaped and the rest.\<close>

lemma run_cases:
  fixes sg :: bool
  assumes "start \<le> length s"
  defines "run \<equiv> takeWhile (\<lambda>c. \<not> json_escapes sg c) (drop start s)"
  shows "json_escaped sg run = run"
    and "start + length run = length s \<Longrightarrow> drop start s = run"
    and "start + length run \<noteq> length s \<Longrightarrow> start + length run < length s \<and> json_escapes sg (s ! (start + length run))
      \<and> drop start s = run @ s ! (start + length run) # drop (start + length run + 1) s"
proof -
  show "json_escaped sg run = run" unfolding run_def by (rule json_escaped_plain) (auto dest: set_takeWhileD)
  have split: "drop start s = run @ dropWhile (\<lambda>c. \<not> json_escapes sg c) (drop start s)" by (simp add: run_def)
  have rest: "dropWhile (\<lambda>c. \<not> json_escapes sg c) (drop start s) = drop (start + length run) s"
    by (simp add: run_def dropWhile_eq_drop add.commute)
  show "start + length run = length s \<Longrightarrow> drop start s = run" using split rest by simp
  assume "start + length run \<noteq> length s"
  moreover have "start + length run \<le> length s"
    using length_takeWhile_le [of "\<lambda>c. \<not> json_escapes sg c" "drop start s"] assms(1) by (simp add: run_def)
  ultimately have lt: "start + length run < length s" by simp
  then have d: "drop (start + length run) s = s ! (start + length run) # drop (start + length run + 1) s"
    by (simp add: Cons_nth_drop_Suc)
  with rest hd_dropWhile [of "\<lambda>c. \<not> json_escapes sg c" "drop start s"] have "json_escapes sg (s ! (start + length run))"
    by (metis list.discI list.sel(1))
  with lt d split rest show "start + length run < length s \<and> json_escapes sg (s ! (start + length run))
      \<and> drop start s = run @ s ! (start + length run) # drop (start + length run + 1) s" by simp
qed

lemma EscapedSize_loop_eq: "start \<le> length s \<Longrightarrow> EscapedSize_loop sg s start sz = sz + length (json_escaped sg (drop start s))"
proof (induction sg s start sz rule: EscapedSize_loop.induct)
  case (1 sg s start sz)
  show ?case
  proof (cases "start < length s")
    case True
    define run where "run = takeWhile (\<lambda>c. \<not> json_escapes sg c) (drop start s)"
    let ?e = "start + length run"
    have ne: "NonEscapedSubString sg charactersToEscape s start = (?e, run)"
      using NonEscaped_run [OF "1.prems", of sg] by (simp add: run_def)
    note rc = run_cases [OF "1.prems", of sg, folded run_def]
    show ?thesis
    proof (cases "?e = length s")
      case e: True
      with rc(1,2) True show ?thesis by (subst EscapedSize_loop.simps) (simp add: ne)
    next
      case e: False
      note c = rc(3) [OF e]
      have "EscapedSize_loop sg s (?e + 1) (sz + length run + EscapedCharacterSize (s ! ?e))
          = sz + length run + EscapedCharacterSize (s ! ?e) + length (json_escaped sg (drop (?e + 1) s))"
        using "1.IH" [OF True ne [symmetric] refl refl e] c by simp
      moreover have "json_escaped sg (drop start s) = run @ json_escape (s ! ?e) @ json_escaped sg (drop (?e + 1) s)"
        using c rc(1) by simp
      ultimately show ?thesis
        using True e by (subst EscapedSize_loop.simps) (simp add: ne length_json_escape)
    qed
  next
    case False
    with "1.prems" show ?thesis by (subst EscapedSize_loop.simps) simp
  qed
qed

lemma JsonEscapedStringSize_eq: "JsonEscapedStringSize sg s = length (json_escaped sg s)"
  by (simp add: JsonEscapedStringSize_def EscapedSize_loop_eq)

text \<open>The longest prefix whose escaped text fits.\<close>

definition fitting :: "bool \<Rightarrow> byte list \<Rightarrow> nat \<Rightarrow> nat \<Rightarrow> bool" where
  "fitting sg s maxSize n \<longleftrightarrow> n \<le> length s \<and> length (json_escaped sg (take n s)) \<le> maxSize
     \<and> (n < length s \<longrightarrow> maxSize < length (json_escaped sg (take (Suc n) s)))"

lemma take_Suc_escaped: "n < length s \<Longrightarrow> length (json_escaped sg (take (Suc n) s)) =
    length (json_escaped sg (take n s)) + (if json_escapes sg (s ! n) then EscapedCharacterSize (s ! n) else 1)"
  by (simp add: take_Suc_conv_app_nth length_json_escape)

lemma MaxEscaped_loop_fits:
  "start \<le> length s \<Longrightarrow> length (json_escaped sg (take start s)) = sz \<Longrightarrow> sz \<le> m \<Longrightarrow>
    fitting sg s m (MaxEscaped_loop sg s m start sz)"
proof (induction sg s m start sz rule: MaxEscaped_loop.induct)
  case (1 sg s m start sz)
  have pos: "0 < (if json_escapes sg c then EscapedCharacterSize c else 1)" for c by (simp add: EscapedCharacterSize_def)
  show ?case
  proof (cases "start < length s \<and> sz < m")
    case True
    define run where "run = takeWhile (\<lambda>c. \<not> json_escapes sg c) (drop start s)"
    define n where "n = min (length run) (m - sz)"
    have n: "n \<le> length run" "n \<noteq> length run \<Longrightarrow> sz + n = m" "sz + n \<le> m" using "1.prems"(3) by (auto simp: n_def)
    have ne: "NonEscapedSubString sg charactersToEscape s start = (start + length run, run)"
      using NonEscaped_run [OF "1.prems"(1), of sg] by (simp add: run_def)
    note rc = run_cases [OF "1.prems"(1), of sg, folded run_def]
    have len: "start + length run \<le> length s" using rc(3) by (cases "start + length run = length s") auto
    have plain: "\<not> json_escapes sg (s ! (start + k))" if "k < length run" for k
    proof -
      have "run ! k = drop start s ! k" using that unfolding run_def by (rule takeWhile_nth)
      moreover have "\<not> json_escapes sg (run ! k)" using that nth_mem set_takeWhileD unfolding run_def by metis
      ultimately show ?thesis using that len by simp
    qed
    have size: "length (json_escaped sg (take (start + k) s)) = sz + k" if "k \<le> length run" for k
      using that
    proof (induction k)
      case (Suc k)
      then show ?case using take_Suc_escaped [of "start + k" s sg] plain [of k] len by simp
    qed (simp add: "1.prems"(2))
    let ?s1 = "start + n" and ?sz1 = "sz + n"
    have size1: "length (json_escaped sg (take ?s1 s)) = ?sz1" by (rule size [OF n(1)])
    have le1: "?s1 \<le> length s" "?sz1 \<le> m" using len n by simp_all
    have unf: "MaxEscaped_loop sg s m start sz = (if ?s1 < length s
        then (if EscapedCharacterSize (s ! ?s1) > m - ?sz1 then ?s1
              else MaxEscaped_loop sg s m (?s1 + 1) (?sz1 + EscapedCharacterSize (s ! ?s1))) else ?s1)"
      using True by (subst MaxEscaped_loop.simps) (simp add: ne Let_def n_def)
    show ?thesis
    proof (cases "?s1 < length s")
      case False
      with unf size1 le1 show ?thesis by (simp add: fitting_def)
    next
      case lt: True
      show ?thesis
      proof (cases "EscapedCharacterSize (s ! ?s1) > m - ?sz1")
        case big: True
        have "m < length (json_escaped sg (take (Suc ?s1) s))"
        proof (cases "n = length run")
          case run: True
          then have "json_escapes sg (s ! ?s1)" using rc(3) lt by auto
          with big le1(2) size1 take_Suc_escaped [OF lt, of sg] show ?thesis by simp
        next
          case False
          then have "?sz1 = m" by (rule n(2))
          with size1 take_Suc_escaped [OF lt, of sg] pos [of "s ! ?s1"] show ?thesis by simp
        qed
        with unf lt big size1 le1 show ?thesis by (simp add: fitting_def)
      next
        case small: False
        have "n = length run"
        proof (rule ccontr)
          assume "n \<noteq> length run"
          then have "?sz1 = m" by (rule n(2))
          with small show False by (simp add: EscapedCharacterSize_def split: if_splits)
        qed
        then have esc: "json_escapes sg (s ! ?s1)" using rc(3) lt by auto
        have "fitting sg s m (MaxEscaped_loop sg s m (?s1 + 1) (?sz1 + EscapedCharacterSize (s ! ?s1)))"
        proof (rule "1.IH" [OF True refl refl refl refl, unfolded ne snd_conv, folded n_def])
          show "?s1 < length s" using lt .
          show "length (json_escaped sg (take (?s1 + 1) s)) = ?sz1 + EscapedCharacterSize (s ! ?s1)"
            using take_Suc_escaped [OF lt, of sg] esc size1 by simp
        qed (use small lt le1 in simp_all)
        with unf lt small show ?thesis by simp
      qed
    qed
  next
    case False
    have "MaxEscaped_loop sg s m start sz = start" by (subst MaxEscaped_loop.simps) (rule if_not_P [OF False])
    moreover have "m < length (json_escaped sg (take (Suc start) s))" if "start < length s"
      using that False "1.prems" take_Suc_escaped [of start s sg] pos [of "s ! start"] by simp
    ultimately show ?thesis using "1.prems" by (simp add: fitting_def)
  qed
qed


lemma MaxEscaped_fits: "fitting sg s m (MaxEscaped_loop sg s m 0 0)"
  by (rule MaxEscaped_loop_fits) simp_all

subsection \<open>The escaped text is read back\<close>

lemma hexChars_all: "list_all (\<lambda>d. js_isHex (hexChars ! d) \<and> js_hexValue (hexChars ! d) = of_nat d) [0..<16]"
  by code_simp

lemma hexChars_is_hex: "d < 16 \<Longrightarrow> js_isHex (hexChars ! d) \<and> js_hexValue (hexChars ! d) = of_nat d"
  using hexChars_all unfolding list_all_iff by fastforce

lemma byte_hex_digits:
  fixes c :: byte
  shows "of_nat (unat c div 16) * 16 + of_nat (unat c mod 16) = c"
proof -
  have "(of_nat (unat c div 16) * 16 + of_nat (unat c mod 16) :: byte) = of_nat (unat c div 16 * 16 + unat c mod 16)"
    by (simp only: of_nat_add of_nat_mult of_nat_numeral)
  also have "unat c div 16 * 16 + unat c mod 16 = unat c" by (rule div_mult_mod_eq)
  finally show ?thesis by simp
qed

lemma unat_byte_div: "unat (c :: byte) div 16 < 16"
  using unat_byte_less [of c] by (simp add: less_mult_imp_div_less)

lemma js_chars_Cons:
  "js_deref s = Inr c \<Longrightarrow> js_next s = Inr r \<Longrightarrow> s \<noteq> [] \<Longrightarrow> js_chars s = bindR (js_chars r) (\<lambda>cs. Inr (c # cs))"
  by (subst js_chars.simps) simp

lemma json_escape_read:
  "js_deref (json_escape c @ s) = Inr c" "js_next (json_escape c @ s) = Inr s" "json_escape c \<noteq> []"
  "js_body (json_escape c @ s) = js_body s"
proof -
  let ?a = "hexChars ! (unat c div 16)" and ?b = "hexChars ! (unat c mod 16)"
  have a: "js_isHex ?a" "js_hexValue ?a = of_nat (unat c div 16)" using hexChars_is_hex unat_byte_div by blast+
  have b: "js_isHex ?b" "js_hexValue ?b = of_nat (unat c mod 16)" using hexChars_is_hex [of "unat c mod 16"] by simp_all
  have z: "js_isHex 48" "js_hexValue 48 = 0" by (simp_all add: js_isHex_def js_hexValue_def)
  have four: "(4 :: nat) = Suc (Suc (Suc (Suc 0)))" by simp
  have "js_hexLoop 4 0 (48 # 48 # ?a # ?b # s) = c" "js_skipHex 4 (48 # 48 # ?a # ?b # s) = s"
    unfolding four using a b z byte_hex_digits [of c] by simp_all
  then show "js_deref (json_escape c @ s) = Inr c" "js_next (json_escape c @ s) = Inr s"
    by (simp_all add: json_escape_def)
  show "json_escape c \<noteq> []" by (simp add: json_escape_def)
  have "?a \<noteq> 34" "?a \<noteq> 92" "?b \<noteq> 34" "?b \<noteq> 92" using a(1) b(1) by (auto simp: js_isHex_def)
  then show "js_body (json_escape c @ s) = js_body s" by (simp add: json_escape_def)
qed

text \<open>A text without backslashes is read back. Backslashes are not escaped: one that is printed escapes what comes after it.\<close>

lemma json_escaped_read:
  assumes "92 \<notin> set s"
  shows "js_body (json_escaped sg s)" "js_chars (json_escaped sg s) = Inr s"
proof -
  have "js_body (json_escaped sg s) \<and> js_chars (json_escaped sg s) = Inr s"
    using assms
  proof (induction s)
    case (Cons c s)
    show ?case
    proof (cases "json_escapes sg c")
      case True
      then show ?thesis
        using Cons json_escape_read(3) [of c] by (simp add: json_escape_read(4) js_chars_Cons [OF json_escape_read(1,2)])
    next
      case False
      then have "c \<noteq> 34" by (auto simp: json_escapes_def charactersToEscape_def)
      with Cons False show ?thesis by (simp add: js_chars_Cons [of _ c])
    qed
  qed simp
  then show "js_body (json_escaped sg s)" "js_chars (json_escaped sg s) = Inr s" by blast+
qed

lemma json_escaped_backslash: "json_escaped sg [92] = [92]" "\<not> js_body (json_escaped sg [92])"
  by (simp_all add: json_escapes_def charactersToEscape_def is_control_def)

subsection \<open>What is printed\<close>

text \<open>
  A stream as it is used here: no width, decimal numbers. \<open>emits op bs\<close>: while there is room, \<open>op\<close> appends \<open>bs\<close> to what the
  stream's writer has, and the stream is as before.
\<close>

context stream_sink
begin

definition plain :: "'s text_output \<Rightarrow> bool" where
  "plain t \<longleftrightarrow> ok (to_writer t) \<and> to_width t = 0 \<and> to_padding t = 32 \<and> to_radix t = RadixDec"

definition emits :: "('s text_output \<Rightarrow> 's text_output result) \<Rightarrow> byte list \<Rightarrow> bool" where
  "emits op bs \<longleftrightarrow> (\<forall>t. plain t \<and> length bs \<le> available (to_writer t) \<longrightarrow> (\<exists>t'. op t = Inr t' \<and> printed t bs t' \<and> plain t'))"

lemma emitsI:
  "(\<And>t. plain t \<Longrightarrow> length bs \<le> available (to_writer t) \<Longrightarrow> \<exists>t'. op t = Inr t' \<and> printed t bs t' \<and> to_width t' = 0 \<and> to_padding t' = 32) \<Longrightarrow> emits op bs"
  unfolding emits_def plain_def printed_def by fastforce

lemma emits_nothing: "emits Inr []"
  by (auto simp: emits_def printed_def plain_def)

lemma emits_bind: "emits f xs \<Longrightarrow> emits g ys \<Longrightarrow> emits (\<lambda>t. bindR (f t) g) (xs @ ys)"
  unfolding emits_def
proof (intro allI impI)
  fix t
  assume f: "\<forall>t. plain t \<and> length xs \<le> available (to_writer t) \<longrightarrow> (\<exists>t'. f t = Inr t' \<and> printed t xs t' \<and> plain t')"
    and g: "\<forall>t. plain t \<and> length ys \<le> available (to_writer t) \<longrightarrow> (\<exists>t'. g t = Inr t' \<and> printed t ys t' \<and> plain t')"
    and t: "plain t \<and> length (xs @ ys) \<le> available (to_writer t)"
  then obtain t1 where t1: "f t = Inr t1" "printed t xs t1" "plain t1" by fastforce
  then have "length ys \<le> available (to_writer t1)" using t unfolding printed_def length_append by arith
  with g t1(3) obtain t2 where "g t1 = Inr t2" "printed t1 ys t2" "plain t2" by blast
  with t1 printed_trans show "\<exists>t'. bindR (f t) g = Inr t' \<and> printed t (xs @ ys) t' \<and> plain t'" by fastforce
qed

lemma emits_string: "emits (to_string ins s) s"
  by (rule emitsI) (use string_prints in \<open>fastforce simp: plain_def padded_def\<close>)

lemma emits_char: "emits (to_char ins c) [c]"
  by (rule emitsI) (use char_prints in \<open>fastforce simp: plain_def padded_def\<close>)

lemma emits_uint64: "emits (to_uint64 ins v) (number_text RadixDec (int (unat v)))"
  by (rule emitsI) (use uint64_prints in \<open>fastforce simp: plain_def padded_def\<close>)

lemma emits_int64: "sint v \<noteq> - (2 ^ 63) \<Longrightarrow> emits (to_int64 ins v) (number_text RadixDec (sint v))"
  by (rule emitsI) (use int64_prints in \<open>fastforce simp: plain_def padded_def\<close>)

text \<open>A number with other manipulators, on a copy of the stream.\<close>

lemma emits_number:
  assumes manip: "\<And>t. plain t \<Longrightarrow> to_writer (m t) = to_writer t \<and> to_errorPolicy (m t) = to_errorPolicy t \<and> to_width (m t) = w \<and> to_padding (m t) = c \<and> to_radix (m t) = r"
  shows "emits (to_on m (to_uint64 ins v)) (padded w c (number_text r (int (unat v))))"
proof (rule emitsI)
  fix t assume t: "plain t" "length (padded w c (number_text r (int (unat v)))) \<le> available (to_writer t)"
  obtain t' where t': "to_uint64 ins v (m t) = Inr t'" "printed (m t) (padded w c (number_text r (int (unat v)))) t'"
    using uint64_prints [of "m t" v] t manip [OF t(1)] by (auto simp: plain_def)
  let ?t = "t\<lparr>to_writer := to_writer t', to_errorPolicy := to_errorPolicy t'\<rparr>"
  have "to_on m (to_uint64 ins v) t = Inr ?t" using t'(1) by (simp add: to_on_def)
  moreover have "printed t (padded w c (number_text r (int (unat v)))) ?t" using t'(2) manip [OF t(1)] t(1) by (simp add: printed_def plain_def)
  ultimately show "\<exists>t'. to_on m (to_uint64 ins v) t = Inr t' \<and> printed t (padded w c (number_text r (int (unat v)))) t'
      \<and> to_width t' = 0 \<and> to_padding t' = 32"
    using t(1) by (auto simp: plain_def)
qed

lemma unat_byte_64: "unat (ucast (c :: byte) :: 64 word) = unat c"
  using unat_byte_less [of c] by (simp add: unsigned_ucast_eq take_bit_nat_eq_self)

lemma hex_byte_text: "padded 4 48 (number_text RadixHex (int (unat (c :: byte)))) =
    [48, 48, hexChars ! (unat c div 16), hexChars ! (unat c mod 16)]"
proof (cases "unat c < 16")
  case True
  then have "radix_digits 16 (unat c) = [unat c]" by (simp add: radix_digits.simps)
  then have nt: "number_text RadixHex (int (unat c)) = [hexChars ! unat c]" unfolding number_text_def radix_base_def by simp
  have "replicate 3 (48 :: byte) = [48, 48, 48]" "hexChars ! 0 = 48" by (simp_all add: numeral_eq_Suc hexChars_def)
  with True show ?thesis unfolding padded_def nt by simp
next
  case False
  then have "radix_digits 16 (unat c) = [unat c div 16, unat c mod 16]"
    using unat_byte_div [of c] by (simp add: radix_digits.simps)
  then have nt: "number_text RadixHex (int (unat c)) = [hexChars ! (unat c div 16), hexChars ! (unat c mod 16)]"
    unfolding number_text_def radix_base_def by simp
  have "replicate 2 (48 :: byte) = [48, 48]" by (simp add: numeral_eq_Suc)
  then show ?thesis unfolding padded_def nt by simp
qed

lemma emits_escape: "emits (ReplaceEscapeCharacter ins c) (json_escape c)"
proof -
  have "emits (to_on (to_Width 4 48 \<circ> to_Hex) (to_uint64 ins (ucast c))) (padded 4 48 (number_text RadixHex (int (unat (ucast c :: 64 word)))))"
    by (rule emits_number) (simp add: to_Width_def to_Hex_def)
  then have "emits (to_on (to_Width 4 48 \<circ> to_Hex) (to_uint8 ins c)) [48, 48, hexChars ! (unat c div 16), hexChars ! (unat c mod 16)]"
    unfolding unat_byte_64 hex_byte_text to_uint8_def .
  then have "emits (\<lambda>t. bindR (to_string ins [92, 117] t) (to_on (to_Width 4 48 \<circ> to_Hex) (to_uint8 ins c)))
      ([92, 117] @ [48, 48, hexChars ! (unat c div 16), hexChars ! (unat c mod 16)])"
    by (rule emits_bind [OF emits_string])
  then show ?thesis
    unfolding ReplaceEscapeCharacter_def json_escape_def by (simp add: emits_string)
qed

lemma emits_escaped_loop:
  "start \<le> length s \<Longrightarrow> emits (InsertEscaped_loop ins sg charactersToEscape (ReplaceEscapeCharacter ins) s start) (json_escaped sg (drop start s))"
proof (induction "length s - start" arbitrary: start rule: less_induct)
  case less
  let ?loop = "InsertEscaped_loop ins sg charactersToEscape (ReplaceEscapeCharacter ins) s"
  show ?case
  proof (cases "start < length s")
    case True
    define run where "run = takeWhile (\<lambda>c. \<not> json_escapes sg c) (drop start s)"
    let ?e = "start + length run"
    have ne: "NonEscapedSubString sg charactersToEscape s start = (?e, run)"
      using NonEscaped_run [OF less.prems, of sg] by (simp add: run_def)
    note rc = run_cases [OF less.prems, of sg, folded run_def]
    have run: "emits (\<lambda>t. if run \<noteq> [] then to_string ins run t else Inr t) run"
      using emits_string [of run] emits_nothing by (cases "run = []") simp_all
    show ?thesis
    proof (cases "?e = length s")
      case e: True
      have "emits (\<lambda>t. bindR (if run \<noteq> [] then to_string ins run t else Inr t) Inr) (run @ [])"
        by (rule emits_bind [OF run emits_nothing])
      moreover have "?loop start = (\<lambda>t. bindR (if run \<noteq> [] then to_string ins run t else Inr t) Inr)"
        using True e by (intro ext) (subst InsertEscaped_loop.simps, simp add: ne)
      ultimately show ?thesis using rc(1) rc(2) [OF e] by simp
    next
      case e: False
      note c = rc(3) [OF e]
      have ih: "emits (?loop (?e + 1)) (json_escaped sg (drop (?e + 1) s))"
        by (rule less.hyps) (use c in linarith)+
      have "emits (\<lambda>t. bindR (if run \<noteq> [] then to_string ins run t else Inr t)
          (\<lambda>t. bindR (ReplaceEscapeCharacter ins (s ! ?e) t) (?loop (?e + 1))))
          (run @ json_escape (s ! ?e) @ json_escaped sg (drop (?e + 1) s))"
        by (intro emits_bind run emits_escape ih)
      moreover have "?loop start = (\<lambda>t. bindR (if run \<noteq> [] then to_string ins run t else Inr t)
          (\<lambda>t. bindR (ReplaceEscapeCharacter ins (s ! ?e) t) (?loop (?e + 1))))"
        using True e by (intro ext) (subst InsertEscaped_loop.simps, simp add: ne)
      moreover have "json_escaped sg (drop start s) = run @ json_escape (s ! ?e) @ json_escaped sg (drop (?e + 1) s)"
        using c rc(1) by simp
      ultimately show ?thesis by simp
    qed
  next
    case False
    then have "?loop start = Inr" using less.prems by (intro ext) (subst InsertEscaped_loop.simps, simp)
    with False less.prems show ?thesis by (simp add: emits_nothing)
  qed
qed

lemma emits_escaped: "emits (json_InsertEscapedContent ins sg s) (json_escaped sg s)"
proof -
  have "json_InsertEscapedContent ins sg s = InsertEscaped_loop ins sg charactersToEscape (ReplaceEscapeCharacter ins) s 0"
    by (simp add: json_InsertEscapedContent_def InsertEscapedContent_def fun_eq_iff)
  then show ?thesis using emits_escaped_loop [of 0 s sg] by simp
qed

end

end
