(* ===== verification/String_Writer.thy ===== *)
theory String_Writer
  imports Bounded_String Text_Output
begin

section \<open>StringOutputStream: infra/stream/StringOutputStream.cpp\<close>

text \<open>
  The writer that appends to a \<^verbatim>\<open>BoundedString\<close>. It keeps the contract of writers of \<open>Stream_Writers\<close> and of saved markers, over the
  string of \<open>Bounded_String\<close>, so that \<^verbatim>\<open>infra::TextOutputStream\<close> and what is built on it print into a string.
\<close>

definition sow_Reset :: "byte bstring \<Rightarrow> byte bstring" where
  "sow_Reset string = bstr_clear string"

definition sow_Available :: "byte bstring \<Rightarrow> nat" where
  "sow_Available string = bstr_max_size string - bstr_size string"

definition sow_Insert :: "byte list \<Rightarrow> byte bstring \<Rightarrow> error_policy \<Rightarrow> (byte bstring \<times> error_policy) result" where
  "sow_Insert rng string errorPolicy =
     (let spaceLeft = sow_Available string; spaceOk = (length rng \<le> spaceLeft)
      in bindR (ep_ReportResult spaceOk errorPolicy)
        (\<lambda>p. let rng = (if spaceOk then rng else take spaceLeft rng)
             in bindR (bstr_append_chars string rng (length rng)) (\<lambda>string. Inr (string, p))))"

definition sow_ConstructSaveMarker :: "byte bstring \<Rightarrow> nat" where
  "sow_ConstructSaveMarker string = bstr_size string"

definition sow_GetProcessedBytesSince :: "nat \<Rightarrow> byte bstring \<Rightarrow> nat" where
  "sow_GetProcessedBytesSince marker string = bstr_size string - marker"

text \<open>The string has its whole capacity as its size while the state is saved. Ranges are positions in the block.\<close>

definition sow_SaveState :: "nat \<Rightarrow> byte bstring \<Rightarrow> (byte bstring \<times> mrange) result" where
  "sow_SaveState marker string =
     (let copyEnd = bstr_size string; n = copyEnd - marker
      in bindR (bstr_resize string (bstr_max_size string) 0) (\<lambda>string.
        Inr (string\<lparr>bstr_range := overwrite (bstr_range string) (bstr_size string - n) (take n (drop marker (bstr_range string)))\<rparr>,
             mr_make marker (bstr_size string - n))))"

definition sow_RestoreState :: "mrange \<Rightarrow> byte bstring \<Rightarrow> byte bstring result" where
  "sow_RestoreState r string =
     (let string = string\<lparr>bstr_range := overwrite (bstr_range string) (beginElement r) (drop (endElement r) (bstr_text string))\<rparr>
      in bstr_resize string (bstr_size string - mr_size r) 0)"

definition sow_Overwrite :: "nat \<Rightarrow> byte bstring \<Rightarrow> mrange" where
  "sow_Overwrite marker string = DiscardHead (mr_make 0 (bstr_size string)) marker"

text \<open>\<^verbatim>\<open>Reserve\<close> for a type of \<open>n\<close> bytes: what is left of the range is filled with zeros and can be written later.\<close>

definition sow_Reserve :: "nat \<Rightarrow> byte bstring \<Rightarrow> error_policy \<Rightarrow> (byte bstring \<times> mrange \<times> error_policy) result" where
  "sow_Reserve n string errorPolicy =
     (let start = bstr_size string; spaceLeft = bstr_max_size string - bstr_size string; spaceOk = (n \<le> spaceLeft)
      in bindR (ep_ReportResult spaceOk errorPolicy)
        (\<lambda>p. let n = (if spaceOk then n else spaceLeft)
             in bindR (bstr_append_fill string n 0) (\<lambda>string. Inr (string, mr_make start (start + n), p))))"

definition sow_write :: "nat \<Rightarrow> byte list \<Rightarrow> byte bstring \<Rightarrow> byte bstring" where
  "sow_write i ys string = string\<lparr>bstr_range := overwrite (bstr_range string) i ys\<rparr>"

definition sow_full_ok :: "byte bstring \<Rightarrow> bool" where
  "sow_full_ok s \<longleftrightarrow> bstr_wf s \<and> bstr_length s = bstr_max_size s"

lemma sow_Insert_outcome:
  assumes "bstr_wf s"
  shows "\<exists>s'. (\<forall>p. sow_Insert xs s p = bindR (ep_ReportResult (length xs \<le> sow_Available s) p) (\<lambda>p'. Inr (s', p')))
    \<and> bstr_wf s' \<and> bstr_text s' = bstr_text s @ take (sow_Available s) xs \<and> sow_Available s' = sow_Available s - length xs
    \<and> bstr_max_size s' = bstr_max_size s"
proof -
  define ys where "ys = take (sow_Available s) xs"
  have fits: "bstr_length s + length ys \<le> bstr_max_size s" "bstr_max_size s < size_limit"
    using assms by (auto simp: ys_def sow_Available_def bstr_size_def bstr_wf_def)
  let ?s = "s\<lparr>bstr_range := overwrite (bstr_range s) (bstr_length s) ys, bstr_length := bstr_length s + length ys\<rparr>"
  have app: "bstr_append_chars s ys (length ys) = Inr ?s"
    using append_chars_eq [of "length ys" ys s] fits by (simp add: bstr_append_chars_def size_t_def)
  have res: "bstr_is s (bstr_text s @ ys) ?s" using appended_text [OF assms fits(1)] .
  have "(if length xs \<le> sow_Available s then xs else ys) = ys" by (simp add: ys_def)
  with app have "sow_Insert xs s p = bindR (ep_ReportResult (length xs \<le> sow_Available s) p) (\<lambda>p'. Inr (?s, p'))" for p
    by (simp only: sow_Insert_def Let_def bindR_simps ys_def [symmetric])
  moreover have "sow_Available ?s = sow_Available s - length xs"
    using res fits by (auto simp: bstr_is_def sow_Available_def bstr_size_def ys_def)
  ultimately show ?thesis using res unfolding bstr_is_def ys_def [symmetric] by blast
qed

interpretation sow: stream_writer bstr_wf bstr_text sow_Insert sow_Available
proof
  fix w :: "byte bstring" and xs
  assume w: "bstr_wf w"
  show "\<exists>w'. (\<forall>p. sow_Insert xs w p = bindR (ep_ReportResult True p) (\<lambda>p'. Inr (w', p')))
      \<and> bstr_wf w' \<and> bstr_text w' = bstr_text w @ xs \<and> sow_Available w' = sow_Available w - length xs"
    if "length xs \<le> sow_Available w"
    using sow_Insert_outcome [OF w, of xs] that by auto
  show "\<exists>w'. (\<forall>p. sow_Insert xs w p = bindR (ep_ReportResult False p) (\<lambda>p'. Inr (w', p')))
      \<and> bstr_wf w' \<and> bstr_text w' = bstr_text w @ take (sow_Available w) xs \<and> sow_Available w' = 0"
    if "sow_Available w < length xs"
    using sow_Insert_outcome [OF w, of xs] that by (auto simp: not_le)
qed

lemma sow_full_text: "sow_full_ok s \<Longrightarrow> bstr_text s = bstr_range s"
  by (simp add: sow_full_ok_def bstr_text_def bstr_max_size_def)

interpretation sow_marker: marker_stream bstr_wf sow_full_ok bstr_text bstr_text sow_Available sow_SaveState sow_RestoreState sow_write
proof
  fix s :: "byte bstring" and m i b e :: nat and ys :: "byte list"
  show "\<exists>s' e. sow_SaveState m s = Inr (s', mr_make m e) \<and> sow_full_ok s' \<and> m + sow_Available s = e \<and> e \<le> length (bstr_text s')
      \<and> take m (bstr_text s') = take m (bstr_text s) \<and> drop e (bstr_text s') = drop m (bstr_text s)"
    if s: "bstr_wf s" and m: "m \<le> length (bstr_text s)"
  proof -
    let ?N = "bstr_max_size s" and ?n = "bstr_length s - m"
    have le: "bstr_length s \<le> ?N" "m \<le> bstr_length s" using s m by (simp_all add: bstr_wf_def)
    obtain t where t: "bstr_resize s ?N 0 = Inr t" "bstr_is s (bstr_text s @ replicate (?N - bstr_length s) 0) t"
      using agrees_resize [OF s, of ?N 0] le(1) s by (cases "bstr_resize s ?N 0") (auto simp: bstr_text_def)
    have wf: "bstr_wf t" "bstr_max_size t = ?N" "bstr_text t = bstr_text s @ replicate (?N - bstr_length s) 0"
      using t(2) by (simp_all add: bstr_is_def)
    have len: "bstr_length t = ?N" using arg_cong [OF wf(3), of length] wf(1) s le by simp
    then have r: "bstr_range t = bstr_text s @ replicate (?N - bstr_length s) 0"
      using wf by (simp add: bstr_text_def bstr_max_size_def)
    let ?ys = "take ?n (drop m (bstr_range t))" and ?e = "?N - ?n"
    have ys: "?ys = drop m (bstr_text s)" using le s by (simp add: r)
    have len_ys: "length ?ys = ?n" using le s by (simp add: ys)
    have lr: "length (bstr_range t) = ?N" using wf(2) by (simp add: bstr_max_size_def)
    let ?u = "t\<lparr>bstr_range := overwrite (bstr_range t) ?e ?ys\<rparr>"
    have fits: "?e + length ?ys \<le> length (bstr_range t)" using le lr len_ys by simp
    have u: "sow_full_ok ?u"
      using wf(1,2) len fits by (simp add: sow_full_ok_def bstr_wf_def bstr_max_size_def)
    then have "bstr_text ?u = overwrite (bstr_range t) ?e ?ys" using sow_full_text by fastforce
    moreover have "take m (overwrite (bstr_range t) ?e ?ys) = take m (bstr_text s)"
    proof -
      have "m \<le> ?e" using le by linarith
      then have "take m (overwrite (bstr_range t) ?e ?ys) = take m (bstr_range t)"
        using le lr by (simp add: overwrite_def)
      then show ?thesis using le s by (simp add: r)
    qed
    moreover have "drop ?e (overwrite (bstr_range t) ?e ?ys) = drop m (bstr_text s)"
      using le lr len_ys ys by (simp add: overwrite_def)
    moreover have "m + sow_Available s = ?e" using le by (simp add: sow_Available_def bstr_size_def)
    moreover have "sow_SaveState m s = Inr (?u, mr_make m ?e)"
      using len by (simp add: sow_SaveState_def Let_def t(1) bstr_size_def)
    ultimately show ?thesis using u fits by (intro exI [of _ ?u] exI [of _ ?e]) simp
  qed
  show "sow_full_ok (sow_write i ys s) \<and> bstr_text (sow_write i ys s) = overwrite (bstr_text s) i ys"
    if s: "sow_full_ok s" and i: "i + length ys \<le> length (bstr_text s)"
  proof -
    have "length (overwrite (bstr_range s) i ys) = length (bstr_range s)"
      using i sow_full_text [OF s] by (intro length_overwrite) simp
    then have "sow_full_ok (sow_write i ys s)"
      using s by (simp add: sow_full_ok_def sow_write_def bstr_wf_def bstr_max_size_def)
    with sow_full_text [OF this] sow_full_text [OF s] show ?thesis by (simp add: sow_write_def)
  qed
  show "\<exists>s'. sow_RestoreState (mr_make b e) s = Inr s' \<and> bstr_wf s' \<and> bstr_text s' = take b (bstr_text s) @ drop e (bstr_text s)"
    if s: "sow_full_ok s" and be: "b \<le> e" "e \<le> length (bstr_text s)"
  proof -
    let ?r = "overwrite (bstr_range s) b (drop e (bstr_range s))"
    note st = sow_full_text [OF s]
    have len: "length ?r = length (bstr_range s)" using be st by simp
    let ?t = "s\<lparr>bstr_range := ?r\<rparr>"
    have t: "sow_full_ok ?t" using s len by (simp add: sow_full_ok_def bstr_wf_def bstr_max_size_def)
    then have wf: "bstr_wf ?t" by (simp add: sow_full_ok_def)
    have tt: "bstr_text ?t = ?r" using sow_full_text [OF t] by simp
    have n: "bstr_length s = length (bstr_range s)" using s by (simp add: sow_full_ok_def bstr_max_size_def)
    let ?k = "bstr_length s - (e - b)"
    obtain u where u: "bstr_resize ?t ?k 0 = Inr u" "bstr_is ?t (take ?k (bstr_text ?t) @ replicate (?k - bstr_length ?t) 0) u"
      using agrees_resize [OF wf, of ?k 0] len n by (cases "bstr_resize ?t ?k 0") (auto simp: bstr_max_size_def)
    have "take ?k ?r = take b (bstr_range s) @ drop e (bstr_range s)"
    proof -
      have "?k = b + length (drop e (bstr_range s))" "b + length (drop e (bstr_range s)) \<le> length (bstr_range s)"
        using be n st by simp_all
      then show ?thesis using take_overwrite [of b "drop e (bstr_range s)" "bstr_range s"] by (simp only:)
    qed
    then have "bstr_text u = take b (bstr_text s) @ drop e (bstr_text s)" "bstr_wf u"
      using u(2) st by (simp_all add: bstr_is_def tt)
    moreover have "sow_RestoreState (mr_make b e) s = Inr u"
      using u(1) by (simp add: sow_RestoreState_def Let_def mr_make_def mr_size_def bstr_size_def st)
    ultimately show ?thesis by blast
  qed
qed

end
