(* ===== verification/Json_Formatter.thy ===== *)
theory Json_Formatter
  imports Json_Escape String_Writer
begin

section \<open>Printing JSON: infra/syntax/JsonFormatter.cpp\<close>

text \<open>
  A \<^verbatim>\<open>JsonObjectFormatter\<close> or \<^verbatim>\<open>JsonArrayFormatter\<close> is a pointer to a text stream, which may be null after a move, and the flag
  \<^verbatim>\<open>empty\<close>. Formatters of nested objects and arrays print to the same stream, so the stream is passed through all of
  them. The operation of its writer is an argument. A tag is printed as it is; a text is escaped.

  A client that prints an object with members of any kind, nested to any depth, is described by \<open>json_out\<close>. The theorem is that
  what it prints is a document of \<open>Json_Documents\<close>, and reading it with the iterators gives back what was printed.
\<close>

record json_formatter =
  jf_stream :: bool
  jf_empty :: bool

text \<open>Printing to the stream of a formatter, which has no meaning when the pointer is null.\<close>

definition jf_use :: "json_formatter \<Rightarrow> ('w text_output \<Rightarrow> 'w text_output result) \<Rightarrow> 'w text_output \<Rightarrow> 'w text_output result" where
  "jf_use f op t = (if jf_stream f then op t else Inl UndefinedBehaviour)"

type_synonym 'w jf_op = "json_formatter \<Rightarrow> 'w text_output \<Rightarrow> (json_formatter \<times> 'w text_output) result"

definition jf_InsertSeparation :: "'w insert_op \<Rightarrow> 'w jf_op" where
  "jf_InsertSeparation Insert f t =
     bindR (if \<not> jf_empty f then jf_use f (to_string Insert [44, 32]) t else Inr t) (\<lambda>t. Inr (f\<lparr>jf_empty := False\<rparr>, t))"

subsection \<open>JsonObjectFormatter\<close>

definition jf_make :: "'w insert_op \<Rightarrow> 'w text_output \<Rightarrow> (json_formatter \<times> 'w text_output) result" where
  "jf_make Insert t = bindR (to_string Insert [123, 32] t) (\<lambda>t. Inr (\<lparr>jf_stream = True, jf_empty = True\<rparr>, t))"

text \<open>The constructor and the assignment that move: the formatter that was made or assigned to, and the other one.\<close>

definition jf_move :: "json_formatter \<Rightarrow> json_formatter \<times> json_formatter" where
  "jf_move other = (\<lparr>jf_stream = jf_stream other, jf_empty = True\<rparr>, other\<lparr>jf_stream := False\<rparr>)"

definition jf_move_assign :: "json_formatter \<Rightarrow> json_formatter \<Rightarrow> json_formatter \<times> json_formatter" where
  "jf_move_assign f other = (f\<lparr>jf_stream := jf_stream other\<rparr>, other\<lparr>jf_stream := False\<rparr>)"

definition jf_destroy :: "'w insert_op \<Rightarrow> json_formatter \<Rightarrow> 'w text_output \<Rightarrow> 'w text_output result" where
  "jf_destroy Insert f t = (if jf_stream f then to_string Insert [32, 125] t else Inr t)"

text \<open>What all functions that add something do: the separation, the tag between quotes, the start of the value, and the value.\<close>

definition jf_add :: "'w insert_op \<Rightarrow> byte list \<Rightarrow> byte list \<Rightarrow> ('w text_output \<Rightarrow> 'w text_output result) \<Rightarrow> 'w jf_op" where
  "jf_add Insert tagName start op f t =
     bindR (jf_InsertSeparation Insert f t) (\<lambda>(f, t).
       bindR (jf_use f (\<lambda>t. bindR (to_char Insert 34 t) (\<lambda>t. bindR (to_string Insert tagName t) (\<lambda>t. bindR (to_string Insert start t) op))) t)
         (\<lambda>t. Inr (f, t)))"

definition jf_Add_bool :: "'w insert_op \<Rightarrow> byte list \<Rightarrow> bool \<Rightarrow> 'w jf_op" where
  "jf_Add_bool Insert tagName tag = jf_add Insert tagName [34, 58]
     (to_string Insert (if tag then [116, 114, 117, 101] else [102, 97, 108, 115, 101]))"

definition jf_Add_int64 :: "'w insert_op \<Rightarrow> byte list \<Rightarrow> 64 word \<Rightarrow> 'w jf_op" where
  "jf_Add_int64 Insert tagName tag = jf_add Insert tagName [34, 58] (to_int64 Insert tag)"

definition jf_Add_uint64 :: "'w insert_op \<Rightarrow> byte list \<Rightarrow> 64 word \<Rightarrow> 'w jf_op" where
  "jf_Add_uint64 Insert tagName tag = jf_add Insert tagName [34, 58] (to_uint64 Insert tag)"

definition jf_Add_int8 :: "'w insert_op \<Rightarrow> byte list \<Rightarrow> 8 word \<Rightarrow> 'w jf_op" where
  "jf_Add_int8 Insert tagName tag = jf_Add_int64 Insert tagName (scast tag)"

definition jf_Add_uint8 :: "'w insert_op \<Rightarrow> byte list \<Rightarrow> 8 word \<Rightarrow> 'w jf_op" where
  "jf_Add_uint8 Insert tagName tag = jf_Add_uint64 Insert tagName (ucast tag)"

definition jf_Add_int16 :: "'w insert_op \<Rightarrow> byte list \<Rightarrow> 16 word \<Rightarrow> 'w jf_op" where
  "jf_Add_int16 Insert tagName tag = jf_Add_int64 Insert tagName (scast tag)"

definition jf_Add_uint16 :: "'w insert_op \<Rightarrow> byte list \<Rightarrow> 16 word \<Rightarrow> 'w jf_op" where
  "jf_Add_uint16 Insert tagName tag = jf_Add_uint64 Insert tagName (ucast tag)"

definition jf_Add_int32 :: "'w insert_op \<Rightarrow> byte list \<Rightarrow> 32 word \<Rightarrow> 'w jf_op" where
  "jf_Add_int32 Insert tagName tag = jf_Add_int64 Insert tagName (scast tag)"

definition jf_Add_uint32 :: "'w insert_op \<Rightarrow> byte list \<Rightarrow> 32 word \<Rightarrow> 'w jf_op" where
  "jf_Add_uint32 Insert tagName tag = jf_Add_uint64 Insert tagName (ucast tag)"

definition jf_bigger_int :: "'w insert_op \<Rightarrow> 64 word \<Rightarrow> bool \<Rightarrow> 'w text_output \<Rightarrow> 'w text_output result" where
  "jf_bigger_int Insert v negative t = bindR (if negative then to_string Insert [45] t else Inr t) (to_uint64 Insert v)"

definition jf_Add_BiggerInt :: "'w insert_op \<Rightarrow> byte list \<Rightarrow> 64 word \<Rightarrow> bool \<Rightarrow> 'w jf_op" where
  "jf_Add_BiggerInt Insert tagName v negative = jf_add Insert tagName [34, 58] (jf_bigger_int Insert v negative)"

text \<open>With a \<^verbatim>\<open>JsonString\<close> as its tag, what is printed is not the text of that string but its characters, by \<^verbatim>\<open>operator<<\<close>.\<close>

function js_print :: "'w insert_op \<Rightarrow> byte list \<Rightarrow> 'w text_output \<Rightarrow> 'w text_output result" where
  "js_print Insert source t =
     (if source = [] then Inr t
      else bindR (js_deref source) (\<lambda>c. bindR (to_char Insert c t) (\<lambda>t. bindR (js_next source) (\<lambda>rest. js_print Insert rest t))))"
  by pat_completeness auto
termination by (relation "measure (\<lambda>(Insert, source, t). length source)") (auto dest: js_next_shrinks)

declare js_print.simps [simp del]

definition jf_Add_key_BiggerInt :: "'w insert_op \<Rightarrow> byte list \<Rightarrow> 64 word \<Rightarrow> bool \<Rightarrow> 'w jf_op" where
  "jf_Add_key_BiggerInt Insert tagName v negative f t =
     bindR (jf_InsertSeparation Insert f t) (\<lambda>(f, t).
       bindR (jf_use f (\<lambda>t. bindR (to_char Insert 34 t) (\<lambda>t. bindR (js_print Insert tagName t) (\<lambda>t.
           bindR (to_string Insert [34, 58] t) (jf_bigger_int Insert v negative)))) t)
         (\<lambda>t. Inr (f, t)))"

text \<open>A text, escaped, and the \<^verbatim>\<open>JsonString\<close>, \<^verbatim>\<open>JsonObject\<close> and \<^verbatim>\<open>JsonArray\<close>, which are texts of JSON already.\<close>

definition jf_Add_text :: "'w insert_op \<Rightarrow> bool \<Rightarrow> byte list \<Rightarrow> byte list \<Rightarrow> 'w jf_op" where
  "jf_Add_text Insert sg tagName tag = jf_add Insert tagName [34, 58, 34]
     (\<lambda>t. bindR (json_InsertEscapedContent Insert sg tag t) (to_char Insert 34))"

definition jf_Add_JsonString :: "'w insert_op \<Rightarrow> byte list \<Rightarrow> byte list \<Rightarrow> 'w jf_op" where
  "jf_Add_JsonString Insert tagName raw = jf_add Insert tagName [34, 58, 34] (\<lambda>t. bindR (to_string Insert raw t) (to_char Insert 34))"

definition jf_Add_JsonObject :: "'w insert_op \<Rightarrow> byte list \<Rightarrow> byte list \<Rightarrow> 'w jf_op" where
  "jf_Add_JsonObject Insert tagName objectString = jf_add Insert tagName [34, 58] (to_string Insert objectString)"

definition jf_Add_JsonArray :: "'w insert_op \<Rightarrow> byte list \<Rightarrow> byte list \<Rightarrow> 'w jf_op" where
  "jf_Add_JsonArray Insert tagName objectString = jf_add Insert tagName [34, 58] (to_string Insert objectString)"

definition jf_AddSubObject :: "'w insert_op \<Rightarrow> byte list \<Rightarrow> byte list \<Rightarrow> 'w jf_op" where
  "jf_AddSubObject Insert tagName json = jf_add Insert tagName [34, 58] (to_string Insert json)"

definition jf_fraction :: "'w insert_op \<Rightarrow> 64 word \<Rightarrow> 32 word \<Rightarrow> bool \<Rightarrow> nat \<Rightarrow> 'w text_output \<Rightarrow> 'w text_output result" where
  "jf_fraction Insert intValue fractionalValue negative fractionalWidth t =
     bindR (if negative then to_char Insert 45 t else Inr t) (\<lambda>t.
     bindR (to_uint64 Insert intValue t) (\<lambda>t.
     bindR (to_char Insert 46 t) (to_on (to_Width fractionalWidth 48) (to_uint32 Insert fractionalValue))))"

definition jf_AddFractionalFloat :: "'w insert_op \<Rightarrow> byte list \<Rightarrow> 64 word \<Rightarrow> 32 word \<Rightarrow> bool \<Rightarrow> nat \<Rightarrow> 'w jf_op" where
  "jf_AddFractionalFloat Insert tagName intValue fractionalValue negative fractionalWidth =
     jf_add Insert tagName [34, 58] (jf_fraction Insert intValue fractionalValue negative fractionalWidth)"

definition milliValueWidth :: nat where
  "milliValueWidth = 3"

definition jf_AddMilliFloat :: "'w insert_op \<Rightarrow> byte list \<Rightarrow> 64 word \<Rightarrow> 32 word \<Rightarrow> bool \<Rightarrow> 'w jf_op" where
  "jf_AddMilliFloat Insert tagName intValue milliFractionalValue negative =
     jf_AddFractionalFloat Insert tagName intValue milliFractionalValue negative milliValueWidth"

definition jf_Add_JsonFloat :: "'w insert_op \<Rightarrow> byte list \<Rightarrow> 64 word \<Rightarrow> 32 word \<Rightarrow> bool \<Rightarrow> 'w jf_op" where
  "jf_Add_JsonFloat Insert tagName intValue nano negative =
     (if nano mod 1000000 = 0 then jf_AddFractionalFloat Insert tagName intValue (nano div 1000000) negative milliValueWidth
      else jf_AddFractionalFloat Insert tagName intValue nano negative nanoValueWidth)"

text \<open>\<^verbatim>\<open>Add\<close> of a \<^verbatim>\<open>JsonValue\<close>, which visits the value.\<close>

definition jf_Add_JsonValue :: "'w insert_op \<Rightarrow> byte list \<Rightarrow> json_value \<Rightarrow> 'w jf_op" where
  "jf_Add_JsonValue Insert key v =
     (case v of
        VBool b \<Rightarrow> jf_Add_bool Insert key b
      | VInt i \<Rightarrow> jf_Add_int32 Insert key i
      | VBigger u negative \<Rightarrow> jf_Add_key_BiggerInt Insert key u negative
      | VString s \<Rightarrow> jf_Add_JsonString Insert key s
      | VFloat i nano negative \<Rightarrow> jf_Add_JsonFloat Insert key i nano negative
      | VObject s \<Rightarrow> jf_Add_JsonObject Insert key s
      | VArray s \<Rightarrow> jf_Add_JsonArray Insert key s)"

subsection \<open>JsonArrayFormatter, and formatters of members\<close>

definition jaf_make :: "'w insert_op \<Rightarrow> 'w text_output \<Rightarrow> (json_formatter \<times> 'w text_output) result" where
  "jaf_make Insert t = bindR (to_string Insert [91, 32] t) (\<lambda>t. Inr (\<lparr>jf_stream = True, jf_empty = True\<rparr>, t))"

definition jaf_destroy :: "'w insert_op \<Rightarrow> json_formatter \<Rightarrow> 'w text_output \<Rightarrow> 'w text_output result" where
  "jaf_destroy Insert f t = (if jf_stream f then to_string Insert [32, 93] t else Inr t)"

definition jf_SubObject :: "'w insert_op \<Rightarrow> byte list \<Rightarrow> json_formatter \<Rightarrow> 'w text_output \<Rightarrow> (json_formatter \<times> json_formatter \<times> 'w text_output) result" where
  "jf_SubObject Insert tagName f t =
     bindR (jf_add Insert tagName [34, 58] Inr f t) (\<lambda>(f, t). bindR (jf_make Insert t) (\<lambda>(sub, t). Inr (f, sub, t)))"

definition jf_SubArray :: "'w insert_op \<Rightarrow> byte list \<Rightarrow> json_formatter \<Rightarrow> 'w text_output \<Rightarrow> (json_formatter \<times> json_formatter \<times> 'w text_output) result" where
  "jf_SubArray Insert tagName f t =
     bindR (jf_add Insert tagName [34, 58] Inr f t) (\<lambda>(f, t). bindR (jaf_make Insert t) (\<lambda>(sub, t). Inr (f, sub, t)))"

definition jaf_add :: "'w insert_op \<Rightarrow> ('w text_output \<Rightarrow> 'w text_output result) \<Rightarrow> 'w jf_op" where
  "jaf_add Insert op f t = bindR (jf_InsertSeparation Insert f t) (\<lambda>(f, t). bindR (jf_use f op t) (\<lambda>t. Inr (f, t)))"

definition jaf_Add_bool :: "'w insert_op \<Rightarrow> bool \<Rightarrow> 'w jf_op" where
  "jaf_Add_bool Insert tag = jaf_add Insert (to_string Insert (if tag then [116, 114, 117, 101] else [102, 97, 108, 115, 101]))"

definition jaf_Add_int32 :: "'w insert_op \<Rightarrow> 32 word \<Rightarrow> 'w jf_op" where
  "jaf_Add_int32 Insert tag = jaf_add Insert (to_int32 Insert tag)"

definition jaf_Add_uint32 :: "'w insert_op \<Rightarrow> 32 word \<Rightarrow> 'w jf_op" where
  "jaf_Add_uint32 Insert tag = jaf_add Insert (to_uint32 Insert tag)"

definition jaf_Add_int64 :: "'w insert_op \<Rightarrow> 64 word \<Rightarrow> 'w jf_op" where
  "jaf_Add_int64 Insert tag = jaf_add Insert (to_int64 Insert tag)"

definition jaf_Add_BiggerInt :: "'w insert_op \<Rightarrow> 64 word \<Rightarrow> bool \<Rightarrow> 'w jf_op" where
  "jaf_Add_BiggerInt Insert v negative = jaf_add Insert (jf_bigger_int Insert v negative)"

definition jaf_Add_text :: "'w insert_op \<Rightarrow> bool \<Rightarrow> byte list \<Rightarrow> 'w jf_op" where
  "jaf_Add_text Insert sg tag = jaf_add Insert
     (\<lambda>t. bindR (to_char Insert 34 t) (\<lambda>t. bindR (json_InsertEscapedContent Insert sg tag t) (to_char Insert 34)))"

definition jaf_SubObject :: "'w insert_op \<Rightarrow> json_formatter \<Rightarrow> 'w text_output \<Rightarrow> (json_formatter \<times> json_formatter \<times> 'w text_output) result" where
  "jaf_SubObject Insert f t =
     bindR (jaf_add Insert Inr f t) (\<lambda>(f, t). bindR (jf_make Insert t) (\<lambda>(sub, t). Inr (f, sub, t)))"

definition jaf_SubArray :: "'w insert_op \<Rightarrow> json_formatter \<Rightarrow> 'w text_output \<Rightarrow> (json_formatter \<times> json_formatter \<times> 'w text_output) result" where
  "jaf_SubArray Insert f t =
     bindR (jaf_add Insert Inr f t) (\<lambda>(f, t). bindR (jaf_make Insert t) (\<lambda>(sub, t). Inr (f, sub, t)))"

text \<open>\<^verbatim>\<open>AddString\<close> returns a stream that closes the quotes when it is destroyed, if it was not moved from.\<close>

definition jf_AddString :: "'w insert_op \<Rightarrow> byte list \<Rightarrow> 'w jf_op" where
  "jf_AddString Insert tagName = jf_add Insert tagName [34, 58, 34] Inr"

definition jf_AddObject :: "'w insert_op \<Rightarrow> byte list \<Rightarrow> 'w jf_op" where
  "jf_AddObject Insert tagName = jf_add Insert tagName [34, 58] Inr"

definition jss_destroy :: "'w insert_op \<Rightarrow> bool \<Rightarrow> 'w text_output \<Rightarrow> 'w text_output result" where
  "jss_destroy Insert owned t = (if owned then to_char Insert 34 t else Inr t)"

text \<open>Moving it: the stream that is made owns the end in any case, whatever the other one did.\<close>

definition jss_move :: "bool \<Rightarrow> bool \<times> bool" where
  "jss_move other = (True, False)"

definition jss_move_assign :: "bool \<Rightarrow> bool \<Rightarrow> bool \<times> bool" where
  "jss_move_assign owned other = (other, False)"

definition jf_Failed :: "json_formatter \<Rightarrow> 'w text_output \<Rightarrow> (bool \<times> 'w text_output) result" where
  "jf_Failed f t =
     (if jf_stream f then (let (failed, p) = ep_Failed (to_errorPolicy t) in Inr (failed, t\<lparr>to_errorPolicy := p\<rparr>))
      else Inl UndefinedBehaviour)"

subsection \<open>A client, and the document it prints\<close>

datatype json_out =
    OBool bool | OInt "64 word" | OUInt "64 word" | OBig "64 word" bool | OText "byte list" | OFloat "64 word" "32 word" bool
  | OObject out_members | OArray out_items
and out_members = NoOut | OMember "byte list" json_out out_members
and out_items = NoOutItem | OItem json_out out_items

text \<open>An array formatter has no function for floating point numbers and unsigned ones of 64 bits; an \<^verbatim>\<open>int64_t\<close> or a \<^verbatim>\<open>JsonBiggerInt\<close> may be used.\<close>

fun jf_put :: "'w insert_op \<Rightarrow> bool \<Rightarrow> byte list \<Rightarrow> json_out \<Rightarrow> 'w jf_op"
  and jf_puts :: "'w insert_op \<Rightarrow> bool \<Rightarrow> out_members \<Rightarrow> 'w jf_op"
  and jaf_put :: "'w insert_op \<Rightarrow> bool \<Rightarrow> json_out \<Rightarrow> 'w jf_op"
  and jaf_puts :: "'w insert_op \<Rightarrow> bool \<Rightarrow> out_items \<Rightarrow> 'w jf_op" where
  "jf_put Insert sg k (OBool b) f t = jf_Add_bool Insert k b f t"
| "jf_put Insert sg k (OInt i) f t = jf_Add_int64 Insert k i f t"
| "jf_put Insert sg k (OUInt u) f t = jf_Add_uint64 Insert k u f t"
| "jf_put Insert sg k (OBig u n) f t = jf_Add_BiggerInt Insert k u n f t"
| "jf_put Insert sg k (OText s) f t = jf_Add_text Insert sg k s f t"
| "jf_put Insert sg k (OFloat i nano n) f t = jf_Add_JsonFloat Insert k i nano n f t"
| "jf_put Insert sg k (OObject ms) f t =
     bindR (jf_SubObject Insert k f t) (\<lambda>(f, sub, t). bindR (jf_puts Insert sg ms sub t) (\<lambda>(sub, t).
       bindR (jf_destroy Insert sub t) (\<lambda>t. Inr (f, t))))"
| "jf_put Insert sg k (OArray vs) f t =
     bindR (jf_SubArray Insert k f t) (\<lambda>(f, sub, t). bindR (jaf_puts Insert sg vs sub t) (\<lambda>(sub, t).
       bindR (jaf_destroy Insert sub t) (\<lambda>t. Inr (f, t))))"
| "jf_puts Insert sg NoOut f t = Inr (f, t)"
| "jf_puts Insert sg (OMember k v ms) f t = bindR (jf_put Insert sg k v f t) (\<lambda>(f, t). jf_puts Insert sg ms f t)"
| "jaf_put Insert sg (OBool b) f t = jaf_Add_bool Insert b f t"
| "jaf_put Insert sg (OInt i) f t = jaf_Add_int64 Insert i f t"
| "jaf_put Insert sg (OBig u n) f t = jaf_Add_BiggerInt Insert u n f t"
| "jaf_put Insert sg (OText s) f t = jaf_Add_text Insert sg s f t"
| "jaf_put Insert sg (OObject ms) f t =
     bindR (jaf_SubObject Insert f t) (\<lambda>(f, sub, t). bindR (jf_puts Insert sg ms sub t) (\<lambda>(sub, t).
       bindR (jf_destroy Insert sub t) (\<lambda>t. Inr (f, t))))"
| "jaf_put Insert sg (OArray vs) f t =
     bindR (jaf_SubArray Insert f t) (\<lambda>(f, sub, t). bindR (jaf_puts Insert sg vs sub t) (\<lambda>(sub, t).
       bindR (jaf_destroy Insert sub t) (\<lambda>t. Inr (f, t))))"
| "jaf_put Insert sg _ f t = Inl UndefinedBehaviour"
| "jaf_puts Insert sg NoOutItem f t = Inr (f, t)"
| "jaf_puts Insert sg (OItem v vs) f t = bindR (jaf_put Insert sg v f t) (\<lambda>(f, t). jaf_puts Insert sg vs f t)"

definition json_write :: "'w insert_op \<Rightarrow> bool \<Rightarrow> out_members \<Rightarrow> 'w text_output \<Rightarrow> 'w text_output result" where
  "json_write Insert sg ms t =
     bindR (jf_make Insert t) (\<lambda>(f, t). bindR (jf_puts Insert sg ms f t) (\<lambda>(f, t). jf_destroy Insert f t))"

text \<open>The functions of the client, without the arguments that are passed on.\<close>

lemma put_eta:
  "jf_put Insert sg k (OBool b) = jf_Add_bool Insert k b"
  "jf_put Insert sg k (OInt i) = jf_Add_int64 Insert k i"
  "jf_put Insert sg k (OUInt u) = jf_Add_uint64 Insert k u"
  "jf_put Insert sg k (OBig u n) = jf_Add_BiggerInt Insert k u n"
  "jf_put Insert sg k (OText s) = jf_Add_text Insert sg k s"
  "jf_put Insert sg k (OFloat i nano n) = jf_Add_JsonFloat Insert k i nano n"
  "jf_put Insert sg k (OObject ms) f = (\<lambda>t. bindR (jf_SubObject Insert k f t) (\<lambda>(f, sub, t).
     bindR (jf_puts Insert sg ms sub t) (\<lambda>(sub, t). bindR (jf_destroy Insert sub t) (\<lambda>t. Inr (f, t)))))"
  "jf_put Insert sg k (OArray vs) f = (\<lambda>t. bindR (jf_SubArray Insert k f t) (\<lambda>(f, sub, t).
     bindR (jaf_puts Insert sg vs sub t) (\<lambda>(sub, t). bindR (jaf_destroy Insert sub t) (\<lambda>t. Inr (f, t)))))"
  "jaf_put Insert sg (OBool b) = jaf_Add_bool Insert b"
  "jaf_put Insert sg (OInt i) = jaf_Add_int64 Insert i"
  "jaf_put Insert sg (OBig u n) = jaf_Add_BiggerInt Insert u n"
  "jaf_put Insert sg (OText s) = jaf_Add_text Insert sg s"
  "jaf_put Insert sg (OObject ms) f = (\<lambda>t. bindR (jaf_SubObject Insert f t) (\<lambda>(f, sub, t).
     bindR (jf_puts Insert sg ms sub t) (\<lambda>(sub, t). bindR (jf_destroy Insert sub t) (\<lambda>t. Inr (f, t)))))"
  "jaf_put Insert sg (OArray vs) f = (\<lambda>t. bindR (jaf_SubArray Insert f t) (\<lambda>(f, sub, t).
     bindR (jaf_puts Insert sg vs sub t) (\<lambda>(sub, t). bindR (jaf_destroy Insert sub t) (\<lambda>t. Inr (f, t)))))"
  "jf_puts Insert sg (OMember k v ms) f = (\<lambda>t. bindR (jf_put Insert sg k v f t) (\<lambda>(f, t). jf_puts Insert sg ms f t))"
  "jaf_puts Insert sg (OItem v vs) f = (\<lambda>t. bindR (jaf_put Insert sg v f t) (\<lambda>(f, t). jaf_puts Insert sg vs f t))"
  by (simp_all add: fun_eq_iff)

text \<open>The document, with the white space the formatters put between its parts.\<close>

definition decimal :: "nat \<Rightarrow> byte list" where
  "decimal n = map (\<lambda>d. hexChars ! d) (radix_digits 10 n)"

definition fraction_digits :: "32 word \<Rightarrow> byte list" where
  "fraction_digits nano = (if nano mod 1000000 = 0 then padded 3 48 (decimal (unat (nano div 1000000))) else padded 9 48 (decimal (unat nano)))"

primrec out_doc :: "bool \<Rightarrow> json_out \<Rightarrow> json_doc" and out_doc_members :: "bool \<Rightarrow> out_members \<Rightarrow> doc_members"
  and out_doc_items :: "bool \<Rightarrow> out_items \<Rightarrow> doc_items" where
  "out_doc sg (OBool b) = DScalar (if b then LTrue else LFalse)"
| "out_doc sg (OInt i) = DScalar (LInt (sint i < 0) (decimal (nat \<bar>sint i\<bar>)))"
| "out_doc sg (OUInt u) = DScalar (LInt False (decimal (unat u)))"
| "out_doc sg (OBig u n) = DScalar (LInt n (decimal (unat u)))"
| "out_doc sg (OText s) = DScalar (LString (json_escaped sg s))"
| "out_doc sg (OFloat i nano n) = DScalar (LFloat n (decimal (unat i)) (fraction_digits nano))"
| "out_doc sg (OObject ms) = DObject (out_doc_members sg ms) (if ms = NoOut then [32, 32] else [32])"
| "out_doc sg (OArray vs) = DArray (out_doc_items sg vs) (if vs = NoOutItem then [32, 32] else [32])"
| "out_doc_members sg NoOut = NoMembers"
| "out_doc_members sg (OMember k v ms) = DMember [] [32] k [] [] (out_doc sg v) (out_doc_members sg ms)"
| "out_doc_items sg NoOutItem = NoItems"
| "out_doc_items sg (OItem v vs) = DItem [] [32] (out_doc sg v) (out_doc_items sg vs)"

text \<open>What can be printed: tags are strings of JSON, texts have no backslashes, fractions have nine digits.\<close>

fun in_array :: "json_out \<Rightarrow> bool" where
  "in_array (OUInt u) \<longleftrightarrow> False" | "in_array (OFloat i nano n) \<longleftrightarrow> False" | "in_array _ \<longleftrightarrow> True"

primrec out_ok :: "json_out \<Rightarrow> bool" and out_members_ok :: "out_members \<Rightarrow> bool" and out_items_ok :: "out_items \<Rightarrow> bool" where
  "out_ok (OBool b) \<longleftrightarrow> True"
| "out_ok (OInt i) \<longleftrightarrow> sint i \<noteq> - (2 ^ 63)"
| "out_ok (OUInt u) \<longleftrightarrow> True"
| "out_ok (OBig u n) \<longleftrightarrow> True"
| "out_ok (OText s) \<longleftrightarrow> 92 \<notin> set s"
| "out_ok (OFloat i nano n) \<longleftrightarrow> unat nano < 10 ^ 9"
| "out_ok (OObject ms) \<longleftrightarrow> out_members_ok ms"
| "out_ok (OArray vs) \<longleftrightarrow> out_items_ok vs"
| "out_members_ok NoOut \<longleftrightarrow> True"
| "out_members_ok (OMember k v ms) \<longleftrightarrow> js_body k \<and> out_ok v \<and> out_members_ok ms"
| "out_items_ok NoOutItem \<longleftrightarrow> True"
| "out_items_ok (OItem v vs) \<longleftrightarrow> in_array v \<and> out_ok v \<and> out_items_ok vs"

definition json_text :: "bool \<Rightarrow> out_members \<Rightarrow> byte list" where
  "json_text sg ms = doc_text [] (out_doc sg (OObject ms))"

text \<open>The same text, in the order in which it is printed.\<close>

definition put_text :: "bool \<Rightarrow> byte list \<Rightarrow> json_out \<Rightarrow> byte list" where
  "put_text sg k v = 34 # k @ [34, 58] @ doc_text [] (out_doc sg v)"

fun puts_text :: "bool \<Rightarrow> bool \<Rightarrow> out_members \<Rightarrow> byte list" where
  "puts_text sg e NoOut = []"
| "puts_text sg e (OMember k v ms) = (if e then [] else [44, 32]) @ put_text sg k v @ puts_text sg False ms"

fun items_text :: "bool \<Rightarrow> bool \<Rightarrow> out_items \<Rightarrow> byte list" where
  "items_text sg e NoOutItem = []"
| "items_text sg e (OItem v vs) = (if e then [] else [44, 32]) @ doc_text [] (out_doc sg v) @ items_text sg False vs"

lemma item_text_space: "lex_text (item_lexemes w v) = w @ lex_text (item_lexemes [] v)"
  by (cases v) simp_all

lemma rest_text: "lex_text (rest_lexemes (doc_member_list (out_doc_members sg ms))) = puts_text sg False ms"
  by (induction ms rule: out_members.induct [of "\<lambda>_. True" _ "\<lambda>_. True"])
    (simp_all add: put_text_def member_lexemes_def doc_text_def)

lemma object_text: "doc_text [] (out_doc sg (OObject ms)) = [123, 32] @ puts_text sg True ms @ [32, 125]"
  by (cases ms) (simp_all add: doc_text_def put_text_def member_lexemes_def rest_text)

lemma rest_items_text: "lex_text (items_lexemes (doc_item_list (out_doc_items sg vs))) = items_text sg False vs"
proof (induction vs rule: out_items.induct [of "\<lambda>_. True" "\<lambda>_. True"])
  case (OItem v vs)
  then show ?case using item_text_space [of "[32]"] by (simp add: doc_text_def)
qed simp_all

lemma array_text: "doc_text [] (out_doc sg (OArray vs)) = [91, 32] @ items_text sg True vs @ [32, 93]"
  using item_text_space [of "[32]"] by (cases vs) (simp_all add: doc_text_def rest_items_text)


subsection \<open>What the formatters print\<close>

context stream_sink
begin

text \<open>\<open>gives m mk bs\<close>: as \<open>emits\<close>, for operations whose result \<open>mk\<close> makes of the stream.\<close>

definition gives :: "('s text_output \<Rightarrow> 'r result) \<Rightarrow> ('s text_output \<Rightarrow> 'r) \<Rightarrow> byte list \<Rightarrow> bool" where
  "gives m mk bs \<longleftrightarrow> (\<forall>t. plain t \<and> length bs \<le> available (to_writer t) \<longrightarrow> (\<exists>t'. m t = Inr (mk t') \<and> printed t bs t' \<and> plain t'))"

lemma emits_gives: "emits op bs \<Longrightarrow> gives op (\<lambda>t. t) bs"
  by (simp add: emits_def gives_def)

lemma gives_return: "gives (\<lambda>t. Inr (mk t)) mk []"
  by (auto simp: gives_def printed_def plain_def)

lemma gives_bind: "gives m mk xs \<Longrightarrow> gives (\<lambda>t. k (mk t)) mk' ys \<Longrightarrow> gives (\<lambda>t. bindR (m t) k) mk' (xs @ ys)"
  unfolding gives_def
proof (intro allI impI)
  fix t
  assume f: "\<forall>t. plain t \<and> length xs \<le> available (to_writer t) \<longrightarrow> (\<exists>t'. m t = Inr (mk t') \<and> printed t xs t' \<and> plain t')"
    and g: "\<forall>t. plain t \<and> length ys \<le> available (to_writer t) \<longrightarrow> (\<exists>t'. k (mk t) = Inr (mk' t') \<and> printed t ys t' \<and> plain t')"
    and t: "plain t \<and> length (xs @ ys) \<le> available (to_writer t)"
  then obtain t1 where t1: "m t = Inr (mk t1)" "printed t xs t1" "plain t1" by fastforce
  then have "length ys \<le> available (to_writer t1)" using t unfolding printed_def length_append by arith
  with g t1(3) obtain t2 where "k (mk t1) = Inr (mk' t2)" "printed t1 ys t2" "plain t2" by blast
  with t1 printed_trans show "\<exists>t'. bindR (m t) k = Inr (mk' t') \<and> printed t (xs @ ys) t' \<and> plain t'" by fastforce
qed

lemma gives_then_return: "emits op bs \<Longrightarrow> gives (\<lambda>t. bindR (op t) (\<lambda>t. Inr (mk t))) mk bs"
  using gives_bind [OF emits_gives gives_return, of op bs mk] by simp

lemma gives_use: "jf_stream f \<Longrightarrow> jf_use f op = op"
  by (simp add: jf_use_def fun_eq_iff)

lemma gives_separation:
  assumes "jf_stream f"
  shows "gives (jf_InsertSeparation ins f) (Pair (f\<lparr>jf_empty := False\<rparr>)) (if jf_empty f then [] else [44, 32])"
proof (cases "jf_empty f")
  case True
  then have "jf_InsertSeparation ins f = (\<lambda>t. Inr (f\<lparr>jf_empty := False\<rparr>, t))" by (simp add: jf_InsertSeparation_def fun_eq_iff)
  with True gives_return [of "Pair (f\<lparr>jf_empty := False\<rparr>)"] show ?thesis by simp
next
  case False
  then have "jf_InsertSeparation ins f = (\<lambda>t. bindR (to_string ins [44, 32] t) (\<lambda>t. Inr (f\<lparr>jf_empty := False\<rparr>, t)))"
    using assms by (simp add: jf_InsertSeparation_def jf_use_def fun_eq_iff)
  with False gives_then_return [OF emits_string, of "[44, 32]" "Pair (f\<lparr>jf_empty := False\<rparr>)"] show ?thesis by simp
qed

lemma gives_add:
  assumes f: "jf_stream f" and op: "emits op bs"
  shows "gives (jf_add ins k start op f) (Pair (f\<lparr>jf_empty := False\<rparr>))
    ((if jf_empty f then [] else [44, 32]) @ 34 # k @ start @ bs)"
proof -
  have "emits (\<lambda>t. bindR (to_char ins 34 t) (\<lambda>t. bindR (to_string ins k t) (\<lambda>t. bindR (to_string ins start t) op))) ([34] @ k @ start @ bs)"
    by (intro emits_bind emits_char emits_string op)
  note parts = gives_then_return [OF this, of "Pair (f\<lparr>jf_empty := False\<rparr>)"]
  have "gives (\<lambda>t. bindR (jf_InsertSeparation ins f t) (\<lambda>(f, t).
      bindR (jf_use f (\<lambda>t. bindR (to_char ins 34 t) (\<lambda>t. bindR (to_string ins k t) (\<lambda>t. bindR (to_string ins start t) op))) t) (\<lambda>t. Inr (f, t))))
      (Pair (f\<lparr>jf_empty := False\<rparr>)) ((if jf_empty f then [] else [44, 32]) @ [34] @ k @ start @ bs)"
    by (rule gives_bind [OF gives_separation [OF f]]) (use parts f in \<open>simp add: jf_use_def\<close>)
  moreover have "jf_add ins k start op f = (\<lambda>t. bindR (jf_InsertSeparation ins f t) (\<lambda>(f, t).
      bindR (jf_use f (\<lambda>t. bindR (to_char ins 34 t) (\<lambda>t. bindR (to_string ins k t) (\<lambda>t. bindR (to_string ins start t) op))) t) (\<lambda>t. Inr (f, t))))"
    by (simp add: jf_add_def fun_eq_iff)
  ultimately show ?thesis by simp
qed

lemma gives_item:
  assumes f: "jf_stream f" and op: "emits op bs"
  shows "gives (jaf_add ins op f) (Pair (f\<lparr>jf_empty := False\<rparr>)) ((if jf_empty f then [] else [44, 32]) @ bs)"
proof -
  have "gives (\<lambda>t. bindR (jf_InsertSeparation ins f t) (\<lambda>(f, t). bindR (jf_use f op t) (\<lambda>t. Inr (f, t))))
      (Pair (f\<lparr>jf_empty := False\<rparr>)) ((if jf_empty f then [] else [44, 32]) @ bs)"
    by (rule gives_bind [OF gives_separation [OF f]]) (use gives_then_return [OF op] f in \<open>simp add: jf_use_def\<close>)
  moreover have "jaf_add ins op f = (\<lambda>t. bindR (jf_InsertSeparation ins f t) (\<lambda>(f, t). bindR (jf_use f op t) (\<lambda>t. Inr (f, t))))"
    by (simp add: jaf_add_def fun_eq_iff)
  ultimately show ?thesis by simp
qed

text \<open>The scalars.\<close>

lemma number_decimal: "number_text RadixDec i = (if i < 0 then [45] else []) @ decimal (nat \<bar>i\<bar>)"
  by (simp add: number_text_def decimal_def radix_base_def)

lemma emits_optional: "emits op bs \<Longrightarrow> emits (\<lambda>t. if b then op t else Inr t) (if b then bs else [])"
  using emits_nothing by (cases b) (simp_all add: emits_def)

lemma emits_bigger_int: "emits (jf_bigger_int ins u n) ((if n then [45] else []) @ decimal (unat u))"
proof -
  have "emits (\<lambda>t. bindR (if n then to_string ins [45] t else Inr t) (to_uint64 ins u)) ((if n then [45] else []) @ number_text RadixDec (int (unat u)))"
    by (intro emits_bind emits_optional emits_string emits_uint64)
  moreover have "number_text RadixDec (int (unat u)) = decimal (unat u)" unfolding number_decimal by simp
  ultimately show ?thesis by (simp add: jf_bigger_int_def [abs_def])
qed

lemma unat_word_64: "unat (ucast (u :: 32 word) :: 64 word) = unat u"
proof -
  have "unat u < 2 ^ 32" using unsigned_less [of u] by simp
  then show ?thesis by (simp add: unsigned_ucast_eq take_bit_nat_eq_self)
qed

lemma emits_fraction: "emits (jf_fraction ins i nano n w) ((if n then [45] else []) @ decimal (unat i) @ [46] @ padded w 48 (decimal (unat nano)))"
proof -
  have i: "number_text RadixDec (int (unat x)) = decimal (unat x)" for x :: "'b :: len word" unfolding number_decimal by simp
  have "emits (to_on (to_Width w 48) (to_uint64 ins (ucast nano))) (padded w 48 (number_text RadixDec (int (unat (ucast nano :: 64 word)))))"
    by (rule emits_number) (simp add: to_Width_def plain_def)
  then have "emits (to_on (to_Width w 48) (to_uint64 ins (ucast nano))) (padded w 48 (decimal (unat nano)))"
    unfolding i unat_word_64 .
  then have "emits (\<lambda>t. bindR (if n then to_char ins 45 t else Inr t) (\<lambda>t. bindR (to_uint64 ins i t) (\<lambda>t.
      bindR (to_char ins 46 t) (to_on (to_Width w 48) (to_uint32 ins nano)))))
      ((if n then [45] else []) @ number_text RadixDec (int (unat i)) @ [46] @ padded w 48 (decimal (unat nano)))"
    unfolding to_uint32_def by (intro emits_bind emits_optional emits_char emits_uint64)
  then show ?thesis unfolding i by (simp add: jf_fraction_def [abs_def])
qed


lemma number_text_doc: "number_text RadixDec i = lex_bytes (LInt (i < 0) (decimal (nat \<bar>i\<bar>)))"
  by (simp add: number_decimal)

lemma scalar_text: "doc_text [] (DScalar l) = lex_bytes l"
  by (simp add: doc_text_def)

lemma float_width: "nanoValueWidth = 9" "milliValueWidth = 3"
  by (simp_all add: nanoValueWidth_def milliValueWidth_def)

lemma gives_put_scalar:
  assumes f: "jf_stream f"
  shows "gives (jf_put ins sg k (OBool b) f) (Pair (f\<lparr>jf_empty := False\<rparr>)) ((if jf_empty f then [] else [44, 32]) @ put_text sg k (OBool b))"
    and "sint i \<noteq> - (2 ^ 63) \<Longrightarrow> gives (jf_put ins sg k (OInt i) f) (Pair (f\<lparr>jf_empty := False\<rparr>)) ((if jf_empty f then [] else [44, 32]) @ put_text sg k (OInt i))"
    and "gives (jf_put ins sg k (OUInt u) f) (Pair (f\<lparr>jf_empty := False\<rparr>)) ((if jf_empty f then [] else [44, 32]) @ put_text sg k (OUInt u))"
    and "gives (jf_put ins sg k (OBig u n) f) (Pair (f\<lparr>jf_empty := False\<rparr>)) ((if jf_empty f then [] else [44, 32]) @ put_text sg k (OBig u n))"
    and "gives (jf_put ins sg k (OText s) f) (Pair (f\<lparr>jf_empty := False\<rparr>)) ((if jf_empty f then [] else [44, 32]) @ put_text sg k (OText s))"
    and "gives (jf_put ins sg k (OFloat u nano n) f) (Pair (f\<lparr>jf_empty := False\<rparr>)) ((if jf_empty f then [] else [44, 32]) @ put_text sg k (OFloat u nano n))"
proof -
  show "gives (jf_put ins sg k (OBool b) f) (Pair (f\<lparr>jf_empty := False\<rparr>)) ((if jf_empty f then [] else [44, 32]) @ put_text sg k (OBool b))"
    using gives_add [OF f emits_string, of k "[34, 58]" "if b then [116, 114, 117, 101] else [102, 97, 108, 115, 101]"]
    by (cases b) (simp_all add: put_eta jf_Add_bool_def put_text_def scalar_text split del: if_split)
  show "gives (jf_put ins sg k (OInt i) f) (Pair (f\<lparr>jf_empty := False\<rparr>)) ((if jf_empty f then [] else [44, 32]) @ put_text sg k (OInt i))"
    if "sint i \<noteq> - (2 ^ 63)"
    using gives_add [OF f emits_int64 [OF that], of k "[34, 58]"]
    by (simp add: put_eta jf_Add_int64_def put_text_def scalar_text number_decimal split del: if_split)
  have u: "number_text RadixDec (int (unat u)) = decimal (unat u)" unfolding number_decimal by simp
  show "gives (jf_put ins sg k (OUInt u) f) (Pair (f\<lparr>jf_empty := False\<rparr>)) ((if jf_empty f then [] else [44, 32]) @ put_text sg k (OUInt u))"
    using gives_add [OF f emits_uint64 [of u, unfolded u], of k "[34, 58]"]
    by (simp add: put_eta jf_Add_uint64_def put_text_def scalar_text split del: if_split)
  show "gives (jf_put ins sg k (OBig u n) f) (Pair (f\<lparr>jf_empty := False\<rparr>)) ((if jf_empty f then [] else [44, 32]) @ put_text sg k (OBig u n))"
    using gives_add [OF f emits_bigger_int, of k "[34, 58]" u n] by (simp add: put_eta jf_Add_BiggerInt_def put_text_def scalar_text split del: if_split)
  have "emits (\<lambda>t. bindR (json_InsertEscapedContent ins sg s t) (to_char ins 34)) (json_escaped sg s @ [34])"
    by (intro emits_bind emits_escaped emits_char)
  from gives_add [OF f this, of k "[34, 58, 34]"]
  show "gives (jf_put ins sg k (OText s) f) (Pair (f\<lparr>jf_empty := False\<rparr>)) ((if jf_empty f then [] else [44, 32]) @ put_text sg k (OText s))"
    by (simp add: put_eta jf_Add_text_def put_text_def scalar_text split del: if_split)
  show "gives (jf_put ins sg k (OFloat u nano n) f) (Pair (f\<lparr>jf_empty := False\<rparr>)) ((if jf_empty f then [] else [44, 32]) @ put_text sg k (OFloat u nano n))"
    using gives_add [OF f emits_fraction [of u "nano div 1000000" n 3], of k "[34, 58]"]
      gives_add [OF f emits_fraction [of u nano n 9], of k "[34, 58]"]
    by (simp add: put_eta jf_Add_JsonFloat_def jf_AddFractionalFloat_def put_text_def scalar_text fraction_digits_def float_width)
qed

lemma gives_put_item_scalar:
  assumes f: "jf_stream f" and v: "in_array v" "out_ok v" "\<And>ms. v \<noteq> OObject ms" "\<And>vs. v \<noteq> OArray vs"
  shows "gives (jaf_put ins sg v f) (Pair (f\<lparr>jf_empty := False\<rparr>)) ((if jf_empty f then [] else [44, 32]) @ doc_text [] (out_doc sg v))"
proof (cases v)
  case (OBool b)
  with gives_item [OF f emits_string, of "if b then [116, 114, 117, 101] else [102, 97, 108, 115, 101]"] show ?thesis
    by (cases b) (simp_all add: put_eta jaf_Add_bool_def scalar_text split del: if_split)
next
  case (OInt i)
  with v(2) have "sint i \<noteq> - (2 ^ 63)" by simp
  from gives_item [OF f emits_int64 [OF this]] OInt show ?thesis by (simp add: put_eta jaf_Add_int64_def scalar_text number_decimal split del: if_split)
next
  case (OBig u n)
  with gives_item [OF f emits_bigger_int, of u n] show ?thesis by (simp add: put_eta jaf_Add_BiggerInt_def scalar_text split del: if_split)
next
  case (OText s)
  have "emits (\<lambda>t. bindR (to_char ins 34 t) (\<lambda>t. bindR (json_InsertEscapedContent ins sg s t) (to_char ins 34))) ([34] @ json_escaped sg s @ [34])"
    by (intro emits_bind emits_escaped emits_char)
  from gives_item [OF f this] OText show ?thesis by (simp add: put_eta jaf_Add_text_def scalar_text split del: if_split)
qed (use v in simp_all)

text \<open>Nested objects and arrays: the separation, the formatter, its members, and its end.\<close>

lemma gives_make: "gives (jf_make ins) (Pair \<lparr>jf_stream = True, jf_empty = True\<rparr>) [123, 32]"
  "gives (jaf_make ins) (Pair \<lparr>jf_stream = True, jf_empty = True\<rparr>) [91, 32]"
  unfolding jf_make_def [abs_def] jaf_make_def [abs_def] by (rule gives_then_return [OF emits_string])+

lemma gives_destroy: "jf_stream f \<Longrightarrow> emits (jf_destroy ins f) [32, 125]" "jf_stream f \<Longrightarrow> emits (jaf_destroy ins f) [32, 93]"
  using emits_string [of "[32, 125]"] emits_string [of "[32, 93]"] by (simp_all add: jf_destroy_def [abs_def] jaf_destroy_def [abs_def])

lemma gives_sub:
  assumes sub: "gives m (Pair g) xs" and make: "gives mk (Pair \<lparr>jf_stream = True, jf_empty = True\<rparr>) ys"
    and puts: "\<exists>h. jf_stream h \<and> gives (puts \<lparr>jf_stream = True, jf_empty = True\<rparr>) (Pair h) zs"
    and destroy: "\<And>h. jf_stream h \<Longrightarrow> emits (destroy h) us"
  shows "gives (\<lambda>t. bindR (bindR (m t) (\<lambda>(f, t). bindR (mk t) (\<lambda>(sub, t). Inr (f, sub, t))))
    (\<lambda>(f, sub, t). bindR (puts sub t) (\<lambda>(sub, t). bindR (destroy sub t) (\<lambda>t. Inr (f, t))))) (Pair g) (xs @ ys @ zs @ us)"
proof -
  let ?new = "\<lparr>jf_stream = True, jf_empty = True\<rparr>"
  from puts obtain h where h: "jf_stream h" "gives (puts ?new) (Pair h) zs" by blast
  have "gives (\<lambda>t. bindR (mk t) (\<lambda>(sub, t). Inr (g, sub, t))) (\<lambda>t. (g, ?new, t)) (ys @ [])"
    by (rule gives_bind [OF make]) (simp add: gives_return)
  with gives_bind [OF sub, of "\<lambda>(f, t). bindR (mk t) (\<lambda>(sub, t). Inr (f, sub, t))" "\<lambda>t. (g, ?new, t)" ys]
  have made: "gives (\<lambda>t. bindR (m t) (\<lambda>(f, t). bindR (mk t) (\<lambda>(sub, t). Inr (f, sub, t)))) (\<lambda>t. (g, ?new, t)) (xs @ ys)" by simp
  have close: "gives (\<lambda>t. bindR (destroy h t) (\<lambda>t. Inr (g, t))) (Pair g) us"
    by (rule gives_then_return [OF destroy [OF h(1)]])
  have "gives (\<lambda>t. bindR (puts ?new t) (\<lambda>(sub, t). bindR (destroy sub t) (\<lambda>t. Inr (g, t)))) (Pair g) (zs @ us)"
    by (rule gives_bind [OF h(2)]) (simp add: close)
  then have "gives (\<lambda>t. bindR (bindR (m t) (\<lambda>(f, t). bindR (mk t) (\<lambda>(sub, t). Inr (f, sub, t))))
      (\<lambda>(f, sub, t). bindR (puts sub t) (\<lambda>(sub, t). bindR (destroy sub t) (\<lambda>t. Inr (f, t))))) (Pair g) ((xs @ ys) @ zs @ us)"
    by (intro gives_bind [OF made]) simp
  then show ?thesis by simp
qed

lemma gives_put:
  shows "out_ok v \<Longrightarrow> (\<forall>k f. jf_stream f \<longrightarrow>
        gives (jf_put ins sg k v f) (Pair (f\<lparr>jf_empty := False\<rparr>)) ((if jf_empty f then [] else [44, 32]) @ put_text sg k v))
      \<and> (\<forall>f. jf_stream f \<and> in_array v \<longrightarrow>
        gives (jaf_put ins sg v f) (Pair (f\<lparr>jf_empty := False\<rparr>)) ((if jf_empty f then [] else [44, 32]) @ doc_text [] (out_doc sg v)))"
    and "out_members_ok ms \<Longrightarrow> \<forall>f. jf_stream f \<longrightarrow> (\<exists>h. jf_stream h \<and> gives (jf_puts ins sg ms f) (Pair h) (puts_text sg (jf_empty f) ms))"
    and "out_items_ok vs \<Longrightarrow> \<forall>f. jf_stream f \<longrightarrow> (\<exists>h. jf_stream h \<and> gives (jaf_puts ins sg vs f) (Pair h) (items_text sg (jf_empty f) vs))"
proof (induction v and ms and vs)
  case (OObject ms)
  then have puts: "\<exists>h. jf_stream h \<and> gives (jf_puts ins sg ms \<lparr>jf_stream = True, jf_empty = True\<rparr>) (Pair h) (puts_text sg True ms)"
    using OObject.IH [THEN spec, of "\<lparr>jf_stream = True, jf_empty = True\<rparr>"] by simp
  show ?case
  proof (intro conjI allI impI)
    fix k and f :: json_formatter assume f: "jf_stream f"
    from gives_sub [where puts = "jf_puts ins sg ms", OF gives_add [OF f emits_nothing, of k "[34, 58]"] gives_make(1) puts gives_destroy(1)]
    show "gives (jf_put ins sg k (OObject ms) f) (Pair (f\<lparr>jf_empty := False\<rparr>)) ((if jf_empty f then [] else [44, 32]) @ put_text sg k (OObject ms))"
      by (simp add: put_eta jf_SubObject_def put_text_def object_text del: out_doc.simps split del: if_split)
  next
    fix f :: json_formatter assume "jf_stream f \<and> in_array (OObject ms)"
    then have f: "jf_stream f" by simp
    from gives_sub [where puts = "jf_puts ins sg ms", OF gives_item [OF f emits_nothing] gives_make(1) puts gives_destroy(1)]
    show "gives (jaf_put ins sg (OObject ms) f) (Pair (f\<lparr>jf_empty := False\<rparr>)) ((if jf_empty f then [] else [44, 32]) @ doc_text [] (out_doc sg (OObject ms)))"
      by (simp add: put_eta jaf_SubObject_def object_text del: out_doc.simps split del: if_split)
  qed
next
  case (OArray vs)
  then have puts: "\<exists>h. jf_stream h \<and> gives (jaf_puts ins sg vs \<lparr>jf_stream = True, jf_empty = True\<rparr>) (Pair h) (items_text sg True vs)"
    using OArray.IH [THEN spec, of "\<lparr>jf_stream = True, jf_empty = True\<rparr>"] by simp
  show ?case
  proof (intro conjI allI impI)
    fix k and f :: json_formatter assume f: "jf_stream f"
    from gives_sub [where puts = "jaf_puts ins sg vs", OF gives_add [OF f emits_nothing, of k "[34, 58]"] gives_make(2) puts gives_destroy(2)]
    show "gives (jf_put ins sg k (OArray vs) f) (Pair (f\<lparr>jf_empty := False\<rparr>)) ((if jf_empty f then [] else [44, 32]) @ put_text sg k (OArray vs))"
      by (simp add: put_eta jf_SubArray_def put_text_def array_text del: out_doc.simps split del: if_split)
  next
    fix f :: json_formatter assume "jf_stream f \<and> in_array (OArray vs)"
    then have f: "jf_stream f" by simp
    from gives_sub [where puts = "jaf_puts ins sg vs", OF gives_item [OF f emits_nothing] gives_make(2) puts gives_destroy(2)]
    show "gives (jaf_put ins sg (OArray vs) f) (Pair (f\<lparr>jf_empty := False\<rparr>)) ((if jf_empty f then [] else [44, 32]) @ doc_text [] (out_doc sg (OArray vs)))"
      by (simp add: put_eta jaf_SubArray_def array_text del: out_doc.simps split del: if_split)
  qed
next
  case NoOut
  show ?case using gives_return by fastforce
next
  case (OMember k v ms)
  show ?case
  proof (intro allI impI)
    fix f :: json_formatter assume f: "jf_stream f"
    let ?f = "f\<lparr>jf_empty := False\<rparr>"
    have put: "gives (jf_put ins sg k v f) (Pair ?f) ((if jf_empty f then [] else [44, 32]) @ put_text sg k v)" using OMember f by simp
    have "jf_stream ?f" using f by simp
    then obtain h where h: "jf_stream h" "gives (jf_puts ins sg ms ?f) (Pair h) (puts_text sg False ms)"
      using OMember.IH(2) [THEN spec, of ?f] OMember.prems by auto
    have "gives (\<lambda>t. bindR (jf_put ins sg k v f t) (\<lambda>(f, t). jf_puts ins sg ms f t)) (Pair h)
        (((if jf_empty f then [] else [44, 32]) @ put_text sg k v) @ puts_text sg False ms)"
      by (rule gives_bind [OF put]) (use h(2) in simp)
    with h(1) show "\<exists>h. jf_stream h \<and> gives (jf_puts ins sg (OMember k v ms) f) (Pair h) (puts_text sg (jf_empty f) (OMember k v ms))"
      by (intro exI [of _ h]) (simp add: put_eta split del: if_split)
  qed
next
  case NoOutItem
  show ?case using gives_return by fastforce
next
  case (OItem v vs)
  show ?case
  proof (intro allI impI)
    fix f :: json_formatter assume f: "jf_stream f"
    let ?f = "f\<lparr>jf_empty := False\<rparr>"
    have put: "gives (jaf_put ins sg v f) (Pair ?f) ((if jf_empty f then [] else [44, 32]) @ doc_text [] (out_doc sg v))" using OItem f by simp
    have "jf_stream ?f" using f by simp
    then obtain h where h: "jf_stream h" "gives (jaf_puts ins sg vs ?f) (Pair h) (items_text sg False vs)"
      using OItem.IH(2) [THEN spec, of ?f] OItem.prems by auto
    have "gives (\<lambda>t. bindR (jaf_put ins sg v f t) (\<lambda>(f, t). jaf_puts ins sg vs f t)) (Pair h)
        (((if jf_empty f then [] else [44, 32]) @ doc_text [] (out_doc sg v)) @ items_text sg False vs)"
      by (rule gives_bind [OF put]) (use h(2) in simp)
    with h(1) show "\<exists>h. jf_stream h \<and> gives (jaf_puts ins sg (OItem v vs) f) (Pair h) (items_text sg (jf_empty f) (OItem v vs))"
      by (intro exI [of _ h]) (simp add: put_eta split del: if_split)
  qed
qed (simp_all add: gives_put_scalar gives_put_item_scalar del: jf_put.simps jaf_put.simps out_doc.simps split del: if_split)

lemma emits_write:
  assumes "out_members_ok ms"
  shows "emits (json_write ins sg ms) (json_text sg ms)"
proof -
  let ?new = "\<lparr>jf_stream = True, jf_empty = True\<rparr>"
  have "\<exists>h. jf_stream h \<and> gives (jf_puts ins sg ms ?new) (Pair h) (puts_text sg True ms)" 
    using gives_put(2) [OF assms, where sg = sg, THEN spec, of ?new] by simp
  then obtain h where h: "jf_stream h" "gives (jf_puts ins sg ms ?new) (Pair h) (puts_text sg True ms)" by blast
  have "gives (\<lambda>t. bindR (jf_puts ins sg ms ?new t) (\<lambda>(f, t). jf_destroy ins f t)) (\<lambda>t. t) (puts_text sg True ms @ [32, 125])"
    by (rule gives_bind [OF h(2)]) (use emits_gives [OF gives_destroy(1) [OF h(1)]] in simp)
  then have "gives (\<lambda>t. bindR (jf_make ins t) (\<lambda>(f, t). bindR (jf_puts ins sg ms f t) (\<lambda>(f, t). jf_destroy ins f t))) (\<lambda>t. t)
      ([123, 32] @ puts_text sg True ms @ [32, 125])"
    by (intro gives_bind [OF gives_make(1)]) simp
  then show ?thesis
    by (simp add: emits_def gives_def json_write_def [abs_def] json_text_def object_text del: out_doc.simps)
qed

end

end
