(* ===== verification/Json_Roundtrip.thy ===== *)
theory Json_Roundtrip
  imports Json_Formatter
begin

section \<open>What is printed as JSON is read back\<close>

text \<open>
  The text that the formatters print is a document in the sense of \<open>Json_Documents\<close>, so the iterators read it, level by level.
  \<open>reads_as\<close> says what a client finds that reads everything: booleans, integers and texts as they were added, and in
  objects and arrays the members in their order. At last two things that are not read back: texts with backslashes, and the
  members that are added after a formatter has moved.
\<close>

subsection \<open>Decimal digits\<close>

lemma decimal_digit: "d < 10 \<Longrightarrow> isdigit (hexChars ! d) \<and> unat (hexChars ! d) - 48 = d"
proof -
  have "list_all (\<lambda>d. isdigit (hexChars ! d) \<and> unat (hexChars ! d) - 48 = d) [0..<10]" by code_simp
  then show "d < 10 \<Longrightarrow> isdigit (hexChars ! d) \<and> unat (hexChars ! d) - 48 = d" by (simp add: list_all_iff)
qed

lemma decimal_isdigit: "list_all isdigit (decimal n)"
  using radix_digits_less [of 10 _ n] decimal_digit by (auto simp: decimal_def list_all_iff)

lemma decimal_not_Nil [simp]: "decimal n \<noteq> []"
  by (simp add: decimal_def)

lemma padded_isdigit: "list_all isdigit ds \<Longrightarrow> list_all isdigit (padded w 48 ds)"
  by (auto simp: padded_def list_all_iff isdigit_def)

lemma digits_fold_map: "list_all (\<lambda>d. d < 10) ds \<Longrightarrow>
    foldl (\<lambda>v c. v * 10 + (unat c - 48)) n (map (\<lambda>d. hexChars ! d) ds) = foldl (\<lambda>a d. a * 10 + d) n ds"
  by (induction ds arbitrary: n) (simp_all add: decimal_digit)

lemma digits_value_decimal: "digits_value (decimal n) = n"
  using digits_fold_map [of "radix_digits 10 n" 0] radix_digits_less [of 10 _ n] foldl_radix_digits [of 10 n]
  by (simp add: digits_value_def decimal_def list_all_iff)

lemma digits_value_padded: "digits_value (padded w 48 ds) = digits_value ds"
proof -
  have "foldl (\<lambda>v c. v * 10 + (unat c - 48)) 0 (replicate n (48 :: byte)) = 0" for n by (induction n) simp_all
  then show ?thesis by (simp add: digits_value_def padded_def)
qed

lemma padded_decimal_length: "n < 10 ^ k \<Longrightarrow> 0 < k \<Longrightarrow> length (padded k 48 (decimal n)) = k"
  using radix_digits_length [of 10 n k] by (simp add: padded_def decimal_def)

lemma pad_fraction_decimal: "n < 10 ^ k \<Longrightarrow> 0 < k \<Longrightarrow> k \<le> 9 \<Longrightarrow>
    pad_fraction (take nanoValueWidth (padded k 48 (decimal n))) = of_nat (n * 10 ^ (9 - k))"
  using padded_decimal_length [of n k] padded_isdigit [OF decimal_isdigit, of k n]
  by (simp add: pad_fraction_def nanoValueWidth_def ToInt32_digits digits_value_padded digits_value_decimal times_ten)

lemma fraction_isdigit: "list_all isdigit (fraction_digits nano)"
  by (simp add: fraction_digits_def padded_isdigit decimal_isdigit)

lemma fraction_value:
  assumes "unat nano < 10 ^ 9"
  shows "pad_fraction (take nanoValueWidth (fraction_digits nano)) = nano"
proof (cases "nano mod 1000000 = 0")
  case True
  have "unat (nano div 1000000) = unat nano div 1000000" "unat (nano mod 1000000) = unat nano mod 1000000"
    by (simp_all add: unat_div unat_mod)
  with True have m: "unat nano mod 1000000 = 0" and d: "unat (nano div 1000000) = unat nano div 1000000" by simp_all
  then have "unat (nano div 1000000) * 10 ^ 6 = unat nano" by auto
  moreover have "unat (nano div 1000000) < 10 ^ 3" using assms d by (simp add: less_mult_imp_div_less)
  ultimately show ?thesis
    using True pad_fraction_decimal [of "unat (nano div 1000000)" 3] by (simp add: fraction_digits_def)
next
  case False
  then show ?thesis using pad_fraction_decimal [OF assms] by (simp add: fraction_digits_def)
qed

subsection \<open>The text is a document\<close>

definition ends :: "byte list \<Rightarrow> bool" where
  "ends post \<longleftrightarrow> post = [] \<or> hd post \<in> {44, 32, 125, 93, 34}"

lemma ends_lexeme: "ends post \<Longrightarrow> lex_ends l post"
  by (cases l) (auto simp: ends_def isdigit_def isalpha_def)

lemma ends_number: "ends post \<Longrightarrow> post = [] \<or> \<not> isdigit (hd post) \<and> hd post \<noteq> 46"
  "ends post \<Longrightarrow> post = [] \<or> \<not> isdigit (hd post) \<and> hd post \<noteq> 45"
  by (auto simp: ends_def isdigit_def)

lemma space_isspace [simp]: "isspace 32"
  by (simp add: isspace_def)

lemma out_lexed:
  shows "out_ok v \<Longrightarrow> \<forall>w post. list_all isspace w \<and> ends post \<longrightarrow>
      doc_ok (out_doc sg v) \<and> lexed (item_lexemes w (doc_item (out_doc sg v))) post"
    and "out_members_ok ms \<Longrightarrow> \<forall>post. ends post \<longrightarrow> doc_members_ok (out_doc_members sg ms)
      \<and> lexed (members_lexemes (doc_member_list (out_doc_members sg ms))) post
      \<and> lexed (rest_lexemes (doc_member_list (out_doc_members sg ms))) post
      \<and> ends (lex_text (rest_lexemes (doc_member_list (out_doc_members sg ms))) @ post)"
    and "out_items_ok vs \<Longrightarrow> \<forall>post. ends post \<longrightarrow> doc_items_ok (out_doc_items sg vs)
      \<and> lexed (values_lexemes (doc_item_list (out_doc_items sg vs))) post
      \<and> lexed (items_lexemes (doc_item_list (out_doc_items sg vs))) post
      \<and> ends (lex_text (items_lexemes (doc_item_list (out_doc_items sg vs))) @ post)"
proof (induction v and ms and vs)
  case (OBool b)
  then show ?case by (simp add: ends_lexeme)
next
  case (OText s)
  then show ?case by (simp add: json_escaped_read)
next
  case (OObject ms)
  have e: "ends (lex_text [(w, LCloseBrace)] @ post)" if "w = [32] \<or> w = [32, 32]" for w post using that by (auto simp: ends_def)
  show ?case using OObject.IH [rule_format, OF _ e] OObject.prems by auto
next
  case (OArray vs)
  have e: "ends (lex_text [(w, LCloseBracket)] @ post)" if "w = [32] \<or> w = [32, 32]" for w post using that by (auto simp: ends_def)
  show ?case using OArray.IH [rule_format, OF _ e] OArray.prems by auto
next
  case (OMember k v ms)
  show ?case
  proof (intro allI impI)
    fix post assume "ends post"
    with OMember.IH(2) OMember.prems have ms: "doc_members_ok (out_doc_members sg ms)"
      "lexed (rest_lexemes (doc_member_list (out_doc_members sg ms))) post"
      "ends (lex_text (rest_lexemes (doc_member_list (out_doc_members sg ms))) @ post)" by simp_all
    have "doc_ok (out_doc sg v)"
      "lexed (item_lexemes [] (doc_item (out_doc sg v))) (lex_text (rest_lexemes (doc_member_list (out_doc_members sg ms))) @ post)"
      using OMember.IH(1) [rule_format, of "[]"] OMember.prems ms(3) by simp_all
    with ms OMember.prems show "doc_members_ok (out_doc_members sg (OMember k v ms))
      \<and> lexed (members_lexemes (doc_member_list (out_doc_members sg (OMember k v ms)))) post
      \<and> lexed (rest_lexemes (doc_member_list (out_doc_members sg (OMember k v ms)))) post
      \<and> ends (lex_text (rest_lexemes (doc_member_list (out_doc_members sg (OMember k v ms)))) @ post)"
      by (simp add: member_lexemes_def ends_def)
  qed
next
  case (OItem v vs)
  show ?case
  proof (intro allI impI)
    fix post assume "ends post"
    with OItem.IH(2) OItem.prems have vs: "doc_items_ok (out_doc_items sg vs)"
      "lexed (items_lexemes (doc_item_list (out_doc_items sg vs))) post"
      "ends (lex_text (items_lexemes (doc_item_list (out_doc_items sg vs))) @ post)" by simp_all
    have "doc_ok (out_doc sg v)"
      "lexed (item_lexemes [32] (doc_item (out_doc sg v))) (lex_text (items_lexemes (doc_item_list (out_doc_items sg vs))) @ post)"
      using OItem.IH(1) [rule_format, of "[32]"] OItem.prems vs(3) by simp_all
    with vs show "doc_items_ok (out_doc_items sg (OItem v vs))
      \<and> lexed (values_lexemes (doc_item_list (out_doc_items sg (OItem v vs)))) post
      \<and> lexed (items_lexemes (doc_item_list (out_doc_items sg (OItem v vs)))) post
      \<and> ends (lex_text (items_lexemes (doc_item_list (out_doc_items sg (OItem v vs)))) @ post)"
      by (simp add: ends_def)
  qed
qed (simp_all add: ends_lexeme ends_number decimal_isdigit fraction_isdigit)

subsection \<open>Reading it\<close>

definition number_value :: "bool \<Rightarrow> 64 word \<Rightarrow> json_value" where
  "number_value negative u =
     (let i = (if negative then - uint u else uint u) in if - (2 ^ 31) \<le> i \<and> i < 2 ^ 31 then VInt (word_of_int i) else VBigger u negative)"

fun reads_as :: "json_out \<Rightarrow> json_value \<Rightarrow> bool"
  and reads_members :: "out_members \<Rightarrow> (byte list \<times> json_value) list \<Rightarrow> bool"
  and reads_items :: "out_items \<Rightarrow> json_value list \<Rightarrow> bool" where
  "reads_as (OBool b) x \<longleftrightarrow> x = VBool b"
| "reads_as (OInt i) x \<longleftrightarrow> x = number_value (sint i < 0) (word_of_int \<bar>sint i\<bar>)"
| "reads_as (OUInt u) x \<longleftrightarrow> x = number_value False u"
| "reads_as (OBig u n) x \<longleftrightarrow> x = number_value n u"
| "reads_as (OText s) x \<longleftrightarrow> (case x of VString raw \<Rightarrow> js_chars raw = Inr s | _ \<Rightarrow> False)"
| "reads_as (OFloat i nano n) x \<longleftrightarrow> x = VFloat i nano n"
| "reads_as (OObject ms) x \<longleftrightarrow>
     (case x of VObject os \<Rightarrow> (case jo_members os False of Inr (kvs, error) \<Rightarrow> \<not> error \<and> reads_members ms kvs | Inl _ \<Rightarrow> False) | _ \<Rightarrow> False)"
| "reads_as (OArray vs) x \<longleftrightarrow>
     (case x of VArray os \<Rightarrow> (case ja_values os False of Inr (xs, error) \<Rightarrow> \<not> error \<and> reads_items vs xs | Inl _ \<Rightarrow> False) | _ \<Rightarrow> False)"
| "reads_members NoOut kvs \<longleftrightarrow> kvs = []"
| "reads_members (OMember k v ms) kvs \<longleftrightarrow> (case kvs of (k', x) # kvs \<Rightarrow> k' = k \<and> reads_as v x \<and> reads_members ms kvs | [] \<Rightarrow> False)"
| "reads_items NoOutItem xs \<longleftrightarrow> xs = []"
| "reads_items (OItem v vs) xs \<longleftrightarrow> (case xs of x # xs \<Rightarrow> reads_as v x \<and> reads_items vs xs | [] \<Rightarrow> False)"

lemma number_is_read: "scalar_value (LInt n (decimal (unat u))) = number_value n u"
proof -
  have "unat u < 2 ^ 64" using unsigned_less [of u] by simp
  from ReadInteger_cases [OF this refl, of n] show ?thesis
    by (simp add: ToInt64_digits decimal_isdigit digits_value_decimal number_value_def Let_def)
qed

lemma sint_is_read:
  assumes "sint (i :: 64 word) \<noteq> - (2 ^ 63)"
  shows "decimal (nat \<bar>sint i\<bar>) = decimal (unat (word_of_int \<bar>sint i\<bar> :: 64 word))"
proof -
  have "- (2 ^ 63) \<le> sint i" "sint i < 2 ^ 63" using sint_greater_eq [of i] sint_less [of i] by simp_all
  then have "\<bar>sint i\<bar> < 2 ^ 64" by simp
  then have "uint (word_of_int \<bar>sint i\<bar> :: 64 word) = \<bar>sint i\<bar>" by (simp add: uint_word_of_int)
  then show ?thesis by (simp add: unat_eq_nat_uint)
qed

text \<open>One level, read by the iterators.\<close>

lemma out_written:
  assumes "out_ok v" and "length (doc_text [] (out_doc sg v)) < 2 ^ 32"
  shows "doc_written [] (out_doc sg v) []"
  using out_lexed(1) [OF assms(1), of sg, THEN spec, THEN spec, of "[]" "[]"] assms(2) by (simp add: doc_written_def ends_def)

lemma object_read:
  assumes "out_members_ok ms" and "length (doc_text [] (out_doc sg (OObject ms))) < 2 ^ 32"
  shows "jo_members (doc_text [] (out_doc sg (OObject ms))) False = Inr (doc_member_values (out_doc_members sg ms), False)"
proof -
  have "doc_written [] (out_doc sg (OObject ms)) []" using out_written [OF _ assms(2)] assms(1) by simp
  note D = doc_object_members [OF this [unfolded out_doc.simps]]
  from jo_members_of_text [OF D(1,2), of False] D(3) show ?thesis by (simp add: doc_member_values_list)
qed

lemma array_read:
  assumes "out_items_ok vs" and "length (doc_text [] (out_doc sg (OArray vs))) < 2 ^ 32"
  shows "ja_values (doc_text [] (out_doc sg (OArray vs))) False = Inr (doc_item_values (out_doc_items sg vs), False)"
proof -
  have "doc_written [] (out_doc sg (OArray vs)) []" using out_written [OF _ assms(2)] assms(1) by simp
  note D = doc_array_items [OF this [unfolded out_doc.simps]]
  have "takeWhile (\<lambda>_. True) xs = xs" "list_all (\<lambda>_. True) xs" for xs :: "json_value list" by (induction xs) simp_all
  with ja_typed_of_text [OF D(1,2), of "\<lambda>_. True" False] D(3) show ?thesis by (simp add: ja_values_def doc_item_values_list)
qed

lemma values_read:
  shows "out_ok v \<Longrightarrow> length (doc_text [] (out_doc sg v)) < 2 ^ 32 \<Longrightarrow> reads_as v (doc_value (out_doc sg v))"
    and "out_members_ok ms \<Longrightarrow> length (puts_text sg False ms) < 2 ^ 32 \<Longrightarrow> reads_members ms (doc_member_values (out_doc_members sg ms))"
    and "out_items_ok vs \<Longrightarrow> length (items_text sg False vs) < 2 ^ 32 \<Longrightarrow> reads_items vs (doc_item_values (out_doc_items sg vs))"
proof (induction v and ms and vs)
  case (OText s)
  then show ?case by (simp add: doc_value_def json_escaped_read)
next
  case (OInt i)
  then have "sint i \<noteq> - (2 ^ 63)" by simp
  from sint_is_read [OF this] show ?case by (simp add: doc_value_def number_is_read del: scalar_value.simps)
next
  case (OFloat i nano n)
  then show ?case by (simp add: doc_value_def fraction_value ToInt64_digits decimal_isdigit digits_value_decimal)
next
  case (OObject ms)
  have "length (puts_text sg False ms) \<le> length (puts_text sg True ms) + 2" by (cases ms) simp_all
  then have "length (puts_text sg False ms) < 2 ^ 32" using OObject.prems(2) unfolding object_text by simp
  with OObject object_read [of ms sg] show ?case
    by (simp add: doc_value_def)
next
  case (OArray vs)
  have "length (items_text sg False vs) \<le> length (items_text sg True vs) + 2" by (cases vs) simp_all
  then have "length (items_text sg False vs) < 2 ^ 32" using OArray.prems(2) unfolding array_text by simp
  with OArray array_read [of vs sg] show ?case
    by (simp add: doc_value_def)
next
  case (OMember k v ms)
  then show ?case by (simp add: put_text_def)
next
  case (OItem v vs)
  then show ?case by simp
qed (simp_all add: doc_value_def number_is_read del: scalar_value.simps(2))

subsection \<open>A formatter that moves\<close>

text \<open>
  A client that adds a member, moves the formatter, and adds the others to the new one. The old one is destroyed last.
\<close>

definition json_write_moved :: "'w insert_op \<Rightarrow> bool \<Rightarrow> byte list \<Rightarrow> json_out \<Rightarrow> out_members \<Rightarrow> 'w text_output \<Rightarrow> 'w text_output result" where
  "json_write_moved Insert sg k v ms t =
     bindR (jf_make Insert t) (\<lambda>(f, t). bindR (jf_put Insert sg k v f t) (\<lambda>(f, t).
       let (moved, f) = jf_move f
       in bindR (jf_puts Insert sg ms moved t) (\<lambda>(moved, t). bindR (jf_destroy Insert moved t) (jf_destroy Insert f))))"

definition moved_text :: "bool \<Rightarrow> byte list \<Rightarrow> json_out \<Rightarrow> out_members \<Rightarrow> byte list" where
  "moved_text sg k v ms = [123, 32] @ put_text sg k v @ puts_text sg True ms @ [32, 125]"

context stream_sink
begin

lemma emits_write_moved:
  assumes "out_ok v" and "out_members_ok ms"
  shows "emits (json_write_moved ins sg k v ms) (moved_text sg k v ms)"
proof -
  let ?new = "\<lparr>jf_stream = True, jf_empty = True\<rparr>" and ?f = "\<lparr>jf_stream = True, jf_empty = False\<rparr>"
  let ?old = "\<lparr>jf_stream = False, jf_empty = False\<rparr>"
  obtain h where h: "jf_stream h" "gives (jf_puts ins sg ms ?new) (Pair h) (puts_text sg True ms)"
    using gives_put(2) [OF assms(2), where sg = sg, THEN spec, of ?new] by auto
  have put: "gives (jf_put ins sg k v ?new) (Pair ?f) (put_text sg k v)"
    using gives_put(1) [OF assms(1), where sg = sg, THEN conjunct1, THEN spec, THEN spec, of ?new k] by simp
  have old: "jf_destroy ins ?old = Inr" by (simp add: jf_destroy_def fun_eq_iff)
  have "gives (\<lambda>t. bindR (jf_destroy ins h t) Inr) (\<lambda>t. t) [32, 125]"
    using gives_then_return [OF gives_destroy(1) [OF h(1)], of "\<lambda>t. t"] by simp
  then have "gives (\<lambda>t. bindR (jf_puts ins sg ms ?new t) (\<lambda>(moved, t). bindR (jf_destroy ins moved t) Inr)) (\<lambda>t. t)
      (puts_text sg True ms @ [32, 125])"
    by (intro gives_bind [OF h(2)]) simp
  then have "gives (\<lambda>t. bindR (jf_put ins sg k v ?new t) (\<lambda>(f, t). let (moved, f) = jf_move f
      in bindR (jf_puts ins sg ms moved t) (\<lambda>(moved, t). bindR (jf_destroy ins moved t) (jf_destroy ins f)))) (\<lambda>t. t)
      (put_text sg k v @ puts_text sg True ms @ [32, 125])"
    by (intro gives_bind [OF put]) (simp add: jf_move_def old)
  then have "gives (json_write_moved ins sg k v ms) (\<lambda>t. t) ([123, 32] @ put_text sg k v @ puts_text sg True ms @ [32, 125])"
    unfolding json_write_moved_def [abs_def] by (intro gives_bind [OF gives_make(1)]) simp
  then show ?thesis by (simp add: emits_def gives_def moved_text_def)
qed

end

text \<open>The reader sees the first member, and then a string where there should be a comma.\<close>

lemma moved_is_read:
  assumes ok: "js_body k" "out_ok v" "out_members_ok ms" "ms \<noteq> NoOut" and len: "length (moved_text sg k v ms) < 2 ^ 32"
  shows "jo_members (moved_text sg k v ms) False = Inr ([(k, doc_value (out_doc sg v))], True)"
proof -
  define m where "m = Member [32] k [] [] (doc_item (out_doc sg v))"
  let ?os = "moved_text sg k v ms"
  obtain k' v' ms' where ms: "ms = OMember k' v' ms'" using ok(4) by (cases ms) auto
  define rest where "rest = ([], LColon) # item_lexemes [] (doc_item (out_doc sg v')) @ rest_lexemes (doc_member_list (out_doc_members sg ms'))
      @ [([32], LCloseBrace)]"
  let ?ls = "([], LString k') # rest"
  have "ends [32, 125]" by (simp add: ends_def)
  with out_lexed(2) [OF ok(3), of sg] have ls: "lexed ?ls []" by (simp add: rest_def ms member_lexemes_def)
  have "ends (lex_text ?ls)" by (simp add: ends_def)
  with out_lexed(1) [OF ok(2), of sg, THEN spec, THEN spec, of "[]" "lex_text ?ls"] ls ok(1)
  have lexed: "lexed (([], LOpenBrace) # member_lexemes m @ ?ls) []" and doc: "doc_ok (out_doc sg v)"
    and v: "lexed (item_lexemes [] (doc_item (out_doc sg v))) (lex_text ?ls)"
    by (simp_all add: m_def member_lexemes_def)
  have os: "?os = lex_text (([], LOpenBrace) # member_lexemes m @ ?ls)"
    by (simp add: m_def rest_def ms member_lexemes_def moved_text_def put_text_def doc_text_def rest_text)
  have "length (doc_text [] (out_doc sg v)) < 2 ^ 32" using len by (simp add: moved_text_def put_text_def)
  from doc_item_ok [OF doc v this] have item: "item_ok (item m)" by (simp add: m_def)
  define it0 where "it0 = \<lparr>joi_parseIndex = 0, joi_key = [], joi_value = VBool False, joi_state = readObjectStart, joi_error = False\<rparr>"
  define it1 where "it1 = it0\<lparr>joi_parseIndex := 1, joi_state := readKeyOrEnd\<rparr>"
  define it2 where "it2 = \<lparr>joi_parseIndex = 1 + length (lex_text (member_lexemes m)), joi_key = raw_key m,
    joi_value = item_value (item m), joi_state = readCommaOrObjectEnd, joi_error = False\<rparr>"
  have T: "Token ?os 0 = (LeftBrace 0, 1)" "drop 1 ?os = lex_text (member_lexemes m @ ?ls) @ []" "1 \<le> length ?os"
    using Token_lexed [of 0 ?os "[]" LOpenBrace "member_lexemes m @ ?ls" "[]"] lexed os by simp_all
  have "joi_ParseNextToken ?os it0 = Inr it1"
    using T(1) by (simp add: joi_ParseNextToken_def joi_ReadObjectStart_def it0_def it1_def)
  then have start: "joi_begin ?os False = joi_increment ?os it1"
    by (simp add: joi_begin_def it0_def [symmetric] joi_increment_step it1_def)
  have one: "joi_increment ?os it1 = Inr it2"
    using joi_reads_member [of it1 ?os m ?ls "[]"] T(2,3) lexed item by (simp add: it2_def it1_def it0_def)
  have d: "drop (joi_parseIndex it2) ?os = lex_text ?ls @ []" "joi_parseIndex it2 \<le> length ?os"
    using drop_app [of 1 ?os "lex_text (member_lexemes m)" "lex_text ?ls @ []"] T(2,3) by (simp_all add: it2_def)
  obtain j where "Token ?os (joi_parseIndex it2) = (StringToken k', j)"
    using Token_lexed [OF d ls] by simp
  then have two: "joi_increment ?os it2 = Inr (it2\<lparr>joi_parseIndex := j, joi_error := True, joi_state := objectEnd\<rparr>)"
    by (subst joi_increment.simps) (simp add: joi_ParseNextToken_def joi_ReadCommaOrObjectEnd_def joi_SetError_def it2_def)
  have "joi_all ?os it2 = Inr ([(raw_key m, item_value (item m))], True)"
    using two by (subst joi_all.simps) (simp add: it2_def)
  then show ?thesis using start one by (simp add: jo_members_def m_def doc_value_item)
qed

subsection \<open>Properties\<close>

text \<open>What a client prints to a string.\<close>

lemma printed_to_string:
  assumes "stream_sink.emits bstr_wf bstr_text sow_Available op bs"
    and "bstr_wf s" and "length bs \<le> sow_Available s"
  shows "\<exists>t. op (to_make s p) = Inr t \<and> bstr_text (to_writer t) = bstr_text s @ bs \<and> ep_failed (to_errorPolicy t) = ep_failed p"
proof -
  note sink = sow.stream_sink_axioms
  have "stream_sink.plain bstr_wf (to_make s p)"
    using assms(2) by (simp add: stream_sink.plain_def [OF sink] to_make_def)
  with assms(1,3) obtain t where "op (to_make s p) = Inr t" "stream_sink.printed bstr_wf bstr_text sow_Available (to_make s p) bs t"
    unfolding stream_sink.emits_def [OF sink] by (auto simp: to_make_def)
  then show ?thesis by (auto simp: stream_sink.printed_def [OF sink] to_make_def)
qed

lemma room_is_bounded: "bstr_wf s \<Longrightarrow> n \<le> sow_Available s \<Longrightarrow> n < 2 ^ 32"
  unfolding bstr_wf_def sow_Available_def size_limit_def by simp linarith

text \<open>
  C20. What a client adds to a \<^verbatim>\<open>JsonObjectFormatter\<close>, with objects and arrays in each other to any depth, is printed to a string that has room for
  it as one document, and reading that document with the iterators gives back everything that was added: keys, booleans,
  integers, fractions and texts, in their order, without an error. The tags must be strings of JSON, texts must not contain
  backslashes, and of the integers only the least of 64 bits is excluded.
\<close>

theorem json_format_roundtrip:
  assumes "out_members_ok ms" and "bstr_wf s" and "length (json_text sg ms) \<le> sow_Available s"
  shows "\<exists>t kvs. json_write sow_Insert sg ms (to_make s p) = Inr t
    \<and> bstr_text (to_writer t) = bstr_text s @ json_text sg ms \<and> ep_failed (to_errorPolicy t) = ep_failed p
    \<and> jo_members (json_text sg ms) False = Inr (kvs, False) \<and> reads_members ms kvs"
proof -
  have len: "length (json_text sg ms) < 2 ^ 32" using room_is_bounded [OF assms(2,3)] .
  obtain t where "json_write sow_Insert sg ms (to_make s p) = Inr t" "bstr_text (to_writer t) = bstr_text s @ json_text sg ms"
    "ep_failed (to_errorPolicy t) = ep_failed p"
    using printed_to_string [OF stream_sink.emits_write [OF sow.stream_sink_axioms assms(1)] assms(2,3)] by blast
  moreover have "reads_as (OObject ms) (doc_value (out_doc sg (OObject ms)))"
    using values_read(1) [of "OObject ms" sg] assms(1) len by (simp add: json_text_def)
  then obtain kvs where "jo_members (json_text sg ms) False = Inr (kvs, False)" "reads_members ms kvs"
    by (auto simp: doc_value_def json_text_def split: sum.splits)
  ultimately show ?thesis by blast
qed

theorem json_format_roundtrip_witness:
  "\<exists>t kvs. json_write sow_Insert True (OMember [97] (OArray (OItem (OInt (- 5)) (OItem (OText [34]) NoOutItem))) NoOut)
        (to_make \<lparr>bstr_range = replicate 40 0, bstr_length = 0\<rparr> (ep_make FailSoft)) = Inr t
    \<and> bstr_text (to_writer t) = [123, 32, 34, 97, 34, 58, 91, 32, 45, 53, 44, 32, 34, 92, 34, 34, 32, 93, 32, 125]
    \<and> jo_members [123, 32, 34, 97, 34, 58, 91, 32, 45, 53, 44, 32, 34, 92, 34, 34, 32, 93, 32, 125] False = Inr (kvs, False)
    \<and> reads_members (OMember [97] (OArray (OItem (OInt (- 5)) (OItem (OText [34]) NoOutItem))) NoOut) kvs"
proof -
  let ?ms = "OMember [97] (OArray (OItem (OInt (- 5)) (OItem (OText [34]) NoOutItem))) NoOut"
  let ?s = "\<lparr>bstr_range = replicate 40 (0 :: byte), bstr_length = 0\<rparr>"
  have five: "decimal 5 = [53]" by (simp add: decimal_def radix_digits.simps hexChars_def)
  have ms_text: "json_text True ?ms = [123, 32, 34, 97, 34, 58, 91, 32, 45, 53, 44, 32, 34, 92, 34, 34, 32, 93, 32, 125]"
    by (simp add: json_text_def doc_text_def member_lexemes_def five json_escapes_def charactersToEscape_def json_escape_def)
  have ok: "out_members_ok ?ms" by simp
  have wf: "bstr_wf ?s" by (simp add: bstr_wf_defs size_limit_def)
  have room: "length (json_text True ?ms) \<le> sow_Available ?s"
    unfolding ms_text by (simp add: sow_Available_def bstr_max_size_def bstr_size_def)
  have "bstr_text ?s = []" by (simp add: bstr_text_def)
  with json_format_roundtrip [OF ok wf room, of "ep_make FailSoft"] show ?thesis unfolding ms_text by auto
qed

text \<open>
  C21. A formatter that is moved forgets that it has printed members: the constructor that moves does not take over \<^verbatim>\<open>empty\<close>. The next
  member is printed without a comma, and a reader finds the members up to the move, and then an error.
\<close>

theorem json_moved_formatter_loses_comma:
  assumes "js_body k" and "out_ok v" and "out_members_ok ms" and "ms \<noteq> NoOut"
    and "bstr_wf s" and "length (moved_text sg k v ms) \<le> sow_Available s"
  shows "\<exists>t. json_write_moved sow_Insert sg k v ms (to_make s p) = Inr t
    \<and> bstr_text (to_writer t) = bstr_text s @ moved_text sg k v ms
    \<and> jo_members (moved_text sg k v ms) False = Inr ([(k, doc_value (out_doc sg v))], True)"
  using printed_to_string [OF stream_sink.emits_write_moved [OF sow.stream_sink_axioms assms(2,3)] assms(5,6)]
    moved_is_read [OF assms(1-4) room_is_bounded [OF assms(5,6)]] by blast

theorem json_moved_formatter_loses_comma_witness:
  "\<exists>t. json_write_moved sow_Insert True [97] (OBool True) (OMember [98] (OBool True) NoOut)
        (to_make \<lparr>bstr_range = replicate 40 0, bstr_length = 0\<rparr> (ep_make FailSoft)) = Inr t
    \<and> bstr_text (to_writer t) = [123, 32, 34, 97, 34, 58, 116, 114, 117, 101, 34, 98, 34, 58, 116, 114, 117, 101, 32, 125]
    \<and> jo_members (bstr_text (to_writer t)) False = Inr ([([97], VBool True)], True)"
proof -
  let ?ms = "OMember [98] (OBool True) NoOut"
  let ?s = "\<lparr>bstr_range = replicate 40 (0 :: byte), bstr_length = 0\<rparr>"
  have m: "moved_text True [97] (OBool True) ?ms =
      [123, 32, 34, 97, 34, 58, 116, 114, 117, 101, 34, 98, 34, 58, 116, 114, 117, 101, 32, 125]"
    by (simp add: moved_text_def put_text_def doc_text_def)
  have wf: "bstr_wf ?s" by (simp add: bstr_wf_defs size_limit_def)
  have room: "length (moved_text True [97] (OBool True) ?ms) \<le> sow_Available ?s"
    unfolding m by (simp add: sow_Available_def bstr_max_size_def bstr_size_def)
  have "bstr_text ?s = []" by (simp add: bstr_text_def)
  with json_moved_formatter_loses_comma [OF _ _ _ _ wf room, of "ep_make FailSoft"] show ?thesis
    unfolding m by (auto simp: doc_value_def)
qed

end
