(* ===== verification/Spec2Isabelle.thy ===== *)
theory Spec2Isabelle
  imports Memory_Range Cyclic_Buffer Bounded_Deque Byte_Codecs Sesame_Window_Flow Irq_Stream Calendar Timer_Progress Proto_Messages
    Intrusive_Forward_List Claimable_Resource Event_Dispatcher Bounded_String_Search
    Derived_Timers Tick_Timer Alarm_Retry
    Json_Roundtrip
begin

text \<open>
  \<^bold>\<open>The program.\<close> amp-embedded-infra-lib is a C++ library for embedded systems without a heap: containers of bounded size, streams, timers, queues
  between interrupts and the program (infra), and services on top of them (services), among them Sesame, a protocol for
  messages over a serial line. This development models these parts and proves what they promise.

  \<^bold>\<open>How the code is modelled.\<close> Each class is a record with its members, each function a definition of the same name with a prefix for the class. A
  call that may fail is a \<open>result\<close>: the faults are failing assertions, aborts and undefined behaviour (Prelude). Objects that call each other are
  one state. What a class calls and is not part of it (the reader below a wrapper, the observer, the actions of timers) is an argument, and what is
  promised of it the assumptions of a locale, which is interpreted on the definitions that model the classes of the library. Sizes
  are natural numbers where no operation can overflow, words or integers with the wrap-around written out where it matters.

  \<^bold>\<open>Storage and containers\<close> (infra/util).
  \<^item> Prelude: bytes, faults, signed division, copying, circular storage read as a list.
  \<^item> Memory\_Range: MemoryRange.hpp, the ranges that all other parts pass around; cutting, searching, intersecting.
  \<^item> Cyclic\_Buffer: CyclicBuffer.hpp; it refines a list with a bound.
  \<^item> Static\_Storage: StaticStorage.hpp, slots with or without an object.
  \<^item> Bounded\_Vector, Bounded\_Deque: BoundedVector.hpp and BoundedDeque.hpp with their loops that construct, move and destroy elements; every
    operation refines the operation on lists, or fails its assertion, or (two cases) assigns to storage without an object.

  \<^item> Bounded\_String: BoundedString.hpp, the operations that change a string; any sequence of them refines a list of bounded length. replace, assign from a position and
    erase past the end do not do what they mean, and theorems say what they do. Sizes are unsigned with 32 bits here.
  \<^item> Bounded\_String\_Search: comparing and searching in the same file; the order is lexicographic, the searches find the first or the last position.

  \<^bold>\<open>Linked lists\<close> (infra/util). Nodes are addresses, and a store gives the links of each.
  \<^item> Intrusive\_List: IntrusiveList.hpp; any sequence of operations on the links is that sequence on a list of addresses. Where this fails (swap, taking the only
    element from the back) theorems say how.
  \<^item> Intrusive\_Forward\_List: IntrusiveForwardList.hpp, likewise, with the loops of erase\_slow, assign and the comparisons.

  \<^bold>\<open>Streams\<close> (infra/stream).
  \<^item> Stream\_Readers: the contract of a reader as a locale, the error policy, the readers of ranges, strings, vectors and deques.
  \<^item> Stream\_Wrappers: LimitedInputStream, CountingInputStream, BufferingStreamReader over any reader.
  \<^item> Stream\_Writers: the contract of a writer, the writers to vectors, deques and ranges, LimitedOutputStream, BufferingStreamWriter, and
    SavedMarkerStream, which inserts at a place that was passed.
  \<^item> Text\_Output, Text\_Input: the text streams of OutputStream.cpp and InputStream.cpp; numbers of every width that are printed, in decimal or hexadecimal, are read back
    from the bytes that were written.
  \<^item> Byte\_Text, Byte\_Codecs: hexadecimal and Base64 text of bytes, with the round trips.

  \<^item> String\_Writer: StringOutputStream.cpp; the writer to a BoundedString keeps the same contracts.

  \<^bold>\<open>JSON\<close> (infra/syntax).
  \<^item> Json\_Tokens: Json.cpp, the tokenizer and the characters of strings. A text is described by its parts and any white space between them, and the
    tokenizer finds the parts; every string it returns can be read to its end.
  \<^item> Json\_Objects, Json\_Arrays: the iterators over the members of an object and the values of an array, looking up members, arrays of one type. What is
    nested is skipped by counting braces or brackets in 32 bits.
  \<^item> Json\_Documents: objects and arrays in each other, to any depth, and what they mean (numbers by their decimal digits and sign); the iterators read them so.
    Documents have no exponents, which the tokenizer does not know, and fewer than \<open>2 ^ 32\<close> bytes. GetIntegerAs; what ValidJsonObject does not see.
  \<^item> Json\_Escape: EscapeCharacterHelper.cpp and the escapes of JsonFormatter.cpp, on texts; the sizes of escaped texts; what is escaped is read back.
  \<^item> Json\_Formatter: JsonFormatter.cpp; a formatter is whether it has a stream and whether it has printed members, and the stream is passed through all
    formatters that print to it. What a client prints is described by \<^verbatim>\<open>json_out\<close>, and its document by \<^verbatim>\<open>out_doc\<close>.
  \<^item> Json\_Roundtrip: what the formatters print to a string is read by the iterators; what goes wrong when a formatter moves.

  \<^bold>\<open>Protocol buffers\<close> (infra/syntax).
  \<^item> Proto\_Formatter: ProtoFormatter.cpp; numbers, fields, and messages in fields whose length is inserted behind their tag when they are complete.
  \<^item> Proto\_Parser: ProtoParser.cpp, over any reader, through a stack of limited readers.
  \<^item> Proto\_Messages: what is written is read, also nested; errors.

  \<^bold>\<open>Sesame\<close> (services/util).
  \<^item> Cobs\_Code: the COBS code as functions on lists: encoding, cutting a byte sequence at its zeros, decoding what is between them. They are the
    specification of the next two. A decoder with a state, byte by byte, stands between it and the code.
  \<^item> Sesame\_Cobs, Sesame\_Cobs\_Send: SesameCobs.cpp; receiving passes on the messages that the delimited frames of any byte sequence decode to, and fails only where one does
    not fit; sending emits the code of the message, and the two together deliver the message. The serial line may deliver its bytes in any pieces.
  \<^item> Sesame\_Windowed: SesameWindowed.cpp with its states, initialisation and windows.
  \<^item> Sesame\_Window\_Flow: two peers and the messages between them, as a step relation; no peer fails, credit is conserved, messages arrive in
    order, and the peers never wait for each other for ever. Peers that start at the same time break the accounting.

  \<^bold>\<open>Interrupts\<close> (infra/event).
  \<^item> Interrupts: programs as sequences of accesses to shared state, with interrupts between any two of them.
  \<^item> Irq\_Queue, Irq\_Stream: QueueForOneReaderOneIrqWriter.hpp and its stream; nothing is lost or reordered, and the reader is told of all data.

  \<^bold>\<open>Events\<close> (infra/event).
  \<^item> Event\_Dispatcher: EventDispatcher.cpp, the queue of actions, as a step relation with one access to the shared variables per step of any number of threads and
    the worker; while there is room every action is called once and in order, and an overflow fails an assertion.
  \<^item> Claimable\_Resource: ClaimableResource.cpp over the store of Intrusive\_List; it refines a queue of claims with one holder.

  \<^bold>\<open>Time\<close> (infra/timer).
  \<^item> Partitioned\_Time, Calendar: PartitionedTime.cpp; it agrees with the Gregorian calendar, day by day, from the year 0 to the year 32767.
  \<^item> Timers, Timer\_Progress: Timer.cpp, TimerService.cpp and the timers derived from Timer; the service always knows the earliest trigger
    time, and triggers the timers that are due in order, whatever their actions cancel or start for later.
  \<^item> Derived\_Timers: DerivedTimerService.cpp and ScalableDerivedTimerService.cpp over a base service; shifting keeps the times of the base, and a scaled
    service can stand still.
  \<^item> Tick\_Timer: TickOnInterruptTimerService.cpp, as steps of one access each between which the tick interrupt may come; no tick is lost, and a timer waits at
    most one tick too long.
  \<^item> Alarm\_Retry: TimerAlarm.cpp, which triggers at its time of the day, and RetryPolicy.cpp and Retry.hpp with bounds on the delays.

  \<^bold>\<open>Interaction.\<close> Sesame\_Windowed keeps received messages in a Bounded\_Deque and reads them through Stream\_Readers; Sesame\_Cobs writes to a Bounded\_Vector and a
  Bounded\_Deque through the same contracts; the text streams work over any reader and writer that meets its contract; Irq\_Stream is read like any other
  reader. Claimable\_Resource queues its claimers in an Intrusive\_List and schedules one event at a time on the dispatcher of Event\_Dispatcher, of which it only needs
  that an event that is scheduled is run once; Irq\_Queue counts its events in the same way.

  \<^bold>\<open>Loops, fuel and bounds.\<close> Loops are recursive functions with a termination proof. Where a loop ends depends on what is called (readers that hand out their bytes in
  pieces, the actions of timers), the loop has fuel, \<open>OutOfFuel\<close> is the outcome when it is used up, and the theorems say how much is enough: the number
  of bytes that are available and one, the number of timers that are due. Enough fuel is always a number known from the state.

  \<^bold>\<open>Not modelled.\<close> Code that only drives hardware, an operating system or a library outside of the repository (hal, osal, lwip, the wrappers of mbed TLS), the
  generators of code (protobuf/protoc\_echo\_plugin), programs for the host (upgrade/pack\_builder, echo\_console, cucumber), and, of the library's own logic,
  the services over a network, flash storage (CyclicStore, ConfigurationStore), parsing
  JSON as a stream and the formats of infra/syntax other than JSON and protocol buffers, merging and comparing JSON objects and CleanJsonContents, the trees and the lists with a pool of nodes, reference counted pointers and type-erased functions. The streams of floating point numbers are left out of
  the text streams, for they are computed in floating point arithmetic.
\<close>

end
